(* ===== verification/Prelude.thy ===== *)
theory Prelude
  imports Main "HOL-Library.Word"
begin

text \<open>
  Shared vocabulary of the development: byte strings, Python exceptions as values of a sum
  type, sequential composition of fallible steps, and the pieces of the Python language and
  standard library the sources use (list indexing with negative indices, \<open>int.to_bytes\<close>,
  \<open>int.from_bytes\<close>, \<open>bytes.hex\<close>, \<open>bytes.fromhex\<close>), with the lemmas every component shares.

  The collection \<open>res_simps\<close> holds the rewrite rules of the exception monad; component
  proofs use it as \<open>simp add: res_simps\<close>.
\<close>

section \<open>Byte strings and exceptions\<close>

type_synonym byte = "8 word"
type_synonym bytes = "byte list"

text \<open>
  The exceptions the modelled code raises or lets escape. The first block is the
  package's own (\<^verbatim>\<open>cll.checkpoint.core\<close>, \<^verbatim>\<open>cll.checkpoint.emit\<close>, \<^verbatim>\<open>cll.checkpoint.bundle\<close>,
  \<^verbatim>\<open>cll.cbor\<close>, \<^verbatim>\<open>cll.ledger\<close>), the second the error codes of \<^verbatim>\<open>cll.log\<close>, the third
  Python's built-in exceptions (\<open>HTTPError\<close> with its status), and \<open>LibraryError\<close> any exception
  of a third-party package.
\<close>

datatype py_error =
    InvalidArgumentError
  | IntegrityError
  | CheckpointError
  | RollbackError
  | BundleError
  | DuplicateMapKeyError
  | ReceiptEncodingError
  | AdmissionRejected string
  | SegmentRotationError
  | SegmentUnmounted
  | WitnessContinuityRefused
  | SigningKeyUnavailable
  | DuplicateRecord
  | LedgerCorrupt
  | NotFoundError
  | InvalidError
  | CorruptError
  | ClosedError
  | ContentionError
  | RejectedError
  | UnsupportedError
  | IndexError
  | KeyError
  | ValueError
  | TypeError
  | AttributeError
  | OverflowError
  | OSError
  | RuntimeError
  | RecursionError
  | NotImplementedError
  | HTTPError int
  | DatabaseError
  | LibraryError

type_synonym 'a res = "py_error + 'a"

named_theorems res_simps \<open>rewriting fallible computations\<close>

definition bindR :: "'e + 'a \<Rightarrow> ('a \<Rightarrow> 'e + 'b) \<Rightarrow> 'e + 'b" where
  "bindR m f = (case m of Inl e \<Rightarrow> Inl e | Inr x \<Rightarrow> f x)"

lemma bindR_Inr [simp, res_simps]: "bindR (Inr x) f = f x"
  by (simp add: bindR_def)

lemma bindR_Inl [simp, res_simps]: "bindR (Inl e) f = Inl e"
  by (simp add: bindR_def)

lemma bindR_eq_Inr [res_simps]: "bindR m f = Inr y \<longleftrightarrow> (\<exists>x. m = Inr x \<and> f x = Inr y)"
  by (cases m) auto

lemma bindR_eq_Inl [res_simps]:
  "bindR m f = Inl e \<longleftrightarrow> m = Inl e \<or> (\<exists>x. m = Inr x \<and> f x = Inl e)"
  by (cases m) auto

lemma bindR_assoc: "bindR (bindR m f) g = bindR m (\<lambda>x. bindR (f x) g)"
  by (cases m) auto

lemma bindR_cong [fundef_cong]:
  "m = m' \<Longrightarrow> (\<And>x. m' = Inr x \<Longrightarrow> f x = f' x) \<Longrightarrow> bindR m f = bindR m' f'"
  by (cases m') auto

text \<open>A comprehension or loop that runs a fallible body on every element, in order, and
  stops at the first exception.\<close>

fun mapR :: "('a \<Rightarrow> 'e + 'b) \<Rightarrow> 'a list \<Rightarrow> 'e + 'b list" where
  "mapR f [] = Inr []"
| "mapR f (x # xs) = bindR (f x) (\<lambda>y. bindR (mapR f xs) (\<lambda>ys. Inr (y # ys)))"

text \<open>A loop that threads a state through a fallible body.\<close>

fun foldR :: "('s \<Rightarrow> 'a \<Rightarrow> 'e + 's) \<Rightarrow> 's \<Rightarrow> 'a list \<Rightarrow> 'e + 's" where
  "foldR f s [] = Inr s"
| "foldR f s (x # xs) = bindR (f s x) (\<lambda>s'. foldR f s' xs)"

text \<open>\<^verbatim>\<open>try: ... except Exception: return False\<close> around a boolean computation.\<close>

definition or_false :: "'e + bool \<Rightarrow> bool" where
  "or_false m = (case m of Inl _ \<Rightarrow> False | Inr b \<Rightarrow> b)"

lemma or_false_simps [simp]: "or_false (Inr b) = b" "or_false (Inl e) = False"
  by (simp_all add: or_false_def)

lemma or_false_iff: "or_false m \<longleftrightarrow> m = Inr True"
  by (cases m) (auto simp: or_false_def)

lemma mapR_eq_Inr: "mapR f xs = Inr ys \<longleftrightarrow> list_all2 (\<lambda>x y. f x = Inr y) xs ys"
  by (induction xs arbitrary: ys) (auto simp: res_simps list_all2_Cons1)

lemma mapR_Inr [simp]: "(\<And>x. x \<in> set xs \<Longrightarrow> f x = Inr (g x)) \<Longrightarrow> mapR f xs = Inr (map g xs)"
  by (induction xs) auto

lemma mapR_length: "mapR f xs = Inr ys \<Longrightarrow> length ys = length xs"
  by (auto simp: mapR_eq_Inr dest: list_all2_lengthD)

lemma mapR_nth: "mapR f xs = Inr ys \<Longrightarrow> i < length xs \<Longrightarrow> f (xs ! i) = Inr (ys ! i)"
  by (auto simp: mapR_eq_Inr dest: list_all2_nthD)

lemma bindR_Inr_id [simp]: "bindR m Inr = m"
  by (cases m) auto

lemma mapR_append:
  "mapR f (xs @ ys) = bindR (mapR f xs) (\<lambda>us. bindR (mapR f ys) (\<lambda>vs. Inr (us @ vs)))"
  by (induction xs) (auto simp: bindR_assoc res_simps)

lemma foldR_append: "foldR f s (xs @ ys) = bindR (foldR f s xs) (\<lambda>s'. foldR f s' ys)"
  by (induction xs arbitrary: s) (simp_all add: bindR_assoc)

lemma foldR_invariant:
  assumes "foldR f s xs = Inr s'" "P s"
    and "\<And>s x s'. P s \<Longrightarrow> x \<in> set xs \<Longrightarrow> f s x = Inr s' \<Longrightarrow> P s'"
  shows "P s'"
  using assms
proof (induction xs arbitrary: s)
  case (Cons x xs)
  from Cons.prems(1) obtain t where t: "f s x = Inr t" "foldR f t xs = Inr s'"
    by (auto simp: bindR_eq_Inr)
  have "P t"
    using Cons.prems(3) [OF Cons.prems(2) _ t(1)] by simp
  then show ?case
    by (rule Cons.IH [OF t(2)]) (rule Cons.prems(3), simp_all)
qed simp

section \<open>Python lists\<close>

text \<open>\<^verbatim>\<open>xs[i]\<close>: a negative index counts from the end, anything else out of range raises.\<close>

definition py_index :: "'a list \<Rightarrow> int \<Rightarrow> 'a res" where
  "py_index xs i =
     (if 0 \<le> i \<and> i < int (length xs) then Inr (xs ! nat i)
      else if i < 0 \<and> - int (length xs) \<le> i then Inr (xs ! nat (int (length xs) + i))
      else Inl IndexError)"

lemma py_index_in [simp]:
  "0 \<le> i \<Longrightarrow> i < int (length xs) \<Longrightarrow> py_index xs i = Inr (xs ! nat i)"
  by (simp add: py_index_def)

lemma py_index_out: "int (length xs) \<le> i \<Longrightarrow> py_index xs i = Inl IndexError"
  by (simp add: py_index_def)

lemma py_index_append:
  "0 \<le> i \<Longrightarrow> i < int (length xs) \<Longrightarrow> py_index (xs @ ys) i = py_index xs i"
  by (simp add: nth_append nat_less_iff)

section \<open>Integers as bytes\<close>

fun be_bytes :: "nat \<Rightarrow> nat \<Rightarrow> bytes" where
  "be_bytes 0 n = []"
| "be_bytes (Suc k) n = be_bytes k (n div 256) @ [of_nat n]"

definition be_value :: "bytes \<Rightarrow> nat" where
  "be_value bs = foldl (\<lambda>a b. a * 256 + unat b) 0 bs"

text \<open>\<^verbatim>\<open>n.to_bytes(k, "big")\<close> raises when \<open>n\<close> is negative or does not fit.\<close>

definition to_bytes_big :: "int \<Rightarrow> nat \<Rightarrow> bytes res" where
  "to_bytes_big n k =
     (if n < 0 \<or> 256 ^ k \<le> n then Inl OverflowError else Inr (be_bytes k (nat n)))"

lemma length_be_bytes [simp]: "length (be_bytes k n) = k"
  by (induction k arbitrary: n) auto

lemma be_value_Nil [simp]: "be_value [] = 0"
  by (simp add: be_value_def)

lemma be_value_snoc [simp]: "be_value (bs @ [b]) = be_value bs * 256 + unat b"
  by (simp add: be_value_def)

lemma be_value_be_bytes: "n < 256 ^ k \<Longrightarrow> be_value (be_bytes k n) = n"
proof (induction k arbitrary: n)
  case 0
  then show ?case by simp
next
  case (Suc k)
  then have "n div 256 < 256 ^ k"
    by (simp add: less_mult_imp_div_less mult.commute)
  then have "be_value (be_bytes k (n div 256)) = n div 256"
    by (rule Suc.IH)
  then show ?case by (simp add: unat_of_nat take_bit_eq_mod)
qed

lemma be_bytes_inject:
  "m < 256 ^ k \<Longrightarrow> n < 256 ^ k \<Longrightarrow> be_bytes k m = be_bytes k n \<longleftrightarrow> m = n"
  by (metis be_value_be_bytes)

lemma be_value_bound: "be_value bs < 256 ^ length bs"
proof (induction bs rule: rev_induct)
  case (snoc b bs)
  have "unat b < 256"
    using unsigned_less [of b] by simp
  with snoc show ?case by simp
qed simp

lemma to_bytes_big_ok: "0 \<le> n \<Longrightarrow> n < 256 ^ k \<Longrightarrow> to_bytes_big n k = Inr (be_bytes k (nat n))"
  by (simp add: to_bytes_big_def)

lemma append_eq_length:
  "length a = length c \<Longrightarrow> a @ b = c @ d \<longleftrightarrow> a = c \<and> b = d"
  by simp

section \<open>Hexadecimal text\<close>

definition hex_digit :: "nat \<Rightarrow> char" where
  "hex_digit n = ''0123456789abcdef'' ! n"

definition hex_value :: "char \<Rightarrow> nat option" where
  "hex_value c =
     (let n = of_char c :: nat in
      if 48 \<le> n \<and> n \<le> 57 then Some (n - 48)
      else if 97 \<le> n \<and> n \<le> 102 then Some (n - 87)
      else if 65 \<le> n \<and> n \<le> 70 then Some (n - 55)
      else None)"

text \<open>\<^verbatim>\<open>b.hex()\<close>: two lowercase digits per byte.\<close>

fun to_hex :: "bytes \<Rightarrow> string" where
  "to_hex [] = []"
| "to_hex (b # bs) = hex_digit (unat b div 16) # hex_digit (unat b mod 16) # to_hex bs"

text \<open>The characters \<^verbatim>\<open>bytes.fromhex\<close> skips between bytes: space, tab, line feed, vertical
  tab, form feed and carriage return.\<close>

definition is_space :: "char \<Rightarrow> bool" where
  "is_space c \<longleftrightarrow> (of_char c :: nat) \<in> {32, 9, 10, 11, 12, 13}"

text \<open>\<^verbatim>\<open>bytes.fromhex(s)\<close>: both cases of digit, whitespace between bytes skipped, anything
  else \<^verbatim>\<open>ValueError\<close>.\<close>

fun from_hex :: "string \<Rightarrow> bytes res" where
  "from_hex [] = Inr []"
| "from_hex [c] = (if is_space c then Inr [] else Inl ValueError)"
| "from_hex (c # d # ds) =
     (if is_space c then from_hex (d # ds)
      else case hex_value c of
        None \<Rightarrow> Inl ValueError
      | Some a \<Rightarrow>
          (case hex_value d of
             None \<Rightarrow> Inl ValueError
           | Some b \<Rightarrow> bindR (from_hex ds) (\<lambda>bs. Inr (of_nat (16 * a + b) # bs))))"

lemma hex_digits_ok:
  "list_all (\<lambda>n. hex_value (hex_digit n) = Some n \<and> \<not> is_space (hex_digit n)) [0..<16]"
  by code_simp

lemma hex_digit_value [simp]: "n < 16 \<Longrightarrow> hex_value (hex_digit n) = Some n"
  using hex_digits_ok by (simp add: list_all_iff)

lemma hex_digit_not_space [simp]: "n < 16 \<Longrightarrow> \<not> is_space (hex_digit n)"
  using hex_digits_ok by (simp add: list_all_iff)

lemma unat_byte_less [simp]: "unat (b :: byte) < 256"
  using unsigned_less [of b] by simp

lemma from_hex_to_hex [simp]: "from_hex (to_hex bs) = Inr bs"
proof (induction bs)
  case (Cons b bs)
  have "unat b div 16 < 16"
    by (simp add: less_mult_imp_div_less)
  moreover have "of_nat (16 * (unat b div 16) + unat b mod 16) = b"
    by simp
  ultimately show ?case using Cons by (simp add: of_nat_unat)
qed simp

lemma to_hex_inject [simp]: "to_hex a = to_hex b \<longleftrightarrow> a = b"
  by (metis from_hex_to_hex sum.inject(2))

lemma length_to_hex [simp]: "length (to_hex bs) = 2 * length bs"
  by (induction bs) auto

end
