(* ===== verification/Sha256.thy ===== *)
theory Sha256
  imports Prelude
begin

text \<open>
  \<^verbatim>\<open>hashlib.sha256\<close> of the Python standard library: FIPS 180-4 SHA-256 on byte strings,
  written out on 32-bit words. The proofs use one fact about it (a digest has 32 bytes); where a
  result needs that two texts do not collide, it names them.
\<close>

unbundle bit_operations_syntax

type_synonym word32 = "32 word"

definition rotr :: "nat \<Rightarrow> word32 \<Rightarrow> word32" where
  "rotr n x = drop_bit n x OR push_bit (32 - n) x"

definition ch :: "word32 \<Rightarrow> word32 \<Rightarrow> word32 \<Rightarrow> word32" where
  "ch x y z = (x AND y) XOR (NOT x AND z)"

definition maj :: "word32 \<Rightarrow> word32 \<Rightarrow> word32 \<Rightarrow> word32" where
  "maj x y z = (x AND y) XOR (x AND z) XOR (y AND z)"

definition bsig0 :: "word32 \<Rightarrow> word32" where
  "bsig0 x = rotr 2 x XOR rotr 13 x XOR rotr 22 x"

definition bsig1 :: "word32 \<Rightarrow> word32" where
  "bsig1 x = rotr 6 x XOR rotr 11 x XOR rotr 25 x"

definition ssig0 :: "word32 \<Rightarrow> word32" where
  "ssig0 x = rotr 7 x XOR rotr 18 x XOR drop_bit 3 x"

definition ssig1 :: "word32 \<Rightarrow> word32" where
  "ssig1 x = rotr 17 x XOR rotr 19 x XOR drop_bit 10 x"

definition round_constants :: "word32 list" where
  "round_constants =
    concat [
      [0x428a2f98, 0x71374491, 0xb5c0fbcf, 0xe9b5dba5, 0x3956c25b, 0x59f111f1, 0x923f82a4, 0xab1c5ed5],
      [0xd807aa98, 0x12835b01, 0x243185be, 0x550c7dc3, 0x72be5d74, 0x80deb1fe, 0x9bdc06a7, 0xc19bf174],
      [0xe49b69c1, 0xefbe4786, 0x0fc19dc6, 0x240ca1cc, 0x2de92c6f, 0x4a7484aa, 0x5cb0a9dc, 0x76f988da],
      [0x983e5152, 0xa831c66d, 0xb00327c8, 0xbf597fc7, 0xc6e00bf3, 0xd5a79147, 0x06ca6351, 0x14292967],
      [0x27b70a85, 0x2e1b2138, 0x4d2c6dfc, 0x53380d13, 0x650a7354, 0x766a0abb, 0x81c2c92e, 0x92722c85],
      [0xa2bfe8a1, 0xa81a664b, 0xc24b8b70, 0xc76c51a3, 0xd192e819, 0xd6990624, 0xf40e3585, 0x106aa070],
      [0x19a4c116, 0x1e376c08, 0x2748774c, 0x34b0bcb5, 0x391c0cb3, 0x4ed8aa4a, 0x5b9cca4f, 0x682e6ff3],
      [0x748f82ee, 0x78a5636f, 0x84c87814, 0x8cc70208, 0x90befffa, 0xa4506ceb, 0xbef9a3f7, 0xc67178f2]]"

text \<open>The padding: a one bit, zeros up to 56 bytes modulo 64, the bit length as 8 bytes.\<close>

definition pad :: "bytes \<Rightarrow> bytes" where
  "pad m = m @ [0x80] @ replicate ((119 - length m mod 64) mod 64) 0 @ be_bytes 8 (8 * length m)"

fun to_words :: "bytes \<Rightarrow> word32 list" where
  "to_words (a # b # c # d # bs) =
     (push_bit 24 (ucast a) OR push_bit 16 (ucast b) OR push_bit 8 (ucast c) OR ucast d)
     # to_words bs"
| "to_words bs = []"

text \<open>The message schedule, newest word first.\<close>

fun extend_schedule :: "nat \<Rightarrow> word32 list \<Rightarrow> word32 list" where
  "extend_schedule 0 ws = ws"
| "extend_schedule (Suc n) ws =
     extend_schedule n ((ssig1 (ws ! 1) + ws ! 6 + ssig0 (ws ! 14) + ws ! 15) # ws)"

type_synonym hash_state =
  "word32 \<times> word32 \<times> word32 \<times> word32 \<times> word32 \<times> word32 \<times> word32 \<times> word32"

definition sha_round :: "hash_state \<Rightarrow> word32 \<times> word32 \<Rightarrow> hash_state" where
  "sha_round s kw =
     (case s of (a, b, c, d, e, f, g, h) \<Rightarrow>
        let t1 = h + bsig1 e + ch e f g + fst kw + snd kw;
            t2 = bsig0 a + maj a b c
        in (t1 + t2, a, b, c, d + t1, e, f, g))"

definition sha_block :: "hash_state \<Rightarrow> bytes \<Rightarrow> hash_state" where
  "sha_block s blk =
     (case foldl sha_round s (zip round_constants (rev (extend_schedule 48 (rev (to_words blk))))) of
        (a', b', c', d', e', f', g', h') \<Rightarrow>
          (case s of (a, b, c, d, e, f, g, h) \<Rightarrow>
             (a + a', b + b', c + c', d + d', e + e', f + f', g + g', h + h')))"

fun sha_blocks :: "nat \<Rightarrow> hash_state \<Rightarrow> bytes \<Rightarrow> hash_state" where
  "sha_blocks 0 s m = s"
| "sha_blocks (Suc n) s m = sha_blocks n (sha_block s (take 64 m)) (drop 64 m)"

definition initial_state :: hash_state where
  "initial_state =
     (0x6a09e667, 0xbb67ae85, 0x3c6ef372, 0xa54ff53a, 0x510e527f, 0x9b05688c, 0x1f83d9ab, 0x5be0cd19)"

definition from_word :: "word32 \<Rightarrow> bytes" where
  "from_word w = [ucast (drop_bit 24 w), ucast (drop_bit 16 w), ucast (drop_bit 8 w), ucast w]"

definition sha256 :: "bytes \<Rightarrow> bytes" where
  "sha256 m =
     (case sha_blocks (length (pad m) div 64) initial_state (pad m) of (a, b, c, d, e, f, g, h) \<Rightarrow>
        concat (map from_word [a, b, c, d, e, f, g, h]))"

lemma length_sha256 [simp]: "length (sha256 m) = 32"
  by (simp add: sha256_def from_word_def split: prod.split)

text \<open>The padded message is a whole number of 64-byte blocks.\<close>

lemma pad_blocks: "64 dvd length (pad m)"
proof -
  define r where "r = length m mod 64"
  have "r < 64" by (simp add: r_def)
  have "((119 - r) mod 64 + r + 9) mod 64 = 0"
  proof (cases "r \<le> 55")
    case True
    then have "(119 - r) mod 64 = (64 + (55 - r)) mod 64"
      by (intro arg_cong [where f = "\<lambda>k. k mod 64"]) simp
    also have "\<dots> = 55 - r" by simp
    finally have "(119 - r) mod 64 = 55 - r" .
    with True show ?thesis by simp
  qed (use \<open>r < 64\<close> in simp)
  then have "(length m mod 64 + ((119 - r) mod 64 + 9)) mod 64 = 0"
    by (simp only: r_def add.assoc add.commute add.left_commute)
  then have "(length m + ((119 - r) mod 64 + 9)) mod 64 = 0"
    by (simp only: mod_add_left_eq)
  moreover have "length (pad m) = length m + ((119 - r) mod 64 + 9)"
    by (simp add: pad_def r_def)
  ultimately show ?thesis
    by (simp only: dvd_eq_mod_eq_0)
qed

end
