(* ===== verification/Mmr_Core.thy ===== *)
theory Mmr_Core
  imports Sha256
begin

text \<open>
  \<^verbatim>\<open>cll/checkpoint/core.py\<close>, first half: domain-separated hashing, the position arithmetic of
  a flat Merkle Mountain Range, and appending a leaf. Positions, sizes and leaf indices are
  Python integers (\<open>int\<close>); a height is a loop counter that starts at zero (\<open>nat\<close>). Every
  \<^verbatim>\<open>raise\<close> is an \<open>Inl\<close>.

  The specification side describes a range by the heights of its mountains, left to right:
  \<open>mountains n\<close> are the heights for \<open>n\<close> leaves (the one bits of \<open>n\<close>, highest first),
  \<open>msize h\<close> the node count of a mountain of height \<open>h\<close>, and \<open>peak_positions\<close> where the
  peaks lie.
\<close>

section \<open>Hashing\<close>

definition DIGEST_LEN :: nat where [simp]: "DIGEST_LEN = 32"

definition MAX_MMR_SIZE :: int where "MAX_MMR_SIZE = 2 ^ 50"

definition assert_digest :: "bytes \<Rightarrow> unit res" where
  "assert_digest d = (if length d \<noteq> DIGEST_LEN then Inl InvalidArgumentError else Inr ())"

definition require_nonneg_int :: "int \<Rightarrow> unit res" where
  "require_nonneg_int n = (if n < 0 then Inl InvalidArgumentError else Inr ())"

definition leaf_hash :: "bytes \<Rightarrow> bytes res" where
  "leaf_hash body_digest = bindR (assert_digest body_digest) (\<lambda>_. Inr (sha256 (0 # body_digest)))"

definition interior_hash :: "bytes \<Rightarrow> bytes \<Rightarrow> int \<Rightarrow> bytes res" where
  "interior_hash left right position =
     bindR (assert_digest left) (\<lambda>_.
     bindR (assert_digest right) (\<lambda>_.
     bindR (require_nonneg_int position) (\<lambda>_.
     bindR (to_bytes_big (position + 1) 8) (\<lambda>pos_bytes.
     Inr (sha256 (pos_bytes @ left @ right))))))"

text \<open>The bagging loop of \<^verbatim>\<open>root_from_peaks\<close>, on the list of hashes with its end first: pop
  \<open>right\<close>, pop \<open>left\<close>, push the hash of both.\<close>

fun bag_loop :: "bytes list \<Rightarrow> bytes" where
  "bag_loop (right # left # hashes) = bag_loop (sha256 (right @ left) # hashes)"
| "bag_loop [h] = h"
| "bag_loop [] = []"

definition root_from_peaks :: "bytes list \<Rightarrow> bytes res" where
  "root_from_peaks peak_hashes =
     (if peak_hashes = [] then Inr (replicate DIGEST_LEN 0)
      else bindR (mapR assert_digest peak_hashes) (\<lambda>_. Inr (bag_loop (rev peak_hashes))))"

section \<open>Position arithmetic\<close>

text \<open>\<^verbatim>\<open>height_at\<close>: find the smallest perfect tree that contains the 1-based position, then
  descend.\<close>

lemma less_two_power_minus: "int h < 2 ^ Suc h - 1 \<or> h = 0"
proof (induction h)
  case (Suc h)
  have "(2 :: int) ^ Suc (Suc h) = 2 * 2 ^ Suc h" by simp
  with Suc show ?case by auto
qed simp

function height_grow :: "int \<Rightarrow> nat \<Rightarrow> nat" where
  "height_grow pos1 h = (if 2 ^ (h + 1) - 1 < pos1 then height_grow pos1 (h + 1) else h)"
  by pat_completeness auto
termination
proof (relation "measure (\<lambda>(pos1, h). nat pos1 - h)")
  fix pos1 :: int and h :: nat
  assume "2 ^ (h + 1) - 1 < pos1"
  then have "int h < pos1"
    using less_two_power_minus [of h] by auto
  then show "((pos1, h + 1), pos1, h) \<in> measure (\<lambda>(pos1, h). nat pos1 - h)"
    by simp
qed simp

declare height_grow.simps [simp del]

fun height_descend :: "int \<Rightarrow> nat \<Rightarrow> nat" where
  "height_descend pos1 0 = 0"
| "height_descend pos1 (Suc k) =
     (let h = Suc k; size = 2 ^ (h + 1) - 1; left_size = 2 ^ h - 1 in
      if pos1 = size then h
      else height_descend (if pos1 > left_size then pos1 - left_size else pos1) k)"

definition height_at :: "int \<Rightarrow> nat res" where
  "height_at pos =
     bindR (require_nonneg_int pos) (\<lambda>_.
       let pos1 = pos + 1 in Inr (height_descend pos1 (height_grow pos1 0)))"

text \<open>\<^verbatim>\<open>bin(n).count("1")\<close>\<close>

fun popcount :: "nat \<Rightarrow> nat" where
  "popcount n = (if n = 0 then 0 else n mod 2 + popcount (n div 2))"

declare popcount.simps [simp del]

definition node_count :: "int \<Rightarrow> int res" where
  "node_count leaves =
     bindR (require_nonneg_int leaves) (\<lambda>_.
       Inr (2 * leaves - int (popcount (nat leaves))))"

text \<open>The inner loop of \<^verbatim>\<open>peaks\<close>: the height of the largest mountain that fits.\<close>

function mountain_height :: "int \<Rightarrow> nat \<Rightarrow> nat" where
  "mountain_height remaining h =
     (if 2 ^ (h + 2) - 1 \<le> remaining then mountain_height remaining (h + 1) else h)"
  by pat_completeness auto
termination
proof (relation "measure (\<lambda>(remaining, h). nat remaining - h)")
  fix remaining :: int and h :: nat
  assume "2 ^ (h + 2) - 1 \<le> remaining"
  moreover have "int (Suc h) < 2 ^ Suc (Suc h) - 1"
    using less_two_power_minus [of "Suc h"] by blast
  ultimately have "int h < remaining" by simp
  then show "((remaining, h + 1), remaining, h) \<in> measure (\<lambda>(remaining, h). nat remaining - h)"
    by simp
qed simp

declare mountain_height.simps [simp del]

text \<open>The outer loop of \<^verbatim>\<open>peaks\<close>; \<open>prev_height\<close> is \<open>None\<close> for Python's infinity.\<close>

lemma two_power_pos: "(0 :: int) < 2 ^ (h + 1) - 1"
proof -
  have "(1 :: int) \<le> 2 ^ h" by simp
  moreover have "(2 :: int) ^ (h + 1) = 2 * 2 ^ h" by simp
  ultimately show ?thesis by linarith
qed

function peaks_loop :: "int \<Rightarrow> int \<Rightarrow> nat option \<Rightarrow> int list \<Rightarrow> int list res" where
  "peaks_loop remaining offset prev_height result =
     (if remaining > 0 then
        let h = mountain_height remaining 0 in
        if (case prev_height of None \<Rightarrow> False | Some p \<Rightarrow> p \<le> h) then Inl InvalidArgumentError
        else let m_size = 2 ^ (h + 1) - 1 in
          peaks_loop (remaining - m_size) (offset + m_size) (Some h) (result @ [offset + m_size - 1])
      else Inr result)"
  by pat_completeness auto
termination
proof (relation "measure (\<lambda>(remaining, offset, prev_height, result). nat remaining)")
  fix remaining offset :: int and prev_height :: "nat option" and result :: "int list" and x xa
  assume "0 < remaining" "xa = 2 ^ (x + 1) - (1 :: int)"
  then show "((remaining - xa, offset + xa, Some x, result @ [offset + xa - 1]),
      remaining, offset, prev_height, result)
    \<in> measure (\<lambda>(remaining, offset, prev_height, result). nat remaining)"
    using two_power_pos [of x] by simp
qed simp

declare peaks_loop.simps [simp del]

definition peaks :: "int \<Rightarrow> int list res" where
  "peaks mmr_size =
     (if mmr_size < 0 \<or> mmr_size \<ge> MAX_MMR_SIZE then Inl InvalidArgumentError
      else peaks_loop mmr_size 0 None [])"

definition leaf_count :: "int \<Rightarrow> int res" where
  "leaf_count mmr_size =
     bindR (peaks mmr_size) (\<lambda>pks.
     bindR (mapR height_at pks) (\<lambda>hs. Inr (sum_list (map (\<lambda>h. 2 ^ h) hs))))"

definition leaf_index_to_pos :: "int \<Rightarrow> int res" where
  "leaf_index_to_pos leaf_index =
     bindR (require_nonneg_int leaf_index) (\<lambda>_.
     bindR (node_count leaf_index) (\<lambda>pos.
       if pos \<ge> MAX_MMR_SIZE then Inl InvalidArgumentError else Inr pos))"

definition pos_to_leaf_index :: "int \<Rightarrow> int res" where
  "pos_to_leaf_index pos =
     bindR (height_at pos) (\<lambda>h.
       if h \<noteq> 0 then Inl InvalidArgumentError else leaf_count pos)"

section \<open>Appending a leaf\<close>

text \<open>
  A \<^verbatim>\<open>NodeAppender\<close> is a state with three operations, which \<^verbatim>\<open>add_leaf\<close> calls; they are
  arguments here, and the interface they must meet is the locale \<open>node_store\<close> below. The loop
  carries \<open>new_nodes\<close>, \<open>cur_hash\<close> and \<open>height\<close>; the peaks still to the left are given from
  right to left, so \<^verbatim>\<open>existing_peaks[peak_idx]\<close> is the head of the list.
\<close>

fun merge_loop ::
  "(int \<Rightarrow> bytes res) \<Rightarrow> int \<Rightarrow> int list \<Rightarrow> bytes list \<Rightarrow> bytes \<Rightarrow> nat \<Rightarrow> bytes list res" where
  "merge_loop node leaf_pos [] new_nodes cur_hash height = Inr new_nodes"
| "merge_loop node leaf_pos (left_pos # rest) new_nodes cur_hash height =
     bindR (height_at left_pos) (\<lambda>h.
       if h = height then
         bindR (node left_pos) (\<lambda>left_hash.
           let parent_pos = leaf_pos + int (length new_nodes) in
           bindR (interior_hash left_hash cur_hash parent_pos) (\<lambda>parent_hash.
             merge_loop node leaf_pos rest (new_nodes @ [parent_hash]) parent_hash (height + 1)))
       else Inr new_nodes)"

definition add_leaf ::
  "('s \<Rightarrow> int) \<Rightarrow> ('s \<Rightarrow> int \<Rightarrow> bytes res) \<Rightarrow> ('s \<Rightarrow> bytes list \<Rightarrow> 's) \<Rightarrow>
   's \<Rightarrow> bytes \<Rightarrow> (int \<times> bytes list \<times> 's) res" where
  "add_leaf size_of node append_nodes nodes leaf =
     bindR (assert_digest leaf) (\<lambda>_.
       let size = size_of nodes in
       bindR (if size = 0 then Inr [] else peaks size) (\<lambda>existing_peaks.
       bindR (merge_loop (node nodes) size (rev existing_peaks) [leaf] leaf 0) (\<lambda>new_nodes.
       Inr (size, new_nodes, append_nodes nodes new_nodes))))"

end
