(* ===== verification/Mmr_Positions.thy ===== *)
theory Mmr_Positions
  imports Mmr_Core
begin

text \<open>
  The position arithmetic of \<open>Mmr_Core\<close> against its specification: a valid size is a strictly
  decreasing sequence of mountains, \<open>peaks\<close> finds exactly that sequence, \<open>height_at\<close> reads the
  recursive height sequence, and leaf counts, node counts and leaf positions are mutually
  inverse.
\<close>

section \<open>Mountains\<close>

definition msize :: "nat \<Rightarrow> int" where
  "msize h = 2 ^ (h + 1) - 1"

definition nodes_of :: "nat list \<Rightarrow> int" where
  "nodes_of hs = sum_list (map msize hs)"

definition leaves_of :: "nat list \<Rightarrow> nat" where
  "leaves_of hs = sum_list (map (\<lambda>h. 2 ^ h) hs)"

fun peak_positions :: "int \<Rightarrow> nat list \<Rightarrow> int list" where
  "peak_positions off [] = []"
| "peak_positions off (h # hs) = (off + msize h - 1) # peak_positions (off + msize h) hs"

fun mountains :: "nat \<Rightarrow> nat list" where
  "mountains n =
     (if n = 0 then [] else map Suc (mountains (n div 2)) @ (if odd n then [0] else []))"

declare mountains.simps [simp del]

abbreviation desc :: "nat list \<Rightarrow> bool" where
  "desc hs \<equiv> sorted_wrt (>) hs"

lemma msize_0 [simp]: "msize 0 = 1"
  by (simp add: msize_def)

lemma msize_Suc: "msize (Suc h) = 2 * msize h + 1"
  by (simp add: msize_def)

lemma msize_pos: "0 < msize h" "1 \<le> msize h" "0 \<le> msize h"
  using two_power_pos [of h] by (simp_all add: msize_def)

lemma msize_mono: "h \<le> k \<Longrightarrow> msize h \<le> msize k"
  unfolding msize_def by (intro diff_right_mono power_increasing) auto

lemma msize_ge: "int h < msize h"
  by (induction h) (simp_all add: msize_Suc)

lemma nodes_of_simps [simp]: "nodes_of [] = 0" "nodes_of (h # hs) = msize h + nodes_of hs"
  "nodes_of (xs @ ys) = nodes_of xs + nodes_of ys"
  by (simp_all add: nodes_of_def)

lemma leaves_of_simps [simp]: "leaves_of [] = 0" "leaves_of (h # hs) = 2 ^ h + leaves_of hs"
  "leaves_of (xs @ ys) = leaves_of xs + leaves_of ys"
  by (simp_all add: leaves_of_def)

lemma nodes_of_nonneg: "0 \<le> nodes_of hs"
  by (induction hs) (auto intro: add_nonneg_nonneg msize_pos)

lemma nodes_of_ge_length: "int (length hs) \<le> nodes_of hs"
proof (induction hs)
  case (Cons h hs)
  then show ?case using msize_pos(2) [of h] by simp
qed simp

lemma length_peak_positions [simp]: "length (peak_positions off hs) = length hs"
  by (induction hs arbitrary: off) auto

lemma peak_positions_append:
  "peak_positions off (xs @ ys) = peak_positions off xs @ peak_positions (off + nodes_of xs) ys"
  by (induction xs arbitrary: off) (simp_all add: algebra_simps)

lemma desc_nodes: "desc hs \<Longrightarrow> \<forall>h\<in>set hs. h < k \<Longrightarrow> nodes_of hs \<le> msize k - 1"
proof (induction hs arbitrary: k)
  case Nil
  then show ?case using msize_pos [of k] by simp
next
  case (Cons h hs)
  then have "nodes_of hs \<le> msize h - 1" by simp
  moreover have "msize (Suc h) \<le> msize k"
    using Cons.prems(2) by (intro msize_mono) simp
  ultimately show ?case by (simp add: msize_Suc)
qed

lemma desc_leaves: "desc hs \<Longrightarrow> \<forall>h\<in>set hs. h < k \<Longrightarrow> leaves_of hs < 2 ^ k"
proof (induction hs arbitrary: k)
  case Nil
  then show ?case by simp
next
  case (Cons h hs)
  then have "leaves_of hs < 2 ^ h" by simp
  moreover have "(2 :: nat) ^ Suc h \<le> 2 ^ k"
    using Cons.prems(2) by (intro power_increasing) auto
  ultimately show ?case by simp
qed

lemma desc_leaves_inject:
  "desc hs \<Longrightarrow> desc hs' \<Longrightarrow> leaves_of hs = leaves_of hs' \<Longrightarrow> hs = hs'"
proof (induction hs arbitrary: hs')
  case Nil
  then show ?case by (cases hs') auto
next
  case (Cons h hs)
  then obtain h' t' where hs': "hs' = h' # t'" by (cases hs') auto
  have b: "leaves_of hs < 2 ^ h" "leaves_of t' < 2 ^ h'"
    using Cons.prems(1,2) hs' by (auto intro!: desc_leaves)
  have "h = h'"
  proof (rule ccontr)
    assume "h \<noteq> h'"
    then consider "Suc h \<le> h'" | "Suc h' \<le> h" by linarith
    then show False
    proof cases
      case 1
      then have "(2 :: nat) ^ Suc h \<le> 2 ^ h'" by (intro power_increasing) auto
      with b Cons.prems(3) hs' show False by simp
    next
      case 2
      then have "(2 :: nat) ^ Suc h' \<le> 2 ^ h" by (intro power_increasing) auto
      with b Cons.prems(3) hs' show False by simp
    qed
  qed
  with Cons hs' show ?case by simp
qed

lemma leaves_of_map_Suc: "leaves_of (map Suc hs) = 2 * leaves_of hs"
  by (induction hs) auto

lemma mountains_0 [simp]: "mountains 0 = []"
  by (simp add: mountains.simps)

lemma popcount_0 [simp]: "popcount 0 = 0"
  by (simp add: popcount.simps)

lemma leaves_of_mountains [simp]: "leaves_of (mountains n) = n"
proof (induction n rule: mountains.induct)
  case (1 n)
  then show ?case
    by (subst mountains.simps) (auto simp: leaves_of_map_Suc)
qed

lemma desc_mountains [simp]: "desc (mountains n)"
proof (induction n rule: mountains.induct)
  case (1 n)
  then show ?case
    by (subst mountains.simps) (auto simp: sorted_wrt_append sorted_wrt_map)
qed

lemma length_mountains: "length (mountains n) = popcount n"
proof (induction n rule: mountains.induct)
  case (1 n)
  then show ?case
    by (subst mountains.simps, subst popcount.simps) (auto simp: odd_iff_mod_2_eq_one)
qed

lemma nodes_of_leaves: "nodes_of hs = 2 * int (leaves_of hs) - int (length hs)"
  by (induction hs) (auto simp: msize_def)

lemma nodes_of_mountains: "nodes_of (mountains n) = 2 * int n - int (popcount n)"
  by (simp add: nodes_of_leaves length_mountains)

lemma mountains_unique: "desc hs \<Longrightarrow> mountains (leaves_of hs) = hs"
  by (rule desc_leaves_inject) auto

lemma node_count_mountains: "node_count (int n) = Inr (nodes_of (mountains n))"
  by (simp add: node_count_def require_nonneg_int_def nodes_of_mountains)

lemma desc_bounded: "desc hs \<Longrightarrow> \<exists>k. \<forall>h\<in>set hs. h < k"
  by (rule exI [of _ "Suc (Max (set hs))"]) (simp add: less_Suc_eq_le)

section \<open>The peaks loop\<close>

lemma mountain_height_bounds:
  "msize k \<le> r \<Longrightarrow>
   msize (mountain_height r k) \<le> r \<and> r < msize (Suc (mountain_height r k))"
proof (induction r k rule: mountain_height.induct)
  case (1 r h)
  show ?case
  proof (cases "2 ^ (h + 2) - 1 \<le> r")
    case True
    then have "msize (h + 1) \<le> r" by (simp add: msize_def)
    with 1 True show ?thesis by (simp add: mountain_height.simps [of r h])
  next
    case False
    with 1 show ?thesis by (simp add: mountain_height.simps [of r h] msize_def)
  qed
qed

lemma mountain_height_eq: "msize h \<le> r \<Longrightarrow> r < msize (Suc h) \<Longrightarrow> mountain_height r 0 = h"
proof -
  assume h: "msize h \<le> r" "r < msize (Suc h)"
  let ?m = "mountain_height r 0"
  have "msize 0 \<le> r"
    using h(1) msize_mono [of 0 h] by linarith
  then have m: "msize ?m \<le> r" "r < msize (Suc ?m)"
    using mountain_height_bounds [of 0 r] by simp_all
  have "\<not> Suc h \<le> ?m" "\<not> Suc ?m \<le> h"
    using h m msize_mono [of "Suc h" ?m] msize_mono [of "Suc ?m" h] by linarith+
  then show ?thesis by linarith
qed

definition below :: "nat option \<Rightarrow> nat list \<Rightarrow> bool" where
  "below p hs = (case p of None \<Rightarrow> True | Some k \<Rightarrow> \<forall>h\<in>set hs. h < k)"

lemma peaks_loop_complete:
  "desc hs \<Longrightarrow> below prev hs \<Longrightarrow>
   peaks_loop (nodes_of hs) off prev acc = Inr (acc @ peak_positions off hs)"
proof (induction hs arbitrary: off prev acc)
  case Nil
  then show ?case by (simp add: peaks_loop.simps)
next
  case (Cons h hs)
  have "nodes_of hs \<le> msize h - 1"
    using Cons.prems(1) by (intro desc_nodes) auto
  then have mh: "mountain_height (nodes_of (h # hs)) 0 = h"
    using nodes_of_nonneg [of hs] by (intro mountain_height_eq) (simp_all add: msize_Suc)
  have "\<not> (case prev of None \<Rightarrow> False | Some p \<Rightarrow> p \<le> h)"
    using Cons.prems(2) by (auto simp: below_def split: option.splits)
  moreover have "0 < nodes_of (h # hs)"
    using msize_pos(1) [of h] nodes_of_nonneg [of hs] by simp
  moreover have "peaks_loop (nodes_of hs) (off + msize h) (Some h) (acc @ [off + msize h - 1])
      = Inr ((acc @ [off + msize h - 1]) @ peak_positions (off + msize h) hs)"
    using Cons.prems(1) by (intro Cons.IH) (simp_all add: below_def)
  ultimately show ?case
    by (subst peaks_loop.simps) (simp only: mh if_True if_False Let_def, simp add: msize_def)
qed

lemma peaks_loop_sound:
  "peaks_loop r off prev acc = Inr ps \<Longrightarrow> 0 \<le> r \<Longrightarrow>
   \<exists>hs. desc hs \<and> below prev hs \<and> r = nodes_of hs \<and> ps = acc @ peak_positions off hs"
proof (induction r off prev acc rule: peaks_loop.induct)
  case (1 r off prev acc)
  show ?case
  proof (cases "r > 0")
    case False
    with "1.prems" have "r = nodes_of [] \<and> ps = acc @ peak_positions off []"
      by (simp add: peaks_loop.simps [of r off prev acc])
    then show ?thesis by (intro exI [of _ "[]"]) (simp add: below_def split: option.split)
  next
    case True
    define h where "h = mountain_height r 0"
    have ok: "\<not> (case prev of None \<Rightarrow> False | Some p \<Rightarrow> p \<le> h)"
      using "1.prems"(1) True unfolding h_def
      by (subst (asm) peaks_loop.simps) (simp add: Let_def split: if_splits)
    have rec: "peaks_loop (r - msize h) (off + msize h) (Some h) (acc @ [off + msize h - 1]) = Inr ps"
      using "1.prems"(1) True ok unfolding h_def msize_def
      by (subst (asm) peaks_loop.simps) (simp add: Let_def split: if_splits)
    have "msize h \<le> r"
      using mountain_height_bounds [of 0 r] True by (simp add: h_def)
    with "1.IH" [OF True h_def ok refl] rec obtain hs where
      hs: "desc hs" "below (Some h) hs" "r - msize h = nodes_of hs"
        "ps = (acc @ [off + msize h - 1]) @ peak_positions (off + msize h) hs"
      by (auto simp: msize_def)
    have "below prev (h # hs)"
      using ok hs(2) by (auto simp: below_def split: option.splits)
    with hs show ?thesis
      by (intro exI [of _ "h # hs"]) (auto simp: below_def)
  qed
qed

lemma peaks_complete:
  "desc hs \<Longrightarrow> nodes_of hs < MAX_MMR_SIZE \<Longrightarrow> peaks (nodes_of hs) = Inr (peak_positions 0 hs)"
  using peaks_loop_complete [of hs None 0 "[]"] nodes_of_nonneg [of hs]
  by (simp add: peaks_def below_def not_less)

lemma peaks_sound:
  assumes "peaks s = Inr ps"
  obtains hs where "desc hs" "s = nodes_of hs" "ps = peak_positions 0 hs" "s < MAX_MMR_SIZE"
proof -
  have s: "0 \<le> s" "s < MAX_MMR_SIZE" "peaks_loop s 0 None [] = Inr ps"
    using assms by (auto simp: peaks_def split: if_splits)
  from peaks_loop_sound [OF s(3) s(1)] that s(2) show thesis by auto
qed

section \<open>Heights\<close>

text \<open>The height of every node, in position order, of a perfect tree of height \<open>H\<close>.\<close>

fun hseq :: "nat \<Rightarrow> nat list" where
  "hseq 0 = [0]"
| "hseq (Suc H) = hseq H @ hseq H @ [Suc H]"

lemma length_hseq: "int (length (hseq H)) = msize H"
  by (induction H) (simp_all add: msize_Suc)

lemma nat_msize: "nat (msize H) = length (hseq H)"
  by (simp add: length_hseq [symmetric])

lemma hseq_last: "hseq H ! nat (msize H - 1) = H"
proof (cases H)
  case (Suc k)
  have "nat (msize (Suc k) - 1) = length (hseq k) + length (hseq k)"
    using length_hseq [of k] by (simp add: msize_Suc)
  then show ?thesis by (simp add: Suc nth_append)
qed simp

lemma height_descend_hseq:
  "1 \<le> p \<Longrightarrow> p \<le> msize H \<Longrightarrow> height_descend p H = hseq H ! nat (p - 1)"
proof (induction H arbitrary: p)
  case 0
  then show ?case by simp
next
  case (Suc H)
  have left: "(2 :: int) ^ Suc H - 1 = msize H" and full: "(2 :: int) ^ (Suc H + 1) - 1 = msize (Suc H)"
    by (simp_all add: msize_def)
  consider "p = msize (Suc H)" | "p \<le> msize H" | "msize H < p" "p < msize (Suc H)"
    using Suc.prems(2) by linarith
  then show ?case
  proof cases
    case 1
    then show ?thesis
      using hseq_last [of "Suc H"]
      by (simp only: height_descend.simps Let_def left full) simp
  next
    case 2
    then have "p \<noteq> msize (Suc H)" using msize_pos [of H] unfolding msize_Suc by linarith
    moreover have "nat (p - 1) < length (hseq H)"
      using 2 Suc.prems(1) length_hseq [of H] by linarith
    ultimately show ?thesis
      using Suc.IH [of p] Suc.prems(1) 2
      by (simp only: height_descend.simps Let_def left full) (simp add: nth_append)
  next
    case 3
    have n: "nat (p - 1) = length (hseq H) + nat (p - msize H - 1)"
      using 3 length_hseq [of H] by linarith
    have "nat (p - msize H - 1) < length (hseq H)"
      using 3 length_hseq [of H] by (simp add: msize_Suc)
    moreover have "height_descend (p - msize H) H = hseq H ! nat (p - msize H - 1)"
      using 3 by (intro Suc.IH) (simp_all add: msize_Suc)
    ultimately show ?thesis
      using 3 by (simp only: height_descend.simps Let_def left full n) (simp add: nth_append)
  qed
qed

lemma height_grow_bound: "p \<le> msize (height_grow p h)"
proof (induction p h rule: height_grow.induct)
  case (1 p h)
  then show ?case
    by (subst height_grow.simps) (simp add: msize_def)
qed

lemma hseq_prefix: "H \<le> K \<Longrightarrow> \<exists>zs. hseq K = hseq H @ zs"
proof (induction K)
  case (Suc K)
  then show ?case
    by (cases "H = Suc K") (auto simp: le_Suc_eq)
qed simp

lemma hseq_nth_indep:
  assumes "p < length (hseq H)" "p < length (hseq K)"
  shows "hseq H ! p = hseq K ! p"
  using assms hseq_prefix [of H K] hseq_prefix [of K H]
  by (metis linear nth_append)

lemma height_at_hseq:
  assumes "0 \<le> p" "p < msize H"
  shows "height_at p = Inr (hseq H ! nat p)"
proof -
  let ?G = "height_grow (p + 1) 0"
  have g: "p + 1 \<le> msize ?G" by (rule height_grow_bound)
  then have "height_descend (p + 1) ?G = hseq ?G ! nat p"
    using assms(1) height_descend_hseq [of "p + 1" ?G] by simp
  moreover have "hseq ?G ! nat p = hseq H ! nat p"
    using assms g length_hseq [of ?G] length_hseq [of H] by (intro hseq_nth_indep) linarith+
  ultimately show ?thesis
    using assms(1) by (simp add: height_at_def require_nonneg_int_def Let_def)
qed

text \<open>The height sequence of a whole range is a prefix of a large enough perfect tree, and the
  node that follows it is a leaf.\<close>

lemma hseq_mountains:
  "desc hs \<Longrightarrow> \<forall>h\<in>set hs. h < k \<Longrightarrow> \<exists>zs. hseq k = concat (map hseq hs) @ 0 # zs"
proof (induction hs arbitrary: k)
  case Nil
  have "\<exists>zs. hseq k = hseq 0 @ zs" by (rule hseq_prefix) simp
  then show ?case by simp
next
  case (Cons h hs)
  then obtain zs where "hseq h = concat (map hseq hs) @ 0 # zs" by fastforce
  moreover obtain ws where "hseq k = hseq (Suc h) @ ws"
    using Cons.prems(2) hseq_prefix [of "Suc h" k] by auto
  ultimately show ?case by simp
qed

lemma length_concat_hseq: "int (length (concat (map hseq hs))) = nodes_of hs"
  by (induction hs) (simp_all add: length_hseq)

lemma height_at_start:
  assumes "desc hs"
  shows "height_at (nodes_of hs) = Inr 0"
proof -
  obtain k where k: "\<forall>h\<in>set hs. h < k" using desc_bounded [OF assms] by blast
  obtain zs where zs: "hseq k = concat (map hseq hs) @ 0 # zs"
    using hseq_mountains [OF assms k] by blast
  have n: "nat (nodes_of hs) = length (concat (map hseq hs))"
    by (simp add: length_concat_hseq [symmetric])
  have "nodes_of hs < msize k"
    unfolding length_hseq [symmetric] zs by (simp add: length_concat_hseq [symmetric])
  then show ?thesis
    using nodes_of_nonneg [of hs] by (simp add: height_at_hseq n) (simp add: zs)
qed

lemma height_at_peak:
  assumes "desc (pre @ h # post)"
  shows "height_at (nodes_of pre + msize h - 1) = Inr h"
proof -
  obtain k where "\<forall>h\<in>set (pre @ h # post). h < k" using desc_bounded [OF assms] by blast
  then obtain zs where "hseq k = concat (map hseq (pre @ h # post)) @ 0 # zs"
    using hseq_mountains [OF assms] by blast
  then have zs: "hseq k = concat (map hseq pre) @ hseq h @ concat (map hseq post) @ 0 # zs"
    by simp
  have n: "nat (nodes_of pre + msize h - 1) = length (concat (map hseq pre)) + nat (msize h - 1)"
    using length_concat_hseq [of pre] msize_pos [of h] by linarith
  have "nat (msize h - 1) < length (hseq h)"
    using length_hseq [of h] msize_pos [of h] by linarith
  moreover have "nodes_of pre + msize h - 1 < msize k"
    unfolding length_hseq [symmetric] zs
    using length_concat_hseq [of pre] length_hseq [of h] by simp
  moreover have "0 \<le> nodes_of pre + msize h - 1"
    using msize_pos [of h] nodes_of_nonneg [of pre] by linarith
  ultimately show ?thesis
    by (simp only: height_at_hseq [of _ k] n zs) (simp add: nth_append hseq_last)
qed

lemma heights_of_peaks:
  "desc (pre @ hs) \<Longrightarrow> mapR height_at (peak_positions (nodes_of pre) hs) = Inr hs"
proof (induction hs arbitrary: pre)
  case (Cons h hs)
  have "mapR height_at (peak_positions (nodes_of (pre @ [h])) hs) = Inr hs"
    using Cons.prems by (intro Cons.IH) simp
  with height_at_peak [OF Cons.prems] show ?case by simp
qed simp

section \<open>Leaf counts and leaf positions\<close>

lemma leaf_count_nodes:
  assumes "desc hs" "nodes_of hs < MAX_MMR_SIZE"
  shows "leaf_count (nodes_of hs) = Inr (int (leaves_of hs))"
proof -
  have "mapR height_at (peak_positions 0 hs) = Inr hs"
    using heights_of_peaks [of "[]" hs] assms(1) by simp
  moreover have "sum_list (map (\<lambda>h. 2 ^ h) hs) = int (leaves_of hs)"
    by (induction hs) auto
  ultimately show ?thesis
    using peaks_complete [OF assms] by (simp add: leaf_count_def)
qed

lemma leaf_count_sound:
  assumes "leaf_count s = Inr n"
  obtains k where "n = int k" "s = nodes_of (mountains k)" "s < MAX_MMR_SIZE"
    "peaks s = Inr (peak_positions 0 (mountains k))"
proof -
  obtain ps where "peaks s = Inr ps"
    using assms by (auto simp: leaf_count_def res_simps)
  then obtain hs where hs: "desc hs" "s = nodes_of hs" "ps = peak_positions 0 hs" "s < MAX_MMR_SIZE"
    by (rule peaks_sound)
  then have "n = int (leaves_of hs)"
    using leaf_count_nodes [of hs] assms by simp
  moreover have "mountains (leaves_of hs) = hs"
    using hs(1) by (rule mountains_unique)
  ultimately show thesis
    using that [of "leaves_of hs"] hs \<open>peaks s = Inr ps\<close> by simp
qed

text \<open>A position is a leaf exactly when it is itself a valid range size.\<close>

lemma hseq_zero:
  "p < length (hseq H) \<Longrightarrow> hseq H ! p = 0 \<Longrightarrow>
   \<exists>hs. desc hs \<and> (\<forall>h\<in>set hs. h < H) \<and> int p = nodes_of hs"
proof (induction H arbitrary: p)
  case 0
  then show ?case by (intro exI [of _ "[]"]) simp
next
  case (Suc H)
  consider "p < length (hseq H)" | q where "p = length (hseq H) + q" "q < length (hseq H)"
    | "p = 2 * length (hseq H)"
    using Suc.prems(1) by (auto simp: less_Suc_eq) (metis add_diff_inverse_nat less_diff_conv2 not_less)
  then show ?case
  proof cases
    case 1
    with Suc show ?thesis by (fastforce simp: nth_append)
  next
    case 2
    with Suc.prems(2) have "hseq H ! q = 0" by (simp add: nth_append)
    with Suc.IH 2 obtain hs where "desc hs" "\<forall>h\<in>set hs. h < H" "int q = nodes_of hs" by blast
    with 2 length_hseq [of H] show ?thesis
      by (intro exI [of _ "H # hs"]) auto
  next
    case 3
    with Suc.prems(2) show ?thesis by (simp add: nth_append)
  qed
qed


lemma leaf_iff_valid_size:
  assumes "0 \<le> p" "p < MAX_MMR_SIZE"
  shows "height_at p = Inr 0 \<longleftrightarrow> (\<exists>ps. peaks p = Inr ps)"
proof
  assume h: "height_at p = Inr 0"
  have b: "p < msize (nat p)"
    using assms(1) msize_ge [of "nat p"] by simp
  then have "hseq (nat p) ! nat p = 0"
    using h assms(1) by (simp add: height_at_hseq [of p "nat p"])
  moreover have "nat p < length (hseq (nat p))"
    using assms(1) b length_hseq [of "nat p"] by linarith
  ultimately obtain hs where "desc hs" "int (nat p) = nodes_of hs"
    using hseq_zero by blast
  then show "\<exists>ps. peaks p = Inr ps"
    using peaks_complete [of hs] assms by auto
next
  assume "\<exists>ps. peaks p = Inr ps"
  then obtain hs where "desc hs" "p = nodes_of hs" by (auto elim: peaks_sound)
  then show "height_at p = Inr 0" by (simp add: height_at_start)
qed

lemma leaf_count_iff:
  "leaf_count s = Inr n \<longleftrightarrow> 0 \<le> n \<and> s < MAX_MMR_SIZE \<and> node_count n = Inr s"
proof
  assume "leaf_count s = Inr n"
  then obtain k where "n = int k" "s = nodes_of (mountains k)" "s < MAX_MMR_SIZE"
    by (rule leaf_count_sound)
  then show "0 \<le> n \<and> s < MAX_MMR_SIZE \<and> node_count n = Inr s"
    by (simp add: node_count_mountains)
next
  assume a: "0 \<le> n \<and> s < MAX_MMR_SIZE \<and> node_count n = Inr s"
  then have "s = nodes_of (mountains (nat n))"
    using node_count_mountains [of "nat n"] by simp
  then show "leaf_count s = Inr n"
    using a leaf_count_nodes [of "mountains (nat n)"] by simp
qed

section \<open>Properties\<close>

text \<open>
  C1. \<^verbatim>\<open>peaks\<close> succeeds exactly on the node counts of complete ranges below the size limit, and
  then returns the root positions of the mountains, tallest first.
\<close>

theorem peaks_characterised:
  "peaks s = Inr ps \<longleftrightarrow>
     (\<exists>n. node_count (int n) = Inr s \<and> s < MAX_MMR_SIZE \<and> ps = peak_positions 0 (mountains n))"
proof
  assume "peaks s = Inr ps"
  then obtain hs where hs: "desc hs" "s = nodes_of hs" "ps = peak_positions 0 hs" "s < MAX_MMR_SIZE"
    by (rule peaks_sound)
  then show "\<exists>n. node_count (int n) = Inr s \<and> s < MAX_MMR_SIZE \<and> ps = peak_positions 0 (mountains n)"
    by (intro exI [of _ "leaves_of hs"]) (simp add: node_count_mountains mountains_unique)
next
  assume "\<exists>n. node_count (int n) = Inr s \<and> s < MAX_MMR_SIZE \<and> ps = peak_positions 0 (mountains n)"
  then show "peaks s = Inr ps"
    by (auto simp: node_count_mountains peaks_complete)
qed

text \<open>
  \<^verbatim>\<open>leaf_count\<close> inverts \<^verbatim>\<open>node_count\<close>: on a size below the limit it returns \<open>n\<close> exactly when
  a range of \<open>n\<close> leaves has that many nodes.
\<close>

theorem leaf_count_node_count:
  "leaf_count s = Inr n \<longleftrightarrow> 0 \<le> n \<and> s < MAX_MMR_SIZE \<and> node_count n = Inr s"
  by (rule leaf_count_iff)

text \<open>
  \<^verbatim>\<open>pos_to_leaf_index\<close> and \<^verbatim>\<open>leaf_index_to_pos\<close> are inverse to each other, in both
  directions and including where they raise.
\<close>

theorem leaf_position_roundtrip:
  "pos_to_leaf_index p = Inr i \<longleftrightarrow> leaf_index_to_pos i = Inr p"
proof
  assume p: "pos_to_leaf_index p = Inr i"
  then have "leaf_count p = Inr i"
    by (auto simp: pos_to_leaf_index_def res_simps split: if_splits)
  then show "leaf_index_to_pos i = Inr p"
    by (auto simp: leaf_count_iff leaf_index_to_pos_def require_nonneg_int_def)
next
  assume "leaf_index_to_pos i = Inr p"
  then have i: "0 \<le> i" "node_count i = Inr p" "p < MAX_MMR_SIZE"
    by (auto simp: leaf_index_to_pos_def require_nonneg_int_def res_simps split: if_splits)
  then have "p = nodes_of (mountains (nat i))"
    using node_count_mountains [of "nat i"] by simp
  then have "height_at p = Inr 0" by (simp add: height_at_start)
  moreover have "leaf_count p = Inr i"
    using i by (simp add: leaf_count_iff)
  ultimately show "pos_to_leaf_index p = Inr i"
    by (simp add: pos_to_leaf_index_def)
qed

text \<open>
  \<^verbatim>\<open>height_at\<close> reads the recursive height sequence: at every position inside a perfect tree
  of height \<open>H\<close> it returns the entry of the post-order sequence
  \<open>T(0) = [0]\<close>, \<open>T(H) = T(H-1) ++ T(H-1) ++ [H]\<close>.
\<close>

theorem height_at_correct:
  assumes "p < length (hseq H)"
  shows "height_at (int p) = Inr (hseq H ! p)"
  using assms length_hseq [of H] by (simp add: height_at_hseq [of _ H])

theorem height_at_correct_witness: "height_at 6 = Inr 2 \<and> (6 :: nat) < length (hseq 2)"
  using height_at_correct [of 6 2] by (simp add: eval_nat_numeral)

end
