(* ===== verification/Mmr_Append.thy ===== *)
theory Mmr_Append
  imports Mmr_Positions
begin

text \<open>
  What the node array of a Merkle Mountain Range holds, and that \<open>add_leaf\<close> keeps it so. The
  invariant \<open>mmr_inv ns ls\<close> says that the array \<open>ns\<close> is the range over the leaf hashes \<open>ls\<close>: its
  length is the node count, every mountain is a perfect tree in which each interior node is the
  position-committed hash of its two children, and the leaves are \<open>ls\<close> in order.

  The storage \<open>add_leaf\<close> writes to is the interface \<open>node_store\<close>: a size, a read and an append
  with an abstraction \<open>contents\<close> to the list of nodes (\<^verbatim>\<open>NodeReader\<close> and \<^verbatim>\<open>NodeAppender\<close> in
  \<^verbatim>\<open>cll/checkpoint/core.py\<close>).
\<close>

section \<open>Hashes that do not raise\<close>

definition interior :: "bytes \<Rightarrow> bytes \<Rightarrow> int \<Rightarrow> bytes" where
  "interior l r p = sha256 (be_bytes 8 (nat (p + 1)) @ l @ r)"

abbreviation digest :: "bytes \<Rightarrow> bool" where
  "digest d \<equiv> length d = 32"

lemma length_interior [simp]: "length (interior l r p) = 32"
  by (simp add: interior_def)

lemma interior_hash_eq_Inr:
  "interior_hash l r p = Inr h \<longleftrightarrow>
     digest l \<and> digest r \<and> 0 \<le> p \<and> p + 1 < 2 ^ 64 \<and> h = interior l r p"
  by (auto simp: interior_hash_def assert_digest_def require_nonneg_int_def to_bytes_big_def
      interior_def)

lemma leaf_hash_eq_Inr: "leaf_hash d = Inr h \<longleftrightarrow> digest d \<and> h = sha256 (0 # d)"
  by (auto simp: leaf_hash_def assert_digest_def)

lemma assert_digest_eq_Inr [simp]: "assert_digest d = Inr u \<longleftrightarrow> digest d"
  by (simp add: assert_digest_def)

section \<open>Trees and forests in a node array\<close>

fun tree_at :: "(int \<Rightarrow> bytes) \<Rightarrow> (nat \<Rightarrow> bytes) \<Rightarrow> int \<Rightarrow> nat \<Rightarrow> nat \<Rightarrow> bool" where
  "tree_at A L r 0 s \<longleftrightarrow> A r = L s"
| "tree_at A L r (Suc h) s \<longleftrightarrow>
     A r = interior (A (r - 2 ^ Suc h)) (A (r - 1)) r \<and>
     tree_at A L (r - 2 ^ Suc h) h s \<and> tree_at A L (r - 1) h (s + 2 ^ h)"

fun forest_at :: "(int \<Rightarrow> bytes) \<Rightarrow> (nat \<Rightarrow> bytes) \<Rightarrow> int \<Rightarrow> nat \<Rightarrow> nat list \<Rightarrow> bool" where
  "forest_at A L off s [] \<longleftrightarrow> True"
| "forest_at A L off s (h # hs) \<longleftrightarrow>
     tree_at A L (off + msize h - 1) h s \<and> forest_at A L (off + msize h) (s + 2 ^ h) hs"

definition at :: "bytes list \<Rightarrow> int \<Rightarrow> bytes" where
  "at ns p = ns ! nat p"

definition mmr_inv :: "bytes list \<Rightarrow> bytes list \<Rightarrow> bool" where
  "mmr_inv ns ls \<longleftrightarrow>
     int (length ns) = nodes_of (mountains (length ls)) \<and> (\<forall>d\<in>set ns. digest d) \<and>
     forest_at (at ns) ((!) ls) 0 0 (mountains (length ls))"

lemma two_power_msize: "(2 :: int) ^ Suc h = msize h + 1"
  by (simp add: msize_def)

lemma tree_at_cong:
  assumes "\<And>p. r - msize h < p \<Longrightarrow> p \<le> r \<Longrightarrow> A p = B p"
    and "\<And>i. s \<le> i \<Longrightarrow> i < s + 2 ^ h \<Longrightarrow> L i = M i"
  shows "tree_at A L r h s = tree_at B M r h s"
  using assms
proof (induction h arbitrary: r s)
  case 0
  then show ?case by simp
next
  case (Suc h)
  have m: "msize (Suc h) = 2 * msize h + 1" by (rule msize_Suc)
  have "tree_at A L (r - 2 ^ Suc h) h s = tree_at B M (r - 2 ^ Suc h) h s"
    by (rule Suc.IH) (use Suc.prems two_power_msize [of h] m in auto)
  moreover have "tree_at A L (r - 1) h (s + 2 ^ h) = tree_at B M (r - 1) h (s + 2 ^ h)"
    by (rule Suc.IH) (use Suc.prems two_power_msize [of h] m in auto)
  moreover have "A r = B r"
    by (rule Suc.prems(1)) (use m msize_pos [of h] in linarith)+
  moreover have "A (r - 1) = B (r - 1)"
    by (rule Suc.prems(1)) (use m msize_pos [of h] in linarith)+
  moreover have "A (r - 2 ^ Suc h) = B (r - 2 ^ Suc h)"
    by (rule Suc.prems(1)) (use two_power_msize [of h] m msize_pos [of h] in linarith)+
  ultimately show ?case by simp
qed

lemma forest_at_cong:
  assumes "\<And>p. off \<le> p \<Longrightarrow> p < off + nodes_of hs \<Longrightarrow> A p = B p"
    and "\<And>i. s \<le> i \<Longrightarrow> i < s + leaves_of hs \<Longrightarrow> L i = M i"
  shows "forest_at A L off s hs = forest_at B M off s hs"
  using assms
proof (induction hs arbitrary: off s)
  case (Cons h hs)
  have "tree_at A L (off + msize h - 1) h s = tree_at B M (off + msize h - 1) h s"
    by (rule tree_at_cong) (use Cons.prems nodes_of_nonneg [of hs] in auto)
  moreover have "forest_at A L (off + msize h) (s + 2 ^ h) hs = forest_at B M (off + msize h) (s + 2 ^ h) hs"
    by (rule Cons.IH) (use Cons.prems msize_pos [of h] in auto)
  ultimately show ?case by simp
qed simp

lemma forest_at_append:
  "forest_at A L off s (xs @ ys) \<longleftrightarrow>
     forest_at A L off s xs \<and> forest_at A L (off + nodes_of xs) (s + leaves_of xs) ys"
  by (induction xs arbitrary: off s) (simp_all add: algebra_simps)

lemma at_append: "0 \<le> p \<Longrightarrow> p < int (length xs) \<Longrightarrow> at (xs @ ys) p = at xs p"
  by (simp add: at_def nth_append nat_less_iff)

lemma at_append_last: "at (xs @ [x]) (int (length xs)) = x"
  by (simp add: at_def)

lemma forest_at_extend:
  assumes "forest_at (at ns) L 0 0 hs" "nodes_of hs \<le> int (length ns)"
  shows "forest_at (at (ns @ new)) L 0 0 hs"
  using assms by (subst forest_at_cong [where B = "at ns" and M = L]) (auto simp: at_append)

lemma tree_at_extend:
  assumes "tree_at (at ns) L r h s" "msize h \<le> r + 1" "r < int (length ns)"
  shows "tree_at (at (ns @ new)) L r h s"
  using assms by (subst tree_at_cong [where B = "at ns" and M = L]) (auto simp: at_append)

lemma mmr_inv_Nil [simp]: "mmr_inv [] []"
  by (simp add: mmr_inv_def)

section \<open>The merge loop\<close>

text \<open>
  The state of the loop after some merges: the peaks still to the left have heights \<open>hs\<close>, the
  nodes appended so far are \<open>new\<close>, and the last of them is the root of a tree of height \<open>k\<close>
  directly after the remaining mountains.
\<close>

definition merging ::
  "bytes list \<Rightarrow> (nat \<Rightarrow> bytes) \<Rightarrow> nat \<Rightarrow> nat list \<Rightarrow> bytes list \<Rightarrow> nat \<Rightarrow> bool" where
  "merging ns L n hs new k \<longleftrightarrow>
     desc hs \<and> (\<forall>h\<in>set hs. k \<le> h) \<and> new \<noteq> [] \<and> (\<forall>d\<in>set new. digest d) \<and>
     forest_at (at (ns @ new)) L 0 0 hs \<and>
     tree_at (at (ns @ new)) L (nodes_of hs + msize k - 1) k (leaves_of hs) \<and>
     nodes_of hs + msize k = int (length ns) + int (length new) \<and>
     nodes_of hs \<le> int (length ns) \<and>
     leaves_of hs + 2 ^ k = n"

lemma merging_step:
  assumes m: "merging ns L n (hs @ [k]) new k" and q: "q = nodes_of hs + msize k - 1"
    and parent: "ph = interior (at ns q) (last new) (int (length ns) + int (length new))"
  shows "merging ns L n hs (new @ [ph]) (Suc k)"
proof -
  let ?B = "at (ns @ new @ [ph])" and ?A = "at (ns @ new)"
  let ?r = "nodes_of hs + msize (Suc k) - 1"
  have pos: "?r = int (length (ns @ new))" "?r - 2 ^ Suc k = q" "?r - 1 = nodes_of (hs @ [k]) + msize k - 1"
    using m two_power_msize [of k] by (auto simp: merging_def q msize_Suc)
  have q_lt: "0 \<le> q" "q < int (length ns)"
    using m msize_pos [of k] nodes_of_nonneg [of hs] by (auto simp: merging_def q)
  have B: "?B p = ?A p" if "0 \<le> p" "p < ?r" for p
    using that pos(1) at_append [of p "ns @ new" "[ph]"] by simp
  have new: "new \<noteq> []" using m by (simp add: merging_def)
  have "?r - 1 = int (length (ns @ butlast new))"
    using pos(1) new by (cases new) auto
  moreover have "ns @ new @ [ph] = (ns @ butlast new) @ last new # [ph]"
    using new by simp
  ultimately have last: "?B (?r - 1) = last new"
    by (simp only: at_def nat_int nth_append_length)
  have "?B q = at ns q"
    using q_lt at_append [of q ns "new @ [ph]"] by simp
  moreover have "?B ?r = ph"
    using pos(1) at_append_last [of "ns @ new" ph] by simp
  ultimately have root: "?B ?r = interior (?B (?r - 2 ^ Suc k)) (?B (?r - 1)) ?r"
    using parent last pos(1,2) by simp
  have forest: "forest_at ?A L 0 0 (hs @ [k])"
    and right: "tree_at ?A L (?r - 1) k (leaves_of hs + 2 ^ k)"
    using m pos(3) by (auto simp: merging_def)
  have "tree_at ?B L q k (leaves_of hs)"
    using forest tree_at_extend [of "ns @ new" L q k "leaves_of hs" "[ph]"] q_lt
      nodes_of_nonneg [of hs]
    by (simp add: forest_at_append q add.commute)
  moreover have "tree_at ?B L (?r - 1) k (leaves_of hs + 2 ^ k)"
    using right tree_at_extend [of "ns @ new" L "?r - 1" k "leaves_of hs + 2 ^ k" "[ph]"]
      nodes_of_nonneg [of hs] pos(1) msize_pos [of k] by (simp add: msize_Suc)
  ultimately have tree: "tree_at ?B L ?r (Suc k) (leaves_of hs)"
    using root by (simp only: tree_at.simps pos(2))
  have "forest_at ?B L 0 0 hs"
    using forest forest_at_extend [of "ns @ new" L hs "[ph]"] q_lt q msize_pos [of k]
    by (simp add: forest_at_append)
  then show ?thesis
    using m tree pos(1) q_lt q parent
    by (auto simp: merging_def sorted_wrt_append Suc_le_eq msize_Suc simp del: tree_at.simps)
qed

lemma merge_loop_correct:
  assumes "merging ns L n hs new k" "n < 2 ^ 60"
    and node: "\<And>p. 0 \<le> p \<Longrightarrow> p < int (length ns) \<Longrightarrow> node p = Inr (at ns p)"
    and dig: "\<forall>d\<in>set ns. digest d"
  shows "\<exists>ext hs'. merge_loop node (int (length ns)) (rev (peak_positions 0 hs)) new (last new) k
      = Inr (new @ ext) \<and> desc hs' \<and> (\<forall>d\<in>set (new @ ext). digest d) \<and>
      nodes_of hs' = int (length ns) + int (length (new @ ext)) \<and> leaves_of hs' = n \<and>
      forest_at (at (ns @ new @ ext)) L 0 0 hs'"
  using assms(1)
proof (induction hs arbitrary: new k rule: rev_induct)
  case Nil
  then show ?case
    by (intro exI [of _ "[]"] exI [of _ "[k]"]) (auto simp: merging_def)
next
  case (snoc h hs)
  let ?q = "nodes_of hs + msize h - 1"
  have desc: "desc (hs @ [h])" "k \<le> h" and new: "new \<noteq> []" "digest (last new)"
    using snoc.prems by (auto simp: merging_def)
  have q: "0 \<le> ?q" "?q < int (length ns)"
    using snoc.prems msize_pos [of h] nodes_of_nonneg [of hs] by (auto simp: merging_def)
  have hq: "height_at ?q = Inr h"
    using height_at_peak [of hs h "[]"] desc(1) by simp
  show ?case
  proof (cases "h = k")
    case False
    have "desc (hs @ [h] @ [k])"
      using desc False snoc.prems by (auto simp: merging_def sorted_wrt_append le_less)
    then show ?thesis
      using snoc.prems False hq
      by (intro exI [of _ "[]"] exI [of _ "hs @ [h, k]"])
        (auto simp: merging_def peak_positions_append forest_at_append algebra_simps)
  next
    case True
    define ph where "ph = interior (at ns ?q) (last new) (int (length ns) + int (length new))"
    have step: "merging ns L n hs (new @ [ph]) (Suc k)"
      by (rule merging_step [OF _ _ ph_def]) (use snoc.prems True in auto)
    have "digest (at ns ?q)"
      using dig q by (auto simp: at_def nat_less_iff)
    moreover have "int (length ns) + int (length new) + 1 < 2 ^ 64"
    proof -
      have "nodes_of (hs @ [h]) + msize k \<le> 2 * int n"
        using snoc.prems by (auto simp: merging_def nodes_of_leaves msize_def)
      moreover have "int n < 2 ^ 60" using assms(2) by simp
      ultimately show ?thesis using snoc.prems by (simp add: merging_def)
    qed
    ultimately have "interior_hash (at ns ?q) (last new) (int (length ns) + int (length new)) = Inr ph"
      using new(2) by (simp add: interior_hash_eq_Inr ph_def)
    then have eq: "merge_loop node (int (length ns)) (rev (peak_positions 0 (hs @ [h]))) new (last new) k
        = merge_loop node (int (length ns)) (rev (peak_positions 0 hs)) (new @ [ph]) (last (new @ [ph])) (Suc k)"
      using hq node [OF q] True by (simp add: peak_positions_append)
    from snoc.IH [OF step] obtain ext hs' where
      "merge_loop node (int (length ns)) (rev (peak_positions 0 hs)) (new @ [ph]) (last (new @ [ph])) (Suc k)
        = Inr ((new @ [ph]) @ ext)" "desc hs'" "\<forall>d\<in>set ((new @ [ph]) @ ext). digest d"
      "nodes_of hs' = int (length ns) + int (length ((new @ [ph]) @ ext))" "leaves_of hs' = n"
      "forest_at (at (ns @ (new @ [ph]) @ ext)) L 0 0 hs'"
      by blast
    then show ?thesis
      unfolding eq by (intro exI [of _ "ph # ext"] exI [of _ hs']) auto
  qed
qed

section \<open>The storage interface\<close>

locale node_store =
  fixes size_of :: "'s \<Rightarrow> int"
    and node :: "'s \<Rightarrow> int \<Rightarrow> bytes res"
    and append_nodes :: "'s \<Rightarrow> bytes list \<Rightarrow> 's"
    and contents :: "'s \<Rightarrow> bytes list"
  assumes size_contents: "size_of s = int (length (contents s))"
    and node_contents: "0 \<le> p \<Longrightarrow> p < size_of s \<Longrightarrow> node s p = Inr (at (contents s) p)"
    and append_contents: "contents (append_nodes s hs) = contents s @ hs"
begin

lemma add_leaf_correct:
  assumes inv: "mmr_inv (contents s) ls" and size: "size_of s < MAX_MMR_SIZE" and leaf: "digest leaf"
  shows "\<exists>ext s'. add_leaf size_of node append_nodes s leaf = Inr (size_of s, leaf # ext, s') \<and>
      contents s' = contents s @ leaf # ext \<and> mmr_inv (contents s') (ls @ [leaf])"
proof -
  let ?ns = "contents s" and ?n = "length ls" and ?L = "(!) (ls @ [leaf])"
  have len: "int (length ?ns) = nodes_of (mountains ?n)" and dig: "\<forall>d\<in>set ?ns. digest d"
    using inv by (auto simp: mmr_inv_def)
  have L: "forest_at (at ?ns) ?L 0 0 (mountains ?n)"
    using inv by (subst forest_at_cong [where B = "at ?ns" and M = "(!) ls"])
      (auto simp: mmr_inv_def nth_append)
  have n: "Suc ?n < 2 ^ 60"
  proof -
    have "int ?n \<le> nodes_of (mountains ?n)"
      using nodes_of_ge_length [of "mountains ?n"] by (simp add: nodes_of_leaves)
    then have "int ?n < 2 ^ 50"
      using size len by (simp add: MAX_MMR_SIZE_def size_contents)
    then show ?thesis by simp
  qed
  have "tree_at (at (?ns @ [leaf])) ?L (nodes_of (mountains ?n)) 0 ?n"
    using at_append_last [of ?ns leaf] len by simp
  then have start: "merging ?ns ?L (Suc ?n) (mountains ?n) [leaf] 0"
    using L len leaf forest_at_extend [of ?ns ?L "mountains ?n" "[leaf]"]
    by (simp add: merging_def)
  obtain ext hs' where res:
    "merge_loop (node s) (int (length ?ns)) (rev (peak_positions 0 (mountains ?n))) [leaf] (last [leaf]) 0
      = Inr ([leaf] @ ext)"
    and hs': "desc hs'" "\<forall>d\<in>set ([leaf] @ ext). digest d"
      "nodes_of hs' = int (length ?ns) + int (length ([leaf] @ ext))" "leaves_of hs' = Suc ?n"
      "forest_at (at (?ns @ [leaf] @ ext)) ?L 0 0 hs'"
    using merge_loop_correct [OF start n _ dig, of "node s"] node_contents [of _ s]
    by (metis size_contents)
  have "hs' = mountains (Suc ?n)"
    using hs'(1,4) mountains_unique by metis
  then have inv': "mmr_inv (?ns @ leaf # ext) (ls @ [leaf])"
    using hs' dig by (auto simp: mmr_inv_def)
  have pks: "(if size_of s = 0 then Inr [] else peaks (size_of s)) = Inr (peak_positions 0 (mountains ?n))"
  proof (cases "size_of s = 0")
    case True
    then have "mountains ?n = []"
      using len size_contents [of s] nodes_of_ge_length [of "mountains ?n"] by simp
    with True show ?thesis by simp
  next
    case False
    with peaks_complete [of "mountains ?n"] len size show ?thesis by (simp add: size_contents)
  qed
  have "add_leaf size_of node append_nodes s leaf
      = Inr (size_of s, leaf # ext, append_nodes s (leaf # ext))"
    unfolding add_leaf_def Let_def pks using res leaf by (simp add: assert_digest_def size_contents)
  with inv' show ?thesis
    by (auto simp: append_contents)
qed

lemma add_leaf_bad_digest:
  "\<not> digest leaf \<Longrightarrow> add_leaf size_of node append_nodes s leaf = Inl InvalidArgumentError"
  by (simp add: add_leaf_def assert_digest_def)

end

end
