(* ===== verification/Mmr_Proofs.thy ===== *)
theory Mmr_Proofs
  imports Mmr_Append
begin

text \<open>
  \<^verbatim>\<open>cll/checkpoint/core.py\<close>, second half: inclusion, consistency and range proofs, their
  producers and their verifiers. A producer reads nodes through a \<^verbatim>\<open>NodeReader\<close>, given here by
  its size and its read operation. A verifier is a total function to \<open>bool\<close>: the body that may
  raise is a separate definition of type \<open>bool res\<close>, and the public function maps every exception
  to \<open>False\<close>, as the \<^verbatim>\<open>try\<close>/\<^verbatim>\<open>except Exception\<close> around it does. The checks that a field has its
  declared type hold by typing.
\<close>

section \<open>Paths\<close>

record PathStep =
  sibling_pos :: int
  target_is_right :: bool
  parent_pos :: int

text \<open>\<^verbatim>\<open>_find_containing_peak\<close>: the index of the mountain that holds a position, or \<open>-1\<close>.\<close>

fun find_peak_loop :: "int \<Rightarrow> int list \<Rightarrow> int \<Rightarrow> int res" where
  "find_peak_loop pos [] i = Inr (- 1)"
| "find_peak_loop pos (peak_pos # rest) i =
     bindR (height_at peak_pos) (\<lambda>h.
       let m_size = 2 ^ (h + 1) - 1; start = peak_pos - m_size + 1 in
       if start \<le> pos \<and> pos \<le> peak_pos then Inr i else find_peak_loop pos rest (i + 1))"

definition find_containing_peak :: "int \<Rightarrow> int list \<Rightarrow> int res" where
  "find_containing_peak pos peaks_ps = find_peak_loop pos peaks_ps 0"

fun locate_loop :: "int \<Rightarrow> nat \<Rightarrow> int \<Rightarrow> PathStep list \<Rightarrow> PathStep list" where
  "locate_loop cur_root 0 target_pos top_down = top_down"
| "locate_loop cur_root (Suc k) target_pos top_down =
     (if cur_root = target_pos then top_down
      else let left_size = 2 ^ Suc k - 1;
               left_child_root = cur_root - left_size - 1;
               right_child_root = cur_root - 1 in
        if target_pos \<le> left_child_root
        then locate_loop left_child_root k target_pos
               (top_down @ [\<lparr>sibling_pos = right_child_root, target_is_right = False,
                             parent_pos = cur_root\<rparr>])
        else locate_loop right_child_root k target_pos
               (top_down @ [\<lparr>sibling_pos = left_child_root, target_is_right = True,
                             parent_pos = cur_root\<rparr>]))"

definition locate_path :: "int \<Rightarrow> nat \<Rightarrow> int \<Rightarrow> PathStep list" where
  "locate_path root_pos height target_pos = rev (locate_loop root_pos height target_pos [])"

definition parse_digest_hex :: "string \<Rightarrow> bytes res" where
  "parse_digest_hex h =
     bindR (from_hex h) (\<lambda>b. if length b \<noteq> DIGEST_LEN then Inl InvalidArgumentError else Inr b)"

text \<open>The fold of a hash up a path, shared by the inclusion and consistency verifiers.\<close>

definition fold_step :: "bytes \<Rightarrow> PathStep \<times> bytes \<Rightarrow> bytes res" where
  "fold_step acc ss =
     (case ss of (step, sib) \<Rightarrow>
        if target_is_right step then interior_hash sib acc (parent_pos step)
        else interior_hash acc sib (parent_pos step))"

definition fold_path :: "bytes \<Rightarrow> PathStep list \<Rightarrow> bytes list \<Rightarrow> bytes res" where
  "fold_path acc path sibs = foldR fold_step acc (zip path sibs)"

section \<open>Inclusion\<close>

record InclusionProof =
  ip_v :: int
  ip_kind :: string
  ip_size :: int
  ip_leaf_index :: int
  ip_witness :: "string list"
  ip_peaks_left :: "string list"
  ip_peaks_right :: "string list"

definition inclusion_proof ::
  "int \<Rightarrow> (int \<Rightarrow> bytes res) \<Rightarrow> int \<Rightarrow> int \<Rightarrow> InclusionProof res" where
  "inclusion_proof reader_size node leaf_index mmr_size =
     bindR (leaf_count mmr_size) (\<lambda>lc.
     if leaf_index < 0 \<or> leaf_index \<ge> lc then Inl InvalidArgumentError
     else if reader_size < mmr_size then Inl IntegrityError
     else
       bindR (leaf_index_to_pos leaf_index) (\<lambda>leaf_pos.
       bindR (peaks mmr_size) (\<lambda>pks.
       bindR (find_containing_peak leaf_pos pks) (\<lambda>peak_idx.
       if peak_idx = - 1 then Inl IntegrityError
       else
         bindR (py_index pks peak_idx) (\<lambda>peak_pos.
         bindR (height_at peak_pos) (\<lambda>peak_height.
         let path = locate_path peak_pos peak_height leaf_pos; k = nat peak_idx in
         bindR (mapR (\<lambda>step. node (sibling_pos step)) path) (\<lambda>witness.
         bindR (mapR node (take k pks)) (\<lambda>peaks_left.
         bindR (mapR node (drop (k + 1) pks)) (\<lambda>peaks_right.
         Inr \<lparr>ip_v = 1, ip_kind = ''inclusion'', ip_size = mmr_size, ip_leaf_index = leaf_index,
              ip_witness = map to_hex witness, ip_peaks_left = map to_hex peaks_left,
              ip_peaks_right = map to_hex peaks_right\<rparr>)))))))))"

definition verify_inclusion_body ::
  "bytes \<Rightarrow> int \<Rightarrow> int \<Rightarrow> bytes \<Rightarrow> InclusionProof option \<Rightarrow> bool res" where
  "verify_inclusion_body root mmr_size leaf_index body_digest prf =
     bindR (assert_digest root) (\<lambda>_.
     bindR (assert_digest body_digest) (\<lambda>_.
     case prf of None \<Rightarrow> Inr False | Some proof \<Rightarrow>
     if ip_v proof \<noteq> 1 \<or> ip_kind proof \<noteq> ''inclusion'' then Inr False
     else if ip_size proof \<noteq> mmr_size \<or> ip_leaf_index proof \<noteq> leaf_index then Inr False
     else if mmr_size < 0 \<or> mmr_size \<ge> MAX_MMR_SIZE then Inr False
     else if leaf_index < 0 then Inr False
     else
       bindR (leaf_count mmr_size) (\<lambda>lc.
       if leaf_index \<ge> lc then Inr False
       else
         bindR (leaf_index_to_pos leaf_index) (\<lambda>leaf_pos.
         bindR (peaks mmr_size) (\<lambda>pks.
         bindR (find_containing_peak leaf_pos pks) (\<lambda>peak_idx.
         if peak_idx = - 1 then Inr False
         else
           bindR (py_index pks peak_idx) (\<lambda>peak_pos.
           bindR (height_at peak_pos) (\<lambda>peak_height.
           let path = locate_path peak_pos peak_height leaf_pos in
           if length (ip_witness proof) \<noteq> length path then Inr False
           else if int (length (ip_peaks_left proof)) \<noteq> peak_idx then Inr False
           else if int (length (ip_peaks_right proof)) \<noteq> int (length pks) - peak_idx - 1 then Inr False
           else
             bindR (mapR parse_digest_hex (ip_witness proof)) (\<lambda>witness_bytes.
             bindR (mapR parse_digest_hex (ip_peaks_left proof)) (\<lambda>peaks_left_bytes.
             bindR (mapR parse_digest_hex (ip_peaks_right proof)) (\<lambda>peaks_right_bytes.
             bindR (leaf_hash body_digest) (\<lambda>leaf.
             bindR (fold_path leaf path witness_bytes) (\<lambda>acc.
             bindR (root_from_peaks (peaks_left_bytes @ [acc] @ peaks_right_bytes)) (\<lambda>computed_root.
             Inr (computed_root = root)))))))))))))))"

definition verify_inclusion ::
  "bytes \<Rightarrow> int \<Rightarrow> int \<Rightarrow> bytes \<Rightarrow> InclusionProof option \<Rightarrow> bool" where
  "verify_inclusion root mmr_size leaf_index body_digest proof =
     or_false (verify_inclusion_body root mmr_size leaf_index body_digest proof)"

section \<open>Consistency\<close>

record ConsistencyProof =
  cp_v :: int
  cp_kind :: string
  cp_size_a :: int
  cp_size_b :: int
  cp_old_peaks :: "string list"
  cp_witness :: "string list list"
  cp_new_peaks :: "string list"

text \<open>The body of the loop over the old peaks: the peak's own hash, then the siblings on its way
  up to the new peak that contains it.\<close>

definition consistency_step ::
  "(int \<Rightarrow> bytes res) \<Rightarrow> int list \<Rightarrow> int \<Rightarrow> (string \<times> string list) res" where
  "consistency_step node new_peak_positions p =
     bindR (node p) (\<lambda>h.
     bindR (find_containing_peak p new_peak_positions) (\<lambda>containing_idx.
     if containing_idx = - 1 then Inl IntegrityError
     else
       bindR (py_index new_peak_positions containing_idx) (\<lambda>new_peak_pos.
       bindR (height_at new_peak_pos) (\<lambda>new_peak_height.
       bindR (mapR (\<lambda>step. node (sibling_pos step)) (locate_path new_peak_pos new_peak_height p)) (\<lambda>w.
       Inr (to_hex h, map to_hex w))))))"

definition consistency_proof ::
  "int \<Rightarrow> (int \<Rightarrow> bytes res) \<Rightarrow> int \<Rightarrow> int \<Rightarrow> ConsistencyProof res" where
  "consistency_proof reader_size node size_a size_b =
     (if size_a < 0 then Inl InvalidArgumentError
      else if size_b < size_a then Inl InvalidArgumentError
      else if reader_size < size_b then Inl IntegrityError
      else
        bindR (peaks size_a) (\<lambda>old_peak_positions.
        bindR (peaks size_b) (\<lambda>new_peak_positions.
        bindR (mapR (consistency_step node new_peak_positions) old_peak_positions) (\<lambda>steps.
        bindR (mapR node new_peak_positions) (\<lambda>new_peaks.
        Inr \<lparr>cp_v = 1, cp_kind = ''consistency'', cp_size_a = size_a, cp_size_b = size_b,
             cp_old_peaks = map fst steps, cp_witness = map snd steps,
             cp_new_peaks = map to_hex new_peaks\<rparr>)))))"

fun check_old_peaks ::
  "int list \<Rightarrow> bytes list \<Rightarrow> (int \<times> bytes \<times> string list) list \<Rightarrow> bool res" where
  "check_old_peaks new_peak_positions new_peaks_bytes [] = Inr True"
| "check_old_peaks new_peak_positions new_peaks_bytes ((p, old_peak, w) # rest) =
     bindR (find_containing_peak p new_peak_positions) (\<lambda>containing_idx.
     if containing_idx = - 1 then Inr False
     else
       bindR (py_index new_peak_positions containing_idx) (\<lambda>new_peak_pos.
       bindR (height_at new_peak_pos) (\<lambda>new_peak_height.
       let path = locate_path new_peak_pos new_peak_height p in
       if length w \<noteq> length path then Inr False
       else
         bindR (mapR parse_digest_hex w) (\<lambda>w_bytes.
         bindR (fold_path old_peak path w_bytes) (\<lambda>acc.
         bindR (py_index new_peaks_bytes containing_idx) (\<lambda>new_peak.
         if acc \<noteq> new_peak then Inr False
         else check_old_peaks new_peak_positions new_peaks_bytes rest))))))"

definition verify_consistency_body ::
  "bytes \<Rightarrow> int \<Rightarrow> bytes \<Rightarrow> int \<Rightarrow> ConsistencyProof option \<Rightarrow> bool res" where
  "verify_consistency_body root_a size_a root_b size_b prf =
     bindR (assert_digest root_a) (\<lambda>_.
     bindR (assert_digest root_b) (\<lambda>_.
     case prf of None \<Rightarrow> Inr False | Some proof \<Rightarrow>
     if cp_v proof \<noteq> 1 \<or> cp_kind proof \<noteq> ''consistency'' then Inr False
     else if cp_size_a proof \<noteq> size_a \<or> cp_size_b proof \<noteq> size_b then Inr False
     else if size_a < 0 then Inr False
     else if size_b < size_a then Inr False
     else
       bindR (peaks size_a) (\<lambda>old_peak_positions.
       bindR (peaks size_b) (\<lambda>new_peak_positions.
       if length (cp_old_peaks proof) \<noteq> length old_peak_positions then Inr False
       else if length (cp_new_peaks proof) \<noteq> length new_peak_positions then Inr False
       else if length (cp_witness proof) \<noteq> length old_peak_positions then Inr False
       else
         bindR (mapR parse_digest_hex (cp_old_peaks proof)) (\<lambda>old_peaks_bytes.
         bindR (mapR parse_digest_hex (cp_new_peaks proof)) (\<lambda>new_peaks_bytes.
         bindR (root_from_peaks old_peaks_bytes) (\<lambda>computed_root_a.
         if computed_root_a \<noteq> root_a then Inr False
         else
           bindR (root_from_peaks new_peaks_bytes) (\<lambda>computed_root_b.
           if computed_root_b \<noteq> root_b then Inr False
           else check_old_peaks new_peak_positions new_peaks_bytes
             (zip old_peak_positions (zip old_peaks_bytes (cp_witness proof)))))))))))"

definition verify_consistency ::
  "bytes \<Rightarrow> int \<Rightarrow> bytes \<Rightarrow> int \<Rightarrow> ConsistencyProof option \<Rightarrow> bool" where
  "verify_consistency root_a size_a root_b size_b proof =
     or_false (verify_consistency_body root_a size_a root_b size_b proof)"

section \<open>Ranges\<close>

text \<open>
  \<^verbatim>\<open>_range_witnesses\<close> walks a subtree and collects one hash for every maximal subtree outside
  \<open>[lo, hi]\<close>. At height 0 the shift by a negative count in the source raises \<^verbatim>\<open>ValueError\<close>; that
  line is reached only when \<open>hi < lo\<close>.
\<close>

fun range_witnesses ::
  "(int \<Rightarrow> bytes res) \<Rightarrow> int \<Rightarrow> nat \<Rightarrow> int \<Rightarrow> int \<Rightarrow> int \<Rightarrow> bytes list res" where
  "range_witnesses node pos 0 leaf_start lo hi =
     (if leaf_start < lo \<or> leaf_start > hi then bindR (node pos) (\<lambda>w. Inr [w])
      else if leaf_start \<ge> lo \<and> leaf_start \<le> hi then Inr []
      else Inl ValueError)"
| "range_witnesses node pos (Suc k) leaf_start lo hi =
     (let leaf_end = leaf_start + 2 ^ Suc k - 1; half = 2 ^ k in
      if leaf_end < lo \<or> leaf_start > hi then bindR (node pos) (\<lambda>w. Inr [w])
      else if leaf_start \<ge> lo \<and> leaf_end \<le> hi then Inr []
      else
        bindR (range_witnesses node (pos - 2 ^ Suc k) k leaf_start lo hi) (\<lambda>out1.
        bindR (range_witnesses node (pos - 1) k (leaf_start + half) lo hi) (\<lambda>out2.
        Inr (out1 @ out2))))"

record RangeProof =
  rp_v :: int
  rp_kind :: string
  rp_size :: int
  rp_from_index :: int
  rp_to_index :: int
  rp_witness :: "string list"

fun range_peaks_loop ::
  "(int \<Rightarrow> bytes res) \<Rightarrow> int list \<Rightarrow> int \<Rightarrow> int \<Rightarrow> int \<Rightarrow> bytes list res" where
  "range_peaks_loop node [] leaf_start lo hi = Inr []"
| "range_peaks_loop node (p # ps) leaf_start lo hi =
     bindR (height_at p) (\<lambda>h.
     bindR (range_witnesses node p h leaf_start lo hi) (\<lambda>out1.
     bindR (range_peaks_loop node ps (leaf_start + 2 ^ h) lo hi) (\<lambda>out2. Inr (out1 @ out2))))"

definition range_proof ::
  "int \<Rightarrow> (int \<Rightarrow> bytes res) \<Rightarrow> int \<Rightarrow> int \<Rightarrow> int \<Rightarrow> RangeProof res" where
  "range_proof reader_size node from_index to_index mmr_size =
     (if to_index < from_index then Inl InvalidArgumentError
      else if from_index < 0 then Inl InvalidArgumentError
      else
        bindR (leaf_count mmr_size) (\<lambda>lc.
        if to_index \<ge> lc then Inl InvalidArgumentError
        else if reader_size < mmr_size then Inl IntegrityError
        else
          bindR (peaks mmr_size) (\<lambda>pks.
          bindR (range_peaks_loop node pks 0 from_index to_index) (\<lambda>out.
          Inr \<lparr>rp_v = 1, rp_kind = ''range'', rp_size = mmr_size, rp_from_index = from_index,
               rp_to_index = to_index, rp_witness = map to_hex out\<rparr>))))"

text \<open>The dictionary \<^verbatim>\<open>{from_index + i: d}\<close> of \<^verbatim>\<open>verify_range\<close>.\<close>

definition digest_by_index :: "int \<Rightarrow> bytes list \<Rightarrow> (int \<rightharpoonup> bytes)" where
  "digest_by_index from_index ds =
     (\<lambda>k. if from_index \<le> k \<and> k < from_index + int (length ds) then Some (ds ! nat (k - from_index))
          else None)"

text \<open>\<^verbatim>\<open>_reconstruct_range_subtree\<close>; the shared \<^verbatim>\<open>cursor\<close> cell is passed in and returned.\<close>

fun reconstruct_range_subtree ::
  "int \<Rightarrow> nat \<Rightarrow> int \<Rightarrow> int \<Rightarrow> int \<Rightarrow> (int \<rightharpoonup> bytes) \<Rightarrow> bytes list \<Rightarrow> nat \<Rightarrow> (bytes \<times> nat) res" where
  "reconstruct_range_subtree pos 0 leaf_start lo hi body_digests witness_bytes cursor =
     (if leaf_start < lo \<or> leaf_start > hi then
        if cursor \<ge> length witness_bytes then Inl IntegrityError
        else Inr (witness_bytes ! cursor, cursor + 1)
      else
        case body_digests leaf_start of
          None \<Rightarrow> Inl KeyError
        | Some d \<Rightarrow> bindR (leaf_hash d) (\<lambda>h. Inr (h, cursor)))"
| "reconstruct_range_subtree pos (Suc k) leaf_start lo hi body_digests witness_bytes cursor =
     (let leaf_end = leaf_start + 2 ^ Suc k - 1; half = 2 ^ k in
      if leaf_end < lo \<or> leaf_start > hi then
        if cursor \<ge> length witness_bytes then Inl IntegrityError
        else Inr (witness_bytes ! cursor, cursor + 1)
      else
        bindR (reconstruct_range_subtree (pos - 2 ^ Suc k) k leaf_start lo hi body_digests
                 witness_bytes cursor) (\<lambda>(left, cursor1).
        bindR (reconstruct_range_subtree (pos - 1) k (leaf_start + half) lo hi body_digests
                 witness_bytes cursor1) (\<lambda>(right, cursor2).
        bindR (interior_hash left right pos) (\<lambda>h. Inr (h, cursor2)))))"

fun reconstruct_peaks_loop ::
  "int list \<Rightarrow> int \<Rightarrow> int \<Rightarrow> int \<Rightarrow> (int \<rightharpoonup> bytes) \<Rightarrow> bytes list \<Rightarrow> nat \<Rightarrow> (bytes list \<times> nat) res" where
  "reconstruct_peaks_loop [] leaf_start lo hi body_digests witness_bytes cursor = Inr ([], cursor)"
| "reconstruct_peaks_loop (p # ps) leaf_start lo hi body_digests witness_bytes cursor =
     bindR (height_at p) (\<lambda>h.
     bindR (reconstruct_range_subtree p h leaf_start lo hi body_digests witness_bytes cursor)
       (\<lambda>(peak, cursor1).
     bindR (reconstruct_peaks_loop ps (leaf_start + 2 ^ h) lo hi body_digests witness_bytes cursor1)
       (\<lambda>(rest, cursor2). Inr (peak # rest, cursor2))))"

definition verify_range_body ::
  "bytes \<Rightarrow> int \<Rightarrow> int \<Rightarrow> int \<Rightarrow> bytes list \<Rightarrow> RangeProof option \<Rightarrow> bool res" where
  "verify_range_body root mmr_size from_index to_index body_digests prf =
     bindR (assert_digest root) (\<lambda>_.
     case prf of None \<Rightarrow> Inr False | Some proof \<Rightarrow>
     if rp_v proof \<noteq> 1 \<or> rp_kind proof \<noteq> ''range'' then Inr False
     else if rp_size proof \<noteq> mmr_size \<or> rp_from_index proof \<noteq> from_index
          \<or> rp_to_index proof \<noteq> to_index then Inr False
     else if mmr_size < 0 \<or> mmr_size \<ge> MAX_MMR_SIZE then Inr False
     else if from_index < 0 \<or> to_index < from_index then Inr False
     else if int (length body_digests) \<noteq> to_index - from_index + 1 then Inr False
     else
       bindR (leaf_count mmr_size) (\<lambda>lc.
       if to_index \<ge> lc then Inr False
       else
         bindR (mapR assert_digest body_digests) (\<lambda>_.
         bindR (mapR parse_digest_hex (rp_witness proof)) (\<lambda>witness_bytes.
         bindR (peaks mmr_size) (\<lambda>pks.
         bindR (reconstruct_peaks_loop pks 0 from_index to_index
                  (digest_by_index from_index body_digests) witness_bytes 0)
           (\<lambda>(reconstructed_peaks, cursor).
         if cursor \<noteq> length witness_bytes then Inr False
         else
           bindR (root_from_peaks reconstructed_peaks) (\<lambda>computed_root.
           Inr (computed_root = root))))))))"

definition verify_range ::
  "bytes \<Rightarrow> int \<Rightarrow> int \<Rightarrow> int \<Rightarrow> bytes list \<Rightarrow> RangeProof option \<Rightarrow> bool" where
  "verify_range root mmr_size from_index to_index body_digests proof =
     or_false (verify_range_body root mmr_size from_index to_index body_digests proof)"

end
