(* ===== verification/Mmr_Complete.thy ===== *)
theory Mmr_Complete
  imports Mmr_Proofs
begin

text \<open>
  Every honest proof verifies: on a node array that is the range over some leaves, the producers
  succeed at the current size and at every earlier complete size, and the verifiers accept what
  they return against the bagged peaks at that size.
\<close>

section \<open>Earlier sizes\<close>

lemma power_le_leaves_of: "h \<in> set hs \<Longrightarrow> 2 ^ h \<le> leaves_of hs"
  by (induction hs) auto

lemma mountains_bound: "j < 2 ^ h \<Longrightarrow> x \<in> set (mountains j) \<Longrightarrow> x < h"
proof -
  assume j: "j < 2 ^ h" and x: "x \<in> set (mountains j)"
  have "2 ^ x \<le> j"
    using power_le_leaves_of [OF x] by simp
  with j have "(2 :: nat) ^ x < 2 ^ h" by linarith
  then show "x < h" by simp
qed

lemma mountains_add: "j < 2 ^ h \<Longrightarrow> mountains (2 ^ h + j) = h # mountains j"
  using mountains_unique [of "h # mountains j"] mountains_bound [of j h] by simp

lemma mountains_power: "mountains (2 ^ h) = [h]"
  using mountains_add [of 0 h] by simp

lemma mountains_append:
  assumes "desc (pre @ h # post)" "j < 2 ^ h"
  shows "mountains (leaves_of pre + j) = pre @ mountains j"
proof -
  have "desc (pre @ mountains j)"
    using assms mountains_bound [OF assms(2)] by (fastforce simp: sorted_wrt_append)
  then show ?thesis using mountains_unique [of "pre @ mountains j"] by simp
qed

lemma tree_prefix:
  "tree_at A L r h s \<Longrightarrow> j \<le> 2 ^ h \<Longrightarrow> forest_at A L (r - msize h + 1) s (mountains j)"
proof (induction h arbitrary: r s j)
  case 0
  then have "j = 0 \<or> j = 2 ^ 0" by auto
  then show ?case
  proof
    assume "j = 2 ^ 0"
    with 0 show ?case by (simp only: mountains_power) simp
  qed simp
next
  case (Suc h)
  have t: "tree_at A L (r - 2 ^ Suc h) h s" "tree_at A L (r - 1) h (s + 2 ^ h)"
    using Suc.prems(1) by simp_all
  have off: "r - 2 ^ Suc h - msize h + 1 = r - msize (Suc h) + 1"
    "r - 1 - msize h + 1 = r - msize (Suc h) + 1 + msize h"
    "r - msize (Suc h) + 1 + msize h - 1 = r - 2 ^ Suc h"
    using two_power_msize [of h] by (simp_all only: msize_Suc)
  consider "j \<le> 2 ^ h" | "2 ^ h \<le> j" "j < 2 ^ Suc h" | "j = 2 ^ Suc h"
    using Suc.prems(2) by linarith
  then show ?case
  proof cases
    case 1
    then show ?thesis using Suc.IH [OF t(1), of j] by (simp only: off(1))
  next
    case 2
    define j' where "j' = j - 2 ^ h"
    have j': "j = 2 ^ h + j'" "j' < 2 ^ h" using 2 by (auto simp: j'_def)
    then have "forest_at A L (r - msize (Suc h) + 1 + msize h) (s + 2 ^ h) (mountains j')"
      using Suc.IH [OF t(2), of j'] off(2) by simp
    with t(1) show ?thesis
      by (simp only: j'(1) mountains_add [OF j'(2)] forest_at.simps off(3))
  next
    case 3
    then show ?thesis
      using Suc.prems(1) by (simp only: mountains_power forest_at.simps) simp
  qed
qed

lemma forest_prefix:
  "forest_at A L off s hs \<Longrightarrow> desc hs \<Longrightarrow> m \<le> leaves_of hs \<Longrightarrow> forest_at A L off s (mountains m)"
proof (induction hs arbitrary: off s m)
  case Nil
  then show ?case by simp
next
  case (Cons h hs)
  show ?case
  proof (cases "m \<le> 2 ^ h")
    case True
    then show ?thesis
      using Cons.prems(1) tree_prefix [of A L "off + msize h - 1" h s m] by simp
  next
    case False
    then obtain j where j: "m = 2 ^ h + j" "j \<le> leaves_of hs"
      using Cons.prems(3) by (metis add_le_cancel_left leaves_of_simps(2) le_iff_add linear)
    have "j < 2 ^ h"
      using j(2) Cons.prems(2) desc_leaves [of hs h] by auto
    with Cons j show ?thesis by (simp add: mountains_add)
  qed
qed

lemma popcount_Suc: "popcount (Suc n) \<le> Suc (popcount n)"
proof (induction n rule: popcount.induct)
  case (1 n)
  show ?case
  proof (cases "even n")
    case True
    then show ?thesis
      by (subst popcount.simps, subst (2) popcount.simps) (auto simp: popcount.simps [of 1])
  next
    case False
    then have "n \<noteq> 0" "Suc n div 2 = Suc (n div 2)" "Suc n mod 2 = 0" "n mod 2 = 1"
      by (auto elim: oddE)
    with 1 show ?thesis
      by (subst popcount.simps, subst (2) popcount.simps) simp
  qed
qed

lemma nodes_of_mountains_mono: "m \<le> n \<Longrightarrow> nodes_of (mountains m) \<le> nodes_of (mountains n)"
proof (induction n)
  case (Suc n)
  show ?case
  proof (cases "m = Suc n")
    case False
    with Suc have "nodes_of (mountains m) \<le> nodes_of (mountains n)" by simp
    also have "\<dots> \<le> nodes_of (mountains (Suc n))"
      using popcount_Suc [of n] by (simp add: nodes_of_mountains)
    finally show ?thesis .
  qed simp
qed simp

text \<open>The nodes of a range at an earlier leaf count are a prefix of the node array.\<close>

lemma mmr_inv_take:
  assumes "mmr_inv ns ls" "m \<le> length ls"
  shows "mmr_inv (take (nat (nodes_of (mountains m))) ns) (take m ls)"
proof -
  let ?k = "nat (nodes_of (mountains m))"
  have len: "int (length ns) = nodes_of (mountains (length ls))" "\<forall>d\<in>set ns. digest d"
    and f: "forest_at (at ns) ((!) ls) 0 0 (mountains (length ls))"
    using assms(1) by (auto simp: mmr_inv_def)
  have k: "?k \<le> length ns"
    using len(1) nodes_of_mountains_mono [OF assms(2)] by simp
  have "forest_at (at ns) ((!) ls) 0 0 (mountains m)"
    using forest_prefix [OF f] assms(2) by simp
  then have "forest_at (at (take ?k ns)) ((!) (take m ls)) 0 0 (mountains m)"
    by (subst forest_at_cong [where B = "at ns" and M = "(!) ls"])
      (auto simp: at_def nat_less_iff zless_nat_eq_int_zless)
  with k len(2) assms(2) nodes_of_nonneg [of "mountains m"] show ?thesis
    by (auto simp: mmr_inv_def min_def dest: in_set_takeD)
qed

section \<open>Finding a position\<close>

lemma find_peak_loop_skip:
  assumes "desc (done @ pre @ h # post)" "nodes_of (done @ pre) \<le> pos"
    "pos < nodes_of (done @ pre) + msize h"
  shows "find_peak_loop pos (peak_positions (nodes_of done) (pre @ h # post)) i
    = Inr (i + int (length pre))"
  using assms
proof (induction pre arbitrary: "done" i)
  case Nil
  then have "height_at (nodes_of done + msize h - 1) = Inr h"
    using height_at_peak [of "done" h post] by simp
  with Nil show ?case by (simp add: msize_def)
next
  case (Cons x pre)
  have "height_at (nodes_of done + msize x - 1) = Inr x"
    using height_at_peak [of "done" x] Cons.prems(1) by simp
  moreover have "find_peak_loop pos (peak_positions (nodes_of (done @ [x])) (pre @ h # post)) (i + 1)
      = Inr (i + 1 + int (length pre))"
    using Cons.prems by (intro Cons.IH) simp_all
  moreover have "\<not> pos \<le> nodes_of done + msize x - 1"
    using Cons.prems(2) nodes_of_nonneg [of pre] by simp
  ultimately show ?case by (simp add: Let_def)
qed

lemma find_containing_peak_ok:
  assumes "desc (pre @ h # post)" "nodes_of pre \<le> pos" "pos < nodes_of pre + msize h"
  shows "find_containing_peak pos (peak_positions 0 (pre @ h # post)) = Inr (int (length pre))"
  using find_peak_loop_skip [of "[]" pre h post pos 0] assms by (simp add: find_containing_peak_def)

lemma peak_positions_nth: "peak_positions off (pre @ h # post) ! length pre = off + nodes_of pre + msize h - 1"
  by (simp add: peak_positions_append nth_append)

lemma split_by_leaf:
  assumes "i < leaves_of hs"
  obtains pre h post where "hs = pre @ h # post" "leaves_of pre \<le> i" "i < leaves_of pre + 2 ^ h"
  using assms
proof (induction hs arbitrary: i thesis)
  case (Cons h hs)
  show ?case
  proof (cases "i < 2 ^ h")
    case True
    then show ?thesis using Cons.prems(1) [of "[]" h hs] by simp
  next
    case False
    then obtain j where j: "i = 2 ^ h + j" "j < leaves_of hs"
      using Cons.prems(2) by (metis add_less_cancel_left leaves_of_simps(2) le_iff_add not_less)
    obtain pre x post where "hs = pre @ x # post" "leaves_of pre \<le> j" "j < leaves_of pre + 2 ^ x"
      using Cons.IH [OF _ j(2)] by blast
    then show ?thesis using Cons.prems(1) [of "h # pre" x post] j by simp
  qed
qed simp

lemma split_by_node:
  assumes "0 \<le> p" "p < nodes_of hs"
  obtains pre h post where "hs = pre @ h # post" "nodes_of pre \<le> p" "p < nodes_of pre + msize h"
  using assms
proof (induction hs arbitrary: p thesis)
  case (Cons h hs)
  show ?case
  proof (cases "p < msize h")
    case True
    then show ?thesis using Cons.prems(1) [of "[]" h hs] Cons.prems(2) by simp
  next
    case False
    then have "0 \<le> p - msize h" "p - msize h < nodes_of hs" using Cons.prems(3) by simp_all
    then obtain pre x post where
      "hs = pre @ x # post" "nodes_of pre \<le> p - msize h" "p - msize h < nodes_of pre + msize x"
      using Cons.IH [of "p - msize h"] by blast
    then show ?thesis using Cons.prems(1) [of "h # pre" x post] by simp
  qed
qed simp

lemma mountains_nodes_bound: "j < 2 ^ h \<Longrightarrow> nodes_of (mountains j) < msize h"
  using desc_nodes [of "mountains j" h] mountains_bound [of j h] by force

text \<open>Where leaf \<open>i\<close> of a range of \<open>m\<close> leaves lies: its mountain and its position.\<close>

lemma leaf_located:
  assumes "i < m"
  obtains pre h post where "mountains m = pre @ h # post"
    "leaves_of pre \<le> i" "i < leaves_of pre + 2 ^ h"
    "nodes_of (mountains i) = nodes_of pre + nodes_of (mountains (i - leaves_of pre))"
    "nodes_of (mountains (i - leaves_of pre)) < msize h"
    "find_containing_peak (nodes_of (mountains i)) (peak_positions 0 (mountains m))
       = Inr (int (length pre))"
proof -
  obtain pre h post where d: "mountains m = pre @ h # post" "leaves_of pre \<le> i" "i < leaves_of pre + 2 ^ h"
    using split_by_leaf [of i "mountains m"] assms by auto
  define j where "j = i - leaves_of pre"
  have j: "i = leaves_of pre + j" "j < 2 ^ h" using d by (auto simp: j_def)
  have desc: "desc (pre @ h # post)" using d(1) desc_mountains [of m] by simp
  have "mountains i = pre @ mountains j"
    using mountains_append [OF desc j(2)] j(1) by simp
  then have n: "nodes_of (mountains i) = nodes_of pre + nodes_of (mountains j)" by simp
  have b: "nodes_of (mountains j) < msize h"
    by (rule mountains_nodes_bound [OF j(2)])
  show thesis
    using that [OF d] n b find_containing_peak_ok [OF desc, of "nodes_of (mountains i)"]
      nodes_of_nonneg [of "mountains j"] d(1) j_def by simp
qed

lemma tree_leaf:
  "tree_at A L r h s \<Longrightarrow> j < 2 ^ h \<Longrightarrow> A (r - msize h + 1 + nodes_of (mountains j)) = L (s + j)"
proof (induction h arbitrary: r s j)
  case (Suc h)
  show ?case
  proof (cases "j < 2 ^ h")
    case True
    have "r - 2 ^ Suc h - msize h + 1 = r - msize (Suc h) + 1"
      using two_power_msize [of h] by (simp only: msize_Suc)
    with Suc True show ?thesis by (metis tree_at.simps(2))
  next
    case False
    then obtain j' where j': "j = 2 ^ h + j'" "j' < 2 ^ h"
      using Suc.prems(2) by (metis add_less_cancel_left le_iff_add mult_2 not_less power_Suc)
    then have "A (r - 1 - msize h + 1 + nodes_of (mountains j')) = L (s + 2 ^ h + j')"
      using Suc.IH [of "r - 1" "s + 2 ^ h" j'] Suc.prems(1) by simp
    moreover have "r - 1 - msize h + 1 + nodes_of (mountains j')
        = r - msize (Suc h) + 1 + nodes_of (mountains j)"
      by (simp only: j'(1) mountains_add [OF j'(2)] nodes_of_simps msize_Suc)
    ultimately show ?thesis by (simp only: j'(1) add.assoc)
  qed
qed simp

section \<open>Folding up a path\<close>

lemma fold_step_simp [simp]:
  "fold_step acc (st, sib) =
     (if target_is_right st then interior_hash sib acc (parent_pos st)
      else interior_hash acc sib (parent_pos st))"
  by (simp add: fold_step_def)

lemma locate_loop_acc: "locate_loop r h t acc = acc @ locate_loop r h t []"
proof (induction h arbitrary: r acc)
  case (Suc h)
  show ?case
    by (simp add: Let_def, subst Suc, subst (2) Suc, simp, subst Suc, subst (2) Suc, simp)
qed simp

lemma locate_path_0 [simp]: "locate_path r 0 t = []"
  by (simp add: locate_path_def)

lemma locate_path_Suc:
  "locate_path r (Suc k) t =
     (if r = t then []
      else if t \<le> r - 2 ^ Suc k
      then locate_path (r - 2 ^ Suc k) k t
             @ [\<lparr>sibling_pos = r - 1, target_is_right = False, parent_pos = r\<rparr>]
      else locate_path (r - 1) k t
             @ [\<lparr>sibling_pos = r - 2 ^ Suc k, target_is_right = True, parent_pos = r\<rparr>])"
  by (simp add: locate_path_def Let_def) (simp add: locate_loop_acc [of _ _ _ "[_]"])

lemma path_positions:
  "r - msize h < t \<Longrightarrow> t \<le> r \<Longrightarrow> st \<in> set (locate_path r h t) \<Longrightarrow>
   r - msize h < sibling_pos st \<and> sibling_pos st < r \<and> r - msize h < parent_pos st \<and> parent_pos st \<le> r"
proof (induction h arbitrary: r)
  case (Suc h)
  have p: "(2 :: int) ^ Suc h = msize h + 1" "msize (Suc h) = 2 * msize h + 1" "1 \<le> msize h"
    by (rule two_power_msize, rule msize_Suc, rule msize_pos)
  show ?case
  proof (cases "t \<le> r - 2 ^ Suc h")
    case True
    then have "st \<in> set (locate_path (r - 2 ^ Suc h) h t) \<or> st = \<lparr>sibling_pos = r - 1, target_is_right = False, parent_pos = r\<rparr>"
      using Suc.prems(3) by (auto simp: locate_path_Suc split: if_splits)
    moreover have "r - 2 ^ Suc h - msize h < t" using Suc.prems(1) p by linarith
    ultimately show ?thesis
      using Suc.IH [of "r - 2 ^ Suc h"] True p by fastforce
  next
    case False
    then have "st \<in> set (locate_path (r - 1) h t) \<or> st = \<lparr>sibling_pos = r - 2 ^ Suc h, target_is_right = True, parent_pos = r\<rparr>"
      and "r \<noteq> t"
      using Suc.prems(3) by (auto simp: locate_path_Suc split: if_splits)
    moreover have "r - 1 - msize h < t" using False p by linarith
    ultimately show ?thesis
      using Suc.IH [of "r - 1"] Suc.prems(2) p by fastforce
  qed
qed simp

lemma fold_path_tree:
  assumes "tree_at A L r h s" "\<And>p. r - msize h < p \<Longrightarrow> p \<le> r \<Longrightarrow> digest (A p)"
    "msize h \<le> r + 1" "r + 1 < 2 ^ 64" "r - msize h < t" "t \<le> r"
  shows "foldR fold_step (A t) (map (\<lambda>st. (st, A (sibling_pos st))) (locate_path r h t)) = Inr (A r)"
  using assms
proof (induction h arbitrary: r s)
  case 0
  then have "t = r" by simp
  then show ?case by simp
next
  case (Suc h)
  have p: "(2 :: int) ^ Suc h = msize h + 1" "msize (Suc h) = 2 * msize h + 1" "1 \<le> msize h"
    by (rule two_power_msize, rule msize_Suc, rule msize_pos)
  have dig: "digest (A (r - 1))" "digest (A (r - 2 ^ Suc h))"
    by (rule Suc.prems(2), use p in linarith, use p in linarith)+
  have root: "A r = interior (A (r - 2 ^ Suc h)) (A (r - 1)) r"
    and sub: "tree_at A L (r - 2 ^ Suc h) h s" "tree_at A L (r - 1) h (s + 2 ^ h)"
    using Suc.prems(1) by simp_all
  have ih: "interior_hash (A (r - 2 ^ Suc h)) (A (r - 1)) r = Inr (A r)"
    using dig Suc.prems(3,4) p root by (simp add: interior_hash_eq_Inr)
  consider "r = t" | "r \<noteq> t" "t \<le> r - 2 ^ Suc h" | "r \<noteq> t" "\<not> t \<le> r - 2 ^ Suc h" by blast
  then show ?case
  proof cases
    case 2
    have "foldR fold_step (A t) (map (\<lambda>st. (st, A (sibling_pos st))) (locate_path (r - 2 ^ Suc h) h t))
        = Inr (A (r - 2 ^ Suc h))"
      by (rule Suc.IH [OF sub(1)]) (use Suc.prems(2-5) p 2 in \<open>simp_all\<close>)
    then show ?thesis using 2 ih by (simp only: locate_path_Suc) (simp add: foldR_append)
  next
    case 3
    have "foldR fold_step (A t) (map (\<lambda>st. (st, A (sibling_pos st))) (locate_path (r - 1) h t))
        = Inr (A (r - 1))"
      by (rule Suc.IH [OF sub(2)]) (use Suc.prems(2-6) p 3 in \<open>simp_all\<close>)
    then show ?thesis using 3 ih by (simp only: locate_path_Suc) (simp add: foldR_append)
  qed (simp add: locate_path_Suc)
qed

section \<open>Inclusion\<close>

definition peak_hashes :: "bytes list \<Rightarrow> nat \<Rightarrow> bytes list" where
  "peak_hashes ns m = map (at ns) (peak_positions 0 (mountains m))"

definition leaf_of :: "bytes \<Rightarrow> bytes" where
  "leaf_of d = sha256 (0 # d)"

lemma leaf_hash_ok [simp]: "digest d \<Longrightarrow> leaf_hash d = Inr (leaf_of d)"
  by (simp add: leaf_hash_eq_Inr leaf_of_def)

lemma parse_to_hex [simp]: "digest b \<Longrightarrow> parse_digest_hex (to_hex b) = Inr b"
  by (simp add: parse_digest_hex_def)

lemma parse_digest_hex_Inr: "parse_digest_hex h = Inr b \<Longrightarrow> digest b"
  by (auto simp: parse_digest_hex_def res_simps split: if_splits)

lemma mapR_parse_to_hex [simp]:
  "\<forall>b\<in>set bs. digest b \<Longrightarrow> mapR parse_digest_hex (map to_hex bs) = Inr bs"
  by (induction bs) auto

lemma length_bag_loop: "xs \<noteq> [] \<Longrightarrow> \<forall>x\<in>set xs. digest x \<Longrightarrow> digest (bag_loop xs)"
  by (induction xs rule: bag_loop.induct) auto

lemma root_from_peaks_ok:
  "\<forall>p\<in>set ps. digest p \<Longrightarrow> \<exists>root. root_from_peaks ps = Inr root \<and> digest root"
  using length_bag_loop [of "rev ps"] by (auto simp: root_from_peaks_def assert_digest_def)

text \<open>The node array \<open>ns\<close> is the range over the records with body digests \<open>ds\<close>.\<close>

definition mmr_of :: "bytes list \<Rightarrow> bytes list \<Rightarrow> bool" where
  "mmr_of ns ds \<longleftrightarrow> mmr_inv ns (map leaf_of ds) \<and> (\<forall>d\<in>set ds. digest d)"

lemma mmr_of_Nil [simp]: "mmr_of [] []"
  by (simp add: mmr_of_def)

lemma peak_position_bounds:
  assumes "p \<in> set (peak_positions off hs)"
  shows "off \<le> p \<and> p < off + nodes_of hs"
  using assms
proof (induction hs arbitrary: off)
  case (Cons h hs)
  then show ?case
    using msize_pos [of h] nodes_of_nonneg [of hs] by fastforce
qed simp

lemma leaf_count_at: "nodes_of (mountains m) < MAX_MMR_SIZE \<Longrightarrow>
    leaf_count (nodes_of (mountains m)) = Inr (int m)"
  by (simp add: leaf_count_nodes)

lemma leaf_index_pos: "nodes_of (mountains i) < MAX_MMR_SIZE \<Longrightarrow>
    leaf_index_to_pos (int i) = Inr (nodes_of (mountains i))"
  by (simp add: leaf_index_to_pos_def require_nonneg_int_def node_count_mountains)

lemma peaks_at: "nodes_of (mountains m) < MAX_MMR_SIZE \<Longrightarrow>
    peaks (nodes_of (mountains m)) = Inr (peak_positions 0 (mountains m))"
  by (simp add: peaks_complete)

lemma node_located:
  assumes "0 \<le> p" "p < nodes_of (mountains n)"
  obtains pre h post where "mountains n = pre @ h # post" "nodes_of pre \<le> p" "p < nodes_of pre + msize h"
    "find_containing_peak p (peak_positions 0 (mountains n)) = Inr (int (length pre))"
    "py_index (peak_positions 0 (mountains n)) (int (length pre)) = Inr (nodes_of pre + msize h - 1)"
    "height_at (nodes_of pre + msize h - 1) = Inr h"
proof -
  obtain pre h post where d: "mountains n = pre @ h # post" "nodes_of pre \<le> p" "p < nodes_of pre + msize h"
    using split_by_node [OF assms] by blast
  moreover have "desc (pre @ h # post)" using desc_mountains [of n] d(1) by simp
  ultimately show ?thesis
    using find_containing_peak_ok [of pre h post p] peak_positions_nth [of 0 pre h post]
      height_at_peak [of pre h post]
    by (intro that) simp_all
qed

text \<open>Reading a stored range: every lemma below holds for any storage that meets the interface.\<close>

context node_store
begin

lemma node_at:
  "0 \<le> p \<Longrightarrow> p < int (length (contents s)) \<Longrightarrow> node s p = Inr (at (contents s) p)"
  using node_contents [of p s] size_contents [of s] by simp

lemma array_length: "mmr_of (contents s) ds \<Longrightarrow> int (length (contents s)) = nodes_of (mountains (length ds))"
  by (simp add: mmr_of_def mmr_inv_def)

lemma at_digest:
  "mmr_of (contents s) ds \<Longrightarrow> 0 \<le> p \<Longrightarrow> p < int (length (contents s)) \<Longrightarrow> digest (at (contents s) p)"
  by (auto simp: mmr_of_def mmr_inv_def at_def nat_less_iff)

lemma size_le:
  "mmr_of (contents s) ds \<Longrightarrow> m \<le> length ds \<Longrightarrow> nodes_of (mountains m) \<le> int (length (contents s))"
  by (simp add: array_length nodes_of_mountains_mono)

lemma forest:
  assumes "mmr_of (contents s) ds" "m \<le> length ds"
  shows "forest_at (at (contents s)) ((!) (map leaf_of ds)) 0 0 (mountains m)"
proof -
  have "forest_at (at (contents s)) ((!) (map leaf_of ds)) 0 0 (mountains (length ds))"
    using assms(1) by (simp add: mmr_of_def mmr_inv_def)
  then show ?thesis by (rule forest_prefix) (use assms(2) in simp_all)
qed

lemma tree:
  assumes H: "mmr_of (contents s) ds" and "m \<le> length ds" "mountains m = pre @ h # post"
  shows "tree_at (at (contents s)) ((!) (map leaf_of ds)) (nodes_of pre + msize h - 1) h (leaves_of pre)"
    and "0 \<le> nodes_of pre" "nodes_of pre + msize h \<le> int (length (contents s))"
  using forest [OF assms(1,2)] size_le [OF assms(1,2)] nodes_of_nonneg [of pre] nodes_of_nonneg [of post]
  by (simp_all add: assms(3) forest_at_append)

lemma node_peaks:
  assumes H: "mmr_of (contents s) ds" and "m \<le> length ds" "set ps \<subseteq> set (peak_positions 0 (mountains m))"
  shows "mapR (node s) ps = Inr (map (at (contents s)) ps) \<and> (\<forall>d\<in>set (map (at (contents s)) ps). digest d)"
proof -
  have b: "0 \<le> p \<and> p < int (length (contents s))" if "p \<in> set ps" for p
    using that assms(3) size_le [OF H assms(2)] peak_position_bounds [of p 0 "mountains m"] by auto
  have "mapR (node s) ps = Inr (map (at (contents s)) ps)"
    by (rule mapR_Inr) (use b node_at in blast)
  moreover have "\<forall>d\<in>set (map (at (contents s)) ps). digest d"
    using b at_digest [OF H] by simp
  ultimately show ?thesis by simp
qed

lemma path_nodes:
  assumes H: "mmr_of (contents s) ds" and "m \<le> length ds" "mountains m = pre @ h # post"
    "nodes_of pre \<le> t" "t < nodes_of pre + msize h"
  defines "path \<equiv> locate_path (nodes_of pre + msize h - 1) h t"
  shows "mapR (\<lambda>st. node s (sibling_pos st)) path = Inr (map (\<lambda>st. at (contents s) (sibling_pos st)) path)"
    and "\<forall>d\<in>set (map (\<lambda>st. at (contents s) (sibling_pos st)) path). digest d"
proof -
  have "0 \<le> sibling_pos st \<and> sibling_pos st < int (length (contents s))" if "st \<in> set path" for st
    using path_positions [of "nodes_of pre + msize h - 1" h t st] that assms tree(2,3) [OF assms(1-3)]
    by auto
  then show "mapR (\<lambda>st. node s (sibling_pos st)) path = Inr (map (\<lambda>st. at (contents s) (sibling_pos st)) path)"
    and "\<forall>d\<in>set (map (\<lambda>st. at (contents s) (sibling_pos st)) path). digest d"
    by (auto intro!: mapR_Inr node_at at_digest [OF H])
qed

lemma fold_to_peak:
  assumes H: "mmr_of (contents s) ds" and "m \<le> length ds" "mountains m = pre @ h # post" "nodes_of (mountains m) < MAX_MMR_SIZE"
    "nodes_of pre \<le> t" "t < nodes_of pre + msize h"
  defines "path \<equiv> locate_path (nodes_of pre + msize h - 1) h t"
  shows "fold_path (at (contents s) t) path (map (\<lambda>st. at (contents s) (sibling_pos st)) path)
    = Inr (at (contents s) (nodes_of pre + msize h - 1))"
proof -
  note t = tree [OF assms(1-3)]
  have "nodes_of pre + msize h < MAX_MMR_SIZE"
    using assms(3,4) nodes_of_nonneg [of post] by simp
  then have "foldR fold_step (at (contents s) t) (map (\<lambda>st. (st, at (contents s) (sibling_pos st))) path)
      = Inr (at (contents s) (nodes_of pre + msize h - 1))"
    unfolding path_def
    by (intro fold_path_tree [OF t(1)] at_digest [OF H])
      (use t(2,3) assms(5,6) in \<open>auto simp: MAX_MMR_SIZE_def\<close>)
  then show ?thesis by (simp add: fold_path_def zip_map2 zip_same_conv_map o_def)
qed

lemma inclusion_complete:
  assumes H: "mmr_of (contents s) ds" and m: "m \<le> length ds" "nodes_of (mountains m) < MAX_MMR_SIZE" and i: "i < m"
    and root: "root_from_peaks (peak_hashes (contents s) m) = Inr root"
  shows "\<exists>pf. inclusion_proof (size_of s) (node s) (int i) (nodes_of (mountains m)) = Inr pf \<and>
      verify_inclusion root (nodes_of (mountains m)) (int i) (ds ! i) (Some pf)"
proof -
  let ?s = "nodes_of (mountains m)" and ?t = "nodes_of (mountains i)"
    and ?pks = "peak_positions 0 (mountains m)"
  obtain pre h post where d: "mountains m = pre @ h # post" "leaves_of pre \<le> i" "i < leaves_of pre + 2 ^ h"
    and t: "?t = nodes_of pre + nodes_of (mountains (i - leaves_of pre))"
      "nodes_of (mountains (i - leaves_of pre)) < msize h"
    and find: "find_containing_peak ?t ?pks = Inr (int (length pre))"
    using leaf_located [OF i] by blast
  define r where "r = nodes_of pre + msize h - 1"
  define path where "path = locate_path r h ?t"
  have tb: "nodes_of pre \<le> ?t" "?t < nodes_of pre + msize h"
    using t nodes_of_nonneg [of "mountains (i - leaves_of pre)"] by simp_all
  have ti: "leaf_index_to_pos (int i) = Inr ?t"
    using leaf_index_pos nodes_of_mountains_mono [of i m] m(2) i by simp
  have r: "py_index ?pks (int (length pre)) = Inr r" "height_at r = Inr h"
    using peak_positions_nth [of 0 pre h post] height_at_peak [of pre h post] desc_mountains [of m]
    by (simp_all add: d(1) r_def)
  have left: "set (take (length pre) ?pks) \<subseteq> set ?pks" "set (drop (length pre + 1) ?pks) \<subseteq> set ?pks"
    by (rule set_take_subset, rule set_drop_subset)
  note w = path_nodes [OF H m(1) d(1) tb, folded r_def, folded path_def]
  note pl = node_peaks [OF H m(1) left(1)] and pr = node_peaks [OF H m(1) left(2)]
  have leaf: "leaf_of (ds ! i) = at (contents s) ?t"
  proof -
    have "at (contents s) (r - msize h + 1 + nodes_of (mountains (i - leaves_of pre)))
        = map leaf_of ds ! (leaves_of pre + (i - leaves_of pre))"
      using tree(1) [OF H m(1) d(1)] d(2,3) by (intro tree_leaf) (auto simp: r_def)
    then show ?thesis using t(1) d(2) m(1) i by (simp add: r_def)
  qed
  have fold: "fold_path (leaf_of (ds ! i)) path (map (\<lambda>st. at (contents s) (sibling_pos st)) path) = Inr (at (contents s) r)"
    using fold_to_peak [OF H m(1) d(1) m(2) tb] by (simp add: leaf path_def r_def)
  have split: "?pks = take (length pre) ?pks @ [r] @ drop (length pre + 1) ?pks"
    using id_take_nth_drop [of "length pre" ?pks] peak_positions_nth [of 0 pre h post]
    by (simp add: d(1) r_def)
  have peaks: "map (at (contents s)) (take (length pre) ?pks) @ [at (contents s) r] @ map (at (contents s)) (drop (length pre + 1) ?pks)
      = peak_hashes (contents s) m"
    unfolding peak_hashes_def by (subst (3) split) simp
  have "digest root"
    using root root_from_peaks_ok [of "peak_hashes (contents s) m"] node_peaks [OF H m(1) order_refl]
    by (auto simp: peak_hashes_def)
  have size: "0 \<le> ?s" "?s \<le> size_of s"
    using nodes_of_nonneg size_le [OF H m(1)] size_contents [of s] by auto
  define pf where "pf = \<lparr>ip_v = 1, ip_kind = ''inclusion'', ip_size = ?s, ip_leaf_index = int i,
      ip_witness = map to_hex (map (\<lambda>st. at (contents s) (sibling_pos st)) path),
      ip_peaks_left = map to_hex (map (at (contents s)) (take (length pre) ?pks)),
      ip_peaks_right = map to_hex (map (at (contents s)) (drop (length pre + 1) ?pks))\<rparr>"
  have "inclusion_proof (size_of s) (node s) (int i) ?s = Inr pf"
    using leaf_count_at [OF m(2)] i size ti peaks_at [OF m(2)] find r w(1) pl pr
    by (simp add: inclusion_proof_def pf_def Let_def path_def)
  moreover have "verify_inclusion_body root ?s (int i) (ds ! i) (Some pf) = Inr True"
  proof -
    have "digest (ds ! i)" using H m(1) i by (auto simp: mmr_of_def)
    moreover have "length (take (length pre) ?pks) = length pre"
      "int (length (drop (length pre + 1) ?pks)) = int (length ?pks) - int (length pre) - 1"
      by (simp_all add: d(1))
    ultimately show ?thesis
      using leaf_count_at [OF m(2)] i size m(2) ti peaks_at [OF m(2)] find r w(2) pl pr fold peaks root
        \<open>digest root\<close>
      by (simp add: verify_inclusion_body_def assert_digest_def pf_def Let_def path_def del: length_take length_drop map_map)
  qed
  ultimately show ?thesis by (auto simp: verify_inclusion_def)
qed

text \<open>One old peak: the producer's step and the verifier's step agree on the new peak above it.\<close>

definition old_peak_witness :: "'s \<Rightarrow> nat \<Rightarrow> int \<Rightarrow> bytes list" where
  "old_peak_witness s n p =
     (case find_containing_peak p (peak_positions 0 (mountains n)) of
        Inr k \<Rightarrow> (let r = peak_positions 0 (mountains n) ! nat k in
          case height_at r of
            Inr h \<Rightarrow> map (\<lambda>st. at (contents s) (sibling_pos st)) (locate_path r h p)
          | Inl _ \<Rightarrow> [])
      | Inl _ \<Rightarrow> [])"

lemma consistency_step_ok:
  assumes H: "mmr_of (contents s) ds" and n: "n \<le> length ds"
    and p: "0 \<le> p" "p < nodes_of (mountains n)"
  shows "consistency_step (node s) (peak_positions 0 (mountains n)) p
    = Inr (to_hex (at (contents s) p), map to_hex (old_peak_witness s n p))"
proof -
  from p obtain pre h post where d: "mountains n = pre @ h # post" "nodes_of pre \<le> p" "p < nodes_of pre + msize h"
    "find_containing_peak p (peak_positions 0 (mountains n)) = Inr (int (length pre))"
    "py_index (peak_positions 0 (mountains n)) (int (length pre)) = Inr (nodes_of pre + msize h - 1)"
    "height_at (nodes_of pre + msize h - 1) = Inr h"
    by (rule node_located)
  have "peak_positions 0 (mountains n) ! length pre = nodes_of pre + msize h - 1"
    using peak_positions_nth [of 0 pre h post] d(1) by simp
  moreover have "node s p = Inr (at (contents s) p)"
    using p size_le [OF H n] by (intro node_at) auto
  ultimately show ?thesis
    using path_nodes(1) [OF H n d(1-3)] d(4-6)
    by (simp add: consistency_step_def old_peak_witness_def del: map_map)
qed

lemma check_old_peaks_ok:
  assumes H: "mmr_of (contents s) ds" and n: "n \<le> length ds" "nodes_of (mountains n) < MAX_MMR_SIZE"
    and ps: "\<forall>p\<in>set ps. 0 \<le> p \<and> p < nodes_of (mountains n)"
  shows "check_old_peaks (peak_positions 0 (mountains n)) (peak_hashes (contents s) n)
      (map (\<lambda>p. (p, at (contents s) p, map to_hex (old_peak_witness s n p))) ps) = Inr True"
  using ps
proof (induction ps)
  case (Cons p ps)
  then have "0 \<le> p" "p < nodes_of (mountains n)" by simp_all
  then obtain pre h post where d: "mountains n = pre @ h # post" "nodes_of pre \<le> p" "p < nodes_of pre + msize h"
    "find_containing_peak p (peak_positions 0 (mountains n)) = Inr (int (length pre))"
    "py_index (peak_positions 0 (mountains n)) (int (length pre)) = Inr (nodes_of pre + msize h - 1)"
    "height_at (nodes_of pre + msize h - 1) = Inr h"
    by (rule node_located)
  let ?r = "nodes_of pre + msize h - 1"
  have r: "peak_positions 0 (mountains n) ! length pre = ?r"
    using peak_positions_nth [of 0 pre h post] d(1) by simp
  then have w: "old_peak_witness s n p = map (\<lambda>st. at (contents s) (sibling_pos st)) (locate_path ?r h p)"
    using d(4,6) by (simp add: old_peak_witness_def)
  have "length pre < length (peak_positions 0 (mountains n))"
    by (simp add: d(1))
  then have "py_index (peak_hashes (contents s) n) (int (length pre)) = Inr (at (contents s) ?r)"
    using r by (simp add: peak_hashes_def)
  moreover have "mapR parse_digest_hex (map to_hex (old_peak_witness s n p)) = Inr (old_peak_witness s n p)"
    using path_nodes(2) [OF H n(1) d(1-3)] by (intro mapR_parse_to_hex) (simp add: w)
  ultimately show ?case
    using Cons d(4-6) fold_to_peak [OF H n(1) d(1) n(2) d(2,3)] w
    by (simp add: Let_def del: map_map)
qed simp

lemma zip_steps: "zip ps (zip (map f ps) (map g ps)) = map (\<lambda>p. (p, f p, g p)) ps"
  by (induction ps) auto

lemma consistency_complete:
  assumes H: "mmr_of (contents s) ds" and m: "m \<le> n" "n \<le> length ds" "nodes_of (mountains n) < MAX_MMR_SIZE"
    and root: "root_from_peaks (peak_hashes (contents s) m) = Inr root_a"
      "root_from_peaks (peak_hashes (contents s) n) = Inr root_b"
  shows "\<exists>pf. consistency_proof (size_of s) (node s) (nodes_of (mountains m)) (nodes_of (mountains n)) = Inr pf \<and>
      verify_consistency root_a (nodes_of (mountains m)) root_b (nodes_of (mountains n)) (Some pf)"
proof -
  let ?a = "nodes_of (mountains m)" and ?b = "nodes_of (mountains n)"
    and ?pa = "peak_positions 0 (mountains m)" and ?pb = "peak_positions 0 (mountains n)"
  have ab: "0 \<le> ?a" "?a \<le> ?b" "?b \<le> size_of s"
    using nodes_of_nonneg nodes_of_mountains_mono [OF m(1)] size_le [OF H m(2)] size_contents [of s] by auto
  have ps: "\<forall>p\<in>set ?pa. 0 \<le> p \<and> p < ?b"
    using peak_position_bounds [of _ 0 "mountains m"] ab(2) by force
  have steps: "mapR (consistency_step (node s) ?pb) ?pa
      = Inr (map (\<lambda>p. (to_hex (at (contents s) p), map to_hex (old_peak_witness s n p))) ?pa)"
    using ps consistency_step_ok [OF H m(2)] by (intro mapR_Inr) blast
  have da: "\<forall>d\<in>set (peak_hashes (contents s) m). digest d" "\<forall>d\<in>set (peak_hashes (contents s) n). digest d"
    using node_peaks [OF H _ order_refl, of m] node_peaks [OF H _ order_refl, of n] m
    by (simp_all add: peak_hashes_def)
  then have dr: "digest root_a" "digest root_b" using root root_from_peaks_ok by fastforce+
  define pf where "pf = \<lparr>cp_v = 1, cp_kind = ''consistency'', cp_size_a = ?a, cp_size_b = ?b,
      cp_old_peaks = map to_hex (peak_hashes (contents s) m),
      cp_witness = map (\<lambda>p. map to_hex (old_peak_witness s n p)) ?pa,
      cp_new_peaks = map to_hex (peak_hashes (contents s) n)\<rparr>"
  have "consistency_proof (size_of s) (node s) ?a ?b = Inr pf"
    using ab m(3) steps node_peaks [OF H m(2) order_refl]
    by (simp add: consistency_proof_def peaks_at pf_def peak_hashes_def o_def del: mapR_Inr)
  moreover have "verify_consistency_body root_a ?a root_b ?b (Some pf) = Inr True"
    using ab m(3) dr root da check_old_peaks_ok [OF H m(2,3) ps]
      zip_steps [of ?pa "at (contents s)" "\<lambda>p. map to_hex (old_peak_witness s n p)"]
    by (simp add: verify_consistency_body_def assert_digest_def peaks_at pf_def del: map_map)
      (simp add: peak_hashes_def)
  ultimately show ?thesis by (auto simp: verify_consistency_def)
qed

end

section \<open>Ranges\<close>

lemma range_witnesses_inside:
  "lo \<le> ls \<Longrightarrow> ls + 2 ^ h - 1 \<le> hi \<Longrightarrow> range_witnesses nd r h ls lo hi = Inr []"
proof (cases h)
  case (Suc k)
  assume "lo \<le> ls" "ls + 2 ^ h - 1 \<le> hi"
  moreover have "(1 :: int) \<le> 2 ^ Suc k" by (rule one_le_power) simp
  ultimately show ?thesis using Suc by (simp add: Let_def)
qed simp

text \<open>What the verifier rebuilds from the witnesses \<open>ws\<close>, wherever they stand in the list.\<close>

definition rebuilds :: "int \<Rightarrow> nat \<Rightarrow> int \<Rightarrow> int \<Rightarrow> int \<Rightarrow> (int \<rightharpoonup> bytes) \<Rightarrow> bytes list \<Rightarrow> bytes \<Rightarrow> bool" where
  "rebuilds r h ls lo hi bd ws x \<longleftrightarrow>
     (\<forall>pre post. reconstruct_range_subtree r h ls lo hi bd (pre @ ws @ post) (length pre)
        = Inr (x, length pre + length ws))"

lemma rebuildsD:
  "rebuilds r h ls lo hi bd ws x \<Longrightarrow>
   reconstruct_range_subtree r h ls lo hi bd (pre @ ws @ post) (length pre) = Inr (x, length pre + length ws)"
  by (simp add: rebuilds_def)

lemma rebuilds_outside:
  "ls + 2 ^ h - 1 < lo \<or> hi < ls \<Longrightarrow> rebuilds r h ls lo hi bd [x] x"
  by (cases h) (auto simp: rebuilds_def Let_def nth_append)

lemma rebuilds_node:
  assumes "rebuilds (r - 2 ^ Suc k) k ls lo hi bd ws1 x" "rebuilds (r - 1) k (ls + 2 ^ k) lo hi bd ws2 y"
    and "\<not> (ls + 2 ^ Suc k - 1 < lo \<or> hi < ls)" "interior_hash x y r = Inr z"
  shows "rebuilds r (Suc k) ls lo hi bd (ws1 @ ws2) z"
  unfolding rebuilds_def
proof (intro allI)
  fix pre post
  have "reconstruct_range_subtree (r - 2 ^ Suc k) k ls lo hi bd (pre @ (ws1 @ ws2) @ post) (length pre)
      = Inr (x, length pre + length ws1)"
    using rebuildsD [OF assms(1), of pre "ws2 @ post"] by simp
  moreover have "reconstruct_range_subtree (r - 1) k (ls + 2 ^ k) lo hi bd (pre @ (ws1 @ ws2) @ post) (length pre + length ws1)
      = Inr (y, length pre + length ws1 + length ws2)"
    using rebuildsD [OF assms(2), of "pre @ ws1" post] by simp
  ultimately show "reconstruct_range_subtree r (Suc k) ls lo hi bd (pre @ (ws1 @ ws2) @ post) (length pre)
      = Inr (z, length pre + length (ws1 @ ws2))"
    using assms(3,4) by (simp add: Let_def del: power_Suc append_assoc)
qed

lemma range_tree:
  assumes "tree_at A L r h st" "lo \<le> hi"
    and "\<And>p. r - msize h < p \<Longrightarrow> p \<le> r \<Longrightarrow> nd p = Inr (A p) \<and> digest (A p)"
    and "\<And>k. lo \<le> int k \<Longrightarrow> int k \<le> hi \<Longrightarrow> \<exists>d. bd (int k) = Some d \<and> digest d \<and> leaf_of d = L k"
    and "msize h \<le> r + 1" "r + 1 < 2 ^ 64"
  shows "\<exists>ws. range_witnesses nd r h (int st) lo hi = Inr ws \<and> (\<forall>w\<in>set ws. digest w) \<and>
    rebuilds r h (int st) lo hi bd ws (A r)"
  using assms
proof (induction h arbitrary: r st)
  case 0
  show ?case
  proof (cases "int st < lo \<or> int st > hi")
    case True
    then show ?thesis
      using "0.prems"(3) [of r] rebuilds_outside [of "int st" 0 lo hi r bd "A r"] by auto
  next
    case False
    then obtain d where "bd (int st) = Some d" "digest d" "leaf_of d = L st"
      using "0.prems"(4) [of st] by auto
    then have "rebuilds r 0 (int st) lo hi bd [] (A r)"
      using False 0 by (simp add: rebuilds_def)
    then show ?thesis using False by auto
  qed
next
  case (Suc h)
  let ?l = "r - 2 ^ Suc h"
  have m: "(2 :: int) ^ Suc h = msize h + 1" "msize (Suc h) = 2 * msize h + 1" "1 \<le> msize h"
    by (rule two_power_msize, rule msize_Suc, rule msize_pos)
  have root: "nd r = Inr (A r) \<and> digest (A r)"
    by (rule Suc.prems(3)) (use m in linarith)+
  show ?case
  proof (cases "int st + 2 ^ Suc h - 1 < lo \<or> hi < int st")
    case True
    then show ?thesis
      using root rebuilds_outside [OF True, of r bd "A r"] by (auto simp: Let_def)
  next
    case False
    have l: "\<exists>ws. range_witnesses nd ?l h (int st) lo hi = Inr ws \<and> (\<forall>w\<in>set ws. digest w) \<and>
        rebuilds ?l h (int st) lo hi bd ws (A ?l)"
      by (rule Suc.IH) (use Suc.prems m in auto)
    have "\<exists>ws. range_witnesses nd (r - 1) h (int (st + 2 ^ h)) lo hi = Inr ws \<and> (\<forall>w\<in>set ws. digest w) \<and>
        rebuilds (r - 1) h (int (st + 2 ^ h)) lo hi bd ws (A (r - 1))"
      by (rule Suc.IH) (use Suc.prems m in auto)
    with l obtain ws1 ws2 where w: "range_witnesses nd ?l h (int st) lo hi = Inr ws1"
      "range_witnesses nd (r - 1) h (int st + 2 ^ h) lo hi = Inr ws2"
      "\<forall>w\<in>set (ws1 @ ws2). digest w" "rebuilds ?l h (int st) lo hi bd ws1 (A ?l)"
      "rebuilds (r - 1) h (int st + 2 ^ h) lo hi bd ws2 (A (r - 1))"
      by auto
    have "digest (A ?l)" "digest (A (r - 1))"
      using Suc.prems(3) [of ?l] Suc.prems(3) [of "r - 1"] m by auto
    then have "interior_hash (A ?l) (A (r - 1)) r = Inr (A r)"
      using Suc.prems(1,5,6) m by (simp add: interior_hash_eq_Inr)
    from rebuilds_node [OF w(4,5) False this]
    have "rebuilds r (Suc h) (int st) lo hi bd (ws1 @ ws2) (A r)" .
    moreover have "range_witnesses nd r (Suc h) (int st) lo hi = Inr (ws1 @ ws2)"
    proof (cases "lo \<le> int st \<and> int st + 2 ^ Suc h - 1 \<le> hi")
      case True
      have "(0 :: int) < 2 ^ h" "(2 :: int) ^ Suc h = 2 * 2 ^ h" by simp_all
      with True have "int st + 2 ^ h - 1 \<le> hi" "lo \<le> int st + 2 ^ h" "int st + 2 ^ h + 2 ^ h - 1 \<le> hi"
        by linarith+
      then have "ws1 = []" "ws2 = []"
        using w(1,2) True by (simp_all add: range_witnesses_inside)
      then show ?thesis using True range_witnesses_inside [of lo "int st" "Suc h" hi nd r] by simp
    next
      case out: False
      then show ?thesis using False w(1,2) by (auto simp: Let_def)
    qed
    ultimately show ?thesis using w(3) by blast
  qed
qed

lemma range_forest:
  assumes "forest_at A L (nodes_of pre) st hs" "desc (pre @ hs)" "lo \<le> hi" "nodes_of (pre @ hs) < MAX_MMR_SIZE"
    and "\<And>p. nodes_of pre \<le> p \<Longrightarrow> p < nodes_of (pre @ hs) \<Longrightarrow> nd p = Inr (A p) \<and> digest (A p)"
    and "\<And>k. lo \<le> int k \<Longrightarrow> int k \<le> hi \<Longrightarrow> \<exists>d. bd (int k) = Some d \<and> digest d \<and> leaf_of d = L k"
  shows "\<exists>ws. range_peaks_loop nd (peak_positions (nodes_of pre) hs) (int st) lo hi = Inr ws \<and>
    (\<forall>w\<in>set ws. digest w) \<and>
    (\<forall>front rear. reconstruct_peaks_loop (peak_positions (nodes_of pre) hs) (int st) lo hi bd
        (front @ ws @ rear) (length front)
      = Inr (map A (peak_positions (nodes_of pre) hs), length front + length ws))"
  using assms
proof (induction hs arbitrary: pre st)
  case (Cons h hs)
  let ?r = "nodes_of pre + msize h - 1"
  note nn = nodes_of_nonneg [of pre] nodes_of_nonneg [of hs] msize_pos [of h]
  have "\<exists>ws. range_witnesses nd ?r h (int st) lo hi = Inr ws \<and> (\<forall>w\<in>set ws. digest w) \<and>
      rebuilds ?r h (int st) lo hi bd ws (A ?r)"
  proof (rule range_tree)
    show "tree_at A L ?r h st" using Cons.prems(1) by simp
    show "nd p = Inr (A p) \<and> digest (A p)" if "?r - msize h < p" "p \<le> ?r" for p
      by (rule Cons.prems(5)) (use that nn in auto)
    show "?r + 1 < 2 ^ 64" using Cons.prems(4) nn by (simp add: MAX_MMR_SIZE_def)
  qed (use Cons.prems(3,6) nn in auto)
  then obtain ws1 where w1: "range_witnesses nd ?r h (int st) lo hi = Inr ws1" "\<forall>w\<in>set ws1. digest w"
    "rebuilds ?r h (int st) lo hi bd ws1 (A ?r)" by blast
  let ?ps = "peak_positions (nodes_of (pre @ [h])) hs"
  have "\<exists>ws. range_peaks_loop nd ?ps (int (st + 2 ^ h)) lo hi = Inr ws \<and> (\<forall>w\<in>set ws. digest w) \<and>
      (\<forall>front rear. reconstruct_peaks_loop ?ps (int (st + 2 ^ h)) lo hi bd (front @ ws @ rear) (length front)
        = Inr (map A ?ps, length front + length ws))"
  proof (rule Cons.IH)
    show "nd p = Inr (A p) \<and> digest (A p)" if "nodes_of (pre @ [h]) \<le> p" "p < nodes_of ((pre @ [h]) @ hs)" for p
      by (rule Cons.prems(5)) (use that nn in auto)
  qed (use Cons.prems in auto)
  then obtain ws2 where w2: "range_peaks_loop nd ?ps (int st + 2 ^ h) lo hi = Inr ws2" "\<forall>w\<in>set ws2. digest w"
    "\<And>front rear. reconstruct_peaks_loop ?ps (int st + 2 ^ h) lo hi bd (front @ ws2 @ rear) (length front)
        = Inr (map A ?ps, length front + length ws2)"
    by auto
  have h: "height_at ?r = Inr h" using height_at_peak [of pre h hs] Cons.prems(2) by simp
  have ps: "peak_positions (nodes_of pre) (h # hs) = ?r # ?ps" by (simp add: algebra_simps)
  have "reconstruct_peaks_loop (?r # ?ps) (int st) lo hi bd (front @ (ws1 @ ws2) @ rear) (length front)
      = Inr (map A (?r # ?ps), length front + length (ws1 @ ws2))" for front rear
    using rebuildsD [OF w1(3), of front "ws2 @ rear"] w2(3) [of "front @ ws1" rear] h by simp
  moreover have "range_peaks_loop nd (?r # ?ps) (int st) lo hi = Inr (ws1 @ ws2)"
    using w1(1) w2(1) h by simp
  ultimately show ?case
    unfolding ps using w1(2) w2(2) by (intro exI [of _ "ws1 @ ws2"]) auto
qed simp

context node_store
begin

lemma range_complete:
  assumes H: "mmr_of (contents s) ds" and m: "m \<le> length ds" "nodes_of (mountains m) < MAX_MMR_SIZE"
    and ij: "i \<le> j" "j < m" and root: "root_from_peaks (peak_hashes (contents s) m) = Inr root"
  shows "\<exists>pf. range_proof (size_of s) (node s) (int i) (int j) (nodes_of (mountains m)) = Inr pf \<and>
      verify_range root (nodes_of (mountains m)) (int i) (int j) (take (j + 1 - i) (drop i ds)) (Some pf)"
proof -
  let ?s = "nodes_of (mountains m)" and ?pks = "peak_positions 0 (mountains m)"
    and ?bs = "take (j + 1 - i) (drop i ds)"
  let ?bd = "digest_by_index (int i) ?bs"
  have ds: "\<forall>d\<in>set ds. digest d" using H by (simp add: mmr_of_def)
  have len: "length ?bs = j + 1 - i" using ij m(1) by simp
  have size: "0 \<le> ?s" "?s \<le> size_of s" "?s \<le> int (length (contents s))"
    using nodes_of_nonneg size_le [OF H m(1)] size_contents [of s] by auto
  have "\<exists>ws. range_peaks_loop (node s) (peak_positions (nodes_of []) (mountains m)) (int 0) (int i) (int j) = Inr ws \<and>
      (\<forall>w\<in>set ws. digest w) \<and>
      (\<forall>front rear. reconstruct_peaks_loop (peak_positions (nodes_of []) (mountains m)) (int 0) (int i) (int j) ?bd
          (front @ ws @ rear) (length front)
        = Inr (map (at (contents s)) (peak_positions (nodes_of []) (mountains m)), length front + length ws))"
  proof (rule range_forest)
    show "forest_at (at (contents s)) ((!) (map leaf_of ds)) (nodes_of []) 0 (mountains m)"
      using forest [OF H m(1)] by simp
    show "node s p = Inr (at (contents s) p) \<and> digest (at (contents s) p)"
      if "nodes_of [] \<le> p" "p < nodes_of ([] @ mountains m)" for p
      using that size(3) node_at [of p s] at_digest [OF H, of p] by simp
    show "\<exists>d. ?bd (int k) = Some d \<and> digest d \<and> leaf_of d = map leaf_of ds ! k"
      if "int i \<le> int k" "int k \<le> int j" for k
    proof -
      have "nat (int k - int i) = k - i" by simp
      then have "?bd (int k) = Some (ds ! k)"
        using that len ij m(1) by (simp add: digest_by_index_def)
      then show ?thesis using that ij m(1) ds by simp
    qed
  qed (use ij m(2) in auto)
  then obtain ws where ws: "range_peaks_loop (node s) ?pks 0 (int i) (int j) = Inr ws" "\<forall>w\<in>set ws. digest w"
    "\<And>front rear. reconstruct_peaks_loop ?pks 0 (int i) (int j) ?bd (front @ ws @ rear) (length front)
       = Inr (peak_hashes (contents s) m, length front + length ws)"
    by (auto simp: peak_hashes_def)
  have "digest root"
    using root root_from_peaks_ok [of "peak_hashes (contents s) m"] node_peaks [OF H m(1) order_refl]
    by (auto simp: peak_hashes_def)
  define pf where "pf = \<lparr>rp_v = 1, rp_kind = ''range'', rp_size = ?s, rp_from_index = int i,
      rp_to_index = int j, rp_witness = map to_hex ws\<rparr>"
  have "range_proof (size_of s) (node s) (int i) (int j) ?s = Inr pf"
    using size ij m ws(1) by (simp add: range_proof_def leaf_count_at peaks_at pf_def)
  moreover have "verify_range_body root ?s (int i) (int j) ?bs (Some pf) = Inr True"
  proof -
    have "mapR assert_digest ?bs = Inr (map (\<lambda>_. ()) ?bs)"
      using ds by (intro mapR_Inr) (auto simp: assert_digest_def dest: in_set_takeD in_set_dropD)
    then show ?thesis
      using size ij m ws(2) ws(3) [of "[]" "[]"] \<open>digest root\<close> root len
      by (simp add: verify_range_body_def leaf_count_at peaks_at pf_def assert_digest_def del: length_take)
  qed
  ultimately show ?thesis by (auto simp: verify_range_def)
qed

end

end
