(* ===== verification/Mmr_Index.thy ===== *)
theory Mmr_Index
  imports Mmr_Complete
begin

text \<open>
  \<^verbatim>\<open>cll/checkpoint/store.py\<close> and \<^verbatim>\<open>cll/checkpoint/index.py\<close>: the in-memory node store and
  \<^verbatim>\<open>MmrLedger\<close>, the index that folds the records of a log into the range and answers proof
  requests about them, with the commitment object of \<^verbatim>\<open>cll/checkpoint/core.py\<close> it exposes.

  The wrapped log (\<^verbatim>\<open>LogSource\<close>) is a parameter: its \<^verbatim>\<open>append\<close> and \<^verbatim>\<open>scan\<close> are arguments of the
  operations that call them. An operation that can fail after it has changed something returns
  the state with its outcome.
\<close>

section \<open>The in-memory node store\<close>

record MemoryNodeStore =
  store_nodes :: "bytes list"

definition new_store :: MemoryNodeStore where
  "new_store = \<lparr>store_nodes = []\<rparr>"

definition store_size :: "MemoryNodeStore \<Rightarrow> int" where
  "store_size s = int (length (store_nodes s))"

definition store_node :: "MemoryNodeStore \<Rightarrow> int \<Rightarrow> bytes res" where
  "store_node s pos = py_index (store_nodes s) pos"

definition store_append_nodes :: "MemoryNodeStore \<Rightarrow> bytes list \<Rightarrow> MemoryNodeStore" where
  "store_append_nodes s hashes = s\<lparr>store_nodes := store_nodes s @ hashes\<rparr>"

interpretation mem: node_store store_size store_node store_append_nodes store_nodes
  by unfold_locales (simp_all add: store_size_def store_node_def store_append_nodes_def at_def)

section \<open>The commitment object\<close>

definition cbor_uint_header :: "nat \<Rightarrow> nat \<Rightarrow> bytes res" where
  "cbor_uint_header major_type n =
     (let prefix = push_bit 5 (of_nat major_type :: byte) in
      if n < 24 then Inr [or prefix (of_nat n)]
      else if n < 2 ^ 8 then Inr [or prefix 24, of_nat n]
      else if n < 2 ^ 16 then Inr (or prefix 25 # be_bytes 2 n)
      else if n < 2 ^ 32 then Inr (or prefix 26 # be_bytes 4 n)
      else bindR (to_bytes_big (int n) 8) (\<lambda>b. Inr (or prefix 27 # b)))"

definition commitment_object :: "bytes list \<Rightarrow> bytes res" where
  "commitment_object peak_hs =
     bindR (mapR assert_digest peak_hs) (\<lambda>_.
     bindR (cbor_uint_header 4 (length peak_hs)) (\<lambda>body.
     foldR (\<lambda>body p. bindR (cbor_uint_header 2 (length p)) (\<lambda>h. Inr (body @ h @ p)))
       body peak_hs))"

definition massifdb_interior_hash :: "bytes \<Rightarrow> bytes \<Rightarrow> bytes res" where
  "massifdb_interior_hash left right =
     bindR (assert_digest left) (\<lambda>_.
     bindR (assert_digest right) (\<lambda>_. Inr (sha256 (1 # left @ right))))"

definition massifdb_root_from_peaks :: "bytes list \<Rightarrow> bytes res" where
  "massifdb_root_from_peaks peak_hs =
     (if peak_hs = [] then Inr (replicate DIGEST_LEN 0)
      else bindR (mapR assert_digest peak_hs) (\<lambda>_.
        Inr (fold (\<lambda>p acc. sha256 (2 # p @ acc)) (tl (rev peak_hs)) (last peak_hs))))"

section \<open>The index\<close>

text \<open>What the index reads of a log record.\<close>

record IndexedRecord =
  ir_seq :: int
  ir_capsule_id :: string

record 'l MmrLedger =
  ml_ledger :: 'l
  ml_nodes :: MemoryNodeStore
  ml_body_digests :: "bytes list"

definition new_mmr_ledger :: "'l \<Rightarrow> 'l MmrLedger" where
  "new_mmr_ledger ledger = \<lparr>ml_ledger = ledger, ml_nodes = new_store, ml_body_digests = []\<rparr>"

definition index_record :: "'l MmrLedger \<Rightarrow> IndexedRecord \<Rightarrow> 'l MmrLedger res" where
  "index_record l rec =
     (let expected_seq = int (length (ml_body_digests l)) + 1 in
      if ir_seq rec \<noteq> expected_seq then Inl IntegrityError
      else
        bindR (from_hex (ir_capsule_id rec)) (\<lambda>body_digest.
        bindR (leaf_hash body_digest) (\<lambda>leaf.
        bindR (add_leaf store_size store_node store_append_nodes (ml_nodes l) leaf)
          (\<lambda>(_, _, nodes).
        Inr (l\<lparr>ml_nodes := nodes, ml_body_digests := ml_body_digests l @ [body_digest]\<rparr>)))))"

text \<open>\<^verbatim>\<open>append\<close>: when the log refuses, nothing changes; when the log accepts and indexing then
  raises, the log keeps the record.\<close>

definition ml_append ::
  "('l \<Rightarrow> 'c \<Rightarrow> bool \<Rightarrow> (IndexedRecord \<times> 'l) res) \<Rightarrow> 'l MmrLedger \<Rightarrow> 'c \<Rightarrow> bool \<Rightarrow>
   IndexedRecord res \<times> 'l MmrLedger" where
  "ml_append ledger_append l capsule consequential =
     (case ledger_append (ml_ledger l) capsule consequential of
        Inl e \<Rightarrow> (Inl e, l)
      | Inr (rec, ledger) \<Rightarrow>
          let l1 = l\<lparr>ml_ledger := ledger\<rparr> in
          case index_record l1 rec of
            Inl e \<Rightarrow> (Inl e, l1)
          | Inr l2 \<Rightarrow> (Inr rec, l2))"

fun sync_loop :: "'l MmrLedger \<Rightarrow> IndexedRecord list \<Rightarrow> int \<Rightarrow> int res \<times> 'l MmrLedger" where
  "sync_loop l [] added = (Inr added, l)"
| "sync_loop l (rec # recs) added =
     (if ir_seq rec \<le> int (length (ml_body_digests l)) then sync_loop l recs added
      else case index_record l rec of
             Inl e \<Rightarrow> (Inl e, l)
           | Inr l1 \<Rightarrow> sync_loop l1 recs (added + 1))"

definition ml_sync :: "('l \<Rightarrow> IndexedRecord list) \<Rightarrow> 'l MmrLedger \<Rightarrow> int res \<times> 'l MmrLedger" where
  "ml_sync ledger_scan l = sync_loop l (ledger_scan (ml_ledger l)) 0"

definition ml_size :: "'l MmrLedger \<Rightarrow> int" where
  "ml_size l = store_size (ml_nodes l)"

definition ml_leaf_count :: "'l MmrLedger \<Rightarrow> int" where
  "ml_leaf_count l = int (length (ml_body_digests l))"

definition peak_hashes_at :: "'l MmrLedger \<Rightarrow> int \<Rightarrow> bytes list res" where
  "peak_hashes_at l mmr_size =
     bindR (peaks mmr_size) (\<lambda>pks. mapR (store_node (ml_nodes l)) pks)"

definition root_at :: "'l MmrLedger \<Rightarrow> int \<Rightarrow> bytes res" where
  "root_at l mmr_size = bindR (peak_hashes_at l mmr_size) root_from_peaks"

definition ml_root :: "'l MmrLedger \<Rightarrow> bytes res" where
  "ml_root l = root_at l (ml_size l)"

definition commitment_at :: "'l MmrLedger \<Rightarrow> int \<Rightarrow> bytes res" where
  "commitment_at l mmr_size = bindR (peak_hashes_at l mmr_size) commitment_object"

definition ml_body_digest :: "'l MmrLedger \<Rightarrow> int \<Rightarrow> bytes res" where
  "ml_body_digest l seq =
     (if seq < 1 \<or> seq > int (length (ml_body_digests l)) then Inl IntegrityError
      else py_index (ml_body_digests l) (seq - 1))"

definition ml_inclusion_proof :: "'l MmrLedger \<Rightarrow> int \<Rightarrow> int option \<Rightarrow> InclusionProof res" where
  "ml_inclusion_proof l seq mmr_size =
     (let target_size = (case mmr_size of Some s \<Rightarrow> s | None \<Rightarrow> ml_size l) in
      inclusion_proof (ml_size l) (store_node (ml_nodes l)) (seq - 1) target_size)"

definition ml_consistency_proof :: "'l MmrLedger \<Rightarrow> int \<Rightarrow> int option \<Rightarrow> ConsistencyProof res" where
  "ml_consistency_proof l size_a size_b =
     (let target_size_b = (case size_b of Some s \<Rightarrow> s | None \<Rightarrow> ml_size l) in
      consistency_proof (ml_size l) (store_node (ml_nodes l)) size_a target_size_b)"

record SeqRangeProof =
  sp_from_seq :: int
  sp_to_seq :: int
  sp_size :: int
  sp_from_index :: int
  sp_to_index :: int
  sp_witness :: "string list"

definition ml_range_proof :: "'l MmrLedger \<Rightarrow> int \<Rightarrow> int \<Rightarrow> SeqRangeProof res" where
  "ml_range_proof l from_seq to_seq =
     (if from_seq < 1 \<or> to_seq < from_seq then Inl InvalidArgumentError
      else
        bindR (node_count to_seq) (\<lambda>size'.
        bindR (range_proof (ml_size l) (store_node (ml_nodes l)) (from_seq - 1) (to_seq - 1) size') (\<lambda>proof.
        Inr \<lparr>sp_from_seq = from_seq, sp_to_seq = to_seq, sp_size = size',
             sp_from_index = rp_from_index proof, sp_to_index = rp_to_index proof,
             sp_witness = rp_witness proof\<rparr>)))"

definition verify_seq_range_body ::
  "bytes \<Rightarrow> int \<Rightarrow> int \<Rightarrow> bytes list \<Rightarrow> SeqRangeProof option \<Rightarrow> bool res" where
  "verify_seq_range_body root from_seq to_seq body_digests prf =
     (case prf of None \<Rightarrow> Inr False | Some proof \<Rightarrow>
      if sp_from_seq proof \<noteq> from_seq \<or> sp_to_seq proof \<noteq> to_seq then Inr False
      else if from_seq < 1 \<or> to_seq < from_seq then Inr False
      else
        bindR (leaf_count (sp_size proof)) (\<lambda>lc.
        if lc \<noteq> to_seq then Inr False
        else
          let core_proof = \<lparr>rp_v = 1, rp_kind = ''range'', rp_size = sp_size proof,
                rp_from_index = sp_from_index proof, rp_to_index = sp_to_index proof,
                rp_witness = sp_witness proof\<rparr>
          in Inr (verify_range root (sp_size proof) (from_seq - 1) (to_seq - 1) body_digests
                    (Some core_proof))))"

definition verify_seq_range :: "bytes \<Rightarrow> int \<Rightarrow> int \<Rightarrow> bytes list \<Rightarrow> SeqRangeProof option \<Rightarrow> bool" where
  "verify_seq_range root from_seq to_seq body_digests proof =
     or_false (verify_seq_range_body root from_seq to_seq body_digests proof)"

section \<open>The invariant of the index\<close>

definition index_inv :: "'l MmrLedger \<Rightarrow> bool" where
  "index_inv l \<longleftrightarrow> mmr_of (store_nodes (ml_nodes l)) (ml_body_digests l)"

definition extends :: "'l MmrLedger \<Rightarrow> 'l MmrLedger \<Rightarrow> bool" where
  "extends l l' \<longleftrightarrow>
     (\<exists>new. store_nodes (ml_nodes l') = store_nodes (ml_nodes l) @ new) \<and>
     (\<exists>ds. ml_body_digests l' = ml_body_digests l @ ds)"

lemma extends_refl [simp]: "extends l l"
  by (simp add: extends_def)

lemma extends_ledger [simp]:
  "extends l (l'\<lparr>ml_ledger := x\<rparr>) \<longleftrightarrow> extends l l'" "extends (l\<lparr>ml_ledger := x\<rparr>) l' \<longleftrightarrow> extends l l'"
  by (simp_all add: extends_def)

lemma extends_trans: "extends l l' \<Longrightarrow> extends l' l'' \<Longrightarrow> extends l l''"
  by (auto simp: extends_def)

lemma index_inv_new [simp]: "index_inv (new_mmr_ledger x)"
  by (simp add: index_inv_def new_mmr_ledger_def new_store_def)

lemma index_inv_ledger [simp]: "index_inv (l\<lparr>ml_ledger := x\<rparr>) \<longleftrightarrow> index_inv l"
  by (simp add: index_inv_def)

lemma index_size: "index_inv l \<Longrightarrow> ml_size l = nodes_of (mountains (length (ml_body_digests l)))"
  by (simp add: index_inv_def mem.array_length ml_size_def store_size_def)

lemma index_record_ok:
  assumes "index_inv l" "ml_size l < MAX_MMR_SIZE" "ir_seq rec = ml_leaf_count l + 1"
    "from_hex (ir_capsule_id rec) = Inr d" "digest d"
  obtains l' where "index_record l rec = Inr l'" "index_inv l'" "extends l l'"
    "ml_body_digests l' = ml_body_digests l @ [d]" "ml_ledger l' = ml_ledger l"
proof -
  have "mmr_inv (store_nodes (ml_nodes l)) (map leaf_of (ml_body_digests l))" "digest (leaf_of d)"
    using assms(1) by (simp_all add: index_inv_def mmr_of_def leaf_of_def)
  then obtain ext st where add:
    "add_leaf store_size store_node store_append_nodes (ml_nodes l) (leaf_of d)
       = Inr (store_size (ml_nodes l), leaf_of d # ext, st)"
    "store_nodes st = store_nodes (ml_nodes l) @ leaf_of d # ext"
    "mmr_inv (store_nodes st) (map leaf_of (ml_body_digests l) @ [leaf_of d])"
    using mem.add_leaf_correct [of "ml_nodes l" "map leaf_of (ml_body_digests l)" "leaf_of d"] assms(2)
    by (auto simp: ml_size_def)
  show thesis
  proof (rule that)
    show "index_record l rec
        = Inr (l\<lparr>ml_nodes := st, ml_body_digests := ml_body_digests l @ [d]\<rparr>)"
      using add(1) assms(3-5) by (simp add: index_record_def ml_leaf_count_def)
    show "index_inv (l\<lparr>ml_nodes := st, ml_body_digests := ml_body_digests l @ [d]\<rparr>)"
      using add(3) assms(1,5) by (auto simp: index_inv_def mmr_of_def)
  qed (simp_all add: extends_def add(2))
qed

text \<open>A record the index accepts is the next one, and its id is the hex form of a digest.\<close>

lemma index_recordD:
  assumes inv: "index_inv l" and "index_record l rec = Inr l'"
  obtains d where "ir_seq rec = ml_leaf_count l + 1" "from_hex (ir_capsule_id rec) = Inr d" "digest d"
    "index_inv l'" "extends l l'" "ml_body_digests l' = ml_body_digests l @ [d]" "ml_ledger l' = ml_ledger l"
proof -
  from assms(2) obtain d nodes n new where r: "ir_seq rec = ml_leaf_count l + 1"
    "from_hex (ir_capsule_id rec) = Inr d" "digest d"
    "add_leaf store_size store_node store_append_nodes (ml_nodes l) (sha256 (0 # d)) = Inr (n, new, nodes)"
    by (auto simp: index_record_def ml_leaf_count_def Let_def bindR_eq_Inr leaf_hash_eq_Inr split: if_splits)
  have "ml_size l < MAX_MMR_SIZE"
  proof (cases "ml_size l = 0")
    case False
    with r(4) obtain ps where "peaks (ml_size l) = Inr ps"
      by (auto simp: add_leaf_def ml_size_def bindR_eq_Inr Let_def split: if_splits)
    then show ?thesis by (auto simp: peaks_def split: if_splits)
  qed (simp add: MAX_MMR_SIZE_def)
  from index_record_ok [OF inv this r(1-3)] assms(2) show thesis
    using that r(1-3) by (metis sum.inject(2))
qed

lemma sync_loop_inv:
  "index_inv l \<Longrightarrow> index_inv (snd (sync_loop l recs n)) \<and> extends l (snd (sync_loop l recs n)) \<and>
     ml_ledger (snd (sync_loop l recs n)) = ml_ledger l"
proof (induction recs arbitrary: l n)
  case (Cons r recs)
  show ?case
  proof (cases "index_record l r")
    case (Inr l')
    from index_recordD [OF Cons.prems Inr] have "index_inv l'" "extends l l'" "ml_ledger l' = ml_ledger l"
      by blast+
    with Cons.IH [of l' "n + 1"] Cons.IH [OF Cons.prems, of n] Inr show ?thesis
      using extends_trans [of l l'] by (simp split: if_split)
  qed (use Cons in auto)
qed simp

section \<open>Catching up with a log\<close>

text \<open>The records of a gapless log from number \<open>n\<close> on, with the body digests their ids spell.\<close>

fun numbered :: "int \<Rightarrow> IndexedRecord list \<Rightarrow> bytes list \<Rightarrow> bool" where
  "numbered n [] [] \<longleftrightarrow> True"
| "numbered n (r # rs) (d # ds) \<longleftrightarrow>
     ir_seq r = n \<and> from_hex (ir_capsule_id r) = Inr d \<and> digest d \<and> numbered (n + 1) rs ds"
| "numbered n _ _ \<longleftrightarrow> False"

lemma numbered_append:
  "numbered n rs (ds @ es) \<Longrightarrow>
     \<exists>xs ys. rs = xs @ ys \<and> numbered n xs ds \<and> numbered (n + int (length ds)) ys es"
proof (induction ds arbitrary: n rs)
  case (Cons d ds)
  then obtain r rs' where rs: "rs = r # rs'" by (cases rs) auto
  with Cons.prems have "numbered (n + 1) rs' (ds @ es)" by simp
  from Cons.IH [OF this] obtain xs ys where "rs' = xs @ ys" "numbered (n + 1) xs ds"
    "numbered (n + 1 + int (length ds)) ys es" by blast
  with Cons.prems rs show ?case
    by (intro exI [of _ "r # xs"] exI [of _ ys]) (simp add: algebra_simps)
next
  case Nil
  then show ?case by (intro exI [of _ "[]"] exI [of _ rs]) simp
qed

lemma sync_skip:
  "numbered n xs ds \<Longrightarrow> n + int (length ds) \<le> int (length (ml_body_digests l)) + 1 \<Longrightarrow>
     sync_loop l (xs @ ys) added = sync_loop l ys added"
  by (induction n xs ds rule: numbered.induct) auto

lemma sync_index:
  "numbered (ml_leaf_count l + 1) rs ds \<Longrightarrow> index_inv l \<Longrightarrow>
   nodes_of (mountains (length (ml_body_digests l) + length ds)) < MAX_MMR_SIZE \<Longrightarrow>
     \<exists>l'. sync_loop l rs added = (Inr (added + int (length ds)), l') \<and> index_inv l' \<and>
       ml_body_digests l' = ml_body_digests l @ ds \<and> ml_ledger l' = ml_ledger l"
proof (induction ds arbitrary: l rs added)
  case Nil
  then show ?case by (cases rs) auto
next
  case (Cons d ds)
  then obtain r rs' where rs: "rs = r # rs'" by (cases rs) auto
  have "ml_size l < MAX_MMR_SIZE"
    using Cons.prems(3) nodes_of_mountains_mono [of "length (ml_body_digests l)" "length (ml_body_digests l) + length (d # ds)"]
    by (simp add: index_size [OF Cons.prems(2)])
  with Cons.prems rs obtain l1 where l1: "index_record l r = Inr l1" "index_inv l1"
    "ml_body_digests l1 = ml_body_digests l @ [d]" "ml_ledger l1 = ml_ledger l"
    using index_record_ok [of l r d] by auto
  with Cons.prems rs have "numbered (ml_leaf_count l1 + 1) rs' ds"
    by (simp add: ml_leaf_count_def)
  from Cons.IH [OF this l1(2), of "added + 1"] Cons.prems(3) l1(3) obtain l2 where
    "sync_loop l1 rs' (added + 1) = (Inr (added + 1 + int (length ds)), l2)" "index_inv l2"
    "ml_body_digests l2 = ml_body_digests l1 @ ds" "ml_ledger l2 = ml_ledger l1"
    by auto
  then show ?case
    using rs l1 Cons.prems(1) by (simp add: ml_leaf_count_def)
qed

section \<open>Roots at earlier sizes\<close>

lemma peak_hashes_at_ok:
  assumes "index_inv l" "n \<le> length (ml_body_digests l)" "nodes_of (mountains n) < MAX_MMR_SIZE"
  shows "peak_hashes_at l (nodes_of (mountains n)) = Inr (peak_hashes (store_nodes (ml_nodes l)) n)"
    and "\<forall>d\<in>set (peak_hashes (store_nodes (ml_nodes l)) n). digest d"
  using mem.node_peaks [OF assms(1)[unfolded index_inv_def] assms(2) order_refl] assms(3)
  by (simp_all add: peak_hashes_at_def peaks_at peak_hashes_def)

lemma root_at_ok:
  assumes "index_inv l" "n \<le> length (ml_body_digests l)" "nodes_of (mountains n) < MAX_MMR_SIZE"
  obtains root where "root_at l (nodes_of (mountains n)) = Inr root"
    "root_from_peaks (peak_hashes (store_nodes (ml_nodes l)) n) = Inr root" "digest root"
  using root_from_peaks_ok [OF peak_hashes_at_ok(2) [OF assms]] peak_hashes_at_ok(1) [OF assms]
  by (auto simp: root_at_def)

lemma peak_hashes_at_extends:
  assumes "extends l l'" "peak_hashes_at l s = Inr hs"
  shows "peak_hashes_at l' s = Inr hs"
proof -
  from assms(1) obtain new where new: "store_nodes (ml_nodes l') = store_nodes (ml_nodes l) @ new"
    by (auto simp: extends_def)
  from assms(2) obtain ps where ps: "peaks s = Inr ps" "mapR (store_node (ml_nodes l)) ps = Inr hs"
    by (auto simp: peak_hashes_at_def bindR_eq_Inr)
  from ps(1) obtain ms where "ps = peak_positions 0 ms" by (rule peaks_sound)
  then have pos: "\<forall>p\<in>set ps. 0 \<le> p" using peak_position_bounds by blast
  have "store_node (ml_nodes l') p = Inr h" if "p \<in> set ps" "store_node (ml_nodes l) p = Inr h" for p h
    using that pos new py_index_append [of p "store_nodes (ml_nodes l)" new]
    by (auto simp: store_node_def py_index_def Let_def split: if_splits)
  with ps show ?thesis
    by (auto simp: peak_hashes_at_def mapR_eq_Inr elim!: list.rel_mono_strong)
qed

lemma node_count_1: "node_count 1 = Inr 1" "node_count 0 = Inr 0"
  by (simp_all add: node_count_def require_nonneg_int_def popcount.simps)

lemma single_leaf_index:
  obtains l where
    "index_record (new_mmr_ledger ()) \<lparr>ir_seq = 1, ir_capsule_id = to_hex (replicate 32 7)\<rparr> = Inr l"
    "index_inv l" "ml_body_digests l = [replicate 32 7]"
proof -
  let ?r = "\<lparr>ir_seq = 1, ir_capsule_id = to_hex (replicate 32 7)\<rparr>"
  have "ml_size (new_mmr_ledger ()) < MAX_MMR_SIZE" "ir_seq ?r = ml_leaf_count (new_mmr_ledger ()) + 1"
    "ml_body_digests (new_mmr_ledger ()) = []"
    by (simp_all add: new_mmr_ledger_def new_store_def ml_size_def store_size_def MAX_MMR_SIZE_def ml_leaf_count_def)
  then show thesis
    using index_record_ok [of "new_mmr_ledger ()" ?r "replicate 32 7"] that by force
qed

section \<open>Proofs the index makes\<close>

lemma index_inclusion:
  assumes "index_inv l" "i < n" "n \<le> length (ml_body_digests l)" "nodes_of (mountains n) < MAX_MMR_SIZE"
  shows "\<exists>root pf. root_at l (nodes_of (mountains n)) = Inr root \<and>
    ml_inclusion_proof l (int i + 1) (Some (nodes_of (mountains n))) = Inr pf \<and>
    verify_inclusion root (nodes_of (mountains n)) (int i) (ml_body_digests l ! i) (Some pf)"
proof -
  obtain root where root: "root_at l (nodes_of (mountains n)) = Inr root"
    "root_from_peaks (peak_hashes (store_nodes (ml_nodes l)) n) = Inr root"
    using root_at_ok [OF assms(1,3,4)] by blast
  have "\<exists>pf. inclusion_proof (store_size (ml_nodes l)) (store_node (ml_nodes l)) (int i) (nodes_of (mountains n)) = Inr pf \<and>
      verify_inclusion root (nodes_of (mountains n)) (int i) (ml_body_digests l ! i) (Some pf)"
    using assms root(2) by (intro mem.inclusion_complete) (auto simp: index_inv_def)
  then show ?thesis using root(1) by (simp add: ml_inclusion_proof_def ml_size_def)
qed

lemma index_consistency:
  assumes "index_inv l" "m \<le> n" "n \<le> length (ml_body_digests l)" "nodes_of (mountains n) < MAX_MMR_SIZE"
  shows "\<exists>root_a root_b pf. root_at l (nodes_of (mountains m)) = Inr root_a \<and> root_at l (nodes_of (mountains n)) = Inr root_b \<and>
    ml_consistency_proof l (nodes_of (mountains m)) (Some (nodes_of (mountains n))) = Inr pf \<and>
    verify_consistency root_a (nodes_of (mountains m)) root_b (nodes_of (mountains n)) (Some pf)"
proof -
  have "nodes_of (mountains m) < MAX_MMR_SIZE" using nodes_of_mountains_mono [OF assms(2)] assms(4) by simp
  then obtain root_a root_b where root: "root_at l (nodes_of (mountains m)) = Inr root_a" "root_at l (nodes_of (mountains n)) = Inr root_b"
    "root_from_peaks (peak_hashes (store_nodes (ml_nodes l)) m) = Inr root_a"
    "root_from_peaks (peak_hashes (store_nodes (ml_nodes l)) n) = Inr root_b"
    using root_at_ok [OF assms(1), of m] root_at_ok [OF assms(1), of n] assms(2-4) by (metis le_trans)
  then show ?thesis
    using mem.consistency_complete [of "ml_nodes l" "ml_body_digests l" m n] assms
    by (simp add: ml_consistency_proof_def ml_size_def index_inv_def)
qed

section \<open>Properties\<close>

text \<open>
  C2. The index invariant (the stored nodes are the range over the indexed body digests) is kept
  by \<^verbatim>\<open>append\<close> and by \<^verbatim>\<open>sync\<close> whatever the wrapped log does and also when they raise; neither
  rewrites a node or a digest already there.
\<close>

theorem index_invariant:
  assumes "index_inv l"
  shows "index_inv (snd (ml_append ledger_append l c b)) \<and> extends l (snd (ml_append ledger_append l c b)) \<and>
    index_inv (snd (ml_sync ledger_scan l)) \<and> extends l (snd (ml_sync ledger_scan l))"
proof -
  have "index_inv (snd (ml_append ledger_append l c b)) \<and> extends l (snd (ml_append ledger_append l c b))"
  proof (cases "ledger_append (ml_ledger l) c b")
    case (Inr x)
    obtain r led where x: "x = (r, led)" by (cases x)
    let ?l1 = "l\<lparr>ml_ledger := led\<rparr>"
    show ?thesis
    proof (cases "index_record ?l1 r")
      case Inr2: (Inr l2)
      have "index_inv ?l1" using assms by simp
      from index_recordD [OF this Inr2] have "index_inv l2" "extends ?l1 l2" by blast+
      then show ?thesis using Inr Inr2 x by (simp add: ml_append_def)
    qed (use Inr x assms in \<open>simp add: ml_append_def\<close>)
  qed (use assms in \<open>simp add: ml_append_def\<close>)
  then show ?thesis
    using sync_loop_inv [OF assms] by (simp add: ml_sync_def)
qed

theorem index_invariant_witness:
  "index_inv (new_mmr_ledger ()) \<and>
   index_inv (snd (ml_append (\<lambda>_ _ _. Inr (\<lparr>ir_seq = 1, ir_capsule_id = ''0a''\<rparr>, ())) (new_mmr_ledger ()) () True))"
  using index_invariant [of "new_mmr_ledger ()" _ "()" True] by simp

text \<open>
  C3. Catching up: on a gapless log whose ids are hex digests, an index that holds a prefix of the
  log's digests reaches the whole of it with one \<^verbatim>\<open>sync\<close>, which reports how many leaves it added
  and leaves the log alone.
\<close>

theorem sync_complete:
  assumes "index_inv l" "numbered 1 (ledger_scan (ml_ledger l)) (ml_body_digests l @ new)"
    "node_count (int (length (ml_body_digests l @ new))) = Inr s" "s < MAX_MMR_SIZE"
  shows "\<exists>l'. ml_sync ledger_scan l = (Inr (int (length new)), l') \<and> index_inv l' \<and>
    ml_body_digests l' = ml_body_digests l @ new \<and> ml_ledger l' = ml_ledger l"
proof -
  from numbered_append [OF assms(2)] obtain xs ys where split: "ledger_scan (ml_ledger l) = xs @ ys"
    "numbered 1 xs (ml_body_digests l)" "numbered (1 + int (length (ml_body_digests l))) ys new"
    by blast
  have "sync_loop l (xs @ ys) 0 = sync_loop l ys 0"
    using split(2) by (intro sync_skip) auto
  with split sync_index [of l ys new 0] assms(1,3,4) show ?thesis
    by (simp add: ml_sync_def ml_leaf_count_def add.commute node_count_mountains del: of_nat_add)
qed

theorem sync_complete_witness:
  "\<exists>l'. ml_sync (\<lambda>_. [\<lparr>ir_seq = 1, ir_capsule_id = to_hex (replicate 32 7)\<rparr>]) (new_mmr_ledger ()) = (Inr 1, l')
     \<and> ml_body_digests l' = [replicate 32 7]"
  using sync_complete [of "new_mmr_ledger ()" "\<lambda>_. [\<lparr>ir_seq = 1, ir_capsule_id = to_hex (replicate 32 7)\<rparr>]"
      "[replicate 32 7]" 1]
  by (auto simp: new_mmr_ledger_def node_count_def require_nonneg_int_def popcount.simps MAX_MMR_SIZE_def
      index_inv_def new_store_def)

text \<open>
  A root is never rewritten: the root, the peak hashes and the commitment object of a size the
  index has answered for are the same after any further append or sync.
\<close>

theorem roots_are_permanent:
  assumes "extends l l'" "peak_hashes_at l s = Inr hs"
  shows "peak_hashes_at l' s = Inr hs \<and> root_at l' s = root_at l s \<and> commitment_at l' s = commitment_at l s"
  using peak_hashes_at_extends [OF assms] assms(2) by (simp add: root_at_def commitment_at_def)

theorem roots_are_permanent_witness:
  "extends (new_mmr_ledger ()) (new_mmr_ledger ()) \<and> root_at (new_mmr_ledger ()) 0 = Inr (replicate 32 0)"
  using roots_are_permanent [of "new_mmr_ledger ()" "new_mmr_ledger ()" 0 "[]"]
  by (simp add: root_at_def peak_hashes_at_def peaks_def MAX_MMR_SIZE_def peaks_loop.simps
      root_from_peaks_def DIGEST_LEN_def)

text \<open>
  C4. Every inclusion proof the index makes verifies: for each indexed record and each complete
  size that covers it, \<^verbatim>\<open>inclusion_proof\<close> returns a proof that \<^verbatim>\<open>verify_inclusion\<close> accepts against
  the root of that size and the record's body digest.
\<close>

theorem inclusion_proofs_verify:
  assumes "index_inv l" "1 \<le> seq" "seq \<le> n" "n \<le> ml_leaf_count l" "node_count n = Inr s" "s < MAX_MMR_SIZE"
  shows "\<exists>root d pf. root_at l s = Inr root \<and> ml_body_digest l seq = Inr d \<and>
    ml_inclusion_proof l seq (Some s) = Inr pf \<and> verify_inclusion root s (seq - 1) d (Some pf)"
proof -
  have n: "s = nodes_of (mountains (nat n))" "nat n \<le> length (ml_body_digests l)" "nat (seq - 1) < nat n"
    using assms node_count_mountains [of "nat n"] by (simp_all add: ml_leaf_count_def)
  show ?thesis using index_inclusion [OF assms(1) n(3,2)] assms(2-4,6) n(1)
    by (simp add: ml_body_digest_def ml_leaf_count_def)
qed

theorem inclusion_proofs_verify_witness:
  "\<exists>l. index_record (new_mmr_ledger ()) \<lparr>ir_seq = 1, ir_capsule_id = to_hex (replicate 32 7)\<rparr> = Inr l \<and>
     (\<exists>root d pf. root_at l 1 = Inr root \<and> ml_body_digest l 1 = Inr d \<and>
        ml_inclusion_proof l 1 (Some 1) = Inr pf \<and> verify_inclusion root 1 0 d (Some pf))"
proof -
  obtain l where l: "index_record (new_mmr_ledger ()) \<lparr>ir_seq = 1, ir_capsule_id = to_hex (replicate 32 7)\<rparr> = Inr l"
    "index_inv l" "ml_body_digests l = [replicate 32 7]"
    by (rule single_leaf_index)
  with inclusion_proofs_verify [of l 1 1 1] show ?thesis
    by (simp add: ml_leaf_count_def node_count_1 MAX_MMR_SIZE_def)
qed

text \<open>
  C5. Every consistency proof the index makes verifies: for any two complete sizes it has reached,
  \<^verbatim>\<open>consistency_proof\<close> returns a proof that \<^verbatim>\<open>verify_consistency\<close> accepts against the two roots.
\<close>

theorem consistency_proofs_verify:
  assumes "index_inv l" "0 \<le> m" "m \<le> n" "n \<le> ml_leaf_count l" "node_count m = Inr a" "node_count n = Inr b"
    "b < MAX_MMR_SIZE"
  shows "\<exists>root_a root_b pf. root_at l a = Inr root_a \<and> root_at l b = Inr root_b \<and>
    ml_consistency_proof l a (Some b) = Inr pf \<and> verify_consistency root_a a root_b b (Some pf)"
proof -
  have n: "a = nodes_of (mountains (nat m))" "b = nodes_of (mountains (nat n))"
    "nat m \<le> nat n" "nat n \<le> length (ml_body_digests l)"
    using assms node_count_mountains [of "nat m"] node_count_mountains [of "nat n"]
    by (simp_all add: ml_leaf_count_def)
  show ?thesis using index_consistency [OF assms(1) n(3,4)] assms(7) n(1,2) by simp
qed

theorem consistency_proofs_verify_witness:
  "\<exists>l. index_record (new_mmr_ledger ()) \<lparr>ir_seq = 1, ir_capsule_id = to_hex (replicate 32 7)\<rparr> = Inr l \<and>
     (\<exists>root_a root_b pf. root_at l 0 = Inr root_a \<and> root_at l 1 = Inr root_b \<and>
        ml_consistency_proof l 0 (Some 1) = Inr pf \<and> verify_consistency root_a 0 root_b 1 (Some pf))"
proof -
  obtain l where l: "index_record (new_mmr_ledger ()) \<lparr>ir_seq = 1, ir_capsule_id = to_hex (replicate 32 7)\<rparr> = Inr l"
    "index_inv l" "ml_body_digests l = [replicate 32 7]"
    by (rule single_leaf_index)
  with consistency_proofs_verify [of l 0 1 0 1] show ?thesis
    by (simp add: ml_leaf_count_def node_count_1 MAX_MMR_SIZE_def)
qed

lemma index_range:
  assumes "index_inv l" "1 \<le> from_seq" "from_seq \<le> to_seq" "to_seq \<le> ml_leaf_count l"
    "node_count to_seq = Inr s" "s < MAX_MMR_SIZE"
  shows "\<exists>root pf. root_at l s = Inr root \<and> ml_range_proof l from_seq to_seq = Inr pf \<and>
    verify_seq_range root from_seq to_seq
      (take (nat (to_seq - from_seq + 1)) (drop (nat (from_seq - 1)) (ml_body_digests l))) (Some pf)"
proof -
  let ?i = "nat (from_seq - 1)" and ?j = "nat (to_seq - 1)" and ?n = "nat to_seq"
  have n: "s = nodes_of (mountains ?n)" "?n \<le> length (ml_body_digests l)" "?i \<le> ?j" "?j < ?n"
    "?j + 1 - ?i = nat (to_seq - from_seq + 1)"
    using assms node_count_mountains [of ?n] by (auto simp: ml_leaf_count_def)
  obtain root where root: "root_at l s = Inr root"
    "root_from_peaks (peak_hashes (store_nodes (ml_nodes l)) ?n) = Inr root"
    using root_at_ok [OF assms(1) n(2)] assms(6) n(1) by blast
  from mem.range_complete [OF assms(1)[unfolded index_inv_def] n(2) _ n(3,4) root(2)] assms(6) n(1)
  obtain pf where pf: "range_proof (ml_size l) (store_node (ml_nodes l)) (from_seq - 1) (to_seq - 1) s = Inr pf"
    "verify_range root s (from_seq - 1) (to_seq - 1)
      (take (nat (to_seq - from_seq + 1)) (drop ?i (ml_body_digests l))) (Some pf)"
    unfolding n(5) using assms(2,3) by (auto simp: ml_size_def)
  have "rp_v pf = 1 \<and> rp_kind pf = ''range'' \<and> rp_size pf = s"
    using pf(1) by (auto simp: range_proof_def bindR_eq_Inr split: if_splits)
  then have "\<lparr>rp_v = 1, rp_kind = ''range'', rp_size = s, rp_from_index = rp_from_index pf,
      rp_to_index = rp_to_index pf, rp_witness = rp_witness pf\<rparr> = pf"
    by (cases pf) simp
  moreover have "leaf_count s = Inr to_seq"
    using assms by (simp add: leaf_count_iff)
  ultimately show ?thesis
    using root(1) pf assms(2,3,5)
    by (simp add: ml_range_proof_def verify_seq_range_def verify_seq_range_body_def)
qed

text \<open>
  Every range proof the index makes verifies: for a contiguous run of indexed records,
  \<^verbatim>\<open>range_proof\<close> returns a proof that \<^verbatim>\<open>verify_range\<close> accepts against the root at the last of
  them and the body digests of all of them.
\<close>

theorem range_proofs_verify:
  assumes "index_inv l" "1 \<le> from_seq" "from_seq \<le> to_seq" "to_seq \<le> ml_leaf_count l"
    "node_count to_seq = Inr s" "s < MAX_MMR_SIZE"
  shows "\<exists>root pf. root_at l s = Inr root \<and> ml_range_proof l from_seq to_seq = Inr pf \<and>
    verify_seq_range root from_seq to_seq
      (take (nat (to_seq - from_seq + 1)) (drop (nat (from_seq - 1)) (ml_body_digests l))) (Some pf)"
  using assms by (rule index_range)

theorem range_proofs_verify_witness:
  "\<exists>l. index_record (new_mmr_ledger ()) \<lparr>ir_seq = 1, ir_capsule_id = to_hex (replicate 32 7)\<rparr> = Inr l \<and>
     (\<exists>root pf. root_at l 1 = Inr root \<and> ml_range_proof l 1 1 = Inr pf \<and>
        verify_seq_range root 1 1 [replicate 32 7] (Some pf))"
proof -
  obtain l where l: "index_record (new_mmr_ledger ()) \<lparr>ir_seq = 1, ir_capsule_id = to_hex (replicate 32 7)\<rparr> = Inr l"
    "index_inv l" "ml_body_digests l = [replicate 32 7]"
    by (rule single_leaf_index)
  with range_proofs_verify [of l 1 1 1] show ?thesis
    by (simp add: ml_leaf_count_def node_count_1 MAX_MMR_SIZE_def)
qed

end
