(* ===== verification/Mmr_Binding.thy ===== *)
theory Mmr_Binding
  imports Mmr_Complete
begin

text \<open>
  What an accepted proof binds. A root of a given size fixes the body digest at every leaf: two
  accepted inclusion proofs for the same leaf carry the same digest, an accepted consistency proof
  carries every leaf of the old root over to the new one, and an accepted range proof agrees with
  every inclusion proof inside the range. Each statement assumes that SHA-256 has no collision
  among the inputs the verifications involved hash, which are listed by the \<open>queries\<close> functions
  below; nothing is assumed about how the proofs were made.
\<close>

section \<open>Bagging and folding are injective up to collisions\<close>

fun bag_queries :: "bytes list \<Rightarrow> bytes list" where
  "bag_queries (right # left # hashes) = (right @ left) # bag_queries (sha256 (right @ left) # hashes)"
| "bag_queries hs = []"

lemma append_digests [simp]:
  "digest a \<Longrightarrow> digest c \<Longrightarrow> a @ b = c @ d \<longleftrightarrow> a = c \<and> b = d"
  by simp

lemma bag_inject:
  assumes "bag_loop xs = bag_loop ys" "length xs = length ys"
    "\<forall>x\<in>set xs. digest x" "\<forall>y\<in>set ys. digest y"
    "inj_on sha256 (set (bag_queries xs) \<union> set (bag_queries ys))"
  shows "xs = ys"
  using assms
proof (induction xs arbitrary: ys rule: bag_loop.induct)
  case (1 r l hs)
  then obtain r' l' hs' where ys: "ys = r' # l' # hs'" by (auto simp: length_Suc_conv Suc_length_conv)
  have eq: "sha256 (r @ l) # hs = sha256 (r' @ l') # hs'"
  proof (rule "1.IH")
    show "inj_on sha256 (set (bag_queries (sha256 (r @ l) # hs)) \<union> set (bag_queries (sha256 (r' @ l') # hs')))"
      using "1.prems"(5) by (rule inj_on_subset) (auto simp: ys)
  qed (use "1.prems" ys in auto)
  then have "sha256 (r @ l) = sha256 (r' @ l')" by simp
  then have "r @ l = r' @ l'" by (rule inj_onD [OF "1.prems"(5)]) (simp_all add: ys)
  with eq show ?case
    using "1.prems"(3,4) ys by auto
next
  case (2 h)
  then show ?case by (cases ys) auto
qed simp

lemma root_inject:
  assumes "root_from_peaks xs = Inr r" "root_from_peaks ys = Inr r" "length xs = length ys"
    "inj_on sha256 (set (bag_queries (rev xs)) \<union> set (bag_queries (rev ys)))"
  shows "xs = ys"
proof (cases "xs = []")
  case False
  then have "bag_loop (rev xs) = bag_loop (rev ys)" "\<forall>x\<in>set (rev xs). digest x" "\<forall>y\<in>set (rev ys). digest y"
    using assms(1-3) by (auto simp: root_from_peaks_def bindR_eq_Inr mapR_eq_Inr list_all2_conv_all_nth in_set_conv_nth
        split: if_splits)
  with bag_inject [of "rev xs" "rev ys"] assms(3,4) show ?thesis by simp
qed (use assms(3) in simp)

definition step_query :: "PathStep \<Rightarrow> bytes \<Rightarrow> bytes \<Rightarrow> bytes" where
  "step_query st acc sib =
     be_bytes 8 (nat (parent_pos st + 1)) @ (if target_is_right st then sib @ acc else acc @ sib)"

lemma fold_step_eq_Inr:
  "fold_step acc (st, sib) = Inr x \<longleftrightarrow>
     digest acc \<and> digest sib \<and> 0 \<le> parent_pos st \<and> parent_pos st + 1 < 2 ^ 64 \<and> x = sha256 (step_query st acc sib)"
  by (auto simp: fold_step_def interior_hash_eq_Inr interior_def step_query_def)

lemma step_query_inject:
  assumes "step_query st a x = step_query st b y" "digest a" "digest b" "digest x" "digest y"
  shows "a = b \<and> x = y"
  using assms by (auto simp: step_query_def split: if_splits)

fun fold_queries :: "bytes \<Rightarrow> (PathStep \<times> bytes) list \<Rightarrow> bytes list" where
  "fold_queries acc [] = []"
| "fold_queries acc ((st, sib) # rest) =
     step_query st acc sib # fold_queries (sha256 (step_query st acc sib)) rest"

lemma fold_inject:
  assumes "fold_path a path xs = Inr z" "fold_path b path ys = Inr z"
    "length xs = length path" "length ys = length path"
    "inj_on sha256 (set (fold_queries a (zip path xs)) \<union> set (fold_queries b (zip path ys)))"
  shows "a = b"
  using assms
proof (induction path arbitrary: a b xs ys)
  case Nil
  then show ?case by (simp add: fold_path_def)
next
  case (Cons st path)
  obtain x xs' y ys' where xy: "xs = x # xs'" "ys = y # ys'"
    using Cons.prems(3,4) by (auto simp: length_Suc_conv)
  let ?p = "step_query st a x" and ?q = "step_query st b y"
  have d: "digest a" "digest x" "digest b" "digest y"
    and f: "fold_path (sha256 ?p) path xs' = Inr z" "fold_path (sha256 ?q) path ys' = Inr z"
    using Cons.prems(1,2) by (auto simp: xy fold_path_def bindR_eq_Inr fold_step_eq_Inr simp del: fold_step_simp)
  have "sha256 ?p = sha256 ?q"
    by (rule Cons.IH [OF f _ _ inj_on_subset [OF Cons.prems(5)]]) (use Cons.prems xy in auto)
  then have "?p = ?q" by (rule inj_onD [OF Cons.prems(5)]) (simp_all add: xy)
  then show ?case using step_query_inject d by blast
qed

section \<open>Inclusion\<close>

definition peak_path :: "int \<Rightarrow> int list \<Rightarrow> (int \<times> PathStep list) res" where
  "peak_path p pks =
     bindR (find_containing_peak p pks) (\<lambda>k.
     bindR (py_index pks k) (\<lambda>r.
     bindR (height_at r) (\<lambda>h. Inr (k, locate_path r h p))))"

definition inclusion_parts ::
  "int \<Rightarrow> int \<Rightarrow> InclusionProof \<Rightarrow> (PathStep list \<times> bytes list \<times> bytes list \<times> bytes list) res" where
  "inclusion_parts s i pf =
     bindR (leaf_index_to_pos i) (\<lambda>t.
     bindR (peaks s) (\<lambda>pks.
     bindR (peak_path t pks) (\<lambda>(k, path).
     bindR (mapR parse_digest_hex (ip_witness pf)) (\<lambda>ws.
     bindR (mapR parse_digest_hex (ip_peaks_left pf)) (\<lambda>ls.
     bindR (mapR parse_digest_hex (ip_peaks_right pf)) (\<lambda>rs.
     Inr (path, ws, ls, rs)))))))"

text \<open>Everything \<^verbatim>\<open>verify_inclusion\<close> hashes: the leaf, the path, the bagged peaks.\<close>

definition inclusion_queries :: "int \<Rightarrow> int \<Rightarrow> bytes \<Rightarrow> InclusionProof \<Rightarrow> bytes list" where
  "inclusion_queries s i d pf =
     (case inclusion_parts s i pf of
        Inl _ \<Rightarrow> []
      | Inr (path, ws, ls, rs) \<Rightarrow>
          (0 # d) # fold_queries (leaf_of d) (zip path ws) @
          (case fold_path (leaf_of d) path ws of
             Inl _ \<Rightarrow> [] | Inr x \<Rightarrow> bag_queries (rev (ls @ [x] @ rs))))"

lemma verify_inclusionD:
  assumes "verify_inclusion root s i d (Some pf)"
  obtains t pks k path ws ls rs x where
    "0 \<le> i" "\<exists>lc. leaf_count s = Inr lc \<and> i < lc" "leaf_index_to_pos i = Inr t" "peaks s = Inr pks" "peak_path t pks = Inr (k, path)" "k \<noteq> - 1"
    "inclusion_parts s i pf = Inr (path, ws, ls, rs)" "digest d" "length ws = length path"
    "int (length ls) = k" "int (length rs) = int (length pks) - k - 1"
    "fold_path (leaf_of d) path ws = Inr x" "root_from_peaks (ls @ [x] @ rs) = Inr root"
    "set (inclusion_queries s i d pf)
       = {0 # d} \<union> set (fold_queries (leaf_of d) (zip path ws)) \<union> set (bag_queries (rev (ls @ [x] @ rs)))"
proof -
  have "verify_inclusion_body root s i d (Some pf) = Inr True"
    using assms by (simp add: verify_inclusion_def or_false_iff)
  then obtain t pks k r h ws ls rs x where
    a: "0 \<le> i" "\<exists>lc. leaf_count s = Inr lc \<and> i < lc" "leaf_index_to_pos i = Inr t" "peaks s = Inr pks" "k \<noteq> - 1"
    "find_containing_peak t pks = Inr k" "py_index pks k = Inr r" "height_at r = Inr h"
    and l: "length (ip_witness pf) = length (locate_path r h t)" "int (length (ip_peaks_left pf)) = k"
    "int (length (ip_peaks_right pf)) = int (length pks) - k - 1"
    and p: "mapR parse_digest_hex (ip_witness pf) = Inr ws" "mapR parse_digest_hex (ip_peaks_left pf) = Inr ls"
    "mapR parse_digest_hex (ip_peaks_right pf) = Inr rs"
    and h: "digest d" "fold_path (leaf_of d) (locate_path r h t) ws = Inr x" "root_from_peaks (ls @ [x] @ rs) = Inr root"
    by (auto simp: verify_inclusion_body_def bindR_eq_Inr Let_def split: if_splits)
  have pp: "peak_path t pks = Inr (k, locate_path r h t)"
    using a by (simp add: peak_path_def)
  then have parts: "inclusion_parts s i pf = Inr (locate_path r h t, ws, ls, rs)"
    using a p by (simp add: inclusion_parts_def)
  have "length ws = length (locate_path r h t)" "int (length ls) = k" "int (length rs) = int (length pks) - k - 1"
    using l p [THEN mapR_length] by simp_all
  then show thesis
    using that [OF a(1-4) pp a(5) parts h(1) _ _ _ h(2,3)] parts h(2) by (simp add: inclusion_queries_def Un_assoc)
qed

lemma inclusion_binds:
  assumes "verify_inclusion root s i d (Some pf)" "verify_inclusion root s i d' (Some pf')"
    "inj_on sha256 (set (inclusion_queries s i d pf) \<union> set (inclusion_queries s i d' pf'))"
  shows "d = d'"
proof -
  obtain t pks k path ws ls rs x where a: "leaf_index_to_pos i = Inr t" "peaks s = Inr pks" "peak_path t pks = Inr (k, path)"
    "length ws = length path" "int (length ls) = k" "int (length rs) = int (length pks) - k - 1"
    "fold_path (leaf_of d) path ws = Inr x" "root_from_peaks (ls @ [x] @ rs) = Inr root"
    "set (inclusion_queries s i d pf)
       = {0 # d} \<union> set (fold_queries (leaf_of d) (zip path ws)) \<union> set (bag_queries (rev (ls @ [x] @ rs)))"
    using assms(1) by (rule verify_inclusionD)
  obtain t' pks' k' path' ws' ls' rs' x' where b: "leaf_index_to_pos i = Inr t'" "peaks s = Inr pks'" "peak_path t' pks' = Inr (k', path')"
    "length ws' = length path'" "int (length ls') = k'" "int (length rs') = int (length pks') - k' - 1"
    "fold_path (leaf_of d') path' ws' = Inr x'" "root_from_peaks (ls' @ [x'] @ rs') = Inr root"
    "set (inclusion_queries s i d' pf')
       = {0 # d'} \<union> set (fold_queries (leaf_of d') (zip path' ws')) \<union> set (bag_queries (rev (ls' @ [x'] @ rs')))"
    using assms(2) by (rule verify_inclusionD)
  have same: "k' = k" "path' = path" "length ls' = length ls" "length rs' = length rs"
    using a(1-3,5,6) b(1-3,5,6) by auto
  have "ls @ [x] @ rs = ls' @ [x'] @ rs'"
    by (rule root_inject [OF a(8) b(8) _ inj_on_subset [OF assms(3)]]) (auto simp: a(9) b(9) same)
  then have "x = x'" using same by simp
  then have f: "fold_path (leaf_of d') path ws' = Inr x" using b(7) same by simp
  have "leaf_of d = leaf_of d'"
    by (rule fold_inject [OF a(7) f a(4) _ inj_on_subset [OF assms(3)]]) (auto simp: a(9) b(4,9) same)
  then have "sha256 (0 # d) = sha256 (0 # d')" by (simp add: leaf_of_def)
  then have "0 # d = 0 # d'" by (rule inj_onD [OF assms(3)]) (simp_all add: a(9) b(9))
  then show ?thesis by simp
qed

section \<open>Paths through two ranges\<close>

text \<open>Node \<open>q\<close> of height \<open>h\<close> lies in the perfect tree of height \<open>H\<close> with root \<open>r\<close>.\<close>

fun in_tree :: "int \<Rightarrow> nat \<Rightarrow> int \<Rightarrow> nat \<Rightarrow> bool" where
  "in_tree r 0 q h \<longleftrightarrow> q = r \<and> h = 0"
| "in_tree r (Suc H) q h \<longleftrightarrow>
     q = r \<and> h = Suc H \<or> in_tree (r - 2 ^ Suc H) H q h \<or> in_tree (r - 1) H q h"

lemma in_tree_bounds: "in_tree r H q h \<Longrightarrow> r - msize H \<le> q - msize h \<and> q \<le> r"
proof (induction H arbitrary: r)
  case (Suc H)
  have p: "(2 :: int) ^ Suc H = msize H + 1" "msize (Suc H) = 2 * msize H + 1" "1 \<le> msize H"
    by (rule two_power_msize, rule msize_Suc, rule msize_pos)
  consider "q = r" "h = Suc H" | "in_tree (r - 2 ^ Suc H) H q h" | "in_tree (r - 1) H q h"
    using Suc.prems by auto
  then show ?case
    using Suc.IH [of "r - 2 ^ Suc H"] Suc.IH [of "r - 1"] p by cases (simp, linarith+)
qed simp

lemma in_tree_hseq:
  "r - msize H < q \<Longrightarrow> q \<le> r \<Longrightarrow> in_tree r H q (hseq H ! nat (q - (r - msize H + 1)))"
proof (induction H arbitrary: r)
  case (Suc H)
  have p: "(2 :: int) ^ Suc H = msize H + 1" "msize (Suc H) = 2 * msize H + 1" "1 \<le> msize H"
    by (rule two_power_msize, rule msize_Suc, rule msize_pos)
  consider "q \<le> r - 2 ^ Suc H" | "r - 2 ^ Suc H < q" "q < r" | "q = r"
    using Suc.prems by linarith
  then show ?case
  proof cases
    case 1
    then have n: "nat (q - (r - msize (Suc H) + 1)) = nat (q - (r - 2 ^ Suc H - msize H + 1))"
      "nat (q - (r - 2 ^ Suc H - msize H + 1)) < length (hseq H)"
      using p Suc.prems length_hseq [of H] by auto
    have "in_tree (r - 2 ^ Suc H) H q (hseq H ! nat (q - (r - 2 ^ Suc H - msize H + 1)))"
      using 1 Suc.prems p by (intro Suc.IH) auto
    then show ?thesis unfolding n(1) using n(2) by (simp add: nth_append del: power_Suc)
  next
    case 2
    then have n: "nat (q - (r - msize (Suc H) + 1)) = length (hseq H) + nat (q - (r - 1 - msize H + 1))"
      "nat (q - (r - 1 - msize H + 1)) < length (hseq H)"
      using p Suc.prems length_hseq [of H] by linarith+
    have "in_tree (r - 1) H q (hseq H ! nat (q - (r - 1 - msize H + 1)))"
      using 2 Suc.prems p by (intro Suc.IH) auto
    then show ?thesis unfolding n(1) using n(2) by (simp add: nth_append del: power_Suc)
  next
    case 3
    then have "nat (q - (r - msize (Suc H) + 1)) = nat (msize (Suc H) - 1)" by simp
    with 3 show ?thesis using hseq_last [of "Suc H"] by (simp only: in_tree.simps) simp
  qed
qed (simp add: msize_def)

lemma locate_path_compose:
  "in_tree r H q h \<Longrightarrow> q - msize h < t \<Longrightarrow> t \<le> q \<Longrightarrow>
     locate_path r H t = locate_path q h t @ locate_path r H q"
proof (induction H arbitrary: r)
  case 0
  then show ?case by simp
next
  case (Suc H)
  have p: "(2 :: int) ^ Suc H = msize H + 1" "msize (Suc H) = 2 * msize H + 1" "1 \<le> msize H"
    by (rule two_power_msize, rule msize_Suc, rule msize_pos)
  consider "q = r" "h = Suc H" | "in_tree (r - 2 ^ Suc H) H q h" | "in_tree (r - 1) H q h"
    using Suc.prems(1) by auto
  then show ?case
  proof cases
    case 1
    then show ?thesis by (simp add: locate_path_Suc [of r H r])
  next
    case 2
    have "q \<le> r - 2 ^ Suc H" "t \<le> r - 2 ^ Suc H" "t < r" "q < r"
      using in_tree_bounds [OF 2] Suc.prems(2,3) p by linarith+
    then show ?thesis
      using Suc.IH [OF 2 Suc.prems(2,3)] by (simp add: locate_path_Suc [of r H] del: power_Suc)
  next
    case 3
    show ?thesis
    proof (cases "t = r")
      case False
      have "\<not> q \<le> r - 2 ^ Suc H" "\<not> t \<le> r - 2 ^ Suc H" "t \<noteq> r" "q \<noteq> r"
        using in_tree_bounds [OF 3] Suc.prems(2,3) p by linarith+
      then show ?thesis
        using Suc.IH [OF 3 Suc.prems(2,3)] by (simp add: locate_path_Suc [of r H] del: power_Suc)
    qed (use in_tree_bounds [OF 3] Suc.prems in auto)
  qed
qed

lemma height_at_node:
  assumes "desc (pre @ h # post)" "0 \<le> j" "j < msize h"
  shows "height_at (nodes_of pre + j) = Inr (hseq h ! nat j)"
proof -
  obtain k where "\<forall>h\<in>set (pre @ h # post). h < k" using desc_bounded [OF assms(1)] by blast
  then obtain zs where "hseq k = concat (map hseq (pre @ h # post)) @ 0 # zs"
    using hseq_mountains [OF assms(1)] by blast
  then have zs: "hseq k = concat (map hseq pre) @ hseq h @ concat (map hseq post) @ 0 # zs" by simp
  have n: "nat (nodes_of pre + j) = length (concat (map hseq pre)) + nat j"
    using length_concat_hseq [of pre] assms(2) by linarith
  have "nat j < length (hseq h)"
    using length_hseq [of h] assms by linarith
  moreover have "nodes_of pre + j < msize k"
    unfolding length_hseq [symmetric] zs
    using length_concat_hseq [of pre] length_hseq [of h] assms(3) by simp
  moreover have "0 \<le> nodes_of pre + j"
    using assms nodes_of_nonneg [of pre] by linarith
  ultimately show ?thesis
    by (simp only: height_at_hseq [of _ k] n zs) (simp add: nth_append)
qed

lemma old_peak_in_tree:
  assumes "mountains m = pre @ h # post" "mountains n = pre' @ H # post'"
    "nodes_of pre' \<le> nodes_of pre + msize h - 1" "nodes_of pre + msize h - 1 < nodes_of pre' + msize H"
  shows "in_tree (nodes_of pre' + msize H - 1) H (nodes_of pre + msize h - 1) h"
proof -
  let ?q = "nodes_of pre + msize h - 1"
  let ?j = "?q - nodes_of pre'"
  have "height_at ?q = Inr h"
    using height_at_peak [of pre h post] desc_mountains [of m] assms(1) by simp
  moreover have "height_at (nodes_of pre' + ?j) = Inr (hseq H ! nat ?j)"
    using height_at_node [of pre' H post' ?j] desc_mountains [of n] assms(2-4) by simp
  moreover have "nodes_of pre' + ?j = ?q" by simp
  ultimately have "hseq H ! nat ?j = h" by (simp only: sum.inject)
  then show ?thesis
    using in_tree_hseq [of "nodes_of pre' + msize H - 1" H ?q] assms(3,4) by simp
qed

lemma peak_paths_compose:
  assumes "i < m" "m \<le> n"
  obtains k q path k' path' where
    "peak_path (nodes_of (mountains i)) (peak_positions 0 (mountains m)) = Inr (int k, path)"
    "k < length (mountains m)" "peak_positions 0 (mountains m) ! k = q"
    "peak_path q (peak_positions 0 (mountains n)) = Inr (int k', path')" "k' < length (mountains n)"
    "peak_path (nodes_of (mountains i)) (peak_positions 0 (mountains n)) = Inr (int k', path @ path')"
proof -
  let ?t = "nodes_of (mountains i)"
  obtain pre h post where d: "mountains m = pre @ h # post"
    "?t = nodes_of pre + nodes_of (mountains (i - leaves_of pre))"
    "nodes_of (mountains (i - leaves_of pre)) < msize h"
    "find_containing_peak ?t (peak_positions 0 (mountains m)) = Inr (int (length pre))"
    using leaf_located [OF assms(1)] by blast
  define q where "q = nodes_of pre + msize h - 1"
  have t: "q - msize h < ?t" "?t \<le> q"
    using d(2,3) nodes_of_nonneg [of "mountains (i - leaves_of pre)"] by (simp_all add: q_def)
  have q: "peak_positions 0 (mountains m) ! length pre = q" "height_at q = Inr h"
    using peak_positions_nth [of 0 pre h post] height_at_peak [of pre h post] desc_mountains [of m]
    by (simp_all add: d(1) q_def)
  have one: "peak_path ?t (peak_positions 0 (mountains m)) = Inr (int (length pre), locate_path q h ?t)"
    using d(1,4) q by (simp add: peak_path_def)
  have "0 \<le> q" "q < nodes_of (mountains n)"
    using nodes_of_mountains_mono [OF assms(2)] nodes_of_nonneg [of pre] nodes_of_nonneg [of post] msize_pos [of h]
    by (simp_all add: d(1) q_def)
  then obtain pre' H post' where e: "mountains n = pre' @ H # post'" "nodes_of pre' \<le> q" "q < nodes_of pre' + msize H"
    "find_containing_peak q (peak_positions 0 (mountains n)) = Inr (int (length pre'))"
    "py_index (peak_positions 0 (mountains n)) (int (length pre')) = Inr (nodes_of pre' + msize H - 1)"
    "height_at (nodes_of pre' + msize H - 1) = Inr H"
    by (rule node_located)
  let ?r = "nodes_of pre' + msize H - 1"
  have tr: "in_tree ?r H q h"
    unfolding q_def by (rule old_peak_in_tree [OF d(1) e(1)]) (use e(2,3) in \<open>simp_all add: q_def\<close>)
  have "find_containing_peak ?t (peak_positions 0 (mountains n)) = Inr (int (length pre'))"
    using find_containing_peak_ok [of pre' H post' ?t] desc_mountains [of n] in_tree_bounds [OF tr] t e(1,3) by simp
  then have "peak_path ?t (peak_positions 0 (mountains n)) = Inr (int (length pre'), locate_path q h ?t @ locate_path ?r H q)"
    using e(5,6) locate_path_compose [OF tr t] by (simp add: peak_path_def)
  moreover have "peak_path q (peak_positions 0 (mountains n)) = Inr (int (length pre'), locate_path ?r H q)"
    using e(4-6) by (simp add: peak_path_def)
  ultimately show thesis
    using one q(1) d(1) e(1) by (intro that) auto
qed

section \<open>Consistency\<close>

definition old_peak_queries :: "int list \<Rightarrow> int \<times> bytes \<times> string list \<Rightarrow> bytes list" where
  "old_peak_queries pb = (\<lambda>(p, old_peak, w).
     case bindR (peak_path p pb) (\<lambda>(k, path). bindR (mapR parse_digest_hex w) (\<lambda>ws. Inr (zip path ws))) of
       Inl _ \<Rightarrow> []
     | Inr steps \<Rightarrow> fold_queries old_peak steps)"

definition consistency_parts ::
  "int \<Rightarrow> int \<Rightarrow> ConsistencyProof \<Rightarrow> (int list \<times> int list \<times> bytes list \<times> bytes list) res" where
  "consistency_parts a b pf =
     bindR (peaks a) (\<lambda>pa.
     bindR (peaks b) (\<lambda>pb.
     bindR (mapR parse_digest_hex (cp_old_peaks pf)) (\<lambda>olds.
     bindR (mapR parse_digest_hex (cp_new_peaks pf)) (\<lambda>news. Inr (pa, pb, olds, news)))))"

text \<open>Everything \<^verbatim>\<open>verify_consistency\<close> hashes: both bags and the path above every old peak.\<close>

definition consistency_queries :: "int \<Rightarrow> int \<Rightarrow> ConsistencyProof \<Rightarrow> bytes list" where
  "consistency_queries a b pf =
     (case consistency_parts a b pf of
        Inl _ \<Rightarrow> []
      | Inr (pa, pb, olds, news) \<Rightarrow>
          bag_queries (rev olds) @ bag_queries (rev news) @
          concat (map (old_peak_queries pb) (zip pa (zip olds (cp_witness pf)))))"

lemma check_old_peaksD:
  "check_old_peaks pb news xs = Inr True \<Longrightarrow> (p, old, w) \<in> set xs \<Longrightarrow>
     \<exists>k path ws z. peak_path p pb = Inr (k, path) \<and> mapR parse_digest_hex w = Inr ws \<and>
       length ws = length path \<and> fold_path old path ws = Inr z \<and> py_index news k = Inr z"
proof (induction xs)
  case (Cons x xs)
  obtain p' old' w' where x: "x = (p', old', w')" by (cases x)
  from Cons.prems(1) obtain k r h ws z where e: "find_containing_peak p' pb = Inr k" "py_index pb k = Inr r"
    "height_at r = Inr h" "length w' = length (locate_path r h p')" "mapR parse_digest_hex w' = Inr ws"
    "fold_path old' (locate_path r h p') ws = Inr z" "py_index news k = Inr z" "check_old_peaks pb news xs = Inr True"
    unfolding x by (auto simp: bindR_eq_Inr Let_def split: if_splits)
  show ?case
  proof (cases "(p, old, w) = x")
    case True
    then show ?thesis
      using e x mapR_length [OF e(5)] by (auto simp: peak_path_def)
  qed (use Cons e(8) in auto)
qed simp

lemma verify_consistencyD:
  assumes "verify_consistency root_a a root_b b (Some pf)"
  obtains pa pb olds news where "a \<le> b" "peaks a = Inr pa" "peaks b = Inr pb"
    "consistency_parts a b pf = Inr (pa, pb, olds, news)"
    "length olds = length pa" "length news = length pb" "length (cp_witness pf) = length pa"
    "root_from_peaks olds = Inr root_a" "root_from_peaks news = Inr root_b"
    "check_old_peaks pb news (zip pa (zip olds (cp_witness pf))) = Inr True"
proof -
  have "verify_consistency_body root_a a root_b b (Some pf) = Inr True"
    using assms by (simp add: verify_consistency_def or_false_iff)
  then obtain pa pb olds news where c: "a \<le> b" "peaks a = Inr pa" "peaks b = Inr pb"
    "mapR parse_digest_hex (cp_old_peaks pf) = Inr olds" "mapR parse_digest_hex (cp_new_peaks pf) = Inr news"
    "length (cp_old_peaks pf) = length pa" "length (cp_new_peaks pf) = length pb" "length (cp_witness pf) = length pa"
    "root_from_peaks olds = Inr root_a" "root_from_peaks news = Inr root_b"
    "check_old_peaks pb news (zip pa (zip olds (cp_witness pf))) = Inr True"
    by (auto simp: verify_consistency_body_def bindR_eq_Inr split: if_splits)
  then show thesis
    using that [of pa pb olds news] mapR_length [OF c(4)] mapR_length [OF c(5)] by (simp add: consistency_parts_def)
qed

lemma fold_queries_append:
  "length ws = length path \<Longrightarrow> fold_path a path ws = Inr x \<Longrightarrow>
     fold_queries a (zip (path @ path') (ws @ ws')) = fold_queries a (zip path ws) @ fold_queries x (zip path' ws')"
proof (induction path arbitrary: a ws)
  case (Cons st path)
  then obtain w ws1 where ws: "ws = w # ws1" by (auto simp: length_Suc_conv)
  with Cons.prems have "fold_path (sha256 (step_query st a w)) path ws1 = Inr x"
    by (auto simp: fold_path_def bindR_eq_Inr fold_step_eq_Inr simp del: fold_step_simp)
  with Cons ws show ?case by simp
qed (simp add: fold_path_def)

lemma fold_path_append:
  "length ws = length path \<Longrightarrow> fold_path a path ws = Inr x \<Longrightarrow>
     fold_path a (path @ path') (ws @ ws') = fold_path x path' ws'"
  by (simp add: fold_path_def foldR_append)

lemma peaks_size:
  assumes "peaks s = Inr pks"
  obtains m where "s = nodes_of (mountains m)" "s < MAX_MMR_SIZE" "pks = peak_positions 0 (mountains m)"
    "leaf_count s = Inr (int m)"
proof -
  obtain hs where hs: "desc hs" "s = nodes_of hs" "pks = peak_positions 0 hs" "s < MAX_MMR_SIZE"
    using assms by (rule peaks_sound)
  with that [of "leaves_of hs"] show thesis
    by (simp add: mountains_unique leaf_count_nodes)
qed

lemma mountains_size_le:
  assumes "nodes_of (mountains m) \<le> nodes_of (mountains n)" "nodes_of (mountains n) < MAX_MMR_SIZE"
  shows "m \<le> n"
proof (rule ccontr)
  assume "\<not> m \<le> n"
  then have "nodes_of (mountains n) \<le> nodes_of (mountains m)" by (intro nodes_of_mountains_mono) simp
  with assms have "leaf_count (nodes_of (mountains m)) = leaf_count (nodes_of (mountains n))" by simp
  with assms \<open>\<not> m \<le> n\<close> show False by (simp add: leaf_count_at)
qed

lemma consistency_binds:
  assumes va: "verify_inclusion root_a a i d (Some pa)" and vc: "verify_consistency root_a a root_b b (Some pc)"
    and vb: "verify_inclusion root_b b i d' (Some pb)"
    and inj: "inj_on sha256 (set (inclusion_queries a i d pa) \<union> set (consistency_queries a b pc) \<union>
      set (inclusion_queries b i d' pb))"
  shows "d = d'"
proof -
  obtain t pks k path ws ls rs x where A: "0 \<le> i" "\<exists>lc. leaf_count a = Inr lc \<and> i < lc"
    "leaf_index_to_pos i = Inr t" "peaks a = Inr pks" "peak_path t pks = Inr (k, path)"
    "length ws = length path" "int (length ls) = k" "int (length rs) = int (length pks) - k - 1"
    "fold_path (leaf_of d) path ws = Inr x" "root_from_peaks (ls @ [x] @ rs) = Inr root_a"
    "set (inclusion_queries a i d pa)
       = {0 # d} \<union> set (fold_queries (leaf_of d) (zip path ws)) \<union> set (bag_queries (rev (ls @ [x] @ rs)))"
    using va by (rule verify_inclusionD)
  obtain t' pks' k' path' ws' ls' rs' x' where B:
    "leaf_index_to_pos i = Inr t'" "peaks b = Inr pks'" "peak_path t' pks' = Inr (k', path')"
    "length ws' = length path'" "int (length ls') = k'" "int (length rs') = int (length pks') - k' - 1"
    "fold_path (leaf_of d') path' ws' = Inr x'" "root_from_peaks (ls' @ [x'] @ rs') = Inr root_b"
    "set (inclusion_queries b i d' pb)
       = {0 # d'} \<union> set (fold_queries (leaf_of d') (zip path' ws')) \<union> set (bag_queries (rev (ls' @ [x'] @ rs')))"
    using vb by (rule verify_inclusionD)
  obtain olds news where C: "a \<le> b" "consistency_parts a b pc = Inr (pks, pks', olds, news)"
    "length olds = length pks" "length news = length pks'" "length (cp_witness pc) = length pks"
    "root_from_peaks olds = Inr root_a" "root_from_peaks news = Inr root_b"
    "check_old_peaks pks' news (zip pks (zip olds (cp_witness pc))) = Inr True"
    using vc A(4) B(2) by (elim verify_consistencyD) simp
  obtain m where m: "a = nodes_of (mountains m)" "pks = peak_positions 0 (mountains m)" "leaf_count a = Inr (int m)"
    using A(4) by (rule peaks_size)
  obtain n where n: "b = nodes_of (mountains n)" "b < MAX_MMR_SIZE" "pks' = peak_positions 0 (mountains n)"
    using B(2) by (rule peaks_size)
  have mn: "m \<le> n" using mountains_size_le [of m n] C(1) m(1) n by simp
  have i: "nat i < m" using A(1,2) m(3) by auto
  have t: "t = nodes_of (mountains (nat i))" "t' = t"
    using A(1,3) B(1) node_count_mountains [of "nat i"]
    by (auto simp: leaf_index_to_pos_def require_nonneg_int_def bindR_eq_Inr split: if_splits)
  obtain j q p1 j' p2 where P: "peak_path t pks = Inr (int j, p1)" "j < length pks" "pks ! j = q"
    "peak_path q pks' = Inr (int j', p2)" "j' < length pks'" "peak_path t pks' = Inr (int j', p1 @ p2)"
    using peak_paths_compose [OF i mn] unfolding m(2) n(3) t(1) by (metis length_peak_positions)
  have j: "k = int j" "path = p1" "k' = int j'" "path' = p1 @ p2"
    using P(1,6) A(5) B(3) t(2) by simp_all
  have cq: "set (consistency_queries a b pc) = set (bag_queries (rev olds)) \<union> set (bag_queries (rev news)) \<union>
      (\<Union>e\<in>set (zip pks (zip olds (cp_witness pc))). set (old_peak_queries pks' e))"
    using C(2) by (simp add: consistency_queries_def Un_assoc)
  have old: "ls @ [x] @ rs = olds"
    by (rule root_inject [OF A(10) C(6) _ inj_on_subset [OF inj]]) (use A(7,8) C(3) in \<open>auto simp: A(11) cq\<close>)
  have new: "ls' @ [x'] @ rs' = news"
    by (rule root_inject [OF B(8) C(7) _ inj_on_subset [OF inj]]) (use B(5,6) C(4) in \<open>auto simp: B(9) cq\<close>)
  have ox: "olds ! j = x" using A(7) j(1) by (simp add: old [symmetric] nth_append)
  have nx: "py_index news (int j') = Inr x'" using B(5) j(3) by (simp add: new [symmetric] nth_append)
  let ?w = "cp_witness pc ! j"
  have mem: "(q, x, ?w) \<in> set (zip pks (zip olds (cp_witness pc)))"
    using P(2,3) C(3,5) ox by (force simp: set_zip)
  from check_old_peaksD [OF C(8) mem] P(4) nx obtain ws2 where W:
    "mapR parse_digest_hex ?w = Inr ws2" "length ws2 = length p2" "fold_path x p2 ws2 = Inr x'"
    by auto
  have whole: "fold_path (leaf_of d) (p1 @ p2) (ws @ ws2) = Inr x'"
    using fold_path_append [of ws p1 "leaf_of d" x] A(6,9) j(2) W(3) by simp
  have "old_peak_queries pks' (q, x, ?w) = fold_queries x (zip p2 ws2)"
    using P(4) W(1) by (simp add: old_peak_queries_def)
  then have q: "set (fold_queries x (zip p2 ws2)) \<subseteq> set (consistency_queries a b pc)"
    using mem unfolding cq by (auto intro!: bexI [of _ "(q, x, ?w)"])
  have fq: "fold_queries (leaf_of d) (zip (p1 @ p2) (ws @ ws2))
      = fold_queries (leaf_of d) (zip p1 ws) @ fold_queries x (zip p2 ws2)"
    using A(6,9) j(2) by (intro fold_queries_append) simp_all
  have "leaf_of d = leaf_of d'"
    by (rule fold_inject [OF whole _ _ _ inj_on_subset [OF inj]])
      (use A(6) B(4,7) j W(2) q in \<open>auto simp: fq A(11) B(9) simp del: zip_append\<close>)
  then have "sha256 (0 # d) = sha256 (0 # d')" by (simp add: leaf_of_def)
  then have "0 # d = 0 # d'" by (rule inj_onD [OF inj]) (simp_all add: A(11) B(9))
  then show ?thesis by simp
qed

section \<open>Ranges\<close>

fun subtree_queries ::
  "int \<Rightarrow> nat \<Rightarrow> int \<Rightarrow> int \<Rightarrow> int \<Rightarrow> (int \<rightharpoonup> bytes) \<Rightarrow> bytes list \<Rightarrow> nat \<Rightarrow> bytes list" where
  "subtree_queries r 0 ls lo hi bd ws c =
     (if ls < lo \<or> ls > hi then [] else case bd ls of None \<Rightarrow> [] | Some d \<Rightarrow> [0 # d])"
| "subtree_queries r (Suc k) ls lo hi bd ws c =
     (if ls + 2 ^ Suc k - 1 < lo \<or> ls > hi then []
      else case reconstruct_range_subtree (r - 2 ^ Suc k) k ls lo hi bd ws c of
        Inl _ \<Rightarrow> []
      | Inr (left, c1) \<Rightarrow>
          subtree_queries (r - 2 ^ Suc k) k ls lo hi bd ws c @
          (case reconstruct_range_subtree (r - 1) k (ls + 2 ^ k) lo hi bd ws c1 of
             Inl _ \<Rightarrow> []
           | Inr (right, _) \<Rightarrow>
               subtree_queries (r - 1) k (ls + 2 ^ k) lo hi bd ws c1 @ [be_bytes 8 (nat (r + 1)) @ left @ right]))"

text \<open>A rebuilt subtree contains, for every leaf of the range in it, a fold from that leaf.\<close>

lemma reconstruct_fold:
  assumes "reconstruct_range_subtree r h ls lo hi bd ws c = Inr (x, c')" "bd (ls + int j) = Some d"
    "lo \<le> ls + int j" "ls + int j \<le> hi" "j < 2 ^ h"
  shows "digest d \<and> (\<exists>sibs. let path = locate_path r h (r - msize h + 1 + nodes_of (mountains j)) in
    length sibs = length path \<and> fold_path (leaf_of d) path sibs = Inr x \<and>
    0 # d \<in> set (subtree_queries r h ls lo hi bd ws c) \<and>
    set (fold_queries (leaf_of d) (zip path sibs)) \<subseteq> set (subtree_queries r h ls lo hi bd ws c))"
  using assms
proof (induction h arbitrary: r ls c x c' j)
  case 0
  then show ?case
    by (auto simp: fold_path_def bindR_eq_Inr leaf_hash_eq_Inr leaf_of_def split: option.splits)
next
  case (Suc k)
  have p: "(2 :: int) ^ Suc k = msize k + 1" "msize (Suc k) = 2 * msize k + 1" "1 \<le> msize k"
    by (rule two_power_msize, rule msize_Suc, rule msize_pos)
  have pow: "int j < 2 ^ Suc k" using Suc.prems(5) by (metis of_nat_less_iff of_nat_numeral of_nat_power)
  have in_range: "\<not> (ls + 2 ^ Suc k - 1 < lo \<or> ls > hi)"
    using Suc.prems(3,4) pow by (intro notI, elim disjE) linarith+
  with Suc.prems(1) obtain l c1 rr c2 where
    L: "reconstruct_range_subtree (r - 2 ^ Suc k) k ls lo hi bd ws c = Inr (l, c1)" and
    R: "reconstruct_range_subtree (r - 1) k (ls + 2 ^ k) lo hi bd ws c1 = Inr (rr, c2)" and
    x: "interior_hash l rr r = Inr x"
    by (auto simp: bindR_eq_Inr Let_def simp del: power_Suc split: prod.splits)
  have q: "set (subtree_queries r (Suc k) ls lo hi bd ws c) =
      set (subtree_queries (r - 2 ^ Suc k) k ls lo hi bd ws c) \<union>
      set (subtree_queries (r - 1) k (ls + 2 ^ k) lo hi bd ws c1) \<union> {be_bytes 8 (nat (r + 1)) @ l @ rr}"
    using in_range L R by (auto simp del: power_Suc)
  let ?t = "r - msize (Suc k) + 1 + nodes_of (mountains j)"
  show ?case
  proof (cases "j < 2 ^ k")
    case True
    let ?path = "locate_path (r - 2 ^ Suc k) k ?t" and ?st = "\<lparr>sibling_pos = r - 1, target_is_right = False, parent_pos = r\<rparr>"
    have tl: "?t = r - 2 ^ Suc k - msize k + 1 + nodes_of (mountains j)" using p by simp
    from Suc.IH [OF L Suc.prems(2-4) True] obtain sibs where
      S: "digest d" "length sibs = length ?path" "fold_path (leaf_of d) ?path sibs = Inr l"
      "0 # d \<in> set (subtree_queries (r - 2 ^ Suc k) k ls lo hi bd ws c)"
      "set (fold_queries (leaf_of d) (zip ?path sibs)) \<subseteq> set (subtree_queries (r - 2 ^ Suc k) k ls lo hi bd ws c)"
      unfolding tl Let_def by blast
    have "nodes_of (mountains j) < msize k" by (rule mountains_nodes_bound [OF True])
    then have path: "locate_path r (Suc k) ?t = ?path @ [?st]"
      using p by (simp add: locate_path_Suc del: power_Suc)
    have "fold_path (leaf_of d) (?path @ [?st]) (sibs @ [rr]) = Inr x"
      using fold_path_append [OF S(2,3), of "[?st]" "[rr]"] x by (simp add: fold_path_def)
    moreover have "set (fold_queries (leaf_of d) (zip (?path @ [?st]) (sibs @ [rr])))
        \<subseteq> set (subtree_queries r (Suc k) ls lo hi bd ws c)"
      unfolding q fold_queries_append [OF S(2,3)] using S(5) by (auto simp: step_query_def)
    ultimately show ?thesis
      unfolding path Let_def using S(1,2,4) q by (intro conjI exI [of _ "sibs @ [rr]"]) auto
  next
    case False
    let ?j = "j - 2 ^ k"
    have j: "j = 2 ^ k + ?j" "?j < 2 ^ k" using False Suc.prems(5) by simp_all
    let ?path = "locate_path (r - 1) k ?t" and ?st = "\<lparr>sibling_pos = r - 2 ^ Suc k, target_is_right = True, parent_pos = r\<rparr>"
    have nn: "nodes_of (mountains j) = msize k + nodes_of (mountains ?j)"
      using mountains_add [OF j(2)] j(1) by simp
    then have tr: "?t = r - 1 - msize k + 1 + nodes_of (mountains ?j)" using p by simp
    have ij: "ls + 2 ^ k + int ?j = ls + int j" using False by (simp add: of_nat_diff)
    from Suc.IH [OF R, of ?j] Suc.prems(2-4) j(2) obtain sibs where
      S: "digest d" "length sibs = length ?path" "fold_path (leaf_of d) ?path sibs = Inr rr"
      "0 # d \<in> set (subtree_queries (r - 1) k (ls + 2 ^ k) lo hi bd ws c1)"
      "set (fold_queries (leaf_of d) (zip ?path sibs)) \<subseteq> set (subtree_queries (r - 1) k (ls + 2 ^ k) lo hi bd ws c1)"
      unfolding tr Let_def ij by blast
    have "nodes_of (mountains ?j) < msize k" by (rule mountains_nodes_bound [OF j(2)])
    then have path: "locate_path r (Suc k) ?t = ?path @ [?st]"
      using p nn nodes_of_nonneg [of "mountains ?j"] by (simp add: locate_path_Suc del: power_Suc)
    have "fold_path (leaf_of d) (?path @ [?st]) (sibs @ [l]) = Inr x"
      using fold_path_append [OF S(2,3), of "[?st]" "[l]"] x by (simp add: fold_path_def del: power_Suc)
    moreover have "set (fold_queries (leaf_of d) (zip (?path @ [?st]) (sibs @ [l])))
        \<subseteq> set (subtree_queries r (Suc k) ls lo hi bd ws c)"
      unfolding q fold_queries_append [OF S(2,3)] using S(5) by (auto simp: step_query_def)
    ultimately show ?thesis
      unfolding path Let_def using S(1,2,4) q by (intro conjI exI [of _ "sibs @ [l]"]) auto
  qed
qed

fun range_peaks_queries ::
  "int list \<Rightarrow> int \<Rightarrow> int \<Rightarrow> int \<Rightarrow> (int \<rightharpoonup> bytes) \<Rightarrow> bytes list \<Rightarrow> nat \<Rightarrow> bytes list" where
  "range_peaks_queries [] ls lo hi bd ws c = []"
| "range_peaks_queries (p # ps) ls lo hi bd ws c =
     (case bindR (height_at p) (\<lambda>h. bindR (reconstruct_range_subtree p h ls lo hi bd ws c) (\<lambda>(_, c1). Inr (h, c1))) of
        Inl _ \<Rightarrow> []
      | Inr (h, c1) \<Rightarrow> subtree_queries p h ls lo hi bd ws c @ range_peaks_queries ps (ls + 2 ^ h) lo hi bd ws c1)"

text \<open>Everything \<^verbatim>\<open>verify_range\<close> hashes: the rebuilt subtrees and the bagged peaks.\<close>

definition range_queries :: "int \<Rightarrow> int \<Rightarrow> bytes list \<Rightarrow> RangeProof \<Rightarrow> bytes list" where
  "range_queries s from_index ds pf =
     (let hi = from_index + int (length ds) - 1; bd = digest_by_index from_index ds in
      case bindR (peaks s) (\<lambda>pks. bindR (mapR parse_digest_hex (rp_witness pf)) (\<lambda>ws. Inr (pks, ws))) of
        Inl _ \<Rightarrow> []
      | Inr (pks, ws) \<Rightarrow>
          range_peaks_queries pks 0 from_index hi bd ws 0 @
          (case reconstruct_peaks_loop pks 0 from_index hi bd ws 0 of
             Inl _ \<Rightarrow> [] | Inr (xs, _) \<Rightarrow> bag_queries (rev xs)))"

lemma reconstruct_peaks_length:
  "reconstruct_peaks_loop ps ls lo hi bd ws c = Inr (xs, c') \<Longrightarrow> length xs = length ps"
  by (induction ps arbitrary: ls c xs c') (auto simp: bindR_eq_Inr split: prod.splits)

lemma reconstruct_peaks_nth:
  assumes "reconstruct_peaks_loop (peak_positions (nodes_of p0) (pre @ h # post)) (int (leaves_of p0)) lo hi bd ws c
      = Inr (xs, c')" "desc (p0 @ pre @ h # post)"
  shows "\<exists>c1 c2. reconstruct_range_subtree (nodes_of (p0 @ pre) + msize h - 1) h (int (leaves_of (p0 @ pre)))
        lo hi bd ws c1 = Inr (xs ! length pre, c2) \<and>
      set (subtree_queries (nodes_of (p0 @ pre) + msize h - 1) h (int (leaves_of (p0 @ pre))) lo hi bd ws c1)
        \<subseteq> set (range_peaks_queries (peak_positions (nodes_of p0) (pre @ h # post)) (int (leaves_of p0)) lo hi bd ws c)"
  using assms
proof (induction pre arbitrary: p0 c xs)
  case Nil
  have h: "height_at (nodes_of p0 + msize h - 1) = Inr h"
    using height_at_peak [of p0 h post] Nil.prems(2) by simp
  with Nil.prems(1) obtain x c1 where
    "reconstruct_range_subtree (nodes_of p0 + msize h - 1) h (int (leaves_of p0)) lo hi bd ws c = Inr (x, c1)"
    "xs ! 0 = x"
    by (auto simp: bindR_eq_Inr split: prod.splits)
  with h show ?case
    by (intro exI [of _ c] exI [of _ c1]) auto
next
  case (Cons g pre)
  have g: "height_at (nodes_of p0 + msize g - 1) = Inr g"
    using height_at_peak [of p0 g "pre @ h # post"] Cons.prems(2) by simp
  have p: "nodes_of (p0 @ [g]) = nodes_of p0 + msize g" "int (leaves_of (p0 @ [g])) = int (leaves_of p0) + 2 ^ g"
    by simp_all
  from Cons.prems(1) g obtain x c1 ys where a:
    "reconstruct_range_subtree (nodes_of p0 + msize g - 1) g (int (leaves_of p0)) lo hi bd ws c = Inr (x, c1)"
    "reconstruct_peaks_loop (peak_positions (nodes_of (p0 @ [g])) (pre @ h # post)) (int (leaves_of (p0 @ [g]))) lo hi bd ws c1
       = Inr (ys, c')" "xs = x # ys"
    unfolding p by (auto simp: bindR_eq_Inr split: prod.splits)
  from Cons.IH [OF a(2)] Cons.prems(2) show ?case
    using a(1,3) g by (auto simp: algebra_simps)
qed

lemma verify_rangeD:
  assumes "verify_range root s from_index to_index ds (Some pf)"
  obtains pks ws xs c where "0 \<le> from_index" "to_index = from_index + int (length ds) - 1" "peaks s = Inr pks"
    "reconstruct_peaks_loop pks 0 from_index to_index (digest_by_index from_index ds) ws 0 = Inr (xs, c)"
    "root_from_peaks xs = Inr root"
    "set (range_queries s from_index ds pf) =
       set (range_peaks_queries pks 0 from_index to_index (digest_by_index from_index ds) ws 0) \<union> set (bag_queries (rev xs))"
proof -
  have "verify_range_body root s from_index to_index ds (Some pf) = Inr True"
    using assms by (simp add: verify_range_def or_false_iff)
  then obtain pks ws xs c where r: "0 \<le> from_index" "int (length ds) = to_index - from_index + 1" "peaks s = Inr pks"
    "mapR parse_digest_hex (rp_witness pf) = Inr ws"
    "reconstruct_peaks_loop pks 0 from_index to_index (digest_by_index from_index ds) ws 0 = Inr (xs, c)"
    "root_from_peaks xs = Inr root"
    by (auto simp: verify_range_body_def bindR_eq_Inr split: if_splits prod.splits)
  have hi: "from_index + int (length ds) - 1 = to_index" using r(2) by simp
  then show thesis
    using that [OF r(1) hi [symmetric] r(3,5,6)] r(3-5) by (simp add: range_queries_def hi)
qed

lemma range_binds:
  assumes vr: "verify_range root s from_index to_index ds (Some pr)"
    and vi: "verify_inclusion root s i d (Some pf)" and i: "from_index \<le> i" "i \<le> to_index"
    and inj: "inj_on sha256 (set (range_queries s from_index ds pr) \<union> set (inclusion_queries s i d pf))"
  shows "ds ! nat (i - from_index) = d"
proof -
  obtain pks ws xs c where R: "0 \<le> from_index" "to_index = from_index + int (length ds) - 1" "peaks s = Inr pks"
    "reconstruct_peaks_loop pks 0 from_index to_index (digest_by_index from_index ds) ws 0 = Inr (xs, c)"
    "root_from_peaks xs = Inr root"
    "set (range_queries s from_index ds pr) =
       set (range_peaks_queries pks 0 from_index to_index (digest_by_index from_index ds) ws 0) \<union> set (bag_queries (rev xs))"
    using vr by (rule verify_rangeD)
  obtain t k path ws' ls rs x where A: "0 \<le> i" "\<exists>lc. leaf_count s = Inr lc \<and> i < lc"
    "leaf_index_to_pos i = Inr t" "peak_path t pks = Inr (k, path)"
    "length ws' = length path" "int (length ls) = k" "int (length rs) = int (length pks) - k - 1"
    "fold_path (leaf_of d) path ws' = Inr x" "root_from_peaks (ls @ [x] @ rs) = Inr root"
    "set (inclusion_queries s i d pf)
       = {0 # d} \<union> set (fold_queries (leaf_of d) (zip path ws')) \<union> set (bag_queries (rev (ls @ [x] @ rs)))"
    using vi R(3) by (elim verify_inclusionD) simp
  obtain m where m: "s = nodes_of (mountains m)" "pks = peak_positions 0 (mountains m)" "leaf_count s = Inr (int m)"
    using R(3) by (rule peaks_size)
  have im: "nat i < m" using A(1,2) m(3) by auto
  have t: "t = nodes_of (mountains (nat i))"
    using A(1,3) node_count_mountains [of "nat i"]
    by (auto simp: leaf_index_to_pos_def require_nonneg_int_def bindR_eq_Inr split: if_splits)
  obtain pre h post where D: "mountains m = pre @ h # post" "leaves_of pre \<le> nat i" "nat i < leaves_of pre + 2 ^ h"
    "t = nodes_of pre + nodes_of (mountains (nat i - leaves_of pre))"
    "find_containing_peak t (peak_positions 0 (mountains m)) = Inr (int (length pre))"
    unfolding t using leaf_located [OF im] by metis
  let ?r = "nodes_of pre + msize h - 1" and ?j = "nat i - leaves_of pre"
  have desc: "desc (pre @ h # post)" using desc_mountains [of m] D(1) by simp
  have k: "k = int (length pre)" "path = locate_path ?r h t"
    using A(4) D(1,5) m(2) peak_positions_nth [of 0 pre h post] height_at_peak [OF desc] by (auto simp: peak_path_def)
  obtain c1 c2 where S: "reconstruct_range_subtree ?r h (int (leaves_of pre)) from_index to_index (digest_by_index from_index ds) ws c1
      = Inr (xs ! length pre, c2)"
    "set (subtree_queries ?r h (int (leaves_of pre)) from_index to_index (digest_by_index from_index ds) ws c1)
       \<subseteq> set (range_queries s from_index ds pr)"
    using reconstruct_peaks_nth [of "[]" pre h post from_index to_index "digest_by_index from_index ds" ws 0 xs c] R(4) desc
    unfolding R(6) m(2) D(1) by auto
  have ij: "int (leaves_of pre) + int ?j = i" using D(2) A(1) by linarith
  have bd: "digest_by_index from_index ds (int (leaves_of pre) + int ?j) = Some (ds ! nat (i - from_index))"
    unfolding ij using i R(2) by (simp add: digest_by_index_def)
  have tt: "?r - msize h + 1 + nodes_of (mountains ?j) = t" using D(4) by simp
  have jh: "?j < 2 ^ h" using D(2,3) by linarith
  obtain sibs where F:
    "length sibs = length path" "fold_path (leaf_of (ds ! nat (i - from_index))) path sibs = Inr (xs ! length pre)"
    "0 # ds ! nat (i - from_index) \<in> set (range_queries s from_index ds pr)"
    "set (fold_queries (leaf_of (ds ! nat (i - from_index))) (zip path sibs)) \<subseteq> set (range_queries s from_index ds pr)"
    using reconstruct_fold [OF S(1) bd, unfolded tt ij Let_def k(2) [symmetric], OF i jh] S(2)
    by (elim conjE exE) (rule that, auto)
  have "ls @ [x] @ rs = xs"
    by (rule root_inject [OF A(9) R(5) _ inj_on_subset [OF inj]])
      (use A(6,7) reconstruct_peaks_length [OF R(4)] in \<open>auto simp: A(10) R(6)\<close>)
  then have "xs ! length pre = x" using A(6) k(1) by (auto simp: nth_append)
  then have "leaf_of (ds ! nat (i - from_index)) = leaf_of d"
    by (intro fold_inject [OF F(2) _ F(1) A(5) inj_on_subset [OF inj]]) (use A(8) F(4) in \<open>auto simp: A(10)\<close>)
  then have "sha256 (0 # ds ! nat (i - from_index)) = sha256 (0 # d)" by (simp add: leaf_of_def)
  then have "0 # ds ! nat (i - from_index) = 0 # d" by (rule inj_onD [OF inj]) (use F(3) in \<open>simp_all add: A(10)\<close>)
  then show ?thesis by simp
qed

section \<open>Properties\<close>

text \<open>A log of one record: its root is the leaf hash, its proofs are empty.\<close>

definition bare_inclusion :: InclusionProof where
  "bare_inclusion = \<lparr>ip_v = 1, ip_kind = ''inclusion'', ip_size = 1, ip_leaf_index = 0,
     ip_witness = [], ip_peaks_left = [], ip_peaks_right = []\<rparr>"

definition bare_range :: RangeProof where
  "bare_range = \<lparr>rp_v = 1, rp_kind = ''range'', rp_size = 1, rp_from_index = 0, rp_to_index = 0, rp_witness = []\<rparr>"

definition bare_consistency :: "bytes \<Rightarrow> ConsistencyProof" where
  "bare_consistency d = \<lparr>cp_v = 1, cp_kind = ''consistency'', cp_size_a = 1, cp_size_b = 1,
     cp_old_peaks = [to_hex (leaf_of d)], cp_witness = [[]], cp_new_peaks = [to_hex (leaf_of d)]\<rparr>"

lemma one_leaf:
  "mountains 1 = [0]" "peaks 1 = Inr [0]" "leaf_count 1 = Inr 1" "leaf_index_to_pos 0 = Inr 0"
  "height_at 0 = Inr 0"
proof -
  show m: "mountains 1 = [0]" using mountains_power [of 0] by simp
  then show "peaks 1 = Inr [0]" "leaf_count 1 = Inr 1"
    using peaks_at [of 1] leaf_count_at [of 1] by (simp_all add: msize_def MAX_MMR_SIZE_def)
  show "leaf_index_to_pos 0 = Inr 0" using leaf_index_pos [of 0] by (simp add: MAX_MMR_SIZE_def)
  show "height_at 0 = Inr 0" using height_at_start [of "[]"] by simp
qed

lemma bare_proofs:
  assumes "digest d"
  shows "verify_inclusion (leaf_of d) 1 0 d (Some bare_inclusion)"
    and "verify_range (leaf_of d) 1 0 0 [d] (Some bare_range)"
    and "verify_consistency (leaf_of d) 1 (leaf_of d) 1 (Some (bare_consistency d))"
    and "inclusion_queries 1 0 d bare_inclusion = [0 # d]"
    and "set (range_queries 1 0 [d] bare_range) = {0 # d}"
    and "consistency_queries 1 1 (bare_consistency d) = []"
proof -
  have f: "find_containing_peak 0 [0] = Inr 0" by (simp add: find_containing_peak_def one_leaf(5))
  have l: "digest (leaf_of d)" by (simp add: leaf_of_def)
  have r: "root_from_peaks [x] = Inr x" if "digest x" for x
    using that by (simp add: root_from_peaks_def assert_digest_def)
  note [simp] = one_leaf f l r assms
  show "verify_inclusion (leaf_of d) 1 0 d (Some bare_inclusion)"
    by (simp add: verify_inclusion_def verify_inclusion_body_def bare_inclusion_def MAX_MMR_SIZE_def fold_path_def assert_digest_def)
  show "verify_range (leaf_of d) 1 0 0 [d] (Some bare_range)"
    by (simp add: verify_range_def verify_range_body_def bare_range_def MAX_MMR_SIZE_def digest_by_index_def assert_digest_def)
  show "verify_consistency (leaf_of d) 1 (leaf_of d) 1 (Some (bare_consistency d))"
    by (simp add: verify_consistency_def verify_consistency_body_def bare_consistency_def fold_path_def assert_digest_def)
  show "inclusion_queries 1 0 d bare_inclusion = [0 # d]"
    by (simp add: inclusion_queries_def inclusion_parts_def peak_path_def bare_inclusion_def fold_path_def)
  show "set (range_queries 1 0 [d] bare_range) = {0 # d}"
    by (simp add: range_queries_def bare_range_def digest_by_index_def)
  show "consistency_queries 1 1 (bare_consistency d) = []"
    by (simp add: consistency_queries_def consistency_parts_def bare_consistency_def old_peak_queries_def peak_path_def)
qed

text \<open>
  C6. An inclusion proof binds its leaf: for one root, size and leaf index, any two proofs
  \<^verbatim>\<open>verify_inclusion\<close> accepts are for the same body digest, unless SHA-256 collides on what the
  two verifications hash.
\<close>

theorem inclusion_proof_binding:
  assumes "verify_inclusion root s i d (Some pf)" "verify_inclusion root s i d' (Some pf')"
    "inj_on sha256 (set (inclusion_queries s i d pf) \<union> set (inclusion_queries s i d' pf'))"
  shows "d = d'"
  using assms by (rule inclusion_binds)

theorem inclusion_proof_binding_witness:
  "verify_inclusion (leaf_of (replicate 32 7)) 1 0 (replicate 32 7) (Some bare_inclusion) \<and>
   inj_on sha256 (set (inclusion_queries 1 0 (replicate 32 7) bare_inclusion)) \<and> replicate 32 (7 :: byte) = replicate 32 7"
  using inclusion_proof_binding [of "leaf_of (replicate 32 7)" 1 0 "replicate 32 7" bare_inclusion "replicate 32 7" bare_inclusion]
  by (simp add: bare_proofs)

text \<open>
  C7. An append-only history is enforced: when \<^verbatim>\<open>verify_consistency\<close> accepts the step from the old
  root to the new root, every leaf the old root commits to is the leaf the new root commits to at
  the same index.
\<close>

theorem consistency_proof_binding:
  assumes "verify_inclusion root_a a i d (Some pa)" "verify_consistency root_a a root_b b (Some pc)"
    "verify_inclusion root_b b i d' (Some pb)"
    "inj_on sha256 (set (inclusion_queries a i d pa) \<union> set (consistency_queries a b pc) \<union>
       set (inclusion_queries b i d' pb))"
  shows "d = d'"
  using assms by (rule consistency_binds)

theorem consistency_proof_binding_witness:
  "verify_consistency (leaf_of (replicate 32 7)) 1 (leaf_of (replicate 32 7)) 1 (Some (bare_consistency (replicate 32 7))) \<and>
   replicate 32 (7 :: byte) = replicate 32 7"
  using consistency_proof_binding [of "leaf_of (replicate 32 7)" 1 0 "replicate 32 7" bare_inclusion
      "leaf_of (replicate 32 7)" 1 "bare_consistency (replicate 32 7)" "replicate 32 7" bare_inclusion]
  by (simp add: bare_proofs)

text \<open>
  A range proof binds every record of the range: when \<^verbatim>\<open>verify_range\<close> accepts a list of body
  digests, each of them is the digest that any accepted inclusion proof gives for that leaf, the
  interior of the range included.
\<close>

theorem range_proof_binding:
  assumes "verify_range root s from_index to_index ds (Some pr)" "verify_inclusion root s i d (Some pf)"
    "from_index \<le> i" "i \<le> to_index"
    "inj_on sha256 (set (range_queries s from_index ds pr) \<union> set (inclusion_queries s i d pf))"
  shows "ds ! nat (i - from_index) = d"
  using assms by (rule range_binds)

theorem range_proof_binding_witness:
  "verify_range (leaf_of (replicate 32 7)) 1 0 0 [replicate 32 7] (Some bare_range) \<and>
   [replicate 32 (7 :: byte)] ! nat (0 - 0) = replicate 32 7"
  using range_proof_binding [of "leaf_of (replicate 32 7)" 1 0 0 "[replicate 32 7]" bare_range 0 "replicate 32 7" bare_inclusion]
  by (simp add: bare_proofs)

end
