(* ===== verification/Log_Values.thy ===== *)
theory Log_Values
  imports Mmr_Positions
begin

text \<open>
  \<^verbatim>\<open>cll/log/__init__.py\<close> and the value rules of \<^verbatim>\<open>cll/log/engine.py\<close>: limits, the values of the
  backend contract (entries, checkpoint state, witness rows), their argument checks and their
  structural validation, each of which returns the normalised value or raises the error class it
  was given. Checks that a value has its declared Python type hold by typing.
\<close>

section \<open>Limits and identifiers\<close>

definition ENTRY_BYTES :: nat where "ENTRY_BYTES = 32"
definition MAX_WITNESSES :: int where "MAX_WITNESSES = 32"
definition MAX_CHECKPOINT_BYTES :: nat where "MAX_CHECKPOINT_BYTES = 65536"
definition MAX_JOURNAL_EVENT_BYTES :: nat where "MAX_JOURNAL_EVENT_BYTES = 4194304"
definition MAX_WITNESS_RESPONSE_BYTES :: nat where "MAX_WITNESS_RESPONSE_BYTES = 2097152"
definition MAX_IDENTIFIER_BYTES :: nat where "MAX_IDENTIFIER_BYTES = 191"
definition MAX_REASON_BYTES :: nat where "MAX_REASON_BYTES = 4096"
definition MAX_SCAN_LIMIT :: int where "MAX_SCAN_LIMIT = 1000"
definition MAX_PORTABLE_INTEGER :: int where "MAX_PORTABLE_INTEGER = 9007199254740991"
definition MAX_ATTEMPTS :: int where "MAX_ATTEMPTS = 4294967295"

lemmas limits = ENTRY_BYTES_def MAX_WITNESSES_def MAX_CHECKPOINT_BYTES_def MAX_JOURNAL_EVENT_BYTES_def
  MAX_WITNESS_RESPONSE_BYTES_def MAX_IDENTIFIER_BYTES_def MAX_REASON_BYTES_def MAX_SCAN_LIMIT_def
  MAX_PORTABLE_INTEGER_def MAX_ATTEMPTS_def

text \<open>
  A Python \<^verbatim>\<open>str\<close> is its list of code points, \<open>pytext\<close>; \<open>text_of\<close> turns a literal into one.
\<close>

type_synonym pytext = "nat list"

definition text_of :: "string \<Rightarrow> pytext" where
  "text_of s = map of_char s"

text \<open>The UTF-8 form of one code point, and of a text; \<open>None\<close> for a surrogate, which has none
  (and above U+10FFFF, where there is no code point).\<close>

definition utf8_char :: "nat \<Rightarrow> nat list option" where
  "utf8_char c =
     (if c < 128 then Some [c]
      else if c < 2048 then Some [192 + c div 64, 128 + c mod 64]
      else if 55296 \<le> c \<and> c < 57344 then None
      else if c < 65536 then Some [224 + c div 4096, 128 + c div 64 mod 64, 128 + c mod 64]
      else if 1114112 \<le> c then None
      else Some [240 + c div 262144, 128 + c div 4096 mod 64, 128 + c div 64 mod 64, 128 + c mod 64])"

fun utf8_encode :: "pytext \<Rightarrow> nat list option" where
  "utf8_encode [] = Some []"
| "utf8_encode (c # cs) =
     (case (utf8_char c, utf8_encode cs) of (Some a, Some b) \<Rightarrow> Some (a @ b) | _ \<Rightarrow> None)"

definition identifier_char :: "nat \<Rightarrow> bool" where
  "identifier_char n \<longleftrightarrow>
     (65 \<le> n \<and> n \<le> 90) \<or> (97 \<le> n \<and> n \<le> 122) \<or> (48 \<le> n \<and> n \<le> 57) \<or> n \<in> set (text_of ''._:/-'')"

definition validate_identifier :: "pytext \<Rightarrow> bool" where
  "validate_identifier v \<longleftrightarrow>
     v \<noteq> [] \<and> list_all identifier_char v \<and> length v \<le> MAX_IDENTIFIER_BYTES"

section \<open>Instants\<close>

text \<open>
  A \<^verbatim>\<open>datetime\<close>: without a time zone, or the instant it denotes in microseconds since
  0001-01-01T00:00:00Z. An instant outside years 1..9999 makes \<^verbatim>\<open>astimezone\<close> raise.
\<close>

datatype datetime = Naive | Aware int

definition MAX_MICROS :: int where "MAX_MICROS = 3652059 * 86400 * 1000000"

definition normalize_time :: "py_error \<Rightarrow> datetime \<Rightarrow> datetime res" where
  "normalize_time err v =
     (case v of
        Naive \<Rightarrow> Inl err
      | Aware t \<Rightarrow> if t < 0 \<or> MAX_MICROS \<le> t then Inl err else Inr (Aware (t div 1000 * 1000)))"

definition instant_le :: "datetime \<Rightarrow> datetime \<Rightarrow> bool" where
  "instant_le a b = (case (a, b) of (Aware s, Aware t) \<Rightarrow> s \<le> t | _ \<Rightarrow> False)"

lemma normalize_time_idem [simp]:
  "normalize_time e v = Inr w \<Longrightarrow> normalize_time e' w = Inr w"
  by (auto simp: normalize_time_def MAX_MICROS_def split: datetime.splits if_splits)

section \<open>Values\<close>

record Entry =
  en_seq :: int
  en_value :: bytes
  en_appended_at :: datetime

record AppendInput =
  ai_value :: bytes
  ai_appended_at :: datetime

datatype AppendOutcome = INSERTED | IDEMPOTENT

record AppendResult =
  ar_entry :: Entry
  ar_outcome :: AppendOutcome

record CheckpointState =
  cs_bytes :: bytes
  cs_size :: int
  cs_indexed_seq :: int
  cs_peaks :: "bytes list"

record WitnessReceipt =
  wr_bytes :: bytes
  wr_entry_hash :: "pytext option"
  wr_entry_hash_scheme :: "pytext option"
  wr_leaf_index :: "int option"
  wr_tree_size :: "int option"

record WitnessState =
  ws_witness_id :: pytext
  ws_checkpoint_size :: int
  ws_checkpoint :: bytes
  ws_attempts :: int
  ws_next_attempt_at :: datetime
  ws_receipt :: "WitnessReceipt option"
  ws_permanent :: bool
  ws_last_error :: "pytext option"

record CllState =
  cl_size :: int
  cl_nodes :: "bytes list"
  cl_indexed_seq :: int
  cl_first_pending_at :: "datetime option"
  cl_checkpoint :: "CheckpointState option"
  cl_witnesses :: "WitnessState list"

definition empty_cll_state :: CllState where
  "empty_cll_state = \<lparr>cl_size = 0, cl_nodes = [], cl_indexed_seq = 0, cl_first_pending_at = None,
     cl_checkpoint = None, cl_witnesses = []\<rparr>"

section \<open>Argument checks\<close>

definition width :: "bytes \<Rightarrow> nat \<Rightarrow> nat \<Rightarrow> bytes option" where
  "width value minimum maximum =
     (if minimum \<le> length value \<and> length value \<le> maximum then Some value else None)"

definition utf8_length :: "pytext \<Rightarrow> nat option" where
  "utf8_length v = map_option length (utf8_encode v)"

definition check_value :: "bytes \<Rightarrow> bytes res" where
  "check_value value =
     (case width value ENTRY_BYTES ENTRY_BYTES of None \<Rightarrow> Inl InvalidError | Some data \<Rightarrow> Inr data)"

definition check_append :: "AppendInput \<Rightarrow> (bytes \<times> datetime) res" where
  "check_append inp =
     bindR (check_value (ai_value inp)) (\<lambda>v.
     bindR (normalize_time InvalidError (ai_appended_at inp)) (\<lambda>t. Inr (v, t)))"

definition check_scan :: "int \<Rightarrow> int \<Rightarrow> unit res" where
  "check_scan after_seq limit =
     (if \<not> (0 \<le> after_seq \<and> after_seq \<le> MAX_PORTABLE_INTEGER) then Inl InvalidError
      else if \<not> (1 \<le> limit \<and> limit \<le> MAX_SCAN_LIMIT) then Inl InvalidError
      else Inr ())"

definition check_witness_key :: "pytext \<Rightarrow> int \<Rightarrow> unit res" where
  "check_witness_key witness_id checkpoint_size =
     (if \<not> validate_identifier witness_id \<or> \<not> (0 < checkpoint_size \<and> checkpoint_size < 2 ^ 64)
      then Inl InvalidError else Inr ())"

definition check_pending :: "datetime \<Rightarrow> int \<Rightarrow> datetime res" where
  "check_pending now limit =
     (if \<not> (1 \<le> limit \<and> limit \<le> MAX_WITNESSES) then Inl InvalidError
      else normalize_time InvalidError now)"

definition check_pending_for :: "pytext \<Rightarrow> datetime \<Rightarrow> int \<Rightarrow> datetime res" where
  "check_pending_for witness_id now limit =
     (if \<not> validate_identifier witness_id then Inl InvalidError else check_pending now limit)"

definition check_expected_attempts :: "int \<Rightarrow> unit res" where
  "check_expected_attempts n = (if \<not> (0 \<le> n \<and> n \<le> MAX_ATTEMPTS) then Inl InvalidError else Inr ())"

section \<open>Structural validation\<close>

text \<open>\<^verbatim>\<open>int.bit_length\<close>\<close>

fun bit_length :: "nat \<Rightarrow> nat" where
  "bit_length n = (if n = 0 then 0 else Suc (bit_length (n div 2)))"

declare bit_length.simps [simp del]

lemma bit_length_bounds: "0 < n \<Longrightarrow> 2 ^ (bit_length n - 1) \<le> n \<and> n < 2 ^ bit_length n \<and> 0 < bit_length n"
proof (induction n rule: bit_length.induct)
  case (1 n)
  show ?case
  proof (cases "n div 2 = 0")
    case True
    with 1 have "n = 1" by auto
    then show ?thesis by (simp add: bit_length.simps [of "Suc 0"] bit_length.simps [of 0])
  next
    case False
    with 1 have IH: "2 ^ (bit_length (n div 2) - 1) \<le> n div 2" "n div 2 < 2 ^ bit_length (n div 2)"
      "0 < bit_length (n div 2)" by auto
    then obtain k where k: "bit_length (n div 2) = Suc k" by (cases "bit_length (n div 2)") auto
    have "bit_length n = Suc (Suc k)" using 1 k by (simp add: bit_length.simps [of n])
    moreover have "2 * (n div 2) \<le> n" "n < 2 * (n div 2) + 2" by simp_all
    ultimately show ?thesis using IH k by simp
  qed
qed

function leaf_count_loop :: "int \<Rightarrow> nat option \<Rightarrow> int \<Rightarrow> int option" where
  "leaf_count_loop remaining previous leaves =
     (if remaining > 0 then
        let height = bit_length (nat (remaining + 1)) - 2 in
        if (case previous of None \<Rightarrow> False | Some p \<Rightarrow> height \<ge> p) then None
        else leaf_count_loop (remaining - (2 ^ (height + 1) - 1)) (Some height) (leaves + 2 ^ height)
      else Some leaves)"
  by pat_completeness auto
termination
proof (relation "measure (\<lambda>(remaining, previous, leaves). nat remaining)")
  fix remaining leaves :: int and previous :: "nat option" and height
  assume "0 < remaining"
  then show "((remaining - (2 ^ (height + 1) - 1), Some height, leaves + 2 ^ height), remaining, previous, leaves)
      \<in> measure (\<lambda>(remaining, previous, leaves). nat remaining)"
    using two_power_pos [of height] by simp
qed simp

declare leaf_count_loop.simps [simp del]

definition mmr_leaf_count :: "int \<Rightarrow> int option" where
  "mmr_leaf_count s = leaf_count_loop s None 0"

definition witness_key :: "WitnessState \<Rightarrow> pytext \<times> int" where
  "witness_key row = (ws_witness_id row, ws_checkpoint_size row)"

fun validate_entries_loop :: "py_error \<Rightarrow> int \<Rightarrow> bytes list \<Rightarrow> Entry list \<Rightarrow> unit res" where
  "validate_entries_loop err index seen [] = Inr ()"
| "validate_entries_loop err index seen (entry # rest) =
     (if en_seq entry \<noteq> index + 1 \<or> en_seq entry > MAX_PORTABLE_INTEGER
         \<or> width (en_value entry) ENTRY_BYTES ENTRY_BYTES = None then Inl err
      else bindR (normalize_time err (en_appended_at entry)) (\<lambda>_.
        if en_value entry \<in> set seen then Inl err
        else validate_entries_loop err (index + 1) (en_value entry # seen) rest))"

definition validate_entries :: "py_error \<Rightarrow> Entry list \<Rightarrow> unit res" where
  "validate_entries err entries = validate_entries_loop err 0 [] entries"

definition entry_hash_ok :: "pytext \<Rightarrow> bool" where
  "entry_hash_ok h \<longleftrightarrow> length h = 64 \<and> set h \<subseteq> set (text_of ''0123456789abcdef'')"

definition position_ok :: "int option \<Rightarrow> bool" where
  "position_ok p = (case p of None \<Rightarrow> True | Some n \<Rightarrow> 0 \<le> n \<and> n \<le> MAX_PORTABLE_INTEGER)"

definition validate_receipt :: "py_error \<Rightarrow> WitnessReceipt \<Rightarrow> WitnessReceipt res" where
  "validate_receipt err receipt =
     (case width (wr_bytes receipt) 1 MAX_WITNESS_RESPONSE_BYTES of
        None \<Rightarrow> Inl err
      | Some receipt_bytes \<Rightarrow>
          if (case wr_entry_hash receipt of None \<Rightarrow> False | Some h \<Rightarrow> \<not> entry_hash_ok h) then Inl err
          else if (case wr_entry_hash_scheme receipt of None \<Rightarrow> False | Some s \<Rightarrow> s \<noteq> text_of ''legacy'') then Inl err
          else if \<not> position_ok (wr_leaf_index receipt) \<or> \<not> position_ok (wr_tree_size receipt) then Inl err
          else Inr (receipt\<lparr>wr_bytes := receipt_bytes\<rparr>))"

definition validate_witness :: "py_error \<Rightarrow> WitnessState \<Rightarrow> WitnessState res" where
  "validate_witness err value =
     (case width (ws_checkpoint value) 1 MAX_CHECKPOINT_BYTES of
        None \<Rightarrow> Inl err
      | Some checkpoint \<Rightarrow>
          if \<not> validate_identifier (ws_witness_id value)
             \<or> \<not> (0 < ws_checkpoint_size value \<and> ws_checkpoint_size value < 2 ^ 64)
             \<or> \<not> (0 \<le> ws_attempts value \<and> ws_attempts value \<le> MAX_ATTEMPTS) then Inl err
          else if (case ws_last_error value of
                     None \<Rightarrow> False
                   | Some msg \<Rightarrow> (case utf8_length msg of None \<Rightarrow> True | Some n \<Rightarrow> n > MAX_REASON_BYTES))
          then Inl err
          else
            bindR (normalize_time err (ws_next_attempt_at value)) (\<lambda>next_attempt_at.
            bindR (case ws_receipt value of
                     None \<Rightarrow> Inr None
                   | Some r \<Rightarrow> bindR (validate_receipt err r) (\<lambda>r. Inr (Some r))) (\<lambda>receipt.
            Inr (value\<lparr>ws_checkpoint := checkpoint, ws_next_attempt_at := next_attempt_at,
                       ws_receipt := receipt\<rparr>))))"

definition validate_checkpoint :: "py_error \<Rightarrow> CllState \<Rightarrow> CheckpointState \<Rightarrow> CheckpointState res" where
  "validate_checkpoint err value checkpoint =
     (case width (cs_bytes checkpoint) 1 MAX_CHECKPOINT_BYTES of
        None \<Rightarrow> Inl err
      | Some data \<Rightarrow>
          if \<not> (0 < cs_size checkpoint \<and> cs_size checkpoint \<le> cl_size value)
             \<or> \<not> (0 \<le> cs_indexed_seq checkpoint \<and> cs_indexed_seq checkpoint \<le> cl_indexed_seq value) then Inl err
          else if \<exists>peak\<in>set (cs_peaks checkpoint). width peak ENTRY_BYTES ENTRY_BYTES = None then Inl err
          else Inr (checkpoint\<lparr>cs_bytes := data\<rparr>))"

fun validate_rows :: "py_error \<Rightarrow> (pytext \<times> int) list \<Rightarrow> WitnessState list \<Rightarrow> WitnessState list res" where
  "validate_rows err seen [] = Inr []"
| "validate_rows err seen (row # rows) =
     bindR (validate_witness err row) (\<lambda>row.
     if witness_key row \<in> set seen then Inl err
     else bindR (validate_rows err (witness_key row # seen) rows) (\<lambda>rows. Inr (row # rows)))"

definition validate_metadata ::
  "py_error \<Rightarrow> CllState \<Rightarrow> int \<Rightarrow> (datetime option \<times> CheckpointState option \<times> WitnessState list) res" where
  "validate_metadata err value nodes_n =
     (if cl_size value \<noteq> nodes_n then Inl err
      else if mmr_leaf_count (cl_size value) \<noteq> Some (cl_indexed_seq value) then Inl err
      else
        bindR (case cl_first_pending_at value of
                 None \<Rightarrow> Inr None
               | Some t \<Rightarrow> bindR (normalize_time err t) (\<lambda>t. Inr (Some t))) (\<lambda>first_pending_at.
        bindR (case cl_checkpoint value of
                 None \<Rightarrow> Inr None
               | Some c \<Rightarrow> bindR (validate_checkpoint err value c) (\<lambda>c. Inr (Some c))) (\<lambda>checkpoint.
        bindR (validate_rows err [] (cl_witnesses value)) (\<lambda>witnesses.
        Inr (first_pending_at, checkpoint, witnesses)))))"

definition check_nodes :: "py_error \<Rightarrow> bytes list \<Rightarrow> bytes list res" where
  "check_nodes err nodes =
     (if \<exists>n\<in>set nodes. width n ENTRY_BYTES ENTRY_BYTES = None then Inl err else Inr nodes)"

definition validate_state :: "py_error \<Rightarrow> CllState \<Rightarrow> CllState res" where
  "validate_state err value =
     bindR (validate_metadata err value (int (length (cl_nodes value)))) (\<lambda>(first_pending_at, checkpoint, witnesses).
     bindR (check_nodes err (cl_nodes value)) (\<lambda>nodes.
     Inr \<lparr>cl_size = cl_size value, cl_nodes = nodes, cl_indexed_seq = cl_indexed_seq value,
          cl_first_pending_at = first_pending_at, cl_checkpoint = checkpoint, cl_witnesses = witnesses\<rparr>))"

section \<open>The leaf count of the engine\<close>

lemma bit_length_mountain:
  assumes "msize h \<le> r" "r < msize (Suc h)"
  shows "bit_length (nat (r + 1)) - 2 = h"
proof -
  let ?n = "nat (r + 1)"
  have n: "2 ^ Suc h \<le> ?n" "?n < 2 ^ Suc (Suc h)"
    using assms by (simp_all add: msize_def nat_le_iff le_nat_iff nat_less_iff)
  have "0 < ?n" using n(1) by (metis gr0I le_zero_eq power_not_zero zero_neq_numeral)
  note b = bit_length_bounds [OF this]
  have "\<not> bit_length ?n \<le> Suc h"
  proof
    assume "bit_length ?n \<le> Suc h"
    then have "(2 :: nat) ^ bit_length ?n \<le> 2 ^ Suc h" by (intro power_increasing) auto
    with b n show False by linarith
  qed
  moreover have "\<not> Suc (Suc (Suc h)) \<le> bit_length ?n"
  proof
    assume "Suc (Suc (Suc h)) \<le> bit_length ?n"
    then have "(2 :: nat) ^ Suc (Suc h) \<le> 2 ^ (bit_length ?n - 1)" by (intro power_increasing) auto
    with b n show False by linarith
  qed
  ultimately show ?thesis by linarith
qed

lemma leaf_count_loop_complete:
  "desc hs \<Longrightarrow> below prev hs \<Longrightarrow> leaf_count_loop (nodes_of hs) prev acc = Some (acc + int (leaves_of hs))"
proof (induction hs arbitrary: prev acc)
  case Nil
  then show ?case by (simp add: leaf_count_loop.simps)
next
  case (Cons h hs)
  have "nodes_of hs \<le> msize h - 1"
    using Cons.prems(1) desc_nodes [of hs h] by auto
  then have b: "msize h \<le> nodes_of (h # hs)" "nodes_of (h # hs) < msize (Suc h)" "0 < nodes_of (h # hs)"
    using nodes_of_nonneg [of hs] msize_pos [of h] by (simp_all add: msize_Suc)
  have height: "bit_length (nat (nodes_of (h # hs) + 1)) - 2 = h" by (rule bit_length_mountain [OF b(1,2)])
  have "below (Some h) hs" "desc hs" using Cons.prems(1) by (simp_all add: below_def)
  from Cons.IH [OF this(2,1)] show ?case
    using b(3) height Cons.prems(2)
    by (subst leaf_count_loop.simps) (auto simp: Let_def below_def msize_def split: option.splits)
qed

lemma leaf_count_loop_sound:
  "leaf_count_loop r prev acc = Some n \<Longrightarrow> 0 \<le> r \<Longrightarrow>
     \<exists>hs. desc hs \<and> below prev hs \<and> r = nodes_of hs \<and> n = acc + int (leaves_of hs)"
proof (induction r prev acc rule: leaf_count_loop.induct)
  case (1 r prev acc)
  show ?case
  proof (cases "0 < r")
    case False
    with 1 show ?thesis
      by (intro exI [of _ "[]"]) (simp add: leaf_count_loop.simps below_def split: option.splits)
  next
    case True
    define h where "h = mountain_height r 0"
    have b: "msize h \<le> r" "r < msize (Suc h)"
      using mountain_height_bounds [of 0 r] True by (simp_all add: h_def)
    have height: "bit_length (nat (r + 1)) - 2 = h" by (rule bit_length_mountain [OF b])
    from "1.prems"(1) True height have c: "\<not> (case prev of None \<Rightarrow> False | Some p \<Rightarrow> p \<le> h)"
      "leaf_count_loop (r - msize h) (Some h) (acc + 2 ^ h) = Some n"
      by (auto simp: leaf_count_loop.simps [of r] Let_def msize_def split: if_splits)
    have "\<exists>hs. desc hs \<and> below (Some h) hs \<and> r - msize h = nodes_of hs \<and> n = acc + 2 ^ h + int (leaves_of hs)"
      using "1.IH" [OF True refl, unfolded height] c b(1) by (simp add: msize_def)
    then obtain hs where hs: "desc hs" "below (Some h) hs" "r - msize h = nodes_of hs" "n = acc + 2 ^ h + int (leaves_of hs)"
      by blast
    then show ?thesis
      using c(1) by (intro exI [of _ "h # hs"]) (auto simp: below_def split: option.splits)
  qed
qed

lemma mmr_leaf_count_iff:
  "0 \<le> s \<Longrightarrow> mmr_leaf_count s = Some n \<longleftrightarrow> 0 \<le> n \<and> node_count n = Inr s"
proof
  assume s: "0 \<le> s" and "mmr_leaf_count s = Some n"
  then obtain hs where "desc hs" "s = nodes_of hs" "n = int (leaves_of hs)"
    using leaf_count_loop_sound [of s None 0 n] by (auto simp: mmr_leaf_count_def)
  then show "0 \<le> n \<and> node_count n = Inr s"
    using node_count_mountains [of "leaves_of hs"] by (simp add: mountains_unique)
next
  assume a: "0 \<le> n \<and> node_count n = Inr s"
  then have "s = nodes_of (mountains (nat n))" using node_count_mountains [of "nat n"] by simp
  then show "mmr_leaf_count s = Some n"
    using a leaf_count_loop_complete [of "mountains (nat n)" None 0] desc_mountains [of "nat n"]
    by (simp add: mmr_leaf_count_def below_def)
qed

section \<open>Validation is idempotent\<close>

lemma width_eq_Some: "width v a b = Some w \<longleftrightarrow> w = v \<and> a \<le> length v \<and> length v \<le> b"
  by (auto simp: width_def)

lemma width_eq_None: "width v a b = None \<longleftrightarrow> \<not> (a \<le> length v \<and> length v \<le> b)"
  by (simp add: width_def)

lemma validate_receipt_idem:
  "validate_receipt e r = Inr r' \<Longrightarrow> validate_receipt e' r' = Inr r'"
  by (auto simp: validate_receipt_def width_def split: option.splits if_splits)

lemma validate_witness_idem:
  assumes "validate_witness e v = Inr w"
  shows "validate_witness e' w = Inr w"
proof -
  from assms obtain t r where w: "w = v\<lparr>ws_next_attempt_at := t, ws_receipt := r\<rparr>"
    "normalize_time e (ws_next_attempt_at v) = Inr t" "width (ws_checkpoint v) 1 MAX_CHECKPOINT_BYTES = Some (ws_checkpoint v)"
    "validate_identifier (ws_witness_id v)" "0 < ws_checkpoint_size v" "ws_checkpoint_size v < 2 ^ 64"
    "0 \<le> ws_attempts v" "ws_attempts v \<le> MAX_ATTEMPTS"
    "\<not> (case ws_last_error v of None \<Rightarrow> False
         | Some msg \<Rightarrow> (case utf8_length msg of None \<Rightarrow> True | Some n \<Rightarrow> n > MAX_REASON_BYTES))"
    "(case ws_receipt v of None \<Rightarrow> Inr None | Some r \<Rightarrow> bindR (validate_receipt e r) (\<lambda>r. Inr (Some r))) = Inr r"
    by (auto simp: validate_witness_def width_eq_Some bindR_eq_Inr split: option.splits if_splits)
  have "(case r of None \<Rightarrow> Inr None | Some r \<Rightarrow> bindR (validate_receipt e' r) (\<lambda>r. Inr (Some r))) = Inr r"
    using w(10) validate_receipt_idem [of e _ _ e'] by (auto simp: bindR_eq_Inr split: option.splits)
  then show ?thesis
    using w(3-9) normalize_time_idem [OF w(2), of e'] by (simp add: validate_witness_def w(1))
qed

lemma validate_rows_iff:
  "validate_rows e seen rows = Inr rs \<longleftrightarrow>
     mapR (validate_witness e) rows = Inr rs \<and> distinct (map witness_key rs) \<and> set (map witness_key rs) \<inter> set seen = {}"
proof (induction rows arbitrary: seen rs)
  case (Cons row rows)
  show ?case
  proof (cases "validate_witness e row")
    case (Inr r)
    show ?thesis
      by (cases rs) (auto simp: Inr bindR_eq_Inr Cons.IH simp del: split_paired_All split_paired_Ex)
  qed simp
qed auto

definition witness_ok :: "WitnessState \<Rightarrow> bool" where
  "witness_ok w \<longleftrightarrow> validate_witness CorruptError w = Inr w"

lemma witness_okI: "validate_witness e v = Inr w \<Longrightarrow> witness_ok w"
  by (simp add: witness_ok_def validate_witness_idem)

lemma witness_okD: "witness_ok w \<Longrightarrow> validate_witness e w = Inr w"
  by (simp add: witness_ok_def validate_witness_idem)

text \<open>What a validated state is: every part normalised and within the contract.\<close>

definition checkpoint_ok :: "CllState \<Rightarrow> bool" where
  "checkpoint_ok s \<longleftrightarrow>
     (case cl_checkpoint s of None \<Rightarrow> True
      | Some c \<Rightarrow> 1 \<le> length (cs_bytes c) \<and> length (cs_bytes c) \<le> MAX_CHECKPOINT_BYTES \<and>
          0 < cs_size c \<and> cs_size c \<le> cl_size s \<and> 0 \<le> cs_indexed_seq c \<and> cs_indexed_seq c \<le> cl_indexed_seq s \<and>
          (\<forall>p\<in>set (cs_peaks c). length p = 32))"

definition state_ok :: "CllState \<Rightarrow> bool" where
  "state_ok s \<longleftrightarrow>
     cl_size s = int (length (cl_nodes s)) \<and> mmr_leaf_count (cl_size s) = Some (cl_indexed_seq s) \<and>
     (\<forall>n\<in>set (cl_nodes s). length n = 32) \<and>
     (case cl_first_pending_at s of None \<Rightarrow> True | Some t \<Rightarrow> normalize_time CorruptError t = Inr t) \<and>
     checkpoint_ok s \<and> (\<forall>w\<in>set (cl_witnesses s). witness_ok w) \<and> distinct (map witness_key (cl_witnesses s))"

lemma mapR_id: "(\<forall>x\<in>set xs. f x = Inr x) \<Longrightarrow> mapR f xs = Inr xs"
  by (induction xs) auto

lemma mapR_set: "mapR f xs = Inr ys \<Longrightarrow> y \<in> set ys \<Longrightarrow> \<exists>x\<in>set xs. f x = Inr y"
  by (fastforce simp: mapR_eq_Inr list_all2_conv_all_nth in_set_conv_nth)

lemma validate_metadata_fields:
  assumes "validate_metadata e v n = Inr (t, c, ws)"
  shows "cl_size v = n" "mmr_leaf_count (cl_size v) = Some (cl_indexed_seq v)" "c = cl_checkpoint v"
    "checkpoint_ok v" "case t of None \<Rightarrow> True | Some t \<Rightarrow> normalize_time CorruptError t = Inr t"
    "\<forall>w\<in>set ws. witness_ok w" "distinct (map witness_key ws)"
proof -
  from assms have a: "cl_size v = n" "mmr_leaf_count (cl_size v) = Some (cl_indexed_seq v)"
    "(case cl_first_pending_at v of None \<Rightarrow> Inr None | Some t \<Rightarrow> bindR (normalize_time e t) (\<lambda>t. Inr (Some t))) = Inr t"
    "(case cl_checkpoint v of None \<Rightarrow> Inr None | Some c \<Rightarrow> bindR (validate_checkpoint e v c) (\<lambda>c. Inr (Some c))) = Inr c"
    "validate_rows e [] (cl_witnesses v) = Inr ws"
    by (auto simp: validate_metadata_def bindR_eq_Inr split: if_splits)
  show "cl_size v = n" "mmr_leaf_count (cl_size v) = Some (cl_indexed_seq v)" by (rule a(1), rule a(2))
  show "c = cl_checkpoint v" "checkpoint_ok v"
    using a(4) by (auto simp: bindR_eq_Inr validate_checkpoint_def checkpoint_ok_def width_def ENTRY_BYTES_def
        split: option.splits if_splits)
  show "case t of None \<Rightarrow> True | Some t \<Rightarrow> normalize_time CorruptError t = Inr t"
    using a(3) by (auto simp: bindR_eq_Inr split: option.splits)
  show "\<forall>w\<in>set ws. witness_ok w" "distinct (map witness_key ws)"
    using a(5) by (auto simp: validate_rows_iff dest!: mapR_set intro: witness_okI)
qed

lemma check_nodes_iff: "check_nodes e ns = Inr ms \<longleftrightarrow> ms = ns \<and> (\<forall>n\<in>set ns. length n = 32)"
  by (force simp: check_nodes_def width_eq_None ENTRY_BYTES_def)

lemma validate_state_ok:
  assumes "validate_state e v = Inr w"
  shows "state_ok w" "cl_size w = cl_size v" "cl_nodes w = cl_nodes v" "cl_indexed_seq w = cl_indexed_seq v"
    "cl_checkpoint w = cl_checkpoint v"
proof -
  from assms obtain t c ws where m: "validate_metadata e v (int (length (cl_nodes v))) = Inr (t, c, ws)"
    "\<forall>n\<in>set (cl_nodes v). length n = 32"
    and w: "w = \<lparr>cl_size = cl_size v, cl_nodes = cl_nodes v, cl_indexed_seq = cl_indexed_seq v,
      cl_first_pending_at = t, cl_checkpoint = c, cl_witnesses = ws\<rparr>"
    by (auto simp: validate_state_def bindR_eq_Inr check_nodes_iff)
  note f = validate_metadata_fields [OF m(1)]
  have "checkpoint_ok w" using f(3,4) unfolding checkpoint_ok_def w by (simp split: option.splits)
  then show "state_ok w" using f m(2) by (simp add: state_ok_def w)
  show "cl_size w = cl_size v" "cl_nodes w = cl_nodes v" "cl_indexed_seq w = cl_indexed_seq v"
    "cl_checkpoint w = cl_checkpoint v"
    using f(3) by (simp_all add: w)
qed

lemma validate_state_id:
  assumes "state_ok s"
  shows "validate_state e s = Inr s"
proof -
  have "validate_rows e [] (cl_witnesses s) = Inr (cl_witnesses s)"
    using assms by (auto simp: validate_rows_iff state_ok_def witness_okD intro!: mapR_id)
  moreover have "(case cl_first_pending_at s of None \<Rightarrow> Inr None | Some t \<Rightarrow> bindR (normalize_time e t) (\<lambda>t. Inr (Some t)))
      = Inr (cl_first_pending_at s)"
    using assms normalize_time_idem [of CorruptError _ _ e] by (auto simp: state_ok_def split: option.splits)
  moreover have "(case cl_checkpoint s of None \<Rightarrow> Inr None | Some c \<Rightarrow> bindR (validate_checkpoint e s c) (\<lambda>c. Inr (Some c)))
      = Inr (cl_checkpoint s)"
    using assms by (auto simp: state_ok_def checkpoint_ok_def validate_checkpoint_def width_def ENTRY_BYTES_def split: option.splits)
  moreover have "mmr_leaf_count (int (length (cl_nodes s))) = Some (cl_indexed_seq s)"
    using assms unfolding state_ok_def by metis
  moreover have "check_nodes e (cl_nodes s) = Inr (cl_nodes s)"
    using assms by (simp add: check_nodes_iff state_ok_def)
  ultimately show ?thesis
    using assms by (simp add: validate_state_def validate_metadata_def state_ok_def)
qed

end
