(* ===== verification/Log_Engine.thy ===== *)
theory Log_Engine
  imports Log_Values "HOL-Library.Product_Lexorder" "HOL-Library.List_Lexorder"
begin

text \<open>
  \<^verbatim>\<open>cll/log/engine.py\<close>: the transition engine every backend applies. \<open>apply_cll\<close>,
  \<open>apply_cll_delta\<close> and \<open>apply_witness\<close> are the compare-and-set rules; the record \<open>Engine\<close> is the
  in-memory representation (entries, the index by value, the checkpoint state), one definition
  per method. A method that raises leaves the engine unchanged, so it returns the error alone.
\<close>

section \<open>Checkpoint state transitions\<close>

definition same_expected :: "CheckpointState option \<Rightarrow> bytes option \<Rightarrow> bool" where
  "same_expected checkpoint expected =
     (case checkpoint of
        None \<Rightarrow> expected = None
      | Some c \<Rightarrow> (case expected of None \<Rightarrow> False | Some b \<Rightarrow> cs_bytes c = b))"

definition check_expected :: "CllState \<Rightarrow> int \<Rightarrow> bytes option \<Rightarrow> unit res" where
  "check_expected current expected_size expected_checkpoint =
     (if cl_size current \<noteq> expected_size \<or> \<not> same_expected (cl_checkpoint current) expected_checkpoint
      then Inl ContentionError else Inr ())"

text \<open>The dictionary \<^verbatim>\<open>existing\<close>: a later row with the same key replaces an earlier one.\<close>

definition existing_rows :: "WitnessState list \<Rightarrow> (pytext \<times> int) \<rightharpoonup> WitnessState" where
  "existing_rows rows = map_of (rev (map (\<lambda>row. (witness_key row, row)) rows))"

fun added_loop :: "((pytext \<times> int) \<rightharpoonup> WitnessState) \<Rightarrow> WitnessState list \<Rightarrow> WitnessState list res" where
  "added_loop existing [] = Inr []"
| "added_loop existing (row # rows) =
     (case existing (witness_key row) of
        Some stored \<Rightarrow>
          if ws_checkpoint stored \<noteq> ws_checkpoint row then Inl ContentionError
          else added_loop existing rows
      | None \<Rightarrow> bindR (added_loop existing rows) (\<lambda>added. Inr (row # added)))"

definition added_witnesses :: "CllState \<Rightarrow> CllState \<Rightarrow> WitnessState list res" where
  "added_witnesses current nxt =
     (if cl_indexed_seq nxt < cl_indexed_seq current then Inl InvalidError
      else
        bindR (case (cl_checkpoint current, cl_checkpoint nxt) of
            (Some old, None) \<Rightarrow> Inl ContentionError
          | (Some old, Some new) \<Rightarrow>
              if cs_size new < cs_size old \<or> cs_indexed_seq new < cs_indexed_seq old then Inl ContentionError
              else if cs_size new = cs_size old \<and>
                 (cs_bytes new \<noteq> cs_bytes old \<or> cs_indexed_seq new \<noteq> cs_indexed_seq old \<or> cs_peaks new \<noteq> cs_peaks old)
              then Inl ContentionError
              else Inr ()
          | _ \<Rightarrow> Inr ())
        (\<lambda>_. added_loop (existing_rows (cl_witnesses current)) (cl_witnesses nxt)))"

definition apply_cll :: "CllState \<Rightarrow> int \<Rightarrow> bytes option \<Rightarrow> CllState \<Rightarrow> CllState res" where
  "apply_cll current expected_size expected_checkpoint nxt =
     bindR (check_expected current expected_size expected_checkpoint) (\<lambda>_.
     bindR (validate_state InvalidError nxt) (\<lambda>nxt.
     if cl_size nxt < cl_size current \<or> cl_indexed_seq nxt < cl_indexed_seq current
        \<or> take (length (cl_nodes current)) (cl_nodes nxt) \<noteq> cl_nodes current
     then Inl InvalidError
     else
       bindR (added_witnesses current nxt) (\<lambda>added.
       Inr \<lparr>cl_size = cl_size nxt, cl_nodes = cl_nodes nxt, cl_indexed_seq = cl_indexed_seq nxt,
            cl_first_pending_at = cl_first_pending_at nxt, cl_checkpoint = cl_checkpoint nxt,
            cl_witnesses = cl_witnesses current @ added\<rparr>)))"

definition apply_cll_delta :: "CllState \<Rightarrow> int \<Rightarrow> bytes option \<Rightarrow> CllState \<Rightarrow> CllState res" where
  "apply_cll_delta current expected_size expected_checkpoint delta =
     bindR (check_expected current expected_size expected_checkpoint) (\<lambda>_.
     bindR (check_nodes InvalidError (cl_nodes delta)) (\<lambda>nodes.
     if cl_size delta \<noteq> cl_size current + int (length nodes) then Inl InvalidError
     else
       bindR (validate_metadata InvalidError delta (cl_size delta)) (\<lambda>(first_pending_at, checkpoint, witnesses).
       let normalized = \<lparr>cl_size = cl_size delta, cl_nodes = nodes, cl_indexed_seq = cl_indexed_seq delta,
             cl_first_pending_at = first_pending_at, cl_checkpoint = checkpoint, cl_witnesses = witnesses\<rparr> in
       bindR (added_witnesses current normalized) (\<lambda>added.
       Inr \<lparr>cl_size = cl_size delta, cl_nodes = cl_nodes current @ nodes, cl_indexed_seq = cl_indexed_seq delta,
            cl_first_pending_at = first_pending_at, cl_checkpoint = checkpoint,
            cl_witnesses = cl_witnesses current @ added\<rparr>))))"

section \<open>Witness transitions\<close>

fun find_witness :: "WitnessState list \<Rightarrow> nat \<Rightarrow> int \<Rightarrow> WitnessState \<Rightarrow> (nat \<times> WitnessState) res" where
  "find_witness [] index expected_attempts nxt = Inl ContentionError"
| "find_witness (row # rows) index expected_attempts nxt =
     (if witness_key row \<noteq> witness_key nxt then find_witness rows (index + 1) expected_attempts nxt
      else if ws_attempts row \<noteq> expected_attempts then Inl ContentionError
      else if ws_checkpoint row \<noteq> ws_checkpoint nxt then Inl ContentionError
      else Inr (index, nxt))"

definition apply_witness :: "WitnessState list \<Rightarrow> int \<Rightarrow> WitnessState \<Rightarrow> (nat \<times> WitnessState) res" where
  "apply_witness rows expected_attempts nxt =
     bindR (validate_witness InvalidError nxt) (\<lambda>nxt.
     bindR (check_expected_attempts expected_attempts) (\<lambda>_.
     find_witness rows 0 expected_attempts nxt))"

definition due :: "datetime \<Rightarrow> pytext option \<Rightarrow> WitnessState \<Rightarrow> bool" where
  "due now witness_id row \<longleftrightarrow>
     ws_receipt row = None \<and> \<not> ws_permanent row \<and> instant_le (ws_next_attempt_at row) now \<and>
     (case witness_id of None \<Rightarrow> True | Some w \<Rightarrow> ws_witness_id row = w)"

text \<open>Stored identifiers are ASCII, so their UTF-8 form exists.\<close>

definition pending_key :: "WitnessState \<Rightarrow> int \<times> nat list" where
  "pending_key row = (ws_checkpoint_size row, the (utf8_encode (ws_witness_id row)))"

definition pending :: "WitnessState list \<Rightarrow> datetime \<Rightarrow> int \<Rightarrow> pytext option \<Rightarrow> WitnessState list" where
  "pending rows now limit witness_id =
     take (nat limit) (sort_key pending_key (filter (due now witness_id) rows))"

section \<open>The engine\<close>

record Engine =
  eg_entries :: "Entry list"
  eg_by_value :: "bytes \<rightharpoonup> nat"
  eg_state :: CllState

definition new_engine :: Engine where
  "new_engine = \<lparr>eg_entries = [], eg_by_value = Map.empty, eg_state = empty_cll_state\<rparr>"

definition eg_snapshot :: "Engine \<Rightarrow> nat \<times> CllState" where
  "eg_snapshot e = (length (eg_entries e), eg_state e)"

definition eg_restore :: "Engine \<Rightarrow> nat \<times> CllState \<Rightarrow> Engine" where
  "eg_restore e snapshot =
     (case snapshot of (count, state) \<Rightarrow>
        \<lparr>eg_entries = take count (eg_entries e),
         eg_by_value = fold (\<lambda>entry m. m(en_value entry := None)) (drop count (eg_entries e)) (eg_by_value e),
         eg_state = state\<rparr>)"

definition eg_append :: "Engine \<Rightarrow> AppendInput \<Rightarrow> (AppendResult \<times> Engine) res" where
  "eg_append e inp =
     bindR (check_append inp) (\<lambda>(v, appended_at).
     case eg_by_value e v of
       Some index \<Rightarrow> Inr (\<lparr>ar_entry = eg_entries e ! index, ar_outcome = IDEMPOTENT\<rparr>, e)
     | None \<Rightarrow>
         let seq = int (length (eg_entries e)) + 1 in
         if seq > MAX_PORTABLE_INTEGER then Inl InvalidError
         else
           let entry = \<lparr>en_seq = seq, en_value = v, en_appended_at = appended_at\<rparr> in
           Inr (\<lparr>ar_entry = entry, ar_outcome = INSERTED\<rparr>,
                e\<lparr>eg_entries := eg_entries e @ [entry],
                  eg_by_value := (eg_by_value e)(v \<mapsto> length (eg_entries e))\<rparr>))"

text \<open>A failing \<^verbatim>\<open>replay_entry\<close> may have appended before it raises; every caller then discards the
  engine, so only the error is kept.\<close>

definition eg_replay_entry :: "Engine \<Rightarrow> Entry \<Rightarrow> Engine res" where
  "eg_replay_entry e entry =
     (case eg_append e \<lparr>ai_value = en_value entry, ai_appended_at = en_appended_at entry\<rparr> of
        Inl _ \<Rightarrow> Inl CorruptError
      | Inr (result, e') \<Rightarrow>
          if ar_outcome result \<noteq> INSERTED \<or> en_seq (ar_entry result) \<noteq> en_seq entry
             \<or> en_appended_at (ar_entry result) \<noteq> en_appended_at entry
          then Inl CorruptError else Inr e')"

definition eg_get_entry :: "Engine \<Rightarrow> bytes \<Rightarrow> Entry res" where
  "eg_get_entry e v =
     bindR (check_value v) (\<lambda>v.
     case eg_by_value e v of None \<Rightarrow> Inl NotFoundError | Some index \<Rightarrow> Inr (eg_entries e ! index))"

definition eg_scan_entries :: "Engine \<Rightarrow> int \<Rightarrow> int \<Rightarrow> Entry list res" where
  "eg_scan_entries e after_seq limit =
     bindR (check_scan after_seq limit) (\<lambda>_.
     Inr (take (nat limit) (drop (nat after_seq) (eg_entries e))))"

definition eg_commit_cll :: "Engine \<Rightarrow> int \<Rightarrow> bytes option \<Rightarrow> CllState \<Rightarrow> Engine res" where
  "eg_commit_cll e expected_size expected_checkpoint nxt =
     bindR (apply_cll (eg_state e) expected_size expected_checkpoint nxt) (\<lambda>s. Inr (e\<lparr>eg_state := s\<rparr>))"

definition eg_commit_cll_delta :: "Engine \<Rightarrow> int \<Rightarrow> bytes option \<Rightarrow> CllState \<Rightarrow> Engine res" where
  "eg_commit_cll_delta e expected_size expected_checkpoint delta =
     bindR (apply_cll_delta (eg_state e) expected_size expected_checkpoint delta) (\<lambda>s. Inr (e\<lparr>eg_state := s\<rparr>))"

definition delta_of :: "CllState \<Rightarrow> CllState \<Rightarrow> CllState" where
  "delta_of before current =
     \<lparr>cl_size = cl_size current, cl_nodes = drop (length (cl_nodes before)) (cl_nodes current),
      cl_indexed_seq = cl_indexed_seq current, cl_first_pending_at = cl_first_pending_at current,
      cl_checkpoint = cl_checkpoint current,
      cl_witnesses = filter (\<lambda>row. witness_key row \<notin> set (map witness_key (cl_witnesses before)))
        (cl_witnesses current)\<rparr>"

definition eg_delta_since :: "Engine \<Rightarrow> nat \<times> CllState \<Rightarrow> CllState" where
  "eg_delta_since e snapshot = delta_of (snd snapshot) (eg_state e)"

definition eg_pending_witnesses :: "Engine \<Rightarrow> datetime \<Rightarrow> int \<Rightarrow> WitnessState list res" where
  "eg_pending_witnesses e now limit =
     bindR (check_pending now limit) (\<lambda>now. Inr (pending (cl_witnesses (eg_state e)) now limit None))"

definition eg_pending_witnesses_for :: "Engine \<Rightarrow> pytext \<Rightarrow> datetime \<Rightarrow> int \<Rightarrow> WitnessState list res" where
  "eg_pending_witnesses_for e witness_id now limit =
     bindR (check_pending_for witness_id now limit) (\<lambda>now.
     Inr (pending (cl_witnesses (eg_state e)) now limit (Some witness_id)))"

definition eg_get_witness :: "Engine \<Rightarrow> pytext \<Rightarrow> int \<Rightarrow> WitnessState option res" where
  "eg_get_witness e witness_id checkpoint_size =
     bindR (check_witness_key witness_id checkpoint_size) (\<lambda>_.
     Inr (List.find (\<lambda>row. ws_witness_id row = witness_id \<and> ws_checkpoint_size row = checkpoint_size)
            (cl_witnesses (eg_state e))))"

definition eg_commit_witness :: "Engine \<Rightarrow> int \<Rightarrow> WitnessState \<Rightarrow> Engine res" where
  "eg_commit_witness e expected_attempts nxt =
     bindR (apply_witness (cl_witnesses (eg_state e)) expected_attempts nxt) (\<lambda>(index, row).
     Inr (e\<lparr>eg_state := (eg_state e)\<lparr>cl_witnesses := (cl_witnesses (eg_state e))[index := row]\<rparr>\<rparr>))"

section \<open>The order on checkpoint states\<close>

definition checkpoint_le :: "CheckpointState option \<Rightarrow> CheckpointState option \<Rightarrow> bool" where
  "checkpoint_le old new =
     (case (old, new) of
        (None, _) \<Rightarrow> True
      | (Some o1, None) \<Rightarrow> False
      | (Some o1, Some n1) \<Rightarrow> cs_size o1 \<le> cs_size n1 \<and> cs_indexed_seq o1 \<le> cs_indexed_seq n1 \<and>
          (cs_size n1 = cs_size o1 \<longrightarrow> n1 = o1))"

text \<open>Nodes and entries are only appended, the checkpoint only moves forward, and every witness
  row stays with the checkpoint it is for.\<close>

definition rows_kept :: "WitnessState list \<Rightarrow> WitnessState list \<Rightarrow> bool" where
  "rows_kept rows rows' \<longleftrightarrow>
     (\<forall>w\<in>set rows. \<exists>w'\<in>set rows'. witness_key w' = witness_key w \<and> ws_checkpoint w' = ws_checkpoint w)"

definition cll_le :: "CllState \<Rightarrow> CllState \<Rightarrow> bool" where
  "cll_le s t \<longleftrightarrow>
     (\<exists>new. cl_nodes t = cl_nodes s @ new) \<and> cl_indexed_seq s \<le> cl_indexed_seq t \<and>
     checkpoint_le (cl_checkpoint s) (cl_checkpoint t) \<and> rows_kept (cl_witnesses s) (cl_witnesses t)"

lemma checkpoint_le_refl [simp]: "checkpoint_le c c"
  by (auto simp: checkpoint_le_def split: option.splits)

lemma checkpoint_le_trans: "checkpoint_le a b \<Longrightarrow> checkpoint_le b c \<Longrightarrow> checkpoint_le a c"
  by (auto simp: checkpoint_le_def split: option.splits)

lemma rows_kept_append [simp]: "rows_kept rows (rows @ added)"
  by (auto simp: rows_kept_def)

lemma rows_kept_refl [simp]: "rows_kept rows rows"
  by (auto simp: rows_kept_def)

lemma rows_kept_trans: "rows_kept a b \<Longrightarrow> rows_kept b c \<Longrightarrow> rows_kept a c"
  unfolding rows_kept_def by (metis (full_types))

lemma cll_le_refl [simp]: "cll_le s s"
  by (simp add: cll_le_def)

lemma cll_le_trans: "cll_le a b \<Longrightarrow> cll_le b c \<Longrightarrow> cll_le a c"
  unfolding cll_le_def by (auto intro: checkpoint_le_trans rows_kept_trans)

section \<open>Correctness of the transitions\<close>

lemma existing_rows_None: "existing_rows rows k = None \<longleftrightarrow> k \<notin> set (map witness_key rows)"
  by (simp add: existing_rows_def map_of_eq_None_iff rev_map [symmetric] image_image o_def)

lemma added_loop_iff:
  "added_loop ex rows = Inr added \<longleftrightarrow>
     (\<forall>r\<in>set rows. \<forall>st. ex (witness_key r) = Some st \<longrightarrow> ws_checkpoint st = ws_checkpoint r) \<and>
     added = filter (\<lambda>r. ex (witness_key r) = None) rows"
proof (induction rows arbitrary: added)
  case (Cons r rows)
  show ?case
  proof (cases "ex (witness_key r)")
    case None
    then show ?thesis by (auto simp: bindR_eq_Inr Cons.IH)
  next
    case (Some st)
    then show ?thesis by (auto simp: Cons.IH)
  qed
qed auto

lemma added_witnesses_iff:
  "added_witnesses cur nxt = Inr added \<longleftrightarrow>
     cl_indexed_seq cur \<le> cl_indexed_seq nxt \<and> checkpoint_le (cl_checkpoint cur) (cl_checkpoint nxt) \<and>
     added_loop (existing_rows (cl_witnesses cur)) (cl_witnesses nxt) = Inr added"
proof (cases "cl_checkpoint cur")
  case None
  then show ?thesis by (auto simp: added_witnesses_def checkpoint_le_def)
next
  case o1: (Some old)
  show ?thesis
  proof (cases "cl_checkpoint nxt")
    case None
    with o1 show ?thesis by (auto simp: added_witnesses_def checkpoint_le_def)
  next
    case n1: (Some new)
    have "new = old \<longleftrightarrow> cs_size new = cs_size old \<and> cs_bytes new = cs_bytes old \<and>
        cs_indexed_seq new = cs_indexed_seq old \<and> cs_peaks new = cs_peaks old"
      by (cases new, cases old) auto
    with o1 n1 show ?thesis by (auto simp: added_witnesses_def checkpoint_le_def)
  qed
qed

lemma added_rows:
  assumes "added_witnesses cur nxt = Inr added"
  shows "added = filter (\<lambda>r. witness_key r \<notin> set (map witness_key (cl_witnesses cur))) (cl_witnesses nxt)"
    and "set added \<subseteq> set (cl_witnesses nxt)"
    and "set (map witness_key added) \<inter> set (map witness_key (cl_witnesses cur)) = {}"
    and "distinct (map witness_key (cl_witnesses nxt)) \<Longrightarrow> distinct (map witness_key added)"
proof -
  show eq: "added = filter (\<lambda>r. witness_key r \<notin> set (map witness_key (cl_witnesses cur))) (cl_witnesses nxt)"
    using assms by (auto simp: added_witnesses_iff added_loop_iff existing_rows_None)
  show "set added \<subseteq> set (cl_witnesses nxt)" "set (map witness_key added) \<inter> set (map witness_key (cl_witnesses cur)) = {}"
    unfolding eq set_map set_filter by blast+
  show "distinct (map witness_key added)" if "distinct (map witness_key (cl_witnesses nxt))"
    using that unfolding eq by (rule distinct_map_filter)
qed

lemma checkpoint_ok_cong:
  "cl_checkpoint s = cl_checkpoint t \<Longrightarrow> cl_size s = cl_size t \<Longrightarrow> cl_indexed_seq s = cl_indexed_seq t \<Longrightarrow>
     checkpoint_ok s = checkpoint_ok t"
  by (auto simp: checkpoint_ok_def split: option.splits)

lemma apply_cll_ok:
  assumes cur: "state_ok cur" and "apply_cll cur es ec nxt = Inr s"
  shows "state_ok s" "cll_le cur s" "cl_size cur = es" "same_expected (cl_checkpoint cur) ec"
    "cl_nodes s = cl_nodes nxt" "cl_checkpoint s = cl_checkpoint nxt"
    "\<exists>added. cl_witnesses s = cl_witnesses cur @ added"
proof -
  from assms(2) obtain v added where v: "validate_state InvalidError nxt = Inr v"
    "cl_indexed_seq cur \<le> cl_indexed_seq v" "take (length (cl_nodes cur)) (cl_nodes v) = cl_nodes cur"
    "added_witnesses cur v = Inr added" and e: "cl_size cur = es" "same_expected (cl_checkpoint cur) ec"
    and s: "s = v\<lparr>cl_witnesses := cl_witnesses cur @ added\<rparr>"
    by (auto simp: apply_cll_def check_expected_def bindR_eq_Inr split: if_splits)
  note ok = validate_state_ok [OF v(1)] and a = added_rows [OF v(4)]
  have "checkpoint_ok s" using ok(1) checkpoint_ok_cong [of s v] by (simp add: s state_ok_def)
  then show "state_ok s"
    using cur ok(1) a(2-4) by (auto simp: s state_ok_def)
  have "cl_nodes v = cl_nodes cur @ drop (length (cl_nodes cur)) (cl_nodes v)"
    by (metis append_take_drop_id v(3))
  then show "cll_le cur s"
    using v(2,4) by (auto simp: cll_le_def s added_witnesses_iff)
  show "cl_size cur = es" "same_expected (cl_checkpoint cur) ec" by (rule e)+
  show "cl_nodes s = cl_nodes nxt" "cl_checkpoint s = cl_checkpoint nxt" "\<exists>added. cl_witnesses s = cl_witnesses cur @ added"
    using ok by (simp_all add: s)
qed

lemma apply_cll_delta_ok:
  assumes cur: "state_ok cur" and "apply_cll_delta cur es ec delta = Inr s"
  shows "state_ok s" "cll_le cur s"
proof -
  from assms(2) obtain t c ws added where v:
    "\<forall>n\<in>set (cl_nodes delta). length n = 32" "cl_size delta = cl_size cur + int (length (cl_nodes delta))"
    "validate_metadata InvalidError delta (cl_size delta) = Inr (t, c, ws)"
    "added_witnesses cur (delta\<lparr>cl_first_pending_at := t, cl_checkpoint := c, cl_witnesses := ws\<rparr>) = Inr added"
    and s: "s = \<lparr>cl_size = cl_size delta, cl_nodes = cl_nodes cur @ cl_nodes delta, cl_indexed_seq = cl_indexed_seq delta,
      cl_first_pending_at = t, cl_checkpoint = c, cl_witnesses = cl_witnesses cur @ added\<rparr>"
    by (cases delta) (auto simp: apply_cll_delta_def bindR_eq_Inr check_nodes_iff Let_def split: if_splits)
  note f = validate_metadata_fields [OF v(3)] and a = added_rows [OF v(4)]
  have "checkpoint_ok s" using f(3,4) by (auto simp: s checkpoint_ok_def split: option.splits)
  then show "state_ok s"
    using cur v(1,2) f a(2-4) by (auto simp: s state_ok_def)
  show "cll_le cur s"
    using v(4) by (auto simp: cll_le_def s added_witnesses_iff)
qed

text \<open>The delta a commit writes to the journal reproduces the commit.\<close>

lemma delta_replays_commit:
  assumes cur: "state_ok cur" and app: "apply_cll cur es ec nxt = Inr s"
  shows "apply_cll_delta cur es ec (delta_of cur s) = Inr s"
proof -
  note ok = apply_cll_ok [OF cur app]
  obtain new where new: "cl_nodes s = cl_nodes cur @ new" using ok(2) by (auto simp: cll_le_def)
  obtain added where added: "cl_witnesses s = cl_witnesses cur @ added" using ok(7) by blast
  have disj: "set (map witness_key (cl_witnesses cur)) \<inter> set (map witness_key added) = {}"
    and dist: "distinct (map witness_key added)"
    using ok(1) by (simp_all add: state_ok_def added)
  have "filter (\<lambda>row. witness_key row \<notin> set (map witness_key (cl_witnesses cur))) (cl_witnesses cur @ added) = added"
  proof -
    have "filter (\<lambda>row. witness_key row \<notin> set (map witness_key (cl_witnesses cur))) added = added"
      using disj by (intro filter_True) auto
    moreover have "filter (\<lambda>row. witness_key row \<notin> set (map witness_key (cl_witnesses cur))) (cl_witnesses cur) = []"
      by (simp add: filter_empty_conv)
    ultimately show ?thesis by (simp only: filter_append append_Nil)
  qed
  then have delta: "delta_of cur s = s\<lparr>cl_nodes := new, cl_witnesses := added\<rparr>"
    unfolding delta_of_def added new by simp
  have rows: "validate_rows InvalidError [] added = Inr added"
    using ok(1) dist by (auto simp: validate_rows_iff state_ok_def added witness_okD intro!: mapR_id)
  have time: "(case cl_first_pending_at s of None \<Rightarrow> Inr None
      | Some t \<Rightarrow> bindR (normalize_time InvalidError t) (\<lambda>t. Inr (Some t))) = Inr (cl_first_pending_at s)"
    using ok(1) normalize_time_idem [of CorruptError _ _ InvalidError] by (auto simp: state_ok_def split: option.splits)
  have cp: "(case cl_checkpoint s of None \<Rightarrow> Inr None
      | Some c \<Rightarrow> bindR (validate_checkpoint InvalidError (s\<lparr>cl_nodes := new, cl_witnesses := added\<rparr>) c) (\<lambda>c. Inr (Some c)))
      = Inr (cl_checkpoint s)"
    using ok(1) by (auto simp: state_ok_def checkpoint_ok_def validate_checkpoint_def width_def ENTRY_BYTES_def
        split: option.splits)
  have meta: "validate_metadata InvalidError (s\<lparr>cl_nodes := new, cl_witnesses := added\<rparr>) (cl_size s)
      = Inr (cl_first_pending_at s, cl_checkpoint s, added)"
  proof -
    have "mmr_leaf_count (cl_size s) = Some (cl_indexed_seq s)" using ok(1) unfolding state_ok_def by blast
    then show ?thesis by (simp add: validate_metadata_def rows time cp)
  qed
  have nodes: "check_nodes InvalidError new = Inr new"
    using ok(1) new by (simp add: check_nodes_iff state_ok_def)
  have size: "cl_size s = cl_size cur + int (length new)"
    using ok(1) cur by (simp add: state_ok_def new)
  have "added_witnesses cur (s\<lparr>cl_nodes := new, cl_witnesses := added\<rparr>) = Inr added"
  proof -
    have "\<forall>r\<in>set added. existing_rows (cl_witnesses cur) (witness_key r) = None"
      using disj by (auto simp: existing_rows_None)
    moreover have "filter (\<lambda>r. existing_rows (cl_witnesses cur) (witness_key r) = None) added = added"
      using calculation by (intro filter_True) blast
    ultimately show ?thesis
      using ok(2) by (simp add: added_witnesses_iff added_loop_iff cll_le_def)
  qed
  then show ?thesis
    unfolding delta using ok(3,4) nodes size meta new added
    by (cases s) (simp add: apply_cll_delta_def check_expected_def Let_def)
qed

lemma find_witness_iff:
  "find_witness rows k ea nxt = Inr (i, w) \<longleftrightarrow>
     w = nxt \<and> k \<le> i \<and> i < k + length rows \<and> witness_key (rows ! (i - k)) = witness_key nxt \<and>
     ws_attempts (rows ! (i - k)) = ea \<and> ws_checkpoint (rows ! (i - k)) = ws_checkpoint nxt \<and>
     (\<forall>j < i - k. witness_key (rows ! j) \<noteq> witness_key nxt)"
proof (induction rows arbitrary: k)
  case (Cons row rows)
  show ?case
  proof (cases "witness_key row = witness_key nxt")
    case True
    show ?thesis
    proof (cases "i = k")
      case False
      then have "k < i \<Longrightarrow> \<not> (\<forall>j < i - k. witness_key ((row # rows) ! j) \<noteq> witness_key nxt)"
        using True by (metis nth_Cons_0 zero_less_diff)
      with False True show ?thesis by auto
    qed (use True in auto)
  next
    case False
    show ?thesis
    proof (cases "Suc k \<le> i")
      case True
      then obtain d where d: "i - k = Suc d" "i - Suc k = d" by (metis Suc_diff_Suc Suc_le_lessD)
      then have "(\<forall>j < Suc d. witness_key ((row # rows) ! j) \<noteq> witness_key nxt) \<longleftrightarrow>
          (\<forall>j < d. witness_key (rows ! j) \<noteq> witness_key nxt)"
        using False by (auto simp: less_Suc_eq_0_disj)
      with False True d show ?thesis by (auto simp: Cons.IH)
    next
      case le: False
      with False show ?thesis by (auto simp: Cons.IH not_le less_Suc_eq)
    qed
  qed
qed auto

lemma apply_witness_ok:
  assumes "apply_witness rows ea nxt = Inr (i, w)"
  shows "i < length rows" "witness_ok w" "witness_key w = witness_key (rows ! i)"
    "ws_checkpoint w = ws_checkpoint (rows ! i)" "ws_attempts (rows ! i) = ea" "witness_key w = witness_key nxt"
proof -
  from assms obtain v where v: "validate_witness InvalidError nxt = Inr v" "find_witness rows 0 ea v = Inr (i, w)"
    by (auto simp: apply_witness_def bindR_eq_Inr)
  then show "i < length rows" "witness_ok w" "witness_key w = witness_key (rows ! i)"
    "ws_checkpoint w = ws_checkpoint (rows ! i)" "ws_attempts (rows ! i) = ea"
    by (auto simp: find_witness_iff intro: witness_okI)
  show "witness_key w = witness_key nxt"
    using v by (auto simp: find_witness_iff validate_witness_def width_def bindR_eq_Inr witness_key_def
        split: option.splits if_splits)
qed

lemma replace_row_ok:
  assumes "state_ok s" "apply_witness (cl_witnesses s) ea nxt = Inr (i, w)"
  shows "state_ok (s\<lparr>cl_witnesses := (cl_witnesses s)[i := w]\<rparr>)" "cll_le s (s\<lparr>cl_witnesses := (cl_witnesses s)[i := w]\<rparr>)"
proof -
  note a = apply_witness_ok [OF assms(2)]
  let ?t = "s\<lparr>cl_witnesses := (cl_witnesses s)[i := w]\<rparr>"
  have "map witness_key ((cl_witnesses s)[i := w]) = map witness_key (cl_witnesses s)"
    using a(1,3) by (metis list_update_id map_update nth_map)
  moreover have "checkpoint_ok ?t" using checkpoint_ok_cong [of ?t s] assms(1) by (simp add: state_ok_def)
  moreover have "\<forall>r\<in>set ((cl_witnesses s)[i := w]). witness_ok r"
    using assms(1) a(2) set_update_subset_insert [of "cl_witnesses s" i w] by (auto simp: state_ok_def)
  ultimately show "state_ok ?t"
    using assms(1) by (auto simp: state_ok_def simp del: split_paired_All split_paired_Ex)
  have "\<exists>w'\<in>set ((cl_witnesses s)[i := w]). witness_key w' = witness_key r \<and> ws_checkpoint w' = ws_checkpoint r"
    if r: "r \<in> set (cl_witnesses s)" for r
  proof -
    obtain j where j: "j < length (cl_witnesses s)" "r = cl_witnesses s ! j"
      using r by (auto simp: in_set_conv_nth)
    show ?thesis
    proof (cases "j = i")
      case True
      then have "w \<in> set ((cl_witnesses s)[i := w])" using a(1) by (simp add: set_update_memI)
      with a(3,4) j True show ?thesis by auto
    next
      case False
      then have "(cl_witnesses s)[i := w] ! j = r" using j by simp
      then have "r \<in> set ((cl_witnesses s)[i := w])" using j(1) by (metis length_list_update nth_mem)
      then show ?thesis by blast
    qed
  qed
  then show "cll_le s ?t" by (simp add: cll_le_def rows_kept_def)
qed

section \<open>The engine invariant\<close>

definition entries_ok :: "Entry list \<Rightarrow> bool" where
  "entries_ok es \<longleftrightarrow>
     (\<forall>i<length es. en_seq (es ! i) = int i + 1 \<and> length (en_value (es ! i)) = 32 \<and>
        normalize_time CorruptError (en_appended_at (es ! i)) = Inr (en_appended_at (es ! i))) \<and>
     distinct (map en_value es) \<and> int (length es) \<le> MAX_PORTABLE_INTEGER"

definition index_ok :: "Engine \<Rightarrow> bool" where
  "index_ok e \<longleftrightarrow>
     (\<forall>v i. eg_by_value e v = Some i \<longleftrightarrow> i < length (eg_entries e) \<and> en_value (eg_entries e ! i) = v)"

definition engine_inv :: "Engine \<Rightarrow> bool" where
  "engine_inv e \<longleftrightarrow> entries_ok (eg_entries e) \<and> index_ok e \<and> state_ok (eg_state e)"

definition engine_le :: "Engine \<Rightarrow> Engine \<Rightarrow> bool" where
  "engine_le e e' \<longleftrightarrow> (\<exists>new. eg_entries e' = eg_entries e @ new) \<and> cll_le (eg_state e) (eg_state e')"

lemma engine_le_refl [simp]: "engine_le e e"
  by (simp add: engine_le_def)

lemma engine_le_trans: "engine_le a b \<Longrightarrow> engine_le b c \<Longrightarrow> engine_le a c"
  by (auto simp: engine_le_def intro: cll_le_trans)

lemma entries_ok_Nil [simp]: "entries_ok []"
  by (simp add: entries_ok_def MAX_PORTABLE_INTEGER_def)

lemma entries_ok_snoc:
  "entries_ok (es @ [x]) \<longleftrightarrow>
     entries_ok es \<and> en_seq x = int (length es) + 1 \<and> length (en_value x) = 32 \<and>
     normalize_time CorruptError (en_appended_at x) = Inr (en_appended_at x) \<and>
     en_value x \<notin> set (map en_value es) \<and> int (length es) + 1 \<le> MAX_PORTABLE_INTEGER"
  by (auto simp: entries_ok_def nth_append less_Suc_eq split: if_splits)

lemma validate_entries_loop_ok:
  "(\<forall>i<length es. en_seq (es ! i) = k + int i + 1 \<and> length (en_value (es ! i)) = 32 \<and>
      normalize_time CorruptError (en_appended_at (es ! i)) = Inr (en_appended_at (es ! i))) \<Longrightarrow>
   distinct (map en_value es) \<Longrightarrow> set (map en_value es) \<inter> set seen = {} \<Longrightarrow>
   k + int (length es) \<le> MAX_PORTABLE_INTEGER \<Longrightarrow>
   validate_entries_loop err k seen es = Inr ()"
proof (induction es arbitrary: k seen)
  case (Cons x es)
  have head: "en_seq x = k + 1" "length (en_value x) = 32"
    "normalize_time CorruptError (en_appended_at x) = Inr (en_appended_at x)"
    using Cons.prems(1) by force+
  have "validate_entries_loop err (k + 1) (en_value x # seen) es = Inr ()"
  proof (rule Cons.IH)
    show "\<forall>i<length es. en_seq (es ! i) = k + 1 + int i + 1 \<and> length (en_value (es ! i)) = 32 \<and>
        normalize_time CorruptError (en_appended_at (es ! i)) = Inr (en_appended_at (es ! i))"
    proof (intro allI impI)
      fix i
      assume "i < length es"
      then show "en_seq (es ! i) = k + 1 + int i + 1 \<and> length (en_value (es ! i)) = 32 \<and>
          normalize_time CorruptError (en_appended_at (es ! i)) = Inr (en_appended_at (es ! i))"
        using Cons.prems(1) [rule_format, of "Suc i"] by simp
    qed
  qed (use Cons.prems in auto)
  then show ?case
    using head normalize_time_idem [OF head(3), of err] Cons.prems(3,4) by (auto simp: width_def ENTRY_BYTES_def)
qed simp

lemma entries_ok_valid: "entries_ok es \<Longrightarrow> validate_entries err es = Inr ()"
  unfolding validate_entries_def entries_ok_def by (rule validate_entries_loop_ok) auto

lemma state_ok_empty [simp]: "state_ok empty_cll_state"
  by (simp add: state_ok_def empty_cll_state_def checkpoint_ok_def mmr_leaf_count_def leaf_count_loop.simps)

lemma engine_inv_new [simp]: "engine_inv new_engine"
  by (simp add: engine_inv_def new_engine_def index_ok_def)

lemma check_value_eq [simp]: "check_value v = Inr w \<longleftrightarrow> w = v \<and> length v = 32"
  by (auto simp: check_value_def width_def ENTRY_BYTES_def)

lemma check_value_ok [simp]: "length v = 32 \<Longrightarrow> check_value v = Inr v"
  by simp

lemma check_append_eq:
  "check_append inp = Inr (v, t) \<longleftrightarrow>
     v = ai_value inp \<and> length v = 32 \<and> normalize_time InvalidError (ai_appended_at inp) = Inr t"
  by (auto simp: check_append_def bindR_eq_Inr)

lemma eg_append_cases:
  assumes "engine_inv e" "eg_append e inp = Inr (r, e')"
  obtains
    (old) i where "eg_by_value e (ai_value inp) = Some i" "i < length (eg_entries e)" "en_value (eg_entries e ! i) = ai_value inp"
      "r = \<lparr>ar_entry = eg_entries e ! i, ar_outcome = IDEMPOTENT\<rparr>" "e' = e"
  | (new) t where "ai_value inp \<notin> set (map en_value (eg_entries e))" "length (ai_value inp) = 32"
      "normalize_time CorruptError t = Inr t" "normalize_time InvalidError (ai_appended_at inp) = Inr t"
      "r = \<lparr>ar_entry = \<lparr>en_seq = int (length (eg_entries e)) + 1, en_value = ai_value inp, en_appended_at = t\<rparr>,
            ar_outcome = INSERTED\<rparr>"
      "eg_entries e' = eg_entries e @ [ar_entry r]" "eg_state e' = eg_state e" "engine_inv e'"
proof -
  from assms(2) obtain v t where vt: "check_append inp = Inr (v, t)"
    and r: "(case eg_by_value e v of
       Some index \<Rightarrow> Inr (\<lparr>ar_entry = eg_entries e ! index, ar_outcome = IDEMPOTENT\<rparr>, e)
     | None \<Rightarrow>
         let seq = int (length (eg_entries e)) + 1 in
         if seq > MAX_PORTABLE_INTEGER then Inl InvalidError
         else
           let entry = \<lparr>en_seq = seq, en_value = v, en_appended_at = t\<rparr> in
           Inr (\<lparr>ar_entry = entry, ar_outcome = INSERTED\<rparr>,
                e\<lparr>eg_entries := eg_entries e @ [entry],
                  eg_by_value := (eg_by_value e)(v \<mapsto> length (eg_entries e))\<rparr>)) = Inr (r, e')"
    by (auto simp: eg_append_def bindR_eq_Inr)
  have v: "v = ai_value inp" "length v = 32" "normalize_time InvalidError (ai_appended_at inp) = Inr t"
    using vt by (auto simp: check_append_eq)
  have idx: "index_ok e" using assms(1) by (simp add: engine_inv_def)
  show thesis
  proof (cases "eg_by_value e v")
    case (Some i)
    then show thesis using r v idx by (intro old [of i]) (auto simp: index_ok_def)
  next
    case None
    let ?x = "\<lparr>en_seq = int (length (eg_entries e)) + 1, en_value = v, en_appended_at = t\<rparr>"
    have fresh: "v \<notin> set (map en_value (eg_entries e))"
    proof
      assume "v \<in> set (map en_value (eg_entries e))"
      then obtain i where "i < length (eg_entries e)" "en_value (eg_entries e ! i) = v"
        by (auto simp: in_set_conv_nth)
      then have "eg_by_value e v = Some i" using idx unfolding index_ok_def by blast
      with None show False by simp
    qed
    have t: "normalize_time CorruptError t = Inr t" using v(3) by (rule normalize_time_idem)
    have len: "int (length (eg_entries e)) + 1 \<le> MAX_PORTABLE_INTEGER"
      and re: "r = \<lparr>ar_entry = ?x, ar_outcome = INSERTED\<rparr>"
        "e' = e\<lparr>eg_entries := eg_entries e @ [?x], eg_by_value := (eg_by_value e)(v \<mapsto> length (eg_entries e))\<rparr>"
      using r None by (auto simp: Let_def split: if_splits)
    have "entries_ok (eg_entries e @ [?x])"
      using assms(1) fresh v(2) t len by (simp add: entries_ok_snoc engine_inv_def)
    moreover have "index_ok e'"
      unfolding index_ok_def
    proof (intro allI)
      fix w i
      have "en_value (eg_entries e ! i) \<noteq> v" if "i < length (eg_entries e)"
        using fresh that by auto
      then show "eg_by_value e' w = Some i \<longleftrightarrow> i < length (eg_entries e') \<and> en_value (eg_entries e' ! i) = w"
        using idx [unfolded index_ok_def, rule_format, of w i] by (auto simp: re(2) nth_append less_Suc_eq)
    qed
    ultimately have "engine_inv e'" using assms(1) by (simp add: engine_inv_def re(2))
    then show thesis
      using re fresh v t by (intro new [of t]) simp_all
  qed
qed

lemma eg_append_ok: "engine_inv e \<Longrightarrow> eg_append e inp = Inr (r, e') \<Longrightarrow> engine_inv e' \<and> engine_le e e'"
  by (rule eg_append_cases, assumption+) (auto simp: engine_le_def)

lemma eg_commit_cll_ok: "engine_inv e \<Longrightarrow> eg_commit_cll e es ec nxt = Inr e' \<Longrightarrow> engine_inv e' \<and> engine_le e e'"
  by (auto simp: eg_commit_cll_def bindR_eq_Inr engine_inv_def engine_le_def index_ok_def dest: apply_cll_ok(1,2))

lemma eg_commit_cll_delta_ok:
  "engine_inv e \<Longrightarrow> eg_commit_cll_delta e es ec d = Inr e' \<Longrightarrow> engine_inv e' \<and> engine_le e e'"
  by (auto simp: eg_commit_cll_delta_def bindR_eq_Inr engine_inv_def engine_le_def index_ok_def dest: apply_cll_delta_ok)

lemma eg_commit_witness_ok: "engine_inv e \<Longrightarrow> eg_commit_witness e ea nxt = Inr e' \<Longrightarrow> engine_inv e' \<and> engine_le e e'"
  by (auto simp: eg_commit_witness_def bindR_eq_Inr engine_inv_def engine_le_def index_ok_def dest: replace_row_ok)

text \<open>Any sequence of mutations; one that raises changes nothing.\<close>

datatype EngineOp =
    OpAppend AppendInput
  | OpCommitCll int "bytes option" CllState
  | OpCommitCllDelta int "bytes option" CllState
  | OpCommitWitness int WitnessState

fun engine_op :: "EngineOp \<Rightarrow> Engine \<Rightarrow> Engine res" where
  "engine_op (OpAppend inp) e = bindR (eg_append e inp) (\<lambda>(_, e'). Inr e')"
| "engine_op (OpCommitCll es ec nxt) e = eg_commit_cll e es ec nxt"
| "engine_op (OpCommitCllDelta es ec d) e = eg_commit_cll_delta e es ec d"
| "engine_op (OpCommitWitness ea nxt) e = eg_commit_witness e ea nxt"

definition engine_run :: "EngineOp list \<Rightarrow> Engine \<Rightarrow> Engine" where
  "engine_run ops e = fold (\<lambda>op e. case engine_op op e of Inl _ \<Rightarrow> e | Inr e' \<Rightarrow> e') ops e"

lemma engine_op_ok: "engine_inv e \<Longrightarrow> engine_op op e = Inr e' \<Longrightarrow> engine_inv e' \<and> engine_le e e'"
  by (cases op) (auto simp: bindR_eq_Inr dest: eg_append_ok eg_commit_cll_ok eg_commit_cll_delta_ok eg_commit_witness_ok)

lemma engine_run_ok: "engine_inv e \<Longrightarrow> engine_inv (engine_run ops e) \<and> engine_le e (engine_run ops e)"
proof (induction ops arbitrary: e)
  case (Cons op ops)
  let ?e = "case engine_op op e of Inl _ \<Rightarrow> e | Inr e' \<Rightarrow> e'"
  have "engine_inv ?e \<and> engine_le e ?e"
    using Cons.prems engine_op_ok [of e op] by (auto split: sum.splits)
  moreover have "engine_run (op # ops) e = engine_run ops ?e" by (simp add: engine_run_def)
  ultimately show ?case using Cons.IH [of ?e] by (auto intro: engine_le_trans)
qed (simp add: engine_run_def)

lemma engine_run_append: "engine_run (xs @ ys) e = engine_run ys (engine_run xs e)"
  by (simp add: engine_run_def)

text \<open>Undoing appended entries and a changed state.\<close>

lemma forget_values:
  "fold (\<lambda>entry m. m(en_value entry := None)) es m v = (if v \<in> set (map en_value es) then None else m v)"
  by (induction es arbitrary: m) auto

lemma eg_restore_ok:
  assumes "engine_inv e" "engine_inv e'" "eg_entries e' = eg_entries e @ new"
  shows "eg_restore e' (eg_snapshot e) = e"
proof -
  have idx: "index_ok e" "index_ok e'" and dist: "distinct (map en_value (eg_entries e'))"
    using assms by (simp_all add: engine_inv_def entries_ok_def)
  have "fold (\<lambda>entry m. m(en_value entry := None)) new (eg_by_value e') v = eg_by_value e v" for v
  proof (cases "v \<in> set (map en_value new)")
    case True
    then have "v \<notin> set (map en_value (eg_entries e))" using dist by (auto simp: assms(3))
    then have "\<not> (i < length (eg_entries e) \<and> en_value (eg_entries e ! i) = v)" for i by auto
    then have "eg_by_value e v = None"
      using idx(1) unfolding index_ok_def by (metis not_Some_eq)
    with True show ?thesis by (simp add: forget_values)
  next
    case False
    have "eg_by_value e' v = Some i \<longleftrightarrow> eg_by_value e v = Some i" for i
    proof -
      have "en_value ((eg_entries e @ new) ! i) \<noteq> v" if "\<not> i < length (eg_entries e)" "i < length (eg_entries e @ new)"
        using False that by (auto simp: nth_append)
      then show ?thesis
        using idx unfolding index_ok_def by (auto simp: assms(3) nth_append)
    qed
    then have "eg_by_value e' v = eg_by_value e v" by (metis not_Some_eq)
    with False show ?thesis by (simp add: forget_values)
  qed
  then show ?thesis
    by (cases e) (simp add: eg_restore_def eg_snapshot_def assms(3) fun_eq_iff)
qed

section \<open>Properties\<close>

text \<open>
  The engine's own leaf count agrees with the specification of MMR sizes: it accepts exactly
  the node counts of complete ranges and returns their number of leaves.
\<close>

theorem engine_leaf_count:
  assumes "0 \<le> s"
  shows "mmr_leaf_count s = Some n \<longleftrightarrow> 0 \<le> n \<and> node_count n = Inr s"
  using assms by (rule mmr_leaf_count_iff)

theorem engine_leaf_count_witness: "mmr_leaf_count 7 = Some 4 \<and> mmr_leaf_count 5 = None"
proof -
  have "node_count 4 = Inr 7" by (simp add: node_count_def require_nonneg_int_def popcount.simps)
  then have "mmr_leaf_count 7 = Some 4" using engine_leaf_count [of 7 4] by simp
  moreover have "mmr_leaf_count 5 = None" by code_simp
  ultimately show ?thesis by simp
qed

text \<open>
  C8. The log is append-only and always valid: after any sequence of appends and commits (the
  mutations \<^verbatim>\<open>append\<close>, \<^verbatim>\<open>commit_cll\<close>, \<^verbatim>\<open>commit_cll_delta\<close>, \<^verbatim>\<open>commit_witness\<close>) from an empty engine,
  failing ones included, the entries pass \<^verbatim>\<open>validate_entries\<close>, the state passes
  \<^verbatim>\<open>validate_state\<close> unchanged and the index finds exactly the stored values. Any further mutations only extend entries
  and nodes, move the checkpoint forward and keep every witness row with its checkpoint; and
  \<^verbatim>\<open>restore\<close>, which alone shortens the history, undoes exactly them: with the snapshot taken before, it
  gives back the engine of that moment, entries, index and state.
\<close>

theorem engine_run_invariant:
  "validate_entries err (eg_entries (engine_run ops new_engine)) = Inr () \<and>
   validate_state err (eg_state (engine_run ops new_engine)) = Inr (eg_state (engine_run ops new_engine)) \<and>
   index_ok (engine_run ops new_engine) \<and>
   engine_le (engine_run ops new_engine) (engine_run (ops @ later) new_engine) \<and>
   eg_restore (engine_run (ops @ later) new_engine) (eg_snapshot (engine_run ops new_engine)) =
     engine_run ops new_engine"
proof -
  let ?e = "engine_run ops new_engine" and ?e' = "engine_run (ops @ later) new_engine"
  have inv: "engine_inv ?e" "engine_inv ?e'" "engine_le ?e ?e'"
    using engine_run_ok [of new_engine ops] engine_run_ok [of ?e later] by (simp_all add: engine_run_append)
  then obtain new where "eg_entries ?e' = eg_entries ?e @ new" by (auto simp: engine_le_def)
  then have "eg_restore ?e' (eg_snapshot ?e) = ?e" by (rule eg_restore_ok [OF inv(1,2)])
  then show ?thesis using inv by (simp add: engine_inv_def entries_ok_valid validate_state_id)
qed

lemma append_then_lookup:
  assumes inv: "engine_inv e" and app: "eg_append e inp = Inr (r, e')"
  shows "eg_get_entry e' (ai_value inp) = Inr (ar_entry r) \<and>
    (normalize_time InvalidError t = Inr t' \<longrightarrow>
       eg_append e' \<lparr>ai_value = ai_value inp, ai_appended_at = t\<rparr> =
         Inr (\<lparr>ar_entry = ar_entry r, ar_outcome = IDEMPOTENT\<rparr>, e')) \<and>
    (ar_outcome r = INSERTED \<longleftrightarrow> eg_get_entry e (ai_value inp) = Inl NotFoundError)"
proof -
  have l: "length (ai_value inp) = 32"
    using app by (auto simp: eg_append_def bindR_eq_Inr check_append_eq)
  have idx: "index_ok e" "index_ok e'"
    using inv eg_append_ok [OF inv app] by (auto simp: engine_inv_def)
  have "\<exists>i. eg_by_value e' (ai_value inp) = Some i \<and> eg_entries e' ! i = ar_entry r \<and>
      (ar_outcome r = INSERTED \<longleftrightarrow> eg_by_value e (ai_value inp) = None)"
    using inv app
  proof (cases rule: eg_append_cases)
    case (old i)
    then show ?thesis by auto
  next
    case (new t)
    have "eg_by_value e' (ai_value inp) = Some (length (eg_entries e))"
      using idx(2) unfolding index_ok_def by (simp add: new(5,6))
    moreover have "eg_by_value e (ai_value inp) = None"
    proof (rule ccontr)
      assume "eg_by_value e (ai_value inp) \<noteq> None"
      then obtain i where "i < length (eg_entries e)" "en_value (eg_entries e ! i) = ai_value inp"
        using idx(1) unfolding index_ok_def by (metis not_None_eq)
      then show False using new(1) by (metis length_map nth_map nth_mem)
    qed
    ultimately show ?thesis using new(5,6) by simp
  qed
  then show ?thesis
    using l by (auto simp: eg_get_entry_def eg_append_def check_append_def split: option.splits)
qed

text \<open>
  Appending is idempotent by value: a successful \<^verbatim>\<open>append\<close> returns the entry under which the
  value is found from then on; appending the value again, at any time, returns that same entry as
  \<^verbatim>\<open>idempotent\<close> and changes nothing; and it was new exactly when the outcome is \<^verbatim>\<open>inserted\<close>.
\<close>

theorem append_idempotent:
  assumes "eg_append (engine_run ops new_engine) inp = Inr (r, e')"
  shows "eg_get_entry e' (ai_value inp) = Inr (ar_entry r) \<and>
    (normalize_time InvalidError t = Inr t' \<longrightarrow>
       eg_append e' \<lparr>ai_value = ai_value inp, ai_appended_at = t\<rparr> =
         Inr (\<lparr>ar_entry = ar_entry r, ar_outcome = IDEMPOTENT\<rparr>, e')) \<and>
    (ar_outcome r = INSERTED \<longleftrightarrow> eg_get_entry (engine_run ops new_engine) (ai_value inp) = Inl NotFoundError)"
  using engine_run_ok [of new_engine ops] assms by (intro append_then_lookup) auto

theorem append_idempotent_witness:
  "\<exists>r e'. eg_append (engine_run [] new_engine) \<lparr>ai_value = replicate 32 7, ai_appended_at = Aware 0\<rparr> = Inr (r, e') \<and>
     eg_get_entry e' (replicate 32 7) = Inr (ar_entry r)"
proof -
  let ?i = "\<lparr>ai_value = replicate 32 7, ai_appended_at = Aware 0\<rparr>"
  obtain r e' where "eg_append (engine_run [] new_engine) ?i = Inr (r, e')"
    by (simp add: eg_append_def check_append_def check_value_def width_def ENTRY_BYTES_def normalize_time_def
        MAX_MICROS_def engine_run_def new_engine_def MAX_PORTABLE_INTEGER_def Let_def)
  with append_idempotent [of "[]" ?i r e'] show ?thesis by auto
qed

lemma same_expected_iff: "same_expected c expected \<longleftrightarrow> map_option cs_bytes c = expected"
  by (auto simp: same_expected_def split: option.splits)

lemma commit_refused:
  assumes "cl_size (eg_state e) \<noteq> es \<or> map_option cs_bytes (cl_checkpoint (eg_state e)) \<noteq> ec"
  shows "eg_commit_cll e es ec other = Inl ContentionError \<and> eg_commit_cll_delta e es ec other = Inl ContentionError"
  using assms by (auto simp: eg_commit_cll_def eg_commit_cll_delta_def apply_cll_def apply_cll_delta_def
      check_expected_def same_expected_iff)

lemma apply_cll_checkpoint: "apply_cll c es ec nxt = Inr s \<Longrightarrow> cl_size s = cl_size nxt \<and> cl_checkpoint s = cl_checkpoint nxt"
  by (auto simp: apply_cll_def bindR_eq_Inr dest: validate_state_ok(2,5) split: if_splits)

lemma apply_cll_delta_checkpoint: "apply_cll_delta c es ec d = Inr s \<Longrightarrow> cl_checkpoint s = cl_checkpoint d"
  by (auto simp: apply_cll_delta_def bindR_eq_Inr Let_def dest: validate_metadata_fields(3) split: if_splits)

text \<open>The checkpoint bytes only change to those a commit carries.\<close>

lemma engine_op_bytes:
  assumes "engine_op op e = Inr e'" "map_option cs_bytes (cl_checkpoint (eg_state e)) \<noteq> ec"
    "\<forall>es' ec' s. op = OpCommitCll es' ec' s \<or> op = OpCommitCllDelta es' ec' s \<longrightarrow> map_option cs_bytes (cl_checkpoint s) \<noteq> ec"
  shows "map_option cs_bytes (cl_checkpoint (eg_state e')) \<noteq> ec"
  using assms
  by (cases op)
    (auto simp: eg_append_def eg_commit_cll_def eg_commit_cll_delta_def eg_commit_witness_def bindR_eq_Inr Let_def
      dest!: apply_cll_checkpoint apply_cll_delta_checkpoint split: option.splits if_splits)

lemma engine_run_bytes:
  assumes "map_option cs_bytes (cl_checkpoint (eg_state e)) \<noteq> ec"
    "\<forall>es' ec' s. OpCommitCll es' ec' s \<in> set ops \<or> OpCommitCllDelta es' ec' s \<in> set ops \<longrightarrow>
       map_option cs_bytes (cl_checkpoint s) \<noteq> ec"
  shows "map_option cs_bytes (cl_checkpoint (eg_state (engine_run ops e))) \<noteq> ec"
  using assms
proof (induction ops arbitrary: e)
  case (Cons op ops)
  let ?e = "case engine_op op e of Inl _ \<Rightarrow> e | Inr e' \<Rightarrow> e'"
  have "map_option cs_bytes (cl_checkpoint (eg_state ?e)) \<noteq> ec"
    using Cons.prems engine_op_bytes [of op e _ ec] by (cases "engine_op op e") auto
  then have "map_option cs_bytes (cl_checkpoint (eg_state (engine_run ops ?e))) \<noteq> ec"
    by (rule Cons.IH) (use Cons.prems(2) in auto)
  then show ?case by (simp add: engine_run_def)
qed (simp add: engine_run_def)

text \<open>
  C15. Compare and set. A \<^verbatim>\<open>commit_cll\<close> succeeds only on the size and the checkpoint bytes it
  expects. Once it has changed the size, or put the first checkpoint, a writer that still expects what it
  expected is refused with \<^verbatim>\<open>contention\<close> for ever, whatever it commits and whatever mutations come in
  between; once it has replaced the checkpoint by one with other bytes, such a writer is refused as long
  as nobody commits the old bytes again. The condition names size and checkpoint bytes only: a commit
  that changes just the pending time or adds witness rows does not contend.
\<close>

theorem compare_and_set:
  assumes "eg_commit_cll (engine_run ops new_engine) es ec nxt = Inr e1"
  shows "cl_size (eg_state (engine_run ops new_engine)) = es \<and>
    map_option cs_bytes (cl_checkpoint (eg_state (engine_run ops new_engine))) = ec \<and>
    (cl_size nxt \<noteq> es \<or> ec = None \<and> cl_checkpoint nxt \<noteq> None \<or>
     map_option cs_bytes (cl_checkpoint nxt) \<noteq> ec \<and>
       (\<forall>es' ec' s. OpCommitCll es' ec' s \<in> set later \<or> OpCommitCllDelta es' ec' s \<in> set later \<longrightarrow>
          map_option cs_bytes (cl_checkpoint s) \<noteq> ec) \<longrightarrow>
     eg_commit_cll (engine_run later e1) es ec other = Inl ContentionError \<and>
     eg_commit_cll_delta (engine_run later e1) es ec other = Inl ContentionError)"
proof -
  let ?e = "engine_run ops new_engine" and ?l = "engine_run later e1"
  have e: "engine_inv ?e" using engine_run_ok [of new_engine ops] by simp
  obtain s where s: "apply_cll (eg_state ?e) es ec nxt = Inr s" "eg_state e1 = s"
    using assms by (auto simp: eg_commit_cll_def bindR_eq_Inr)
  have "state_ok (eg_state ?e)" using e by (simp add: engine_inv_def)
  note ok = apply_cll_ok [OF this s(1)]
  have "engine_inv e1" using eg_commit_cll_ok [OF e assms] by simp
  then have l: "engine_inv ?l" "cll_le s (eg_state ?l)"
    using engine_run_ok [of e1 later] by (simp_all add: engine_le_def s(2))
  have len: "cl_size t = int (length (cl_nodes t))" if "state_ok t" for t using that by (simp add: state_ok_def)
  have "cl_size s = cl_size nxt" using apply_cll_checkpoint [OF s(1)] by simp
  moreover have "cl_size s \<le> cl_size (eg_state ?l)"
    using l ok(1) by (auto simp: cll_le_def len engine_inv_def)
  moreover have "es \<le> cl_size s" using ok(1-3) \<open>state_ok (eg_state ?e)\<close> by (auto simp: cll_le_def len)
  moreover have "cl_checkpoint (eg_state ?l) \<noteq> None" if "cl_checkpoint nxt \<noteq> None"
    using l(2) that by (auto simp: cll_le_def ok(6) checkpoint_le_def split: option.splits)
  moreover note engine_run_bytes [of e1 ec later]
  ultimately show ?thesis
    using ok(3,4,6) commit_refused [of ?l es ec other] by (auto simp: same_expected_iff s(2))
qed

theorem compare_and_set_witness:
  "\<exists>e1. eg_commit_cll new_engine 0 None \<lparr>cl_size = 1, cl_nodes = [replicate 32 7], cl_indexed_seq = 1,
       cl_first_pending_at = None, cl_checkpoint = None, cl_witnesses = []\<rparr> = Inr e1 \<and>
     eg_commit_cll (engine_run [OpAppend \<lparr>ai_value = replicate 32 7, ai_appended_at = Aware 0\<rparr>] e1) 0 None
       empty_cll_state = Inl ContentionError"
proof -
  let ?n = "\<lparr>cl_size = 1, cl_nodes = [replicate 32 7], cl_indexed_seq = 1,
       cl_first_pending_at = None, cl_checkpoint = None, cl_witnesses = []\<rparr>"
  have "mmr_leaf_count 1 = Some 1" by code_simp
  then have "eg_commit_cll (engine_run [] new_engine) 0 None ?n = Inr (new_engine\<lparr>eg_state := ?n\<rparr>)"
    by (simp add: eg_commit_cll_def new_engine_def apply_cll_def check_expected_def empty_cll_state_def
        same_expected_def validate_state_def validate_metadata_def check_nodes_def width_def ENTRY_BYTES_def
        added_witnesses_def engine_run_def)
  moreover from compare_and_set [OF this, of "[OpAppend \<lparr>ai_value = replicate 32 7, ai_appended_at = Aware 0\<rparr>]"
      empty_cll_state]
  have "eg_commit_cll (engine_run [OpAppend \<lparr>ai_value = replicate 32 7, ai_appended_at = Aware 0\<rparr>]
      (new_engine\<lparr>eg_state := ?n\<rparr>)) 0 None empty_cll_state = Inl ContentionError" by simp
  ultimately show ?thesis by (simp add: engine_run_def)
qed

text \<open>
  \<^verbatim>\<open>pending_witnesses\<close> returns rows that are due, in the order of checkpoint size and
  identifier, at most \<open>limit\<close> of them, and leaves a due row out only when \<open>limit\<close> rows that sort no
  later are returned.
\<close>

theorem pending_is_due_prefix:
  assumes "eg_pending_witnesses e now limit = Inr rows"
  shows "\<exists>t. normalize_time InvalidError now = Inr t \<and> sorted (map pending_key rows) \<and>
    int (length rows) \<le> limit \<and> set rows \<subseteq> {r \<in> set (cl_witnesses (eg_state e)). due t None r} \<and>
    (\<forall>r\<in>set (cl_witnesses (eg_state e)). due t None r \<and> r \<notin> set rows \<longrightarrow>
       int (length rows) = limit \<and> (\<forall>x\<in>set rows. pending_key x \<le> pending_key r))"
proof -
  from assms obtain t where t: "normalize_time InvalidError now = Inr t" "1 \<le> limit"
    and rows: "rows = pending (cl_witnesses (eg_state e)) t limit None"
    by (auto simp: eg_pending_witnesses_def check_pending_def bindR_eq_Inr split: if_splits)
  define ds where "ds = sort_key pending_key (filter (due t None) (cl_witnesses (eg_state e)))"
  have r: "rows = take (nat limit) ds" by (simp add: rows pending_def ds_def)
  have srt: "sorted (map pending_key ds)" by (simp add: ds_def)
  have set: "set ds = {r \<in> set (cl_witnesses (eg_state e)). due t None r}" by (auto simp: ds_def)
  have split: "ds = rows @ drop (nat limit) ds" by (simp add: r)
  have "\<forall>x\<in>set rows. \<forall>y\<in>set (drop (nat limit) ds). pending_key x \<le> pending_key y"
    using srt by (subst (asm) split) (auto simp: sorted_append)
  moreover have "q \<in> set (drop (nat limit) ds)" if "q \<in> set ds" "q \<notin> set rows" for q
    using that by (subst (asm) split) auto
  moreover have "int (length rows) = limit" if "q \<in> set ds" "q \<notin> set rows" for q
  proof (rule ccontr)
    assume "int (length rows) \<noteq> limit"
    then have "length ds \<le> nat limit" using t(2) by (auto simp: r min_def split: if_splits)
    then show False using that by (simp add: r)
  qed
  ultimately show ?thesis
    using t(1) srt set set_take_subset [of "nat limit" ds] t(2)
    by (auto simp: r take_map [symmetric] intro!: sorted_wrt_take)
qed

theorem pending_is_due_prefix_witness: "eg_pending_witnesses new_engine (Aware 0) 5 = Inr [] \<and> sorted (map pending_key [])"
proof -
  have "eg_pending_witnesses new_engine (Aware 0) 5 = Inr []"
    by (simp add: eg_pending_witnesses_def check_pending_def MAX_WITNESSES_def normalize_time_def MAX_MICROS_def
        pending_def new_engine_def empty_cll_state_def)
  with pending_is_due_prefix [of new_engine "Aware 0" 5 "[]"] show ?thesis by simp
qed

end
