(* ===== verification/Log_Stores.thy ===== *)
theory Log_Stores
  imports Log_Engine
begin

text \<open>
  The stores as their clients see them. The locale \<open>entry_source\<close> is the reading half of the
  contract of \<^verbatim>\<open>cll/log/__init__.py\<close> (class \<open>EntrySource\<close>), \<open>checkpoint_store\<close> adds the checkpoint
  state (class \<open>CheckpointStore\<close>); both are stated against what a store holds (\<open>entries\<close> and
  \<open>cll\<close>), and client lemmas about paging and lost updates are proved from them alone. The second
  half models \<^verbatim>\<open>cll/log/memory.py\<close> (class \<open>MemoryStore\<close>) and interprets the contract on it.
\<close>

section \<open>The contract\<close>

locale entry_source =
  fixes inv :: "'st \<Rightarrow> bool"
    and entries :: "'st \<Rightarrow> Entry list"
    and scan :: "'st \<Rightarrow> int \<Rightarrow> int \<Rightarrow> Entry list res"
  assumes scan_page: "inv st \<Longrightarrow> 0 \<le> a \<Longrightarrow> a \<le> MAX_PORTABLE_INTEGER \<Longrightarrow> 1 \<le> n \<Longrightarrow> n \<le> MAX_SCAN_LIMIT \<Longrightarrow>
      scan st a n = Inr (take (nat n) (drop (nat a) (entries st)))"
    and seqs: "inv st \<Longrightarrow> i < length (entries st) \<Longrightarrow> en_seq (entries st ! i) = int i + 1"
    and bounded: "inv st \<Longrightarrow> int (length (entries st)) \<le> MAX_PORTABLE_INTEGER"
begin

text \<open>Reading on from the last sequence number seen, page by page.\<close>

fun read_pages :: "nat \<Rightarrow> 'st \<Rightarrow> int \<Rightarrow> int \<Rightarrow> Entry list res" where
  "read_pages 0 st a n = Inr []"
| "read_pages (Suc k) st a n =
     bindR (scan st a n) (\<lambda>page. bindR (read_pages k st (a + int (length page)) n) (\<lambda>rest. Inr (page @ rest)))"

lemma page_seqs:
  assumes "inv st" "scan st a n = Inr page" "0 \<le> a" "a \<le> MAX_PORTABLE_INTEGER" "1 \<le> n" "n \<le> MAX_SCAN_LIMIT" "i < length page"
  shows "en_seq (page ! i) = a + int i + 1"
proof -
  have p: "page = take (nat n) (drop (nat a) (entries st))" using scan_page [OF assms(1,3-6)] assms(2) by simp
  then have "page ! i = entries st ! (nat a + i)" "nat a + i < length (entries st)"
    using assms(7) by (auto simp: less_diff_conv add.commute)
  then show ?thesis using seqs [OF assms(1), of "nat a + i"] assms(3) by simp
qed

lemma read_pages_prefix:
  assumes "inv st" "0 \<le> a" "nat a \<le> length (entries st)" "1 \<le> n" "n \<le> MAX_SCAN_LIMIT"
  shows "read_pages k st a n = Inr (take (k * nat n) (drop (nat a) (entries st)))"
  using assms(2,3)
proof (induction k arbitrary: a)
  case (Suc k)
  let ?p = "take (nat n) (drop (nat a) (entries st))"
  have "a \<le> MAX_PORTABLE_INTEGER" using Suc.prems bounded [OF assms(1)] by linarith
  then have "scan st a n = Inr ?p" using Suc.prems assms by (intro scan_page) auto
  moreover have "read_pages k st (a + int (length ?p)) n = Inr (take (k * nat n) (drop (nat (a + int (length ?p))) (entries st)))"
    using Suc.prems by (intro Suc.IH) auto
  moreover have "drop (nat (a + int (length ?p))) (entries st) = drop (nat n) (drop (nat a) (entries st))"
    using Suc.prems by (simp add: nat_add_distrib min_def add.commute)
  moreover have "take (Suc k * nat n) xs = take (nat n) xs @ take (k * nat n) (drop (nat n) xs)" for xs :: "Entry list"
    by (simp add: take_add)
  ultimately show ?case by simp
qed simp

text \<open>Enough pages read the whole log.\<close>

lemma read_pages_all:
  assumes "inv st" "1 \<le> n" "n \<le> MAX_SCAN_LIMIT" "length (entries st) \<le> k * nat n"
  shows "read_pages k st 0 n = Inr (entries st)"
  using read_pages_prefix [of st 0 n k] assms by simp

end

locale checkpoint_store = entry_source inv entries scan
  for inv :: "'st \<Rightarrow> bool" and entries :: "'st \<Rightarrow> Entry list" and scan :: "'st \<Rightarrow> int \<Rightarrow> int \<Rightarrow> Entry list res" +
  fixes cll :: "'st \<Rightarrow> CllState"
    and load :: "'st \<Rightarrow> CllState res"
    and commit :: "'st \<Rightarrow> int \<Rightarrow> bytes option \<Rightarrow> CllState \<Rightarrow> unit res \<times> 'st"
  assumes load_ok: "inv st \<Longrightarrow> load st = Inr (cll st)"
    and valid: "inv st \<Longrightarrow> state_ok (cll st)"
    and commit_done: "inv st \<Longrightarrow> commit st es ec nxt = (Inr (), st') \<Longrightarrow>
      inv st' \<and> entries st' = entries st \<and> apply_cll (cll st) es ec nxt = Inr (cll st')"
    and commit_fails: "inv st \<Longrightarrow> commit st es ec nxt = (Inl err, st') \<Longrightarrow>
      entries st' = entries st \<and> cll st' = cll st"
begin

text \<open>A commit only extends the state, and only from the state it expected.\<close>

lemma commit_extends:
  assumes "inv st" "commit st es ec nxt = (Inr (), st')"
  shows "cll_le (cll st) (cll st')" "cl_size (cll st) = es" "same_expected (cl_checkpoint (cll st)) ec"
    "cl_nodes (cll st') = cl_nodes nxt" "cl_checkpoint (cll st') = cl_checkpoint nxt"
  using apply_cll_ok [OF valid [OF assms(1)]] commit_done [OF assms] by auto

text \<open>No lost update: once the size or the checkpoint has changed, a commit that expects the old
  ones fails.\<close>

lemma stale_commit_fails:
  assumes "inv st" "commit st es ec nxt = (Inr (), st')"
    "cl_size (cll st') \<noteq> es \<or> \<not> same_expected (cl_checkpoint (cll st')) ec"
  shows "\<exists>err st''. commit st' es ec other = (Inl err, st'')"
proof (rule ccontr)
  assume "\<not> ?thesis"
  then obtain st'' where "commit st' es ec other = (Inr (), st'')"
    by (cases "commit st' es ec other"; cases "fst (commit st' es ec other)") auto
  moreover have "inv st'" using commit_done [OF assms(1,2)] by simp
  ultimately show False using commit_extends [of st' es ec other st''] assms(3) by simp
qed

end

section \<open>The contract of the delivery runner\<close>

text \<open>The store a delivery runner uses: the rows it lists, at most as many as asked for, are stored and have no receipt, a row is found by its
  key, and a commit replaces one row as \<^verbatim>\<open>apply_witness\<close> says or changes none.\<close>

locale witness_store =
  fixes inv :: "'st \<Rightarrow> bool" and rows :: "'st \<Rightarrow> WitnessState list"
    and pending_for :: "'st \<Rightarrow> pytext \<Rightarrow> datetime \<Rightarrow> int \<Rightarrow> WitnessState list res"
    and get :: "'st \<Rightarrow> pytext \<Rightarrow> int \<Rightarrow> WitnessState option res"
    and commit :: "'st \<Rightarrow> int \<Rightarrow> WitnessState \<Rightarrow> unit res \<times> 'st"
  assumes pending_rows: "inv st \<Longrightarrow> pending_for st w now n = Inr items \<Longrightarrow> item \<in> set items \<Longrightarrow>
      item \<in> set (rows st) \<and> ws_receipt item = None \<and> ws_witness_id item = w"
    and pending_limit: "inv st \<Longrightarrow> pending_for st w now n = Inr items \<Longrightarrow> length items \<le> nat n"
    and unique: "inv st \<Longrightarrow> distinct (map witness_key (rows st))"
    and get_row: "inv st \<Longrightarrow> get st w n = Inr p \<Longrightarrow>
      p = List.find (\<lambda>row. ws_witness_id row = w \<and> ws_checkpoint_size row = n) (rows st)"
    and commit_done: "inv st \<Longrightarrow> commit st ea nxt = (Inr (), st') \<Longrightarrow>
      inv st' \<and> (\<exists>i row. apply_witness (rows st) ea nxt = Inr (i, row) \<and> rows st' = (rows st)[i := row])"
    and commit_fails: "inv st \<Longrightarrow> commit st ea nxt = (Inl e, st') \<Longrightarrow> inv st' \<and> rows st' = rows st"

section \<open>The engine meets the contract\<close>

lemma engine_entries_ok:
  assumes "engine_inv e"
  shows "i < length (eg_entries e) \<Longrightarrow> en_seq (eg_entries e ! i) = int i + 1"
    "int (length (eg_entries e)) \<le> MAX_PORTABLE_INTEGER"
  using assms by (auto simp: engine_inv_def entries_ok_def)

lemma eg_scan_page:
  "0 \<le> a \<Longrightarrow> a \<le> MAX_PORTABLE_INTEGER \<Longrightarrow> 1 \<le> n \<Longrightarrow> n \<le> MAX_SCAN_LIMIT \<Longrightarrow>
     eg_scan_entries e a n = Inr (take (nat n) (drop (nat a) (eg_entries e)))"
  by (simp add: eg_scan_entries_def check_scan_def)

section \<open>The in-memory store\<close>

record MemoryStore =
  mem_engine :: Engine
  mem_closed :: bool

definition new_memory :: MemoryStore where
  "new_memory = \<lparr>mem_engine = new_engine, mem_closed = False\<rparr>"

definition mem_open :: "MemoryStore \<Rightarrow> Engine res" where
  "mem_open st = (if mem_closed st then Inl ClosedError else Inr (mem_engine st))"

definition mem_entry_count :: "MemoryStore \<Rightarrow> nat res" where
  "mem_entry_count st = bindR (mem_open st) (\<lambda>e. Inr (fst (eg_snapshot e)))"

definition mem_scan_entries :: "MemoryStore \<Rightarrow> int \<Rightarrow> int \<Rightarrow> Entry list res" where
  "mem_scan_entries st after_seq limit = bindR (mem_open st) (\<lambda>e. eg_scan_entries e after_seq limit)"

definition mem_append :: "MemoryStore \<Rightarrow> AppendInput \<Rightarrow> AppendResult res \<times> MemoryStore" where
  "mem_append st inp =
     (case bindR (mem_open st) (\<lambda>e. eg_append e inp) of
        Inl err \<Rightarrow> (Inl err, st)
      | Inr (r, e) \<Rightarrow> (Inr r, st\<lparr>mem_engine := e\<rparr>))"

definition mem_get_entry :: "MemoryStore \<Rightarrow> bytes \<Rightarrow> Entry res" where
  "mem_get_entry st v = bindR (mem_open st) (\<lambda>e. eg_get_entry e v)"

definition mem_load_cll :: "MemoryStore \<Rightarrow> CllState res" where
  "mem_load_cll st = bindR (mem_open st) (\<lambda>e. Inr (eg_state e))"

definition mem_commit_cll :: "MemoryStore \<Rightarrow> int \<Rightarrow> bytes option \<Rightarrow> CllState \<Rightarrow> unit res \<times> MemoryStore" where
  "mem_commit_cll st expected_size expected_checkpoint nxt =
     (case bindR (mem_open st) (\<lambda>e. eg_commit_cll e expected_size expected_checkpoint nxt) of
        Inl err \<Rightarrow> (Inl err, st)
      | Inr e \<Rightarrow> (Inr (), st\<lparr>mem_engine := e\<rparr>))"

definition mem_pending_witnesses :: "MemoryStore \<Rightarrow> datetime \<Rightarrow> int \<Rightarrow> WitnessState list res" where
  "mem_pending_witnesses st now limit = bindR (mem_open st) (\<lambda>e. eg_pending_witnesses e now limit)"

definition mem_pending_witnesses_for :: "MemoryStore \<Rightarrow> pytext \<Rightarrow> datetime \<Rightarrow> int \<Rightarrow> WitnessState list res" where
  "mem_pending_witnesses_for st w now limit = bindR (mem_open st) (\<lambda>e. eg_pending_witnesses_for e w now limit)"

definition mem_get_witness :: "MemoryStore \<Rightarrow> pytext \<Rightarrow> int \<Rightarrow> WitnessState option res" where
  "mem_get_witness st w n = bindR (mem_open st) (\<lambda>e. eg_get_witness e w n)"

definition mem_commit_witness :: "MemoryStore \<Rightarrow> int \<Rightarrow> WitnessState \<Rightarrow> unit res \<times> MemoryStore" where
  "mem_commit_witness st expected_attempts nxt =
     (case bindR (mem_open st) (\<lambda>e. eg_commit_witness e expected_attempts nxt) of
        Inl err \<Rightarrow> (Inl err, st)
      | Inr e \<Rightarrow> (Inr (), st\<lparr>mem_engine := e\<rparr>))"

definition mem_close :: "MemoryStore \<Rightarrow> MemoryStore" where
  "mem_close st = st\<lparr>mem_closed := True\<rparr>"

definition mem_inv :: "MemoryStore \<Rightarrow> bool" where
  "mem_inv st \<longleftrightarrow> \<not> mem_closed st \<and> engine_inv (mem_engine st)"

lemma mem_inv_new [simp]: "mem_inv new_memory"
  by (simp add: mem_inv_def new_memory_def)

lemma mem_append_ok:
  assumes "mem_inv st" "mem_append st inp = (r, st')"
  shows "mem_inv st' \<and> engine_le (mem_engine st) (mem_engine st') \<and>
    (case r of Inl _ \<Rightarrow> st' = st | Inr x \<Rightarrow> eg_append (mem_engine st) inp = Inr (x, mem_engine st'))"
proof (cases "eg_append (mem_engine st) inp")
  case (Inl e)
  then show ?thesis using assms by (auto simp: mem_append_def mem_inv_def mem_open_def)
next
  case (Inr p)
  obtain x e where p: "p = (x, e)" by (cases p)
  have "engine_inv e \<and> engine_le (mem_engine st) e"
    using assms(1) Inr p by (intro eg_append_ok [of _ inp x]) (auto simp: mem_inv_def)
  then show ?thesis using assms Inr p by (auto simp: mem_append_def mem_inv_def mem_open_def)
qed

interpretation memory: checkpoint_store mem_inv "eg_entries \<circ> mem_engine" mem_scan_entries "eg_state \<circ> mem_engine"
  mem_load_cll mem_commit_cll
proof unfold_locales
  fix st a n assume "mem_inv st" "(0::int) \<le> a" "a \<le> MAX_PORTABLE_INTEGER" "1 \<le> n" "n \<le> MAX_SCAN_LIMIT"
  then show "mem_scan_entries st a n = Inr (take (nat n) (drop (nat a) ((eg_entries \<circ> mem_engine) st)))"
    by (simp add: mem_scan_entries_def mem_open_def mem_inv_def eg_scan_page)
next
  fix st es ec nxt st' assume "mem_inv st" "mem_commit_cll st es ec nxt = (Inr (), st')"
  then show "mem_inv st' \<and> (eg_entries \<circ> mem_engine) st' = (eg_entries \<circ> mem_engine) st \<and>
      apply_cll ((eg_state \<circ> mem_engine) st) es ec nxt = Inr ((eg_state \<circ> mem_engine) st')"
    using eg_commit_cll_ok [of "mem_engine st" es ec nxt]
    by (auto simp: mem_commit_cll_def mem_inv_def mem_open_def eg_commit_cll_def bindR_eq_Inr split: sum.splits)
qed (auto simp: mem_inv_def engine_entries_ok mem_load_cll_def mem_open_def mem_commit_cll_def engine_inv_def
     split: sum.splits)

lemma eg_pending_rows:
  assumes "eg_pending_witnesses_for e w now n = Inr items"
  shows "item \<in> set items \<Longrightarrow> item \<in> set (cl_witnesses (eg_state e)) \<and> ws_receipt item = None \<and> ws_witness_id item = w"
    "length items \<le> nat n"
proof -
  obtain t where "items = take (nat n) (sort_key pending_key (filter (due t (Some w)) (cl_witnesses (eg_state e))))"
    using assms by (auto simp: eg_pending_witnesses_for_def bindR_eq_Inr pending_def)
  then show "item \<in> set items \<Longrightarrow> item \<in> set (cl_witnesses (eg_state e)) \<and> ws_receipt item = None \<and> ws_witness_id item = w"
    "length items \<le> nat n" by (auto simp: due_def dest: in_set_takeD)
qed

lemma eg_get_row:
  "eg_get_witness e w n = Inr p \<Longrightarrow> p = List.find (\<lambda>row. ws_witness_id row = w \<and> ws_checkpoint_size row = n) (cl_witnesses (eg_state e))"
  by (auto simp: eg_get_witness_def bindR_eq_Inr)

lemma eg_commit_row:
  assumes "engine_inv e" "eg_commit_witness e ea nxt = Inr e'"
  shows "engine_inv e' \<and> (\<exists>i row. apply_witness (cl_witnesses (eg_state e)) ea nxt = Inr (i, row) \<and>
    cl_witnesses (eg_state e') = (cl_witnesses (eg_state e))[i := row])"
  using eg_commit_witness_ok [OF assms] assms(2) by (auto simp: eg_commit_witness_def bindR_eq_Inr)

interpretation memory_rows: witness_store "engine_inv \<circ> mem_engine" "cl_witnesses \<circ> eg_state \<circ> mem_engine"
  mem_pending_witnesses_for mem_get_witness mem_commit_witness
proof unfold_locales
  fix st w now n items item assume "mem_pending_witnesses_for st w now n = Inr items"
  then have "eg_pending_witnesses_for (mem_engine st) w now n = Inr items"
    by (auto simp: mem_pending_witnesses_for_def mem_open_def split: if_splits)
  then show "item \<in> set items \<Longrightarrow> item \<in> set ((cl_witnesses \<circ> eg_state \<circ> mem_engine) st) \<and> ws_receipt item = None \<and> ws_witness_id item = w"
    "length items \<le> nat n" using eg_pending_rows by simp_all
next
  fix st w n p assume "mem_get_witness st w n = Inr p"
  then show "p = List.find (\<lambda>row. ws_witness_id row = w \<and> ws_checkpoint_size row = n) ((cl_witnesses \<circ> eg_state \<circ> mem_engine) st)"
    using eg_get_row by (auto simp: mem_get_witness_def mem_open_def split: if_splits)
next
  fix st ea nxt st' assume "(engine_inv \<circ> mem_engine) st" "mem_commit_witness st ea nxt = (Inr (), st')"
  then show "(engine_inv \<circ> mem_engine) st' \<and> (\<exists>i row. apply_witness ((cl_witnesses \<circ> eg_state \<circ> mem_engine) st) ea nxt = Inr (i, row) \<and>
      (cl_witnesses \<circ> eg_state \<circ> mem_engine) st' = ((cl_witnesses \<circ> eg_state \<circ> mem_engine) st)[i := row])"
    using eg_commit_row [of "mem_engine st" ea nxt "mem_engine st'"]
    by (auto simp: mem_commit_witness_def mem_open_def split: sum.splits if_splits)
qed (auto simp: mem_commit_witness_def engine_inv_def state_ok_def split: sum.splits)

end
