(* ===== verification/Json_Text.thy ===== *)
theory Json_Text
  imports Log_Values
begin

text \<open>
  JSON as the sources use it through Python's standard library: \<^verbatim>\<open>json.dumps(value,
  separators=(",", ":"), ensure_ascii=False)\<close> and \<^verbatim>\<open>json.loads\<close>, on texts (lists of code points)
  and, through UTF-8, on bytes. A float is kept as the text of its literal; an object as its
  members in order. Decoding an object keeps, for a repeated key, the last value at the first
  position, as a Python dictionary does.
\<close>

datatype json =
    JNull
  | JBool bool
  | JInt int
  | JFloat pytext
  | JStr pytext
  | JArr "json list"
  | JObj "(pytext \<times> json) list"

section \<open>Printing\<close>

fun dec_nat :: "nat \<Rightarrow> pytext" where
  "dec_nat n = (if n < 10 then [48 + n] else dec_nat (n div 10) @ [48 + n mod 10])"

declare dec_nat.simps [simp del]

definition dec_text :: "int \<Rightarrow> pytext" where
  "dec_text n = (if n < 0 then 45 # dec_nat (nat (- n)) else dec_nat (nat n))"

definition hex_code :: "nat \<Rightarrow> nat" where
  "hex_code d = (if d < 10 then 48 + d else 87 + d)"

definition escape_char :: "nat \<Rightarrow> pytext" where
  "escape_char c =
     (if c = 34 then [92, 34] else if c = 92 then [92, 92]
      else if c = 10 then [92, 110] else if c = 13 then [92, 114] else if c = 9 then [92, 116]
      else if c = 12 then [92, 102] else if c = 8 then [92, 98]
      else if c < 32 then [92, 117, 48, 48, hex_code (c div 16), hex_code (c mod 16)]
      else [c])"

text \<open>With \<^verbatim>\<open>ensure_ascii=True\<close>, Python's default: everything outside printable ASCII is escaped, a code
  point above the basic plane as two surrogates.\<close>

definition u_escape :: "nat \<Rightarrow> pytext" where
  "u_escape n = [92, 117, hex_code (n div 4096), hex_code (n div 256 mod 16), hex_code (n div 16 mod 16), hex_code (n mod 16)]"

definition escape_ascii :: "nat \<Rightarrow> pytext" where
  "escape_ascii c =
     (if c < 127 then escape_char c
      else if c < 65536 then u_escape c
      else u_escape (55296 + (c - 65536) div 1024) @ u_escape (56320 + (c - 65536) mod 1024))"

definition print_string_with :: "(nat \<Rightarrow> pytext) \<Rightarrow> pytext \<Rightarrow> pytext" where
  "print_string_with esc s = 34 # concat (map esc s) @ [34]"

abbreviation print_string :: "pytext \<Rightarrow> pytext" where
  "print_string \<equiv> print_string_with escape_char"

definition join_comma :: "pytext list \<Rightarrow> pytext" where
  "join_comma ps = (case ps of [] \<Rightarrow> [] | p # qs \<Rightarrow> p @ concat (map (\<lambda>q. 44 # q) qs))"

fun print_with :: "(nat \<Rightarrow> pytext) \<Rightarrow> json \<Rightarrow> pytext" where
  "print_with esc JNull = text_of ''null''"
| "print_with esc (JBool b) = (if b then text_of ''true'' else text_of ''false'')"
| "print_with esc (JInt n) = dec_text n"
| "print_with esc (JFloat t) = t"
| "print_with esc (JStr s) = print_string_with esc s"
| "print_with esc (JArr vs) = 91 # join_comma (map (print_with esc) vs) @ [93]"
| "print_with esc (JObj ms) = 123 # join_comma (map (\<lambda>(k, v). print_string_with esc k @ 58 # print_with esc v) ms) @ [125]"

abbreviation print_json :: "json \<Rightarrow> pytext" where
  "print_json \<equiv> print_with escape_char"

text \<open>\<^verbatim>\<open>json.dumps(value, separators=(",", ":"))\<close>.\<close>

abbreviation print_ascii :: "json \<Rightarrow> pytext" where
  "print_ascii \<equiv> print_with escape_ascii"

section \<open>Parsing\<close>

definition json_space :: "nat \<Rightarrow> bool" where
  "json_space c \<longleftrightarrow> c = 32 \<or> c = 9 \<or> c = 10 \<or> c = 13"

definition skip_ws :: "pytext \<Rightarrow> pytext" where
  "skip_ws s = dropWhile json_space s"

definition is_digit :: "nat \<Rightarrow> bool" where
  "is_digit c \<longleftrightarrow> 48 \<le> c \<and> c \<le> 57"

definition hex_digit_value :: "nat \<Rightarrow> nat option" where
  "hex_digit_value c =
     (if is_digit c then Some (c - 48)
      else if 97 \<le> c \<and> c \<le> 102 then Some (c - 87)
      else if 65 \<le> c \<and> c \<le> 70 then Some (c - 55) else None)"

fun hex4 :: "pytext \<Rightarrow> (nat \<times> pytext) option" where
  "hex4 (a # b # c # d # rest) =
     (case (hex_digit_value a, hex_digit_value b, hex_digit_value c, hex_digit_value d) of
        (Some x, Some y, Some z, Some w) \<Rightarrow> Some (((x * 16 + y) * 16 + z) * 16 + w, rest)
      | _ \<Rightarrow> None)"
| "hex4 _ = None"

definition simple_escape :: "nat \<Rightarrow> nat option" where
  "simple_escape c =
     (if c = 34 then Some 34 else if c = 92 then Some 92 else if c = 47 then Some 47
      else if c = 98 then Some 8 else if c = 102 then Some 12 else if c = 110 then Some 10
      else if c = 114 then Some 13 else if c = 116 then Some 9 else None)"

text \<open>After \<open>\u\<close>: a high surrogate directly followed by an escaped low one is one code point.\<close>

definition unicode_escape :: "pytext \<Rightarrow> (nat \<times> pytext) option" where
  "unicode_escape es =
     (case hex4 es of
        None \<Rightarrow> None
      | Some (u, r) \<Rightarrow>
          if 55296 \<le> u \<and> u < 56320 \<and> take 2 r = [92, 117] then
            (case hex4 (drop 2 r) of
               None \<Rightarrow> Some (u, r)
             | Some (v, q) \<Rightarrow>
                 if 56320 \<le> v \<and> v < 57344 then Some (65536 + (u - 55296) * 1024 + (v - 56320), q) else Some (u, r))
          else Some (u, r))"

text \<open>After the opening quote, up to and with the closing one.\<close>

fun parse_chars :: "nat \<Rightarrow> pytext \<Rightarrow> (pytext \<times> pytext) option" where
  "parse_chars 0 s = None"
| "parse_chars (Suc f) s =
     (case s of
        [] \<Rightarrow> None
      | c # cs \<Rightarrow>
          if c = 34 then Some ([], cs)
          else if c = 92 then
            (case cs of
               [] \<Rightarrow> None
             | e # es \<Rightarrow>
                 (case (if e = 117 then unicode_escape es else map_option (\<lambda>x. (x, es)) (simple_escape e)) of
                    None \<Rightarrow> None
                  | Some (x, r) \<Rightarrow> map_option (\<lambda>(t, q). (x # t, q)) (parse_chars f r)))
          else if c < 32 then None
          else map_option (\<lambda>(t, q). (c # t, q)) (parse_chars f cs))"

definition digits_value :: "pytext \<Rightarrow> int" where
  "digits_value ds = foldl (\<lambda>a c. a * 10 + (int c - 48)) 0 ds"

text \<open>The number grammar: \<open>0\<close> or digits without a leading zero, then a fraction and an exponent,
  each taken only when it is complete.\<close>

definition int_part :: "pytext \<Rightarrow> pytext" where
  "int_part s = (case s of c # _ \<Rightarrow> if c = 48 then [48] else takeWhile is_digit s | [] \<Rightarrow> [])"

definition frac_part :: "pytext \<Rightarrow> pytext" where
  "frac_part s =
     (case s of c # cs \<Rightarrow> if c = 46 \<and> takeWhile is_digit cs \<noteq> [] then 46 # takeWhile is_digit cs else []
      | [] \<Rightarrow> [])"

definition exp_part :: "pytext \<Rightarrow> pytext" where
  "exp_part s =
     (case s of
        [] \<Rightarrow> []
      | c # cs \<Rightarrow>
          if c = 101 \<or> c = 69 then
            (let sign = (case cs of d # _ \<Rightarrow> if d = 43 \<or> d = 45 then [d] else [] | [] \<Rightarrow> []);
                 ds = takeWhile is_digit (drop (length sign) cs) in
             if ds = [] then [] else c # sign @ ds)
          else [])"

definition parse_number :: "pytext \<Rightarrow> (json \<times> pytext) option" where
  "parse_number s =
     (let neg = (case s of c # _ \<Rightarrow> c = 45 | [] \<Rightarrow> False);
          s1 = (if neg then tl s else s); ip = int_part s1 in
      if ip = [] then None
      else
        let s2 = drop (length ip) s1; fp = frac_part s2; s3 = drop (length fp) s2; ep = exp_part s3;
            rest = drop (length ep) s3 in
        if fp = [] \<and> ep = [] then Some (JInt (if neg then - digits_value ip else digits_value ip), rest)
        else Some (JFloat ((if neg then [45] else []) @ ip @ fp @ ep), rest))"

text \<open>A literal such as \<^verbatim>\<open>null\<close>.\<close>

definition literal :: "string \<Rightarrow> json \<Rightarrow> pytext \<Rightarrow> (json \<times> pytext) option" where
  "literal w v s = (if take (length w) s = text_of w then Some (v, drop (length w) s) else None)"

text \<open>\<^verbatim>\<open>dict(pairs)\<close>: the last value of a key, at its first position.\<close>

fun dict_insert :: "pytext \<Rightarrow> json \<Rightarrow> (pytext \<times> json) list \<Rightarrow> (pytext \<times> json) list" where
  "dict_insert k v [] = [(k, v)]"
| "dict_insert k v ((k', v') # ms) = (if k' = k then (k, v) # ms else (k', v') # dict_insert k v ms)"

definition dict_of :: "(pytext \<times> json) list \<Rightarrow> (pytext \<times> json) list" where
  "dict_of ms = fold (\<lambda>(k, v) acc. dict_insert k v acc) ms []"

fun parse_value :: "nat \<Rightarrow> pytext \<Rightarrow> (json \<times> pytext) option"
  and parse_elems :: "nat \<Rightarrow> pytext \<Rightarrow> (json list \<times> pytext) option"
  and parse_members :: "nat \<Rightarrow> pytext \<Rightarrow> ((pytext \<times> json) list \<times> pytext) option" where
  "parse_value 0 s = None"
| "parse_value (Suc f) s =
     (case s of
        [] \<Rightarrow> None
      | c # cs \<Rightarrow>
          if c = 34 then map_option (\<lambda>(t, r). (JStr t, r)) (parse_chars (length s) cs)
          else if c = 123 then
            (case skip_ws cs of
               [] \<Rightarrow> None
             | d # ds \<Rightarrow>
                 if d = 125 then Some (JObj [], ds)
                 else map_option (\<lambda>(ms, r). (JObj (dict_of ms), r)) (parse_members f (d # ds)))
          else if c = 91 then
            (case skip_ws cs of
               [] \<Rightarrow> None
             | d # ds \<Rightarrow>
                 if d = 93 then Some (JArr [], ds)
                 else map_option (\<lambda>(vs, r). (JArr vs, r)) (parse_elems f (d # ds)))
          else if c = 110 then literal ''null'' JNull s
          else if c = 116 then literal ''true'' (JBool True) s
          else if c = 102 then literal ''false'' (JBool False) s
          else if c = 78 then literal ''NaN'' (JFloat (text_of ''NaN'')) s
          else if c = 73 then literal ''Infinity'' (JFloat (text_of ''Infinity'')) s
          else if c = 45 \<and> take 9 s = text_of ''-Infinity'' then Some (JFloat (text_of ''-Infinity''), drop 9 s)
          else parse_number s)"
| "parse_elems 0 s = None"
| "parse_elems (Suc f) s =
     (case parse_value f s of
        None \<Rightarrow> None
      | Some (v, r) \<Rightarrow>
          (case skip_ws r of
             [] \<Rightarrow> None
           | c # cs \<Rightarrow>
               if c = 93 then Some ([v], cs)
               else if c = 44 then map_option (\<lambda>(vs, q). (v # vs, q)) (parse_elems f (skip_ws cs))
               else None))"
| "parse_members 0 s = None"
| "parse_members (Suc f) s =
     (case s of
        [] \<Rightarrow> None
      | c # cs \<Rightarrow>
          if c \<noteq> 34 then None
          else
            (case parse_chars (length s) cs of
               None \<Rightarrow> None
             | Some (k, r) \<Rightarrow>
                 (case skip_ws r of
                    [] \<Rightarrow> None
                  | d # ds \<Rightarrow>
                      if d \<noteq> 58 then None
                      else
                        (case parse_value f (skip_ws ds) of
                           None \<Rightarrow> None
                         | Some (v, r1) \<Rightarrow>
                             (case skip_ws r1 of
                                [] \<Rightarrow> None
                              | e # es \<Rightarrow>
                                  if e = 125 then Some ([(k, v)], es)
                                  else if e = 44
                                  then map_option (\<lambda>(ms, q). ((k, v) # ms, q)) (parse_members f (skip_ws es))
                                  else None)))))"

text \<open>\<^verbatim>\<open>json.loads(text)\<close>. Every second step of the parser consumes a character, so twice the length
  of the text is enough fuel.\<close>

definition parse_json :: "pytext \<Rightarrow> json option" where
  "parse_json s =
     (if take 1 s = [65279] then None
      else case parse_value (2 * length s + 2) (skip_ws s) of
        Some (v, r) \<Rightarrow> if skip_ws r = [] then Some v else None
      | None \<Rightarrow> None)"

section \<open>UTF-8\<close>

definition cont :: "nat \<Rightarrow> bool" where
  "cont b \<longleftrightarrow> 128 \<le> b \<and> b < 192"

fun utf8_decode :: "nat list \<Rightarrow> pytext option" where
  "utf8_decode [] = Some []"
| "utf8_decode (a # as) =
     (if a < 128 then map_option ((#) a) (utf8_decode as)
      else case as of
        [] \<Rightarrow> None
      | b # bs \<Rightarrow>
          if 194 \<le> a \<and> a < 224 \<and> cont b
          then map_option ((#) ((a - 192) * 64 + (b - 128))) (utf8_decode bs)
          else case bs of
            [] \<Rightarrow> None
          | c # cs \<Rightarrow>
              if 224 \<le> a \<and> a < 240 \<and> cont b \<and> cont c \<and> (a = 224 \<longrightarrow> 160 \<le> b) \<and> (a = 237 \<longrightarrow> b < 160)
              then map_option ((#) ((a - 224) * 4096 + (b - 128) * 64 + (c - 128))) (utf8_decode cs)
              else case cs of
                [] \<Rightarrow> None
              | d # ds \<Rightarrow>
                  if 240 \<le> a \<and> a < 245 \<and> cont b \<and> cont c \<and> cont d \<and> (a = 240 \<longrightarrow> 144 \<le> b) \<and> (a = 244 \<longrightarrow> b < 144)
                  then map_option ((#) ((a - 240) * 262144 + (b - 128) * 4096 + (c - 128) * 64 + (d - 128)))
                         (utf8_decode ds)
                  else None)"

text \<open>\<^verbatim>\<open>dumps\<close> of \<^verbatim>\<open>cll/log/wire.py\<close>, and \<^verbatim>\<open>json.loads(data.decode("utf-8"))\<close>.\<close>

definition dumps :: "json \<Rightarrow> bytes res" where
  "dumps v = (case utf8_encode (print_json v) of None \<Rightarrow> Inl ValueError | Some bs \<Rightarrow> Inr (map of_nat bs))"

definition loads :: "bytes \<Rightarrow> json res" where
  "loads b =
     (case utf8_decode (map unat b) of
        None \<Rightarrow> Inl ValueError
      | Some t \<Rightarrow> (case parse_json t of None \<Rightarrow> Inl ValueError | Some v \<Rightarrow> Inr v))"

section \<open>Round trip: numbers\<close>

definition num_end :: "pytext \<Rightarrow> bool" where
  "num_end r \<longleftrightarrow> (case r of [] \<Rightarrow> True | c # _ \<Rightarrow> \<not> is_digit c \<and> c \<noteq> 46 \<and> c \<noteq> 101 \<and> c \<noteq> 69)"

lemma dec_nat_digits: "list_all is_digit (dec_nat n)"
proof (induction n rule: dec_nat.induct)
  case (1 n)
  have d: "is_digit (48 + k)" if "k < 10" for k using that by (simp add: is_digit_def)
  show ?case by (subst dec_nat.simps) (use 1 d in simp)
qed

lemma dec_nat_not_Nil [simp]: "dec_nat n \<noteq> []"
  by (subst dec_nat.simps) simp

lemma digits_value_snoc: "digits_value (ds @ [c]) = digits_value ds * 10 + (int c - 48)"
  by (simp add: digits_value_def)

lemma digits_value_dec_nat [simp]: "digits_value (dec_nat n) = int n"
proof (induction n rule: dec_nat.induct)
  case (1 n)
  show ?case
  proof (cases "n < 10")
    case True
    then show ?thesis by (subst dec_nat.simps) (simp add: digits_value_def)
  next
    case False
    have "int n = int (n div 10) * 10 + int (n mod 10)"
      by (metis div_mult_mod_eq of_nat_add of_nat_mult of_nat_numeral)
    with 1 False show ?thesis by (subst dec_nat.simps) (simp add: digits_value_snoc)
  qed
qed

lemma dec_nat_hd: "hd (dec_nat n) = 48 \<longleftrightarrow> n = 0"
proof (induction n rule: dec_nat.induct)
  case (1 n)
  then show ?case by (subst dec_nat.simps) auto
qed

lemma dec_nat_0: "dec_nat 0 = [48]"
  by (subst dec_nat.simps) simp

lemma takeWhile_digits: "list_all is_digit ds \<Longrightarrow> num_end r \<Longrightarrow> takeWhile is_digit (ds @ r) = ds"
  by (induction ds) (auto simp: num_end_def split: list.splits)

lemma int_part_dec_nat: "num_end r \<Longrightarrow> int_part (dec_nat n @ r) = dec_nat n"
proof (cases "n = 0")
  case False
  assume r: "num_end r"
  obtain c cs where c: "dec_nat n = c # cs" by (cases "dec_nat n") auto
  then have "c \<noteq> 48" using dec_nat_hd [of n] False by simp
  then show ?thesis
    using takeWhile_digits [OF dec_nat_digits r, of n] by (simp add: int_part_def c)
qed (simp add: int_part_def dec_nat_0)

lemma num_end_parts: "num_end r \<Longrightarrow> frac_part r = [] \<and> exp_part r = []"
  by (auto simp: num_end_def frac_part_def exp_part_def split: list.splits)

lemma parse_number_dec: "num_end r \<Longrightarrow> parse_number (dec_text n @ r) = Some (JInt n, r)"
proof -
  assume r: "num_end r"
  have "\<not> (case dec_nat k @ r of [] \<Rightarrow> False | c # _ \<Rightarrow> c = 45)" for k
    using dec_nat_digits [of k] by (cases "dec_nat k") (auto simp: is_digit_def)
  then show ?thesis
    using num_end_parts [OF r] int_part_dec_nat [OF r] by (auto simp: parse_number_def dec_text_def Let_def)
qed

section \<open>Round trip: strings\<close>

lemma hex_digit_value_code [simp]: "d < 16 \<Longrightarrow> hex_digit_value (hex_code d) = Some d"
  by (auto simp: hex_digit_value_def hex_code_def is_digit_def)

lemma parse_escape:
  "parse_chars (Suc f) (escape_char c @ r) = map_option (\<lambda>(t, q). (c # t, q)) (parse_chars f r)"
proof -
  consider "c \<in> {34, 92, 10, 13, 9, 12, 8}" | "c < 32" "c \<notin> {10, 13, 9, 12, 8}" | "32 \<le> c" "c \<notin> {34, 92}"
    by fastforce
  then show ?thesis
  proof cases
    case 1
    then show ?thesis by (auto simp: escape_char_def simple_escape_def)
  next
    case 2
    have "hex_digit_value 48 = Some 0" by (simp add: hex_digit_value_def is_digit_def)
    moreover have "c div 16 < 16" using 2(1) by (simp add: div_less_iff_less_mult)
    moreover have "c div 16 * 16 + c mod 16 = c" by simp
    ultimately have "unicode_escape (48 # 48 # hex_code (c div 16) # hex_code (c mod 16) # r) = Some (c, r)"
      using 2(1) by (simp add: unicode_escape_def)
    with 2 show ?thesis by (simp add: escape_char_def)
  next
    case 3
    then show ?thesis by (simp add: escape_char_def)
  qed
qed

lemma parse_chars_print:
  "length s < f \<Longrightarrow> parse_chars f (concat (map escape_char s) @ 34 # r) = Some (s, r)"
proof (induction s arbitrary: f)
  case Nil
  then show ?case by (cases f) simp_all
next
  case (Cons c s)
  then obtain g where f: "f = Suc g" by (cases f) auto
  have "parse_chars (Suc g) (escape_char c @ concat (map escape_char s) @ 34 # r) = Some (c # s, r)"
    unfolding parse_escape using Cons by (simp add: f)
  then show ?case by (simp only: f list.map concat.simps append_assoc)
qed

section \<open>Round trip: values\<close>

text \<open>A value without floats whose objects have distinct keys, as every wire form here is.\<close>

fun json_ok :: "json \<Rightarrow> bool" where
  "json_ok (JFloat t) = False"
| "json_ok (JArr vs) = list_all json_ok vs"
| "json_ok (JObj ms) = (distinct (map fst ms) \<and> list_all (\<lambda>(k, v). json_ok v) ms)"
| "json_ok _ = True"

lemma json_ok_wf: "json_ok (JObj ms) \<Longrightarrow> (k, v) \<in> set ms \<Longrightarrow> json_ok v"
  by (auto simp: list_all_iff)

lemma map_of_insert: "map_of (dict_insert k v c) = (map_of c)(k \<mapsto> v)"
  by (induction c) auto

lemma dict_insert_new: "k \<notin> fst ` set ms \<Longrightarrow> dict_insert k v ms = ms @ [(k, v)]"
  by (induction ms) auto

lemma dict_of_distinct: "distinct (map fst ms) \<Longrightarrow> dict_of ms = ms"
proof -
  have "distinct (map fst (acc @ ms)) \<Longrightarrow> fold (\<lambda>(k, v) acc. dict_insert k v acc) ms acc = acc @ ms" for acc
  proof (induction ms arbitrary: acc)
    case (Cons m ms)
    obtain k v where m: "m = (k, v)" by (cases m)
    then show ?case
      using Cons.IH [of "acc @ [m]"] Cons.prems by (simp add: dict_insert_new m)
  qed simp
  from this [of "[]"] show "distinct (map fst ms) \<Longrightarrow> dict_of ms = ms" by (simp add: dict_of_def)
qed

lemma join_comma_Cons: "join_comma (p # ps) = (if ps = [] then p else p @ 44 # join_comma ps)"
  by (cases ps) (simp_all add: join_comma_def)

lemma literal_ok: "literal w v (text_of w @ r) = Some (v, r)"
  by (simp add: literal_def text_of_def)

text \<open>The first character of a printed value says what it is.\<close>

lemma dec_text_hd: "\<exists>c cs. dec_text n = c # cs \<and> (is_digit c \<or> c = 45 \<and> (\<exists>d ds. cs = d # ds \<and> is_digit d))"
  using dec_nat_digits [of "nat n"] dec_nat_digits [of "nat (- n)"]
  by (cases "dec_nat (nat n)"; cases "dec_nat (nat (- n))") (auto simp: dec_text_def)

lemma skip_ws_Cons [simp]: "\<not> json_space c \<Longrightarrow> skip_ws (c # cs) = c # cs"
  by (simp add: skip_ws_def)

lemma not_space [simp]: "\<not> json_space 44" "\<not> json_space 93" "\<not> json_space 125" "\<not> json_space 58" "\<not> json_space 34"
  by (simp_all add: json_space_def)

lemma num_end_simps [simp]: "num_end []" "num_end (44 # r)" "num_end (93 # r)" "num_end (125 # r)"
  by (simp_all add: num_end_def is_digit_def)

lemma minus_infinity_prefix: "take 2 (text_of ''-Infinity'') = [45, 73]"
  by code_simp

lemma parse_value_number:
  assumes "num_end r"
  shows "parse_value (Suc f) (dec_text n @ r) = Some (JInt n, r)"
proof -
  obtain c cs where c: "dec_text n = c # cs" "is_digit c \<or> c = 45 \<and> (\<exists>d ds. cs = d # ds \<and> is_digit d)"
    using dec_text_hd [of n] by (elim exE conjE) (rule that)
  have "take 9 (c # cs @ r) \<noteq> text_of ''-Infinity''"
  proof
    assume "take 9 (c # cs @ r) = text_of ''-Infinity''"
    then have "take 2 (take 9 (c # cs @ r)) = [45, 73]"
      by (simp only: minus_infinity_prefix)
    then show False using c(2) by (auto simp: is_digit_def)
  qed
  moreover have "c \<noteq> 34" "c \<noteq> 123" "c \<noteq> 91" "c \<noteq> 110" "c \<noteq> 116" "c \<noteq> 102" "c \<noteq> 78" "c \<noteq> 73"
    using c(2) by (auto simp: is_digit_def)
  ultimately show ?thesis
    using parse_number_dec [OF assms, of n] by (simp add: c(1))
qed

text \<open>All strings of a value, keys included.\<close>

fun strings_ok :: "(pytext \<Rightarrow> bool) \<Rightarrow> json \<Rightarrow> bool" where
  "strings_ok ok (JStr s) = ok s"
| "strings_ok ok (JArr vs) = list_all (strings_ok ok) vs"
| "strings_ok ok (JObj ms) = list_all (\<lambda>(k, v). ok k \<and> strings_ok ok v) ms"
| "strings_ok ok _ = True"

lemma strings_ok_wf: "strings_ok ok (JObj ms) \<Longrightarrow> (k, v) \<in> set ms \<Longrightarrow> strings_ok ok v"
  by (auto simp: list_all_iff)

lemma strings_ok_True [simp]: "strings_ok (\<lambda>_. True) v"
  by (induction v) (auto simp: list_all_iff)

text \<open>What a way of escaping strings must promise for the parser to read back what is printed.\<close>

locale json_printer =
  fixes esc :: "nat \<Rightarrow> pytext" and ok :: "pytext \<Rightarrow> bool"
  assumes length_esc: "1 \<le> length (esc c)"
    and parse_esc: "ok s \<Longrightarrow> length s < f \<Longrightarrow> parse_chars f (concat (map esc s) @ 34 # r) = Some (s, r)"
begin

lemma length_print_string: "length s + 2 \<le> length (print_string_with esc s)"
proof (induction s)
  case (Cons c s)
  then show ?case using length_esc [of c] by (simp add: print_string_with_def)
qed (simp add: print_string_with_def)

lemma print_hd:
  assumes "json_ok v"
  obtains c cs where "print_with esc v = c # cs" "\<not> json_space c" "c \<noteq> 93" "c \<noteq> 125" "c \<noteq> 44"
proof (cases v)
  case (JInt n)
  then show thesis using dec_text_hd [of n] that by (auto simp: is_digit_def json_space_def)
next
  case (JBool b)
  then show thesis using that by (cases b) (auto simp: json_space_def text_of_def)
qed (use assms in \<open>auto simp: print_string_with_def json_space_def text_of_def intro: that\<close>)

lemma parse_elems_print:
  assumes "vs \<noteq> []" "list_all json_ok vs"
    and "\<And>v r f. v \<in> set vs \<Longrightarrow> num_end r \<Longrightarrow> 2 * length (print_with esc v) \<le> f \<Longrightarrow>
      parse_value f (print_with esc v @ r) = Some (v, r)"
    and "2 * length (join_comma (map (print_with esc) vs)) + 1 \<le> f"
  shows "parse_elems f (join_comma (map (print_with esc) vs) @ 93 # r) = Some (vs, r)"
  using assms
proof (induction vs arbitrary: f)
  case (Cons v vs)
  obtain g where f: "f = Suc g" using Cons.prems(4) by (cases f) auto
  have len: "2 * length (print_with esc v) \<le> g"
    using Cons.prems(4) by (simp add: f join_comma_Cons split: if_splits)
  show ?case
  proof (cases "vs = []")
    case True
    then show ?thesis
      using Cons.prems(3) [of v "93 # r" g] len by (simp add: f join_comma_Cons)
  next
    case False
    then obtain w ws where vs: "vs = w # ws" by (cases vs) auto
    have "json_ok w" using Cons.prems(2) by (simp add: vs)
    then obtain c cs where "print_with esc w = c # cs" "\<not> json_space c" by (rule print_hd)
    then have skip: "skip_ws (join_comma (map (print_with esc) vs) @ 93 # r) = join_comma (map (print_with esc) vs) @ 93 # r"
      by (simp add: vs join_comma_Cons)
    have "parse_elems g (join_comma (map (print_with esc) vs) @ 93 # r) = Some (vs, r)"
      using False Cons.prems by (intro Cons.IH) (auto simp: f join_comma_Cons)
    then show ?thesis
      using Cons.prems(3) [of v "44 # join_comma (map (print_with esc) vs) @ 93 # r" g] len False skip
      by (simp add: f join_comma_Cons)
  qed
qed simp

lemma print_string_parse:
  "ok k \<Longrightarrow> parse_chars (length (print_string_with esc k @ q)) (concat (map esc k) @ 34 # q) = Some (k, q)"
  using length_print_string [of k] by (intro parse_esc) simp_all

lemma print_string_Cons: "print_string_with esc k @ q = 34 # concat (map esc k) @ 34 # q"
  by (simp add: print_string_with_def)

lemma parse_members_print:
  assumes "ms \<noteq> []" "list_all (\<lambda>(k, v). json_ok v \<and> ok k) ms"
    and "\<And>k v r f. (k, v) \<in> set ms \<Longrightarrow> num_end r \<Longrightarrow> 2 * length (print_with esc v) \<le> f \<Longrightarrow>
      parse_value f (print_with esc v @ r) = Some (v, r)"
    and "2 * length (join_comma (map (\<lambda>(k, v). print_string_with esc k @ 58 # print_with esc v) ms)) + 1 \<le> f"
  shows "parse_members f (join_comma (map (\<lambda>(k, v). print_string_with esc k @ 58 # print_with esc v) ms) @ 125 # r) = Some (ms, r)"
  using assms
proof (induction ms arbitrary: f)
  case (Cons m ms)
  let ?pr = "\<lambda>(k, v). print_string_with esc k @ 58 # print_with esc v"
  obtain k v where m: "m = (k, v)" by (cases m)
  obtain g where f: "f = Suc g" using Cons.prems(4) by (cases f) auto
  have len: "2 * length (print_with esc v) \<le> g"
    using Cons.prems(4) by (simp add: f m join_comma_Cons split: if_splits)
  have k: "ok k" and "json_ok v" using Cons.prems(2) by (simp_all add: m)
  then obtain c cs where c: "print_with esc v = c # cs" "\<not> json_space c" using print_hd by blast
  have colon: "skip_ws (print_with esc v @ q) = print_with esc v @ q" for q using c by simp
  have head: "parse_members (Suc g) (print_string_with esc k @ 58 # print_with esc v @ q) =
      (case parse_value g (print_with esc v @ q) of
         None \<Rightarrow> None
       | Some (v, r1) \<Rightarrow>
           (case skip_ws r1 of
              [] \<Rightarrow> None
            | e # es \<Rightarrow>
                if e = 125 then Some ([(k, v)], es)
                else if e = 44 then map_option (\<lambda>(ms, q). ((k, v) # ms, q)) (parse_members g (skip_ws es))
                else None))" for q
    using print_string_parse [OF k, of "58 # print_with esc v @ q"] colon [of q]
    unfolding print_string_Cons by simp
  show ?case
  proof (cases "ms = []")
    case True
    then have "join_comma (map ?pr (m # ms)) @ 125 # r = print_string_with esc k @ 58 # print_with esc v @ 125 # r"
      by (simp add: m join_comma_Cons)
    moreover have "parse_value g (print_with esc v @ 125 # r) = Some (v, 125 # r)"
      using Cons.prems(3) [of k v "125 # r" g] len by (simp add: m)
    ultimately show ?thesis using head [of "125 # r"] True by (simp add: f m del: parse_members.simps)
  next
    case False
    let ?rest = "join_comma (map ?pr ms) @ 125 # r"
    obtain k' v' ms' where ms: "ms = (k', v') # ms'" using False by (cases ms) auto
    have skip: "skip_ws ?rest = ?rest"
      by (simp add: ms join_comma_Cons print_string_with_def)
    have IH: "parse_members g ?rest = Some (ms, r)"
      using False Cons.prems by (intro Cons.IH) (auto simp: f m join_comma_Cons)
    have "join_comma (map ?pr (m # ms)) @ 125 # r = print_string_with esc k @ 58 # print_with esc v @ 44 # ?rest"
      using False by (simp add: m join_comma_Cons)
    moreover have "parse_value g (print_with esc v @ 44 # ?rest) = Some (v, 44 # ?rest)"
      using Cons.prems(3) [of k v "44 # ?rest" g] len by (simp add: m)
    ultimately show ?thesis
      using head [of "44 # ?rest"] IH skip by (simp add: f m del: parse_members.simps)
  qed
qed simp

lemma parse_print_value:
  "json_ok v \<Longrightarrow> num_end r \<Longrightarrow> 2 * length (print_with esc v) \<le> f \<Longrightarrow> strings_ok ok v \<Longrightarrow>
     parse_value f (print_with esc v @ r) = Some (v, r)"
proof (induction v arbitrary: r f)
  case JNull
  then obtain g where "f = Suc g" by (cases f) (auto simp: text_of_def)
  then show ?case using literal_ok [of "''null''" JNull r] by (simp add: text_of_def)
next
  case (JBool b)
  then obtain g where "f = Suc g" by (cases f) (auto simp: text_of_def split: if_splits)
  then show ?case
    using literal_ok [of "''true''" "JBool True" r] literal_ok [of "''false''" "JBool False" r]
    by (cases b) (simp_all add: text_of_def)
next
  case (JInt n)
  then obtain g where "f = Suc g" by (cases f) (auto simp: dec_text_def split: if_splits)
  then show ?case using parse_value_number [OF JInt.prems(2)] by simp
next
  case (JFloat t)
  then show ?case by simp
next
  case (JStr s)
  then obtain g where "f = Suc g" by (cases f) (auto simp: print_string_with_def)
  then show ?case
    using print_string_parse [of s r] JStr.prems by (simp add: print_string_with_def)
next
  case (JArr vs)
  then obtain g where f: "f = Suc g" by (cases f) auto
  show ?case
  proof (cases "vs = []")
    case True
    then show ?thesis by (simp add: f join_comma_def)
  next
    case False
    obtain v ws where vs: "vs = v # ws" using False by (cases vs) auto
    have "json_ok v" using JArr.prems(1) by (simp add: vs)
    then obtain c cs where c: "print_with esc v = c # cs" "\<not> json_space c" "c \<noteq> 93" by (rule print_hd)
    have IH: "parse_value f (print_with esc v @ r) = Some (v, r)"
      if "v \<in> set vs" "num_end r" "2 * length (print_with esc v) \<le> f" for v r f
      using JArr.IH [of v r f] JArr.prems(1,4) that by (simp add: list_all_iff)
    have "parse_elems g (join_comma (map (print_with esc) vs) @ 93 # r) = Some (vs, r)"
      using False JArr.prems IH by (intro parse_elems_print) (auto simp: f)
    moreover obtain q where "join_comma (map (print_with esc) vs) @ 93 # r = c # q"
      using c(1) by (cases "ws = []") (auto simp: vs join_comma_Cons)
    ultimately show ?thesis
      using c(2,3) by (simp add: f del: parse_elems.simps)
  qed
next
  case (JObj ms)
  then obtain g where f: "f = Suc g" by (cases f) auto
  show ?case
  proof (cases "ms = []")
    case True
    then show ?thesis by (simp add: f join_comma_def)
  next
    case False
    let ?pr = "\<lambda>(k, v). print_string_with esc k @ 58 # print_with esc v"
    obtain k v ws where ms: "ms = (k, v) # ws" using False by (cases ms) auto
    have IH: "parse_value f (print_with esc v @ r) = Some (v, r)"
      if "(k, v) \<in> set ms" "num_end r" "2 * length (print_with esc v) \<le> f" for k v r f
      using JObj.IH [of "(k, v)" v r f] JObj.prems(1,4) that json_ok_wf [of ms k v] strings_ok_wf [of ok ms k v] by simp
    have "parse_members g (join_comma (map ?pr ms) @ 125 # r) = Some (ms, r)"
      using False JObj.prems IH by (intro parse_members_print) (auto simp: f list_all_iff)
    moreover obtain q where "join_comma (map ?pr ms) @ 125 # r = 34 # q"
      by (cases "ws = []") (auto simp: ms join_comma_Cons print_string_with_def)
    moreover have "dict_of ms = ms" using JObj.prems(1) by (intro dict_of_distinct) simp
    ultimately show ?thesis by (simp add: f del: parse_members.simps)
  qed
qed

lemma parse_print: "json_ok v \<Longrightarrow> strings_ok ok v \<Longrightarrow> parse_json (print_with esc v) = Some v"
proof -
  assume v: "json_ok v" and str: "strings_ok ok v"
  from v obtain c cs where c: "print_with esc v = c # cs" "\<not> json_space c" by (rule print_hd)
  have "take 1 (print_with esc v) \<noteq> [65279]"
  proof (cases v)
    case (JInt n)
    then show ?thesis using dec_text_hd [of n] by (auto simp: is_digit_def)
  qed (use v in \<open>auto simp: print_string_with_def text_of_def\<close>)
  moreover have "parse_value (2 * length (print_with esc v) + 2) (print_with esc v @ []) = Some (v, [])"
    using v str by (intro parse_print_value) auto
  moreover have "skip_ws (print_with esc v) = print_with esc v" using c by simp
  ultimately show ?thesis by (simp add: parse_json_def skip_ws_def)
qed

end

section \<open>Round trip: bytes\<close>

lemma utf8_char_parts:
  assumes "utf8_char c = Some bs"
  shows "utf8_decode (bs @ q) = map_option ((#) c) (utf8_decode q)"
    "bs \<noteq> []" "\<forall>b\<in>set bs. b < 256 \<and> (b < 128 \<longrightarrow> bs = [c])"
proof -
  consider (1) "c < 128" | (2) "128 \<le> c" "c < 2048" | (3) "2048 \<le> c" "c < 65536" "\<not> (55296 \<le> c \<and> c < 57344)"
    | (4) "65536 \<le> c" "c < 1114112"
    using assms(1) by (auto simp: utf8_char_def split: if_splits)
  then have "utf8_decode (bs @ q) = map_option ((#) c) (utf8_decode q) \<and> bs \<noteq> [] \<and> (\<forall>b\<in>set bs. b < 256 \<and> (b < 128 \<longrightarrow> bs = [c]))"
  proof cases
    case 1
    then have "bs = [c]" using assms(1) by (simp add: utf8_char_def)
    with 1 show ?thesis by simp
  next
    case 2
    define x y where "x = c div 64" and "y = c mod 64"
    have c: "c = x * 64 + y" "y < 64" "2 \<le> x" "x < 32" using 2 by (auto simp: x_def y_def)
    have "bs = [192 + x, 128 + y]" using assms(1) 2 by (simp add: utf8_char_def x_def y_def)
    then show ?thesis using c by (simp add: cont_def)
  next
    case 3
    define x y z where "x = c div 4096" and "y = c div 64 mod 64" and "z = c mod 64"
    define u where "u = c div 64"
    have x: "x = u div 64" "y = u mod 64" using div_mult2_eq [of c 64 64] by (simp_all add: x_def y_def u_def)
    have "u = x * 64 + y" "c = u * 64 + z" by (simp add: x, simp add: u_def z_def)
    moreover have "y < 64" "z < 64" by (simp_all add: y_def z_def)
    ultimately have c: "c = x * 4096 + y * 64 + z" "y < 64" "z < 64" "x < 16"
      using 3 by linarith+
    have "x = 0 \<longrightarrow> 32 \<le> y" "x = 13 \<longrightarrow> y < 32" using 3 c by auto
    moreover have "bs = [224 + x, 128 + y, 128 + z]" using assms(1) 3 by (auto simp: utf8_char_def x_def y_def z_def)
    ultimately show ?thesis using c by (auto simp: cont_def)
  next
    case 4
    define x y z w where "x = c div 262144" and "y = c div 4096 mod 64" and "z = c div 64 mod 64" and "w = c mod 64"
    define u v where "u = c div 64" and "v = u div 64"
    have x: "x = v div 64" "y = v mod 64" "z = u mod 64"
      using div_mult2_eq [of c 64 64] div_mult2_eq [of c 4096 64] by (simp_all add: x_def y_def z_def u_def v_def)
    have "v = x * 64 + y" "u = v * 64 + z" "c = u * 64 + w"
      by (simp add: x, simp add: x v_def, simp add: u_def w_def)
    moreover have "y < 64" "z < 64" "w < 64" by (simp_all add: y_def z_def w_def)
    ultimately have c: "c = x * 262144 + y * 4096 + z * 64 + w" "y < 64" "z < 64" "w < 64" "x < 5"
      using 4 by linarith+
    have "x = 0 \<longrightarrow> 16 \<le> y" "x = 4 \<longrightarrow> y < 16" using 4 c by auto
    moreover have "bs = [240 + x, 128 + y, 128 + z, 128 + w]"
      using assms(1) 4 by (auto simp: utf8_char_def x_def y_def z_def w_def split: if_splits)
    ultimately show ?thesis using c by (auto simp: cont_def)
  qed
  then show "utf8_decode (bs @ q) = map_option ((#) c) (utf8_decode q)" "bs \<noteq> []"
    "\<forall>b\<in>set bs. b < 256 \<and> (b < 128 \<longrightarrow> bs = [c])" by auto
qed

lemma utf8_roundtrip:
  "utf8_encode t = Some bs \<Longrightarrow>
     utf8_decode bs = Some t \<and> (\<forall>b\<in>set bs. b < 256 \<and> (b < 128 \<longrightarrow> b \<in> set t))"
proof (induction t arbitrary: bs)
  case (Cons c t)
  then obtain a b where ab: "utf8_char c = Some a" "utf8_encode t = Some b" "bs = a @ b"
    by (auto split: option.splits)
  note u = utf8_char_parts [OF ab(1)]
  have "utf8_decode b = Some t \<and> (\<forall>b\<in>set b. b < 256 \<and> (b < 128 \<longrightarrow> b \<in> set t))"
    by (rule Cons.IH [OF ab(2)])
  with u show ?case by (auto simp: ab(3))
qed simp

text \<open>All code points of a value, and that a printed value holds no control character.\<close>

interpretation plain: json_printer escape_char "\<lambda>_. True"
  by unfold_locales (simp_all add: escape_char_def parse_chars_print)

text \<open>A text without surrogates, as every text read from UTF-8 is.\<close>

definition scalar_text :: "pytext \<Rightarrow> bool" where
  "scalar_text s \<longleftrightarrow> (\<forall>c\<in>set s. c < 55296 \<or> 57344 \<le> c \<and> c < 1114112)"

lemma scalar_utf8: "scalar_text t \<Longrightarrow> utf8_encode t \<noteq> None"
proof (induction t)
  case (Cons c t)
  then have "utf8_char c \<noteq> None" by (auto simp: scalar_text_def utf8_char_def)
  with Cons show ?case by (auto simp: scalar_text_def split: option.splits)
qed simp

lemma hex4_escape: "n < 65536 \<Longrightarrow> hex4 (tl (tl (u_escape n)) @ r) = Some (n, r)"
proof -
  assume n: "n < 65536"
  have d: "n div 4096 = n div 16 div 16 div 16" "n div 256 = n div 16 div 16" by (simp_all add: div_mult2_eq [symmetric])
  have m: "k div 16 * 16 + k mod 16 = k" for k :: nat by simp
  have "((n div 4096 * 16 + n div 256 mod 16) * 16 + n div 16 mod 16) * 16 + n mod 16 = n" unfolding d m ..
  then show ?thesis using n by (simp add: u_escape_def less_mult_imp_div_less)
qed

lemma surrogate_pair:
  assumes "hex4 (xs @ u_escape v @ r) = Some (u, u_escape v @ r)" "hex4 (tl (tl (u_escape v)) @ r) = Some (v, r)"
    "65536 + (u - 55296) * 1024 + (v - 56320) = c" "55296 \<le> u" "u < 56320" "56320 \<le> v" "v < 57344"
  shows "unicode_escape (xs @ u_escape v @ r) = Some (c, r)"
proof -
  have t: "take 2 (u_escape v @ r) = [92, 117]" "drop 2 (u_escape v @ r) = tl (tl (u_escape v)) @ r"
    by (simp_all add: u_escape_def)
  show ?thesis
    unfolding unicode_escape_def assms(1) option.case prod.case t assms(2) using assms(3-7) by simp
qed

lemma parse_ascii_char:
  assumes "c < 55296 \<or> 57344 \<le> c \<and> c < 1114112"
  shows "parse_chars (Suc f) (escape_ascii c @ r) = map_option (\<lambda>(t, q). (c # t, q)) (parse_chars f r)"
proof -
  consider "c < 127" | "127 \<le> c" "c < 65536" | "65536 \<le> c" by linarith
  then show ?thesis
  proof cases
    case 1
    then show ?thesis using parse_escape [of f c r] by (simp add: escape_ascii_def)
  next
    case 2
    have "hex4 (tl (tl (u_escape c)) @ r) = Some (c, r)" using 2 by (intro hex4_escape)
    then have "unicode_escape (tl (tl (u_escape c)) @ r) = Some (c, r)"
    proof -
      have "(55296 \<le> c \<and> c < 56320 \<and> take 2 r = [92, 117]) = False" using assms 2 by auto
      then show ?thesis using \<open>hex4 _ = _\<close> by (simp only: unicode_escape_def option.case prod.case if_False)
    qed
    then show ?thesis using 2 by (simp add: escape_ascii_def u_escape_def)
  next
    case 3
    let ?hi = "55296 + (c - 65536) div 1024" and ?lo = "56320 + (c - 65536) mod 1024"
    have hi: "?hi < 56320" using assms 3 by (simp add: less_mult_imp_div_less)
    have lo: "?lo < 57344" using mod_less_divisor [of 1024 "c - 65536"] by simp
    have "hex4 (tl (tl (u_escape ?hi)) @ (u_escape ?lo @ r)) = Some (?hi, u_escape ?lo @ r)" using hi by (intro hex4_escape) linarith
    moreover have "hex4 (tl (tl (u_escape ?lo)) @ r) = Some (?lo, r)" using lo by (intro hex4_escape) linarith
    moreover have "65536 + (?hi - 55296) * 1024 + (?lo - 56320) = c" using 3 by (simp add: algebra_simps)
    ultimately have "unicode_escape (tl (tl (u_escape ?hi)) @ u_escape ?lo @ r) = Some (c, r)"
      by (rule surrogate_pair [OF _ _ _ _ hi _ lo]) simp_all
    moreover have "parse_chars (Suc f) (u_escape n @ q) = (case unicode_escape (tl (tl (u_escape n)) @ q) of
        None \<Rightarrow> None | Some (x, r) \<Rightarrow> map_option (\<lambda>(t, q). (x # t, q)) (parse_chars f r))" for n q
      by (simp add: u_escape_def)
    moreover have "escape_ascii c @ r = u_escape ?hi @ u_escape ?lo @ r" using 3 by (simp add: escape_ascii_def)
    ultimately show ?thesis by (simp only: option.case prod.case)
  qed
qed

lemma parse_chars_ascii:
  "scalar_text s \<Longrightarrow> length s < f \<Longrightarrow> parse_chars f (concat (map escape_ascii s) @ 34 # r) = Some (s, r)"
proof (induction s arbitrary: f)
  case Nil
  then show ?case by (cases f) simp_all
next
  case (Cons c s)
  then obtain g where f: "f = Suc g" by (cases f) auto
  have "parse_chars (Suc g) (escape_ascii c @ concat (map escape_ascii s) @ 34 # r) = Some (c # s, r)"
    using Cons parse_ascii_char [of c] by (simp add: f scalar_text_def del: parse_chars.simps)
  then show ?case by (simp only: f list.map concat.simps append_assoc)
qed

interpretation ascii: json_printer escape_ascii scalar_text
  by unfold_locales (simp_all add: escape_ascii_def escape_char_def u_escape_def parse_chars_ascii)

fun code_points :: "json \<Rightarrow> nat set" where
  "code_points (JStr s) = set s"
| "code_points (JArr vs) = (\<Union>v\<in>set vs. code_points v)"
| "code_points (JObj ms) = (\<Union>(k, v)\<in>set ms. set k \<union> code_points v)"
| "code_points _ = {}"

lemma set_escape: "x \<in> set (escape_char c) \<Longrightarrow> 32 \<le> x \<and> (x < 128 \<or> x = c)"
  by (auto simp: escape_char_def hex_code_def split: if_splits)

lemma set_join_comma: "x \<in> set (join_comma ps) \<Longrightarrow> x = 44 \<or> (\<exists>p\<in>set ps. x \<in> set p)"
  by (cases ps) (auto simp: join_comma_def split: if_splits)

lemma set_print_string: "x \<in> set (print_string s) \<Longrightarrow> 32 \<le> x \<and> (x < 128 \<or> x \<in> set s)"
  using set_escape by (fastforce simp: print_string_with_def)

lemma print_printable: "json_ok v \<Longrightarrow> x \<in> set (print_json v) \<Longrightarrow> 32 \<le> x \<and> (x < 128 \<or> x \<in> code_points v)"
proof (induction v arbitrary: x)
  case (JInt n)
  then show ?case
    using dec_nat_digits [of "nat n"] dec_nat_digits [of "nat (- n)"]
    by (auto simp: dec_text_def list_all_iff is_digit_def split: if_splits)
next
  case (JStr s)
  then show ?case using set_print_string [of x s] by auto
next
  case (JArr vs)
  then show ?case by (fastforce simp: list_all_iff dest!: set_join_comma)
next
  case (JObj ms)
  have "x = 123 \<or> x = 125 \<or> x \<in> set (join_comma (map (\<lambda>(k, v). print_string k @ 58 # print_json v) ms))"
    using JObj.prems(2) by auto
  then consider "x = 123 \<or> x = 125 \<or> x = 44 \<or> x = 58"
    | k v where "(k, v) \<in> set ms" "x \<in> set (print_string k)" | k v where "(k, v) \<in> set ms" "x \<in> set (print_json v)"
    by (auto dest!: set_join_comma)
  then show ?case
  proof cases
    case (2 k v)
    then show ?thesis using set_print_string [of x k] by force
  next
    case (3 k v)
    then have "32 \<le> x \<and> (x < 128 \<or> x \<in> code_points v)"
      using JObj.IH [of "(k, v)" v x] json_ok_wf [OF JObj.prems(1) 3(1)] by simp
    with 3(1) show ?thesis by force
  qed auto
qed (auto simp: text_of_def split: if_splits)

lemma loads_dumps:
  assumes "json_ok v" "dumps v = Inr b"
  shows "loads b = Inr v" "10 \<notin> set b"
proof -
  from assms(2) obtain bs where bs: "utf8_encode (print_json v) = Some bs" "b = map of_nat bs"
    by (auto simp: dumps_def split: option.splits)
  note u = utf8_roundtrip [OF bs(1)]
  have "map unat b = bs"
    using u by (simp add: bs(2) map_idI unat_of_nat take_bit_eq_mod)
  then show "loads b = Inr v" using u plain.parse_print [OF assms(1)] by (simp add: loads_def)
  have "\<forall>x\<in>set bs. 10 \<noteq> x" using u print_printable [OF assms(1)] by fastforce
  then show "10 \<notin> set b"
    using \<open>map unat b = bs\<close> by force
qed

end
