(* ===== verification/Log_Wire.thy ===== *)
theory Log_Wire
  imports Json_Text Log_Engine
begin

text \<open>
  \<^verbatim>\<open>cll/log/wire.py\<close>: decimal counters, base64 byte strings, ISO times, and the JSON forms of
  entries, witness rows and checkpoint states, with the round trip of each. Python's \<^verbatim>\<open>base64\<close> and
  the proleptic Gregorian calendar of \<^verbatim>\<open>datetime\<close> are modelled here. Decoders take the error class
  they raise.
\<close>

section \<open>Calendar\<close>

definition is_leap :: "nat \<Rightarrow> bool" where
  "is_leap y \<longleftrightarrow> y mod 4 = 0 \<and> (y mod 100 \<noteq> 0 \<or> y mod 400 = 0)"

definition days_in_month :: "nat \<Rightarrow> nat \<Rightarrow> nat" where
  "days_in_month y m =
     (if m = 2 then if is_leap y then 29 else 28 else if m \<in> {4, 6, 9, 11} then 30 else 31)"

definition days_before_year :: "nat \<Rightarrow> nat" where
  "days_before_year y = (let p = y - 1 in p * 365 + p div 4 - p div 100 + p div 400)"

definition days_before_month :: "nat \<Rightarrow> nat \<Rightarrow> nat" where
  "days_before_month y m = sum_list (map (days_in_month y) [1..<m])"

text \<open>The year of a day (0 is 1 January of year 1) and the day within it, as \<^verbatim>\<open>_ord2ymd\<close> does.\<close>

definition split_year :: "nat \<Rightarrow> nat \<times> nat" where
  "split_year n =
     (let n400 = n div 146097; r400 = n mod 146097; n100 = r400 div 36524; r100 = r400 mod 36524;
          n4 = r100 div 1461; r4 = r100 mod 1461; n1 = r4 div 365; r1 = r4 mod 365;
          year = n400 * 400 + 1 + n100 * 100 + n4 * 4 + n1 in
      if n1 = 4 \<or> n100 = 4 then (year - 1, 365) else (year, r1))"

fun split_month :: "nat \<Rightarrow> nat \<Rightarrow> nat \<Rightarrow> nat \<Rightarrow> nat \<times> nat" where
  "split_month 0 y m r = (m, r + 1)"
| "split_month (Suc f) y m r =
     (if r < days_in_month y m then (m, r + 1) else split_month f y (m + 1) (r - days_in_month y m))"

section \<open>Times\<close>

text \<open>\<^verbatim>\<open>"%0kd" % n\<close> for a number that fits.\<close>

fun fixed :: "nat \<Rightarrow> nat \<Rightarrow> pytext" where
  "fixed 0 n = []"
| "fixed (Suc k) n = fixed k (n div 10) @ [48 + n mod 10]"

definition millis_of :: "datetime \<Rightarrow> nat" where
  "millis_of t = (case t of Aware u \<Rightarrow> nat (u div 1000) | Naive \<Rightarrow> 0)"

definition render_time :: "nat \<Rightarrow> pytext" where
  "render_time ms =
     (let day = ms div 86400000; tod = ms mod 86400000; (y, r) = split_year day; (mo, d) = split_month 11 y 1 r in
      fixed 4 y @ [45] @ fixed 2 mo @ [45] @ fixed 2 d @ [84] @ fixed 2 (tod div 3600000) @ [58] @
      fixed 2 (tod div 60000 mod 60) @ [58] @ fixed 2 (tod div 1000 mod 60) @ [46] @ fixed 3 (tod mod 1000) @ [90])"

definition format_time :: "datetime \<Rightarrow> pytext res" where
  "format_time v = bindR (normalize_time InvalidError v) (\<lambda>t. Inr (render_time (millis_of t)))"

definition parse_fixed :: "nat \<Rightarrow> pytext \<Rightarrow> nat option" where
  "parse_fixed k s =
     (if length s = k \<and> list_all is_digit s then Some (foldl (\<lambda>a c. a * 10 + (c - 48)) 0 s) else None)"

text \<open>The pattern of \<^verbatim>\<open>_TIME\<close>: its seven numbers, or \<open>None\<close> when the text does not match.\<close>

definition match_time :: "pytext \<Rightarrow> (nat \<times> nat \<times> nat \<times> nat \<times> nat \<times> nat \<times> nat) option" where
  "match_time s =
     (if length s = 24 \<and> s ! 4 = 45 \<and> s ! 7 = 45 \<and> s ! 10 = 84 \<and> s ! 13 = 58 \<and> s ! 16 = 58 \<and> s ! 19 = 46 \<and> s ! 23 = 90 then
        (case (parse_fixed 4 (take 4 s), parse_fixed 2 (take 2 (drop 5 s)), parse_fixed 2 (take 2 (drop 8 s)),
               parse_fixed 2 (take 2 (drop 11 s)), parse_fixed 2 (take 2 (drop 14 s)), parse_fixed 2 (take 2 (drop 17 s)),
               parse_fixed 3 (take 3 (drop 20 s))) of
           (Some y, Some mo, Some d, Some h, Some mi, Some sec, Some ms) \<Rightarrow> Some (y, mo, d, h, mi, sec, ms)
         | _ \<Rightarrow> None)
      else None)"

definition parse_time :: "py_error \<Rightarrow> pytext \<Rightarrow> datetime res" where
  "parse_time err text =
     (case match_time text of
        None \<Rightarrow> Inl err
      | Some (y, mo, d, h, mi, sec, ms) \<Rightarrow>
          if 1 \<le> y \<and> y \<le> 9999 \<and> 1 \<le> mo \<and> mo \<le> 12 \<and> 1 \<le> d \<and> d \<le> days_in_month y mo \<and> h < 24 \<and> mi < 60 \<and> sec < 60
          then
            (let day = days_before_year y + days_before_month y mo + (d - 1);
                 tod = ((h * 60 + mi) * 60 + sec) * 1000 + ms in
             Inr (Aware (int (day * 86400000 + tod) * 1000)))
          else Inl err)"

section \<open>Counters and byte strings\<close>

definition format_decimal :: "int \<Rightarrow> pytext" where
  "format_decimal v = dec_text v"

definition is_decimal :: "pytext \<Rightarrow> bool" where
  "is_decimal t \<longleftrightarrow> t = [48] \<or> (t \<noteq> [] \<and> list_all is_digit t \<and> hd t \<noteq> 48)"

definition parse_decimal :: "py_error \<Rightarrow> pytext \<Rightarrow> int res" where
  "parse_decimal err text =
     (if length text > 20 \<or> \<not> is_decimal text then Inl err
      else let v = digits_value text in if v \<ge> 2 ^ 64 then Inl err else Inr v)"

definition b64_char :: "nat \<Rightarrow> nat" where
  "b64_char n = (if n < 26 then 65 + n else if n < 52 then 71 + n else if n < 62 then n - 4 else if n = 62 then 43 else 47)"

definition b64_value :: "nat \<Rightarrow> nat option" where
  "b64_value c =
     (if 65 \<le> c \<and> c \<le> 90 then Some (c - 65) else if 97 \<le> c \<and> c \<le> 122 then Some (c - 71)
      else if 48 \<le> c \<and> c \<le> 57 then Some (c + 4) else if c = 43 then Some 62 else if c = 47 then Some 63 else None)"

fun b64_encode :: "nat list \<Rightarrow> pytext" where
  "b64_encode [] = []"
| "b64_encode [a] = [b64_char (a div 4), b64_char (a mod 4 * 16), 61, 61]"
| "b64_encode [a, b] = [b64_char (a div 4), b64_char (a mod 4 * 16 + b div 16), b64_char (b mod 16 * 4), 61]"
| "b64_encode (a # b # c # r) =
     b64_char (a div 4) # b64_char (a mod 4 * 16 + b div 16) # b64_char (b mod 16 * 4 + c div 64) # b64_char (c mod 64) #
     b64_encode r"

fun b64_decode :: "pytext \<Rightarrow> nat list option" where
  "b64_decode [] = Some []"
| "b64_decode (p # q # r # s # rest) =
     (case (b64_value p, b64_value q) of
        (Some w, Some x) \<Rightarrow>
          if r = 61 \<and> s = 61 \<and> rest = [] then Some [w * 4 + x div 16]
          else (case b64_value r of
            None \<Rightarrow> None
          | Some y \<Rightarrow>
              if s = 61 \<and> rest = [] then Some [w * 4 + x div 16, x mod 16 * 16 + y div 4]
              else (case b64_value s of
                None \<Rightarrow> None
              | Some z \<Rightarrow>
                  map_option (\<lambda>bs. (w * 4 + x div 16) # (x mod 16 * 16 + y div 4) # (y mod 4 * 64 + z) # bs)
                    (b64_decode rest)))
      | _ \<Rightarrow> None)"
| "b64_decode _ = None"

definition encode_bytes :: "bytes \<Rightarrow> pytext" where
  "encode_bytes b = b64_encode (map unat b)"

text \<open>Decoding is strict: what decodes must encode back to the same text.\<close>

definition decode_bytes :: "py_error \<Rightarrow> pytext \<Rightarrow> bytes res" where
  "decode_bytes err text =
     (case b64_decode text of
        None \<Rightarrow> Inl err
      | Some decoded \<Rightarrow> if b64_encode decoded \<noteq> text then Inl err else Inr (map of_nat decoded))"

section \<open>Field access\<close>

definition as_object :: "py_error \<Rightarrow> json \<Rightarrow> (pytext \<times> json) list res" where
  "as_object err v = (case v of JObj ms \<Rightarrow> Inr ms | _ \<Rightarrow> Inl err)"

definition required :: "py_error \<Rightarrow> string \<Rightarrow> (pytext \<times> json) list \<Rightarrow> json res" where
  "required err key ms = (case map_of ms (text_of key) of None \<Rightarrow> Inl err | Some v \<Rightarrow> Inr v)"

text \<open>\<^verbatim>\<open>wire.get(key)\<close>: absent and \<^verbatim>\<open>null\<close> are both \<open>None\<close>.\<close>

definition jget :: "string \<Rightarrow> (pytext \<times> json) list \<Rightarrow> json option" where
  "jget key ms = (case map_of ms (text_of key) of None \<Rightarrow> None | Some v \<Rightarrow> if v = JNull then None else Some v)"

definition as_string :: "py_error \<Rightarrow> json \<Rightarrow> pytext res" where
  "as_string err v = (case v of JStr s \<Rightarrow> Inr s | _ \<Rightarrow> Inl err)"

definition as_integer :: "py_error \<Rightarrow> json \<Rightarrow> int res" where
  "as_integer err v = (case v of JInt n \<Rightarrow> Inr n | _ \<Rightarrow> Inl err)"

definition as_list :: "py_error \<Rightarrow> json \<Rightarrow> json list res" where
  "as_list err v = (case v of JArr vs \<Rightarrow> Inr vs | _ \<Rightarrow> Inl err)"

definition optional :: "('a \<Rightarrow> 'b res) \<Rightarrow> 'a option \<Rightarrow> 'b option res" where
  "optional f v = (case v of None \<Rightarrow> Inr None | Some x \<Rightarrow> bindR (f x) (\<lambda>y. Inr (Some y)))"

section \<open>Entries\<close>

definition entry_to_wire :: "Entry \<Rightarrow> json res" where
  "entry_to_wire entry =
     bindR (format_time (en_appended_at entry)) (\<lambda>t.
     Inr (JObj [(text_of ''seq'', JStr (format_decimal (en_seq entry))),
                (text_of ''value'', JStr (encode_bytes (en_value entry))),
                (text_of ''appendedAt'', JStr t)]))"

definition entry_from_wire :: "py_error \<Rightarrow> json \<Rightarrow> Entry res" where
  "entry_from_wire err wire =
     bindR (as_object err wire) (\<lambda>wire.
     bindR (bindR (required err ''seq'' wire) (as_string err)) (\<lambda>sq.
     bindR (parse_decimal err sq) (\<lambda>seq.
     bindR (bindR (required err ''value'' wire) (as_string err)) (\<lambda>v.
     bindR (decode_bytes err v) (\<lambda>value.
     bindR (bindR (required err ''appendedAt'' wire) (as_string err)) (\<lambda>t.
     bindR (parse_time err t) (\<lambda>at.
     Inr \<lparr>en_seq = seq, en_value = value, en_appended_at = at\<rparr>)))))))"

section \<open>Witness rows\<close>

definition opt_member :: "string \<Rightarrow> json option \<Rightarrow> (pytext \<times> json) list" where
  "opt_member key v = (case v of None \<Rightarrow> [] | Some j \<Rightarrow> [(text_of key, j)])"

definition receipt_members :: "WitnessReceipt option \<Rightarrow> (pytext \<times> json) list" where
  "receipt_members receipt =
     (case receipt of
        None \<Rightarrow> []
      | Some r \<Rightarrow>
          [(text_of ''receipt'', JStr (encode_bytes (wr_bytes r)))] @
          opt_member ''entryHash'' (map_option JStr (wr_entry_hash r)) @
          opt_member ''entryHashScheme'' (map_option JStr (wr_entry_hash_scheme r)) @
          opt_member ''leafIndex'' (map_option JInt (wr_leaf_index r)) @
          opt_member ''treeSize'' (map_option JInt (wr_tree_size r)))"

definition witness_to_wire :: "WitnessState \<Rightarrow> json res" where
  "witness_to_wire value =
     bindR (format_time (ws_next_attempt_at value)) (\<lambda>t.
     Inr (JObj (
       [(text_of ''witnessId'', JStr (ws_witness_id value)),
        (text_of ''checkpointSize'', JStr (format_decimal (ws_checkpoint_size value))),
        (text_of ''checkpoint'', JStr (encode_bytes (ws_checkpoint value))),
        (text_of ''attempts'', JInt (ws_attempts value)),
        (text_of ''nextAttemptAt'', JStr t)] @
       receipt_members (ws_receipt value) @
       [(text_of ''permanent'', JBool (ws_permanent value))] @
       opt_member ''lastError'' (map_option JStr (ws_last_error value)))))"

definition receipt_from_wire :: "py_error \<Rightarrow> (pytext \<times> json) list \<Rightarrow> WitnessReceipt option res" where
  "receipt_from_wire err wire =
     (case jget ''receipt'' wire of
        Some rb \<Rightarrow>
          bindR (optional (as_string err) (jget ''entryHash'' wire)) (\<lambda>eh.
          bindR (optional (as_string err) (jget ''entryHashScheme'' wire)) (\<lambda>es.
          bindR (optional (as_integer err) (jget ''leafIndex'' wire)) (\<lambda>li.
          bindR (optional (as_integer err) (jget ''treeSize'' wire)) (\<lambda>ts.
          bindR (bindR (as_string err rb) (decode_bytes err)) (\<lambda>b.
          Inr (Some \<lparr>wr_bytes = b, wr_entry_hash = eh, wr_entry_hash_scheme = es, wr_leaf_index = li,
                     wr_tree_size = ts\<rparr>))))))
      | None \<Rightarrow>
          if jget ''entryHash'' wire \<noteq> None \<or> jget ''entryHashScheme'' wire \<noteq> None
             \<or> jget ''leafIndex'' wire \<noteq> None \<or> jget ''treeSize'' wire \<noteq> None
          then Inl err else Inr None)"

definition witness_from_wire :: "py_error \<Rightarrow> json \<Rightarrow> WitnessState res" where
  "witness_from_wire err wire =
     bindR (as_object err wire) (\<lambda>wire.
     bindR (bindR (required err ''attempts'' wire) (as_integer err)) (\<lambda>attempts.
     if \<not> (0 \<le> attempts \<and> attempts \<le> MAX_ATTEMPTS) then Inl err
     else
       bindR (required err ''permanent'' wire) (\<lambda>perm.
       case perm of
         JBool permanent \<Rightarrow>
           bindR (optional (as_string err) (jget ''lastError'' wire)) (\<lambda>last_error.
           bindR (receipt_from_wire err wire) (\<lambda>receipt.
           bindR (bindR (required err ''witnessId'' wire) (as_string err)) (\<lambda>witness_id.
           bindR (bindR (bindR (required err ''checkpointSize'' wire) (as_string err)) (parse_decimal err)) (\<lambda>checkpoint_size.
           bindR (bindR (bindR (required err ''checkpoint'' wire) (as_string err)) (decode_bytes err)) (\<lambda>checkpoint.
           bindR (bindR (bindR (required err ''nextAttemptAt'' wire) (as_string err)) (parse_time err)) (\<lambda>t.
           Inr \<lparr>ws_witness_id = witness_id, ws_checkpoint_size = checkpoint_size, ws_checkpoint = checkpoint,
                ws_attempts = attempts, ws_next_attempt_at = t, ws_receipt = receipt, ws_permanent = permanent,
                ws_last_error = last_error\<rparr>))))))
       | _ \<Rightarrow> Inl err)))"

section \<open>States\<close>

definition checkpoint_members :: "CheckpointState option \<Rightarrow> (pytext \<times> json) list" where
  "checkpoint_members c =
     (case c of
        None \<Rightarrow> []
      | Some c \<Rightarrow>
          [(text_of ''checkpoint'', JStr (encode_bytes (cs_bytes c))),
           (text_of ''checkpointSize'', JStr (format_decimal (cs_size c))),
           (text_of ''checkpointIndexedSeq'', JStr (format_decimal (cs_indexed_seq c))),
           (text_of ''checkpointPeaks'', JArr (map (\<lambda>p. JStr (encode_bytes p)) (cs_peaks c)))])"

definition state_to_wire :: "CllState \<Rightarrow> json res" where
  "state_to_wire value =
     bindR (optional format_time (cl_first_pending_at value)) (\<lambda>t.
     bindR (mapR witness_to_wire (cl_witnesses value)) (\<lambda>rows.
     Inr (JObj (
       [(text_of ''size'', JStr (format_decimal (cl_size value))),
        (text_of ''indexedSeq'', JStr (format_decimal (cl_indexed_seq value))),
        (text_of ''nodes'', JArr (map (\<lambda>n. JStr (encode_bytes n)) (cl_nodes value)))] @
       opt_member ''firstPendingAt'' (map_option JStr t) @
       checkpoint_members (cl_checkpoint value) @
       [(text_of ''witnesses'', JArr rows)]))))"

definition bytes_of_json :: "py_error \<Rightarrow> json \<Rightarrow> bytes res" where
  "bytes_of_json err v = bindR (as_string err v) (decode_bytes err)"

definition checkpoint_from_wire :: "py_error \<Rightarrow> (pytext \<times> json) list \<Rightarrow> CheckpointState option res" where
  "checkpoint_from_wire err wire =
     (case (jget ''checkpoint'' wire, jget ''checkpointSize'' wire, jget ''checkpointIndexedSeq'' wire,
            jget ''checkpointPeaks'' wire) of
        (Some c, Some s, Some i, Some ps) \<Rightarrow>
          bindR (as_list err ps) (\<lambda>ps.
          bindR (bytes_of_json err c) (\<lambda>b.
          bindR (bindR (as_string err s) (parse_decimal err)) (\<lambda>sz.
          bindR (bindR (as_string err i) (parse_decimal err)) (\<lambda>idx.
          bindR (mapR (bytes_of_json err) ps) (\<lambda>peaks.
          Inr (Some \<lparr>cs_bytes = b, cs_size = sz, cs_indexed_seq = idx, cs_peaks = peaks\<rparr>))))))
      | (None, None, None, None) \<Rightarrow> Inr None
      | _ \<Rightarrow> Inl err)"

definition state_from_wire :: "py_error \<Rightarrow> json \<Rightarrow> CllState res" where
  "state_from_wire err wire =
     bindR (as_object err wire) (\<lambda>wire.
     bindR (bindR (required err ''nodes'' wire) (as_list err)) (\<lambda>nodes.
     bindR (bindR (required err ''witnesses'' wire) (as_list err)) (\<lambda>witnesses.
     bindR (checkpoint_from_wire err wire) (\<lambda>checkpoint.
     bindR (bindR (bindR (required err ''size'' wire) (as_string err)) (parse_decimal err)) (\<lambda>sz.
     bindR (bindR (bindR (required err ''indexedSeq'' wire) (as_string err)) (parse_decimal err)) (\<lambda>idx.
     bindR (mapR (bytes_of_json err) nodes) (\<lambda>nodes.
     bindR (optional (\<lambda>j. bindR (as_string err j) (parse_time err)) (jget ''firstPendingAt'' wire)) (\<lambda>t.
     bindR (mapR (witness_from_wire err) witnesses) (\<lambda>rows.
     Inr \<lparr>cl_size = sz, cl_nodes = nodes, cl_indexed_seq = idx, cl_first_pending_at = t,
          cl_checkpoint = checkpoint, cl_witnesses = rows\<rparr>)))))))))"

section \<open>Round trips of the scalar forms\<close>

lemma dec_nat_length: "0 < k \<Longrightarrow> n < 10 ^ k \<Longrightarrow> length (dec_nat n) \<le> k"
proof (induction k arbitrary: n)
  case (Suc k)
  show ?case
  proof (cases "n < 10")
    case True
    then show ?thesis by (subst dec_nat.simps) simp
  next
    case False
    then have "0 < k" using Suc.prems by (cases k) auto
    moreover have "n div 10 < 10 ^ k" using Suc.prems by (simp add: less_mult_imp_div_less mult.commute)
    ultimately show ?thesis using Suc.IH [of "n div 10"] False by (subst dec_nat.simps) simp
  qed
qed simp

lemma parse_format_decimal:
  assumes "0 \<le> n" "n < 2 ^ 64"
  shows "parse_decimal e (format_decimal n) = Inr n"
proof -
  have d: "format_decimal n = dec_nat (nat n)" using assms by (simp add: format_decimal_def dec_text_def)
  have "nat n < 10 ^ 20" using assms by simp
  then have "length (dec_nat (nat n)) \<le> 20" by (intro dec_nat_length) auto
  moreover have "is_decimal (dec_nat (nat n))"
    using dec_nat_digits [of "nat n"] dec_nat_hd [of "nat n"] dec_nat_0 by (cases "nat n = 0") (auto simp: is_decimal_def)
  ultimately show ?thesis using assms by (simp add: parse_decimal_def d Let_def)
qed

lemma b64_chars: "list_all (\<lambda>n. b64_value (b64_char n) = Some n \<and> b64_char n \<noteq> 61) [0..<64]"
  by code_simp

lemma b64_char_ok [simp]: "n < 64 \<Longrightarrow> b64_value (b64_char n) = Some n" "n < 64 \<Longrightarrow> b64_char n \<noteq> 61"
  using b64_chars by (simp_all add: list_all_iff)

lemma b64_roundtrip: "\<forall>b\<in>set bs. b < 256 \<Longrightarrow> b64_decode (b64_encode bs) = Some bs"
proof (induction bs rule: b64_encode.induct)
  case (2 a)
  then have "a div 4 < 64" "a mod 4 * 16 < 64" by auto
  moreover have "a div 4 * 4 + a mod 4 = a" by simp
  ultimately show ?case by simp
next
  case (3 a b)
  then have "a div 4 < 64" "a mod 4 * 16 + b div 16 < 64" "b mod 16 * 4 < 64" "b div 16 < 16" by auto
  moreover have "a div 4 * 4 + a mod 4 = a" "b div 16 * 16 + b mod 16 = b" by simp_all
  ultimately show ?case by (simp add: algebra_simps)
next
  case (4 a b c r)
  then have "a div 4 < 64" "a mod 4 * 16 + b div 16 < 64" "b mod 16 * 4 + c div 64 < 64" "c mod 64 < 64"
    "b div 16 < 16" "c div 64 < 4" by auto
  moreover have "a div 4 * 4 + a mod 4 = a" "b div 16 * 16 + b mod 16 = b" "c div 64 * 64 + c mod 64 = c" by simp_all
  moreover have "b64_decode (b64_encode r) = Some r" using 4 by auto
  ultimately show ?case by (simp add: algebra_simps)
qed simp

lemma decode_encode_bytes [simp]: "decode_bytes e (encode_bytes b) = Inr b"
proof -
  have "b64_decode (b64_encode (map unat b)) = Some (map unat b)" by (rule b64_roundtrip) auto
  then show ?thesis by (simp add: decode_bytes_def encode_bytes_def o_def)
qed

lemma decode_bytes_canonical:
  assumes "decode_bytes e t = Inr b" shows "t = encode_bytes b"
proof -
  from assms obtain ds where ds: "b64_decode t = Some ds" "b64_encode ds = t" "b = map of_nat ds"
    by (auto simp: decode_bytes_def split: option.splits if_splits)
  have "\<forall>d\<in>set ds. d < 256" if "b64_decode s = Some ds" for s ds
    using that
  proof (induction s arbitrary: ds rule: b64_decode.induct)
    case (2 p q r s rest)
    have v: "b64_value c = Some n \<Longrightarrow> n < 64" for c n by (auto simp: b64_value_def split: if_splits)
    show ?case
    proof
      fix d assume "d \<in> set ds"
      then show "d < 256"
        using 2 by (auto dest!: v split: option.splits if_splits)
    qed
  qed auto
  then have "map unat b = ds"
    using ds(1) by (auto simp: ds(3) map_idI unat_of_nat take_bit_eq_mod)
  with ds(2) show ?thesis by (simp add: encode_bytes_def)
qed

section \<open>Round trip of times\<close>

lemma year_parts:
  fixes a b c d :: nat
  assumes "b \<le> 3" "c \<le> 24" "d \<le> 3"
  defines "p \<equiv> a * 400 + b * 100 + c * 4 + d"
  shows "days_before_year (p + 1) = 146097 * a + 36524 * b + 1461 * c + 365 * d"
    and "is_leap (p + 1) \<longleftrightarrow> d = 3 \<and> (c = 24 \<longrightarrow> b = 3)"
proof -
  have q4: "p = 4 * (100 * a + 25 * b + c) + d" and q100: "p = 100 * (4 * a + b) + (c * 4 + d)"
    and q400: "p = 400 * a + (b * 100 + c * 4 + d)"
    by (simp_all add: p_def)
  have "p div 4 = 100 * a + 25 * b + c" unfolding q4 using assms(3) by simp
  moreover have "p div 100 = 4 * a + b" unfolding q100 using assms(2,3) by simp
  moreover have "p div 400 = a" unfolding q400 using assms(1-3) by simp
  ultimately show "days_before_year (p + 1) = 146097 * a + 36524 * b + 1461 * c + 365 * d"
    by (simp add: days_before_year_def Let_def p_def)
  have "(p + 1) mod 4 = 0 \<longleftrightarrow> d = 3"
  proof -
    have "p + 1 = (d + 1) + 4 * (100 * a + 25 * b + c)" by (simp add: q4)
    then have "(p + 1) mod 4 = (d + 1) mod 4" by (simp only: mod_mult_self2)
    then show ?thesis using assms(3) by (cases "d = 3") auto
  qed
  moreover have "(p + 1) mod 100 = 0 \<longleftrightarrow> c = 24 \<and> d = 3"
  proof -
    have "p + 1 = (c * 4 + d + 1) + 100 * (4 * a + b)" by (simp add: q100)
    then have "(p + 1) mod 100 = (c * 4 + d + 1) mod 100" by (simp only: mod_mult_self2)
    moreover have "(c * 4 + d + 1) mod 100 = 0 \<longleftrightarrow> c * 4 + d + 1 = 100"
    proof (cases "c * 4 + d + 1 = 100")
      case False
      then have "c * 4 + d + 1 < 100" using assms(2,3) by linarith
      then show ?thesis by simp
    qed simp
    ultimately show ?thesis using assms(2,3) by linarith
  qed
  moreover have "(p + 1) mod 400 = 0 \<longleftrightarrow> b = 3 \<and> c = 24 \<and> d = 3"
  proof -
    have "p + 1 = (b * 100 + c * 4 + d + 1) + 400 * a" by (simp add: q400)
    then have "(p + 1) mod 400 = (b * 100 + c * 4 + d + 1) mod 400" by (simp only: mod_mult_self2)
    moreover have "(b * 100 + c * 4 + d + 1) mod 400 = 0 \<longleftrightarrow> b * 100 + c * 4 + d + 1 = 400"
    proof (cases "b * 100 + c * 4 + d + 1 = 400")
      case False
      then have "b * 100 + c * 4 + d + 1 < 400" using assms(1-3) by linarith
      then show ?thesis by simp
    qed simp
    ultimately show ?thesis using assms(1-3) by linarith
  qed
  ultimately show "is_leap (p + 1) \<longleftrightarrow> d = 3 \<and> (c = 24 \<longrightarrow> b = 3)"
    unfolding is_leap_def by (simp only:) auto
qed

lemma split_year_ok:
  assumes "n < 3652059" "split_year n = (y, r)"
  shows "1 \<le> y" "y \<le> 9999" "days_before_year y + r = n" "r < (if is_leap y then 366 else 365)"
proof -
  define a where "a = n div 146097"
  define r400 where "r400 = n mod 146097"
  define b where "b = r400 div 36524"
  define r100 where "r100 = r400 mod 36524"
  define c where "c = r100 div 1461"
  define r4 where "r4 = r100 mod 1461"
  define d where "d = r4 div 365"
  define r1 where "r1 = r4 mod 365"
  note defs = a_def r400_def b_def r100_def c_def r4_def d_def r1_def
  have e: "n = 146097 * a + r400" "r400 = 36524 * b + r100" "r100 = 1461 * c + r4" "r4 = 365 * d + r1"
    unfolding a_def r400_def b_def r100_def c_def r4_def d_def r1_def by (rule mult_div_mod_eq [symmetric])+
  have l: "r400 < 146097" "r100 < 36524" "r4 < 1461" "r1 < 365"
    unfolding r400_def r100_def r4_def r1_def by (rule mod_less_divisor, simp)+
  have b: "b \<le> 4" "c \<le> 24" "d \<le> 4" using e l by linarith+
  have sy: "split_year n = (if d = 4 \<or> b = 4 then (a * 400 + 1 + b * 100 + c * 4 + d - 1, 365) else (a * 400 + 1 + b * 100 + c * 4 + d, r1))"
    by (simp only: split_year_def Let_def defs)
  have "1 \<le> y \<and> y \<le> 9999 \<and> days_before_year y + r = n \<and> r < (if is_leap y then 366 else 365)"
  proof (cases "b = 4")
    case True
    then have z: "r100 = 0" "c = 0" "d = 0" "r1 = 0" using e l by linarith+
    then have y: "y = a * 400 + 3 * 100 + 24 * 4 + 3 + 1" "r = 365" using sy assms(2) True by auto
    have "days_before_year y = 146097 * a + 36524 * 3 + 1461 * 24 + 365 * 3" "is_leap y"
      unfolding y(1) using year_parts [of 3 24 3 a] by simp_all
    moreover have "y \<le> 9999" using y e z True assms(1) by linarith
    moreover have "146097 * a + 36524 * 3 + 1461 * 24 + 365 * 3 + 365 = n" using e z True by linarith
    ultimately show ?thesis using y by simp
  next
    case b4: False
    show ?thesis
    proof (cases "d = 4")
      case True
      then have "r1 = 0" "c \<noteq> 24" using e l by linarith+
      then have c: "r1 = 0" "c \<le> 23" using b by simp_all
      have y: "y = a * 400 + b * 100 + c * 4 + 3 + 1" "r = 365" using sy assms(2) True by auto
      have "days_before_year y = 146097 * a + 36524 * b + 1461 * c + 365 * 3" "is_leap y"
        unfolding y(1) using year_parts [of b c 3 a] b b4 c by auto
      moreover have "y \<le> 9999" using y e b b4 c True assms(1) by linarith
      moreover have "146097 * a + 36524 * b + 1461 * c + 365 * 3 + 365 = n" using e c True by linarith
      ultimately show ?thesis using y by simp
    next
      case False
      then have y: "y = a * 400 + b * 100 + c * 4 + d + 1" "r = r1" using sy assms(2) b4 by auto
      have d: "d \<le> 3" "b \<le> 3" using b b4 False by simp_all
      have "days_before_year y = 146097 * a + 36524 * b + 1461 * c + 365 * d"
        unfolding y(1) using year_parts(1) [of b c d a] b d by simp
      moreover have "y \<le> 9999" using y e d b assms(1) by linarith
      moreover have "146097 * a + 36524 * b + 1461 * c + 365 * d + r1 = n" using e by linarith
      moreover have "r1 < 365" by (rule l)
      ultimately show ?thesis using y by simp
    qed
  qed
  then show "1 \<le> y" "y \<le> 9999" "days_before_year y + r = n" "r < (if is_leap y then 366 else 365)" by auto
qed

lemma days_in_month_le: "days_in_month y m < 100" "0 < days_in_month y m"
  by (simp_all add: days_in_month_def)

lemma split_month_ok:
  "split_month f y m r = (m', d) \<Longrightarrow> m + f = 12 \<Longrightarrow> r < sum_list (map (days_in_month y) [m..<13]) \<Longrightarrow>
     m \<le> m' \<and> m' \<le> 12 \<and> 1 \<le> d \<and> d \<le> days_in_month y m' \<and>
     sum_list (map (days_in_month y) [m..<m']) + (d - 1) = r"
proof (induction f arbitrary: m r)
  case 0
  then show ?case by (auto simp: upt_rec)
next
  case (Suc f)
  have m: "[m..<13] = m # [Suc m..<13]" using Suc.prems(2) by (simp add: upt_rec)
  show ?case
  proof (cases "r < days_in_month y m")
    case True
    then show ?thesis using Suc.prems by auto
  next
    case False
    then have "Suc m \<le> m' \<and> m' \<le> 12 \<and> 1 \<le> d \<and> d \<le> days_in_month y m' \<and>
        sum_list (map (days_in_month y) [Suc m..<m']) + (d - 1) = r - days_in_month y m"
      using Suc.prems m by (intro Suc.IH) auto
    with False have "m < m'" "1 \<le> d" "m' \<le> 12" "d \<le> days_in_month y m'"
      "days_in_month y m + (sum_list (map (days_in_month y) [Suc m..<m']) + (d - 1)) = r" by linarith+
    then show ?thesis by (simp add: upt_rec [of m m'])
  qed
qed

lemma year_days: "sum_list (map (days_in_month y) [1..<13]) = (if is_leap y then 366 else 365)"
  by (simp add: days_in_month_def upt_rec)

lemma length_fixed [simp]: "length (fixed k n) = k"
  by (induction k arbitrary: n) auto

lemma fixed_digits: "list_all is_digit (fixed k n)"
  by (induction k arbitrary: n) (auto simp: is_digit_def)

lemma fixed_value: "n < 10 ^ k \<Longrightarrow> foldl (\<lambda>a c. a * 10 + (c - 48)) 0 (fixed k n) = n"
proof (induction k arbitrary: n)
  case (Suc k)
  then have "n div 10 < 10 ^ k" by (simp add: less_mult_imp_div_less mult.commute)
  with Suc.IH show ?case by simp
qed simp

lemma parse_fixed_ok: "n < 10 ^ k \<Longrightarrow> parse_fixed k (fixed k n) = Some n"
  by (simp add: parse_fixed_def fixed_digits fixed_value)

lemma four_Suc: "4 = Suc (Suc (Suc (Suc 0)))"
  by simp

lemma fixed_2: "\<exists>p q. fixed 2 n = [p, q]" and fixed_3: "\<exists>p q r. fixed 3 n = [p, q, r]"
  and fixed_4: "\<exists>p q r t. fixed 4 n = [p, q, r, t]"
  using length_fixed [of 2 n] length_fixed [of 3 n] length_fixed [of 4 n]
  by (simp_all only: length_Suc_conv numeral_2_eq_2 numeral_3_eq_3 four_Suc length_0_conv) blast+

lemma match_render:
  assumes "y < 10000" "mo < 100" "d < 100" "h < 100" "mi < 100" "sec < 100" "ms < 1000"
  shows "match_time (fixed 4 y @ [45] @ fixed 2 mo @ [45] @ fixed 2 d @ [84] @ fixed 2 h @ [58] @
      fixed 2 mi @ [58] @ fixed 2 sec @ [46] @ fixed 3 ms @ [90]) = Some (y, mo, d, h, mi, sec, ms)"
proof -
  obtain y1 y2 y3 y4 where y: "fixed 4 y = [y1, y2, y3, y4]" using fixed_4 by blast
  obtain o1 o2 where o: "fixed 2 mo = [o1, o2]" using fixed_2 by blast
  obtain d1 d2 where d: "fixed 2 d = [d1, d2]" using fixed_2 by blast
  obtain h1 h2 where h: "fixed 2 h = [h1, h2]" using fixed_2 by blast
  obtain i1 i2 where i: "fixed 2 mi = [i1, i2]" using fixed_2 by blast
  obtain c1 c2 where c: "fixed 2 sec = [c1, c2]" using fixed_2 by blast
  obtain l1 l2 l3 where l: "fixed 3 ms = [l1, l2, l3]" using fixed_3 by blast
  have "parse_fixed 4 [y1, y2, y3, y4] = Some y" "parse_fixed 2 [o1, o2] = Some mo" "parse_fixed 2 [d1, d2] = Some d"
    "parse_fixed 2 [h1, h2] = Some h" "parse_fixed 2 [i1, i2] = Some mi" "parse_fixed 2 [c1, c2] = Some sec"
    "parse_fixed 3 [l1, l2, l3] = Some ms"
    unfolding y [symmetric] o [symmetric] d [symmetric] h [symmetric] i [symmetric] c [symmetric] l [symmetric]
    using assms by (simp_all add: parse_fixed_ok)
  then show ?thesis by (simp add: match_time_def y o d h i c l)
qed

lemma parse_render:
  assumes "ms < 3652059 * 86400000"
  shows "parse_time e (render_time ms) = Inr (Aware (int ms * 1000))"
proof -
  define day where "day = ms div 86400000"
  define tod where "tod = ms mod 86400000"
  obtain y r where yr: "split_year day = (y, r)" by (cases "split_year day")
  obtain mo d where md: "split_month 11 y 1 r = (mo, d)" by (cases "split_month 11 y 1 r")
  have "day < 3652059" using assms by (simp add: day_def less_mult_imp_div_less)
  note Y = split_year_ok [OF this yr]
  have M: "1 \<le> mo" "mo \<le> 12" "1 \<le> d" "d \<le> days_in_month y mo" "days_before_month y mo + (d - 1) = r"
    using split_month_ok [OF md] Y(4) year_days [of y] by (auto simp: days_before_month_def)
  have "tod < 86400000" by (simp add: tod_def)
  define h mi sec l where "h = tod div 3600000" and "mi = tod div 60000 mod 60" and "sec = tod div 1000 mod 60"
    and "l = tod mod 1000"
  define u v where "u = tod div 1000" and "v = u div 60"
  have x: "h = v div 60" "mi = v mod 60" "sec = u mod 60"
    using div_mult2_eq [of tod 1000 60] div_mult2_eq [of tod 60000 60] by (simp_all add: h_def mi_def sec_def u_def v_def)
  have "v = h * 60 + mi" "u = v * 60 + sec" "tod = u * 1000 + l"
    by (simp add: x, simp add: x v_def, simp add: u_def l_def)
  then have T: "((h * 60 + mi) * 60 + sec) * 1000 + l = tod" by simp
  have B: "h < 24" "mi < 60" "sec < 60" "l < 1000"
    using \<open>tod < 86400000\<close> by (simp_all add: h_def mi_def sec_def l_def less_mult_imp_div_less)
  have b: "y < 10000" "mo < 100" "d < 100" "h < 100" "mi < 100" "sec < 100" "l < 1000"
    using Y(2) M(2,4) B days_in_month_le(1) [of y mo] by linarith+
  have "match_time (render_time ms) = Some (y, mo, d, h, mi, sec, l)"
    using match_render [OF b]
    unfolding render_time_def Let_def day_def [symmetric] tod_def [symmetric] yr md prod.case
      h_def [symmetric] mi_def [symmetric] sec_def [symmetric] l_def [symmetric] .
  moreover have "(days_before_year y + days_before_month y mo + (d - 1)) * 86400000 + tod = ms"
    using Y(3) M(5) by (simp add: day_def tod_def add.assoc)
  ultimately show ?thesis
    using Y M B T by (simp add: parse_time_def)
qed

lemma parse_format_time:
  assumes "normalize_time e t = Inr t"
  shows "\<exists>text. format_time t = Inr text \<and> parse_time e' text = Inr t"
proof -
  from assms obtain u where u: "t = Aware u" "0 \<le> u" "u < MAX_MICROS" "u div 1000 * 1000 = u"
    by (auto simp: normalize_time_def split: datetime.splits if_splits)
  have "normalize_time InvalidError t = Inr t" using assms by (rule normalize_time_idem)
  moreover have "nat (u div 1000) < 3652059 * 86400000"
    using u(2,3) by (simp add: MAX_MICROS_def nat_less_iff div_less_iff_less_mult)
  ultimately show ?thesis
    using parse_render [of "nat (u div 1000)" e'] u by (auto simp: format_time_def millis_of_def)
qed

section \<open>Round trips of the records\<close>

lemma text_of_inject [simp]: "text_of s = text_of t \<longleftrightarrow> s = t"
proof
  assume "text_of s = text_of t"
  moreover have "inj (of_char :: char \<Rightarrow> nat)" by (rule injI) simp
  ultimately show "s = t" by (simp add: text_of_def inj_map_eq_map)
qed simp

lemmas wire_access = as_object_def required_def jget_def as_string_def as_integer_def as_list_def optional_def
  opt_member_def bytes_of_json_def

text \<open>An entry with a sequence number of 64 bits and a canonical time.\<close>

definition entry_wire_ok :: "Entry \<Rightarrow> bool" where
  "entry_wire_ok en \<longleftrightarrow> 0 \<le> en_seq en \<and> en_seq en < 2 ^ 64 \<and>
     normalize_time InvalidError (en_appended_at en) = Inr (en_appended_at en)"

lemma entry_wire_roundtrip:
  assumes "entry_wire_ok en"
  shows "\<exists>w. entry_to_wire en = Inr w \<and> entry_from_wire e w = Inr en \<and> json_ok w"
proof -
  from assms obtain t where t: "format_time (en_appended_at en) = Inr t" "parse_time e t = Inr (en_appended_at en)"
    using parse_format_time [of InvalidError "en_appended_at en" e] by (auto simp: entry_wire_ok_def)
  have d: "parse_decimal e (format_decimal (en_seq en)) = Inr (en_seq en)"
    using assms by (intro parse_format_decimal) (auto simp: entry_wire_ok_def)
  show ?thesis
    by (simp add: entry_to_wire_def entry_from_wire_def t d wire_access)
qed

lemma entry_wire_shape:
  "entry_to_wire en = Inr w \<Longrightarrow> \<exists>t. w = JObj [(text_of ''seq'', JStr (format_decimal (en_seq en))),
     (text_of ''value'', JStr (encode_bytes (en_value en))), (text_of ''appendedAt'', JStr t)]"
  by (auto simp: entry_to_wire_def bindR_eq_Inr)

lemma receipt_roundtrip:
  assumes "set (map fst pre) \<inter> text_of ` {''receipt'', ''entryHash'', ''entryHashScheme'', ''leafIndex'', ''treeSize''} = {}"
    "set (map fst post) \<inter> text_of ` {''receipt'', ''entryHash'', ''entryHashScheme'', ''leafIndex'', ''treeSize''} = {}"
  shows "receipt_from_wire e (pre @ receipt_members r @ post) = Inr r"
proof -
  have none: "map_of pre (text_of k) = None" "map_of post (text_of k) = None"
    if "k \<in> {''receipt'', ''entryHash'', ''entryHashScheme'', ''leafIndex'', ''treeSize''}" for k
    using that assms by (auto simp: map_of_eq_None_iff)
  note n = none [of "''receipt''", simplified] none [of "''entryHash''", simplified]
    none [of "''entryHashScheme''", simplified] none [of "''leafIndex''", simplified] none [of "''treeSize''", simplified]
  show ?thesis
  proof (cases r)
    case None
    then show ?thesis by (simp add: receipt_from_wire_def receipt_members_def jget_def n map_add_def)
  next
    case (Some x)
    show ?thesis
      by (cases "wr_entry_hash x"; cases "wr_entry_hash_scheme x"; cases "wr_leaf_index x"; cases "wr_tree_size x")
        (simp_all add: Some receipt_from_wire_def receipt_members_def wire_access n map_add_def)
  qed
qed

lemma witness_okE:
  assumes "witness_ok w"
  shows "0 < ws_checkpoint_size w" "ws_checkpoint_size w < 2 ^ 64" "0 \<le> ws_attempts w" "ws_attempts w \<le> MAX_ATTEMPTS"
    "normalize_time CorruptError (ws_next_attempt_at w) = Inr (ws_next_attempt_at w)"
proof -
  have "validate_witness CorruptError w = Inr w" using assms by (rule witness_okD)
  then obtain t r where s: "0 < ws_checkpoint_size w" "ws_checkpoint_size w < 2 ^ 64" "0 \<le> ws_attempts w"
      "ws_attempts w \<le> MAX_ATTEMPTS" "normalize_time CorruptError (ws_next_attempt_at w) = Inr t"
      "w\<lparr>ws_next_attempt_at := t, ws_receipt := r\<rparr> = w"
    by (auto simp: validate_witness_def bindR_eq_Inr width_def split: option.splits if_splits)
  have "t = ws_next_attempt_at w" using arg_cong [OF s(6), of ws_next_attempt_at] by simp
  with s show "0 < ws_checkpoint_size w" "ws_checkpoint_size w < 2 ^ 64" "0 \<le> ws_attempts w"
    "ws_attempts w \<le> MAX_ATTEMPTS" "normalize_time CorruptError (ws_next_attempt_at w) = Inr (ws_next_attempt_at w)"
    by simp_all
qed

lemma receipt_members_keys:
  "set (map fst (receipt_members r)) \<subseteq> text_of ` {''receipt'', ''entryHash'', ''entryHashScheme'', ''leafIndex'', ''treeSize''}"
  by (auto simp: receipt_members_def opt_member_def split: option.splits)

lemma receipt_members_distinct: "distinct (map fst (receipt_members r))"
  by (auto simp: receipt_members_def opt_member_def split: option.split)

lemma receipt_members_none:
  "k \<notin> {''receipt'', ''entryHash'', ''entryHashScheme'', ''leafIndex'', ''treeSize''} \<Longrightarrow>
     map_of (receipt_members r) (text_of k) = None"
  by (auto simp: receipt_members_def opt_member_def split: option.split)

lemma receipt_members_json: "list_all (\<lambda>(k, v). json_ok v) (receipt_members r)"
  by (auto simp: receipt_members_def opt_member_def split: option.split)

lemma witness_wire_roundtrip:
  assumes "witness_ok w"
  shows "\<exists>j. witness_to_wire w = Inr j \<and> witness_from_wire e j = Inr w \<and> json_ok j"
proof -
  note ok = witness_okE [OF assms]
  obtain t where t: "format_time (ws_next_attempt_at w) = Inr t" "parse_time e t = Inr (ws_next_attempt_at w)"
    using parse_format_time [OF ok(5), of e] by auto
  have d: "parse_decimal e (format_decimal (ws_checkpoint_size w)) = Inr (ws_checkpoint_size w)"
    using ok by (intro parse_format_decimal) auto
  let ?pre = "[(text_of ''witnessId'', JStr (ws_witness_id w)),
        (text_of ''checkpointSize'', JStr (format_decimal (ws_checkpoint_size w))),
        (text_of ''checkpoint'', JStr (encode_bytes (ws_checkpoint w))),
        (text_of ''attempts'', JInt (ws_attempts w)), (text_of ''nextAttemptAt'', JStr t)]"
  let ?post = "[(text_of ''permanent'', JBool (ws_permanent w))] @ opt_member ''lastError'' (map_option JStr (ws_last_error w))"
  let ?ms = "?pre @ receipt_members (ws_receipt w) @ ?post"
  have j: "witness_to_wire w = Inr (JObj ?ms)" by (simp add: witness_to_wire_def t)
  have r: "receipt_from_wire e ?ms = Inr (ws_receipt w)"
    by (rule receipt_roundtrip) (auto simp: opt_member_def split: option.splits)
  have le: "optional (as_string e) (jget ''lastError'' ?ms) = Inr (ws_last_error w)"
    by (cases "ws_last_error w")
      (simp_all add: receipt_members_none map_add_def jget_def opt_member_def optional_def as_string_def)
  have q: "required e ''attempts'' ?ms = Inr (JInt (ws_attempts w))"
    "required e ''permanent'' ?ms = Inr (JBool (ws_permanent w))"
    "required e ''witnessId'' ?ms = Inr (JStr (ws_witness_id w))"
    "required e ''checkpointSize'' ?ms = Inr (JStr (format_decimal (ws_checkpoint_size w)))"
    "required e ''checkpoint'' ?ms = Inr (JStr (encode_bytes (ws_checkpoint w)))"
    "required e ''nextAttemptAt'' ?ms = Inr (JStr t)"
    by (cases "ws_last_error w"; simp add: receipt_members_none map_add_def required_def opt_member_def)+
  have "witness_from_wire e (JObj ?ms) = Inr w"
    unfolding witness_from_wire_def as_object_def json.case bindR_Inr r le q
    by (simp add: t d ok as_string_def as_integer_def)
  moreover have "json_ok (JObj ?ms)"
    using receipt_members_keys [of "ws_receipt w"] receipt_members_distinct [of "ws_receipt w"] receipt_members_json [of "ws_receipt w"]
    by (auto simp: opt_member_def split: option.splits)
  ultimately show ?thesis using j by blast
qed

lemma mapR_roundtrip:
  "(\<And>x. x \<in> set xs \<Longrightarrow> \<exists>y. f x = Inr y \<and> g y = Inr x \<and> P y) \<Longrightarrow>
     \<exists>ys. mapR f xs = Inr ys \<and> mapR g ys = Inr xs \<and> list_all P ys"
proof (induction xs)
  case (Cons x xs)
  obtain y where "f x = Inr y" "g y = Inr x" "P y" using Cons.prems [of x] by auto
  moreover obtain ys where "mapR f xs = Inr ys" "mapR g ys = Inr xs" "list_all P ys"
    using Cons.IH Cons.prems by auto
  ultimately show ?case by (intro exI [of _ "y # ys"]) simp
qed simp

lemma bytes_of_json_encode [simp]: "bytes_of_json e (JStr (encode_bytes b)) = Inr b"
  by (simp add: bytes_of_json_def as_string_def)

lemma bytes_list_roundtrip [simp]: "mapR (bytes_of_json e) (map (\<lambda>n. JStr (encode_bytes n)) ns) = Inr ns"
  by (induction ns) auto

lemma checkpoint_members_keys:
  "set (map fst (checkpoint_members c)) \<subseteq>
     text_of ` {''checkpoint'', ''checkpointSize'', ''checkpointIndexedSeq'', ''checkpointPeaks''}"
  by (auto simp: checkpoint_members_def split: option.splits)

lemma checkpoint_members_none:
  "k \<notin> {''checkpoint'', ''checkpointSize'', ''checkpointIndexedSeq'', ''checkpointPeaks''} \<Longrightarrow>
     map_of (checkpoint_members c) (text_of k) = None"
  by (auto simp: checkpoint_members_def split: option.split)

lemma checkpoint_members_json:
  "distinct (map fst (checkpoint_members c))" "list_all (\<lambda>(k, v). json_ok v) (checkpoint_members c)"
  by (auto simp: checkpoint_members_def list_all_iff split: option.split)

lemma checkpoint_roundtrip:
  assumes "\<And>x. c = Some x \<Longrightarrow> 0 \<le> cs_size x \<and> cs_size x < 2 ^ 64 \<and> 0 \<le> cs_indexed_seq x \<and> cs_indexed_seq x < 2 ^ 64"
    and "\<And>k. k \<in> {''checkpoint'', ''checkpointSize'', ''checkpointIndexedSeq'', ''checkpointPeaks''} \<Longrightarrow>
      map_of pre (text_of k) = None \<and> map_of post (text_of k) = None"
  shows "checkpoint_from_wire e (pre @ checkpoint_members c @ post) = Inr c"
proof -
  note n = assms(2) [of "''checkpoint''", simplified] assms(2) [of "''checkpointSize''", simplified]
    assms(2) [of "''checkpointIndexedSeq''", simplified] assms(2) [of "''checkpointPeaks''", simplified]
  show ?thesis
  proof (cases c)
    case None
    then show ?thesis by (simp add: checkpoint_from_wire_def checkpoint_members_def jget_def n map_add_def)
  next
    case (Some x)
    then have "parse_decimal e (format_decimal (cs_size x)) = Inr (cs_size x)"
      "parse_decimal e (format_decimal (cs_indexed_seq x)) = Inr (cs_indexed_seq x)"
      using assms(1) [OF Some] by (auto intro: parse_format_decimal)
    then show ?thesis
      by (simp add: Some checkpoint_from_wire_def checkpoint_members_def jget_def as_list_def as_string_def n map_add_def)
  qed
qed

lemma leaves_le_nodes: "int (leaves_of hs) \<le> nodes_of hs"
proof (induction hs)
  case (Cons h hs)
  then show ?case using two_power_pos [of h] by (simp add: msize_def)
qed simp

lemma state_counts:
  assumes "state_ok s"
  shows "0 \<le> cl_size s" "0 \<le> cl_indexed_seq s" "cl_indexed_seq s \<le> cl_size s"
    "\<And>c. cl_checkpoint s = Some c \<Longrightarrow> 0 \<le> cs_size c \<and> cs_size c \<le> cl_size s \<and> 0 \<le> cs_indexed_seq c \<and>
       cs_indexed_seq c \<le> cl_indexed_seq s"
proof -
  show s: "0 \<le> cl_size s" using assms by (simp add: state_ok_def)
  then have i: "0 \<le> cl_indexed_seq s" "node_count (cl_indexed_seq s) = Inr (cl_size s)"
    using assms mmr_leaf_count_iff [OF s] by (auto simp: state_ok_def)
  then have "cl_size s = nodes_of (mountains (nat (cl_indexed_seq s)))"
    using node_count_mountains [of "nat (cl_indexed_seq s)"] by simp
  moreover have "int (leaves_of (mountains (nat (cl_indexed_seq s)))) \<le> nodes_of (mountains (nat (cl_indexed_seq s)))"
    by (rule leaves_le_nodes)
  ultimately show "0 \<le> cl_indexed_seq s" "cl_indexed_seq s \<le> cl_size s"
    using i by simp_all
  show "0 \<le> cs_size c \<and> cs_size c \<le> cl_size s \<and> 0 \<le> cs_indexed_seq c \<and> cs_indexed_seq c \<le> cl_indexed_seq s"
    if "cl_checkpoint s = Some c" for c
    using assms that by (auto simp: state_ok_def checkpoint_ok_def)
qed

text \<open>What the wire form of a state (or of a delta, whose nodes are only the new ones) needs.\<close>

definition state_wire_ok :: "CllState \<Rightarrow> bool" where
  "state_wire_ok s \<longleftrightarrow>
     0 \<le> cl_size s \<and> cl_size s < 2 ^ 64 \<and> 0 \<le> cl_indexed_seq s \<and> cl_indexed_seq s < 2 ^ 64 \<and>
     (case cl_first_pending_at s of None \<Rightarrow> True | Some t \<Rightarrow> normalize_time CorruptError t = Inr t) \<and>
     (case cl_checkpoint s of None \<Rightarrow> True | Some c \<Rightarrow>
        0 \<le> cs_size c \<and> cs_size c < 2 ^ 64 \<and> 0 \<le> cs_indexed_seq c \<and> cs_indexed_seq c < 2 ^ 64) \<and>
     (\<forall>w\<in>set (cl_witnesses s). witness_ok w)"

lemma state_wire_okI:
  assumes "state_ok s" "cl_size s < 2 ^ 64"
  shows "state_wire_ok s"
  using assms state_counts [OF assms(1)] by (fastforce simp: state_wire_ok_def state_ok_def split: option.splits)

lemma state_wire_roundtrip:
  assumes "state_wire_ok s"
  shows "\<exists>j. state_to_wire s = Inr j \<and> state_from_wire e j = Inr s \<and> json_ok j"
proof -
  obtain rows where rows: "mapR witness_to_wire (cl_witnesses s) = Inr rows" "mapR (witness_from_wire e) rows = Inr (cl_witnesses s)"
    "list_all json_ok rows"
    using mapR_roundtrip [of "cl_witnesses s" witness_to_wire "witness_from_wire e" json_ok] witness_wire_roundtrip
      assms by (auto simp: state_wire_ok_def)
  have "\<exists>t. optional format_time (cl_first_pending_at s) = Inr t \<and>
      optional (\<lambda>j. bindR (as_string e j) (parse_time e)) (map_option JStr t) = Inr (cl_first_pending_at s)"
  proof (cases "cl_first_pending_at s")
    case (Some a)
    then have "normalize_time CorruptError a = Inr a" using assms by (simp add: state_wire_ok_def)
    from parse_format_time [OF this, of e] Some show ?thesis by (auto simp: optional_def as_string_def)
  qed (simp add: optional_def)
  then obtain t where t: "optional format_time (cl_first_pending_at s) = Inr t"
    "optional (\<lambda>j. bindR (as_string e j) (parse_time e)) (map_option JStr t) = Inr (cl_first_pending_at s)" by auto
  let ?pre = "[(text_of ''size'', JStr (format_decimal (cl_size s))),
        (text_of ''indexedSeq'', JStr (format_decimal (cl_indexed_seq s))),
        (text_of ''nodes'', JArr (map (\<lambda>n. JStr (encode_bytes n)) (cl_nodes s)))] @
       opt_member ''firstPendingAt'' (map_option JStr t)"
  let ?post = "[(text_of ''witnesses'', JArr rows)]"
  let ?ms = "?pre @ checkpoint_members (cl_checkpoint s) @ ?post"
  have j: "state_to_wire s = Inr (JObj ?ms)" by (simp add: state_to_wire_def t rows)
  have cp: "checkpoint_from_wire e ?ms = Inr (cl_checkpoint s)"
  proof (rule checkpoint_roundtrip)
    show "0 \<le> cs_size x \<and> cs_size x < 2 ^ 64 \<and> 0 \<le> cs_indexed_seq x \<and> cs_indexed_seq x < 2 ^ 64"
      if "cl_checkpoint s = Some x" for x
      using assms that by (simp add: state_wire_ok_def)
  qed (auto simp: opt_member_def split: option.split)
  have q: "required e ''nodes'' ?ms = Inr (JArr (map (\<lambda>n. JStr (encode_bytes n)) (cl_nodes s)))"
    "required e ''witnesses'' ?ms = Inr (JArr rows)"
    "required e ''size'' ?ms = Inr (JStr (format_decimal (cl_size s)))"
    "required e ''indexedSeq'' ?ms = Inr (JStr (format_decimal (cl_indexed_seq s)))"
    "jget ''firstPendingAt'' ?ms = map_option JStr t"
    by (cases t; simp add: checkpoint_members_none map_add_def required_def jget_def opt_member_def)+
  have d: "parse_decimal e (format_decimal (cl_size s)) = Inr (cl_size s)"
    "parse_decimal e (format_decimal (cl_indexed_seq s)) = Inr (cl_indexed_seq s)"
    using assms by (auto simp: state_wire_ok_def intro: parse_format_decimal)
  have "state_from_wire e (JObj ?ms) = Inr s"
    unfolding state_from_wire_def as_object_def json.case bindR_Inr q cp t
    by (simp add: as_list_def as_string_def d rows)
  moreover have "json_ok (JObj ?ms)"
    using checkpoint_members_keys [of "cl_checkpoint s"] checkpoint_members_json [of "cl_checkpoint s"] rows(3)
    by (auto simp: opt_member_def list_all_iff split: option.splits)
  ultimately show ?thesis using j by blast
qed

section \<open>The wire forms are faithful\<close>

text \<open>
  A state within the contract, encoded by \<^verbatim>\<open>state_to_wire\<close> and printed by \<^verbatim>\<open>dumps\<close>, is one line
  (no newline byte) that reads back, through \<^verbatim>\<open>json.loads\<close> and \<^verbatim>\<open>state_from_wire\<close>, as exactly that
  state: nodes, times, checkpoint and every witness row with its receipt.
\<close>

theorem state_wire_faithful:
  assumes "state_ok s" "cl_size s < 2 ^ 64"
  shows "\<exists>j. state_to_wire s = Inr j \<and> state_from_wire e j = Inr s \<and>
    (case dumps j of Inl _ \<Rightarrow> True | Inr b \<Rightarrow> loads b = Inr j \<and> 10 \<notin> set b)"
proof -
  obtain j where j: "state_to_wire s = Inr j" "state_from_wire e j = Inr s" "json_ok j"
    using state_wire_roundtrip [OF state_wire_okI [OF assms], of e] by auto
  then show ?thesis
    using loads_dumps [OF j(3)] by (intro exI [of _ j]) (auto split: sum.split)
qed

lemma state_wire_faithful_witness:
  "\<exists>j. state_to_wire empty_cll_state = Inr j \<and> state_from_wire CorruptError j = Inr empty_cll_state \<and>
    (case dumps j of Inl _ \<Rightarrow> True | Inr b \<Rightarrow> loads b = Inr j \<and> 10 \<notin> set b)"
proof (rule state_wire_faithful)
  show "state_ok empty_cll_state"
    by (simp add: state_ok_def empty_cll_state_def checkpoint_ok_def mmr_leaf_count_def leaf_count_loop.simps)
qed (simp add: empty_cll_state_def)

text \<open>
  An entry with a 64-bit sequence number and a canonical time survives \<^verbatim>\<open>entry_to_wire\<close>, the
  printed line and \<^verbatim>\<open>entry_from_wire\<close>.
\<close>

theorem entry_wire_faithful:
  assumes "entry_wire_ok en"
  shows "\<exists>j. entry_to_wire en = Inr j \<and> entry_from_wire e j = Inr en \<and>
    (case dumps j of Inl _ \<Rightarrow> True | Inr b \<Rightarrow> loads b = Inr j \<and> 10 \<notin> set b)"
proof -
  obtain j where j: "entry_to_wire en = Inr j" "entry_from_wire e j = Inr en" "json_ok j"
    using entry_wire_roundtrip [OF assms, of e] by auto
  then show ?thesis
    using loads_dumps [OF j(3)] by (intro exI [of _ j]) (auto split: sum.split)
qed

lemma entry_wire_faithful_witness:
  "\<exists>j. entry_to_wire \<lparr>en_seq = 7, en_value = [1, 255], en_appended_at = Aware 63838800000123000\<rparr> = Inr j \<and>
    entry_from_wire CorruptError j = Inr \<lparr>en_seq = 7, en_value = [1, 255], en_appended_at = Aware 63838800000123000\<rparr> \<and>
    (case dumps j of Inl _ \<Rightarrow> True | Inr b \<Rightarrow> loads b = Inr j \<and> 10 \<notin> set b)"
  by (rule entry_wire_faithful) (simp add: entry_wire_ok_def normalize_time_def MAX_MICROS_def)

text \<open>
  Base64 decoding is strict: \<^verbatim>\<open>decode_bytes\<close> accepts a text exactly when it is the canonical
  encoding of the bytes it returns.
\<close>

theorem decode_bytes_strict: "decode_bytes e t = Inr b \<longleftrightarrow> t = encode_bytes b"
  using decode_bytes_canonical by auto

end
