(* ===== verification/Log_Journal.thy ===== *)
theory Log_Journal
  imports "HOL-Library.Sublist" Log_Stores Log_Wire
begin

text \<open>
  \<^verbatim>\<open>cll/log/jsonl.py\<close>: the journal store. The file is its bytes; the operating system is a script
  of results, one per call (\<open>JournalIo\<close>), so that short writes, a failing write, \<^verbatim>\<open>fsync\<close> or
  \<^verbatim>\<open>ftruncate\<close> are all inputs of the model. The lock on the file descriptor is the argument
  \<open>locked\<close> of \<open>js_open\<close>. The theorems: after any operations, under any script, replaying the journal
  rebuilds the engine; and a write torn at any byte is recovered to the state before it.
\<close>

section \<open>The file\<close>

text \<open>The results of successive \<^verbatim>\<open>os.write\<close> calls (\<open>None\<close> raises; when the list is used up a call
  writes everything), of \<^verbatim>\<open>os.fsync\<close>, of \<^verbatim>\<open>os.ftruncate\<close> and of the \<^verbatim>\<open>fsync\<close> after it.\<close>

record JournalIo =
  io_writes :: "nat option list"
  io_fsync :: bool
  io_truncate :: bool
  io_truncate_sync :: bool

record JsonlStore =
  js_file :: bytes
  js_engine :: Engine
  js_closed :: bool

definition SCHEMA_VERSION :: int where "SCHEMA_VERSION = 4"

text \<open>The loop over \<^verbatim>\<open>view\<close>: the file after it, and whether everything was written.\<close>

fun write_loop :: "nat option list \<Rightarrow> bytes \<Rightarrow> bytes \<Rightarrow> bytes \<times> bool" where
  "write_loop [] file view = (file @ view, True)"
| "write_loop (w # ws) file view =
     (if view = [] then (file, True)
      else case w of
        None \<Rightarrow> (file, False)
      | Some n \<Rightarrow> if n = 0 then (file, False) else write_loop ws (file @ take n view) (drop n view))"

definition js_rollback :: "JournalIo \<Rightarrow> JsonlStore \<Rightarrow> nat \<Rightarrow> py_error \<times> JsonlStore" where
  "js_rollback io st offset =
     (if \<not> io_truncate io then (CorruptError, st\<lparr>js_closed := True\<rparr>)
      else
        let st = st\<lparr>js_file := take offset (js_file st)\<rparr> in
        if \<not> io_truncate_sync io then (CorruptError, st\<lparr>js_closed := True\<rparr>) else (OSError, st))"

definition js_append_event :: "JournalIo \<Rightarrow> JsonlStore \<Rightarrow> json \<Rightarrow> unit res \<times> JsonlStore" where
  "js_append_event io st item =
     (case dumps item of
        Inl err \<Rightarrow> (Inl err, st)
      | Inr line \<Rightarrow>
          let encoded = line @ [10] in
          if length encoded > MAX_JOURNAL_EVENT_BYTES then (Inl InvalidError, st)
          else
            let start = length (js_file st); (file, written) = write_loop (io_writes io) (js_file st) encoded;
                st1 = st\<lparr>js_file := file\<rparr> in
            if written \<and> io_fsync io then (Inr (), st1)
            else case js_rollback io st1 start of (err, st2) \<Rightarrow> (Inl err, st2))"

section \<open>Replay\<close>

definition apply_event :: "Engine \<Rightarrow> (pytext \<times> json) list \<Rightarrow> Engine res" where
  "apply_event e item =
     (let kind = map_of item (text_of ''type'') in
      if kind = Some (JStr (text_of ''cll.init'')) then
        if eg_entries e \<noteq> [] \<or> cl_size (eg_state e) \<noteq> 0 then Inl CorruptError
        else if map_of item (text_of ''entry'') \<noteq> None \<or> map_of item (text_of ''state'') \<noteq> None
             \<or> map_of item (text_of ''witness'') \<noteq> None then Inl CorruptError
        else Inr e
      else if kind = Some (JStr (text_of ''entry.append'')) then
        bindR (required CorruptError ''entry'' item) (\<lambda>w.
        bindR (entry_from_wire CorruptError w) (eg_replay_entry e))
      else if kind = Some (JStr (text_of ''cll.commit'')) then
        bindR (required CorruptError ''state'' item) (\<lambda>w.
        bindR (case jget ''expected_size'' item of
                 None \<Rightarrow> Inl CorruptError
               | Some j \<Rightarrow> bindR (as_string CorruptError j) (parse_decimal CorruptError)) (\<lambda>expected_size.
        bindR (optional (bytes_of_json CorruptError) (jget ''expected_checkpoint'' item)) (\<lambda>checkpoint.
        bindR (state_from_wire CorruptError w) (\<lambda>delta.
        eg_commit_cll_delta e expected_size checkpoint delta))))
      else if kind = Some (JStr (text_of ''witness.commit'')) then
        bindR (required CorruptError ''witness'' item) (\<lambda>w.
        case map_of item (text_of ''expected_attempts'') of
          Some (JInt attempts) \<Rightarrow>
            bindR (check_expected_attempts attempts) (\<lambda>_.
            bindR (witness_from_wire CorruptError w) (\<lambda>row.
            eg_commit_witness e attempts row))
        | _ \<Rightarrow> Inl CorruptError)
      else Inl CorruptError)"

text \<open>One complete line. Every error of a line is reported as \<open>CorruptError\<close>.\<close>

definition replay_line :: "Engine \<Rightarrow> bool \<Rightarrow> bytes \<Rightarrow> Engine res" where
  "replay_line e initialized line =
     (if length line > MAX_JOURNAL_EVENT_BYTES then Inl CorruptError
      else case loads line of
        Inr (JObj item) \<Rightarrow>
          if map_of item (text_of ''version'') \<noteq> Some (JInt SCHEMA_VERSION) then Inl CorruptError
          else if \<not> initialized \<and> map_of item (text_of ''type'') \<noteq> Some (JStr (text_of ''cll.init'')) then Inl CorruptError
          else (case apply_event e item of Inl _ \<Rightarrow> Inl CorruptError | Inr e' \<Rightarrow> Inr e')
      | _ \<Rightarrow> Inl CorruptError)"

text \<open>The loop over the lines: the engine, whether a line was read, and \<^verbatim>\<open>valid_end\<close>.\<close>

function replay_loop :: "Engine \<Rightarrow> bool \<Rightarrow> nat \<Rightarrow> bytes \<Rightarrow> (Engine \<times> bool \<times> nat) res" where
  "replay_loop e initialized start data =
     (let line = takeWhile (\<lambda>b. b \<noteq> 10) data in
      case dropWhile (\<lambda>b. b \<noteq> 10) data of
        [] \<Rightarrow> Inr (e, initialized, start)
      | _ # rest \<Rightarrow> bindR (replay_line e initialized line) (\<lambda>e. replay_loop e True (start + length line + 1) rest))"
  by pat_completeness auto
termination
proof (relation "measure (\<lambda>(e, initialized, start, data). length data)")
  fix e e' :: Engine and initialized and start :: nat and data line rest :: bytes and b
  assume "dropWhile (\<lambda>b. b \<noteq> 10) data = b # rest"
  then have "length (b # rest) \<le> length data" by (metis length_dropWhile_le)
  then show "((e', True, start + length line + 1, rest), (e, initialized, start, data))
      \<in> measure (\<lambda>(e, initialized, start, data). length data)" by simp
qed simp

declare replay_loop.simps [simp del]

section \<open>Opening and closing\<close>

definition init_event :: json where
  "init_event = JObj [(text_of ''version'', JInt SCHEMA_VERSION), (text_of ''type'', JStr (text_of ''cll.init''))]"

text \<open>\<^verbatim>\<open>JsonlStore._open\<close>: \<open>file\<close> is what the path names (\<open>None\<close>: nothing), \<open>locked\<close> whether another
  process holds the lock. The result and the file afterwards. When the rollback of the first write
  fails, the handler closes the descriptor a second time, and that error replaces the first.\<close>

definition js_open :: "bool \<Rightarrow> pytext \<Rightarrow> bytes option \<Rightarrow> bool \<Rightarrow> JournalIo \<Rightarrow> JsonlStore res \<times> bytes option" where
  "js_open initialize path file locked io =
     (if path = [] then (Inl InvalidError, file)
      else if file = None \<and> \<not> initialize then (Inl OSError, None)
      else
        let data = (case file of None \<Rightarrow> [] | Some b \<Rightarrow> b) in
        if locked then (Inl ContentionError, Some data)
        else case replay_loop new_engine False 0 data of
          Inl err \<Rightarrow> (Inl err, Some data)
        | Inr (e, _, valid_end) \<Rightarrow>
            if valid_end \<noteq> length data \<and> \<not> initialize then (Inl CorruptError, Some data)
            else if valid_end \<noteq> length data \<and> \<not> io_truncate io then (Inl OSError, Some data)
            else if valid_end \<noteq> length data \<and> \<not> io_truncate_sync io then (Inl OSError, Some (take valid_end data))
            else
              let data = take valid_end data; st = \<lparr>js_file = data, js_engine = e, js_closed = False\<rparr> in
              if data \<noteq> [] then (Inr st, Some data)
              else if \<not> initialize then (Inl CorruptError, Some data)
              else case js_append_event io st init_event of
                (Inr _, st) \<Rightarrow> (Inr st, Some (js_file st))
              | (Inl err, st) \<Rightarrow> (Inl (if js_closed st then OSError else err), Some (js_file st)))"

definition js_close :: "JsonlStore \<Rightarrow> JsonlStore" where
  "js_close st = st\<lparr>js_closed := True\<rparr>"

definition js_init :: "pytext \<Rightarrow> bytes option \<Rightarrow> bool \<Rightarrow> JournalIo \<Rightarrow> unit res \<times> bytes option" where
  "js_init path file locked io =
     (case js_open True path file locked io of (r, file) \<Rightarrow> (bindR r (\<lambda>_. Inr ()), file))"

section \<open>Operations\<close>

text \<open>\<^verbatim>\<open>_mutate\<close>: the event is computed after the operation and outside the \<^verbatim>\<open>try\<close>, so an error there
  leaves the changed engine in memory.\<close>

definition js_mutate ::
  "JournalIo \<Rightarrow> JsonlStore \<Rightarrow> (Engine \<Rightarrow> ('r \<times> Engine) res) \<Rightarrow>
     ('r \<Rightarrow> nat \<times> CllState \<Rightarrow> Engine \<Rightarrow> json option res) \<Rightarrow> 'r res \<times> JsonlStore" where
  "js_mutate io st operation event =
     (if js_closed st then (Inl ClosedError, st)
      else
        let snapshot = eg_snapshot (js_engine st) in
        case operation (js_engine st) of
          Inl err \<Rightarrow> (Inl err, st)
        | Inr (result, e) \<Rightarrow>
            let st1 = st\<lparr>js_engine := e\<rparr> in
            (case event result snapshot e of
               Inl err \<Rightarrow> (Inl err, st1)
             | Inr None \<Rightarrow> (Inr result, st1)
             | Inr (Some item) \<Rightarrow>
                 (case js_append_event io st1 item of
                    (Inr _, st2) \<Rightarrow> (Inr result, st2)
                  | (Inl err, st2) \<Rightarrow> (Inl err, st2\<lparr>js_engine := eg_restore (js_engine st2) snapshot\<rparr>))))"

definition js_read :: "JsonlStore \<Rightarrow> Engine res" where
  "js_read st = (if js_closed st then Inl ClosedError else Inr (js_engine st))"

definition append_event :: "AppendResult \<Rightarrow> nat \<times> CllState \<Rightarrow> Engine \<Rightarrow> json option res" where
  "append_event result snapshot e =
     (if ar_outcome result \<noteq> INSERTED then Inr None
      else bindR (entry_to_wire (ar_entry result)) (\<lambda>w.
        Inr (Some (JObj [(text_of ''version'', JInt SCHEMA_VERSION), (text_of ''type'', JStr (text_of ''entry.append'')),
          (text_of ''entry'', w)]))))"

definition js_append :: "JournalIo \<Rightarrow> JsonlStore \<Rightarrow> AppendInput \<Rightarrow> AppendResult res \<times> JsonlStore" where
  "js_append io st inp = js_mutate io st (\<lambda>e. eg_append e inp) append_event"

definition commit_event :: "int \<Rightarrow> bytes option \<Rightarrow> unit \<Rightarrow> nat \<times> CllState \<Rightarrow> Engine \<Rightarrow> json option res" where
  "commit_event expected_size expected_checkpoint u snapshot e =
     bindR (state_to_wire (eg_delta_since e snapshot)) (\<lambda>w.
     Inr (Some (JObj (
       [(text_of ''version'', JInt SCHEMA_VERSION), (text_of ''type'', JStr (text_of ''cll.commit'')),
        (text_of ''expected_size'', JStr (dec_text expected_size))] @
       opt_member ''expected_checkpoint'' (map_option (\<lambda>b. JStr (encode_bytes b)) expected_checkpoint) @
       [(text_of ''state'', w)]))))"

definition js_commit_cll :: "JournalIo \<Rightarrow> JsonlStore \<Rightarrow> int \<Rightarrow> bytes option \<Rightarrow> CllState \<Rightarrow> unit res \<times> JsonlStore" where
  "js_commit_cll io st expected_size expected_checkpoint nxt =
     js_mutate io st (\<lambda>e. bindR (eg_commit_cll e expected_size expected_checkpoint nxt) (\<lambda>e'. Inr ((), e')))
       (commit_event expected_size expected_checkpoint)"

definition witness_event :: "int \<Rightarrow> WitnessState \<Rightarrow> unit \<Rightarrow> nat \<times> CllState \<Rightarrow> Engine \<Rightarrow> json option res" where
  "witness_event expected_attempts nxt u snapshot e =
     bindR (eg_get_witness e (ws_witness_id nxt) (ws_checkpoint_size nxt)) (\<lambda>stored.
     case stored of
       None \<Rightarrow> Inl TypeError
     | Some row \<Rightarrow>
         bindR (witness_to_wire row) (\<lambda>w.
         Inr (Some (JObj [(text_of ''version'', JInt SCHEMA_VERSION), (text_of ''type'', JStr (text_of ''witness.commit'')),
           (text_of ''expected_attempts'', JInt expected_attempts), (text_of ''witness'', w)]))))"

definition js_commit_witness :: "JournalIo \<Rightarrow> JsonlStore \<Rightarrow> int \<Rightarrow> WitnessState \<Rightarrow> unit res \<times> JsonlStore" where
  "js_commit_witness io st expected_attempts nxt =
     js_mutate io st (\<lambda>e. bindR (eg_commit_witness e expected_attempts nxt) (\<lambda>e'. Inr ((), e')))
       (witness_event expected_attempts nxt)"

definition js_get_entry :: "JsonlStore \<Rightarrow> bytes \<Rightarrow> Entry res" where
  "js_get_entry st v = bindR (js_read st) (\<lambda>e. eg_get_entry e v)"

definition js_entry_count :: "JsonlStore \<Rightarrow> nat res" where
  "js_entry_count st = bindR (js_read st) (\<lambda>e. Inr (fst (eg_snapshot e)))"

definition js_scan_entries :: "JsonlStore \<Rightarrow> int \<Rightarrow> int \<Rightarrow> Entry list res" where
  "js_scan_entries st after_seq limit = bindR (js_read st) (\<lambda>e. eg_scan_entries e after_seq limit)"

definition js_load_cll :: "JsonlStore \<Rightarrow> CllState res" where
  "js_load_cll st = bindR (js_read st) (\<lambda>e. Inr (eg_state e))"

definition js_pending_witnesses :: "JsonlStore \<Rightarrow> datetime \<Rightarrow> int \<Rightarrow> WitnessState list res" where
  "js_pending_witnesses st now limit = bindR (js_read st) (\<lambda>e. eg_pending_witnesses e now limit)"

definition js_pending_witnesses_for :: "JsonlStore \<Rightarrow> pytext \<Rightarrow> datetime \<Rightarrow> int \<Rightarrow> WitnessState list res" where
  "js_pending_witnesses_for st w now limit = bindR (js_read st) (\<lambda>e. eg_pending_witnesses_for e w now limit)"

definition js_get_witness :: "JsonlStore \<Rightarrow> pytext \<Rightarrow> int \<Rightarrow> WitnessState option res" where
  "js_get_witness st w n = bindR (js_read st) (\<lambda>e. eg_get_witness e w n)"

section \<open>Replay of a journal that grows\<close>

lemma replay_nil [simp]: "replay_loop e i s [] = Inr (e, i, s)"
  by (simp add: replay_loop.simps)

lemma takeWhile_line: "10 \<notin> set line \<Longrightarrow> takeWhile (\<lambda>b. b \<noteq> 10) (line @ 10 # rest) = line"
  "10 \<notin> set line \<Longrightarrow> dropWhile (\<lambda>b. b \<noteq> 10) (line @ 10 # rest) = 10 # rest" for line :: bytes
  by (induction line) auto

lemma replay_step:
  "10 \<notin> set line \<Longrightarrow> replay_loop e i s (line @ 10 # rest) =
     bindR (replay_line e i line) (\<lambda>e. replay_loop e True (s + length line + 1) rest)"
  by (subst replay_loop.simps) (simp add: takeWhile_line)

lemma replay_torn: "10 \<notin> set part \<Longrightarrow> replay_loop e i s part = Inr (e, i, s)"
proof -
  assume "10 \<notin> set part"
  then have "dropWhile (\<lambda>b. b \<noteq> 10) part = []" by (auto simp: dropWhile_eq_Nil_conv)
  then show ?thesis unfolding replay_loop.simps [of e i s part] Let_def by (simp only: list.case)
qed

lemma split_first_line:
  "(10 \<notin> set data) \<or> (\<exists>line rest. data = line @ 10 # rest \<and> 10 \<notin> set line)" for data :: bytes
  using split_list_first [of 10 data] by blast

lemma replay_append:
  "replay_loop e i s xs = Inr (e', i', s + length xs) \<Longrightarrow>
     replay_loop e i s (xs @ ys) = replay_loop e' i' (s + length xs) ys"
proof (induction "length xs" arbitrary: e i s xs rule: less_induct)
  case less
  consider "10 \<notin> set xs" | line rest where "xs = line @ 10 # rest" "10 \<notin> set line"
    using split_first_line [of xs] by blast
  then show ?case
  proof cases
    case 1
    then show ?thesis using less.prems replay_torn [OF 1, of e i s] by simp
  next
    case 2
    from less.prems obtain e1 where e1: "replay_line e i line = Inr e1"
      "replay_loop e1 True (s + length line + 1) rest = Inr (e', i', (s + length line + 1) + length rest)"
      by (auto simp: 2(1) replay_step [OF 2(2)] bindR_eq_Inr)
    have "replay_loop e1 True (s + length line + 1) (rest @ ys) = replay_loop e' i' ((s + length line + 1) + length rest) ys"
      by (rule less.hyps [OF _ e1(2)]) (simp add: 2(1))
    then show ?thesis using e1(1) by (simp add: 2(1) replay_step [OF 2(2)] add.assoc)
  qed
qed

definition replays_to :: "bytes \<Rightarrow> Engine \<Rightarrow> bool" where
  "replays_to file e \<longleftrightarrow> replay_loop new_engine False 0 file = Inr (e, True, length file)"

lemma replays_line:
  assumes "replays_to file e" "10 \<notin> set line" "replay_line e True line = Inr e'"
  shows "replays_to (file @ line @ [10]) e'"
  using assms replay_append [where ys = "line @ [10]" and xs = "file"]
  by (simp add: replays_to_def replay_step)

lemma replays_torn:
  assumes "replays_to file e" "10 \<notin> set part"
  shows "replay_loop new_engine False 0 (file @ part) = Inr (e, True, length file)"
  using assms replay_append [where ys = part and xs = "file"] by (simp add: replays_to_def replay_torn)

lemma replays_nonempty: "replays_to file e \<Longrightarrow> file \<noteq> []"
  by (auto simp: replays_to_def)

section \<open>What is written is what is replayed\<close>

lemma write_loop_all: "write_loop ws file view = (f, True) \<Longrightarrow> f = file @ view"
proof (induction ws "file" view rule: write_loop.induct)
  case (2 w ws f0 view)
  then show ?case by (auto split: if_splits option.splits)
qed auto

lemma write_loop_part: "\<exists>k. k \<le> length view \<and> fst (write_loop ws file view) = file @ take k view"
proof (induction ws "file" view rule: write_loop.induct)
  case (1 f0 view)
  show ?case by (intro exI [of _ "length view"]) simp
next
  case (2 w ws f0 view)
  show ?case
  proof (cases "view = [] \<or> w = None \<or> w = Some 0")
    case True
    then show ?thesis by (intro exI [of _ 0]) auto
  next
    case False
    then obtain n where n: "w = Some n" "n \<noteq> 0" "view \<noteq> []" by auto
    then obtain k where k: "k \<le> length (drop n view)"
      "fst (write_loop ws (f0 @ take n view) (drop n view)) = (f0 @ take n view) @ take k (drop n view)"
      using 2 by auto
    have "take n view @ take k (drop n view) = take (n + k) view" by (simp add: take_add)
    then show ?thesis using n k by (intro exI [of _ "min (length view) (n + k)"]) (auto simp: min_def)
  qed
qed

text \<open>An event object that replays: well-formed JSON of the current version.\<close>

lemma event_line:
  assumes "dumps (JObj ms) = Inr line" "json_ok (JObj ms)" "length line < MAX_JOURNAL_EVENT_BYTES"
    "map_of ms (text_of ''version'') = Some (JInt SCHEMA_VERSION)" "apply_event e ms = Inr e'"
  shows "10 \<notin> set line" "replay_line e True line = Inr e'"
  using loads_dumps [OF assms(2,1)] assms(3-5) by (simp_all add: replay_line_def)

text \<open>The outcome of \<^verbatim>\<open>_append_event\<close> for an event that replays: either it is in the journal, or the
  journal is as before, or the store is closed and the journal ends in a part of the line.\<close>

lemma append_event_cases:
  assumes "replays_to (js_file st) e" "json_ok (JObj ms)" "apply_event e ms = Inr e'"
    "map_of ms (text_of ''version'') = Some (JInt SCHEMA_VERSION)"
    "js_append_event io st (JObj ms) = (r, st')"
  obtains
    (written) "r = Inr ()" "replays_to (js_file st') e'" "js_engine st' = js_engine st" "js_closed st' = js_closed st"
  | (undone) err where "r = Inl err" "js_file st' = js_file st" "js_engine st' = js_engine st"
  | (torn) err line k where "r = Inl err" "js_closed st'" "js_engine st' = js_engine st" "dumps (JObj ms) = Inr line"
      "k \<le> length line + 1" "js_file st' = js_file st @ take k (line @ [10])"
      "10 \<notin> set line" "replays_to (js_file st @ line @ [10]) e'"
proof (cases "dumps (JObj ms)")
  case (Inl err)
  then show thesis using assms(5) by (intro undone [of err]) (auto simp: js_append_event_def)
next
  case (Inr line)
  show thesis
  proof (cases "length (line @ [10]) > MAX_JOURNAL_EVENT_BYTES")
    case True
    then show thesis using assms(5) Inr by (intro undone [of InvalidError]) (auto simp: js_append_event_def)
  next
    case fits: False
    obtain f b where w: "write_loop (io_writes io) (js_file st) (line @ [10]) = (f, b)"
      by (cases "write_loop (io_writes io) (js_file st) (line @ [10])")
    obtain k where k: "k \<le> length line + 1" "f = js_file st @ take k (line @ [10])"
      using write_loop_part [of "line @ [10]" "io_writes io" "js_file st"] w by auto
    have line: "10 \<notin> set line" "replay_line e True line = Inr e'"
      using event_line [OF Inr assms(2) _ assms(4,3)] fits by simp_all
    show thesis
    proof (cases "b \<and> io_fsync io")
      case True
      then have "f = js_file st @ line @ [10]" using w True by (auto intro: write_loop_all)
      moreover have "r = Inr ()" "st' = st\<lparr>js_file := f\<rparr>"
        using assms(5) Inr fits w True by (auto simp: js_append_event_def)
      ultimately show thesis using replays_line [OF assms(1) line] by (intro written) auto
    next
      case False
      let ?roll = "js_rollback io (st\<lparr>js_file := f\<rparr>) (length (js_file st))"
      have r: "r = Inl (fst ?roll)" "st' = snd ?roll"
        using assms(5) Inr fits w False by (auto simp: js_append_event_def Let_def split: prod.splits)
      show thesis
      proof (cases "io_truncate io")
        case True
        then show thesis using r k by (intro undone [of "fst ?roll"]) (auto simp: js_rollback_def Let_def)
      next
        case False
        then show thesis using r k Inr line replays_line [OF assms(1) line]
          by (intro torn [of "fst ?roll" line k]) (auto simp: js_rollback_def)
      qed
    qed
  qed
qed

section \<open>The three events replay the operations\<close>

lemma engine_inv_wire_entry:
  assumes "engine_inv e" "x \<in> set (eg_entries e)"
  shows "entry_wire_ok x"
proof -
  obtain i where i: "i < length (eg_entries e)" "x = eg_entries e ! i" using assms(2) by (auto simp: in_set_conv_nth)
  then have "en_seq x = int i + 1" "normalize_time CorruptError (en_appended_at x) = Inr (en_appended_at x)"
    "int (length (eg_entries e)) \<le> MAX_PORTABLE_INTEGER"
    using assms(1) by (auto simp: engine_inv_def entries_ok_def)
  then show ?thesis using i by (auto simp: entry_wire_ok_def MAX_PORTABLE_INTEGER_def)
qed

lemma append_event_replays:
  assumes "engine_inv e" "eg_append e inp = Inr (r, e')" "append_event r (eg_snapshot e) e' = Inr (Some item)"
  shows "\<exists>ms. item = JObj ms \<and> json_ok item \<and> map_of ms (text_of ''version'') = Some (JInt SCHEMA_VERSION) \<and>
    apply_event e ms = Inr e'"
proof -
  have ins: "ar_outcome r = INSERTED" using assms(3) by (auto simp: append_event_def split: if_splits)
  have "engine_inv e' \<and> ar_entry r \<in> set (eg_entries e')"
    by (rule eg_append_cases [OF assms(1,2)]) (use ins in auto)
  then obtain w where w: "entry_to_wire (ar_entry r) = Inr w" "entry_from_wire CorruptError w = Inr (ar_entry r)" "json_ok w"
    using engine_inv_wire_entry entry_wire_roundtrip by blast
  have rep: "eg_replay_entry e (ar_entry r) = Inr e'"
  proof (rule eg_append_cases [OF assms(1,2)])
    fix t assume a: "ai_value inp \<notin> set (map en_value (eg_entries e))" "length (ai_value inp) = 32"
      "normalize_time CorruptError t = Inr t" "normalize_time InvalidError (ai_appended_at inp) = Inr t"
      and r: "r = \<lparr>ar_entry = \<lparr>en_seq = int (length (eg_entries e)) + 1, en_value = ai_value inp, en_appended_at = t\<rparr>,
            ar_outcome = INSERTED\<rparr>"
    have "check_append \<lparr>ai_value = ai_value inp, ai_appended_at = t\<rparr> = check_append inp"
      using a normalize_time_idem [OF a(3), of InvalidError] by (simp add: check_append_def)
    then have "eg_append e \<lparr>ai_value = ai_value inp, ai_appended_at = t\<rparr> = Inr (r, e')"
      using assms(2) by (simp add: eg_append_def)
    then show ?thesis by (simp add: eg_replay_entry_def r)
  qed (use ins in auto)
  have item: "item = JObj [(text_of ''version'', JInt SCHEMA_VERSION), (text_of ''type'', JStr (text_of ''entry.append'')),
      (text_of ''entry'', w)]"
    using assms(3) ins by (simp add: append_event_def w(1))
  then show ?thesis using w rep by (simp add: apply_event_def required_def)
qed

lemma append_event_total:
  assumes "engine_inv e" "eg_append e inp = Inr (r, e')"
  shows "\<exists>o1. append_event r s e' = Inr o1 \<and> (o1 = None \<longrightarrow> e' = e)"
proof (rule eg_append_cases [OF assms])
  fix t assume a: "eg_entries e' = eg_entries e @ [ar_entry r]" "engine_inv e'"
    "r = \<lparr>ar_entry = \<lparr>en_seq = int (length (eg_entries e)) + 1, en_value = ai_value inp, en_appended_at = t\<rparr>,
            ar_outcome = INSERTED\<rparr>"
  obtain w where "entry_to_wire (ar_entry r) = Inr w"
    using a(1,2) engine_inv_wire_entry [of e' "ar_entry r"] entry_wire_roundtrip [of "ar_entry r"] by auto
  then show ?thesis using a(3) by (auto simp: append_event_def)
qed (auto simp: append_event_def)

lemma delta_wire_ok:
  assumes "state_wire_ok s"
  shows "state_wire_ok (delta_of cur s)"
  using assms by (auto simp: state_wire_ok_def delta_of_def)

lemma commit_event_replays:
  assumes inv: "engine_inv e" and com: "eg_commit_cll e es ec nxt = Inr e'" and small: "cl_size (eg_state e') < 2 ^ 64"
  shows "\<exists>ms. commit_event es ec () (eg_snapshot e) e' = Inr (Some (JObj ms)) \<and> json_ok (JObj ms) \<and>
    map_of ms (text_of ''version'') = Some (JInt SCHEMA_VERSION) \<and> apply_event e ms = Inr e'"
proof -
  obtain s where s: "apply_cll (eg_state e) es ec nxt = Inr s" "e' = e\<lparr>eg_state := s\<rparr>"
    using com by (auto simp: eg_commit_cll_def bindR_eq_Inr)
  have cur: "state_ok (eg_state e)" using inv by (simp add: engine_inv_def)
  note ok = apply_cll_ok [OF cur s(1)]
  have d: "delta_of (eg_state e) s = eg_delta_since e' (eg_snapshot e)"
    by (simp add: eg_delta_since_def eg_snapshot_def s(2))
  have "state_wire_ok s" using ok(1) small by (intro state_wire_okI) (simp_all add: s(2))
  then have "state_wire_ok (delta_of (eg_state e) s)" by (rule delta_wire_ok)
  then obtain w where w: "state_to_wire (delta_of (eg_state e) s) = Inr w"
    "state_from_wire CorruptError w = Inr (delta_of (eg_state e) s)" "json_ok w"
    using state_wire_roundtrip by blast
  have "cl_size (eg_state e) \<le> cl_size s" "0 \<le> cl_size (eg_state e)"
    using ok(1,2) cur by (auto simp: state_ok_def cll_le_def)
  then have es: "parse_decimal CorruptError (dec_text es) = Inr es"
    using ok(3) small parse_format_decimal [of es CorruptError] by (simp add: format_decimal_def s(2))
  let ?ms = "[(text_of ''version'', JInt SCHEMA_VERSION), (text_of ''type'', JStr (text_of ''cll.commit'')),
        (text_of ''expected_size'', JStr (dec_text es))] @
       opt_member ''expected_checkpoint'' (map_option (\<lambda>b. JStr (encode_bytes b)) ec) @
       [(text_of ''state'', w)]"
  have "commit_event es ec () (eg_snapshot e) e' = Inr (Some (JObj ?ms))"
    by (simp add: commit_event_def d [symmetric] w(1))
  moreover have "json_ok (JObj ?ms)" using w(3) by (cases ec) (simp_all add: opt_member_def)
  moreover have "map_of ?ms (text_of ''version'') = Some (JInt SCHEMA_VERSION)" by simp
  moreover have "apply_event e ?ms = Inr e'"
  proof -
    have "optional (bytes_of_json CorruptError) (jget ''expected_checkpoint'' ?ms) = Inr ec"
      by (cases ec) (simp_all add: jget_def opt_member_def optional_def)
    moreover have "required CorruptError ''state'' ?ms = Inr w" "jget ''expected_size'' ?ms = Some (JStr (dec_text es))"
      by (cases ec; simp add: required_def jget_def opt_member_def)+
    moreover have "eg_commit_cll_delta e es ec (delta_of (eg_state e) s) = Inr e'"
      using delta_replays_commit [OF cur s(1)] by (simp add: eg_commit_cll_delta_def s(2))
    ultimately show ?thesis
      by (simp add: apply_event_def w(2) as_string_def es)
  qed
  ultimately show ?thesis by blast
qed

lemma stored_row_found:
  assumes "distinct (map witness_key rows)" "i < length rows"
  shows "List.find (\<lambda>row. ws_witness_id row = ws_witness_id (rows ! i) \<and> ws_checkpoint_size row = ws_checkpoint_size (rows ! i)) rows
    = Some (rows ! i)"
proof -
  have "List.find (\<lambda>row. witness_key row = witness_key (rows ! i)) rows = Some (rows ! i)"
    unfolding find_Some_iff using assms
    by (intro exI [of _ i]) (auto simp: distinct_conv_nth)
  then show ?thesis by (simp add: witness_key_def)
qed

lemma witness_ok_key: "witness_ok w \<Longrightarrow> check_witness_key (ws_witness_id w) (ws_checkpoint_size w) = Inr ()"
  by (auto simp: witness_ok_def validate_witness_def check_witness_key_def split: option.splits if_splits)

lemma witness_event_replays:
  assumes inv: "engine_inv e" and com: "eg_commit_witness e ea nxt = Inr e'"
  shows "\<exists>ms. witness_event ea nxt () s e' = Inr (Some (JObj ms)) \<and> json_ok (JObj ms) \<and>
    map_of ms (text_of ''version'') = Some (JInt SCHEMA_VERSION) \<and> apply_event e ms = Inr e'"
proof -
  let ?rows = "cl_witnesses (eg_state e)"
  obtain i w where a: "apply_witness ?rows ea nxt = Inr (i, w)"
    and e': "e' = e\<lparr>eg_state := (eg_state e)\<lparr>cl_witnesses := ?rows[i := w]\<rparr>\<rparr>"
    using com by (auto simp: eg_commit_witness_def bindR_eq_Inr)
  note ok = apply_witness_ok [OF a]
  have key: "ws_witness_id nxt = ws_witness_id w" "ws_checkpoint_size nxt = ws_checkpoint_size w"
    using ok(6) by (simp_all add: witness_key_def)
  have st: "state_ok (eg_state e')"
    using eg_commit_witness_ok [OF inv com] by (simp add: engine_inv_def)
  have "List.find (\<lambda>row. ws_witness_id row = ws_witness_id w \<and> ws_checkpoint_size row = ws_checkpoint_size w)
      (?rows[i := w]) = Some w"
    using stored_row_found [of "?rows[i := w]" i] st ok(1) by (simp add: state_ok_def e')
  moreover have "check_witness_key (ws_witness_id w) (ws_checkpoint_size w) = Inr ()" using ok(2) by (rule witness_ok_key)
  ultimately have get: "eg_get_witness e' (ws_witness_id nxt) (ws_checkpoint_size nxt) = Inr (Some w)"
    by (simp add: eg_get_witness_def key e')
  obtain j where j: "witness_to_wire w = Inr j" "witness_from_wire CorruptError j = Inr w" "json_ok j"
    using witness_wire_roundtrip [OF ok(2), of CorruptError] by blast
  have ea: "check_expected_attempts ea = Inr ()" using a by (auto simp: apply_witness_def bindR_eq_Inr)
  have valid: "validate_witness er w = Inr w" for er using ok(2) by (rule witness_okD)
  have "apply_witness ?rows ea w = Inr (i, w)"
    using a by (auto simp: apply_witness_def bindR_eq_Inr valid ea find_witness_iff)
  then have again: "eg_commit_witness e ea w = Inr e'" by (simp add: eg_commit_witness_def e')
  let ?ms = "[(text_of ''version'', JInt SCHEMA_VERSION), (text_of ''type'', JStr (text_of ''witness.commit'')),
           (text_of ''expected_attempts'', JInt ea), (text_of ''witness'', j)]"
  have "witness_event ea nxt () s e' = Inr (Some (JObj ?ms))" by (simp add: witness_event_def get j(1))
  moreover have "apply_event e ?ms = Inr e'" by (simp add: apply_event_def required_def ea j(2) again)
  ultimately show ?thesis using j(3) by (intro exI [of _ ?ms]) simp
qed

section \<open>The store\<close>

definition js_inv :: "JsonlStore \<Rightarrow> bool" where
  "js_inv st \<longleftrightarrow> \<not> js_closed st \<and> engine_inv (js_engine st)"

text \<open>The journal replays to the engine in memory.\<close>

definition durable :: "JsonlStore \<Rightarrow> bool" where
  "durable st \<longleftrightarrow> engine_inv (js_engine st) \<and> replays_to (js_file st) (js_engine st)"

text \<open>The journal of a store whose last write was torn: the lines before it, then a part of the line
  that would have taken it to another engine.\<close>

definition torn_after :: "bytes \<Rightarrow> Engine \<Rightarrow> JsonlStore \<Rightarrow> bool" where
  "torn_after file e' st \<longleftrightarrow>
     js_closed st \<and> (\<exists>line k. 10 \<notin> set line \<and> k \<le> length line + 1 \<and> js_file st = file @ take k (line @ [10]) \<and>
       replays_to (file @ line @ [10]) e')"

lemma torn_after_cases:
  assumes "torn_after file e' st"
  obtains (whole) "replays_to (js_file st) e'" | (part) part where "js_file st = file @ part" "10 \<notin> set part"
proof -
  obtain line k where k: "10 \<notin> set line" "k \<le> length line + 1" "js_file st = file @ take k (line @ [10])"
    "replays_to (file @ line @ [10]) e'" using assms by (auto simp: torn_after_def)
  show thesis
  proof (cases "k = length line + 1")
    case True
    then show thesis using k by (intro whole) simp
  next
    case False
    then have "take k (line @ [10]) = take k line" using k(2) by simp
    then show thesis using k by (intro part [of "take k line"]) (auto dest: in_set_takeD)
  qed
qed

lemma mutate_cases:
  assumes "js_mutate io st operation event = (r, st')" "engine_inv (js_engine st)"
    and op: "\<And>x e'. operation (js_engine st) = Inr (x, e') \<Longrightarrow>
      engine_inv e' \<and> engine_le (js_engine st) e' \<and>
      (\<exists>o1. event x (eg_snapshot (js_engine st)) e' = Inr o1 \<and>
        (o1 = None \<longrightarrow> e' = js_engine st))"
  obtains
    (applied) x where "r = Inr x" "\<not> js_closed st" "operation (js_engine st) = Inr (x, js_engine st')"
      "engine_inv (js_engine st')" "engine_le (js_engine st) (js_engine st')"
  | (fails) err where "r = Inl err" "js_engine st' = js_engine st"
proof (cases "js_closed st")
  case True
  then show thesis using assms(1) by (intro fails [of ClosedError]) (auto simp: js_mutate_def)
next
  case opened: False
  show thesis
  proof (cases "operation (js_engine st)")
    case (Inl err)
    then show thesis using assms(1) opened by (intro fails [of err]) (auto simp: js_mutate_def Let_def)
  next
    case (Inr p)
    obtain x e' where p: "p = (x, e')" by (cases p)
    obtain o1 where o1: "event x (eg_snapshot (js_engine st)) e' = Inr o1" "o1 = None \<longrightarrow> e' = js_engine st"
      and inv: "engine_inv e'" "engine_le (js_engine st) e'" using op [of x e'] Inr p by auto
    show thesis
    proof (cases o1)
      case None
      then show thesis using assms(1) opened Inr p o1 inv by (intro applied [of x]) (auto simp: js_mutate_def Let_def)
    next
      case (Some item)
      obtain q st2 where ev: "js_append_event io (st\<lparr>js_engine := e'\<rparr>) item = (q, st2)"
        by (cases "js_append_event io (st\<lparr>js_engine := e'\<rparr>) item")
      have eng: "js_engine st2 = e'"
        using ev by (auto simp: js_append_event_def js_rollback_def Let_def split: sum.splits if_splits prod.splits)
      obtain new where "eg_entries e' = eg_entries (js_engine st) @ new" using inv(2) by (auto simp: engine_le_def)
      then have restore: "eg_restore e' (eg_snapshot (js_engine st)) = js_engine st"
        by (rule eg_restore_ok [OF assms(2) inv(1)])
      show thesis
      proof (cases q)
        case (Inl err)
        have "r = Inl err" "st' = st2\<lparr>js_engine := eg_restore (js_engine st2) (eg_snapshot (js_engine st))\<rparr>"
          using assms(1) by (simp_all add: js_mutate_def Let_def opened Inr p o1(1) Some ev Inl)
        then show thesis using eng restore by (intro fails [of err]) simp_all
      next
        case ok: (Inr u)
        have "r = Inr x" "st' = st2"
          using assms(1) by (simp_all add: js_mutate_def Let_def opened Inr p o1(1) Some ev ok)
        then show thesis using Inr p opened eng inv by (intro applied [of x]) simp_all
      qed
    qed
  qed
qed

text \<open>With an event that replays the operation, the journal stays in step with the engine.\<close>

lemma mutate_durable:
  assumes mut: "js_mutate io st operation event = (r, st')" and dur: "durable st"
    and op: "\<And>x e'. operation (js_engine st) = Inr (x, e') \<Longrightarrow> engine_inv e' \<and> engine_le (js_engine st) e' \<and>
      (event x (eg_snapshot (js_engine st)) e' = Inr None \<and> e' = js_engine st \<or>
       (\<exists>ms. event x (eg_snapshot (js_engine st)) e' = Inr (Some (JObj ms)) \<and> json_ok (JObj ms) \<and>
         map_of ms (text_of ''version'') = Some (JInt SCHEMA_VERSION) \<and> apply_event (js_engine st) ms = Inr e'))"
  shows "durable st' \<or>
    (\<exists>x e'. operation (js_engine st) = Inr (x, e') \<and> torn_after (js_file st) e' st') \<and> js_engine st' = js_engine st"
proof (cases "js_closed st")
  case True
  then show ?thesis using mut dur by (auto simp: js_mutate_def)
next
  case opened: False
  have inv: "engine_inv (js_engine st)" "replays_to (js_file st) (js_engine st)" using dur by (simp_all add: durable_def)
  show ?thesis
  proof (cases "operation (js_engine st)")
    case (Inl err)
    then show ?thesis using mut opened dur by (auto simp: js_mutate_def Let_def)
  next
    case (Inr p)
    obtain x e' where p: "p = (x, e')" by (cases p)
    note o = op [of x e'] Inr p
    show ?thesis
    proof (cases "event x (eg_snapshot (js_engine st)) e' = Inr None")
      case True
      then have "st' = st" using mut opened o by (auto simp: js_mutate_def Let_def)
      with dur show ?thesis by simp
    next
      case False
      then obtain ms where ms: "event x (eg_snapshot (js_engine st)) e' = Inr (Some (JObj ms))" "json_ok (JObj ms)"
        "map_of ms (text_of ''version'') = Some (JInt SCHEMA_VERSION)" "apply_event (js_engine st) ms = Inr e'"
        and e': "engine_inv e'" "engine_le (js_engine st) e'" using o by auto
      obtain q st2 where ev: "js_append_event io (st\<lparr>js_engine := e'\<rparr>) (JObj ms) = (q, st2)"
        by (cases "js_append_event io (st\<lparr>js_engine := e'\<rparr>) (JObj ms)")
      obtain new where "eg_entries e' = eg_entries (js_engine st) @ new" using e'(2) by (auto simp: engine_le_def)
      then have restore: "eg_restore e' (eg_snapshot (js_engine st)) = js_engine st"
        by (rule eg_restore_ok [OF inv(1) e'(1)])
      have st': "case q of Inr _ \<Rightarrow> st' = st2 | Inl _ \<Rightarrow> st' = st2\<lparr>js_engine := eg_restore (js_engine st2) (eg_snapshot (js_engine st))\<rparr>"
        using mut by (cases q) (simp_all add: js_mutate_def Let_def opened Inr p ms(1) ev)
      have rep: "replays_to (js_file (st\<lparr>js_engine := e'\<rparr>)) (js_engine st)" using inv(2) by simp
      show ?thesis
      proof (rule append_event_cases [OF rep ms(2,4,3) ev])
        assume w: "q = Inr ()" "replays_to (js_file st2) e'" "js_engine st2 = js_engine (st\<lparr>js_engine := e'\<rparr>)"
        then show ?thesis using st' e' by (simp add: durable_def)
      next
        fix err assume w: "q = Inl err" "js_file st2 = js_file (st\<lparr>js_engine := e'\<rparr>)"
          "js_engine st2 = js_engine (st\<lparr>js_engine := e'\<rparr>)"
        then show ?thesis using st' inv restore by (simp add: durable_def)
      next
        fix err line k assume w: "q = Inl err" "js_closed st2" "js_engine st2 = js_engine (st\<lparr>js_engine := e'\<rparr>)"
          "dumps (JObj ms) = Inr line" "k \<le> length line + 1"
          "js_file st2 = js_file (st\<lparr>js_engine := e'\<rparr>) @ take k (line @ [10])" "10 \<notin> set line"
          "replays_to (js_file (st\<lparr>js_engine := e'\<rparr>) @ line @ [10]) e'"
        then have "torn_after (js_file st) e' st'" using st' by (auto simp: torn_after_def)
        then show ?thesis using st' w restore Inr p by auto
      qed
    qed
  qed
qed

section \<open>The operations keep the journal in step\<close>

lemma js_append_step:
  assumes "engine_inv e" "eg_append e inp = Inr (x, e')"
  shows "engine_inv e' \<and> engine_le e e' \<and>
      (append_event x (eg_snapshot e) e' = Inr None \<and> e' = e \<or>
       (\<exists>ms. append_event x (eg_snapshot e) e' = Inr (Some (JObj ms)) \<and> json_ok (JObj ms) \<and>
         map_of ms (text_of ''version'') = Some (JInt SCHEMA_VERSION) \<and> apply_event e ms = Inr e'))"
proof -
  obtain o1 where o1: "append_event x (eg_snapshot e) e' = Inr o1" "o1 = None \<longrightarrow> e' = e"
    using append_event_total [OF assms] by blast
  show ?thesis
  proof (cases o1)
    case None
    then show ?thesis using o1 eg_append_ok [OF assms] by simp
  next
    case (Some item)
    then show ?thesis using append_event_replays [OF assms, of item] o1 eg_append_ok [OF assms] by auto
  qed
qed

lemma js_append_durable:
  "js_append io st inp = (r, st') \<Longrightarrow> durable st \<Longrightarrow> durable st' \<or>
     (\<exists>x e'. eg_append (js_engine st) inp = Inr (x, e') \<and> torn_after (js_file st) e' st') \<and> js_engine st' = js_engine st"
  unfolding js_append_def
  by (erule mutate_durable) (auto simp: durable_def dest: js_append_step)

lemma js_commit_step:
  assumes "engine_inv e" "bindR (eg_commit_cll e es ec nxt) (\<lambda>e'. Inr ((), e')) = Inr (x, e')" "cl_size nxt < 2 ^ 64"
  shows "engine_inv e' \<and> engine_le e e' \<and>
      (\<exists>ms. commit_event es ec x (eg_snapshot e) e' = Inr (Some (JObj ms)) \<and> json_ok (JObj ms) \<and>
         map_of ms (text_of ''version'') = Some (JInt SCHEMA_VERSION) \<and> apply_event e ms = Inr e')"
proof -
  have c: "eg_commit_cll e es ec nxt = Inr e'" using assms(2) by (auto simp: bindR_eq_Inr)
  then obtain s where s: "apply_cll (eg_state e) es ec nxt = Inr s" "e' = e\<lparr>eg_state := s\<rparr>"
    by (auto simp: eg_commit_cll_def bindR_eq_Inr)
  then have "cl_size s = cl_size nxt"
    by (auto simp: apply_cll_def bindR_eq_Inr dest!: validate_state_ok(2) split: if_splits)
  then have "cl_size (eg_state e') < 2 ^ 64" using assms(3) s by simp
  then show ?thesis
    using commit_event_replays [OF assms(1) c] eg_commit_cll_ok [OF assms(1) c] by simp
qed

lemma js_commit_durable:
  assumes "js_commit_cll io st es ec nxt = (r, st')" "durable st" "cl_size nxt < 2 ^ 64"
  shows "durable st' \<or>
    (\<exists>e'. eg_commit_cll (js_engine st) es ec nxt = Inr e' \<and> torn_after (js_file st) e' st') \<and> js_engine st' = js_engine st"
proof -
  let ?op = "\<lambda>e. bindR (eg_commit_cll e es ec nxt) (\<lambda>e'. Inr ((), e'))"
  have "durable st' \<or> (\<exists>x e'. ?op (js_engine st) = Inr (x, e') \<and> torn_after (js_file st) e' st') \<and> js_engine st' = js_engine st"
    using assms(1) unfolding js_commit_cll_def
    by (rule mutate_durable [OF _ assms(2)]) (use js_commit_step [OF _ _ assms(3)] assms(2) in \<open>auto simp: durable_def\<close>)
  then show ?thesis by (auto simp: bindR_eq_Inr)
qed

lemma js_witness_step:
  assumes "engine_inv e" "bindR (eg_commit_witness e ea nxt) (\<lambda>e'. Inr ((), e')) = Inr (x, e')"
  shows "engine_inv e' \<and> engine_le e e' \<and>
      (\<exists>ms. witness_event ea nxt x (eg_snapshot e) e' = Inr (Some (JObj ms)) \<and> json_ok (JObj ms) \<and>
         map_of ms (text_of ''version'') = Some (JInt SCHEMA_VERSION) \<and> apply_event e ms = Inr e')"
proof -
  have c: "eg_commit_witness e ea nxt = Inr e'" using assms(2) by (auto simp: bindR_eq_Inr)
  then show ?thesis
    using witness_event_replays [OF assms(1) c, of "eg_snapshot e"] eg_commit_witness_ok [OF assms(1) c] by simp
qed

lemma js_witness_durable:
  assumes "js_commit_witness io st ea nxt = (r, st')" "durable st"
  shows "durable st' \<or>
    (\<exists>e'. eg_commit_witness (js_engine st) ea nxt = Inr e' \<and> torn_after (js_file st) e' st') \<and> js_engine st' = js_engine st"
proof -
  let ?op = "\<lambda>e. bindR (eg_commit_witness e ea nxt) (\<lambda>e'. Inr ((), e'))"
  have "durable st' \<or> (\<exists>x e'. ?op (js_engine st) = Inr (x, e') \<and> torn_after (js_file st) e' st') \<and> js_engine st' = js_engine st"
    using assms(1) unfolding js_commit_witness_def
    by (rule mutate_durable [OF _ assms(2)]) (use js_witness_step assms(2) in \<open>auto simp: durable_def\<close>)
  then show ?thesis by (auto simp: bindR_eq_Inr)
qed

text \<open>The journal store meets the contract, whatever the operating system does.\<close>

lemma commit_event_total:
  assumes "engine_inv e" "eg_commit_cll e es ec nxt = Inr e'"
  shows "\<exists>item. commit_event es ec () (eg_snapshot e) e' = Inr (Some item)"
proof -
  let ?d = "eg_delta_since e' (eg_snapshot e)"
  have st: "state_ok (eg_state e')" using eg_commit_cll_ok [OF assms] by (simp add: engine_inv_def)
  have "\<exists>t. optional format_time (cl_first_pending_at ?d) = Inr t"
  proof (cases "cl_first_pending_at (eg_state e')")
    case (Some a)
    then have "normalize_time CorruptError a = Inr a" using st by (simp add: state_ok_def)
    from parse_format_time [OF this, of CorruptError] Some show ?thesis
      by (auto simp: eg_delta_since_def delta_of_def optional_def)
  qed (simp add: eg_delta_since_def delta_of_def optional_def)
  moreover have "\<exists>ws. mapR witness_to_wire (cl_witnesses ?d) = Inr ws"
    using mapR_roundtrip [of "cl_witnesses ?d" witness_to_wire "witness_from_wire CorruptError" json_ok]
      witness_wire_roundtrip st by (auto simp: eg_delta_since_def delta_of_def state_ok_def)
  ultimately show ?thesis by (auto simp: commit_event_def state_to_wire_def)
qed

lemma js_commit_refines:
  assumes "engine_inv (js_engine st)" "js_commit_cll io st es ec nxt = (r, st')"
  shows "case r of Inl _ \<Rightarrow> js_engine st' = js_engine st
    | Inr _ \<Rightarrow> \<not> js_closed st \<and> eg_commit_cll (js_engine st) es ec nxt = Inr (js_engine st')"
  using assms(2) unfolding js_commit_cll_def
proof (rule mutate_cases [OF _ assms(1)])
  fix x e' assume "bindR (eg_commit_cll (js_engine st) es ec nxt) (\<lambda>e'. Inr ((), e')) = Inr (x, e')"
  then have c: "eg_commit_cll (js_engine st) es ec nxt = Inr e'" by (auto simp: bindR_eq_Inr)
  show "engine_inv e' \<and> engine_le (js_engine st) e' \<and>
      (\<exists>o1. commit_event es ec x (eg_snapshot (js_engine st)) e' = Inr o1 \<and> (o1 = None \<longrightarrow> e' = js_engine st))"
    using eg_commit_cll_ok [OF assms(1) c] commit_event_total [OF assms(1) c] by auto
qed (auto simp: bindR_eq_Inr)

lemma js_append_refines:
  assumes "engine_inv (js_engine st)" "js_append io st inp = (r, st')"
  shows "case r of Inl _ \<Rightarrow> js_engine st' = js_engine st
    | Inr x \<Rightarrow> \<not> js_closed st \<and> eg_append (js_engine st) inp = Inr (x, js_engine st')"
  using assms(2) unfolding js_append_def
proof (rule mutate_cases [OF _ assms(1)])
  fix x e' assume c: "eg_append (js_engine st) inp = Inr (x, e')"
  show "engine_inv e' \<and> engine_le (js_engine st) e' \<and>
      (\<exists>o1. append_event x (eg_snapshot (js_engine st)) e' = Inr o1 \<and> (o1 = None \<longrightarrow> e' = js_engine st))"
    using eg_append_ok [OF assms(1) c] append_event_total [OF assms(1) c] by blast
qed auto

lemma js_witness_refines:
  assumes "engine_inv (js_engine st)" "js_commit_witness io st ea nxt = (r, st')"
  shows "case r of Inl _ \<Rightarrow> js_engine st' = js_engine st
    | Inr _ \<Rightarrow> \<not> js_closed st \<and> eg_commit_witness (js_engine st) ea nxt = Inr (js_engine st')"
  using assms(2) unfolding js_commit_witness_def
proof (rule mutate_cases [OF _ assms(1)])
  fix x e' assume "bindR (eg_commit_witness (js_engine st) ea nxt) (\<lambda>e'. Inr ((), e')) = Inr (x, e')"
  from js_witness_step [OF assms(1) this]
  show "engine_inv e' \<and> engine_le (js_engine st) e' \<and>
      (\<exists>o1. witness_event ea nxt x (eg_snapshot (js_engine st)) e' = Inr o1 \<and> (o1 = None \<longrightarrow> e' = js_engine st))" by auto
qed (auto simp: bindR_eq_Inr)

lemma append_event_open: "js_append_event io st item = (Inr (), st') \<Longrightarrow> js_closed st' = js_closed st"
  by (auto simp: js_append_event_def Let_def split: sum.splits if_splits prod.splits)

lemma js_commit_keeps_open:
  "js_commit_cll io st es ec nxt = (Inr (), st') \<Longrightarrow> \<not> js_closed st'"
  by (auto simp: js_commit_cll_def js_mutate_def Let_def dest: append_event_open
      split: sum.splits option.splits if_splits prod.splits)

interpretation journal_rows: witness_store "engine_inv \<circ> js_engine" "cl_witnesses \<circ> eg_state \<circ> js_engine"
  js_pending_witnesses_for js_get_witness "js_commit_witness io"
proof unfold_locales
  fix st w now n items item assume "js_pending_witnesses_for st w now n = Inr items"
  then have "eg_pending_witnesses_for (js_engine st) w now n = Inr items"
    by (auto simp: js_pending_witnesses_for_def js_read_def split: if_splits)
  then show "item \<in> set items \<Longrightarrow> item \<in> set ((cl_witnesses \<circ> eg_state \<circ> js_engine) st) \<and> ws_receipt item = None \<and> ws_witness_id item = w"
    "length items \<le> nat n" using eg_pending_rows by simp_all
next
  fix st w n p assume "js_get_witness st w n = Inr p"
  then show "p = List.find (\<lambda>row. ws_witness_id row = w \<and> ws_checkpoint_size row = n) ((cl_witnesses \<circ> eg_state \<circ> js_engine) st)"
    using eg_get_row by (auto simp: js_get_witness_def js_read_def split: if_splits)
next
  fix st ea nxt st' assume "(engine_inv \<circ> js_engine) st" "js_commit_witness io st ea nxt = (Inr (), st')"
  then show "(engine_inv \<circ> js_engine) st' \<and> (\<exists>i row. apply_witness ((cl_witnesses \<circ> eg_state \<circ> js_engine) st) ea nxt = Inr (i, row) \<and>
      (cl_witnesses \<circ> eg_state \<circ> js_engine) st' = ((cl_witnesses \<circ> eg_state \<circ> js_engine) st)[i := row])"
    using eg_commit_row [of "js_engine st" ea nxt "js_engine st'"] js_witness_refines [of st io ea nxt "Inr ()" st'] by simp
next
  fix st ea nxt e st' assume "(engine_inv \<circ> js_engine) st" "js_commit_witness io st ea nxt = (Inl e, st')"
  then show "(engine_inv \<circ> js_engine) st' \<and> (cl_witnesses \<circ> eg_state \<circ> js_engine) st' = (cl_witnesses \<circ> eg_state \<circ> js_engine) st"
    using js_witness_refines [of st io ea nxt "Inl e" st'] by simp
qed (auto simp: engine_inv_def state_ok_def)

interpretation journal: checkpoint_store js_inv "eg_entries \<circ> js_engine" js_scan_entries "eg_state \<circ> js_engine"
  js_load_cll "js_commit_cll io"
proof unfold_locales
  fix st a n assume "js_inv st" "(0::int) \<le> a" "a \<le> MAX_PORTABLE_INTEGER" "1 \<le> n" "n \<le> MAX_SCAN_LIMIT"
  then show "js_scan_entries st a n = Inr (take (nat n) (drop (nat a) ((eg_entries \<circ> js_engine) st)))"
    by (simp add: js_scan_entries_def js_read_def js_inv_def eg_scan_page)
next
  fix st es ec nxt st' assume s: "js_inv st" "js_commit_cll io st es ec nxt = (Inr (), st')"
  then have inv: "engine_inv (js_engine st)" by (simp add: js_inv_def)
  have c: "eg_commit_cll (js_engine st) es ec nxt = Inr (js_engine st')"
    using js_commit_refines [OF inv s(2)] by simp
  obtain s1 where s1: "apply_cll (eg_state (js_engine st)) es ec nxt = Inr s1" "(js_engine st)\<lparr>eg_state := s1\<rparr> = js_engine st'"
    using c by (auto simp: eg_commit_cll_def bindR_eq_Inr)
  show "js_inv st' \<and> (eg_entries \<circ> js_engine) st' = (eg_entries \<circ> js_engine) st \<and>
      apply_cll ((eg_state \<circ> js_engine) st) es ec nxt = Inr ((eg_state \<circ> js_engine) st')"
    using eg_commit_cll_ok [OF inv c] s1(1) js_commit_keeps_open [OF s(2)]
    by (simp add: js_inv_def s1(2) [symmetric])
next
  fix st es ec nxt err st' assume s: "js_inv st" "js_commit_cll io st es ec nxt = (Inl err, st')"
  then have inv: "engine_inv (js_engine st)" by (simp add: js_inv_def)
  show "(eg_entries \<circ> js_engine) st' = (eg_entries \<circ> js_engine) st \<and> (eg_state \<circ> js_engine) st' = (eg_state \<circ> js_engine) st"
    using js_commit_refines [OF inv s(2)] by simp
qed (auto simp: js_inv_def engine_entries_ok js_load_cll_def js_read_def engine_inv_def)

section \<open>Running a store\<close>

datatype JournalOp =
    JAppend AppendInput
  | JCommitCll int "bytes option" CllState
  | JCommitWitness int WitnessState

fun op_small :: "JournalOp \<Rightarrow> bool" where
  "op_small (JCommitCll es ec nxt) = (cl_size nxt < 2 ^ 64)"
| "op_small _ = True"

fun js_op :: "JournalIo \<Rightarrow> JournalOp \<Rightarrow> JsonlStore \<Rightarrow> JsonlStore" where
  "js_op io (JAppend inp) st = snd (js_append io st inp)"
| "js_op io (JCommitCll es ec nxt) st = snd (js_commit_cll io st es ec nxt)"
| "js_op io (JCommitWitness ea nxt) st = snd (js_commit_witness io st ea nxt)"

definition js_run :: "(JournalIo \<times> JournalOp) list \<Rightarrow> JsonlStore \<Rightarrow> JsonlStore" where
  "js_run ops st = fold (\<lambda>(io, op) st. js_op io op st) ops st"

text \<open>The engine's operation behind each operation of the store.\<close>

fun engine_op_of :: "JournalOp \<Rightarrow> EngineOp" where
  "engine_op_of (JAppend inp) = OpAppend inp"
| "engine_op_of (JCommitCll es ec nxt) = OpCommitCll es ec nxt"
| "engine_op_of (JCommitWitness ea nxt) = OpCommitWitness ea nxt"

lemma js_op_durable:
  assumes "durable st" "op_small op"
  shows "durable (js_op io op st) \<or>
    (\<exists>e'. engine_op (engine_op_of op) (js_engine st) = Inr e' \<and> torn_after (js_file st) e' (js_op io op st)) \<and>
    js_engine (js_op io op st) = js_engine st"
proof (cases op)
  case (JAppend inp)
  then show ?thesis
    using js_append_durable [OF prod.collapse [symmetric] assms(1), of io inp] by (auto simp: bindR_eq_Inr)
next
  case (JCommitCll es ec nxt)
  then show ?thesis
    using js_commit_durable [OF prod.collapse [symmetric] assms(1), of nxt io es ec] assms(2) by simp
next
  case (JCommitWitness ea nxt)
  then show ?thesis
    using js_witness_durable [OF prod.collapse [symmetric] assms(1), of io ea nxt] by simp
qed

lemma js_op_closed: "js_closed st \<Longrightarrow> js_op io op st = st"
  by (cases op) (simp_all add: js_append_def js_commit_cll_def js_commit_witness_def js_mutate_def)

text \<open>In memory an operation is the engine's operation, or nothing.\<close>

lemma js_op_engine:
  assumes "engine_inv (js_engine st)"
  shows "js_engine (js_op io op st) = js_engine st \<or>
    engine_op (engine_op_of op) (js_engine st) = Inr (js_engine (js_op io op st))"
proof (cases op)
  case (JAppend inp)
  then show ?thesis
    using js_append_refines [OF assms prod.collapse [symmetric], of io inp] by (auto split: sum.splits)
next
  case (JCommitCll es ec nxt)
  then show ?thesis
    using js_commit_refines [OF assms prod.collapse [symmetric], of io es ec nxt] by (auto split: sum.splits)
next
  case (JCommitWitness ea nxt)
  then show ?thesis
    using js_witness_refines [OF assms prod.collapse [symmetric], of io ea nxt] by (auto split: sum.splits)
qed

lemma js_run_engine:
  assumes "engine_inv (js_engine st)"
  shows "\<exists>done. subseq done (map snd ops) \<and> js_engine (js_run ops st) = engine_run (map engine_op_of done) (js_engine st)"
  using assms
proof (induction ops arbitrary: st)
  case (Cons p ops)
  obtain io op where p: "p = (io, op)" by (cases p)
  let ?st = "js_op io op st"
  have same: "js_engine ?st = js_engine st \<or> engine_op (engine_op_of op) (js_engine st) = Inr (js_engine ?st)"
    by (rule js_op_engine [OF Cons.prems])
  then have "engine_inv (js_engine ?st)" using Cons.prems engine_op_ok by auto
  then obtain done1 where d: "subseq done1 (map snd ops)"
    "js_engine (js_run ops ?st) = engine_run (map engine_op_of done1) (js_engine ?st)" using Cons.IH by blast
  have run: "js_run ((io, op) # ops) st = js_run ops ?st" by (simp add: js_run_def)
  from same show ?case
  proof
    assume "js_engine ?st = js_engine st"
    then show ?thesis using d by (intro exI [of _ done1]) (auto simp: run p)
  next
    assume "engine_op (engine_op_of op) (js_engine st) = Inr (js_engine ?st)"
    then show ?thesis using d by (intro exI [of _ "op # done1"]) (simp add: run p engine_run_def)
  qed
qed (auto simp: js_run_def engine_run_def intro!: exI [of _ "[]"])

text \<open>In step, or closed with a torn last line after a journal that is in step.\<close>

definition journal_ok :: "JournalOp set \<Rightarrow> JsonlStore \<Rightarrow> bool" where
  "journal_ok ops st \<longleftrightarrow> engine_inv (js_engine st) \<and>
     (replays_to (js_file st) (js_engine st) \<or>
      (\<exists>old e'. \<exists>op\<in>ops. replays_to old (js_engine st) \<and> engine_op (engine_op_of op) (js_engine st) = Inr e' \<and>
         torn_after old e' st))"

lemma journal_ok_mono: "journal_ok A st \<Longrightarrow> A \<subseteq> B \<Longrightarrow> journal_ok B st"
  unfolding journal_ok_def by blast

lemma js_run_ok:
  "journal_ok A st \<Longrightarrow> \<forall>(io, op)\<in>set ops. op_small op \<Longrightarrow> snd ` set ops \<subseteq> A \<Longrightarrow> journal_ok A (js_run ops st)"
proof (induction ops arbitrary: st)
  case (Cons p ops)
  obtain io op where p: "p = (io, op)" by (cases p)
  have op: "op \<in> A" "op_small op" using Cons.prems(2,3) by (auto simp: p)
  have "journal_ok A (js_op io op st)"
  proof (cases "durable st")
    case True
    then show ?thesis
      using js_op_durable [OF True op(2), of io] op(1) unfolding journal_ok_def durable_def by metis
  next
    case False
    then have "js_closed st" using Cons.prems(1) by (auto simp: journal_ok_def durable_def torn_after_def)
    then show ?thesis using Cons.prems(1) by (simp add: js_op_closed)
  qed
  then show ?case using Cons by (simp add: js_run_def p)
qed (simp add: js_run_def)

section \<open>Opening a journal\<close>

lemma replay_init:
  assumes "dumps init_event = Inr line" "length line < MAX_JOURNAL_EVENT_BYTES"
  shows "replays_to (line @ [10]) new_engine"
proof -
  have ok: "json_ok init_event" by (simp add: init_event_def)
  note l = loads_dumps [OF ok assms(1)]
  have "replay_line new_engine False line = Inr new_engine"
    using assms(2) l(1) by (simp add: replay_line_def init_event_def apply_event_def new_engine_def empty_cll_state_def)
  then show ?thesis by (simp add: replays_to_def replay_step [OF l(2)])
qed

lemma init_line: "\<exists>line. dumps init_event = Inr line \<and> length line < MAX_JOURNAL_EVENT_BYTES"
proof -
  have "dumps init_event = Inr (map of_nat (text_of ''{\"version\":4,\"type\":\"cll.init\"}''))"
    by code_simp
  then show ?thesis by (simp add: text_of_def MAX_JOURNAL_EVENT_BYTES_def)
qed

lemma js_open_new:
  assumes "js_open True path None False io = (Inr st, f)"
  shows "durable st" "js_engine st = new_engine" "f = Some (js_file st)" "\<not> js_closed st"
proof -
  obtain line where line: "dumps init_event = Inr line" "length line < MAX_JOURNAL_EVENT_BYTES" using init_line by blast
  have ap: "js_append_event io \<lparr>js_file = [], js_engine = new_engine, js_closed = False\<rparr> init_event = (Inr (), st)"
    "f = Some (js_file st)"
    using assms by (auto simp: js_open_def Let_def split: if_splits sum.splits prod.splits)
  obtain f' b where w: "write_loop (io_writes io) [] (line @ [10]) = (f', b)"
    by (cases "write_loop (io_writes io) [] (line @ [10])")
  have "b" "st = \<lparr>js_file = f', js_engine = new_engine, js_closed = False\<rparr>"
    using ap(1) line w by (auto simp: js_append_event_def Let_def split: if_splits prod.splits)
  moreover have "f' = line @ [10]" using w \<open>b\<close> write_loop_all [of "io_writes io" "[]" "line @ [10]" f'] by simp
  ultimately show "durable st" "js_engine st = new_engine" "f = Some (js_file st)" "\<not> js_closed st"
    using replay_init [OF line] ap(2) by (simp_all add: durable_def)
qed

lemma js_open_durable:
  assumes "replays_to data e" "path \<noteq> []"
  shows "js_open initialize path (Some data) False io = (Inr \<lparr>js_file = data, js_engine = e, js_closed = False\<rparr>, Some data)"
  using assms replays_nonempty [OF assms(1)] by (simp add: js_open_def replays_to_def)

lemma js_open_torn:
  assumes "replays_to data e" "10 \<notin> set part" "part \<noteq> []" "path \<noteq> []"
  shows "js_open False path (Some (data @ part)) False io = (Inl CorruptError, Some (data @ part))"
    and "io_truncate io \<Longrightarrow> io_truncate_sync io \<Longrightarrow>
      js_open True path (Some (data @ part)) False io =
        (Inr \<lparr>js_file = data, js_engine = e, js_closed = False\<rparr>, Some data)"
  using assms replays_nonempty [OF assms(1)] by (simp_all add: js_open_def replays_torn)

lemma js_append_file:
  assumes "engine_inv (js_engine st)" "replays_to (js_file st) (js_engine st)" "js_append io st inp = (Inl err, st')"
  shows "js_file st' = js_file st \<or> js_closed st'"
proof (cases "js_closed st \<or> (\<exists>e. eg_append (js_engine st) inp = Inl e)")
  case True
  then show ?thesis using assms(3) by (auto simp: js_append_def js_mutate_def Let_def split: if_splits)
next
  case False
  then obtain x e' where op: "eg_append (js_engine st) inp = Inr (x, e')" by (cases "eg_append (js_engine st) inp") auto
  note s = js_append_step [OF assms(1) op]
  then obtain ms where ms: "append_event x (eg_snapshot (js_engine st)) e' = Inr (Some (JObj ms))" "json_ok (JObj ms)"
      "map_of ms (text_of ''version'') = Some (JInt SCHEMA_VERSION)" "apply_event (js_engine st) ms = Inr e'"
    using assms(3) False op by (auto simp: js_append_def js_mutate_def Let_def)
  obtain q st2 where ev: "js_append_event io (st\<lparr>js_engine := e'\<rparr>) (JObj ms) = (q, st2)"
    by (cases "js_append_event io (st\<lparr>js_engine := e'\<rparr>) (JObj ms)")
  have rep: "replays_to (js_file (st\<lparr>js_engine := e'\<rparr>)) (js_engine st)" using assms(2) by simp
  have st': "js_file st' = js_file st2" "js_closed st' = js_closed st2" "\<exists>e. q = Inl e"
    using assms(3) False op ms(1) ev by (auto simp: js_append_def js_mutate_def Let_def split: sum.splits)
  show ?thesis by (rule append_event_cases [OF rep ms(2,4,3) ev]) (use st' in auto)
qed

text \<open>An operating system that never fails, for the witnesses.\<close>

definition good_io :: JournalIo where
  "good_io = \<lparr>io_writes = [], io_fsync = True, io_truncate = True, io_truncate_sync = True\<rparr>"

lemma fresh_journal:
  obtains st where "js_open True [47] None False good_io = (Inr st, Some (js_file st))" "durable st"
proof -
  obtain line where line: "dumps init_event = Inr line" "length line < MAX_JOURNAL_EVENT_BYTES" using init_line by blast
  let ?st = "\<lparr>js_file = line @ [10], js_engine = new_engine, js_closed = False\<rparr>"
  have "js_open True [47] None False good_io = (Inr ?st, Some (js_file ?st))"
    using line by (simp add: js_open_def good_io_def js_append_event_def)
  then show thesis using js_open_new(1) by (intro that [of ?st]) auto
qed

section \<open>Properties\<close>

text \<open>
  C16. The journal and the memory. From a newly created journal, after any operations of the store
  whose sizes are below 2 to the 64 (a committed size is the number of nodes committed), under any
  behaviour of the operating system: the engine in memory is the one that some of the operations, in
  their order, make of an empty engine, and replaying the file rebuilds exactly that engine, unless
  the truncation that undoes a failed write failed too. Then the store is closed, and the file either
  replays to the engine that the failed operation would have made (its whole line stayed), or is a
  journal of the engine in memory followed by a part of one line.
\<close>

theorem journal_rebuilds_engine:
  assumes "js_open True path None False io0 = (Inr st0, f0)" "\<forall>(io, op)\<in>set ops. op_small op"
    "st = js_run ops st0"
  shows "(\<exists>done. subseq done (map snd ops) \<and> js_engine st = engine_run (map engine_op_of done) new_engine) \<and>
    (replays_to (js_file st) (js_engine st) \<or>
     js_closed st \<and> (\<exists>op\<in>set (map snd ops). \<exists>e'. engine_op (engine_op_of op) (js_engine st) = Inr e' \<and>
       (replays_to (js_file st) e' \<or>
        (\<exists>old part. js_file st = old @ part \<and> 10 \<notin> set part \<and> replays_to old (js_engine st)))))"
proof -
  note new = js_open_new [OF assms(1)]
  have "journal_ok (snd ` set ops) st0" using new(1) by (simp add: journal_ok_def durable_def)
  from js_run_ok [OF this assms(2)] have ok: "journal_ok (snd ` set ops) st" by (simp add: assms(3))
  have run: "\<exists>done. subseq done (map snd ops) \<and> js_engine st = engine_run (map engine_op_of done) new_engine"
    using js_run_engine [of st0 ops] new(1,2) by (simp add: durable_def assms(3))
  show ?thesis
  proof (cases "replays_to (js_file st) (js_engine st)")
    case False
    with ok obtain old e' op where o: "op \<in> set (map snd ops)" "replays_to old (js_engine st)"
      "engine_op (engine_op_of op) (js_engine st) = Inr e'" "torn_after old e' st"
      by (auto simp: journal_ok_def)
    from o(4) have "replays_to (js_file st) e' \<or>
        (\<exists>old part. js_file st = old @ part \<and> 10 \<notin> set part \<and> replays_to old (js_engine st))"
      using o(2) by (cases rule: torn_after_cases) blast+
    moreover have "js_closed st" using o(4) by (simp add: torn_after_def)
    ultimately show ?thesis using run o(1,3) by blast
  qed (use run in simp)
qed

text \<open>An append that is written in two parts, then one whose line is torn and cannot be undone.\<close>

definition stuck_io :: JournalIo where
  "stuck_io = \<lparr>io_writes = [Some 3, None], io_fsync = True, io_truncate = False, io_truncate_sync = True\<rparr>"

lemma journal_rebuilds_engine_witness:
  "\<exists>st0 f0. js_open True [47] None False good_io = (Inr st0, f0) \<and>
    (let inp = (\<lambda>b. \<lparr>ai_value = replicate 32 b, ai_appended_at = Aware 0\<rparr>);
         st = js_run [(good_io, JAppend (inp 7)), (stuck_io, JAppend (inp 8))] st0 in
     replays_to (js_file st) (js_engine st) \<or> js_closed st)"
proof -
  let ?inp = "\<lambda>b. \<lparr>ai_value = replicate 32 b, ai_appended_at = Aware 0\<rparr>"
  let ?ops = "[(good_io, JAppend (?inp 7)), (stuck_io, JAppend (?inp 8))]"
  obtain st where st: "js_open True [47] None False good_io = (Inr st, Some (js_file st))" by (rule fresh_journal)
  have "\<forall>(io, op)\<in>set ?ops. op_small op" by simp
  from journal_rebuilds_engine [OF st this refl] show ?thesis
    by (intro exI [of _ st] exI [of _ "Some (js_file st)"]) (use st in \<open>auto simp: Let_def\<close>)
qed

text \<open>
  C17. Crash recovery: when a journal of complete lines is followed by a part of a line,
  \<^verbatim>\<open>open\<close> refuses it and changes nothing, and \<^verbatim>\<open>init\<close> cuts the part off and the store then holds exactly
  the engine of the complete lines.
\<close>

theorem torn_tail_recovered:
  assumes "replays_to data e" "10 \<notin> set part" "part \<noteq> []" "path \<noteq> []" "io_truncate io" "io_truncate_sync io"
  shows "js_open False path (Some (data @ part)) False io = (Inl CorruptError, Some (data @ part)) \<and>
    js_open True path (Some (data @ part)) False io =
      (Inr \<lparr>js_file = data, js_engine = e, js_closed = False\<rparr>, Some data) \<and>
    js_open False path (Some data) False io = (Inr \<lparr>js_file = data, js_engine = e, js_closed = False\<rparr>, Some data)"
  using js_open_torn [OF assms(1-4)] js_open_durable [OF assms(1,4)] assms(5,6) by simp

lemma torn_tail_recovered_witness:
  "\<exists>data. js_open False [47] (Some (data @ [123])) False good_io = (Inl CorruptError, Some (data @ [123])) \<and>
    js_open True [47] (Some (data @ [123])) False good_io =
      (Inr \<lparr>js_file = data, js_engine = new_engine, js_closed = False\<rparr>, Some data)"
proof -
  obtain data where data: "replays_to data new_engine" using init_line replay_init by blast
  have part: "10 \<notin> set [123 :: 8 word]" "[123 :: 8 word] \<noteq> []" "[47 :: nat] \<noteq> []" by simp_all
  have io: "io_truncate good_io" "io_truncate_sync good_io" by (simp_all add: good_io_def)
  show ?thesis using torn_tail_recovered [OF data part io] by blast
qed

text \<open>
  C18. A failing operation is atomic: when \<^verbatim>\<open>append\<close> raises, the engine is exactly as before, and the
  journal too unless the store has closed itself; when it returns, it has done what the engine's
  \<^verbatim>\<open>append\<close> does.
\<close>

theorem append_atomic:
  assumes "durable st" "js_append io st inp = (r, st')"
  shows "case r of
      Inl _ \<Rightarrow> js_engine st' = js_engine st \<and> (js_file st' = js_file st \<or> js_closed st')
    | Inr x \<Rightarrow> eg_append (js_engine st) inp = Inr (x, js_engine st')"
  using assms js_append_refines [of st io inp r st'] js_append_file [of st io inp _ st']
  by (auto simp: durable_def split: sum.splits)

lemma append_atomic_witness:
  "\<exists>st st'. durable st \<and>
    js_append good_io st \<lparr>ai_value = [], ai_appended_at = Naive\<rparr> = (Inl InvalidError, st') \<and> js_engine st' = js_engine st"
proof -
  obtain line where line: "dumps init_event = Inr line" "length line < MAX_JOURNAL_EVENT_BYTES" using init_line by blast
  let ?st = "\<lparr>js_file = line @ [10], js_engine = new_engine, js_closed = False\<rparr>"
  have d: "durable ?st" using replay_init [OF line] by (simp add: durable_def)
  have c: "js_append good_io ?st \<lparr>ai_value = [], ai_appended_at = Naive\<rparr> = (Inl InvalidError, ?st)"
    by (simp add: js_append_def js_mutate_def eg_append_def check_append_def check_value_def width_def ENTRY_BYTES_def)
  show ?thesis using append_atomic [OF d c] d c by auto
qed

end
