(* ===== verification/Log_Ledger.thy ===== *)
theory Log_Ledger
  imports Log_Stores Log_Wire
begin

text \<open>
  \<^verbatim>\<open>cll/log/ledger.py\<close>: the adapters from ledger records to the entry log. The ledger behind them
  (\<^verbatim>\<open>source\<close>, \<^verbatim>\<open>store\<close>) is taken structurally by the code and is an argument here: the list its
  \<^verbatim>\<open>scan()\<close> yields, or its two lookups. A record is what the adapters read of one: \<^verbatim>\<open>seq\<close>,
  \<^verbatim>\<open>capsule_id\<close> and the string \<^verbatim>\<open>timestamp\<close> of its capsule, if it has one.
\<close>

section \<open>RFC 3339 times\<close>

text \<open>The whitespace \<^verbatim>\<open>str.strip\<close> removes.\<close>

definition py_space :: "nat \<Rightarrow> bool" where
  "py_space c \<longleftrightarrow> (9 \<le> c \<and> c \<le> 13) \<or> (28 \<le> c \<and> c \<le> 32) \<or> c = 133 \<or> c = 160 \<or> c = 5760 \<or>
     (8192 \<le> c \<and> c \<le> 8202) \<or> c = 8232 \<or> c = 8233 \<or> c = 8239 \<or> c = 8287 \<or> c = 12288"

definition strip :: "pytext \<Rightarrow> pytext" where
  "strip s = rev (dropWhile py_space (rev (dropWhile py_space s)))"

text \<open>The date and clock of \<^verbatim>\<open>_RFC3339\<close>: the first nineteen characters.\<close>

definition match_clock :: "pytext \<Rightarrow> (nat \<times> nat \<times> nat \<times> nat \<times> nat \<times> nat) option" where
  "match_clock s =
     (if length s = 19 \<and> s ! 4 = 45 \<and> s ! 7 = 45 \<and> (s ! 10 = 84 \<or> s ! 10 = 116 \<or> s ! 10 = 32) \<and> s ! 13 = 58 \<and> s ! 16 = 58
      then
        (case (parse_fixed 4 (take 4 s), parse_fixed 2 (take 2 (drop 5 s)), parse_fixed 2 (take 2 (drop 8 s)),
               parse_fixed 2 (take 2 (drop 11 s)), parse_fixed 2 (take 2 (drop 14 s)), parse_fixed 2 (take 2 (drop 17 s))) of
           (Some y, Some mo, Some d, Some h, Some mi, Some sec) \<Rightarrow> Some (y, mo, d, h, mi, sec)
         | _ \<Rightarrow> None)
      else None)"

text \<open>The optional fraction: its digits and what follows it.\<close>

definition match_fraction :: "pytext \<Rightarrow> (pytext \<times> pytext) option" where
  "match_fraction s =
     (case s of
        c # cs \<Rightarrow> if c = 46 then (if takeWhile is_digit cs = [] then None
                                else Some (takeWhile is_digit cs, dropWhile is_digit cs))
                  else Some ([], s)
      | [] \<Rightarrow> Some ([], []))"

text \<open>The optional offset, in minutes; none is UTC.\<close>

definition match_offset :: "pytext \<Rightarrow> int option" where
  "match_offset s =
     (if s = [] \<or> s = [90] \<or> s = [122] then Some 0
      else if length s = 6 \<and> (s ! 0 = 43 \<or> s ! 0 = 45) \<and> s ! 3 = 58 then
        (case (parse_fixed 2 (take 2 (drop 1 s)), parse_fixed 2 (take 2 (drop 4 s))) of
           (Some h, Some m) \<Rightarrow> Some ((if s ! 0 = 45 then - 1 else 1) * (int h * 60 + int m))
         | _ \<Rightarrow> None)
      else None)"

definition micros_of :: "pytext \<Rightarrow> nat" where
  "micros_of fraction = foldl (\<lambda>a c. a * 10 + (c - 48)) 0 (take 6 fraction @ replicate (6 - length fraction) 48)"

definition instant :: "pytext \<Rightarrow> datetime option" where
  "instant value =
     (let s = strip value in
      case match_clock (take 19 s) of
        None \<Rightarrow> None
      | Some (y, mo, d, h, mi, sec) \<Rightarrow>
          (case match_fraction (drop 19 s) of
             None \<Rightarrow> None
           | Some (fraction, zone) \<Rightarrow>
               (case match_offset zone of
                  None \<Rightarrow> None
                | Some off \<Rightarrow>
                    if 1 \<le> y \<and> y \<le> 9999 \<and> 1 \<le> mo \<and> mo \<le> 12 \<and> 1 \<le> d \<and> d \<le> days_in_month y mo \<and> h < 24 \<and> mi < 60 \<and>
                       sec < 60 \<and> - 1440 < off \<and> off < 1440
                    then
                      (let day = days_before_year y + days_before_month y mo + (d - 1);
                           tod = (h * 60 + mi) * 60 + sec in
                       Some (Aware ((int (day * 86400 + tod) - off * 60) * 1000000 + int (micros_of fraction))))
                    else None)))"

section \<open>Records as entries\<close>

record LedgerRecord =
  lr_seq :: int
  lr_capsule_id :: string
  lr_timestamp :: "pytext option"

definition capsule_timestamp :: "LedgerRecord \<Rightarrow> datetime res" where
  "capsule_timestamp rec =
     (case lr_timestamp rec of
        None \<Rightarrow> Inl CorruptError
      | Some value \<Rightarrow>
          if value = [] then Inl CorruptError
          else case instant value of None \<Rightarrow> Inl CorruptError | Some t \<Rightarrow> normalize_time CorruptError t)"

definition record_entry :: "(LedgerRecord \<Rightarrow> datetime res) \<Rightarrow> LedgerRecord \<Rightarrow> Entry res" where
  "record_entry appended_at rec =
     (if lr_seq rec < 1 then Inl CorruptError
      else
        let value = (case from_hex (lr_capsule_id rec) of Inl _ \<Rightarrow> [] | Inr v \<Rightarrow> v) in
        if length value \<noteq> ENTRY_BYTES \<or> lr_capsule_id rec \<noteq> to_hex value then Inl CorruptError
        else bindR (appended_at rec) (\<lambda>t. bindR (normalize_time CorruptError t) (\<lambda>t.
          Inr \<lparr>en_seq = lr_seq rec, en_value = value, en_appended_at = t\<rparr>)))"

section \<open>Any log source\<close>

fun log_scan_loop :: "(LedgerRecord \<Rightarrow> datetime res) \<Rightarrow> int \<Rightarrow> int \<Rightarrow> int \<Rightarrow> Entry list \<Rightarrow> LedgerRecord list \<Rightarrow> Entry list res" where
  "log_scan_loop appended_at after_seq limit expected out [] = Inr out"
| "log_scan_loop appended_at after_seq limit expected out (rec # recs) =
     (if lr_seq rec \<noteq> expected then Inl CorruptError
      else if expected \<le> after_seq then log_scan_loop appended_at after_seq limit (expected + 1) out recs
      else
        bindR (record_entry appended_at rec) (\<lambda>e.
        if int (length (out @ [e])) = limit then Inr (out @ [e])
        else log_scan_loop appended_at after_seq limit (expected + 1) (out @ [e]) recs))"

definition ls_scan_entries :: "(LedgerRecord \<Rightarrow> datetime res) \<Rightarrow> LedgerRecord list \<Rightarrow> int \<Rightarrow> int \<Rightarrow> Entry list res" where
  "ls_scan_entries appended_at source after_seq limit =
     bindR (check_scan after_seq limit) (\<lambda>_. log_scan_loop appended_at after_seq limit 1 [] source)"

section \<open>The ledger store\<close>

record LedgerEntryStore =
  le_closed :: bool
  le_owns_store :: bool
  le_store_closed :: bool

definition le_require_open :: "LedgerEntryStore \<Rightarrow> unit res" where
  "le_require_open st = (if le_closed st then Inl ClosedError else Inr ())"

fun check_dense :: "int \<Rightarrow> Entry list \<Rightarrow> unit res" where
  "check_dense n [] = Inr ()"
| "check_dense n (e # es) = (if en_seq e \<noteq> n then Inl CorruptError else check_dense (n + 1) es)"

definition le_scan_entries ::
  "(LedgerRecord \<Rightarrow> datetime res) \<Rightarrow> (int \<Rightarrow> int \<Rightarrow> LedgerRecord list res) \<Rightarrow> LedgerEntryStore \<Rightarrow> int \<Rightarrow> int \<Rightarrow> Entry list res" where
  "le_scan_entries appended_at by_seq_range st after_seq limit =
     bindR (le_require_open st) (\<lambda>_.
     bindR (check_scan after_seq limit) (\<lambda>_.
     bindR (by_seq_range (after_seq + 1) (after_seq + limit)) (\<lambda>records.
     bindR (mapR (record_entry appended_at) records) (\<lambda>entries.
     bindR (check_dense (after_seq + 1) entries) (\<lambda>_. Inr entries)))))"

definition le_get_entry ::
  "(LedgerRecord \<Rightarrow> datetime res) \<Rightarrow> (string \<Rightarrow> LedgerRecord option res) \<Rightarrow> LedgerEntryStore \<Rightarrow> bytes \<Rightarrow> Entry res" where
  "le_get_entry appended_at by_digest st value =
     bindR (le_require_open st) (\<lambda>_.
     bindR (check_value value) (\<lambda>value.
     bindR (by_digest (to_hex value)) (\<lambda>rec.
     case rec of None \<Rightarrow> Inl NotFoundError | Some r \<Rightarrow> record_entry appended_at r)))"

definition le_append ::
  "(LedgerRecord \<Rightarrow> datetime res) \<Rightarrow> (string \<Rightarrow> LedgerRecord option res) \<Rightarrow> LedgerEntryStore \<Rightarrow> AppendInput \<Rightarrow> AppendResult res" where
  "le_append appended_at by_digest st inp =
     bindR (le_require_open st) (\<lambda>_.
     bindR (check_append inp) (\<lambda>(value, _).
     bindR (by_digest (to_hex value)) (\<lambda>rec.
     case rec of
       None \<Rightarrow> Inl UnsupportedError
     | Some r \<Rightarrow> bindR (record_entry appended_at r) (\<lambda>e. Inr \<lparr>ar_entry = e, ar_outcome = IDEMPOTENT\<rparr>))))"

definition le_close :: "LedgerEntryStore \<Rightarrow> LedgerEntryStore" where
  "le_close st =
     (if le_closed st then st
      else st\<lparr>le_closed := True, le_store_closed := le_store_closed st \<or> le_owns_store st\<rparr>)"

section \<open>A log source is an entry source\<close>

lemma record_entry_seq: "record_entry f r = Inr e \<Longrightarrow> en_seq e = lr_seq r \<and> 1 \<le> lr_seq r \<and> length (en_value e) = 32"
  by (auto simp: record_entry_def bindR_eq_Inr Let_def ENTRY_BYTES_def split: if_splits sum.splits)

lemma log_scan_skip:
  assumes "\<forall>i<length source. lr_seq (source ! i) = n + int i" "nat (a - n + 1) \<le> length source" "n \<le> a + 1"
  shows "log_scan_loop f a l n [] source = log_scan_loop f a l (a + 1) [] (drop (nat (a - n + 1)) source)"
  using assms
proof (induction source arbitrary: n)
  case (Cons r source)
  have r: "lr_seq r = n" using Cons.prems(1) [rule_format, of 0] by simp
  have rest: "\<forall>i<length source. lr_seq (source ! i) = n + 1 + int i"
    using Cons.prems(1) by (metis Suc_less_eq add.assoc add.commute length_Cons nth_Cons_Suc of_nat_Suc)
  show ?case
  proof (cases "n \<le> a")
    case True
    then have d: "nat (a - n + 1) = Suc (nat (a - (n + 1) + 1))" by linarith
    have "log_scan_loop f a l n [] (r # source) = log_scan_loop f a l (n + 1) [] source"
      using r True by simp
    also have "\<dots> = log_scan_loop f a l (a + 1) [] (drop (nat (a - (n + 1) + 1)) source)"
      using Cons.prems(2) True d by (intro Cons.IH rest) auto
    finally show ?thesis by (simp only: d drop_Suc_Cons)
  next
    case False
    then have "n = a + 1" using Cons.prems(3) by simp
    then show ?thesis by simp
  qed
next
  case Nil
  then have "n = a + 1" by simp
  then show ?case by simp
qed

lemma log_scan_take:
  assumes "mapR (record_entry f) source = Inr es" "\<forall>i<length source. lr_seq (source ! i) = n + int i" "a < n"
    "int (length out) < l"
  shows "log_scan_loop f a l n out source = Inr (out @ take (nat l - length out) es)"
  using assms
proof (induction source arbitrary: n es out)
  case (Cons r source)
  obtain e es' where e: "record_entry f r = Inr e" "mapR (record_entry f) source = Inr es'" "es = e # es'"
    using Cons.prems(1) by (auto simp: bindR_eq_Inr)
  have r: "lr_seq r = n" using Cons.prems(2) [rule_format, of 0] by simp
  have rest: "\<forall>i<length source. lr_seq (source ! i) = n + 1 + int i"
    using Cons.prems(2) by (metis Suc_less_eq add.assoc add.commute length_Cons nth_Cons_Suc of_nat_Suc)
  show ?case
  proof (cases "int (length (out @ [e])) = l")
    case True
    then have "nat l - length out = Suc 0" by simp
    then show ?thesis using r Cons.prems(3) e True by simp
  next
    case False
    then have "log_scan_loop f a l (n + 1) (out @ [e]) source = Inr ((out @ [e]) @ take (nat l - length (out @ [e])) es')"
      using Cons.prems by (intro Cons.IH e rest) auto
    moreover have "nat l - length out = Suc (nat l - length (out @ [e]))" using Cons.prems(4) False by simp
    ultimately show ?thesis using r Cons.prems(3) e False by simp
  qed
qed simp

text \<open>A source of valid records in dense order, and the entries it stands for.\<close>

definition source_ok :: "(LedgerRecord \<Rightarrow> datetime res) \<Rightarrow> LedgerRecord list \<times> Entry list \<Rightarrow> bool" where
  "source_ok f = (\<lambda>(source, es). mapR (record_entry f) source = Inr es \<and>
     (\<forall>i<length source. lr_seq (source ! i) = int i + 1) \<and> int (length source) \<le> MAX_PORTABLE_INTEGER)"

lemma source_scan:
  assumes "source_ok f (source, es)" "0 \<le> a" "a \<le> MAX_PORTABLE_INTEGER" "1 \<le> n" "n \<le> MAX_SCAN_LIMIT"
  shows "ls_scan_entries f source a n = Inr (take (nat n) (drop (nat a) es))"
proof -
  have m: "mapR (record_entry f) source = Inr es" and s: "\<forall>i<length source. lr_seq (source ! i) = int i + 1"
    using assms(1) by (simp_all add: source_ok_def)
  have c: "check_scan a n = Inr ()" using assms by (simp add: check_scan_def)
  show ?thesis
  proof (cases "nat a \<le> length source")
    case True
    have "log_scan_loop f a n 1 [] source = log_scan_loop f a n (a + 1) [] (drop (nat a) source)"
      using log_scan_skip [of source 1 a f n] s True assms(2) by (simp add: add.commute)
    also have "\<dots> = Inr ([] @ take (nat n - length ([] :: Entry list)) (drop (nat a) es))"
    proof (rule log_scan_take)
      show "mapR (record_entry f) (drop (nat a) source) = Inr (drop (nat a) es)"
        using m by (auto simp: mapR_eq_Inr)
      show "\<forall>i<length (drop (nat a) source). lr_seq (drop (nat a) source ! i) = a + 1 + int i"
        using s assms(2) True by auto
    qed (use assms in auto)
    finally show ?thesis by (simp add: ls_scan_entries_def c)
  next
    case False
    have skip: "log_scan_loop f a n k out src = Inr out"
      if "\<forall>i<length src. lr_seq (src ! i) = k + int i" "k + int (length src) \<le> a + 1" for k out src
      using that
    proof (induction src arbitrary: k)
      case (Cons r src)
      have "\<forall>i<length src. lr_seq (src ! i) = k + 1 + int i"
        using Cons.prems(1) by (metis Suc_less_eq add.assoc add.commute length_Cons nth_Cons_Suc of_nat_Suc)
      moreover have "lr_seq r = k" using Cons.prems(1) [rule_format, of 0] by simp
      ultimately show ?case using Cons.IH [of "k + 1"] Cons.prems(2) by simp
    qed simp
    have "log_scan_loop f a n 1 [] source = Inr []"
      using s False by (intro skip) auto
    moreover have "drop (nat a) es = []" using False mapR_length [OF m] by simp
    ultimately show ?thesis by (simp add: ls_scan_entries_def c)
  qed
qed

interpretation log_source: entry_source "source_ok f" snd "\<lambda>st. ls_scan_entries f (fst st)"
proof unfold_locales
  fix st a n assume "source_ok f st" "(0::int) \<le> a" "a \<le> MAX_PORTABLE_INTEGER" "1 \<le> n" "n \<le> MAX_SCAN_LIMIT"
  then show "ls_scan_entries f (fst st) a n = Inr (take (nat n) (drop (nat a) (snd st)))"
    using source_scan [of f "fst st" "snd st" a n] by simp
next
  fix st i assume st: "source_ok f st" "i < length (snd st)"
  obtain source es where p: "st = (source, es)" by (cases st)
  have m: "mapR (record_entry f) source = Inr es" using st p by (simp add: source_ok_def)
  have "record_entry f (source ! i) = Inr (es ! i)" "lr_seq (source ! i) = int i + 1"
    using mapR_nth [OF m, of i] mapR_length [OF m] st p by (simp_all add: source_ok_def)
  then show "en_seq (snd st ! i) = int i + 1" using record_entry_seq [of f "source ! i" "es ! i"] p by simp
next
  fix st assume "source_ok f st"
  then show "int (length (snd st)) \<le> MAX_PORTABLE_INTEGER"
    using mapR_length [of "record_entry f" "fst st" "snd st"] by (auto simp: source_ok_def split: prod.splits)
qed

section \<open>The two readers of time agree\<close>

lemma drop_19:
  assumes "length t = 24"
  shows "drop 19 t = [t ! 19, t ! 20, t ! 21, t ! 22, t ! 23]"
  using assms by (intro nth_equalityI) (auto simp: nth_Cons numeral_eq_Suc less_Suc_eq split: nat.splits)

lemma strip_id:
  assumes "t \<noteq> []" "\<not> py_space (hd t)" "\<not> py_space (last t)"
  shows "strip t = t"
proof -
  have "dropWhile py_space t = t" using assms by (cases t) auto
  moreover have "dropWhile py_space (rev t) = rev t" using assms by (cases "rev t") (auto simp: last_rev hd_rev [symmetric] rev_swap)
  ultimately show ?thesis by (simp add: strip_def)
qed

lemma parse_fixed_hd: "parse_fixed (Suc k) (c # s) = Some n \<Longrightarrow> is_digit c"
  by (auto simp: parse_fixed_def split: if_splits)

lemma millis_micros:
  assumes "parse_fixed 3 [a, b, c] = Some ms"
  shows "micros_of [a, b, c] = ms * 1000" "takeWhile is_digit [a, b, c, 90] = [a, b, c]" "dropWhile is_digit [a, b, c, 90] = [90]"
proof -
  have d: "is_digit a" "is_digit b" "is_digit c" and ms: "foldl (\<lambda>a c. a * 10 + (c - 48)) 0 [a, b, c] = ms"
    using assms by (auto simp: parse_fixed_def split: if_splits)
  have "micros_of [a, b, c] = foldl (\<lambda>a c. a * 10 + (c - 48)) 0 [a, b, c, 48, 48, 48]"
    by (simp add: micros_of_def numeral_3_eq_3)
  then show "micros_of [a, b, c] = ms * 1000" using ms by simp
  show "takeWhile is_digit [a, b, c, 90] = [a, b, c]" "dropWhile is_digit [a, b, c, 90] = [90]"
    using d by (simp_all add: is_digit_def)
qed

lemma instant_parse_time:
  assumes "parse_time e t = Inr v"
  shows "instant t = Some v"
proof -
  from assms obtain y mo d h mi sec ms where m: "match_time t = Some (y, mo, d, h, mi, sec, ms)"
    and ok: "1 \<le> y \<and> y \<le> 9999 \<and> 1 \<le> mo \<and> mo \<le> 12 \<and> 1 \<le> d \<and> d \<le> days_in_month y mo \<and> h < 24 \<and> mi < 60 \<and> sec < 60"
    and v: "v = Aware (int ((days_before_year y + days_before_month y mo + (d - 1)) * 86400000 +
      (((h * 60 + mi) * 60 + sec) * 1000 + ms)) * 1000)"
    by (auto simp: parse_time_def Let_def split: option.splits if_splits prod.splits)
  from m have len: "length t = 24" and at: "t ! 4 = 45" "t ! 7 = 45" "t ! 10 = 84" "t ! 13 = 58" "t ! 16 = 58" "t ! 19 = 46" "t ! 23 = 90"
    and fields: "parse_fixed 4 (take 4 t) = Some y" "parse_fixed 2 (take 2 (drop 5 t)) = Some mo"
      "parse_fixed 2 (take 2 (drop 8 t)) = Some d" "parse_fixed 2 (take 2 (drop 11 t)) = Some h"
      "parse_fixed 2 (take 2 (drop 14 t)) = Some mi" "parse_fixed 2 (take 2 (drop 17 t)) = Some sec"
      "parse_fixed 3 (take 3 (drop 20 t)) = Some ms"
    by (auto simp: match_time_def split: if_splits option.splits)
  have clock: "match_clock (take 19 t) = Some (y, mo, d, h, mi, sec)"
    using len at fields by (simp add: match_clock_def drop_take min_def)
  have d19: "drop 19 t = [46, t ! 20, t ! 21, t ! 22, 90]" using drop_19 [OF len] at by simp
  then have "drop 20 t = [t ! 20, t ! 21, t ! 22, 90]" using drop_drop [of 1 19 t] by simp
  then have ms: "parse_fixed 3 [t ! 20, t ! 21, t ! 22] = Some ms" using fields(7) by (simp add: numeral_eq_Suc)
  note mm = millis_micros [OF ms]
  have "strip t = t"
  proof (rule strip_id)
    show "t \<noteq> []" using len by auto
    have "take 4 t = hd t # take 3 (tl t)" using len by (cases t) (auto simp: numeral_eq_Suc)
    then have "is_digit (hd t)" using fields(1) parse_fixed_hd [of 3 "hd t" "take 3 (tl t)" y] by (simp add: numeral_eq_Suc)
    then show "\<not> py_space (hd t)" by (simp add: is_digit_def py_space_def)
    have "last t = t ! (length t - 1)" using len by (intro last_conv_nth) auto
    then have "last t = 90" using len at by simp
    then show "\<not> py_space (last t)" by (simp add: py_space_def)
  qed
  moreover have "match_fraction (drop 19 t) = Some ([t ! 20, t ! 21, t ! 22], [90])"
    using mm(2,3) by (simp add: d19 match_fraction_def)
  moreover have "int ((days_before_year y + days_before_month y mo + (d - 1)) * 86400 + ((h * 60 + mi) * 60 + sec)) * 1000000 + int (ms * 1000)
      = int ((days_before_year y + days_before_month y mo + (d - 1)) * 86400000 + (((h * 60 + mi) * 60 + sec) * 1000 + ms)) * 1000"
    by simp
  ultimately show ?thesis using clock ok mm(1) by (simp add: instant_def match_offset_def v Let_def)
qed

section \<open>Properties\<close>

text \<open>
  The ledger's RFC 3339 reader agrees with the wire format: every time \<^verbatim>\<open>parse_time\<close> accepts,
  \<^verbatim>\<open>_instant\<close> reads as the same instant; so a record stamped with \<^verbatim>\<open>format_time\<close> has exactly that
  time as its entry.
\<close>

theorem wire_time_is_instant:
  "(parse_time e t = Inr v \<longrightarrow> instant t = Some v) \<and>
   (normalize_time e v = Inr v \<longrightarrow> (\<exists>s. format_time v = Inr s \<and>
      capsule_timestamp \<lparr>lr_seq = n, lr_capsule_id = c, lr_timestamp = Some s\<rparr> = Inr v))"
proof (intro conjI impI)
  assume "parse_time e t = Inr v"
  then show "instant t = Some v" by (rule instant_parse_time)
next
  assume v: "normalize_time e v = Inr v"
  obtain s where s: "format_time v = Inr s" "parse_time e s = Inr v" using parse_format_time [OF v, of e] by auto
  have "instant s = Some v" using s(2) by (rule instant_parse_time)
  moreover have "s \<noteq> []" using s(2) by (auto simp: parse_time_def match_time_def split: option.splits if_splits)
  ultimately show "\<exists>s. format_time v = Inr s \<and> capsule_timestamp \<lparr>lr_seq = n, lr_capsule_id = c, lr_timestamp = Some s\<rparr> = Inr v"
    using s(1) normalize_time_idem [OF v, of CorruptError] by (intro exI [of _ s]) (simp add: capsule_timestamp_def)
qed

lemma canonical_time: "normalize_time CorruptError (Aware 63839664000000000) = Inr (Aware 63839664000000000)"
  by (simp add: normalize_time_def MAX_MICROS_def)

lemma wire_time_is_instant_witness:
  "\<exists>s. format_time (Aware 63839664000000000) = Inr s \<and>
     capsule_timestamp \<lparr>lr_seq = 1, lr_capsule_id = [], lr_timestamp = Some s\<rparr> = Inr (Aware 63839664000000000)"
  using wire_time_is_instant canonical_time by blast

text \<open>
  \<^verbatim>\<open>LogSourceEntries\<close> pages the whole log: for a source of valid records in dense order, reading
  page after page of any allowed size, each from the last sequence number seen, returns every
  record's entry once and in order.
\<close>

theorem log_source_pages_complete:
  assumes "mapR (record_entry f) source = Inr es" "\<forall>i<length source. lr_seq (source ! i) = int i + 1"
    "int (length source) \<le> MAX_PORTABLE_INTEGER" "1 \<le> n" "n \<le> MAX_SCAN_LIMIT" "length es \<le> k * nat n"
  shows "entry_source.read_pages (\<lambda>st. ls_scan_entries f (fst st)) k (source, es) 0 n = Inr es"
  using log_source.read_pages_all [of f "(source, es)" n k] assms by (simp add: source_ok_def)

lemma log_source_pages_complete_witness:
  "\<exists>source es. entry_source.read_pages (\<lambda>st. ls_scan_entries capsule_timestamp (fst st)) 2 (source, es) 0 1 = Inr es \<and>
    length es = 1 \<and> map lr_capsule_id source = [to_hex (replicate 32 7)]"
proof -
  obtain s where s: "format_time (Aware 63839664000000000) = Inr s" "parse_time CorruptError s = Inr (Aware 63839664000000000)"
    using parse_format_time [OF canonical_time, of CorruptError] by auto
  then have i: "instant s = Some (Aware 63839664000000000)" "s \<noteq> []"
    using instant_parse_time [OF s(2)] by (auto simp: parse_time_def match_time_def split: option.splits if_splits)
  let ?r = "\<lparr>lr_seq = 1, lr_capsule_id = to_hex (replicate 32 7), lr_timestamp = Some s\<rparr>"
  have "mapR (record_entry capsule_timestamp) [?r]
      = Inr [\<lparr>en_seq = 1, en_value = replicate 32 7, en_appended_at = Aware 63839664000000000\<rparr>]"
    using i canonical_time by (simp add: record_entry_def capsule_timestamp_def ENTRY_BYTES_def)
  from log_source_pages_complete [OF this, of 1 2] show ?thesis
    by (intro exI [of _ "[?r]"] exI [of _ "[\<lparr>en_seq = 1, en_value = replicate 32 7, en_appended_at = Aware 63839664000000000\<rparr>]"])
      (simp add: MAX_PORTABLE_INTEGER_def MAX_SCAN_LIMIT_def)
qed

text \<open>
  The ledger adapter never stores: \<^verbatim>\<open>append\<close> succeeds only for an identity the ledger already
  holds, returns the entry \<^verbatim>\<open>get_entry\<close> returns, and reports it as idempotent.
\<close>

theorem ledger_append_is_lookup:
  "le_append f by_digest st inp = Inr r \<longleftrightarrow>
     (\<exists>p. check_append inp = Inr p) \<and> ar_outcome r = IDEMPOTENT \<and> le_get_entry f by_digest st (ai_value inp) = Inr (ar_entry r)"
proof -
  have "le_append f by_digest st inp = Inr r \<longleftrightarrow> (\<exists>p. check_append inp = Inr p) \<and> le_require_open st = Inr () \<and>
      (\<exists>rec. by_digest (to_hex (ai_value inp)) = Inr (Some rec) \<and> record_entry f rec = Inr (ar_entry r)) \<and> ar_outcome r = IDEMPOTENT"
    by (cases r) (auto simp: le_append_def bindR_eq_Inr check_append_eq split: option.splits)
  moreover have "le_get_entry f by_digest st (ai_value inp) = Inr (ar_entry r) \<longleftrightarrow> le_require_open st = Inr () \<and>
      length (ai_value inp) = 32 \<and> (\<exists>rec. by_digest (to_hex (ai_value inp)) = Inr (Some rec) \<and> record_entry f rec = Inr (ar_entry r))"
    by (auto simp: le_get_entry_def bindR_eq_Inr split: option.splits)
  moreover have "check_append inp = Inr p \<Longrightarrow> length (ai_value inp) = 32" for p
    by (cases p) (auto simp: check_append_eq)
  ultimately show ?thesis by blast
qed

end
