(* ===== verification/Checkpoint_Record.thy ===== *)
theory Checkpoint_Record
  imports Log_Wire "HOL-Library.List_Lexorder"
begin

text \<open>
  The data of \<^verbatim>\<open>cll/checkpoint/emit.py\<close>: the configuration and its cadence, witness and checkpoint
  records, their dictionaries, and the bytes the signature and the log entry cover. Texts are lists
  of code points; JSON is that of \<open>Json_Text\<close>, printed in ASCII with sorted keys. A record survives its
  JSON form, and each digest determines what it covers. Emission is in \<open>Checkpoint_Emit\<close>,
  registration and stamps in \<open>Checkpoint_Stamps\<close>.
\<close>

section \<open>Records\<close>

record CheckpointConfig =
  cc_ts_urls :: "pytext list"
  cc_cadence_entries :: int
  cc_cadence_seconds :: int
  cc_max_lag_entries :: int

definition default_config :: CheckpointConfig where
  "default_config = \<lparr>cc_ts_urls = [], cc_cadence_entries = 100, cc_cadence_seconds = 900, cc_max_lag_entries = 200\<rparr>"

text \<open>The age is any ordered number type: Python compares the float with an integer exactly.\<close>

definition due_for_checkpoint :: "CheckpointConfig \<Rightarrow> int \<Rightarrow> ('t :: linordered_idom) option \<Rightarrow> bool" where
  "due_for_checkpoint cfg entries_since_last seconds_since_last =
     (if entries_since_last \<le> 0 then False
      else if entries_since_last \<ge> cc_cadence_entries cfg then True
      else case seconds_since_last of None \<Rightarrow> False | Some s \<Rightarrow> s \<ge> of_int (cc_cadence_seconds cfg))"

definition lag_exceeded :: "CheckpointConfig \<Rightarrow> int \<Rightarrow> bool" where
  "lag_exceeded cfg entries_since_last = (entries_since_last > cc_max_lag_entries cfg)"

record WitnessRecord =
  wi_ts_url :: pytext
  wi_entry_hash :: pytext
  wi_receipt_b64 :: pytext
  wi_leaf_index :: int
  wi_tree_size :: int
  wi_is_stub :: bool

record CheckpointRecord =
  ck_v :: int
  ck_kind :: pytext
  ck_log_id :: pytext
  ck_mmr_size :: int
  ck_root :: pytext
  ck_prev_size :: int
  ck_prev_root :: pytext
  ck_key_id :: pytext
  ck_timestamp :: pytext
  ck_signature :: pytext
  ck_witnesses :: "WitnessRecord list"

section \<open>Dictionaries\<close>

definition wi_to_dict :: "WitnessRecord \<Rightarrow> json" where
  "wi_to_dict w = JObj (
     [(text_of ''ts_url'', JStr (wi_ts_url w)),
      (text_of ''entry_hash'', JStr (wi_entry_hash w)),
      (text_of ''receipt_b64'', JStr (wi_receipt_b64 w)),
      (text_of ''leaf_index'', JInt (wi_leaf_index w)),
      (text_of ''tree_size'', JInt (wi_tree_size w))] @
     (if wi_is_stub w then [(text_of ''is_stub'', JBool True)] else []))"

definition signing_dict :: "CheckpointRecord \<Rightarrow> (pytext \<times> json) list" where
  "signing_dict c =
     [(text_of ''v'', JInt (ck_v c)),
      (text_of ''kind'', JStr (ck_kind c)),
      (text_of ''log_id'', JStr (ck_log_id c)),
      (text_of ''mmr_size'', JInt (ck_mmr_size c)),
      (text_of ''root'', JStr (ck_root c)),
      (text_of ''prev_size'', JInt (ck_prev_size c)),
      (text_of ''prev_root'', JStr (ck_prev_root c)),
      (text_of ''key_id'', JStr (ck_key_id c)),
      (text_of ''timestamp'', JStr (ck_timestamp c))]"

definition cp_to_dict :: "CheckpointRecord \<Rightarrow> json" where
  "cp_to_dict c = JObj (signing_dict c @ [(text_of ''signature'', JStr (ck_signature c))] @
     (if ck_witnesses c \<noteq> [] then [(text_of ''witnesses'', JArr (map wi_to_dict (ck_witnesses c)))] else []))"

text \<open>
  \<^verbatim>\<open>int(value)\<close> and \<^verbatim>\<open>bool(value)\<close> of a JSON value. What \<^verbatim>\<open>int\<close> makes of a text or of a float
  literal is the argument \<open>int_of_text\<close>. A member read as a text is one: the annotations of the
  dataclasses say so, the code does not check it.
\<close>

definition py_int :: "(json \<Rightarrow> int res) \<Rightarrow> json \<Rightarrow> int res" where
  "py_int int_of_text v =
     (case v of JInt n \<Rightarrow> Inr n | JBool b \<Rightarrow> Inr (if b then 1 else 0)
      | JStr _ \<Rightarrow> int_of_text v | JFloat _ \<Rightarrow> int_of_text v | _ \<Rightarrow> Inl TypeError)"

definition py_bool :: "json \<Rightarrow> bool" where
  "py_bool v =
     (case v of JNull \<Rightarrow> False | JBool b \<Rightarrow> b | JInt n \<Rightarrow> n \<noteq> 0 | JStr s \<Rightarrow> s \<noteq> []
      | JArr vs \<Rightarrow> vs \<noteq> [] | JObj ms \<Rightarrow> ms \<noteq> []
      | JFloat t \<Rightarrow> \<exists>c\<in>set (takeWhile (\<lambda>c. c \<noteq> 101 \<and> c \<noteq> 69) t). c \<notin> {48, 45, 46})"

definition wi_from_dict :: "(json \<Rightarrow> int res) \<Rightarrow> json \<Rightarrow> WitnessRecord res" where
  "wi_from_dict int_of_text v =
     bindR (as_object TypeError v) (\<lambda>d.
     bindR (bindR (required KeyError ''ts_url'' d) (as_string TypeError)) (\<lambda>ts_url.
     bindR (bindR (required KeyError ''entry_hash'' d) (as_string TypeError)) (\<lambda>entry_hash.
     bindR (bindR (required KeyError ''receipt_b64'' d) (as_string TypeError)) (\<lambda>receipt_b64.
     bindR (bindR (required KeyError ''leaf_index'' d) (py_int int_of_text)) (\<lambda>leaf_index.
     bindR (bindR (required KeyError ''tree_size'' d) (py_int int_of_text)) (\<lambda>tree_size.
     Inr \<lparr>wi_ts_url = ts_url, wi_entry_hash = entry_hash, wi_receipt_b64 = receipt_b64,
       wi_leaf_index = leaf_index, wi_tree_size = tree_size,
       wi_is_stub = (case map_of d (text_of ''is_stub'') of None \<Rightarrow> False | Some b \<Rightarrow> py_bool b)\<rparr>))))))"

definition cp_from_dict :: "(json \<Rightarrow> int res) \<Rightarrow> json \<Rightarrow> CheckpointRecord res" where
  "cp_from_dict int_of_text v =
     bindR (as_object TypeError v) (\<lambda>d.
     bindR (case map_of d (text_of ''witnesses'') of None \<Rightarrow> Inr [] | Some ws \<Rightarrow>
       bindR (as_list TypeError ws) (mapR (wi_from_dict int_of_text))) (\<lambda>witnesses.
     bindR (bindR (required KeyError ''v'' d) (py_int int_of_text)) (\<lambda>v.
     bindR (bindR (required KeyError ''kind'' d) (as_string TypeError)) (\<lambda>kind.
     bindR (bindR (required KeyError ''log_id'' d) (as_string TypeError)) (\<lambda>log_id.
     bindR (bindR (required KeyError ''mmr_size'' d) (py_int int_of_text)) (\<lambda>mmr_size.
     bindR (bindR (required KeyError ''root'' d) (as_string TypeError)) (\<lambda>root.
     bindR (bindR (required KeyError ''prev_size'' d) (py_int int_of_text)) (\<lambda>prev_size.
     bindR (case map_of d (text_of ''prev_root'') of None \<Rightarrow> Inr [] | Some r \<Rightarrow> as_string TypeError r) (\<lambda>prev_root.
     bindR (bindR (required KeyError ''key_id'' d) (as_string TypeError)) (\<lambda>key_id.
     bindR (bindR (required KeyError ''timestamp'' d) (as_string TypeError)) (\<lambda>timestamp.
     bindR (bindR (required KeyError ''signature'' d) (as_string TypeError)) (\<lambda>signature.
     Inr \<lparr>ck_v = v, ck_kind = kind, ck_log_id = log_id, ck_mmr_size = mmr_size, ck_root = root,
       ck_prev_size = prev_size, ck_prev_root = prev_root, ck_key_id = key_id, ck_timestamp = timestamp,
       ck_signature = signature, ck_witnesses = witnesses\<rparr>))))))))))))"

section \<open>Signing body and digests\<close>

text \<open>\<^verbatim>\<open>sort_keys=True\<close>: the keys of every object in code point order.\<close>

fun sort_json :: "json \<Rightarrow> json" where
  "sort_json (JArr vs) = JArr (map sort_json vs)"
| "sort_json (JObj ms) = JObj (sort_key fst (map (\<lambda>(k, v). (k, sort_json v)) ms))"
| "sort_json v = v"

definition canonical :: "json \<Rightarrow> pytext" where
  "canonical v = print_ascii (sort_json v)"

definition ascii_bytes :: "pytext \<Rightarrow> bytes" where
  "ascii_bytes t = map of_nat t"

definition hex_text :: "bytes \<Rightarrow> pytext" where
  "hex_text b = text_of (to_hex b)"

definition fromhex_text :: "pytext \<Rightarrow> bytes res" where
  "fromhex_text t = (if \<exists>c\<in>set t. 128 \<le> c then Inl ValueError else from_hex (map char_of t))"

definition signing_body :: "CheckpointRecord \<Rightarrow> pytext" where
  "signing_body c = canonical (JObj (signing_dict c))"

definition cp_digest :: "CheckpointRecord \<Rightarrow> pytext" where
  "cp_digest c = hex_text (sha256 (ascii_bytes (signing_body c)))"

definition entry_digest :: "CheckpointRecord \<Rightarrow> pytext" where
  "entry_digest c = hex_text (sha256 (ascii_bytes (canonical (cp_to_dict c))))"

section \<open>The canonical text determines the value\<close>

lemma distinct_sort_keys: "distinct (map fst (sort_key fst ms)) \<longleftrightarrow> distinct (map fst ms)"
  by (metis card_distinct distinct_card length_map length_sort list.set_map set_sort)

lemma map_of_sort_key: "distinct (map fst ms) \<Longrightarrow> map_of (sort_key fst ms) = map_of ms"
  using distinct_sort_keys [of ms] by (intro map_of_inject_set [THEN iffD2]) simp_all

lemma map_fst_sort: "map fst (map (\<lambda>(k, v). (k, sort_json v)) ms) = map fst ms"
  by (simp add: case_prod_unfold)

lemma json_ok_sort: "json_ok v \<Longrightarrow> json_ok (sort_json v)"
proof (induction v)
  case (JObj ms)
  have "distinct (map fst (map (\<lambda>(k, v). (k, sort_json v)) ms))" using JObj.prems by (simp only: map_fst_sort json_ok.simps)
  then show ?case using JObj by (auto simp: distinct_sort_keys list_all_iff simp del: map_map)
qed (auto simp: list_all_iff)

lemma strings_ok_sort: "strings_ok P v \<Longrightarrow> strings_ok P (sort_json v)"
  by (induction v) (auto simp: list_all_iff)

lemma parse_canonical: "json_ok v \<Longrightarrow> strings_ok scalar_text v \<Longrightarrow> parse_json (canonical v) = Some (sort_json v)"
  unfolding canonical_def by (intro ascii.parse_print json_ok_sort strings_ok_sort)

lemma sort_json_members:
  assumes "distinct (map fst ms)"
  shows "\<exists>ms'. sort_json (JObj ms) = JObj ms' \<and> (\<forall>k. map_of ms' k = map_option sort_json (map_of ms k))"
proof -
  let ?ss = "map (\<lambda>(k, v). (k, sort_json v)) ms"
  have "distinct (map fst ?ss)" using assms by (simp only: map_fst_sort)
  then have "map_of (sort_key fst ?ss) = map_of ?ss" by (rule map_of_sort_key)
  moreover have "map_of ?ss k = map_option sort_json (map_of ms k)" for k by (induction ms) auto
  ultimately show ?thesis by (intro exI [of _ "sort_key fst ?ss"]) simp
qed

text \<open>Canonical text is ASCII.\<close>

lemma hex_code_less: "d < 16 \<Longrightarrow> hex_code d < 128"
  by (simp add: hex_code_def)

lemma u_escape_chars: "n < 65536 \<Longrightarrow> x \<in> set (u_escape n) \<Longrightarrow> x < 128"
  by (auto simp: u_escape_def less_mult_imp_div_less intro!: hex_code_less)

lemma escape_ascii_chars:
  assumes "c < 1114112" "x \<in> set (escape_ascii c)"
  shows "x < 128"
proof -
  have lo: "56320 + (c - 65536) mod 1024 < 65536" using mod_less_divisor [of 1024 "c - 65536"] by linarith
  have hi: "55296 + (c - 65536) div 1024 < 65536" using assms(1) by (simp add: less_mult_imp_div_less)
  consider "x \<in> set (escape_char c)" "c < 127" | "x \<in> set (u_escape c)" "c < 65536"
    | "x \<in> set (u_escape (55296 + (c - 65536) div 1024))" | "x \<in> set (u_escape (56320 + (c - 65536) mod 1024))"
    using assms(2) by (auto simp: escape_ascii_def split: if_splits)
  then show ?thesis
  proof cases
    case 1 then show ?thesis using set_escape [of x c] by auto
  next
    case 2 then show ?thesis using u_escape_chars by blast
  next
    case 3 then show ?thesis by (rule u_escape_chars [OF hi])
  next
    case 4 then show ?thesis by (rule u_escape_chars [OF lo])
  qed
qed

lemma dec_text_chars: "x \<in> set (dec_text n) \<Longrightarrow> x < 128"
  using dec_nat_digits [of "nat n"] dec_nat_digits [of "nat (- n)"]
  by (auto simp: dec_text_def list_all_iff is_digit_def split: if_splits)

lemma string_ascii: "scalar_text s \<Longrightarrow> x \<in> set (print_string_with escape_ascii s) \<Longrightarrow> x < 128"
proof -
  assume s: "scalar_text s" and "x \<in> set (print_string_with escape_ascii s)"
  then consider "x = 34" | c where "c \<in> set s" "x \<in> set (escape_ascii c)" by (auto simp: print_string_with_def)
  then show "x < 128"
  proof cases
    case (2 c)
    have "c < 1114112" using s 2(1) by (auto simp: scalar_text_def)
    then show ?thesis using 2(2) by (rule escape_ascii_chars)
  qed simp
qed

lemma print_ascii_chars: "json_ok v \<Longrightarrow> strings_ok scalar_text v \<Longrightarrow> x \<in> set (print_ascii v) \<Longrightarrow> x < 128"
proof (induction v arbitrary: x)
  case (JInt n)
  then show ?case using dec_text_chars by simp
next
  case (JStr s)
  then show ?case using string_ascii by simp
next
  case (JArr vs)
  then show ?case by (fastforce simp: list_all_iff dest!: set_join_comma)
next
  case (JObj ms)
  have "x = 123 \<or> x = 125 \<or> x \<in> set (join_comma (map (\<lambda>(k, v). print_string_with escape_ascii k @ 58 # print_ascii v) ms))"
    using JObj.prems(3) by auto
  then consider "x = 123 \<or> x = 125 \<or> x = 44 \<or> x = 58"
    | k v where "(k, v) \<in> set ms" "x \<in> set (print_string_with escape_ascii k)" | k v where "(k, v) \<in> set ms" "x \<in> set (print_ascii v)"
    by (auto dest!: set_join_comma)
  then show ?case
  proof cases
    case (3 k v)
    then show ?thesis
      using JObj.IH [of "(k, v)" v x] json_ok_wf [OF JObj.prems(1) 3(1)] strings_ok_wf [OF JObj.prems(2) 3(1)] by simp
  next
    case (2 k v)
    then show ?thesis using JObj.prems(2) string_ascii [of k x] by (auto simp: list_all_iff)
  qed auto
qed (auto simp: text_of_def split: if_splits)

lemma ascii_bytes_inject:
  assumes "\<forall>x\<in>set s. x < 128" "\<forall>x\<in>set t. x < 128" "ascii_bytes s = ascii_bytes t"
  shows "s = t"
proof -
  have e: "unat (of_nat x :: byte) = x" if "x < 128" for x
    using that by (simp add: unat_of_nat take_bit_eq_mod)
  have u: "map unat (ascii_bytes s) = s" if "\<forall>x\<in>set s. x < 128" for s
    unfolding ascii_bytes_def map_map o_def using that e by (intro map_idI) blast
  show ?thesis using u [OF assms(1)] u [OF assms(2)] unfolding assms(3) by (rule trans [OF sym])
qed

lemma hex_text_inject [simp]: "hex_text a = hex_text b \<longleftrightarrow> a = b"
  by (simp add: hex_text_def)

lemma fromhex_hex_text [simp]: "fromhex_text (hex_text b) = Inr b"
proof -
  have h: "of_char c < (128 :: nat)" if "c \<in> set (to_hex b)" for c
  proof -
    have "list_all (\<lambda>n. of_char (hex_digit n) < (128 :: nat)) [0..<16]" by code_simp
    then have "of_char (hex_digit n) < (128 :: nat)" if "n < 16" for n using that by (simp add: list_all_iff)
    then show ?thesis using that by (induction b) (auto simp: less_mult_imp_div_less)
  qed
  have "map char_of (hex_text b) = to_hex b" by (simp add: hex_text_def text_of_def o_def)
  moreover have "\<not> (\<exists>c\<in>set (hex_text b). 128 \<le> c)" using h by (auto simp: hex_text_def text_of_def not_le)
  ultimately show ?thesis by (simp add: fromhex_text_def)
qed

lemma canonical_digest_inject:
  assumes "hex_text (sha256 (ascii_bytes (canonical v))) = hex_text (sha256 (ascii_bytes (canonical w)))"
    "inj_on sha256 {ascii_bytes (canonical v), ascii_bytes (canonical w)}"
    "json_ok v" "strings_ok scalar_text v" "json_ok w" "strings_ok scalar_text w"
  shows "sort_json v = sort_json w"
proof -
  have "ascii_bytes (canonical v) = ascii_bytes (canonical w)"
    using assms(1,2) by (auto dest: inj_onD)
  then have "canonical v = canonical w"
    using print_ascii_chars [OF json_ok_sort [OF assms(3)] strings_ok_sort [OF assms(4)]]
      print_ascii_chars [OF json_ok_sort [OF assms(5)] strings_ok_sort [OF assms(6)]]
    by (intro ascii_bytes_inject) (auto simp: canonical_def)
  then show ?thesis using parse_canonical [OF assms(3,4)] parse_canonical [OF assms(5,6)] by simp
qed

section \<open>Records: round trip and digests\<close>

definition wi_scalar :: "WitnessRecord \<Rightarrow> bool" where
  "wi_scalar w \<longleftrightarrow> scalar_text (wi_ts_url w) \<and> scalar_text (wi_entry_hash w) \<and> scalar_text (wi_receipt_b64 w)"

definition cp_scalar :: "CheckpointRecord \<Rightarrow> bool" where
  "cp_scalar c \<longleftrightarrow> scalar_text (ck_kind c) \<and> scalar_text (ck_log_id c) \<and> scalar_text (ck_root c) \<and>
     scalar_text (ck_prev_root c) \<and> scalar_text (ck_key_id c) \<and> scalar_text (ck_timestamp c) \<and>
     scalar_text (ck_signature c) \<and> (\<forall>w\<in>set (ck_witnesses c). wi_scalar w)"

lemma scalar_literal [simp]: "scalar_text (text_of s)"
proof -
  have "of_char c < (256 :: nat)" for c :: char by (metis mod_less_divisor of_char_mod_256 zero_less_numeral)
  then have "of_char c < (55296 :: nat)" for c :: char by (rule less_trans) simp
  then show ?thesis by (simp add: scalar_text_def text_of_def)
qed

lemma wi_dict_ok: "json_ok (wi_to_dict w)" "wi_scalar w \<Longrightarrow> strings_ok scalar_text (wi_to_dict w)"
  by (simp_all add: wi_to_dict_def wi_scalar_def)

lemma cp_dict_ok:
  "json_ok (JObj (signing_dict c))" "cp_scalar c \<Longrightarrow> strings_ok scalar_text (JObj (signing_dict c))"
  "json_ok (cp_to_dict c)" "cp_scalar c \<Longrightarrow> strings_ok scalar_text (cp_to_dict c)"
  by (auto simp: signing_dict_def cp_to_dict_def cp_scalar_def list_all_iff wi_dict_ok)

lemmas member_access = as_object_def required_def as_string_def as_list_def py_int_def py_bool_def

lemma wi_from_sorted: "wi_from_dict f (sort_json (wi_to_dict w)) = Inr w"
proof -
  obtain ms where ms: "wi_to_dict w = JObj ms" by (simp add: wi_to_dict_def)
  then have "distinct (map fst ms)" using wi_dict_ok(1) [of w] by simp
  then obtain ms' where s: "sort_json (JObj ms) = JObj ms'" "\<forall>k. map_of ms' k = map_option sort_json (map_of ms k)"
    using sort_json_members by blast
  show ?thesis unfolding ms s(1) using ms by (auto simp: wi_to_dict_def wi_from_dict_def member_access s(2))
qed

lemma cp_from_sorted: "cp_from_dict f (sort_json (cp_to_dict c)) = Inr c"
proof -
  obtain ms where ms: "cp_to_dict c = JObj ms" by (simp add: cp_to_dict_def)
  then have "distinct (map fst ms)" using cp_dict_ok(3) [of c] by simp
  then obtain ms' where s: "sort_json (JObj ms) = JObj ms'" "\<forall>k. map_of ms' k = map_option sort_json (map_of ms k)"
    using sort_json_members by blast
  have w: "mapR (wi_from_dict f) (map (sort_json \<circ> wi_to_dict) ws) = Inr ws" for ws
    by (induction ws) (simp_all add: wi_from_sorted)
  show ?thesis unfolding ms s(1) using ms
    by (auto simp: cp_to_dict_def signing_dict_def cp_from_dict_def member_access s(2) w)
qed

definition signed_bytes :: "CheckpointRecord \<Rightarrow> bytes" where
  "signed_bytes c = ascii_bytes (signing_body c)"

definition entry_bytes :: "CheckpointRecord \<Rightarrow> bytes" where
  "entry_bytes c = ascii_bytes (canonical (cp_to_dict c))"

text \<open>A checkpoint record survives its canonical JSON text: reading the text gives a value from
  which \<open>from_dict\<close> rebuilds the record, witnesses included, for every record without lone surrogates.\<close>

theorem checkpoint_json_roundtrip:
  assumes "cp_scalar c"
  shows "\<exists>v. parse_json (canonical (cp_to_dict c)) = Some v \<and> cp_from_dict int_of_text v = Inr c"
  using parse_canonical [OF cp_dict_ok(3) cp_dict_ok(4) [OF assms]] cp_from_sorted by blast

definition genesis_record :: CheckpointRecord where
  "genesis_record = \<lparr>ck_v = 1, ck_kind = text_of ''mmr_checkpoint'', ck_log_id = text_of ''log'', ck_mmr_size = 1,
     ck_root = [], ck_prev_size = 0, ck_prev_root = [], ck_key_id = [233, 128512], ck_timestamp = [], ck_signature = [],
     ck_witnesses = [\<lparr>wi_ts_url = [], wi_entry_hash = [], wi_receipt_b64 = [], wi_leaf_index = -1, wi_tree_size = -1, wi_is_stub = True\<rparr>]\<rparr>"

lemma genesis_scalar: "cp_scalar genesis_record"
  by (simp add: genesis_record_def cp_scalar_def wi_scalar_def) (simp add: scalar_text_def)

theorem checkpoint_json_roundtrip_witness:
  "\<exists>v. parse_json (canonical (cp_to_dict genesis_record)) = Some v \<and> cp_from_dict (\<lambda>_. Inl ValueError) v = Inr genesis_record"
  by (rule checkpoint_json_roundtrip [OF genesis_scalar])

lemma signing_dict_iff:
  "signing_dict c = signing_dict d \<longleftrightarrow>
     c\<lparr>ck_signature := [], ck_witnesses := []\<rparr> = d\<lparr>ck_signature := [], ck_witnesses := []\<rparr>"
  by (cases c; cases d) (auto simp: signing_dict_def)

lemma sort_signing:
  assumes "sort_json (JObj (signing_dict c)) = sort_json (JObj (signing_dict d))"
  shows "signing_dict c = signing_dict d"
proof -
  obtain ms ns where m: "sort_json (JObj (signing_dict c)) = JObj ms" "\<forall>k. map_of ms k = map_option sort_json (map_of (signing_dict c) k)"
      "sort_json (JObj (signing_dict d)) = JObj ns" "\<forall>k. map_of ns k = map_option sort_json (map_of (signing_dict d) k)"
    using sort_json_members [of "signing_dict c"] sort_json_members [of "signing_dict d"] cp_dict_ok(1) by fastforce
  have "map_option sort_json (map_of (signing_dict c) k) = map_option sort_json (map_of (signing_dict d) k)" for k
  proof -
    have "ms = ns" using assms unfolding m(1,3) by simp
    then show ?thesis using m(2,4) by (metis (no_types))
  qed
  note k = this [of "text_of ''v''"] this [of "text_of ''kind''"] this [of "text_of ''log_id''"] this [of "text_of ''mmr_size''"]
    this [of "text_of ''root''"] this [of "text_of ''prev_size''"] this [of "text_of ''prev_root''"] this [of "text_of ''key_id''"]
    this [of "text_of ''timestamp''"]
  from k show ?thesis by (simp add: signing_dict_def)
qed

lemma same_digest:
  assumes "cp_scalar c" "cp_scalar d" "inj_on sha256 {signed_bytes c, signed_bytes d}" "cp_digest c = cp_digest d"
  shows "c\<lparr>ck_signature := [], ck_witnesses := []\<rparr> = d\<lparr>ck_signature := [], ck_witnesses := []\<rparr>"
  using canonical_digest_inject [of "JObj (signing_dict c)" "JObj (signing_dict d)"] assms cp_dict_ok sort_signing
  unfolding signing_dict_iff [symmetric] by (simp add: cp_digest_def signed_bytes_def signing_body_def del: sort_json.simps)

text \<open>
  C21. The digests bind the record. Two records have the same \<open>digest\<close> (what is signed and registered)
  exactly when they agree on everything but signature and witnesses, and the same \<open>entry_digest\<close> (what the
  log commits to) exactly when they are equal; or their two texts, which then differ, are a collision of
  SHA-256. Records are free of lone surrogates; the canonical texts themselves determine the records.
\<close>

theorem digests_bind_record:
  assumes "cp_scalar c" "cp_scalar d"
  shows "(cp_digest c = cp_digest d \<longleftrightarrow>
      c\<lparr>ck_signature := [], ck_witnesses := []\<rparr> = d\<lparr>ck_signature := [], ck_witnesses := []\<rparr> \<or>
      signed_bytes c \<noteq> signed_bytes d \<and> sha256 (signed_bytes c) = sha256 (signed_bytes d)) \<and>
    (entry_digest c = entry_digest d \<longleftrightarrow>
      c = d \<or> entry_bytes c \<noteq> entry_bytes d \<and> sha256 (entry_bytes c) = sha256 (entry_bytes d))"
proof
  have "cp_digest c = cp_digest d" if "signing_dict c = signing_dict d"
    using that by (simp add: cp_digest_def signing_body_def)
  moreover have "signing_dict c = signing_dict d"
    if "cp_digest c = cp_digest d" "signed_bytes c = signed_bytes d \<or> sha256 (signed_bytes c) \<noteq> sha256 (signed_bytes d)"
    using same_digest [OF assms _ that(1)] that(2) unfolding signing_dict_iff by (auto simp: inj_on_def)
  moreover have "cp_digest c = cp_digest d" if "sha256 (signed_bytes c) = sha256 (signed_bytes d)"
    using that by (simp add: cp_digest_def signed_bytes_def)
  ultimately show "cp_digest c = cp_digest d \<longleftrightarrow>
      c\<lparr>ck_signature := [], ck_witnesses := []\<rparr> = d\<lparr>ck_signature := [], ck_witnesses := []\<rparr> \<or>
      signed_bytes c \<noteq> signed_bytes d \<and> sha256 (signed_bytes c) = sha256 (signed_bytes d)"
    unfolding signing_dict_iff [symmetric] by blast
next
  have "c = d"
    if "entry_digest c = entry_digest d" "entry_bytes c = entry_bytes d \<or> sha256 (entry_bytes c) \<noteq> sha256 (entry_bytes d)"
  proof -
    have "inj_on sha256 {entry_bytes c, entry_bytes d}" using that(2) by (auto simp: inj_on_def)
    then
    have "sort_json (cp_to_dict c) = sort_json (cp_to_dict d)"
      using that assms cp_dict_ok by (intro canonical_digest_inject) (simp_all add: entry_digest_def entry_bytes_def)
    then show ?thesis using cp_from_sorted [of _ c] cp_from_sorted [of _ d] by (metis sum.inject(2))
  qed
  moreover have "entry_digest c = entry_digest d" if "sha256 (entry_bytes c) = sha256 (entry_bytes d)"
    using that by (simp add: entry_digest_def entry_bytes_def)
  ultimately show "entry_digest c = entry_digest d \<longleftrightarrow>
      c = d \<or> entry_bytes c \<noteq> entry_bytes d \<and> sha256 (entry_bytes c) = sha256 (entry_bytes d)"
    by blast
qed

text \<open>A record and its signed form: one digest to sign, two entries of the log.\<close>

theorem digests_bind_record_witness:
  "let signed = genesis_record\<lparr>ck_signature := text_of ''00ff''\<rparr>; other = genesis_record\<lparr>ck_mmr_size := 2\<rparr> in
     signed \<noteq> genesis_record \<and> cp_digest signed = cp_digest genesis_record \<and>
     (entry_digest signed = entry_digest genesis_record \<longleftrightarrow> sha256 (entry_bytes signed) = sha256 (entry_bytes genesis_record)) \<and>
     (cp_digest other = cp_digest genesis_record \<longleftrightarrow> sha256 (signed_bytes other) = sha256 (signed_bytes genesis_record))"
proof -
  let ?s = "genesis_record\<lparr>ck_signature := text_of ''00ff''\<rparr>" and ?o = "genesis_record\<lparr>ck_mmr_size := 2\<rparr>"
  have ok: "cp_scalar ?s" "cp_scalar ?o" and ne: "?s \<noteq> genesis_record"
    using genesis_scalar
    by (simp_all add: cp_scalar_def scalar_text_def genesis_record_def text_of_def)
  have "ck_mmr_size genesis_record = 1" by (simp add: genesis_record_def)
  then have "ck_mmr_size (?o\<lparr>ck_signature := [], ck_witnesses := []\<rparr>) \<noteq>
      ck_mmr_size (genesis_record\<lparr>ck_signature := [], ck_witnesses := []\<rparr>)" by simp
  then have "?o\<lparr>ck_signature := [], ck_witnesses := []\<rparr> \<noteq> genesis_record\<lparr>ck_signature := [], ck_witnesses := []\<rparr>"
    by metis
  then show ?thesis
    using digests_bind_record [OF ok(1) genesis_scalar] digests_bind_record [OF ok(2) genesis_scalar] ne
    by (auto simp: Let_def cp_digest_def entry_digest_def signed_bytes_def entry_bytes_def)
qed

end
