(* ===== verification/Cbor.thy ===== *)
theory Cbor
  imports Mmr_Index Json_Text
begin

text \<open>
  \<^verbatim>\<open>cll/cbor.py\<close>. The decoder \<^verbatim>\<open>cbor2\<close> itself is third-party code and an argument of the definitions
  that call it; what the module adds, two walks over the encoded bytes, is modelled on the bytes. This
  theory holds the first, \<open>receipt_walk\<close> (the receipt encoding rule). \<open>citem\<close> and \<open>cenc\<close> are its
  specification: RFC 8949 items and their shortest encoding. The rule is characterised exactly: it
  accepts the encodings of the items it allows, and nothing else, and the encoding is prefix-free.
\<close>

section \<open>Reading bytes\<close>

definition byte_at :: "bytes \<Rightarrow> nat \<Rightarrow> byte res" where
  "byte_at data i = (if i < length data then Inr (data ! i) else Inl IndexError)"

definition bslice :: "bytes \<Rightarrow> nat \<Rightarrow> nat \<Rightarrow> bytes" where
  "bslice data i j = take (j - i) (drop i data)"

text \<open>\<^verbatim>\<open>for _ in range(n)\<close> over an offset.\<close>

fun walk_times :: "nat \<Rightarrow> (nat \<Rightarrow> nat res) \<Rightarrow> nat \<Rightarrow> nat res" where
  "walk_times 0 f i = Inr i"
| "walk_times (Suc n) f i = bindR (f i) (walk_times n f)"

section \<open>The receipt encoding rule\<close>

definition MAX_RECEIPT_DEPTH :: nat where "MAX_RECEIPT_DEPTH = 16"

text \<open>The loop over the entries of a map; \<open>keys\<close> holds the encodings of the keys so far.\<close>

fun receipt_map :: "bytes \<Rightarrow> (nat \<Rightarrow> nat res) \<Rightarrow> nat \<Rightarrow> bytes list \<Rightarrow> nat \<Rightarrow> nat res" where
  "receipt_map data f 0 keys i = Inr i"
| "receipt_map data f (Suc n) keys i =
     bindR (byte_at data i) (\<lambda>b.
     if unat b div 32 \<notin> {0, 1, 3} then Inl ReceiptEncodingError
     else
       bindR (f i) (\<lambda>j.
       if bslice data i j \<in> set keys then Inl ReceiptEncodingError
       else bindR (f j) (\<lambda>k. receipt_map data f n (bslice data i j # keys) k)))"

text \<open>The argument of a head, in its shortest form, and the offset after it.\<close>

definition receipt_arg :: "bytes \<Rightarrow> nat \<Rightarrow> nat \<Rightarrow> (nat \<times> nat) res" where
  "receipt_arg data info i =
     (if info < 24 then Inr (info, i + 1)
      else
        let width = 2 ^ (info - 24) in
        if i + 1 + width > length data then Inl ReceiptEncodingError
        else
          let arg = be_value (bslice data (i + 1) (i + 1 + width)) in
          if arg < [24, 2 ^ 8, 2 ^ 16, 2 ^ 32] ! (info - 24) then Inl ReceiptEncodingError
          else Inr (arg, i + 1 + width))"

text \<open>\<open>levels\<close> is what is left of the depth: \<open>MAX_RECEIPT_DEPTH + 1 - depth\<close>.\<close>

fun receipt_walk :: "nat \<Rightarrow> bytes \<Rightarrow> nat \<Rightarrow> bool \<Rightarrow> nat res" where
  "receipt_walk 0 data i top_tag = Inl ReceiptEncodingError"
| "receipt_walk (Suc levels) data i top_tag =
     bindR (byte_at data i) (\<lambda>initial.
     let major = unat initial div 32; info = unat initial mod 32 in
     if major = 7 then
       (if info = 20 \<or> info = 21 \<or> info = 22 then Inr (i + 1) else Inl ReceiptEncodingError)
     else if info > 27 then Inl ReceiptEncodingError
     else
       bindR (receipt_arg data info i) (\<lambda>(arg, i).
       if major = 0 then Inr i
       else if major = 1 then (if arg \<ge> 2 ^ 63 then Inl ReceiptEncodingError else Inr i)
       else if major = 2 \<or> major = 3 then
         (if i + arg > length data then Inl ReceiptEncodingError
          else if major = 3 \<and> utf8_decode (map unat (bslice data i (i + arg))) = None then Inl ReceiptEncodingError
          else Inr (i + arg))
       else if major = 6 then
         (if \<not> (levels = MAX_RECEIPT_DEPTH \<and> top_tag \<and> arg = 18) then Inl ReceiptEncodingError
          else receipt_walk levels data i False)
       else if arg > length data - i then Inl ReceiptEncodingError
       else if major = 4 then walk_times arg (\<lambda>i. receipt_walk levels data i False) i
       else receipt_map data (\<lambda>i. receipt_walk levels data i False) arg [] i))"

definition receipt_item :: "(bytes \<Rightarrow> 'v res) \<Rightarrow> bytes \<Rightarrow> bool \<Rightarrow> 'v res" where
  "receipt_item cbor2_loads data top_tag =
     (case receipt_walk (MAX_RECEIPT_DEPTH + 1) data 0 top_tag of
        Inl e \<Rightarrow> Inl (if e = IndexError then ReceiptEncodingError else e)
      | Inr end \<Rightarrow> if end \<noteq> length data then Inl ReceiptEncodingError else cbor2_loads data)"

section \<open>Items and their encoding\<close>

datatype citem =
    IUint nat
  | INint nat
  | IBytes bytes
  | IText bytes
  | IArr "citem list"
  | IMap "(citem \<times> citem) list"
  | ITag nat citem
  | ISimple nat

definition cbor_head :: "nat \<Rightarrow> nat \<Rightarrow> bytes" where
  "cbor_head major n =
     (if n < 24 then [of_nat (major * 32 + n)]
      else if n < 2 ^ 8 then of_nat (major * 32 + 24) # be_bytes 1 n
      else if n < 2 ^ 16 then of_nat (major * 32 + 25) # be_bytes 2 n
      else if n < 2 ^ 32 then of_nat (major * 32 + 26) # be_bytes 4 n
      else of_nat (major * 32 + 27) # be_bytes 8 n)"

fun cenc :: "citem \<Rightarrow> bytes" where
  "cenc (IUint n) = cbor_head 0 n"
| "cenc (INint n) = cbor_head 1 n"
| "cenc (IBytes b) = cbor_head 2 (length b) @ b"
| "cenc (IText t) = cbor_head 3 (length t) @ t"
| "cenc (IArr xs) = cbor_head 4 (length xs) @ concat (map cenc xs)"
| "cenc (IMap kvs) = cbor_head 5 (length kvs) @ concat (map (\<lambda>(k, v). cenc k @ cenc v) kvs)"
| "cenc (ITag n x) = cbor_head 6 n @ cenc x"
| "cenc (ISimple n) = [of_nat (7 * 32 + n)]"

definition key_item :: "citem \<Rightarrow> bool" where
  "key_item k \<longleftrightarrow> (case k of IUint _ \<Rightarrow> True | INint _ \<Rightarrow> True | IText _ \<Rightarrow> True | _ \<Rightarrow> False)"

text \<open>The items of the rule, with the levels they may nest to.\<close>

fun receipt_ok :: "nat \<Rightarrow> bool \<Rightarrow> citem \<Rightarrow> bool" where
  "receipt_ok 0 tg x = False"
| "receipt_ok (Suc levels) tg (IUint n) = (n < 2 ^ 64)"
| "receipt_ok (Suc levels) tg (INint n) = (n < 2 ^ 63)"
| "receipt_ok (Suc levels) tg (IBytes b) = (length b < 2 ^ 64)"
| "receipt_ok (Suc levels) tg (IText t) = (length t < 2 ^ 64 \<and> utf8_decode (map unat t) \<noteq> None)"
| "receipt_ok (Suc levels) tg (IArr xs) = (length xs < 2 ^ 64 \<and> (\<forall>x\<in>set xs. receipt_ok levels False x))"
| "receipt_ok (Suc levels) tg (IMap kvs) =
     (length kvs < 2 ^ 64 \<and> distinct (map (\<lambda>kv. cenc (fst kv)) kvs) \<and>
      (\<forall>kv\<in>set kvs. key_item (fst kv) \<and> receipt_ok levels False (fst kv) \<and> receipt_ok levels False (snd kv)))"
| "receipt_ok (Suc levels) tg (ITag n x) = (levels = MAX_RECEIPT_DEPTH \<and> tg \<and> n = 18 \<and> receipt_ok levels False x)"
| "receipt_ok (Suc levels) tg (ISimple n) = (n = 20 \<or> n = 21 \<or> n = 22)"

section \<open>Heads\<close>

lemma bslice_mid [simp]: "bslice (pre @ xs @ post) (length pre) (length pre + length xs) = xs"
  by (simp add: bslice_def)

lemma be_bytes_be_value: "be_bytes (length bs) (be_value bs) = bs"
proof (induction bs rule: rev_induct)
  case (snoc b bs)
  have "unat b < 256" using unsigned_less [of b] by simp
  then have d: "(be_value bs * 256 + unat b) div 256 = be_value bs" "(be_value bs * 256 + unat b) mod 256 = unat b" by simp_all
  have "unat (of_nat (be_value bs * 256 + unat b) :: byte) = (be_value bs * 256 + unat b) mod 256"
    by (simp add: unat_of_nat take_bit_eq_mod del: of_nat_add of_nat_mult)
  then have "(of_nat (be_value bs * 256 + unat b) :: byte) = b" using d(2) by (simp only: word_unat_eq_iff)
  then show ?case using snoc d(1) by (simp add: be_value_def del: of_nat_add of_nat_mult)
qed simp

lemma head_byte:
  assumes "major < 8" "info < 32"
  shows "unat (of_nat (major * 32 + info) :: byte) div 32 = major" "unat (of_nat (major * 32 + info) :: byte) mod 32 = info"
proof -
  have "unat (of_nat (major * 32 + info) :: byte) = major * 32 + info"
    using assms by (simp add: unat_of_nat take_bit_eq_mod del: of_nat_add of_nat_mult)
  then show "unat (of_nat (major * 32 + info) :: byte) div 32 = major" "unat (of_nat (major * 32 + info) :: byte) mod 32 = info"
    using assms by simp_all
qed

lemma cbor_head_nonempty [simp]: "cbor_head major n \<noteq> []" "0 < length (cbor_head major n)"
  by (simp_all add: cbor_head_def)

lemma cenc_nonempty [simp]: "cenc x \<noteq> []" "0 < length (cenc x)"
  by (cases x; simp)+

text \<open>What the walk reads of a shortest head.\<close>

lemma read_head:
  assumes "major < 8" "n < 2 ^ 64"
  shows "\<exists>b. byte_at (pre @ cbor_head major n @ post) (length pre) = Inr b \<and> unat b div 32 = major \<and> unat b mod 32 \<le> 27 \<and>
    receipt_arg (pre @ cbor_head major n @ post) (unat b mod 32) (length pre) = Inr (n, length pre + length (cbor_head major n))"
proof -
  have arg: "receipt_arg (pre @ (b # be_bytes k n) @ post) info (length pre) = Inr (n, length pre + Suc k)"
    if "\<not> info < 24" "k = 2 ^ (info - 24)" "n < 256 ^ k" "\<not> n < [24, 2 ^ 8, 2 ^ 16, 2 ^ 32] ! (info - 24)" for b info k
  proof -
    have s: "bslice (pre @ (b # be_bytes k n) @ post) (length pre + 1) (length pre + 1 + k) = be_bytes k n"
      using bslice_mid [of "pre @ [b]" "be_bytes k n" post] by simp
    show ?thesis using that s by (simp add: receipt_arg_def Let_def be_value_be_bytes)
  qed
  consider "n < 24" | "24 \<le> n" "n < 2 ^ 8" | "2 ^ 8 \<le> n" "n < 2 ^ 16" | "2 ^ 16 \<le> n" "n < 2 ^ 32" | "2 ^ 32 \<le> n"
    by linarith
  then show ?thesis
  proof cases
    case 1
    then show ?thesis using head_byte [OF assms(1), of n]
      by (intro exI [of _ "of_nat (major * 32 + n)"]) (simp add: cbor_head_def byte_at_def receipt_arg_def)
  next
    case 2
    then have h: "cbor_head major n = of_nat (major * 32 + 24) # be_bytes 1 n" by (simp add: cbor_head_def)
    show ?thesis unfolding h using 2 head_byte [OF assms(1), of 24] arg [of 24 1 "of_nat (major * 32 + 24)"]
      by (intro exI [of _ "of_nat (major * 32 + 24)"]) (simp add: byte_at_def)
  next
    case 3
    then have h: "cbor_head major n = of_nat (major * 32 + 25) # be_bytes 2 n" by (simp add: cbor_head_def)
    show ?thesis unfolding h using 3 head_byte [OF assms(1), of 25] arg [of 25 2 "of_nat (major * 32 + 25)"]
      by (intro exI [of _ "of_nat (major * 32 + 25)"]) (simp add: byte_at_def)
  next
    case 4
    then have h: "cbor_head major n = of_nat (major * 32 + 26) # be_bytes 4 n" by (simp add: cbor_head_def)
    show ?thesis unfolding h using 4 head_byte [OF assms(1), of 26] arg [of 26 4 "of_nat (major * 32 + 26)"]
      by (intro exI [of _ "of_nat (major * 32 + 26)"]) (simp add: byte_at_def numeral_2_eq_2 [symmetric])
  next
    case 5
    then have h: "cbor_head major n = of_nat (major * 32 + 27) # be_bytes 8 n" by (simp add: cbor_head_def)
    show ?thesis unfolding h using 5 assms(2) head_byte [OF assms(1), of 27] arg [of 27 8 "of_nat (major * 32 + 27)"]
      by (intro exI [of _ "of_nat (major * 32 + 27)"]) (simp add: byte_at_def numeral_3_eq_3 [symmetric])
  qed
qed

text \<open>Conversely, a head the walk accepts is the shortest one.\<close>

lemma unread_head:
  assumes "byte_at data i = Inr b" "unat b mod 32 \<le> 27" "receipt_arg data (unat b mod 32) i = Inr (n, j)"
  shows "i < j" "j \<le> length data" "bslice data i j = cbor_head (unat b div 32) n" "n < 2 ^ 64"
proof -
  have i: "i < length data" "data ! i = b" using assms(1) by (auto simp: byte_at_def split: if_splits)
  let ?info = "unat b mod 32" and ?major = "unat b div 32"
  have b: "b = of_nat (?major * 32 + ?info)" by simp
  have dr: "drop i data = b # drop (Suc i) data" using Cons_nth_drop_Suc [OF i(1)] i(2) by simp
  show "i < j" "j \<le> length data" using assms(3) i by (auto simp: receipt_arg_def Let_def split: if_splits)
  have "bslice data i j = cbor_head ?major n \<and> n < 2 ^ 64"
  proof (cases "?info < 24")
    case True
    then have "n = ?info" "j = Suc i" using assms(3) by (auto simp: receipt_arg_def)
    then show ?thesis using True dr b by (simp add: bslice_def cbor_head_def)
  next
    case False
    define w where "w = (2::nat) ^ (?info - 24)"
    have n: "n = be_value (bslice data (i + 1) (i + 1 + w))" and j: "j = i + 1 + w" and fits: "i + 1 + w \<le> length data"
      and least: "\<not> n < [24, 2 ^ 8, 2 ^ 16, 2 ^ 32] ! (?info - 24)"
      using assms(3) False by (auto simp: receipt_arg_def Let_def w_def split: if_splits)
    let ?bs = "bslice data (i + 1) (i + 1 + w)"
    have len: "length ?bs = w" using fits by (simp add: bslice_def)
    then have "be_bytes w n = ?bs" using be_bytes_be_value [of ?bs] n by simp
    moreover have "bslice data i j = b # ?bs" using dr j by (simp add: bslice_def)
    ultimately have s: "bslice data i j = b # be_bytes w n" by simp
    have lt: "n < 256 ^ w" using be_value_bound [of ?bs] len n by simp
    consider "?info = 24" | "?info = 25" | "?info = 26" | "?info = 27" using False assms(2) by linarith
    then show ?thesis
    proof cases
      case 1
      then have "w = 1" by (simp add: w_def)
      then show ?thesis using s lt least 1 b by (simp add: cbor_head_def)
    next
      case 2
      then have "w = 2" by (simp add: w_def)
      then show ?thesis using s lt least 2 b by (simp add: cbor_head_def)
    next
      case 3
      then have "w = 4" by (simp add: w_def)
      then show ?thesis using s lt least 3 b by (simp add: cbor_head_def numeral_2_eq_2 [symmetric])
    next
      case 4
      then have "w = 8" by (simp add: w_def)
      then show ?thesis using s lt least 4 b by (simp add: cbor_head_def numeral_3_eq_3 [symmetric])
    qed
  qed
  then show "bslice data i j = cbor_head ?major n" "n < 2 ^ 64" by simp_all
qed

section \<open>The rule accepts what it allows\<close>

declare receipt_walk.simps(2) [simp del]

lemma walk_times_items:
  "(\<And>x p q. x \<in> set xs \<Longrightarrow> f (p @ cenc x @ q) (length p) = Inr (length p + length (cenc x))) \<Longrightarrow>
     walk_times (length xs) (f (pre @ concat (map cenc xs) @ post)) (length pre) =
       Inr (length pre + length (concat (map cenc xs)))"
proof (induction xs arbitrary: pre)
  case (Cons x xs)
  have "f (pre @ concat (map cenc (x # xs)) @ post) (length pre) = Inr (length (pre @ cenc x))"
    using Cons.prems [of x pre "concat (map cenc xs) @ post"] by simp
  moreover have "walk_times (length xs) (f ((pre @ cenc x) @ concat (map cenc xs) @ post)) (length (pre @ cenc x)) =
      Inr (length (pre @ cenc x) + length (concat (map cenc xs)))"
    using Cons.prems by (intro Cons.IH) simp
  ultimately show ?case by (simp add: add.assoc)
qed simp

lemma key_byte:
  assumes "key_item k" "receipt_ok levels t k"
  shows "\<exists>b. byte_at (pre @ cenc k @ post) (length pre) = Inr b \<and> unat b div 32 \<in> {0, 1, 3}"
proof -
  obtain l where l: "levels = Suc l" using assms(2) by (cases levels) auto
  show ?thesis
  proof (cases k)
    case (IUint n)
    then show ?thesis using read_head [of 0 n pre post] assms(2) by (auto simp: l)
  next
    case (INint n)
    then show ?thesis using read_head [of 1 n pre post] assms(2) by (auto simp: l)
  next
    case (IText tx)
    then show ?thesis using read_head [of 3 "length tx" pre "tx @ post"] assms(2) by (auto simp: l)
  qed (use assms(1) in \<open>auto simp: key_item_def\<close>)
qed

lemma receipt_map_entries:
  assumes "\<And>kv p q. kv \<in> set kvs \<Longrightarrow>
      f (p @ cenc (fst kv) @ q) (length p) = Inr (length p + length (cenc (fst kv))) \<and>
      f (p @ cenc (snd kv) @ q) (length p) = Inr (length p + length (cenc (snd kv)))"
    and "\<And>kv. kv \<in> set kvs \<Longrightarrow> key_item (fst kv) \<and> receipt_ok levels False (fst kv)"
    and "distinct (map (\<lambda>kv. cenc (fst kv)) kvs)" "set keys \<inter> (\<lambda>kv. cenc (fst kv)) ` set kvs = {}"
  shows "receipt_map (pre @ concat (map (\<lambda>(k, v). cenc k @ cenc v) kvs) @ post)
      (f (pre @ concat (map (\<lambda>(k, v). cenc k @ cenc v) kvs) @ post)) (length kvs) keys (length pre) =
    Inr (length pre + length (concat (map (\<lambda>(k, v). cenc k @ cenc v) kvs)))"
  using assms
proof (induction kvs arbitrary: pre keys)
  case (Cons kv kvs)
  obtain k v where kv: "kv = (k, v)" by (cases kv)
  let ?rest = "concat (map (\<lambda>(k, v). cenc k @ cenc v) kvs) @ post"
  let ?data = "pre @ cenc k @ cenc v @ ?rest"
  obtain b where b: "byte_at ?data (length pre) = Inr b" "unat b div 32 \<in> {0, 1, 3}"
    using key_byte [of k levels False pre "cenc v @ ?rest"] Cons.prems(2) [of kv] kv by auto
  have fk: "f ?data (length pre) = Inr (length pre + length (cenc k))"
    using Cons.prems(1) [of kv pre "cenc v @ ?rest"] kv by simp
  have fv: "f ?data (length pre + length (cenc k)) = Inr (length pre + length (cenc k) + length (cenc v))"
    using Cons.prems(1) [of kv "pre @ cenc k" ?rest] kv by simp
  have s: "bslice ?data (length pre) (length pre + length (cenc k)) = cenc k" by (rule bslice_mid)
  have new: "cenc k \<notin> set keys" using Cons.prems(4) kv by auto
  let ?pre = "pre @ cenc k @ cenc v"
  have "receipt_map (?pre @ ?rest) (f (?pre @ ?rest)) (length kvs) (cenc k # keys) (length ?pre) =
      Inr (length ?pre + length (concat (map (\<lambda>(k, v). cenc k @ cenc v) kvs)))"
    using Cons.prems kv by (intro Cons.IH) auto
  then show ?case using b fk fv s new by (simp add: kv add.assoc)
qed simp

lemma entries_length: "length xs \<le> length (concat (map cenc xs))"
proof (induction xs)
  case (Cons x xs)
  moreover have "0 < length (cenc x)" by (rule cenc_nonempty)
  ultimately show ?case unfolding list.map concat.simps length_append list.size by linarith
qed simp

lemma pairs_length: "length kvs \<le> length (concat (map (\<lambda>(k, v). cenc k @ cenc v) kvs))"
proof (induction kvs)
  case (Cons kv kvs)
  obtain k v where kv: "kv = (k, v)" by (cases kv)
  have "0 < length (cenc k)" by (rule cenc_nonempty)
  then show ?case using Cons unfolding kv list.map concat.simps prod.case length_append list.size by linarith
qed simp

lemma receipt_walk_complete:
  "receipt_ok levels t x \<Longrightarrow>
     receipt_walk levels (pre @ cenc x @ post) (length pre) t = Inr (length pre + length (cenc x))"
proof (induction levels arbitrary: t x pre post)
  case (Suc l)
  have walk_head: "receipt_walk (Suc l) (pre @ cbor_head major n @ rest) (length pre) t = r"
    if "major < 7" "n < 2 ^ 64" "\<And>i. i = length pre + length (cbor_head major n) \<Longrightarrow>
      (if major = 0 then Inr i
       else if major = 1 then (if n \<ge> 2 ^ 63 then Inl ReceiptEncodingError else Inr i)
       else if major = 2 \<or> major = 3 then
         (if i + n > length (pre @ cbor_head major n @ rest) then Inl ReceiptEncodingError
          else if major = 3 \<and> utf8_decode (map unat (bslice (pre @ cbor_head major n @ rest) i (i + n))) = None then Inl ReceiptEncodingError
          else Inr (i + n))
       else if major = 6 then
         (if \<not> (l = MAX_RECEIPT_DEPTH \<and> t \<and> n = 18) then Inl ReceiptEncodingError
          else receipt_walk l (pre @ cbor_head major n @ rest) i False)
       else if n > length (pre @ cbor_head major n @ rest) - i then Inl ReceiptEncodingError
       else if major = 4 then walk_times n (\<lambda>i. receipt_walk l (pre @ cbor_head major n @ rest) i False) i
       else receipt_map (pre @ cbor_head major n @ rest) (\<lambda>i. receipt_walk l (pre @ cbor_head major n @ rest) i False) n [] i) = r"
    for major n rest r
  proof -
    note h = that
    obtain b where b: "byte_at (pre @ cbor_head major n @ rest) (length pre) = Inr b" "unat b div 32 = major" "unat b mod 32 \<le> 27"
      "receipt_arg (pre @ cbor_head major n @ rest) (unat b mod 32) (length pre) = Inr (n, length pre + length (cbor_head major n))"
      using read_head [of major n pre rest] h(1,2) by auto
    have m: "(major = 7) = False" "(27 < unat b mod 32) = False" using h(1) b(3) by simp_all
    show ?thesis
      unfolding receipt_walk.simps b(1) bindR_Inr Let_def b(2) m if_False b(4) prod.case
      by (rule h(3) [OF refl])
  qed
  show ?case
  proof (cases x)
    case (IUint n)
    then show ?thesis using walk_head [of 0 n post] Suc.prems by simp
  next
    case (INint n)
    then show ?thesis using walk_head [of 1 n post] Suc.prems by simp
  next
    case (IBytes b)
    then show ?thesis using walk_head [of 2 "length b" "b @ post"] Suc.prems by (simp add: add.assoc)
  next
    case (IText b)
    let ?i = "length pre + length (cbor_head 3 (length b))"
    have "bslice (pre @ cbor_head 3 (length b) @ b @ post) ?i (?i + length b) = b"
      using bslice_mid [of "pre @ cbor_head 3 (length b)" b post] by simp
    then show ?thesis using walk_head [of 3 "length b" "b @ post"] Suc.prems IText by (simp add: add.assoc)
  next
    case (IArr xs)
    let ?pre = "pre @ cbor_head 4 (length xs)"
    have "walk_times (length xs) ((\<lambda>data i. receipt_walk l data i False) (?pre @ concat (map cenc xs) @ post)) (length ?pre) =
        Inr (length ?pre + length (concat (map cenc xs)))"
      using Suc IArr by (intro walk_times_items) auto
    then show ?thesis
      using walk_head [of 4 "length xs" "concat (map cenc xs) @ post"] Suc.prems IArr entries_length [of xs]
      by (simp add: add.assoc)
  next
    case (IMap kvs)
    let ?pre = "pre @ cbor_head 5 (length kvs)" and ?body = "concat (map (\<lambda>(k, v). cenc k @ cenc v) kvs)"
    have "receipt_map (?pre @ ?body @ post) ((\<lambda>data i. receipt_walk l data i False) (?pre @ ?body @ post)) (length kvs) [] (length ?pre) =
        Inr (length ?pre + length ?body)"
      using Suc IMap by (intro receipt_map_entries [where levels = l]) auto
    then show ?thesis
      using walk_head [of 5 "length kvs" "?body @ post"] Suc.prems IMap pairs_length [of kvs]
      by (simp add: add.assoc)
  next
    case (ITag n y)
    let ?pre = "pre @ cbor_head 6 n"
    have "receipt_walk l (?pre @ cenc y @ post) (length ?pre) False = Inr (length ?pre + length (cenc y))"
    proof -
      have "receipt_ok l False y" using Suc.prems ITag by auto
      from Suc.IH [OF this, of ?pre post] show ?thesis by simp
    qed
    then show ?thesis using walk_head [of 6 n "cenc y @ post"] Suc.prems ITag by (simp add: add.assoc)
  next
    case (ISimple n)
    then have "unat (of_nat (7 * 32 + n) :: byte) div 32 = 7" "unat (of_nat (7 * 32 + n) :: byte) mod 32 = n"
      using Suc.prems head_byte [of 7 n] by auto
    then show ?thesis using ISimple Suc.prems by (simp add: receipt_walk.simps(2) byte_at_def Let_def del: of_nat_add)
  qed
qed simp

section \<open>The rule accepts nothing else\<close>

lemma bslice_split: "i \<le> m \<Longrightarrow> m \<le> j \<Longrightarrow> bslice data i j = bslice data i m @ bslice data m j"
proof -
  assume h: "i \<le> m" "m \<le> j"
  then have "j - i = (m - i) + (j - m)" by simp
  then show ?thesis using h by (simp only: bslice_def take_add drop_drop) simp
qed

lemma bslice_empty [simp]: "bslice data i i = []"
  by (simp add: bslice_def)

text \<open>What a sub-walk guarantees.\<close>

definition reads_item :: "bytes \<Rightarrow> (citem \<Rightarrow> bool) \<Rightarrow> nat \<Rightarrow> nat \<Rightarrow> bool" where
  "reads_item data P i j \<longleftrightarrow> (\<exists>x. P x \<and> bslice data i j = cenc x) \<and> i < j \<and> j \<le> length data"

lemma walk_times_reads:
  "(\<And>i j. f i = Inr j \<Longrightarrow> reads_item data P i j) \<Longrightarrow> walk_times n f i = Inr j \<Longrightarrow> i \<le> length data \<Longrightarrow>
     \<exists>xs. length xs = n \<and> (\<forall>x\<in>set xs. P x) \<and> bslice data i j = concat (map cenc xs) \<and> i \<le> j \<and> j \<le> length data"
proof (induction n arbitrary: i)
  case (Suc n)
  then obtain m where m: "f i = Inr m" "walk_times n f m = Inr j" by (auto simp: bindR_eq_Inr)
  obtain x where x: "P x" "bslice data i m = cenc x" "i < m" "m \<le> length data"
    using Suc.prems(1) [OF m(1)] by (auto simp: reads_item_def)
  obtain xs where xs: "length xs = n" "\<forall>x\<in>set xs. P x" "bslice data m j = concat (map cenc xs)" "m \<le> j" "j \<le> length data"
    using Suc.IH [OF Suc.prems(1) m(2) x(4)] by blast
  then show ?case using x bslice_split [of i m j data] by (intro exI [of _ "x # xs"]) simp
qed simp

lemma key_byte_item:
  assumes "byte_at data i = Inr b" "unat b div 32 \<in> {0, 1, 3}" "reads_item data P i j" "bslice data i j = cenc k"
    "receipt_ok levels False k"
  shows "key_item k"
proof -
  have i: "i < length data" "data ! i = b" "i < j" "j \<le> length data"
    using assms(1,3) by (auto simp: byte_at_def reads_item_def split: if_splits)
  then have "hd (bslice data i j) = b" by (simp add: bslice_def hd_drop_conv_nth)
  then have hd: "hd (cenc k) = b" by (simp only: assms(4))
  obtain l where l: "levels = Suc l" using assms(5) by (cases levels) auto
  have major: "unat (hd (cbor_head major n @ rest)) div 32 = major" if "major < 8" "n < 2 ^ 64" for major n and rest :: bytes
    using read_head [OF that, of "[]" "[] :: bytes"] by (auto simp: byte_at_def hd_append hd_conv_nth split: if_splits)
  show ?thesis
  proof (cases k)
    case (IBytes x) then show ?thesis using major [of 2 "length x" x] hd assms(2,5) by (auto simp: l)
  next
    case (IArr xs) then show ?thesis using major [of 4 "length xs"] hd assms(2,5) by (auto simp: l)
  next
    case (IMap kvs) then show ?thesis using major [of 5 "length kvs"] hd assms(2,5) by (auto simp: l)
  next
    case (ITag n x) then show ?thesis using major [of 6 n] hd assms(2,5) by (auto simp: l)
  next
    case (ISimple n)
    then have "unat b div 32 = 7" using hd assms(5) head_byte(1) [of 7 n] by (auto simp: l simp del: of_nat_add)
    then show ?thesis using assms(2) by simp
  qed (simp_all add: key_item_def)
qed

lemma receipt_map_reads:
  assumes "\<And>i j. f i = Inr j \<Longrightarrow> reads_item data (receipt_ok levels False) i j"
    and "receipt_map data f n keys i = Inr j" "i \<le> length data"
  shows "\<exists>kvs. length kvs = n \<and> (\<forall>kv\<in>set kvs. key_item (fst kv) \<and> receipt_ok levels False (fst kv) \<and> receipt_ok levels False (snd kv)) \<and>
    distinct (map (\<lambda>kv. cenc (fst kv)) kvs) \<and> set keys \<inter> (\<lambda>kv. cenc (fst kv)) ` set kvs = {} \<and>
    bslice data i j = concat (map (\<lambda>(k, v). cenc k @ cenc v) kvs) \<and> i \<le> j \<and> j \<le> length data"
  using assms(2,3)
proof (induction n arbitrary: keys i)
  case (Suc n)
  from Suc.prems obtain b m m2 where w: "byte_at data i = Inr b" "unat b div 32 \<in> {0, 1, 3}" "f i = Inr m"
      "bslice data i m \<notin> set keys" "f m = Inr m2" "receipt_map data f n (bslice data i m # keys) m2 = Inr j"
    by (auto simp: bindR_eq_Inr split: if_splits)
  note r = assms(1) [OF w(3)] assms(1) [OF w(5)]
  obtain k v where k: "receipt_ok levels False k" "bslice data i m = cenc k" and v: "receipt_ok levels False v" "bslice data m m2 = cenc v"
    and o1: "i < m" "m < m2" "m2 \<le> length data" using r by (auto simp: reads_item_def)
  have key: "key_item k" using key_byte_item [OF w(1,2) r(1) k(2,1)] .
  obtain kvs where kvs: "length kvs = n" "\<forall>kv\<in>set kvs. key_item (fst kv) \<and> receipt_ok levels False (fst kv) \<and> receipt_ok levels False (snd kv)"
    "distinct (map (\<lambda>kv. cenc (fst kv)) kvs)" "set (bslice data i m # keys) \<inter> (\<lambda>kv. cenc (fst kv)) ` set kvs = {}"
    "bslice data m2 j = concat (map (\<lambda>(k, v). cenc k @ cenc v) kvs)" "m2 \<le> j" "j \<le> length data"
    using Suc.IH [OF w(6)] o1 by auto
  have "bslice data i j = cenc k @ cenc v @ concat (map (\<lambda>(k, v). cenc k @ cenc v) kvs)"
    using bslice_split [of i m j data] bslice_split [of m m2 j data] o1 kvs k(2) v(2) by simp
  moreover have "cenc k \<notin> set keys" "set (cenc k # keys) \<inter> (\<lambda>kv. cenc (fst kv)) ` set kvs = {}"
    using w(4) kvs(4) by (simp_all only: k(2) not_False_eq_True)
  ultimately show ?case using kvs(1-3,6,7) k(1) v(1) key o1
    by (intro exI [of _ "(k, v) # kvs"]) auto
qed simp

lemma receipt_walk_reads:
  "receipt_walk levels data i t = Inr j \<Longrightarrow> reads_item data (receipt_ok levels t) i j"
proof (induction levels arbitrary: i t j)
  case (Suc l)
  obtain b where b: "byte_at data i = Inr b" using Suc.prems by (auto simp: receipt_walk.simps(2) bindR_eq_Inr)
  define major where "major = unat b div 32"
  define info where "info = unat b mod 32"
  have i: "i < length data" "data ! i = b" using b by (auto simp: byte_at_def split: if_splits)
  have "unat b < 256" using unsigned_less [of b] by simp
  then have "major < 8" by (simp add: major_def less_mult_imp_div_less)
  show ?case
  proof (cases "major = 7")
    case True
    then have info: "info = 20 \<or> info = 21 \<or> info = 22" and j: "j = Suc i"
      using Suc.prems b by (auto simp: receipt_walk.simps(2) Let_def major_def info_def split: if_splits)
    have "unat b = 7 * 32 + info" using True mult_div_mod_eq [of 32 "unat b"] by (simp only: major_def info_def)
    moreover have "b = of_nat (unat b)" by simp
    ultimately have "b = of_nat (7 * 32 + info)" by metis
    moreover have "bslice data i j = [b]" using i j by (simp add: bslice_def Cons_nth_drop_Suc [symmetric])
    ultimately show ?thesis using info i j
      by (auto simp: reads_item_def simp del: of_nat_add intro!: exI [of _ "ISimple info"])
  next
    case m7: False
    then obtain n m where h: "info \<le> 27" "receipt_arg data info i = Inr (n, m)"
    proof -
      have c: "(major = 7) = False" using m7 by simp
      have "(if 27 < info then Inl ReceiptEncodingError else bindR (receipt_arg data info i) F) = Inr j \<Longrightarrow> thesis" for F
        using that by (auto simp: bindR_eq_Inr split: if_splits)
      then show thesis using Suc.prems
        unfolding receipt_walk.simps b bindR_Inr Let_def major_def [symmetric] info_def [symmetric] c if_False by blast
    qed
    note head = unread_head [OF b h(1,2) [unfolded info_def]]
    have step: "(if major = 0 then Inr m
       else if major = 1 then (if n \<ge> 2 ^ 63 then Inl ReceiptEncodingError else Inr m)
       else if major = 2 \<or> major = 3 then
         (if m + n > length data then Inl ReceiptEncodingError
          else if major = 3 \<and> utf8_decode (map unat (bslice data m (m + n))) = None then Inl ReceiptEncodingError
          else Inr (m + n))
       else if major = 6 then
         (if \<not> (l = MAX_RECEIPT_DEPTH \<and> t \<and> n = 18) then Inl ReceiptEncodingError
          else receipt_walk l data m False)
       else if n > length data - m then Inl ReceiptEncodingError
       else if major = 4 then walk_times n (\<lambda>i. receipt_walk l data i False) m
       else receipt_map data (\<lambda>i. receipt_walk l data i False) n [] m) = Inr j"
    proof -
      have c: "(major = 7) = False" "(27 < info) = False" using m7 h(1) by simp_all
      show ?thesis using Suc.prems
        unfolding receipt_walk.simps b bindR_Inr Let_def major_def [symmetric] info_def [symmetric] c if_False h(2) prod.case .
    qed
    have hd: "bslice data i m = cbor_head major n" using head(3) by (simp add: major_def)
    note spl = bslice_split [of i m j data]
    have r: "reads_item data (receipt_ok l False) i j" if "receipt_walk l data i False = Inr j" for i j
      using Suc.IH that by simp
    have "major = 0 \<or> major = 1 \<or> major = 2 \<or> major = 3 \<or> major = 4 \<or> major = 5 \<or> major = 6"
      using \<open>major < 8\<close> m7 by linarith
    then consider "major = 0" | "major = 1" | "major = 2" | "major = 3" | "major = 4" | "major = 5" | "major = 6" by blast
    then show ?thesis
    proof cases
      case 1
      then show ?thesis using step head hd by (auto simp: reads_item_def intro!: exI [of _ "IUint n"])
    next
      case 2
      then show ?thesis using step head hd by (auto simp: reads_item_def intro!: exI [of _ "INint n"] split: if_splits)
    next
      case 3
      then have s: "j = m + n" "m + n \<le> length data" using step by (auto split: if_splits)
      then have "length (bslice data m j) = n" by (simp add: bslice_def)
      then show ?thesis using s head hd spl 3 by (auto simp: reads_item_def intro!: exI [of _ "IBytes (bslice data m j)"])
    next
      case 4
      then have s: "j = m + n" "m + n \<le> length data" "utf8_decode (map unat (bslice data m j)) \<noteq> None"
        using step by (auto split: if_splits)
      then have "length (bslice data m j) = n" by (simp add: bslice_def)
      then show ?thesis using s head hd spl 4 by (auto simp: reads_item_def intro!: exI [of _ "IText (bslice data m j)"])
    next
      case 5
      then have s: "walk_times n (\<lambda>i. receipt_walk l data i False) m = Inr j" using step by (auto split: if_splits)
      obtain xs where xs: "length xs = n" "\<forall>x\<in>set xs. receipt_ok l False x" "bslice data m j = concat (map cenc xs)"
        "m \<le> j" "j \<le> length data"
        using walk_times_reads [OF r s head(2)] by blast
      then show ?thesis using head hd spl 5 by (auto simp: reads_item_def intro!: exI [of _ "IArr xs"])
    next
      case 6
      then have s: "receipt_map data (\<lambda>i. receipt_walk l data i False) n [] m = Inr j" using step by (auto split: if_splits)
      obtain kvs where kvs: "length kvs = n"
        "\<forall>kv\<in>set kvs. key_item (fst kv) \<and> receipt_ok l False (fst kv) \<and> receipt_ok l False (snd kv)"
        "distinct (map (\<lambda>kv. cenc (fst kv)) kvs)" "bslice data m j = concat (map (\<lambda>(k, v). cenc k @ cenc v) kvs)"
        "m \<le> j" "j \<le> length data"
        using receipt_map_reads [OF r s head(2)] by blast
      then show ?thesis using head hd spl 6 by (auto simp: reads_item_def intro!: exI [of _ "IMap kvs"])
    next
      case 7
      then have s: "receipt_walk l data m False = Inr j" "l = MAX_RECEIPT_DEPTH" t "n = 18" using step by (auto split: if_splits)
      obtain x where x: "receipt_ok l False x" "bslice data m j = cenc x" "m < j" "j \<le> length data"
        using r [OF s(1)] by (auto simp: reads_item_def)
      then show ?thesis using s head hd spl 7 by (auto simp: reads_item_def intro!: exI [of _ "ITag n x"])
    qed
  qed
qed simp

section \<open>The rule, exactly\<close>

lemma receipt_walk_exact:
  "receipt_walk levels data i t = Inr j \<longleftrightarrow>
     i < j \<and> j \<le> length data \<and> (\<exists>x. receipt_ok levels t x \<and> bslice data i j = cenc x)"
proof
  assume "receipt_walk levels data i t = Inr j"
  from receipt_walk_reads [OF this] show "i < j \<and> j \<le> length data \<and> (\<exists>x. receipt_ok levels t x \<and> bslice data i j = cenc x)"
    by (auto simp: reads_item_def)
next
  assume "i < j \<and> j \<le> length data \<and> (\<exists>x. receipt_ok levels t x \<and> bslice data i j = cenc x)"
  then obtain x where x: "receipt_ok levels t x" "bslice data i j = cenc x" and o: "i < j" "j \<le> length data" by blast
  have l: "length (cenc x) = j - i" using x(2) o by (simp add: bslice_def flip: x(2))
  have "data = take i data @ bslice data i j @ drop j data"
    using o by (simp add: bslice_def) (metis append_take_drop_id add_diff_inverse_nat drop_drop not_less_iff_gr_or_eq add.commute)
  then have "receipt_walk levels data i t = Inr (i + length (cenc x))"
    using receipt_walk_complete [OF x(1), of "take i data" "drop j data"] x(2) o by simp
  then show "receipt_walk levels data i t = Inr j" using l o by simp
qed

text \<open>The encoding is prefix-free on the items of the rule.\<close>

lemma cbor_head_inj:
  assumes "cbor_head a n @ r = cbor_head b m @ s" "a < 8" "b < 8" "n < 2 ^ 64" "m < 2 ^ 64"
  shows "a = b \<and> n = m \<and> r = s"
proof -
  obtain x where x: "byte_at (cbor_head a n @ r) 0 = Inr x" "unat x div 32 = a"
    "receipt_arg (cbor_head a n @ r) (unat x mod 32) 0 = Inr (n, length (cbor_head a n))"
    using read_head [of a n "[]" r] assms by auto
  obtain y where y: "byte_at (cbor_head b m @ s) 0 = Inr y" "unat y div 32 = b"
    "receipt_arg (cbor_head b m @ s) (unat y mod 32) 0 = Inr (m, length (cbor_head b m))"
    using read_head [of b m "[]" s] assms by auto
  have xy: "x = y" using x(1) y(1) unfolding assms(1) by simp
  have ab: "a = b" using x(2) y(2) unfolding xy by simp
  have nm: "n = m" using x(3) y(3) unfolding assms(1) xy by simp
  show ?thesis using assms(1) unfolding ab nm by simp
qed

lemma cenc_simple: "n < 24 \<Longrightarrow> cenc (ISimple n) = cbor_head 7 n"
  by (simp add: cbor_head_def)

lemma cenc_prefix_free:
  "receipt_ok l t x \<Longrightarrow> receipt_ok k u y \<Longrightarrow> cenc x @ r = cenc y @ s \<Longrightarrow> x = y \<and> r = s"
proof (induction l arbitrary: t x k u y r s)
  case (Suc l)
  obtain k' where k: "k = Suc k'" using Suc.prems(2) by (cases k) auto
  have items: "length xs = length ys \<Longrightarrow> \<forall>x\<in>set xs. receipt_ok l False x \<Longrightarrow> \<forall>y\<in>set ys. receipt_ok k' False y \<Longrightarrow>
      concat (map cenc xs) @ r = concat (map cenc ys) @ s \<Longrightarrow> xs = ys \<and> r = s" for xs ys r s
  proof (induction xs ys arbitrary: r s rule: list_induct2)
    case (Cons x xs y ys)
    have "x = y \<and> concat (map cenc xs) @ r = concat (map cenc ys) @ s"
      using Cons.prems by (intro Suc.IH [of False x k' False y]) simp_all
    then show ?case using Cons.IH [of r s] Cons.prems by auto
  qed simp
  have pairs: "length xs = length ys \<Longrightarrow> \<forall>x\<in>set xs. receipt_ok l False (fst x) \<and> receipt_ok l False (snd x) \<Longrightarrow>
      \<forall>y\<in>set ys. receipt_ok k' False (fst y) \<and> receipt_ok k' False (snd y) \<Longrightarrow>
      concat (map (\<lambda>(k, v). cenc k @ cenc v) xs) @ r = concat (map (\<lambda>(k, v). cenc k @ cenc v) ys) @ s \<Longrightarrow> xs = ys \<and> r = s" for xs ys r s
  proof (induction xs ys arbitrary: r s rule: list_induct2)
    case (Cons x xs y ys)
    obtain a b c d where xy: "x = (a, b)" "y = (c, d)" by (cases x; cases y)
    have "a = c \<and> cenc b @ concat (map (\<lambda>(k, v). cenc k @ cenc v) xs) @ r = cenc d @ concat (map (\<lambda>(k, v). cenc k @ cenc v) ys) @ s"
      using Cons.prems by (intro Suc.IH [of False a k' False c]) (simp_all add: xy)
    moreover then have "b = d \<and> concat (map (\<lambda>(k, v). cenc k @ cenc v) xs) @ r = concat (map (\<lambda>(k, v). cenc k @ cenc v) ys) @ s"
      using Cons.prems by (intro Suc.IH [of False b k' False d]) (simp_all add: xy)
    ultimately show ?case using Cons.IH [of r s] Cons.prems xy by auto
  qed simp
  have head: "\<exists>a n p. cenc z = cbor_head a n @ p \<and> a < 8 \<and> n < 2 ^ 64 \<and>
      (z = IUint n \<and> a = 0 \<and> p = [] \<or> z = INint n \<and> a = 1 \<and> p = [] \<or> z = IBytes p \<and> a = 2 \<and> n = length p \<or>
       z = IText p \<and> a = 3 \<and> n = length p \<or> (\<exists>zs. z = IArr zs \<and> a = 4 \<and> n = length zs \<and> p = concat (map cenc zs)) \<or>
       (\<exists>zs. z = IMap zs \<and> a = 5 \<and> n = length zs \<and> p = concat (map (\<lambda>(k, v). cenc k @ cenc v) zs)) \<or>
       (\<exists>w. z = ITag n w \<and> a = 6 \<and> p = cenc w) \<or> z = ISimple n \<and> a = 7 \<and> p = [])"
    if "receipt_ok (Suc q) v z" for q v z
  proof (cases z)
    case (ISimple n)
    then have "cenc z = cbor_head 7 n" "n < 2 ^ 64" using that cenc_simple [of n] by auto
    then show ?thesis using ISimple by (intro exI [of _ 7] exI [of _ n] exI [of _ "[]"]) simp
  next
    case (IUint n) then show ?thesis using that by (intro exI [of _ 0] exI [of _ n] exI [of _ "[]"]) simp
  next
    case (INint n) then show ?thesis using that by (intro exI [of _ 1] exI [of _ n] exI [of _ "[]"]) simp
  next
    case (IBytes p) then show ?thesis using that by (intro exI [of _ 2] exI [of _ "length p"] exI [of _ p]) simp
  next
    case (IText p) then show ?thesis using that by (intro exI [of _ 3] exI [of _ "length p"] exI [of _ p]) simp
  next
    case (IArr zs) then show ?thesis using that by (intro exI [of _ 4] exI [of _ "length zs"] exI [of _ "concat (map cenc zs)"]) simp
  next
    case (IMap zs) then show ?thesis using that
      by (intro exI [of _ 5] exI [of _ "length zs"] exI [of _ "concat (map (\<lambda>(k, v). cenc k @ cenc v) zs)"]) simp
  next
    case (ITag n w) then show ?thesis using that by (intro exI [of _ 6] exI [of _ n] exI [of _ "cenc w"]) auto
  qed
  obtain a n p where x: "cenc x = cbor_head a n @ p" "a < 8" "n < 2 ^ 64" and xs:
      "x = IUint n \<and> a = 0 \<and> p = [] \<or> x = INint n \<and> a = 1 \<and> p = [] \<or> x = IBytes p \<and> a = 2 \<and> n = length p \<or>
       x = IText p \<and> a = 3 \<and> n = length p \<or> (\<exists>zs. x = IArr zs \<and> a = 4 \<and> n = length zs \<and> p = concat (map cenc zs)) \<or>
       (\<exists>zs. x = IMap zs \<and> a = 5 \<and> n = length zs \<and> p = concat (map (\<lambda>(k, v). cenc k @ cenc v) zs)) \<or>
       (\<exists>w. x = ITag n w \<and> a = 6 \<and> p = cenc w) \<or> x = ISimple n \<and> a = 7 \<and> p = []"
    using head [OF Suc.prems(1)] by blast
  obtain b m q where y: "cenc y = cbor_head b m @ q" "b < 8" "m < 2 ^ 64" and ys:
      "y = IUint m \<and> b = 0 \<and> q = [] \<or> y = INint m \<and> b = 1 \<and> q = [] \<or> y = IBytes q \<and> b = 2 \<and> m = length q \<or>
       y = IText q \<and> b = 3 \<and> m = length q \<or> (\<exists>zs. y = IArr zs \<and> b = 4 \<and> m = length zs \<and> q = concat (map cenc zs)) \<or>
       (\<exists>zs. y = IMap zs \<and> b = 5 \<and> m = length zs \<and> q = concat (map (\<lambda>(k, v). cenc k @ cenc v) zs)) \<or>
       (\<exists>w. y = ITag m w \<and> b = 6 \<and> q = cenc w) \<or> y = ISimple m \<and> b = 7 \<and> q = []"
    using head [OF Suc.prems(2) [unfolded k]] by blast
  have "cbor_head a n @ p @ r = cbor_head b m @ q @ s" using Suc.prems(3) unfolding x(1) y(1) append_assoc .
  from cbor_head_inj [OF this x(2) y(2) x(3) y(3)] have "a = b \<and> n = m \<and> p @ r = q @ s" .
  then have e: "b = a" "m = n" and pq: "p @ r = q @ s" by simp_all
  consider "a = 0" | "a = 1" | "a = 2" | "a = 3" | "a = 4" | "a = 5" | "a = 6" | "a = 7" using x(2) by linarith
  then show ?case
  proof cases
    case 5
    then obtain zs zt where z: "x = IArr zs" "n = length zs" "p = concat (map cenc zs)" "y = IArr zt" "n = length zt" "q = concat (map cenc zt)"
      using xs ys unfolding e by auto
    have "\<forall>v\<in>set zs. receipt_ok l False v" "\<forall>v\<in>set zt. receipt_ok k' False v" "length zs = length zt"
      using Suc.prems(1,2) z(2,5) unfolding z(1,4) k by simp_all
    from items [OF this(3,1,2) pq [unfolded z(3,6)]] show ?thesis by (simp only: z(1,4) simp_thms)
  next
    case 6
    then obtain zs zt where z: "x = IMap zs" "n = length zs" "p = concat (map (\<lambda>(k, v). cenc k @ cenc v) zs)"
        "y = IMap zt" "n = length zt" "q = concat (map (\<lambda>(k, v). cenc k @ cenc v) zt)"
      using xs ys unfolding e by auto
    have "\<forall>v\<in>set zs. receipt_ok l False (fst v) \<and> receipt_ok l False (snd v)" "length zs = length zt"
      "\<forall>v\<in>set zt. receipt_ok k' False (fst v) \<and> receipt_ok k' False (snd v)"
      using Suc.prems(1,2) z(2,5) unfolding z(1,4) k by simp_all
    from pairs [OF this(2,1,3) pq [unfolded z(3,6)]] show ?thesis by (simp only: z(1,4) simp_thms)
  next
    case 7
    then obtain v w where z: "x = ITag n v" "p = cenc v" "y = ITag n w" "q = cenc w" using xs ys unfolding e by auto
    have "receipt_ok l False v" "receipt_ok k' False w" using Suc.prems z by (auto simp: k)
    from Suc.IH [OF this] show ?thesis using pq z by simp
  next
    case 1
    then show ?thesis using xs ys pq unfolding e by auto
  next
    case 2
    then show ?thesis using xs ys pq unfolding e by auto
  next
    case 3
    then show ?thesis using xs ys pq unfolding e by auto
  next
    case 4
    then show ?thesis using xs ys pq unfolding e by auto
  next
    case 8
    then show ?thesis using xs ys pq unfolding e by auto
  qed
qed simp

text \<open>C19. The receipt encoding rule is exact: with any decoder, \<open>receipt_item\<close> lets a byte string
  through if and only if it is the shortest encoding of an item the rule allows (definite lengths, no
  float, no tag but an outer 18, integer or text map keys without repetition, valid UTF-8, at most 16
  levels), and the byte string is what the decoder is then given.\<close>

theorem receipt_rule_exact:
  "receipt_item cbor2_loads data t = Inr v \<longleftrightarrow>
     (\<exists>x. receipt_ok (MAX_RECEIPT_DEPTH + 1) t x \<and> data = cenc x) \<and> cbor2_loads data = Inr v"
proof -
  have "receipt_item cbor2_loads data t = Inr v \<longleftrightarrow>
      receipt_walk (MAX_RECEIPT_DEPTH + 1) data 0 t = Inr (length data) \<and> cbor2_loads data = Inr v"
    by (auto simp: receipt_item_def split: sum.splits if_splits)
  also have "receipt_walk (MAX_RECEIPT_DEPTH + 1) data 0 t = Inr (length data) \<longleftrightarrow>
      (\<exists>x. receipt_ok (MAX_RECEIPT_DEPTH + 1) t x \<and> data = cenc x)"
    unfolding receipt_walk_exact by (auto simp: bslice_def)
  finally show ?thesis .
qed

text \<open>An item that meets the rule means one thing: two items the rule allows with the same
  bytes are the same item.\<close>

theorem receipt_items_unique:
  "receipt_ok l t x \<Longrightarrow> receipt_ok k u y \<Longrightarrow> cenc x = cenc y \<Longrightarrow> x = y"
  using cenc_prefix_free [of l t x k u y "[]" "[]"] by simp

theorem receipt_items_unique_witness: "cenc (IArr [IUint 24]) \<noteq> cenc (IArr [INint 24])"
  using receipt_items_unique [of "Suc (Suc 0)" False "IArr [IUint 24]" "Suc (Suc 0)" False "IArr [INint 24]"]
  by auto

end
