(* ===== verification/Cbor_Keys.thy ===== *)
theory Cbor_Keys
  imports Cbor "HOL-Library.FSet"
begin

text \<open>
  The second walk of \<^verbatim>\<open>cll/cbor.py\<close>: \<open>cbor_loads\<close> decodes with \<^verbatim>\<open>cbor2\<close> and refuses an item one of
  whose maps has two keys that are equal as Python values (\<open>walk\<close>, \<open>key_of\<close>, \<open>freeze\<close>).
  \<open>gitem\<close> and \<open>genc\<close> are its specification: well-formed items in any encoding; \<open>walk_outcome\<close> says what
  the walk returns on each of them.
\<close>

section \<open>Maps that must not lose keys\<close>

text \<open>
  What \<open>cbor2.loads\<close> returns, as far as \<open>frozen\<close> looks at it: lists and tuples, mappings, sets, tags,
  a float NaN, and everything else (\<open>VAtom\<close>: numbers, strings, bytes, \<open>None\<close>, booleans). Python's
  \<open>==\<close> on the last kind is given by a function \<open>canon\<close> to classes of equal values, so that for
  instance \<open>1\<close>, \<open>True\<close> and \<open>1.0\<close> have one class.
\<close>

datatype 'a pyval =
    VAtom 'a
  | VNaN
  | VList "'a pyval list"
  | VDict "('a pyval \<times> 'a pyval) list"
  | VSet "'a pyval list"
  | VTag nat "'a pyval"

datatype 'n frozen =
    FAtom 'n
  | FNaN
  | FTuple "'n frozen list"
  | FMap "('n frozen \<times> 'n frozen) fset"
  | FSet "'n frozen fset"
  | FTag nat "'n frozen"

fun freeze :: "('a \<Rightarrow> 'n) \<Rightarrow> 'a pyval \<Rightarrow> 'n frozen" where
  "freeze canon (VAtom a) = FAtom (canon a)"
| "freeze canon VNaN = FNaN"
| "freeze canon (VList vs) = FTuple (map (freeze canon) vs)"
| "freeze canon (VDict kvs) = FMap (fset_of_list (map (\<lambda>(k, v). (freeze canon k, freeze canon v)) kvs))"
| "freeze canon (VSet vs) = FSet (fset_of_list (map (freeze canon) vs))"
| "freeze canon (VTag t v) = FTag t (freeze canon v)"

definition key_of :: "(bytes \<Rightarrow> 'a pyval res) \<Rightarrow> ('a \<Rightarrow> 'n) \<Rightarrow> bytes \<Rightarrow> 'n frozen res" where
  "key_of cbor2_loads canon raw =
     (case cbor2_loads raw of Inl e \<Rightarrow> Inl DuplicateMapKeyError | Inr v \<Rightarrow> Inr (freeze canon v))"

text \<open>\<^verbatim>\<open>_head\<close>: the major type, the argument (\<open>None\<close> for indefinite length), the offset after the head.\<close>

definition head :: "bytes \<Rightarrow> nat \<Rightarrow> (nat \<times> nat option \<times> nat) res" where
  "head data i =
     bindR (byte_at data i) (\<lambda>initial.
     let major = unat initial div 32; info = unat initial mod 32 in
     if info < 24 then Inr (major, Some info, i + 1)
     else if info = 31 then Inr (major, None, i + 1)
     else if info > 27 then Inl ValueError
     else
       let width = 2 ^ (info - 24); end = i + 1 + width in
       if end > length data then Inl ValueError
       else Inr (major, Some (be_value (bslice data (i + 1) end)), end))"

definition CONTEXT_TAGS :: "nat list" where "CONTEXT_TAGS = [25, 28, 29, 256]"

text \<open>
  The condition of the loops over elements. \<open>fuel\<close> bounds their iterations; every iteration
  advances the offset, so \<open>length data + 1\<close> is enough.
\<close>

definition more :: "bytes \<Rightarrow> nat option \<Rightarrow> nat \<Rightarrow> nat \<Rightarrow> bool res" where
  "more data arg count i =
     (case arg of None \<Rightarrow> bindR (byte_at data i) (\<lambda>b. Inr (b \<noteq> 0xFF)) | Some n \<Rightarrow> Inr (count < n))"

definition after_items :: "nat option \<Rightarrow> nat \<Rightarrow> nat" where
  "after_items arg i = (case arg of None \<Rightarrow> i + 1 | Some _ \<Rightarrow> i)"

fun skip_chunks :: "nat \<Rightarrow> bytes \<Rightarrow> nat \<Rightarrow> nat res" where
  "skip_chunks 0 data i = Inl IndexError"
| "skip_chunks (Suc fuel) data i =
     bindR (byte_at data i) (\<lambda>b.
     if b = 0xFF then Inr (i + 1)
     else bindR (head data i) (\<lambda>(_, n, i). case n of None \<Rightarrow> Inl TypeError | Some n \<Rightarrow> skip_chunks fuel data (i + n)))"

fun walk_items :: "nat \<Rightarrow> (nat \<Rightarrow> nat res) \<Rightarrow> bytes \<Rightarrow> nat option \<Rightarrow> nat \<Rightarrow> nat \<Rightarrow> nat res" where
  "walk_items 0 f data arg count i = Inl IndexError"
| "walk_items (Suc fuel) f data arg count i =
     bindR (more data arg count i) (\<lambda>m.
     if \<not> m then Inr (after_items arg i)
     else bindR (f i) (walk_items fuel f data arg (count + 1)))"

fun walk_map :: "nat \<Rightarrow> (bytes \<Rightarrow> 'k res) \<Rightarrow> (nat \<Rightarrow> nat res) \<Rightarrow> (nat \<Rightarrow> nat res) \<Rightarrow> bytes \<Rightarrow> nat option \<Rightarrow>
    'k list \<Rightarrow> nat \<Rightarrow> nat \<Rightarrow> nat res" where
  "walk_map 0 key fk fv data arg keys count i = Inl IndexError"
| "walk_map (Suc fuel) key fk fv data arg keys count i =
     bindR (more data arg count i) (\<lambda>m.
     if \<not> m then Inr (after_items arg i)
     else
       bindR (fk i) (\<lambda>j.
       bindR (key (bslice data i j)) (\<lambda>k.
       if k \<in> set keys then Inl DuplicateMapKeyError
       else bindR (fv j) (walk_map fuel key fk fv data arg (k # keys) (count + 1)))))"

text \<open>\<open>frames\<close> is the number of nested calls the interpreter allows; past it the call raises
  \<open>RecursionError\<close>.\<close>

fun walk :: "nat \<Rightarrow> (bytes \<Rightarrow> 'k res) \<Rightarrow> bytes \<Rightarrow> nat \<Rightarrow> bool \<Rightarrow> nat res" where
  "walk 0 key data i in_key = Inl RecursionError"
| "walk (Suc frames) key data i in_key =
     bindR (head data i) (\<lambda>(major, arg, i).
     if major = 0 \<or> major = 1 \<or> major = 7 then Inr i
     else if major = 2 \<or> major = 3 then
       (case arg of Some n \<Rightarrow> Inr (i + n) | None \<Rightarrow> skip_chunks (length data + 1) data i)
     else if major = 6 then
       (if in_key \<and> arg \<in> Some ` set CONTEXT_TAGS then Inl DuplicateMapKeyError
        else walk frames key data i in_key)
     else if major = 4 then walk_items (length data + 1) (\<lambda>i. walk frames key data i in_key) data arg 0 i
     else walk_map (length data + 1) key (\<lambda>i. walk frames key data i True) (\<lambda>i. walk frames key data i in_key) data arg [] 0 i)"

definition cbor_loads :: "nat \<Rightarrow> (bytes \<Rightarrow> 'a pyval res) \<Rightarrow> ('a \<Rightarrow> 'n) \<Rightarrow> bytes \<Rightarrow> 'a pyval res" where
  "cbor_loads frames cbor2_loads canon data =
     bindR (cbor2_loads data) (\<lambda>value.
     case walk frames (key_of cbor2_loads canon) data 0 False of
       Inl e \<Rightarrow> Inl (if e = RecursionError then DuplicateMapKeyError else e)
     | Inr _ \<Rightarrow> Inr value)"

subsection \<open>Well-formed items\<close>

text \<open>
  Well-formed CBOR (RFC 8949), in any encoding: a leaf as its bytes, the others by their head and what
  they contain. A head with indefinite length is closed by the byte \<open>0xFF\<close>.
\<close>

datatype gitem =
    GLeaf bytes
  | GChunks bytes "bytes list"
  | GArr bytes "gitem list"
  | GMap bytes "(gitem \<times> gitem) list"
  | GTag bytes gitem

definition head_is :: "bytes \<Rightarrow> nat \<Rightarrow> nat option \<Rightarrow> bool" where
  "head_is h major arg \<longleftrightarrow> head h 0 = Inr (major, arg, length h)"

definition closing :: "bytes \<Rightarrow> bytes" where
  "closing h = (if unat (hd h) mod 32 = 31 then [0xFF] else [])"

definition count_ok :: "bytes \<Rightarrow> nat \<Rightarrow> nat \<Rightarrow> bool" where
  "count_ok h major n \<longleftrightarrow> head_is h major None \<or> head_is h major (Some n)"

text \<open>A leaf: an integer, a simple value or a float (but not the break code), or a string of
  definite length.\<close>

definition leaf_ok :: "bytes \<Rightarrow> bool" where
  "leaf_ok b \<longleftrightarrow> (\<exists>n\<le>length b. \<exists>major arg. head b 0 = Inr (major, Some arg, n) \<and>
     (major \<in> {0, 1, 7} \<and> n = length b \<or> major \<in> {2, 3} \<and> n + arg = length b))"

fun genc :: "gitem \<Rightarrow> bytes" where
  "genc (GLeaf b) = b"
| "genc (GChunks h bs) = h @ concat bs @ [0xFF]"
| "genc (GArr h xs) = h @ concat (map genc xs) @ closing h"
| "genc (GMap h kvs) = h @ concat (map (\<lambda>(k, v). genc k @ genc v) kvs) @ closing h"
| "genc (GTag h x) = h @ genc x"

fun gwf :: "gitem \<Rightarrow> bool" where
  "gwf (GLeaf b) = leaf_ok b"
| "gwf (GChunks h bs) = ((head_is h 2 None \<or> head_is h 3 None) \<and> (\<forall>b\<in>set bs. leaf_ok b \<and> unat (hd b) div 32 \<in> {2, 3}))"
| "gwf (GArr h xs) = (count_ok h 4 (length xs) \<and> (\<forall>x\<in>set xs. gwf x))"
| "gwf (GMap h kvs) = (count_ok h 5 (length kvs) \<and> (\<forall>kv\<in>set kvs. gwf (fst kv) \<and> gwf (snd kv)))"
| "gwf (GTag h x) = ((\<exists>t. head_is h 6 (Some t)) \<and> gwf x)"

fun gdepth :: "gitem \<Rightarrow> nat" where
  "gdepth (GLeaf b) = 1"
| "gdepth (GChunks h bs) = 1"
| "gdepth (GArr h xs) = Suc (fold max (map gdepth xs) 0)"
| "gdepth (GMap h kvs) = Suc (fold max (map (\<lambda>(k, v). max (gdepth k) (gdepth v)) kvs) 0)"
| "gdepth (GTag h x) = Suc (gdepth x)"

text \<open>What the walk is to establish: in every map the keys are different Python values, and no key
  holds a tag whose value depends on the rest of the item.\<close>

fun keys_ok :: "(bytes \<Rightarrow> 'k res) \<Rightarrow> bool \<Rightarrow> gitem \<Rightarrow> bool" where
  "keys_ok key in_key (GLeaf b) = True"
| "keys_ok key in_key (GChunks h bs) = True"
| "keys_ok key in_key (GArr h xs) = (\<forall>x\<in>set xs. keys_ok key in_key x)"
| "keys_ok key in_key (GMap h kvs) =
     ((\<forall>kv\<in>set kvs. keys_ok key True (fst kv) \<and> keys_ok key in_key (snd kv) \<and> (\<exists>k. key (genc (fst kv)) = Inr k)) \<and>
      distinct (map (\<lambda>kv. key (genc (fst kv))) kvs))"
| "keys_ok key in_key (GTag h x) =
     (\<not> (in_key \<and> (\<exists>t\<in>set CONTEXT_TAGS. head_is h 6 (Some t))) \<and> keys_ok key in_key x)"

subsection \<open>What the walk establishes\<close>

lemma head_local:
  assumes "head b 0 = Inr (m, a, n)"
  shows "head (pre @ b @ post) (length pre) = Inr (m, a, length pre + n)" "0 < n" "n \<le> length b"
    "a \<noteq> None \<or> m \<noteq> 7 \<Longrightarrow> hd b \<noteq> 0xFF" "m = unat (hd b) div 32" "a = None \<longleftrightarrow> unat (hd b) mod 32 = 31"
proof -
  obtain c cs where b: "b = c # cs" using assms by (cases b) (simp_all add: head_def byte_at_def)
  show "0 < n" "n \<le> length b" "m = unat (hd b) div 32" "a = None \<longleftrightarrow> unat (hd b) mod 32 = 31"
    using assms by (auto simp: b head_def byte_at_def Let_def split: if_splits)
  show "hd b \<noteq> 0xFF" if "a \<noteq> None \<or> m \<noteq> 7"
    using assms that by (auto simp: b head_def byte_at_def Let_def split: if_splits)
  have s: "bslice (pre @ (c # cs) @ post) (length pre + 1) (length pre + 1 + w) = bslice (c # cs) 1 (1 + w)" if "1 + w \<le> length (c # cs)" for w
    using that by (simp add: bslice_def)
  show "head (pre @ b @ post) (length pre) = Inr (m, a, length pre + n)"
  proof (cases "unat c mod 32 < 24 \<or> unat c mod 32 > 27")
    case True
    then show ?thesis using assms by (auto simp: b head_def byte_at_def Let_def split: if_splits)
  next
    case False
    define w where "w = (2::nat) ^ (unat c mod 32 - 24)"
    have "1 + w \<le> length (c # cs)" "m = unat c div 32" "a = Some (be_value (bslice (c # cs) 1 (1 + w)))" "n = 1 + w"
      using assms False by (auto simp: b head_def byte_at_def Let_def w_def split: if_splits)
    then show ?thesis using False s [of w] by (simp add: b head_def byte_at_def Let_def flip: w_def)
  qed
qed

lemma head_is_local:
  assumes "head_is h m a"
  shows "head (pre @ h @ post) (length pre) = Inr (m, a, length pre + length h)" "h \<noteq> []"
    "m \<noteq> 7 \<Longrightarrow> hd h \<noteq> 0xFF" "closing h = (case a of None \<Rightarrow> [0xFF] | Some _ \<Rightarrow> [])"
  using head_local [OF assms [unfolded head_is_def]] by (auto simp: closing_def split: option.split)

lemma gwf_first: "gwf x \<Longrightarrow> genc x \<noteq> [] \<and> hd (genc x) \<noteq> 0xFF"
proof (cases x)
  case (GLeaf b)
  then show "gwf x \<Longrightarrow> genc x \<noteq> [] \<and> hd (genc x) \<noteq> 0xFF"
    by (simp add: leaf_ok_def) (metis gr_implies_not0 head_local(2-4) le_zero_eq list.size(3) option.distinct(1))
next
  case (GChunks h bs)
  then show "gwf x \<Longrightarrow> genc x \<noteq> [] \<and> hd (genc x) \<noteq> 0xFF"
    using head_is_local(2,3) [of h 2 None] head_is_local(2,3) [of h 3 None] by fastforce
next
  case (GArr h xs)
  then show "gwf x \<Longrightarrow> genc x \<noteq> [] \<and> hd (genc x) \<noteq> 0xFF"
    using head_is_local(2,3) [of h 4 None] head_is_local(2,3) [of h 4 "Some (length xs)"] by (auto simp: count_ok_def)
next
  case (GMap h xs)
  then show "gwf x \<Longrightarrow> genc x \<noteq> [] \<and> hd (genc x) \<noteq> 0xFF"
    using head_is_local(2,3) [of h 5 None] head_is_local(2,3) [of h 5 "Some (length xs)"] by (auto simp: count_ok_def)
next
  case (GTag h y)
  then show "gwf x \<Longrightarrow> genc x \<noteq> [] \<and> hd (genc x) \<noteq> 0xFF"
    using head_is_local(2,3) [of h 6] by auto
qed

lemma leaf_walk:
  assumes "leaf_ok b"
  shows "walk (Suc f) key (pre @ b @ post) (length pre) in_key = Inr (length pre + length b)"
proof -
  obtain m a n where h: "head b 0 = Inr (m, Some a, n)" "m \<in> {0, 1, 7} \<and> n = length b \<or> m \<in> {2, 3} \<and> n + a = length b"
    using assms by (auto simp: leaf_ok_def)
  show ?thesis using head_local(1) [OF h(1), of pre post] h(2) by auto
qed

lemma skip_chunks_all:
  "\<forall>b\<in>set bs. leaf_ok b \<and> unat (hd b) div 32 \<in> {2, 3} \<Longrightarrow> length bs < fuel \<Longrightarrow>
     skip_chunks fuel (pre @ concat bs @ 0xFF # post) (length pre) = Inr (length pre + length (concat bs) + 1)"
proof (induction bs arbitrary: fuel pre)
  case Nil
  then show ?case by (cases fuel) (simp_all add: byte_at_def)
next
  case (Cons b bs)
  obtain f where f: "fuel = Suc f" using Cons.prems by (cases fuel) auto
  obtain m a n where h: "head b 0 = Inr (m, Some a, n)" "m \<in> {0, 1, 7} \<and> n = length b \<or> m \<in> {2, 3} \<and> n + a = length b"
    using Cons.prems by (auto simp: leaf_ok_def)
  note l = head_local [OF h(1)]
  have n: "n + a = length b" using h(2) l(5) Cons.prems by auto
  have b: "b \<noteq> []" "hd b \<noteq> 0xFF" using l by auto
  then have "byte_at (pre @ b @ concat bs @ 0xFF # post) (length pre) = Inr (hd b)"
    by (simp add: byte_at_def nth_append hd_conv_nth)
  moreover have "skip_chunks f ((pre @ b) @ concat bs @ 0xFF # post) (length (pre @ b)) = Inr (length (pre @ b) + length (concat bs) + 1)"
    using Cons.prems f by (intro Cons.IH) simp_all
  ultimately show ?case using b l(1) [of pre "concat bs @ 0xFF # post"] by (simp add: f add.assoc n)
qed

text \<open>The outcome of a walk over something with property \<open>ok\<close> that may be too deep for the frames.\<close>

definition outcome :: "bool \<Rightarrow> bool \<Rightarrow> nat \<Rightarrow> nat res \<Rightarrow> bool" where
  "outcome ok deep n r \<longleftrightarrow> r = (if ok then Inr n else Inl DuplicateMapKeyError) \<or> r = Inl RecursionError \<and> deep"

lemma outcome_mono: "outcome a d n r \<Longrightarrow> (d \<Longrightarrow> e) \<Longrightarrow> outcome a e n r"
  by (auto simp: outcome_def)

lemma outcome_bind:
  "outcome a d n r \<Longrightarrow> outcome b e m (f n) \<Longrightarrow> outcome (a \<and> b) (d \<or> e) m (bindR r f)"
  by (cases r) (auto simp: outcome_def split: if_splits)

lemma more_step:
  assumes "arg = None \<and> cl = [0xFF] \<or> arg = Some count \<and> cl = []"
  shows "more (pre @ cl @ post) arg count (length pre) = Inr False"
    "after_items arg (length pre) = length pre + length cl"
  using assms by (auto simp: more_def byte_at_def after_items_def)

lemma more_go:
  assumes "arg = None \<or> arg = Some (count + Suc n)" "gwf x"
  shows "more (pre @ genc x @ post) arg count (length pre) = Inr True"
  using assms(1) gwf_first [OF assms(2)] by (auto simp: more_def byte_at_def nth_append hd_conv_nth)

lemma walk_items_outcome:
  "(\<And>x p q. x \<in> set xs \<Longrightarrow> outcome (ok x) (deep x) (length p + length (genc x)) (f (p @ genc x @ q) (length p))) \<Longrightarrow>
   \<forall>x\<in>set xs. gwf x \<Longrightarrow> arg = None \<and> cl = [0xFF] \<or> arg = Some (count + length xs) \<and> cl = [] \<Longrightarrow> length xs < fuel \<Longrightarrow>
   outcome (\<forall>x\<in>set xs. ok x) (\<exists>x\<in>set xs. deep x) (length pre + length (concat (map genc xs)) + length cl)
     (walk_items fuel (f (pre @ concat (map genc xs) @ cl @ post)) (pre @ concat (map genc xs) @ cl @ post) arg count (length pre))"
proof (induction xs arbitrary: fuel pre count)
  case Nil
  then obtain g where g: "fuel = Suc g" by (cases fuel) auto
  show ?case using more_step(1) [of arg cl count pre post] more_step(2) [of arg cl count pre] Nil.prems(3) by (simp add: g outcome_def)
next
  case (Cons x xs)
  obtain g where g: "fuel = Suc g" using Cons.prems(4) by (cases fuel) auto
  let ?D = "pre @ genc x @ concat (map genc xs) @ cl @ post"
  have m: "more ?D arg count (length pre) = Inr True"
    using more_go [of arg count "length xs" x pre] Cons.prems(2,3) by auto
  have x: "outcome (ok x) (deep x) (length pre + length (genc x)) (f ?D (length pre))"
    using Cons.prems(1) [of x pre] by simp
  have r: "outcome (\<forall>x\<in>set xs. ok x) (\<exists>x\<in>set xs. deep x) (length (pre @ genc x) + length (concat (map genc xs)) + length cl)
     (walk_items g (f ((pre @ genc x) @ concat (map genc xs) @ cl @ post)) ((pre @ genc x) @ concat (map genc xs) @ cl @ post) arg (count + 1) (length (pre @ genc x)))"
    using Cons.prems g by (intro Cons.IH) auto
  from outcome_bind [OF x, of _ _ _ "walk_items g (f ?D) ?D arg (count + 1)"] r show ?case
    using m by (simp add: g add.assoc)
qed

lemma walk_map_outcome:
  "(\<And>kv p q. kv \<in> set kvs \<Longrightarrow> outcome (okk (fst kv)) (deep (fst kv)) (length p + length (genc (fst kv))) (fk (p @ genc (fst kv) @ q) (length p))) \<Longrightarrow>
   (\<And>kv p q. kv \<in> set kvs \<Longrightarrow> outcome (okv (snd kv)) (deep (snd kv)) (length p + length (genc (snd kv))) (fv (p @ genc (snd kv) @ q) (length p))) \<Longrightarrow>
   \<forall>kv\<in>set kvs. gwf (fst kv) \<and> gwf (snd kv) \<Longrightarrow> (\<And>raw e. key raw = Inl e \<Longrightarrow> e = DuplicateMapKeyError) \<Longrightarrow>
   arg = None \<and> cl = [0xFF] \<or> arg = Some (count + length kvs) \<and> cl = [] \<Longrightarrow> length kvs < fuel \<Longrightarrow>
   outcome ((\<forall>kv\<in>set kvs. okk (fst kv) \<and> okv (snd kv) \<and> (\<exists>k. key (genc (fst kv)) = Inr k)) \<and>
       distinct (map (\<lambda>kv. key (genc (fst kv))) kvs) \<and> (\<forall>kv\<in>set kvs. key (genc (fst kv)) \<notin> Inr ` set keys))
     (\<exists>kv\<in>set kvs. deep (fst kv) \<or> deep (snd kv))
     (length pre + length (concat (map (\<lambda>(k, v). genc k @ genc v) kvs)) + length cl)
     (walk_map fuel key (fk (pre @ concat (map (\<lambda>(k, v). genc k @ genc v) kvs) @ cl @ post))
       (fv (pre @ concat (map (\<lambda>(k, v). genc k @ genc v) kvs) @ cl @ post))
       (pre @ concat (map (\<lambda>(k, v). genc k @ genc v) kvs) @ cl @ post) arg keys count (length pre))"
proof (induction kvs arbitrary: fuel pre count keys)
  case Nil
  then obtain g where g: "fuel = Suc g" by (cases fuel) auto
  show ?case using more_step(1) [of arg cl count pre post] more_step(2) [of arg cl count pre] Nil.prems(5) by (simp add: g outcome_def)
next
  case (Cons kv kvs)
  obtain g where g: "fuel = Suc g" using Cons.prems(6) by (cases fuel) auto
  obtain k v where kv: "kv = (k, v)" by (cases kv)
  let ?rest = "concat (map (\<lambda>(k, v). genc k @ genc v) kvs)"
  let ?D = "pre @ genc k @ genc v @ ?rest @ cl @ post"
  have m: "more ?D arg count (length pre) = Inr True"
    using more_go [of arg count "length kvs" k pre] Cons.prems(3,5) kv by auto
  have k: "outcome (okk k) (deep k) (length pre + length (genc k)) (fk ?D (length pre))"
    using Cons.prems(1) [of kv pre] kv by simp
  have v: "outcome (okv v) (deep v) (length pre + length (genc k) + length (genc v)) (fv ?D (length pre + length (genc k)))"
    using Cons.prems(2) [of kv "pre @ genc k" "?rest @ cl @ post"] kv by simp
  have raw: "bslice ?D (length pre) (length pre + length (genc k)) = genc k" by (rule bslice_mid)
  have r: "outcome ((\<forall>kv\<in>set kvs. okk (fst kv) \<and> okv (snd kv) \<and> (\<exists>k. key (genc (fst kv)) = Inr k)) \<and>
       distinct (map (\<lambda>kv. key (genc (fst kv))) kvs) \<and> (\<forall>kv\<in>set kvs. key (genc (fst kv)) \<notin> Inr ` set (c # keys)))
     (\<exists>kv\<in>set kvs. deep (fst kv) \<or> deep (snd kv))
     (length (pre @ genc k @ genc v) + length ?rest + length cl)
     (walk_map g key (fk ((pre @ genc k @ genc v) @ ?rest @ cl @ post)) (fv ((pre @ genc k @ genc v) @ ?rest @ cl @ post))
       ((pre @ genc k @ genc v) @ ?rest @ cl @ post) arg (c # keys) (count + 1) (length (pre @ genc k @ genc v)))" for c
    using Cons.prems g by (intro Cons.IH) auto
  let ?step = "\<lambda>j. bindR (key (bslice ?D (length pre) j)) (\<lambda>c.
      if c \<in> set keys then Inl DuplicateMapKeyError
      else bindR (fv ?D j) (walk_map g key (fk ?D) (fv ?D) ?D arg (c # keys) (count + 1)))"
  let ?tail = "\<lambda>c. (\<forall>kv\<in>set kvs. okk (fst kv) \<and> okv (snd kv) \<and> (\<exists>k. key (genc (fst kv)) = Inr k)) \<and>
       distinct (map (\<lambda>kv. key (genc (fst kv))) kvs) \<and> (\<forall>kv\<in>set kvs. key (genc (fst kv)) \<notin> Inr ` set (c # keys))"
  let ?n = "length pre + length (genc k) + length (genc v) + length ?rest + length cl"
  have inner: "outcome (\<exists>c. key (genc k) = Inr c \<and> c \<notin> set keys \<and> okv v \<and> ?tail c) (deep v \<or> (\<exists>kv\<in>set kvs. deep (fst kv) \<or> deep (snd kv))) ?n
      (?step (length pre + length (genc k)))"
  proof (cases "key (genc k)")
    case (Inl e)
    then show ?thesis using Cons.prems(4) by (simp add: raw outcome_def)
  next
    case key: (Inr c)
    show ?thesis
    proof (cases "c \<in> set keys")
      case True
      then show ?thesis by (simp add: raw key outcome_def)
    next
      case False
      have "outcome (okv v \<and> ?tail c) (deep v \<or> (\<exists>kv\<in>set kvs. deep (fst kv) \<or> deep (snd kv))) ?n
        (bindR (fv ?D (length pre + length (genc k))) (walk_map g key (fk ?D) (fv ?D) ?D arg (c # keys) (count + 1)))"
        by (rule outcome_bind [OF v]) (use r [of c] in \<open>simp add: add.assoc\<close>)
      then show ?thesis using False by (simp only: raw key bindR_Inr if_False sum.inject simp_thms ex_simps)
    qed
  qed
  have w: "walk_map fuel key (fk ?D) (fv ?D) ?D arg keys count (length pre) = bindR (fk ?D (length pre)) ?step"
    by (simp add: g m)
  have ok: "(okk k \<and> (\<exists>c. key (genc k) = Inr c \<and> c \<notin> set keys \<and> okv v \<and> ?tail c)) \<longleftrightarrow>
      ((\<forall>x\<in>set (kv # kvs). okk (fst x) \<and> okv (snd x) \<and> (\<exists>k. key (genc (fst x)) = Inr k)) \<and>
       distinct (map (\<lambda>kv. key (genc (fst kv))) (kv # kvs)) \<and> (\<forall>x\<in>set (kv # kvs). key (genc (fst x)) \<notin> Inr ` set keys))"
    by (cases "key (genc k)") (auto simp: kv image_iff)
  have deep: "(deep k \<or> deep v \<or> (\<exists>kv\<in>set kvs. deep (fst kv) \<or> deep (snd kv))) \<longleftrightarrow> (\<exists>x\<in>set (kv # kvs). deep (fst x) \<or> deep (snd x))"
    by (auto simp: kv)
  have D: "pre @ concat (map (\<lambda>(k, v). genc k @ genc v) (kv # kvs)) @ cl @ post = ?D"
    "length pre + length (concat (map (\<lambda>(k, v). genc k @ genc v) (kv # kvs))) + length cl = ?n" by (simp_all add: kv)
  from outcome_bind [where f = ?step, OF k inner] show ?case unfolding ok deep D w .
qed

lemma le_fold_max: "x \<in> set xs \<Longrightarrow> f x \<le> fold max (map f xs) (n :: nat)"
proof -
  have le: "m \<le> fold max ys m" for m and ys :: "nat list"
    by (induction ys arbitrary: m) (auto intro: order_trans [OF max.cobounded2])
  show "x \<in> set xs \<Longrightarrow> f x \<le> fold max (map f xs) n"
    by (induction xs arbitrary: n) (auto intro: order_trans [OF max.cobounded1 le])
qed

lemma length_le_concat: "\<forall>x\<in>set xs. g x \<noteq> [] \<Longrightarrow> length xs \<le> length (concat (map g xs))"
proof (induction xs)
  case (Cons x xs)
  then show ?case by (cases "g x") auto
qed simp

lemma genc_length_le:
  "\<forall>x\<in>set xs. gwf x \<Longrightarrow> length xs \<le> length (concat (map genc xs))"
  "\<forall>kv\<in>set kvs. gwf (fst kv) \<and> gwf (snd kv) \<Longrightarrow> length kvs \<le> length (concat (map (\<lambda>(k, v). genc k @ genc v) kvs))"
  using length_le_concat [of xs genc] length_le_concat [of kvs "\<lambda>(k, v). genc k @ genc v"] gwf_first by fastforce+

lemma count_head:
  assumes "count_ok h m n" "m \<noteq> 7"
  obtains arg where "head_is h m arg" "arg = None \<and> closing h = [0xFF] \<or> arg = Some n \<and> closing h = []"
  using assms head_is_local(4) [of h m] by (auto simp: count_ok_def)

lemma walk_outcome:
  assumes key: "\<And>raw e. key raw = Inl e \<Longrightarrow> e = DuplicateMapKeyError"
  shows "gwf x \<Longrightarrow>
     outcome (keys_ok key ink x) (frames < gdepth x) (length pre + length (genc x)) (walk frames key (pre @ genc x @ post) (length pre) ink)"
proof (induction frames arbitrary: x ink pre post)
  case 0
  have "0 < gdepth x" by (cases x) simp_all
  then show ?case by (simp add: outcome_def)
next
  case (Suc f)
  show ?case
  proof (cases x)
    case (GLeaf b)
    then have "leaf_ok b" using Suc.prems by simp
    from leaf_walk [OF this] show ?thesis by (simp add: GLeaf outcome_def)
  next
    case (GChunks h bs)
    then obtain m where h: "head_is h m None" "m = 2 \<or> m = 3" and bs: "\<forall>b\<in>set bs. leaf_ok b \<and> unat (hd b) div 32 \<in> {2, 3}"
      using Suc.prems by auto
    have "length bs \<le> length (concat bs)"
      using bs length_le_concat [of bs id] gwf_first [of "GLeaf _"] by (simp add: Ball_def)
    then have "skip_chunks (length (pre @ genc x @ post) + 1) ((pre @ h) @ concat bs @ 0xFF # post) (length (pre @ h)) =
        Inr (length (pre @ h) + length (concat bs) + 1)"
      using bs by (intro skip_chunks_all) (auto simp: GChunks)
    then show ?thesis using head_is_local(1) [OF h(1), of pre "concat bs @ 0xFF # post"] h(2) by (auto simp: GChunks outcome_def)
  next
    case (GArr h xs)
    then have wf: "count_ok h 4 (length xs)" "\<forall>x\<in>set xs. gwf x" using Suc.prems by auto
    obtain arg where h: "head_is h 4 arg" and cl: "arg = None \<and> closing h = [0xFF] \<or> arg = Some (0 + length xs) \<and> closing h = []"
      using count_head [OF wf(1)] by auto
    let ?D = "pre @ genc x @ post"
    have o: "outcome (\<forall>x\<in>set xs. keys_ok key ink x) (\<exists>x\<in>set xs. f < gdepth x)
       (length (pre @ h) + length (concat (map genc xs)) + length (closing h))
       (walk_items (length ?D + 1) ((\<lambda>d i. walk f key d i ink) ((pre @ h) @ concat (map genc xs) @ closing h @ post))
         ((pre @ h) @ concat (map genc xs) @ closing h @ post) arg 0 (length (pre @ h)))"
      using Suc.IH wf genc_length_le(1) [OF wf(2)] cl
      by (intro walk_items_outcome [where f = "\<lambda>d i. walk f key d i ink"]) (auto simp: GArr)
    have d: "Suc f < gdepth x" if "y \<in> set xs" "f < gdepth y" for y
      using le_fold_max [OF that(1), of gdepth 0] that(2) by (simp add: GArr)
    show ?thesis using outcome_mono [OF o, of "Suc f < gdepth x"] d head_is_local(1) [OF h(1), of pre "concat (map genc xs) @ closing h @ post"]
      by (simp add: GArr add.assoc del: walk_items.simps) blast
  next
    case (GMap h kvs)
    then have wf: "count_ok h 5 (length kvs)" "\<forall>kv\<in>set kvs. gwf (fst kv) \<and> gwf (snd kv)" using Suc.prems by auto
    obtain arg where h: "head_is h 5 arg" and cl: "arg = None \<and> closing h = [0xFF] \<or> arg = Some (0 + length kvs) \<and> closing h = []"
      using count_head [OF wf(1)] by auto
    let ?D = "pre @ genc x @ post" and ?body = "concat (map (\<lambda>(k, v). genc k @ genc v) kvs)"
    have o: "outcome ((\<forall>kv\<in>set kvs. keys_ok key True (fst kv) \<and> keys_ok key ink (snd kv) \<and> (\<exists>k. key (genc (fst kv)) = Inr k)) \<and>
          distinct (map (\<lambda>kv. key (genc (fst kv))) kvs) \<and> (\<forall>kv\<in>set kvs. key (genc (fst kv)) \<notin> Inr ` set []))
       (\<exists>kv\<in>set kvs. f < gdepth (fst kv) \<or> f < gdepth (snd kv))
       (length (pre @ h) + length ?body + length (closing h))
       (walk_map (length ?D + 1) key ((\<lambda>d i. walk f key d i True) ((pre @ h) @ ?body @ closing h @ post))
         ((\<lambda>d i. walk f key d i ink) ((pre @ h) @ ?body @ closing h @ post))
         ((pre @ h) @ ?body @ closing h @ post) arg [] 0 (length (pre @ h)))"
      using Suc.IH wf genc_length_le(2) [OF wf(2)] cl
      by (intro walk_map_outcome [where fk = "\<lambda>d i. walk f key d i True" and fv = "\<lambda>d i. walk f key d i ink"]) (auto simp: GMap intro: key)
    have d: "Suc f < gdepth x" if "kv \<in> set kvs" "f < gdepth (fst kv) \<or> f < gdepth (snd kv)" for kv
      using le_fold_max [OF that(1), of "\<lambda>(k, v). max (gdepth k) (gdepth v)" 0] that(2) by (auto simp: GMap split: prod.splits)
    show ?thesis using outcome_mono [OF o, of "Suc f < gdepth x"] d head_is_local(1) [OF h(1), of pre "?body @ closing h @ post"]
      by (simp add: GMap add.assoc del: walk_map.simps) blast
  next
    case (GTag h y)
    then obtain t where h: "head_is h 6 (Some t)" and y: "gwf y" using Suc.prems by auto
    have t: "(\<exists>u\<in>set CONTEXT_TAGS. head_is h 6 (Some u)) \<longleftrightarrow> t \<in> set CONTEXT_TAGS"
      using h by (auto simp: head_is_def)
    have "outcome (keys_ok key ink y) (f < gdepth y) (length (pre @ h) + length (genc y)) (walk f key ((pre @ h) @ genc y @ post) (length (pre @ h)) ink)"
      by (rule Suc.IH [OF y])
    then show ?thesis using head_is_local(1) [OF h, of pre "genc y @ post"] t
      by (auto simp: GTag outcome_def add.assoc)
  qed
qed

lemma key_of_errors: "key_of cbor2_loads canon raw = Inl e \<Longrightarrow> e = DuplicateMapKeyError"
  by (auto simp: key_of_def split: sum.splits)

text \<open>C20. \<open>cbor_loads\<close> returns what \<open>cbor2.loads\<close> returns, and only for an item whose maps lose no key:
  for every well-formed encoding \<open>genc x\<close> the decoder accepts, the call returns the decoded value if in
  every map of \<open>x\<close> the keys decode to different Python values (and no key holds a context tag), and
  raises \<open>DuplicateMapKeyError\<close> otherwise; it may raise it too when \<open>x\<close> is nested deeper than the
  interpreter's \<open>frames\<close>, and then never returns a value with a lost key.\<close>

theorem cbor_loads_keep_keys:
  assumes "gwf x" "cbor2_loads (genc x) = Inr v"
  shows "cbor_loads frames cbor2_loads canon (genc x) =
      (if keys_ok (key_of cbor2_loads canon) False x then Inr v else Inl DuplicateMapKeyError) \<or>
    cbor_loads frames cbor2_loads canon (genc x) = Inl DuplicateMapKeyError \<and> frames < gdepth x"
proof -
  have "outcome (keys_ok (key_of cbor2_loads canon) False x) (frames < gdepth x) (length ([] :: bytes) + length (genc x))
      (walk frames (key_of cbor2_loads canon) ([] @ genc x @ []) (length ([] :: bytes)) False)"
    by (rule walk_outcome [OF _ assms(1)]) (rule key_of_errors)
  then show ?thesis using assms(2) by (auto simp: cbor_loads_def outcome_def)
qed

text \<open>The map \<open>{1: 2, 1.0: 2}\<close>, for a decoder that knows this item and its two keys.\<close>

theorem cbor_loads_keep_keys_witness:
  "cbor_loads 10 (\<lambda>b. if hd b = 0x01 \<or> hd b = 0xF9 then Inr (VAtom (1 :: int)) else Inr (VDict [(VAtom 1, VAtom 2)])) (\<lambda>n. n)
     [0xA2, 0x01, 0x02, 0xF9, 0x3C, 0x00, 0x02] = Inl DuplicateMapKeyError"
proof -
  let ?x = "GMap [0xA2] [(GLeaf [0x01], GLeaf [0x02]), (GLeaf [0xF9, 0x3C, 0x00], GLeaf [0x02])]"
  let ?l = "\<lambda>b :: bytes. if hd b = 0x01 \<or> hd b = 0xF9 then Inr (VAtom (1 :: int)) else Inr (VDict [(VAtom 1, VAtom 2)])"
  have g: "genc ?x = [0xA2, 0x01, 0x02, 0xF9, 0x3C, 0x00, 0x02]" by (simp add: closing_def)
  have w: "gwf ?x" by (simp add: count_ok_def head_is_def leaf_ok_def head_def byte_at_def bslice_def Let_def be_value_def)
  have "\<not> keys_ok (key_of ?l (\<lambda>n. n)) False ?x" by (simp add: key_of_def)
  then show ?thesis using cbor_loads_keep_keys [OF w, of ?l "VDict [(VAtom 1, VAtom 2)]" 10 "\<lambda>n. n"] unfolding g by simp
qed

end
