(* ===== verification/Ed25519_Checks.thy ===== *)
theory Ed25519_Checks
  imports Cbor_Keys
begin

text \<open>
  \<^verbatim>\<open>cll/ed25519.py\<close>: what is checked of an Ed25519 key and signature beside the equation itself.
  The packages the module calls (\<^verbatim>\<open>cryptography\<close>, \<^verbatim>\<open>scitt_cose\<close>, \<^verbatim>\<open>cbor2\<close>) are the fields of
  \<open>CryptoLib\<close>, an argument of the definitions that use them. \<open>acceptable_signature\<close> leaves no
  freedom in the encoding of a signature, and the small-order ordinates are the roots of the
  curve's eight-torsion equation.
\<close>

section \<open>Canonical encodings\<close>

definition le_value :: "bytes \<Rightarrow> nat" where
  "le_value bs = be_value (rev bs)"

definition ED_P :: nat where "ED_P = 2 ^ 255 - 19"
definition ED_L :: nat where "ED_L = 2 ^ 252 + 27742317777372353535851937790883648493"
definition ORDER_8_Y :: nat where "ORDER_8_Y = 0x05FC536D880238B13933C6D305ACDFD5F098EFF289F4C345B027B2C28F95E826"
definition SMALL_ORDER_Y :: "nat list" where
  "SMALL_ORDER_Y = [0, 1, ED_P - 1, ORDER_8_Y, ED_P - ORDER_8_Y]"

definition acceptable_point :: "bytes \<Rightarrow> bool" where
  "acceptable_point encoded =
     (let y = le_value encoded mod 2 ^ 255 in y < ED_P \<and> y \<notin> set SMALL_ORDER_Y)"

definition acceptable_signature :: "bytes \<Rightarrow> bytes option \<Rightarrow> bool" where
  "acceptable_signature public_key signature =
     (case signature of None \<Rightarrow> False | Some sig \<Rightarrow>
        length public_key = 32 \<and> length sig = 64 \<and> acceptable_point public_key \<and>
        acceptable_point (take 32 sig) \<and> le_value (drop 32 sig) < ED_L)"

section \<open>The libraries\<close>

text \<open>What \<^verbatim>\<open>scitt_cose.verify_receipt\<close> returns, without its messages.\<close>

record ReceiptResult =
  rr_ok :: bool
  rr_failed_at :: "string option"
  rr_leaf_index :: "int option"
  rr_tree_size :: "int option"

text \<open>
  \<open>lib_ed_verify key signature message\<close> is \<^verbatim>\<open>Ed25519PublicKey.verify\<close>, which raises unless the
  signature is valid; \<open>lib_raw_key pem\<close> the raw key of a PEM public key, \<open>None\<close> for a key of another
  type; \<open>lib_scitt_verify receipt leaf_entry_hex pem\<close> is \<^verbatim>\<open>scitt_cose.verify_receipt\<close>;
  \<open>lib_cbor2\<close> is \<^verbatim>\<open>cbor2.loads\<close>, with \<open>lib_canon\<close> the classes of equal atoms and \<open>lib_bytes\<close> the byte
  strings among them; \<open>lib_frames\<close> the interpreter's recursion limit; \<open>lib_probe_pem\<close> the random public
  key \<^verbatim>\<open>_structural_probe_pubkey_pem\<close> generates.
\<close>

record ('a, 'n) CryptoLib =
  lib_ed_verify :: "bytes \<Rightarrow> bytes \<Rightarrow> bytes \<Rightarrow> unit res"
  lib_raw_key :: "bytes \<Rightarrow> bytes option res"
  lib_scitt_verify :: "bytes \<Rightarrow> pytext \<Rightarrow> bytes \<Rightarrow> ReceiptResult res"
  lib_probe_pem :: bytes
  lib_cbor2 :: "bytes \<Rightarrow> 'a pyval res"
  lib_canon :: "'a \<Rightarrow> 'n"
  lib_bytes :: "'a \<Rightarrow> bytes option"
  lib_frames :: nat

definition ed_verify :: "('a, 'n) CryptoLib \<Rightarrow> bytes \<Rightarrow> bytes \<Rightarrow> bytes \<Rightarrow> bool" where
  "ed_verify lib public_key message signature =
     (if \<not> acceptable_signature public_key (Some signature) then False
      else case lib_ed_verify lib public_key signature message of Inl _ \<Rightarrow> False | Inr _ \<Rightarrow> True)"

definition untag_18 :: "'a pyval \<Rightarrow> 'a pyval" where
  "untag_18 item = (case item of VTag t v \<Rightarrow> if t = 18 then v else item | _ \<Rightarrow> item)"

definition cose_sign1_signature :: "('a, 'n) CryptoLib \<Rightarrow> bytes \<Rightarrow> bytes option" where
  "cose_sign1_signature lib cose_bytes =
     (case cbor_loads (lib_frames lib) (lib_cbor2 lib) (lib_canon lib) cose_bytes of
        Inl _ \<Rightarrow> None
      | Inr item \<Rightarrow>
          (case untag_18 item of
             VList [_, _, _, VAtom s] \<Rightarrow> lib_bytes lib s
           | _ \<Rightarrow> None))"

definition verify_receipt :: "('a, 'n) CryptoLib \<Rightarrow> bytes \<Rightarrow> pytext \<Rightarrow> bytes \<Rightarrow> ReceiptResult res" where
  "verify_receipt lib receipt leaf_entry_hex pem =
     bindR (lib_scitt_verify lib receipt leaf_entry_hex pem) (\<lambda>result.
     if \<not> rr_ok result then Inr result
     else
       let public_key = (case lib_raw_key lib pem of Inl _ \<Rightarrow> Some [] | Inr k \<Rightarrow> k) in
       (case public_key of
          None \<Rightarrow> Inr result
        | Some key \<Rightarrow>
            if \<not> acceptable_signature key (cose_sign1_signature lib receipt)
            then Inr (result\<lparr>rr_ok := False, rr_failed_at := Some ''signature''\<rparr>)
            else Inr result))"

section \<open>No freedom in the encoding\<close>

lemma le_value_inject: "length a = length b \<Longrightarrow> le_value a = le_value b \<Longrightarrow> a = b"
proof -
  assume h: "length a = length b" "le_value a = le_value b"
  then have "be_bytes (length (rev a)) (be_value (rev a)) = be_bytes (length (rev b)) (be_value (rev b))"
    by (simp add: le_value_def)
  then show "a = b" by (simp only: be_bytes_be_value rev_is_rev_conv)
qed

text \<open>
  An acceptable signature has one encoding: two acceptable signatures under one key with the
  same \<open>R\<close> and scalars that are equal modulo the group order are the same 64 bytes, and \<open>R\<close> and the
  key themselves are canonical (the ordinate is below the field's prime).
\<close>

theorem signature_encoding_unique:
  assumes "acceptable_signature key (Some s)" "acceptable_signature key (Some t)"
    "take 32 s = take 32 t" "le_value (drop 32 s) mod ED_L = le_value (drop 32 t) mod ED_L"
  shows "s = t \<and> le_value (take 32 s) mod 2 ^ 255 < ED_P \<and> le_value key mod 2 ^ 255 < ED_P"
proof -
  have len: "length (drop 32 s) = length (drop 32 t)" and v: "le_value (drop 32 s) = le_value (drop 32 t)"
    and p: "le_value (take 32 s) mod 2 ^ 255 < ED_P \<and> le_value key mod 2 ^ 255 < ED_P"
    using assms by (auto simp: acceptable_signature_def acceptable_point_def Let_def)
  have "drop 32 s = drop 32 t" using le_value_inject [OF len v] .
  then have "s = t" using assms(3) by (metis append_take_drop_id)
  with p show ?thesis by blast
qed

lemma le_value_replicate_0: "le_value (replicate n 0) = 0"
  by (induction n) (simp_all add: le_value_def be_value_def)

lemma le_value_Cons_0: "le_value (b # replicate n 0) = unat b"
proof -
  have "be_value (replicate n 0 @ [b]) = unat b"
    using le_value_replicate_0 [of n] by (simp add: le_value_def be_value_def)
  then show ?thesis by (simp add: le_value_def)
qed

theorem signature_encoding_unique_witness:
  "acceptable_signature (2 # replicate 31 0) (Some (2 # replicate 63 0)) \<and>
   le_value (take 32 (2 # replicate 63 (0 :: byte))) mod 2 ^ 255 < ED_P"
proof -
  have r: "replicate 63 (0 :: byte) = replicate 31 0 @ replicate 32 0" by (simp flip: replicate_add)
  have t: "take 32 (2 # replicate 63 (0 :: byte)) = 2 # replicate 31 0" "drop 32 (2 # replicate 63 (0 :: byte)) = replicate 32 0"
    by (simp_all add: r numeral_eq_Suc)
  have "acceptable_signature (2 # replicate 31 0) (Some (2 # replicate 63 0))"
    by (simp add: acceptable_signature_def acceptable_point_def t le_value_Cons_0 le_value_replicate_0
        ED_P_def ED_L_def SMALL_ORDER_Y_def ORDER_8_Y_def)
  then show ?thesis using signature_encoding_unique [of "2 # replicate 31 0" "2 # replicate 63 0" "2 # replicate 63 0"] by simp
qed

definition eight_torsion :: "int \<Rightarrow> int" where
  "eight_torsion y = 121665 * (y * y) * (y * y) - 2 * 121666 * (y * y) + 121666"

lemma order_8:
  "eight_torsion (int ORDER_8_Y) = int ED_P * 112906036331323448156872562553268991417860332857672912474895817263891655189610579261091843652975287253628779081697460285287036075596526030507875802598140685061703626526588198523310568863718518448627066271701187320982206014621356682"
  "eight_torsion (int (ED_P - ORDER_8_Y)) = int ED_P * 19494681126417626956708613714187194594691840571562280704862270925600704097808057695652140573408398226258648507183925864003693472650433270486449805095927301848775645855552351206792420661412862365535856931699257265977480139486743990309947"
  by (simp_all add: eight_torsion_def ORDER_8_Y_def ED_P_def)

text \<open>
  The refused ordinates are those of points of order dividing eight: on the curve
  \<open>- x\<^sup>2 + y\<^sup>2 = 1 + d x\<^sup>2 y\<^sup>2\<close> with \<open>d = - 121665 / 121666\<close>, doubling a point gives \<open>y = 0\<close> exactly when
  \<open>121665 y\<^sup>4 - 2 \<cdot> 121666 y\<^sup>2 + 121666 = 0\<close>; the order-8 pair satisfies this modulo the prime, and
  the other three are \<open>0\<close> and the square roots of one. The five are distinct and below the prime.
\<close>

theorem small_order_ordinates:
  "list_all (\<lambda>y. y = 0 \<or> int y * int y mod int ED_P = 1 \<or> eight_torsion (int y) mod int ED_P = 0) SMALL_ORDER_Y \<and>
   distinct SMALL_ORDER_Y \<and> list_all (\<lambda>y. y < ED_P) SMALL_ORDER_Y"
proof -
  have one: "(p * k + 1) mod p = 1" if "1 < p" for p k :: int using that by simp
  have "int (ED_P - 1) * int (ED_P - 1) = int ED_P * (int ED_P - 2) + 1" by (simp add: ED_P_def)
  moreover have "1 < int ED_P" by (simp add: ED_P_def)
  ultimately have "int (ED_P - 1) * int (ED_P - 1) mod int ED_P = 1" by (simp only: one)
  moreover have "eight_torsion (int ORDER_8_Y) mod int ED_P = 0" "eight_torsion (int (ED_P - ORDER_8_Y)) mod int ED_P = 0"
    unfolding order_8 by simp_all
  moreover have "distinct SMALL_ORDER_Y" "list_all (\<lambda>y. y < ED_P) SMALL_ORDER_Y"
    by (simp_all add: SMALL_ORDER_Y_def ED_P_def ORDER_8_Y_def)
  ultimately show ?thesis by (simp add: SMALL_ORDER_Y_def)
qed

end
