(* ===== verification/Checkpoint_Emit.thy ===== *)
theory Checkpoint_Emit
  imports Mmr_Binding Checkpoint_Record Ed25519_Checks
begin

text \<open>
  Emission and checking of checkpoints (\<^verbatim>\<open>cll/checkpoint/emit.py\<close>, with \<^verbatim>\<open>MmrLedger\<close> of \<open>Mmr_Index\<close>):
  \<open>emit_checkpoint\<close> with its monotonicity and rollback checks, the three verifications a checkpoint
  admits, and what they are for: an honest log can always checkpoint again, and a log that changed
  anything under the previous checkpoint cannot.
\<close>

section \<open>Emission\<close>

text \<open>The protocol \<^verbatim>\<open>Signer\<close>: a key id and a signing function that may raise.\<close>

record Signer =
  sg_key_id :: pytext
  sg_sign :: "pytext \<Rightarrow> pytext res"

definition root_hex :: "'l MmrLedger \<Rightarrow> int \<Rightarrow> pytext res" where
  "root_hex mmr sz = bindR (bindR (peak_hashes_at mmr sz) root_from_peaks) (\<lambda>root. Inr (hex_text root))"

text \<open>\<^verbatim>\<open>strftime("%Y-%m-%dT%H:%M:%SZ")\<close> of the current instant, given in microseconds.\<close>

definition whole_second :: "nat \<Rightarrow> pytext" where
  "whole_second now = take 19 (render_time (now div 1000)) @ [90]"

definition check_prev :: "'l MmrLedger \<Rightarrow> pytext \<Rightarrow> CheckpointRecord \<Rightarrow> (int \<times> pytext) res" where
  "check_prev mmr log_id prev =
     (if ck_log_id prev \<noteq> log_id then Inl CheckpointError
      else if ml_size mmr \<le> ck_mmr_size prev then Inl RollbackError
      else
        bindR (root_hex mmr (ck_mmr_size prev)) (\<lambda>actual_prev_root.
        if actual_prev_root \<noteq> ck_root prev then Inl RollbackError
        else Inr (ck_mmr_size prev, ck_root prev)))"

definition emit_checkpoint ::
  "'l MmrLedger \<Rightarrow> Signer \<Rightarrow> pytext \<Rightarrow> CheckpointRecord option \<Rightarrow> pytext option \<Rightarrow> nat \<Rightarrow> CheckpointRecord res" where
  "emit_checkpoint mmr signer log_id prev timestamp now =
     (let timestamp = (case timestamp of None \<Rightarrow> whole_second now | Some t \<Rightarrow> t);
          current_size = ml_size mmr in
      if current_size = 0 then Inl CheckpointError
      else
        bindR (case prev of None \<Rightarrow> Inr (0, []) | Some p \<Rightarrow> check_prev mmr log_id p) (\<lambda>(prev_size, prev_root).
        bindR (root_hex mmr current_size) (\<lambda>root.
        let cp = \<lparr>ck_v = 1, ck_kind = text_of ''mmr_checkpoint'', ck_log_id = log_id, ck_mmr_size = current_size,
                  ck_root = root, ck_prev_size = prev_size, ck_prev_root = prev_root, ck_key_id = sg_key_id signer,
                  ck_timestamp = timestamp, ck_signature = [], ck_witnesses = []\<rparr> in
        bindR (sg_sign signer (cp_digest cp)) (\<lambda>sig. Inr (cp\<lparr>ck_signature := sig\<rparr>)))))"

section \<open>Verification\<close>

definition verify_checkpoint_signature :: "CheckpointRecord \<Rightarrow> Signer \<Rightarrow> bool" where
  "verify_checkpoint_signature cp signer =
     or_false (bindR (sg_sign signer (cp_digest cp)) (\<lambda>expected. Inr (ck_signature cp = expected)))"

definition verify_checkpoint_signature_offline :: "('a, 'n) CryptoLib \<Rightarrow> CheckpointRecord \<Rightarrow> bool" where
  "verify_checkpoint_signature_offline lib cp =
     or_false (bindR (fromhex_text (ck_key_id cp)) (\<lambda>key.
       bindR (fromhex_text (ck_signature cp)) (\<lambda>sig.
       Inr (ed_verify lib key (ascii_bytes (cp_digest cp)) sig))))"

definition verify_checkpoint_consistency :: "CheckpointRecord \<Rightarrow> CheckpointRecord \<Rightarrow> 'l MmrLedger \<Rightarrow> bool" where
  "verify_checkpoint_consistency prev current mmr =
     or_false
       (if ck_log_id current \<noteq> ck_log_id prev then Inr False
        else if ck_prev_size current \<noteq> ck_mmr_size prev then Inr False
        else if ck_mmr_size current \<le> ck_mmr_size prev then Inr False
        else bindR (root_hex mmr (ck_mmr_size prev)) (\<lambda>actual. Inr (actual = ck_prev_root current)))"

section \<open>A log of one and of two records\<close>

lemma bare_index_proof:
  assumes "1 \<le> ml_size l"
  shows "ml_inclusion_proof l 1 (Some 1) = Inr bare_inclusion"
proof -
  have f: "find_containing_peak 0 [0] = Inr 0" by (simp add: find_containing_peak_def one_leaf(5))
  show ?thesis using assms
    by (simp add: ml_inclusion_proof_def inclusion_proof_def one_leaf f py_index_def bare_inclusion_def Let_def)
qed

lemma two_leaf_index:
  obtains l l' :: "unit MmrLedger" where "index_inv l" "index_inv l'" "extends l l'" "ml_body_digests l = [replicate 32 7]"
    "ml_body_digests l' = [replicate 32 7, replicate 32 8]" "ml_size l = 1" "1 < ml_size l'" "ml_size l' < MAX_MMR_SIZE"
proof -
  obtain l :: "unit MmrLedger" where l: "index_inv l" "ml_body_digests l = [replicate 32 7]" using single_leaf_index by blast
  have sz: "ml_size l = 1" using index_size [OF l(1)] one_leaf(1) by (simp add: l(2) msize_def)
  let ?r = "\<lparr>ir_seq = 2, ir_capsule_id = to_hex (replicate 32 8)\<rparr>"
  have "ml_size l < MAX_MMR_SIZE" "ir_seq ?r = ml_leaf_count l + 1" "from_hex (ir_capsule_id ?r) = Inr (replicate 32 8)" "digest (replicate 32 8)"
    by (simp_all add: sz MAX_MMR_SIZE_def ml_leaf_count_def l(2))
  from index_record_ok [OF l(1) this] obtain l' where l': "index_inv l'" "extends l l'" "ml_body_digests l' = ml_body_digests l @ [replicate 32 8]"
    by metis
  have "mountains 2 = [1]" using mountains_power [of 1] by simp
  then have "ml_size l' = 3" using index_size [OF l'(1)] by (simp add: l'(3) l(2) msize_def numeral_2_eq_2)
  then show thesis using l l' sz by (intro that [of l l']) (simp_all add: MAX_MMR_SIZE_def)
qed

definition echo_signer :: Signer where
  "echo_signer = \<lparr>sg_key_id = text_of ''key'', sg_sign = Inr\<rparr>"

lemma echo_signs: "\<exists>s. sg_sign echo_signer d = Inr s"
  by (simp add: echo_signer_def)

lemma root_hex_ok:
  assumes "index_inv l" "n \<le> length (ml_body_digests l)" "nodes_of (mountains n) < MAX_MMR_SIZE"
  shows "\<exists>root. root_at l (nodes_of (mountains n)) = Inr root \<and> root_hex l (nodes_of (mountains n)) = Inr (hex_text root)"
proof -
  obtain root where "root_at l (nodes_of (mountains n)) = Inr root" using root_at_ok [OF assms] by blast
  then show ?thesis by (simp add: root_hex_def root_at_def)
qed

section \<open>What an emitted checkpoint says\<close>

lemma cp_digest_signature [simp]:
  "cp_digest (c\<lparr>ck_signature := s\<rparr>) = cp_digest c" "cp_digest (c\<lparr>ck_witnesses := ws\<rparr>) = cp_digest c"
  by (simp_all add: cp_digest_def signing_body_def signing_dict_def)

lemma emit_parts:
  assumes "emit_checkpoint mmr signer log_id prev timestamp now = Inr cp"
  shows "ml_size mmr \<noteq> 0" "ck_mmr_size cp = ml_size mmr" "root_hex mmr (ml_size mmr) = Inr (ck_root cp)"
    "ck_log_id cp = log_id" "ck_key_id cp = sg_key_id signer" "sg_sign signer (cp_digest cp) = Inr (ck_signature cp)"
    "ck_witnesses cp = []" "prev = None \<Longrightarrow> ck_prev_size cp = 0 \<and> ck_prev_root cp = []"
    "prev = Some p \<Longrightarrow> check_prev mmr log_id p = Inr (ck_prev_size cp, ck_prev_root cp)"
proof -
  define stamp where "stamp = (case timestamp of None \<Rightarrow> whole_second now | Some t \<Rightarrow> t)"
  obtain a b root sig where e: "ml_size mmr \<noteq> 0" "(case prev of None \<Rightarrow> Inr (0, []) | Some p \<Rightarrow> check_prev mmr log_id p) = Inr (a, b)"
    "root_hex mmr (ml_size mmr) = Inr root" and cp: "cp = \<lparr>ck_v = 1, ck_kind = text_of ''mmr_checkpoint'', ck_log_id = log_id,
      ck_mmr_size = ml_size mmr, ck_root = root, ck_prev_size = a, ck_prev_root = b, ck_key_id = sg_key_id signer,
      ck_timestamp = stamp, ck_signature = [], ck_witnesses = []\<rparr>\<lparr>ck_signature := sig\<rparr>"
    and sig: "sg_sign signer (cp_digest cp) = Inr sig"
    using assms unfolding emit_checkpoint_def Let_def stamp_def [symmetric]
    by (auto simp only: bindR_eq_Inr cp_digest_signature prod.case Inl_Inr_False simp_thms split: if_splits)
  show "ml_size mmr \<noteq> 0" "ck_mmr_size cp = ml_size mmr" "root_hex mmr (ml_size mmr) = Inr (ck_root cp)"
    "ck_log_id cp = log_id" "ck_key_id cp = sg_key_id signer" "ck_witnesses cp = []"
    using e(1,3) by (simp_all add: cp)
  show "sg_sign signer (cp_digest cp) = Inr (ck_signature cp)" using sig by (simp add: cp)
  show "prev = None \<Longrightarrow> ck_prev_size cp = 0 \<and> ck_prev_root cp = []"
    "prev = Some p \<Longrightarrow> check_prev mmr log_id p = Inr (ck_prev_size cp, ck_prev_root cp)"
    using e(2) by (auto simp: cp)
qed

text \<open>
  C22. An emitted checkpoint verifies: it carries the size and root of the index, its signature checks
  with the signer's, and when there was a previous checkpoint it continues that one and
  \<^verbatim>\<open>verify_checkpoint_consistency\<close> accepts the step.
\<close>

theorem emitted_checkpoint_verifies:
  assumes "emit_checkpoint mmr signer log_id prev timestamp now = Inr cp"
  shows "root_hex mmr (ck_mmr_size cp) = Inr (ck_root cp) \<and> ck_mmr_size cp = ml_size mmr \<and> ck_log_id cp = log_id \<and>
    verify_checkpoint_signature cp signer \<and>
    (case prev of None \<Rightarrow> ck_prev_size cp = 0 \<and> ck_prev_root cp = []
     | Some p \<Rightarrow> ck_prev_size cp = ck_mmr_size p \<and> ck_prev_root cp = ck_root p \<and> ck_mmr_size p < ck_mmr_size cp \<and>
         verify_checkpoint_consistency p cp mmr)"
proof -
  note e = emit_parts [OF assms]
  have sig: "verify_checkpoint_signature cp signer" by (simp add: verify_checkpoint_signature_def e(6))
  show ?thesis
  proof (cases prev)
    case None
    then show ?thesis using e(2-4,8) sig by simp
  next
    case (Some p)
    then have c: "ck_log_id p = log_id" "ck_mmr_size p < ml_size mmr" "root_hex mmr (ck_mmr_size p) = Inr (ck_root p)"
      "ck_prev_size cp = ck_mmr_size p" "ck_prev_root cp = ck_root p"
      using e(9) by (auto simp: check_prev_def bindR_eq_Inr split: if_splits)
    then have "verify_checkpoint_consistency p cp mmr"
      by (simp add: verify_checkpoint_consistency_def e(2,4))
    then show ?thesis using Some c e(2-4) sig by simp
  qed
qed

theorem emitted_checkpoint_verifies_witness:
  "\<exists>(l :: unit MmrLedger) cp. ck_mmr_size cp = 1 \<and> verify_checkpoint_signature cp echo_signer \<and> ck_prev_root cp = [] \<and>
     root_hex l 1 = Inr (ck_root cp)"
proof -
  obtain l l' :: "unit MmrLedger" where l: "index_inv l" "ml_body_digests l = [replicate 32 7]" "ml_size l = 1"
    by (rule two_leaf_index)
  have "root_hex l (ml_size l) \<noteq> Inl e" for e
    using root_hex_ok [OF l(1) order_refl] index_size [OF l(1)] by (auto simp: l(3) MAX_MMR_SIZE_def)
  then obtain r where "root_hex l (ml_size l) = Inr r" by (cases "root_hex l (ml_size l)") auto
  then obtain cp where "emit_checkpoint l echo_signer [] None None 0 = Inr cp"
    using l(3) by (simp add: emit_checkpoint_def Let_def echo_signer_def)
  from emitted_checkpoint_verifies [OF this] l(3) show ?thesis
    by (intro exI [of _ l] exI [of _ cp]) auto
qed

section \<open>An honest log can checkpoint\<close>

lemma ml_size_nonneg: "0 \<le> ml_size l"
  by (simp add: ml_size_def store_size_def)

lemma root_hex_extends:
  assumes "extends l l'" "root_hex l s = Inr r"
  shows "root_hex l' s = Inr r"
  using assms peak_hashes_at_extends [OF assms(1)] by (auto simp: root_hex_def bindR_eq_Inr)

lemma honest_checkpoints:
  assumes "index_inv l" "index_inv l'" "extends l l'" "ml_size l \<noteq> 0" "ml_size l < ml_size l'" "ml_size l' < MAX_MMR_SIZE"
    "\<And>d. \<exists>s. sg_sign signer d = Inr s"
  shows "\<exists>p. emit_checkpoint l signer log_id None t now = Inr p \<and>
    (\<exists>cp. emit_checkpoint l' signer log_id (Some p) t' now' = Inr cp)"
proof -
  note s = index_size [OF assms(1)] index_size [OF assms(2)]
  obtain r where r: "root_hex l (ml_size l) = Inr r"
    using root_hex_ok [OF assms(1) order_refl] assms(5,6) by (auto simp: s(1))
  obtain r' where r': "root_hex l' (ml_size l') = Inr r'"
    using root_hex_ok [OF assms(2) order_refl] assms(6) by (auto simp: s(2))
  have "\<exists>p. emit_checkpoint l signer log_id None t now = Inr p"
    using assms(4,7) r by (simp add: emit_checkpoint_def Let_def bindR_eq_Inr)
  then obtain p where p: "emit_checkpoint l signer log_id None t now = Inr p" by blast
  note e = emit_parts [OF p]
  have "root_hex l' (ck_mmr_size p) = Inr (ck_root p)"
    using root_hex_extends [OF assms(3) e(3)] e(2) by simp
  then have "check_prev l' log_id p = Inr (ck_mmr_size p, ck_root p)"
    using assms(5) e(2,4) by (simp add: check_prev_def)
  then have "\<exists>cp. emit_checkpoint l' signer log_id (Some p) t' now' = Inr cp"
    using assms(5,7) r' e(2) ml_size_nonneg [of l] by (auto simp: emit_checkpoint_def Let_def bindR_eq_Inr)
  with p show ?thesis by blast
qed

text \<open>
  An honest log can always checkpoint: with a signer that signs, an index that holds its invariant
  and something to commit to emits a first checkpoint, and from any later state of it (more leaves,
  nothing rewritten) the next one. Sizes stay below the limit of the index.
\<close>

theorem honest_log_checkpoints:
  assumes "index_inv l" "index_inv l'" "extends l l'" "ml_size l \<noteq> 0" "ml_size l < ml_size l'" "ml_size l' < MAX_MMR_SIZE"
    "\<And>d. \<exists>s. sg_sign signer d = Inr s"
  shows "\<exists>p. emit_checkpoint l signer log_id None t now = Inr p \<and>
    (\<exists>cp. emit_checkpoint l' signer log_id (Some p) t' now' = Inr cp)"
  by (rule honest_checkpoints [OF assms])

theorem honest_log_checkpoints_witness:
  "\<exists>(l :: unit MmrLedger) (l' :: unit MmrLedger) p cp. emit_checkpoint l echo_signer [] None None 0 = Inr p \<and>
     emit_checkpoint l' echo_signer [] (Some p) None 0 = Inr cp"
proof -
  obtain l l' :: "unit MmrLedger" where l: "index_inv l" "index_inv l'" "extends l l'" "ml_size l = 1" "1 < ml_size l'" "ml_size l' < MAX_MMR_SIZE"
    by (rule two_leaf_index)
  then show ?thesis using honest_log_checkpoints [OF l(1-3) _ _ l(6) echo_signs, of "[]" None 0 None 0] by auto
qed

section \<open>A rewritten log cannot\<close>

text \<open>What SHA-256 is asked when every leaf under size \<open>s\<close> (\<open>n\<close> leaves) is proved included.\<close>

definition audit_queries :: "'l MmrLedger \<Rightarrow> nat \<Rightarrow> int \<Rightarrow> bytes set" where
  "audit_queries l n s =
     (\<Union>i\<in>{..<n}. case ml_inclusion_proof l (int i + 1) (Some s) of
        Inl _ \<Rightarrow> {} | Inr pf \<Rightarrow> set (inclusion_queries s (int i) (ml_body_digests l ! i) pf))"

lemma same_root_same_leaves:
  assumes "index_inv l" "index_inv l'" "n \<le> length (ml_body_digests l)" "n \<le> length (ml_body_digests l')"
    "nodes_of (mountains n) < MAX_MMR_SIZE" "root_at l (nodes_of (mountains n)) = root_at l' (nodes_of (mountains n))"
    "inj_on sha256 (audit_queries l n (nodes_of (mountains n)) \<union> audit_queries l' n (nodes_of (mountains n)))"
  shows "take n (ml_body_digests l) = take n (ml_body_digests l')"
proof (rule nth_equalityI)
  fix i assume "i < length (take n (ml_body_digests l))"
  then have i: "i < n" by simp
  let ?s = "nodes_of (mountains n)"
  obtain root pf where pf: "root_at l ?s = Inr root" "ml_inclusion_proof l (int i + 1) (Some ?s) = Inr pf"
    "verify_inclusion root ?s (int i) (ml_body_digests l ! i) (Some pf)"
    using index_inclusion [OF assms(1) i assms(3,5)] by blast
  obtain root' pf' where pf': "root_at l' ?s = Inr root'" "ml_inclusion_proof l' (int i + 1) (Some ?s) = Inr pf'"
    "verify_inclusion root' ?s (int i) (ml_body_digests l' ! i) (Some pf')"
    using index_inclusion [OF assms(2) i assms(4,5)] by blast
  have "root' = root" using pf(1) pf'(1) assms(6) by simp
  moreover have "set (inclusion_queries ?s (int i) (ml_body_digests l ! i) pf) \<subseteq> audit_queries l n ?s"
    "set (inclusion_queries ?s (int i) (ml_body_digests l' ! i) pf') \<subseteq> audit_queries l' n ?s"
    using i pf(2) pf'(2) by (force simp: audit_queries_def)+
  ultimately have "ml_body_digests l ! i = ml_body_digests l' ! i"
    using pf(3) pf'(3) by (intro inclusion_binds [OF _ _ inj_on_subset [OF assms(7)]]) auto
  then show "take n (ml_body_digests l) ! i = take n (ml_body_digests l') ! i" using i by simp
qed (use assms in simp)

text \<open>
  C23. Rollback is detected: when an index emits a checkpoint on top of one that another state of the
  log emitted, then every record that state held is in the index, at the same place; a log that lost,
  replaced or reordered one raises instead. SHA-256 is assumed not to collide on the inclusion proofs of
  the records under the previous checkpoint.
\<close>

theorem rollback_is_detected:
  assumes "index_inv l" "index_inv l'" "ml_size l < MAX_MMR_SIZE"
    "emit_checkpoint l signer log_id prev t now = Inr p" "emit_checkpoint l' signer' log_id' (Some p) t' now' = Inr cp"
    "inj_on sha256 (audit_queries l (length (ml_body_digests l)) (ml_size l) \<union> audit_queries l' (length (ml_body_digests l)) (ml_size l))"
  shows "\<exists>more. more \<noteq> [] \<and> ml_body_digests l' = ml_body_digests l @ more"
proof -
  let ?n = "length (ml_body_digests l)"
  have s: "ml_size l = nodes_of (mountains ?n)" and s': "ml_size l' = nodes_of (mountains (length (ml_body_digests l')))"
    using index_size [OF assms(1)] index_size [OF assms(2)] by simp_all
  note p = emit_parts [OF assms(4)] and c = emit_parts(9) [OF assms(5) refl]
  have root: "root_hex l' (ml_size l) = Inr (ck_root p)" and lt: "ml_size l < ml_size l'"
    using c p(2) by (auto simp: check_prev_def bindR_eq_Inr split: if_splits)
  have n: "?n < length (ml_body_digests l')"
  proof (rule ccontr)
    assume "\<not> ?thesis"
    then have "ml_size l' \<le> ml_size l" unfolding s s' by (intro nodes_of_mountains_mono) simp
    with lt show False by simp
  qed
  have "root_at l (nodes_of (mountains ?n)) = root_at l' (nodes_of (mountains ?n))"
    using root p(3) unfolding s by (auto simp: root_hex_def root_at_def bindR_eq_Inr) (metis hex_text_inject)
  then have "take ?n (ml_body_digests l) = take ?n (ml_body_digests l')"
    using assms(1-3,6) n s by (intro same_root_same_leaves) simp_all
  then have "ml_body_digests l' = ml_body_digests l @ drop ?n (ml_body_digests l')"
    by (metis append_take_drop_id take_all order_refl)
  moreover have "drop ?n (ml_body_digests l') \<noteq> []" using n by simp
  ultimately show ?thesis by blast
qed

theorem rollback_is_detected_witness:
  "\<exists>(l :: unit MmrLedger) (l' :: unit MmrLedger) p cp more. emit_checkpoint l echo_signer [] None None 0 = Inr p \<and>
     emit_checkpoint l' echo_signer [] (Some p) None 0 = Inr cp \<and> more \<noteq> [] \<and> ml_body_digests l' = ml_body_digests l @ more"
proof -
  obtain l l' :: "unit MmrLedger" where l: "index_inv l" "index_inv l'" "extends l l'" "ml_body_digests l = [replicate 32 7]"
    "ml_body_digests l' = [replicate 32 7, replicate 32 8]" "ml_size l = 1" "1 < ml_size l'" "ml_size l' < MAX_MMR_SIZE"
    by (rule two_leaf_index)
  obtain p cp where e: "emit_checkpoint l echo_signer [] None None 0 = Inr p" "emit_checkpoint l' echo_signer [] (Some p) None 0 = Inr cp"
    using honest_checkpoints [OF l(1-3) _ _ l(8) echo_signs, of "[]" None 0 None 0] l(6,7) by auto
  have "audit_queries l 1 1 = {0 # replicate 32 7}" "audit_queries l' 1 1 = {0 # replicate 32 7}"
    using l(4-7) by (simp_all add: audit_queries_def bare_index_proof bare_proofs lessThan_Suc)
  then have "inj_on sha256 (audit_queries l (length (ml_body_digests l)) (ml_size l) \<union> audit_queries l' (length (ml_body_digests l)) (ml_size l))"
    by (simp add: l(4,6))
  then have "\<exists>more. more \<noteq> [] \<and> ml_body_digests l' = ml_body_digests l @ more"
    using l(6,7,8) by (intro rollback_is_detected [OF l(1,2) _ e]) simp_all
  with e show ?thesis by blast
qed

end
