(* ===== verification/Checkpoint_Stamps.thy ===== *)
theory Checkpoint_Stamps
  imports Checkpoint_Record Ed25519_Checks
begin

text \<open>
  Registration of a checkpoint with a witness, the in-process stub, and the verdict on a witness stamp
  (\<^verbatim>\<open>cll/checkpoint/emit.py\<close>). The witness's answer to the POST is an argument; so are the packages
  (\<open>CryptoLib\<close>). \<^verbatim>\<open>scitt_cose\<close> is taken to be installed. The messages that go with a verdict are
  not modelled.
\<close>

datatype Grade = SELF_ATTESTED | WITNESSED

datatype StampVerdict = StampWitnessed | StampUnverified | StampInvalid

section \<open>Registration\<close>

text \<open>What \<^verbatim>\<open>urlopen\<close> does: return a response body, raise \<^verbatim>\<open>HTTPError\<close> with a status and a body, or
  raise something else.\<close>

datatype HttpReply = HttpBody bytes | HttpStatus int bytes | HttpRaises py_error

text \<open>\<^verbatim>\<open>WitnessContinuityRefused\<close> with the witness's own view.\<close>

record Continuity =
  cr_size :: int
  cr_root :: pytext
  cr_code :: "pytext option"

datatype register_error = ContinuityRefused Continuity | RegisterError py_error

definition continuity_refusal :: "pytext \<Rightarrow> Continuity option" where
  "continuity_refusal body =
     (case parse_json body of
        Some (JObj ms) \<Rightarrow>
          (case map_of ms (text_of ''detail'') of
             Some (JObj detail) \<Rightarrow>
               (case (map_of detail (text_of ''last_accepted_mmr_size''), map_of detail (text_of ''last_accepted_root'')) of
                  (Some (JInt sz), Some (JStr root)) \<Rightarrow>
                    Some \<lparr>cr_size = sz, cr_root = root,
                      cr_code = (case map_of detail (text_of ''code'') of Some (JStr c) \<Rightarrow> Some c | _ \<Rightarrow> None)\<rparr>
                | _ \<Rightarrow> None)
           | _ \<Rightarrow> None)
      | _ \<Rightarrow> None)"

text \<open>\<open>http_post url body\<close> is the exchange; \<open>replace\<close> is \<^verbatim>\<open>bytes.decode(errors="replace")\<close> on bytes that
  are not UTF-8.\<close>

definition decode_replace :: "(bytes \<Rightarrow> pytext) \<Rightarrow> bytes \<Rightarrow> pytext" where
  "decode_replace replace b = (case utf8_decode (map unat b) of Some t \<Rightarrow> t | None \<Rightarrow> replace b)"

definition rstrip_slash :: "pytext \<Rightarrow> pytext" where
  "rstrip_slash url = rev (dropWhile (\<lambda>c. c = 47) (rev url))"

definition register_checkpoint ::
  "(json \<Rightarrow> int res) \<Rightarrow> (bytes \<Rightarrow> pytext) \<Rightarrow> (pytext \<Rightarrow> bytes \<Rightarrow> HttpReply) \<Rightarrow> bytes \<Rightarrow> pytext \<Rightarrow>
   register_error + WitnessRecord" where
  "register_checkpoint int_of_text replace http_post checkpoint_cose ts_url =
     (case http_post (rstrip_slash ts_url @ text_of ''/checkpoints'') checkpoint_cose of
        HttpRaises e \<Rightarrow> Inl (RegisterError e)
      | HttpStatus code reply \<Rightarrow>
          (case (if code = 409 then continuity_refusal (decode_replace replace reply) else None) of
             Some refused \<Rightarrow> Inl (ContinuityRefused refused)
           | None \<Rightarrow> Inl (RegisterError CheckpointError))
      | HttpBody reply \<Rightarrow>
          (case bindR (loads reply) (\<lambda>body.
             bindR (as_object TypeError body) (\<lambda>d.
             bindR (bindR (required KeyError ''entry_hash'' d) (as_string TypeError)) (\<lambda>entry_hash.
             bindR (bindR (required KeyError ''receipt_b64'' d) (as_string TypeError)) (\<lambda>receipt_b64.
             bindR (bindR (required KeyError ''leaf_index'' d) (py_int int_of_text)) (\<lambda>leaf_index.
             bindR (bindR (required KeyError ''tree_size'' d) (py_int int_of_text)) (\<lambda>tree_size.
             Inr \<lparr>wi_ts_url = ts_url, wi_entry_hash = entry_hash, wi_receipt_b64 = receipt_b64,
               wi_leaf_index = leaf_index, wi_tree_size = tree_size, wi_is_stub = False\<rparr>)))))) of
             Inl e \<Rightarrow> Inl (RegisterError e)
           | Inr w \<Rightarrow> Inr w))"

section \<open>The stub\<close>

text \<open>\<^verbatim>\<open>json.dumps\<close> with its default separators.\<close>

definition join_spaced :: "pytext list \<Rightarrow> pytext" where
  "join_spaced ps = (case ps of [] \<Rightarrow> [] | p # qs \<Rightarrow> p @ concat (map (\<lambda>q. 44 # 32 # q) qs))"

fun print_spaced :: "json \<Rightarrow> pytext" where
  "print_spaced (JArr vs) = 91 # join_spaced (map print_spaced vs) @ [93]"
| "print_spaced (JObj ms) = 123 # join_spaced (map (\<lambda>(k, v). print_string_with escape_ascii k @ 58 # 32 # print_spaced v) ms) @ [125]"
| "print_spaced v = print_ascii v"

definition STUB_TS_URL :: pytext where "STUB_TS_URL = text_of ''stub://local''"
definition STUB_MARKER :: pytext where "STUB_MARKER = text_of ''cll-stub''"

definition stub_note :: pytext where
  "stub_note = text_of (''not a real COSE Receipt -- CAPSULE_WITNESS=stub was set; '' @
     ''this checkpoint was never sent to a Transparency Service'')"

definition stub_receipt :: "pytext \<Rightarrow> pytext" where
  "stub_receipt dg = print_spaced (sort_json (JObj
     [(STUB_MARKER, JBool True), (text_of ''crit'', JArr [JStr STUB_MARKER]),
      (text_of ''note'', JStr stub_note), (text_of ''digest'', JStr dg)]))"

definition digest_entry_hash :: "CheckpointRecord \<Rightarrow> pytext res" where
  "digest_entry_hash c = bindR (fromhex_text (cp_digest c)) (\<lambda>d. Inr (hex_text (sha256 d)))"

definition register_checkpoint_stub :: "CheckpointRecord \<Rightarrow> pytext option \<Rightarrow> WitnessRecord res" where
  "register_checkpoint_stub c ts_url =
     bindR (digest_entry_hash c) (\<lambda>entry_hash.
     Inr \<lparr>wi_ts_url = (case ts_url of None \<Rightarrow> STUB_TS_URL | Some u \<Rightarrow> if u = [] then STUB_TS_URL else u),
       wi_entry_hash = entry_hash,
       wi_receipt_b64 = encode_bytes (ascii_bytes (stub_receipt (cp_digest c))),
       wi_leaf_index = - 1, wi_tree_size = - 1, wi_is_stub = True\<rparr>)"

section \<open>The verdict on a stamp\<close>

definition stamp_tristate ::
  "('a, 'n) CryptoLib \<Rightarrow> CheckpointRecord \<Rightarrow> WitnessRecord \<Rightarrow> bytes option \<Rightarrow> StampVerdict" where
  "stamp_tristate lib c w ts_pubkey_pem =
     (case digest_entry_hash c of
        Inl _ \<Rightarrow> StampInvalid
      | Inr expected_entry_hash \<Rightarrow>
          if wi_entry_hash w \<noteq> expected_entry_hash then StampInvalid
          else case b64_decode (wi_receipt_b64 w) of
            None \<Rightarrow> StampInvalid
          | Some receipt \<Rightarrow>
              (case ts_pubkey_pem of
                 Some pem \<Rightarrow>
                   (case verify_receipt lib (map of_nat receipt) (wi_entry_hash w) pem of
                      Inl _ \<Rightarrow> StampInvalid
                    | Inr result \<Rightarrow> if rr_ok result then StampWitnessed else StampInvalid)
               | None \<Rightarrow>
                   (case verify_receipt lib (map of_nat receipt) (wi_entry_hash w) (lib_probe_pem lib) of
                      Inl _ \<Rightarrow> StampInvalid
                    | Inr probe \<Rightarrow> if rr_failed_at probe \<noteq> Some ''signature'' then StampInvalid else StampUnverified)))"

definition verify_stamp_offline ::
  "('a, 'n) CryptoLib \<Rightarrow> CheckpointRecord \<Rightarrow> WitnessRecord \<Rightarrow> bytes option \<Rightarrow> bool" where
  "verify_stamp_offline lib c w ts_pubkey_pem = (stamp_tristate lib c w ts_pubkey_pem = StampWitnessed)"

definition grade :: "('a, 'n) CryptoLib \<Rightarrow> CheckpointRecord \<Rightarrow> bytes option \<Rightarrow> Grade" where
  "grade lib c ts_pubkey_pem =
     (if list_ex (\<lambda>w. \<not> wi_is_stub w \<and> verify_stamp_offline lib c w ts_pubkey_pem) (ck_witnesses c)
      then WITNESSED else SELF_ATTESTED)"

section \<open>What a stamp proves\<close>

definition stamp_of :: "CheckpointRecord \<Rightarrow> pytext" where
  "stamp_of c = hex_text (sha256 (sha256 (signed_bytes c)))"

lemma digest_entry_hash_eq: "digest_entry_hash c = Inr (stamp_of c)"
  by (simp add: digest_entry_hash_def cp_digest_def stamp_of_def signed_bytes_def)

text \<open>A receipt as \<^verbatim>\<open>verify_receipt\<close> accepts it under a key: the package accepts it, and for an Ed25519
  key the signature passes the additional checks.\<close>

definition receipt_accepted :: "('a, 'n) CryptoLib \<Rightarrow> bytes \<Rightarrow> pytext \<Rightarrow> bytes \<Rightarrow> bool" where
  "receipt_accepted lib receipt leaf pem \<longleftrightarrow>
     (\<exists>r. lib_scitt_verify lib receipt leaf pem = Inr r \<and> rr_ok r) \<and>
     (case lib_raw_key lib pem of Inl _ \<Rightarrow> False | Inr None \<Rightarrow> True
      | Inr (Some key) \<Rightarrow> acceptable_signature key (cose_sign1_signature lib receipt))"

lemma verify_receipt_ok:
  "(\<exists>r. verify_receipt lib receipt leaf pem = Inr r \<and> rr_ok r) \<longleftrightarrow> receipt_accepted lib receipt leaf pem"
proof (cases "lib_scitt_verify lib receipt leaf pem")
  case (Inl e)
  then show ?thesis by (simp add: verify_receipt_def receipt_accepted_def)
next
  case (Inr r)
  have "\<not> acceptable_signature [] s" for s by (auto simp: acceptable_signature_def split: option.splits)
  then show ?thesis using Inr
    by (auto simp: verify_receipt_def receipt_accepted_def Let_def split: sum.splits option.splits)
qed

text \<open>
  C24. The grade \<^verbatim>\<open>WITNESSED\<close> means exactly this: the caller supplied a key, and some stamp that is not a
  stub is bound to this checkpoint (its entry hash is the hash of the checkpoint's digest), decodes, and
  is a receipt accepted under that key with a canonical, not small-order signature. So neither a stub, nor
  a stamp of another checkpoint, nor any list of stamps without a supplied key reaches the grade.
\<close>

theorem grade_witnessed_iff:
  "grade lib c key = WITNESSED \<longleftrightarrow>
     (\<exists>w\<in>set (ck_witnesses c). \<not> wi_is_stub w \<and> wi_entry_hash w = hex_text (sha256 (sha256 (signed_bytes c))) \<and>
       (\<exists>pem receipt. key = Some pem \<and> b64_decode (wi_receipt_b64 w) = Some receipt \<and>
         receipt_accepted lib (map of_nat receipt) (wi_entry_hash w) pem))"
proof -
  have "verify_stamp_offline lib c w key \<longleftrightarrow> wi_entry_hash w = stamp_of c \<and>
      (\<exists>pem receipt. key = Some pem \<and> b64_decode (wi_receipt_b64 w) = Some receipt \<and>
         receipt_accepted lib (map of_nat receipt) (wi_entry_hash w) pem)" for w
    unfolding verify_stamp_offline_def stamp_tristate_def digest_entry_hash_eq verify_receipt_ok [symmetric]
    by (auto split: option.splits sum.splits)
  then show ?thesis by (auto simp: grade_def list_ex_iff stamp_of_def)
qed

text \<open>
  C25. A stamp stays with its checkpoint: when a stamp is witnessed, or passes as unverified, for two
  checkpoints, the two agree on every signed field, unless SHA-256 collides on what is hashed.
\<close>

theorem stamp_binds_checkpoint:
  assumes "stamp_tristate lib c w key \<noteq> StampInvalid" "stamp_tristate lib' d w key' \<noteq> StampInvalid" "cp_scalar c" "cp_scalar d"
    "inj_on sha256 {signed_bytes c, signed_bytes d}" "inj_on sha256 {sha256 (signed_bytes c), sha256 (signed_bytes d)}"
  shows "c\<lparr>ck_signature := [], ck_witnesses := []\<rparr> = d\<lparr>ck_signature := [], ck_witnesses := []\<rparr>"
proof -
  have "wi_entry_hash w = stamp_of c" "wi_entry_hash w = stamp_of d"
    using assms(1,2) by (auto simp: stamp_tristate_def digest_entry_hash_eq split: if_splits)
  then have "sha256 (sha256 (signed_bytes c)) = sha256 (sha256 (signed_bytes d))" by (simp add: stamp_of_def)
  then have "sha256 (signed_bytes c) = sha256 (signed_bytes d)" using assms(6) by (auto dest: inj_onD)
  then have "cp_digest c = cp_digest d" by (simp add: cp_digest_def signed_bytes_def)
  then show ?thesis by (rule same_digest [OF assms(3-5)])
qed

theorem stamp_binds_checkpoint_witness:
  "genesis_record\<lparr>ck_signature := [], ck_witnesses := []\<rparr> = genesis_record\<lparr>ck_signature := [48], ck_witnesses := []\<rparr>\<lparr>ck_signature := []\<rparr> \<and>
   stamp_tristate \<lparr>lib_ed_verify = \<lambda>_ _ _. Inl LibraryError, lib_raw_key = \<lambda>_. Inr None,
     lib_scitt_verify = \<lambda>_ _ _. Inr \<lparr>rr_ok = True, rr_failed_at = None, rr_leaf_index = None, rr_tree_size = None\<rparr>, lib_probe_pem = [], lib_cbor2 = \<lambda>_. Inl LibraryError,
     lib_canon = \<lambda>a :: unit. a, lib_bytes = \<lambda>_. None, lib_frames = 1\<rparr> genesis_record
     \<lparr>wi_ts_url = [], wi_entry_hash = stamp_of genesis_record, wi_receipt_b64 = [], wi_leaf_index = 0, wi_tree_size = 1, wi_is_stub = False\<rparr>
     (Some []) = StampWitnessed"
proof -
  let ?lib = "\<lparr>lib_ed_verify = \<lambda>_ _ _. Inl LibraryError, lib_raw_key = \<lambda>_. Inr None,
     lib_scitt_verify = \<lambda>_ _ _. Inr \<lparr>rr_ok = True, rr_failed_at = None, rr_leaf_index = None, rr_tree_size = None\<rparr>, lib_probe_pem = [], lib_cbor2 = \<lambda>_. Inl LibraryError,
     lib_canon = \<lambda>a :: unit. a, lib_bytes = \<lambda>_. None, lib_frames = 1\<rparr>"
  let ?w = "\<lparr>wi_ts_url = [], wi_entry_hash = stamp_of genesis_record, wi_receipt_b64 = [], wi_leaf_index = 0, wi_tree_size = 1, wi_is_stub = False\<rparr>"
  let ?d = "genesis_record\<lparr>ck_signature := [48], ck_witnesses := []\<rparr>"
  have sb: "signed_bytes ?d = signed_bytes genesis_record"
    by (simp add: signed_bytes_def signing_body_def signing_dict_def)
  then have st: "stamp_of ?d = stamp_of genesis_record" by (simp add: stamp_of_def)
  have v: "stamp_tristate ?lib genesis_record ?w (Some []) = StampWitnessed" "stamp_tristate ?lib ?d ?w (Some []) = StampWitnessed"
    by (simp_all add: stamp_tristate_def digest_entry_hash_eq verify_receipt_def Let_def st)
  have sc: "cp_scalar ?d" using genesis_scalar by (simp add: cp_scalar_def) (simp add: scalar_text_def)
  have inj: "inj_on sha256 {signed_bytes genesis_record, signed_bytes ?d}"
    "inj_on sha256 {sha256 (signed_bytes genesis_record), sha256 (signed_bytes ?d)}" by (simp_all add: sb)
  show ?thesis using stamp_binds_checkpoint [of ?lib genesis_record ?w "Some []" ?lib ?d "Some []"] v genesis_scalar sc inj by simp
qed

end
