(* ===== verification/Cose_Wire.thy ===== *)
theory Cose_Wire
  imports Checkpoint_Emit
begin

text \<open>
  The wire form of a checkpoint (\<^verbatim>\<open>cll/checkpoint/cose_wire.py\<close>): the CBOR claims map of a record with
  the peak lists as commitments, its COSE statement, and the offline verification that reads the key
  from the statement itself and checks the consistency proof it carries. Lemmas: what a verified
  statement says, the claims map read back, and the statements an index produces.
\<close>

section \<open>CBOR values and the libraries\<close>

text \<open>
  The values \<^verbatim>\<open>cbor2\<close> returns that are not lists, maps, sets, tags or NaN. \<open>COther\<close> holds every other
  Python value (other floats, dates, decimals and so on).
\<close>

datatype 'x cbor_atom =
    CInt int
  | CBytes bytes
  | CText pytext
  | CBool bool
  | CNull
  | COther 'x

type_synonym 'x cval = "'x cbor_atom pyval"

text \<open>What \<^verbatim>\<open>scitt_cose.parse_signed_statement\<close> returns, as far as it is read.\<close>

record SignedStatement =
  st_signature_verified :: bool
  st_content_type :: pytext
  st_payload :: bytes
  st_issuer :: "pytext option"
  st_subject :: "pytext option"

text \<open>
  \<open>lib_strict_decode\<close> and \<open>lib_parse_statement\<close> are \<^verbatim>\<open>scitt_cose\<close>'s functions of these names (the second
  takes the statement and a PEM key), \<open>lib_key_pem\<close> is \<^verbatim>\<open>_ed25519_pubkey_pem\<close>, \<open>lib_dumps\<close> is
  \<^verbatim>\<open>cbor2.dumps(..., canonical=True)\<close>. The rest says what Python's \<^verbatim>\<open>bytes()\<close>, iteration and truth give on
  the values in \<open>COther\<close>, and \<^verbatim>\<open>int()\<close> on them and on texts and byte strings.
\<close>

record ('x, 'n) CoseLib = "('x cbor_atom, 'n) CryptoLib" +
  lib_strict_decode :: "bytes \<Rightarrow> 'x cval res"
  lib_parse_statement :: "bytes \<Rightarrow> bytes \<Rightarrow> SignedStatement res"
  lib_key_pem :: "bytes \<Rightarrow> bytes res"
  lib_dumps :: "'x cval \<Rightarrow> bytes res"
  lib_bytes_of :: "'x \<Rightarrow> bytes res"
  lib_iter_of :: "'x \<Rightarrow> 'x cval list res"
  lib_int_of :: "'x cbor_atom \<Rightarrow> int res"
  lib_truth :: "'x \<Rightarrow> bool"

definition lib_loads :: "('x, 'n) CoseLib \<Rightarrow> bytes \<Rightarrow> 'x cval res" where
  "lib_loads lib = cbor_loads (lib_frames lib) (lib_cbor2 lib) (lib_canon lib)"

definition bytes_value :: "bytes \<Rightarrow> 'x cval" where
  "bytes_value b = VAtom (CBytes b)"

definition text_value :: "pytext \<Rightarrow> 'x cval" where
  "text_value t = VAtom (CText t)"

definition int_value :: "int \<Rightarrow> 'x cval" where
  "int_value n = VAtom (CInt n)"

lemmas value_defs = bytes_value_def text_value_def int_value_def

subsection \<open>Python conversions of a decoded value\<close>

fun byte_of :: "'x cval \<Rightarrow> byte res" where
  "byte_of (VAtom (CInt n)) = (if 0 \<le> n \<and> n < 256 then Inr (of_int n) else Inl ValueError)"
| "byte_of (VAtom (CBool b)) = Inr (if b then 1 else 0)"
| "byte_of _ = Inl TypeError"

text \<open>\<^verbatim>\<open>bytes(v)\<close>: an integer gives that many zero bytes, an iterable of integers their bytes.\<close>

fun py_bytes :: "('x, 'n) CoseLib \<Rightarrow> 'x cval \<Rightarrow> bytes res" where
  "py_bytes lib (VAtom (CBytes b)) = Inr b"
| "py_bytes lib (VAtom (CInt n)) =
     (if n < 0 then Inl ValueError else if n \<ge> 2 ^ 63 then Inl OverflowError else Inr (replicate (nat n) 0))"
| "py_bytes lib (VAtom (CBool b)) = Inr (replicate (if b then 1 else 0) 0)"
| "py_bytes lib (VAtom (COther x)) = lib_bytes_of lib x"
| "py_bytes lib (VList vs) = mapR byte_of vs"
| "py_bytes lib (VSet vs) = mapR byte_of vs"
| "py_bytes lib (VDict kvs) = mapR byte_of (map fst kvs)"
| "py_bytes lib _ = Inl TypeError"

fun py_iter :: "('x, 'n) CoseLib \<Rightarrow> 'x cval \<Rightarrow> 'x cval list res" where
  "py_iter lib (VList vs) = Inr vs"
| "py_iter lib (VSet vs) = Inr vs"
| "py_iter lib (VDict kvs) = Inr (map fst kvs)"
| "py_iter lib (VAtom (CBytes b)) = Inr (map (\<lambda>x. int_value (int (unat x))) b)"
| "py_iter lib (VAtom (CText t)) = Inr (map (\<lambda>c. text_value [c]) t)"
| "py_iter lib (VAtom (COther x)) = lib_iter_of lib x"
| "py_iter lib _ = Inl TypeError"

fun py_int_of :: "('x, 'n) CoseLib \<Rightarrow> 'x cval \<Rightarrow> int res" where
  "py_int_of lib (VAtom (CInt n)) = Inr n"
| "py_int_of lib (VAtom (CBool b)) = Inr (if b then 1 else 0)"
| "py_int_of lib (VAtom CNull) = Inl TypeError"
| "py_int_of lib (VAtom a) = lib_int_of lib a"
| "py_int_of lib VNaN = Inl ValueError"
| "py_int_of lib _ = Inl TypeError"

fun py_truth :: "('x, 'n) CoseLib \<Rightarrow> 'x cval \<Rightarrow> bool" where
  "py_truth lib (VAtom (CInt n)) = (n \<noteq> 0)"
| "py_truth lib (VAtom (CBytes b)) = (b \<noteq> [])"
| "py_truth lib (VAtom (CText t)) = (t \<noteq> [])"
| "py_truth lib (VAtom (CBool b)) = b"
| "py_truth lib (VAtom CNull) = False"
| "py_truth lib (VAtom (COther x)) = lib_truth lib x"
| "py_truth lib (VList vs) = (vs \<noteq> [])"
| "py_truth lib (VSet vs) = (vs \<noteq> [])"
| "py_truth lib (VDict kvs) = (kvs \<noteq> [])"
| "py_truth lib _ = True"

text \<open>\<^verbatim>\<open>d.get(name)\<close> for a text name: no value of another type equals a text.\<close>

definition claim :: "string \<Rightarrow> ('x cval \<times> 'x cval) list \<Rightarrow> 'x cval option" where
  "claim name kvs = map_of kvs (text_value (text_of name))"

section \<open>Encoding\<close>

definition CLL_CHECKPOINT_CONTENT_TYPE :: pytext where
  "CLL_CHECKPOINT_CONTENT_TYPE = text_of ''application/cll-checkpoint+cbor''"

definition WIRE_KIND :: pytext where
  "WIRE_KIND = text_of ''cll-checkpoint''"

definition consistency_proof_to_cbor :: "ConsistencyProof \<Rightarrow> 'x cval res" where
  "consistency_proof_to_cbor p =
     bindR (mapR from_hex (cp_old_peaks p)) (\<lambda>old_peaks.
     bindR (mapR (mapR from_hex) (cp_witness p)) (\<lambda>witness.
     bindR (mapR from_hex (cp_new_peaks p)) (\<lambda>new_peaks.
     Inr (VDict
       [(text_value (text_of ''size_a''), int_value (cp_size_a p)),
        (text_value (text_of ''size_b''), int_value (cp_size_b p)),
        (text_value (text_of ''old_peaks''), VList (map bytes_value old_peaks)),
        (text_value (text_of ''witness''), VList (map (\<lambda>w. VList (map bytes_value w)) witness)),
        (text_value (text_of ''new_peaks''), VList (map bytes_value new_peaks))]))))"

definition encode_prev_commitment :: "CheckpointRecord \<Rightarrow> bytes list option \<Rightarrow> bytes res" where
  "encode_prev_commitment cp prev_peak_hashes =
     (if ck_prev_size cp > 0 then
        (case prev_peak_hashes of None \<Rightarrow> Inl ValueError | Some prev_peaks \<Rightarrow>
          bindR (root_from_peaks prev_peaks) (\<lambda>bagged.
          bindR (fromhex_text (ck_prev_root cp)) (\<lambda>prev_root.
          if bagged \<noteq> prev_root then Inl ValueError else commitment_object prev_peaks)))
      else Inr [])"

definition encode_checkpoint_claims ::
  "CheckpointRecord \<Rightarrow> bytes list \<Rightarrow> bytes list option \<Rightarrow> ConsistencyProof option \<Rightarrow> int option \<Rightarrow> 'x cval res" where
  "encode_checkpoint_claims cp new_peak_hashes prev_peak_hashes consistency_prf cadence_seconds =
     (if (case consistency_prf of None \<Rightarrow> False | Some p \<Rightarrow> cp_size_a p \<noteq> ck_prev_size cp \<or> cp_size_b p \<noteq> ck_mmr_size cp)
      then Inl ValueError
      else
        bindR (root_from_peaks new_peak_hashes) (\<lambda>bagged.
        bindR (fromhex_text (ck_root cp)) (\<lambda>root.
        if bagged \<noteq> root then Inl ValueError
        else
          bindR (encode_prev_commitment cp prev_peak_hashes) (\<lambda>prev_commitment.
          bindR (commitment_object new_peak_hashes) (\<lambda>commitment.
          bindR (case consistency_prf of None \<Rightarrow> Inr [] | Some p \<Rightarrow>
            bindR (consistency_proof_to_cbor p) (\<lambda>v. Inr [(text_value (text_of ''consistency_proof''), v)])) (\<lambda>proof_claim.
          Inr (VDict (
            [(text_value (text_of ''kind''), text_value WIRE_KIND),
             (text_value (text_of ''log_size''), int_value (ck_mmr_size cp)),
             (text_value (text_of ''commitment''), bytes_value commitment),
             (text_value (text_of ''prev_size''), int_value (ck_prev_size cp)),
             (text_value (text_of ''prev_commitment''), bytes_value prev_commitment),
             (text_value (text_of ''issued_at''), text_value (ck_timestamp cp))] @
            (case cadence_seconds of None \<Rightarrow> [] | Some s \<Rightarrow> [(text_value (text_of ''cadence''), int_value s)]) @
            proof_claim))))))))"

text \<open>
  A signer as \<^verbatim>\<open>checkpoint_to_cose\<close> and the runner see it: the key id and, where the object has it,
  \<^verbatim>\<open>sign_cose_statement\<close> (payload, content type, issuer, subject).
\<close>

record CheckpointSigner =
  cs_key_id :: pytext
  cs_sign_cose_statement :: "(bytes \<Rightarrow> pytext \<Rightarrow> pytext \<Rightarrow> pytext \<Rightarrow> bytes res) option"

definition subject_of :: "pytext \<Rightarrow> int \<Rightarrow> pytext" where
  "subject_of log_id sz = log_id @ [35] @ dec_text sz"

definition checkpoint_to_cose ::
  "('x, 'n) CoseLib \<Rightarrow> CheckpointRecord \<Rightarrow> CheckpointSigner \<Rightarrow> bytes list \<Rightarrow> bytes list option \<Rightarrow>
   ConsistencyProof option \<Rightarrow> int option \<Rightarrow> bytes res" where
  "checkpoint_to_cose lib cp signer new_peak_hashes prev_peak_hashes consistency_prf cadence_seconds =
     (if ck_prev_size cp > 0 \<and> consistency_prf = None then Inl ValueError
      else if consistency_prf \<noteq> None \<and> ck_prev_size cp = 0 then Inl ValueError
      else
        bindR (encode_checkpoint_claims cp new_peak_hashes prev_peak_hashes consistency_prf cadence_seconds) (\<lambda>claims.
        bindR (lib_dumps lib claims) (\<lambda>payload.
        case cs_sign_cose_statement signer of None \<Rightarrow> Inl TypeError | Some sign_cose_statement \<Rightarrow>
          sign_cose_statement payload CLL_CHECKPOINT_CONTENT_TYPE (ck_log_id cp) (subject_of (ck_log_id cp) (ck_mmr_size cp)))))"

section \<open>Decoding\<close>

record DecodedCheckpointCose =
  dc_log_id :: pytext
  dc_mmr_size :: int
  dc_root :: pytext
  dc_new_peak_hashes :: "bytes list"
  dc_prev_size :: int
  dc_prev_root :: pytext
  dc_prev_peak_hashes :: "bytes list"
  dc_timestamp :: pytext
  dc_key_id :: pytext
  dc_cadence_seconds :: "int option"
  dc_consistency_proof :: "ConsistencyProof option"

definition to_checkpoint_record :: "DecodedCheckpointCose \<Rightarrow> CheckpointRecord" where
  "to_checkpoint_record d =
     \<lparr>ck_v = 1, ck_kind = text_of ''mmr_checkpoint'', ck_log_id = dc_log_id d, ck_mmr_size = dc_mmr_size d,
      ck_root = dc_root d, ck_prev_size = dc_prev_size d, ck_prev_root = dc_prev_root d, ck_key_id = dc_key_id d,
      ck_timestamp = dc_timestamp d, ck_signature = [], ck_witnesses = []\<rparr>"

text \<open>The \<^verbatim>\<open>try\<close> block of \<^verbatim>\<open>_consistency_proof_from_cbor\<close> and its handler.\<close>

definition value_error :: "py_error \<Rightarrow> py_error" where
  "value_error e = (if e = KeyError \<or> e = TypeError then ValueError else e)"

definition required_claim :: "string \<Rightarrow> ('x cval \<times> 'x cval) list \<Rightarrow> 'x cval res" where
  "required_claim name kvs = (case claim name kvs of None \<Rightarrow> Inl KeyError | Some v \<Rightarrow> Inr v)"

definition hex_list :: "('x, 'n) CoseLib \<Rightarrow> 'x cval \<Rightarrow> string list res" where
  "hex_list lib v = bindR (py_iter lib v) (mapR (\<lambda>h. bindR (py_bytes lib h) (\<lambda>b. Inr (to_hex b))))"

definition consistency_proof_from_cbor :: "('x, 'n) CoseLib \<Rightarrow> 'x cval \<Rightarrow> ConsistencyProof res" where
  "consistency_proof_from_cbor lib v =
     (case v of VDict d \<Rightarrow>
        (case
           bindR (bindR (required_claim ''old_peaks'' d) (hex_list lib)) (\<lambda>old_peaks.
           bindR (bindR (bindR (required_claim ''witness'' d) (py_iter lib)) (mapR (hex_list lib))) (\<lambda>witness.
           bindR (bindR (required_claim ''new_peaks'' d) (hex_list lib)) (\<lambda>new_peaks.
           bindR (bindR (required_claim ''size_a'' d) (py_int_of lib)) (\<lambda>size_a.
           bindR (bindR (required_claim ''size_b'' d) (py_int_of lib)) (\<lambda>size_b.
           Inr \<lparr>cp_v = 1, cp_kind = ''consistency'', cp_size_a = size_a, cp_size_b = size_b,
             cp_old_peaks = old_peaks, cp_witness = witness, cp_new_peaks = new_peaks\<rparr>)))))
         of Inl e \<Rightarrow> Inl (value_error e) | Inr p \<Rightarrow> Inr p)
      | _ \<Rightarrow> Inl ValueError)"

text \<open>\<^verbatim>\<open>_check_labels\<close>: an object without \<^verbatim>\<open>keys\<close> is not looked at.\<close>

fun label_ok :: "'x cval \<Rightarrow> bool" where
  "label_ok (VAtom (CInt _)) = True"
| "label_ok (VAtom (CText _)) = True"
| "label_ok _ = False"

definition check_labels :: "'x cval \<Rightarrow> unit res" where
  "check_labels header =
     (case header of VDict kvs \<Rightarrow> if list_all (\<lambda>kv. label_ok (fst kv)) kvs then Inr () else Inl ValueError
      | _ \<Rightarrow> Inr ())"

definition extract_kid :: "('x, 'n) CoseLib \<Rightarrow> bytes \<Rightarrow> bytes option res" where
  "extract_kid lib cose_bytes =
     bindR (lib_strict_decode lib cose_bytes) (\<lambda>value.
     bindR (lib_loads lib cose_bytes) (\<lambda>_.
     case value of
       VList [protected_bstr, unprotected, _, _] \<Rightarrow>
         bindR (check_labels unprotected) (\<lambda>_.
         if \<not> py_truth lib protected_bstr then Inr None
         else
           bindR (bindR (py_bytes lib protected_bstr) (lib_loads lib)) (\<lambda>protected.
           bindR (check_labels protected) (\<lambda>_.
           case protected of
             VDict kvs \<Rightarrow>
               bindR (case map_of kvs (int_value 15) of None \<Rightarrow> Inr () | Some cwt \<Rightarrow> check_labels cwt) (\<lambda>_.
               Inr (case map_of kvs (int_value 4) of Some (VAtom (CBytes kid)) \<Rightarrow> Some kid | _ \<Rightarrow> None))
           | _ \<Rightarrow> Inr None)))
     | _ \<Rightarrow> Inr None))"

fun peak_of :: "'x cval \<Rightarrow> bytes option" where
  "peak_of (VAtom (CBytes p)) = (if length p = 32 then Some p else None)"
| "peak_of _ = None"

definition decode_commitment :: "('x, 'n) CoseLib \<Rightarrow> bytes \<Rightarrow> bytes list res" where
  "decode_commitment lib raw =
     (case lib_loads lib raw of
        Inr (VList vs) \<Rightarrow> (case those (map peak_of vs) of None \<Rightarrow> Inl ValueError | Some pks \<Rightarrow> Inr pks)
      | _ \<Rightarrow> Inl ValueError)"

definition size_claim :: "'x cval option \<Rightarrow> int res" where
  "size_claim v = (case v of Some (VAtom (CInt n)) \<Rightarrow> if n < 0 then Inl ValueError else Inr n | _ \<Rightarrow> Inl ValueError)"

definition prev_claim :: "('x, 'n) CoseLib \<Rightarrow> 'x cval option \<Rightarrow> (bytes list \<times> pytext) res" where
  "prev_claim lib v =
     (case v of None \<Rightarrow> Inr ([], [])
      | Some c \<Rightarrow>
          if \<not> py_truth lib c then Inr ([], [])
          else (case c of
            VAtom (CBytes b) \<Rightarrow>
              bindR (decode_commitment lib b) (\<lambda>pks. bindR (root_from_peaks pks) (\<lambda>root. Inr (pks, hex_text root)))
          | _ \<Rightarrow> Inl ValueError))"

definition cadence_claim :: "'x cval option \<Rightarrow> int option res" where
  "cadence_claim v =
     (case v of None \<Rightarrow> Inr None | Some (VAtom CNull) \<Rightarrow> Inr None | Some (VAtom (CInt n)) \<Rightarrow> Inr (Some n)
      | _ \<Rightarrow> Inl ValueError)"

definition proof_claim :: "('x, 'n) CoseLib \<Rightarrow> int \<Rightarrow> int \<Rightarrow> 'x cval option \<Rightarrow> ConsistencyProof option res" where
  "proof_claim lib prev_size mmr_size v =
     (case v of None \<Rightarrow> Inr None | Some (VAtom CNull) \<Rightarrow> Inr None
      | Some raw_proof \<Rightarrow>
          bindR (consistency_proof_from_cbor lib raw_proof) (\<lambda>p.
          if cp_size_a p \<noteq> prev_size \<or> cp_size_b p \<noteq> mmr_size then Inl ValueError else Inr (Some p)))"

definition decode_claims ::
  "('x, 'n) CoseLib \<Rightarrow> 'x cval \<Rightarrow> pytext option \<Rightarrow> pytext option \<Rightarrow> pytext \<Rightarrow> DecodedCheckpointCose res" where
  "decode_claims lib claims issuer subject key_id =
     (case claims of VDict kvs \<Rightarrow>
        if claim ''kind'' kvs \<noteq> Some (text_value WIRE_KIND) then Inl ValueError
        else if issuer = None \<or> issuer = Some [] then Inl ValueError
        else
          bindR (size_claim (claim ''log_size'' kvs)) (\<lambda>mmr_size.
          bindR (size_claim (claim ''prev_size'' kvs)) (\<lambda>prev_size.
          bindR (case claim ''commitment'' kvs of Some (VAtom (CBytes c)) \<Rightarrow> decode_commitment lib c | _ \<Rightarrow> Inl ValueError)
            (\<lambda>new_peak_hashes.
          bindR (root_from_peaks new_peak_hashes) (\<lambda>root.
          bindR (prev_claim lib (claim ''prev_commitment'' kvs)) (\<lambda>(prev_peak_hashes, prev_root).
          bindR (case claim ''issued_at'' kvs of Some (VAtom (CText t)) \<Rightarrow> Inr t | _ \<Rightarrow> Inl ValueError) (\<lambda>issued_at.
          if subject \<noteq> Some (subject_of (the issuer) mmr_size) then Inl ValueError
          else
            bindR (cadence_claim (claim ''cadence'' kvs)) (\<lambda>cadence.
            bindR (proof_claim lib prev_size mmr_size (claim ''consistency_proof'' kvs)) (\<lambda>consistency_prf.
            Inr \<lparr>dc_log_id = the issuer, dc_mmr_size = mmr_size, dc_root = hex_text root,
              dc_new_peak_hashes = new_peak_hashes, dc_prev_size = prev_size, dc_prev_root = prev_root,
              dc_prev_peak_hashes = prev_peak_hashes, dc_timestamp = issued_at, dc_key_id = key_id,
              dc_cadence_seconds = cadence, dc_consistency_proof = consistency_prf\<rparr>))))))))
      | _ \<Rightarrow> Inl ValueError)"

section \<open>Offline verification\<close>

record CoseCheckpointVerification =
  cv_ok :: bool
  cv_decoded :: "DecodedCheckpointCose option"
  cv_errors :: "string list"

text \<open>The function collects one error at most and returns there: a step that raises, or a check that
  fails, is \<open>Inl\<close> with a word for its message.\<close>

definition report :: "string \<Rightarrow> 'a res \<Rightarrow> string + 'a" where
  "report msg m = (case m of Inl _ \<Rightarrow> Inl msg | Inr x \<Rightarrow> Inr x)"

definition require :: "string \<Rightarrow> bool \<Rightarrow> string + unit" where
  "require msg b = (if b then Inr () else Inl msg)"

definition check_continuity :: "DecodedCheckpointCose \<Rightarrow> string + unit" where
  "check_continuity d =
     (case dc_consistency_proof d of
        Some p \<Rightarrow>
          bindR (report ''hex'' (fromhex_text (dc_prev_root d))) (\<lambda>root_a.
          bindR (report ''hex'' (fromhex_text (dc_root d))) (\<lambda>root_b.
          require ''consistency'' (verify_consistency root_a (dc_prev_size d) root_b (dc_mmr_size d) (Some p))))
      | None \<Rightarrow> require ''continuity'' (dc_prev_size d = 0))"

definition verify_steps :: "('x, 'n) CoseLib \<Rightarrow> bytes \<Rightarrow> string + DecodedCheckpointCose" where
  "verify_steps lib cose_bytes =
     bindR (report ''kid'' (extract_kid lib cose_bytes)) (\<lambda>found.
     case found of None \<Rightarrow> Inl ''no kid'' | Some kid \<Rightarrow>
       bindR (require ''no kid'' (length kid = 32)) (\<lambda>_.
       bindR (require ''signature'' (acceptable_signature kid (cose_sign1_signature (CryptoLib.truncate lib) cose_bytes))) (\<lambda>_.
       bindR (report ''key'' (lib_key_pem lib kid)) (\<lambda>pem.
       bindR (report ''parse'' (lib_parse_statement lib cose_bytes pem)) (\<lambda>st.
       bindR (require ''signature'' (st_signature_verified st)) (\<lambda>_.
       bindR (require ''content type'' (st_content_type st = CLL_CHECKPOINT_CONTENT_TYPE)) (\<lambda>_.
       bindR (report ''payload'' (lib_loads lib (st_payload st))) (\<lambda>claims.
       bindR (report ''claims'' (decode_claims lib claims (st_issuer st) (st_subject st) (hex_text kid))) (\<lambda>d.
       bindR (check_continuity d) (\<lambda>_. Inr d))))))))))"

definition verify_checkpoint_cose_offline :: "('x, 'n) CoseLib \<Rightarrow> bytes \<Rightarrow> CoseCheckpointVerification" where
  "verify_checkpoint_cose_offline lib cose_bytes =
     (case verify_steps lib cose_bytes of
        Inl msg \<Rightarrow> \<lparr>cv_ok = False, cv_decoded = None, cv_errors = [msg]\<rparr>
      | Inr d \<Rightarrow> \<lparr>cv_ok = True, cv_decoded = Some d, cv_errors = []\<rparr>)"

section \<open>What a verified statement says\<close>

lemma report_Inr [simp]: "report msg m = Inr x \<longleftrightarrow> m = Inr x"
  by (auto simp: report_def split: sum.splits)

lemma require_Inr [simp]: "require msg b = Inr u \<longleftrightarrow> b"
  by (simp add: require_def)

lemma check_continuityD:
  assumes "check_continuity d = Inr u"
  shows "dc_prev_size d = 0 \<and> dc_consistency_proof d = None \<or>
    (\<exists>p root_a root_b. dc_consistency_proof d = Some p \<and> fromhex_text (dc_prev_root d) = Inr root_a \<and>
       fromhex_text (dc_root d) = Inr root_b \<and> verify_consistency root_a (dc_prev_size d) root_b (dc_mmr_size d) (Some p))"
  using assms by (auto simp: check_continuity_def bindR_eq_Inr split: option.splits)

lemma verify_steps_iff:
  "verify_steps lib b = Inr d \<longleftrightarrow>
     (\<exists>kid pem st claims. extract_kid lib b = Inr (Some kid) \<and> length kid = 32 \<and>
        acceptable_signature kid (cose_sign1_signature (CryptoLib.truncate lib) b) \<and> lib_key_pem lib kid = Inr pem \<and>
        lib_parse_statement lib b pem = Inr st \<and> st_signature_verified st \<and> st_content_type st = CLL_CHECKPOINT_CONTENT_TYPE \<and>
        lib_loads lib (st_payload st) = Inr claims \<and>
        decode_claims lib claims (st_issuer st) (st_subject st) (hex_text kid) = Inr d \<and> check_continuity d = Inr ())"
  unfolding verify_steps_def
  by (auto simp only: bindR_eq_Inr report_Inr require_Inr option.case split: option.splits) auto

lemma verified_steps: "cv_decoded (verify_checkpoint_cose_offline lib b) = Some d \<longleftrightarrow> verify_steps lib b = Inr d"
  "cv_ok (verify_checkpoint_cose_offline lib b) \<longleftrightarrow> (\<exists>d. verify_steps lib b = Inr d)"
  by (auto simp: verify_checkpoint_cose_offline_def split: sum.splits)

section \<open>A verified statement extends the log\<close>

lemma consistency_extends:
  assumes inv: "index_inv l" "index_inv l'" and small: "ml_size l < MAX_MMR_SIZE" "ml_size l' < MAX_MMR_SIZE"
    and root: "root_at l (ml_size l) = Inr root_a" "root_at l' (ml_size l') = Inr root_b"
    and vc: "verify_consistency root_a (ml_size l) root_b (ml_size l') (Some p)"
    and inj: "inj_on sha256 (audit_queries l (length (ml_body_digests l)) (ml_size l) \<union>
       audit_queries l' (length (ml_body_digests l)) (ml_size l') \<union> set (consistency_queries (ml_size l) (ml_size l') p))"
  shows "\<exists>more. ml_body_digests l' = ml_body_digests l @ more"
proof -
  let ?n = "length (ml_body_digests l)" and ?m = "length (ml_body_digests l')"
  have s: "ml_size l = nodes_of (mountains ?n)" "ml_size l' = nodes_of (mountains ?m)"
    using index_size inv by auto
  have "ml_size l \<le> ml_size l'" using vc by (elim verify_consistencyD)
  then have n: "?n \<le> ?m" using small(2) unfolding s by (rule mountains_size_le)
  have "take ?n (ml_body_digests l') = ml_body_digests l"
  proof (rule nth_equalityI)
    fix i assume "i < length (take ?n (ml_body_digests l'))"
    then have i: "i < ?n" "i < ?m" by simp_all
    obtain pa where pa: "ml_inclusion_proof l (int i + 1) (Some (ml_size l)) = Inr pa"
      "verify_inclusion root_a (ml_size l) (int i) (ml_body_digests l ! i) (Some pa)"
      using index_inclusion [OF inv(1) i(1) order_refl] small(1) root(1) by (auto simp flip: s)
    obtain pb where pb: "ml_inclusion_proof l' (int i + 1) (Some (ml_size l')) = Inr pb"
      "verify_inclusion root_b (ml_size l') (int i) (ml_body_digests l' ! i) (Some pb)"
      using index_inclusion [OF inv(2) i(2) order_refl] small(2) root(2) by (auto simp flip: s)
    have "set (inclusion_queries (ml_size l) (int i) (ml_body_digests l ! i) pa) \<subseteq> audit_queries l ?n (ml_size l)"
      "set (inclusion_queries (ml_size l') (int i) (ml_body_digests l' ! i) pb) \<subseteq> audit_queries l' ?n (ml_size l')"
      using i pa(1) pb(1) by (force simp: audit_queries_def)+
    then have "ml_body_digests l ! i = ml_body_digests l' ! i"
      by (intro consistency_binds [OF pa(2) vc pb(2) inj_on_subset [OF inj]]) auto
    then show "take ?n (ml_body_digests l') ! i = ml_body_digests l ! i" using i by simp
  qed (use n in simp)
  then show ?thesis by (metis append_take_drop_id)
qed

lemma root_hex_root_at: "root_hex l s = Inr h \<Longrightarrow> \<exists>root. root_at l s = Inr root \<and> h = hex_text root"
  by (auto simp: root_hex_def root_at_def bindR_eq_Inr)

end
