(* ===== verification/Cose_Statement.thy ===== *)
theory Cose_Statement
  imports Cose_Wire
begin

text \<open>
  Statements a log signs: \<^verbatim>\<open>Ed25519CheckpointSigner\<close> of \<^verbatim>\<open>cll/checkpoint/runner.py\<close>, the claims map read
  back field by field from any order of its members, and what the signed statement proves to a
  verifier. The packages (\<^verbatim>\<open>cbor2\<close>, \<^verbatim>\<open>cryptography\<close>, \<^verbatim>\<open>scitt_cose\<close>) enter by \<open>reads_back\<close> and
  \<open>signs_and_reads\<close>, which state their documented behaviour on the values at hand.
\<close>

section \<open>The deterministic signer\<close>

definition protected_header :: "pytext \<Rightarrow> pytext \<Rightarrow> pytext \<Rightarrow> bytes \<Rightarrow> 'x cval" where
  "protected_header content_type issuer subject public = VDict
     [(int_value 1, int_value (-8)),
      (int_value 3, text_value content_type),
      (int_value 4, bytes_value public),
      (int_value 15, VDict [(int_value 1, text_value issuer), (int_value 2, text_value subject)])]"

definition sign_cose_statement ::
  "('x, 'n) CoseLib \<Rightarrow> (bytes \<Rightarrow> bytes res) \<Rightarrow> bytes \<Rightarrow> bytes \<Rightarrow> pytext \<Rightarrow> pytext \<Rightarrow> pytext \<Rightarrow> bytes res" where
  "sign_cose_statement lib sign public payload content_type issuer subject =
     bindR (lib_dumps lib (protected_header content_type issuer subject public)) (\<lambda>protected.
     bindR (lib_dumps lib (VList [text_value (text_of ''Signature1''), bytes_value protected, bytes_value [], bytes_value payload])) (\<lambda>to_sign.
     bindR (sign to_sign) (\<lambda>signature.
     lib_dumps lib (VTag 18 (VList [bytes_value protected, VDict [], bytes_value payload, bytes_value signature])))))"

definition ed25519_checkpoint_signer :: "('x, 'n) CoseLib \<Rightarrow> (bytes \<Rightarrow> bytes res) \<Rightarrow> bytes \<Rightarrow> CheckpointSigner" where
  "ed25519_checkpoint_signer lib sign public =
     \<lparr>cs_key_id = hex_text public, cs_sign_cose_statement = Some (sign_cose_statement lib sign public)\<rparr>"

section \<open>Values written and read again\<close>

text \<open>Two values that differ in the order of the members of maps only, which is all that canonical
  encoding changes.\<close>

inductive reordered :: "'x cval \<Rightarrow> 'x cval \<Rightarrow> bool" where
  same: "reordered v v"
| members: "list_all2 (\<lambda>kv kv'. fst kv = fst kv' \<and> reordered (snd kv) (snd kv')) kvs ms \<Longrightarrow> distinct (map fst kvs) \<Longrightarrow>
     set ms' = set ms \<Longrightarrow> distinct (map fst ms') \<Longrightarrow> reordered (VDict kvs) (VDict ms')"

inductive_cases reordered_dictE: "reordered (VDict kvs) v"
inductive_simps reordered_leaf [simp]: "reordered (VAtom a) v" "reordered (VList vs) v" "reordered (VTag t w) v"

lemma reordered_lookup:
  assumes "reordered (VDict kvs) v"
  obtains ms where "v = VDict ms" "\<And>k. rel_option reordered (map_of kvs k) (map_of ms k)"
proof -
  consider "v = VDict kvs" | ms ms' where "v = VDict ms'" "list_all2 (\<lambda>kv kv'. fst kv = fst kv' \<and> reordered (snd kv) (snd kv')) kvs ms"
      "distinct (map fst kvs)" "set ms' = set ms" "distinct (map fst ms')"
    using assms by (elim reordered_dictE) auto
  then show thesis
  proof cases
    case 1
    then show ?thesis using that [of kvs] by (simp add: option.rel_refl reordered.same)
  next
    case (2 ms ms')
    have "rel_option reordered (map_of kvs k) (map_of ms k)" for k
      using 2(2) by (induction kvs ms rule: list_all2_induct) (auto split: prod.splits)
    moreover have "map fst kvs = map fst ms"
      using 2(2) by (induction kvs ms rule: list_all2_induct) auto
    then have "map_of ms' = map_of ms"
      using 2(3-5) by (subst map_of_inject_set) auto
    ultimately show ?thesis using 2(1) that [of ms'] by simp
  qed
qed

text \<open>\<^verbatim>\<open>cbor2.dumps(v, canonical=True)\<close> gives \<open>b\<close>, a well-formed item with different map keys that is not
  nested too deeply, and \<^verbatim>\<open>cbor2.loads(b)\<close> gives \<open>v\<close> again.\<close>

definition reads_back :: "('x, 'n) CoseLib \<Rightarrow> 'x cval \<Rightarrow> bytes \<Rightarrow> bool" where
  "reads_back lib v b \<longleftrightarrow> lib_dumps lib v = Inr b \<and> (\<exists>v'. lib_cbor2 lib b = Inr v' \<and> reordered v v') \<and>
     (\<exists>x. b = genc x \<and> gwf x \<and> keys_ok (key_of (lib_cbor2 lib) (lib_canon lib)) False x \<and> gdepth x \<le> lib_frames lib)"

lemma lib_loads_wf:
  assumes "lib_cbor2 lib (genc x) = Inr v" "gwf x" "keys_ok (key_of (lib_cbor2 lib) (lib_canon lib)) False x" "gdepth x \<le> lib_frames lib"
  shows "lib_loads lib (genc x) = Inr v"
proof -
  have "outcome (keys_ok (key_of (lib_cbor2 lib) (lib_canon lib)) False x) (lib_frames lib < gdepth x) (length ([] :: bytes) + length (genc x))
      (walk (lib_frames lib) (key_of (lib_cbor2 lib) (lib_canon lib)) ([] @ genc x @ []) (length ([] :: bytes)) False)"
    by (rule walk_outcome [OF _ assms(2)]) (rule key_of_errors)
  then show ?thesis using assms by (auto simp: lib_loads_def cbor_loads_def outcome_def)
qed

lemma reads_back_loads:
  assumes "reads_back lib v b"
  obtains v' where "lib_dumps lib v = Inr b" "lib_loads lib b = Inr v'" "reordered v v'"
  using assms lib_loads_wf unfolding reads_back_def by metis

section \<open>Commitments on the wire\<close>

lemma array_header:
  assumes "cbor_uint_header 4 n = Inr h"
  shows "head_is h 4 (Some n)"
proof -
  have p: "push_bit 5 (of_nat 4 :: byte) = 0x80" by simp
  consider "n < 24" | "24 \<le> n" "n < 256" | "256 \<le> n" "n < 2 ^ 16" | "2 ^ 16 \<le> n" "n < 2 ^ 32" | "2 ^ 32 \<le> n" by linarith
  then show ?thesis
  proof cases
    case 1
    then have h: "h = [or 0x80 (of_nat n)]" using assms by (simp add: cbor_uint_header_def Let_def p del: of_nat_numeral)
    have "list_all (\<lambda>n. unat (or 0x80 (of_nat n) :: byte) = 128 + n) [0..<24]" by code_simp
    then have "unat (or 0x80 (of_nat n) :: byte) = 128 + n" using 1 by (simp add: list_all_iff)
    moreover have "(128 + n) div 32 = 4" "(128 + n) mod 32 = n" using 1 by (simp_all add: mod_if)
    ultimately show ?thesis using 1 by (simp add: head_is_def head_def byte_at_def Let_def h)
  next
    case 2
    then have h: "h = [0x98, of_nat n]" using assms by (simp add: cbor_uint_header_def Let_def p del: of_nat_numeral)
    have "unat (of_nat n :: byte) = n" using 2 by (simp add: unat_of_nat take_bit_eq_mod)
    then show ?thesis by (simp add: head_is_def head_def byte_at_def bslice_def Let_def h be_value_def)
  next
    case 3
    then have h: "h = 0x99 # be_bytes 2 n" using assms by (simp add: cbor_uint_header_def Let_def p del: of_nat_numeral be_bytes.simps)
    have "be_value (be_bytes 2 n) = n" using 3 by (intro be_value_be_bytes) simp
    then show ?thesis by (simp add: head_is_def head_def byte_at_def bslice_def Let_def h del: be_bytes.simps)
  next
    case 4
    then have h: "h = 0x9A # be_bytes 4 n" using assms by (simp add: cbor_uint_header_def Let_def p del: of_nat_numeral be_bytes.simps)
    have "be_value (be_bytes 4 n) = n" using 4 by (intro be_value_be_bytes) simp
    then show ?thesis by (simp add: head_is_def head_def byte_at_def bslice_def Let_def h del: be_bytes.simps)
  next
    case 5
    then have h: "h = 0x9B # be_bytes 8 n" "n < 256 ^ 8"
      using assms by (simp_all add: cbor_uint_header_def Let_def p to_bytes_big_def bindR_eq_Inr del: of_nat_numeral be_bytes.simps split: if_splits)
    have "be_value (be_bytes 8 n) = n" using h(2) by (intro be_value_be_bytes) simp
    then show ?thesis by (simp add: head_is_def head_def byte_at_def bslice_def Let_def h del: be_bytes.simps)
  qed
qed

lemma commitment_items:
  assumes "commitment_object pks = Inr c"
  shows "\<exists>x. c = genc x \<and> gwf x \<and> keys_ok key False x \<and> gdepth x \<le> 2"
proof -
  have d: "\<forall>p\<in>set pks. digest p" and "\<exists>h. cbor_uint_header 4 (length pks) = Inr h \<and>
      foldR (\<lambda>body p. bindR (cbor_uint_header 2 (length p)) (\<lambda>h. Inr (body @ h @ p))) h pks = Inr c"
    using assms by (auto simp: commitment_object_def bindR_eq_Inr mapR_eq_Inr assert_digest_def list_all2_conv_all_nth all_set_conv_all_nth split: if_splits)
  then obtain h where h: "cbor_uint_header 4 (length pks) = Inr h"
    "foldR (\<lambda>body p. bindR (cbor_uint_header 2 (length p)) (\<lambda>h. Inr (body @ h @ p))) h pks = Inr c"
    by blast
  have f: "foldR (\<lambda>body p. bindR (cbor_uint_header 2 (length p)) (\<lambda>h. Inr (body @ h @ p))) h pks =
      Inr (h @ concat (map (\<lambda>p. [0x58, 0x20] @ p) pks))" for h
    using d by (induction pks arbitrary: h) (simp_all add: cbor_uint_header_def)
  let ?x = "GArr h (map (\<lambda>p. GLeaf ([0x58, 0x20] @ p)) pks)"
  note hd = array_header [OF h(1)]
  have "closing h = []" using head_is_local(4) [OF hd] by simp
  then have "c = genc ?x" using h(2) f [of h] by (simp add: o_def)
  moreover have "leaf_ok (0x58 # 0x20 # p)" if "digest p" for p
    using that by (auto simp: leaf_ok_def head_def byte_at_def bslice_def Let_def be_value_def intro!: exI [of _ 2])
  then have "gwf ?x" using d hd by (auto simp: count_ok_def)
  moreover have "gdepth ?x \<le> 2"
  proof -
    have "fold max (map (\<lambda>_. Suc 0) ps) k \<le> 1" if "k \<le> 1" for k and ps :: "bytes list"
      using that by (induction ps arbitrary: k) auto
    then show ?thesis by (simp add: o_def)
  qed
  ultimately show ?thesis by (intro exI [of _ ?x]) simp
qed

text \<open>\<^verbatim>\<open>cbor2.loads\<close> reads the commitment of these peaks as the list of them.\<close>

definition reads_commitment :: "('x, 'n) CoseLib \<Rightarrow> bytes list \<Rightarrow> bool" where
  "reads_commitment lib pks \<longleftrightarrow>
     (case commitment_object pks of Inl _ \<Rightarrow> True | Inr c \<Rightarrow> lib_cbor2 lib c = Inr (VList (map bytes_value pks)))"

lemma decode_commitment_of:
  fixes lib :: "('x, 'n) CoseLib"
  assumes "commitment_object pks = Inr c" "reads_commitment lib pks" "2 \<le> lib_frames lib"
  shows "decode_commitment lib c = Inr pks"
proof -
  obtain x where x: "c = genc x" "gwf x" "keys_ok (key_of (lib_cbor2 lib) (lib_canon lib)) False x" "gdepth x \<le> 2"
    using commitment_items [OF assms(1)] by blast
  then have "lib_loads lib c = Inr (VList (map bytes_value pks))"
    using assms lib_loads_wf [OF _ x(2,3)] by (simp add: reads_commitment_def)
  moreover have "\<forall>p\<in>set pks. digest p"
    using assms(1) by (auto simp: commitment_object_def bindR_eq_Inr mapR_eq_Inr assert_digest_def list_all2_conv_all_nth all_set_conv_all_nth split: if_splits)
  then have "those (map peak_of (map (bytes_value :: bytes \<Rightarrow> 'x cval) pks)) = Some pks"
    by (induction pks) (simp_all add: bytes_value_def)
  ultimately show ?thesis by (simp add: decode_commitment_def)
qed

section \<open>The claims map read back\<close>

text \<open>A proof as \<^verbatim>\<open>core.consistency_proof\<close> makes it: version, kind, and hashes in lowercase.\<close>

definition lower_hex :: "string \<Rightarrow> bool" where
  "lower_hex h \<longleftrightarrow> h \<in> range to_hex"

definition proof_form :: "ConsistencyProof \<Rightarrow> bool" where
  "proof_form p \<longleftrightarrow> cp_v p = 1 \<and> cp_kind p = ''consistency'' \<and> list_all lower_hex (cp_old_peaks p) \<and>
     list_all (list_all lower_hex) (cp_witness p) \<and> list_all lower_hex (cp_new_peaks p)"

lemma lower_hex_list: "list_all lower_hex hs \<Longrightarrow> \<exists>bs. hs = map to_hex bs"
  by (induction hs) (auto simp: lower_hex_def intro: exI [of _ "_ # _"])

lemma lower_hex_list2: "list_all (list_all lower_hex) hss \<Longrightarrow> \<exists>bss. hss = map (map to_hex) bss"
proof (induction hss)
  case (Cons hs hss)
  then obtain bs bss where "hs = map to_hex bs" "hss = map (map to_hex) bss" using lower_hex_list [of hs] by auto
  then show ?case by (intro exI [of _ "bs # bss"]) simp
qed simp

lemma from_hex_map: "mapR from_hex (map to_hex bs) = Inr bs"
  by (induction bs) simp_all

lemma from_hex_map2: "mapR (mapR from_hex) (map (map to_hex) bss) = Inr bss"
  by (induction bss) (simp_all add: from_hex_map)

lemma hex_list_map: "hex_list lib (VList (map bytes_value bs)) = Inr (map to_hex bs)"
  by (induction bs) (simp_all add: hex_list_def bytes_value_def)

lemma claim_Nil [simp]: "claim name [] = None"
  by (simp add: claim_def)

lemma claim_Cons [simp]:
  "claim name ((text_value (text_of n), v) # kvs) = (if n = name then Some v else claim name kvs)"
  by (simp add: claim_def text_value_def)

lemma claim_reordered:
  assumes "reordered (VDict kvs) v"
  obtains ms where "v = VDict ms" "\<And>name. rel_option reordered (claim name kvs) (claim name ms)"
  using reordered_lookup [OF assms] unfolding claim_def by metis

lemma claim_same:
  assumes "rel_option reordered (claim name kvs) (claim name ms)"
  shows "claim name kvs = None \<Longrightarrow> claim name ms = None"
    "claim name kvs = Some (VAtom a) \<Longrightarrow> claim name ms = Some (VAtom a)"
    "claim name kvs = Some (VList vs) \<Longrightarrow> claim name ms = Some (VList vs)"
  using assms by (auto simp: option_rel_Some1)

lemma proof_value_roundtrip:
  fixes v v' :: "'x cval" and lib :: "('x, 'n) CoseLib"
  assumes "proof_form p" "consistency_proof_to_cbor p = Inr v" "reordered v v'"
  shows "consistency_proof_from_cbor lib v' = Inr p" "\<exists>ms. v' = VDict ms"
proof -
  obtain olds ws news where p: "cp_old_peaks p = map to_hex olds" "cp_witness p = map (map to_hex) ws" "cp_new_peaks p = map to_hex news"
    using assms(1) lower_hex_list lower_hex_list2 unfolding proof_form_def by metis
  define kvs :: "('x cval \<times> 'x cval) list" where
    "kvs = [(text_value (text_of ''size_a''), int_value (cp_size_a p)),
     (text_value (text_of ''size_b''), int_value (cp_size_b p)),
     (text_value (text_of ''old_peaks''), VList (map bytes_value olds)),
     (text_value (text_of ''witness''), VList (map (\<lambda>w. VList (map bytes_value w)) ws)),
     (text_value (text_of ''new_peaks''), VList (map bytes_value news))]"
  have v: "v = VDict kvs"
    using assms(2) by (simp add: consistency_proof_to_cbor_def p from_hex_map from_hex_map2 kvs_def)
  obtain ms where ms: "v' = VDict ms" "\<And>name. rel_option reordered (claim name kvs) (claim name ms)"
    using claim_reordered assms(3) unfolding v by blast
  note same = claim_same [OF ms(2)]
  show "\<exists>ms. v' = VDict ms" by (simp add: ms(1))
  have c: "claim ''size_a'' ms = Some (VAtom (CInt (cp_size_a p)))" "claim ''size_b'' ms = Some (VAtom (CInt (cp_size_b p)))"
    "claim ''old_peaks'' ms = Some (VList (map bytes_value olds))"
    "claim ''witness'' ms = Some (VList (map (\<lambda>w. VList (map bytes_value w)) ws))"
    "claim ''new_peaks'' ms = Some (VList (map bytes_value news))"
    by ((rule same, simp add: kvs_def int_value_def)+)
  have w: "mapR (hex_list lib) (map (\<lambda>w. VList (map bytes_value w)) ws) = Inr (map (map to_hex) ws)"
    by (induction ws) (simp_all add: hex_list_map)
  show "consistency_proof_from_cbor lib v' = Inr p"
    using assms(1) by (simp add: consistency_proof_from_cbor_def ms(1) required_claim_def c hex_list_map w
        proof_form_def flip: p)
qed

text \<open>A record as \<^verbatim>\<open>emit_checkpoint\<close> and the runner make it.\<close>

definition record_form :: "CheckpointRecord \<Rightarrow> bool" where
  "record_form cp \<longleftrightarrow> ck_v cp = 1 \<and> ck_kind cp = text_of ''mmr_checkpoint'' \<and> ck_log_id cp \<noteq> [] \<and> 0 \<le> ck_mmr_size cp \<and>
     ck_root cp \<in> range hex_text \<and> 0 \<le> ck_prev_size cp \<and>
     (if ck_prev_size cp = 0 then ck_prev_root cp = [] else ck_prev_root cp \<in> range hex_text)"

lemma claims_read_back:
  fixes v v' :: "'x cval" and lib :: "('x, 'n) CoseLib"
  assumes enc: "encode_checkpoint_claims cp new prev pf cadence = Inr v" and re: "reordered v v'"
    and form: "record_form cp" "case pf of None \<Rightarrow> True | Some p \<Rightarrow> proof_form p"
    and lib: "2 \<le> lib_frames lib" "reads_commitment lib new" "case prev of None \<Rightarrow> True | Some pks \<Rightarrow> reads_commitment lib pks"
  shows "decode_claims lib v' (Some (ck_log_id cp)) (Some (subject_of (ck_log_id cp) (ck_mmr_size cp))) key =
    Inr \<lparr>dc_log_id = ck_log_id cp, dc_mmr_size = ck_mmr_size cp, dc_root = ck_root cp, dc_new_peak_hashes = new,
      dc_prev_size = ck_prev_size cp, dc_prev_root = ck_prev_root cp,
      dc_prev_peak_hashes = (if ck_prev_size cp = 0 then [] else the prev), dc_timestamp = ck_timestamp cp, dc_key_id = key,
      dc_cadence_seconds = cadence, dc_consistency_proof = pf\<rparr>"
proof -
  define kvs where "kvs comm prevc extra =
      [(text_value (text_of ''kind''), text_value WIRE_KIND),
       (text_value (text_of ''log_size''), int_value (ck_mmr_size cp)),
       (text_value (text_of ''commitment''), bytes_value comm),
       (text_value (text_of ''prev_size''), int_value (ck_prev_size cp)),
       (text_value (text_of ''prev_commitment''), bytes_value prevc),
       (text_value (text_of ''issued_at''), text_value (ck_timestamp cp))] @
      (case cadence of None \<Rightarrow> [] | Some s \<Rightarrow> [(text_value (text_of ''cadence''), int_value s)]) @ extra"
    for comm prevc and extra :: "('x cval \<times> 'x cval) list"
  obtain root comm prevc extra where e: "root_from_peaks new = Inr root" "fromhex_text (ck_root cp) = Inr root"
    "encode_prev_commitment cp prev = Inr prevc" "commitment_object new = Inr comm"
    "(case pf of None \<Rightarrow> Inr [] | Some p \<Rightarrow>
        bindR (consistency_proof_to_cbor p) (\<lambda>v. Inr [(text_value (text_of ''consistency_proof''), v)])) = Inr extra"
    "case pf of None \<Rightarrow> True | Some p \<Rightarrow> cp_size_a p = ck_prev_size cp \<and> cp_size_b p = ck_mmr_size cp"
    and v: "v = VDict (kvs comm prevc extra)"
    using enc unfolding kvs_def encode_checkpoint_claims_def by (auto simp: bindR_eq_Inr split: if_splits option.splits)
  obtain ms where ms: "v' = VDict ms" "\<And>name. rel_option reordered (claim name (kvs comm prevc extra)) (claim name ms)"
    using claim_reordered re unfolding v by blast
  note same = claim_same [OF ms(2)]
  have c: "claim ''kind'' ms = Some (VAtom (CText WIRE_KIND))" "claim ''log_size'' ms = Some (VAtom (CInt (ck_mmr_size cp)))"
    "claim ''commitment'' ms = Some (VAtom (CBytes comm))" "claim ''prev_size'' ms = Some (VAtom (CInt (ck_prev_size cp)))"
    "claim ''prev_commitment'' ms = Some (VAtom (CBytes prevc))" "claim ''issued_at'' ms = Some (VAtom (CText (ck_timestamp cp)))"
    by ((rule same, simp add: kvs_def, simp add: value_defs)+)
  have extra: "claim name extra = None" if "name \<noteq> ''consistency_proof''" for name
    using that e(5) by (auto simp: bindR_eq_Inr split: option.splits)
  have cadence: "cadence_claim (claim ''cadence'' ms) = Inr cadence"
  proof (cases cadence)
    case None
    then have "claim ''cadence'' ms = None" by (intro same) (simp add: kvs_def extra)
    then show ?thesis by (simp add: None cadence_claim_def)
  next
    case (Some n)
    then have "claim ''cadence'' ms = Some (VAtom (CInt n))" by (intro same) (simp add: kvs_def, simp add: int_value_def)
    then show ?thesis by (simp add: Some cadence_claim_def)
  qed
  have skip: "claim ''consistency_proof'' (kvs comm prevc extra) = claim ''consistency_proof'' extra"
    by (simp add: kvs_def split: option.split)
  have pclaim: "proof_claim lib (ck_prev_size cp) (ck_mmr_size cp) (claim ''consistency_proof'' ms) = Inr pf"
  proof (cases pf)
    case None
    then have "claim ''consistency_proof'' extra = None" using e(5) by auto
    then have "claim ''consistency_proof'' ms = None" by (intro same) (simp only: skip)
    then show ?thesis by (simp add: None proof_claim_def)
  next
    case (Some p)
    then obtain w where w: "consistency_proof_to_cbor p = Inr w" "extra = [(text_value (text_of ''consistency_proof''), w)]"
      using e(5) by (auto simp: bindR_eq_Inr)
    then obtain w' where w': "claim ''consistency_proof'' ms = Some w'" "reordered w w'"
      using ms(2) [of "''consistency_proof''"] unfolding skip by (auto simp: option_rel_Some1)
    have "consistency_proof_from_cbor lib w' = Inr p" "\<exists>ms. w' = VDict ms"
      using proof_value_roundtrip [OF _ w(1) w'(2)] form(2) Some by simp_all
    then show ?thesis using Some e(6) by (auto simp: w'(1) proof_claim_def)
  qed
  have root: "hex_text root = ck_root cp" using form(1) e(2) by (auto simp: record_form_def)
  have prev: "prev_claim lib (claim ''prev_commitment'' ms) = Inr (if ck_prev_size cp = 0 then [] else the prev, ck_prev_root cp)"
  proof (cases "ck_prev_size cp = 0")
    case True
    then show ?thesis using e(3) form(1) by (simp add: c encode_prev_commitment_def prev_claim_def record_form_def)
  next
    case False
    then have pos: "0 < ck_prev_size cp" using form(1) by (simp add: record_form_def)
    then obtain pks r where p: "prev = Some pks" "root_from_peaks pks = Inr r" "fromhex_text (ck_prev_root cp) = Inr r" "commitment_object pks = Inr prevc"
      using e(3) by (auto simp: encode_prev_commitment_def bindR_eq_Inr split: option.splits if_splits)
    have "decode_commitment lib prevc = Inr pks" using decode_commitment_of [OF p(4)] lib p(1) by simp
    moreover have "hex_text r = ck_prev_root cp" using form(1) p(3) False by (auto simp: record_form_def)
    moreover have "prevc \<noteq> []" using p(4) commitment_items gwf_first by metis
    ultimately show ?thesis using p False by (simp add: c prev_claim_def)
  qed
  show ?thesis
    using form(1) pclaim
    by (simp add: decode_claims_def ms(1) c(1-4,6) size_claim_def text_value_def decode_commitment_of [OF e(4) lib(2,1)] e(1) root prev
        cadence record_form_def)
qed

section \<open>A signed statement verifies\<close>

text \<open>
  The packages at one statement: the values are written and read back; the signature is made and is
  canonical; \<^verbatim>\<open>strict_decode\<close> returns the four parts; \<^verbatim>\<open>parse_signed_statement\<close> verifies the statement
  under the PEM form of the key and returns what the protected header and the payload say.
\<close>

definition signs_and_reads ::
  "('x, 'n) CoseLib \<Rightarrow> (bytes \<Rightarrow> bytes res) \<Rightarrow> bytes \<Rightarrow> 'x cval \<Rightarrow> pytext \<Rightarrow> pytext \<Rightarrow> bool" where
  "signs_and_reads lib sign public claims issuer subject \<longleftrightarrow>
     (\<exists>payload protected to_sign signature b pem.
        reads_back lib claims payload \<and>
        reads_back lib (protected_header CLL_CHECKPOINT_CONTENT_TYPE issuer subject public) protected \<and>
        lib_dumps lib (VList [text_value (text_of ''Signature1''), bytes_value protected, bytes_value [], bytes_value payload]) = Inr to_sign \<and>
        sign to_sign = Inr signature \<and> acceptable_signature public (Some signature) \<and>
        reads_back lib (VTag 18 (VList [bytes_value protected, VDict [], bytes_value payload, bytes_value signature])) b \<and>
        lib_strict_decode lib b = Inr (VList [bytes_value protected, VDict [], bytes_value payload, bytes_value signature]) \<and>
        lib_key_pem lib public = Inr pem \<and>
        lib_parse_statement lib b pem = Inr \<lparr>st_signature_verified = True, st_content_type = CLL_CHECKPOINT_CONTENT_TYPE,
          st_payload = payload, st_issuer = Some issuer, st_subject = Some subject\<rparr>)"

text \<open>The byte strings among the atoms are those of \<open>cbor_atom\<close>.\<close>

definition knows_bytes :: "('x, 'n) CoseLib \<Rightarrow> bool" where
  "knows_bytes lib \<longleftrightarrow> (\<forall>b. lib_bytes lib (CBytes b) = Some b)"

lemma reads_back_nonempty: "reads_back lib v b \<Longrightarrow> b \<noteq> []"
  using gwf_first by (auto simp: reads_back_def)

lemma header_kid:
  assumes "reordered (protected_header ct iss subj public) v"
  shows "check_labels v = Inr ()" "\<exists>ms. v = VDict ms \<and> map_of ms (int_value 4) = Some (bytes_value public) \<and>
    (case map_of ms (int_value 15) of None \<Rightarrow> Inr () | Some cwt \<Rightarrow> check_labels cwt) = Inr ()"
proof -
  have labels: "check_labels w = Inr ()" if "reordered (VDict kvs) w" "\<forall>kv\<in>set kvs. label_ok (fst kv)" for kvs and w :: "'a cval"
  proof -
    from that(1) consider "w = VDict kvs" | ms ms' where "w = VDict ms'" "set ms' = set ms"
      "list_all2 (\<lambda>kv kv'. fst kv = fst kv' \<and> reordered (snd kv) (snd kv')) kvs ms"
      by (elim reordered_dictE) auto
    then show ?thesis
    proof cases
      case (2 ms ms')
      have "\<forall>kv\<in>set ms. label_ok (fst kv)" using 2(3) that(2) by (induction kvs ms rule: list_all2_induct) auto
      then show ?thesis using 2 by (simp add: check_labels_def list_all_iff)
    qed (use that(2) in \<open>simp add: check_labels_def list_all_iff\<close>)
  qed
  show "check_labels v = Inr ()"
    using assms unfolding protected_header_def by (rule labels) (simp add: int_value_def)
  obtain ms where ms: "v = VDict ms" "\<And>k. rel_option reordered
      (map_of [(int_value 1, int_value (-8)), (int_value 3, text_value ct), (int_value 4, bytes_value public),
        (int_value 15, VDict [(int_value 1, text_value iss), (int_value 2, text_value subj)])] k) (map_of ms k)"
    using reordered_lookup [OF assms [unfolded protected_header_def]] by blast
  have "map_of ms (int_value 4) = Some (bytes_value public)"
    using ms(2) [of "int_value 4"] by (simp add: value_defs option_rel_Some1)
  moreover obtain w where "map_of ms (int_value 15) = Some w" "reordered (VDict [(int_value 1, text_value iss), (int_value 2, text_value subj)]) w"
    using ms(2) [of "int_value 15"] by (auto simp: int_value_def option_rel_Some1)
  moreover have "check_labels w = Inr ()" using calculation(3) by (rule labels) (simp add: int_value_def)
  ultimately show "\<exists>ms. v = VDict ms \<and> map_of ms (int_value 4) = Some (bytes_value public) \<and>
    (case map_of ms (int_value 15) of None \<Rightarrow> Inr () | Some cwt \<Rightarrow> check_labels cwt) = Inr ()"
    using ms(1) by simp
qed

lemma signed_statement_verifies:
  assumes lib: "signs_and_reads lib sign public claims iss subj" "knows_bytes lib"
    and dec: "\<And>claims'. reordered claims claims' \<Longrightarrow> decode_claims lib claims' (Some iss) (Some subj) (hex_text public) = Inr d"
    and cont: "check_continuity d = Inr ()"
  shows "\<exists>payload b. lib_dumps lib claims = Inr payload \<and>
    sign_cose_statement lib sign public payload CLL_CHECKPOINT_CONTENT_TYPE iss subj = Inr b \<and> verify_steps lib b = Inr d"
proof -
  obtain payload protected to_sign signature b pem where s:
    "reads_back lib claims payload"
    "reads_back lib (protected_header CLL_CHECKPOINT_CONTENT_TYPE iss subj public) protected"
    "lib_dumps lib (VList [text_value (text_of ''Signature1''), bytes_value protected, bytes_value [], bytes_value payload]) = Inr to_sign"
    "sign to_sign = Inr signature" "acceptable_signature public (Some signature)"
    "reads_back lib (VTag 18 (VList [bytes_value protected, VDict [], bytes_value payload, bytes_value signature])) b"
    "lib_strict_decode lib b = Inr (VList [bytes_value protected, VDict [], bytes_value payload, bytes_value signature])"
    "lib_key_pem lib public = Inr pem"
    "lib_parse_statement lib b pem = Inr \<lparr>st_signature_verified = True, st_content_type = CLL_CHECKPOINT_CONTENT_TYPE,
          st_payload = payload, st_issuer = Some iss, st_subject = Some subj\<rparr>"
    using lib(1) unfolding signs_and_reads_def by metis
  obtain claims' where c: "lib_dumps lib claims = Inr payload" "lib_loads lib payload = Inr claims'" "reordered claims claims'"
    using reads_back_loads [OF s(1)] by blast
  obtain header where h: "lib_dumps lib (protected_header CLL_CHECKPOINT_CONTENT_TYPE iss subj public) = Inr protected"
    "lib_loads lib protected = Inr header" "reordered (protected_header CLL_CHECKPOINT_CONTENT_TYPE iss subj public) header"
    using reads_back_loads [OF s(2)] by blast
  have b: "lib_dumps lib (VTag 18 (VList [bytes_value protected, VDict [], bytes_value payload, bytes_value signature])) = Inr b"
    "lib_loads lib b = Inr (VTag 18 (VList [bytes_value protected, VDict [], bytes_value payload, bytes_value signature]))"
    using reads_back_loads [OF s(6)] by auto
  have sign: "sign_cose_statement lib sign public payload CLL_CHECKPOINT_CONTENT_TYPE iss subj = Inr b"
    by (simp add: sign_cose_statement_def h(1) s(3,4) b(1))
  have sig: "cose_sign1_signature (CryptoLib.truncate lib) b = Some signature"
    using b(2) lib(2)
    by (simp add: cose_sign1_signature_def lib_loads_def CryptoLib.truncate_def untag_18_def bytes_value_def knows_bytes_def)
  have "protected \<noteq> []" by (rule reads_back_nonempty [OF s(2)])
  then have kid: "extract_kid lib b = Inr (Some public)"
    using header_kid [OF h(3)] by (auto simp: extract_kid_def s(7) b(2) check_labels_def [of "VDict []"] bytes_value_def h(2))
  have "length public = 32" using s(5) by (simp add: acceptable_signature_def)
  then have "verify_steps lib b = Inr d"
    unfolding verify_steps_iff using kid s(5,8,9) c(2) dec [OF c(3)] cont sig by auto
  with c(1) sign show ?thesis by blast
qed

text \<open>The continuity a record claims: a proof exactly when there is a previous checkpoint, one that
  bridges the two roots.\<close>

definition continuity_proved :: "CheckpointRecord \<Rightarrow> ConsistencyProof option \<Rightarrow> bool" where
  "continuity_proved cp pf \<longleftrightarrow>
     (case pf of None \<Rightarrow> ck_prev_size cp = 0
      | Some p \<Rightarrow> 0 < ck_prev_size cp \<and> proof_form p \<and>
          (\<exists>root_a root_b. ck_prev_root cp = hex_text root_a \<and> ck_root cp = hex_text root_b \<and>
             verify_consistency root_a (ck_prev_size cp) root_b (ck_mmr_size cp) (Some p)))"

definition decoded_of :: "CheckpointRecord \<Rightarrow> bytes list \<Rightarrow> bytes list option \<Rightarrow> ConsistencyProof option \<Rightarrow> int option \<Rightarrow> DecodedCheckpointCose" where
  "decoded_of cp new prev pf cadence =
     \<lparr>dc_log_id = ck_log_id cp, dc_mmr_size = ck_mmr_size cp, dc_root = ck_root cp, dc_new_peak_hashes = new,
      dc_prev_size = ck_prev_size cp, dc_prev_root = ck_prev_root cp,
      dc_prev_peak_hashes = (if ck_prev_size cp = 0 then [] else the prev), dc_timestamp = ck_timestamp cp, dc_key_id = ck_key_id cp,
      dc_cadence_seconds = cadence, dc_consistency_proof = pf\<rparr>"

lemma statement_verifies:
  fixes lib :: "('x, 'n) CoseLib"
  assumes "record_form cp" "ck_key_id cp = hex_text public" "continuity_proved cp pf"
    and enc: "encode_checkpoint_claims cp new prev pf cadence = Inr claims"
    and lib: "2 \<le> lib_frames lib" "reads_commitment lib new" "case prev of None \<Rightarrow> True | Some pks \<Rightarrow> reads_commitment lib pks"
      "signs_and_reads lib sign public claims (ck_log_id cp) (subject_of (ck_log_id cp) (ck_mmr_size cp))" "knows_bytes lib"
  shows "\<exists>b. checkpoint_to_cose lib cp (ed25519_checkpoint_signer lib sign public) new prev pf cadence = Inr b \<and>
    verify_steps lib b = Inr (decoded_of cp new prev pf cadence)"
proof -
  have f: "case pf of None \<Rightarrow> True | Some p \<Rightarrow> proof_form p" using assms(3) by (auto simp: continuity_proved_def split: option.splits)
  have dec: "decode_claims lib claims' (Some (ck_log_id cp)) (Some (subject_of (ck_log_id cp) (ck_mmr_size cp))) (hex_text public) =
      Inr (decoded_of cp new prev pf cadence)" if "reordered claims claims'" for claims'
    using claims_read_back [OF enc that assms(1) f lib(1-3)] by (simp add: decoded_of_def assms(2))
  have cont: "check_continuity (decoded_of cp new prev pf cadence) = Inr ()"
    using assms(3) by (auto simp: continuity_proved_def check_continuity_def decoded_of_def report_def require_def split: option.splits)
  from signed_statement_verifies [OF lib(4,5) dec cont] obtain payload b where "lib_dumps lib claims = Inr payload"
    "sign_cose_statement lib sign public payload CLL_CHECKPOINT_CONTENT_TYPE (ck_log_id cp) (subject_of (ck_log_id cp) (ck_mmr_size cp)) = Inr b"
    "verify_steps lib b = Inr (decoded_of cp new prev pf cadence)" by blast
  moreover have "\<not> (0 < ck_prev_size cp \<and> pf = None)" "\<not> (pf \<noteq> None \<and> ck_prev_size cp = 0)"
    using assms(3) by (auto simp: continuity_proved_def split: option.splits)
  ultimately show ?thesis by (auto simp: checkpoint_to_cose_def enc ed25519_checkpoint_signer_def)
qed

lemma decoded_record: "to_checkpoint_record (decoded_of cp new prev pf cadence) = cp\<lparr>ck_signature := [], ck_witnesses := []\<rparr>"
  if "record_form cp"
  using that by (simp add: to_checkpoint_record_def decoded_of_def record_form_def)

section \<open>One statement, and what it pins down\<close>

text \<open>Packages that know one claims map: enough to sign a statement about a log of one record.\<close>

definition sample_key :: bytes where "sample_key = 2 # replicate 31 0"
definition sample_signature :: bytes where "sample_signature = 2 # replicate 63 0"

definition sample_lib :: "unit cval \<Rightarrow> unit cval \<Rightarrow> SignedStatement \<Rightarrow> (unit, unit) CoseLib" where
  "sample_lib claims header st =
     (let message = VTag 18 (VList [bytes_value [1], VDict [], bytes_value [0], bytes_value sample_signature]) in
      \<lparr>lib_ed_verify = (\<lambda>_ _ _. Inr ()), lib_raw_key = (\<lambda>_. Inr None), 
       lib_scitt_verify = (\<lambda>_ _ _. Inr \<lparr>rr_ok = True, rr_failed_at = None, rr_leaf_index = Some 0, rr_tree_size = Some 1\<rparr>), lib_probe_pem = [],
       lib_cbor2 = (\<lambda>b. if b = [0] then Inr claims else if b = [1] then Inr header else if b = [3] then Inr message
         else Inr (VList [bytes_value (drop 3 b)])),
       lib_canon = (\<lambda>_. ()), lib_bytes = (\<lambda>a. case a of CBytes b \<Rightarrow> Some b | _ \<Rightarrow> None), lib_frames = 2,
       lib_strict_decode = (\<lambda>_. Inr (VList [bytes_value [1], VDict [], bytes_value [0], bytes_value sample_signature])),
       lib_parse_statement = (\<lambda>_ _. Inr st), lib_key_pem = (\<lambda>_. Inr []),
       lib_dumps = (\<lambda>v. if v = claims then Inr [0] else if v = header then Inr [1] else if v = message then Inr [3] else Inr [2]),
       lib_bytes_of = (\<lambda>_. Inl TypeError), lib_iter_of = (\<lambda>_. Inl TypeError), lib_int_of = (\<lambda>_. Inl ValueError), lib_truth = (\<lambda>_. True)\<rparr>)"

definition sample_statement :: "pytext \<Rightarrow> pytext \<Rightarrow> SignedStatement" where
  "sample_statement issuer subject = \<lparr>st_signature_verified = True, st_content_type = CLL_CHECKPOINT_CONTENT_TYPE,
     st_payload = [0], st_issuer = Some issuer, st_subject = Some subject\<rparr>"

lemma replicate_63: "take 32 (2 # replicate 63 (0 :: byte)) = 2 # replicate 31 0" "drop 32 (2 # replicate 63 (0 :: byte)) = replicate 32 0"
proof -
  have "replicate 63 (0 :: byte) = replicate 31 0 @ replicate 32 0" by (simp flip: replicate_add)
  then show "take 32 (2 # replicate 63 (0 :: byte)) = 2 # replicate 31 0" "drop 32 (2 # replicate 63 (0 :: byte)) = replicate 32 0"
    by (simp_all add: numeral_eq_Suc)
qed

lemma sample_acceptable: "acceptable_signature sample_key (Some sample_signature)"
  by (simp add: acceptable_signature_def acceptable_point_def replicate_63 le_value_Cons_0 le_value_replicate_0 sample_key_def
      sample_signature_def ED_P_def ED_L_def SMALL_ORDER_Y_def ORDER_8_Y_def)

lemma sample_signs:
  assumes "claims = VDict kvs" "claims \<noteq> header" "header = protected_header CLL_CHECKPOINT_CONTENT_TYPE issuer subject sample_key"
  shows "signs_and_reads (sample_lib claims header (sample_statement issuer subject)) (\<lambda>_. Inr sample_signature) sample_key claims issuer subject"
proof -
  let ?lib = "sample_lib claims header (sample_statement issuer subject)"
  let ?m = "VTag 18 (VList [bytes_value [1], VDict [], bytes_value [0], bytes_value sample_signature]) :: unit cval"
  have leaf: "reads_back ?lib v [c]" if "lib_dumps ?lib v = Inr [c]" "lib_cbor2 ?lib [c] = Inr v" "c \<in> {0, 1, 3}" for v c
    using that
    by (auto simp: reads_back_def sample_lib_def Let_def leaf_ok_def head_def byte_at_def intro!: reordered.same exI [of _ "GLeaf [c]"])
  have ne: "header \<noteq> claims" "?m \<noteq> claims" "?m \<noteq> header" using assms by (simp_all add: protected_header_def)
  have "reads_back ?lib claims [0]" by (rule leaf) (simp_all add: sample_lib_def Let_def)
  moreover have "reads_back ?lib header [1]" using ne by (intro leaf) (simp_all add: sample_lib_def Let_def)
  moreover have "reads_back ?lib ?m [3]" using ne by (intro leaf) (simp_all add: sample_lib_def Let_def)
  moreover have "lib_dumps ?lib (VList [text_value (text_of ''Signature1''), bytes_value [1], bytes_value [], bytes_value [0]]) = Inr [2]"
    by (simp add: sample_lib_def Let_def assms(1,3) protected_header_def)
  moreover have "lib_strict_decode ?lib [3] = Inr (VList [bytes_value [1], VDict [], bytes_value [0], bytes_value sample_signature])"
    "lib_key_pem ?lib sample_key = Inr []" "lib_parse_statement ?lib [3] [] = Inr (sample_statement issuer subject)"
    by (simp_all add: sample_lib_def Let_def)
  ultimately show ?thesis
    using sample_acceptable unfolding signs_and_reads_def assms(3) [symmetric]
    by - (rule exI [of _ "[0]"], rule exI [of _ "[1]"], rule exI [of _ "[2]"], rule exI [of _ sample_signature], rule exI [of _ "[3]"],
      rule exI [of _ "[]"], intro conjI, (assumption | simp only: sample_statement_def)+)
qed

lemma sample_reads: "length p = 32 \<Longrightarrow> reads_commitment (sample_lib claims header st) [p]" "knows_bytes (sample_lib claims header st)"
  "lib_frames (sample_lib claims header st) = 2"
  by (simp_all add: reads_commitment_def commitment_object_def assert_digest_def cbor_uint_header_def sample_lib_def Let_def knows_bytes_def)

text \<open>A record that repeats the checkpoint of a log of one record, with the trivial proof.\<close>

definition sample_record :: CheckpointRecord where
  "sample_record = \<lparr>ck_v = 1, ck_kind = text_of ''mmr_checkpoint'', ck_log_id = text_of ''log'', ck_mmr_size = 1,
     ck_root = hex_text (leaf_of (replicate 32 7)), ck_prev_size = 1, ck_prev_root = hex_text (leaf_of (replicate 32 7)),
     ck_key_id = hex_text sample_key, ck_timestamp = text_of ''2026-01-01T00:00:00Z'', ck_signature = [], ck_witnesses = []\<rparr>"

lemma sample_form: "record_form sample_record" "ck_key_id sample_record = hex_text sample_key"
    "continuity_proved sample_record (Some (bare_consistency (replicate 32 7)))"
  and sample_ids: "ck_log_id sample_record = text_of ''log''" "ck_mmr_size sample_record = 1"
  and sample_unsigned: "sample_record\<lparr>ck_signature := [], ck_witnesses := []\<rparr> = sample_record"
proof -
  have "verify_consistency (leaf_of (replicate 32 7)) 1 (leaf_of (replicate 32 7)) 1 (Some (bare_consistency (replicate 32 7)))"
    by (simp add: bare_proofs)
  then show "continuity_proved sample_record (Some (bare_consistency (replicate 32 7)))"
    by (auto simp: continuity_proved_def sample_record_def proof_form_def bare_consistency_def lower_hex_def)
qed (simp_all add: record_form_def sample_record_def text_of_def)

definition sample_packages :: "unit cval \<Rightarrow> (unit, unit) CoseLib" where
  "sample_packages claims =
     sample_lib claims (protected_header CLL_CHECKPOINT_CONTENT_TYPE (text_of ''log'') (subject_of (text_of ''log'') 1) sample_key)
       (sample_statement (text_of ''log'') (subject_of (text_of ''log'') 1))"

lemma bare_root: "verify_inclusion root 1 0 (replicate 32 7) (Some bare_inclusion) \<Longrightarrow> root = leaf_of (replicate 32 7)"
  using one_leaf
  by (simp add: verify_inclusion_def verify_inclusion_body_def bare_inclusion_def or_false_iff find_containing_peak_def Let_def
      fold_path_def assert_digest_def root_from_peaks_def py_index_def split: if_splits)

lemma sample_claims:
  obtains claims where
    "encode_checkpoint_claims sample_record [leaf_of (replicate 32 7)] (Some [leaf_of (replicate 32 7)])
       (Some (bare_consistency (replicate 32 7))) None = Inr claims"
    "signs_and_reads (sample_packages claims) (\<lambda>_. Inr sample_signature) sample_key claims (text_of ''log'') (subject_of (text_of ''log'') 1)"
proof -
  let ?p = "leaf_of (replicate 32 7)" and ?pf = "bare_consistency (replicate 32 7)"
  let ?h = "protected_header CLL_CHECKPOINT_CONTENT_TYPE (text_of ''log'') (subject_of (text_of ''log'') 1) sample_key :: unit cval"
  have p: "length ?p = 32" by (simp add: leaf_of_def)
  have c: "commitment_object [?p] \<noteq> Inl e" for e by (simp add: p commitment_object_def assert_digest_def cbor_uint_header_def)
  then obtain comm where c: "commitment_object [?p] = Inr comm" by (cases "commitment_object [?p]") auto
  have "\<exists>kvs :: (unit cval \<times> unit cval) list. encode_checkpoint_claims sample_record [?p] (Some [?p]) (Some ?pf) None =
      Inr (VDict ((text_value (text_of ''kind''), text_value WIRE_KIND) # kvs))"
    by (simp add: encode_checkpoint_claims_def sample_record_def encode_prev_commitment_def c root_from_peaks_def assert_digest_def p
        consistency_proof_to_cbor_def bare_consistency_def)
  then obtain kvs :: "(unit cval \<times> unit cval) list" where
    e: "encode_checkpoint_claims sample_record [?p] (Some [?p]) (Some ?pf) None =
      Inr (VDict ((text_value (text_of ''kind''), text_value WIRE_KIND) # kvs))" by blast
  have "VDict ((text_value (text_of ''kind''), text_value WIRE_KIND) # kvs) \<noteq> ?h" by (simp add: protected_header_def value_defs)
  from that [OF e] sample_signs [OF refl this refl] show thesis by (simp add: sample_packages_def)
qed

lemma sample_verifies:
  "\<exists>claims b. verify_steps (sample_packages claims) b = Inr (decoded_of sample_record [leaf_of (replicate 32 7)] (Some [leaf_of (replicate 32 7)])
     (Some (bare_consistency (replicate 32 7))) None)"
proof -
  let ?p = "leaf_of (replicate 32 7)" and ?pf = "bare_consistency (replicate 32 7)"
  obtain claims where e: "encode_checkpoint_claims sample_record [?p] (Some [?p]) (Some ?pf) None = Inr claims"
    and s: "signs_and_reads (sample_packages claims) (\<lambda>_. Inr sample_signature) sample_key claims (text_of ''log'') (subject_of (text_of ''log'') 1)"
    by (rule sample_claims)
  have p: "length ?p = 32" by (simp add: leaf_of_def)
  show ?thesis
    using statement_verifies [OF sample_form e, of "sample_packages claims" "\<lambda>_. Inr sample_signature"] s sample_reads p
    by (auto simp: sample_ids sample_packages_def)
qed

text \<open>
  C26. Signing and verifying a checkpoint is a round trip: a record whose claims map is encoded and signed
  gives a statement that the offline verification accepts, and what it decodes is the record again, but
  for the signature and witnesses of the JSON form, with the peaks, the consistency proof and the
  cadence that were passed in.
\<close>

theorem cose_roundtrip:
  fixes lib :: "('x, 'n) CoseLib"
  assumes "record_form cp" "ck_key_id cp = hex_text public" "continuity_proved cp pf"
    "encode_checkpoint_claims cp new prev pf cadence = Inr claims"
    "2 \<le> lib_frames lib" "reads_commitment lib new" "case prev of None \<Rightarrow> True | Some pks \<Rightarrow> reads_commitment lib pks"
    "signs_and_reads lib sign public claims (ck_log_id cp) (subject_of (ck_log_id cp) (ck_mmr_size cp))" "knows_bytes lib"
  shows "\<exists>b d. checkpoint_to_cose lib cp (ed25519_checkpoint_signer lib sign public) new prev pf cadence = Inr b \<and>
    verify_checkpoint_cose_offline lib b = \<lparr>cv_ok = True, cv_decoded = Some d, cv_errors = []\<rparr> \<and>
    to_checkpoint_record d = cp\<lparr>ck_signature := [], ck_witnesses := []\<rparr> \<and>
    dc_new_peak_hashes d = new \<and> dc_consistency_proof d = pf \<and> dc_cadence_seconds d = cadence"
proof -
  obtain b where b: "checkpoint_to_cose lib cp (ed25519_checkpoint_signer lib sign public) new prev pf cadence = Inr b"
    "verify_steps lib b = Inr (decoded_of cp new prev pf cadence)"
    using statement_verifies [OF assms] by blast
  then show ?thesis
    by (intro exI [of _ b] exI [of _ "decoded_of cp new prev pf cadence"] conjI decoded_record assms(1))
      (simp_all add: verify_checkpoint_cose_offline_def decoded_of_def)
qed

theorem cose_roundtrip_witness:
  "\<exists>(lib :: (unit, unit) CoseLib) b d. cv_decoded (verify_checkpoint_cose_offline lib b) = Some d \<and> to_checkpoint_record d = sample_record \<and>
     dc_consistency_proof d = Some (bare_consistency (replicate 32 7))"
proof -
  let ?p = "leaf_of (replicate 32 7)" and ?pf = "bare_consistency (replicate 32 7)"
  obtain claims where e: "encode_checkpoint_claims sample_record [?p] (Some [?p]) (Some ?pf) None = Inr claims"
    and s: "signs_and_reads (sample_packages claims) (\<lambda>_. Inr sample_signature) sample_key claims (text_of ''log'') (subject_of (text_of ''log'') 1)"
    by (rule sample_claims)
  have p: "length ?p = 32" by (simp add: leaf_of_def)
  show ?thesis
    using cose_roundtrip [OF sample_form e, of "sample_packages claims" "\<lambda>_. Inr sample_signature"] s sample_reads p
    by (auto simp: sample_ids sample_packages_def) (metis CoseCheckpointVerification.select_convs(2) sample_unsigned)
qed

text \<open>
  C27. A verified statement cannot hide a rewrite: when the offline verification accepts a statement whose
  previous size and commitment are those of one state of a log and whose own are those of another, the
  second holds every record of the first, in place, and was only extended. SHA-256 is assumed not to
  collide on the inclusion proofs of these records and on the carried consistency proof.
\<close>

theorem cose_statement_binds_history:
  assumes "index_inv l" "index_inv l'" "ml_size l < MAX_MMR_SIZE" "ml_size l' < MAX_MMR_SIZE"
    "cv_decoded (verify_checkpoint_cose_offline lib b) = Some d"
    "dc_prev_size d = ml_size l" "root_hex l (ml_size l) = Inr (dc_prev_root d)"
    "dc_mmr_size d = ml_size l'" "root_hex l' (ml_size l') = Inr (dc_root d)"
    "inj_on sha256 (audit_queries l (length (ml_body_digests l)) (ml_size l) \<union>
       audit_queries l' (length (ml_body_digests l)) (ml_size l') \<union>
       (case dc_consistency_proof d of None \<Rightarrow> {} | Some p \<Rightarrow> set (consistency_queries (ml_size l) (ml_size l') p)))"
  shows "\<exists>more. ml_body_digests l' = ml_body_digests l @ more"
proof -
  have "check_continuity d = Inr ()" using assms(5) by (auto simp: verified_steps verify_steps_iff)
  then consider "dc_prev_size d = 0" | p root_a root_b where "dc_consistency_proof d = Some p"
      "fromhex_text (dc_prev_root d) = Inr root_a" "fromhex_text (dc_root d) = Inr root_b"
      "verify_consistency root_a (dc_prev_size d) root_b (dc_mmr_size d) (Some p)"
    using check_continuityD by blast
  then show ?thesis
  proof cases
    case 1
    then have "nodes_of (mountains (length (ml_body_digests l))) = nodes_of (mountains 0)"
      using assms(6) index_size [OF assms(1)] by simp
    then have "ml_body_digests l = []" using mountains_size_le [of "length (ml_body_digests l)" 0] by (simp add: MAX_MMR_SIZE_def)
    then show ?thesis by simp
  next
    case 2
    obtain ra rb where r: "root_at l (ml_size l) = Inr ra" "dc_prev_root d = hex_text ra"
      "root_at l' (ml_size l') = Inr rb" "dc_root d = hex_text rb"
      using root_hex_root_at [OF assms(7)] root_hex_root_at [OF assms(9)] by blast
    then show ?thesis
      using 2 assms(6,8,10) by (intro consistency_extends [OF assms(1-4) r(1,3), of p]) simp_all
  qed
qed

theorem cose_statement_binds_history_witness:
  "\<exists>(lib :: (unit, unit) CoseLib) (l :: unit MmrLedger) b d. cv_decoded (verify_checkpoint_cose_offline lib b) = Some d \<and>
     dc_prev_size d = 1 \<and> root_hex l 1 = Inr (dc_root d) \<and> (\<exists>more. ml_body_digests l = ml_body_digests l @ more)"
proof -
  let ?p = "leaf_of (replicate 32 7)" and ?pf = "bare_consistency (replicate 32 7)"
  obtain claims b where v: "verify_steps (sample_packages claims) b = Inr (decoded_of sample_record [?p] (Some [?p]) (Some ?pf) None)"
    using sample_verifies by blast
  obtain l l' :: "unit MmrLedger" where l: "index_inv l" "ml_body_digests l = [replicate 32 7]" "ml_size l = 1"
    by (rule two_leaf_index)
  have r: "root_hex l 1 = Inr (hex_text ?p)"
  proof -
    obtain root pf where "root_at l 1 = Inr root" "ml_inclusion_proof l 1 (Some 1) = Inr pf"
      "verify_inclusion root 1 0 (replicate 32 7) (Some pf)"
      using index_inclusion [OF l(1), of 0 1] l one_leaf(1) by (auto simp: MAX_MMR_SIZE_def)
    then show ?thesis
      using one_leaf bare_index_proof [of l] l(3) by (simp add: root_hex_def root_at_def bare_root)
  qed
  have a: "audit_queries l 1 1 = {0 # replicate 32 7}"
    using l by (simp add: audit_queries_def bare_index_proof bare_proofs lessThan_Suc)
  let ?d = "decoded_of sample_record [?p] (Some [?p]) (Some ?pf) None"
  have d: "cv_decoded (verify_checkpoint_cose_offline (sample_packages claims) b) = Some ?d" "dc_prev_size ?d = 1" "root_hex l 1 = Inr (dc_root ?d)"
    using v r by (simp_all add: verified_steps decoded_of_def sample_record_def)
  moreover have "\<exists>more. ml_body_digests l = ml_body_digests l @ more"
    by (rule cose_statement_binds_history [OF l(1,1) _ _ d(1)])
      (use r a l in \<open>simp_all add: decoded_of_def sample_record_def MAX_MMR_SIZE_def bare_proofs\<close>)
  ultimately show ?thesis by blast
qed

end
