(* ===== verification/Checkpoint_Runner.thy ===== *)
theory Checkpoint_Runner
  imports Cose_Statement Log_Journal
begin

text \<open>
  \<^verbatim>\<open>cll/checkpoint/runner.py\<close>: the runner that indexes a durable log into the node array its store keeps,
  signs a checkpoint when the cadence is due and queues the witness rows. The store is any that meets
  \<open>checkpoint_store\<close>; the results hold for the in-memory and the journal store, on which that contract is
  interpreted. The definitions run one pass from its load to its last commit; \<open>Checkpoint_Steps\<close> takes the pass apart
  into its calls of the store, between which producers and other runners act.
\<close>

section \<open>Configuration\<close>

text \<open>A \<^verbatim>\<open>timedelta\<close> is its number of microseconds.\<close>

record RunnerConfig =
  rc_signer :: CheckpointSigner
  rc_log_id :: pytext
  rc_witness_ids :: "pytext list"
  rc_cadence_entries :: int
  rc_cadence_age :: int
  rc_scan_limit :: int
  rc_poll_interval :: int

definition new_runner :: "RunnerConfig \<Rightarrow> RunnerConfig res" where
  "new_runner cfg =
     (if \<not> validate_identifier (rc_log_id cfg) \<or> \<not> (1 \<le> rc_scan_limit cfg \<and> rc_scan_limit cfg \<le> MAX_SCAN_LIMIT) \<or>
         rc_cadence_entries cfg < 1 \<or> rc_cadence_age cfg \<le> 0 \<or> rc_poll_interval cfg \<le> 0 then Inl InvalidError
      else if int (length (rc_witness_ids cfg)) > MAX_WITNESSES then Inl InvalidError
      else if \<not> list_all validate_identifier (rc_witness_ids cfg) then Inl InvalidError
      else if \<not> distinct (rc_witness_ids cfg) then Inl InvalidError
      else Inr cfg)"

text \<open>\<^verbatim>\<open>text.rstrip("0")\<close>\<close>

definition rstrip_zeros :: "pytext \<Rightarrow> pytext" where
  "rstrip_zeros t = rev (dropWhile (\<lambda>c. c = 48) (rev t))"

definition checkpoint_timestamp :: "datetime \<Rightarrow> pytext" where
  "checkpoint_timestamp v =
     (let text = take 19 (render_time (millis_of v)); fraction = rstrip_zeros (fixed 3 (millis_of v mod 1000)) in
      if fraction \<noteq> [] then text @ [46] @ fraction @ [90] else text @ [90])"

definition peaks_of :: "MemoryNodeStore \<Rightarrow> int \<Rightarrow> bytes list res" where
  "peaks_of nodes sz = bindR (peaks sz) (mapR (store_node nodes))"

section \<open>Loading\<close>

record Loaded =
  ld_state :: CllState
  ld_nodes :: MemoryNodeStore

text \<open>The exceptions a handler for \<^verbatim>\<open>ValueError\<close> catches here, turned into \<^verbatim>\<open>CorruptError\<close>.\<close>

definition value_errors :: "py_error list" where
  "value_errors = [ValueError, InvalidArgumentError, DuplicateMapKeyError, ReceiptEncodingError]"

definition or_corrupt :: "'a res \<Rightarrow> 'a res" where
  "or_corrupt m = (case m of Inl e \<Rightarrow> Inl (if e \<in> set value_errors then CorruptError else e) | Inr x \<Rightarrow> Inr x)"

definition verify_stored ::
  "('x, 'n) CoseLib \<Rightarrow> RunnerConfig \<Rightarrow> CllState \<Rightarrow> MemoryNodeStore \<Rightarrow> unit res" where
  "verify_stored lib cfg state nodes =
     (case cl_checkpoint state of None \<Rightarrow> Inr () | Some checkpoint \<Rightarrow>
        bindR (or_corrupt (leaf_count (cs_size checkpoint))) (\<lambda>leaves.
        if cs_size checkpoint > cl_size state \<or> leaves \<noteq> cs_indexed_seq checkpoint \<or> cs_indexed_seq checkpoint > cl_indexed_seq state
        then Inl CorruptError
        else
          bindR (peaks_of nodes (cs_size checkpoint)) (\<lambda>stored.
          if stored \<noteq> cs_peaks checkpoint then Inl CorruptError
          else (case verify_checkpoint_cose_offline lib (cs_bytes checkpoint) of verified \<Rightarrow>
            if \<not> cv_ok verified then Inl CorruptError
            else (case cv_decoded verified of None \<Rightarrow> Inl CorruptError | Some decoded \<Rightarrow>
              if dc_log_id decoded \<noteq> rc_log_id cfg \<or> dc_key_id decoded \<noteq> cs_key_id (rc_signer cfg) \<or>
                 dc_mmr_size decoded \<noteq> cs_size checkpoint \<or> dc_new_peak_hashes decoded \<noteq> cs_peaks checkpoint
              then Inl CorruptError
              else bindR (root_from_peaks (cs_peaks checkpoint)) (\<lambda>root.
                if dc_root decoded \<noteq> hex_text root then Inl CorruptError else Inr ()))))))"

definition load_state ::
  "('x, 'n) CoseLib \<Rightarrow> ('st \<Rightarrow> CllState res) \<Rightarrow> RunnerConfig \<Rightarrow> 'st \<Rightarrow> Loaded res" where
  "load_state lib load cfg st =
     bindR (load st) (\<lambda>state.
     let nodes = store_append_nodes new_store (cl_nodes state) in
     bindR (or_corrupt (leaf_count (cl_size state))) (\<lambda>leaves.
     if leaves \<noteq> cl_indexed_seq state \<or> cl_size state \<noteq> int (length (cl_nodes state)) then Inl CorruptError
     else bindR (verify_stored lib cfg state nodes) (\<lambda>_. Inr \<lparr>ld_state = state, ld_nodes = nodes\<rparr>)))"

section \<open>One step\<close>

text \<open>The loop over the scanned entries: nodes, last indexed sequence number, time of the first entry
  no checkpoint covers.\<close>

definition index_entry ::
  "MemoryNodeStore \<times> int \<times> datetime option \<Rightarrow> Entry \<Rightarrow> (MemoryNodeStore \<times> int \<times> datetime option) res" where
  "index_entry s entry =
     (case s of (nodes, indexed, first_pending) \<Rightarrow>
        if en_seq entry \<noteq> indexed + 1 then Inl CorruptError
        else
          bindR (or_corrupt (bindR (leaf_hash (en_value entry)) (add_leaf store_size store_node store_append_nodes nodes)))
            (\<lambda>(_, _, nodes).
          bindR (normalize_time CorruptError (en_appended_at entry)) (\<lambda>appended_at.
          Inr (nodes, en_seq entry, (case first_pending of None \<Rightarrow> Some appended_at | Some t \<Rightarrow> Some t)))))"

text \<open>\<^verbatim>\<open>now - first_pending >= cadence_age\<close>; a difference with a naive time raises.\<close>

definition aged :: "RunnerConfig \<Rightarrow> datetime \<Rightarrow> datetime \<Rightarrow> bool res" where
  "aged cfg now first_pending =
     (case (now, first_pending) of (Aware a, Aware b) \<Rightarrow> Inr (a - b \<ge> rc_cadence_age cfg) | _ \<Rightarrow> Inl TypeError)"

definition is_due :: "RunnerConfig \<Rightarrow> datetime \<Rightarrow> datetime option \<Rightarrow> int \<Rightarrow> bool res" where
  "is_due cfg now first_pending uncheckpointed =
     (case first_pending of None \<Rightarrow> Inr False | Some t \<Rightarrow>
        if uncheckpointed \<le> 0 then Inr False
        else if uncheckpointed \<ge> rc_cadence_entries cfg then Inr True
        else aged cfg now t)"

text \<open>The record and statement of a due checkpoint over \<open>nodes\<close>.\<close>

definition runner_record ::
  "RunnerConfig \<Rightarrow> datetime \<Rightarrow> int \<Rightarrow> bytes list \<Rightarrow> CheckpointState option \<Rightarrow> CheckpointRecord res" where
  "runner_record cfg now sz pks checkpoint =
     bindR (root_from_peaks pks) (\<lambda>root.
     bindR (case checkpoint of None \<Rightarrow> Inr [] | Some c \<Rightarrow> bindR (root_from_peaks (cs_peaks c)) (\<lambda>r. Inr (hex_text r))) (\<lambda>prev_root.
     Inr \<lparr>ck_v = 1, ck_kind = text_of ''mmr_checkpoint'', ck_log_id = rc_log_id cfg, ck_mmr_size = sz, ck_root = hex_text root,
       ck_prev_size = (case checkpoint of None \<Rightarrow> 0 | Some c \<Rightarrow> cs_size c), ck_prev_root = prev_root,
       ck_key_id = cs_key_id (rc_signer cfg), ck_timestamp = checkpoint_timestamp now, ck_signature = [], ck_witnesses = []\<rparr>))"

definition due_parts ::
  "RunnerConfig \<Rightarrow> datetime \<Rightarrow> MemoryNodeStore \<Rightarrow> CheckpointState option \<Rightarrow>
   (bytes list \<times> CheckpointRecord \<times> ConsistencyProof option) res" where
  "due_parts cfg now nodes checkpoint =
     (let sz = store_size nodes in
      bindR (peaks_of nodes sz) (\<lambda>pks.
      bindR (runner_record cfg now sz pks checkpoint) (\<lambda>cp.
      bindR (case checkpoint of None \<Rightarrow> Inr None | Some c \<Rightarrow>
        bindR (consistency_proof (store_size nodes) (store_node nodes) (cs_size c) sz) (\<lambda>p. Inr (Some p))) (\<lambda>pf.
      Inr (pks, cp, pf)))))"

definition sign_due ::
  "('x, 'n) CoseLib \<Rightarrow> RunnerConfig \<Rightarrow> datetime \<Rightarrow> MemoryNodeStore \<Rightarrow> int \<Rightarrow> CheckpointState option \<Rightarrow> CheckpointState res" where
  "sign_due lib cfg now nodes indexed checkpoint =
     bindR (due_parts cfg now nodes checkpoint) (\<lambda>(pks, cp, pf).
     bindR (checkpoint_to_cose lib cp (rc_signer cfg) pks (map_option cs_peaks checkpoint) pf None) (\<lambda>statement.
     Inr \<lparr>cs_bytes = statement, cs_size = store_size nodes, cs_indexed_seq = indexed, cs_peaks = pks\<rparr>))"

definition witness_row :: "CheckpointState \<Rightarrow> datetime \<Rightarrow> pytext \<Rightarrow> WitnessState" where
  "witness_row c now witness_id =
     \<lparr>ws_witness_id = witness_id, ws_checkpoint_size = cs_size c, ws_checkpoint = cs_bytes c, ws_attempts = 0,
      ws_next_attempt_at = now, ws_receipt = None, ws_permanent = False, ws_last_error = None\<rparr>"

text \<open>What the step is to commit: \<open>None\<close> when there is nothing to do.\<close>

definition next_state ::
  "('x, 'n) CoseLib \<Rightarrow> RunnerConfig \<Rightarrow> datetime \<Rightarrow> Loaded \<Rightarrow> Entry list \<Rightarrow> (CllState \<times> MemoryNodeStore) option res" where
  "next_state lib cfg now loaded entries =
     (let state = ld_state loaded in
      bindR (foldR index_entry (ld_nodes loaded, cl_indexed_seq state, cl_first_pending_at state) entries)
        (\<lambda>(nodes, indexed, first_pending).
      let last_checkpointed = (case cl_checkpoint state of None \<Rightarrow> 0 | Some c \<Rightarrow> cs_indexed_seq c) in
      bindR (is_due cfg now first_pending (indexed - last_checkpointed)) (\<lambda>due_now.
      bindR (if due_now then bindR (sign_due lib cfg now nodes indexed (cl_checkpoint state)) (\<lambda>c.
               Inr (Some c, None, cl_witnesses state @ map (witness_row c now) (rc_witness_ids cfg)))
             else Inr (cl_checkpoint state, first_pending, cl_witnesses state)) (\<lambda>(checkpoint, first_pending, witnesses).
      if entries = [] \<and> \<not> due_now then Inr None
      else
        bindR (mapR (store_node nodes) [0..store_size nodes - 1]) (\<lambda>all_nodes.
        Inr (Some (\<lparr>cl_size = store_size nodes, cl_nodes = all_nodes, cl_indexed_seq = indexed, cl_first_pending_at = first_pending,
          cl_checkpoint = checkpoint, cl_witnesses = witnesses\<rparr>, nodes)))))))"

definition advance ::
  "('x, 'n) CoseLib \<Rightarrow> ('st \<Rightarrow> int \<Rightarrow> int \<Rightarrow> Entry list res) \<Rightarrow> ('st \<Rightarrow> int \<Rightarrow> bytes option \<Rightarrow> CllState \<Rightarrow> unit res \<times> 'st) \<Rightarrow>
   RunnerConfig \<Rightarrow> datetime \<Rightarrow> Loaded \<Rightarrow> 'st \<Rightarrow> (bool \<times> Loaded) res \<times> 'st" where
  "advance lib scan commit cfg now loaded st =
     (let state = ld_state loaded in
      case bindR (scan st (cl_indexed_seq state) (rc_scan_limit cfg)) (next_state lib cfg now loaded) of
        Inl e \<Rightarrow> (Inl e, st)
      | Inr None \<Rightarrow> (Inr (False, loaded), st)
      | Inr (Some (nxt, nodes)) \<Rightarrow>
          (case commit st (cl_size state) (map_option cs_bytes (cl_checkpoint state)) nxt of
             (Inl e, st') \<Rightarrow> (Inl e, st')
           | (Inr _, st') \<Rightarrow> (Inr (True, \<lparr>ld_state = nxt, ld_nodes = nodes\<rparr>), st')))"

definition run_once ::
  "('x, 'n) CoseLib \<Rightarrow> ('st \<Rightarrow> CllState res) \<Rightarrow> ('st \<Rightarrow> int \<Rightarrow> int \<Rightarrow> Entry list res) \<Rightarrow>
   ('st \<Rightarrow> int \<Rightarrow> bytes option \<Rightarrow> CllState \<Rightarrow> unit res \<times> 'st) \<Rightarrow> RunnerConfig \<Rightarrow> datetime \<Rightarrow> 'st \<Rightarrow> bool res \<times> 'st" where
  "run_once lib load scan commit cfg now st =
     (case bindR (normalize_time InvalidError now) (\<lambda>now. bindR (load_state lib load cfg st) (\<lambda>loaded. Inr (now, loaded))) of
        Inl e \<Rightarrow> (Inl e, st)
      | Inr (now, loaded) \<Rightarrow>
          (case advance lib scan commit cfg now loaded st of
             (Inl e, st') \<Rightarrow> (Inl e, st')
           | (Inr (changed, _), st') \<Rightarrow> (Inr changed, st')))"

text \<open>
  The loop of \<^verbatim>\<open>_catch_up\<close>. \<open>stops\<close> are the answers of \<^verbatim>\<open>stop.is_set()\<close>, one per committed batch, \<open>False\<close> once
  they run out; \<open>fuel\<close> bounds the iterations, \<open>None\<close> when it runs out. \<open>catch_up_ends\<close> shows how much is
  enough.
\<close>

fun catch_up_loop ::
  "nat \<Rightarrow> ('x, 'n) CoseLib \<Rightarrow> ('st \<Rightarrow> CllState res) \<Rightarrow> ('st \<Rightarrow> int \<Rightarrow> int \<Rightarrow> Entry list res) \<Rightarrow>
   ('st \<Rightarrow> int \<Rightarrow> bytes option \<Rightarrow> CllState \<Rightarrow> unit res \<times> 'st) \<Rightarrow> RunnerConfig \<Rightarrow> datetime \<Rightarrow> bool list \<Rightarrow> bool \<Rightarrow> Loaded \<Rightarrow> 'st \<Rightarrow>
   (unit res \<times> 'st) option" where
  "catch_up_loop 0 lib load scan commit cfg now stops reloaded loaded st = None"
| "catch_up_loop (Suc fuel) lib load scan commit cfg now stops reloaded loaded st =
     (case advance lib scan commit cfg now loaded st of
        (Inl e, st) \<Rightarrow>
          if e \<noteq> ContentionError \<or> reloaded then Some (Inl e, st)
          else (case load_state lib load cfg st of
                  Inl e \<Rightarrow> Some (Inl e, st)
                | Inr loaded \<Rightarrow> catch_up_loop fuel lib load scan commit cfg now stops True loaded st)
      | (Inr (changed, loaded), st) \<Rightarrow>
          if \<not> changed \<or> (stops \<noteq> [] \<and> hd stops) then Some (Inr (), st)
          else catch_up_loop fuel lib load scan commit cfg now (tl stops) False loaded st)"

definition catch_up ::
  "nat \<Rightarrow> ('x, 'n) CoseLib \<Rightarrow> ('st \<Rightarrow> CllState res) \<Rightarrow> ('st \<Rightarrow> int \<Rightarrow> int \<Rightarrow> Entry list res) \<Rightarrow>
   ('st \<Rightarrow> int \<Rightarrow> bytes option \<Rightarrow> CllState \<Rightarrow> unit res \<times> 'st) \<Rightarrow> RunnerConfig \<Rightarrow> datetime \<Rightarrow> bool list \<Rightarrow> 'st \<Rightarrow> (unit res \<times> 'st) option" where
  "catch_up fuel lib load scan commit cfg now stops st =
     (case bindR (normalize_time InvalidError now) (\<lambda>now. bindR (load_state lib load cfg st) (\<lambda>loaded. Inr (now, loaded))) of
        Inl e \<Rightarrow> Some (Inl e, st)
      | Inr (now, loaded) \<Rightarrow> catch_up_loop fuel lib load scan commit cfg now stops False loaded st)"

section \<open>The durable index\<close>

text \<open>
  What the runner keeps of a log with entries \<open>es\<close>: the node array is the range over the values of the
  indexed entries, and the checkpoint is one of a prefix of them.
\<close>

definition leaves :: "Entry list \<Rightarrow> int \<Rightarrow> bytes list" where
  "leaves es n = map en_value (take (nat n) es)"

definition genuine :: "bytes list \<Rightarrow> int \<Rightarrow> CheckpointState \<Rightarrow> bool" where
  "genuine nodes indexed c \<longleftrightarrow> 0 < cs_indexed_seq c \<and> cs_indexed_seq c \<le> indexed \<and>
     cs_size c = nodes_of (mountains (nat (cs_indexed_seq c))) \<and> cs_peaks c = peak_hashes nodes (nat (cs_indexed_seq c))"

definition runner_state :: "Entry list \<Rightarrow> CllState \<Rightarrow> bool" where
  "runner_state es s \<longleftrightarrow>
     0 \<le> cl_indexed_seq s \<and> cl_indexed_seq s \<le> int (length es) \<and> mmr_of (cl_nodes s) (leaves es (cl_indexed_seq s)) \<and>
     (case cl_checkpoint s of None \<Rightarrow> True | Some c \<Rightarrow> genuine (cl_nodes s) (cl_indexed_seq s) c)"

definition loaded_ok :: "Entry list \<Rightarrow> Loaded \<Rightarrow> bool" where
  "loaded_ok es loaded \<longleftrightarrow> runner_state es (ld_state loaded) \<and> store_nodes (ld_nodes loaded) = cl_nodes (ld_state loaded)"

lemma length_leaves: "0 \<le> n \<Longrightarrow> n \<le> int (length es) \<Longrightarrow> length (leaves es n) = nat n"
  by (simp add: leaves_def)

lemma peak_hashes_append:
  assumes "mmr_of ns ds" "k \<le> length ds"
  shows "peak_hashes (ns @ new) k = peak_hashes ns k"
proof -
  have "nodes_of (mountains k) \<le> int (length ns)"
    using assms nodes_of_mountains_mono [OF assms(2)] by (simp add: mmr_of_def mmr_inv_def)
  then show ?thesis
    unfolding peak_hashes_def using peak_position_bounds [of _ 0 "mountains k"] by (force intro!: at_append)
qed

lemma genuine_append:
  assumes "genuine ns indexed c" "mmr_of ns ds" "int (length ds) = indexed" "indexed \<le> indexed'"
  shows "genuine (ns @ new) indexed' c"
  using assms peak_hashes_append [OF assms(2), of "nat (cs_indexed_seq c)" new] by (auto simp: genuine_def)

lemma add_leaf_range:
  assumes "mmr_of (store_nodes s) ds" "leaf_hash v = Inr lf" "add_leaf store_size store_node store_append_nodes s lf = Inr (n, new, s')"
  shows "mmr_of (store_nodes s') (ds @ [v])" "\<exists>ext. store_nodes s' = store_nodes s @ ext" "store_size s < MAX_MMR_SIZE"
proof -
  have v: "digest v" "lf = leaf_of v" "digest lf" using assms(2) by (auto simp: leaf_hash_eq_Inr leaf_of_def)
  show size: "store_size s < MAX_MMR_SIZE"
  proof (cases "store_size s = 0")
    case False
    with assms(3) obtain ps where "peaks (store_size s) = Inr ps" by (auto simp: add_leaf_def bindR_eq_Inr Let_def split: if_splits)
    then show ?thesis by (auto simp: peaks_def split: if_splits)
  qed (simp add: MAX_MMR_SIZE_def)
  have "mmr_inv (store_nodes s) (map leaf_of ds)" using assms(1) by (simp add: mmr_of_def)
  from mem.add_leaf_correct [OF this size v(3)] assms(3)
  show "mmr_of (store_nodes s') (ds @ [v])" "\<exists>ext. store_nodes s' = store_nodes s @ ext"
    using assms(1) v(1,2) by (auto simp: mmr_of_def)
qed

lemma or_corrupt_Inr [simp]: "or_corrupt m = Inr x \<longleftrightarrow> m = Inr x"
  by (auto simp: or_corrupt_def split: sum.splits)

lemma or_corrupt_done [simp]: "or_corrupt (Inr x) = Inr x"
  by (simp add: or_corrupt_def)

lemma index_entry_Inr:
  assumes "index_entry (nodes, n, fp) e = Inr r"
  obtains k new nodes1 t lf where "en_seq e = n + 1" "leaf_hash (en_value e) = Inr lf"
    "add_leaf store_size store_node store_append_nodes nodes lf = Inr (k, new, nodes1)"
    "normalize_time CorruptError (en_appended_at e) = Inr t"
    "r = (nodes1, n + 1, case fp of None \<Rightarrow> Some t | Some t \<Rightarrow> Some t)"
  using assms by (auto simp: index_entry_def bindR_eq_Inr split: if_splits)

lemma index_entries:
  "foldR index_entry (nodes, n, fp) page = Inr (nodes', n', fp') \<Longrightarrow> mmr_of (store_nodes nodes) ds \<Longrightarrow>
     mmr_of (store_nodes nodes') (ds @ map en_value page) \<and> n' = n + int (length page) \<and>
     (\<exists>ext. store_nodes nodes' = store_nodes nodes @ ext) \<and> (fp = None \<and> page = [] \<longrightarrow> fp' = None)"
proof (induction page arbitrary: nodes n fp ds)
  case (Cons e page)
  obtain r where r: "index_entry (nodes, n, fp) e = Inr r" "foldR index_entry r page = Inr (nodes', n', fp')"
    using Cons.prems(1) unfolding foldR.simps by (auto simp only: bindR_eq_Inr)
  obtain k new nodes1 t lf where s: "leaf_hash (en_value e) = Inr lf"
    "add_leaf store_size store_node store_append_nodes nodes lf = Inr (k, new, nodes1)"
    "r = (nodes1, n + 1, case fp of None \<Rightarrow> Some t | Some t \<Rightarrow> Some t)"
    using index_entry_Inr [OF r(1)] by metis
  note a = add_leaf_range [OF Cons.prems(2) s(1,2)]
  show ?case using Cons.IH [OF r(2) [unfolded s(3)] a(1)] a(2) by auto
qed simp

text \<open>All nodes, read one by one.\<close>

lemma all_nodes: "mapR (store_node s) [0..store_size s - 1] = Inr (store_nodes s)"
proof -
  have "mapR (store_node s) [0..store_size s - 1] = Inr (map (at (store_nodes s)) [0..store_size s - 1])"
    by (rule mapR_Inr) (simp add: mem.node_contents)
  moreover have "map (at (store_nodes s)) [0..store_size s - 1] = store_nodes s"
    by (rule nth_equalityI) (auto simp: store_size_def at_def nth_upto)
  ultimately show ?thesis by simp
qed

lemma peaks_of_range:
  assumes "mmr_of (store_nodes nodes) ds" "k \<le> length ds" "nodes_of (mountains k) < MAX_MMR_SIZE"
  shows "peaks_of nodes (nodes_of (mountains k)) = Inr (peak_hashes (store_nodes nodes) k)"
    "\<forall>p\<in>set (peak_hashes (store_nodes nodes) k). digest p"
  using mem.node_peaks [OF assms(1,2) order_refl] by (simp_all add: peaks_of_def peaks_at [OF assms(3)] peak_hashes_def)

lemma sign_due_genuine:
  assumes "sign_due lib cfg now nodes indexed ck = Inr c" "mmr_of (store_nodes nodes) ds" "int (length ds) = indexed" "ds \<noteq> []"
  shows "genuine (store_nodes nodes) indexed c" "cs_size c = store_size nodes" "cs_indexed_seq c = indexed"
proof -
  have size: "store_size nodes = nodes_of (mountains (length ds))" using mem.array_length [OF assms(2)] by (simp add: store_size_def)
  obtain pks statement where p: "peaks_of nodes (store_size nodes) = Inr pks"
    "c = \<lparr>cs_bytes = statement, cs_size = store_size nodes, cs_indexed_seq = indexed, cs_peaks = pks\<rparr>"
    using assms(1) unfolding sign_due_def due_parts_def Let_def by (auto simp only: bindR_eq_Inr sum.inject prod.case)
  have "nodes_of (mountains (length ds)) < MAX_MMR_SIZE"
    using p(1) unfolding size peaks_of_def by (auto simp: bindR_eq_Inr peaks_def split: if_splits)
  then have "pks = peak_hashes (store_nodes nodes) (length ds)"
    using peaks_of_range(1) [OF assms(2) order_refl] p(1) size by simp
  then show "genuine (store_nodes nodes) indexed c" "cs_size c = store_size nodes" "cs_indexed_seq c = indexed"
    using assms(3,4) by (auto simp: p(2) genuine_def size)
qed

lemma bindR_InrE: "bindR m f = Inr y \<Longrightarrow> (\<And>x. m = Inr x \<Longrightarrow> f x = Inr y \<Longrightarrow> thesis) \<Longrightarrow> thesis"
  by (auto simp: bindR_eq_Inr)

lemma next_state_Inr:
  assumes "next_state lib cfg now loaded page = Inr (Some (nxt, nodes))"
  obtains indexed fp due_now ck fp' ws where
    "foldR index_entry (ld_nodes loaded, cl_indexed_seq (ld_state loaded), cl_first_pending_at (ld_state loaded)) page = Inr (nodes, indexed, fp)"
    "is_due cfg now fp (indexed - (case cl_checkpoint (ld_state loaded) of None \<Rightarrow> 0 | Some c \<Rightarrow> cs_indexed_seq c)) = Inr due_now"
    "(if due_now then bindR (sign_due lib cfg now nodes indexed (cl_checkpoint (ld_state loaded))) (\<lambda>c.
               Inr (Some c, None, cl_witnesses (ld_state loaded) @ map (witness_row c now) (rc_witness_ids cfg)))
             else Inr (cl_checkpoint (ld_state loaded), fp, cl_witnesses (ld_state loaded))) = Inr (ck, fp', ws)"
    "\<not> (page = [] \<and> \<not> due_now)"
    "nxt = \<lparr>cl_size = store_size nodes, cl_nodes = store_nodes nodes, cl_indexed_seq = indexed, cl_first_pending_at = fp',
          cl_checkpoint = ck, cl_witnesses = ws\<rparr>"
  using assms unfolding next_state_def Let_def
proof (elim bindR_InrE, goal_cases)
  case (1 x)
  obtain nodes0 indexed fp where x: "x = (nodes0, indexed, fp)" by (cases x)
  from 1(3) [unfolded x prod.case] show ?case
  proof (elim bindR_InrE, goal_cases)
    case (1 due_now y)
    obtain ck fp' ws where y: "y = (ck, fp', ws)" by (cases y)
    have p: "\<not> (page = [] \<and> \<not> due_now)" "nodes = nodes0" "nxt = \<lparr>cl_size = store_size nodes, cl_nodes = store_nodes nodes,
        cl_indexed_seq = indexed, cl_first_pending_at = fp', cl_checkpoint = ck, cl_witnesses = ws\<rparr>"
      using 1(3) by (auto simp: y all_nodes split: if_splits)
    show ?case
      using that [OF \<open>foldR _ _ _ = _\<close> [unfolded x p(2) [symmetric]] 1(1) 1(2) [unfolded y p(2) [symmetric]] p(1,3)] .
  qed
qed

lemma next_state_ok:
  assumes "loaded_ok es loaded" "next_state lib cfg now loaded (take k (drop (nat (cl_indexed_seq (ld_state loaded))) es)) = Inr (Some (nxt, nodes))"
  shows "loaded_ok es \<lparr>ld_state = nxt, ld_nodes = nodes\<rparr>" "\<exists>ext. cl_nodes nxt = cl_nodes (ld_state loaded) @ ext"
    "cl_indexed_seq nxt = cl_indexed_seq (ld_state loaded) + int (length (take k (drop (nat (cl_indexed_seq (ld_state loaded))) es)))"
    "cl_size nxt = int (length (cl_nodes nxt))"
    "take k (drop (nat (cl_indexed_seq (ld_state loaded))) es) = [] \<Longrightarrow>
       cl_first_pending_at nxt = None \<and> cl_first_pending_at (ld_state loaded) \<noteq> None"
proof -
  let ?s = "ld_state loaded" and ?i = "cl_indexed_seq (ld_state loaded)"
  let ?page = "take k (drop (nat ?i) es)"
  have s: "runner_state es ?s" "store_nodes (ld_nodes loaded) = cl_nodes ?s" using assms(1) by (simp_all add: loaded_ok_def)
  let ?last = "(case cl_checkpoint ?s of None \<Rightarrow> 0 | Some c \<Rightarrow> cs_indexed_seq c)"
  obtain indexed fp due_now ck fp' ws where f:
    "foldR index_entry (ld_nodes loaded, ?i, cl_first_pending_at ?s) ?page = Inr (nodes, indexed, fp)"
    "is_due cfg now fp (indexed - ?last) = Inr due_now"
    "(if due_now then bindR (sign_due lib cfg now nodes indexed (cl_checkpoint ?s)) (\<lambda>c.
               Inr (Some c, None, cl_witnesses ?s @ map (witness_row c now) (rc_witness_ids cfg)))
             else Inr (cl_checkpoint ?s, fp, cl_witnesses ?s)) = Inr (ck, fp', ws)"
    "\<not> (?page = [] \<and> \<not> due_now)"
    "nxt = \<lparr>cl_size = store_size nodes, cl_nodes = store_nodes nodes, cl_indexed_seq = indexed, cl_first_pending_at = fp',
          cl_checkpoint = ck, cl_witnesses = ws\<rparr>"
    by (rule next_state_Inr [OF assms(2)])
  have r: "mmr_of (cl_nodes ?s) (leaves es ?i)" "0 \<le> ?i" "?i \<le> int (length es)" using s(1) by (simp_all add: runner_state_def)
  note i = index_entries [OF f(1), of "leaves es ?i", unfolded s(2), OF r(1)]
  let ?n = "?i + int (length ?page)"
  have n: "?n \<le> int (length es)" "indexed = ?n" using r i by auto
  have l: "leaves es ?i @ map en_value ?page = leaves es ?n"
    using r(2,3) by (simp add: leaves_def nat_add_distrib take_add min_def take_map flip: map_append)
  obtain ext where ext: "store_nodes nodes = cl_nodes ?s @ ext" using i by blast
  have m: "mmr_of (store_nodes nodes) (leaves es ?n)" using i l by simp
  have len: "length (leaves es ?n) = nat ?n" using n r by (intro length_leaves) auto
  have ck: "case ck of None \<Rightarrow> True | Some c \<Rightarrow> genuine (store_nodes nodes) ?n c"
  proof (cases due_now)
    case False
    then have "ck = cl_checkpoint ?s" using f(3) by simp
    then show ?thesis
      using s(1) genuine_append [OF _ r(1), of ?i _ ?n ext] r(2,3) by (auto simp: runner_state_def ext length_leaves split: option.splits)
  next
    case True
    then obtain c where c: "sign_due lib cfg now nodes indexed (cl_checkpoint ?s) = Inr c" "ck = Some c"
      using f(3) by (auto simp: bindR_eq_Inr)
    have "0 < indexed - ?last" using f(2) True by (auto simp: is_due_def split: option.splits if_splits)
    moreover have "0 \<le> ?last" using s(1) by (auto simp: runner_state_def genuine_def split: option.splits)
    ultimately have "leaves es ?n \<noteq> []" using len n by auto
    then show ?thesis using sign_due_genuine(1) [OF c(1) m] len n r(2) by (simp add: c(2))
  qed
  show "loaded_ok es \<lparr>ld_state = nxt, ld_nodes = nodes\<rparr>"
    using n r(2) m ck by (cases ck) (simp_all add: loaded_ok_def runner_state_def f(5))
  show "\<exists>ext. cl_nodes nxt = cl_nodes ?s @ ext" using ext by (simp add: f(5))
  show "cl_indexed_seq nxt = ?n" using n(2) by (simp add: f(5))
  show "cl_size nxt = int (length (cl_nodes nxt))" by (simp add: f(5) store_size_def)
  show "cl_first_pending_at nxt = None \<and> cl_first_pending_at ?s \<noteq> None" if "?page = []"
  proof -
    have "due_now" "fp = cl_first_pending_at ?s" using f(1,4) that by auto
    then show ?thesis using f(2,3) by (auto simp: f(5) is_due_def bindR_eq_Inr split: option.splits)
  qed
qed

section \<open>A pass over any store\<close>

lemma load_state_ok:
  assumes "load_state lib load cfg st = Inr loaded"
  shows "load st = Inr (ld_state loaded)" "store_nodes (ld_nodes loaded) = cl_nodes (ld_state loaded)"
  using assms by (auto simp: load_state_def Let_def bindR_eq_Inr mem.append_contents new_store_def split: if_splits)

lemma runner_state_cong:
  "cl_indexed_seq s = cl_indexed_seq t \<Longrightarrow> cl_nodes s = cl_nodes t \<Longrightarrow> cl_checkpoint s = cl_checkpoint t \<Longrightarrow>
     runner_state es s = runner_state es t"
  by (cases "cl_checkpoint t") (simp_all add: runner_state_def)

lemma state_ok_indexed:
  assumes "state_ok s" "mmr_of (cl_nodes s) ds"
  shows "cl_indexed_seq s = int (length ds)"
proof -
  have "cl_size s = nodes_of (mountains (length ds))"
    using assms by (simp add: state_ok_def mmr_of_def mmr_inv_def)
  moreover have "mmr_leaf_count (cl_size s) = Some (cl_indexed_seq s)"
    using assms(1) unfolding state_ok_def by blast
  moreover have "mmr_leaf_count (nodes_of (mountains (length ds))) = Some (int (length ds))"
    using leaf_count_loop_complete [of "mountains (length ds)" None 0] by (simp add: mmr_leaf_count_def below_def)
  ultimately show ?thesis by simp
qed

lemma apply_cll_first_pending:
  "apply_cll cur es ec nxt = Inr s \<Longrightarrow> cl_first_pending_at s = None \<longleftrightarrow> cl_first_pending_at nxt = None"
  by (auto simp: apply_cll_def validate_state_def validate_metadata_def bindR_eq_Inr split: if_splits option.splits)

context checkpoint_store
begin

definition good :: "'st \<Rightarrow> bool" where
  "good st \<longleftrightarrow> inv st \<and> runner_state (entries st) (cll st)"

text \<open>The exceptions in \<open>E\<close> leave a store usable when \<open>commit\<close> raises them.\<close>

definition survives :: "py_error set \<Rightarrow> bool" where
  "survives E \<longleftrightarrow> (\<forall>e\<in>E. \<forall>st es ec nxt st'. commit st es ec nxt = (Inl e, st') \<longrightarrow> inv st \<longrightarrow> inv st')"

text \<open>What a loaded state has to do with the store: it is the stored one up to what the engine merges.\<close>

definition current :: "Loaded \<Rightarrow> 'st \<Rightarrow> bool" where
  "current loaded st \<longleftrightarrow> loaded_ok (entries st) loaded \<and> cl_indexed_seq (ld_state loaded) = cl_indexed_seq (cll st) \<and>
     (cl_first_pending_at (ld_state loaded) = None \<longleftrightarrow> cl_first_pending_at (cll st) = None)"

lemma load_current:
  assumes "good st" "load_state lib load cfg st = Inr loaded"
  shows "current loaded st"
  using load_state_ok [OF assms(2)] assms(1) load_ok [of st] by (auto simp: current_def good_def loaded_ok_def)

lemma advance_fails:
  assumes "good st" "advance lib scan commit cfg now loaded st = (Inl e, st')"
  shows "entries st' = entries st" "cll st' = cll st" "survives E \<Longrightarrow> e \<in> E \<Longrightarrow> good st'"
proof -
  show eq: "entries st' = entries st" "cll st' = cll st"
    using assms commit_fails [of st] by (auto simp: advance_def Let_def good_def split: sum.splits option.splits prod.splits)
  assume E: "survives E" "e \<in> E"
  have "inv st'"
    using assms E by (auto simp: survives_def advance_def Let_def good_def split: sum.splits option.splits prod.splits)
  then show "good st'" using assms(1) by (simp add: good_def eq)
qed

lemma advance_done:
  assumes good: "good st" and cur: "current loaded st" and lim: "1 \<le> rc_scan_limit cfg" "rc_scan_limit cfg \<le> MAX_SCAN_LIMIT"
    and adv: "advance lib scan commit cfg now loaded st = (Inr (changed, loaded'), st')"
  shows "good st' \<and> current loaded' st' \<and> entries st' = entries st \<and>
    (if \<not> changed then st' = st \<and> cl_indexed_seq (cll st) = int (length (entries st))
     else cll_le (cll st) (cll st') \<and>
       (cl_indexed_seq (cll st) < cl_indexed_seq (cll st') \<or>
        cl_indexed_seq (cll st') = cl_indexed_seq (cll st) \<and> cl_first_pending_at (cll st') = None \<and> cl_first_pending_at (cll st) \<noteq> None))"
proof -
  let ?s = "ld_state loaded" and ?i = "cl_indexed_seq (ld_state loaded)"
  have inv: "inv st" and ok: "loaded_ok (entries st) loaded" and i: "?i = cl_indexed_seq (cll st)"
    using good cur by (simp_all add: good_def current_def)
  have r: "0 \<le> ?i" "?i \<le> int (length (entries st))" using ok by (simp_all add: loaded_ok_def runner_state_def)
  then have scan: "scan st ?i (rc_scan_limit cfg) = Inr (take (nat (rc_scan_limit cfg)) (drop (nat ?i) (entries st)))"
    using lim bounded [OF inv] by (intro scan_page [OF inv]) auto
  let ?page = "take (nat (rc_scan_limit cfg)) (drop (nat ?i) (entries st))"
  consider "\<not> changed" "loaded' = loaded" "st' = st" "next_state lib cfg now loaded ?page = Inr None"
    | nxt nodes where "changed" "next_state lib cfg now loaded ?page = Inr (Some (nxt, nodes))"
      "commit st (cl_size ?s) (map_option cs_bytes (cl_checkpoint ?s)) nxt = (Inr (), st')" "loaded' = \<lparr>ld_state = nxt, ld_nodes = nodes\<rparr>"
    using adv by (auto simp: advance_def Let_def scan split: sum.splits option.splits prod.splits)
  then show ?thesis
  proof cases
    case 1
    have "?page = []" using 1(4) by (auto simp: next_state_def Let_def bindR_eq_Inr split: if_splits prod.splits)
    then have "?i = int (length (entries st))" using lim r by auto
    then show ?thesis using 1 good cur i by simp
  next
    case 2
    note n = next_state_ok [OF ok 2(2)]
    have c: "inv st'" "entries st' = entries st" "apply_cll (cll st) (cl_size ?s) (map_option cs_bytes (cl_checkpoint ?s)) nxt = Inr (cll st')"
      using commit_done [OF inv 2(3)] by blast+
    note a = apply_cll_ok [OF valid [OF inv] c(3)]
    have nr: "runner_state (entries st) nxt" using n(1) by (simp add: loaded_ok_def)
    have idx: "cl_indexed_seq (cll st') = cl_indexed_seq nxt"
    proof -
      have "mmr_of (cl_nodes (cll st')) (leaves (entries st) (cl_indexed_seq nxt))" using nr a(5) by (simp add: runner_state_def)
      from state_ok_indexed [OF a(1) this] show ?thesis using nr by (simp add: runner_state_def length_leaves)
    qed
    have fp: "cl_first_pending_at (cll st') = None \<longleftrightarrow> cl_first_pending_at nxt = None"
      by (rule apply_cll_first_pending [OF c(3)])
    have "good st'" using nr c(1,2) runner_state_cong [OF idx a(5,6)] by (simp add: good_def)
    moreover have "current loaded' st'" using n(1) c(2) idx fp by (simp add: current_def 2(4))
    moreover have "cl_indexed_seq (cll st) < cl_indexed_seq (cll st') \<or>
        cl_indexed_seq (cll st') = cl_indexed_seq (cll st) \<and> cl_first_pending_at (cll st') = None \<and> cl_first_pending_at (cll st) \<noteq> None"
    proof (cases "?page = []")
      case True
      have "cl_indexed_seq (cll st') = cl_indexed_seq (cll st)" using n(3) idx i unfolding True by simp
      then show ?thesis using n(5) [OF True] fp cur by (auto simp: current_def)
    next
      case False
      then have "0 < length ?page" by blast
      then show ?thesis using n(3) idx i by linarith
    qed
    ultimately show ?thesis using 2(1) a(2) c(2) by simp
  qed
qed

lemma run_once_ok:
  assumes good: "good st" and lim: "1 \<le> rc_scan_limit cfg" "rc_scan_limit cfg \<le> MAX_SCAN_LIMIT"
    and run: "run_once lib load scan commit cfg now st = (r, st')"
  shows "entries st' = entries st \<and> runner_state (entries st') (cll st') \<and> cll_le (cll st) (cll st') \<and>
    (case r of Inl e \<Rightarrow> cll st' = cll st \<and> (survives E \<longrightarrow> e \<in> E \<longrightarrow> good st') | Inr changed \<Rightarrow> good st' \<and> (\<not> changed \<longrightarrow> cl_indexed_seq (cll st') = int (length (entries st'))))"
proof (cases "bindR (normalize_time InvalidError now) (\<lambda>now. bindR (load_state lib load cfg st) (\<lambda>loaded. Inr (now, loaded)))")
  case (Inl e)
  then show ?thesis using run good by (auto simp: run_once_def good_def)
next
  case (Inr p)
  then obtain now' loaded where p: "p = (now', loaded)" "load_state lib load cfg st = Inr loaded" by (auto simp: bindR_eq_Inr)
  note cur = load_current [OF good p(2)]
  obtain q st1 where adv: "advance lib scan commit cfg now' loaded st = (q, st1)" by fastforce
  show ?thesis
  proof (cases q)
    case (Inl e)
    then show ?thesis using run adv Inr p advance_fails [OF good, of lib cfg now' loaded e st1] good
      by (auto simp: run_once_def good_def)
  next
    case (Inr c)
    obtain changed loaded' where c: "c = (changed, loaded')" by (cases c)
    have "r = Inr changed" "st' = st1" using run adv Inr p c \<open>bindR _ _ = Inr p\<close> by (auto simp: run_once_def)
    then show ?thesis using advance_done [OF good cur lim, of lib now' changed loaded' st1] adv Inr c
      by (auto simp: good_def split: if_splits)
  qed
qed

text \<open>
  The measure of the loop: twice the entries left to index, the checkpoint that may still be due, the
  reload that contention may force.
\<close>

definition work :: "'st \<Rightarrow> bool \<Rightarrow> nat" where
  "work st reloaded = 2 * (2 * nat (int (length (entries st)) - cl_indexed_seq (cll st)) +
     (if cl_first_pending_at (cll st) = None then 0 else 1)) + (if reloaded then 0 else 1)"

lemma catch_up_loop_ends:
  assumes "good st" "current loaded st" "1 \<le> rc_scan_limit cfg" "rc_scan_limit cfg \<le> MAX_SCAN_LIMIT"
    "survives E" "ContentionError \<in> E"
    "work st reloaded < fuel"
  shows "\<exists>r st'. catch_up_loop fuel lib load scan commit cfg now stops reloaded loaded st = Some (r, st') \<and>
    entries st' = entries st \<and> runner_state (entries st') (cll st') \<and> cll_le (cll st) (cll st') \<and>
    (case r of Inl e \<Rightarrow> e \<in> E \<longrightarrow> good st'
     | Inr _ \<Rightarrow> good st' \<and> (True \<notin> set stops \<longrightarrow> cl_indexed_seq (cll st') = int (length (entries st'))))"
  using assms(1,2,7)
proof (induction fuel arbitrary: loaded st stops reloaded)
  case (Suc fuel)
  obtain q st1 where adv: "advance lib scan commit cfg now loaded st = (q, st1)" by fastforce
  show ?case
  proof (cases q)
    case (Inl e)
    note f = advance_fails [OF Suc.prems(1), of lib cfg now loaded e st1]
    have f: "entries st1 = entries st" "cll st1 = cll st" "e \<in> E \<Longrightarrow> good st1" using f adv Inl assms(5) by auto
    have g: "runner_state (entries st1) (cll st1)" using f Suc.prems(1) by (simp add: good_def)
    show ?thesis
    proof (cases "e \<noteq> ContentionError \<or> reloaded")
      case True
      then show ?thesis using adv Inl f g by auto
    next
      case False
      then have good: "good st1" using f(3) assms(6) by simp
      show ?thesis
      proof (cases "load_state lib load cfg st1")
        case (Inl e')
        then show ?thesis using adv \<open>q = Inl e\<close> False f g good by auto
      next
        case (Inr loaded')
        have "work st1 True < fuel" using Suc.prems(3) False f by (simp add: work_def)
        from Suc.IH [OF good load_current [OF good Inr] this, of stops] show ?thesis
          using adv \<open>q = Inl e\<close> False f(1,2) Inr by simp
      qed
    qed
  next
    case (Inr c)
    obtain changed loaded' where c: "c = (changed, loaded')" by (cases c)
    note d = advance_done [OF Suc.prems(1,2) assms(3,4), of lib now changed loaded' st1]
    have d: "good st1" "current loaded' st1" "entries st1 = entries st"
      "\<not> changed \<Longrightarrow> cl_indexed_seq (cll st1) = int (length (entries st))"
      "changed \<Longrightarrow> cl_indexed_seq (cll st) < cl_indexed_seq (cll st1) \<or>
        cl_indexed_seq (cll st1) = cl_indexed_seq (cll st) \<and> cl_first_pending_at (cll st1) = None \<and> cl_first_pending_at (cll st) \<noteq> None"
      using d adv Inr c by (auto split: if_splits)
    have le: "cll_le (cll st) (cll st1)"
      using advance_done [OF Suc.prems(1,2) assms(3,4), of lib now changed loaded' st1] adv Inr c by (auto split: if_splits)
    have b: "cl_indexed_seq (cll st1) \<le> int (length (entries st))" using d(1,3) by (simp add: good_def runner_state_def)
    show ?thesis
    proof (cases "\<not> changed \<or> (stops \<noteq> [] \<and> hd stops)")
      case True
      then have "True \<in> set stops \<or> cl_indexed_seq (cll st1) = int (length (entries st))" using d(4) by (cases stops) auto
      then show ?thesis using True adv Inr c d(1,3) le by (auto simp: good_def)
    next
      case False
      then have "work st1 False < work st reloaded" using d(3,5) b by (auto simp: work_def)
      then have "work st1 False < fuel" using Suc.prems(3) by simp
      from Suc.IH [OF d(1,2) this, of "tl stops"] False show ?thesis
        using adv Inr c d(3) cll_le_trans [OF le] by (cases stops) (auto split: sum.splits)
    qed
  qed
qed simp

lemma catch_up_ok:
  assumes "good st" "1 \<le> rc_scan_limit cfg" "rc_scan_limit cfg \<le> MAX_SCAN_LIMIT"
    "survives E" "ContentionError \<in> E"
    "4 * length (entries st) + 3 < fuel"
  shows "\<exists>r st'. catch_up fuel lib load scan commit cfg now stops st = Some (r, st') \<and>
    entries st' = entries st \<and> runner_state (entries st') (cll st') \<and> cll_le (cll st) (cll st') \<and>
    (case r of Inl e \<Rightarrow> e \<in> E \<longrightarrow> good st'
     | Inr _ \<Rightarrow> good st' \<and> (True \<notin> set stops \<longrightarrow> cl_indexed_seq (cll st') = int (length (entries st'))))"
proof (cases "bindR (normalize_time InvalidError now) (\<lambda>now. bindR (load_state lib load cfg st) (\<lambda>loaded. Inr (now, loaded)))")
  case (Inl e)
  then show ?thesis using assms(1) by (auto simp: catch_up_def good_def)
next
  case (Inr p)
  then obtain now' loaded where p: "p = (now', loaded)" "load_state lib load cfg st = Inr loaded" by (auto simp: bindR_eq_Inr)
  have "0 \<le> cl_indexed_seq (cll st)" using assms(1) by (simp add: good_def runner_state_def)
  then have "work st False < fuel" using assms(6) by (auto simp: work_def)
  from catch_up_loop_ends [OF assms(1) load_current [OF assms(1) p(2)] assms(2-5) this] Inr p(1)
  show ?thesis by (simp add: catch_up_def)
qed

lemma catch_up_indexes:
  assumes "good st" "1 \<le> rc_scan_limit cfg" "rc_scan_limit cfg \<le> MAX_SCAN_LIMIT"
    "survives E" "ContentionError \<in> E" "4 * length (entries st) + 3 < fuel"
  shows "\<exists>r st'. catch_up fuel lib load scan commit cfg now stops st = Some (r, st') \<and>
    entries st' = entries st \<and> cll_le (cll st) (cll st') \<and>
    (r = Inr () \<and> True \<notin> set stops \<longrightarrow> mmr_of (cl_nodes (cll st')) (map en_value (entries st)))"
proof -
  obtain r st' where c: "catch_up fuel lib load scan commit cfg now stops st = Some (r, st')" "entries st' = entries st"
    "cll_le (cll st) (cll st')" "runner_state (entries st') (cll st')"
    "case r of Inl e \<Rightarrow> e \<in> E \<longrightarrow> good st'
     | Inr _ \<Rightarrow> good st' \<and> (True \<notin> set stops \<longrightarrow> cl_indexed_seq (cll st') = int (length (entries st')))"
    using catch_up_ok [OF assms, of lib now stops] by blast
  then show ?thesis
    by (intro exI [of _ r] exI [of _ st']) (auto simp: runner_state_def leaves_def)
qed

end

section \<open>The in-memory store\<close>

lemma memory_survives: "memory.survives UNIV"
  by (auto simp: memory.survives_def mem_commit_cll_def split: sum.splits)

lemma new_runner_limits: "new_runner cfg = Inr c \<Longrightarrow> 1 \<le> rc_scan_limit cfg \<and> rc_scan_limit cfg \<le> MAX_SCAN_LIMIT"
  by (auto simp: new_runner_def split: if_splits)

lemma memory_good: "memory.good st \<longleftrightarrow> mem_inv st \<and> runner_state (eg_entries (mem_engine st)) (eg_state (mem_engine st))"
  by (simp add: memory.good_def)

lemma runner_state_append:
  assumes "runner_state es s"
  shows "runner_state (es @ new) s"
proof -
  have "nat (cl_indexed_seq s) \<le> length es" using assms by (simp add: runner_state_def nat_le_iff)
  then have "leaves (es @ new) (cl_indexed_seq s) = leaves es (cl_indexed_seq s)" by (simp add: leaves_def)
  then show ?thesis using assms by (cases "cl_checkpoint s") (simp_all add: runner_state_def)
qed

lemma runner_state_witnesses [simp]: "runner_state es (s\<lparr>cl_witnesses := w\<rparr>) = runner_state es s"
  by (cases "cl_checkpoint s") (simp_all add: runner_state_def)

lemma new_memory_good: "memory.good new_memory"
  unfolding memory_good using mem_inv_new
  by (simp add: runner_state_def new_memory_def new_engine_def empty_cll_state_def leaves_def)

text \<open>Contention leaves a journal store open.\<close>

lemma append_event_closes:
  "js_append_event io st item = (Inl e, st') \<Longrightarrow> \<not> js_closed st \<Longrightarrow> js_closed st' \<Longrightarrow> e = CorruptError"
  by (auto simp: js_append_event_def Let_def js_rollback_def split: sum.splits if_splits prod.splits)

lemma journal_survives: "journal.survives io {ContentionError}"
  unfolding journal.survives_def
proof safe
  fix st es ec nxt st' assume s: "js_commit_cll io st es ec nxt = (Inl ContentionError, st')" "js_inv st"
  have e: "engine_inv (js_engine st)" "\<not> js_closed st" using s(2) by (simp_all add: js_inv_def)
  have "js_engine st' = js_engine st" using js_commit_refines [OF e(1) s(1)] by simp
  moreover have "\<not> js_closed st'"
    using s(1) e(2) by (auto simp: js_commit_cll_def js_mutate_def Let_def dest: append_event_closes
        split: sum.splits option.splits if_splits prod.splits)
  ultimately show "js_inv st'" using e(1) by (simp add: js_inv_def)
qed

end
