(* ===== verification/Checkpoint_Steps.thy ===== *)
theory Checkpoint_Steps
  imports Checkpoint_Runner
begin

text \<open>
  Runners and producers that share one log. A runner's lock keeps out its own other passes only, so a pass is
  taken apart into its calls of the store: the load, the scan with the computation of what to commit, and the
  commit with its compare-and-set. The state is the store with the passes in flight, each holding what it
  loaded and computed; appends, deliveries and other passes come in between. Lemmas: the invariant of the
  store and of every pass, and that whole passes are sequences of these steps.
\<close>

section \<open>Steps\<close>

datatype Pass =
    LoadedPass RunnerConfig datetime Loaded
  | ReadyPass RunnerConfig datetime Loaded CllState MemoryNodeStore

text \<open>A pass goes on after its commit with what it committed (\<^verbatim>\<open>_catch_up\<close>) or ends (\<^verbatim>\<open>run_once\<close>); it ends when there
  is nothing to do, when a call raises, or when it is told to stop. After contention it may load again,
  which is the start of another pass.\<close>

inductive log_step :: "('x, 'n) CoseLib \<Rightarrow> MemoryStore \<times> Pass list \<Rightarrow> MemoryStore \<times> Pass list \<Rightarrow> bool" for lib where
  appended: "mem_append st inp = (r, st') \<Longrightarrow> log_step lib (st, ps) (st', ps)"
| delivered: "mem_commit_witness st n row = (r, st') \<Longrightarrow> log_step lib (st, ps) (st', ps)"
| loads: "new_runner cfg = Inr cfg \<Longrightarrow> normalize_time InvalidError t = Inr now \<Longrightarrow>
    load_state lib mem_load_cll cfg st = Inr loaded \<Longrightarrow> log_step lib (st, ps @ qs) (st, ps @ LoadedPass cfg now loaded # qs)"
| scans: "bindR (mem_scan_entries st (cl_indexed_seq (ld_state loaded)) (rc_scan_limit cfg)) (next_state lib cfg now loaded) =
      Inr (Some (nxt, nodes)) \<Longrightarrow>
    log_step lib (st, ps @ LoadedPass cfg now loaded # qs) (st, ps @ ReadyPass cfg now loaded nxt nodes # qs)"
| commits: "mem_commit_cll st (cl_size (ld_state loaded)) (map_option cs_bytes (cl_checkpoint (ld_state loaded))) nxt = (Inr (), st') \<Longrightarrow>
    log_step lib (st, ps @ ReadyPass cfg now loaded nxt nodes # qs) (st', ps @ LoadedPass cfg now \<lparr>ld_state = nxt, ld_nodes = nodes\<rparr> # qs)"
| refused: "mem_commit_cll st (cl_size (ld_state loaded)) (map_option cs_bytes (cl_checkpoint (ld_state loaded))) nxt = (Inl e, st') \<Longrightarrow>
    log_step lib (st, ps @ ReadyPass cfg now loaded nxt nodes # qs) (st', ps @ qs)"
| ends: "log_step lib (st, ps @ p # qs) (st, ps @ qs)"

inductive_cases log_stepE: "log_step lib (st, ps) (st', ps')"

section \<open>A pass is a sequence of steps\<close>

lemma mem_commit_fails: "mem_commit_cll st es ec nxt = (Inl e, st') \<Longrightarrow> st' = st"
  by (auto simp: mem_commit_cll_def split: sum.splits)

lemma advance_steps:
  assumes "advance lib mem_scan_entries mem_commit_cll cfg now loaded st = (r, st')"
  shows "(log_step lib)\<^sup>*\<^sup>* (st, ps @ LoadedPass cfg now loaded # qs)
    (st', ps @ (case r of Inl _ \<Rightarrow> [] | Inr (_, loaded') \<Rightarrow> [LoadedPass cfg now loaded']) @ qs)"
proof (cases "bindR (mem_scan_entries st (cl_indexed_seq (ld_state loaded)) (rc_scan_limit cfg)) (next_state lib cfg now loaded)")
  case (Inl e)
  then have "r = Inl e" "st' = st" using assms by (simp_all add: advance_def)
  then show ?thesis using log_step.ends [of lib st ps "LoadedPass cfg now loaded" qs] by simp
next
  case (Inr o1)
  show ?thesis
  proof (cases o1)
    case None
    then have "r = Inr (False, loaded)" "st' = st" using assms Inr by (simp_all add: advance_def)
    then show ?thesis by simp
  next
    case (Some p)
    obtain nxt nodes where p: "p = (nxt, nodes)" by (cases p)
    obtain q st1 where q: "mem_commit_cll st (cl_size (ld_state loaded)) (map_option cs_bytes (cl_checkpoint (ld_state loaded))) nxt = (q, st1)"
      by fastforce
    have s: "log_step lib (st, ps @ LoadedPass cfg now loaded # qs) (st, ps @ ReadyPass cfg now loaded nxt nodes # qs)"
      using Inr Some p by (intro log_step.scans) simp
    show ?thesis
    proof (cases q)
      case (Inl e)
      then have "r = Inl e" "st' = st1" using assms Inr Some p q by (simp_all add: advance_def)
      moreover have "log_step lib (st, ps @ ReadyPass cfg now loaded nxt nodes # qs) (st1, ps @ qs)"
        by (rule log_step.refused) (simp add: q Inl)
      ultimately show ?thesis using s by (simp add: converse_rtranclp_into_rtranclp)
    next
      case (Inr u)
      then have "r = Inr (True, \<lparr>ld_state = nxt, ld_nodes = nodes\<rparr>)" "st' = st1"
        using assms \<open>bindR _ _ = Inr o1\<close> Some p q by (simp_all add: advance_def)
      moreover have "log_step lib (st, ps @ ReadyPass cfg now loaded nxt nodes # qs)
          (st1, ps @ LoadedPass cfg now \<lparr>ld_state = nxt, ld_nodes = nodes\<rparr> # qs)"
        by (rule log_step.commits) (simp add: q Inr)
      ultimately show ?thesis using s by (simp add: converse_rtranclp_into_rtranclp)
    qed
  qed
qed

lemma step_ends: "(log_step lib)\<^sup>*\<^sup>* x (st, p # qs) \<Longrightarrow> (log_step lib)\<^sup>*\<^sup>* x (st, qs)"
  using log_step.ends [of lib st "[]" p qs] by (simp add: rtranclp.rtrancl_into_rtrancl)

lemma run_once_steps:
  assumes "new_runner cfg = Inr cfg" "run_once lib mem_load_cll mem_scan_entries mem_commit_cll cfg t st = (r, st')"
  shows "(log_step lib)\<^sup>*\<^sup>* (st, ps) (st', ps)"
proof (cases "bindR (normalize_time InvalidError t) (\<lambda>now. bindR (load_state lib mem_load_cll cfg st) (\<lambda>loaded. Inr (now, loaded)))")
  case (Inl e)
  then show ?thesis using assms(2) by (simp add: run_once_def)
next
  case (Inr p)
  then obtain now loaded where p: "p = (now, loaded)" "normalize_time InvalidError t = Inr now" "load_state lib mem_load_cll cfg st = Inr loaded"
    by (auto simp: bindR_eq_Inr)
  obtain q st1 where q: "advance lib mem_scan_entries mem_commit_cll cfg now loaded st = (q, st1)" by fastforce
  have l: "log_step lib (st, ps) (st, LoadedPass cfg now loaded # ps)"
    using log_step.loads [OF assms(1) p(2,3), of "[]" ps] by simp
  have "st' = st1" using assms(2) Inr p(1) q by (simp add: run_once_def split: sum.splits prod.splits)
  moreover from advance_steps [OF q, of "[]" ps]
  have "(log_step lib)\<^sup>*\<^sup>* (st, LoadedPass cfg now loaded # ps) (st1, ps)"
    by (cases q) (auto split: prod.splits intro: step_ends)
  ultimately show ?thesis using l by (simp add: converse_rtranclp_into_rtranclp)
qed

lemma catch_up_loop_steps:
  assumes "new_runner cfg = Inr cfg" "normalize_time InvalidError t = Inr now"
  shows "catch_up_loop fuel lib mem_load_cll mem_scan_entries mem_commit_cll cfg now stops reloaded loaded st = Some (r, st') \<Longrightarrow>
    (log_step lib)\<^sup>*\<^sup>* (st, LoadedPass cfg now loaded # ps) (st', ps)"
proof (induction fuel arbitrary: stops reloaded loaded st)
  case (Suc fuel)
  obtain q st1 where q: "advance lib mem_scan_entries mem_commit_cll cfg now loaded st = (q, st1)" by fastforce
  note a = advance_steps [OF q, of "[]" ps]
  show ?case
  proof (cases q)
    case (Inl e)
    then have a: "(log_step lib)\<^sup>*\<^sup>* (st, LoadedPass cfg now loaded # ps) (st1, ps)" using a by simp
    from Suc.prems q Inl consider "st' = st1"
      | loaded' where "load_state lib mem_load_cll cfg st1 = Inr loaded'"
        "catch_up_loop fuel lib mem_load_cll mem_scan_entries mem_commit_cll cfg now stops True loaded' st1 = Some (r, st')"
      by (auto split: if_splits sum.splits)
    then show ?thesis
    proof cases
      case 2
      have "log_step lib (st1, ps) (st1, LoadedPass cfg now loaded' # ps)"
        using log_step.loads [OF assms 2(1), of "[]" ps] by simp
      with a Suc.IH [OF 2(2)] show ?thesis by (meson converse_rtranclp_into_rtranclp rtranclp_trans)
    qed (use a in simp)
  next
    case (Inr c)
    obtain changed loaded' where c: "c = (changed, loaded')" by (cases c)
    then have a: "(log_step lib)\<^sup>*\<^sup>* (st, LoadedPass cfg now loaded # ps) (st1, LoadedPass cfg now loaded' # ps)" using a Inr by simp
    from Suc.prems q Inr c consider "st' = st1"
      | "catch_up_loop fuel lib mem_load_cll mem_scan_entries mem_commit_cll cfg now (tl stops) False loaded' st1 = Some (r, st')"
      by (auto split: if_splits)
    then show ?thesis using a Suc.IH step_ends by cases (blast, meson rtranclp_trans)
  qed
qed simp

lemma catch_up_steps:
  assumes "new_runner cfg = Inr cfg" "catch_up fuel lib mem_load_cll mem_scan_entries mem_commit_cll cfg t stops st = Some (r, st')"
  shows "(log_step lib)\<^sup>*\<^sup>* (st, ps) (st', ps)"
proof (cases "bindR (normalize_time InvalidError t) (\<lambda>now. bindR (load_state lib mem_load_cll cfg st) (\<lambda>loaded. Inr (now, loaded)))")
  case (Inl e)
  then show ?thesis using assms(2) by (simp add: catch_up_def)
next
  case (Inr p)
  then obtain now loaded where p: "p = (now, loaded)" "normalize_time InvalidError t = Inr now" "load_state lib mem_load_cll cfg st = Inr loaded"
    by (auto simp: bindR_eq_Inr)
  have "log_step lib (st, ps) (st, LoadedPass cfg now loaded # ps)"
    using log_step.loads [OF assms(1) p(2,3), of "[]" ps] by simp
  moreover have "(log_step lib)\<^sup>*\<^sup>* (st, LoadedPass cfg now loaded # ps) (st', ps)"
    using catch_up_loop_steps [OF assms(1) p(2)] assms(2) Inr p(1) by (simp add: catch_up_def)
  ultimately show ?thesis by (rule converse_rtranclp_into_rtranclp)
qed

section \<open>The invariant\<close>

text \<open>A checkpoint in what a pass is to commit is the one it loaded, or one it signed as the successor of that.\<close>

definition signed_next :: "('x, 'n) CoseLib \<Rightarrow> CheckpointState option \<Rightarrow> CllState \<Rightarrow> bool" where
  "signed_next lib old s \<longleftrightarrow>
     (\<exists>c cfg now nodes. cl_checkpoint s = Some c \<and> store_nodes nodes = cl_nodes s \<and>
        sign_due lib cfg now nodes (cl_indexed_seq s) old = Inr c)"

fun pass_ok :: "('x, 'n) CoseLib \<Rightarrow> Entry list \<Rightarrow> Pass \<Rightarrow> bool" where
  "pass_ok lib es (LoadedPass cfg now loaded) \<longleftrightarrow> loaded_ok es loaded \<and> 1 \<le> rc_scan_limit cfg \<and> rc_scan_limit cfg \<le> MAX_SCAN_LIMIT"
| "pass_ok lib es (ReadyPass cfg now loaded nxt nodes) \<longleftrightarrow>
     loaded_ok es loaded \<and> loaded_ok es \<lparr>ld_state = nxt, ld_nodes = nodes\<rparr> \<and>
     1 \<le> rc_scan_limit cfg \<and> rc_scan_limit cfg \<le> MAX_SCAN_LIMIT \<and>
     (cl_checkpoint nxt = cl_checkpoint (ld_state loaded) \<or> signed_next lib (cl_checkpoint (ld_state loaded)) nxt)"

lemma next_state_signs:
  assumes "next_state lib cfg now loaded page = Inr (Some (nxt, nodes))"
  shows "cl_checkpoint nxt = cl_checkpoint (ld_state loaded) \<or> signed_next lib (cl_checkpoint (ld_state loaded)) nxt"
proof -
  obtain indexed fp due_now ck fp' ws where n:
    "(if due_now then bindR (sign_due lib cfg now nodes indexed (cl_checkpoint (ld_state loaded))) (\<lambda>c.
               Inr (Some c, None, cl_witnesses (ld_state loaded) @ map (witness_row c now) (rc_witness_ids cfg)))
             else Inr (cl_checkpoint (ld_state loaded), fp, cl_witnesses (ld_state loaded))) = Inr (ck, fp', ws)"
    "nxt = \<lparr>cl_size = store_size nodes, cl_nodes = store_nodes nodes, cl_indexed_seq = indexed, cl_first_pending_at = fp',
          cl_checkpoint = ck, cl_witnesses = ws\<rparr>"
    by (rule next_state_Inr [OF assms])
  then show ?thesis by (cases due_now) (auto simp: bindR_eq_Inr signed_next_def)
qed

lemma loaded_ok_append: "loaded_ok es loaded \<Longrightarrow> loaded_ok (es @ new) loaded"
  by (simp add: loaded_ok_def runner_state_append)

lemma pass_ok_append: "pass_ok lib es p \<Longrightarrow> pass_ok lib (es @ new) p"
  by (cases p) (auto intro: loaded_ok_append)

abbreviation st_entries :: "MemoryStore \<Rightarrow> Entry list" where
  "st_entries st \<equiv> eg_entries (mem_engine st)"

abbreviation st_cll :: "MemoryStore \<Rightarrow> CllState" where
  "st_cll st \<equiv> eg_state (mem_engine st)"

definition log_inv :: "('x, 'n) CoseLib \<Rightarrow> MemoryStore \<times> Pass list \<Rightarrow> bool" where
  "log_inv lib x \<longleftrightarrow> memory.good (fst x) \<and> list_all (pass_ok lib (st_entries (fst x))) (snd x)"

text \<open>What a step may do to the log: extend it, and put a checkpoint only in the place of the one it was signed
  to follow.\<close>

definition log_le :: "('x, 'n) CoseLib \<Rightarrow> MemoryStore \<Rightarrow> MemoryStore \<Rightarrow> bool" where
  "log_le lib st st' \<longleftrightarrow> (\<exists>new. st_entries st' = st_entries st @ new) \<and> cll_le (st_cll st) (st_cll st') \<and>
     (map_option cs_bytes (cl_checkpoint (st_cll st')) = map_option cs_bytes (cl_checkpoint (st_cll st)) \<or>
      (\<exists>old. map_option cs_bytes old = map_option cs_bytes (cl_checkpoint (st_cll st)) \<and> signed_next lib old (st_cll st')))"

lemma log_le_refl [simp]: "log_le lib st st"
  by (simp add: log_le_def)

lemma append_extends:
  assumes "mem_inv st" "mem_append st inp = (r, st')"
  shows "mem_inv st' \<and> st_cll st' = st_cll st \<and> (\<exists>new. st_entries st' = st_entries st @ new)"
proof -
  note a = mem_append_ok [OF assms]
  show ?thesis
  proof (cases r)
    case (Inl e)
    then show ?thesis using a assms(1) by simp
  next
    case (Inr x)
    then have e: "eg_append (mem_engine st) inp = Inr (x, mem_engine st')" using a by simp
    have i: "engine_inv (mem_engine st)" using assms(1) by (simp add: mem_inv_def)
    show ?thesis by (rule eg_append_cases [OF i e]) (use a in simp_all)
  qed
qed

lemma delivery_keeps:
  assumes "mem_inv st" "mem_commit_witness st n row = (r, st')"
  shows "mem_inv st'" "st_entries st' = st_entries st" "cll_le (st_cll st) (st_cll st')"
    "cl_checkpoint (st_cll st') = cl_checkpoint (st_cll st)" "runner_state es (st_cll st') = runner_state es (st_cll st)"
  using assms eg_commit_witness_ok [of "mem_engine st" n row]
  by (auto simp: mem_commit_witness_def mem_inv_def mem_open_def eg_commit_witness_def bindR_eq_Inr engine_le_def
      split: sum.splits)

text \<open>What the compare-and-set gives a commit: the state it replaces has the size and checkpoint the pass loaded.\<close>

lemma commit_step:
  assumes good: "memory.good st" and ok: "pass_ok lib (st_entries st) (ReadyPass cfg now loaded nxt nodes)"
    and c: "mem_commit_cll st (cl_size (ld_state loaded)) (map_option cs_bytes (cl_checkpoint (ld_state loaded))) nxt = (Inr (), st')"
  shows "memory.good st'" "st_entries st' = st_entries st" "log_le lib st st'"
proof -
  have inv: "mem_inv st" using good by (simp add: memory_good)
  have d: "mem_inv st'" "st_entries st' = st_entries st"
    "apply_cll (st_cll st) (cl_size (ld_state loaded)) (map_option cs_bytes (cl_checkpoint (ld_state loaded))) nxt = Inr (st_cll st')"
    using memory.commit_done [OF inv c] by simp_all
  have "state_ok (st_cll st)" using inv by (simp add: mem_inv_def engine_inv_def)
  note a = apply_cll_ok [OF this d(3)]
  have nr: "runner_state (st_entries st) nxt" "store_nodes nodes = cl_nodes nxt" using ok by (simp_all add: loaded_ok_def)
  have idx: "cl_indexed_seq (st_cll st') = cl_indexed_seq nxt"
  proof -
    have "mmr_of (cl_nodes (st_cll st')) (leaves (st_entries st) (cl_indexed_seq nxt))" using nr a(5) by (simp add: runner_state_def)
    from state_ok_indexed [OF a(1) this] show ?thesis using nr by (simp add: runner_state_def length_leaves)
  qed
  show "memory.good st'" using nr(1) d(1,2) runner_state_cong [OF idx a(5,6)] by (simp add: memory_good)
  show "st_entries st' = st_entries st" by (rule d(2))
  have "signed_next lib old (st_cll st') = signed_next lib old nxt" for old
    by (simp add: signed_next_def a(5,6) idx)
  moreover have bytes: "map_option cs_bytes (cl_checkpoint (st_cll st)) = map_option cs_bytes (cl_checkpoint (ld_state loaded))"
    using a(4) by (simp add: same_expected_iff)
  ultimately show "log_le lib st st'"
    using a(2,6) d(2) ok by (auto simp: log_le_def)
qed

lemma log_step_ok:
  assumes "log_step lib x y" "log_inv lib x"
  shows "log_inv lib y \<and> log_le lib (fst x) (fst y)"
  using assms
proof cases
  case (appended st inp r st' ps)
  have inv: "mem_inv st" "runner_state (st_entries st) (st_cll st)" using appended assms(2) by (simp_all add: log_inv_def memory_good)
  obtain new where a: "mem_inv st'" "st_cll st' = st_cll st" "st_entries st' = st_entries st @ new"
    using append_extends [OF inv(1) appended(3)] by blast
  have "list_all (pass_ok lib (st_entries st @ new)) ps"
    using assms(2) by (auto simp: appended log_inv_def list_all_iff intro: pass_ok_append)
  then show ?thesis using inv a by (simp add: appended log_inv_def log_le_def memory_good runner_state_append)
next
  case (delivered st n row r st' ps)
  have inv: "mem_inv st" "runner_state (st_entries st) (st_cll st)" using delivered assms(2) by (simp_all add: log_inv_def memory_good)
  note d = delivery_keeps [OF inv(1) delivered(3)]
  show ?thesis using inv(2) d assms(2) by (simp add: delivered log_inv_def log_le_def memory_good)
next
  case (loads cfg t now st loaded ps qs)
  have g: "memory.good st" using loads assms(2) by (simp add: log_inv_def)
  have "loaded_ok (st_entries st) loaded" using memory.load_current [OF g loads(5)] by (simp add: memory.current_def)
  then show ?thesis using assms(2) new_runner_limits [OF loads(3)] by (simp add: loads log_inv_def)
next
  case (scans st loaded cfg now nxt nodes ps qs)
  let ?i = "cl_indexed_seq (ld_state loaded)"
  have g: "memory.good st" and ok: "loaded_ok (st_entries st) loaded" and lim: "1 \<le> rc_scan_limit cfg" "rc_scan_limit cfg \<le> MAX_SCAN_LIMIT"
    using scans assms(2) by (simp_all add: log_inv_def)
  have inv: "mem_inv st" using g by (simp add: memory_good)
  have r: "0 \<le> ?i" "?i \<le> int (length (st_entries st))" using ok by (simp_all add: loaded_ok_def runner_state_def)
  then have "mem_scan_entries st ?i (rc_scan_limit cfg) = Inr (take (nat (rc_scan_limit cfg)) (drop (nat ?i) (st_entries st)))"
    using lim memory.bounded [OF inv] by (simp only: memory.scan_page [OF inv] o_apply)
  then have n: "next_state lib cfg now loaded (take (nat (rc_scan_limit cfg)) (drop (nat ?i) (st_entries st))) = Inr (Some (nxt, nodes))"
    using scans(3) by simp
  show ?thesis using assms(2) next_state_ok(1) [OF ok n] next_state_signs [OF n] by (simp add: scans log_inv_def)
next
  case (commits st loaded nxt st' ps cfg now nodes qs)
  have "memory.good st" "pass_ok lib (st_entries st) (ReadyPass cfg now loaded nxt nodes)" using commits assms(2) by (simp_all add: log_inv_def)
  note c = commit_step [OF this commits(3)]
  show ?thesis using assms(2) c by (simp add: commits log_inv_def)
next
  case (refused st loaded nxt e st' ps cfg now nodes qs)
  then show ?thesis using assms(2) mem_commit_fails [OF refused(3)] by (simp add: log_inv_def)
next
  case (ends st ps p qs)
  then show ?thesis using assms(2) by (simp add: log_inv_def)
qed

lemma log_steps_inv: "(log_step lib)\<^sup>*\<^sup>* x y \<Longrightarrow> log_inv lib x \<Longrightarrow> log_inv lib y"
  by (induction rule: rtranclp_induct) (use log_step_ok in blast)+

lemma log_steps_le:
  assumes "(log_step lib)\<^sup>*\<^sup>* x y" "log_inv lib x"
  shows "(\<exists>new. st_entries (fst y) = st_entries (fst x) @ new) \<and> cll_le (st_cll (fst x)) (st_cll (fst y))"
  using assms
proof (induction rule: rtranclp_induct)
  case (step y z)
  have "log_le lib (fst y) (fst z)" using log_step_ok [OF step.hyps(2)] log_steps_inv [OF step.hyps(1)] step.prems by blast
  then show ?case using step.IH [OF step.prems] cll_le_trans by (fastforce simp: log_le_def)
qed (simp add: log_le_def)

section \<open>Two runners on one entry\<close>

definition late_config :: RunnerConfig where
  "late_config = \<lparr>rc_signer = \<lparr>cs_key_id = [], cs_sign_cose_statement = None\<rparr>, rc_log_id = text_of ''log'', rc_witness_ids = [],
     rc_cadence_entries = 2, rc_cadence_age = 1, rc_scan_limit = 1, rc_poll_interval = 1\<rparr>"

definition one_entry_state :: CllState where
  "one_entry_state = \<lparr>cl_size = 1, cl_nodes = [leaf_of (replicate 32 7)], cl_indexed_seq = 1, cl_first_pending_at = Some (Aware 0),
     cl_checkpoint = None, cl_witnesses = []\<rparr>"

lemma first_append:
  obtains st where "log_step lib (new_memory, ps) (st, ps)" "st_entries st = [\<lparr>en_seq = 1, en_value = replicate 32 7, en_appended_at = Aware 0\<rparr>]"
    "st_cll st = empty_cll_state" "\<not> mem_closed st"
proof -
  let ?i = "\<lparr>ai_value = replicate 32 7, ai_appended_at = Aware 0\<rparr>"
  obtain r st where a: "mem_append new_memory ?i = (r, st)" by (cases "mem_append new_memory ?i") auto
  have "st_entries st = [\<lparr>en_seq = 1, en_value = replicate 32 7, en_appended_at = Aware 0\<rparr>]" "st_cll st = empty_cll_state" "\<not> mem_closed st"
    using a by (auto simp: mem_append_def mem_open_def new_memory_def eg_append_def check_append_def check_value_def width_def ENTRY_BYTES_def
      new_engine_def Let_def normalize_time_def MAX_MICROS_def MAX_PORTABLE_INTEGER_def)
  with log_step.appended [OF a] that show ?thesis by blast
qed

lemma first_scan:
  "next_state lib late_config (Aware 0) \<lparr>ld_state = empty_cll_state, ld_nodes = new_store\<rparr>
     [\<lparr>en_seq = 1, en_value = replicate 32 7, en_appended_at = Aware 0\<rparr>] =
   Inr (Some (one_entry_state, store_append_nodes new_store [leaf_of (replicate 32 7)]))"
proof -
  have l: "leaf_hash (replicate 32 7) = Inr (leaf_of (replicate 32 7))" "digest (leaf_of (replicate 32 7))"
    by (simp_all add: leaf_hash_eq_Inr leaf_of_def)
  have "store_size new_store = 0" by (simp add: store_size_def new_store_def)
  then have a: "add_leaf store_size store_node store_append_nodes new_store (leaf_of (replicate 32 7)) =
    Inr (0, [leaf_of (replicate 32 7)], store_append_nodes new_store [leaf_of (replicate 32 7)])"
    using l(2) by (simp add: add_leaf_def assert_digest_def)
  then show ?thesis using all_nodes [of "store_append_nodes new_store [leaf_of (replicate 32 7)]"]
    by (simp add: next_state_def empty_cll_state_def late_config_def index_entry_def l(1) is_due_def aged_def one_entry_state_def
        normalize_time_def MAX_MICROS_def) (simp add: new_store_def store_append_nodes_def store_size_def)
qed

lemma first_commit:
  assumes "st_cll st = empty_cll_state" "\<not> mem_closed st"
  shows "mem_commit_cll st 0 None one_entry_state = (Inr (), st\<lparr>mem_engine := (mem_engine st)\<lparr>eg_state := one_entry_state\<rparr>\<rparr>)"
proof -
  have "mmr_leaf_count 1 = Some 1" by code_simp
  moreover have "length (leaf_of (replicate 32 7)) = 32" using leaf_hash_eq_Inr [of "replicate 32 7"] by (simp add: leaf_of_def)
  ultimately show ?thesis using assms
    by (simp add: mem_commit_cll_def mem_open_def eg_commit_cll_def apply_cll_def check_expected_def empty_cll_state_def one_entry_state_def
        same_expected_def validate_state_def validate_metadata_def check_nodes_def width_def ENTRY_BYTES_def added_witnesses_def
        normalize_time_def MAX_MICROS_def)
qed

text \<open>Both load and compute before either commits: one commit takes effect, the other meets contention.\<close>

lemma two_runners:
  obtains st st' p q where "(log_step lib)\<^sup>*\<^sup>* (new_memory, []) (st, [p, p])" "(log_step lib)\<^sup>*\<^sup>* (st, [p, p]) (st', [q])"
    "st_cll st = empty_cll_state" "st_cll st' = one_entry_state"
proof -
  obtain st where st: "log_step lib (new_memory, []) (st, [])"
    "st_entries st = [\<lparr>en_seq = 1, en_value = replicate 32 7, en_appended_at = Aware 0\<rparr>]" "st_cll st = empty_cll_state" "\<not> mem_closed st"
    by (rule first_append)
  let ?l = "\<lparr>ld_state = empty_cll_state, ld_nodes = new_store\<rparr>" and ?n = "store_append_nodes new_store [leaf_of (replicate 32 7)]"
  let ?p = "LoadedPass late_config (Aware 0) ?l" and ?r = "ReadyPass late_config (Aware 0) ?l one_entry_state ?n"
  let ?st' = "st\<lparr>mem_engine := (mem_engine st)\<lparr>eg_state := one_entry_state\<rparr>\<rparr>"
  have cfg: "new_runner late_config = Inr late_config"
    by (simp add: late_config_def new_runner_def validate_identifier_def text_of_def MAX_SCAN_LIMIT_def MAX_WITNESSES_def
        identifier_char_def MAX_IDENTIFIER_BYTES_def)
  have now: "normalize_time InvalidError (Aware 0) = Inr (Aware 0)" by (simp add: normalize_time_def MAX_MICROS_def)
  have "leaf_count 0 = Inr 0" using leaf_count_at [of 0] by (simp add: MAX_MMR_SIZE_def)
  then have "load_state lib mem_load_cll late_config st = Inr ?l"
    using st(3,4) by (simp add: load_state_def mem_load_cll_def mem_open_def empty_cll_state_def verify_stored_def
        store_append_nodes_def new_store_def)
  note load = log_step.loads [OF cfg now this]
  have "mem_scan_entries st 0 1 = Inr (st_entries st)"
    using st(2,4) by (simp add: mem_scan_entries_def mem_open_def eg_scan_entries_def check_scan_def MAX_PORTABLE_INTEGER_def MAX_SCAN_LIMIT_def)
  then have "bindR (mem_scan_entries st (cl_indexed_seq (ld_state ?l)) (rc_scan_limit late_config)) (next_state lib late_config (Aware 0) ?l) =
      Inr (Some (one_entry_state, ?n))"
    using first_scan by (simp add: st(2) empty_cll_state_def late_config_def)
  note scan = log_step.scans [OF this]
  have one: "log_step lib (st, [?r, ?r]) (?st', [LoadedPass late_config (Aware 0) \<lparr>ld_state = one_entry_state, ld_nodes = ?n\<rparr>, ?r])"
    using log_step.commits [of st ?l one_entry_state ?st' lib "[]" late_config "Aware 0" ?n "[?r]"] first_commit [OF st(3,4)]
    by (simp add: empty_cll_state_def)
  have "mem_commit_cll ?st' 0 None one_entry_state = (Inl ContentionError, ?st')"
    using st(4) commit_refused [of "mem_engine ?st'" 0 None one_entry_state] by (simp add: mem_commit_cll_def mem_open_def one_entry_state_def)
  then have two: "log_step lib (?st', [LoadedPass late_config (Aware 0) \<lparr>ld_state = one_entry_state, ld_nodes = ?n\<rparr>, ?r])
      (?st', [LoadedPass late_config (Aware 0) \<lparr>ld_state = one_entry_state, ld_nodes = ?n\<rparr>])"
    using log_step.refused [of ?st' ?l one_entry_state ContentionError ?st' lib "[LoadedPass late_config (Aware 0) \<lparr>ld_state = one_entry_state, ld_nodes = ?n\<rparr>]"
        late_config "Aware 0" ?n "[]"] by (simp add: empty_cll_state_def)
  have "(log_step lib)\<^sup>*\<^sup>* (new_memory, []) (st, [?p, ?p])"
    using st(1) load [of "[]" "[]"] load [of "[]" "[?p]"] by (simp add: rtranclp.rtrancl_into_rtrancl)
  moreover have "(log_step lib)\<^sup>*\<^sup>* (st, [?p, ?p]) (?st', [LoadedPass late_config (Aware 0) \<lparr>ld_state = one_entry_state, ld_nodes = ?n\<rparr>])"
    using scan [of "[]" "[?p]"] scan [of "[?r]" "[]"] one two
    by (simp add: converse_rtranclp_into_rtranclp)
  ultimately show ?thesis using that st(3) by simp
qed

end
