(* ===== verification/Checkpoint_Runs.thy ===== *)
theory Checkpoint_Runs
  imports Checkpoint_Steps
begin

text \<open>
  What the runner of \<^verbatim>\<open>cll/checkpoint/runner.py\<close> guarantees on the stores of the log: the invariant of every
  reachable in-memory store, termination of catching up on a journal, and that what it signs loads again.
\<close>

section \<open>What the runner signs\<close>

lemma consistency_step_form:
  "consistency_step node nps q = Inr s \<Longrightarrow> lower_hex (fst s) \<and> list_all lower_hex (snd s)"
  by (auto simp: consistency_step_def bindR_eq_Inr lower_hex_def list_all_iff split: if_splits)

lemma consistency_steps_form:
  "mapR (consistency_step node nps) qs = Inr steps \<Longrightarrow> \<forall>s\<in>set steps. lower_hex (fst s) \<and> list_all lower_hex (snd s)"
proof (induction qs arbitrary: steps)
  case (Cons q qs)
  then obtain s rest where "consistency_step node nps q = Inr s" "mapR (consistency_step node nps) qs = Inr rest" "steps = s # rest"
    by (auto simp: bindR_eq_Inr)
  then show ?case using Cons.IH consistency_step_form by (metis set_ConsD)
qed simp

lemma consistency_proof_form:
  assumes "consistency_proof n node a b = Inr p"
  shows "proof_form p"
proof -
  obtain nps qs steps new where "mapR (consistency_step node nps) qs = Inr steps"
    "p = \<lparr>cp_v = 1, cp_kind = ''consistency'', cp_size_a = a, cp_size_b = b,
       cp_old_peaks = map fst steps, cp_witness = map snd steps, cp_new_peaks = map to_hex new\<rparr>"
    using assms by (auto simp: consistency_proof_def bindR_eq_Inr split: if_splits)
  then show ?thesis
    using consistency_steps_form by (fastforce simp: proof_form_def list_all_iff lower_hex_def)
qed

lemma due_statement_loads:
  fixes lib :: "('x, 'n) CoseLib"
  assumes mmr: "mmr_of (store_nodes nodes) ds" and ds: "ds \<noteq> []" "nodes_of (mountains (length ds)) < MAX_MMR_SIZE"
    and ck: "case ck of None \<Rightarrow> True | Some c \<Rightarrow> genuine (store_nodes nodes) (int (length ds)) c"
    and cfg: "rc_signer cfg = ed25519_checkpoint_signer lib sign public" "rc_log_id cfg \<noteq> []"
    and due: "due_parts cfg now nodes ck = Inr (pks, cp, pf)"
    and enc: "encode_checkpoint_claims cp pks (map_option cs_peaks ck) pf None = Inr claims"
    and lib: "2 \<le> lib_frames lib" "reads_commitment lib pks" "case ck of None \<Rightarrow> True | Some c \<Rightarrow> reads_commitment lib (cs_peaks c)"
      "signs_and_reads lib sign public claims (ck_log_id cp) (subject_of (ck_log_id cp) (ck_mmr_size cp))" "knows_bytes lib"
  shows "\<exists>c. sign_due lib cfg now nodes (int (length ds)) ck = Inr c \<and>
    (\<forall>s. cl_checkpoint s = Some c \<longrightarrow> cl_size s = store_size nodes \<longrightarrow> cl_indexed_seq s = int (length ds) \<longrightarrow>
       verify_stored lib cfg s nodes = Inr ())"
proof -
  let ?n = "length ds"
  have size: "store_size nodes = nodes_of (mountains ?n)" using mem.array_length [OF mmr] by (simp add: store_size_def)
  have nz: "0 < ?n" using ds(1) by simp
  note pk = peaks_of_range [OF mmr order_refl ds(2), folded size]
  obtain root prev_root where p: "pks = peak_hashes (store_nodes nodes) ?n" "root_from_peaks pks = Inr root"
    "(case ck of None \<Rightarrow> prev_root = [] | Some c \<Rightarrow> \<exists>r. root_from_peaks (cs_peaks c) = Inr r \<and> prev_root = hex_text r)"
    "cp = \<lparr>ck_v = 1, ck_kind = text_of ''mmr_checkpoint'', ck_log_id = rc_log_id cfg, ck_mmr_size = store_size nodes, ck_root = hex_text root,
       ck_prev_size = (case ck of None \<Rightarrow> 0 | Some c \<Rightarrow> cs_size c), ck_prev_root = prev_root,
       ck_key_id = cs_key_id (rc_signer cfg), ck_timestamp = checkpoint_timestamp now, ck_signature = [], ck_witnesses = []\<rparr>"
    "(case ck of None \<Rightarrow> pf = None | Some c \<Rightarrow> \<exists>q. consistency_proof (store_size nodes) (store_node nodes) (cs_size c) (store_size nodes) = Inr q \<and> pf = Some q)"
    using due pk(1) by (cases ck) (auto simp: due_parts_def runner_record_def Let_def bindR_eq_Inr)
  have pos: "0 < nodes_of (mountains k)" if "0 < k" for k
    using that nodes_of_mountains_mono [of 1 k] one_leaf(1) by (simp add: msize_def)
  have form: "record_form cp"
    using p(3) cfg(2) ck pos [of "nat (cs_indexed_seq (the ck))"]
    by (cases ck) (auto simp: p(4) record_form_def size nodes_of_nonneg genuine_def)
  have cont: "continuity_proved cp pf"
  proof (cases ck)
    case None
    then show ?thesis using p(5) by (simp add: continuity_proved_def p(4))
  next
    case (Some c)
    have g: "genuine (store_nodes nodes) (int ?n) c" using ck Some by simp
    define m where "m = nat (cs_indexed_seq c)"
    have m: "m \<le> ?n" "0 < m" "cs_size c = nodes_of (mountains m)" "cs_peaks c = peak_hashes (store_nodes nodes) m"
      using g by (simp_all add: genuine_def m_def nat_le_iff)
    obtain r q where rq: "root_from_peaks (peak_hashes (store_nodes nodes) m) = Inr r" "prev_root = hex_text r" "pf = Some q"
      "consistency_proof (store_size nodes) (store_node nodes) (nodes_of (mountains m)) (nodes_of (mountains ?n)) = Inr q"
      using p(3,5) Some m(3,4) size by auto
    have "verify_consistency r (nodes_of (mountains m)) root (nodes_of (mountains ?n)) (Some q)"
      using mem.consistency_complete [OF mmr m(1) order_refl ds(2) rq(1)] p(1,2) rq(4) by auto
    then show ?thesis
      using consistency_proof_form [OF rq(4)] pos [OF m(2)] rq(2,3)
      by (auto simp: continuity_proved_def p(4) Some m(3) size)
  qed
  have key: "ck_key_id cp = hex_text public" by (simp add: p(4) cfg(1) ed25519_checkpoint_signer_def)
  have reads: "case map_option cs_peaks ck of None \<Rightarrow> True | Some q \<Rightarrow> reads_commitment lib q"
    using lib(3) by (cases ck) simp_all
  obtain b where b: "checkpoint_to_cose lib cp (ed25519_checkpoint_signer lib sign public) pks (map_option cs_peaks ck) pf None = Inr b"
    "verify_steps lib b = Inr (decoded_of cp pks (map_option cs_peaks ck) pf None)"
    using statement_verifies [OF form key cont enc lib(1,2) reads lib(4,5)] by blast
  let ?c = "\<lparr>cs_bytes = b, cs_size = store_size nodes, cs_indexed_seq = int ?n, cs_peaks = pks\<rparr>"
  have "sign_due lib cfg now nodes (int ?n) ck = Inr ?c"
    by (simp add: sign_due_def due cfg(1) b(1))
  moreover have "verify_stored lib cfg s nodes = Inr ()"
    if "cl_checkpoint s = Some ?c" "cl_size s = store_size nodes" "cl_indexed_seq s = int ?n" for s
  proof -
    have v: "verify_checkpoint_cose_offline lib b = \<lparr>cv_ok = True, cv_decoded = Some (decoded_of cp pks (map_option cs_peaks ck) pf None), cv_errors = []\<rparr>"
      by (simp add: verify_checkpoint_cose_offline_def b(2))
    have lc: "leaf_count (store_size nodes) = Inr (int ?n)" using leaf_count_at [OF ds(2)] by (simp add: size)
    have "rc_log_id cfg = ck_log_id cp" "cs_key_id (rc_signer cfg) = ck_key_id cp" "ck_mmr_size cp = store_size nodes" "ck_root cp = hex_text root"
      by (simp_all add: p(4))
    then show ?thesis
      using that pk(1) p(1,2) by (simp add: verify_stored_def lc v decoded_of_def)
  qed
  ultimately show ?thesis by blast
qed

section \<open>Properties\<close>

text \<open>
  C31. A checkpoint that is due can be signed, and what is signed is accepted when the state is loaded again:
  it decodes to the sizes, peaks, root, log id and key the runner committed, its consistency proof with the
  previous checkpoint verifies, and no load fails on a checkpoint the runner made itself.
\<close>

theorem signed_checkpoint_reloads:
  fixes lib :: "('x, 'n) CoseLib"
  assumes "mmr_of (store_nodes nodes) ds" "ds \<noteq> []" "nodes_of (mountains (length ds)) < MAX_MMR_SIZE"
    "case ck of None \<Rightarrow> True | Some c \<Rightarrow> genuine (store_nodes nodes) (int (length ds)) c"
    "rc_signer cfg = ed25519_checkpoint_signer lib sign public" "rc_log_id cfg \<noteq> []"
    "due_parts cfg now nodes ck = Inr (pks, cp, pf)"
    "encode_checkpoint_claims cp pks (map_option cs_peaks ck) pf None = Inr claims"
    "2 \<le> lib_frames lib" "reads_commitment lib pks" "case ck of None \<Rightarrow> True | Some c \<Rightarrow> reads_commitment lib (cs_peaks c)"
    "signs_and_reads lib sign public claims (ck_log_id cp) (subject_of (ck_log_id cp) (ck_mmr_size cp))" "knows_bytes lib"
  shows "\<exists>c. sign_due lib cfg now nodes (int (length ds)) ck = Inr c \<and>
    (\<forall>s. cl_checkpoint s = Some c \<longrightarrow> cl_size s = store_size nodes \<longrightarrow> cl_indexed_seq s = int (length ds) \<longrightarrow>
       verify_stored lib cfg s nodes = Inr ())"
  by (rule due_statement_loads [OF assms])

theorem signed_checkpoint_reloads_witness:
  "\<exists>(lib :: (unit, unit) CoseLib) cfg nodes c. sign_due lib cfg (Aware 0) nodes 1 None = Inr c \<and>
     verify_stored lib cfg \<lparr>cl_size = 1, cl_nodes = [], cl_indexed_seq = 1, cl_first_pending_at = None, cl_checkpoint = Some c,
       cl_witnesses = []\<rparr> nodes = Inr ()"
proof -
  obtain l l' :: "unit MmrLedger" where l: "index_inv l" "ml_body_digests l = [replicate 32 7]" "ml_size l = 1"
    by (rule two_leaf_index)
  let ?nodes = "ml_nodes l" and ?ds = "[replicate 32 7] :: bytes list" and ?log = "text_of ''log''"
  let ?header = "protected_header CLL_CHECKPOINT_CONTENT_TYPE ?log (subject_of ?log 1) sample_key :: unit cval"
  have mmr: "mmr_of (store_nodes ?nodes) ?ds" using l(1,2) by (simp add: index_inv_def)
  have one: "nodes_of (mountains (length ?ds)) = 1" using one_leaf(1) by (simp add: msize_def)
  have size: "store_size ?nodes = 1" using l(3) by (simp add: ml_size_def)
  note pk = peaks_of_range [OF mmr order_refl]
  obtain x where x: "peak_hashes (store_nodes ?nodes) 1 = [x]" "digest x"
    using pk(2) one one_leaf(1) by (simp add: peak_hashes_def MAX_MMR_SIZE_def)
  have root: "root_from_peaks [x] = Inr x" using x(2) by (simp add: root_from_peaks_def assert_digest_def)
  have peaks: "peaks_of ?nodes 1 = Inr [x]" using pk(1) x(1) one by (simp add: MAX_MMR_SIZE_def)
  have "commitment_object [x] \<noteq> Inl e" for e using x(2) by (simp add: commitment_object_def assert_digest_def cbor_uint_header_def)
  then obtain comm where c: "commitment_object [x] = Inr comm" by (cases "commitment_object [x]") auto
  define cp where "cp = \<lparr>ck_v = 1, ck_kind = text_of ''mmr_checkpoint'', ck_log_id = ?log, ck_mmr_size = 1, ck_root = hex_text x,
       ck_prev_size = 0, ck_prev_root = [], ck_key_id = hex_text sample_key, ck_timestamp = checkpoint_timestamp (Aware 0),
       ck_signature = [], ck_witnesses = []\<rparr>"
  obtain kvs :: "(unit cval \<times> unit cval) list" where
    e: "encode_checkpoint_claims cp [x] None None None = Inr (VDict ((text_value (text_of ''kind''), text_value WIRE_KIND) # kvs))"
    by (simp add: encode_checkpoint_claims_def cp_def encode_prev_commitment_def c root)
  let ?claims = "VDict ((text_value (text_of ''kind''), text_value WIRE_KIND) # kvs)"
  let ?lib = "sample_lib ?claims ?header (sample_statement ?log (subject_of ?log 1))"
  have ne: "?claims \<noteq> ?header" by (simp add: protected_header_def value_defs)
  let ?cfg = "\<lparr>rc_signer = ed25519_checkpoint_signer ?lib (\<lambda>_. Inr sample_signature) sample_key, rc_log_id = ?log, rc_witness_ids = [],
    rc_cadence_entries = 1, rc_cadence_age = 1, rc_scan_limit = 1, rc_poll_interval = 1\<rparr>"
  have due: "due_parts ?cfg (Aware 0) ?nodes None = Inr ([x], cp, None)"
    by (simp add: due_parts_def size peaks runner_record_def root cp_def ed25519_checkpoint_signer_def)
  have "\<exists>c. sign_due ?lib ?cfg (Aware 0) ?nodes (int (length ?ds)) None = Inr c \<and>
    (\<forall>s. cl_checkpoint s = Some c \<longrightarrow> cl_size s = store_size ?nodes \<longrightarrow> cl_indexed_seq s = int (length ?ds) \<longrightarrow>
       verify_stored ?lib ?cfg s ?nodes = Inr ())"
    by (rule signed_checkpoint_reloads [OF mmr _ _ _ _ _ due, where sign = "\<lambda>_. Inr sample_signature" and public = sample_key])
      (use one e x(2) sample_reads(1) [where p = x] sample_reads(2,3) sample_signs [OF refl ne refl] in \<open>simp_all add: MAX_MMR_SIZE_def text_of_def cp_def\<close>)
  then obtain c where c: "sign_due ?lib ?cfg (Aware 0) ?nodes 1 None = Inr c"
    "\<And>s. cl_checkpoint s = Some c \<Longrightarrow> cl_size s = 1 \<Longrightarrow> cl_indexed_seq s = 1 \<Longrightarrow> verify_stored ?lib ?cfg s ?nodes = Inr ()"
    unfolding size by auto
  show ?thesis
    by (intro exI [of _ ?lib] exI [of _ ?cfg] exI [of _ ?nodes] exI [of _ c] conjI c(1) c(2)) simp_all
qed

text \<open>
  C28. Runners and producers share the log safely. Passes of any number of runners, of any configurations,
  are taken apart into their loads, scans and commits, with appends, recorded delivery attempts and the
  calls of other passes anywhere between them. At every moment the stored node array is the Merkle Mountain
  Range over the values of the indexed entries, in order, and the stored checkpoint is of a prefix of
  them. From one such moment to a later one entries are only added, nodes are only appended, and neither the indexed
  position nor the checkpoint goes back. A checkpoint is only ever replaced by one that was signed as the successor of
  a checkpoint with its bytes (its previous commitment and consistency proof are of that one), which is what the
  compare-and-set of the commit is for: what another pass committed in between is never skipped.
\<close>

theorem log_is_maintained:
  assumes "(log_step lib)\<^sup>*\<^sup>* (new_memory, []) (st, ps)" "(log_step lib)\<^sup>*\<^sup>* (st, ps) (st', ps')"
  shows "mem_inv st' \<and> runner_state (eg_entries (mem_engine st')) (eg_state (mem_engine st')) \<and>
    (\<exists>new. eg_entries (mem_engine st') = eg_entries (mem_engine st) @ new) \<and>
    cll_le (eg_state (mem_engine st)) (eg_state (mem_engine st')) \<and>
    (\<forall>st'' ps''. log_step lib (st', ps') (st'', ps'') \<longrightarrow>
       map_option cs_bytes (cl_checkpoint (st_cll st'')) = map_option cs_bytes (cl_checkpoint (st_cll st')) \<or>
       (\<exists>old. map_option cs_bytes old = map_option cs_bytes (cl_checkpoint (st_cll st')) \<and> signed_next lib old (st_cll st'')))"
proof -
  have i: "log_inv lib (st, ps)" by (rule log_steps_inv [OF assms(1)]) (simp add: log_inv_def new_memory_good)
  have i': "log_inv lib (st', ps')" by (rule log_steps_inv [OF assms(2) i])
  have "log_le lib st' st''" if "log_step lib (st', ps') (st'', ps'')" for st'' ps'' using log_step_ok [OF that i'] by simp
  then have "\<forall>st'' ps''. log_step lib (st', ps') (st'', ps'') \<longrightarrow>
       map_option cs_bytes (cl_checkpoint (st_cll st'')) = map_option cs_bytes (cl_checkpoint (st_cll st')) \<or>
       (\<exists>old. map_option cs_bytes old = map_option cs_bytes (cl_checkpoint (st_cll st')) \<and> signed_next lib old (st_cll st''))"
    unfolding log_le_def by blast
  then show ?thesis using log_steps_le [OF assms(2) i] i' by (simp add: log_inv_def memory_good)
qed

theorem log_is_maintained_witness:
  "\<exists>st ps st' ps'. (log_step (sample_packages VNaN))\<^sup>*\<^sup>* (new_memory, []) (st, ps) \<and> (log_step (sample_packages VNaN))\<^sup>*\<^sup>* (st, ps) (st', ps') \<and>
     length ps = 2 \<and> length ps' = 1 \<and> cl_indexed_seq (st_cll st) = 0 \<and> cl_indexed_seq (st_cll st') = 1 \<and>
     runner_state (st_entries st') (st_cll st')"
proof -
  obtain st st' p q where s: "(log_step (sample_packages VNaN))\<^sup>*\<^sup>* (new_memory, []) (st, [p, p])"
    "(log_step (sample_packages VNaN))\<^sup>*\<^sup>* (st, [p, p]) (st', [q])" "st_cll st = empty_cll_state" "st_cll st' = one_entry_state"
    by (rule two_runners)
  then have "runner_state (st_entries st') (st_cll st')" using log_is_maintained [OF s(1,2)] by simp
  then show ?thesis using s by (intro exI [of _ st] exI [of _ "[p, p]"] exI [of _ st'] exI [of _ "[q]"])
    (simp add: empty_cll_state_def one_entry_state_def)
qed

text \<open>
  C29. Catching up returns. On an open journal store a pass over \<open>n\<close> entries ends within
  \<open>4 * n + 4\<close> iterations, whatever the writes, the clock and the stop signals do, with no entry lost; when it ends
  without an error and was not told to stop, every entry of the log is in the node array.
\<close>

theorem catch_up_returns:
  assumes "js_inv st" "runner_state (eg_entries (js_engine st)) (eg_state (js_engine st))" "new_runner cfg = Inr cfg"
  shows "\<exists>r st'. catch_up (4 * length (eg_entries (js_engine st)) + 4) lib js_load_cll js_scan_entries (js_commit_cll io) cfg now stops st =
      Some (r, st') \<and>
    eg_entries (js_engine st') = eg_entries (js_engine st) \<and> cll_le (eg_state (js_engine st)) (eg_state (js_engine st')) \<and>
    (r = Inr () \<and> True \<notin> set stops \<longrightarrow> mmr_of (cl_nodes (eg_state (js_engine st'))) (map en_value (eg_entries (js_engine st))))"
proof -
  have "journal.good st" using assms(1,2) by (simp add: journal.good_def)
  from journal.catch_up_indexes [OF this _ _ journal_survives [of io], of cfg "4 * length (eg_entries (js_engine st)) + 4" lib now stops]
  show ?thesis using new_runner_limits [OF assms(3)] by simp
qed

theorem catch_up_returns_witness:
  "\<exists>r st'. catch_up 4 (sample_packages VNaN) js_load_cll js_scan_entries (js_commit_cll \<lparr>io_writes = [], io_fsync = True, io_truncate = True, io_truncate_sync = True\<rparr>)
     \<lparr>rc_signer = \<lparr>cs_key_id = [], cs_sign_cose_statement = None\<rparr>, rc_log_id = text_of ''log'', rc_witness_ids = [],
      rc_cadence_entries = 1, rc_cadence_age = 1, rc_scan_limit = 1, rc_poll_interval = 1\<rparr> (Aware 0) []
     \<lparr>js_file = [], js_engine = new_engine, js_closed = False\<rparr> = Some (r, st')"
  (is "\<exists>r st'. catch_up 4 ?lib _ _ (js_commit_cll ?io) ?cfg _ [] ?st = _")
proof -
  have "js_inv ?st" by (simp add: js_inv_def)
  moreover have "runner_state (eg_entries (js_engine ?st)) (eg_state (js_engine ?st))"
    using new_memory_good by (simp add: memory_good new_memory_def)
  moreover have "new_runner ?cfg = Inr ?cfg"
    by (simp add: new_runner_def validate_identifier_def text_of_def MAX_SCAN_LIMIT_def MAX_WITNESSES_def identifier_char_def MAX_IDENTIFIER_BYTES_def)
  ultimately show ?thesis using catch_up_returns [of ?st ?cfg ?lib ?io "Aware 0" "[]"] by (auto simp: new_engine_def)
qed

end
