(* ===== verification/Witness_Delivery.thy ===== *)
theory Witness_Delivery
  imports Checkpoint_Runner Checkpoint_Stamps
begin

text \<open>
  \<^verbatim>\<open>cll/checkpoint/witness.py\<close>: the client that posts a checkpoint to a witness, the verifier of the receipt
  it returns, and the runner that delivers the pending rows of a store. The exchange with the witness is
  an argument, as are the packages (\<open>CoseLib\<close>), and the random draws of the jitter. Lemmas: the bounded
  error text and the backoff.
\<close>

section \<open>The entry hash of a checkpoint\<close>

definition LEGACY_SCHEME :: pytext where "LEGACY_SCHEME = text_of ''legacy''"

definition verified_checkpoint :: "('x, 'n) CoseLib \<Rightarrow> bytes \<Rightarrow> DecodedCheckpointCose res" where
  "verified_checkpoint lib checkpoint =
     (let verified = verify_checkpoint_cose_offline lib checkpoint in
      if \<not> cv_ok verified then Inl RejectedError
      else case cv_decoded verified of None \<Rightarrow> Inl RejectedError | Some decoded \<Rightarrow> Inr decoded)"

definition checkpoint_entry_hash :: "('x, 'n) CoseLib \<Rightarrow> bytes \<Rightarrow> pytext res" where
  "checkpoint_entry_hash lib checkpoint =
     bindR (verified_checkpoint lib checkpoint) (\<lambda>decoded.
     bindR (fromhex_text (cp_digest (to_checkpoint_record decoded))) (\<lambda>digest. Inr (hex_text (sha256 digest))))"

section \<open>The client\<close>

text \<open>
  What the witness does with the request: nothing that reaches the client (a refused connection, a
  timeout), or a status with a body, whose declared length is \<open>None\<close> when the response has none.
\<close>

datatype exchange = ExchangeFails | Exchange int bytes "nat option"

text \<open>\<^verbatim>\<open>_read\<close>, with the \<^verbatim>\<open>IncompleteRead\<close> of a response that ends before its declared length as the
  retryable error \<^verbatim>\<open>submit\<close> makes of it.\<close>

definition read_bounded :: "nat \<Rightarrow> bytes \<Rightarrow> nat option \<Rightarrow> bytes res" where
  "read_bounded max_bytes body declared =
     (let available = (case declared of None \<Rightarrow> body | Some n \<Rightarrow> take n body);
          raw = take (max_bytes + 1) available;
          remaining = (case declared of None \<Rightarrow> 0 | Some n \<Rightarrow> n - length raw) in
      if length raw \<le> max_bytes \<and> remaining \<noteq> 0 then Inl ContentionError else Inr raw)"

text \<open>The member \<^verbatim>\<open>receipt_b64\<close>: empty for what \<^verbatim>\<open>base64.b64decode(encoded, validate=True)\<close> refuses with a
  \<^verbatim>\<open>binascii.Error\<close>. A text that is not ASCII is a plain \<^verbatim>\<open>ValueError\<close>, which nothing catches.\<close>

definition receipt_bytes :: "json option \<Rightarrow> bytes res" where
  "receipt_bytes encoded =
     (case encoded of
        Some (JStr t) \<Rightarrow>
          if \<exists>c\<in>set t. 128 \<le> c then Inl ValueError
          else Inr (case b64_decode t of None \<Rightarrow> [] | Some b \<Rightarrow> map of_nat b)
      | _ \<Rightarrow> Inr [])"

text \<open>\<^verbatim>\<open>json.loads\<close> raises \<^verbatim>\<open>RecursionError\<close> on a text that is nested deeper than the interpreter's stack allows,
  which is given as \<open>too_deep\<close>; nothing catches it either. A surplus padding character makes a base64 text malformed.\<close>

definition parse_receipt :: "(pytext \<Rightarrow> bool) \<Rightarrow> bytes \<Rightarrow> WitnessReceipt res" where
  "parse_receipt too_deep raw =
     (if (case utf8_decode (map unat raw) of None \<Rightarrow> False | Some t \<Rightarrow> too_deep t) then Inl RecursionError
      else case loads raw of
        Inr (JObj wire) \<Rightarrow>
          if map_of wire (text_of ''entry_hash_scheme'') \<noteq> Some (JStr LEGACY_SCHEME) then Inl RejectedError
          else (case map_of wire (text_of ''entry_hash'') of
            Some (JStr entry_hash) \<Rightarrow>
              if \<not> entry_hash_ok entry_hash then Inl RejectedError
              else (case (map_of wire (text_of ''leaf_index''), map_of wire (text_of ''tree_size'')) of
                (Some (JInt leaf_index), Some (JInt tree_size)) \<Rightarrow>
                  if \<not> (0 \<le> leaf_index \<and> leaf_index < tree_size \<and> tree_size \<le> MAX_PORTABLE_INTEGER) then Inl RejectedError
                  else
                    bindR (receipt_bytes (map_of wire (text_of ''receipt_b64''))) (\<lambda>receipt.
                    if receipt = [] then Inl RejectedError
                    else Inr \<lparr>wr_bytes = receipt, wr_entry_hash = Some entry_hash, wr_entry_hash_scheme = Some LEGACY_SCHEME,
                           wr_leaf_index = Some leaf_index, wr_tree_size = Some tree_size\<rparr>)
              | _ \<Rightarrow> Inl RejectedError)
          | _ \<Rightarrow> Inl RejectedError)
      | _ \<Rightarrow> Inl RejectedError)"

definition submit ::
  "('x, 'n) CoseLib \<Rightarrow> (pytext \<Rightarrow> bool) \<Rightarrow> nat \<Rightarrow> (bytes \<Rightarrow> exchange) \<Rightarrow> bytes \<Rightarrow> WitnessReceipt res" where
  "submit lib too_deep max_bytes send checkpoint =
     bindR (checkpoint_entry_hash lib checkpoint) (\<lambda>_.
     case send checkpoint of
       ExchangeFails \<Rightarrow> Inl ContentionError
     | Exchange status body declared \<Rightarrow>
         bindR (read_bounded max_bytes body declared) (\<lambda>raw.
         if length raw > max_bytes then Inl RejectedError
         else if \<not> (200 \<le> status \<and> status < 300) then
           (if status \<in> {408, 429} \<or> status \<ge> 500 then Inl ContentionError else Inl RejectedError)
         else parse_receipt too_deep raw))"

section \<open>The verifier\<close>

text \<open>\<^verbatim>\<open>ReceiptVerifier(public_key)\<close> is the PEM form of the pinned key.\<close>

definition new_receipt_verifier :: "('x, 'n) CoseLib \<Rightarrow> bytes \<Rightarrow> bytes res" where
  "new_receipt_verifier lib public_key =
     (if length public_key \<noteq> 32 then Inl InvalidError else lib_key_pem lib public_key)"

definition UNDERSTOOD_LABELS :: "int list" where
  "UNDERSTOOD_LABELS = [1, 2, 15, 395]"

definition crit_label_ok :: "('x cval \<times> 'x cval) list \<Rightarrow> 'x cval \<Rightarrow> bool" where
  "crit_label_ok headers label =
     (map_of headers label \<noteq> None \<and> (case label of VAtom (CInt n) \<Rightarrow> n \<in> set UNDERSTOOD_LABELS | _ \<Rightarrow> False))"

definition check_crit :: "'x cval \<Rightarrow> unit res" where
  "check_crit headers =
     (case headers of
        VDict ms \<Rightarrow>
          (case map_of ms (int_value 2) of
             None \<Rightarrow> Inr ()
           | Some (VList labels) \<Rightarrow>
               if labels = [] \<or> \<not> list_all (crit_label_ok ms) labels then Inl RejectedError else Inr ()
           | Some _ \<Rightarrow> Inl RejectedError)
      | _ \<Rightarrow> Inr ())"

definition vds_ok :: "'x cval \<Rightarrow> bool" where
  "vds_ok headers =
     (case headers of
        VDict ms \<Rightarrow> (case map_of ms (int_value 395) of None \<Rightarrow> True | Some (VAtom (CInt n)) \<Rightarrow> True | Some _ \<Rightarrow> False)
      | _ \<Rightarrow> True)"

text \<open>\<^verbatim>\<open>v.get(label)\<close> of a mapping, \<^verbatim>\<open>None\<close> of anything else.\<close>

definition get_label :: "int \<Rightarrow> 'x cval option \<Rightarrow> 'x cval option" where
  "get_label n v = (case v of Some (VDict ms) \<Rightarrow> map_of ms (int_value n) | _ \<Rightarrow> None)"

definition check_blobs :: "('x, 'n) CoseLib \<Rightarrow> 'x cval option \<Rightarrow> unit res" where
  "check_blobs lib proofs =
     foldR (\<lambda>_ blob. case blob of VAtom (CBytes b) \<Rightarrow> bindR (receipt_item (lib_cbor2 lib) b False) (\<lambda>_. Inr ()) | _ \<Rightarrow> Inr ())
       () (case proofs of Some (VList blobs) \<Rightarrow> blobs | _ \<Rightarrow> [])"

definition check_receipt_rules :: "('x, 'n) CoseLib \<Rightarrow> bytes \<Rightarrow> unit res" where
  "check_receipt_rules lib receipt =
     (case bindR (receipt_item (lib_cbor2 lib) receipt True) (\<lambda>outer.
        case outer of
          VTag _ (VList [protected, unprotected, _, _]) \<Rightarrow>
            bindR (case protected of
              VAtom (CBytes (b # bs)) \<Rightarrow>
                bindR (receipt_item (lib_cbor2 lib) (b # bs) False) (\<lambda>headers.
                if \<not> vds_ok headers then Inl RejectedError else check_crit headers)
            | _ \<Rightarrow> Inr ()) (\<lambda>_.
            check_blobs lib (get_label (- 1) (get_label 396 (Some unprotected))))
        | _ \<Rightarrow> Inr ()) of
        Inl e \<Rightarrow> Inl (if e = ReceiptEncodingError then RejectedError else e)
      | Inr r \<Rightarrow> Inr r)"

definition receipt_verify :: "('x, 'n) CoseLib \<Rightarrow> bytes \<Rightarrow> bytes \<Rightarrow> WitnessReceipt \<Rightarrow> unit res" where
  "receipt_verify lib pem checkpoint receipt =
     (if \<not> (1 \<le> length (wr_bytes receipt) \<and> length (wr_bytes receipt) \<le> MAX_WITNESS_RESPONSE_BYTES) then Inl RejectedError
      else
        bindR (check_receipt_rules lib (wr_bytes receipt)) (\<lambda>_.
        if wr_entry_hash_scheme receipt \<noteq> Some LEGACY_SCHEME then Inl RejectedError
        else
          bindR (checkpoint_entry_hash lib checkpoint) (\<lambda>entry_hash.
          if wr_entry_hash receipt \<noteq> Some entry_hash then Inl RejectedError
          else
            bindR (verify_receipt (CryptoLib.truncate lib) (wr_bytes receipt) entry_hash pem) (\<lambda>result.
            if \<not> rr_ok result then Inl RejectedError
            else if rr_tree_size result \<noteq> wr_tree_size receipt \<or> rr_leaf_index result \<noteq> wr_leaf_index receipt then Inl RejectedError
            else Inr ()))))"

section \<open>The error text\<close>

text \<open>\<^verbatim>\<open>value.encode("utf-8", "replace")\<close> and \<^verbatim>\<open>encoded.decode("utf-8", "ignore")\<close>.\<close>

definition encode_replace :: "pytext \<Rightarrow> nat list" where
  "encode_replace t = concat (map (\<lambda>c. case utf8_char c of Some b \<Rightarrow> b | None \<Rightarrow> [63]) t)"

definition utf8_first :: "nat list \<Rightarrow> (nat \<times> nat list) option" where
  "utf8_first s =
     (case s of
        a # as \<Rightarrow>
          if a < 128 then Some (a, as)
          else (case as of
            b # bs \<Rightarrow>
              if 194 \<le> a \<and> a < 224 \<and> cont b then Some ((a - 192) * 64 + (b - 128), bs)
              else (case bs of
                c # cs \<Rightarrow>
                  if 224 \<le> a \<and> a < 240 \<and> cont b \<and> cont c \<and> (a = 224 \<longrightarrow> 160 \<le> b) \<and> (a = 237 \<longrightarrow> b < 160)
                  then Some ((a - 224) * 4096 + (b - 128) * 64 + (c - 128), cs)
                  else (case cs of
                    d # ds \<Rightarrow>
                      if 240 \<le> a \<and> a < 245 \<and> cont b \<and> cont c \<and> cont d \<and> (a = 240 \<longrightarrow> 144 \<le> b) \<and> (a = 244 \<longrightarrow> b < 144)
                      then Some ((a - 240) * 262144 + (b - 128) * 4096 + (c - 128) * 64 + (d - 128), ds)
                      else None
                  | [] \<Rightarrow> None)
              | [] \<Rightarrow> None)
          | [] \<Rightarrow> None)
      | [] \<Rightarrow> None)"

text \<open>Python skips the longest prefix of a sequence that could begin a character; its bytes after the first
  begin none, so skipping one byte at a time is the same.\<close>

function decode_ignore :: "nat list \<Rightarrow> pytext" where
  "decode_ignore s =
     (case s of [] \<Rightarrow> [] | a # as \<Rightarrow>
        (case utf8_first s of Some (c, rest) \<Rightarrow> c # decode_ignore rest | None \<Rightarrow> decode_ignore as))"
  by pat_completeness auto
termination
proof (relation "measure length")
  fix s :: "nat list" and a as p c rest assume "s = a # as" "utf8_first s = Some p" "(c, rest) = p"
  then have "length rest < length s" by (auto simp: utf8_first_def split: if_splits list.splits)
  then show "(rest, s) \<in> measure length" by simp
qed simp_all

declare decode_ignore.simps [simp del]

definition bounded_text :: "pytext \<Rightarrow> pytext" where
  "bounded_text value = decode_ignore (take MAX_REASON_BYTES (encode_replace value))"

section \<open>The delivery runner\<close>

text \<open>An exception with its text, or a value.\<close>

type_synonym 'a attempt = "py_error \<times> pytext + 'a"

record DeliveryRunner =
  dr_clients :: "(pytext \<times> (bytes \<Rightarrow> WitnessReceipt attempt) option) list"
  dr_verifiers :: "(pytext \<times> (bytes \<Rightarrow> WitnessReceipt \<Rightarrow> unit attempt) option) list"
  dr_poll_interval :: int
  dr_base_backoff :: int
  dr_max_backoff :: int
  dr_jitter :: bool

definition new_delivery_runner :: "DeliveryRunner \<Rightarrow> DeliveryRunner res" where
  "new_delivery_runner r =
     (if dr_poll_interval r \<le> 0 \<or> dr_base_backoff r \<le> 0 \<or> dr_max_backoff r < dr_base_backoff r \<or>
         \<not> (1 \<le> length (dr_clients r) \<and> int (length (dr_clients r)) \<le> MAX_WITNESSES) \<or>
         set (map fst (dr_clients r)) \<noteq> set (map fst (dr_verifiers r)) then Inl InvalidError
      else if \<not> list_all (\<lambda>(w, c). validate_identifier w \<and> c \<noteq> None \<and> map_of (dr_verifiers r) w \<noteq> Some None) (dr_clients r)
      then Inl InvalidError
      else Inr r)"

text \<open>A \<^verbatim>\<open>timedelta\<close> beyond \<open>MAX_DELTA\<close> microseconds is an \<^verbatim>\<open>OverflowError\<close>.\<close>

definition MAX_DELTA :: int where "MAX_DELTA = 86399999999999999999"

fun doubled :: "int \<Rightarrow> nat \<Rightarrow> int \<Rightarrow> int res" where
  "doubled max_backoff 0 delay = Inr delay"
| "doubled max_backoff (Suc n) delay =
     (if delay \<ge> max_backoff then Inr delay
      else if delay * 2 > MAX_DELTA then Inl OverflowError
      else doubled max_backoff n (min (delay * 2) max_backoff))"

text \<open>\<^verbatim>\<open>timedelta\<close>'s division of integers to the nearest, halves to even. \<^verbatim>\<open>random.random()\<close> is \<open>draw / 2 ^ 53\<close>.\<close>

definition divide_and_round :: "int \<Rightarrow> int \<Rightarrow> int" where
  "divide_and_round a b =
     (let q = a div b; r = a mod b in if 2 * r > b \<or> (2 * r = b \<and> odd q) then q + 1 else q)"

definition backoff :: "DeliveryRunner \<Rightarrow> nat \<Rightarrow> nat \<Rightarrow> int res" where
  "backoff r draw attempts =
     bindR (doubled (dr_max_backoff r) attempts (dr_base_backoff r)) (\<lambda>delay.
     Inr (if dr_jitter r then divide_and_round (delay * int draw) (2 ^ 53) else delay))"

text \<open>\<^verbatim>\<open>now + delay\<close>\<close>

definition plus_delta :: "datetime \<Rightarrow> int \<Rightarrow> datetime res" where
  "plus_delta now delay =
     (case now of Naive \<Rightarrow> Inr Naive
      | Aware t \<Rightarrow> if t + delay < 0 \<or> MAX_MICROS \<le> t + delay then Inl OverflowError else Inr (Aware (t + delay)))"

definition retryable :: "py_error \<Rightarrow> bool" where
  "retryable e = (case e of ContentionError \<Rightarrow> True | OSError \<Rightarrow> True | HTTPError _ \<Rightarrow> True | _ \<Rightarrow> False)"

text \<open>The store's \<^verbatim>\<open>get_witness\<close> and \<^verbatim>\<open>commit_witness\<close> are arguments of what follows.\<close>

definition fail_row ::
  "('st \<Rightarrow> int \<Rightarrow> WitnessState \<Rightarrow> unit res \<times> 'st) \<Rightarrow> DeliveryRunner \<Rightarrow> nat \<Rightarrow> datetime \<Rightarrow> WitnessState \<Rightarrow> bool \<Rightarrow> pytext \<Rightarrow> 'st \<Rightarrow>
   unit res \<times> 'st" where
  "fail_row commit r draw now item permanent reason st =
     (case bindR (backoff r draw (nat (ws_attempts item))) (\<lambda>delay.
        bindR (plus_delta now delay) (normalize_time InvalidError)) of
        Inl e \<Rightarrow> (Inl e, st)
      | Inr next_attempt_at \<Rightarrow>
          commit st (ws_attempts item)
            (item\<lparr>ws_attempts := ws_attempts item + 1, ws_permanent := permanent,
               ws_last_error := Some (bounded_text reason), ws_next_attempt_at := next_attempt_at\<rparr>))"

text \<open>The row's predecessor on this witness is held back while it has no receipt.\<close>

definition held :: "('st \<Rightarrow> pytext \<Rightarrow> int \<Rightarrow> WitnessState option res) \<Rightarrow> 'st \<Rightarrow> WitnessState \<Rightarrow> int \<Rightarrow> bool res" where
  "held get st item prev_size =
     (if prev_size > 0 then
        bindR (get st (ws_witness_id item) prev_size) (\<lambda>predecessor.
        Inr (case predecessor of None \<Rightarrow> False | Some row \<Rightarrow> ws_receipt row = None))
      else Inr False)"

definition returns :: "'b \<Rightarrow> unit res \<times> 'st \<Rightarrow> 'b res \<times> 'st" where
  "returns v p = (case p of (Inl e, st) \<Rightarrow> (Inl e, st) | (Inr _, st) \<Rightarrow> (Inr v, st))"

definition deliver ::
  "('x, 'n) CoseLib \<Rightarrow> ('st \<Rightarrow> pytext \<Rightarrow> int \<Rightarrow> WitnessState option res) \<Rightarrow>
   ('st \<Rightarrow> int \<Rightarrow> WitnessState \<Rightarrow> unit res \<times> 'st) \<Rightarrow> DeliveryRunner \<Rightarrow> nat \<Rightarrow> datetime \<Rightarrow> WitnessState \<Rightarrow> 'st \<Rightarrow>
   (bool \<times> bool) res \<times> 'st" where
  "deliver lib get commit r draw now item st =
     (case (map_of (dr_clients r) (ws_witness_id item), map_of (dr_verifiers r) (ws_witness_id item)) of
        (Some (Some client), Some (Some verifier)) \<Rightarrow>
          (case verified_checkpoint lib (ws_checkpoint item) of
             Inl _ \<Rightarrow> returns (False, False) (fail_row commit r draw now item True (text_of ''stored checkpoint failed verification'') st)
           | Inr decoded \<Rightarrow>
               (case held get st item (dc_prev_size decoded) of
                  Inl e \<Rightarrow> (Inl e, st)
                | Inr True \<Rightarrow> (Inr (False, True), st)
                | Inr False \<Rightarrow>
                    (case client (ws_checkpoint item) of
                       Inl (e, text) \<Rightarrow> returns (False, retryable e) (fail_row commit r draw now item (\<not> retryable e) text st)
                     | Inr receipt \<Rightarrow>
                         (case verifier (ws_checkpoint item) receipt of
                            Inl (e, text) \<Rightarrow> returns (False, False) (fail_row commit r draw now item True text st)
                          | Inr _ \<Rightarrow>
                              returns (True, False)
                                (commit st (ws_attempts item)
                                  (item\<lparr>ws_attempts := ws_attempts item + 1, ws_next_attempt_at := now, ws_receipt := Some receipt,
                                     ws_permanent := False, ws_last_error := None\<rparr>))))))
      | _ \<Rightarrow> (Inl InvalidError, st))"

text \<open>
  A worker of the pool runs \<^verbatim>\<open>_deliver_all\<close> over the rows of one witness: \<open>Waiting\<close> holds the rows left and
  the count, the others are the outcomes of its future. The pool is run by a schedule: which worker
  makes the next delivery, and the random number it draws if that delivery fails.
\<close>

datatype worker = Waiting "WitnessState list" nat | Returned nat | Raised py_error

definition worker_turn ::
  "('x, 'n) CoseLib \<Rightarrow> ('st \<Rightarrow> pytext \<Rightarrow> int \<Rightarrow> WitnessState option res) \<Rightarrow>
   ('st \<Rightarrow> int \<Rightarrow> WitnessState \<Rightarrow> unit res \<times> 'st) \<Rightarrow> DeliveryRunner \<Rightarrow> nat \<Rightarrow> datetime \<Rightarrow> worker \<Rightarrow> 'st \<Rightarrow> worker \<times> 'st" where
  "worker_turn lib get commit r draw now w st =
     (case w of
        Waiting [] completed \<Rightarrow> (Returned completed, st)
      | Waiting (item # items) completed \<Rightarrow>
          (case deliver lib get commit r draw now item st of
             (Inl e, st) \<Rightarrow> (Raised e, st)
           | (Inr (success, stop), st) \<Rightarrow>
               let completed = completed + of_bool success in
               (if stop then Returned completed else Waiting items completed, st))
      | _ \<Rightarrow> (w, st))"

fun pool_run ::
  "('x, 'n) CoseLib \<Rightarrow> ('st \<Rightarrow> pytext \<Rightarrow> int \<Rightarrow> WitnessState option res) \<Rightarrow>
   ('st \<Rightarrow> int \<Rightarrow> WitnessState \<Rightarrow> unit res \<times> 'st) \<Rightarrow> DeliveryRunner \<Rightarrow> datetime \<Rightarrow> (nat \<times> nat) list \<Rightarrow> worker list \<Rightarrow> 'st \<Rightarrow>
   worker list \<times> 'st" where
  "pool_run lib get commit r now [] ws st = (ws, st)"
| "pool_run lib get commit r now ((i, draw) # sched) ws st =
     (if i < length ws then
        (case worker_turn lib get commit r draw now (ws ! i) st of
           (w, st) \<Rightarrow> pool_run lib get commit r now sched (ws[i := w]) st)
      else pool_run lib get commit r now sched ws st)"

definition finished :: "worker \<Rightarrow> bool" where
  "finished w = (case w of Waiting _ _ \<Rightarrow> False | _ \<Rightarrow> True)"

text \<open>The first exception in the order of the futures, else the number of receipts.\<close>

fun pool_result :: "worker list \<Rightarrow> nat res" where
  "pool_result [] = Inr 0"
| "pool_result (Raised e # ws) = Inl e"
| "pool_result (Returned n # ws) = bindR (pool_result ws) (\<lambda>m. Inr (n + m))"
| "pool_result (Waiting items n # ws) = pool_result ws"

text \<open>\<^verbatim>\<open>run_once\<close>: \<open>None\<close> when the schedule ends before the pool does.\<close>

definition delivery_pass ::
  "('x, 'n) CoseLib \<Rightarrow> ('st \<Rightarrow> pytext \<Rightarrow> datetime \<Rightarrow> int \<Rightarrow> WitnessState list res) \<Rightarrow>
   ('st \<Rightarrow> pytext \<Rightarrow> int \<Rightarrow> WitnessState option res) \<Rightarrow> ('st \<Rightarrow> int \<Rightarrow> WitnessState \<Rightarrow> unit res \<times> 'st) \<Rightarrow> DeliveryRunner \<Rightarrow>
   (nat \<times> nat) list \<Rightarrow> datetime \<Rightarrow> int \<Rightarrow> 'st \<Rightarrow> (nat res \<times> 'st) option" where
  "delivery_pass lib pending_for get commit r sched now limit st =
     (case bindR (normalize_time InvalidError now) (\<lambda>now.
        bindR (mapR (\<lambda>(w, _). pending_for st w now limit) (dr_clients r)) (\<lambda>items. Inr (now, items))) of
        Inl e \<Rightarrow> Some (Inl e, st)
      | Inr (now, items) \<Rightarrow>
          (let groups = filter (\<lambda>is. is \<noteq> []) items in
           if groups = [] then Some (Inr 0, st)
           else (case pool_run lib get commit r now sched (map (\<lambda>is. Waiting is 0) groups) st of
             (ws, st) \<Rightarrow> if list_all finished ws then Some (pool_result ws, st) else None)))"

section \<open>The error text\<close>

definition utf8_size :: "nat \<Rightarrow> nat" where
  "utf8_size c = (case utf8_char c of None \<Rightarrow> 0 | Some b \<Rightarrow> length b)"

lemma one_byte: "a < 128 \<Longrightarrow> utf8_size a = 1"
  by (simp add: utf8_size_def utf8_char_def)

lemma two_bytes: "194 \<le> a \<Longrightarrow> a < 224 \<Longrightarrow> cont b \<Longrightarrow> utf8_size ((a - 192) * 64 + (b - 128)) = 2"
  by (auto simp: utf8_size_def utf8_char_def cont_def)

lemma three_bytes:
  assumes "224 \<le> a" "a < 240" "cont b" "cont c" "a = 224 \<longrightarrow> 160 \<le> b" "a = 237 \<longrightarrow> b < 160"
  shows "utf8_size ((a - 224) * 4096 + (b - 128) * 64 + (c - 128)) = 3"
proof -
  define x y z where "x = a - 224" and "y = b - 128" and "z = c - 128"
  have b: "x < 16" "y < 64" "z < 64" "x = 0 \<longrightarrow> 32 \<le> y" "x = 13 \<longrightarrow> y < 32"
    using assms by (auto simp: cont_def x_def y_def z_def)
  have "2048 \<le> x * 4096 + y * 64 + z" using b by (cases "x = 0") auto
  moreover have "x * 4096 + y * 64 + z < 65536" using b by linarith
  moreover have "\<not> (55296 \<le> x * 4096 + y * 64 + z \<and> x * 4096 + y * 64 + z < 57344)"
    using b by (cases x "13 :: nat" rule: linorder_cases) auto
  ultimately show ?thesis unfolding x_def [symmetric] y_def [symmetric] z_def [symmetric] by (simp add: utf8_size_def utf8_char_def)
qed

lemma four_bytes:
  assumes "240 \<le> a" "a < 245" "cont b" "cont c" "cont d" "a = 240 \<longrightarrow> 144 \<le> b" "a = 244 \<longrightarrow> b < 144"
  shows "utf8_size ((a - 240) * 262144 + (b - 128) * 4096 + (c - 128) * 64 + (d - 128)) = 4"
proof -
  define x y z w where "x = a - 240" and "y = b - 128" and "z = c - 128" and "w = d - 128"
  have b: "x < 5" "y < 64" "z < 64" "w < 64" "x = 0 \<longrightarrow> 16 \<le> y" "x = 4 \<longrightarrow> y < 16"
    using assms by (auto simp: cont_def x_def y_def z_def w_def)
  have "65536 \<le> x * 262144 + y * 4096 + z * 64 + w" using b by (cases "x = 0") auto
  moreover have "x * 262144 + y * 4096 + z * 64 + w < 1114112" using b by (cases "x = 4") auto
  ultimately show ?thesis unfolding x_def [symmetric] y_def [symmetric] z_def [symmetric] w_def [symmetric] by (simp add: utf8_size_def utf8_char_def)
qed

text \<open>The character read is as long, in UTF-8, as what was read.\<close>

lemma utf8_first_length:
  "utf8_first s = Some (c, rest) \<Longrightarrow> utf8_size c = length s - length rest \<and> length rest < length s"
  by (simp only: utf8_first_def split: list.splits if_splits option.splits)
    (auto simp: one_byte two_bytes three_bytes four_bytes)

lemma decode_ignore_length: "\<exists>bs. utf8_encode (decode_ignore s) = Some bs \<and> length bs \<le> length s"
proof (induction s rule: decode_ignore.induct)
  case (1 s)
  show ?case
  proof (cases s)
    case (Cons a as)
    show ?thesis
    proof (cases "utf8_first s")
      case None
      then show ?thesis using 1(1) [OF Cons None] Cons by (auto simp: decode_ignore.simps [of "a # as"])
    next
      case (Some p)
      obtain c rest where p: "p = (c, rest)" by (cases p)
      obtain bs where "utf8_char c = Some bs" "length bs + length rest = length s" using utf8_first_length [of s c rest] Some p by (cases "utf8_char c") (auto simp: utf8_size_def)
      then show ?thesis using 1(2) [OF Cons Some p [symmetric]] Some p Cons by (auto simp: decode_ignore.simps [of "a # as"])
    qed
  qed (simp add: decode_ignore.simps)
qed

lemma encode_replace_exact: "utf8_encode t = Some bs \<Longrightarrow> encode_replace t = bs"
  by (induction t arbitrary: bs) (auto simp: encode_replace_def split: option.splits)

lemma utf8_first_char:
  assumes "utf8_char c = Some bs"
  shows "utf8_first (bs @ rest) = Some (c, rest)"
proof -
  have d: "utf8_decode (bs @ []) = Some [c]" using utf8_char_parts(1) [OF assms, of "[]"] by simp
  consider a where "bs = [a]" "a < 128" | a b where "bs = [a, b]" "128 \<le> a" | a b e where "bs = [a, b, e]" "224 \<le> a"
    | a b e f where "bs = [a, b, e, f]" "240 \<le> a"
    using assms by (auto simp: utf8_char_def split: if_splits)
  then show ?thesis using d by cases (auto simp: utf8_first_def split: if_splits)
qed

lemma decode_ignore_encode: "utf8_encode t = Some bs \<Longrightarrow> decode_ignore bs = t"
proof (induction t arbitrary: bs)
  case (Cons c t)
  then obtain a b where ab: "utf8_char c = Some a" "utf8_encode t = Some b" "bs = a @ b" by (auto split: option.splits)
  have "a \<noteq> []" using utf8_char_parts(2) [OF ab(1)] .
  then show ?case using utf8_first_char [OF ab(1), of b] Cons.IH [OF ab(2)]
    by (subst decode_ignore.simps) (auto simp: ab(3) split: list.splits)
qed (simp add: decode_ignore.simps)

text \<open>
  A recorded failure can always be stored: whatever the text of an exception is, lone surrogates
  included, what is kept of it has a UTF-8 form of at most \<open>MAX_REASON_BYTES\<close> bytes, and a text that fits is
  kept unchanged.
\<close>

theorem bounded_text_fits:
  "(\<exists>n. utf8_length (bounded_text t) = Some n \<and> n \<le> MAX_REASON_BYTES) \<and>
   (\<forall>bs. utf8_encode t = Some bs \<longrightarrow> length bs \<le> MAX_REASON_BYTES \<longrightarrow> bounded_text t = t)"
proof -
  have "\<exists>bs. utf8_encode (bounded_text t) = Some bs \<and> length bs \<le> MAX_REASON_BYTES"
    using decode_ignore_length [of "take MAX_REASON_BYTES (encode_replace t)"] by (auto simp: bounded_text_def)
  then show ?thesis
    using encode_replace_exact decode_ignore_encode by (auto simp: utf8_length_def bounded_text_def)
qed

theorem bounded_text_fits_witness: "bounded_text (text_of ''timeout'') = text_of ''timeout'' \<and> bounded_text [0xD800] = [63]"
proof -
  have "utf8_encode (text_of ''timeout'') = Some (text_of ''timeout'')" by (simp add: text_of_def utf8_char_def)
  then have "bounded_text (text_of ''timeout'') = text_of ''timeout''"
    using bounded_text_fits [of "text_of ''timeout''"] by (simp add: text_of_def MAX_REASON_BYTES_def)
  then show ?thesis
    by (simp add: bounded_text_def encode_replace_def utf8_char_def MAX_REASON_BYTES_def decode_ignore.simps utf8_first_def)
qed

section \<open>The backoff\<close>

lemma doubled_ok:
  assumes "0 < delay" "delay \<le> m" "2 * m \<le> MAX_DELTA"
  shows "doubled m n delay = Inr (min (delay * 2 ^ n) m)"
  using assms(1,2)
proof (induction n arbitrary: delay)
  case (Suc n)
  show ?case
  proof (cases "delay \<ge> m")
    case True
    have "delay * 1 \<le> delay * 2 ^ Suc n" using Suc.prems by (intro mult_left_mono one_le_power) simp_all
    then have "m \<le> delay * 2 ^ Suc n" using True by simp
    then show ?thesis using True Suc.prems by simp
  next
    case False
    have "min (min (delay * 2) m * 2 ^ n) m = min (delay * 2 ^ Suc n) m"
    proof (cases "delay * 2 \<le> m")
      case True
      then show ?thesis by (simp add: min_def ac_simps)
    next
      case False
      have "m * 1 \<le> m * 2 ^ n" "delay * 2 * 1 \<le> delay * 2 * 2 ^ n" using Suc.prems by (intro mult_left_mono; simp)+
      then show ?thesis using False by (simp add: min_def ac_simps)
    qed
    then show ?thesis using False Suc assms(3) by simp
  qed
qed simp

lemma divide_and_round_bounds:
  assumes "0 \<le> a" "a \<le> c * b" "0 < b"
  shows "0 \<le> divide_and_round a b" "divide_and_round a b \<le> c"
proof -
  have q: "0 \<le> a div b" "a = b * (a div b) + a mod b" "a mod b < b" "0 \<le> a mod b" using assms by (simp_all add: pos_imp_zdiv_nonneg_iff)
  show "0 \<le> divide_and_round a b" using q(1) by (simp add: divide_and_round_def Let_def)
  have "a div b \<le> c" using assms by (metis nonzero_mult_div_cancel_right zdiv_mono1 less_irrefl)
  moreover have "a mod b = 0" if "a div b = c" using q(2,4) assms(2) that by (simp add: mult.commute)
  ultimately show "divide_and_round a b \<le> c" using assms(3)
    by (cases "a div b = c") (auto simp: divide_and_round_def Let_def)
qed

text \<open>
  C33. The wait before a retry is bounded: it is never negative and never longer than the configured
  maximum, whatever the number of attempts, with jitter or without; without jitter it is exactly the base
  doubled once per earlier attempt, up to that maximum. A maximum of at most half of what a \<^verbatim>\<open>timedelta\<close> can
  hold is assumed: beyond it the doubling overflows.
\<close>

theorem backoff_bounded:
  assumes "new_delivery_runner r = Inr r" "2 * dr_max_backoff r \<le> MAX_DELTA" "draw < 2 ^ 53"
  shows "\<exists>d. backoff r draw attempts = Inr d \<and> 0 \<le> d \<and> d \<le> dr_max_backoff r \<and>
    (\<not> dr_jitter r \<longrightarrow> d = min (dr_base_backoff r * 2 ^ attempts) (dr_max_backoff r))"
proof -
  let ?d = "min (dr_base_backoff r * 2 ^ attempts) (dr_max_backoff r)"
  have r: "0 < dr_base_backoff r" "dr_base_backoff r \<le> dr_max_backoff r"
    using assms(1) by (auto simp: new_delivery_runner_def split: if_splits)
  have d: "doubled (dr_max_backoff r) attempts (dr_base_backoff r) = Inr ?d" by (rule doubled_ok [OF r assms(2)])
  have p: "0 \<le> ?d" "?d \<le> dr_max_backoff r" using r by simp_all
  have "?d * int draw \<le> ?d * 2 ^ 53" using assms(3) p(1) by (intro mult_left_mono) simp_all
  then have "0 \<le> divide_and_round (?d * int draw) (2 ^ 53)" "divide_and_round (?d * int draw) (2 ^ 53) \<le> ?d"
    using divide_and_round_bounds [of "?d * int draw" ?d "2 ^ 53"] p(1) by simp_all
  then show ?thesis using d p by (simp add: backoff_def)
qed

definition sample_runner :: DeliveryRunner where
  "sample_runner = \<lparr>dr_clients = [(text_of ''w'', Some (\<lambda>_. Inl (OSError, text_of ''down'')))], dr_verifiers = [(text_of ''w'', Some (\<lambda>_ _. Inr ()))],
     dr_poll_interval = 60000000, dr_base_backoff = 1000000, dr_max_backoff = 3600000000, dr_jitter = False\<rparr>"

lemma sample_runner_ok: "new_delivery_runner sample_runner = Inr sample_runner"
  by (simp add: new_delivery_runner_def sample_runner_def MAX_WITNESSES_def validate_identifier_def text_of_def identifier_char_def
      MAX_IDENTIFIER_BYTES_def)

theorem backoff_bounded_witness: "backoff sample_runner 0 3 = Inr 8000000 \<and> backoff sample_runner 0 40 = Inr 3600000000"
  using backoff_bounded [OF sample_runner_ok, of 0 3] backoff_bounded [OF sample_runner_ok, of 0 40]
  by (auto simp: sample_runner_def MAX_DELTA_def)

end
