(* ===== verification/Witness_Runs.thy ===== *)
theory Witness_Runs
  imports Witness_Delivery
begin

text \<open>
  What deliveries do to the rows of a store (\<^verbatim>\<open>cll/checkpoint/witness.py\<close>), on any store that meets
  \<open>witness_store\<close> and for every interleaving of the workers of the pool: a pass ends, and a receipt that is
  stored was earned. Also what an accepted receipt and a failed submission mean.
\<close>

section \<open>Turns\<close>

text \<open>A worker needs at most one turn per row, and one to return.\<close>

fun turns_left :: "worker \<Rightarrow> nat" where
  "turns_left (Waiting items n) = length items + 1"
| "turns_left _ = 0"

definition turns_of :: "(nat \<times> nat) list \<Rightarrow> nat \<Rightarrow> nat" where
  "turns_of sched i = length (filter (\<lambda>p. fst p = i) sched)"

lemma finished_iff: "finished w \<longleftrightarrow> turns_left w = 0"
  by (cases w) (simp_all add: finished_def)

lemma worker_turn_left: "turns_left (fst (worker_turn lib get commit r draw now w st)) \<le> turns_left w - 1"
  by (auto simp: worker_turn_def Let_def split: worker.splits list.splits prod.splits sum.splits)

lemma pool_run_finishes:
  "\<forall>i<length ws. turns_left (ws ! i) \<le> turns_of sched i \<Longrightarrow>
     list_all finished (fst (pool_run lib get commit r now sched ws st))"
proof (induction sched arbitrary: ws st)
  case Nil
  then show ?case by (simp add: turns_of_def list_all_length finished_iff)
next
  case (Cons p sched)
  obtain i draw where p: "p = (i, draw)" by (cases p)
  show ?case
  proof (cases "i < length ws")
    case False
    then show ?thesis using Cons by (auto simp: p turns_of_def)
  next
    case True
    obtain w st1 where t: "worker_turn lib get commit r draw now (ws ! i) st = (w, st1)" by fastforce
    have "turns_left (ws[i := w] ! j) \<le> turns_of sched j" if "j < length ws" for j
      using Cons.prems that worker_turn_left [of lib get commit r draw now "ws ! i" st] t
      by (cases "j = i") (force simp: p turns_of_def)+
    then show ?thesis using Cons.IH [of "ws[i := w]" st1] True t by (simp add: p)
  qed
qed

section \<open>What a delivery does to the rows\<close>

lemma validate_witness_fields:
  assumes "validate_witness e v = Inr w"
  shows "ws_receipt w = ws_receipt v" "ws_attempts w = ws_attempts v" "witness_key w = witness_key v" "ws_checkpoint w = ws_checkpoint v"
proof -
  have r: "validate_receipt e x = Inr y \<Longrightarrow> y = x" for x y
    by (auto simp: validate_receipt_def width_def split: option.splits if_splits)
  show "ws_receipt w = ws_receipt v" "ws_attempts w = ws_attempts v" "witness_key w = witness_key v" "ws_checkpoint w = ws_checkpoint v"
    using assms by (auto simp: validate_witness_def width_def bindR_eq_Inr witness_key_def dest: r split: option.splits if_splits)
qed

lemma apply_witness_row:
  assumes "apply_witness rows ea nxt = Inr (i, w)"
  shows "ws_receipt w = ws_receipt nxt" "ws_attempts w = ws_attempts nxt" "ws_checkpoint w = ws_checkpoint nxt"
proof -
  obtain v where "validate_witness InvalidError nxt = Inr v" "find_witness rows 0 ea v = Inr (i, w)"
    using assms by (auto simp: apply_witness_def bindR_eq_Inr)
  then show "ws_receipt w = ws_receipt nxt" "ws_attempts w = ws_attempts nxt" "ws_checkpoint w = ws_checkpoint nxt"
    using validate_witness_fields [of InvalidError nxt v] by (auto simp: find_witness_iff)
qed

text \<open>\<open>row\<close> has earned the receipt \<open>rc\<close> in a store with these rows: its statement verifies, the verifier of its witness
  accepted \<open>rc\<close> for it, and its predecessor on the witness, if there is one, has a receipt.\<close>

definition earned :: "('x, 'n) CoseLib \<Rightarrow> DeliveryRunner \<Rightarrow> WitnessState list \<Rightarrow> WitnessState \<Rightarrow> WitnessReceipt \<Rightarrow> bool" where
  "earned lib r rows row rc \<longleftrightarrow>
     (\<exists>decoded verifier. verified_checkpoint lib (ws_checkpoint row) = Inr decoded \<and>
        map_of (dr_verifiers r) (ws_witness_id row) = Some (Some verifier) \<and> verifier (ws_checkpoint row) rc = Inr () \<and>
        (0 < dc_prev_size decoded \<longrightarrow>
           (\<forall>p\<in>set rows. witness_key p = (ws_witness_id row, dc_prev_size decoded) \<longrightarrow> ws_receipt p \<noteq> None)))"

text \<open>The rows before and after deliveries: the same checkpoints under the same keys, attempts only added, no receipt lost or
  replaced, none gained that was not earned.\<close>

definition delivered :: "('x, 'n) CoseLib \<Rightarrow> DeliveryRunner \<Rightarrow> WitnessState list \<Rightarrow> WitnessState list \<Rightarrow> bool" where
  "delivered lib r old new \<longleftrightarrow>
     length new = length old \<and>
     (\<forall>i<length old. witness_key (new ! i) = witness_key (old ! i) \<and> ws_checkpoint (new ! i) = ws_checkpoint (old ! i) \<and>
        ws_attempts (old ! i) \<le> ws_attempts (new ! i) \<and>
        (case ws_receipt (old ! i) of
           Some rc \<Rightarrow> new ! i = old ! i
         | None \<Rightarrow> (case ws_receipt (new ! i) of None \<Rightarrow> True | Some rc \<Rightarrow> earned lib r new (new ! i) rc)))"

lemma delivered_refl: "delivered lib r rows rows"
  by (auto simp: delivered_def split: option.splits)

lemma earned_later:
  assumes "earned lib r mid row rc" "delivered lib r mid new"
  shows "earned lib r new row rc"
proof -
  have "ws_receipt p \<noteq> None" if q: "\<forall>p\<in>set mid. witness_key p = k \<longrightarrow> ws_receipt p \<noteq> None" "p \<in> set new" "witness_key p = k" for p k
  proof -
    obtain j where j: "j < length new" "p = new ! j" using q(2) by (auto simp: in_set_conv_nth)
    then have m: "j < length mid" "witness_key (mid ! j) = k" using assms(2) q(3) by (auto simp: delivered_def)
    then have "ws_receipt (mid ! j) \<noteq> None" using q(1) by simp
    then show ?thesis using assms(2) m(1) j by (fastforce simp: delivered_def split: option.splits)
  qed
  then show ?thesis using assms(1) unfolding earned_def by blast
qed

lemma delivered_trans:
  assumes "delivered lib r old mid" "delivered lib r mid new"
  shows "delivered lib r old new"
  unfolding delivered_def
proof (intro conjI allI impI)
  show "length new = length old" using assms by (simp add: delivered_def)
next
  fix i assume i: "i < length old"
  then have m: "i < length mid" using assms by (simp add: delivered_def)
  note a = assms(1) [unfolded delivered_def, THEN conjunct2, rule_format, OF i]
    and b = assms(2) [unfolded delivered_def, THEN conjunct2, rule_format, OF m]
  show "witness_key (new ! i) = witness_key (old ! i)" "ws_checkpoint (new ! i) = ws_checkpoint (old ! i)"
    "ws_attempts (old ! i) \<le> ws_attempts (new ! i)" using a b by auto
  show "case ws_receipt (old ! i) of Some rc \<Rightarrow> new ! i = old ! i
    | None \<Rightarrow> (case ws_receipt (new ! i) of None \<Rightarrow> True | Some rc \<Rightarrow> earned lib r new (new ! i) rc)"
  proof (cases "ws_receipt (old ! i)")
    case (Some rc)
    then have "mid ! i = old ! i" using a by simp
    then show ?thesis using Some b by simp
  next
    case None
    show ?thesis
    proof (cases "ws_receipt (mid ! i)")
      case (Some rc)
      then have e: "earned lib r mid (mid ! i) rc" "new ! i = mid ! i" using a b None by auto
      then show ?thesis using None Some earned_later [OF e(1) assms(2)] by simp
    next
      case n2: None
      then show ?thesis using b None by (simp split: option.splits)
    qed
  qed
qed

text \<open>What is known of a row still to be delivered: it had no receipt when it was listed, and none since unless an attempt was
  recorded since.\<close>

definition fresh :: "WitnessState list \<Rightarrow> WitnessState \<Rightarrow> bool" where
  "fresh rows item \<longleftrightarrow> ws_receipt item = None \<and>
     (\<forall>row\<in>set rows. witness_key row = witness_key item \<longrightarrow>
        ws_attempts item < ws_attempts row \<or> (ws_attempts row = ws_attempts item \<and> ws_receipt row = None))"

lemma fresh_later: "fresh old item \<Longrightarrow> delivered lib r old new \<Longrightarrow>
    (\<forall>i<length old. new ! i \<noteq> old ! i \<longrightarrow> ws_attempts (old ! i) < ws_attempts (new ! i)) \<Longrightarrow> fresh new item"
proof -
  assume f: "fresh old item" and d: "delivered lib r old new"
    and a: "\<forall>i<length old. new ! i \<noteq> old ! i \<longrightarrow> ws_attempts (old ! i) < ws_attempts (new ! i)"
  have "ws_attempts item < ws_attempts row \<or> (ws_attempts row = ws_attempts item \<and> ws_receipt row = None)"
    if row: "row \<in> set new" "witness_key row = witness_key item" for row
  proof -
    obtain i where i: "i < length old" "row = new ! i" using row(1) d by (auto simp: in_set_conv_nth delivered_def)
    have "witness_key (old ! i) = witness_key item" using d i row(2) by (simp add: delivered_def)
    then have o: "ws_attempts item < ws_attempts (old ! i) \<or> (ws_attempts (old ! i) = ws_attempts item \<and> ws_receipt (old ! i) = None)"
      using f i(1) by (simp add: fresh_def)
    show ?thesis using o a i by (cases "new ! i = old ! i") fastforce+
  qed
  then show "fresh new item" using f by (auto simp: fresh_def)
qed

context witness_store
begin

text \<open>One commit of a row for \<open>item\<close>.\<close>

lemma commit_row:
  assumes inv: "inv st" and f: "fresh (rows st) item" and c: "commit st (ws_attempts item) nxt = (q, st')"
    and nxt: "witness_key nxt = witness_key item" "ws_attempts nxt = ws_attempts item + 1"
      "case ws_receipt nxt of None \<Rightarrow> True | Some rc \<Rightarrow> ws_checkpoint nxt = ws_checkpoint item \<and> earned lib r (rows st) item rc"
  shows "inv st' \<and> delivered lib r (rows st) (rows st') \<and>
    (\<forall>i<length (rows st). rows st' ! i \<noteq> rows st ! i \<longrightarrow> ws_attempts (rows st ! i) < ws_attempts (rows st' ! i)) \<and>
    (q = Inr () \<longrightarrow> (\<exists>row\<in>set (rows st'). witness_key row = witness_key item \<and> ws_attempts row = ws_attempts item + 1 \<and>
       ws_receipt row = ws_receipt nxt))"
proof (cases q)
  case (Inl e)
  then show ?thesis using commit_fails [OF inv] c by (auto simp: delivered_refl)
next
  case (Inr u)
  then obtain i row where i: "inv st'" "apply_witness (rows st) (ws_attempts item) nxt = Inr (i, row)" "rows st' = (rows st)[i := row]"
    using commit_done [OF inv, of "ws_attempts item" nxt st'] c by auto
  note a = apply_witness_ok [OF i(2)] and b = apply_witness_row [OF i(2)]
  have old: "ws_receipt (rows st ! i) = None"
    using f a(1,3,5,6) nxt(1) by (force simp: fresh_def)
  have e: "earned lib r ((rows st)[i := row]) row rc" if rc: "ws_receipt row = Some rc" for rc
  proof -
    have "ws_receipt nxt = Some rc" using b(1) rc by simp
    then have e0: "earned lib r (rows st) item rc" "ws_checkpoint row = ws_checkpoint item" using nxt(3) b(3) by simp_all
    have w: "ws_witness_id row = ws_witness_id item" using a(6) nxt(1) by (simp add: witness_key_def)
    have "ws_receipt p \<noteq> None" if q: "\<forall>p\<in>set (rows st). witness_key p = k \<longrightarrow> ws_receipt p \<noteq> None" "p \<in> set ((rows st)[i := row])"
      "witness_key p = k" for p k
      using q set_update_subset_insert [of "rows st" i row] rc by auto
    then show ?thesis using e0 unfolding earned_def w by auto
  qed
  have "delivered lib r (rows st) (rows st')"
    using a(1,3,4,5) b(2) nxt(2) old e
    by (auto simp: delivered_def i(3) nth_list_update split: option.splits)
  moreover have "ws_attempts (rows st ! j) < ws_attempts (rows st' ! j)" if "j < length (rows st)" "rows st' ! j \<noteq> rows st ! j" for j
    using that a(5) b(2) nxt(2) by (cases "j = i") (auto simp: i(3))
  moreover have "row \<in> set (rows st')" using a(1) by (simp add: i(3) set_update_memI)
  ultimately show ?thesis using i(1) a(6) b(1,2) nxt(1,2) by auto
qed

lemma find_key:
  assumes "inv st" "get st w n = Inr p"
  shows "case p of None \<Rightarrow> \<forall>row\<in>set (rows st). witness_key row \<noteq> (w, n) | Some row \<Rightarrow> row \<in> set (rows st) \<and> witness_key row = (w, n)"
proof (cases p)
  case None
  then have "List.find (\<lambda>row. ws_witness_id row = w \<and> ws_checkpoint_size row = n) (rows st) = None" using get_row [OF assms] by simp
  then show ?thesis using None by (auto simp: witness_key_def find_None_iff)
next
  case (Some row)
  then have "List.find (\<lambda>row. ws_witness_id row = w \<and> ws_checkpoint_size row = n) (rows st) = Some row" using get_row [OF assms] by simp
  then show ?thesis using Some by (auto simp: witness_key_def find_Some_iff)
qed

lemma same_row: "inv st \<Longrightarrow> a \<in> set (rows st) \<Longrightarrow> b \<in> set (rows st) \<Longrightarrow> witness_key a = witness_key b \<Longrightarrow> a = b"
  using unique by (metis distinct_map inj_onD)

lemma not_held:
  assumes "inv st" "held get st item n = Inr False" "0 < n" "p \<in> set (rows st)" "witness_key p = (ws_witness_id item, n)"
  shows "ws_receipt p \<noteq> None"
proof -
  obtain q where q: "get st (ws_witness_id item) n = Inr q" "case q of None \<Rightarrow> True | Some row \<Rightarrow> ws_receipt row \<noteq> None"
    using assms(2,3) by (auto simp: held_def bindR_eq_Inr split: option.splits)
  note k = find_key [OF assms(1) q(1)]
  show ?thesis
  proof (cases q)
    case (Some row)
    then have "row = p" using k assms(5) by (intro same_row [OF assms(1) _ assms(4)]) simp_all
    then show ?thesis using q(2) Some by simp
  qed (use k assms(4,5) in simp)
qed

text \<open>What every outcome of a delivery leaves behind.\<close>

definition good_step :: "('x, 'n) CoseLib \<Rightarrow> DeliveryRunner \<Rightarrow> 'st \<Rightarrow> 'st \<Rightarrow> bool" where
  "good_step lib r st st' \<longleftrightarrow> inv st' \<and> delivered lib r (rows st) (rows st') \<and>
     (\<forall>i<length (rows st). rows st' ! i \<noteq> rows st ! i \<longrightarrow> ws_attempts (rows st ! i) < ws_attempts (rows st' ! i))"

lemma good_step_refl: "inv st \<Longrightarrow> good_step lib r st st"
  by (simp add: good_step_def delivered_refl)

lemma returns_simps [simp]:
  "returns v p = (Inr x, st) \<longleftrightarrow> x = v \<and> p = (Inr (), st)" "returns v p = (Inl e, st) \<longleftrightarrow> p = (Inl e, st)"
  by (auto simp: returns_def split: prod.splits sum.splits)

lemma snd_returns [simp]: "snd (returns v p) = snd p"
  by (auto simp: returns_def split: prod.splits sum.splits)

lemma fail_row_step:
  assumes "inv st" "fresh (rows st) item"
  shows "good_step lib r st (snd (fail_row commit r' draw now item permanent reason st))"
proof (cases "bindR (backoff r' draw (nat (ws_attempts item))) (\<lambda>delay. bindR (plus_delta now delay) (normalize_time InvalidError))")
  case (Inl e)
  then show ?thesis using good_step_refl [OF assms(1)] by (simp add: fail_row_def)
next
  case (Inr t)
  let ?nxt = "item\<lparr>ws_attempts := ws_attempts item + 1, ws_permanent := permanent,
    ws_last_error := Some (bounded_text reason), ws_next_attempt_at := t\<rparr>"
  obtain q st' where c: "commit st (ws_attempts item) ?nxt = (q, st')" by fastforce
  have "ws_receipt item = None" using assms(2) by (simp add: fresh_def)
  then show ?thesis
    using commit_row [OF assms c, of lib r] Inr c by (simp add: fail_row_def good_step_def witness_key_def)
qed

lemma deliver_step:
  assumes "inv st" "fresh (rows st) item"
  shows "good_step lib r st (snd (deliver lib get commit r draw now item st))"
proof (cases "\<exists>client verifier. map_of (dr_clients r) (ws_witness_id item) = Some (Some client) \<and>
    map_of (dr_verifiers r) (ws_witness_id item) = Some (Some verifier)")
  case False
  then show ?thesis using good_step_refl [OF assms(1)] by (auto simp: deliver_def split: option.splits)
next
  case True
  then obtain client verifier where cv: "map_of (dr_clients r) (ws_witness_id item) = Some (Some client)"
    "map_of (dr_verifiers r) (ws_witness_id item) = Some (Some verifier)" by blast
  note f = fail_row_step [OF assms, of lib r r draw now] and refl = good_step_refl [OF assms(1), of lib r]
  show ?thesis
  proof (cases "verified_checkpoint lib (ws_checkpoint item)")
    case (Inl e)
    then show ?thesis using f by (simp add: deliver_def cv)
  next
    case (Inr decoded)
    note v = Inr
    show ?thesis
    proof (cases "held get st item (dc_prev_size decoded)")
      case (Inl e)
      then show ?thesis using refl by (simp add: deliver_def cv v)
    next
      case (Inr h)
      show ?thesis
      proof (cases "\<exists>receipt. \<not> h \<and> client (ws_checkpoint item) = Inr receipt \<and> verifier (ws_checkpoint item) receipt = Inr ()")
        case False
        then show ?thesis using f refl Inr by (cases h) (auto simp: deliver_def cv v split: sum.splits)
      next
        case True
        then obtain receipt where t: "\<not> h" "client (ws_checkpoint item) = Inr receipt" "verifier (ws_checkpoint item) receipt = Inr ()"
          by blast
        let ?nxt = "item\<lparr>ws_attempts := ws_attempts item + 1, ws_next_attempt_at := now, ws_receipt := Some receipt,
          ws_permanent := False, ws_last_error := None\<rparr>"
        obtain q st' where c: "commit st (ws_attempts item) ?nxt = (q, st')" by fastforce
        have "held get st item (dc_prev_size decoded) = Inr False" using Inr t(1) by simp
        note h = not_held [OF assms(1) this]
        then have "earned lib r (rows st) item receipt" using v cv(2) t(3) by (auto simp: earned_def)
        then show ?thesis
          using commit_row [OF assms c, of lib r] Inr t c by (simp add: deliver_def cv v good_step_def witness_key_def)
      qed
    qed
  qed
qed

text \<open>The pool keeps this, and that every row it still has to deliver is fresh.\<close>

definition pool_fresh :: "worker list \<Rightarrow> 'st \<Rightarrow> bool" where
  "pool_fresh ws st \<longleftrightarrow> (\<forall>w\<in>set ws. case w of Waiting items _ \<Rightarrow> \<forall>item\<in>set items. fresh (rows st) item | _ \<Rightarrow> True)"

lemma good_step_fresh: "good_step lib r st st' \<Longrightarrow> fresh (rows st) item \<Longrightarrow> fresh (rows st') item"
  unfolding good_step_def using fresh_later by blast

lemma pool_fresh_later: "good_step lib r st st' \<Longrightarrow> pool_fresh ws st \<Longrightarrow> pool_fresh ws st'"
  using good_step_fresh by (fastforce simp: pool_fresh_def split: worker.splits)

lemma worker_turn_step:
  assumes "inv st" "case w of Waiting items _ \<Rightarrow> \<forall>item\<in>set items. fresh (rows st) item | _ \<Rightarrow> True"
    "worker_turn lib get commit r draw now w st = (w', st')"
  shows "good_step lib r st st' \<and> (case w' of Waiting items _ \<Rightarrow> \<forall>item\<in>set items. fresh (rows st') item | _ \<Rightarrow> True)"
proof (cases "\<exists>item items n. w = Waiting (item # items) n")
  case True
  then obtain item items n where w: "w = Waiting (item # items) n" by blast
  obtain q st1 where d: "deliver lib get commit r draw now item st = (q, st1)" by fastforce
  have g: "good_step lib r st st1" using deliver_step [OF assms(1), of item lib r draw now] assms(2) d by (simp add: w)
  have "st' = st1" "w' \<in> {Raised e | e. True} \<union> {Returned m | m. True} \<union> {Waiting items m | m. True}"
    using assms(3) d by (auto simp: worker_turn_def w Let_def split: sum.splits prod.splits if_splits)
  then show ?thesis using g good_step_fresh [OF g] assms(2) by (auto simp: w)
next
  case False
  then have "st' = st" "w' = w \<or> (\<exists>n. w' = Returned n)"
    using assms(3) by (auto simp: worker_turn_def split: worker.splits list.splits)
  then show ?thesis using assms(1,2) good_step_refl by (auto split: worker.splits)
qed

lemma good_step_trans: "good_step lib r st st1 \<Longrightarrow> inv st \<Longrightarrow> good_step lib r st1 st2 \<Longrightarrow> delivered lib r (rows st) (rows st2) \<and> inv st2"
  unfolding good_step_def using delivered_trans by blast

lemma pool_run_ok:
  "inv st \<Longrightarrow> pool_fresh ws st \<Longrightarrow> pool_run lib get commit r now sched ws st = (ws', st') \<Longrightarrow>
     inv st' \<and> delivered lib r (rows st) (rows st')"
proof (induction sched arbitrary: ws st)
  case Nil
  then show ?case by (simp add: delivered_refl)
next
  case (Cons p sched)
  obtain i draw where p: "p = (i, draw)" by (cases p)
  show ?case
  proof (cases "i < length ws")
    case False
    then show ?thesis using Cons by (simp add: p)
  next
    case True
    obtain w st1 where t: "worker_turn lib get commit r draw now (ws ! i) st = (w, st1)" by fastforce
    have g: "good_step lib r st st1 \<and> (case w of Waiting items _ \<Rightarrow> \<forall>item\<in>set items. fresh (rows st1) item | _ \<Rightarrow> True)"
      using Cons.prems(2) True by (intro worker_turn_step [OF Cons.prems(1) _ t]) (auto simp: pool_fresh_def)
    then have "pool_fresh (ws[i := w]) st1"
      using pool_fresh_later [of lib r st st1 ws] Cons.prems(2) set_update_subset_insert [of ws i w]
      by (auto simp: pool_fresh_def)
    moreover have "inv st1" using g by (simp add: good_step_def)
    ultimately have "inv st' \<and> delivered lib r (rows st1) (rows st')"
      using Cons.IH [of st1 "ws[i := w]"] Cons.prems(3) True t by (simp add: p)
    then show ?thesis using g delivered_trans by (auto simp: good_step_def)
  qed
qed

lemma listed_fresh:
  assumes "inv st" "pending_for st w now n = Inr items" "item \<in> set items"
  shows "fresh (rows st) item"
  using pending_rows [OF assms] same_row [OF assms(1)] by (fastforce simp: fresh_def)

lemma delivery_pass_ok:
  assumes "inv st" "delivery_pass lib pending_for get commit r sched now limit st = Some (q, st')"
  shows "inv st' \<and> delivered lib r (rows st) (rows st')"
proof (cases "bindR (normalize_time InvalidError now) (\<lambda>now.
    bindR (mapR (\<lambda>(w, _). pending_for st w now limit) (dr_clients r)) (\<lambda>items. Inr (now, items)))")
  case (Inl e)
  then show ?thesis using assms by (simp add: delivery_pass_def delivered_refl)
next
  case (Inr p)
  obtain now' items where p: "p = (now', items)" by (cases p)
  have items: "mapR (\<lambda>(w, _). pending_for st w now' limit) (dr_clients r) = Inr items" using Inr by (auto simp: p bindR_eq_Inr)
  let ?ws = "map (\<lambda>is. Waiting is 0) (filter (\<lambda>is. is \<noteq> []) items)"
  have "fresh (rows st) item" if i: "is \<in> set items" "item \<in> set is" for "is" item
  proof -
    obtain c where "pending_for st (fst c) now' limit = Inr is" using mapR_set [OF items i(1)] by (auto split: prod.splits)
    then show ?thesis using listed_fresh [OF assms(1)] i(2) by blast
  qed
  then have f: "pool_fresh ?ws st" by (auto simp: pool_fresh_def)
  show ?thesis
  proof (cases "filter (\<lambda>is. is \<noteq> []) items = []")
    case True
    then show ?thesis using assms Inr by (simp add: delivery_pass_def p delivered_refl)
  next
    case False
    obtain ws' st1 where run: "pool_run lib get commit r now' sched ?ws st = (ws', st1)" by fastforce
    have "st' = st1" using assms(2) Inr False run by (auto simp: delivery_pass_def p Let_def split: if_splits)
    then show ?thesis using pool_run_ok [OF assms(1) f run] by simp
  qed
qed

lemma delivery_pass_returns:
  assumes "inv st" "\<forall>i<length (dr_clients r). nat limit + 1 \<le> turns_of sched i"
  shows "\<exists>q st'. delivery_pass lib pending_for get commit r sched now limit st = Some (q, st')"
proof (cases "bindR (normalize_time InvalidError now) (\<lambda>now.
    bindR (mapR (\<lambda>(w, _). pending_for st w now limit) (dr_clients r)) (\<lambda>items. Inr (now, items)))")
  case (Inr p)
  obtain now' items where p: "p = (now', items)" by (cases p)
  have items: "mapR (\<lambda>(w, _). pending_for st w now' limit) (dr_clients r) = Inr items" using Inr by (auto simp: p bindR_eq_Inr)
  let ?ws = "map (\<lambda>is. Waiting is 0) (filter (\<lambda>is. is \<noteq> []) items)"
  have len: "length items = length (dr_clients r)" using items by (simp add: mapR_eq_Inr list_all2_lengthD)
  have "turns_left (?ws ! i) \<le> turns_of sched i" if "i < length ?ws" for i
  proof -
    have "filter (\<lambda>is. is \<noteq> []) items ! i \<in> set items" using that nth_mem by fastforce
    then obtain c where "pending_for st (fst c) now' limit = Inr (filter (\<lambda>is. is \<noteq> []) items ! i)"
      using mapR_set [OF items] by (fastforce split: prod.splits)
    then have "length (filter (\<lambda>is. is \<noteq> []) items ! i) \<le> nat limit" by (rule pending_limit [OF assms(1)])
    moreover have "i < length (dr_clients r)" using that len length_filter_le [of "\<lambda>is. is \<noteq> []" items] by simp
    ultimately show ?thesis using that assms(2) by fastforce
  qed
  then have "list_all finished (fst (pool_run lib get commit r now' sched ?ws st))" by (intro pool_run_finishes) blast
  then show ?thesis using Inr by (auto simp: delivery_pass_def p Let_def split: prod.splits)
qed (auto simp: delivery_pass_def)

end

section \<open>Properties\<close>

text \<open>
  C30. Every receipt in the store was earned. A delivery pass over the in-memory store, with any clients,
  verifiers and random draws, and with the workers of the pool interleaved in any way, keeps the rows and
  their checkpoints, never loses or replaces a receipt, and adds one only to a row whose statement
  verifies, whose witness's verifier accepted that receipt for it, and whose predecessor on that witness
  (if there is one) has a receipt.
\<close>

theorem deliveries_are_earned:
  assumes "engine_inv (mem_engine st)"
    "delivery_pass lib mem_pending_witnesses_for mem_get_witness mem_commit_witness r sched now limit st = Some (q, st')"
  shows "engine_inv (mem_engine st') \<and>
    delivered lib r (cl_witnesses (eg_state (mem_engine st))) (cl_witnesses (eg_state (mem_engine st')))"
  using memory_rows.delivery_pass_ok [of st lib r sched now limit q st'] assms by simp

text \<open>
  A pass over a journal store returns: when the schedule gives every worker of the pool \<open>limit + 1\<close> turns,
  whatever the witnesses answer and the writes do, all of them end.
\<close>

theorem delivery_pass_ends:
  assumes "engine_inv (js_engine st)" "\<forall>i<length (dr_clients r). nat limit + 1 \<le> turns_of sched i"
  shows "\<exists>q st'. delivery_pass lib js_pending_witnesses_for js_get_witness (js_commit_witness io) r sched now limit st = Some (q, st')"
  using journal_rows.delivery_pass_returns [of st r limit sched lib io now] assms by simp

definition sample_row :: WitnessState where
  "sample_row = \<lparr>ws_witness_id = text_of ''w'', ws_checkpoint_size = 1, ws_checkpoint = [0], ws_attempts = 0, ws_next_attempt_at = Aware 0,
     ws_receipt = None, ws_permanent = False, ws_last_error = None\<rparr>"

definition sample_engine :: Engine where
  "sample_engine = new_engine\<lparr>eg_state := empty_cll_state\<lparr>cl_witnesses := [sample_row]\<rparr>\<rparr>"

lemma sample_engine_inv: "engine_inv sample_engine"
proof -
  have "witness_ok sample_row"
    by (simp add: witness_ok_def sample_row_def validate_witness_def width_def MAX_CHECKPOINT_BYTES_def validate_identifier_def text_of_def
        identifier_char_def MAX_IDENTIFIER_BYTES_def MAX_ATTEMPTS_def normalize_time_def MAX_MICROS_def)
  moreover have "engine_inv new_engine" by simp
  ultimately show ?thesis
    by (simp add: engine_inv_def sample_engine_def new_engine_def state_ok_def empty_cll_state_def index_ok_def checkpoint_ok_def)
qed

theorem deliveries_are_earned_witness:
  "\<exists>q st'. delivery_pass (sample_packages VNaN) mem_pending_witnesses_for mem_get_witness mem_commit_witness sample_runner [(0, 0), (0, 0)]
      (Aware 0) 1 \<lparr>mem_engine = sample_engine, mem_closed = False\<rparr> = Some (q, st') \<and>
    delivered (sample_packages VNaN) sample_runner [sample_row] (cl_witnesses (eg_state (mem_engine st')))"
proof -
  let ?st = "\<lparr>mem_engine = sample_engine, mem_closed = False\<rparr>"
  have inv: "engine_inv (mem_engine ?st)" using sample_engine_inv by simp
  have turns: "\<forall>i<length (dr_clients sample_runner). nat 1 + 1 \<le> turns_of [(0, 0), (0, 0)] i"
    by (simp add: sample_runner_def turns_of_def)
  obtain q st' where "delivery_pass (sample_packages VNaN) mem_pending_witnesses_for mem_get_witness mem_commit_witness sample_runner
      [(0, 0), (0, 0)] (Aware 0) 1 ?st = Some (q, st')"
    using memory_rows.delivery_pass_returns [OF _ turns, of ?st "sample_packages VNaN" "Aware 0"] inv by auto
  from this deliveries_are_earned [OF inv this] show ?thesis by (auto simp: sample_engine_def)
qed

theorem delivery_pass_ends_witness:
  "\<exists>q st'. delivery_pass (sample_packages VNaN) js_pending_witnesses_for js_get_witness
      (js_commit_witness \<lparr>io_writes = [], io_fsync = True, io_truncate = True, io_truncate_sync = True\<rparr>) sample_runner [(0, 0), (0, 0)]
      (Aware 0) 1 \<lparr>js_file = [], js_engine = sample_engine, js_closed = False\<rparr> = Some (q, st')"
  by (rule delivery_pass_ends) (simp_all add: sample_engine_inv sample_runner_def turns_of_def)

lemma checkpoint_entry_hash_Inr:
  "checkpoint_entry_hash lib b = Inr h \<longleftrightarrow>
     (\<exists>d. verify_steps lib b = Inr d \<and> h = stamp_of (to_checkpoint_record d))"
  by (auto simp: checkpoint_entry_hash_def verified_checkpoint_def Let_def bindR_eq_Inr verify_checkpoint_cose_offline_def
      digest_entry_hash_eq [unfolded digest_entry_hash_def] cp_digest_def stamp_of_def signed_bytes_def split: sum.splits)

text \<open>
  An accepted receipt is about this checkpoint and no other: when the pinned verifier accepts one
  receipt for two statements, both statements verify and the checkpoints they hold agree on every field,
  the receipt is accepted by the package under the pinned key with a canonical signature, and the
  position stored with it is the one the signed proof carries. SHA-256 is assumed not to collide on what
  is hashed for the two.
\<close>

theorem receipt_binds_checkpoint:
  assumes "receipt_verify lib pem b receipt = Inr ()" "receipt_verify lib pem b' receipt = Inr ()"
    "cv_decoded (verify_checkpoint_cose_offline lib b) = Some d" "cv_decoded (verify_checkpoint_cose_offline lib b') = Some d'"
    "cp_scalar (to_checkpoint_record d)" "cp_scalar (to_checkpoint_record d')"
    "inj_on sha256 {signed_bytes (to_checkpoint_record d), signed_bytes (to_checkpoint_record d')}"
    "inj_on sha256 {sha256 (signed_bytes (to_checkpoint_record d)), sha256 (signed_bytes (to_checkpoint_record d'))}"
  shows "to_checkpoint_record d = to_checkpoint_record d' \<and>
    receipt_accepted (CryptoLib.truncate lib) (wr_bytes receipt) (stamp_of (to_checkpoint_record d)) pem \<and>
    (\<exists>r. lib_scitt_verify lib (wr_bytes receipt) (stamp_of (to_checkpoint_record d)) pem = Inr r \<and>
       rr_tree_size r = wr_tree_size receipt \<and> rr_leaf_index r = wr_leaf_index receipt)"
proof -
  have v: "verify_steps lib b = Inr d" "verify_steps lib b' = Inr d'" using assms(3,4) by (simp_all add: verified_steps)
  have h: "wr_entry_hash receipt = Some (stamp_of (to_checkpoint_record e)) \<and>
      (\<exists>r. verify_receipt (CryptoLib.truncate lib) (wr_bytes receipt) (stamp_of (to_checkpoint_record e)) pem = Inr r \<and> rr_ok r \<and>
         rr_tree_size r = wr_tree_size receipt \<and> rr_leaf_index r = wr_leaf_index receipt)"
    if "receipt_verify lib pem c receipt = Inr ()" "verify_steps lib c = Inr e" for c e
    using that by (auto simp: receipt_verify_def bindR_eq_Inr checkpoint_entry_hash_Inr split: if_splits)
  let ?s = "stamp_of (to_checkpoint_record d)"
  obtain r where r: "verify_receipt (CryptoLib.truncate lib) (wr_bytes receipt) ?s pem = Inr r" "rr_ok r"
    "rr_tree_size r = wr_tree_size receipt" "rr_leaf_index r = wr_leaf_index receipt"
    using h [OF assms(1) v(1)] by blast
  have "?s = stamp_of (to_checkpoint_record d')" using h [OF assms(1) v(1)] h [OF assms(2) v(2)] by simp
  then have "sha256 (signed_bytes (to_checkpoint_record d)) = sha256 (signed_bytes (to_checkpoint_record d'))"
    using assms(8) by (auto simp: stamp_of_def dest: inj_onD)
  then have "cp_digest (to_checkpoint_record d) = cp_digest (to_checkpoint_record d')" by (simp add: cp_digest_def signed_bytes_def)
  then have "(to_checkpoint_record d)\<lparr>ck_signature := [], ck_witnesses := []\<rparr> = (to_checkpoint_record d')\<lparr>ck_signature := [], ck_witnesses := []\<rparr>"
    by (rule same_digest [OF assms(5-7)])
  then have same: "to_checkpoint_record d = to_checkpoint_record d'" by (simp add: to_checkpoint_record_def)
  have "lib_scitt_verify lib (wr_bytes receipt) ?s pem = Inr r'" if "verify_receipt (CryptoLib.truncate lib) (wr_bytes receipt) ?s pem = Inr r'" "rr_ok r'" for r'
    using that by (auto simp: verify_receipt_def bindR_eq_Inr Let_def CryptoLib.truncate_def split: if_splits option.splits)
  then show ?thesis using same r verify_receipt_ok by blast
qed

lemma checkpoint_entry_hash_ok:
  "checkpoint_entry_hash lib b = (if cv_ok (verify_checkpoint_cose_offline lib b)
     then Inr (stamp_of (to_checkpoint_record (the (cv_decoded (verify_checkpoint_cose_offline lib b))))) else Inl RejectedError)"
  by (simp add: checkpoint_entry_hash_def verified_checkpoint_def Let_def verify_checkpoint_cose_offline_def
      digest_entry_hash_eq [unfolded digest_entry_hash_def] split: sum.splits)

lemma parse_receipt_errors:
  "parse_receipt too_deep raw = Inl e \<Longrightarrow> e = RejectedError \<or> e = ValueError \<or>
     e = RecursionError \<and> (\<exists>t. utf8_decode (map unat raw) = Some t \<and> too_deep t)"
  by (auto simp: parse_receipt_def bindR_eq_Inl receipt_bytes_def split: sum.splits json.splits option.splits if_splits)

text \<open>
  C32. A failed submission is retried exactly when it is worth it: a checkpoint that does not verify is never
  sent and is refused; one that is sent fails with the retryable error exactly when the exchange fails,
  when the response ends before its declared length, or on HTTP 408, 429 or 5xx with a response within
  the limit. Any other failure is an error the runner does not retry: the refusal, the \<^verbatim>\<open>ValueError\<close> of a
  receipt text that is not ASCII, or the \<^verbatim>\<open>RecursionError\<close> of a response that is nested too deeply.
\<close>

theorem submit_retries_iff:
  "(submit lib too_deep max_bytes send checkpoint = Inl ContentionError \<longleftrightarrow>
     cv_ok (verify_checkpoint_cose_offline lib checkpoint) \<and>
     (case send checkpoint of ExchangeFails \<Rightarrow> True
      | Exchange status body declared \<Rightarrow>
          (case declared of Some n \<Rightarrow> length body < n \<and> length body \<le> max_bytes | None \<Rightarrow> False) \<or>
          (length (case declared of Some n \<Rightarrow> take n body | None \<Rightarrow> body) \<le> max_bytes \<and> (status = 408 \<or> status = 429 \<or> 500 \<le> status)))) \<and>
   (case submit lib too_deep max_bytes send checkpoint of
      Inl e \<Rightarrow> (retryable e \<longleftrightarrow> e = ContentionError) \<and>
        (e \<in> {ContentionError, RejectedError, ValueError} \<or>
         e = RecursionError \<and> (case send checkpoint of ExchangeFails \<Rightarrow> False
           | Exchange status body declared \<Rightarrow>
               (case utf8_decode (map unat (take (max_bytes + 1) (case declared of Some n \<Rightarrow> take n body | None \<Rightarrow> body))) of
                  None \<Rightarrow> False | Some t \<Rightarrow> too_deep t)))
    | Inr _ \<Rightarrow> True)"
proof (cases "cv_ok (verify_checkpoint_cose_offline lib checkpoint)")
  case False
  then show ?thesis by (simp add: submit_def checkpoint_entry_hash_ok retryable_def)
next
  case True
  show ?thesis
  proof (cases "send checkpoint")
    case ExchangeFails
    then show ?thesis using True by (simp add: submit_def checkpoint_entry_hash_ok retryable_def)
  next
    case (Exchange status body declared)
    let ?available = "case declared of Some n \<Rightarrow> take n body | None \<Rightarrow> body"
    let ?short = "case declared of Some n \<Rightarrow> length body < n \<and> length body \<le> max_bytes | None \<Rightarrow> False"
    have read: "read_bounded max_bytes body declared = (if ?short then Inl ContentionError else Inr (take (max_bytes + 1) ?available))"
      by (cases declared) (auto simp: read_bounded_def Let_def min_def)
    have len: "length (take (max_bytes + 1) ?available) > max_bytes \<longleftrightarrow> length ?available > max_bytes" by auto
    have e: "submit lib too_deep max_bytes send checkpoint =
        (if ?short then Inl ContentionError
         else if length ?available > max_bytes then Inl RejectedError
         else if \<not> (200 \<le> status \<and> status < 300) then
           (if status = 408 \<or> status = 429 \<or> status \<ge> 500 then Inl ContentionError else Inl RejectedError)
         else parse_receipt too_deep (take (max_bytes + 1) ?available))"
      unfolding submit_def using True len by (simp add: checkpoint_entry_hash_ok Exchange read del: length_take)
    show ?thesis
      unfolding e Exchange using True parse_receipt_errors [of too_deep "take (max_bytes + 1) ?available"]
      by (auto simp: retryable_def simp del: length_take split: sum.splits)
  qed
qed

lemma sample_scalar: "cp_scalar sample_record"
  by (simp add: cp_scalar_def sample_record_def hex_text_def) (simp add: scalar_text_def)

theorem receipt_binds_checkpoint_witness:
  "\<exists>(lib :: (unit, unit) CoseLib) b receipt. receipt_verify lib [] b receipt = Inr () \<and>
     cv_decoded (verify_checkpoint_cose_offline lib b) = Some (decoded_of sample_record [leaf_of (replicate 32 7)]
       (Some [leaf_of (replicate 32 7)]) (Some (bare_consistency (replicate 32 7))) None) \<and>
     receipt_accepted (CryptoLib.truncate lib) (wr_bytes receipt) (stamp_of sample_record) []"
proof -
  let ?d = "decoded_of sample_record [leaf_of (replicate 32 7)] (Some [leaf_of (replicate 32 7)]) (Some (bare_consistency (replicate 32 7))) None"
  obtain claims b where v: "verify_steps (sample_packages claims) b = Inr ?d" using sample_verifies by blast
  let ?lib = "sample_packages claims"
  let ?receipt = "\<lparr>wr_bytes = [2], wr_entry_hash = Some (stamp_of sample_record), wr_entry_hash_scheme = Some LEGACY_SCHEME,
    wr_leaf_index = Some 0, wr_tree_size = Some 1\<rparr>"
  have rec: "to_checkpoint_record ?d = sample_record" by (simp add: decoded_record [OF sample_form(1)] sample_unsigned)
  have "receipt_walk (Suc MAX_RECEIPT_DEPTH) [2] 0 True = Inr 1"
    by (simp add: receipt_walk.simps(2) byte_at_def receipt_arg_def)
  then have "check_receipt_rules ?lib [2] = Inr ()"
    by (simp add: check_receipt_rules_def receipt_item_def sample_packages_def sample_lib_def Let_def)
  moreover have "verify_receipt (CryptoLib.truncate ?lib) [2] h [] =
      Inr \<lparr>rr_ok = True, rr_failed_at = None, rr_leaf_index = Some 0, rr_tree_size = Some 1\<rparr>" for h
    by (simp add: verify_receipt_def sample_packages_def sample_lib_def CryptoLib.truncate_def Let_def)
  moreover have "checkpoint_entry_hash ?lib b = Inr (stamp_of sample_record)" using v rec by (auto simp: checkpoint_entry_hash_Inr)
  ultimately have r: "receipt_verify ?lib [] b ?receipt = Inr ()"
    by (simp add: receipt_verify_def MAX_WITNESS_RESPONSE_BYTES_def)
  have d: "cv_decoded (verify_checkpoint_cose_offline ?lib b) = Some ?d" using v by (simp add: verified_steps)
  note w = receipt_binds_checkpoint [OF r r d d]
  show ?thesis using r d w sample_scalar by (intro exI [of _ ?lib] exI [of _ b] exI [of _ ?receipt]) (simp add: rec)
qed

end
