(* ===== verification/Bundle_Checks.thy ===== *)
theory Bundle_Checks
  imports Checkpoint_Runner Checkpoint_Stamps
begin

text \<open>
  \<^verbatim>\<open>cll/checkpoint/bundle.py\<close>: the bundle of evidence for one log record, its dictionary form, how one is
  built from the entries of a log, and its offline verification. The entries are JSON objects; the error and
  notice texts of the verification are the constructors of \<open>bundle_note\<close>. A member of a dictionary whose JSON
  type is not the declared type of its field is refused with \<open>TypeError\<close> where the dataclass would store it
  unchecked.
\<close>

section \<open>The bundle and its dictionary\<close>

record Bundle =
  bu_v :: int
  bu_capsule_id :: pytext
  bu_seq :: int
  bu_receipt :: json
  bu_inclusion_proof :: InclusionProof
  bu_checkpoint :: CheckpointRecord
  bu_prior_checkpoint :: "CheckpointRecord option"
  bu_consistency_proof :: "ConsistencyProof option"
  bu_checkpoint_cose :: "bytes option"

definition json_texts :: "string list \<Rightarrow> json" where
  "json_texts ts = JArr (map (\<lambda>t. JStr (text_of t)) ts)"

definition inclusion_proof_to_dict :: "InclusionProof \<Rightarrow> json" where
  "inclusion_proof_to_dict p = JObj
     [(text_of ''v'', JInt (ip_v p)), (text_of ''kind'', JStr (text_of (ip_kind p))), (text_of ''size'', JInt (ip_size p)),
      (text_of ''leaf_index'', JInt (ip_leaf_index p)), (text_of ''witness'', json_texts (ip_witness p)),
      (text_of ''peaks_left'', json_texts (ip_peaks_left p)), (text_of ''peaks_right'', json_texts (ip_peaks_right p))]"

definition consistency_proof_to_dict :: "ConsistencyProof \<Rightarrow> json" where
  "consistency_proof_to_dict p = JObj
     [(text_of ''v'', JInt (cp_v p)), (text_of ''kind'', JStr (text_of (cp_kind p))), (text_of ''size_a'', JInt (cp_size_a p)),
      (text_of ''size_b'', JInt (cp_size_b p)), (text_of ''old_peaks'', json_texts (cp_old_peaks p)),
      (text_of ''witness'', JArr (map json_texts (cp_witness p))), (text_of ''new_peaks'', json_texts (cp_new_peaks p))]"

definition bundle_to_dict :: "Bundle \<Rightarrow> json" where
  "bundle_to_dict b = JObj
     [(text_of ''v'', JInt (bu_v b)), (text_of ''capsule_id'', JStr (bu_capsule_id b)), (text_of ''seq'', JInt (bu_seq b)),
      (text_of ''receipt'', bu_receipt b), (text_of ''inclusion_proof'', inclusion_proof_to_dict (bu_inclusion_proof b)),
      (text_of ''checkpoint'', cp_to_dict (bu_checkpoint b)),
      (text_of ''prior_checkpoint'', case bu_prior_checkpoint b of None \<Rightarrow> JNull | Some c \<Rightarrow> cp_to_dict c),
      (text_of ''consistency_proof'', case bu_consistency_proof b of None \<Rightarrow> JNull | Some p \<Rightarrow> consistency_proof_to_dict p),
      (text_of ''checkpoint_cose'', case bu_checkpoint_cose b of None \<Rightarrow> JNull | Some c \<Rightarrow> JStr (hex_text c))]"

text \<open>A text of a proof: what is not a byte is no digit of any hash and no part of any kind.\<close>

definition ascii_string :: "pytext \<Rightarrow> string" where
  "ascii_string t = map (\<lambda>c. if c < 256 then char_of c else CHR 0x00) t"

definition texts_of_json :: "json \<Rightarrow> string list res" where
  "texts_of_json v = bindR (as_list TypeError v) (mapR (\<lambda>x. bindR (as_string TypeError x) (\<lambda>t. Inr (ascii_string t))))"

definition text_member :: "string \<Rightarrow> (pytext \<times> json) list \<Rightarrow> pytext res" where
  "text_member name d = bindR (required KeyError name d) (as_string TypeError)"

definition inclusion_proof_from_dict :: "(json \<Rightarrow> int res) \<Rightarrow> json \<Rightarrow> InclusionProof res" where
  "inclusion_proof_from_dict int_of_text value =
     bindR (as_object TypeError value) (\<lambda>d.
     bindR (bindR (required KeyError ''v'' d) (py_int int_of_text)) (\<lambda>v.
     bindR (text_member ''kind'' d) (\<lambda>kind.
     bindR (bindR (required KeyError ''size'' d) (py_int int_of_text)) (\<lambda>sz.
     bindR (bindR (required KeyError ''leaf_index'' d) (py_int int_of_text)) (\<lambda>leaf_index.
     bindR (bindR (required KeyError ''witness'' d) texts_of_json) (\<lambda>witness.
     bindR (bindR (required KeyError ''peaks_left'' d) texts_of_json) (\<lambda>peaks_left.
     bindR (bindR (required KeyError ''peaks_right'' d) texts_of_json) (\<lambda>peaks_right.
     Inr \<lparr>ip_v = v, ip_kind = ascii_string kind, ip_size = sz, ip_leaf_index = leaf_index, ip_witness = witness,
       ip_peaks_left = peaks_left, ip_peaks_right = peaks_right\<rparr>))))))))"

definition consistency_proof_from_dict :: "(json \<Rightarrow> int res) \<Rightarrow> json \<Rightarrow> ConsistencyProof res" where
  "consistency_proof_from_dict int_of_text value =
     bindR (as_object TypeError value) (\<lambda>d.
     bindR (bindR (required KeyError ''v'' d) (py_int int_of_text)) (\<lambda>v.
     bindR (text_member ''kind'' d) (\<lambda>kind.
     bindR (bindR (required KeyError ''size_a'' d) (py_int int_of_text)) (\<lambda>size_a.
     bindR (bindR (required KeyError ''size_b'' d) (py_int int_of_text)) (\<lambda>size_b.
     bindR (bindR (required KeyError ''old_peaks'' d) texts_of_json) (\<lambda>old_peaks.
     bindR (bindR (bindR (required KeyError ''witness'' d) (as_list TypeError)) (mapR texts_of_json)) (\<lambda>witness.
     bindR (bindR (required KeyError ''new_peaks'' d) texts_of_json) (\<lambda>new_peaks.
     Inr \<lparr>cp_v = v, cp_kind = ascii_string kind, cp_size_a = size_a, cp_size_b = size_b, cp_old_peaks = old_peaks,
       cp_witness = witness, cp_new_peaks = new_peaks\<rparr>))))))))"

text \<open>\<^verbatim>\<open>d.get(name)\<close>, with an absent member as \<^verbatim>\<open>None\<close>.\<close>

definition member_or_null :: "string \<Rightarrow> (pytext \<times> json) list \<Rightarrow> json" where
  "member_or_null name d = (case map_of d (text_of name) of None \<Rightarrow> JNull | Some v \<Rightarrow> v)"

definition bundle_from_dict :: "(json \<Rightarrow> int res) \<Rightarrow> json \<Rightarrow> Bundle res" where
  "bundle_from_dict int_of_text value =
     bindR (as_object TypeError value) (\<lambda>d.
     let prior = member_or_null ''prior_checkpoint'' d; cproof = member_or_null ''consistency_proof'' d;
         cose_hex = member_or_null ''checkpoint_cose'' d in
     bindR (bindR (required KeyError ''v'' d) (py_int int_of_text)) (\<lambda>v.
     bindR (text_member ''capsule_id'' d) (\<lambda>capsule_id.
     bindR (bindR (required KeyError ''seq'' d) (py_int int_of_text)) (\<lambda>seq.
     bindR (required KeyError ''receipt'' d) (\<lambda>receipt.
     bindR (bindR (required KeyError ''inclusion_proof'' d) (inclusion_proof_from_dict int_of_text)) (\<lambda>inclusion.
     bindR (bindR (required KeyError ''checkpoint'' d) (cp_from_dict int_of_text)) (\<lambda>checkpoint.
     bindR (if py_bool prior then bindR (cp_from_dict int_of_text prior) (\<lambda>c. Inr (Some c)) else Inr None) (\<lambda>prior_checkpoint.
     bindR (if cproof \<noteq> JNull then bindR (consistency_proof_from_dict int_of_text cproof) (\<lambda>p. Inr (Some p)) else Inr None) (\<lambda>consistency.
     bindR (if py_bool cose_hex then bindR (bindR (as_string TypeError cose_hex) fromhex_text) (\<lambda>c. Inr (Some c)) else Inr None) (\<lambda>cose.
     Inr \<lparr>bu_v = v, bu_capsule_id = capsule_id, bu_seq = seq, bu_receipt = receipt, bu_inclusion_proof = inclusion,
       bu_checkpoint = checkpoint, bu_prior_checkpoint = prior_checkpoint, bu_consistency_proof = consistency,
       bu_checkpoint_cose = cose\<rparr>))))))))))"

section \<open>Building a bundle\<close>

type_synonym entry_dict = "(pytext \<times> json) list"

text \<open>The names a caller may choose: \<^verbatim>\<open>id_field\<close>, \<^verbatim>\<open>kind_field\<close>, \<^verbatim>\<open>non_leaf_kinds\<close>, \<^verbatim>\<open>stamp_kind\<close>.\<close>

record LogShape =
  sh_id_field :: pytext
  sh_kind_field :: pytext
  sh_non_leaf_kinds :: "pytext list"
  sh_stamp_kind :: pytext

text \<open>\<^verbatim>\<open>value in non_leaf_kinds\<close>: a list or an object has no hash.\<close>

definition is_non_leaf :: "LogShape \<Rightarrow> json option \<Rightarrow> bool res" where
  "is_non_leaf sh v =
     (case v of Some (JArr _) \<Rightarrow> Inl TypeError | Some (JObj _) \<Rightarrow> Inl TypeError
      | Some (JStr t) \<Rightarrow> Inr (t \<in> set (sh_non_leaf_kinds sh)) | _ \<Rightarrow> Inr False)"

text \<open>\<^verbatim>\<open>str(e.get(id_field, ""))\<close>; \<open>repr_of\<close> is what \<^verbatim>\<open>str\<close> gives for a float, a list or an object.\<close>

definition str_of :: "(json \<Rightarrow> pytext) \<Rightarrow> json option \<Rightarrow> pytext" where
  "str_of repr_of v =
     (case v of None \<Rightarrow> [] | Some (JStr t) \<Rightarrow> t | Some (JInt n) \<Rightarrow> dec_text n
      | Some (JBool b) \<Rightarrow> text_of (if b then ''True'' else ''False'') | Some JNull \<Rightarrow> text_of ''None'' | Some v \<Rightarrow> repr_of v)"

definition entry_matches :: "(json \<Rightarrow> pytext) \<Rightarrow> LogShape \<Rightarrow> pytext \<Rightarrow> entry_dict \<Rightarrow> bool res" where
  "entry_matches repr_of sh record_id e =
     bindR (is_non_leaf sh (map_of e (sh_kind_field sh))) (\<lambda>non_leaf.
     Inr (\<not> non_leaf \<and>
       (map_of e (sh_id_field sh) = Some (JStr record_id) \<or>
        length record_id \<ge> 8 \<and> take (length record_id) (str_of repr_of (map_of e (sh_id_field sh))) = record_id)))"

definition find_record :: "(json \<Rightarrow> pytext) \<Rightarrow> LogShape \<Rightarrow> entry_dict list \<Rightarrow> pytext \<Rightarrow> nat res" where
  "find_record repr_of sh entries record_id =
     bindR (mapR (entry_matches repr_of sh record_id) entries) (\<lambda>matching.
     let matches = filter (\<lambda>i. matching ! i) [0..<length entries];
         exact = filter (\<lambda>i. map_of (entries ! i) (sh_id_field sh) = Some (JStr record_id)) matches in
     (case (exact, matches) of
        (i # _, _) \<Rightarrow> Inr i
      | ([], [i]) \<Rightarrow> Inr i
      | _ \<Rightarrow> Inl BundleError))"

definition stamp_checkpoint :: "(json \<Rightarrow> int res) \<Rightarrow> entry_dict \<Rightarrow> CheckpointRecord res" where
  "stamp_checkpoint int_of_text e = bindR (required KeyError ''checkpoint'' e) (cp_from_dict int_of_text)"

text \<open>\<^verbatim>\<open>next(cp for cp in checkpoints if leaf_count(cp.mmr_size) >= seq)\<close>\<close>

fun first_covering :: "CheckpointRecord list \<Rightarrow> int \<Rightarrow> CheckpointRecord option res" where
  "first_covering [] seq = Inr None"
| "first_covering (c # cs) seq =
     bindR (leaf_count (ck_mmr_size c)) (\<lambda>n. if n \<ge> seq then Inr (Some c) else first_covering cs seq)"

definition add_entry :: "LogShape \<Rightarrow> MemoryNodeStore \<Rightarrow> entry_dict \<Rightarrow> MemoryNodeStore res" where
  "add_entry sh store e =
     bindR (case map_of e (sh_id_field sh) of None \<Rightarrow> Inl KeyError | Some v \<Rightarrow> as_string TypeError v) (\<lambda>t.
     bindR (fromhex_text t) (\<lambda>body_digest.
     bindR (leaf_hash body_digest) (\<lambda>leaf.
     bindR (add_leaf store_size store_node store_append_nodes store leaf) (\<lambda>(_, _, store). Inr store))))"

definition cose_of :: "(CheckpointRecord \<times> entry_dict) list \<Rightarrow> int \<Rightarrow> json option" where
  "cose_of stamps sz =
     map_of (rev (filter (\<lambda>(_, v). py_bool v)
       (map (\<lambda>(c, e). (ck_mmr_size c, member_or_null ''checkpoint_cose'' e)) stamps))) sz"

text \<open>The part of \<^verbatim>\<open>bundle\<close> after the covering checkpoint and its predecessor are chosen; \<open>cose\<close> is the statement
  filed with the covering checkpoint.\<close>

definition bundle_evidence ::
  "LogShape \<Rightarrow> entry_dict list \<Rightarrow> nat \<Rightarrow> CheckpointRecord \<Rightarrow> CheckpointRecord option \<Rightarrow> json option \<Rightarrow> Bundle res" where
  "bundle_evidence sh entries target_idx covering prior cose_hex =
     bindR (leaf_count (ck_mmr_size covering)) (\<lambda>covered_leaves.
     bindR (foldR (add_entry sh) new_store (take (nat covered_leaves) entries)) (\<lambda>store.
     if store_size store \<noteq> ck_mmr_size covering then Inl BundleError
     else
       bindR (inclusion_proof (store_size store) (store_node store) (int target_idx) (ck_mmr_size covering)) (\<lambda>inclusion.
       bindR (case prior of None \<Rightarrow> Inr None | Some p \<Rightarrow>
         bindR (consistency_proof (store_size store) (store_node store) (ck_mmr_size p) (ck_mmr_size covering)) (\<lambda>c. Inr (Some c)))
         (\<lambda>consistency.
       bindR (case map_of (entries ! target_idx) (sh_id_field sh) of None \<Rightarrow> Inl KeyError | Some v \<Rightarrow> as_string TypeError v)
         (\<lambda>capsule_id.
       bindR (case cose_hex of None \<Rightarrow> Inr None | Some v \<Rightarrow>
         bindR (bindR (as_string TypeError v) fromhex_text) (\<lambda>c. Inr (Some c))) (\<lambda>cose.
       Inr \<lparr>bu_v = 1, bu_capsule_id = capsule_id, bu_seq = int target_idx + 1, bu_receipt = JObj (entries ! target_idx),
         bu_inclusion_proof = inclusion, bu_checkpoint = covering, bu_prior_checkpoint = prior,
         bu_consistency_proof = consistency, bu_checkpoint_cose = cose\<rparr>))))))"

definition build_bundle ::
  "(json \<Rightarrow> int res) \<Rightarrow> (json \<Rightarrow> pytext) \<Rightarrow> LogShape \<Rightarrow> entry_dict list \<Rightarrow> pytext \<Rightarrow> Bundle res" where
  "build_bundle int_of_text repr_of sh entries record_id =
     (if entries = [] then Inl BundleError
      else
        bindR (find_record repr_of sh entries record_id) (\<lambda>target_idx.
        let stamp_entries = filter (\<lambda>e. map_of e (sh_kind_field sh) = Some (JStr (sh_stamp_kind sh))) entries in
        bindR (mapR (stamp_checkpoint int_of_text) stamp_entries) (\<lambda>checkpoints.
        bindR (first_covering checkpoints (int target_idx + 1)) (\<lambda>found.
        case found of None \<Rightarrow> Inl BundleError | Some covering \<Rightarrow>
          let prior = (if ck_prev_size covering > 0 then List.find (\<lambda>c. ck_mmr_size c = ck_prev_size covering) checkpoints else None) in
          if ck_prev_size covering > 0 \<and> prior = None then Inl BundleError
          else bundle_evidence sh entries target_idx covering prior (cose_of (zip checkpoints stamp_entries) (ck_mmr_size covering))))))"

section \<open>Verifying a bundle\<close>

datatype bundle_note =
    InclusionFails
  | SignatureFails
  | PriorSignatureFails
  | PrevSizeMismatch
  | PrevRootMismatch
  | ConsistencyMissing
  | ConsistencyFails
  | PriorMissing
  | ConsistencyWithoutPrior
  | CoseFails
  | CoseMismatch
  | StampInvalidFor pytext
  | NoStampVerifies nat
  | UnexpectedError
  | HistoryIntact int int
  | FirstCheckpoint int
  | CoseVerified
  | StampUnverifiedFor pytext

definition note_if :: "bool \<Rightarrow> bundle_note \<Rightarrow> bundle_note list" where
  "note_if c n = (if c then [n] else [])"

text \<open>Errors and notices of the checks against the prior checkpoint; a root that is no hexadecimal text raises, with the
  errors so far.\<close>

definition prior_checks ::
  "('a, 'n) CryptoLib \<Rightarrow> Bundle \<Rightarrow> bytes \<Rightarrow> bundle_note list + bundle_note list \<times> bundle_note list" where
  "prior_checks lib b root =
     (let c = bu_checkpoint b in
      case bu_prior_checkpoint b of
        Some p \<Rightarrow>
          (let errors = note_if (\<not> verify_checkpoint_signature_offline lib p) PriorSignatureFails @
                 note_if (ck_prev_size c \<noteq> ck_mmr_size p) PrevSizeMismatch @ note_if (ck_prev_root c \<noteq> ck_root p) PrevRootMismatch in
           case bu_consistency_proof b of
             None \<Rightarrow> Inr (errors @ [ConsistencyMissing], [])
           | Some pf \<Rightarrow>
               (case fromhex_text (ck_root p) of
                  Inl _ \<Rightarrow> Inl errors
                | Inr root_a \<Rightarrow>
                    if \<not> verify_consistency root_a (ck_mmr_size p) root (ck_mmr_size c) (Some pf)
                    then Inr (errors @ [ConsistencyFails], [])
                    else Inr (errors, [HistoryIntact (ck_mmr_size p) (ck_mmr_size c)])))
      | None \<Rightarrow>
          Inr (note_if (ck_prev_size c \<noteq> 0) PriorMissing @ note_if (bu_consistency_proof b \<noteq> None) ConsistencyWithoutPrior,
               note_if (ck_prev_size c = 0 \<and> bu_consistency_proof b = None) (FirstCheckpoint (ck_mmr_size c))))"

definition cose_checks :: "('x, 'm) CoseLib \<Rightarrow> Bundle \<Rightarrow> bundle_note list \<times> bundle_note list" where
  "cose_checks lib b =
     (case bu_checkpoint_cose b of None \<Rightarrow> ([], []) | Some statement \<Rightarrow>
        (case cv_decoded (verify_checkpoint_cose_offline lib statement) of
           None \<Rightarrow> ([CoseFails], [])
         | Some decoded \<Rightarrow>
             let c = bu_checkpoint b in
             if dc_log_id decoded \<noteq> ck_log_id c \<or> dc_mmr_size decoded \<noteq> ck_mmr_size c \<or> dc_root decoded \<noteq> ck_root c \<or>
                dc_prev_size decoded \<noteq> ck_prev_size c \<or> dc_prev_root decoded \<noteq> ck_prev_root c \<or> dc_key_id decoded \<noteq> ck_key_id c
             then ([CoseMismatch], []) else ([], [CoseVerified])))"

definition stamp_checks ::
  "('a, 'n) CryptoLib \<Rightarrow> (pytext \<Rightarrow> bytes option) \<Rightarrow> CheckpointRecord \<Rightarrow> bundle_note list \<times> bundle_note list" where
  "stamp_checks lib anchor c =
     (let verdict = (\<lambda>w. stamp_tristate lib c w (anchor (wi_ts_url w)));
          any_witnessed = list_ex (\<lambda>w. verdict w = StampWitnessed) (ck_witnesses c);
          any_invalid = list_ex (\<lambda>w. verdict w = StampInvalid) (ck_witnesses c);
          invalid = concat (map (\<lambda>w. note_if (verdict w = StampInvalid) (StampInvalidFor (wi_ts_url w))) (ck_witnesses c));
          unverified = concat (map (\<lambda>w. case verdict w of
              StampWitnessed \<Rightarrow> []
            | StampUnverified \<Rightarrow> [StampUnverifiedFor (wi_ts_url w)]
            | StampInvalid \<Rightarrow> note_if any_witnessed (StampInvalidFor (wi_ts_url w))) (ck_witnesses c)) in
      ((if any_witnessed then [] else invalid) @
         note_if (\<not> any_witnessed \<and> any_invalid) (NoStampVerifies (length (ck_witnesses c))), unverified))"

definition verify_bundle_log_integrity ::
  "('x, 'm) CoseLib \<Rightarrow> Bundle \<Rightarrow> (pytext \<Rightarrow> bytes option) \<Rightarrow> bool \<times> bundle_note list" where
  "verify_bundle_log_integrity lib b anchor =
     (let c = bu_checkpoint b; crypto = CryptoLib.truncate lib in
      case (fromhex_text (bu_capsule_id b), fromhex_text (ck_root c)) of
        (Inr body_digest, Inr root) \<Rightarrow>
          (let errors1 = note_if (\<not> verify_inclusion root (ck_mmr_size c) (bu_seq b - 1) body_digest (Some (bu_inclusion_proof b))) InclusionFails @
                 note_if (\<not> verify_checkpoint_signature_offline crypto c) SignatureFails in
           case prior_checks crypto b root of
             Inl errors2 \<Rightarrow> (False, errors1 @ errors2 @ [UnexpectedError])
           | Inr (errors2, notices2) \<Rightarrow>
               (case (cose_checks lib b, stamp_checks crypto anchor c) of ((errors3, notices3), (errors4, notices4)) \<Rightarrow>
                  let errors = errors1 @ errors2 @ errors3 @ errors4 in
                  (errors = [], errors @ notices2 @ notices3 @ notices4)))
      | _ \<Rightarrow> (False, [UnexpectedError]))"

end
