(* ===== verification/Bundle_Proofs.thy ===== *)
theory Bundle_Proofs
  imports Bundle_Checks
begin

text \<open>
  What a bundle (\<^verbatim>\<open>cll/checkpoint/bundle.py\<close>) guarantees: its dictionary is read back, a bundle built from an
  honest log verifies, and a bundle that verifies holds a record of the log its checkpoint is of.
\<close>

section \<open>Reading the dictionary back\<close>

lemma ascii_text [simp]: "ascii_string (text_of t) = t"
proof -
  have "of_char c < (256 :: nat)" for c by simp
  then show ?thesis by (simp add: ascii_string_def text_of_def o_def)
qed

lemma texts_roundtrip [simp]: "texts_of_json (json_texts ts) = Inr ts"
  by (simp add: texts_of_json_def json_texts_def as_list_def) (induction ts, simp_all add: as_string_def)

lemma text_lists_roundtrip [simp]: "mapR texts_of_json (map json_texts tss) = Inr tss"
  by (induction tss) simp_all

lemma inclusion_dict_roundtrip [simp]: "inclusion_proof_from_dict f (inclusion_proof_to_dict p) = Inr p"
  by (simp add: inclusion_proof_from_dict_def inclusion_proof_to_dict_def member_access text_member_def)

lemma consistency_dict_roundtrip [simp]: "consistency_proof_from_dict f (consistency_proof_to_dict p) = Inr p"
  by (simp add: consistency_proof_from_dict_def consistency_proof_to_dict_def member_access text_member_def)

lemma wi_dict_roundtrip: "wi_from_dict f (wi_to_dict w) = Inr w"
  by (simp add: wi_from_dict_def wi_to_dict_def member_access)

lemma cp_dict_roundtrip [simp]: "cp_from_dict f (cp_to_dict c) = Inr c"
proof -
  have w: "mapR (wi_from_dict f) (map wi_to_dict ws) = Inr ws" for ws
    by (induction ws) (simp_all add: wi_dict_roundtrip)
  show ?thesis by (simp add: cp_from_dict_def cp_to_dict_def signing_dict_def member_access w)
qed

lemma dict_truth [simp]: "py_bool (cp_to_dict c)" "consistency_proof_to_dict p \<noteq> JNull"
  by (simp_all add: py_bool_def cp_to_dict_def signing_dict_def consistency_proof_to_dict_def)

text \<open>
  A bundle survives its dictionary form: \<open>from_dict\<close> of \<open>to_dict\<close> is the bundle, proofs, checkpoints with
  their witnesses, and statement included. An empty statement, which no signer makes, is the one exception: its
  text is read as none.
\<close>

theorem bundle_dict_roundtrip:
  assumes "bu_checkpoint_cose b \<noteq> Some []"
  shows "bundle_from_dict int_of_text (bundle_to_dict b) = Inr b"
proof -
  define prior where "prior = (case bu_prior_checkpoint b of None \<Rightarrow> JNull | Some c \<Rightarrow> cp_to_dict c)"
  define cons where "cons = (case bu_consistency_proof b of None \<Rightarrow> JNull | Some c \<Rightarrow> consistency_proof_to_dict c)"
  define cose where "cose = (case bu_checkpoint_cose b of None \<Rightarrow> JNull | Some c \<Rightarrow> JStr (hex_text c))"
  have prior_read: "(if py_bool prior then bindR (cp_from_dict int_of_text prior) (\<lambda>c. Inr (Some c)) else Inr None) =
      Inr (bu_prior_checkpoint b)"
    by (cases "bu_prior_checkpoint b") (simp_all add: prior_def py_bool_def [of JNull])
  have cons_read: "(if cons \<noteq> JNull then bindR (consistency_proof_from_dict int_of_text cons) (\<lambda>c. Inr (Some c)) else Inr None) =
      Inr (bu_consistency_proof b)"
    by (cases "bu_consistency_proof b") (simp_all add: cons_def)
  have cose_read: "(if py_bool cose then bindR (bindR (as_string TypeError cose) fromhex_text) (\<lambda>c. Inr (Some c)) else Inr None) =
      Inr (bu_checkpoint_cose b)"
  proof (cases "bu_checkpoint_cose b")
    case (Some c)
    then have "hex_text c \<noteq> []" using assms by (cases c) (simp_all add: hex_text_def text_of_def)
    then show ?thesis using Some by (simp add: cose_def py_bool_def as_string_def)
  qed (simp add: cose_def py_bool_def)
  have dict: "bundle_to_dict b = JObj
     [(text_of ''v'', JInt (bu_v b)), (text_of ''capsule_id'', JStr (bu_capsule_id b)), (text_of ''seq'', JInt (bu_seq b)),
      (text_of ''receipt'', bu_receipt b), (text_of ''inclusion_proof'', inclusion_proof_to_dict (bu_inclusion_proof b)),
      (text_of ''checkpoint'', cp_to_dict (bu_checkpoint b)), (text_of ''prior_checkpoint'', prior),
      (text_of ''consistency_proof'', cons), (text_of ''checkpoint_cose'', cose)]"
    by (simp add: bundle_to_dict_def prior_def cons_def cose_def)
  show ?thesis
    unfolding dict bundle_from_dict_def
    by (simp add: as_object_def required_def text_member_def member_or_null_def as_string_def [of _ "JStr _"] py_int_def Let_def
        prior_read cons_read cose_read cong: if_cong)
qed

section \<open>An honest log\<close>

lemma leaf_count_mountains:
  assumes "leaf_count s = Inr n"
  shows "s = nodes_of (mountains (nat n))" "s < MAX_MMR_SIZE" "0 \<le> n"
proof -
  obtain pks where "peaks s = Inr pks" using assms by (auto simp: leaf_count_def bindR_eq_Inr)
  then obtain m where m: "s = nodes_of (mountains m)" "s < MAX_MMR_SIZE" using peaks_size by metis
  then show "s = nodes_of (mountains (nat n))" "s < MAX_MMR_SIZE" "0 \<le> n" using assms leaf_count_at [of m] by auto
qed

lemma add_entry_range:
  assumes "add_entry sh s e = Inr s'" "mmr_of (store_nodes s) ds"
  shows "\<exists>t d ext. map_of e (sh_id_field sh) = Some (JStr t) \<and> fromhex_text t = Inr d \<and> mmr_of (store_nodes s') (ds @ [d]) \<and>
    store_nodes s' = store_nodes s @ ext"
proof -
  obtain v t d lf where v: "map_of e (sh_id_field sh) = Some v" "as_string TypeError v = Inr t" "fromhex_text t = Inr d" "leaf_hash d = Inr lf"
    "bindR (add_leaf store_size store_node store_append_nodes s lf) (\<lambda>(_, _, store). Inr store) = Inr s'"
    using assms(1) by (auto simp: add_entry_def bindR_eq_Inr split: option.splits)
  then obtain n new where "add_leaf store_size store_node store_append_nodes s lf = Inr (n, new, s')" by (auto simp: bindR_eq_Inr)
  moreover have "v = JStr t" using v(2) by (auto simp: as_string_def split: json.splits)
  ultimately show ?thesis using add_leaf_range [OF assms(2) v(4)] v(1,3) by blast
qed

definition digest_of :: "LogShape \<Rightarrow> entry_dict \<Rightarrow> bytes \<Rightarrow> bool" where
  "digest_of sh e d \<longleftrightarrow> (\<exists>t. map_of e (sh_id_field sh) = Some (JStr t) \<and> fromhex_text t = Inr d)"

lemma add_entries_range:
  "foldR (add_entry sh) s es = Inr s' \<Longrightarrow> mmr_of (store_nodes s) ds \<Longrightarrow>
     \<exists>new ext. list_all2 (digest_of sh) es new \<and> mmr_of (store_nodes s') (ds @ new) \<and> store_nodes s' = store_nodes s @ ext"
proof (induction es arbitrary: s ds)
  case (Cons e es)
  then obtain s1 where s1: "add_entry sh s e = Inr s1" "foldR (add_entry sh) s1 es = Inr s'" by (auto simp: bindR_eq_Inr)
  obtain d ext where d: "digest_of sh e d" "mmr_of (store_nodes s1) (ds @ [d])" "store_nodes s1 = store_nodes s @ ext"
    using add_entry_range [OF s1(1) Cons.prems(2)] by (auto simp: digest_of_def)
  obtain new ext' where "list_all2 (digest_of sh) es new" "mmr_of (store_nodes s') ((ds @ [d]) @ new)" "store_nodes s' = store_nodes s1 @ ext'"
    using Cons.IH [OF s1(2) d(2)] by blast
  then show ?case using d by (intro exI [of _ "d # new"] exI [of _ "ext @ ext'"]) simp
qed auto

lemma mmr_of_new [simp]: "mmr_of (store_nodes new_store) []"
  by (simp add: new_store_def)

text \<open>The root over the first \<open>n\<close> entries, as \<^verbatim>\<open>build_bundle\<close> derives the range.\<close>

definition log_root :: "LogShape \<Rightarrow> entry_dict list \<Rightarrow> nat \<Rightarrow> bytes res" where
  "log_root sh entries n =
     bindR (foldR (add_entry sh) new_store (take n entries)) (\<lambda>store.
     bindR (peaks_of store (store_size store)) root_from_peaks)"

text \<open>A checkpoint of this log: signed, over the root of as many entries as its size says.\<close>

definition honest_checkpoint :: "('a, 'n) CryptoLib \<Rightarrow> LogShape \<Rightarrow> entry_dict list \<Rightarrow> CheckpointRecord \<Rightarrow> bool" where
  "honest_checkpoint lib sh entries c \<longleftrightarrow> verify_checkpoint_signature_offline lib c \<and>
     (\<exists>n root. leaf_count (ck_mmr_size c) = Inr (int n) \<and> log_root sh entries n = Inr root \<and> ck_root c = hex_text root)"

text \<open>What a bundle is accepted for.\<close>

lemma bundle_accepted:
  fixes lib :: "('x, 'n) CoseLib"
  assumes "fromhex_text (bu_capsule_id b) = Inr d" "ck_root (bu_checkpoint b) = hex_text root"
    "verify_inclusion root (ck_mmr_size (bu_checkpoint b)) (bu_seq b - 1) d (Some (bu_inclusion_proof b))"
    "verify_checkpoint_signature_offline (CryptoLib.truncate lib) (bu_checkpoint b)"
    "case bu_prior_checkpoint b of None \<Rightarrow> ck_prev_size (bu_checkpoint b) = 0 \<and> bu_consistency_proof b = None
     | Some p \<Rightarrow> verify_checkpoint_signature_offline (CryptoLib.truncate lib) p \<and> ck_prev_size (bu_checkpoint b) = ck_mmr_size p \<and>
         ck_prev_root (bu_checkpoint b) = ck_root p \<and>
         (\<exists>root_a pf. ck_root p = hex_text root_a \<and> bu_consistency_proof b = Some pf \<and>
            verify_consistency root_a (ck_mmr_size p) root (ck_mmr_size (bu_checkpoint b)) (Some pf))"
    "\<forall>w\<in>set (ck_witnesses (bu_checkpoint b)). stamp_tristate (CryptoLib.truncate lib) (bu_checkpoint b) w (anchor (wi_ts_url w)) \<noteq> StampInvalid"
    "case bu_checkpoint_cose b of None \<Rightarrow> True | Some s \<Rightarrow> \<exists>d. cv_decoded (verify_checkpoint_cose_offline lib s) = Some d \<and>
         to_checkpoint_record d = (bu_checkpoint b)\<lparr>ck_v := 1, ck_kind := text_of ''mmr_checkpoint'', ck_timestamp := dc_timestamp d,
           ck_signature := [], ck_witnesses := []\<rparr>"
  shows "fst (verify_bundle_log_integrity lib b anchor)"
proof -
  have cose: "fst (cose_checks lib b) = []"
    using assms(7) by (cases "bu_checkpoint b") (auto simp: cose_checks_def Let_def to_checkpoint_record_def split: option.splits)
  have stamps: "fst (stamp_checks (CryptoLib.truncate lib) anchor (bu_checkpoint b)) = []"
    using assms(6) by (auto simp: stamp_checks_def Let_def note_if_def list_ex_iff)
  have prior: "\<exists>ns. prior_checks (CryptoLib.truncate lib) b root = Inr ([], ns)"
    using assms(5) by (auto simp: prior_checks_def Let_def note_if_def split: option.splits)
  then show ?thesis
    using assms(1-4) cose stamps
    by (auto simp: verify_bundle_log_integrity_def Let_def note_if_def split: prod.splits)
qed

text \<open>What a log's entries were folded into holds the peaks of every prefix.\<close>

lemma log_root_prefix:
  assumes root: "log_root sh entries n = Inr root" and size: "nodes_of (mountains n) < MAX_MMR_SIZE"
    and le: "n \<le> m" "m \<le> length entries" and store: "foldR (add_entry sh) new_store (take m entries) = Inr store"
  shows "root_from_peaks (peak_hashes (store_nodes store) n) = Inr root"
proof -
  obtain store_n where n: "foldR (add_entry sh) new_store (take n entries) = Inr store_n"
    "bindR (peaks_of store_n (store_size store_n)) root_from_peaks = Inr root"
    using root by (auto simp: log_root_def bindR_eq_Inr)
  obtain ds ext where ds: "list_all2 (digest_of sh) (take n entries) ds" "mmr_of (store_nodes store_n) ds"
    using add_entries_range [OF n(1) mmr_of_new] by auto
  have len: "length ds = n" using list_all2_lengthD [OF ds(1)] le by simp
  have sz: "store_size store_n = nodes_of (mountains n)" using mem.array_length [OF ds(2)] by (simp add: store_size_def len)
  have r: "root_from_peaks (peak_hashes (store_nodes store_n) n) = Inr root"
    using n(2) peaks_of_range(1) [OF ds(2) _ size] by (simp add: sz len)
  have "foldR (add_entry sh) new_store (take n entries @ take (m - n) (drop n entries)) = Inr store"
    using store le by (simp add: take_add [symmetric])
  then have "foldR (add_entry sh) store_n (take (m - n) (drop n entries)) = Inr store" by (simp add: foldR_append n(1))
  then obtain ext where "store_nodes store = store_nodes store_n @ ext" using add_entries_range [OF _ ds(2)] by blast
  then show ?thesis using r peak_hashes_append [OF ds(2), of n ext] by (simp add: len)
qed

lemma pick_member:
  "(case (filter Q ms, ms) of (i # _, _) \<Rightarrow> Inr i | ([], [i]) \<Rightarrow> Inr i | _ \<Rightarrow> Inl e) = Inr i \<Longrightarrow> i \<in> set ms"
  by (auto split: list.splits simp: filter_eq_Cons_iff)

lemma find_record_at:
  assumes "find_record repr_of sh entries record_id = Inr i"
  shows "i < length entries"
proof -
  obtain matching where "i \<in> set (filter (\<lambda>i. matching ! i) [0..<length entries])"
    using assms unfolding find_record_def bindR_eq_Inr Let_def by (blast dest: pick_member)
  then show ?thesis by simp
qed

lemma first_covering_found:
  "first_covering cs seq = Inr (Some c) \<Longrightarrow> c \<in> set cs \<and> (\<exists>n. leaf_count (ck_mmr_size c) = Inr n \<and> seq \<le> n)"
  by (induction cs) (auto simp: bindR_eq_Inr split: if_splits)

lemma build_bundleD:
  assumes "build_bundle int_of_text repr_of sh entries record_id = Inr b"
  obtains i covered store where "i < length entries" "bu_seq b = int i + 1" "bu_receipt b = JObj (entries ! i)"
    "leaf_count (ck_mmr_size (bu_checkpoint b)) = Inr covered" "int i + 1 \<le> covered"
    "foldR (add_entry sh) new_store (take (nat covered) entries) = Inr store"
    "store_size store = ck_mmr_size (bu_checkpoint b)"
    "inclusion_proof (store_size store) (store_node store) (int i) (ck_mmr_size (bu_checkpoint b)) = Inr (bu_inclusion_proof b)"
    "map_of (entries ! i) (sh_id_field sh) = Some (JStr (bu_capsule_id b))"
    "case bu_prior_checkpoint b of None \<Rightarrow> ck_prev_size (bu_checkpoint b) \<le> 0 \<and> bu_consistency_proof b = None
     | Some p \<Rightarrow> ck_mmr_size p = ck_prev_size (bu_checkpoint b) \<and> (\<exists>pf. bu_consistency_proof b = Some pf \<and>
         consistency_proof (store_size store) (store_node store) (ck_mmr_size p) (ck_mmr_size (bu_checkpoint b)) = Inr pf)"
proof -
  let ?stamps = "filter (\<lambda>e. map_of e (sh_kind_field sh) = Some (JStr (sh_stamp_kind sh))) entries"
  have ne: "entries \<noteq> []" using assms by (auto simp: build_bundle_def)
  obtain i checkpoints found where i: "find_record repr_of sh entries record_id = Inr i"
    "first_covering checkpoints (int i + 1) = Inr found"
    and rest: "(case found of None \<Rightarrow> Inl BundleError | Some covering \<Rightarrow>
          let prior = (if ck_prev_size covering > 0 then List.find (\<lambda>c. ck_mmr_size c = ck_prev_size covering) checkpoints else None) in
          if ck_prev_size covering > 0 \<and> prior = None then Inl BundleError
          else bundle_evidence sh entries i covering prior (cose_of (zip checkpoints ?stamps) (ck_mmr_size covering))) = Inr b"
    using assms unfolding build_bundle_def if_not_P [OF ne] bindR_eq_Inr Let_def by blast
  obtain covering where covering: "found = Some covering" using rest by (cases found) auto
  define prior where "prior = (if ck_prev_size covering > 0 then List.find (\<lambda>c. ck_mmr_size c = ck_prev_size covering) checkpoints else None)"
  obtain cose where e: "\<not> (ck_prev_size covering > 0 \<and> prior = None)" "bundle_evidence sh entries i covering prior cose = Inr b"
    using rest unfolding covering option.case Let_def prior_def [symmetric] by (metis sum.distinct(1))
  have p: "prior = Some p \<Longrightarrow> ck_mmr_size p = ck_prev_size covering" for p
    by (auto simp: prior_def find_Some_iff split: if_splits)
  obtain covered where covered: "leaf_count (ck_mmr_size covering) = Inr covered" "int i + 1 \<le> covered"
    using first_covering_found [OF i(2) [unfolded covering]] by blast
  obtain store inclusion consistency v id cose_bytes where parts:
    "foldR (add_entry sh) new_store (take (nat covered) entries) = Inr store" "store_size store = ck_mmr_size covering"
    "inclusion_proof (store_size store) (store_node store) (int i) (ck_mmr_size covering) = Inr inclusion"
    "(case prior of None \<Rightarrow> Inr None | Some p \<Rightarrow>
         bindR (consistency_proof (store_size store) (store_node store) (ck_mmr_size p) (ck_mmr_size covering)) (\<lambda>c. Inr (Some c))) = Inr consistency"
    "map_of (entries ! i) (sh_id_field sh) = Some v" "as_string TypeError v = Inr id"
    "b = \<lparr>bu_v = 1, bu_capsule_id = id, bu_seq = int i + 1, bu_receipt = JObj (entries ! i),
         bu_inclusion_proof = inclusion, bu_checkpoint = covering, bu_prior_checkpoint = prior,
         bu_consistency_proof = consistency, bu_checkpoint_cose = cose_bytes\<rparr>"
    using e(2) by (auto simp: bundle_evidence_def bindR_eq_Inr covered(1) split: if_splits option.split_asm)
  have id: "v = JStr id" using parts(6) by (auto simp: as_string_def split: json.splits)
  show thesis
  proof (rule that [OF find_record_at [OF i(1)]])
    show "case bu_prior_checkpoint b of None \<Rightarrow> ck_prev_size (bu_checkpoint b) \<le> 0 \<and> bu_consistency_proof b = None
     | Some p \<Rightarrow> ck_mmr_size p = ck_prev_size (bu_checkpoint b) \<and> (\<exists>pf. bu_consistency_proof b = Some pf \<and>
         consistency_proof (store_size store) (store_node store) (ck_mmr_size p) (ck_mmr_size (bu_checkpoint b)) = Inr pf)"
      using e(1) p parts(4) by (cases prior) (auto simp: parts(7) bindR_eq_Inr)
  qed (use parts covered id in simp_all)
qed

text \<open>The log the covering checkpoint of a bundle is over, as \<^verbatim>\<open>bundle\<close> rebuilds it.\<close>

lemma covered_log:
  assumes "leaf_count (ck_mmr_size c) = Inr covered" "honest_checkpoint lib sh entries c"
    and store: "foldR (add_entry sh) new_store (take (nat covered) entries) = Inr store" "store_size store = ck_mmr_size c"
  obtains ds root where "list_all2 (digest_of sh) (take (nat covered) entries) ds" "mmr_of (store_nodes store) ds" "length ds = nat covered"
    "nat covered \<le> length entries" "ck_root c = hex_text root" "verify_checkpoint_signature_offline lib c"
    "root_from_peaks (peak_hashes (store_nodes store) (nat covered)) = Inr root"
proof -
  note size = leaf_count_mountains [OF assms(1)]
  obtain ds where ds: "list_all2 (digest_of sh) (take (nat covered) entries) ds" "mmr_of (store_nodes store) ds"
    using add_entries_range [OF store(1) mmr_of_new] by auto
  have eq: "nodes_of (mountains (length ds)) = nodes_of (mountains (nat covered))"
    using mem.array_length [OF ds(2)] store(2) size(1) by (simp add: store_size_def)
  have small: "nodes_of (mountains (nat covered)) < MAX_MMR_SIZE" using size(1,2) by simp
  have len: "length ds = nat covered"
    using mountains_size_le [of "length ds" "nat covered"] mountains_size_le [of "nat covered" "length ds"] eq small
    by (intro antisym) simp_all
  have le: "nat covered \<le> length entries" using list_all2_lengthD [OF ds(1)] len by simp
  obtain root where root: "log_root sh entries (nat covered) = Inr root" "ck_root c = hex_text root" "verify_checkpoint_signature_offline lib c"
    using assms(1,2) size(3) by (auto simp: honest_checkpoint_def)
  have "root_from_peaks (peak_hashes (store_nodes store) (nat covered)) = Inr root"
    by (rule log_root_prefix [OF root(1) small order_refl le store(1)])
  then show thesis using that ds len le root by blast
qed

lemma prior_consistent:
  assumes p: "honest_checkpoint lib sh entries p" "ck_mmr_size p \<le> ck_mmr_size c"
    and c: "leaf_count (ck_mmr_size c) = Inr covered" "nat covered \<le> length entries"
      "foldR (add_entry sh) new_store (take (nat covered) entries) = Inr store" "mmr_of (store_nodes store) ds" "length ds = nat covered"
      "root_from_peaks (peak_hashes (store_nodes store) (nat covered)) = Inr root"
    and pf: "consistency_proof (store_size store) (store_node store) (ck_mmr_size p) (ck_mmr_size c) = Inr pf"
  shows "verify_checkpoint_signature_offline lib p \<and>
    (\<exists>root_a. ck_root p = hex_text root_a \<and> verify_consistency root_a (ck_mmr_size p) root (ck_mmr_size c) (Some pf))"
proof -
  note size = leaf_count_mountains [OF c(1)]
  obtain n root_a where n: "leaf_count (ck_mmr_size p) = Inr (int n)" "log_root sh entries n = Inr root_a" "ck_root p = hex_text root_a"
    "verify_checkpoint_signature_offline lib p" using p(1) by (auto simp: honest_checkpoint_def)
  note size_a = leaf_count_mountains [OF n(1), simplified]
  have nm: "n \<le> nat covered" using mountains_size_le [of n "nat covered"] p(2) size size_a by simp
  have ra: "root_from_peaks (peak_hashes (store_nodes store) n) = Inr root_a"
    using log_root_prefix [OF n(2) _ nm c(2,3)] size_a by simp
  have "verify_consistency root_a (ck_mmr_size p) root (ck_mmr_size c) (Some pf)"
    using mem.consistency_complete [OF c(4) nm _ _ ra c(6)] c(5) size(1,2) size_a(1) pf by auto
  with n show ?thesis by blast
qed

text \<open>
  C34. Every bundle built from an honest log verifies: when its checkpoint and the one before are signed and of this
  log, and neither its stamps nor its statement contradict the checkpoint, no check of the verification fails.
\<close>

theorem built_bundle_verifies:
  fixes lib :: "('x, 'n) CoseLib"
  assumes "build_bundle int_of_text repr_of sh entries record_id = Inr b"
    "honest_checkpoint (CryptoLib.truncate lib) sh entries (bu_checkpoint b)" "0 \<le> ck_prev_size (bu_checkpoint b)"
    "\<forall>p. bu_prior_checkpoint b = Some p \<longrightarrow> honest_checkpoint (CryptoLib.truncate lib) sh entries p \<and> ck_prev_root (bu_checkpoint b) = ck_root p"
    "\<forall>w\<in>set (ck_witnesses (bu_checkpoint b)). stamp_tristate (CryptoLib.truncate lib) (bu_checkpoint b) w (anchor (wi_ts_url w)) \<noteq> StampInvalid"
    "case bu_checkpoint_cose b of None \<Rightarrow> True | Some s \<Rightarrow> \<exists>d. cv_decoded (verify_checkpoint_cose_offline lib s) = Some d \<and>
         to_checkpoint_record d = (bu_checkpoint b)\<lparr>ck_v := 1, ck_kind := text_of ''mmr_checkpoint'', ck_timestamp := dc_timestamp d,
           ck_signature := [], ck_witnesses := []\<rparr>"
  shows "fst (verify_bundle_log_integrity lib b anchor) \<and> 1 \<le> bu_seq b \<and> bu_receipt b = JObj (entries ! nat (bu_seq b - 1))"
proof -
  let ?c = "bu_checkpoint b" and ?lib = "CryptoLib.truncate lib"
  obtain i covered store where i: "i < length entries" "bu_seq b = int i + 1" "bu_receipt b = JObj (entries ! i)"
    and cov: "leaf_count (ck_mmr_size ?c) = Inr covered" "int i + 1 \<le> covered"
    and store: "foldR (add_entry sh) new_store (take (nat covered) entries) = Inr store" "store_size store = ck_mmr_size ?c"
    and incl: "inclusion_proof (store_size store) (store_node store) (int i) (ck_mmr_size ?c) = Inr (bu_inclusion_proof b)"
    and id: "map_of (entries ! i) (sh_id_field sh) = Some (JStr (bu_capsule_id b))"
    and prior: "case bu_prior_checkpoint b of None \<Rightarrow> ck_prev_size ?c \<le> 0 \<and> bu_consistency_proof b = None
     | Some p \<Rightarrow> ck_mmr_size p = ck_prev_size ?c \<and> (\<exists>pf. bu_consistency_proof b = Some pf \<and>
         consistency_proof (store_size store) (store_node store) (ck_mmr_size p) (ck_mmr_size ?c) = Inr pf)"
    using assms(1) by (rule build_bundleD)
  obtain ds root where ds: "list_all2 (digest_of sh) (take (nat covered) entries) ds" "mmr_of (store_nodes store) ds" "length ds = nat covered"
    and le: "nat covered \<le> length entries" and root: "ck_root ?c = hex_text root" "verify_checkpoint_signature_offline ?lib ?c"
      "root_from_peaks (peak_hashes (store_nodes store) (nat covered)) = Inr root"
    using covered_log [OF cov(1) assms(2) store] by metis
  have il: "i < nat covered" using cov(2) by simp
  have d: "fromhex_text (bu_capsule_id b) = Inr (ds ! i)"
    using list_all2_nthD2 [OF ds(1), of i] il ds(3) id by (simp add: digest_of_def)
  have inclusion: "verify_inclusion root (ck_mmr_size ?c) (bu_seq b - 1) (ds ! i) (Some (bu_inclusion_proof b))"
    using mem.inclusion_complete [OF ds(2) _ _ il root(3)] ds(3) leaf_count_mountains [OF cov(1)] incl by (auto simp: i(2))
  have continuity: "case bu_prior_checkpoint b of None \<Rightarrow> ck_prev_size ?c = 0 \<and> bu_consistency_proof b = None
     | Some p \<Rightarrow> verify_checkpoint_signature_offline ?lib p \<and> ck_prev_size ?c = ck_mmr_size p \<and> ck_prev_root ?c = ck_root p \<and>
         (\<exists>root_a pf. ck_root p = hex_text root_a \<and> bu_consistency_proof b = Some pf \<and>
            verify_consistency root_a (ck_mmr_size p) root (ck_mmr_size ?c) (Some pf))"
  proof (cases "bu_prior_checkpoint b")
    case (Some p)
    then obtain pf where pf: "ck_mmr_size p = ck_prev_size ?c" "bu_consistency_proof b = Some pf"
      "consistency_proof (store_size store) (store_node store) (ck_mmr_size p) (ck_mmr_size ?c) = Inr pf" using prior by auto
    have h: "honest_checkpoint ?lib sh entries p" "ck_prev_root ?c = ck_root p" using assms(4) Some by auto
    have "ck_mmr_size p \<le> ck_mmr_size ?c" using pf(3) by (auto simp: consistency_proof_def split: if_splits)
    from prior_consistent [OF h(1) this cov(1) le store(1) ds(2,3) root(3) pf(3)] show ?thesis using Some h(2) pf(1,2) by auto
  qed (use prior assms(3) in simp)
  show ?thesis
    using bundle_accepted [OF d root(1) inclusion root(2) continuity assms(5,6)] i by simp
qed

section \<open>A log of one record\<close>

definition sample_shape :: LogShape where
  "sample_shape = \<lparr>sh_id_field = text_of ''capsule_id'', sh_kind_field = text_of ''kind'', sh_non_leaf_kinds = [],
     sh_stamp_kind = text_of ''checkpoint''\<rparr>"

definition sample_checkpoint :: CheckpointRecord where
  "sample_checkpoint = sample_record\<lparr>ck_prev_size := 0, ck_prev_root := [], ck_signature := hex_text sample_signature\<rparr>"

definition sample_entry :: entry_dict where
  "sample_entry = [(text_of ''capsule_id'', JStr (hex_text (replicate 32 7)))]"

definition sample_entries :: "entry_dict list" where
  "sample_entries = [sample_entry, [(text_of ''capsule_id'', JStr (hex_text (replicate 32 8))), (text_of ''kind'', JStr (text_of ''checkpoint'')),
     (text_of ''checkpoint'', cp_to_dict sample_checkpoint)]]"

definition sample_bundle :: Bundle where
  "sample_bundle = \<lparr>bu_v = 1, bu_capsule_id = hex_text (replicate 32 7), bu_seq = 1, bu_receipt = JObj sample_entry,
     bu_inclusion_proof = bare_inclusion, bu_checkpoint = sample_checkpoint, bu_prior_checkpoint = None, bu_consistency_proof = None,
     bu_checkpoint_cose = None\<rparr>"

lemma sample_names: "text_of ''capsule_id'' \<noteq> text_of ''kind''" "text_of ''capsule_id'' \<noteq> text_of ''checkpoint''" "text_of ''kind'' \<noteq> text_of ''checkpoint''"
  by (simp_all add: text_of_def)

lemma one_record_log:
  obtains l :: "unit MmrLedger" where "index_inv l" "ml_body_digests l = [replicate 32 7]" "ml_size l = 1"
    "root_hex l 1 = Inr (hex_text (leaf_of (replicate 32 7)))" "audit_queries l 1 1 = {0 # replicate 32 7}"
proof -
  obtain l l' :: "unit MmrLedger" where l: "index_inv l" "ml_body_digests l = [replicate 32 7]" "ml_size l = 1"
    by (rule two_leaf_index)
  obtain root pf where "root_at l 1 = Inr root" "ml_inclusion_proof l 1 (Some 1) = Inr pf"
    "verify_inclusion root 1 0 (replicate 32 7) (Some pf)"
    using index_inclusion [OF l(1), of 0 1] l one_leaf(1) by (auto simp: MAX_MMR_SIZE_def)
  then have "root_hex l 1 = Inr (hex_text (leaf_of (replicate 32 7)))"
    using one_leaf bare_index_proof [of l] l(3) by (simp add: root_hex_def root_at_def bare_root)
  moreover have "audit_queries l 1 1 = {0 # replicate 32 7}"
    using l by (simp add: audit_queries_def bare_index_proof bare_proofs lessThan_Suc)
  ultimately show thesis using l that by blast
qed

lemma sample_signed: "verify_checkpoint_signature_offline (CryptoLib.truncate (sample_packages claims))
    (sample_checkpoint\<lparr>ck_prev_size := n, ck_prev_root := r\<rparr>)"
proof -
  have "\<exists>e. lib_ed_verify (CryptoLib.truncate (sample_packages claims)) k s m = Inr e" for k s m
    by (simp add: CryptoLib.truncate_def sample_packages_def sample_lib_def Let_def)
  then show ?thesis
    using sample_acceptable sample_form(2)
    by (simp add: verify_checkpoint_signature_offline_def sample_checkpoint_def ed_verify_def or_false_iff)
qed

lemma sample_fold: "\<exists>store. foldR (add_entry sample_shape) new_store (take 1 sample_entries) = Inr store \<and> store_size store = 1 \<and>
    mmr_of (store_nodes store) [replicate 32 7]"
proof -
  obtain new n store where store: "add_leaf store_size store_node store_append_nodes new_store (leaf_of (replicate 32 7)) = Inr (n, new, store)"
    using mem.add_leaf_correct [of new_store "[]" "leaf_of (replicate 32 7)"]
    by (auto simp: mmr_of_def MAX_MMR_SIZE_def new_store_def store_size_def leaf_of_def mmr_of_new [unfolded mmr_of_def new_store_def, simplified])
  have lf: "leaf_hash (replicate 32 7) = Inr (leaf_of (replicate 32 7))" by (simp add: leaf_hash_def leaf_of_def assert_digest_def)
  have "mmr_of (store_nodes store) ([] @ [replicate 32 7])" by (rule add_leaf_range(1) [OF mmr_of_new lf store])
  moreover have "foldR (add_entry sample_shape) new_store (take 1 sample_entries) = Inr store"
    by (simp add: sample_entries_def sample_entry_def sample_shape_def add_entry_def as_string_def lf store)
  moreover have "store_size store = 1"
    using mem.array_length [OF calculation(1)] one_leaf(1) by (simp add: store_size_def msize_def)
  ultimately show ?thesis by auto
qed

lemma bare_proof_made: "inclusion_proof 1 (store_node store) 0 1 = Inr bare_inclusion"
  using one_leaf by (simp add: inclusion_proof_def find_containing_peak_def py_index_def bare_inclusion_def Let_def)

lemma sample_root: "log_root sample_shape sample_entries 1 = Inr (leaf_of (replicate 32 7))"
proof -
  obtain store where s: "foldR (add_entry sample_shape) new_store (take 1 sample_entries) = Inr store" "store_size store = 1"
    "mmr_of (store_nodes store) [replicate 32 7]" using sample_fold by blast
  obtain x where x: "peak_hashes (store_nodes store) 1 = [x]" "root_from_peaks [x] = Inr x"
    using peaks_of_range(2) [OF s(3), of 1] one_leaf(1) by (auto simp: peak_hashes_def MAX_MMR_SIZE_def msize_def root_from_peaks_def assert_digest_def)
  have "verify_inclusion x 1 0 (replicate 32 7) (Some bare_inclusion)"
    using mem.inclusion_complete [OF s(3), of 1 0 x] x s(2) bare_proof_made [of store] one_leaf(1) by (simp add: MAX_MMR_SIZE_def msize_def)
  then have "root_from_peaks (peak_hashes (store_nodes store) 1) = Inr (leaf_of (replicate 32 7))" using x bare_root by simp
  then show ?thesis using s peaks_of_range(1) [OF s(3), of 1] one_leaf(1)
    by (simp add: log_root_def msize_def MAX_MMR_SIZE_def)
qed

lemma sample_sealed: "verify_checkpoint_signature_offline (CryptoLib.truncate (sample_packages claims)) sample_checkpoint"
  using sample_signed [where n = 0 and r = "[]"] by (simp add: sample_checkpoint_def sample_record_def)

lemma sample_honest: "honest_checkpoint (CryptoLib.truncate (sample_packages claims)) sample_shape sample_entries sample_checkpoint"
  using sample_sealed [of claims] sample_root one_leaf(3)
  by (auto simp: honest_checkpoint_def sample_checkpoint_def sample_record_def)

lemma sample_built: "build_bundle f r sample_shape sample_entries (hex_text (replicate 32 7)) = Inr sample_bundle"
proof -
  obtain store where s: "foldR (add_entry sample_shape) new_store (take 1 sample_entries) = Inr store" "store_size store = 1"
    "mmr_of (store_nodes store) [replicate 32 7]" using sample_fold by blast
  have size: "ck_mmr_size sample_checkpoint = 1" "ck_prev_size sample_checkpoint = 0"
    by (simp_all add: sample_checkpoint_def sample_record_def)
  have entries: "sample_entries \<noteq> []" "sample_entries ! 0 = sample_entry"
    "filter (\<lambda>e. map_of e (sh_kind_field sample_shape) = Some (JStr (sh_stamp_kind sample_shape))) sample_entries = [sample_entries ! 1]"
    "stamp_checkpoint f (sample_entries ! 1) = Inr sample_checkpoint"
    "map_of sample_entry (sh_id_field sample_shape) = Some (JStr (hex_text (replicate 32 7)))"
    "cose_of [(sample_checkpoint, sample_entries ! 1)] 1 = None"
    by (simp_all add: sample_entries_def sample_entry_def sample_shape_def stamp_checkpoint_def required_def text_of_def cose_of_def member_or_null_def
        py_bool_def)
  have "find_record r sample_shape sample_entries (hex_text (replicate 32 7)) = Inr 0"
    by (simp add: find_record_def sample_entries_def sample_entry_def sample_shape_def entry_matches_def is_non_leaf_def text_of_def Let_def upt_rec)
  then show ?thesis
    using s one_leaf(3) size
    by (simp add: build_bundle_def bundle_evidence_def sample_bundle_def entries entries [unfolded One_nat_def] Let_def bare_proof_made as_string_def)
qed

theorem bundle_dict_roundtrip_witness:
  "bundle_from_dict (\<lambda>_. Inl ValueError) (bundle_to_dict sample_bundle) = Inr sample_bundle"
  by (rule bundle_dict_roundtrip) (simp add: sample_bundle_def)

lemma sample_verified: "fst (verify_bundle_log_integrity (sample_packages claims) sample_bundle (\<lambda>_. None))"
  by (rule bundle_accepted [where d = "replicate 32 7" and root = "leaf_of (replicate 32 7)"])
    (use sample_sealed [of claims] in \<open>simp_all add: sample_bundle_def bare_proofs, simp_all add: sample_checkpoint_def sample_record_def bare_proofs\<close>)

theorem built_bundle_verifies_witness:
  "build_bundle (\<lambda>_. Inl ValueError) (\<lambda>_. []) sample_shape sample_entries (hex_text (replicate 32 7)) = Inr sample_bundle \<and>
   fst (verify_bundle_log_integrity (sample_packages VNaN) sample_bundle (\<lambda>_. None))"
proof -
  have "fst (verify_bundle_log_integrity (sample_packages VNaN) sample_bundle (\<lambda>_. None)) \<and> 1 \<le> bu_seq sample_bundle \<and>
      bu_receipt sample_bundle = JObj (sample_entries ! nat (bu_seq sample_bundle - 1))"
    by (rule built_bundle_verifies [where int_of_text = "\<lambda>_. Inl ValueError" and repr_of = "\<lambda>_. []" and sh = sample_shape and
          record_id = "hex_text (replicate 32 7)"])
      (use sample_honest [of VNaN] in \<open>simp_all add: sample_built\<close>, simp_all add: sample_bundle_def sample_checkpoint_def sample_record_def)
  then show ?thesis by (simp add: sample_built)
qed

section \<open>What a verified bundle shows\<close>

lemma verified_bundleD:
  fixes lib :: "('x, 'n) CoseLib"
  assumes "fst (verify_bundle_log_integrity lib b anchor)"
  obtains d root where "fromhex_text (bu_capsule_id b) = Inr d" "fromhex_text (ck_root (bu_checkpoint b)) = Inr root"
    "verify_inclusion root (ck_mmr_size (bu_checkpoint b)) (bu_seq b - 1) d (Some (bu_inclusion_proof b))"
    "verify_checkpoint_signature_offline (CryptoLib.truncate lib) (bu_checkpoint b)"
    "\<And>p. bu_prior_checkpoint b = Some p \<Longrightarrow> verify_checkpoint_signature_offline (CryptoLib.truncate lib) p \<and>
       ck_prev_size (bu_checkpoint b) = ck_mmr_size p \<and> ck_prev_root (bu_checkpoint b) = ck_root p \<and>
       (\<exists>pf root_a. bu_consistency_proof b = Some pf \<and> fromhex_text (ck_root p) = Inr root_a \<and>
          verify_consistency root_a (ck_mmr_size p) root (ck_mmr_size (bu_checkpoint b)) (Some pf))"
proof -
  obtain d root where r: "fromhex_text (bu_capsule_id b) = Inr d" "fromhex_text (ck_root (bu_checkpoint b)) = Inr root"
    using assms by (auto simp: verify_bundle_log_integrity_def Let_def split: sum.splits)
  obtain ns where v: "verify_inclusion root (ck_mmr_size (bu_checkpoint b)) (bu_seq b - 1) d (Some (bu_inclusion_proof b))"
    "verify_checkpoint_signature_offline (CryptoLib.truncate lib) (bu_checkpoint b)" "prior_checks (CryptoLib.truncate lib) b root = Inr ([], ns)"
    using assms by (auto simp: verify_bundle_log_integrity_def Let_def r note_if_def split: sum.splits prod.splits if_splits)
  show thesis
    using r v by (intro that) (auto simp: prior_checks_def Let_def note_if_def split: if_splits option.splits sum.splits)
qed

text \<open>
  C35. A bundle that verifies is of the log: when its checkpoint is of an index, its record is in the index at the
  sequence number it states, and when its prior checkpoint is of another index, every record of that one is in this
  one, at its place. SHA-256 is assumed not to collide on the proofs of the bundle and of the two indexes.
\<close>

theorem bundle_binds_log:
  fixes lib :: "('x, 'n) CoseLib"
  assumes "fst (verify_bundle_log_integrity lib b anchor)" "index_inv l" "ml_size l < MAX_MMR_SIZE"
    "ml_size l = ck_mmr_size (bu_checkpoint b)" "root_hex l (ml_size l) = Inr (ck_root (bu_checkpoint b))"
    "fromhex_text (bu_capsule_id b) = Inr d"
    "inj_on sha256 (audit_queries l (length (ml_body_digests l)) (ml_size l) \<union>
       set (inclusion_queries (ml_size l) (bu_seq b - 1) d (bu_inclusion_proof b)))"
  shows "1 \<le> bu_seq b \<and> bu_seq b \<le> ml_leaf_count l \<and> ml_body_digest l (bu_seq b) = Inr d \<and>
    (\<forall>p pf l0. bu_prior_checkpoint b = Some p \<longrightarrow> bu_consistency_proof b = Some pf \<longrightarrow> index_inv l0 \<longrightarrow> ml_size l0 = ck_mmr_size p \<longrightarrow>
       root_hex l0 (ml_size l0) = Inr (ck_root p) \<longrightarrow> ml_size l0 < MAX_MMR_SIZE \<longrightarrow>
       inj_on sha256 (audit_queries l0 (length (ml_body_digests l0)) (ml_size l0) \<union>
         audit_queries l (length (ml_body_digests l0)) (ml_size l) \<union> set (consistency_queries (ml_size l0) (ml_size l) pf)) \<longrightarrow>
       (\<exists>more. ml_body_digests l = ml_body_digests l0 @ more))"
proof -
  obtain root where v: "fromhex_text (ck_root (bu_checkpoint b)) = Inr root"
    "verify_inclusion root (ml_size l) (bu_seq b - 1) d (Some (bu_inclusion_proof b))"
    "\<And>p. bu_prior_checkpoint b = Some p \<Longrightarrow>
       (\<exists>pf root_a. bu_consistency_proof b = Some pf \<and> fromhex_text (ck_root p) = Inr root_a \<and>
          verify_consistency root_a (ck_mmr_size p) root (ml_size l) (Some pf))"
    using verified_bundleD [OF assms(1)] assms(4,6) by (metis Inr_inject)
  have root: "root_at l (ml_size l) = Inr root" using root_hex_root_at [OF assms(5)] v(1) by auto
  let ?i = "nat (bu_seq b - 1)" and ?n = "length (ml_body_digests l)"
  have s: "ml_size l = nodes_of (mountains ?n)" using index_size [OF assms(2)] by simp
  have "0 \<le> bu_seq b - 1 \<and> (\<exists>lc. leaf_count (ml_size l) = Inr lc \<and> bu_seq b - 1 < lc)"
    using v(2) by (elim verify_inclusionD) blast
  then have i: "0 \<le> bu_seq b - 1" "?i < ?n" using leaf_count_at [of ?n] assms(3) s by auto
  obtain pf where pf: "ml_inclusion_proof l (int ?i + 1) (Some (ml_size l)) = Inr pf"
    "verify_inclusion root (ml_size l) (int ?i) (ml_body_digests l ! ?i) (Some pf)"
    using index_inclusion [OF assms(2) i(2) order_refl] assms(3) root by (auto simp flip: s)
  have "set (inclusion_queries (ml_size l) (int ?i) (ml_body_digests l ! ?i) pf) \<subseteq> audit_queries l ?n (ml_size l)"
    using i(2) pf(1) by (force simp: audit_queries_def)
  then have "ml_body_digests l ! ?i = d"
    using pf(2) v(2) i(1) by (intro inclusion_binds [OF _ _ inj_on_subset [OF assms(7)]]) auto
  then have placed: "1 \<le> bu_seq b \<and> bu_seq b \<le> ml_leaf_count l \<and> ml_body_digest l (bu_seq b) = Inr d"
    using i by (simp add: ml_leaf_count_def ml_body_digest_def)
  have "\<exists>more. ml_body_digests l = ml_body_digests l0 @ more"
    if h: "bu_prior_checkpoint b = Some p" "bu_consistency_proof b = Some pf" "index_inv l0" "ml_size l0 = ck_mmr_size p"
      "root_hex l0 (ml_size l0) = Inr (ck_root p)" "ml_size l0 < MAX_MMR_SIZE"
      "inj_on sha256 (audit_queries l0 (length (ml_body_digests l0)) (ml_size l0) \<union>
         audit_queries l (length (ml_body_digests l0)) (ml_size l) \<union> set (consistency_queries (ml_size l0) (ml_size l) pf))"
    for p pf l0
  proof -
    obtain root_a where a: "fromhex_text (ck_root p) = Inr root_a" "verify_consistency root_a (ml_size l0) root (ml_size l) (Some pf)"
      using v(3) [OF h(1)] h(2,4) by auto
    have "root_at l0 (ml_size l0) = Inr root_a" using root_hex_root_at [OF h(5)] a(1) by auto
    then show ?thesis using consistency_extends [OF h(3) assms(2) h(6) assms(3) _ root a(2) h(7)] by blast
  qed
  then show ?thesis using placed by blast
qed

theorem bundle_binds_log_witness:
  "\<exists>l :: unit MmrLedger. root_hex l 1 = Inr (ck_root (bu_checkpoint sample_bundle)) \<and> ml_body_digest l (bu_seq sample_bundle) = Inr (replicate 32 7)"
proof -
  obtain l :: "unit MmrLedger" where l: "index_inv l" "ml_body_digests l = [replicate 32 7]" "ml_size l = 1"
    "root_hex l 1 = Inr (hex_text (leaf_of (replicate 32 7)))" "audit_queries l 1 1 = {0 # replicate 32 7}"
    by (rule one_record_log)
  have b: "bu_checkpoint sample_bundle = sample_checkpoint" "bu_seq sample_bundle = 1" "bu_inclusion_proof sample_bundle = bare_inclusion"
    "bu_capsule_id sample_bundle = hex_text (replicate 32 7)" "ck_mmr_size sample_checkpoint = 1"
    "ck_root sample_checkpoint = hex_text (leaf_of (replicate 32 7))"
    by (simp_all add: sample_bundle_def sample_checkpoint_def sample_record_def)
  show ?thesis
    using bundle_binds_log [of "sample_packages VNaN" sample_bundle "\<lambda>_. None" l "replicate 32 7"] sample_verified l b
    by (auto simp: MAX_MMR_SIZE_def bare_proofs)
qed

text \<open>
  The record of a bundle may already be under the prior checkpoint: no check compares its place with the prior size,
  so a verified bundle bounds only from above when the record entered the log.
\<close>

theorem lower_bound_unchecked:
  "\<exists>(lib :: (unit, unit) CoseLib) b p. fst (verify_bundle_log_integrity lib b (\<lambda>_. None)) \<and> bu_prior_checkpoint b = Some p \<and>
     (\<exists>n. leaf_count (ck_mmr_size p) = Inr n \<and> bu_seq b \<le> n)"
proof -
  let ?c = "sample_checkpoint\<lparr>ck_prev_size := 1, ck_prev_root := ck_root sample_checkpoint\<rparr>"
  let ?b = "sample_bundle\<lparr>bu_checkpoint := ?c, bu_prior_checkpoint := Some sample_checkpoint,
    bu_consistency_proof := Some (bare_consistency (replicate 32 7))\<rparr>"
  have "fst (verify_bundle_log_integrity (sample_packages VNaN) ?b (\<lambda>_. None))"
    by (rule bundle_accepted [where d = "replicate 32 7" and root = "leaf_of (replicate 32 7)"])
      (use sample_signed [of VNaN] in \<open>simp_all add: sample_bundle_def sample_sealed bare_proofs, simp_all add: sample_checkpoint_def sample_record_def bare_proofs\<close>)
  then show ?thesis
    using one_leaf(3) by (intro exI [of _ "sample_packages VNaN"] exI [of _ ?b]) (simp add: sample_bundle_def sample_checkpoint_def sample_record_def)
qed

end
