(* ===== verification/Ledger_Records.thy ===== *)
theory Ledger_Records
  imports Checkpoint_Record
begin

text \<open>
  \<^verbatim>\<open>cll/ledger/admission.py\<close>, \<^verbatim>\<open>records.py\<close> and the rules of \<^verbatim>\<open>store.py\<close> on a single record: the admission
  contract, the authenticity a stored line is read back with, and the values the index binds. The package
  \<^verbatim>\<open>agent_action_capsule\<close> and what SQLite makes of a float are arguments (\<open>CapsuleLib\<close>).
\<close>

type_synonym capsule = "(pytext \<times> json) list"

text \<open>\<^verbatim>\<open>compute_capsule_id\<close>, \<^verbatim>\<open>verify_producer_envelope\<close> (its \<^verbatim>\<open>ok\<close> and \<^verbatim>\<open>public_key\<close>), and the text of a float
  literal stored in a text column (none for NaN, which is stored as NULL).\<close>

record CapsuleLib =
  cap_id :: "capsule \<Rightarrow> pytext res"
  cap_envelope :: "pytext \<Rightarrow> bytes \<Rightarrow> (bool \<times> bytes) res"
  sql_real :: "pytext \<Rightarrow> pytext option"

section \<open>Admission\<close>

definition UNSIGNED :: pytext where "UNSIGNED = text_of ''unsigned''"
definition SIGNED :: pytext where "SIGNED = text_of ''signed''"
definition AUTHENTICITY_UNSIGNED :: pytext where "AUTHENTICITY_UNSIGNED = text_of ''unsigned''"
definition AUTHENTICITY_SIGNED :: pytext where "AUTHENTICITY_SIGNED = text_of ''signed''"

record ProducerEnvelope =
  pe_envelope :: pytext
  pe_key_id :: pytext

definition as_bundled :: "ProducerEnvelope \<Rightarrow> json" where
  "as_bundled e = JObj [(text_of ''envelope'', JStr (pe_envelope e)), (text_of ''key_id'', JStr (pe_key_id e))]"

record AdmissionRequest =
  aq_mode :: pytext
  aq_envelopes :: "ProducerEnvelope list"

definition new_admission :: "pytext \<Rightarrow> ProducerEnvelope list \<Rightarrow> AdmissionRequest res" where
  "new_admission mode envelopes =
     (if mode \<noteq> UNSIGNED \<and> mode \<noteq> SIGNED then Inl ValueError
      else if mode = UNSIGNED \<and> envelopes \<noteq> [] then Inl ValueError
      else Inr \<lparr>aq_mode = mode, aq_envelopes = envelopes\<rparr>)"

record Resolution =
  re_authenticity :: pytext
  re_verified_envelopes :: "ProducerEnvelope list"
  re_capsule_id :: "pytext option"

text \<open>The pair \<^verbatim>\<open>signature\<close>, \<^verbatim>\<open>key_id\<close> a capsule carries, when both are strings.\<close>

definition embedded_envelope :: "capsule \<Rightarrow> ProducerEnvelope option" where
  "embedded_envelope c =
     (case (map_of c (text_of ''signature''), map_of c (text_of ''key_id'')) of
        (Some (JStr s), Some (JStr k)) \<Rightarrow> Some \<lparr>pe_envelope = s, pe_key_id = k\<rparr>
      | _ \<Rightarrow> None)"

definition candidate_envelopes :: "capsule \<Rightarrow> AdmissionRequest \<Rightarrow> ProducerEnvelope list" where
  "candidate_envelopes c request =
     aq_envelopes request @ (case embedded_envelope c of None \<Rightarrow> [] | Some e \<Rightarrow> [e])"

text \<open>\<^verbatim>\<open>except (ValueError, TypeError)\<close> around the verification; any other exception goes through.\<close>

definition or_refused :: "'a \<Rightarrow> 'a res \<Rightarrow> 'a res" where
  "or_refused x r = (case r of Inl e \<Rightarrow> if e = ValueError \<or> e = TypeError then Inr x else Inl e | Inr y \<Rightarrow> Inr y)"

definition check_envelope :: "CapsuleLib \<Rightarrow> pytext \<Rightarrow> ProducerEnvelope \<Rightarrow> bool res" where
  "check_envelope lib capsule_id env =
     bindR (fromhex_text (pe_envelope env)) (\<lambda>cose.
     bindR (cap_envelope lib capsule_id cose) (\<lambda>(ok, public_key).
     if \<not> ok then Inr False
     else bindR (fromhex_text (pe_key_id env)) (\<lambda>key. Inr (public_key = key))))"

definition envelope_verifies :: "CapsuleLib \<Rightarrow> pytext \<Rightarrow> ProducerEnvelope \<Rightarrow> bool res" where
  "envelope_verifies lib capsule_id env = or_refused False (check_envelope lib capsule_id env)"

fun filterR :: "('a \<Rightarrow> bool res) \<Rightarrow> 'a list \<Rightarrow> 'a list res" where
  "filterR p [] = Inr []"
| "filterR p (x # xs) = bindR (p x) (\<lambda>b. bindR (filterR p xs) (\<lambda>ys. Inr (if b then x # ys else ys)))"

definition resolve_admission :: "CapsuleLib \<Rightarrow> capsule \<Rightarrow> AdmissionRequest \<Rightarrow> Resolution res" where
  "resolve_admission lib c request =
     (if aq_mode request = UNSIGNED then
        Inr \<lparr>re_authenticity = AUTHENTICITY_UNSIGNED, re_verified_envelopes = [], re_capsule_id = None\<rparr>
      else
        bindR (cap_id lib c) (\<lambda>capsule_id.
        if candidate_envelopes c request = [] then Inl (AdmissionRejected ''envelope_missing'')
        else
          bindR (filterR (envelope_verifies lib capsule_id) (candidate_envelopes c request)) (\<lambda>verified.
          if verified = [] then Inl (AdmissionRejected ''envelope_invalid'')
          else Inr \<lparr>re_authenticity = AUTHENTICITY_SIGNED, re_verified_envelopes = verified, re_capsule_id = Some capsule_id\<rparr>)))"

section \<open>Stored records\<close>

text \<open>\<^verbatim>\<open>LedgerRecord\<close> of \<^verbatim>\<open>records.py\<close>; the capsule read back from a segment is whatever JSON value its line holds.\<close>

record StoredRecord =
  sr_seq :: int
  sr_capsule_id :: pytext
  sr_capsule :: json
  sr_segment :: pytext
  sr_consequential :: bool
  sr_authenticity :: pytext
  sr_envelopes :: "ProducerEnvelope list"

definition reindex_authenticity :: "CapsuleLib \<Rightarrow> capsule \<Rightarrow> pytext res" where
  "reindex_authenticity lib c =
     (case embedded_envelope c of
        None \<Rightarrow> Inr AUTHENTICITY_UNSIGNED
      | Some e \<Rightarrow>
          or_refused AUTHENTICITY_UNSIGNED
            (bindR (cap_id lib c) (\<lambda>capsule_id.
             bindR (check_envelope lib capsule_id e) (\<lambda>ok.
             Inr (if ok then AUTHENTICITY_SIGNED else AUTHENTICITY_UNSIGNED)))))"

definition bundled_envelopes :: "capsule \<Rightarrow> pytext \<Rightarrow> ProducerEnvelope list" where
  "bundled_envelopes c authenticity =
     (if authenticity \<noteq> AUTHENTICITY_SIGNED then []
      else (case embedded_envelope c of None \<Rightarrow> [] | Some e \<Rightarrow> [e]))"

text \<open>\<^verbatim>\<open>_line_id_problem\<close>: whether there is one.\<close>

definition line_id_problem :: "capsule \<Rightarrow> bool" where
  "line_id_problem line =
     (case map_of line (text_of ''capsule_id'') of None \<Rightarrow> False | Some (JStr t) \<Rightarrow> t = [] | Some _ \<Rightarrow> True)"

text \<open>\<^verbatim>\<open>capsule.get("capsule_id") or compute_capsule_id(capsule)\<close>\<close>

definition carried_id :: "CapsuleLib \<Rightarrow> capsule \<Rightarrow> json res" where
  "carried_id lib c =
     (case map_of c (text_of ''capsule_id'') of
        Some v \<Rightarrow> if py_bool v then Inr v else bindR (cap_id lib c) (\<lambda>t. Inr (JStr t))
      | None \<Rightarrow> bindR (cap_id lib c) (\<lambda>t. Inr (JStr t)))"

section \<open>The values of an index row\<close>

text \<open>
  The table \<^verbatim>\<open>records\<close>. A text column holds a text or NULL: SQLite's affinity turns a number stored in it into its
  text. The sequence number is assigned on insertion; the only value the checks let through that the insertion
  refuses is an identity that is stored as NULL.
\<close>

record Row =
  rw_seq :: int
  rw_capsule_id :: pytext
  rw_segment :: pytext
  rw_offset :: nat
  rw_timestamp :: "pytext option"
  rw_operator :: "pytext option"
  rw_developer :: "pytext option"
  rw_action_type :: "pytext option"
  rw_verdict_class :: "pytext option"
  rw_parent :: "pytext option"
  rw_relation :: "pytext option"
  rw_consequential :: bool
  rw_authenticity :: pytext

definition text_column :: "CapsuleLib \<Rightarrow> json option \<Rightarrow> pytext option res" where
  "text_column lib v =
     (case v of
        None \<Rightarrow> Inr None | Some JNull \<Rightarrow> Inr None
      | Some (JStr t) \<Rightarrow> if utf8_encode t = None then Inl ValueError else Inr (Some t)
      | Some (JFloat t) \<Rightarrow> Inr (sql_real lib t)
      | Some (JInt n) \<Rightarrow> if - (2 ^ 63) \<le> n \<and> n < 2 ^ 63 then Inr (Some (dec_text n)) else Inl ValueError
      | Some (JBool b) \<Rightarrow> Inr (Some (dec_text (if b then 1 else 0)))
      | Some _ \<Rightarrow> Inl ValueError)"

text \<open>\<^verbatim>\<open>to_store.get(name) or {}\<close>, which must be an object.\<close>

definition sub_object :: "string \<Rightarrow> capsule \<Rightarrow> capsule res" where
  "sub_object name c =
     (case map_of c (text_of name) of
        None \<Rightarrow> Inr []
      | Some v \<Rightarrow> if \<not> py_bool v then Inr [] else (case v of JObj ms \<Rightarrow> Inr ms | _ \<Rightarrow> Inl ValueError))"

definition record_params :: "CapsuleLib \<Rightarrow> capsule \<Rightarrow> json \<Rightarrow> pytext \<Rightarrow> nat \<Rightarrow> bool \<Rightarrow> pytext \<Rightarrow> Row res" where
  "record_params lib c capsule_id segment offset consequential authenticity =
     bindR (sub_object ''chain'' c) (\<lambda>chain.
     bindR (sub_object ''disposition'' c) (\<lambda>disposition.
     bindR (text_column lib (Some capsule_id)) (\<lambda>id_column.
       bindR (text_column lib (map_of c (text_of ''timestamp''))) (\<lambda>timestamp.
       bindR (text_column lib (map_of c (text_of ''operator''))) (\<lambda>operator.
       bindR (text_column lib (map_of c (text_of ''developer''))) (\<lambda>developer.
       bindR (text_column lib (map_of c (text_of ''action_type''))) (\<lambda>action_type.
       bindR (text_column lib (map_of disposition (text_of ''verdict_class''))) (\<lambda>verdict_class.
       bindR (text_column lib (map_of chain (text_of ''parent_capsule_id''))) (\<lambda>parent.
       bindR (text_column lib (map_of chain (text_of ''relation''))) (\<lambda>relation.
       case id_column of None \<Rightarrow> Inl DatabaseError | Some id_text \<Rightarrow>
       Inr \<lparr>rw_seq = 0, rw_capsule_id = id_text, rw_segment = segment, rw_offset = offset, rw_timestamp = timestamp, rw_operator = operator,
         rw_developer = developer, rw_action_type = action_type, rw_verdict_class = verdict_class, rw_parent = parent,
         rw_relation = relation, rw_consequential = consequential, rw_authenticity = authenticity\<rparr>))))))))))"

section \<open>The admission contract\<close>

lemma authenticity_texts [simp]:
  "AUTHENTICITY_SIGNED \<noteq> AUTHENTICITY_UNSIGNED" "AUTHENTICITY_UNSIGNED \<noteq> AUTHENTICITY_SIGNED" "SIGNED \<noteq> UNSIGNED"
  by (simp_all add: AUTHENTICITY_SIGNED_def AUTHENTICITY_UNSIGNED_def SIGNED_def UNSIGNED_def)

lemma filterR_sound: "filterR p xs = Inr ys \<Longrightarrow> ys = filter (\<lambda>x. p x = Inr True) xs"
  by (induction xs arbitrary: ys) (auto simp: res_simps)

lemma filterR_total: "(\<And>x. x \<in> set xs \<Longrightarrow> p x = Inr (q x)) \<Longrightarrow> filterR p xs = Inr (filter q xs)"
  by (induction xs) auto

lemma envelope_verifiesD:
  "envelope_verifies lib i e = Inr True \<Longrightarrow>
     \<exists>cose key. fromhex_text (pe_envelope e) = Inr cose \<and> cap_envelope lib i cose = Inr (True, key) \<and> fromhex_text (pe_key_id e) = Inr key"
  by (auto simp: envelope_verifies_def or_refused_def check_envelope_def res_simps split: sum.splits if_splits)

lemma resolve_signedD:
  assumes "resolve_admission lib c q = Inr r" "aq_mode q \<noteq> UNSIGNED"
  shows "\<exists>i. cap_id lib c = Inr i \<and> re_capsule_id r = Some i \<and> re_authenticity r = AUTHENTICITY_SIGNED \<and> re_verified_envelopes r \<noteq> [] \<and>
    re_verified_envelopes r = filter (\<lambda>e. envelope_verifies lib i e = Inr True) (candidate_envelopes c q)"
  using assms by (auto simp: resolve_admission_def res_simps split: if_splits dest!: filterR_sound)

lemma resolve_unsigned:
  "aq_mode q = UNSIGNED \<Longrightarrow> resolve_admission lib c q =
     Inr \<lparr>re_authenticity = AUTHENTICITY_UNSIGNED, re_verified_envelopes = [], re_capsule_id = None\<rparr>"
  by (simp add: resolve_admission_def)

text \<open>What the contract asks of an envelope, without the way the code gets there: both texts are
  hexadecimal, and the verifier accepts the envelope over the identity under the very key it names. The
  verifier may also fail with an exception that \<^verbatim>\<open>_verifies\<close> does not catch.\<close>

definition envelope_good :: "CapsuleLib \<Rightarrow> pytext \<Rightarrow> ProducerEnvelope \<Rightarrow> bool" where
  "envelope_good lib i e =
     (case (fromhex_text (pe_envelope e), fromhex_text (pe_key_id e)) of
        (Inr cose, Inr key) \<Rightarrow> cap_envelope lib i cose = Inr (True, key)
      | _ \<Rightarrow> False)"

definition verifier_error :: "CapsuleLib \<Rightarrow> pytext \<Rightarrow> ProducerEnvelope \<Rightarrow> py_error option" where
  "verifier_error lib i e =
     (case fromhex_text (pe_envelope e) of
        Inl _ \<Rightarrow> None
      | Inr cose \<Rightarrow> (case cap_envelope lib i cose of
            Inl err \<Rightarrow> if err = ValueError \<or> err = TypeError then None else Some err
          | Inr _ \<Rightarrow> None))"

lemma from_hex_error: "from_hex t = Inl e \<Longrightarrow> e = ValueError"
  by (induction t rule: from_hex.induct) (auto simp: bindR_eq_Inl split: if_splits option.splits)

lemma fromhex_text_error: "fromhex_text t = Inl err \<Longrightarrow> err = ValueError"
  by (auto simp: fromhex_text_def from_hex_error split: if_splits)

lemma envelope_verifies_eq:
  "envelope_verifies lib i e =
     (case verifier_error lib i e of Some err \<Rightarrow> Inl err | None \<Rightarrow> Inr (envelope_good lib i e))"
  by (auto simp: envelope_verifies_def or_refused_def check_envelope_def envelope_good_def verifier_error_def res_simps
      dest: fromhex_text_error split: sum.splits)

lemma filterR_eq_Inr:
  "filterR (envelope_verifies lib i) es = Inr kept \<longleftrightarrow>
     list_all (\<lambda>e. verifier_error lib i e = None) es \<and> kept = filter (envelope_good lib i) es"
  by (induction es arbitrary: kept) (auto simp: res_simps envelope_verifies_eq split: option.splits)

lemma filterR_eq_Inl:
  "filterR (envelope_verifies lib i) es = Inl err \<longleftrightarrow>
     (\<exists>e. List.find (\<lambda>e. verifier_error lib i e \<noteq> None) es = Some e \<and> verifier_error lib i e = Some err)"
proof (induction es)
  case (Cons x es)
  show ?case
  proof (cases "verifier_error lib i x")
    case None
    then have "filterR (envelope_verifies lib i) (x # es) = Inl err \<longleftrightarrow> filterR (envelope_verifies lib i) es = Inl err"
      by (auto simp: envelope_verifies_eq bindR_eq_Inl)
    with Cons.IH None show ?thesis by simp
  next
    case (Some y)
    then show ?thesis by (simp add: envelope_verifies_eq)
  qed
qed simp

text \<open>
  C39. The admission contract, completely. A request is admitted with a resolution exactly when: it is
  declared unsigned, and then it is unsigned with no envelope, whatever the capsule carries; or it is declared
  signed, its identity is recomputed, and at least one offered envelope is good over that identity, and
  then it is signed, under the recomputed identity, with exactly the good envelopes in the order they were
  offered. It is refused exactly when it is declared signed and the identity cannot be computed, nothing
  is offered (\<^verbatim>\<open>envelope_missing\<close>), no offered envelope is good (\<^verbatim>\<open>envelope_invalid\<close>), or the verifier
  itself fails at the first envelope with an uncaught exception. So taking the envelopes off a signed
  submission does not make it an unsigned one: it is refused.
\<close>

theorem admission_contract:
  "(resolve_admission lib c q = Inr r \<longleftrightarrow>
      (if aq_mode q = UNSIGNED
       then r = \<lparr>re_authenticity = AUTHENTICITY_UNSIGNED, re_verified_envelopes = [], re_capsule_id = None\<rparr>
       else \<exists>i. cap_id lib c = Inr i \<and>
         list_all (\<lambda>e. verifier_error lib i e = None) (candidate_envelopes c q) \<and>
         list_ex (envelope_good lib i) (candidate_envelopes c q) \<and>
         r = \<lparr>re_authenticity = AUTHENTICITY_SIGNED,
              re_verified_envelopes = filter (envelope_good lib i) (candidate_envelopes c q), re_capsule_id = Some i\<rparr>)) \<and>
   (resolve_admission lib c q = Inl err \<longleftrightarrow>
      aq_mode q \<noteq> UNSIGNED \<and>
      (cap_id lib c = Inl err \<or>
       (\<exists>i. cap_id lib c = Inr i \<and>
         (candidate_envelopes c q = [] \<and> err = AdmissionRejected ''envelope_missing'' \<or>
          candidate_envelopes c q \<noteq> [] \<and> list_all (\<lambda>e. verifier_error lib i e = None) (candidate_envelopes c q) \<and>
            \<not> list_ex (envelope_good lib i) (candidate_envelopes c q) \<and> err = AdmissionRejected ''envelope_invalid'' \<or>
          (\<exists>e. List.find (\<lambda>e. verifier_error lib i e \<noteq> None) (candidate_envelopes c q) = Some e \<and>
            verifier_error lib i e = Some err)))))"
proof (cases "aq_mode q = UNSIGNED")
  case True
  then show ?thesis by (auto simp: resolve_unsigned)
next
  case signed: False
  have kept: "filter p es = [] \<longleftrightarrow> \<not> list_ex p es" for p and es :: "ProducerEnvelope list"
    by (auto simp: filter_empty_conv list_ex_iff)
  show ?thesis
  proof (cases "cap_id lib c")
    case (Inl e)
    with signed show ?thesis by (auto simp: resolve_admission_def)
  next
    case (Inr i)
    show ?thesis
    proof (cases "filterR (envelope_verifies lib i) (candidate_envelopes c q)")
      case (Inl e)
      then have "candidate_envelopes c q \<noteq> []" by auto
      moreover from Inl have "\<not> list_all (\<lambda>e. verifier_error lib i e = None) (candidate_envelopes c q)"
        by (metis filterR_eq_Inr sum.distinct(1))
      ultimately show ?thesis
        using signed Inr Inl filterR_eq_Inl [of lib i "candidate_envelopes c q" err] by (auto simp: resolve_admission_def)
    next
      case ok: (Inr kept_list)
      then have "\<not> (\<exists>e. List.find (\<lambda>e. verifier_error lib i e \<noteq> None) (candidate_envelopes c q) = Some e \<and>
            verifier_error lib i e = Some err)"
        by (metis filterR_eq_Inl sum.distinct(1))
      then show ?thesis
        using signed Inr ok [unfolded filterR_eq_Inr] ok
        by (auto simp: resolve_admission_def kept list_ex_iff filter_empty_conv)
    qed
  qed
qed

text \<open>Reading a stored line back: the member the line carries, and the authenticity the segments alone give.\<close>

lemma reindex_authenticity_cases:
  "reindex_authenticity lib c = Inr a \<Longrightarrow> a = AUTHENTICITY_SIGNED \<or> a = AUTHENTICITY_UNSIGNED"
  by (auto simp: reindex_authenticity_def or_refused_def res_simps split: option.splits sum.splits if_splits)

lemma reindex_signed_iff:
  "reindex_authenticity lib c = Inr AUTHENTICITY_SIGNED \<longleftrightarrow>
     (\<exists>e i. embedded_envelope c = Some e \<and> cap_id lib c = Inr i \<and> check_envelope lib i e = Inr True)"
  by (auto simp: reindex_authenticity_def or_refused_def res_simps split: option.splits sum.splits if_splits)

end
