(* ===== verification/Ledger_Segments.thy ===== *)
theory Ledger_Segments
  imports Ledger_Records Bundle_Checks Log_Ledger
begin

text \<open>
  \<^verbatim>\<open>cll/ledger/segments.py\<close>: the manifest of a closed segment, the manifest of the store, their dictionaries, the
  offline verification of a segment, and \<^verbatim>\<open>MmrCheckpointer\<close>. The error texts of the verification are the
  constructors of \<open>segment_error\<close>.
\<close>

section \<open>Manifests\<close>

definition manifest_filename :: "pytext \<Rightarrow> int \<Rightarrow> pytext" where
  "manifest_filename log_id mmr_size = log_id @ text_of ''-'' @ dec_text mmr_size @ text_of ''.manifest.json''"

definition range_proof_to_dict :: "SeqRangeProof \<Rightarrow> json" where
  "range_proof_to_dict p = JObj
     [(text_of ''from_seq'', JInt (sp_from_seq p)), (text_of ''to_seq'', JInt (sp_to_seq p)), (text_of ''size'', JInt (sp_size p)),
      (text_of ''from_index'', JInt (sp_from_index p)), (text_of ''to_index'', JInt (sp_to_index p)),
      (text_of ''witness'', json_texts (sp_witness p))]"

definition int_member :: "(json \<Rightarrow> int res) \<Rightarrow> string \<Rightarrow> (pytext \<times> json) list \<Rightarrow> int res" where
  "int_member int_of_text name d = bindR (required KeyError name d) (py_int int_of_text)"

definition range_proof_from_dict :: "(json \<Rightarrow> int res) \<Rightarrow> json \<Rightarrow> SeqRangeProof res" where
  "range_proof_from_dict int_of_text value =
     bindR (as_object TypeError value) (\<lambda>d.
     bindR (int_member int_of_text ''from_seq'' d) (\<lambda>from_seq.
     bindR (int_member int_of_text ''to_seq'' d) (\<lambda>to_seq.
     bindR (int_member int_of_text ''size'' d) (\<lambda>sz.
     bindR (int_member int_of_text ''from_index'' d) (\<lambda>from_index.
     bindR (int_member int_of_text ''to_index'' d) (\<lambda>to_index.
     bindR (bindR (required KeyError ''witness'' d) texts_of_json) (\<lambda>witness.
     Inr \<lparr>sp_from_seq = from_seq, sp_to_seq = to_seq, sp_size = sz, sp_from_index = from_index, sp_to_index = to_index,
       sp_witness = witness\<rparr>)))))))"

record SegmentManifest =
  gm_log_id :: pytext
  gm_first_seq :: int
  gm_last_seq :: int
  gm_first_ts :: "pytext option"
  gm_last_ts :: "pytext option"
  gm_checkpoint_root :: pytext
  gm_mmr_size :: int
  gm_bytes :: int
  gm_record_count :: int
  gm_sha256_of_segment :: pytext
  gm_range_proof :: SeqRangeProof

definition json_opt :: "pytext option \<Rightarrow> json" where
  "json_opt v = (case v of None \<Rightarrow> JNull | Some t \<Rightarrow> JStr t)"

text \<open>\<^verbatim>\<open>d.get(name)\<close> of a text or nothing.\<close>

definition opt_text :: "json \<Rightarrow> pytext option res" where
  "opt_text v = (case v of JNull \<Rightarrow> Inr None | JStr t \<Rightarrow> Inr (Some t) | _ \<Rightarrow> Inl TypeError)"

definition segment_manifest_to_dict :: "SegmentManifest \<Rightarrow> json" where
  "segment_manifest_to_dict m = JObj
     [(text_of ''log_id'', JStr (gm_log_id m)), (text_of ''first_seq'', JInt (gm_first_seq m)), (text_of ''last_seq'', JInt (gm_last_seq m)),
      (text_of ''first_ts'', json_opt (gm_first_ts m)), (text_of ''last_ts'', json_opt (gm_last_ts m)),
      (text_of ''checkpoint_root'', JStr (gm_checkpoint_root m)), (text_of ''mmr_size'', JInt (gm_mmr_size m)),
      (text_of ''bytes'', JInt (gm_bytes m)), (text_of ''record_count'', JInt (gm_record_count m)),
      (text_of ''sha256_of_segment'', JStr (gm_sha256_of_segment m)), (text_of ''range_proof'', range_proof_to_dict (gm_range_proof m))]"

definition segment_manifest_from_dict :: "(json \<Rightarrow> int res) \<Rightarrow> json \<Rightarrow> SegmentManifest res" where
  "segment_manifest_from_dict int_of_text value =
     bindR (as_object AttributeError value) (\<lambda>d.
     bindR (case map_of d (text_of ''log_id'') of None \<Rightarrow> Inr [] | Some v \<Rightarrow> as_string TypeError v) (\<lambda>log_id.
     bindR (int_member int_of_text ''first_seq'' d) (\<lambda>first_seq.
     bindR (int_member int_of_text ''last_seq'' d) (\<lambda>last_seq.
     bindR (opt_text (member_or_null ''first_ts'' d)) (\<lambda>first_ts.
     bindR (opt_text (member_or_null ''last_ts'' d)) (\<lambda>last_ts.
     bindR (text_member ''checkpoint_root'' d) (\<lambda>root.
     bindR (int_member int_of_text ''mmr_size'' d) (\<lambda>mmr_size.
     bindR (int_member int_of_text ''bytes'' d) (\<lambda>len.
     bindR (int_member int_of_text ''record_count'' d) (\<lambda>record_count.
     bindR (text_member ''sha256_of_segment'' d) (\<lambda>sha.
     bindR (bindR (required KeyError ''range_proof'' d) (range_proof_from_dict int_of_text)) (\<lambda>p.
     Inr \<lparr>gm_log_id = log_id, gm_first_seq = first_seq, gm_last_seq = last_seq, gm_first_ts = first_ts, gm_last_ts = last_ts,
       gm_checkpoint_root = root, gm_mmr_size = mmr_size, gm_bytes = len, gm_record_count = record_count,
       gm_sha256_of_segment = sha, gm_range_proof = p\<rparr>))))))))))))"

record SegmentEntry =
  se_name :: pytext
  se_mounted :: bool
  se_manifest :: "pytext option"
  se_checkpoint_root :: "pytext option"
  se_mmr_size :: "int option"

definition segment_entry_to_dict :: "SegmentEntry \<Rightarrow> json" where
  "segment_entry_to_dict e = JObj
     [(text_of ''name'', JStr (se_name e)), (text_of ''mounted'', JBool (se_mounted e)), (text_of ''manifest'', json_opt (se_manifest e)),
      (text_of ''checkpoint_root'', json_opt (se_checkpoint_root e)),
      (text_of ''mmr_size'', case se_mmr_size e of None \<Rightarrow> JNull | Some n \<Rightarrow> JInt n)]"

definition segment_entry_from_dict :: "json \<Rightarrow> SegmentEntry res" where
  "segment_entry_from_dict value =
     bindR (as_object TypeError value) (\<lambda>d.
     bindR (text_member ''name'' d) (\<lambda>name.
     bindR (opt_text (member_or_null ''manifest'' d)) (\<lambda>manifest.
     bindR (opt_text (member_or_null ''checkpoint_root'' d)) (\<lambda>root.
     bindR (case member_or_null ''mmr_size'' d of JNull \<Rightarrow> Inr None | JInt n \<Rightarrow> Inr (Some n) | _ \<Rightarrow> Inl TypeError) (\<lambda>mmr_size.
     Inr \<lparr>se_name = name, se_mounted = (case map_of d (text_of ''mounted'') of None \<Rightarrow> True | Some v \<Rightarrow> py_bool v), se_manifest = manifest,
       se_checkpoint_root = root, se_mmr_size = mmr_size\<rparr>)))))"

record StoreManifest =
  sm_log_id :: pytext
  sm_active_segment :: "pytext option"
  sm_segments :: "SegmentEntry list"

definition store_manifest_to_dict :: "StoreManifest \<Rightarrow> json" where
  "store_manifest_to_dict m = JObj
     [(text_of ''log_id'', JStr (sm_log_id m)), (text_of ''active_segment'', json_opt (sm_active_segment m)),
      (text_of ''segments'', JArr (map segment_entry_to_dict (sm_segments m)))]"

definition store_manifest_from_dict :: "json \<Rightarrow> StoreManifest res" where
  "store_manifest_from_dict value =
     bindR (as_object AttributeError value) (\<lambda>d.
     bindR (case map_of d (text_of ''log_id'') of None \<Rightarrow> Inr [] | Some v \<Rightarrow> as_string TypeError v) (\<lambda>log_id.
     bindR (opt_text (member_or_null ''active_segment'' d)) (\<lambda>active.
     bindR (case map_of d (text_of ''segments'') of None \<Rightarrow> Inr []
            | Some v \<Rightarrow> bindR (as_list TypeError v) (mapR segment_entry_from_dict)) (\<lambda>segments.
     Inr \<lparr>sm_log_id = log_id, sm_active_segment = active, sm_segments = segments\<rparr>))))"

definition manifest_entry :: "StoreManifest \<Rightarrow> pytext \<Rightarrow> SegmentEntry option" where
  "manifest_entry m name = List.find (\<lambda>s. se_name s = name) (sm_segments m)"

text \<open>An attribute of the entry of that name is set.\<close>

fun update_entry :: "pytext \<Rightarrow> (SegmentEntry \<Rightarrow> SegmentEntry) \<Rightarrow> SegmentEntry list \<Rightarrow> SegmentEntry list" where
  "update_entry name f [] = []"
| "update_entry name f (e # es) = (if se_name e = name then f e # es else e # update_entry name f es)"

section \<open>Verifying a segment\<close>

datatype segment_error = DigestMismatch | CountMismatch | WidthMismatch | RangeProofFails | SegmentUnreadable
  | NoSuchSegment | NotClosed | ManifestMissing | SegmentFileMissing

text \<open>\<^verbatim>\<open>str.splitlines\<close>: the line boundaries of Python; the flag says that the last one was a CR, which a
  following LF belongs to.\<close>

definition line_break :: "nat \<Rightarrow> bool" where
  "line_break c \<longleftrightarrow> c \<in> {10, 11, 12, 13, 28, 29, 30, 133, 8232, 8233}"

fun split_lines :: "bool \<Rightarrow> pytext \<Rightarrow> pytext \<Rightarrow> pytext list" where
  "split_lines cr cur [] = (if cur = [] then [] else [cur])"
| "split_lines cr cur (c # cs) =
     (if cr \<and> c = 10 then split_lines False cur cs
      else if line_break c then cur # split_lines (c = 13) [] cs
      else split_lines False (cur @ [c]) cs)"

text \<open>A line as \<^verbatim>\<open>append\<close> writes it.\<close>

definition line_bytes :: "capsule \<Rightarrow> bytes" where
  "line_bytes c = ascii_bytes (print_ascii (JObj c)) @ [10]"

definition record_digest :: "CapsuleLib \<Rightarrow> pytext \<Rightarrow> pytext \<Rightarrow> bytes res" where
  "record_digest lib id_field line =
     (case parse_json line of
        Some (JObj c) \<Rightarrow>
          bindR (case map_of c id_field of
                   Some v \<Rightarrow> if py_bool v then Inr v else bindR (cap_id lib c) (\<lambda>t. Inr (JStr t))
                 | None \<Rightarrow> bindR (cap_id lib c) (\<lambda>t. Inr (JStr t))) (\<lambda>v.
          bindR (as_string TypeError v) fromhex_text)
      | _ \<Rightarrow> Inl ValueError)"

text \<open>The lines of the file that are not blank.\<close>

definition segment_lines :: "bytes \<Rightarrow> pytext list option" where
  "segment_lines segment_bytes =
     map_option (\<lambda>t. filter (\<lambda>line. \<not> list_all py_space line) (split_lines False [] t)) (utf8_decode (map unat segment_bytes))"

definition verify_segment :: "CapsuleLib \<Rightarrow> pytext \<Rightarrow> bytes \<Rightarrow> SegmentManifest \<Rightarrow> bool \<times> segment_error list" where
  "verify_segment lib id_field segment_bytes m =
     (if hex_text (sha256 segment_bytes) \<noteq> gm_sha256_of_segment m then (False, [DigestMismatch])
      else case segment_lines segment_bytes of
        None \<Rightarrow> (False, [SegmentUnreadable])
      | Some lines \<Rightarrow>
          if int (length lines) \<noteq> gm_record_count m then (False, [CountMismatch])
          else if gm_last_seq m - gm_first_seq m + 1 \<noteq> gm_record_count m then (False, [WidthMismatch])
          else
            (case (mapR (record_digest lib id_field) lines, fromhex_text (gm_checkpoint_root m)) of
               (Inr body_digests, Inr root) \<Rightarrow>
                 if verify_seq_range root (gm_first_seq m) (gm_last_seq m) body_digests (Some (gm_range_proof m)) then (True, [])
                 else (False, [RangeProofFails])
             | _ \<Rightarrow> (False, [SegmentUnreadable])))"

section \<open>The checkpointer\<close>

record 'l MmrCheckpointer =
  mc_mmr :: "'l MmrLedger"
  mc_signer :: Signer
  mc_log_id :: pytext
  mc_prev :: "CheckpointRecord option"

text \<open>\<^verbatim>\<open>records\<close> is what the scan of the log gives; \<^verbatim>\<open>mmr.sync()\<close> consumes it.\<close>

definition mc_checkpoint :: "nat \<Rightarrow> IndexedRecord list res \<Rightarrow> 'l MmrCheckpointer \<Rightarrow> (pytext \<times> int) res \<times> 'l MmrCheckpointer" where
  "mc_checkpoint now records mc =
     (case records of
        Inl e \<Rightarrow> (Inl e, mc)
      | Inr recs \<Rightarrow>
          (case ml_sync (\<lambda>_. recs) (mc_mmr mc) of
             (Inl e, mmr) \<Rightarrow> (Inl e, mc\<lparr>mc_mmr := mmr\<rparr>)
           | (Inr _, mmr) \<Rightarrow>
               (case emit_checkpoint mmr (mc_signer mc) (mc_log_id mc) (mc_prev mc) None now of
                  Inl e \<Rightarrow> (Inl e, mc\<lparr>mc_mmr := mmr\<rparr>)
                | Inr cp \<Rightarrow> (Inr (ck_root cp, ck_mmr_size cp), mc\<lparr>mc_mmr := mmr, mc_prev := Some cp\<rparr>))))"

definition mc_range_proof :: "'l MmrCheckpointer \<Rightarrow> int \<Rightarrow> int \<Rightarrow> SeqRangeProof res" where
  "mc_range_proof mc from_seq to_seq = ml_range_proof (mc_mmr mc) from_seq to_seq"

section \<open>Manifests are read back\<close>

lemma ascii_text_id [simp]: "ascii_string (text_of t) = t"
proof -
  have "of_char c < (256 :: nat)" for c by simp
  then show ?thesis by (simp add: ascii_string_def text_of_def o_def)
qed

lemma witness_texts [simp]: "texts_of_json (json_texts ts) = Inr ts"
  by (simp add: texts_of_json_def json_texts_def as_list_def) (induction ts, simp_all add: as_string_def)

lemmas dict_access = member_access text_member_def int_member_def member_or_null_def opt_text_def json_opt_def

lemma range_dict_roundtrip [simp]: "range_proof_from_dict f (range_proof_to_dict p) = Inr p"
  by (simp add: range_proof_from_dict_def range_proof_to_dict_def dict_access)

lemma entry_dict_roundtrip [simp]: "segment_entry_from_dict (segment_entry_to_dict e) = Inr e"
  by (cases e) (simp add: segment_entry_from_dict_def segment_entry_to_dict_def dict_access split: option.split)

lemma store_dict_roundtrip [simp]: "store_manifest_from_dict (store_manifest_to_dict m) = Inr m"
proof -
  have "mapR segment_entry_from_dict (map segment_entry_to_dict es) = Inr es" for es by (induction es) simp_all
  then show ?thesis
    by (cases m) (simp add: store_manifest_from_dict_def store_manifest_to_dict_def dict_access split: option.split)
qed

lemma segment_dict_roundtrip [simp]: "segment_manifest_from_dict f (segment_manifest_to_dict m) = Inr m"
  by (cases m) (simp add: segment_manifest_from_dict_def segment_manifest_to_dict_def dict_access split: option.split)

section \<open>Lines\<close>

definition capsule_ok :: "capsule \<Rightarrow> bool" where
  "capsule_ok c \<longleftrightarrow> json_ok (JObj c) \<and> strings_ok scalar_text (JObj c)"

lemma u_escape_low: "x \<in> set (u_escape n) \<Longrightarrow> 32 \<le> x"
  by (auto simp: u_escape_def hex_code_def)

lemma escape_ascii_low: "x \<in> set (escape_ascii c) \<Longrightarrow> 32 \<le> x"
  using set_escape [of x c] u_escape_low by (auto simp: escape_ascii_def split: if_splits)

lemma string_ascii_low: "x \<in> set (print_string_with escape_ascii s) \<Longrightarrow> 32 \<le> x"
  using escape_ascii_low by (auto simp: print_string_with_def)

lemma print_ascii_low: "json_ok v \<Longrightarrow> x \<in> set (print_ascii v) \<Longrightarrow> 32 \<le> x"
proof (induction v arbitrary: x)
  case (JInt n)
  then show ?case
    using dec_nat_digits [of "nat n"] dec_nat_digits [of "nat (- n)"]
    by (auto simp: dec_text_def list_all_iff is_digit_def split: if_splits)
next
  case (JArr vs)
  then show ?case by (fastforce simp: list_all_iff dest!: set_join_comma)
next
  case (JObj ms)
  then show ?case using string_ascii_low by (fastforce simp: list_all_iff dest!: set_join_comma)
qed (auto simp: text_of_def string_ascii_low split: if_splits)

definition line_text :: "capsule \<Rightarrow> pytext" where
  "line_text c = print_ascii (JObj c)"

lemma line_chars: "capsule_ok c \<Longrightarrow> x \<in> set (line_text c) \<Longrightarrow> 32 \<le> x \<and> x < 128"
  using print_ascii_low print_ascii_chars unfolding capsule_ok_def line_text_def by blast

lemma ascii_unat: "list_all (\<lambda>x. x < 128) t \<Longrightarrow> map unat (ascii_bytes t) = t"
  by (induction t) (simp_all add: ascii_bytes_def unat_of_nat take_bit_eq_mod)

lemma line_unat: "capsule_ok c \<Longrightarrow> map unat (line_bytes c) = line_text c @ [10]"
  using line_chars [of c] ascii_unat [of "line_text c"] by (simp add: line_bytes_def line_text_def list_all_iff)

lemma line_text_hd: "\<exists>cs. line_text c = 123 # cs"
  by (simp add: line_text_def)

lemma parse_line_ws:
  assumes "capsule_ok c" "list_all json_space ws"
  shows "parse_json (line_text c @ ws) = Some (JObj c)"
proof -
  let ?s = "line_text c @ ws"
  obtain cs where cs: "line_text c = 123 # cs" using line_text_hd by blast
  have skip: "skip_ws ?s = ?s" "take 1 ?s \<noteq> [65279]" by (simp_all add: cs json_space_def)
  have ne: "num_end ws" using assms(2) by (cases ws) (auto simp: num_end_def json_space_def is_digit_def)
  have "parse_value (2 * length ?s + 2) ?s = Some (JObj c, ws)"
    using assms(1) ne unfolding capsule_ok_def line_text_def by (intro ascii.parse_print_value) auto
  moreover have "skip_ws ws = []" using assms(2) by (induction ws) (simp_all add: skip_ws_def)
  ultimately show ?thesis using skip by (simp add: parse_json_def)
qed

lemma utf8_decode_ascii: "list_all (\<lambda>x. x < 128) t \<Longrightarrow> utf8_decode t = Some t"
  by (induction t) simp_all

lemma split_lines_line:
  "list_all (\<lambda>x. \<not> line_break x) t \<Longrightarrow> split_lines False cur (t @ 10 # r) = (cur @ t) # split_lines False [] r"
proof (induction t arbitrary: cur)
  case Nil
  then show ?case by (simp add: line_break_def)
qed simp

lemma line_plain:
  assumes "capsule_ok c"
  shows "list_all (\<lambda>x. \<not> line_break x) (line_text c)" "\<not> list_all py_space (line_text c)" "list_all (\<lambda>x. x < 128) (line_text c)"
proof -
  have "\<not> line_break x" if "x \<in> set (line_text c)" for x
    using line_chars [OF assms that] by (auto simp: line_break_def)
  then show "list_all (\<lambda>x. \<not> line_break x) (line_text c)" by (simp add: list_all_iff)
  show "\<not> list_all py_space (line_text c)" using line_text_hd [of c] by (auto simp: py_space_def)
  show "list_all (\<lambda>x. x < 128) (line_text c)" using line_chars [OF assms] by (auto simp: list_all_iff)
qed

definition lines_bytes :: "capsule list \<Rightarrow> bytes" where
  "lines_bytes cs = concat (map line_bytes cs)"

lemma lines_unat: "list_all capsule_ok cs \<Longrightarrow> map unat (lines_bytes cs) = concat (map (\<lambda>c. line_text c @ [10]) cs)"
  by (induction cs) (simp_all add: lines_bytes_def line_unat)

lemma segment_lines_written: "list_all capsule_ok cs \<Longrightarrow> segment_lines (lines_bytes cs) = Some (map line_text cs)"
proof -
  assume cs: "list_all capsule_ok cs"
  let ?t = "concat (map (\<lambda>c. line_text c @ [10]) cs)"
  have "list_all (\<lambda>x. x < 128) ?t" using cs by (induction cs) (simp_all add: line_plain)
  moreover have "split_lines False [] ?t = map line_text cs" using cs by (induction cs) (simp_all add: split_lines_line line_plain)
  moreover have "filter (\<lambda>line. \<not> list_all py_space line) (map line_text cs) = map line_text cs"
    using cs by (induction cs) (simp_all add: line_plain)
  ultimately show ?thesis by (simp add: segment_lines_def lines_unat [OF cs] utf8_decode_ascii)
qed

text \<open>The identity of a stored record, as bytes: what \<^verbatim>\<open>verify_segment\<close> reads of its line.\<close>

definition capsule_digest :: "CapsuleLib \<Rightarrow> capsule \<Rightarrow> bytes res" where
  "capsule_digest lib c = bindR (carried_id lib c) (\<lambda>v. bindR (as_string TypeError v) fromhex_text)"

lemma record_digest_line: "capsule_ok c \<Longrightarrow> record_digest lib (text_of ''capsule_id'') (line_text c) = capsule_digest lib c"
  using parse_line_ws [of c "[]"] by (simp add: record_digest_def capsule_digest_def carried_id_def)

lemma verify_segmentD:
  assumes "verify_segment lib f b m = (True, errors)"
  obtains lines ds root where "gm_sha256_of_segment m = hex_text (sha256 b)" "segment_lines b = Some lines" "errors = []"
    "int (length lines) = gm_record_count m" "gm_last_seq m - gm_first_seq m + 1 = gm_record_count m"
    "mapR (record_digest lib f) lines = Inr ds" "fromhex_text (gm_checkpoint_root m) = Inr root"
    "verify_seq_range root (gm_first_seq m) (gm_last_seq m) ds (Some (gm_range_proof m))"
  using assms by (auto simp: verify_segment_def split: if_splits option.splits sum.splits)

lemma verify_segment_written:
  assumes "list_all capsule_ok cs" "gm_sha256_of_segment m = hex_text (sha256 (lines_bytes cs))"
    "int (length cs) = gm_record_count m" "gm_last_seq m - gm_first_seq m + 1 = gm_record_count m"
    "mapR (capsule_digest lib) cs = Inr ds" "fromhex_text (gm_checkpoint_root m) = Inr root"
  shows "verify_segment lib (text_of ''capsule_id'') (lines_bytes cs) m =
    (if verify_seq_range root (gm_first_seq m) (gm_last_seq m) ds (Some (gm_range_proof m)) then (True, []) else (False, [RangeProofFails]))"
proof -
  have "mapR (record_digest lib (text_of ''capsule_id'')) (map line_text cs) = Inr ds"
    using assms(1,5) by (induction cs arbitrary: ds) (auto simp: record_digest_line res_simps)
  then show ?thesis using assms by (simp add: verify_segment_def segment_lines_written)
qed

end
