(* ===== verification/Ledger_Lookup.thy ===== *)
theory Ledger_Lookup
  imports Ledger_Records
begin

text \<open>
  \<^verbatim>\<open>cll/ledger/lookup.py\<close>: the derived lookup index \<^verbatim>\<open>index.sqlite\<close>, its two tables, the rows written for a
  record and the four queries. The table of records is kept in the order of its integer key. A text that is not
  valid Unicode is refused when it is bound to a statement; what was written before it in the same call stays
  visible in the connection.
\<close>

record LookupRow =
  lk_seq :: int
  lk_ts :: "pytext option"
  lk_digest :: pytext
  lk_segment :: pytext
  lk_offset :: nat

record LookupTables =
  lt_records :: "LookupRow list"
  lt_correlations :: "(pytext \<times> int) list"

definition empty_tables :: LookupTables where
  "empty_tables = \<lparr>lt_records = [], lt_correlations = []\<rparr>"

section \<open>Correlation ids\<close>

fun split_dots :: "pytext \<Rightarrow> pytext \<Rightarrow> pytext list" where
  "split_dots cur [] = [cur]"
| "split_dots cur (c # cs) = (if c = 46 then cur # split_dots [] cs else split_dots (cur @ [c]) cs)"

fun path_value :: "pytext list \<Rightarrow> json option \<Rightarrow> json option" where
  "path_value [] v = v"
| "path_value (p # ps) v = (case v of Some (JObj ms) \<Rightarrow> path_value ps (map_of ms p) | _ \<Rightarrow> None)"

definition strings_of :: "json list \<Rightarrow> pytext list" where
  "strings_of vs = concat (map (\<lambda>v. case v of JStr s \<Rightarrow> [s] | _ \<Rightarrow> []) vs)"

definition field_ids :: "capsule \<Rightarrow> pytext \<Rightarrow> pytext list" where
  "field_ids rec name =
     (case path_value (split_dots [] name) (Some (JObj rec)) of
        Some (JStr s) \<Rightarrow> [s] | Some (JArr vs) \<Rightarrow> strings_of vs | _ \<Rightarrow> [])"

definition extract_correlation_ids :: "capsule \<Rightarrow> pytext list \<Rightarrow> pytext list" where
  "extract_correlation_ids rec correlation_fields = concat (map (field_ids rec) correlation_fields)"

section \<open>Writing\<close>

definition bind_text :: "pytext \<Rightarrow> pytext res" where
  "bind_text t = (if utf8_encode t = None then Inl ValueError else Inr t)"

definition bind_int :: "int \<Rightarrow> int res" where
  "bind_int n = (if - (2 ^ 63) \<le> n \<and> n < 2 ^ 63 then Inr n else Inl OverflowError)"

definition lookup_row :: "CapsuleLib \<Rightarrow> int \<Rightarrow> json option \<Rightarrow> pytext \<Rightarrow> pytext \<Rightarrow> nat \<Rightarrow> LookupRow res" where
  "lookup_row lib seq ts digest segment offset =
     bindR (text_column lib ts) (\<lambda>ts.
     bindR (bind_text digest) (\<lambda>digest.
     Inr \<lparr>lk_seq = seq, lk_ts = ts, lk_digest = digest, lk_segment = segment, lk_offset = offset\<rparr>))"

fun insert_correlations :: "int \<Rightarrow> pytext list \<Rightarrow> (pytext \<times> int) list \<Rightarrow> unit res \<times> (pytext \<times> int) list" where
  "insert_correlations seq [] cs = (Inr (), cs)"
| "insert_correlations seq (i # is) cs =
     (case bind_text i of Inl e \<Rightarrow> (Inl e, cs) | Inr i \<Rightarrow> insert_correlations seq is (cs @ [(i, seq)]))"

text \<open>\<^verbatim>\<open>INSERT OR REPLACE\<close> of the row, and the correlation rows of its record anew.\<close>

definition put_row :: "LookupRow \<Rightarrow> LookupRow list \<Rightarrow> LookupRow list" where
  "put_row r rs = insort_key lk_seq r (filter (\<lambda>x. lk_seq x \<noteq> lk_seq r) rs)"

definition li_record ::
  "CapsuleLib \<Rightarrow> pytext list \<Rightarrow> int \<Rightarrow> json option \<Rightarrow> pytext \<Rightarrow> pytext \<Rightarrow> nat \<Rightarrow> capsule \<Rightarrow> LookupTables \<Rightarrow>
   unit res \<times> LookupTables" where
  "li_record lib cfields seq ts digest segment offset c t =
     (case lookup_row lib seq ts digest segment offset of
        Inl e \<Rightarrow> (Inl e, t)
      | Inr row \<Rightarrow>
          let (r, cs) = insert_correlations seq (extract_correlation_ids c cfields) (filter (\<lambda>(_, s). s \<noteq> seq) (lt_correlations t)) in
          (r, \<lparr>lt_records = put_row row (lt_records t), lt_correlations = cs\<rparr>))"

definition seqs_summary :: "LookupTables \<Rightarrow> nat \<times> int" where
  "seqs_summary t = (length (lt_records t), fold max (map lk_seq (lt_records t)) 0)"

definition li_seqs :: "LookupTables \<Rightarrow> int list" where
  "li_seqs t = map lk_seq (lt_records t)"

text \<open>\<^verbatim>\<open>rebuild\<close>: one row after the other into empty tables; the sequence numbers are distinct.\<close>

fun rebuild_rows ::
  "CapsuleLib \<Rightarrow> pytext list \<Rightarrow> (int \<times> json option \<times> pytext \<times> pytext \<times> nat \<times> capsule) list \<Rightarrow> LookupTables \<Rightarrow> unit res \<times> LookupTables" where
  "rebuild_rows lib cfields [] t = (Inr (), t)"
| "rebuild_rows lib cfields ((seq, ts, digest, segment, offset, c) # rows) t =
     (case li_record lib cfields seq ts digest segment offset c t of
        (Inl e, t) \<Rightarrow> (Inl e, t) | (Inr _, t) \<Rightarrow> rebuild_rows lib cfields rows t)"

section \<open>Queries\<close>

definition optional_bind :: "pytext option \<Rightarrow> pytext option res" where
  "optional_bind v = (case v of None \<Rightarrow> Inr None | Some t \<Rightarrow> bindR (bind_text t) (\<lambda>t. Inr (Some t)))"

text \<open>A comparison with NULL does not hold.\<close>

definition ts_within :: "pytext option \<Rightarrow> pytext option \<Rightarrow> pytext option \<Rightarrow> bool" where
  "ts_within start stop ts \<longleftrightarrow>
     (case start of None \<Rightarrow> True | Some s \<Rightarrow> (case ts of None \<Rightarrow> False | Some t \<Rightarrow> s \<le> t)) \<and>
     (case stop of None \<Rightarrow> True | Some e \<Rightarrow> (case ts of None \<Rightarrow> False | Some t \<Rightarrow> t \<le> e))"

definition li_by_time :: "LookupTables \<Rightarrow> pytext option \<Rightarrow> pytext option \<Rightarrow> LookupRow list res" where
  "li_by_time t start stop =
     bindR (optional_bind start) (\<lambda>start. bindR (optional_bind stop) (\<lambda>stop.
     Inr (filter (\<lambda>r. ts_within start stop (lk_ts r)) (lt_records t))))"

definition li_by_digest :: "LookupTables \<Rightarrow> pytext \<Rightarrow> LookupRow option res" where
  "li_by_digest t wanted = bindR (bind_text wanted) (\<lambda>d. Inr (List.find (\<lambda>r. lk_digest r = d) (lt_records t)))"

text \<open>A join: a row is returned once for each of its matching correlation rows.\<close>

definition li_by_correlation :: "LookupTables \<Rightarrow> pytext \<Rightarrow> LookupRow list res" where
  "li_by_correlation t i =
     bindR (bind_text i) (\<lambda>i.
     Inr (concat (map (\<lambda>r. map (\<lambda>_. r) (filter (\<lambda>c. c = (i, lk_seq r)) (lt_correlations t))) (lt_records t))))"

definition li_by_seq_range :: "LookupTables \<Rightarrow> int \<Rightarrow> int \<Rightarrow> LookupRow list res" where
  "li_by_seq_range t lo hi =
     bindR (bind_int lo) (\<lambda>lo. bindR (bind_int hi) (\<lambda>hi.
     Inr (filter (\<lambda>r. lo \<le> lk_seq r \<and> lk_seq r \<le> hi) (lt_records t))))"

end
