(* ===== verification/Ledger_Reads.thy ===== *)
theory Ledger_Reads
  imports Ledger_Segments Ledger_Lookup
begin

text \<open>
  The state of \<^verbatim>\<open>LedgerStore\<close> (\<^verbatim>\<open>cll/ledger/store.py\<close>), on disk and in the instance, and its read path: a row
  turned into a record, \<^verbatim>\<open>scan\<close>, \<^verbatim>\<open>fetch\<close>, \<^verbatim>\<open>find_gaps\<close>, and the lookups with their fall back to a scan.
\<close>

section \<open>The state\<close>

text \<open>
  \<open>dk_files\<close> is the directory \<^verbatim>\<open>segments/\<close> (the files \<^verbatim>\<open>seg-*.jsonl\<close>), \<open>dk_archived\<close> its \<^verbatim>\<open>.archived\<close>,
  \<open>dk_seg_manifests\<close> the segment manifests beside the segments, \<open>dk_rows\<close> the table of \<^verbatim>\<open>index.sqlite3\<close> in the
  order of its key, and \<open>dk_lookup\<close> \<^verbatim>\<open>index.sqlite\<close>, none when SQLite cannot read it.
\<close>

record Disk =
  dk_files :: "(pytext \<times> bytes) list"
  dk_archived :: "(pytext \<times> bytes) list"
  dk_manifest :: "json option"
  dk_seg_manifests :: "(pytext \<times> json) list"
  dk_rows :: "Row list"
  dk_lookup :: "LookupTables option"
  dk_lookup_config :: "json option"

text \<open>\<open>st_managed\<close> is \<^verbatim>\<open>rotate_at_checkpoint\<close>; \<open>st_manifest\<close> is there when it holds.\<close>

record 'c Store =
  st_disk :: Disk
  st_managed :: bool
  st_manifest :: StoreManifest
  st_read_only :: bool
  st_log_id :: pytext
  st_max_records :: int
  st_max_bytes :: int
  st_fields :: "pytext list"
  st_lookup_on :: bool
  st_write_segment :: "pytext option"
  st_needs_recover :: bool
  st_checkpointer :: "'c option"

text \<open>
  What the store is given: the capsule library; the checkpointer it calls, on the records its scan of the store
  gives; \<^verbatim>\<open>readline\<close> of a text handle at an offset of a file that is not all ASCII lines ended by LF; the text of
  bytes \<^verbatim>\<open>json.loads\<close> takes for another encoding than UTF-8; the names the file system refuses; and
  \<^verbatim>\<open>datetime.fromisoformat\<close>, as local microseconds and whether there is an offset, which differs between versions
  of Python.
\<close>

record 'c StoreEnv =
  env_lib :: CapsuleLib
  env_checkpoint :: "StoredRecord list res \<Rightarrow> 'c \<Rightarrow> (pytext \<times> int) res \<times> 'c"
  env_range_proof :: "'c \<Rightarrow> int \<Rightarrow> int \<Rightarrow> SeqRangeProof res"
  env_text_line :: "bytes \<Rightarrow> nat \<Rightarrow> pytext res"
  env_decode :: "bytes \<Rightarrow> pytext option"
  env_name_error :: "pytext \<Rightarrow> py_error option"
  env_fromiso :: "pytext \<Rightarrow> (int \<times> bool) option"

section \<open>Segments and their lines\<close>

definition entry_of :: "'c Store \<Rightarrow> pytext \<Rightarrow> SegmentEntry option" where
  "entry_of st segment = (if st_managed st then manifest_entry (st_manifest st) segment else None)"

definition unmounted :: "'c Store \<Rightarrow> pytext \<Rightarrow> bool" where
  "unmounted st segment = (case entry_of st segment of None \<Rightarrow> False | Some e \<Rightarrow> \<not> se_mounted e)"

text \<open>The file \<^verbatim>\<open>_resolve_segment_path\<close> names, if it exists.\<close>

definition segment_file :: "'c Store \<Rightarrow> pytext \<Rightarrow> bytes option" where
  "segment_file st segment = map_of (if unmounted st segment then dk_archived (st_disk st) else dk_files (st_disk st)) segment"

definition require_mounted :: "'c Store \<Rightarrow> pytext \<Rightarrow> unit res" where
  "require_mounted st segment = (if unmounted st segment then Inl SegmentUnmounted else Inr ())"

definition plain_byte :: "byte \<Rightarrow> bool" where
  "plain_byte b \<longleftrightarrow> b < 128 \<and> b \<noteq> 13"

text \<open>\<^verbatim>\<open>fh.seek(offset); fh.readline()\<close>\<close>

definition line_at :: "bytes \<Rightarrow> nat \<Rightarrow> bytes" where
  "line_at content offset = (let rest = drop offset content in takeWhile (\<lambda>b. b \<noteq> 10) rest @ take 1 (dropWhile (\<lambda>b. b \<noteq> 10) rest))"

definition text_line_at :: "'c StoreEnv \<Rightarrow> bytes \<Rightarrow> nat \<Rightarrow> pytext res" where
  "text_line_at env content offset =
     (if list_all plain_byte content then Inr (map unat (line_at content offset)) else env_text_line env content offset)"

definition read_json :: "'c StoreEnv \<Rightarrow> 'c Store \<Rightarrow> pytext \<Rightarrow> nat \<Rightarrow> json res" where
  "read_json env st segment offset =
     bindR (require_mounted st segment) (\<lambda>_.
     case segment_file st segment of
       None \<Rightarrow> Inl OSError
     | Some content \<Rightarrow>
         bindR (text_line_at env content offset) (\<lambda>line.
         case parse_json line of None \<Rightarrow> Inl ValueError | Some v \<Rightarrow> Inr v))"

definition row_to_record :: "'c StoreEnv \<Rightarrow> 'c Store \<Rightarrow> Row \<Rightarrow> StoredRecord res" where
  "row_to_record env st row =
     bindR (read_json env st (rw_segment row) (rw_offset row)) (\<lambda>v.
     bindR (case v of JObj c \<Rightarrow> Inr (bundled_envelopes c (rw_authenticity row))
            | _ \<Rightarrow> if rw_authenticity row = AUTHENTICITY_SIGNED then Inl AttributeError else Inr []) (\<lambda>envelopes.
     Inr \<lparr>sr_seq = rw_seq row, sr_capsule_id = rw_capsule_id row, sr_capsule = v, sr_segment = rw_segment row,
       sr_consequential = rw_consequential row, sr_authenticity = rw_authenticity row, sr_envelopes = envelopes\<rparr>))"

definition record_row :: "'c Store \<Rightarrow> pytext \<Rightarrow> Row option res" where
  "record_row st capsule_id =
     bindR (bind_text capsule_id) (\<lambda>i. Inr (List.find (\<lambda>r. rw_capsule_id r = i) (dk_rows (st_disk st))))"

definition existing_record :: "'c StoreEnv \<Rightarrow> 'c Store \<Rightarrow> Row \<Rightarrow> StoredRecord option res" where
  "existing_record env st row =
     (case row_to_record env st row of
        Inl e \<Rightarrow> if e = SegmentUnmounted then Inr None else Inl e
      | Inr r \<Rightarrow> Inr (Some r))"

section \<open>Scanning\<close>

record ScanQuery =
  sq_agent :: "pytext option"
  sq_since :: "pytext option"
  sq_until :: "pytext option"
  sq_counterparty :: "pytext option"
  sq_verdict :: "pytext option"
  sq_action_type :: "pytext option"
  sq_limit :: "int option"

definition whole_scan :: ScanQuery where
  "whole_scan = \<lparr>sq_agent = None, sq_since = None, sq_until = None, sq_counterparty = None, sq_verdict = None,
     sq_action_type = None, sq_limit = None\<rparr>"

text \<open>\<^verbatim>\<open>_instant(value, zoneless_is_utc=True)\<close>: the local time in microseconds since year 1, and the offset in
  minutes.\<close>

definition local_instant :: "pytext \<Rightarrow> (int \<times> int) option" where
  "local_instant value =
     (let s = strip value in
      case match_clock (take 19 s) of
        None \<Rightarrow> None
      | Some (y, mo, d, h, mi, sec) \<Rightarrow>
          (case match_fraction (drop 19 s) of
             None \<Rightarrow> None
           | Some (fraction, zone) \<Rightarrow>
               (case match_offset zone of
                  None \<Rightarrow> None
                | Some off \<Rightarrow>
                    if 1 \<le> y \<and> y \<le> 9999 \<and> 1 \<le> mo \<and> mo \<le> 12 \<and> 1 \<le> d \<and> d \<le> days_in_month y mo \<and> h < 24 \<and> mi < 60 \<and>
                       sec < 60 \<and> - 1440 < off \<and> off < 1440
                    then
                      (let day = days_before_year y + days_before_month y mo + (d - 1);
                           tod = (h * 60 + mi) * 60 + sec in
                       Some (int (day * 86400 + tod) * 1000000 + int (micros_of fraction), off))
                    else None)))"

definition utc_micros :: "int \<times> int \<Rightarrow> int" where
  "utc_micros t = fst t - snd t * 60000000"

text \<open>A date alone: \<^verbatim>\<open>\d{4}-\d\d-\d\d\<close> and a day of the calendar, midnight UTC.\<close>

definition date_instant :: "pytext \<Rightarrow> (int \<times> int) option" where
  "date_instant value =
     (let s = strip value in
      if length s = 10 then local_instant (s @ text_of ''T00:00:00'') else None)"

definition bound_instant :: "pytext \<Rightarrow> (int \<times> int) res" where
  "bound_instant value =
     (case date_instant value of
        Some t \<Rightarrow> Inr t
      | None \<Rightarrow> (case local_instant value of Some t \<Rightarrow> Inr t | None \<Rightarrow> Inl ValueError))"

text \<open>\<^verbatim>\<open>(t + timedelta(days=k)).date().isoformat()\<close>: the date of the local time, days later.\<close>

definition date_text :: "nat \<Rightarrow> pytext" where
  "date_text day = (let (y, r) = split_year day; (mo, d) = split_month 11 y 1 r in fixed 4 y @ [45] @ fixed 2 mo @ [45] @ fixed 2 d)"

definition day_of :: "int \<Rightarrow> int" where
  "day_of local_time = local_time div 86400000000"

definition shifted_date :: "int \<Rightarrow> int \<times> int \<Rightarrow> pytext res" where
  "shifted_date k t =
     (let day = day_of (fst t) + k in
      if day < 0 \<or> 3652059 \<le> day then Inl OverflowError else Inr (date_text (nat day)))"

definition optional_map :: "('a \<Rightarrow> 'b res) \<Rightarrow> 'a option \<Rightarrow> 'b option res" where
  "optional_map f v = (case v of None \<Rightarrow> Inr None | Some x \<Rightarrow> bindR (f x) (\<lambda>y. Inr (Some y)))"

definition column_is :: "pytext option \<Rightarrow> pytext option \<Rightarrow> bool" where
  "column_is wanted column = (case wanted of None \<Rightarrow> True | Some _ \<Rightarrow> column = wanted)"

text \<open>The \<^verbatim>\<open>WHERE\<close> clause, with the dates that narrow the time range.\<close>

definition selected :: "ScanQuery \<Rightarrow> pytext option \<Rightarrow> pytext option \<Rightarrow> Row \<Rightarrow> bool" where
  "selected q from_date to_date r \<longleftrightarrow>
     column_is (sq_agent q) (rw_developer r) \<and> column_is (sq_counterparty q) (rw_operator r) \<and>
     column_is (sq_verdict q) (rw_verdict_class r) \<and> column_is (sq_action_type q) (rw_action_type r) \<and>
     (case from_date of None \<Rightarrow> True | Some d \<Rightarrow> (case rw_timestamp r of None \<Rightarrow> False | Some t \<Rightarrow> d \<le> t)) \<and>
     (case to_date of None \<Rightarrow> True | Some d \<Rightarrow> (case rw_timestamp r of None \<Rightarrow> False | Some t \<Rightarrow> t < d))"

text \<open>The exact comparison of instants.\<close>

definition in_time :: "(int \<times> int) option \<Rightarrow> (int \<times> int) option \<Rightarrow> Row \<Rightarrow> bool" where
  "in_time since_i until_i r =
     (case rw_timestamp r of None \<Rightarrow> False | Some t \<Rightarrow>
      case local_instant t of None \<Rightarrow> False | Some i \<Rightarrow>
        (case since_i of None \<Rightarrow> True | Some s \<Rightarrow> utc_micros s \<le> utc_micros i) \<and>
        (case until_i of None \<Rightarrow> True | Some u \<Rightarrow> utc_micros i \<le> utc_micros u))"

definition sql_limit :: "int option \<Rightarrow> Row list \<Rightarrow> Row list" where
  "sql_limit n rows = (case n of None \<Rightarrow> rows | Some n \<Rightarrow> if n < 0 then rows else take (nat n) rows)"

definition timed_limit :: "int option \<Rightarrow> Row list \<Rightarrow> Row list" where
  "timed_limit n rows = (case n of None \<Rightarrow> rows | Some n \<Rightarrow> take (nat n) rows)"

definition scan :: "'c StoreEnv \<Rightarrow> 'c Store \<Rightarrow> ScanQuery \<Rightarrow> StoredRecord list res" where
  "scan env st q =
     bindR (optional_map bound_instant (sq_since q)) (\<lambda>since_i.
     bindR (optional_map bound_instant (sq_until q)) (\<lambda>until_i.
     bindR (optional_map (shifted_date (- 1)) since_i) (\<lambda>from_date.
     bindR (optional_map (shifted_date 2) until_i) (\<lambda>to_date.
     bindR (mapR optional_bind [sq_agent q, sq_counterparty q, sq_verdict q, sq_action_type q]) (\<lambda>_.
     let rows = filter (selected q from_date to_date) (dk_rows (st_disk st)) in
     if since_i = None \<and> until_i = None
     then bindR (optional_map bind_int (sq_limit q)) (\<lambda>_. mapR (row_to_record env st) (sql_limit (sq_limit q) rows))
     else mapR (row_to_record env st) (timed_limit (sq_limit q) (filter (in_time since_i until_i) rows)))))))"

abbreviation scan_all :: "'c StoreEnv \<Rightarrow> 'c Store \<Rightarrow> StoredRecord list res" where
  "scan_all env st \<equiv> scan env st whole_scan"

section \<open>Fetching one record\<close>

text \<open>SQLite's \<^verbatim>\<open>LIKE\<close>: \<^verbatim>\<open>%\<close> is any text, \<^verbatim>\<open>_\<close> any character, and ASCII letters match in either case.\<close>

definition fold_case :: "nat \<Rightarrow> nat" where
  "fold_case c = (if 65 \<le> c \<and> c \<le> 90 then c + 32 else c)"

fun like :: "pytext \<Rightarrow> pytext \<Rightarrow> bool" where
  "like [] t \<longleftrightarrow> t = []"
| "like (p # ps) [] \<longleftrightarrow> p = 37 \<and> like ps []"
| "like (p # ps) (c # cs) \<longleftrightarrow>
     (if p = 37 then like ps (c # cs) \<or> like (p # ps) cs
      else (p = 95 \<or> fold_case p = fold_case c) \<and> like ps cs)"

text \<open>A pattern of more than 50000 bytes is refused.\<close>

definition find_row :: "'c Store \<Rightarrow> pytext \<Rightarrow> Row option res" where
  "find_row st capsule_id =
     bindR (record_row st capsule_id) (\<lambda>r.
     case r of
       Some row \<Rightarrow> Inr (Some row)
     | None \<Rightarrow>
         (case utf8_encode capsule_id of None \<Rightarrow> Inl ValueError | Some u \<Rightarrow>
            if 50000 \<le> length u then Inl DatabaseError
            else Inr (List.find (\<lambda>r. like (capsule_id @ [37]) (rw_capsule_id r)) (dk_rows (st_disk st)))))"

definition fetch :: "'c StoreEnv \<Rightarrow> 'c Store \<Rightarrow> pytext \<Rightarrow> StoredRecord option res" where
  "fetch env st capsule_id =
     bindR (find_row st capsule_id) (\<lambda>r.
     case r of None \<Rightarrow> Inr None | Some row \<Rightarrow> bindR (row_to_record env st row) (\<lambda>rec. Inr (Some rec)))"

section \<open>Gaps in the chain\<close>

record ChainGap =
  cg_missing_parent_id :: pytext
  cg_child :: StoredRecord
  cg_relation :: "pytext option"
  cg_edge_before :: "StoredRecord option"
  cg_edge_after :: StoredRecord
  cg_window :: pytext
  cg_duration :: "int option"

text \<open>\<^verbatim>\<open>_parse_ts(record.capsule.get("timestamp"))\<close>: a value that is true and no text has no \<^verbatim>\<open>replace\<close>.\<close>

definition z_to_offset :: "pytext \<Rightarrow> pytext" where
  "z_to_offset t = concat (map (\<lambda>c. if c = 90 then text_of ''+00:00'' else [c]) t)"

definition parse_ts :: "'c StoreEnv \<Rightarrow> StoredRecord \<Rightarrow> (int \<times> bool) option res" where
  "parse_ts env rec =
     (case sr_capsule rec of
        JObj c \<Rightarrow>
          (case map_of c (text_of ''timestamp'') of
             None \<Rightarrow> Inr None
           | Some v \<Rightarrow> if \<not> py_bool v then Inr None
                       else (case v of JStr t \<Rightarrow> Inr (env_fromiso env (z_to_offset t)) | _ \<Rightarrow> Inl AttributeError))
      | _ \<Rightarrow> Inl AttributeError)"

text \<open>A time with an offset and one without cannot be subtracted.\<close>

definition time_difference :: "(int \<times> bool) option \<Rightarrow> (int \<times> bool) option \<Rightarrow> int option res" where
  "time_difference before after =
     (case (before, after) of
        (Some (b, zb), Some (a, za)) \<Rightarrow> if zb = za then Inr (Some (a - b)) else Inl TypeError
      | _ \<Rightarrow> Inr None)"

definition before_record :: "'c StoreEnv \<Rightarrow> 'c Store \<Rightarrow> Row \<Rightarrow> StoredRecord option res" where
  "before_record env st row =
     (if rw_seq row \<le> 1 then Inr None
      else case List.find (\<lambda>r. rw_seq r = rw_seq row - 1) (dk_rows (st_disk st)) of
        None \<Rightarrow> Inr None
      | Some r \<Rightarrow> bindR (row_to_record env st r) (\<lambda>rec. Inr (Some rec)))"

definition gap_window :: "StoredRecord option \<Rightarrow> StoredRecord \<Rightarrow> pytext" where
  "gap_window before child =
     (case before of None \<Rightarrow> [8869] | Some b \<Rightarrow> 35 # dec_text (sr_seq b)) @ [32, 8594, 32, 35] @ dec_text (sr_seq child)"

definition gap_at :: "'c StoreEnv \<Rightarrow> 'c Store \<Rightarrow> Row \<Rightarrow> pytext \<Rightarrow> ChainGap res" where
  "gap_at env st row parent =
     bindR (row_to_record env st row) (\<lambda>child.
     bindR (before_record env st row) (\<lambda>before.
     bindR (case before of None \<Rightarrow> Inr None
            | Some b \<Rightarrow> bindR (parse_ts env b) (\<lambda>tb. bindR (parse_ts env child) (\<lambda>ta. time_difference tb ta))) (\<lambda>duration.
     Inr \<lparr>cg_missing_parent_id = parent, cg_child = child, cg_relation = rw_relation row, cg_edge_before = before,
       cg_edge_after = child, cg_window = gap_window before child, cg_duration = duration\<rparr>)))"

text \<open>The rows whose parent is not in the ledger, with that parent.\<close>

definition orphan_rows :: "'c Store \<Rightarrow> (Row \<times> pytext) list" where
  "orphan_rows st =
     concat (map (\<lambda>r. case rw_parent r of
        None \<Rightarrow> []
      | Some p \<Rightarrow> if list_ex (\<lambda>x. rw_capsule_id x = p) (dk_rows (st_disk st)) then [] else [(r, p)]) (dk_rows (st_disk st)))"

definition find_gaps :: "'c StoreEnv \<Rightarrow> 'c Store \<Rightarrow> ChainGap list res" where
  "find_gaps env st = mapR (\<lambda>(row, parent). gap_at env st row parent) (orphan_rows st)"

section \<open>Lookups\<close>

text \<open>
  A query of the lookup index, or, when it is off or SQLite cannot read it, the scan; in the second case it is
  switched off. The identity a line carries is taken for a text.
\<close>

definition resolve_hit :: "'c StoreEnv \<Rightarrow> 'c Store \<Rightarrow> LookupRow \<Rightarrow> StoredRecord res" where
  "resolve_hit env st hit =
     bindR (read_json env st (lk_segment hit) (lk_offset hit)) (\<lambda>v.
     bindR (as_object AttributeError v) (\<lambda>c.
     bindR (carried_id (env_lib env) c) (\<lambda>i.
     bindR (as_string TypeError i) (\<lambda>capsule_id.
     bindR (reindex_authenticity (env_lib env) c) (\<lambda>authenticity.
     Inr \<lparr>sr_seq = lk_seq hit, sr_capsule_id = capsule_id, sr_capsule = JObj c, sr_segment = lk_segment hit,
       sr_consequential = True, sr_authenticity = authenticity, sr_envelopes = bundled_envelopes c authenticity\<rparr>)))))"

definition with_lookup ::
  "('c Store \<Rightarrow> LookupTables \<Rightarrow> 'r res) \<Rightarrow> ('c Store \<Rightarrow> 'r res) \<Rightarrow> 'c Store \<Rightarrow> 'r res \<times> 'c Store" where
  "with_lookup hits fallback st =
     (if \<not> st_lookup_on st then (fallback st, st)
      else case dk_lookup (st_disk st) of
        None \<Rightarrow> (fallback (st\<lparr>st_lookup_on := False\<rparr>), st\<lparr>st_lookup_on := False\<rparr>)
      | Some t \<Rightarrow> (hits st t, st))"

text \<open>\<^verbatim>\<open>r.capsule.get("timestamp") or ""\<close>, compared with a text.\<close>

definition record_ts :: "StoredRecord \<Rightarrow> pytext res" where
  "record_ts rec =
     bindR (as_object AttributeError (sr_capsule rec)) (\<lambda>c.
     case map_of c (text_of ''timestamp'') of
       None \<Rightarrow> Inr []
     | Some v \<Rightarrow> if \<not> py_bool v then Inr [] else as_string TypeError v)"

definition ts_in_range :: "pytext option \<Rightarrow> pytext option \<Rightarrow> StoredRecord \<Rightarrow> bool res" where
  "ts_in_range start stop rec =
     bindR (case start of None \<Rightarrow> Inr True | Some s \<Rightarrow> bindR (record_ts rec) (\<lambda>t. Inr (s \<le> t))) (\<lambda>b.
     if \<not> b then Inr False
     else case stop of None \<Rightarrow> Inr True | Some e \<Rightarrow> bindR (record_ts rec) (\<lambda>t. Inr (t \<le> e)))"

definition by_time :: "'c StoreEnv \<Rightarrow> 'c Store \<Rightarrow> pytext option \<Rightarrow> pytext option \<Rightarrow> StoredRecord list res \<times> 'c Store" where
  "by_time env st start stop =
     with_lookup (\<lambda>st t. bindR (li_by_time t start stop) (mapR (resolve_hit env st)))
       (\<lambda>st. bindR (scan_all env st) (filterR (ts_in_range start stop))) st"

definition by_digest :: "'c StoreEnv \<Rightarrow> 'c Store \<Rightarrow> pytext \<Rightarrow> StoredRecord option res \<times> 'c Store" where
  "by_digest env st wanted =
     with_lookup (\<lambda>st t. bindR (li_by_digest t wanted) (optional_map (resolve_hit env st)))
       (\<lambda>st. bindR (scan_all env st) (\<lambda>rs. Inr (List.find (\<lambda>r. sr_capsule_id r = wanted) rs))) st"

definition by_correlation :: "'c StoreEnv \<Rightarrow> 'c Store \<Rightarrow> pytext \<Rightarrow> StoredRecord list res \<times> 'c Store" where
  "by_correlation env st i =
     with_lookup (\<lambda>st t. bindR (li_by_correlation t i) (mapR (resolve_hit env st)))
       (\<lambda>st. bindR (scan_all env st) (\<lambda>rs. Inr (filter (\<lambda>r.
          case sr_capsule r of JObj c \<Rightarrow> i \<in> set (extract_correlation_ids c (st_fields st)) | _ \<Rightarrow> False) rs))) st"

definition by_seq_range :: "'c StoreEnv \<Rightarrow> 'c Store \<Rightarrow> int \<Rightarrow> int \<Rightarrow> StoredRecord list res \<times> 'c Store" where
  "by_seq_range env st lo hi =
     with_lookup (\<lambda>st t. bindR (li_by_seq_range t lo hi) (mapR (resolve_hit env st)))
       (\<lambda>st. bindR (scan_all env st) (\<lambda>rs. Inr (filter (\<lambda>r. lo \<le> sr_seq r \<and> sr_seq r \<le> hi) rs))) st"

end
