(* ===== verification/Ledger_Store.thy ===== *)
theory Ledger_Store
  imports Ledger_Reads "HOL-Library.AList"
begin

text \<open>
  The write path of \<^verbatim>\<open>LedgerStore\<close> (\<^verbatim>\<open>cll/ledger/store.py\<close>): opening, the write segment, appending and
  rotation. An operation returns its outcome with the store, which may have
  changed when it raises.
\<close>

section \<open>Segment bookkeeping\<close>

definition on_disk :: "(Disk \<Rightarrow> Disk) \<Rightarrow> 'c Store \<Rightarrow> 'c Store" where
  "on_disk f st = st\<lparr>st_disk := f (st_disk st)\<rparr>"

text \<open>\<^verbatim>\<open>f"seg-{n:06d}.jsonl"\<close>\<close>

definition seg_name :: "nat \<Rightarrow> pytext" where
  "seg_name n = text_of ''seg-'' @ replicate (6 - length (dec_nat n)) 48 @ dec_nat n @ text_of ''.jsonl''"

definition existing_segments :: "'c Store \<Rightarrow> pytext list" where
  "existing_segments st = sort (map fst (dk_files (st_disk st)))"

definition segment_record_count :: "'c Store \<Rightarrow> pytext \<Rightarrow> int" where
  "segment_record_count st name = int (length (filter (\<lambda>r. rw_segment r = name) (dk_rows (st_disk st))))"

definition put_file :: "pytext \<Rightarrow> bytes \<Rightarrow> Disk \<Rightarrow> Disk" where
  "put_file name content d = d\<lparr>dk_files := AList.update name content (dk_files d)\<rparr>"

text \<open>\<^verbatim>\<open>touch\<close>, and what opening for appending does.\<close>

definition touch :: "pytext \<Rightarrow> 'c Store \<Rightarrow> 'c Store" where
  "touch name st = (if map_of (dk_files (st_disk st)) name = None then on_disk (put_file name []) st else st)"

definition open_for_append :: "pytext \<Rightarrow> 'c Store \<Rightarrow> 'c Store" where
  "open_for_append name st = (touch name st)\<lparr>st_write_segment := Some name\<rparr>"

definition save_store_manifest :: "'c Store \<Rightarrow> 'c Store" where
  "save_store_manifest st = on_disk (\<lambda>d. d\<lparr>dk_manifest := Some (store_manifest_to_dict (st_manifest st))\<rparr>) st"

definition new_segment_name :: "'c Store \<Rightarrow> pytext" where
  "new_segment_name st = seg_name (length (sm_segments (st_manifest st)) + 1)"

definition fresh_entry :: "pytext \<Rightarrow> SegmentEntry" where
  "fresh_entry name = \<lparr>se_name = name, se_mounted = True, se_manifest = None, se_checkpoint_root = None, se_mmr_size = None\<rparr>"

text \<open>A new active segment: the file, its entry, and the manifest saved.\<close>

definition start_segment :: "'c Store \<Rightarrow> 'c Store" where
  "start_segment st =
     (let name = new_segment_name st in
      save_store_manifest ((touch name st)\<lparr>st_manifest := (st_manifest st)\<lparr>sm_segments := sm_segments (st_manifest st) @ [fresh_entry name],
        sm_active_segment := Some name\<rparr>\<rparr>))"

definition sync_write_segment_managed :: "'c Store \<Rightarrow> 'c Store" where
  "sync_write_segment_managed st =
     (let st = (if sm_active_segment (st_manifest st) = None then start_segment st else st) in
      case sm_active_segment (st_manifest st) of
        None \<Rightarrow> st
      | Some name \<Rightarrow> if st_write_segment st = Some name then st else open_for_append name st)"

definition sync_write_segment :: "'c Store \<Rightarrow> 'c Store" where
  "sync_write_segment st =
     (if st_managed st then sync_write_segment_managed st
      else
        let segments = existing_segments st in
        if segments = [] \<or> st_max_records st \<le> segment_record_count st (last segments)
        then let name = seg_name (length segments + 1); st = touch name st in
             if st_write_segment st = Some name then st else open_for_append name st
        else if st_write_segment st = Some (last segments) then st else open_for_append (last segments) st)"

definition drop_write_handle :: "'c Store \<Rightarrow> 'c Store" where
  "drop_write_handle st = st\<lparr>st_write_segment := None\<rparr>"

section \<open>Opening\<close>

text \<open>\<^verbatim>\<open>_resolve_correlation_fields\<close>: declared names are saved, none means the saved ones.\<close>

definition config_fields :: "json option \<Rightarrow> pytext list" where
  "config_fields v =
     (case v of
        Some (JObj ms) \<Rightarrow>
          (case map_of ms (text_of ''correlation_fields'') of
             Some (JArr vs) \<Rightarrow> (case mapR (as_string TypeError) vs of Inr ts \<Rightarrow> ts | Inl _ \<Rightarrow> [])
           | _ \<Rightarrow> [])
      | _ \<Rightarrow> [])"

definition fields_config :: "pytext list \<Rightarrow> json" where
  "fields_config cfields = JObj [(text_of ''correlation_fields'', JArr (map JStr cfields))]"

text \<open>What the constructor is called with.\<close>

record StoreOptions =
  op_segment_max_records :: int
  op_log_id :: pytext
  op_max_segment_bytes :: int
  op_rotate_at_checkpoint :: bool
  op_correlation_fields :: "pytext list"

definition DEFAULT_MAX_SEGMENT_BYTES :: int where "DEFAULT_MAX_SEGMENT_BYTES = 256 * 1024 * 1024"
definition DEFAULT_SEGMENT_MAX_RECORDS :: int where "DEFAULT_SEGMENT_MAX_RECORDS = 20000"

definition default_options :: StoreOptions where
  "default_options = \<lparr>op_segment_max_records = DEFAULT_SEGMENT_MAX_RECORDS, op_log_id = [],
     op_max_segment_bytes = DEFAULT_MAX_SEGMENT_BYTES, op_rotate_at_checkpoint = False, op_correlation_fields = []\<rparr>"

definition opened_manifest :: "StoreOptions \<Rightarrow> Disk \<Rightarrow> StoreManifest res" where
  "opened_manifest opt d =
     (if \<not> op_rotate_at_checkpoint opt then Inr \<lparr>sm_log_id = [], sm_active_segment = None, sm_segments = []\<rparr>
      else case dk_manifest d of
        Some v \<Rightarrow> store_manifest_from_dict v
      | None \<Rightarrow>
          if dk_files d \<noteq> [] then Inl SegmentRotationError
          else Inr \<lparr>sm_log_id = op_log_id opt, sm_active_segment = None, sm_segments = []\<rparr>)"

definition open_store :: "StoreOptions \<Rightarrow> Disk \<Rightarrow> 'c Store res" where
  "open_store opt d =
     bindR (opened_manifest opt d) (\<lambda>manifest.
     let managed = op_rotate_at_checkpoint opt; read_only = (\<not> managed \<and> dk_manifest d \<noteq> None);
         declared = op_correlation_fields opt;
         d1 = (if declared \<noteq> [] then d\<lparr>dk_lookup_config := Some (fields_config declared)\<rparr> else d);
         st = \<lparr>st_disk = d1, st_managed = managed, st_manifest = manifest, st_read_only = read_only,
               st_log_id = op_log_id opt, st_max_records = op_segment_max_records opt, st_max_bytes = op_max_segment_bytes opt,
               st_fields = (if declared \<noteq> [] then declared else config_fields (dk_lookup_config d)),
               st_lookup_on = (dk_lookup d \<noteq> None), st_write_segment = None, st_needs_recover = False,
               st_checkpointer = None\<rparr> in
     Inr (if read_only then st else sync_write_segment st))"

definition set_checkpointer :: "'c \<Rightarrow> 'c Store \<Rightarrow> 'c Store res" where
  "set_checkpointer cp st = (if \<not> st_managed st then Inl ValueError else Inr (st\<lparr>st_checkpointer := Some cp\<rparr>))"

definition refuse_read_only :: "'c Store \<Rightarrow> unit res" where
  "refuse_read_only st = (if st_read_only st then Inl SegmentRotationError else Inr ())"

section \<open>Rotation\<close>

definition rows_of_segment :: "'c Store \<Rightarrow> pytext \<Rightarrow> Row list" where
  "rows_of_segment st name = filter (\<lambda>r. rw_segment r = name) (dk_rows (st_disk st))"

text \<open>\<^verbatim>\<open>MIN\<close> and \<^verbatim>\<open>MAX\<close> of a column, which pass over NULL.\<close>

definition min_ts :: "Row list \<Rightarrow> pytext option" where
  "min_ts rows = (case List.map_filter rw_timestamp rows of [] \<Rightarrow> None | t # ts \<Rightarrow> Some (fold min ts t))"

definition max_ts :: "Row list \<Rightarrow> pytext option" where
  "max_ts rows = (case List.map_filter rw_timestamp rows of [] \<Rightarrow> None | t # ts \<Rightarrow> Some (fold max ts t))"

definition min_seq :: "Row list \<Rightarrow> int" where
  "min_seq rows = (case map rw_seq rows of [] \<Rightarrow> 0 | s # ss \<Rightarrow> fold min ss s)"

definition max_seq :: "Row list \<Rightarrow> int" where
  "max_seq rows = fold max (map rw_seq rows) 0"

definition close_entry :: "pytext \<Rightarrow> pytext \<Rightarrow> int \<Rightarrow> SegmentEntry \<Rightarrow> SegmentEntry" where
  "close_entry manifest_name root mmr_size e =
     e\<lparr>se_manifest := Some (text_of ''segments/'' @ manifest_name), se_checkpoint_root := Some root, se_mmr_size := Some mmr_size\<rparr>"

definition closing_manifest :: "'c Store \<Rightarrow> pytext \<Rightarrow> bytes \<Rightarrow> pytext \<Rightarrow> int \<Rightarrow> SeqRangeProof \<Rightarrow> SegmentManifest" where
  "closing_manifest st name content root mmr_size prf =
     (let rows = rows_of_segment st name in
      \<lparr>gm_log_id = st_log_id st, gm_first_seq = min_seq rows, gm_last_seq = max_seq rows, gm_first_ts = min_ts rows,
       gm_last_ts = max_ts rows, gm_checkpoint_root = root, gm_mmr_size = mmr_size, gm_bytes = int (length content),
       gm_record_count = int (length rows), gm_sha256_of_segment = hex_text (sha256 content), gm_range_proof = prf\<rparr>)"

text \<open>The manifest written and the entry closed; then a new segment opened.\<close>

definition seal_segment :: "pytext \<Rightarrow> SegmentManifest \<Rightarrow> 'c Store \<Rightarrow> 'c Store" where
  "seal_segment name m st =
     (let manifest_name = manifest_filename (st_log_id st) (gm_mmr_size m);
          st = on_disk (\<lambda>d. d\<lparr>dk_seg_manifests := AList.update manifest_name (segment_manifest_to_dict m) (dk_seg_manifests d)\<rparr>) st in
      st\<lparr>st_manifest := (st_manifest st)\<lparr>sm_segments :=
        update_entry name (close_entry manifest_name (gm_checkpoint_root m) (gm_mmr_size m)) (sm_segments (st_manifest st))\<rparr>\<rparr>)"

definition close_segment :: "pytext \<Rightarrow> SegmentManifest \<Rightarrow> 'c Store \<Rightarrow> 'c Store" where
  "close_segment name m st = sync_write_segment (start_segment (drop_write_handle (seal_segment name m st)))"

definition rotate_segment :: "'c StoreEnv \<Rightarrow> 'c Store \<Rightarrow> SegmentManifest res \<times> 'c Store" where
  "rotate_segment env st =
     (case (st_checkpointer st, st_write_segment st) of
        (None, _) \<Rightarrow> (Inl SegmentRotationError, st)
      | (_, None) \<Rightarrow> (Inl AttributeError, st)
      | (Some cp, Some name) \<Rightarrow>
          let rows = rows_of_segment st name in
          if rows = [] then (Inl SegmentRotationError, st)
          else
            (case env_checkpoint env (scan_all env st) cp of
               (Inl e, cp) \<Rightarrow> (Inl e, st\<lparr>st_checkpointer := Some cp\<rparr>)
             | (Inr (root, mmr_size), cp) \<Rightarrow>
                 let st = st\<lparr>st_checkpointer := Some cp\<rparr> in
                 case env_range_proof env cp (min_seq rows) (max_seq rows) of
                   Inl e \<Rightarrow> (Inl e, st)
                 | Inr p \<Rightarrow>
                     if sp_size p \<noteq> mmr_size then (Inl SegmentRotationError, st)
                     else
                       (case map_of (dk_files (st_disk st)) name of
                          None \<Rightarrow> (Inl OSError, st)
                        | Some content \<Rightarrow>
                            (case env_name_error env (manifest_filename (st_log_id st) mmr_size) of
                               Some e \<Rightarrow> (Inl e, st)
                             | None \<Rightarrow>
                                 let m = closing_manifest st name content root mmr_size p in
                                 if manifest_entry (st_manifest st) name = None
                                 then (Inl AttributeError,
                                       on_disk (\<lambda>d. d\<lparr>dk_seg_manifests := AList.update (manifest_filename (st_log_id st) mmr_size)
                                         (segment_manifest_to_dict m) (dk_seg_manifests d)\<rparr>) st)
                                 else (Inr m, close_segment name m st)))))"

section \<open>Appending\<close>

text \<open>
  What the operating system does during an append: how many bytes of the line reach the segment when the write
  or the sync raises, whether the insertion raises, whether the lookup index does.
\<close>

record AppendIo =
  io_torn :: "nat option"
  io_insert_fails :: bool
  io_lookup_fails :: bool

definition calm_io :: AppendIo where
  "calm_io = \<lparr>io_torn = None, io_insert_fails = False, io_lookup_fails = False\<rparr>"

text \<open>What is stored of a submission, and under which identity.\<close>

definition stored_form :: "CapsuleLib \<Rightarrow> capsule \<Rightarrow> Resolution \<Rightarrow> (capsule \<times> json) res" where
  "stored_form lib c r =
     (if re_authenticity r = AUTHENTICITY_SIGNED then
        (case re_verified_envelopes r of
           [] \<Rightarrow> Inl IndexError
         | proof # _ \<Rightarrow>
             let to_store = dict_insert (text_of ''key_id'') (JStr (pe_key_id proof))
                              (dict_insert (text_of ''signature'') (JStr (pe_envelope proof)) c) in
             bindR (case re_capsule_id r of
                      Some i \<Rightarrow> if i \<noteq> [] then Inr i else cap_id lib to_store
                    | None \<Rightarrow> cap_id lib to_store) (\<lambda>i. Inr (to_store, JStr i)))
      else bindR (carried_id lib c) (\<lambda>i. Inr (c, i)))"

text \<open>The identity the line would be read back under is the one it is indexed under.\<close>

definition id_problem :: "capsule \<Rightarrow> json \<Rightarrow> bool" where
  "id_problem to_store capsule_id \<longleftrightarrow>
     line_id_problem to_store \<or>
     (case map_of to_store (text_of ''capsule_id'') of None \<Rightarrow> False | Some v \<Rightarrow> v \<noteq> JNull \<and> v \<noteq> capsule_id)"

definition insert_row :: "Row \<Rightarrow> Disk \<Rightarrow> (int \<times> Disk) res" where
  "insert_row row d =
     (if list_ex (\<lambda>r. rw_capsule_id r = rw_capsule_id row) (dk_rows d) then Inl DatabaseError
      else let seq = max_seq (dk_rows d) + 1 in Inr (seq, d\<lparr>dk_rows := dk_rows d @ [row\<lparr>rw_seq := seq\<rparr>]\<rparr>))"

text \<open>\<^verbatim>\<open>_lookup_record\<close>: a database error switches the index off, any other goes through.\<close>

definition lookup_record ::
  "'c StoreEnv \<Rightarrow> bool \<Rightarrow> int \<Rightarrow> capsule \<Rightarrow> pytext \<Rightarrow> pytext \<Rightarrow> nat \<Rightarrow> 'c Store \<Rightarrow> bool res \<times> 'c Store" where
  "lookup_record env fails seq c capsule_id segment offset st =
     (if \<not> st_lookup_on st then (Inr False, st)
      else case dk_lookup (st_disk st) of
        None \<Rightarrow> (Inr False, st\<lparr>st_lookup_on := False\<rparr>)
      | Some t \<Rightarrow>
          if fails then (Inr False, st\<lparr>st_lookup_on := False\<rparr>)
          else
            (case li_record (env_lib env) (st_fields st) seq (map_of c (text_of ''timestamp'')) capsule_id segment offset c t of
               (Inl e, t) \<Rightarrow> (Inl e, on_disk (\<lambda>d. d\<lparr>dk_lookup := Some t\<rparr>) st)
             | (Inr _, t) \<Rightarrow> (Inr True, on_disk (\<lambda>d. d\<lparr>dk_lookup := Some t\<rparr>) st)))"

definition failed_write :: "'c Store \<Rightarrow> 'c Store" where
  "failed_write st = (drop_write_handle st)\<lparr>st_needs_recover := True\<rparr>"

text \<open>The line written and its row inserted: the sequence number and the store.\<close>

definition write_line :: "AppendIo \<Rightarrow> pytext \<Rightarrow> bytes \<Rightarrow> bytes \<Rightarrow> Row \<Rightarrow> 'c Store \<Rightarrow> int res \<times> 'c Store" where
  "write_line io segment content line row st =
     (case io_torn io of
        Some k \<Rightarrow> (Inl OSError, failed_write (on_disk (put_file segment (content @ take k line)) st))
      | None \<Rightarrow>
          let st = on_disk (put_file segment (content @ line)) st in
          if io_insert_fails io then (Inl DatabaseError, failed_write st)
          else (case insert_row row (st_disk st) of
                  Inl e \<Rightarrow> (Inl e, failed_write st)
                | Inr (seq, d) \<Rightarrow> (Inr seq, st\<lparr>st_disk := d\<rparr>)))"

definition store_line ::
  "'c StoreEnv \<Rightarrow> AppendIo \<Rightarrow> capsule \<Rightarrow> json \<Rightarrow> bool \<Rightarrow> Resolution \<Rightarrow> 'c Store \<Rightarrow> StoredRecord res \<times> 'c Store" where
  "store_line env io to_store capsule_id consequential r st0 =
     (let st = sync_write_segment st0 in
      case st_write_segment st of
        None \<Rightarrow> (Inl AttributeError, st)
      | Some segment \<Rightarrow>
          let content = (case map_of (dk_files (st_disk st)) segment of None \<Rightarrow> [] | Some b \<Rightarrow> b) in
          case record_params (env_lib env) to_store capsule_id segment (length content) consequential (re_authenticity r) of
            Inl e \<Rightarrow> (Inl e, st)
          | Inr row \<Rightarrow>
              (case write_line io segment content (line_bytes to_store) row st of
                 (Inl e, st) \<Rightarrow> (Inl e, st)
               | (Inr seq, st) \<Rightarrow>
                   (case lookup_record env (io_lookup_fails io) seq to_store (rw_capsule_id row) segment (length content) st of
                      (Inl e, st) \<Rightarrow> (Inl e, st)
                    | (Inr _, st) \<Rightarrow>
                        let rec = \<lparr>sr_seq = seq, sr_capsule_id = rw_capsule_id row, sr_capsule = JObj to_store, sr_segment = segment,
                              sr_consequential = consequential, sr_authenticity = re_authenticity r,
                              sr_envelopes = re_verified_envelopes r\<rparr> in
                        if st_managed st \<and> st_max_bytes st \<le> int (length (content @ line_bytes to_store))
                        then (case rotate_segment env st of (Inl e, st) \<Rightarrow> (Inl e, st) | (Inr _, st) \<Rightarrow> (Inr rec, st))
                        else (Inr rec, st))))"

definition st_append ::
  "'c StoreEnv \<Rightarrow> AppendIo \<Rightarrow> 'c Store \<Rightarrow> capsule \<Rightarrow> bool \<Rightarrow> AdmissionRequest option \<Rightarrow> StoredRecord res \<times> 'c Store" where
  "st_append env io st c consequential admission =
     (case bindR (refuse_read_only st) (\<lambda>_.
           bindR (case admission of None \<Rightarrow> new_admission UNSIGNED [] | Some q \<Rightarrow> Inr q) (\<lambda>q.
           bindR (resolve_admission (env_lib env) c q) (\<lambda>r.
           bindR (stored_form (env_lib env) c r) (\<lambda>(to_store, capsule_id).
           if st_needs_recover st then Inl LedgerCorrupt
           else if id_problem to_store capsule_id then Inl ValueError
           else
             bindR (as_string ValueError capsule_id) (\<lambda>i.
             bindR (record_row st i) (\<lambda>existing.
             case existing of
               Some row \<Rightarrow> bindR (existing_record env st row) (\<lambda>_. Inl DuplicateRecord)
             | None \<Rightarrow> Inr (to_store, capsule_id, r))))))) of
        Inl e \<Rightarrow> (Inl e, st)
      | Inr (to_store, capsule_id, r) \<Rightarrow> store_line env io to_store capsule_id consequential r st)"

text \<open>\<^verbatim>\<open>import_jsonl\<close>: the lines of a text file in order, blank ones skipped; the number imported, or the
  exception, with the records before it stored.\<close>

fun import_lines ::
  "'c StoreEnv \<Rightarrow> (nat \<Rightarrow> AppendIo) \<Rightarrow> bool \<Rightarrow> pytext list \<Rightarrow> nat \<Rightarrow> 'c Store \<Rightarrow> nat res \<times> 'c Store" where
  "import_lines env ios consequential [] n st = (Inr n, st)"
| "import_lines env ios consequential (raw # raws) n st =
     (if strip raw = [] then import_lines env ios consequential raws n st
      else case parse_json (strip raw) of
        None \<Rightarrow> (Inl ValueError, st)
      | Some (JObj c) \<Rightarrow>
          (case st_append env (ios n) st c consequential None of
             (Inl e, st) \<Rightarrow> (Inl e, st)
           | (Inr _, st) \<Rightarrow> import_lines env ios consequential raws (n + 1) st)
      | Some _ \<Rightarrow> (Inl (if st_read_only st then SegmentRotationError else AttributeError), st))"

end
