(* ===== verification/Ledger_Recovery.thy ===== *)
theory Ledger_Recovery
  imports Ledger_Store
begin

text \<open>
  The rest of \<^verbatim>\<open>LedgerStore\<close> (\<^verbatim>\<open>cll/ledger/store.py\<close>) that writes: \<^verbatim>\<open>recover\<close> after a crash, the rebuilding of
  both indexes from the segments, and the archive of closed segments.
\<close>

section \<open>Lines of a segment\<close>

text \<open>The lines of a binary file, each with its end; the last one may have none.\<close>

fun raw_lines :: "bytes \<Rightarrow> bytes \<Rightarrow> bytes list" where
  "raw_lines cur [] = (if cur = [] then [] else [cur])"
| "raw_lines cur (b # bs) = (if b = 10 then (cur @ [b]) # raw_lines [] bs else raw_lines (cur @ [b]) bs)"

text \<open>\<^verbatim>\<open>json.loads\<close> of bytes: UTF-8 unless a byte order mark or a zero byte says otherwise; surrogates pass.\<close>

definition json_bytes_text :: "'c StoreEnv \<Rightarrow> bytes \<Rightarrow> pytext option" where
  "json_bytes_text env b =
     (if list_all (\<lambda>x. 0 < x \<and> x < 128) b then Some (map unat b) else env_decode env b)"

definition loads_bytes :: "'c StoreEnv \<Rightarrow> bytes \<Rightarrow> json res" where
  "loads_bytes env b =
     (case json_bytes_text env b of None \<Rightarrow> Inl ValueError | Some t \<Rightarrow> (case parse_json t of None \<Rightarrow> Inl ValueError | Some v \<Rightarrow> Inr v))"

section \<open>Recovery\<close>

text \<open>\<^verbatim>\<open>_parse_line\<close>\<close>

definition parse_line :: "'c StoreEnv \<Rightarrow> bytes \<Rightarrow> capsule res" where
  "parse_line env raw =
     (case loads_bytes env raw of
        Inr (JObj c) \<Rightarrow>
          if line_id_problem c then Inl LedgerCorrupt
          else if map_of c (text_of ''capsule_id'') \<noteq> None then Inr c
          else (case cap_id (env_lib env) c of
                  Inl e \<Rightarrow> Inl (if e = TypeError \<or> e = ValueError then LedgerCorrupt else e)
                | Inr _ \<Rightarrow> Inr c)
      | _ \<Rightarrow> Inl LedgerCorrupt)"

text \<open>\<^verbatim>\<open>_catch_up_lookup\<close>: the rows the lookup index lacks, in order; a row whose segment is unmounted is passed over.\<close>

fun catch_up_rows :: "'c StoreEnv \<Rightarrow> int list \<Rightarrow> Row list \<Rightarrow> int list \<Rightarrow> 'c Store \<Rightarrow> int list res \<times> 'c Store" where
  "catch_up_rows env present [] added st = (Inr added, st)"
| "catch_up_rows env present (row # rows) added st =
     (if rw_seq row \<in> set present then catch_up_rows env present rows added st
      else case existing_record env st row of
        Inl e \<Rightarrow> (Inl (if e = ValueError \<or> e = TypeError \<or> e = AttributeError then LedgerCorrupt else e), st)
      | Inr None \<Rightarrow> catch_up_rows env present rows added st
      | Inr (Some rec) \<Rightarrow>
          (case sr_capsule rec of
             JObj c \<Rightarrow>
               (case lookup_record env False (rw_seq row) c (rw_capsule_id row) (rw_segment row) (rw_offset row) st of
                  (Inl e, st) \<Rightarrow> (Inl e, st)
                | (Inr True, st) \<Rightarrow> catch_up_rows env present rows (added @ [rw_seq row]) st
                | (Inr False, st) \<Rightarrow> (Inr added, st))
           | _ \<Rightarrow> (Inl LedgerCorrupt, st)))"

definition catch_up_lookup :: "'c StoreEnv \<Rightarrow> 'c Store \<Rightarrow> int list res \<times> 'c Store" where
  "catch_up_lookup env st =
     (if \<not> st_lookup_on st then (Inr [], st)
      else case dk_lookup (st_disk st) of
        None \<Rightarrow> (Inr [], st\<lparr>st_lookup_on := False\<rparr>)
      | Some t \<Rightarrow>
          if seqs_summary t = (length (dk_rows (st_disk st)), max_seq (dk_rows (st_disk st))) then (Inr [], st)
          else catch_up_rows env (li_seqs t) (dk_rows (st_disk st)) [] st)"

record RecoveryReport =
  rp_truncated_bytes :: nat
  rp_indexed_seqs :: "int list"
  rp_skipped_offsets :: "nat list"
  rp_lookup_seqs :: "int list"

definition report_changed :: "RecoveryReport \<Rightarrow> bool" where
  "report_changed r \<longleftrightarrow> rp_truncated_bytes r \<noteq> 0 \<or> rp_indexed_seqs r \<noteq> [] \<or> rp_lookup_seqs r \<noteq> []"

text \<open>\<^verbatim>\<open>_index_line\<close> within \<^verbatim>\<open>recover\<close>: any exception of it is a corrupt ledger.\<close>

definition index_line :: "'c StoreEnv \<Rightarrow> pytext \<Rightarrow> nat \<Rightarrow> capsule \<Rightarrow> json \<Rightarrow> 'c Store \<Rightarrow> int res \<times> 'c Store" where
  "index_line env segment offset c capsule_id st =
     (case bindR (reindex_authenticity (env_lib env) c) (\<lambda>a.
           bindR (record_params (env_lib env) c capsule_id segment offset True a) (\<lambda>row.
           bindR (insert_row row (st_disk st)) (\<lambda>(seq, d). Inr (rw_capsule_id row, seq, d)))) of
        Inl _ \<Rightarrow> (Inl LedgerCorrupt, st)
      | Inr (i, seq, d) \<Rightarrow>
          (case lookup_record env False seq c i segment offset (st\<lparr>st_disk := d\<rparr>) of
             (Inl _, st) \<Rightarrow> (Inl LedgerCorrupt, st)
           | (Inr _, st) \<Rightarrow> (Inr seq, st)))"

fun recover_lines ::
  "'c StoreEnv \<Rightarrow> pytext \<Rightarrow> nat \<Rightarrow> bytes list \<Rightarrow> int list \<Rightarrow> nat list \<Rightarrow> 'c Store \<Rightarrow> (int list \<times> nat list) res \<times> 'c Store" where
  "recover_lines env segment offset [] indexed skipped st = (Inr (indexed, skipped), st)"
| "recover_lines env segment offset (raw # raws) indexed skipped st =
     (case bindR (parse_line env (butlast raw)) (\<lambda>c.
           bindR (carried_id (env_lib env) c) (\<lambda>i.
           bindR (as_string LedgerCorrupt i) (\<lambda>t.
           case record_row st t of Inl _ \<Rightarrow> Inl LedgerCorrupt | Inr known \<Rightarrow> Inr (c, i, known \<noteq> None)))) of
        Inl e \<Rightarrow> (Inl e, st)
      | Inr (c, i, known) \<Rightarrow>
          if known then recover_lines env segment (offset + length raw) raws indexed (skipped @ [offset]) st
          else (case index_line env segment offset c i st of
                  (Inl e, st) \<Rightarrow> (Inl e, st)
                | (Inr seq, st) \<Rightarrow> recover_lines env segment (offset + length raw) raws (indexed @ [seq]) skipped st))"

text \<open>Where the unindexed tail of the active segment starts: after its last indexed line.\<close>

definition max_offset :: "Row list \<Rightarrow> nat option" where
  "max_offset rows = (case map rw_offset rows of [] \<Rightarrow> None | n # ns \<Rightarrow> Some (fold max ns n))"

definition tail_start :: "Row list \<Rightarrow> bytes \<Rightarrow> nat res" where
  "tail_start rows content =
     (case max_offset rows of
        None \<Rightarrow> Inr 0
      | Some n \<Rightarrow>
          let indexed_line = line_at content n in
          if length content \<le> n \<or> indexed_line = [] \<or> last indexed_line \<noteq> 10 then Inl LedgerCorrupt
          else Inr (n + length indexed_line))"

text \<open>The length of the tail up to its last line end: \<^verbatim>\<open>tail.rfind(b"\n") + 1\<close>.\<close>

definition kept :: "bytes \<Rightarrow> nat" where
  "kept tail = length (dropWhile (\<lambda>b. b \<noteq> 10) (rev tail))"

text \<open>The torn end cut off and the write segment opened again.\<close>

definition finish_recovery ::
  "pytext \<Rightarrow> bytes \<Rightarrow> nat \<Rightarrow> nat \<Rightarrow> int list \<Rightarrow> (int list \<times> nat list) res \<times> 'c Store \<Rightarrow> RecoveryReport res \<times> 'c Store" where
  "finish_recovery name content start keep lookup_seqs = (\<lambda>(r, st).
     case r of
       Inl e \<Rightarrow> (Inl e, st)
     | Inr (new_seqs, skipped) \<Rightarrow>
         let truncated = length content - start - keep;
             st = (if truncated \<noteq> 0 then on_disk (put_file name (take (start + keep) content)) st else st) in
         (Inr \<lparr>rp_truncated_bytes = truncated, rp_indexed_seqs = new_seqs, rp_skipped_offsets = skipped, rp_lookup_seqs = lookup_seqs\<rparr>,
          (sync_write_segment st)\<lparr>st_needs_recover := False\<rparr>))"

definition recover :: "'c StoreEnv \<Rightarrow> 'c Store \<Rightarrow> RecoveryReport res \<times> 'c Store" where
  "recover env st0 =
     (if \<not> st_managed st0 then (Inl ValueError, st0)
      else
        let st = sync_write_segment (st0\<lparr>st_needs_recover := True\<rparr>) in
        case st_write_segment st of
          None \<Rightarrow> (Inl AttributeError, st)
        | Some name \<Rightarrow>
            let st = drop_write_handle st;
                content = (case map_of (dk_files (st_disk st)) name of None \<Rightarrow> [] | Some b \<Rightarrow> b) in
            case tail_start (rows_of_segment st name) content of
              Inl e \<Rightarrow> (Inl e, st)
            | Inr start \<Rightarrow>
                (case catch_up_lookup env st of
                   (Inl e, st) \<Rightarrow> (Inl e, st)
                 | (Inr lookup_seqs, st) \<Rightarrow>
                     let tail = drop start content; keep = kept tail in
                     finish_recovery name content start keep lookup_seqs
                       (recover_lines env name start (raw_lines [] (take keep tail)) [] [] st)))"

section \<open>Rebuilding the indexes\<close>

text \<open>The entries of the segments in order: segment, offset, capsule and identity, the first line per identity
  (\<^verbatim>\<open>_leaves\<close>). An identity that is an array or an object cannot be in a set, and \<^verbatim>\<open>True\<close> equals \<open>1\<close> there.\<close>

type_synonym leaf = "pytext \<times> nat \<times> capsule \<times> json"

definition set_key :: "json \<Rightarrow> json res" where
  "set_key v = (case v of JArr _ \<Rightarrow> Inl TypeError | JObj _ \<Rightarrow> Inl TypeError
     | JBool b \<Rightarrow> Inr (JInt (if b then 1 else 0)) | _ \<Rightarrow> Inr v)"

fun line_leaves ::
  "'c StoreEnv \<Rightarrow> pytext \<Rightarrow> nat \<Rightarrow> bytes list \<Rightarrow> json list \<Rightarrow> (leaf list \<times> json list) res" where
  "line_leaves env segment offset [] seen = Inr ([], seen)"
| "line_leaves env segment offset (raw # raws) seen =
     bindR (loads_bytes env raw) (\<lambda>v.
     bindR (as_object AttributeError v) (\<lambda>c.
     bindR (carried_id (env_lib env) c) (\<lambda>i.
     bindR (set_key i) (\<lambda>k.
     if k \<in> set seen then line_leaves env segment (offset + length raw) raws seen
     else bindR (line_leaves env segment (offset + length raw) raws (k # seen)) (\<lambda>(ls, seen).
          Inr ((segment, offset, c, i) # ls, seen))))))"

fun segment_leaves :: "'c StoreEnv \<Rightarrow> 'c Store \<Rightarrow> pytext list \<Rightarrow> json list \<Rightarrow> leaf list res" where
  "segment_leaves env st [] seen = Inr []"
| "segment_leaves env st (s # ss) seen =
     (case segment_file st s of
        None \<Rightarrow> Inl OSError
      | Some content \<Rightarrow>
          bindR (line_leaves env s 0 (raw_lines [] content) seen) (\<lambda>(ls, seen).
          bindR (segment_leaves env st ss seen) (\<lambda>rest. Inr (ls @ rest))))"

definition all_segments :: "'c Store \<Rightarrow> pytext list" where
  "all_segments st = (if st_managed st then map se_name (sm_segments (st_manifest st)) else existing_segments st)"

definition insert_leaf :: "'c StoreEnv \<Rightarrow> Disk \<Rightarrow> leaf \<Rightarrow> Disk res" where
  "insert_leaf env d = (\<lambda>(segment, offset, c, i).
     bindR (reindex_authenticity (env_lib env) c) (\<lambda>a.
     bindR (record_params (env_lib env) c i segment offset True a) (\<lambda>row.
     bindR (insert_row row d) (\<lambda>(_, d). Inr d))))"

text \<open>One transaction: rolled back as a whole when anything raises. The leaves are read while they are inserted;
  only the exception can tell, when a later line cannot be read and an earlier one cannot be inserted.\<close>

definition reindex :: "'c StoreEnv \<Rightarrow> 'c Store \<Rightarrow> unit res \<times> 'c Store" where
  "reindex env st =
     (if st_read_only st then (Inl SegmentRotationError, st)
      else
        let dropped = drop_write_handle st in
        case bindR (segment_leaves env dropped (all_segments dropped) [])
               (foldR (insert_leaf env) ((st_disk dropped)\<lparr>dk_rows := []\<rparr>)) of
          Inl e \<Rightarrow> (Inl e, dropped)
        | Inr d \<Rightarrow> (Inr (), dropped\<lparr>st_disk := d, st_needs_recover := False\<rparr>))"

text \<open>\<^verbatim>\<open>rebuild_lookup_index\<close>: the file is deleted first, whatever follows.\<close>

definition lookup_tuple :: "nat \<Rightarrow> leaf \<Rightarrow> (int \<times> json option \<times> pytext \<times> pytext \<times> nat \<times> capsule) res" where
  "lookup_tuple n = (\<lambda>(segment, offset, c, i).
     bindR (as_string TypeError i) (\<lambda>t. Inr (int n, map_of c (text_of ''timestamp''), t, segment, offset, c)))"

definition rebuild_lookup_index :: "'c StoreEnv \<Rightarrow> 'c Store \<Rightarrow> unit res \<times> 'c Store" where
  "rebuild_lookup_index env st =
     (if st_read_only st then (Inl SegmentRotationError, st)
      else
        let fresh = (on_disk (\<lambda>d. d\<lparr>dk_lookup := Some empty_tables\<rparr>) st)\<lparr>st_lookup_on := True\<rparr> in
        case bindR (segment_leaves env fresh (all_segments fresh) [])
               (\<lambda>leaves. mapR (\<lambda>(n, l). lookup_tuple n l) (zip [1..<length leaves + 1] leaves)) of
          Inl e \<Rightarrow> (Inl e, fresh)
        | Inr rows \<Rightarrow>
            (case rebuild_rows (env_lib env) (st_fields fresh) rows empty_tables of
               (r, t) \<Rightarrow> (r, on_disk (\<lambda>d. d\<lparr>dk_lookup := Some t\<rparr>) fresh)))"

section \<open>Archived segments\<close>

definition list_segments :: "'c Store \<Rightarrow> SegmentEntry list res" where
  "list_segments st = (if \<not> st_managed st then Inl ValueError else Inr (sm_segments (st_manifest st)))"

definition set_mounted :: "pytext \<Rightarrow> bool \<Rightarrow> 'c Store \<Rightarrow> 'c Store" where
  "set_mounted name b st = save_store_manifest (st\<lparr>st_manifest := (st_manifest st)\<lparr>sm_segments :=
     update_entry name (\<lambda>e. e\<lparr>se_mounted := b\<rparr>) (sm_segments (st_manifest st))\<rparr>\<rparr>)"

definition archive_file :: "pytext \<Rightarrow> Disk \<Rightarrow> Disk res" where
  "archive_file name d =
     (case map_of (dk_files d) name of
        None \<Rightarrow> Inl OSError
      | Some b \<Rightarrow> Inr (d\<lparr>dk_files := AList.delete name (dk_files d), dk_archived := AList.update name b (dk_archived d)\<rparr>))"

definition restore_file :: "pytext \<Rightarrow> Disk \<Rightarrow> Disk res" where
  "restore_file name d =
     (case map_of (dk_archived d) name of
        None \<Rightarrow> Inl OSError
      | Some b \<Rightarrow> Inr (d\<lparr>dk_files := AList.update name b (dk_files d), dk_archived := AList.delete name (dk_archived d)\<rparr>))"

definition unmount_segment :: "pytext \<Rightarrow> 'c Store \<Rightarrow> unit res \<times> 'c Store" where
  "unmount_segment name st =
     (if \<not> st_managed st then (Inl AttributeError, st)
      else if sm_active_segment (st_manifest st) = Some name then (Inl ValueError, st)
      else case manifest_entry (st_manifest st) name of
        None \<Rightarrow> (Inl ValueError, st)
      | Some e \<Rightarrow>
          if \<not> se_mounted e then (Inr (), st)
          else (case archive_file name (st_disk st) of
                  Inl e \<Rightarrow> (Inl e, st)
                | Inr d \<Rightarrow> (Inr (), set_mounted name False (st\<lparr>st_disk := d\<rparr>))))"

definition mount_segment :: "pytext \<Rightarrow> 'c Store \<Rightarrow> unit res \<times> 'c Store" where
  "mount_segment name st =
     (if \<not> st_managed st then (Inl AttributeError, st)
      else case manifest_entry (st_manifest st) name of
        None \<Rightarrow> (Inl ValueError, st)
      | Some e \<Rightarrow>
          if se_mounted e then (Inr (), st)
          else (case restore_file name (st_disk st) of
                  Inl e \<Rightarrow> (Inl e, st)
                | Inr d \<Rightarrow> (Inr (), set_mounted name True (st\<lparr>st_disk := d\<rparr>))))"

text \<open>The path of a segment manifest is relative to the root: \<^verbatim>\<open>segments/\<close> and its name.\<close>

definition segment_manifest_file :: "pytext \<Rightarrow> Disk \<Rightarrow> json option" where
  "segment_manifest_file path d =
     (if take 9 path = text_of ''segments/'' then map_of (dk_seg_manifests d) (drop 9 path) else None)"

definition verify_segment_standalone ::
  "'c StoreEnv \<Rightarrow> (json \<Rightarrow> int res) \<Rightarrow> 'c Store \<Rightarrow> pytext \<Rightarrow> (bool \<times> segment_error list) res" where
  "verify_segment_standalone env int_of_text st name =
     (if \<not> st_managed st then Inl AttributeError
      else case manifest_entry (st_manifest st) name of
        None \<Rightarrow> Inr (False, [NoSuchSegment])
      | Some e \<Rightarrow>
          (case se_manifest e of
             None \<Rightarrow> Inr (False, [NotClosed])
           | Some path \<Rightarrow>
               (case segment_manifest_file path (st_disk st) of
                  None \<Rightarrow> Inr (False, [ManifestMissing])
                | Some v \<Rightarrow>
                    bindR (segment_manifest_from_dict int_of_text v) (\<lambda>m.
                    case segment_file st name of
                      None \<Rightarrow> Inr (False, [SegmentFileMissing])
                    | Some content \<Rightarrow> Inr (verify_segment (env_lib env) (text_of ''capsule_id'') content m)))))"

end
