(* ===== verification/Ledger_Entries.thy ===== *)
theory Ledger_Entries
  imports Ledger_Recovery
begin

text \<open>
  What a ledger store promises: it holds a list of entries. An entry is a capsule with the identity, segment and
  classification it was admitted under; \<open>stored\<close> says that the segments hold the lines of the entries and nothing
  else, and that the index has their rows. The operations of \<^verbatim>\<open>LedgerStore\<close> are related to that list.
\<close>

record LogEntry =
  ae_capsule :: capsule
  ae_id :: pytext
  ae_segment :: pytext
  ae_consequential :: bool
  ae_authenticity :: pytext

definition segment_text :: "LogEntry list \<Rightarrow> pytext \<Rightarrow> bytes" where
  "segment_text es n = lines_bytes (map ae_capsule (filter (\<lambda>e. ae_segment e = n) es))"

definition entry_ok :: "CapsuleLib \<Rightarrow> LogEntry \<Rightarrow> bool" where
  "entry_ok lib e \<longleftrightarrow> capsule_ok (ae_capsule e) \<and> carried_id lib (ae_capsule e) = Inr (JStr (ae_id e)) \<and>
     \<not> line_id_problem (ae_capsule e)"

definition params_of :: "CapsuleLib \<Rightarrow> nat \<Rightarrow> LogEntry \<Rightarrow> Row res" where
  "params_of lib offset e =
     record_params lib (ae_capsule e) (JStr (ae_id e)) (ae_segment e) offset (ae_consequential e) (ae_authenticity e)"

definition entry_row :: "CapsuleLib \<Rightarrow> LogEntry list \<Rightarrow> nat \<Rightarrow> Row res" where
  "entry_row lib es i =
     bindR (params_of lib (length (segment_text (take i es) (ae_segment (es ! i)))) (es ! i)) (\<lambda>r. Inr (r\<lparr>rw_seq := int i + 1\<rparr>))"

definition rows_match :: "CapsuleLib \<Rightarrow> LogEntry list \<Rightarrow> Row list \<Rightarrow> bool" where
  "rows_match lib es rows \<longleftrightarrow> mapR (entry_row lib es) [0..<length es] = Inr rows"

definition files_match :: "'c Store \<Rightarrow> LogEntry list \<Rightarrow> bool" where
  "files_match st es \<longleftrightarrow> (\<forall>n b. segment_file st n = Some b \<longrightarrow> b = segment_text es n) \<and>
     (\<forall>e\<in>set es. segment_file st (ae_segment e) \<noteq> None)"

definition index_holds :: "CapsuleLib \<Rightarrow> 'c Store \<Rightarrow> LogEntry list \<Rightarrow> bool" where
  "index_holds lib st es \<longleftrightarrow> rows_match lib es (dk_rows (st_disk st)) \<and> list_all (entry_ok lib) es \<and> distinct (map ae_id es)"

definition stored :: "CapsuleLib \<Rightarrow> 'c Store \<Rightarrow> LogEntry list \<Rightarrow> bool" where
  "stored lib st es \<longleftrightarrow> index_holds lib st es \<and> files_match st es"

section \<open>Lines in a segment\<close>

lemma lines_bytes_append [simp]: "lines_bytes (cs @ ds) = lines_bytes cs @ lines_bytes ds"
  by (simp add: lines_bytes_def)

lemma lines_bytes_simps [simp]: "lines_bytes [] = []" "lines_bytes (c # cs) = line_bytes c @ lines_bytes cs"
  by (simp_all add: lines_bytes_def)

lemma segment_text_Nil [simp]: "segment_text [] n = []"
  by (simp add: segment_text_def)

lemma segment_text_append [simp]: "segment_text (es @ fs) n = segment_text es n @ segment_text fs n"
  by (simp add: segment_text_def)

lemma segment_text_Cons:
  "segment_text (e # es) n = (if ae_segment e = n then line_bytes (ae_capsule e) else []) @ segment_text es n"
  by (simp add: segment_text_def)

lemma line_bytes_text: "line_bytes c = ascii_bytes (line_text c) @ [10]"
  by (simp only: line_bytes_def line_text_def)

lemma line_body_byte:
  assumes "capsule_ok c" "b \<in> set (ascii_bytes (line_text c))"
  shows "plain_byte b" "0 < b" "b \<noteq> 10"
proof -
  obtain x where x: "x \<in> set (line_text c)" "b = of_nat x" using assms(2) by (auto simp only: ascii_bytes_def set_map)
  then have "32 \<le> x" "x < 128" using line_chars [OF assms(1)] by blast+
  then have "unat b = x" "32 \<le> x" "x < 128" using x(2) by (simp_all add: unat_of_nat take_bit_eq_mod)
  then show "plain_byte b" "0 < b" "b \<noteq> 10" by (auto simp: plain_byte_def word_less_nat_alt)
qed

lemma line_byte_values: "capsule_ok c \<Longrightarrow> b \<in> set (line_bytes c) \<Longrightarrow> plain_byte b \<and> 0 < b"
  using line_body_byte [of c b] by (auto simp only: line_bytes_text set_append Un_iff list.set empty_iff insert_iff) (simp_all add: plain_byte_def)

lemma line_body: "capsule_ok c \<Longrightarrow> \<exists>t. line_bytes c = t @ [10] \<and> 10 \<notin> set t"
  using line_body_byte(3) [of c] line_bytes_text [of c] by blast

lemma lines_plain: "list_all capsule_ok cs \<Longrightarrow> list_all plain_byte (lines_bytes cs) \<and> list_all (\<lambda>b. 0 < b) (lines_bytes cs)"
  using line_byte_values by (induction cs) (auto simp: list_all_iff)

lemma line_at_line: "10 \<notin> set t \<Longrightarrow> line_at (pre @ (t @ [10]) @ post) (length pre) = t @ [10]"
proof -
  assume t: "10 \<notin> set t"
  then have "takeWhile (\<lambda>b. b \<noteq> 10) (t @ 10 # post) = t" "dropWhile (\<lambda>b. b \<noteq> 10) (t @ 10 # post) = 10 # post"
    by (induction t) auto
  then show ?thesis by (simp add: line_at_def)
qed

lemma segment_text_split:
  "i < length es \<Longrightarrow> segment_text es (ae_segment (es ! i)) =
     segment_text (take i es) (ae_segment (es ! i)) @ line_bytes (ae_capsule (es ! i)) @ segment_text (drop (Suc i) es) (ae_segment (es ! i))"
proof -
  assume "i < length es"
  then have "es = take i es @ es ! i # drop (Suc i) es" by (rule id_take_nth_drop)
  then have "segment_text es n = segment_text (take i es @ es ! i # drop (Suc i) es) n" for n by simp
  then show ?thesis by (simp add: segment_text_Cons)
qed

lemma segment_caps_ok: "list_all (entry_ok lib) es \<Longrightarrow> list_all capsule_ok (map ae_capsule (filter (\<lambda>e. ae_segment e = n) es))"
  by (induction es) (auto simp: entry_ok_def)

lemma segment_plain:
  "list_all (entry_ok lib) es \<Longrightarrow> list_all plain_byte (segment_text es n)"
  "list_all (entry_ok lib) es \<Longrightarrow> list_all (\<lambda>b. 0 < b) (segment_text es n)"
  using lines_plain [OF segment_caps_ok] unfolding segment_text_def by blast+

section \<open>Rows\<close>

lemma record_params_fields:
  "record_params lib c i segment offset cons a = Inr r \<Longrightarrow>
     rw_segment r = segment \<and> rw_offset r = offset \<and> rw_consequential r = cons \<and> rw_authenticity r = a \<and>
     text_column lib (Some i) = Inr (Some (rw_capsule_id r)) \<and> text_column lib (map_of c (text_of ''timestamp'')) = Inr (rw_timestamp r)"
  by (clarsimp simp: record_params_def bindR_eq_Inr split: option.splits)

lemma text_column_str: "text_column lib (Some (JStr t)) = Inr v \<longleftrightarrow> utf8_encode t \<noteq> None \<and> v = Some t"
  by (auto simp: text_column_def)

lemma params_ofD:
  "params_of lib offset e = Inr r \<Longrightarrow>
     rw_segment r = ae_segment e \<and> rw_offset r = offset \<and> rw_consequential r = ae_consequential e \<and>
     rw_authenticity r = ae_authenticity e \<and> rw_capsule_id r = ae_id e \<and> utf8_encode (ae_id e) \<noteq> None"
  using record_params_fields by (fastforce simp: params_of_def text_column_str)

lemma rows_match_nth:
  assumes "rows_match lib es rows" "i < length es"
  shows "\<exists>r. params_of lib (length (segment_text (take i es) (ae_segment (es ! i)))) (es ! i) = Inr r \<and> rows ! i = r\<lparr>rw_seq := int i + 1\<rparr>"
  using mapR_nth [OF assms(1)[unfolded rows_match_def], of i] assms(2) by (auto simp: entry_row_def res_simps)

lemma rows_match_length: "rows_match lib es rows \<Longrightarrow> length rows = length es"
  using mapR_length by (fastforce simp: rows_match_def)

lemma rows_match_fields:
  assumes "rows_match lib es rows" "i < length es"
  shows "rw_seq (rows ! i) = int i + 1" "rw_capsule_id (rows ! i) = ae_id (es ! i)" "rw_segment (rows ! i) = ae_segment (es ! i)"
    "rw_offset (rows ! i) = length (segment_text (take i es) (ae_segment (es ! i)))"
    "rw_consequential (rows ! i) = ae_consequential (es ! i)" "rw_authenticity (rows ! i) = ae_authenticity (es ! i)"
    "utf8_encode (ae_id (es ! i)) \<noteq> None"
  using rows_match_nth [OF assms] params_ofD by fastforce+

lemma rows_match_ids: "rows_match lib es rows \<Longrightarrow> map rw_capsule_id rows = map ae_id es"
  using rows_match_length rows_match_fields(2) by (fastforce intro: nth_equalityI)

lemma rows_match_seqs: "rows_match lib es rows \<Longrightarrow> map rw_seq rows = map (\<lambda>i. int i + 1) [0..<length es]"
  using rows_match_length rows_match_fields(1) by (fastforce intro!: nth_equalityI)

lemma fold_max_seqs: "fold max (map (\<lambda>i. int i + 1) [0..<n]) 0 = int n"
  by (induction n) simp_all

lemma rows_match_max: "rows_match lib es rows \<Longrightarrow> max_seq rows = int (length es)"
  by (simp add: max_seq_def rows_match_seqs fold_max_seqs)

lemma rows_match_Nil [simp]: "rows_match lib [] rows \<longleftrightarrow> rows = []"
  by (auto simp: rows_match_def)

lemma mapR_map: "mapR f (map g xs) = mapR (\<lambda>x. f (g x)) xs"
  by (induction xs) simp_all

lemma mapR_cong_set: "(\<And>x. x \<in> set xs \<Longrightarrow> f x = g x) \<Longrightarrow> mapR f xs = mapR g xs"
  by (induction xs) auto

lemma entry_row_append: "i < length es \<Longrightarrow> entry_row lib (es @ fs) i = entry_row lib es i"
  by (simp add: entry_row_def nth_append)

lemma rows_match_snoc:
  assumes "rows_match lib es rows" "params_of lib (length (segment_text es (ae_segment e))) e = Inr r"
  shows "rows_match lib (es @ [e]) (rows @ [r\<lparr>rw_seq := int (length es) + 1\<rparr>])"
proof -
  have "mapR (entry_row lib (es @ [e])) [0..<length es] = mapR (entry_row lib es) [0..<length es]"
    by (intro mapR_cong_set) (simp add: entry_row_append)
  moreover have "entry_row lib (es @ [e]) (length es) = Inr (r\<lparr>rw_seq := int (length es) + 1\<rparr>)"
    using assms(2) by (simp add: entry_row_def)
  ultimately show ?thesis using assms(1) by (simp add: rows_match_def mapR_append)
qed

section \<open>Reading an entry back\<close>

definition entry_record :: "nat \<Rightarrow> LogEntry \<Rightarrow> StoredRecord" where
  "entry_record i e = \<lparr>sr_seq = int i + 1, sr_capsule_id = ae_id e, sr_capsule = JObj (ae_capsule e), sr_segment = ae_segment e,
     sr_consequential = ae_consequential e, sr_authenticity = ae_authenticity e,
     sr_envelopes = bundled_envelopes (ae_capsule e) (ae_authenticity e)\<rparr>"

definition entry_records :: "LogEntry list \<Rightarrow> StoredRecord list" where
  "entry_records es = map (\<lambda>i. entry_record i (es ! i)) [0..<length es]"

lemma storedD:
  assumes "stored lib st es"
  shows "rows_match lib es (dk_rows (st_disk st))" "list_all (entry_ok lib) es" "distinct (map ae_id es)" "files_match st es"
  using assms by (simp_all add: stored_def index_holds_def)

text \<open>Segments that hold more than the entries: extra bytes, \<open>junk n\<close>, behind the lines in segment \<open>n\<close>.\<close>

definition holds :: "CapsuleLib \<Rightarrow> 'c Store \<Rightarrow> LogEntry list \<Rightarrow> (pytext \<Rightarrow> bytes) \<Rightarrow> bool" where
  "holds lib st es junk \<longleftrightarrow> index_holds lib st es \<and> (\<forall>n b. segment_file st n = Some b \<longrightarrow> b = segment_text es n @ junk n) \<and>
     (\<forall>e\<in>set es. segment_file st (ae_segment e) \<noteq> None) \<and> (\<forall>n. list_all plain_byte (junk n))"

lemma stored_holds: "stored lib st es \<Longrightarrow> holds lib st es (\<lambda>_. [])"
  by (simp add: stored_def holds_def files_match_def)

lemma holds_stored: "holds lib st es (\<lambda>_. []) \<Longrightarrow> stored lib st es"
  by (simp add: stored_def holds_def files_match_def)

lemma holdsD:
  assumes "holds lib st es junk"
  shows "rows_match lib es (dk_rows (st_disk st))" "list_all (entry_ok lib) es" "distinct (map ae_id es)" "list_all plain_byte (junk n)"
  using assms by (simp_all add: holds_def index_holds_def)

lemma entry_file:
  assumes "holds lib st es junk" "i < length es"
  shows "segment_file st (ae_segment (es ! i)) = Some (segment_text es (ae_segment (es ! i)) @ junk (ae_segment (es ! i)))"
  using assms by (force simp: holds_def)

lemma entry_line:
  assumes "holds lib st es junk" "i < length es"
  shows "line_at (segment_text es (ae_segment (es ! i)) @ junk (ae_segment (es ! i))) (length (segment_text (take i es) (ae_segment (es ! i)))) =
    line_bytes (ae_capsule (es ! i))"
proof -
  have "capsule_ok (ae_capsule (es ! i))" using holdsD(2) [OF assms(1)] assms(2) by (auto simp: list_all_length entry_ok_def)
  then obtain t where t: "line_bytes (ae_capsule (es ! i)) = t @ [10]" "10 \<notin> set t" using line_body by blast
  show ?thesis unfolding segment_text_split [OF assms(2)] append_assoc t(1) using line_at_line [OF t(2)] by simp
qed

lemma read_entry:
  assumes "holds lib st es junk" "i < length es"
  shows "read_json env st (ae_segment (es ! i)) (length (segment_text (take i es) (ae_segment (es ! i)))) =
    (if unmounted st (ae_segment (es ! i)) then Inl SegmentUnmounted else Inr (JObj (ae_capsule (es ! i))))"
proof -
  let ?n = "ae_segment (es ! i)" and ?c = "ae_capsule (es ! i)"
  let ?text = "segment_text es ?n @ junk ?n" and ?offset = "length (segment_text (take i es) ?n)"
  note st = holdsD [OF assms(1)]
  have c: "capsule_ok ?c" using st(2) assms(2) by (auto simp: list_all_length entry_ok_def)
  have "line_at ?text ?offset = line_bytes ?c" by (rule entry_line [OF assms])
  then have "text_line_at env ?text ?offset = Inr (line_text ?c @ [10])"
    using segment_plain(1) [OF st(2)] st(4) line_unat [OF c] by (simp add: text_line_at_def)
  moreover have "parse_json (line_text ?c @ [10]) = Some (JObj ?c)" using c by (rule parse_line_ws) (simp add: json_space_def)
  ultimately show ?thesis using entry_file [OF assms] by (simp add: read_json_def require_mounted_def)
qed

lemma row_of_entry:
  assumes "holds lib st es junk" "i < length es"
  shows "row_to_record env st (dk_rows (st_disk st) ! i) =
    (if unmounted st (ae_segment (es ! i)) then Inl SegmentUnmounted else Inr (entry_record i (es ! i)))"
  using rows_match_fields [OF holdsD(1) [OF assms(1)] assms(2)] read_entry [OF assms]
  by (simp add: row_to_record_def entry_record_def)

lemma existing_entry:
  assumes "holds lib st es junk" "i < length es"
  shows "existing_record env st (dk_rows (st_disk st) ! i) =
    Inr (if unmounted st (ae_segment (es ! i)) then None else Some (entry_record i (es ! i)))"
  by (simp add: existing_record_def row_of_entry [OF assms])

lemma scan_whole: "scan_all env st = mapR (row_to_record env st) (dk_rows (st_disk st))"
  by (simp add: scan_def whole_scan_def optional_map_def optional_bind_def selected_def column_is_def sql_limit_def Let_def)

lemma scan_entries:
  assumes "holds lib st es junk" "list_all (\<lambda>e. \<not> unmounted st (ae_segment e)) es"
  shows "scan_all env st = Inr (entry_records es)"
proof -
  let ?rows = "dk_rows (st_disk st)"
  have len: "length ?rows = length es" using holdsD(1) [OF assms(1)] by (rule rows_match_length)
  have "?rows = map (\<lambda>i. ?rows ! i) [0..<length es]" unfolding len [symmetric] by (rule map_nth [symmetric])
  then have "mapR (row_to_record env st) ?rows = mapR (row_to_record env st) (map (\<lambda>i. ?rows ! i) [0..<length es])" by simp
  also have "\<dots> = mapR (\<lambda>i. row_to_record env st (?rows ! i)) [0..<length es]" by (simp add: mapR_map)
  also have "\<dots> = Inr (entry_records es)"
    unfolding entry_records_def using assms row_of_entry [OF assms(1)] by (intro mapR_Inr) (simp add: list_all_length)
  finally show ?thesis by (simp only: scan_whole)
qed

lemma find_row_id: "rows_match lib es rows \<Longrightarrow> List.find (\<lambda>r. rw_capsule_id r = t) rows = None \<longleftrightarrow> t \<notin> set (map ae_id es)"
  by (drule rows_match_ids [symmetric]) (auto simp: find_None_iff)

lemma find_nth: "distinct (map f xs) \<Longrightarrow> i < length xs \<Longrightarrow> List.find (\<lambda>x. f x = f (xs ! i)) xs = Some (xs ! i)"
  by (induction xs arbitrary: i) (auto simp: nth_Cons' image_iff dest!: nth_mem)

text \<open>An entry is fetched by its identity, unless its segment is archived.\<close>

lemma stored_row:
  assumes "holds lib st es junk" "i < length es"
  shows "record_row st (ae_id (es ! i)) = Inr (Some (dk_rows (st_disk st) ! i))"
proof -
  let ?rows = "dk_rows (st_disk st)"
  note st = holdsD [OF assms(1)]
  have "distinct (map rw_capsule_id ?rows)" using st(3) by (simp only: rows_match_ids [OF st(1)])
  then have "List.find (\<lambda>r. rw_capsule_id r = rw_capsule_id (?rows ! i)) ?rows = Some (?rows ! i)"
    using assms(2) rows_match_length [OF st(1)] by (intro find_nth) simp_all
  then show ?thesis using rows_match_fields(2,7) [OF st(1) assms(2)] by (simp add: record_row_def bind_text_def)
qed

lemma fetch_entry:
  assumes "holds lib st es junk" "i < length es"
  shows "fetch env st (ae_id (es ! i)) =
    (if unmounted st (ae_segment (es ! i)) then Inl SegmentUnmounted else Inr (Some (entry_record i (es ! i))))"
  using stored_row [OF assms] row_of_entry [OF assms, of env] by (simp add: fetch_def find_row_def)

lemma rows_match_snocD:
  assumes "rows_match lib (es @ [e]) rows"
  obtains rs r where "rows = rs @ [r\<lparr>rw_seq := int (length es) + 1\<rparr>]" "rows_match lib es rs"
    "params_of lib (length (segment_text es (ae_segment e))) e = Inr r"
proof -
  have "mapR (entry_row lib (es @ [e])) [0..<length es] = mapR (entry_row lib es) [0..<length es]"
    by (intro mapR_cong_set) (simp add: entry_row_append)
  moreover have "mapR (entry_row lib (es @ [e])) ([0..<length es] @ [length es]) = Inr rows"
    using assms by (simp add: rows_match_def)
  ultimately obtain rs ys where "mapR (entry_row lib es) [0..<length es] = Inr rs" "rows = rs @ ys"
    "mapR (entry_row lib (es @ [e])) [length es] = Inr ys"
    by (auto simp: mapR_append bindR_eq_Inr)
  then show thesis using that by (auto simp: rows_match_def entry_row_def bindR_eq_Inr)
qed

end
