(* ===== verification/Ledger_Append.thy ===== *)
theory Ledger_Append
  imports Ledger_Entries
begin

text \<open>
  Appending to a ledger store keeps its promise: what the store holds afterwards is the list before it, with the
  new entry at its end or not, or a segment with the torn line of the new entry, which the store refuses to write
  behind.
\<close>

section \<open>The state between operations\<close>

definition segment_names :: "StoreManifest \<Rightarrow> pytext list" where
  "segment_names m = map se_name (sm_segments m)"

text \<open>A managed store: the segments are numbered in order, each file is one of them, and the active segment is the
  last, mounted and there.\<close>

definition managed_ok :: "'c Store \<Rightarrow> bool" where
  "managed_ok st \<longleftrightarrow>
     (let m = st_manifest st; active = seg_name (length (sm_segments m)) in
      segment_names m = map seg_name [1..<Suc (length (sm_segments m))] \<and> sm_segments m \<noteq> [] \<and>
      sm_active_segment m = Some active \<and> se_mounted (last (sm_segments m)) \<and>
      map_of (dk_files (st_disk st)) active \<noteq> None \<and>
      fst ` set (dk_files (st_disk st)) \<subseteq> set (segment_names m) \<and> fst ` set (dk_archived (st_disk st)) \<subseteq> set (segment_names m) \<and>
      (st_write_segment st = None \<or> st_write_segment st = Some active))"

definition live :: "'c Store \<Rightarrow> bool" where
  "live st \<longleftrightarrow>
     (if st_managed st then managed_ok st
      else \<forall>n. st_write_segment st = Some n \<longrightarrow> map_of (dk_files (st_disk st)) n \<noteq> None)"

lemma seg_name_inject [simp]: "seg_name m = seg_name n \<longleftrightarrow> m = n"
proof
  assume "seg_name m = seg_name n"
  then have "replicate (6 - length (dec_nat m)) 48 @ dec_nat m = replicate (6 - length (dec_nat n)) 48 @ dec_nat n"
    unfolding seg_name_def append_assoc [symmetric] append_same_eq by (simp add: append_assoc)
  moreover have "digits_value (replicate k 48 @ ds) = digits_value ds" for k ds
    by (induction k) (simp_all add: digits_value_def)
  ultimately have "digits_value (dec_nat m) = digits_value (dec_nat n)" by metis
  then show "m = n" by simp
qed simp

lemma distinct_segment_names: "segment_names m = map seg_name [1..<k] \<Longrightarrow> distinct (segment_names m)"
  by (simp add: distinct_map inj_on_def)

lemma manifest_entry_nth:
  assumes "distinct (segment_names m)" "i < length (sm_segments m)"
  shows "manifest_entry m (se_name (sm_segments m ! i)) = Some (sm_segments m ! i)"
proof -
  have "List.find (\<lambda>s. se_name s = se_name (xs ! i)) xs = Some (xs ! i)" if "distinct (map se_name xs)" "i < length xs" for xs
    using that by (induction xs arbitrary: i) (auto simp: nth_Cons' image_iff dest!: nth_mem)
  then show ?thesis using assms by (simp add: manifest_entry_def segment_names_def)
qed

lemma managed_active:
  assumes "managed_ok st"
  shows "manifest_entry (st_manifest st) (seg_name (length (sm_segments (st_manifest st)))) = Some (last (sm_segments (st_manifest st)))"
    "se_name (last (sm_segments (st_manifest st))) = seg_name (length (sm_segments (st_manifest st)))"
proof -
  let ?m = "st_manifest st" and ?k = "length (sm_segments (st_manifest st)) - 1"
  have m: "segment_names ?m = map seg_name [1..<Suc (length (sm_segments ?m))]" "sm_segments ?m \<noteq> []"
    using assms by (simp_all add: managed_ok_def Let_def)
  then have last: "last (sm_segments ?m) = sm_segments ?m ! ?k" "?k < length (sm_segments ?m)" by (simp_all add: last_conv_nth)
  have "segment_names ?m ! ?k = seg_name (length (sm_segments ?m))"
    unfolding m(1) using last(2) by (simp del: upt_Suc)
  with last show n: "se_name (last (sm_segments ?m)) = seg_name (length (sm_segments ?m))"
    by (simp add: segment_names_def)
  show "manifest_entry ?m (seg_name (length (sm_segments ?m))) = Some (last (sm_segments ?m))"
    using manifest_entry_nth [OF distinct_segment_names [OF m(1)] last(2)] n last(1) by simp
qed

lemma active_mounted: "managed_ok st \<Longrightarrow> \<not> unmounted st (seg_name (length (sm_segments (st_manifest st))))"
  using managed_active(1) [of st] by (auto simp: unmounted_def entry_of_def managed_ok_def Let_def split: option.splits)

section \<open>Changes of a file\<close>

lemma on_disk_sel [simp]:
  "st_disk (on_disk f st) = f (st_disk st)" "st_managed (on_disk f st) = st_managed st" "st_manifest (on_disk f st) = st_manifest st"
  "st_read_only (on_disk f st) = st_read_only st" "st_max_bytes (on_disk f st) = st_max_bytes st"
  "st_lookup_on (on_disk f st) = st_lookup_on st" "st_needs_recover (on_disk f st) = st_needs_recover st"
  "st_write_segment (on_disk f st) = st_write_segment st" "st_checkpointer (on_disk f st) = st_checkpointer st"
  "st_fields (on_disk f st) = st_fields st" "st_log_id (on_disk f st) = st_log_id st"
  by (simp_all add: on_disk_def)

lemma put_file_sel [simp]:
  "map_of (dk_files (put_file n b d)) = (map_of (dk_files d))(n \<mapsto> b)" "dk_archived (put_file n b d) = dk_archived d"
  "dk_rows (put_file n b d) = dk_rows d" "dk_lookup (put_file n b d) = dk_lookup d" "dk_seg_manifests (put_file n b d) = dk_seg_manifests d"
  "fst ` set (dk_files (put_file n b d)) = insert n (fst ` set (dk_files d))"
  by (simp_all add: put_file_def update_conv' dom_update)

lemma unmounted_cong: "st_managed st = st_managed st' \<Longrightarrow> st_manifest st = st_manifest st' \<Longrightarrow> unmounted st n = unmounted st' n"
  by (simp add: unmounted_def entry_of_def)

lemma segment_file_put:
  "\<not> unmounted st n \<Longrightarrow> segment_file (on_disk (put_file n b) st) = (segment_file st)(n \<mapsto> b)"
  by (rule ext) (simp add: segment_file_def unmounted_cong [of "on_disk (put_file n b) st" st])

lemma segment_file_mounted: "\<not> unmounted st n \<Longrightarrow> segment_file st n = map_of (dk_files (st_disk st)) n"
  by (simp add: segment_file_def)

lemma absent_segment: "files_match st es \<Longrightarrow> segment_file st n = None \<Longrightarrow> segment_text es n = []"
proof -
  assume "files_match st es" "segment_file st n = None"
  then have "filter (\<lambda>e. ae_segment e = n) es = []" by (auto simp: files_match_def filter_empty_conv)
  then show ?thesis by (simp add: segment_text_def)
qed

section \<open>The write segment\<close>

text \<open>What finding the write segment may change.\<close>

definition ready :: "CapsuleLib \<Rightarrow> LogEntry list \<Rightarrow> 'c Store \<Rightarrow> pytext \<Rightarrow> bool" where
  "ready lib es st seg \<longleftrightarrow> live st \<and> stored lib st es \<and> st_write_segment st = Some seg \<and> \<not> unmounted st seg \<and>
     map_of (dk_files (st_disk st)) seg = Some (segment_text es seg)"

definition same_settings :: "'c Store \<Rightarrow> 'c Store \<Rightarrow> bool" where
  "same_settings st st' \<longleftrightarrow> st_managed st' = st_managed st \<and> st_read_only st' = st_read_only st \<and> st_max_bytes st' = st_max_bytes st \<and>
     st_log_id st' = st_log_id st \<and> st_fields st' = st_fields st \<and> st_max_records st' = st_max_records st"

lemma same_settings_refl [simp]: "same_settings st st"
  by (simp add: same_settings_def)

lemma same_settings_trans: "same_settings a b \<Longrightarrow> same_settings b c \<Longrightarrow> same_settings a c"
  by (simp add: same_settings_def)

lemma stored_touch:
  assumes "stored lib st es" "\<not> unmounted st n"
  shows "stored lib (touch n st) es"
proof (cases "map_of (dk_files (st_disk st)) n")
  case None
  then have "segment_file st n = None" using assms(2) by (simp add: segment_file_mounted)
  with storedD(4) [OF assms(1)] have "segment_text es n = []" by (rule absent_segment)
  then have "files_match (touch n st) es"
    using storedD(4) [OF assms(1)] None assms(2) by (auto simp: files_match_def touch_def segment_file_put)
  then show ?thesis using assms(1) None by (simp add: stored_def index_holds_def touch_def)
qed (use assms in \<open>simp add: touch_def\<close>)

lemma touch_file: "map_of (dk_files (st_disk (touch n st))) n \<noteq> None"
  by (simp add: touch_def)

lemma touch_sel [simp]:
  "st_managed (touch n st) = st_managed st" "st_manifest (touch n st) = st_manifest st" "st_write_segment (touch n st) = st_write_segment st"
  "st_needs_recover (touch n st) = st_needs_recover st" "st_checkpointer (touch n st) = st_checkpointer st"
  "st_lookup_on (touch n st) = st_lookup_on st" "dk_rows (st_disk (touch n st)) = dk_rows (st_disk st)"
  "dk_lookup (st_disk (touch n st)) = dk_lookup (st_disk st)" "dk_seg_manifests (st_disk (touch n st)) = dk_seg_manifests (st_disk st)"
  "dk_archived (st_disk (touch n st)) = dk_archived (st_disk st)" "same_settings st (touch n st)"
  by (simp_all add: touch_def same_settings_def on_disk_def put_file_def)

lemma stored_write_segment [simp]: "stored lib (st\<lparr>st_write_segment := w\<rparr>) es = stored lib st es"
  by (simp add: stored_def index_holds_def files_match_def segment_file_def unmounted_def entry_of_def)

lemma unmounted_write_segment [simp]: "unmounted (st\<lparr>st_write_segment := w\<rparr>) n = unmounted st n"
  by (rule unmounted_cong) simp_all

lemma managed_ok_write:
  "managed_ok st \<Longrightarrow> w = None \<or> w = Some (seg_name (length (sm_segments (st_manifest st)))) \<Longrightarrow> managed_ok (st\<lparr>st_write_segment := w\<rparr>)"
  unfolding managed_ok_def Let_def by (elim conjE, intro conjI) simp_all

lemma ready_open:
  assumes "live st" "stored lib st es" "\<not> unmounted st n" "st_managed st \<Longrightarrow> n = seg_name (length (sm_segments (st_manifest st)))"
  shows "ready lib es (open_for_append n st) n"
proof -
  let ?st = "open_for_append n st"
  have t: "st_managed st \<Longrightarrow> touch n st = st"
    using assms(1,4) by (auto simp: live_def managed_ok_def Let_def touch_def)
  have "live ?st"
  proof (cases "st_managed st")
    case True
    then have "managed_ok st" "n = seg_name (length (sm_segments (st_manifest st)))" using assms(1,4) by (simp_all add: live_def)
    then show ?thesis using True managed_ok_write [of st "Some n"] t [OF True]
      by (simp only: live_def open_for_append_def) simp
  qed (use touch_file [of n st] in \<open>simp add: live_def open_for_append_def\<close>)
  moreover have s: "stored lib ?st es" using stored_touch [OF assms(2,3)] by (simp add: open_for_append_def)
  moreover have u: "\<not> unmounted ?st n" using assms(3) unmounted_cong [of ?st st] by (simp add: open_for_append_def)
  moreover obtain b where b: "map_of (dk_files (st_disk ?st)) n = Some b" using touch_file [of n st] by (auto simp: open_for_append_def)
  moreover have "b = segment_text es n" using storedD(4) [OF s] b u by (auto simp: files_match_def segment_file_mounted)
  ultimately show ?thesis by (simp add: ready_def open_for_append_def)
qed

lemma ready_already:
  assumes "live st" "stored lib st es" "st_write_segment st = Some n" "\<not> unmounted st n"
  shows "ready lib es st n"
proof -
  obtain b where b: "map_of (dk_files (st_disk st)) n = Some b"
    using assms(1,3) by (auto simp: live_def managed_ok_def Let_def split: if_splits)
  then have "b = segment_text es n" using storedD(4) [OF assms(2)] assms(4) by (auto simp: files_match_def segment_file_mounted)
  with assms b show ?thesis by (simp add: ready_def)
qed

lemma unmanaged_mounted: "\<not> st_managed st \<Longrightarrow> \<not> unmounted st n"
  by (simp add: unmounted_def entry_of_def)

definition write_target :: "'c Store \<Rightarrow> pytext" where
  "write_target st =
     (if st_managed st then seg_name (length (sm_segments (st_manifest st)))
      else let segments = existing_segments st in
        if segments = [] \<or> st_max_records st \<le> segment_record_count st (last segments)
        then seg_name (length segments + 1) else last segments)"

lemma open_touch: "open_for_append n (touch n st) = open_for_append n st"
proof -
  have "touch n (touch n st) = touch n st" using touch_file [of n st] by (simp only: touch_def [of n "touch n st"] if_False)
  then show ?thesis by (simp add: open_for_append_def)
qed

text \<open>The write segment of a live store is found or created, and nothing else changes.\<close>

lemma sync_ready:
  assumes "live st" "stored lib st es"
  shows "ready lib es (sync_write_segment st) (write_target st) \<and> same_settings st (sync_write_segment st) \<and>
    st_manifest (sync_write_segment st) = st_manifest st \<and> st_needs_recover (sync_write_segment st) = st_needs_recover st \<and>
    st_lookup_on (sync_write_segment st) = st_lookup_on st \<and> dk_lookup (st_disk (sync_write_segment st)) = dk_lookup (st_disk st) \<and>
    st_checkpointer (sync_write_segment st) = st_checkpointer st \<and> dk_rows (st_disk (sync_write_segment st)) = dk_rows (st_disk st)"
proof -
  let ?n = "write_target st"
  have shape: "sync_write_segment st = open_for_append ?n st \<or> sync_write_segment st = st \<and> st_write_segment st = Some ?n \<or>
      sync_write_segment st = touch ?n st \<and> st_write_segment st = Some ?n \<and> \<not> st_managed st"
    using assms(1) by (auto simp: sync_write_segment_def sync_write_segment_managed_def write_target_def Let_def live_def managed_ok_def
        open_touch split: if_splits)
  have u: "\<not> unmounted st ?n"
    using active_mounted [of st] unmanaged_mounted [of st] assms(1) by (auto simp: write_target_def live_def)
  from shape consider "sync_write_segment st = open_for_append ?n st" | "sync_write_segment st = st" "st_write_segment st = Some ?n"
    | "sync_write_segment st = touch ?n st" "st_write_segment st = Some ?n" "\<not> st_managed st" by blast
  then show ?thesis
  proof cases
    case 1
    have "ready lib es (open_for_append ?n st) ?n"
      using assms u by (rule ready_open) (simp add: write_target_def)
    then show ?thesis unfolding 1 by (simp add: open_for_append_def same_settings_def [of st]) (simp add: touch_def on_disk_def)
  next
    case 2
    then show ?thesis using ready_already [OF assms _ u] by simp
  next
    case 3
    have "live (touch ?n st)" using assms(1) 3 by (auto simp: live_def touch_def)
    moreover have "\<not> unmounted (touch ?n st) ?n" using 3(3) by (intro unmanaged_mounted) simp
    ultimately have "ready lib es (touch ?n st) ?n"
      using stored_touch [OF assms(2) u] 3(2) by (intro ready_already) simp_all
    then show ?thesis unfolding 3(1) by simp
  qed
qed

section \<open>Writing a line\<close>

text \<open>A segment that holds more than the index has: bytes behind the lines of its entries.\<close>

definition torn :: "CapsuleLib \<Rightarrow> 'c Store \<Rightarrow> LogEntry list \<Rightarrow> pytext \<Rightarrow> bytes \<Rightarrow> bool" where
  "torn lib st es seg junk \<longleftrightarrow> index_holds lib st es \<and> live st \<and> \<not> unmounted st seg \<and>
     (st_managed st \<longrightarrow> sm_active_segment (st_manifest st) = Some seg) \<and>
     map_of (dk_files (st_disk st)) seg = Some (segment_text es seg @ junk) \<and>
     (\<forall>n b. segment_file st n = Some b \<longrightarrow> n \<noteq> seg \<longrightarrow> b = segment_text es n) \<and>
     (\<forall>e\<in>set es. segment_file st (ae_segment e) \<noteq> None)"

lemma segment_file_cong:
  "dk_files (st_disk st') = dk_files (st_disk st) \<Longrightarrow> dk_archived (st_disk st') = dk_archived (st_disk st) \<Longrightarrow>
     (\<And>n. unmounted st' n = unmounted st n) \<Longrightarrow> segment_file st' n = segment_file st n"
  by (simp add: segment_file_def)

lemma stored_cong:
  "dk_rows (st_disk st') = dk_rows (st_disk st) \<Longrightarrow> (\<And>n. segment_file st' n = segment_file st n) \<Longrightarrow> stored lib st' es = stored lib st es"
  by (simp add: stored_def index_holds_def files_match_def)

lemma live_cong:
  assumes "st_managed st' = st_managed st" "st_manifest st' = st_manifest st" "st_write_segment st' = st_write_segment st"
    "dk_files (st_disk st') = dk_files (st_disk st)" "dk_archived (st_disk st') = dk_archived (st_disk st)"
  shows "live st' = live st"
  unfolding live_def managed_ok_def assms ..

lemma managed_ok_put:
  "managed_ok st \<Longrightarrow> seg \<in> set (segment_names (st_manifest st)) \<Longrightarrow> managed_ok (on_disk (put_file seg b) st)"
  unfolding managed_ok_def Let_def by (elim conjE, intro conjI) simp_all

lemma ready_named: "ready lib es st seg \<Longrightarrow> st_managed st \<Longrightarrow> seg \<in> set (segment_names (st_manifest st))"
proof -
  assume r: "ready lib es st seg" "st_managed st"
  then have m: "managed_ok st" and f: "map_of (dk_files (st_disk st)) seg \<noteq> None" by (simp_all add: ready_def live_def)
  from f have "seg \<in> fst ` set (dk_files (st_disk st))" by (metis map_of_eq_None_iff)
  then show ?thesis using m unfolding managed_ok_def Let_def by blast
qed

lemma live_put: "ready lib es st seg \<Longrightarrow> live (on_disk (put_file seg b) st)"
proof -
  assume r: "ready lib es st seg"
  show ?thesis
  proof (cases "st_managed st")
    case True
    then show ?thesis using r managed_ok_put [OF _ ready_named [OF r True]] by (simp add: live_def ready_def)
  next
    case False
    then show ?thesis using r by (auto simp: live_def ready_def)
  qed
qed

lemma put_segment_file:
  assumes "ready lib es st seg"
  shows "segment_file (on_disk (put_file seg b) st) = (segment_file st)(seg \<mapsto> b)"
  using assms by (intro segment_file_put) (simp add: ready_def)

lemma other_files:
  assumes "ready lib es st seg" "segment_file (on_disk (put_file seg b) st) n = Some x" "n \<noteq> seg"
  shows "x = segment_text es n"
  using assms unfolding put_segment_file [OF assms(1)] by (auto simp: ready_def stored_def files_match_def)

lemma stored_line:
  assumes r: "ready lib es st seg" and e: "entry_ok lib e" "ae_segment e = seg" "ae_id e \<notin> set (map ae_id es)"
    and p: "params_of lib (length (segment_text es seg)) e = Inr row"
  defines "st1 \<equiv> on_disk (put_file seg (segment_text es seg @ line_bytes (ae_capsule e))) st"
  shows "\<exists>d. insert_row row (st_disk st1) = Inr (int (length es) + 1, d) \<and> stored lib (st1\<lparr>st_disk := d\<rparr>) (es @ [e]) \<and>
    live (st1\<lparr>st_disk := d\<rparr>) \<and> d = (st_disk st1)\<lparr>dk_rows := dk_rows d\<rparr>"
proof -
  let ?rows = "dk_rows (st_disk st)"
  let ?d = "(st_disk st1)\<lparr>dk_rows := ?rows @ [row\<lparr>rw_seq := int (length es) + 1\<rparr>]\<rparr>"
  have st: "rows_match lib es ?rows" "list_all (entry_ok lib) es" "distinct (map ae_id es)" "files_match st es"
    using r storedD by (auto simp: ready_def)
  have "rw_capsule_id row \<notin> set (map rw_capsule_id ?rows)"
    using params_ofD [OF p] e(3) by (simp add: rows_match_ids [OF st(1)] del: set_map)
  then have "\<not> list_ex (\<lambda>r. rw_capsule_id r = rw_capsule_id row) ?rows" by (auto simp: list_ex_iff image_iff)
  then have "insert_row row (st_disk st1) = Inr (int (length es) + 1, ?d)"
    by (simp add: insert_row_def Let_def rows_match_max [OF st(1)] st1_def)
  moreover have "stored lib (st1\<lparr>st_disk := ?d\<rparr>) (es @ [e])"
  proof -
    have f: "segment_file (st1\<lparr>st_disk := ?d\<rparr>) = (segment_file st)(seg \<mapsto> segment_text es seg @ line_bytes (ae_capsule e))"
    proof -
      have "segment_file (st1\<lparr>st_disk := ?d\<rparr>) n = segment_file st1 n" for n
        by (rule segment_file_cong) (simp_all add: unmounted_cong [of "st1\<lparr>st_disk := ?d\<rparr>" st1])
      then show ?thesis using put_segment_file [OF r] by (simp add: st1_def fun_eq_iff)
    qed
    have "files_match (st1\<lparr>st_disk := ?d\<rparr>) (es @ [e])"
      using st(4) e(2) unfolding files_match_def f by (auto simp: segment_text_Cons)
    moreover have "rows_match lib (es @ [e]) (dk_rows ?d)" using rows_match_snoc [OF st(1)] p e(2) by simp
    ultimately show ?thesis using st e by (simp add: stored_def index_holds_def)
  qed
  moreover have "live (st1\<lparr>st_disk := ?d\<rparr>)"
    using live_put [OF r, of "segment_text es seg @ line_bytes (ae_capsule e)"] live_cong [of "st1\<lparr>st_disk := ?d\<rparr>" st1]
    by (simp add: st1_def)
  ultimately show ?thesis by force
qed

lemma live_drop: "live st \<Longrightarrow> live (failed_write st)" "live st \<Longrightarrow> live (drop_write_handle st)"
proof -
  have m: "managed_ok (drop_write_handle st) \<Longrightarrow> managed_ok (failed_write st)"
    unfolding failed_write_def managed_ok_def Let_def by (elim conjE, intro conjI) simp_all
  assume l: "live st"
  then show "live (drop_write_handle st)"
    using managed_ok_write [of st None] by (simp add: live_def drop_write_handle_def split: if_splits)
  with m show "live (failed_write st)"
    by (simp add: live_def drop_write_handle_def failed_write_def split: if_splits)
qed

lemma ready_active: "ready lib es st seg \<Longrightarrow> st_managed st \<Longrightarrow> sm_active_segment (st_manifest st) = Some seg"
  by (auto simp: ready_def live_def managed_ok_def Let_def)

lemma torn_line:
  assumes r: "ready lib es st seg"
  shows "torn lib (failed_write (on_disk (put_file seg (segment_text es seg @ junk)) st)) es seg junk"
    (is "torn lib (failed_write ?st) es seg junk")
proof -
  let ?t = "failed_write ?st"
  have d: "st_disk ?t = st_disk ?st" "st_managed ?t = st_managed st" "st_manifest ?t = st_manifest st"
    by (simp_all add: failed_write_def drop_write_handle_def)
  then have u: "unmounted ?t n = unmounted st n" for n by (intro unmounted_cong) simp_all
  have f: "segment_file ?t n = segment_file ?st n" for n
    using u [of n] unmounted_cong [of ?st st n] by (simp add: segment_file_def d)
  have "live ?t" by (rule live_drop) (rule live_put [OF r])
  moreover have "index_holds lib ?t es" using r by (simp add: index_holds_def ready_def stored_def d)
  moreover have "\<not> unmounted ?t seg" using r u by (simp add: ready_def)
  moreover have "segment_file ?t (ae_segment e) \<noteq> None" if "e \<in> set es" for e
    using r that unfolding f put_segment_file [OF r] by (auto simp: ready_def stored_def files_match_def)
  moreover have "b = segment_text es n" if "segment_file ?t n = Some b" "n \<noteq> seg" for n b
    using other_files [OF r _ that(2)] that(1) unfolding f by blast
  ultimately show ?thesis using ready_active [OF r] by (auto simp: torn_def d)
qed

section \<open>The lookup index\<close>

text \<open>Writing a lookup row changes nothing the promise is about.\<close>

definition lookup_change :: "'c Store \<Rightarrow> 'c Store \<Rightarrow> bool" where
  "lookup_change st st' \<longleftrightarrow> (\<exists>l b. st' = st\<lparr>st_disk := (st_disk st)\<lparr>dk_lookup := l\<rparr>, st_lookup_on := b\<rparr>)"

lemma lookup_change_refl: "lookup_change st st"
  unfolding lookup_change_def by (intro exI [of _ "dk_lookup (st_disk st)"] exI [of _ "st_lookup_on st"]) simp

lemma lookup_change_trans: "lookup_change a b \<Longrightarrow> lookup_change b c \<Longrightarrow> lookup_change a c"
proof -
  assume "lookup_change a b" "lookup_change b c"
  then obtain l x m y where b: "b = a\<lparr>st_disk := (st_disk a)\<lparr>dk_lookup := l\<rparr>, st_lookup_on := x\<rparr>"
    and c: "c = b\<lparr>st_disk := (st_disk b)\<lparr>dk_lookup := m\<rparr>, st_lookup_on := y\<rparr>" unfolding lookup_change_def by blast
  show ?thesis unfolding lookup_change_def b c by (intro exI [of _ m] exI [of _ y]) simp
qed

lemma lookup_record_change: "lookup_record env fails seq c i segment offset st = (r, st') \<Longrightarrow> lookup_change st st'"
proof -
  have "lookup_change st (st\<lparr>st_lookup_on := b\<rparr>)" for b
    unfolding lookup_change_def by (intro exI [of _ "dk_lookup (st_disk st)"] exI [of _ b]) simp
  moreover have "lookup_change st (on_disk (\<lambda>d. d\<lparr>dk_lookup := l\<rparr>) st)" for l
    unfolding lookup_change_def by (intro exI [of _ l] exI [of _ "st_lookup_on st"]) (simp add: on_disk_def)
  ultimately show "lookup_record env fails seq c i segment offset st = (r, st') \<Longrightarrow> lookup_change st st'"
    by (auto simp: lookup_record_def lookup_change_refl split: if_splits option.splits prod.splits sum.splits)
qed

lemma lookup_change_sel:
  assumes "lookup_change st st'"
  shows "st_managed st' = st_managed st" "same_settings st st'" "st_needs_recover st' = st_needs_recover st"
    "st_write_segment st' = st_write_segment st" "st_manifest st' = st_manifest st" "st_checkpointer st' = st_checkpointer st"
    "dk_rows (st_disk st') = dk_rows (st_disk st)" "dk_files (st_disk st') = dk_files (st_disk st)"
    "dk_archived (st_disk st') = dk_archived (st_disk st)" "dk_seg_manifests (st_disk st') = dk_seg_manifests (st_disk st)"
  using assms by (auto simp: lookup_change_def same_settings_def)

lemma lookup_change_keeps:
  assumes "lookup_change st st'"
  shows "unmounted st' n = unmounted st n" "segment_file st' n = segment_file st n" "stored lib st' es = stored lib st es" "live st' = live st"
proof -
  note sel = lookup_change_sel [OF assms]
  show u: "unmounted st' n = unmounted st n" for n by (rule unmounted_cong) (simp_all add: sel)
  show f: "segment_file st' n = segment_file st n" for n by (rule segment_file_cong) (simp_all add: sel u)
  show "stored lib st' es = stored lib st es" by (rule stored_cong) (simp_all add: sel f)
  show "live st' = live st" by (rule live_cong) (simp_all add: sel)
qed

section \<open>Rotation\<close>

lemma update_entry_names: "(\<And>e. se_name (f e) = se_name e) \<Longrightarrow> map se_name (update_entry n f es) = map se_name es"
  by (induction es) auto

lemma update_entry_length [simp]: "length (update_entry n f es) = length es"
  by (induction es) auto

lemma find_update_entry:
  "(\<And>e. se_name (f e) = se_name e) \<Longrightarrow> List.find (\<lambda>s. se_name s = k) (update_entry n f es) =
     (if k = n then map_option f (List.find (\<lambda>s. se_name s = k) es) else List.find (\<lambda>s. se_name s = k) es)"
  by (induction es) auto

lemma find_snoc: "List.find P (xs @ [x]) = (case List.find P xs of Some y \<Rightarrow> Some y | None \<Rightarrow> if P x then Some x else None)"
  by (induction xs) auto

text \<open>A segment closed and a new one begun: no segment changes its place.\<close>

lemma live_managed: "live st \<Longrightarrow> st_managed st \<Longrightarrow> managed_ok st"
  by (simp add: live_def)

lemma managed_okD:
  assumes "managed_ok st"
  shows "segment_names (st_manifest st) = map seg_name [1..<Suc (length (sm_segments (st_manifest st)))]" "sm_segments (st_manifest st) \<noteq> []"
    "sm_active_segment (st_manifest st) = Some (seg_name (length (sm_segments (st_manifest st))))"
    "fst ` set (dk_files (st_disk st)) \<subseteq> set (segment_names (st_manifest st))"
    "fst ` set (dk_archived (st_disk st)) \<subseteq> set (segment_names (st_manifest st))"
  using assms unfolding managed_ok_def Let_def by blast+

definition closed_manifest :: "pytext \<Rightarrow> pytext \<Rightarrow> pytext \<Rightarrow> int \<Rightarrow> StoreManifest \<Rightarrow> StoreManifest" where
  "closed_manifest name manifest_name root mmr_size m =
     m\<lparr>sm_segments := update_entry name (close_entry manifest_name root mmr_size) (sm_segments m) @ [fresh_entry (seg_name (Suc (length (sm_segments m))))],
       sm_active_segment := Some (seg_name (Suc (length (sm_segments m))))\<rparr>"

lemma close_entry_name [simp]: "se_name (close_entry mn root k e) = se_name e" "se_mounted (close_entry mn root k e) = se_mounted e"
  by (simp_all add: close_entry_def)

lemma entry_closed:
  "manifest_entry (closed_manifest name mn root k m) n =
     (case manifest_entry m n of
        Some e \<Rightarrow> Some (if n = name then close_entry mn root k e else e)
      | None \<Rightarrow> if n = seg_name (Suc (length (sm_segments m))) then Some (fresh_entry n) else None)"
  by (auto simp: manifest_entry_def closed_manifest_def find_snoc find_update_entry fresh_entry_def split: option.splits)

abbreviation begun :: "pytext \<Rightarrow> SegmentManifest \<Rightarrow> 'c Store \<Rightarrow> 'c Store" where
  "begun name man st \<equiv> start_segment (drop_write_handle (seal_segment name man st))"

abbreviation next_name :: "'c Store \<Rightarrow> pytext" where
  "next_name st \<equiv> seg_name (Suc (length (sm_segments (st_manifest st))))"

lemma begun_sel:
  "st_manifest (begun name man st) = closed_manifest name (manifest_filename (st_log_id st) (gm_mmr_size man)) (gm_checkpoint_root man) (gm_mmr_size man) (st_manifest st)"
  "st_managed (begun name man st) = st_managed st" "st_needs_recover (begun name man st) = st_needs_recover st"
  "st_checkpointer (begun name man st) = st_checkpointer st" "st_write_segment (begun name man st) = None"
  "st_lookup_on (begun name man st) = st_lookup_on st"
  "same_settings st (begun name man st)"
  "dk_rows (st_disk (begun name man st)) = dk_rows (st_disk st)" "dk_lookup (st_disk (begun name man st)) = dk_lookup (st_disk st)"
  "dk_archived (st_disk (begun name man st)) = dk_archived (st_disk st)"
  "dk_files (st_disk (begun name man st)) = dk_files (st_disk (touch (next_name st) st))"
  "dk_seg_manifests (st_disk (begun name man st)) =
     AList.update (manifest_filename (st_log_id st) (gm_mmr_size man)) (segment_manifest_to_dict man) (dk_seg_manifests (st_disk st))"
  by (simp_all add: start_segment_def save_store_manifest_def new_segment_name_def drop_write_handle_def seal_segment_def Let_def
      closed_manifest_def touch_def same_settings_def) (simp_all add: on_disk_def put_file_def)

lemma closed_names:
  "segment_names (closed_manifest name mn root k m) = segment_names m @ [seg_name (Suc (length (sm_segments m)))]"
  "length (sm_segments (closed_manifest name mn root k m)) = Suc (length (sm_segments m))"
  by (simp_all add: segment_names_def closed_manifest_def update_entry_names fresh_entry_def)

lemma close_segment_keeps:
  assumes l: "live st" and m: "st_managed st" and s: "stored lib st es"
  shows "stored lib (begun name man st) es \<and> live (begun name man st) \<and> unmounted (begun name man st) = unmounted st"
proof -
  let ?b = "begun name man st"
  have ok: "managed_ok st" using l m by (rule live_managed)
  note names = managed_okD [OF ok]
  have new: "next_name st \<notin> set (segment_names (st_manifest st))" using names(1) by (auto simp del: upt_Suc)
  then have noentry: "manifest_entry (st_manifest st) (next_name st) = None"
    by (auto simp: manifest_entry_def segment_names_def find_None_iff image_iff)
  have u: "unmounted ?b n = unmounted st n" for n
    using noentry by (simp add: unmounted_def entry_of_def begun_sel m entry_closed fresh_entry_def split: option.splits)
  have "\<not> unmounted st (next_name st)" using noentry by (simp add: unmounted_def entry_of_def)
  then have "stored lib (touch (next_name st) st) es" using s by (intro stored_touch)
  moreover have "segment_file ?b n = segment_file (touch (next_name st) st) n" for n
    by (rule segment_file_cong) (simp_all add: begun_sel u unmounted_cong [of "touch (next_name st) st" st])
  ultimately have "stored lib ?b es"
    using stored_cong [of ?b "touch (next_name st) st" lib es] by (simp add: begun_sel)
  moreover have "managed_ok ?b"
    unfolding managed_ok_def Let_def begun_sel closed_names
  proof (intro conjI)
    show "segment_names (st_manifest st) @ [next_name st] = map seg_name [1..<Suc (Suc (length (sm_segments (st_manifest st))))]"
      using names(1) by simp
    show "fst ` set (dk_files (st_disk (touch (next_name st) st))) \<subseteq> set (segment_names (st_manifest st) @ [next_name st])"
      using names(4) by (auto simp: touch_def)
  qed (use names(5) touch_file [of "next_name st" st] in \<open>auto simp: closed_manifest_def fresh_entry_def\<close>)
  ultimately show ?thesis using u by (simp add: live_def begun_sel m fun_eq_iff)
qed

lemma keeps_checkpointer [simp]:
  "stored lib (st\<lparr>st_checkpointer := x\<rparr>) es = stored lib st es" "live (st\<lparr>st_checkpointer := x\<rparr>) = live st"
  "same_settings st (st\<lparr>st_checkpointer := x\<rparr>)"
proof -
  have "unmounted (st\<lparr>st_checkpointer := x\<rparr>) n = unmounted st n" for n by (rule unmounted_cong) simp_all
  then show "stored lib (st\<lparr>st_checkpointer := x\<rparr>) es = stored lib st es" by (intro stored_cong segment_file_cong) simp_all
  show "live (st\<lparr>st_checkpointer := x\<rparr>) = live st" by (rule live_cong) simp_all
qed (simp add: same_settings_def)

lemma keeps_manifest_file [simp]:
  "stored lib (on_disk (\<lambda>d. d\<lparr>dk_seg_manifests := g d\<rparr>) st) es = stored lib st es"
  "live (on_disk (\<lambda>d. d\<lparr>dk_seg_manifests := g d\<rparr>) st) = live st"
  "same_settings st (on_disk (\<lambda>d. d\<lparr>dk_seg_manifests := g d\<rparr>) st)"
proof -
  have "unmounted (on_disk (\<lambda>d. d\<lparr>dk_seg_manifests := g d\<rparr>) st) n = unmounted st n" for n by (rule unmounted_cong) simp_all
  then show "stored lib (on_disk (\<lambda>d. d\<lparr>dk_seg_manifests := g d\<rparr>) st) es = stored lib st es" by (intro stored_cong segment_file_cong) simp_all
  show "live (on_disk (\<lambda>d. d\<lparr>dk_seg_manifests := g d\<rparr>) st) = live st" by (rule live_cong) simp_all
qed (simp add: same_settings_def on_disk_def)

definition keeps :: "CapsuleLib \<Rightarrow> LogEntry list \<Rightarrow> 'c Store \<Rightarrow> 'c Store \<Rightarrow> bool" where
  "keeps lib es st st' \<longleftrightarrow> stored lib st' es \<and> live st' \<and> same_settings st st' \<and> st_needs_recover st' = st_needs_recover st \<and>
     unmounted st' = unmounted st"

lemma unmounted_checkpointer [simp]: "unmounted (st\<lparr>st_checkpointer := x\<rparr>) = unmounted st"
  by (intro ext unmounted_cong) simp_all

lemma unmounted_on_disk [simp]: "unmounted (on_disk f st) = unmounted st"
  by (intro ext unmounted_cong) simp_all

lemma unmounted_disk [simp]: "unmounted (st\<lparr>st_disk := d\<rparr>) = unmounted st"
  by (intro ext unmounted_cong) simp_all

lemma unmounted_settings: "same_settings st st' \<Longrightarrow> st_manifest st' = st_manifest st \<Longrightarrow> unmounted st' = unmounted st"
  by (intro ext unmounted_cong) (simp_all add: same_settings_def)

lemma keeps_refl: "stored lib st es \<Longrightarrow> live st \<Longrightarrow> keeps lib es st st"
  by (simp add: keeps_def)

lemma keeps_trans: "keeps lib es a b \<Longrightarrow> keeps lib fs b c \<Longrightarrow> keeps lib fs a c"
  unfolding keeps_def using same_settings_trans by metis

lemma sync_keeps: "live st \<Longrightarrow> stored lib st es \<Longrightarrow> keeps lib es st (sync_write_segment st)"
proof -
  assume l: "live st" "stored lib st es"
  note sync = sync_ready [OF l]
  then have "unmounted (sync_write_segment st) = unmounted st" by (intro unmounted_settings) simp_all
  then show ?thesis using sync by (simp add: keeps_def ready_def)
qed

lemma close_keeps:
  assumes "live st" "st_managed st" "stored lib st es"
  shows "keeps lib es st (close_segment name man st)"
proof -
  have k: "keeps lib es st (begun name man st)" using close_segment_keeps [OF assms] by (simp add: keeps_def begun_sel)
  moreover have "keeps lib es (begun name man st) (sync_write_segment (begun name man st))"
    using k by (intro sync_keeps) (simp_all add: keeps_def)
  ultimately show ?thesis unfolding close_segment_def by (rule keeps_trans)
qed

lemma rotate_keeps:
  assumes "live st" "st_managed st" "stored lib st es"
  shows "keeps lib es st (snd (rotate_segment env st))"
proof -
  have k: "keeps lib es st (st\<lparr>st_checkpointer := x\<rparr>)" for x using assms by (simp add: keeps_def)
  moreover have "keeps lib es st (on_disk (\<lambda>d. d\<lparr>dk_seg_manifests := g d\<rparr>) (st\<lparr>st_checkpointer := x\<rparr>))" for x g
    using k [of x] by (rule keeps_trans) (use assms in \<open>simp add: keeps_def\<close>)
  moreover have "keeps lib es st (close_segment n m (st\<lparr>st_checkpointer := x\<rparr>))" for n m x
    using k [of x] by (rule keeps_trans) (use assms in \<open>simp add: close_keeps\<close>)
  ultimately show ?thesis
    using keeps_refl [OF assms(3,1)] unfolding rotate_segment_def Let_def
    by (simp split: option.split prod.split sum.split)
qed

section \<open>What is stored is read back under the same identity\<close>

text \<open>The documented rule of \<^verbatim>\<open>compute_capsule_id\<close>: the members \<^verbatim>\<open>signature\<close> and \<^verbatim>\<open>key_id\<close> are not hashed.\<close>

definition excludes_envelope :: "CapsuleLib \<Rightarrow> bool" where
  "excludes_envelope lib \<longleftrightarrow> (\<forall>c k v. k \<in> {text_of ''signature'', text_of ''key_id''} \<longrightarrow> cap_id lib (dict_insert k v c) = cap_id lib c)"

declare map_of_insert [simp]

lemma insert_keys: "set (map fst (dict_insert k v c)) = insert k (set (map fst c))"
proof (induction c)
  case (Cons m c)
  then show ?case by (cases m) (simp add: insert_commute)
qed simp

lemma insert_distinct: "distinct (map fst c) \<Longrightarrow> distinct (map fst (dict_insert k v c))"
proof (induction c)
  case (Cons m c)
  then show ?case using insert_keys [of k v c] by (cases m) (auto simp del: set_map)
qed simp

lemma insert_all: "list_all P c \<Longrightarrow> P (k, v) \<Longrightarrow> list_all P (dict_insert k v c)"
  by (induction c) auto

lemma capsule_ok_insert: "capsule_ok c \<Longrightarrow> scalar_text k \<Longrightarrow> scalar_text t \<Longrightarrow> capsule_ok (dict_insert k (JStr t) c)"
  by (simp add: capsule_ok_def insert_distinct insert_all)

lemma hex_scalar: "fromhex_text t = Inr b \<Longrightarrow> scalar_text t"
  by (force simp: fromhex_text_def scalar_text_def split: if_splits)

lemma stored_form_ok:
  assumes lib: "excludes_envelope lib" and c: "capsule_ok c" and r: "resolve_admission lib c q = Inr r"
    and f: "stored_form lib c r = Inr (t, JStr i)" and i: "\<not> id_problem t (JStr i)"
  shows "capsule_ok t \<and> carried_id lib t = Inr (JStr i) \<and> \<not> line_id_problem t \<and>
    bundled_envelopes t (re_authenticity r) = take 1 (re_verified_envelopes r)"
proof (cases "aq_mode q = UNSIGNED")
  case True
  then have a: "re_authenticity r = AUTHENTICITY_UNSIGNED" "re_verified_envelopes r = []" using r by (auto simp: resolve_unsigned)
  then have "t = c" "carried_id lib c = Inr (JStr i)" using a f by (auto simp: stored_form_def res_simps)
  then show ?thesis using a c i by (simp add: id_problem_def bundled_envelopes_def)
next
  case False
  with resolve_signedD [OF r] obtain j where j: "cap_id lib c = Inr j" "re_capsule_id r = Some j"
    "re_authenticity r = AUTHENTICITY_SIGNED" "re_verified_envelopes r \<noteq> []"
    "re_verified_envelopes r = filter (\<lambda>e. envelope_verifies lib j e = Inr True) (candidate_envelopes c q)" by blast
  obtain p ps where p: "re_verified_envelopes r = p # ps" using j(4) by (cases "re_verified_envelopes r") blast+
  let ?t = "dict_insert (text_of ''key_id'') (JStr (pe_key_id p)) (dict_insert (text_of ''signature'') (JStr (pe_envelope p)) c)"
  have same: "cap_id lib ?t = Inr j" using lib j(1) by (simp add: excludes_envelope_def)
  have t: "t = ?t" "i = j" using f j(1-3) p same by (auto simp: stored_form_def Let_def res_simps split: if_splits)
  have "p \<in> set (re_verified_envelopes r)" by (simp add: p)
  then have "envelope_verifies lib j p = Inr True" unfolding j(5) by simp
  from envelope_verifiesD [OF this] have "scalar_text (pe_envelope p)" "scalar_text (pe_key_id p)" using hex_scalar by blast+
  then have "capsule_ok t" unfolding t(1) using c by (intro capsule_ok_insert) simp_all
  moreover have "carried_id lib t = Inr (JStr i)"
    using i same unfolding t by (auto simp: carried_id_def id_problem_def line_id_problem_def py_bool_def split: option.splits json.splits)
  moreover have "text_of ''signature'' \<noteq> text_of ''key_id''" by simp
  then have "embedded_envelope t = Some p" unfolding t(1) by (simp add: embedded_envelope_def)
  ultimately show ?thesis using i j(3) p by (simp add: id_problem_def bundled_envelopes_def)
qed

section \<open>Appending\<close>

lemma same_settings_managed: "same_settings st st' \<Longrightarrow> st_managed st' = st_managed st"
  by (simp add: same_settings_def)

text \<open>What an append may leave behind: the entries before it, one more, or a torn line.\<close>

definition append_outcome ::
  "CapsuleLib \<Rightarrow> LogEntry list \<Rightarrow> 'c Store \<Rightarrow> StoredRecord res \<times> 'c Store \<Rightarrow> bool" where
  "append_outcome lib es st = (\<lambda>(res, st').
     (case res of
        Inr rec \<Rightarrow> \<exists>e. keeps lib (es @ [e]) st st' \<and> ae_id e \<notin> set (map ae_id es) \<and> \<not> unmounted st (ae_segment e) \<and>
          rec\<lparr>sr_envelopes := take 1 (sr_envelopes rec)\<rparr> = entry_record (length es) e
      | Inl err \<Rightarrow>
          keeps lib es st st' \<or> (\<exists>e. keeps lib (es @ [e]) st st') \<or>
          st_needs_recover st' \<and> same_settings st st' \<and> (\<exists>e k row. entry_ok lib e \<and> ae_id e \<notin> set (map ae_id es) \<and>
            params_of lib (length (segment_text es (ae_segment e))) e = Inr row \<and>
            torn lib st' es (ae_segment e) (take k (line_bytes (ae_capsule e))))))"

lemma append_outcome_unchanged: "keeps lib es st st' \<Longrightarrow> append_outcome lib es st (Inl e, st')"
  by (simp add: append_outcome_def)

lemma append_outcome_added: "keeps lib (es @ [e]) st st' \<Longrightarrow> append_outcome lib es st (Inl err, st')"
  by (auto simp: append_outcome_def)

lemma failed_settings:
  "same_settings st ((drop_write_handle (on_disk f st))\<lparr>st_needs_recover := b\<rparr>)"
  by (simp add: same_settings_def drop_write_handle_def) (simp add: on_disk_def)

lemma write_line_outcome:
  assumes r: "ready lib es st seg" and e: "entry_ok lib e" "ae_segment e = seg" "ae_id e \<notin> set (map ae_id es)"
    and p: "params_of lib (length (segment_text es seg)) e = Inr row"
  shows "case write_line io seg (segment_text es seg) (line_bytes (ae_capsule e)) row st of
      (Inl err, st') \<Rightarrow> st_needs_recover st' \<and> same_settings st st' \<and> (\<exists>k. torn lib st' es seg (take k (line_bytes (ae_capsule e))))
    | (Inr seq, st') \<Rightarrow> seq = int (length es) + 1 \<and> keeps lib (es @ [e]) st st' \<and> st_write_segment st' = Some seg"
proof -
  let ?line = "line_bytes (ae_capsule e)"
  let ?st = "on_disk (put_file seg (segment_text es seg @ ?line)) st"
  have t: "torn lib (failed_write (on_disk (put_file seg (segment_text es seg @ take k ?line)) st)) es seg (take k ?line)" for k
    by (rule torn_line [OF r])
  then have t_all: "\<exists>k. torn lib (failed_write ?st) es seg (take k ?line)" by (intro exI [of _ "length ?line"]) (metis order_refl take_all)
  obtain d where d: "insert_row row (st_disk ?st) = Inr (int (length es) + 1, d)" "stored lib (?st\<lparr>st_disk := d\<rparr>) (es @ [e])"
    "live (?st\<lparr>st_disk := d\<rparr>)"
    using stored_line [OF r e p] by blast
  have "keeps lib (es @ [e]) st (?st\<lparr>st_disk := d\<rparr>)"
    using d(2,3) by (simp add: keeps_def same_settings_def) (simp add: on_disk_def)
  then show ?thesis
    using t t_all d(1) r by (auto simp: write_line_def Let_def failed_write_def ready_def failed_settings split: option.split)
qed

lemma store_line_outcome:
  assumes env: "env_lib env = lib" and l: "live st" "stored lib st es"
    and c: "capsule_ok c" "carried_id lib c = Inr (JStr i)" "\<not> line_id_problem c" "i \<notin> set (map ae_id es)"
    and b: "bundled_envelopes c (re_authenticity r) = take 1 (re_verified_envelopes r)"
  shows "append_outcome lib es st (store_line env io c (JStr i) consequential r st)"
proof -
  let ?st = "sync_write_segment st" and ?seg = "write_target st"
  let ?e = "\<lparr>ae_capsule = c, ae_id = i, ae_segment = ?seg, ae_consequential = consequential, ae_authenticity = re_authenticity r\<rparr>"
  note sync = sync_ready [OF l]
  have ready: "ready lib es ?st ?seg" and ks: "keeps lib es st ?st" using sync sync_keeps [OF l] by blast+
  have u: "\<not> unmounted st ?seg" using ready ks by (simp add: keeps_def ready_def)
  have w: "st_write_segment ?st = Some ?seg" "map_of (dk_files (st_disk ?st)) ?seg = Some (segment_text es ?seg)"
    using ready by (simp_all add: ready_def)
  have e: "entry_ok lib ?e" "ae_segment ?e = ?seg" "ae_id ?e \<notin> set (map ae_id es)" using c by (simp_all add: entry_ok_def)
  have params: "record_params lib c (JStr i) ?seg (length (segment_text es ?seg)) consequential (re_authenticity r) =
      params_of lib (length (segment_text es ?seg)) ?e" by (simp add: params_of_def)
  show ?thesis
  proof (cases "params_of lib (length (segment_text es ?seg)) ?e")
    case (Inl err)
    then show ?thesis using ks by (simp add: store_line_def Let_def w env params append_outcome_def)
  next
    case (Inr row)
    note p = Inr
    obtain res st1 where wl: "write_line io ?seg (segment_text es ?seg) (line_bytes c) row ?st = (res, st1)" by (cases "write_line io ?seg (segment_text es ?seg) (line_bytes c) row ?st")
    note out = write_line_outcome [OF ready e p, of io, simplified, unfolded wl prod.case]
    show ?thesis
    proof (cases res)
      case (Inl err)
      then obtain k where "st_needs_recover st1" "same_settings st st1" "torn lib st1 es ?seg (take k (line_bytes c))"
        using out ks same_settings_trans by (auto simp: keeps_def)
      then show ?thesis using e Inl p by (auto simp: store_line_def Let_def w env params wl append_outcome_def intro!: exI [of _ ?e])
    next
      case (Inr seq)
      then have k1: "keeps lib (es @ [?e]) st st1" "seq = int (length es) + 1"
        using out keeps_trans [OF ks] by auto
      obtain lr st2 where lk: "lookup_record env (io_lookup_fails io) seq c i ?seg (length (segment_text es ?seg)) st1 = (lr, st2)"
        by (cases "lookup_record env (io_lookup_fails io) seq c i ?seg (length (segment_text es ?seg)) st1")
      have k2: "keeps lib (es @ [?e]) st st2"
        using k1(1) lookup_change_sel [OF lookup_record_change [OF lk]] lookup_change_keeps [OF lookup_record_change [OF lk]]
        by (auto simp: keeps_def fun_eq_iff elim: same_settings_trans)
      have k3: "keeps lib (es @ [?e]) st (snd (rotate_segment env st2))" if "st_managed st2"
      proof -
        have "live st2" "stored lib st2 (es @ [?e])" using k2 by (simp_all add: keeps_def)
        then show ?thesis using keeps_trans [OF k2 rotate_keeps [OF _ that]] by blast
      qed
      have id: "rw_capsule_id row = i" using params_ofD [OF p] by simp
      let ?rec = "\<lparr>sr_seq = seq, sr_capsule_id = i, sr_capsule = JObj c, sr_segment = ?seg, sr_consequential = consequential,
        sr_authenticity = re_authenticity r, sr_envelopes = re_verified_envelopes r\<rparr>"
      have ok: "append_outcome lib es st (Inr ?rec, st3)" if "keeps lib (es @ [?e]) st st3" for st3
        using that e(3) k1(2) u unfolding append_outcome_def prod.case sum.case
        by (intro exI [of _ ?e]) (simp add: entry_record_def b)
      show ?thesis
      proof (cases lr)
        case (Inl err)
        then show ?thesis
          using append_outcome_added [OF k2] by (simp add: store_line_def Let_def w env params p wl \<open>res = Inr seq\<close> id lk)
      next
        case (Inr b)
        obtain rr st3 where rot: "rotate_segment env st2 = (rr, st3)" by (cases "rotate_segment env st2")
        show ?thesis
          using Inr k2 k3 ok [OF k2] ok [of st3] append_outcome_added [of lib es ?e st st3] rot
          by (auto simp: store_line_def Let_def w env params p wl \<open>res = Inr seq\<close> id lk split: sum.split)
      qed
    qed
  qed
qed

lemma append_keeps:
  assumes "excludes_envelope lib" "env_lib env = lib" "capsule_ok c" "live st" "stored lib st es"
  shows "append_outcome lib es st (st_append env io st c consequential admission)"
proof -
  let ?guard = "bindR (refuse_read_only st) (\<lambda>_.
           bindR (case admission of None \<Rightarrow> new_admission UNSIGNED [] | Some q \<Rightarrow> Inr q) (\<lambda>q.
           bindR (resolve_admission (env_lib env) c q) (\<lambda>r.
           bindR (stored_form (env_lib env) c r) (\<lambda>(to_store, capsule_id).
           if st_needs_recover st then Inl LedgerCorrupt
           else if id_problem to_store capsule_id then Inl ValueError
           else
             bindR (as_string ValueError capsule_id) (\<lambda>i.
             bindR (record_row st i) (\<lambda>existing.
             case existing of
               Some row \<Rightarrow> bindR (existing_record env st row) (\<lambda>_. Inl DuplicateRecord)
             | None \<Rightarrow> Inr (to_store, capsule_id, r)))))))"
  show ?thesis
  proof (cases ?guard)
    case (Inl e)
    then show ?thesis
      using append_outcome_unchanged [OF keeps_refl [OF assms(5,4)]] by (simp only: st_append_def sum.case)
  next
    case (Inr g)
    then obtain t v r where g: "?guard = Inr (t, v, r)" by (cases g) auto
    then obtain q i where q: "resolve_admission lib c q = Inr r" "stored_form lib c r = Inr (t, v)" "\<not> id_problem t v"
      "v = JStr i" "record_row st i = Inr None"
      using assms(2) by (auto simp: bindR_eq_Inr as_string_def split: if_splits option.splits json.splits prod.splits)
    have ok: "capsule_ok t \<and> carried_id lib t = Inr (JStr i) \<and> \<not> line_id_problem t \<and>
        bundled_envelopes t (re_authenticity r) = take 1 (re_verified_envelopes r)"
      using stored_form_ok [OF assms(1,3) q(1)] q(2-4) by simp
    have "i \<notin> set (map ae_id es)"
      using q(5) find_row_id [OF storedD(1) [OF assms(5)]] by (auto simp: record_row_def bind_text_def split: if_splits)
    then have "append_outcome lib es st (store_line env io t v consequential r st)"
      unfolding q(4) using ok assms by (intro store_line_outcome) simp_all
    then show ?thesis unfolding st_append_def g by simp
  qed
qed

end
