(* ===== verification/Ledger_Crash.thy ===== *)
theory Ledger_Crash
  imports Ledger_Append
begin

text \<open>
  Recovery: a store whose last append was cut short, at any byte, is brought back to the entries it had, or to
  those and the new one when its line was complete.
\<close>

section \<open>The indexed part of a segment\<close>

lemma rows_offsets_below:
  "rows_match lib es rows \<Longrightarrow> r \<in> set rows \<Longrightarrow> rw_segment r = seg \<Longrightarrow> rw_offset r \<le> length (segment_text es seg)"
proof (induction es arbitrary: rows rule: rev_induct)
  case (snoc e es)
  from rows_match_snocD [OF snoc.prems(1)] obtain rs x where
    x: "rows = rs @ [x\<lparr>rw_seq := int (length es) + 1\<rparr>]" "rows_match lib es rs" "params_of lib (length (segment_text es (ae_segment e))) e = Inr x"
    by blast
  then show ?case using snoc.IH [OF x(2)] snoc.prems(2,3) params_ofD [OF x(3)] by fastforce
qed simp

lemma fold_max_snoc: "max_offset (rs @ [r]) = Some (case max_offset rs of None \<Rightarrow> rw_offset r | Some m \<Rightarrow> max (rw_offset r) m)"
  by (cases rs) (simp_all add: max_offset_def)

lemma max_offset_in: "max_offset rs = Some m \<Longrightarrow> \<exists>r\<in>set rs. rw_offset r = m"
proof (induction rs arbitrary: m rule: rev_induct)
  case (snoc r rs)
  then show ?case by (cases "max_offset rs") (auto simp: fold_max_snoc max_def split: if_splits)
qed (simp add: max_offset_def)

lemma tail_start_ok:
  assumes "rows_match lib es rows" "list_all (entry_ok lib) es"
  shows "tail_start (filter (\<lambda>r. rw_segment r = seg) rows) (segment_text es seg @ junk) = Inr (length (segment_text es seg))"
  using assms
proof (induction es arbitrary: rows junk rule: rev_induct)
  case (snoc e es)
  from rows_match_snocD [OF snoc.prems(1)] obtain rs x where
    x: "rows = rs @ [x\<lparr>rw_seq := int (length es) + 1\<rparr>]" "rows_match lib es rs" "params_of lib (length (segment_text es (ae_segment e))) e = Inr x"
    by blast
  note px = params_ofD [OF x(3)]
  show ?case
  proof (cases "ae_segment e = seg")
    case False
    then show ?thesis using snoc.IH [OF x(2)] snoc.prems(2) px by (simp add: x(1) segment_text_Cons)
  next
    case True
    let ?rs = "filter (\<lambda>r. rw_segment r = seg) rs" and ?off = "length (segment_text es seg)"
    have "m \<le> ?off" if "max_offset ?rs = Some m" for m
      using max_offset_in [OF that] rows_offsets_below [OF x(2)] by auto
    then have "max_offset (filter (\<lambda>r. rw_segment r = seg) rows) = Some ?off"
      using px True by (auto simp: x(1) fold_max_snoc max_def split: option.splits)
    moreover obtain t where t: "line_bytes (ae_capsule e) = t @ [10]" "10 \<notin> set t"
      using line_body snoc.prems(2) by (auto simp: entry_ok_def)
    moreover have "line_at (segment_text es seg @ (t @ [10]) @ junk) ?off = t @ [10]" using t(2) by (rule line_at_line)
    ultimately show ?thesis using True by (simp add: tail_start_def segment_text_Cons)
  qed
qed (simp add: tail_start_def max_offset_def)

section \<open>The unindexed tail\<close>

lemma kept_complete: "kept (t @ [10]) = length t + 1"
  by (simp add: kept_def)

lemma kept_torn: "10 \<notin> set t \<Longrightarrow> kept t = 0"
  by (simp add: kept_def dropWhile_eq_Nil_conv) (metis in_set_conv_nth)

lemma raw_lines_line: "10 \<notin> set t \<Longrightarrow> raw_lines cur (t @ 10 # r) = (cur @ t @ [10]) # raw_lines [] r"
  by (induction t arbitrary: cur) auto

section \<open>Lookup rows of stored capsules\<close>

lemma path_value_strings: "path_value ps v = Some w \<Longrightarrow> (\<And>x. v = Some x \<Longrightarrow> strings_ok P x) \<Longrightarrow> strings_ok P w"
proof (induction ps v rule: path_value.induct)
  case (2 p ps v)
  then obtain ms where v: "v = Some (JObj ms)" by (auto split: option.splits json.splits)
  have "strings_ok P x" if "map_of ms p = Some x" for x
    using 2(3) [OF v] map_of_SomeD [OF that] strings_ok_wf by blast
  then show ?case using 2(1) [OF v refl] 2(2) v by simp
qed simp

lemma correlation_scalar:
  assumes "capsule_ok c" "i \<in> set (extract_correlation_ids c cfields)"
  shows "scalar_text i"
proof -
  obtain name where "i \<in> set (field_ids c name)" using assms(2) by (auto simp: extract_correlation_ids_def)
  then obtain w where w: "path_value (split_dots [] name) (Some (JObj c)) = Some w"
    "i \<in> set (case w of JStr s \<Rightarrow> [s] | JArr vs \<Rightarrow> strings_of vs | _ \<Rightarrow> [])"
    by (cases "path_value (split_dots [] name) (Some (JObj c))") (auto simp: field_ids_def)
  have "strings_ok scalar_text w" using assms(1) by (intro path_value_strings [OF w(1)]) (auto simp: capsule_ok_def)
  then show ?thesis using w(2) by (cases w) (auto simp: list_all_iff strings_of_def split: json.splits)
qed

lemma insert_correlations_ok: "insert_correlations seq is cs = (r, cs') \<Longrightarrow> \<forall>i\<in>set is. scalar_text i \<Longrightarrow> r = Inr ()"
  using scalar_utf8 by (induction "is" arbitrary: cs) (auto simp: bind_text_def)

lemma lookup_record_ok:
  assumes "capsule_ok c" "text_column (env_lib env) (map_of c (text_of ''timestamp'')) = Inr ts" "utf8_encode i \<noteq> None"
  obtains b st' where "lookup_record env fails seq c i segment offset st = (Inr b, st')" "lookup_change st st'"
proof -
  have li: "r = Inr ()" if "li_record (env_lib env) cfields seq (map_of c (text_of ''timestamp'')) i segment offset c t = (r, t')" for cfields t r t'
    using that correlation_scalar [OF assms(1)] assms(2,3)
    by (auto simp: li_record_def lookup_row_def bind_text_def Let_def split: prod.splits dest!: insert_correlations_ok)
  obtain x st' where x: "lookup_record env fails seq c i segment offset st = (x, st')"
    by (cases "lookup_record env fails seq c i segment offset st")
  have "\<exists>b. x = Inr b"
    using x by (auto simp: lookup_record_def split: option.splits prod.splits sum.splits if_splits dest!: li)
  then show thesis using that x lookup_record_change [OF x] by blast
qed

section \<open>Catching up the lookup index\<close>

lemma holds_change: "lookup_change st st' \<Longrightarrow> holds lib st' es junk = holds lib st es junk"
  by (simp add: holds_def index_holds_def lookup_change_sel lookup_change_keeps)

lemma timestamp_column: "params_of lib offset e = Inr r \<Longrightarrow> text_column lib (map_of (ae_capsule e) (text_of ''timestamp'')) = Inr (rw_timestamp r)"
  using record_params_fields by (fastforce simp: params_of_def)

lemma entry_lookup:
  assumes "holds (env_lib env) st es junk" "i < length es"
  obtains b st' where "lookup_record env fails seq (ae_capsule (es ! i)) (ae_id (es ! i)) segment offset st2 = (Inr b, st')" "lookup_change st2 st'"
proof -
  from rows_match_nth [OF holdsD(1) [OF assms(1)] assms(2)] obtain r where
    r: "params_of (env_lib env) (length (segment_text (take i es) (ae_segment (es ! i)))) (es ! i) = Inr r" by blast
  have "capsule_ok (ae_capsule (es ! i))" using holdsD(2) [OF assms(1)] assms(2) by (auto simp: list_all_length entry_ok_def)
  then show thesis using lookup_record_ok timestamp_column [OF r] params_ofD [OF r] that by metis
qed

lemma catch_up_rows_ok:
  assumes "holds (env_lib env) st es junk" "list_all (\<lambda>i. i < length es) is"
  shows "\<exists>ks st'. catch_up_rows env present (map (\<lambda>i. dk_rows (st_disk st) ! i) is) added st = (Inr ks, st') \<and> lookup_change st st'"
  using assms
proof (induction "is" arbitrary: st added)
  case Nil
  then show ?case using lookup_change_refl by auto
next
  case (Cons i "is")
  let ?row = "dk_rows (st_disk st) ! i"
  have i: "i < length es" using Cons.prems(2) by simp
  note row = rows_match_fields [OF holdsD(1) [OF Cons.prems(1)] i]
  obtain b st1 where lk: "lookup_record env False (int i + 1) (ae_capsule (es ! i)) (ae_id (es ! i)) (rw_segment ?row) (rw_offset ?row) st = (Inr b, st1)"
    "lookup_change st st1" by (rule entry_lookup [OF Cons.prems(1) i])
  have rows: "dk_rows (st_disk st1) = dk_rows (st_disk st)" using lookup_change_sel [OF lk(2)] by simp
  have IH: "\<exists>ks st'. catch_up_rows env present (map (\<lambda>i. dk_rows (st_disk st) ! i) is) a st = (Inr ks, st') \<and> lookup_change st st'" for a
    using Cons.IH [OF Cons.prems(1)] Cons.prems(2) by simp
  have IH1: "\<exists>ks st'. catch_up_rows env present (map (\<lambda>i. dk_rows (st_disk st) ! i) is) a st1 = (Inr ks, st') \<and> lookup_change st st'" for a
    using Cons.IH [of st1 a] Cons.prems holds_change [OF lk(2)] lookup_change_trans [OF lk(2)] rows by auto
  show ?case
    using IH [of added] IH1 [of "added @ [int i + 1]"] lk row(1,2) existing_entry [OF Cons.prems(1) i, of env]
    by (cases b) (auto simp: entry_record_def)
qed

lemma catch_up_lookup_ok:
  assumes "holds (env_lib env) st es junk"
  obtains ks st' where "catch_up_lookup env st = (Inr ks, st')" "lookup_change st st'"
proof -
  let ?rows = "dk_rows (st_disk st)"
  have len: "length ?rows = length es" using holdsD(1) [OF assms] by (rule rows_match_length)
  have "?rows = map (\<lambda>i. ?rows ! i) [0..<length es]" unfolding len [symmetric] by (rule map_nth [symmetric])
  then have "\<exists>ks st'. catch_up_rows env present ?rows [] st = (Inr ks, st') \<and> lookup_change st st'" for present
    using catch_up_rows_ok [OF assms, of "[0..<length es]" present "[]"] by (simp add: list_all_iff)
  moreover have "lookup_change st (st\<lparr>st_lookup_on := False\<rparr>)"
    unfolding lookup_change_def by (intro exI [of _ "dk_lookup (st_disk st)"] exI [of _ False]) simp
  ultimately have "\<exists>ks st'. catch_up_lookup env st = (Inr ks, st') \<and> lookup_change st st'"
    using lookup_change_refl by (auto simp: catch_up_lookup_def split: option.split)
  then show thesis using that by blast
qed

section \<open>Indexing the complete line\<close>

lemma torn_holds:
  assumes "torn lib st es seg junk" "list_all plain_byte junk"
  shows "holds lib st es (\<lambda>n. if n = seg then junk else [])"
proof -
  have "segment_file st seg = Some (segment_text es seg @ junk)" using assms(1) by (auto simp: torn_def segment_file_mounted)
  then show ?thesis using assms by (auto simp: torn_def holds_def)
qed

lemma parse_stored_line:
  assumes "entry_ok lib e" "env_lib env = lib" "line_bytes (ae_capsule e) = t @ [10]"
  shows "parse_line env t = Inr (ae_capsule e)"
proof -
  let ?c = "ae_capsule e"
  have c: "capsule_ok ?c" "carried_id lib ?c = Inr (JStr (ae_id e))" "\<not> line_id_problem ?c" using assms(1) by (simp_all add: entry_ok_def)
  have t: "t = ascii_bytes (line_text ?c)" using assms(3) by (simp add: line_bytes_text)
  have "b < 128" if "b \<in> set t" for b using line_body_byte(1) [OF c(1)] that by (auto simp: t plain_byte_def)
  then have "list_all (\<lambda>x. 0 < x \<and> x < 128) t" using line_body_byte(2) [OF c(1)] by (auto simp: list_all_iff t)
  moreover have "map unat t = line_text ?c" unfolding t by (rule ascii_unat) (rule line_plain(3) [OF c(1)])
  moreover have "parse_json (line_text ?c) = Some (JObj ?c)" using parse_line_ws [OF c(1), of "[]"] by simp
  ultimately have "loads_bytes env t = Inr (JObj ?c)" by (simp add: loads_bytes_def json_bytes_text_def)
  then show ?thesis using c(2,3) assms(2) by (auto simp: parse_line_def carried_id_def bindR_eq_Inr split: option.splits sum.splits)
qed

lemma params_reclassified:
  assumes "params_of lib offset e = Inr r"
  shows "params_of lib offset (e\<lparr>ae_consequential := b, ae_authenticity := a\<rparr>) =
    Inr (r\<lparr>rw_consequential := b, rw_authenticity := a\<rparr>)"
  using assms by (auto simp: params_of_def record_params_def bindR_eq_Inr split: option.splits)

text \<open>What recovery makes of an entry whose line it finds: consequential, and authentic as its envelope says.\<close>

definition recovered :: "pytext \<Rightarrow> LogEntry \<Rightarrow> LogEntry" where
  "recovered a e = e\<lparr>ae_consequential := True, ae_authenticity := a\<rparr>"

lemma stored_insert:
  assumes h: "holds lib st es (\<lambda>n. if n = seg then line_bytes (ae_capsule e) else [])"
    and e: "entry_ok lib e" "ae_segment e = seg" "ae_id e \<notin> set (map ae_id es)" "segment_file st seg \<noteq> None"
    and p: "params_of lib (length (segment_text es seg)) e = Inr row"
  shows "\<exists>d. insert_row row (st_disk st) = Inr (int (length es) + 1, d) \<and> stored lib (st\<lparr>st_disk := d\<rparr>) (es @ [e]) \<and>
    d = (st_disk st)\<lparr>dk_rows := dk_rows d\<rparr>"
proof -
  let ?rows = "dk_rows (st_disk st)"
  let ?d = "(st_disk st)\<lparr>dk_rows := ?rows @ [row\<lparr>rw_seq := int (length es) + 1\<rparr>]\<rparr>"
  note st = holdsD [OF h]
  have "rw_capsule_id row \<notin> set (map rw_capsule_id ?rows)"
    using params_ofD [OF p] e(3) by (simp add: rows_match_ids [OF st(1)] del: set_map)
  then have "\<not> list_ex (\<lambda>r. rw_capsule_id r = rw_capsule_id row) ?rows" by (auto simp: list_ex_iff image_iff)
  then have "insert_row row (st_disk st) = Inr (int (length es) + 1, ?d)"
    by (simp add: insert_row_def Let_def rows_match_max [OF st(1)])
  note ins = this
  have f: "segment_file (st\<lparr>st_disk := ?d\<rparr>) n = segment_file st n" for n
    by (rule segment_file_cong) (simp_all add: unmounted_cong [of "st\<lparr>st_disk := ?d\<rparr>" st])
  have "b = segment_text (es @ [e]) n" if "segment_file st n = Some b" for n b
  proof -
    have "b = segment_text es n @ (if n = seg then line_bytes (ae_capsule e) else [])" using h that unfolding holds_def by blast
    then show ?thesis using e(2) by (simp add: segment_text_Cons)
  qed
  moreover have "segment_file st (ae_segment x) \<noteq> None" if "x \<in> set (es @ [e])" for x
    using h e(2,4) that by (auto simp: holds_def)
  ultimately have "files_match (st\<lparr>st_disk := ?d\<rparr>) (es @ [e])" unfolding files_match_def f by blast
  then have "stored lib (st\<lparr>st_disk := ?d\<rparr>) (es @ [e])"
    using st(2,3) e rows_match_snoc [OF st(1)] p by (simp add: stored_def index_holds_def)
  with ins show ?thesis by force
qed

lemma recover_line:
  assumes env: "env_lib env = lib" and h: "holds lib st es (\<lambda>n. if n = seg then line_bytes (ae_capsule e) else [])"
    and e: "entry_ok lib e" "ae_segment e = seg" "ae_id e \<notin> set (map ae_id es)" "segment_file st seg \<noteq> None"
    and p: "params_of lib (length (segment_text es seg)) e = Inr row" and a: "reindex_authenticity lib (ae_capsule e) = Inr a"
    and t: "line_bytes (ae_capsule e) = t @ [10]"
  obtains st' where "recover_lines env seg (length (segment_text es seg)) [t @ [10]] [] [] st = (Inr ([int (length es) + 1], []), st')"
    "stored lib st' (es @ [recovered a e])" "st_manifest st' = st_manifest st" "same_settings st st'"
    "st_write_segment st' = st_write_segment st" "dk_files (st_disk st') = dk_files (st_disk st)"
    "dk_archived (st_disk st') = dk_archived (st_disk st)"
proof -
  let ?c = "ae_capsule e" and ?e = "recovered a e" and ?off = "length (segment_text es seg)"
  have p': "params_of lib ?off ?e = Inr (row\<lparr>rw_consequential := True, rw_authenticity := a\<rparr>)"
    (is "_ = Inr ?row") using params_reclassified [OF p] by (simp add: recovered_def)
  have e': "entry_ok lib ?e" "ae_segment ?e = seg" "ae_id ?e \<notin> set (map ae_id es)" "ae_capsule ?e = ?c" "ae_id ?e = ae_id e"
    using e by (simp_all add: recovered_def entry_ok_def)
  have h': "holds lib st es (\<lambda>n. if n = seg then line_bytes (ae_capsule ?e) else [])" using h unfolding e'(4) .
  from stored_insert [OF h' e'(1-3) e(4) p'] obtain d where
    d: "insert_row ?row (st_disk st) = Inr (int (length es) + 1, d)" "stored lib (st\<lparr>st_disk := d\<rparr>) (es @ [?e])"
      "d = (st_disk st)\<lparr>dk_rows := dk_rows d\<rparr>" by blast
  have utf: "utf8_encode (ae_id e) \<noteq> None" using params_ofD [OF p] by simp
  have known: "record_row st (ae_id e) = Inr None"
    using find_row_id [OF holdsD(1) [OF h]] e(3) utf by (simp add: record_row_def bind_text_def)
  have params: "record_params lib ?c (JStr (ae_id e)) seg ?off True a = Inr ?row"
    using p' e(2) by (simp add: params_of_def recovered_def)
  have c: "capsule_ok ?c" "carried_id lib ?c = Inr (JStr (ae_id e))" using e(1) by (simp_all add: entry_ok_def)
  have ts: "text_column (env_lib env) (map_of ?c (text_of ''timestamp'')) = Inr (rw_timestamp row)"
    using timestamp_column [OF p] env by simp
  obtain b st' where lk: "lookup_record env False (int (length es) + 1) ?c (ae_id e) seg ?off (st\<lparr>st_disk := d\<rparr>) = (Inr b, st')"
    "lookup_change (st\<lparr>st_disk := d\<rparr>) st'" by (rule lookup_record_ok [OF c(1) ts utf])
  have id: "rw_capsule_id ?row = ae_id e" using params_ofD [OF p] by simp
  have "index_line env seg ?off ?c (JStr (ae_id e)) st = (Inr (int (length es) + 1), st')"
    using env a params d(1) lk(1) id by (simp add: index_line_def)
  then have lines: "recover_lines env seg ?off [t @ [10]] [] [] st = (Inr ([int (length es) + 1], []), st')"
    using parse_stored_line [OF e(1) env t] c(2) env known by (simp add: as_string_def)
  have files: "dk_files d = dk_files (st_disk st)" "dk_archived d = dk_archived (st_disk st)" by (subst d(3), simp)+
  note sel = lookup_change_sel [OF lk(2)]
  have "stored lib st' (es @ [?e])" using lookup_change_keeps(3) [OF lk(2)] d(2) by simp
  moreover have "same_settings st st'" using sel(2) by (simp add: same_settings_def)
  ultimately show thesis using sel files by (intro that [OF lines]) simp_all
qed

section \<open>Recovering\<close>

lemma sync_managed:
  assumes "live st" "st_managed st" "sm_active_segment (st_manifest st) = Some seg"
  shows "sync_write_segment st = st\<lparr>st_write_segment := Some seg\<rparr>"
proof -
  have "touch seg st = st" using assms by (auto simp: live_def managed_ok_def Let_def touch_def)
  then show ?thesis
    using assms by (auto simp: sync_write_segment_def sync_write_segment_managed_def Let_def open_for_append_def)
qed

lemma truncated_stored:
  assumes "holds lib st es (\<lambda>n. if n = seg then junk else [])" "\<not> unmounted st seg"
  shows "stored lib (on_disk (put_file seg (segment_text es seg)) st) es"
proof -
  have f: "segment_file (on_disk (put_file seg (segment_text es seg)) st) = (segment_file st)(seg \<mapsto> segment_text es seg)"
    using assms(2) by (rule segment_file_put)
  have "b = segment_text es n" if "segment_file st n = Some b" "n \<noteq> seg" for n b
  proof -
    have "b = segment_text es n @ (if n = seg then junk else [])" using assms(1) that(1) unfolding holds_def by blast
    then show ?thesis using that(2) by simp
  qed
  then have "files_match (on_disk (put_file seg (segment_text es seg)) st) es"
    using assms(1) unfolding files_match_def f by (auto simp: holds_def)
  then show ?thesis using assms(1) by (simp add: stored_def holds_def index_holds_def)
qed

lemma holds_update:
  assumes "holds lib st es junk"
  shows "holds lib (st\<lparr>st_needs_recover := b, st_write_segment := w\<rparr>) es junk"
proof -
  let ?st = "st\<lparr>st_needs_recover := b, st_write_segment := w\<rparr>"
  have "unmounted ?st n = unmounted st n" for n by (rule unmounted_cong) simp_all
  then have "segment_file ?st n = segment_file st n" for n by (intro segment_file_cong) simp_all
  then show ?thesis using assms by (simp add: holds_def index_holds_def)
qed

text \<open>Finding the tail: what \<^verbatim>\<open>recover\<close> has read before it looks at the lines.\<close>

lemma recover_start:
  assumes env: "env_lib env = lib" and m: "st_managed st" and torn: "torn lib st es seg junk" and pl: "list_all plain_byte junk"
  obtains st3 ks where "lookup_change (st\<lparr>st_needs_recover := True, st_write_segment := None\<rparr>) st3"
    "holds lib st3 es (\<lambda>n. if n = seg then junk else [])"
    "recover env st =
      finish_recovery seg (segment_text es seg @ junk) (length (segment_text es seg)) (kept junk) ks
         (recover_lines env seg (length (segment_text es seg)) (raw_lines [] (take (kept junk) junk)) [] [] st3)"
proof -
  let ?st1 = "st\<lparr>st_needs_recover := True\<rparr>"
  let ?st2 = "st\<lparr>st_needs_recover := True, st_write_segment := None\<rparr>"
  have act: "sm_active_segment (st_manifest st) = Some seg" and f: "map_of (dk_files (st_disk st)) seg = Some (segment_text es seg @ junk)"
    and rows: "rows_match lib es (dk_rows (st_disk st))" "list_all (entry_ok lib) es"
    using torn m by (auto simp: torn_def index_holds_def)
  have "live ?st1" using torn live_cong [of ?st1 st] by (simp add: torn_def)
  then have sync: "sync_write_segment ?st1 = ?st1\<lparr>st_write_segment := Some seg\<rparr>" using m act by (intro sync_managed) simp_all
  have h2: "holds lib ?st2 es (\<lambda>n. if n = seg then junk else [])" using torn_holds [OF torn pl] by (rule holds_update)
  then have "holds (env_lib env) ?st2 es (\<lambda>n. if n = seg then junk else [])" by (simp only: env)
  then obtain ks st3 where cu: "catch_up_lookup env ?st2 = (Inr ks, st3)" "lookup_change ?st2 st3" by (rule catch_up_lookup_ok)
  have ts: "tail_start (rows_of_segment ?st2 seg) (segment_text es seg @ junk) = Inr (length (segment_text es seg))"
    using tail_start_ok [OF rows] by (simp add: rows_of_segment_def)
  show thesis
  proof (rule that [OF cu(2)])
    show "holds lib st3 es (\<lambda>n. if n = seg then junk else [])" using h2 holds_change [OF cu(2)] by simp
    show "recover env st = finish_recovery seg (segment_text es seg @ junk) (length (segment_text es seg)) (kept junk) ks
         (recover_lines env seg (length (segment_text es seg)) (raw_lines [] (take (kept junk) junk)) [] [] st3)"
      unfolding recover_def Let_def sync using m f ts cu(1) by (simp add: drop_write_handle_def)
  qed
qed

text \<open>Leaving \<^verbatim>\<open>recover\<close>: the write segment is opened again.\<close>

lemma recover_finish:
  assumes "stored lib st es" "live st" "st_managed st"
  shows "stored lib ((sync_write_segment st)\<lparr>st_needs_recover := False\<rparr>) es" "live ((sync_write_segment st)\<lparr>st_needs_recover := False\<rparr>)"
    "st_managed ((sync_write_segment st)\<lparr>st_needs_recover := False\<rparr>)"
proof -
  let ?st = "sync_write_segment st"
  have s: "stored lib ?st es" "live ?st" using sync_ready [OF assms(2,1)] by (auto simp: ready_def)
  have "stored lib (?st\<lparr>st_needs_recover := False\<rparr>) es = stored lib ?st es"
    by (intro stored_cong segment_file_cong) (simp_all add: unmounted_cong [of "?st\<lparr>st_needs_recover := False\<rparr>" ?st])
  then show "stored lib (?st\<lparr>st_needs_recover := False\<rparr>) es" using s by simp
  show "live (?st\<lparr>st_needs_recover := False\<rparr>)" using s live_cong [of "?st\<lparr>st_needs_recover := False\<rparr>" ?st] by simp
  show "st_managed (?st\<lparr>st_needs_recover := False\<rparr>)" using sync_ready [OF assms(2,1)] assms(3) by (simp add: same_settings_def)
qed

lemma recover_torn_line:
  assumes env: "env_lib env = lib" and m: "st_managed st" and torn: "torn lib st es seg junk" and junk: "list_all plain_byte junk" "10 \<notin> set junk"
  obtains rep st' where "recover env st = (Inr rep, st')" "stored lib st' es" "live st'" "st_managed st'" "\<not> st_needs_recover st'"
    "rp_truncated_bytes rep = length junk" "rp_indexed_seqs rep = []" "rp_skipped_offsets rep = []"
proof -
  obtain st3 ks where st3: "lookup_change (st\<lparr>st_needs_recover := True, st_write_segment := None\<rparr>) st3"
    "holds lib st3 es (\<lambda>n. if n = seg then junk else [])" and
    rec: "recover env st = finish_recovery seg (segment_text es seg @ junk) (length (segment_text es seg)) (kept junk) ks
         (recover_lines env seg (length (segment_text es seg)) (raw_lines [] (take (kept junk) junk)) [] [] st3)"
    using recover_start [OF env m torn junk(1)] by blast
  let ?cut = "if length junk \<noteq> 0 then on_disk (put_file seg (segment_text es seg)) st3 else st3"
  have sel: "st_managed st3" "st_manifest st3 = st_manifest st" "live st3" "\<not> unmounted st3 seg"
    using lookup_change_sel [OF st3(1)] lookup_change_keeps [OF st3(1)] m torn
      live_cong [of "st\<lparr>st_needs_recover := True, st_write_segment := None\<rparr>" "drop_write_handle st"] live_drop(2) [of st]
      unmounted_cong [of "st\<lparr>st_needs_recover := True, st_write_segment := None\<rparr>" st seg]
    by (auto simp: torn_def drop_write_handle_def)
  have stored: "stored lib ?cut es"
    using truncated_stored [OF st3(2) sel(4)] st3(2) holds_stored by (auto simp: if_distrib cong: if_cong)
  have "seg \<in> set (segment_names (st_manifest st3))"
  proof -
    have "map_of (dk_files (st_disk st3)) seg \<noteq> None"
      using torn lookup_change_sel [OF st3(1)] by (auto simp: torn_def)
    then have "seg \<in> fst ` set (dk_files (st_disk st3))" by (metis map_of_eq_None_iff)
    then show ?thesis using managed_okD(4) [OF live_managed [OF sel(3,1)]] by blast
  qed
  then have "live ?cut" using sel(1,3) managed_ok_put by (auto simp: live_def)
  with recover_finish [OF stored] have fin: "stored lib ((sync_write_segment ?cut)\<lparr>st_needs_recover := False\<rparr>) es"
    "live ((sync_write_segment ?cut)\<lparr>st_needs_recover := False\<rparr>)"
    "st_managed ((sync_write_segment ?cut)\<lparr>st_needs_recover := False\<rparr>)" using sel(1) by auto
  have "recover env st = (Inr \<lparr>rp_truncated_bytes = length junk, rp_indexed_seqs = [], rp_skipped_offsets = [], rp_lookup_seqs = ks\<rparr>,
      (sync_write_segment ?cut)\<lparr>st_needs_recover := False\<rparr>)"
    unfolding rec kept_torn [OF junk(2)] by (simp add: finish_recovery_def Let_def)
  then show thesis using fin by (rule that) simp_all
qed


text \<open>When the whole line was written, recovery indexes it.\<close>

lemma recover_complete_line:
  assumes env: "env_lib env = lib" and m: "st_managed st" and torn: "torn lib st es seg (line_bytes (ae_capsule e))"
    and e: "entry_ok lib e" "ae_segment e = seg" "ae_id e \<notin> set (map ae_id es)"
    and p: "params_of lib (length (segment_text es seg)) e = Inr row" and a: "reindex_authenticity lib (ae_capsule e) = Inr a"
  obtains rep st' where "recover env st = (Inr rep, st')" "stored lib st' (es @ [recovered a e])" "live st'" "st_managed st'" "\<not> st_needs_recover st'"
    "rp_truncated_bytes rep = 0" "rp_indexed_seqs rep = [int (length es) + 1]" "rp_skipped_offsets rep = []"
proof -
  let ?line = "line_bytes (ae_capsule e)"
  have c: "capsule_ok (ae_capsule e)" using e(1) by (simp add: entry_ok_def)
  obtain t where t: "?line = t @ [10]" "10 \<notin> set t" using line_body [OF c] by blast
  have pl: "list_all plain_byte ?line" using line_byte_values [OF c] by (auto simp: list_all_iff)
  obtain st3 ks where st3: "lookup_change (st\<lparr>st_needs_recover := True, st_write_segment := None\<rparr>) st3"
    "holds lib st3 es (\<lambda>n. if n = seg then ?line else [])" and
    rec: "recover env st = finish_recovery seg (segment_text es seg @ ?line) (length (segment_text es seg)) (kept ?line) ks
         (recover_lines env seg (length (segment_text es seg)) (raw_lines [] (take (kept ?line) ?line)) [] [] st3)"
    using recover_start [OF env m torn pl] by blast
  have kept: "kept ?line = length ?line" unfolding t(1) by (simp add: kept_complete)
  have raw: "raw_lines [] ?line = [t @ [10]]" using raw_lines_line [OF t(2), of "[]" "[]"] by (simp add: t(1))
  have sel: "st_managed st3" "live st3" "\<not> unmounted st3 seg"
    using lookup_change_sel [OF st3(1)] lookup_change_keeps [OF st3(1)] m torn
      live_cong [of "st\<lparr>st_needs_recover := True, st_write_segment := None\<rparr>" "drop_write_handle st"] live_drop(2) [of st]
      unmounted_cong [of "st\<lparr>st_needs_recover := True, st_write_segment := None\<rparr>" st seg]
    by (auto simp: torn_def drop_write_handle_def)
  have "segment_file st3 seg \<noteq> None"
    using torn lookup_change_sel [OF st3(1)] sel(3) by (auto simp: torn_def segment_file_mounted)
  then obtain st4 where st4: "recover_lines env seg (length (segment_text es seg)) [t @ [10]] [] [] st3 = (Inr ([int (length es) + 1], []), st4)"
    "stored lib st4 (es @ [recovered a e])" "same_settings st3 st4" "st_manifest st4 = st_manifest st3"
    "st_write_segment st4 = st_write_segment st3" "dk_files (st_disk st4) = dk_files (st_disk st3)"
    "dk_archived (st_disk st4) = dk_archived (st_disk st3)"
    using recover_line [OF env st3(2) e _ p a t(1)] by blast
  have l4: "live st4" "st_managed st4"
    using live_cong [of st4 st3] st4(3-7) sel(1,2) by (simp_all add: same_settings_def)
  have "recover env st = (Inr \<lparr>rp_truncated_bytes = 0, rp_indexed_seqs = [int (length es) + 1], rp_skipped_offsets = [], rp_lookup_seqs = ks\<rparr>,
      (sync_write_segment st4)\<lparr>st_needs_recover := False\<rparr>)"
    unfolding rec kept by (simp add: raw st4(1) finish_recovery_def Let_def del: recover_lines.simps)
  then show thesis using recover_finish [OF st4(2) l4] by (rule that) simp_all
qed

text \<open>Recovery after a write that stopped anywhere in the line.\<close>

lemma recover_torn:
  assumes env: "env_lib env = lib" and m: "st_managed st" and torn: "torn lib st es (ae_segment e) (take k (line_bytes (ae_capsule e)))"
    and e: "entry_ok lib e" "ae_id e \<notin> set (map ae_id es)"
    and p: "params_of lib (length (segment_text es (ae_segment e))) e = Inr row" and a: "reindex_authenticity lib (ae_capsule e) = Inr a"
  shows "\<exists>rep st'. recover env st = (Inr rep, st') \<and> live st' \<and> st_managed st' \<and> \<not> st_needs_recover st' \<and>
    (stored lib st' es \<and> rp_truncated_bytes rep = k \<and> rp_indexed_seqs rep = [] \<or>
     stored lib st' (es @ [recovered a e]) \<and> rp_truncated_bytes rep = 0 \<and> rp_indexed_seqs rep = [int (length es) + 1])"
proof (cases "k < length (line_bytes (ae_capsule e))")
  case True
  let ?line = "line_bytes (ae_capsule e)"
  have c: "capsule_ok (ae_capsule e)" using e(1) by (simp add: entry_ok_def)
  obtain t where t: "?line = t @ [10]" "10 \<notin> set t" using line_body [OF c] by blast
  have junk: "list_all plain_byte (take k ?line)" "10 \<notin> set (take k ?line)"
    using line_byte_values [OF c] True t by (auto simp: list_all_iff dest: in_set_takeD)
  obtain rep st' where "recover env st = (Inr rep, st')" "stored lib st' es" "live st'" "st_managed st'" "\<not> st_needs_recover st'"
    "rp_truncated_bytes rep = length (take k ?line)" "rp_indexed_seqs rep = []" "rp_skipped_offsets rep = []"
    by (rule recover_torn_line [OF env m torn junk])
  then show ?thesis using True by auto
next
  case False
  then have "take k (line_bytes (ae_capsule e)) = line_bytes (ae_capsule e)" by simp
  with torn have "torn lib st es (ae_segment e) (line_bytes (ae_capsule e))" by simp
  then obtain rep st' where "recover env st = (Inr rep, st')" "stored lib st' (es @ [recovered a e])" "live st'" "st_managed st'" "\<not> st_needs_recover st'"
    "rp_truncated_bytes rep = 0" "rp_indexed_seqs rep = [int (length es) + 1]" "rp_skipped_offsets rep = []"
    by (rule recover_complete_line [OF env m _ e(1) refl e(2) p a])
  then show ?thesis by auto
qed

text \<open>A store without a torn line is a store with an empty one.\<close>

lemma stored_torn:
  assumes "live st" "st_managed st" "stored lib st es"
  shows "torn lib st es (write_target st) []"
proof -
  have w: "write_target st = seg_name (length (sm_segments (st_manifest st)))" using assms(2) by (simp add: write_target_def)
  have ok: "managed_ok st" using assms(1,2) by (rule live_managed)
  have u: "\<not> unmounted st (write_target st)" unfolding w by (rule active_mounted [OF ok])
  obtain b where b: "map_of (dk_files (st_disk st)) (write_target st) = Some b" using ok unfolding w managed_ok_def Let_def by auto
  then have "b = segment_text es (write_target st)" using storedD(4) [OF assms(3)] u by (auto simp: files_match_def segment_file_mounted)
  then show ?thesis
    using assms(1,3) u b managed_okD(3) [OF ok] by (auto simp: torn_def stored_def files_match_def w)
qed

end
