(* ===== verification/Ledger_Archive.thy ===== *)
theory Ledger_Archive
  imports Ledger_Crash
begin

text \<open>
  Archiving: unmounting a closed segment moves its file and flips its entry, and mounting undoes it. What the store
  holds does not change; only the reads of the segment are refused in between.
\<close>

section \<open>Moving a segment\<close>

definition active_name :: "'c Store \<Rightarrow> pytext" where
  "active_name st = seg_name (length (sm_segments (st_manifest st)))"

text \<open>Every segment keeps its bytes, and the active one its place.\<close>

definition moved :: "'c Store \<Rightarrow> 'c Store \<Rightarrow> bool" where
  "moved st st' \<longleftrightarrow> segment_file st' = segment_file st \<and> dk_rows (st_disk st') = dk_rows (st_disk st) \<and>
     dk_lookup (st_disk st') = dk_lookup (st_disk st) \<and>
     same_settings st st' \<and> st_needs_recover st' = st_needs_recover st \<and> managed_ok st' \<and>
     sm_active_segment (st_manifest st') = sm_active_segment (st_manifest st) \<and> active_name st' = active_name st \<and>
     map_of (dk_files (st_disk st')) (active_name st) = map_of (dk_files (st_disk st)) (active_name st)"

lemma moved_refl: "managed_ok st \<Longrightarrow> moved st st"
  by (simp add: moved_def)

lemma moved_keeps:
  assumes "moved st st'" "st_managed st"
  shows "stored lib st' es = stored lib st es" "live st'" "st_managed st'"
proof -
  show m: "st_managed st'" using assms by (simp add: moved_def same_settings_def)
  show "stored lib st' es = stored lib st es" using assms(1) by (intro stored_cong) (simp_all add: moved_def)
  show "live st'" using assms(1) m by (simp add: moved_def live_def)
qed

lemma moved_torn:
  assumes "moved st st'" "st_managed st" "torn lib st es seg junk"
  shows "torn lib st' es seg junk"
proof -
  have live: "live st'" "st_managed st'" using moved_keeps [OF assms(1,2)] by blast+
  have "managed_ok st" using assms(2,3) by (simp add: torn_def live_def)
  then have seg: "seg = active_name st" using assms(2,3) by (auto simp: torn_def active_name_def managed_ok_def Let_def)
  have "\<not> unmounted st' seg" using active_mounted [of st'] assms(1) seg by (simp add: moved_def active_name_def)
  then show ?thesis using assms live seg by (auto simp: torn_def index_holds_def moved_def)
qed

lemma update_entry_Nil: "update_entry n f xs = [] \<longleftrightarrow> xs = []"
  using update_entry_length [of n f xs] by (simp only: length_0_conv [symmetric])

lemma update_entry_last: "xs \<noteq> [] \<Longrightarrow> se_name (last xs) \<noteq> n \<Longrightarrow> last (update_entry n f xs) = last xs"
  by (induction xs) (auto simp: update_entry_Nil)

abbreviation remounted :: "pytext \<Rightarrow> bool \<Rightarrow> Disk \<Rightarrow> 'c Store \<Rightarrow> 'c Store" where
  "remounted name b d st \<equiv> set_mounted name b (st\<lparr>st_disk := d\<rparr>)"

lemma remounted_sel:
  "st_manifest (remounted name b d st) = (st_manifest st)\<lparr>sm_segments := update_entry name (\<lambda>e. e\<lparr>se_mounted := b\<rparr>) (sm_segments (st_manifest st))\<rparr>"
  "dk_files (st_disk (remounted name b d st)) = dk_files d" "dk_archived (st_disk (remounted name b d st)) = dk_archived d"
  "dk_rows (st_disk (remounted name b d st)) = dk_rows d" "dk_lookup (st_disk (remounted name b d st)) = dk_lookup d"
  "st_managed (remounted name b d st) = st_managed st"
  "st_write_segment (remounted name b d st) = st_write_segment st" "st_needs_recover (remounted name b d st) = st_needs_recover st"
  "same_settings st (remounted name b d st)"
  by (simp_all add: set_mounted_def save_store_manifest_def same_settings_def) (simp_all add: on_disk_def)

lemma remounted_unmounted:
  assumes "st_managed st" "manifest_entry (st_manifest st) name = Some e"
  shows "unmounted (remounted name b d st) n = (if n = name then \<not> b else unmounted st n)"
proof -
  have "List.find (\<lambda>s. se_name s = k) (update_entry name (\<lambda>e. e\<lparr>se_mounted := b\<rparr>) es) =
      (if k = name then map_option (\<lambda>e. e\<lparr>se_mounted := b\<rparr>) (List.find (\<lambda>s. se_name s = k) es) else List.find (\<lambda>s. se_name s = k) es)" for k es
    by (rule find_update_entry) simp
  then show ?thesis using assms by (simp add: unmounted_def entry_of_def remounted_sel manifest_entry_def split: option.split)
qed

lemma remounted_managed:
  assumes ok: "managed_ok st" and m: "name \<noteq> active_name st" "manifest_entry (st_manifest st) name \<noteq> None"
    and d: "\<And>n. n \<noteq> name \<Longrightarrow> map_of (dk_files d) n = map_of (dk_files (st_disk st)) n"
      "fst ` set (dk_files d) \<subseteq> insert name (fst ` set (dk_files (st_disk st)))"
      "fst ` set (dk_archived d) \<subseteq> insert name (fst ` set (dk_archived (st_disk st)))"
  shows "managed_ok (remounted name b d st)"
proof -
  let ?m = "st_manifest (remounted name b d st)"
  have names: "segment_names ?m = segment_names (st_manifest st)" "length (sm_segments ?m) = length (sm_segments (st_manifest st))"
    by (simp_all add: remounted_sel segment_names_def update_entry_names)
  have "name \<in> set (segment_names (st_manifest st))"
    using m(2) by (auto simp: manifest_entry_def segment_names_def find_None_iff)
  moreover have "last (sm_segments ?m) = last (sm_segments (st_manifest st))"
    using m(1) managed_active(2) [OF ok] managed_okD(2) [OF ok] by (simp add: remounted_sel update_entry_last active_name_def)
  moreover have "fst ` set (dk_files d) \<subseteq> set (segment_names (st_manifest st))"
    "fst ` set (dk_archived d) \<subseteq> set (segment_names (st_manifest st))"
    using d(2,3) managed_okD(4,5) [OF ok] \<open>name \<in> set (segment_names (st_manifest st))\<close> by blast+
  moreover have "map_of (dk_files d) (active_name st) = map_of (dk_files (st_disk st)) (active_name st)" using d(1) m(1) by simp
  ultimately show ?thesis
    using ok unfolding managed_ok_def Let_def names
    by (elim conjE, intro conjI) (simp_all add: remounted_sel update_entry_Nil active_name_def del: upt_Suc)
qed

lemma manifest_entry_name: "manifest_entry m n = Some e \<Longrightarrow> se_name e = n"
  by (auto simp: manifest_entry_def find_Some_iff)

lemma keys_delete: "fst ` set (AList.delete k xs) \<subseteq> insert k (fst ` set xs)"
  by (induction xs) auto

lemma remounted_moved:
  assumes ok: "managed_ok st" and m: "st_managed st" "manifest_entry (st_manifest st) name = Some e" "se_mounted e \<noteq> b" "name \<noteq> active_name st"
    and d: "if b then restore_file name (st_disk st) = Inr d else archive_file name (st_disk st) = Inr d"
  shows "moved st (remounted name b d st)"
proof -
  obtain x where x: "segment_file st name = Some x"
    and files: "map_of (dk_files d) = (map_of (dk_files (st_disk st)))(name := if b then Some x else None)"
    "map_of (dk_archived d) = (map_of (dk_archived (st_disk st)))(name := if b then None else Some x)"
    "dk_rows d = dk_rows (st_disk st)" "dk_lookup d = dk_lookup (st_disk st)"
    "fst ` set (dk_files d) \<subseteq> insert name (fst ` set (dk_files (st_disk st)))"
    "fst ` set (dk_archived d) \<subseteq> insert name (fst ` set (dk_archived (st_disk st)))"
    using d m(1-3) by (cases b)
      (auto simp: restore_file_def archive_file_def update_conv' delete_conv' segment_file_def unmounted_def entry_of_def dom_update keys_delete
        split: option.splits)
  have "segment_file (remounted name b d st) n = segment_file st n" for n
    using x files(1,2) by (auto simp: segment_file_def remounted_sel remounted_unmounted [OF m(1,2)])
  moreover have "managed_ok (remounted name b d st)"
    using ok m(4) _ _ files(5,6) by (rule remounted_managed) (simp_all add: m(2) files(1))
  ultimately show ?thesis
    using files m(4) by (simp add: moved_def remounted_sel active_name_def fun_eq_iff)
qed

text \<open>Unmounting and mounting: refused, without effect, or a move.\<close>

lemma unmount_moved:
  assumes "managed_ok st" "st_managed st" "unmount_segment name st = (r, st')"
  shows "moved st st'"
proof -
  have a: "sm_active_segment (st_manifest st) = Some (active_name st)"
    using managed_okD(3) [OF assms(1)] by (simp add: active_name_def)
  show ?thesis
    using assms moved_refl [OF assms(1)] a remounted_moved [OF assms(1,2), of name _ False]
    by (auto simp: unmount_segment_def split: if_splits option.splits sum.splits)
qed

lemma active_entry: "managed_ok st \<Longrightarrow> manifest_entry (st_manifest st) (active_name st) = Some (last (sm_segments (st_manifest st)))"
  using managed_active(1) [of st] by (simp add: active_name_def)

lemma mount_moved:
  assumes "managed_ok st" "st_managed st" "mount_segment name st = (r, st')"
  shows "moved st st'"
proof -
  have "se_mounted (last (sm_segments (st_manifest st)))" using assms(1) by (simp add: managed_ok_def Let_def)
  then have "name \<noteq> active_name st" if "manifest_entry (st_manifest st) name = Some e" "\<not> se_mounted e" for e
    using that active_entry [OF assms(1)] by auto
  then show ?thesis
    using assms moved_refl [OF assms(1)] remounted_moved [OF assms(1,2), of name _ True]
    by (auto simp: mount_segment_def split: if_splits option.splits sum.splits)
qed


lemma unmountD:
  assumes "st_managed st" "unmount_segment name st = (Inr (), st')" "\<not> unmounted st name"
  obtains e d where "manifest_entry (st_manifest st) name = Some e" "st' = remounted name False d st" "archive_file name (st_disk st) = Inr d"
proof -
  have na: "sm_active_segment (st_manifest st) \<noteq> Some name" using assms(1,2) by (auto simp: unmount_segment_def)
  obtain e where e: "manifest_entry (st_manifest st) name = Some e" using assms(1,2) na by (cases "manifest_entry (st_manifest st) name") (simp_all add: unmount_segment_def)
  have "se_mounted e" using assms(1,3) e by (simp add: unmounted_def entry_of_def)
  then obtain d where "archive_file name (st_disk st) = Inr d" "st' = remounted name False d st"
    using assms(1,2) na e by (cases "archive_file name (st_disk st)") (auto simp: unmount_segment_def)
  then show thesis using that e by blast
qed

lemma unmount_unmounted:
  assumes "st_managed st" "unmount_segment name st = (Inr (), st')" "\<not> unmounted st name"
  shows "unmounted st' n = (n = name \<or> unmounted st n)"
proof -
  obtain e d where e: "manifest_entry (st_manifest st) name = Some e" "st' = remounted name False d st"
    using unmountD [OF assms] by blast
  then show ?thesis using remounted_unmounted [OF assms(1) e(1), of False d n] by simp
qed

lemma mount_after_unmount:
  assumes "st_managed st" "unmount_segment name st = (Inr (), st')" "\<not> unmounted st name"
  obtains st'' where "mount_segment name st' = (Inr (), st'')" "\<And>n. unmounted st'' n = (n \<noteq> name \<and> unmounted st' n)"
proof -
  obtain e d where e: "manifest_entry (st_manifest st) name = Some e" "st' = remounted name False d st"
    "archive_file name (st_disk st) = Inr d" using unmountD [OF assms] by blast
  obtain b where b: "map_of (dk_archived d) name = Some b"
    using e(3) by (cases "map_of (dk_files (st_disk st)) name") (auto simp: archive_file_def update_conv')
  have m': "st_managed st'" using assms(1) by (simp add: e(2) remounted_sel)
  have u: "unmounted st' name" using unmount_unmounted [OF assms] by simp
  then obtain e' where e': "manifest_entry (st_manifest st') name = Some e'" "\<not> se_mounted e'"
    using m' by (cases "manifest_entry (st_manifest st') name") (simp_all add: unmounted_def entry_of_def)
  have "map_of (dk_archived (st_disk st')) name = Some b" using b by (simp add: e(2) remounted_sel)
  then obtain d' where d': "restore_file name (st_disk st') = Inr d'" by (simp add: restore_file_def)
  have "mount_segment name st' = (Inr (), remounted name True d' st')" using m' e' d' by (simp add: mount_segment_def)
  then show thesis using that remounted_unmounted [OF m' e'(1), of True d'] by simp
qed

end
