(* ===== verification/Ledger_Reopen.thy ===== *)
theory Ledger_Reopen
  imports Ledger_Archive
begin

text \<open>
  Closing and opening again: the manifest on the disk is always the one in memory, so an instance opened on the
  same directory continues where the last one stopped, and after a crash \<^verbatim>\<open>recover\<close> brings it in order.
\<close>

section \<open>The manifest is saved\<close>

definition manifest_saved :: "'c Store \<Rightarrow> bool" where
  "manifest_saved st \<longleftrightarrow> dk_manifest (st_disk st) = Some (store_manifest_to_dict (st_manifest st))"

lemma saved_cong:
  "dk_manifest (st_disk st') = dk_manifest (st_disk st) \<Longrightarrow> st_manifest st' = st_manifest st \<Longrightarrow> manifest_saved st' = manifest_saved st"
  by (simp add: manifest_saved_def)

lemma saved_simps [simp]:
  "manifest_saved (save_store_manifest st)" "manifest_saved (touch n st) = manifest_saved st"
  "manifest_saved (st\<lparr>st_checkpointer := cp\<rparr>) = manifest_saved st" "manifest_saved (st\<lparr>st_needs_recover := f\<rparr>) = manifest_saved st"
  "manifest_saved (open_for_append n st) = manifest_saved st" "manifest_saved (drop_write_handle st) = manifest_saved st"
  "manifest_saved (failed_write st) = manifest_saved st" "manifest_saved (on_disk (put_file n b) st) = manifest_saved st"
  "manifest_saved (on_disk (\<lambda>d. d\<lparr>dk_seg_manifests := g d\<rparr>) st) = manifest_saved st"
  by (simp_all add: manifest_saved_def save_store_manifest_def on_disk_def touch_def open_for_append_def drop_write_handle_def
      failed_write_def put_file_def)

lemma saved_start [simp]: "manifest_saved (start_segment st)"
  by (simp add: start_segment_def Let_def)

lemma saved_sync: "manifest_saved st \<Longrightarrow> manifest_saved (sync_write_segment st)"
  by (simp add: sync_write_segment_def sync_write_segment_managed_def Let_def split: option.split)

lemma saved_change: "lookup_change st st' \<Longrightarrow> manifest_saved st' = manifest_saved st"
  by (rule saved_cong) (auto simp: lookup_change_def)

lemma saved_rotate: "manifest_saved st \<Longrightarrow> manifest_saved (snd (rotate_segment env st))"
  unfolding rotate_segment_def Let_def close_segment_def
  by (simp add: saved_sync split: option.split prod.split sum.split)

lemma saved_insert: "insert_row row d = Inr (seq, d') \<Longrightarrow> dk_manifest d' = dk_manifest d"
  by (auto simp: insert_row_def Let_def split: if_splits)

lemma saved_disk: "dk_manifest d = dk_manifest (st_disk st) \<Longrightarrow> manifest_saved (st\<lparr>st_disk := d\<rparr>) = manifest_saved st"
  by (simp add: manifest_saved_def)

lemma saved_write:
  assumes "manifest_saved st"
  shows "manifest_saved (snd (write_line io seg content line row st))"
proof -
  have "manifest_saved (st1\<lparr>st_disk := d\<rparr>)" if "insert_row row (st_disk st1) = Inr (seq, d)" "manifest_saved st1"
    for st1 :: "'a Store" and seq d
    using that saved_disk [OF saved_insert [OF that(1)]] by simp
  then show ?thesis using assms by (simp add: write_line_def Let_def split: option.split sum.split prod.split)
qed

lemma saved_store_line:
  assumes "manifest_saved st"
  shows "manifest_saved (snd (store_line env io c i b r st))"
proof -
  have l: "manifest_saved (snd (lookup_record env f seq t j seg k x)) = manifest_saved x" for f seq t j seg k and x :: "'a Store"
    using saved_change [OF lookup_record_change [OF prod.collapse [symmetric]]] .
  have w: "manifest_saved x' " if "write_line io seg content line row x = (q, x')" "manifest_saved x" for seg content line row x q x'
    using saved_write [OF that(2), of io seg content line row] that(1) by simp
  have l': "manifest_saved x'" if "lookup_record env f seq t j seg k x = (q, x')" "manifest_saved x" for f seq t j seg k x q x'
    using l [of f seq t j seg k x] that by simp
  have r: "manifest_saved x'" if "rotate_segment env x = (q, x')" "manifest_saved x" for x q x'
    using saved_rotate [OF that(2), of env] that(1) by simp
  show ?thesis
    using saved_sync [OF assms] unfolding store_line_def Let_def
    by (auto split: option.split sum.split prod.split dest: w l' r)
qed

lemma saved_append: "manifest_saved st \<Longrightarrow> st_append env io st c b q = (r, st') \<Longrightarrow> manifest_saved st'"
  using saved_store_line [of st env io] by (auto simp: st_append_def split: sum.splits prod.splits) (metis snd_conv)+

lemma catch_up_rows_change: "catch_up_rows env present rows added st = (r, st') \<Longrightarrow> lookup_change st st'"
proof (induction env present rows added st arbitrary: r st' rule: catch_up_rows.induct)
  case (1 env present added st)
  then show ?case by (simp add: lookup_change_refl)
next
  case (2 env present row rows added st)
  show ?case
  proof (cases "rw_seq row \<in> set present")
    case True
    then show ?thesis using 2 by simp
  next
    case new: False
    show ?thesis
    proof (cases "existing_record env st row")
      case (Inl e)
      then show ?thesis using 2(4) new by (simp add: lookup_change_refl)
    next
      case (Inr found)
      show ?thesis
      proof (cases "\<exists>rec c. found = Some rec \<and> sr_capsule rec = JObj c")
        case True
        then obtain rec c where c: "found = Some rec" "sr_capsule rec = JObj c" by blast
        obtain q x where q: "lookup_record env False (rw_seq row) c (rw_capsule_id row) (rw_segment row) (rw_offset row) st = (q, x)"
          by fastforce
        have "lookup_change st x" using q by (rule lookup_record_change)
        moreover have "st' = x \<or> catch_up_rows env present rows (added @ [rw_seq row]) x = (r, st')"
          using 2(4) new Inr c q by (auto split: sum.splits bool.splits)
        moreover have "lookup_change x st'" if "catch_up_rows env present rows (added @ [rw_seq row]) x = (r, st')" "q = Inr True"
          using 2(3) new Inr c q that by simp
        moreover have "q = Inr True" if "st' \<noteq> x"
          using 2(4) new Inr c q that by (auto split: sum.splits bool.splits)
        ultimately show ?thesis using lookup_change_trans lookup_change_refl by metis
      next
        case False
        then show ?thesis
          using 2(2,4) new Inr lookup_change_refl [of st] by (auto split: option.splits json.splits)
      qed
    qed
  qed
qed

lemma catch_up_change: "catch_up_lookup env st = (r, st') \<Longrightarrow> lookup_change st st'"
proof -
  have "lookup_change st (st\<lparr>st_lookup_on := False\<rparr>)"
    unfolding lookup_change_def by (intro exI [of _ "dk_lookup (st_disk st)"] exI [of _ False]) simp
  then show "catch_up_lookup env st = (r, st') \<Longrightarrow> lookup_change st st'"
    by (auto simp: catch_up_lookup_def lookup_change_refl catch_up_rows_change split: if_splits option.splits)
qed

lemma saved_index_line: "manifest_saved st \<Longrightarrow> index_line env seg k c i st = (r, st') \<Longrightarrow> manifest_saved st'"
  by (auto simp: index_line_def bindR_eq_Inr saved_disk saved_insert saved_change split: sum.splits prod.splits
      dest!: lookup_record_change)

lemma saved_recover_lines: "manifest_saved st \<Longrightarrow> recover_lines env seg k raws xs ys st = (r, st') \<Longrightarrow> manifest_saved st'"
proof (induction raws arbitrary: k xs ys st)
  case (Cons raw raws)
  let ?parsed = "bindR (parse_line env (butlast raw)) (\<lambda>c.
           bindR (carried_id (env_lib env) c) (\<lambda>i.
           bindR (as_string LedgerCorrupt i) (\<lambda>t.
           case record_row st t of Inl _ \<Rightarrow> Inl LedgerCorrupt | Inr known \<Rightarrow> Inr (c, i, known \<noteq> None))))"
  show ?case
  proof (cases ?parsed)
    case (Inl e)
    with Cons.prems show ?thesis by simp
  next
    case (Inr p)
    obtain c i known where p: "p = (c, i, known)" by (cases p) auto
    obtain q x where q: "index_line env seg k c i st = (q, x)" by fastforce
    have "manifest_saved x" using Cons.prems(1) q by (rule saved_index_line)
    then show ?thesis
      using Cons.IH [OF Cons.prems(1)] Cons.IH [of x] Cons.prems Inr p q by (cases known; cases q) simp_all
  qed
qed simp

lemma saved_finish: "manifest_saved st \<Longrightarrow> manifest_saved (snd (finish_recovery n content k j l (r, st)))"
  by (auto simp: finish_recovery_def Let_def saved_sync split: sum.split prod.split)

lemma saved_recover:
  assumes "manifest_saved st" "recover env st = (r, st')"
  shows "manifest_saved st'"
proof -
  have s: "manifest_saved (sync_write_segment (st\<lparr>st_needs_recover := True\<rparr>))" using assms(1) by (simp add: saved_sync)
  have c: "manifest_saved x'" if "catch_up_lookup env (drop_write_handle x) = (q, x')" "manifest_saved x" for x x' q
    using that saved_change [OF catch_up_change [OF that(1)]] by simp
  have f: "manifest_saved x'" if "finish_recovery n content k j l (recover_lines env seg o1 raws xs ys x) = (q, x')" "manifest_saved x"
    for n content k j l seg o1 raws xs ys x q x'
  proof -
    obtain p y where p: "recover_lines env seg o1 raws xs ys x = (p, y)" by fastforce
    then have "manifest_saved y" using that(2) saved_recover_lines by blast
    then show ?thesis using saved_finish [of y n content k j l p] that(1) p by simp
  qed
  show ?thesis
    using assms s by (auto simp: recover_def Let_def simp del: recover_lines.simps
        split: if_splits option.splits sum.splits prod.splits dest: c f)
qed

lemma saved_moves:
  "manifest_saved st \<Longrightarrow> unmount_segment n st = (r, st') \<Longrightarrow> manifest_saved st'"
  "manifest_saved st \<Longrightarrow> mount_segment n st = (r, st') \<Longrightarrow> manifest_saved st'"
  by (auto simp: unmount_segment_def mount_segment_def set_mounted_def split: if_splits option.splits sum.splits)

section \<open>Opening the directory of a store\<close>

text \<open>A new managed instance on the files a managed instance left: the same manifest, segments and rows, and nothing is
  known of a torn line.\<close>

lemma reopen:
  assumes "st_managed st" "managed_ok st" "manifest_saved st" "op_rotate_at_checkpoint opt"
  obtains st' :: "'c Store" where "open_store opt (st_disk st) = Inr st'" "st_managed st'" "st_manifest st' = st_manifest st"
    "dk_files (st_disk st') = dk_files (st_disk st)" "dk_archived (st_disk st') = dk_archived (st_disk st)"
    "dk_rows (st_disk st') = dk_rows (st_disk st)" "dk_manifest (st_disk st') = dk_manifest (st_disk st)"
    "\<not> st_needs_recover st'" "\<not> st_read_only st'" "managed_ok st'"
proof -
  let ?d = "if op_correlation_fields opt \<noteq> []
    then (st_disk st)\<lparr>dk_lookup_config := Some (fields_config (op_correlation_fields opt))\<rparr> else st_disk st"
  let ?active = "seg_name (length (sm_segments (st_manifest st)))"
  have ok: "sm_active_segment (st_manifest st) = Some ?active" "map_of (dk_files (st_disk st)) ?active \<noteq> None"
    using assms(2) by (simp_all add: managed_ok_def Let_def)
  have "opened_manifest opt (st_disk st) = Inr (st_manifest st)"
    using assms(3,4) by (simp add: opened_manifest_def manifest_saved_def)
  then obtain st0 :: "'c Store" where st0: "open_store opt (st_disk st) = Inr (sync_write_segment st0)" "st_disk st0 = ?d" "st_managed st0"
    "st_manifest st0 = st_manifest st" "\<not> st_needs_recover st0" "\<not> st_read_only st0" "st_write_segment st0 = None"
    using assms(4) by (simp add: open_store_def Let_def)
  have d: "dk_files ?d = dk_files (st_disk st)" "dk_archived ?d = dk_archived (st_disk st)" "dk_rows ?d = dk_rows (st_disk st)"
    "dk_manifest ?d = dk_manifest (st_disk st)" by simp_all
  have "touch ?active st0 = st0" using ok(2) st0(2) by (auto simp: touch_def)
  then have "sync_write_segment st0 = st0\<lparr>st_write_segment := Some ?active\<rparr>"
    using st0(3,4,7) ok(1) by (simp add: sync_write_segment_def sync_write_segment_managed_def open_for_append_def)
  moreover have "managed_ok (st0\<lparr>st_write_segment := Some ?active\<rparr>)"
  proof -
    have sel: "st_manifest (st0\<lparr>st_write_segment := w\<rparr>) = st_manifest st" "st_write_segment (st0\<lparr>st_write_segment := w\<rparr>) = w"
      "dk_files (st_disk (st0\<lparr>st_write_segment := w\<rparr>)) = dk_files (st_disk st)"
      "dk_archived (st_disk (st0\<lparr>st_write_segment := w\<rparr>)) = dk_archived (st_disk st)" for w
      using st0(2,4) d by simp_all
    show ?thesis using assms(2) unfolding managed_ok_def Let_def sel by blast
  qed
  ultimately show thesis using st0 d by (intro that [of "st0\<lparr>st_write_segment := Some ?active\<rparr>"]) simp_all
qed

text \<open>What is promised of the entries depends on the files, the manifest and the rows only.\<close>

lemma reopened_keeps:
  assumes "st_managed st" "st_managed st'" "st_manifest st' = st_manifest st" "dk_files (st_disk st') = dk_files (st_disk st)"
    "dk_archived (st_disk st') = dk_archived (st_disk st)" "dk_rows (st_disk st') = dk_rows (st_disk st)" "managed_ok st'"
  shows "live st'" "stored lib st' es = stored lib st es" "torn lib st es seg junk \<Longrightarrow> torn lib st' es seg junk"
proof -
  have u: "unmounted st' n = unmounted st n" for n by (rule unmounted_cong) (simp_all add: assms(1-3))
  have f: "segment_file st' n = segment_file st n" for n by (rule segment_file_cong) (simp_all add: assms u)
  show l: "live st'" using assms(2,7) by (simp add: live_def)
  show "stored lib st' es = stored lib st es" by (rule stored_cong) (simp_all add: assms f)
  show "torn lib st es seg junk \<Longrightarrow> torn lib st' es seg junk"
    using l by (simp add: torn_def index_holds_def assms u f)
qed

end
