(* ===== verification/Ledger_Steps.thy ===== *)
theory Ledger_Steps
  imports Ledger_Reopen "HOL-Library.Sublist"
begin

text \<open>
  The public operations of a managed \<^verbatim>\<open>LedgerStore\<close> as a step relation, and what holds in every state they reach:
  the store holds a list of entries that only grows, up to a torn line that it knows of.
\<close>

section \<open>Refusals\<close>

text \<open>A store that has to be recovered first refuses every append and does not change.\<close>

lemma append_refused:
  assumes "st_needs_recover st"
  obtains e where "st_append env io st c consequential admission = (Inl e, st)"
proof -
  have "\<exists>e. bindR (refuse_read_only st) (\<lambda>_.
           bindR (case admission of None \<Rightarrow> new_admission UNSIGNED [] | Some q \<Rightarrow> Inr q) (\<lambda>q.
           bindR (resolve_admission (env_lib env) c q) (\<lambda>r.
           bindR (stored_form (env_lib env) c r) (\<lambda>(to_store, capsule_id). Inl LedgerCorrupt :: (capsule \<times> json \<times> Resolution) res)))) = Inl e" (is "\<exists>e. ?g = Inl e")
    by (cases ?g) (auto simp: bindR_eq_Inr split: prod.splits)
  then show thesis using that assms by (auto simp: st_append_def cong: prod.case_cong)
qed

section \<open>Sound states\<close>

definition torn_entry :: "CapsuleLib \<Rightarrow> 'c Store \<Rightarrow> LogEntry list \<Rightarrow> LogEntry \<Rightarrow> nat \<Rightarrow> bool" where
  "torn_entry lib st es e k \<longleftrightarrow> entry_ok lib e \<and> ae_id e \<notin> set (map ae_id es) \<and>
     (\<exists>row. params_of lib (length (segment_text es (ae_segment e))) e = Inr row) \<and>
     torn lib st es (ae_segment e) (take k (line_bytes (ae_capsule e)))"

definition sound :: "CapsuleLib \<Rightarrow> 'c Store \<Rightarrow> LogEntry list \<Rightarrow> bool" where
  "sound lib st es \<longleftrightarrow> st_managed st \<and> live st \<and> (stored lib st es \<or> st_needs_recover st \<and> (\<exists>e k. torn_entry lib st es e k))"

lemma sound_stored: "st_managed st \<Longrightarrow> live st \<Longrightarrow> stored lib st es \<Longrightarrow> sound lib st es"
  by (simp add: sound_def)

text \<open>In a sound state every entry can be read, whatever lies behind the last line.\<close>

lemma sound_holds:
  assumes "sound lib st es"
  obtains junk where "holds lib st es junk"
proof -
  have "\<exists>junk. holds lib st es junk" if p: "torn_entry lib st es e k" for e k
  proof -
    have c: "capsule_ok (ae_capsule e)" using p by (simp add: torn_entry_def entry_ok_def)
    have "list_all plain_byte (take k (line_bytes (ae_capsule e)))"
      using line_byte_values [OF c] by (auto simp: list_all_iff dest: in_set_takeD)
    then show ?thesis using torn_holds p unfolding torn_entry_def by blast
  qed
  then show thesis using assms stored_holds that unfolding sound_def by blast
qed

lemma torn_change:
  assumes "lookup_change st st'" "torn lib st es seg junk"
  shows "torn lib st' es seg junk"
  using assms(2) lookup_change_sel [OF assms(1)] lookup_change_keeps [OF assms(1)]
  by (simp add: torn_def index_holds_def)

lemma sound_change: "lookup_change st st' \<Longrightarrow> sound lib st es \<Longrightarrow> sound lib st' es"
proof -
  assume c: "lookup_change st st'"
  have "st_managed st' = st_managed st" "st_needs_recover st' = st_needs_recover st" "live st' = live st"
    "stored lib st' es = stored lib st es" using lookup_change_sel [OF c] lookup_change_keeps [OF c] by simp_all
  moreover have "torn_entry lib st es e k \<Longrightarrow> torn_entry lib st' es e k" for e k using torn_change [OF c] by (simp add: torn_entry_def)
  ultimately show "sound lib st es \<Longrightarrow> sound lib st' es" unfolding sound_def by blast
qed

lemma sound_moved:
  assumes "sound lib st es" "moved st st'"
  shows "sound lib st' es"
proof -
  have m: "st_managed st" using assms(1) by (simp add: sound_def)
  have "st_needs_recover st' = st_needs_recover st" using assms(2) by (simp add: moved_def)
  then show ?thesis
    using assms(1) moved_keeps [OF assms(2) m] moved_torn [OF assms(2) m] unfolding sound_def torn_entry_def by blast
qed

lemma torn_checkpointer: "torn lib st es seg junk \<Longrightarrow> torn lib (st\<lparr>st_checkpointer := x\<rparr>) es seg junk"
proof -
  have "segment_file (st\<lparr>st_checkpointer := x\<rparr>) n = segment_file st n" for n by (rule segment_file_cong) simp_all
  then show "torn lib st es seg junk \<Longrightarrow> torn lib (st\<lparr>st_checkpointer := x\<rparr>) es seg junk"
    by (simp add: torn_def index_holds_def)
qed

lemma sound_checkpointer: "sound lib st es \<Longrightarrow> sound lib (st\<lparr>st_checkpointer := x\<rparr>) es"
  using torn_checkpointer [of lib st es _ _ x] by (simp add: sound_def torn_entry_def) blast

lemma append_outcomeE:
  assumes "append_outcome lib es st (r, st')"
  obtains fs where "keeps lib (es @ fs) st st'"
    | e k where "st_needs_recover st'" "same_settings st st'" "torn_entry lib st' es e k"
proof (cases r)
  case (Inl err)
  with assms consider "keeps lib es st st'" | e where "keeps lib (es @ [e]) st st'"
    | e k where "st_needs_recover st'" "same_settings st st'" "torn_entry lib st' es e k"
    by (auto simp: append_outcome_def torn_entry_def)
  then show thesis using that(1) [of "[]"] that by cases auto
next
  case (Inr rec)
  then show thesis using assms that(1) by (auto simp: append_outcome_def)
qed

text \<open>What the library promises: identities leave the envelope out, and classifying a stored line never raises.\<close>

definition lib_ok :: "CapsuleLib \<Rightarrow> bool" where
  "lib_ok lib \<longleftrightarrow> excludes_envelope lib \<and> (\<forall>c. \<exists>a. reindex_authenticity lib c = Inr a)"

lemma sound_append:
  assumes lib: "lib_ok lib" "env_lib env = lib" and s: "sound lib st es" and c: "capsule_ok c"
    and a: "st_append env io st c consequential admission = (r, st')"
  shows "\<exists>fs. sound lib st' (es @ fs)"
proof (cases "st_needs_recover st")
  case True
  then obtain e where "st_append env io st c consequential admission = (Inl e, st)" by (rule append_refused)
  then show ?thesis using a s by (intro exI [of _ "[]"]) simp
next
  case False
  then have l: "live st" "stored lib st es" "st_managed st" using s by (auto simp: sound_def)
  have keep: "sound lib st' fs" if "keeps lib fs st st'" for fs
    using that l(3) by (auto simp: keeps_def sound_def same_settings_def)
  have "append_outcome lib es st (r, st')"
    unfolding a [symmetric] using lib c l(1,2) by (intro append_keeps) (simp_all add: lib_ok_def)
  then show ?thesis
  proof (cases rule: append_outcomeE)
    case (2 e k)
    then have "sound lib st' (es @ [])" using l(3) by (auto simp: sound_def torn_entry_def torn_def same_settings_def)
    then show ?thesis by blast
  qed (use keep in blast)
qed


lemma recover_from:
  assumes lib: "lib_ok lib" "env_lib env = lib" and m: "st_managed st" "live st"
    and s: "stored lib st es \<or> (\<exists>e k. torn_entry lib st es e k)"
  shows "\<exists>rep st' fs. recover env st = (Inr rep, st') \<and> st_managed st' \<and> live st' \<and> \<not> st_needs_recover st' \<and> stored lib st' (es @ fs) \<and>
    rp_indexed_seqs rep = map (\<lambda>i. int (length es + i) + 1) [0..<length fs]"
proof -
  consider "stored lib st es" | e k where "torn_entry lib st es e k" using s by blast
  then show ?thesis
  proof cases
    case 1
    have "torn lib st es (write_target st) []" by (rule stored_torn [OF m(2,1) 1])
    then obtain rep st' where "recover env st = (Inr rep, st')" "stored lib st' es" "live st'" "st_managed st'" "\<not> st_needs_recover st'"
      "rp_truncated_bytes rep = length ([] :: bytes)" "rp_indexed_seqs rep = []" "rp_skipped_offsets rep = []"
      by (rule recover_torn_line [OF lib(2) m(1)]) simp_all
    then show ?thesis by (intro exI [of _ rep] exI [of _ st'] exI [of _ "[]"]) simp
  next
    case 2
    then obtain row where p: "params_of lib (length (segment_text es (ae_segment e))) e = Inr row" by (auto simp: torn_entry_def)
    obtain a where a: "reindex_authenticity lib (ae_capsule e) = Inr a" using lib(1) by (auto simp: lib_ok_def)
    have e: "torn lib st es (ae_segment e) (take k (line_bytes (ae_capsule e)))" "entry_ok lib e" "ae_id e \<notin> set (map ae_id es)"
      using 2 by (simp_all add: torn_entry_def)
    obtain rep st' where "recover env st = (Inr rep, st')" "live st'" "st_managed st'" "\<not> st_needs_recover st'"
      "stored lib st' es \<and> rp_indexed_seqs rep = [] \<or> stored lib st' (es @ [recovered a e]) \<and> rp_indexed_seqs rep = [int (length es) + 1]"
      using recover_torn [OF lib(2) m(1) e p a] by auto
    then show ?thesis
      by (elim disjE) (intro exI [of _ rep] exI [of _ st'] exI [of _ "[]"], simp, intro exI [of _ rep] exI [of _ st'] exI [of _ "[recovered a e]"], simp)
  qed
qed

lemma sound_recover:
  assumes "lib_ok lib" "env_lib env = lib" "sound lib st es"
  shows "\<exists>rep st' fs. recover env st = (Inr rep, st') \<and> st_managed st' \<and> live st' \<and> \<not> st_needs_recover st' \<and> stored lib st' (es @ fs) \<and>
    rp_indexed_seqs rep = map (\<lambda>i. int (length es + i) + 1) [0..<length fs]"
  using assms(3) by (intro recover_from [OF assms(1,2)]) (auto simp: sound_def)

text \<open>Importing is appending line by line; the capsules of the lines are ones JSON can write again.\<close>

definition importable :: "pytext list \<Rightarrow> bool" where
  "importable raws \<longleftrightarrow> list_all (\<lambda>raw. case parse_json (strip raw) of Some (JObj c) \<Rightarrow> capsule_ok c | _ \<Rightarrow> True) raws"

lemma sound_import:
  assumes lib: "lib_ok lib" "env_lib env = lib"
  shows "sound lib st es \<Longrightarrow> manifest_saved st \<Longrightarrow> importable raws \<Longrightarrow> import_lines env ios b raws n st = (r, st') \<Longrightarrow>
    (\<exists>fs. sound lib st' (es @ fs)) \<and> manifest_saved st'"
proof (induction raws arbitrary: n st es)
  case Nil
  then show ?case by (auto intro: exI [of _ "[]"])
next
  case (Cons raw raws)
  have rest: "importable raws" using Cons.prems(3) by (simp add: importable_def)
  have same: ?case if "st' = st" using that Cons.prems(1,2) by (auto intro: exI [of _ "[]"])
  show ?case
  proof (cases "strip raw = [] \<or> (\<nexists>c. parse_json (strip raw) = Some (JObj c))")
    case True
    then consider "import_lines env ios b raws n st = (r, st')" | "st' = st"
      using Cons.prems(4) by (auto split: if_splits option.splits json.splits)
    then show ?thesis using Cons.IH [OF Cons.prems(1,2) rest] same by cases blast+
  next
    case False
    then obtain c where c: "parse_json (strip raw) = Some (JObj c)" "strip raw \<noteq> []" by blast
    have ok: "capsule_ok c" using Cons.prems(3) c(1) by (simp add: importable_def)
    obtain q st1 where a: "st_append env (ios n) st c b None = (q, st1)" by fastforce
    obtain fs where fs: "sound lib st1 (es @ fs)" using sound_append [OF lib Cons.prems(1) ok a] by blast
    have saved: "manifest_saved st1" using Cons.prems(2) a by (rule saved_append)
    from Cons.prems(4) c a consider "st' = st1" | "import_lines env ios b raws (n + 1) st1 = (r, st')"
      by (cases q) auto
    then show ?thesis
    proof cases
      case 1
      then show ?thesis using fs saved by blast
    next
      case 2
      then show ?thesis using Cons.IH [OF fs saved rest] by (metis append_assoc)
    qed
  qed
qed

text \<open>A process that ends and a new one that opens the directory: with everything in order, or after a crash,
  where \<^verbatim>\<open>recover\<close> is called first.\<close>

lemma sound_reopen:
  fixes st st' :: "'c Store"
  assumes "sound lib st es" "manifest_saved st" "op_rotate_at_checkpoint opt" "open_store opt (st_disk st) = Inr st'"
  shows "st_managed st' \<and> live st' \<and> manifest_saved st' \<and> (stored lib st' es \<or> (\<exists>e k. torn_entry lib st' es e k)) \<and>
    (\<not> st_needs_recover st \<longrightarrow> stored lib st' es)"
proof -
  have m: "st_managed st" "managed_ok st" using assms(1) by (simp_all add: sound_def live_def)
  obtain st1 :: "'c Store" where st1: "open_store opt (st_disk st) = Inr st1" "st_managed st1" "st_manifest st1 = st_manifest st"
    "dk_files (st_disk st1) = dk_files (st_disk st)" "dk_archived (st_disk st1) = dk_archived (st_disk st)"
    "dk_rows (st_disk st1) = dk_rows (st_disk st)" "dk_manifest (st_disk st1) = dk_manifest (st_disk st)"
    "\<not> st_needs_recover st1" "\<not> st_read_only st1" "managed_ok st1"
    using reopen [OF m assms(2,3)] by blast
  have eq: "st1 = st'" using st1(1) assms(4) by simp
  note k = reopened_keeps [OF m(1) st1(2-6,10), unfolded eq]
  have "torn_entry lib st es e j \<Longrightarrow> torn_entry lib st' es e j" for e j
    using k(3) by (auto simp: torn_entry_def)
  moreover have "manifest_saved st'" using saved_cong [OF st1(7,3)] assms(2) by (simp add: eq)
  ultimately show ?thesis using k(1,2) st1(2) assms(1) unfolding eq sound_def by blast
qed

section \<open>Steps\<close>

text \<open>An operation called on a store, whatever it returns or raises. A capsule given to \<^verbatim>\<open>append\<close> is one JSON can
  write and read back: no float literal, no lone surrogate. \<open>Reopen\<close> is an orderly end of the process and a new one,
  \<open>Restart\<close> a crash between two operations or in the middle of an append, a new instance and \<^verbatim>\<open>recover\<close>.\<close>

inductive ledger_step :: "'c StoreEnv \<Rightarrow> 'c Store \<Rightarrow> 'c Store \<Rightarrow> bool" for env where
  Append: "capsule_ok c \<Longrightarrow> st_append env io st c consequential admission = (r, st') \<Longrightarrow> ledger_step env st st'"
| Recover: "recover env st = (r, st') \<Longrightarrow> ledger_step env st st'"
| Unmount: "unmount_segment name st = (r, st') \<Longrightarrow> ledger_step env st st'"
| Mount: "mount_segment name st = (r, st') \<Longrightarrow> ledger_step env st st'"
| Checkpointer: "set_checkpointer cp st = Inr st' \<Longrightarrow> ledger_step env st st'"
| Rebuild: "rebuild_lookup_index env st = (r, st') \<Longrightarrow> ledger_step env st st'"
| By_time: "by_time env st start stop = (rs, st') \<Longrightarrow> ledger_step env st st'"
| By_digest: "by_digest env st wanted = (d, st') \<Longrightarrow> ledger_step env st st'"
| By_correlation: "by_correlation env st wanted = (rs, st') \<Longrightarrow> ledger_step env st st'"
| By_seq_range: "by_seq_range env st lo hi = (rs, st') \<Longrightarrow> ledger_step env st st'"
| Import: "importable raws \<Longrightarrow> import_lines env ios consequential raws n st = (rn, st') \<Longrightarrow> ledger_step env st st'"
| Reopen: "\<not> st_needs_recover st \<Longrightarrow> op_rotate_at_checkpoint opt \<Longrightarrow> open_store opt (st_disk st) = Inr st' \<Longrightarrow> ledger_step env st st'"
| Restart: "op_rotate_at_checkpoint opt \<Longrightarrow> open_store opt (st_disk st) = Inr opened \<Longrightarrow> recover env opened = (r, st') \<Longrightarrow> ledger_step env st st'"

inductive_cases ledger_stepE: "ledger_step env st st'"

lemma with_lookup_change: "with_lookup f g st = (r, st') \<Longrightarrow> lookup_change st st'"
proof -
  have "lookup_change st (st\<lparr>st_lookup_on := False\<rparr>)"
    unfolding lookup_change_def by (intro exI [of _ "dk_lookup (st_disk st)"] exI [of _ False]) simp
  then show "with_lookup f g st = (r, st') \<Longrightarrow> lookup_change st st'"
    by (auto simp: with_lookup_def lookup_change_refl split: if_splits option.splits)
qed

lemma query_change:
  "by_time env st start stop = (rs, st') \<Longrightarrow> lookup_change st st'" "by_digest env st wanted = (d, st') \<Longrightarrow> lookup_change st st'"
  "by_correlation env st wanted = (rs, st') \<Longrightarrow> lookup_change st st'" "by_seq_range env st lo hi = (rs, st') \<Longrightarrow> lookup_change st st'"
  by (simp_all only: by_time_def by_digest_def by_correlation_def by_seq_range_def with_lookup_change)

lemma rebuild_change: "rebuild_lookup_index env st = (r, st') \<Longrightarrow> lookup_change st st'"
proof -
  have c: "lookup_change st (on_disk (\<lambda>d. d\<lparr>dk_lookup := Some t\<rparr>) ((on_disk (\<lambda>d. d\<lparr>dk_lookup := l\<rparr>) st)\<lparr>st_lookup_on := True\<rparr>))" for l t
    unfolding lookup_change_def by (intro exI [of _ "Some t"] exI [of _ True]) (simp add: on_disk_def)
  moreover have "lookup_change st ((on_disk (\<lambda>d. d\<lparr>dk_lookup := l\<rparr>) st)\<lparr>st_lookup_on := True\<rparr>)" for l
    unfolding lookup_change_def by (intro exI [of _ l] exI [of _ True]) (simp add: on_disk_def)
  ultimately show "rebuild_lookup_index env st = (r, st') \<Longrightarrow> lookup_change st st'"
    by (auto simp: rebuild_lookup_index_def Let_def lookup_change_refl split: if_splits sum.splits prod.splits)
qed

text \<open>What every step keeps.\<close>

definition healthy :: "CapsuleLib \<Rightarrow> 'c Store \<Rightarrow> LogEntry list \<Rightarrow> bool" where
  "healthy lib st es \<longleftrightarrow> sound lib st es \<and> manifest_saved st"

lemma healthyD: "healthy lib st es \<Longrightarrow> sound lib st es" "healthy lib st es \<Longrightarrow> manifest_saved st"
  by (simp_all add: healthy_def)

lemma healthy_step:
  assumes lib: "lib_ok lib" "env_lib env = lib" and h: "healthy lib st es" and step: "ledger_step env st st'"
  shows "\<exists>fs. healthy lib st' (es @ fs)"
proof -
  have s: "sound lib st es" and saved: "manifest_saved st" using h by (simp_all add: healthy_def)
  have m: "st_managed st" "managed_ok st" using s by (simp_all add: sound_def live_def)
  have same: "sound lib st' es \<Longrightarrow> manifest_saved st' \<Longrightarrow> ?thesis"
    by (rule exI [of _ "[]"]) (simp add: healthy_def)
  have changed: "lookup_change st st' \<Longrightarrow> ?thesis"
    using same sound_change [OF _ s] saved_change saved by blast
  from step show ?thesis
  proof cases
    case Append
    then show ?thesis using sound_append [OF lib s] saved_append [OF saved] by (auto simp: healthy_def)
  next
    case Recover
    then show ?thesis using sound_recover [OF lib s] sound_stored saved_recover [OF saved] by (metis healthy_def prod.inject)
  next
    case Unmount
    then show ?thesis using same sound_moved [OF s] unmount_moved [OF m(2,1)] saved_moves(1) [OF saved] by blast
  next
    case Mount
    then show ?thesis using same sound_moved [OF s] mount_moved [OF m(2,1)] saved_moves(2) [OF saved] by blast
  next
    case (Checkpointer cp)
    then have "st' = st\<lparr>st_checkpointer := Some cp\<rparr>" using m(1) by (simp add: set_checkpointer_def)
    then show ?thesis using same sound_checkpointer [OF s] saved by simp
  next
    case Rebuild
    then show ?thesis using changed rebuild_change by blast
  next
    case By_time
    then show ?thesis using changed query_change(1) by blast
  next
    case By_digest
    then show ?thesis using changed query_change(2) by blast
  next
    case By_correlation
    then show ?thesis using changed query_change(3) by blast
  next
    case By_seq_range
    then show ?thesis using changed query_change(4) by blast
  next
    case Import
    then show ?thesis using sound_import [OF lib s saved] by (auto simp: healthy_def)
  next
    case Reopen
    then show ?thesis using same sound_reopen [OF s saved] sound_stored by blast
  next
    case (Restart opt opened r)
    then have o: "st_managed opened" "live opened" "manifest_saved opened" "stored lib opened es \<or> (\<exists>e k. torn_entry lib opened es e k)"
      using sound_reopen [OF s saved] by blast+
    then show ?thesis
      using recover_from [OF lib o(1,2,4)] saved_recover [OF o(3)] Restart(3) sound_stored by (metis healthy_def prod.inject)
  qed
qed

lemma healthy_steps:
  assumes "lib_ok lib" "env_lib env = lib" "healthy lib st es" "(ledger_step env)\<^sup>*\<^sup>* st st'"
  shows "\<exists>fs. healthy lib st' (es @ fs)"
  using assms(4)
proof (induction rule: rtranclp_induct)
  case base
  then show ?case using assms(3) by (intro exI [of _ "[]"]) simp
next
  case (step st1 st2)
  then obtain fs gs where "healthy lib st2 ((es @ fs) @ gs)" using healthy_step [OF assms(1,2)] by blast
  then show ?case by (intro exI [of _ "fs @ gs"]) simp
qed

end
