(* ===== verification/Ledger_Promises.thy ===== *)
theory Ledger_Promises
  imports Ledger_Steps
begin

text \<open>
  The properties of \<^verbatim>\<open>LedgerStore\<close>, with a concrete store they hold of: a new directory, a library that takes the
  identity a capsule carries, and a disk that fails in the middle of a line.
\<close>

section \<open>A new store\<close>

definition empty_disk :: Disk where
  "empty_disk = \<lparr>dk_files = [], dk_archived = [], dk_manifest = None, dk_seg_manifests = [], dk_rows = [], dk_lookup = Some empty_tables,
     dk_lookup_config = None\<rparr>"

definition new_directory :: "Disk \<Rightarrow> bool" where
  "new_directory d \<longleftrightarrow> dk_manifest d = None \<and> dk_files d = [] \<and> dk_archived d = [] \<and> dk_rows d = []"

lemma new_store_managed:
  assumes "op_rotate_at_checkpoint opt" "new_directory d"
  obtains st :: "'c Store" where "open_store opt d = Inr st" "healthy lib st []" "\<not> st_needs_recover st" "\<not> st_read_only st"
proof -
  have blank: "dk_manifest d = None" "dk_files d = []" "dk_archived d = []" "dk_rows d = []"
    using assms(2) by (simp_all add: new_directory_def)
  let ?d = "if op_correlation_fields opt \<noteq> [] then d\<lparr>dk_lookup_config := Some (fields_config (op_correlation_fields opt))\<rparr> else d"
  let ?m = "\<lparr>sm_log_id = op_log_id opt, sm_active_segment = None, sm_segments = []\<rparr>"
  let ?n = "seg_name 1"
  obtain st0 :: "'c Store" where st0: "open_store opt d = Inr (sync_write_segment st0)" "st_disk st0 = ?d" "st_managed st0" "st_manifest st0 = ?m"
    "\<not> st_needs_recover st0" "\<not> st_read_only st0" "st_write_segment st0 = None"
    using assms(1) blank by (simp add: open_store_def opened_manifest_def Let_def)
  let ?s1 = "start_segment st0"
  have s1: "st_manifest ?s1 = ?m\<lparr>sm_segments := [fresh_entry ?n], sm_active_segment := Some ?n\<rparr>" "dk_files (st_disk ?s1) = [(?n, [])]"
    "dk_archived (st_disk ?s1) = []" "dk_rows (st_disk ?s1) = []" "st_managed ?s1" "\<not> st_needs_recover ?s1" "\<not> st_read_only ?s1"
    "st_write_segment ?s1 = None"
    using st0 blank by (simp_all add: start_segment_def Let_def new_segment_name_def touch_def put_file_def on_disk_def save_store_manifest_def)
  have live: "live ?s1" using s1 by (simp add: live_def managed_ok_def segment_names_def fresh_entry_def)
  have no_text: "segment_file ?s1 n = Some b \<Longrightarrow> b = []" for n b
    using s1 by (auto simp: segment_file_def split: if_splits)
  then have stored: "stored lib ?s1 []" using s1(4) by (auto simp: stored_def index_holds_def files_match_def)
  have "sync_write_segment st0 = sync_write_segment ?s1"
    using st0 s1 by (simp add: sync_write_segment_def sync_write_segment_managed_def)
  moreover have "keeps lib [] ?s1 (sync_write_segment ?s1)" using live stored by (rule sync_keeps)
  moreover have "manifest_saved (sync_write_segment ?s1)" by (simp add: saved_sync)
  ultimately show thesis using that st0(1) s1(5-7) by (auto simp: keeps_def sound_def same_settings_def healthy_def)
qed

definition sample_capsules :: CapsuleLib where
  "sample_capsules = \<lparr>cap_id = (\<lambda>_. Inr (text_of ''aa'')), cap_envelope = (\<lambda>_ cose. Inr (cose = [], [])), sql_real = Some\<rparr>"

definition sample_env :: "unit StoreEnv" where
  "sample_env = \<lparr>env_lib = sample_capsules, env_checkpoint = (\<lambda>_ cp. (Inl ValueError, cp)), env_range_proof = (\<lambda>_ _ _. Inl ValueError),
     env_text_line = (\<lambda>_ _. Inl ValueError), env_decode = (\<lambda>_. None), env_name_error = (\<lambda>_. None), env_fromiso = (\<lambda>_. None)\<rparr>"

definition sample_options :: StoreOptions where
  "sample_options = default_options\<lparr>op_rotate_at_checkpoint := True\<rparr>"

definition sample_store :: "unit Store" where
  "sample_store = (case open_store sample_options empty_disk of Inr st \<Rightarrow> st)"

definition sample_capsule :: capsule where
  "sample_capsule = [(text_of ''capsule_id'', JStr (text_of ''b1''))]"

definition torn_io :: AppendIo where
  "torn_io = calm_io\<lparr>io_torn := Some 5\<rparr>"

lemma sample_capsules_ok: "lib_ok sample_capsules" "env_lib sample_env = sample_capsules"
proof -
  have "\<exists>a. reindex_authenticity sample_capsules c = Inr a" for c
  proof -
    have "check_envelope sample_capsules i e = Inl x \<Longrightarrow> x = ValueError" for i e x
      using from_hex_error by (auto simp: check_envelope_def sample_capsules_def fromhex_text_def bindR_eq_Inl split: if_splits)
    then show ?thesis
      by (auto simp: reindex_authenticity_def or_refused_def sample_capsules_def bindR_eq_Inl split: option.split sum.split)
  qed
  then show "lib_ok sample_capsules" by (simp add: lib_ok_def excludes_envelope_def) (simp add: sample_capsules_def)
qed (simp add: sample_env_def)

lemma sample_opened:
  "open_store sample_options empty_disk = Inr sample_store" "healthy sample_capsules sample_store []"
  "op_rotate_at_checkpoint sample_options" "new_directory empty_disk"
  "\<not> st_needs_recover sample_store" "\<not> st_read_only sample_store"
proof -
  show o: "op_rotate_at_checkpoint sample_options" "new_directory empty_disk"
    by (simp_all add: sample_options_def empty_disk_def new_directory_def)
  obtain st :: "unit Store" where "open_store sample_options empty_disk = Inr st" "healthy sample_capsules st []"
    "\<not> st_needs_recover st" "\<not> st_read_only st"
    by (rule new_store_managed [OF o, of sample_capsules])
  then show "open_store sample_options empty_disk = Inr sample_store" "healthy sample_capsules sample_store []"
    "\<not> st_needs_recover sample_store" "\<not> st_read_only sample_store" by (simp_all add: sample_store_def)
qed

lemmas sample_sound = healthyD(1) [OF sample_opened(2)] sample_opened(5,6)

lemma sample_capsule_ok: "capsule_ok sample_capsule" "capsule_ok []"
  by (simp_all add: capsule_ok_def sample_capsule_def scalar_text_def text_of_def)

text \<open>One append to the sample store: of the sample capsule, and of one that carries no identity.\<close>

lemma sample_append:
  "case st_append sample_env calm_io sample_store sample_capsule True None of (Inr rec, _) \<Rightarrow> sr_capsule rec = JObj sample_capsule | _ \<Rightarrow> False"
  "case st_append sample_env calm_io sample_store [] True None of (Inr rec, _) \<Rightarrow> sr_capsule rec = JObj [] | _ \<Rightarrow> False"
  by code_simp+

lemma sample_appended_capsule:
  assumes "case st_append sample_env calm_io sample_store c True None of (Inr rec, _) \<Rightarrow> sr_capsule rec = JObj c | _ \<Rightarrow> False" "capsule_ok c"
  obtains rec st e where "st_append sample_env calm_io sample_store c True None = (Inr rec, st)"
    "live st" "stored sample_capsules st [e]" "\<not> st_read_only st" "\<not> st_needs_recover st" "st_managed st" "ae_capsule e = c"
proof -
  obtain rec st where a: "st_append sample_env calm_io sample_store c True None = (Inr rec, st)" "sr_capsule rec = JObj c"
    using assms(1) by (auto split: prod.splits sum.splits)
  have "append_outcome sample_capsules [] sample_store (Inr rec, st)"
    unfolding a(1) [symmetric] using sample_capsules_ok sample_sound assms(2) by (intro append_keeps) (auto simp: lib_ok_def sound_def)
  then obtain e where "keeps sample_capsules [e] sample_store st" "rec\<lparr>sr_envelopes := take 1 (sr_envelopes rec)\<rparr> = entry_record 0 e"
    by (auto simp: append_outcome_def)
  then show thesis
    using that [OF a(1), of e] a(2) sample_sound by (cases rec) (auto simp: keeps_def same_settings_def sound_def entry_record_def)
qed

lemma sample_appended:
  obtains rec st e where "st_append sample_env calm_io sample_store sample_capsule True None = (Inr rec, st)"
    "live st" "stored sample_capsules st [e]" "\<not> st_read_only st" "\<not> st_needs_recover st" "st_managed st" "ae_capsule e = sample_capsule"
  using sample_appended_capsule [OF sample_append(1) sample_capsule_ok(1)] by metis

section \<open>Properties\<close>

text \<open>
  C9. A managed ledger store only grows. A store is opened on an empty directory, and any sequence of these
  operations follows: \<^verbatim>\<open>append\<close> with any admission request and \<^verbatim>\<open>import_jsonl\<close>, of capsules without float literals
  and lone surrogates, with any failure while the line, its row or its lookup rows are written and any result
  of the checkpointer in a rotation; \<^verbatim>\<open>recover\<close>, unmounting and mounting, attaching a checkpointer, the lookups and
  \<^verbatim>\<open>rebuild_lookup_index\<close>; the end of the process and a new instance on the directory, where \<^verbatim>\<open>recover\<close> comes
  first when the last append was torn. Then every later state holds the entries of every earlier state, in
  their places, with further entries behind them; and each entry is fetched under its identity as it was
  stored, unless its segment is archived. (\<^verbatim>\<open>reindex\<close>, which classifies every entry anew, is not among the operations,
  and only appends meet a failing disk.)
\<close>

theorem ledger_history:
  assumes "lib_ok (env_lib env)" "op_rotate_at_checkpoint opt" "new_directory d" "open_store opt d = Inr st0"
    "(ledger_step env)\<^sup>*\<^sup>* st0 st1" "(ledger_step env)\<^sup>*\<^sup>* st1 st2"
  shows "\<exists>es fs. sound (env_lib env) st1 es \<and> sound (env_lib env) st2 (es @ fs) \<and>
    (\<forall>i<length es. fetch env st1 (ae_id (es ! i)) =
       (if unmounted st1 (ae_segment (es ! i)) then Inl SegmentUnmounted else Inr (Some (entry_record i (es ! i))))) \<and>
    (\<forall>i<length (es @ fs). fetch env st2 (ae_id ((es @ fs) ! i)) =
       (if unmounted st2 (ae_segment ((es @ fs) ! i)) then Inl SegmentUnmounted else Inr (Some (entry_record i ((es @ fs) ! i)))))"
proof -
  have "healthy (env_lib env) st0 []" using new_store_managed [OF assms(2,3)] assms(4) by (metis sum.inject(2))
  then obtain es where es: "healthy (env_lib env) st1 es"
    using healthy_steps [OF assms(1) refl _ assms(5)] by (metis append_Nil)
  then obtain fs where fs: "healthy (env_lib env) st2 (es @ fs)"
    using healthy_steps [OF assms(1) refl _ assms(6)] by blast
  have "fetch env st (ae_id (gs ! i)) =
       (if unmounted st (ae_segment (gs ! i)) then Inl SegmentUnmounted else Inr (Some (entry_record i (gs ! i))))"
    if "healthy (env_lib env) st gs" "i < length gs" for st gs i
    using fetch_entry that healthyD(1) sound_holds by metis
  then show ?thesis using es fs healthyD(1) by blast
qed

lemma sample_step: "ledger_step sample_env st (snd (st_append sample_env io st sample_capsule b q))"
  using ledger_step.Append [OF sample_capsule_ok(1)] prod.collapse by metis

text \<open>A torn append, a crash with a restart, and the append again.\<close>

definition sample_restarted :: "unit Store" where
  "sample_restarted = (let torn_st = snd (st_append sample_env torn_io sample_store sample_capsule True None) in
     case open_store sample_options (st_disk torn_st) of Inr opened \<Rightarrow> snd (recover sample_env opened))"

lemma sample_crashed:
  obtains opened :: "unit Store" where "ledger_step sample_env sample_store (snd (st_append sample_env torn_io sample_store sample_capsule True None))"
    "open_store sample_options (st_disk (snd (st_append sample_env torn_io sample_store sample_capsule True None))) = Inr opened"
proof -
  let ?t = "snd (st_append sample_env torn_io sample_store sample_capsule True None)"
  have t: "ledger_step sample_env sample_store ?t" by (rule sample_step)
  obtain fs where h: "healthy sample_capsules ?t fs"
    using healthy_step [OF sample_capsules_ok sample_opened(2) t] by auto
  then have m: "st_managed ?t" "managed_ok ?t" "manifest_saved ?t" by (simp_all add: healthy_def sound_def live_def)
  obtain opened :: "unit Store" where "open_store sample_options (st_disk ?t) = Inr opened"
    using reopen [OF m sample_opened(3)] by blast
  with t show thesis by (rule that)
qed

lemma sample_restart:
  "(ledger_step sample_env)\<^sup>*\<^sup>* sample_store sample_restarted"
proof -
  let ?t = "snd (st_append sample_env torn_io sample_store sample_capsule True None)"
  obtain opened :: "unit Store" where t: "ledger_step sample_env sample_store ?t" "open_store sample_options (st_disk ?t) = Inr opened"
    by (rule sample_crashed)
  then have "ledger_step sample_env ?t sample_restarted"
    using ledger_step.Restart [OF sample_opened(3), of ?t opened sample_env "fst (recover sample_env opened)" "snd (recover sample_env opened)"]
    by (simp add: sample_restarted_def Let_def)
  with t(1) show ?thesis by (meson r_into_rtranclp rtranclp_trans)
qed

lemma ledger_history_witness:
  "\<exists>es fs. sound sample_capsules sample_restarted es \<and>
     sound sample_capsules (snd (st_append sample_env calm_io sample_restarted sample_capsule True None)) (es @ fs)"
proof -
  have "(ledger_step sample_env)\<^sup>*\<^sup>* sample_restarted (snd (st_append sample_env calm_io sample_restarted sample_capsule True None))"
    using sample_step by blast
  from ledger_history [OF _ sample_opened(3,4,1) sample_restart this] show ?thesis using sample_capsules_ok by auto
qed

text \<open>
  C11. What an append returns is what is read back. When \<^verbatim>\<open>append\<close> returns a record, it is numbered after the
  entries there were, nothing stored before it changed, and \<^verbatim>\<open>fetch\<close> of its identity returns it, with the first of
  the envelopes that verified.
\<close>

theorem append_read_back:
  assumes "lib_ok lib" "env_lib env = lib" "capsule_ok c" "live st" "stored lib st es"
    "st_append env io st c consequential admission = (Inr rec, st')"
  shows "sr_seq rec = int (length es) + 1 \<and> fetch env st' (sr_capsule_id rec) = Inr (Some (rec\<lparr>sr_envelopes := take 1 (sr_envelopes rec)\<rparr>)) \<and>
    (\<exists>e. stored lib st' (es @ [e]) \<and> ae_capsule e = (case sr_capsule rec of JObj t \<Rightarrow> t))"
proof -
  have "append_outcome lib es st (Inr rec, st')"
    unfolding assms(6) [symmetric] using assms(1-5) by (intro append_keeps) (simp_all add: lib_ok_def)
  then obtain e where e: "keeps lib (es @ [e]) st st'" "\<not> unmounted st (ae_segment e)"
    "rec\<lparr>sr_envelopes := take 1 (sr_envelopes rec)\<rparr> = entry_record (length es) e"
    by (auto simp: append_outcome_def)
  have "holds lib st' (es @ [e]) (\<lambda>_. [])" using e(1) by (intro stored_holds) (simp add: keeps_def)
  then have "fetch env st' (ae_id e) = Inr (Some (entry_record (length es) e))"
    using fetch_entry [of lib st' "es @ [e]" _ "length es" env] e(1,2) by (simp add: keeps_def)
  moreover have "sr_capsule_id rec = ae_id e" "sr_seq rec = int (length es) + 1" "sr_capsule rec = JObj (ae_capsule e)"
    using e(3) by (cases rec; simp add: entry_record_def)+
  ultimately show ?thesis using e(1,3) by (auto simp: keeps_def)
qed

lemma append_read_back_witness:
  "\<exists>rec st. st_append sample_env calm_io sample_store sample_capsule True None = (Inr rec, st) \<and> sr_seq rec = 1 \<and>
     fetch sample_env st (sr_capsule_id rec) = Inr (Some (rec\<lparr>sr_envelopes := take 1 (sr_envelopes rec)\<rparr>))"
proof -
  obtain rec st e where a: "st_append sample_env calm_io sample_store sample_capsule True None = (Inr rec, st)" by (rule sample_appended)
  have "live sample_store" "stored sample_capsules sample_store []" using sample_sound by (auto simp: sound_def)
  from append_read_back [OF sample_capsules_ok sample_capsule_ok(1) this a] show ?thesis using a by auto
qed

text \<open>
  C12. No identity is stored twice, however it is submitted. For any admission request (none counts as declared
  unsigned): when admission refuses the capsule, \<^verbatim>\<open>append\<close> raises that error; otherwise it takes the form to be
  stored and its identity (recomputed, for a signed submission), raises \<^verbatim>\<open>ValueError\<close> when the line could not be
  read back under it, and \<^verbatim>\<open>DuplicateRecord\<close> when an entry has that identity, also one in an archived segment. In all
  these cases neither a segment nor an index changes.
\<close>

theorem duplicate_refused:
  assumes "stored (env_lib env) st es" "\<not> st_read_only st" "\<not> st_needs_recover st"
    "q = (case admission of None \<Rightarrow> \<lparr>aq_mode = UNSIGNED, aq_envelopes = []\<rparr> | Some q \<Rightarrow> q)"
  shows "case bindR (resolve_admission (env_lib env) c q) (stored_form (env_lib env) c) of
      Inl e \<Rightarrow> st_append env io st c consequential admission = (Inl e, st)
    | Inr (to_store, i) \<Rightarrow>
        if id_problem to_store i then st_append env io st c consequential admission = (Inl ValueError, st)
        else i \<in> JStr ` ae_id ` set es \<longrightarrow> st_append env io st c consequential admission = (Inl DuplicateRecord, st)"
proof -
  have q: "(case admission of None \<Rightarrow> new_admission UNSIGNED [] | Some q \<Rightarrow> Inr q) = Inr q"
    using assms(4) by (simp add: new_admission_def split: option.split)
  show ?thesis
  proof (cases "bindR (resolve_admission (env_lib env) c q) (stored_form (env_lib env) c)")
    case (Inl e)
    then show ?thesis using assms(2) q by (auto simp: st_append_def refuse_read_only_def bindR_eq_Inl)
  next
    case (Inr p)
    obtain t i where p: "p = (t, i)" by (cases p)
    have dup: "st_append env io st c consequential admission = (Inl DuplicateRecord, st)"
      if ok: "\<not> id_problem t i" and i: "i = JStr (ae_id (es ! k))" "k < length es" for k
    proof -
      note h = stored_holds [OF assms(1)]
      have "\<exists>row. record_row st (ae_id (es ! k)) = Inr (Some row) \<and> (\<exists>x. existing_record env st row = Inr x)"
        using stored_row [OF h i(2)] existing_entry [OF h i(2)] by blast
      then show ?thesis
        using Inr p ok assms(2,3) q i(1) by (auto simp: st_append_def refuse_read_only_def as_string_def bindR_eq_Inr)
    qed
    have "id_problem t i \<Longrightarrow> st_append env io st c consequential admission = (Inl ValueError, st)"
      using Inr p assms(2,3) q by (auto simp: st_append_def refuse_read_only_def bindR_eq_Inr)
    then show ?thesis using dup Inr p by (auto simp: in_set_conv_nth)
  qed
qed

text \<open>A capsule stored unsigned, then submitted signed, under the same recomputed identity.\<close>

lemma duplicate_refused_witness:
  "\<exists>st. st_append sample_env calm_io (snd (st_append sample_env calm_io sample_store [] True None)) [] False
       (Some \<lparr>aq_mode = SIGNED, aq_envelopes = [\<lparr>pe_envelope = [], pe_key_id = []\<rparr>]\<rparr>) = (Inl DuplicateRecord, st)"
proof -
  let ?q = "\<lparr>aq_mode = SIGNED, aq_envelopes = [\<lparr>pe_envelope = [], pe_key_id = []\<rparr>]\<rparr>"
  obtain rec st e where a: "st_append sample_env calm_io sample_store [] True None = (Inr rec, st)"
    "stored sample_capsules st [e]" "\<not> st_read_only st" "\<not> st_needs_recover st" "ae_capsule e = []"
    by (rule sample_appended_capsule [OF sample_append(2) sample_capsule_ok(2)])
  have "carried_id sample_capsules [] = Inr (JStr (text_of ''aa''))" by code_simp
  then have e: "ae_id e = text_of ''aa''" using storedD(2) [OF a(2)] a(5) by (simp add: entry_ok_def)
  have "case bindR (resolve_admission sample_capsules [] ?q) (stored_form sample_capsules []) of
      Inr (t, i) \<Rightarrow> \<not> id_problem t i \<and> i = JStr (text_of ''aa'') | _ \<Rightarrow> False" by code_simp
  then show ?thesis
    using duplicate_refused [where env = sample_env and st = st and es = "[e]" and q = ?q and admission = "Some ?q" and c = "[]"
        and io = calm_io and consequential = False] a e sample_capsules_ok(2)
    by (auto split: sum.splits prod.splits)
qed

lemma sound_index:
  assumes "sound lib st es"
  shows "map rw_seq (dk_rows (st_disk st)) = map (\<lambda>i. int i + 1) [0..<length es] \<and> distinct (map rw_capsule_id (dk_rows (st_disk st))) \<and>
    list_all (\<lambda>r. \<exists>content c. segment_file st (rw_segment r) = Some content \<and> line_at content (rw_offset r) = line_bytes c \<and>
      capsule_ok c \<and> carried_id lib c = Inr (JStr (rw_capsule_id r))) (dk_rows (st_disk st))"
proof -
  obtain junk where h: "holds lib st es junk" using assms by (rule sound_holds)
  note rows = holdsD(1) [OF h]
  have "\<exists>content c. segment_file st (rw_segment r) = Some content \<and> line_at content (rw_offset r) = line_bytes c \<and>
      capsule_ok c \<and> carried_id lib c = Inr (JStr (rw_capsule_id r))" if r: "r \<in> set (dk_rows (st_disk st))" for r
  proof -
    obtain i where "i < length (dk_rows (st_disk st))" "dk_rows (st_disk st) ! i = r" using r unfolding in_set_conv_nth by blast
    then have i: "i < length es" "r = dk_rows (st_disk st) ! i" using rows_match_length [OF rows] by simp_all
    have "entry_ok lib (es ! i)" using holdsD(2) [OF h] i(1) by (simp add: list_all_length)
    then show ?thesis
      unfolding i(2) rows_match_fields(2-4) [OF rows i(1)] entry_file [OF h i(1)] entry_ok_def using entry_line [OF h i(1)] by blast
  qed
  then show ?thesis
    using rows_match_seqs [OF rows] rows_match_ids [OF rows] holdsD(3) [OF h] by (simp add: list_all_iff)
qed

text \<open>
  C36. The index is well formed after every sequence of the operations of \<open>ledger_step\<close> from an empty directory,
  failing appends, recoveries, rotations, moves of segments and restarts included: the rows are numbered from one
  without a gap, no identity occurs twice, and each row points into its segment at the start of the line of a
  capsule that carries its identity.
\<close>

theorem index_well_formed:
  assumes "lib_ok (env_lib env)" "op_rotate_at_checkpoint opt" "new_directory d" "open_store opt d = Inr st0"
    "(ledger_step env)\<^sup>*\<^sup>* st0 st"
  shows "map rw_seq (dk_rows (st_disk st)) = map (\<lambda>i. int i + 1) [0..<length (dk_rows (st_disk st))] \<and>
    distinct (map rw_capsule_id (dk_rows (st_disk st))) \<and>
    list_all (\<lambda>r. \<exists>content c. segment_file st (rw_segment r) = Some content \<and> line_at content (rw_offset r) = line_bytes c \<and>
      capsule_ok c \<and> carried_id (env_lib env) c = Inr (JStr (rw_capsule_id r))) (dk_rows (st_disk st))"
proof -
  have "healthy (env_lib env) st0 []" using new_store_managed [OF assms(2,3)] assms(4) by (metis sum.inject(2))
  then obtain es where "sound (env_lib env) st es"
    using healthy_steps [OF assms(1) refl _ assms(5)] healthyD(1) by blast
  note i = sound_index [OF this]
  then have "length (dk_rows (st_disk st)) = length es" by (metis length_map length_upt diff_zero)
  then show ?thesis using i by simp
qed

lemma index_well_formed_witness:
  "\<exists>st. distinct (map rw_capsule_id (dk_rows (st_disk st))) \<and>
     map rw_seq (dk_rows (st_disk st)) = map (\<lambda>i. int i + 1) [0..<length (dk_rows (st_disk st))] \<and>
     st = snd (st_append sample_env calm_io sample_restarted sample_capsule True None)"
proof -
  have "(ledger_step sample_env)\<^sup>*\<^sup>* sample_store (snd (st_append sample_env calm_io sample_restarted sample_capsule True None))"
    using sample_restart sample_step by (meson rtranclp.rtrancl_into_rtrancl)
  from index_well_formed [OF _ sample_opened(3,4,1) this] show ?thesis using sample_capsules_ok by simp
qed

text \<open>
  C10. Recovery succeeds and loses nothing, in every state the operations of \<open>ledger_step\<close> reach from an empty
  directory, in particular after an append that failed anywhere in its line, and in a new instance after the
  crash; the capsules appended have no float literals and no lone surrogates (a lone surrogate in a
  correlation field makes the lookup index raise). \<^verbatim>\<open>recover\<close> returns; afterwards the store holds all the
  entries it held, with the pending line as a further entry when it was complete, numbered as reported; the
  segments hold nothing else, and the store takes appends again. A second recovery finds nothing to do.
\<close>

theorem recovery_succeeds:
  assumes "lib_ok (env_lib env)" "op_rotate_at_checkpoint opt" "new_directory d" "open_store opt d = Inr st0"
    "(ledger_step env)\<^sup>*\<^sup>* st0 st"
    "st' = st \<or> op_rotate_at_checkpoint opt' \<and> open_store opt' (st_disk st) = Inr st'"
  shows "\<exists>es fs rep st''. sound (env_lib env) st es \<and> recover env st' = (Inr rep, st'') \<and>
    stored (env_lib env) st'' (es @ fs) \<and> live st'' \<and> \<not> st_needs_recover st'' \<and>
    rp_indexed_seqs rep = map (\<lambda>i. int (length es + i) + 1) [0..<length fs] \<and>
    (\<exists>rep' st3. recover env st'' = (Inr rep', st3) \<and> rp_truncated_bytes rep' = 0 \<and> rp_indexed_seqs rep' = [] \<and>
       stored (env_lib env) st3 (es @ fs))"
proof -
  let ?lib = "env_lib env"
  have "healthy ?lib st0 []" using new_store_managed [OF assms(2,3)] assms(4) by (metis sum.inject(2))
  then obtain es where es: "healthy ?lib st es" using healthy_steps [OF assms(1) refl _ assms(5)] by blast
  then have s: "sound ?lib st es" "manifest_saved st" by (simp_all add: healthy_def)
  have o: "st_managed st'" "live st'" "stored ?lib st' es \<or> (\<exists>e k. torn_entry ?lib st' es e k)"
    using assms(6) sound_reopen [OF s] s(1) unfolding sound_def by blast+
  obtain rep st'' fs where r: "recover env st' = (Inr rep, st'')" "st_managed st''" "live st''" "\<not> st_needs_recover st''"
    "stored ?lib st'' (es @ fs)" "rp_indexed_seqs rep = map (\<lambda>i. int (length es + i) + 1) [0..<length fs]"
    using recover_from [OF assms(1) refl o] by blast
  have "torn ?lib st'' (es @ fs) (write_target st'') []" by (rule stored_torn [OF r(3,2,5)])
  then obtain rep' st3 where "recover env st'' = (Inr rep', st3)" "stored ?lib st3 (es @ fs)" "live st3" "st_managed st3"
    "\<not> st_needs_recover st3" "rp_truncated_bytes rep' = length ([] :: bytes)" "rp_indexed_seqs rep' = []" "rp_skipped_offsets rep' = []"
    by (rule recover_torn_line [OF refl r(2)]) simp_all
  then show ?thesis using r s(1) by (intro exI [of _ es] exI [of _ fs] exI [of _ rep] exI [of _ st'']) simp
qed

text \<open>A torn append, a crash, and a new instance on the directory.\<close>

lemma recovery_succeeds_witness:
  "\<exists>opened fs rep st''. open_store sample_options (st_disk (snd (st_append sample_env torn_io sample_store sample_capsule True None))) =
       Inr opened \<and> recover sample_env opened = (Inr rep, st'') \<and> stored sample_capsules st'' fs \<and> \<not> st_needs_recover st''"
proof -
  let ?t = "snd (st_append sample_env torn_io sample_store sample_capsule True None)"
  obtain opened :: "unit Store" where t: "ledger_step sample_env sample_store ?t" "open_store sample_options (st_disk ?t) = Inr opened"
    by (rule sample_crashed)
  have "lib_ok (env_lib sample_env)" "(ledger_step sample_env)\<^sup>*\<^sup>* sample_store ?t" using sample_capsules_ok t(1) by auto
  from recovery_succeeds [OF this(1) sample_opened(3,4,1) this(2) disjI2 [OF conjI [OF sample_opened(3) t(2)]]]
  show ?thesis using t(2) sample_capsules_ok(2) by auto
qed

text \<open>A store with an archived and a live segment.\<close>

definition sample_closed :: "unit Store" where
  "sample_closed = sample_store\<lparr>st_disk := empty_disk\<lparr>dk_files := [(seg_name 1, line_bytes sample_capsule), (seg_name 2, [])],
     dk_rows := [\<lparr>rw_seq = 1, rw_capsule_id = text_of ''b1'', rw_segment = seg_name 1, rw_offset = 0, rw_timestamp = None,
       rw_operator = None, rw_developer = None, rw_action_type = None, rw_verdict_class = None, rw_parent = None, rw_relation = None,
       rw_consequential = True, rw_authenticity = AUTHENTICITY_UNSIGNED\<rparr>]\<rparr>,
     st_manifest := \<lparr>sm_log_id = [], sm_active_segment = Some (seg_name 2), sm_segments = [fresh_entry (seg_name 1), fresh_entry (seg_name 2)]\<rparr>, st_write_segment := None\<rparr>"

definition sample_ledger_entry :: LogEntry where
  "sample_ledger_entry = \<lparr>ae_capsule = sample_capsule, ae_id = text_of ''b1'', ae_segment = seg_name 1, ae_consequential = True,
     ae_authenticity = AUTHENTICITY_UNSIGNED\<rparr>"

lemma sample_closed_sound:
  "sound sample_capsules sample_closed [sample_ledger_entry]" "\<not> unmounted sample_closed (seg_name 1)"
proof -
  let ?st = "sample_closed"
  have m: "st_managed ?st" using sample_sound by (simp add: sample_closed_def sound_def)
  have d: "dk_files (st_disk ?st) = [(seg_name 1, line_bytes sample_capsule), (seg_name 2, [])]" "dk_archived (st_disk ?st) = []"
    "sm_segments (st_manifest ?st) = [fresh_entry (seg_name 1), fresh_entry (seg_name 2)]"
    "sm_active_segment (st_manifest ?st) = Some (seg_name 2)" "st_write_segment ?st = None"
    by (simp_all add: sample_closed_def empty_disk_def)
  have live: "live ?st" using m d by (simp add: live_def managed_ok_def segment_names_def fresh_entry_def eval_nat_numeral)
  show u: "\<not> unmounted ?st (seg_name 1)" by (simp add: unmounted_def entry_of_def manifest_entry_def d fresh_entry_def)
  have "b = segment_text [sample_ledger_entry] n" if "segment_file ?st n = Some b" for n b
    using that by (auto simp: segment_file_def d segment_text_def sample_ledger_entry_def split: if_splits)
  moreover have "segment_file ?st (seg_name 1) \<noteq> None" using u by (simp add: segment_file_def d)
  ultimately have "files_match ?st [sample_ledger_entry]" by (simp add: files_match_def) (simp add: sample_ledger_entry_def)
  moreover have "entry_ok sample_capsules sample_ledger_entry"
    using sample_capsule_ok by (simp add: entry_ok_def sample_ledger_entry_def) (simp add: sample_capsule_def carried_id_def line_id_problem_def py_bool_def text_of_def)
  moreover have "rows_match sample_capsules [sample_ledger_entry] (dk_rows (st_disk ?st))"
    by code_simp
  ultimately show "sound sample_capsules ?st [sample_ledger_entry]" using m live by (simp add: sound_def stored_def index_holds_def)
qed

text \<open>
  C37. A scan returns the whole ledger in order: with every segment mounted, \<^verbatim>\<open>scan()\<close> yields the records of the
  entries, numbered from one without a gap, each with the capsule of its line, even behind a torn write.
\<close>

theorem scan_reads_ledger:
  assumes "sound lib st es" "list_all (\<lambda>e. \<not> unmounted st (ae_segment e)) es"
  shows "scan_all env st = Inr (entry_records es) \<and> map sr_seq (entry_records es) = map (\<lambda>i. int i + 1) [0..<length es]"
proof -
  obtain junk where "holds lib st es junk" using assms(1) by (rule sound_holds)
  then show ?thesis using scan_entries assms(2) by (simp add: entry_records_def entry_record_def)
qed

lemma scan_reads_ledger_witness:
  "\<exists>r. scan_all sample_env sample_closed = Inr [r] \<and> sr_seq r = 1 \<and> sr_capsule r = JObj sample_capsule"
  using scan_reads_ledger [OF sample_closed_sound(1), of sample_env] sample_closed_sound(2)
  by (simp add: entry_records_def entry_record_def sample_ledger_entry_def)

text \<open>
  C38. Archiving hides a segment and loses nothing. After a mounted segment is unmounted the store still holds all its
  entries; those of the segment are refused as \<^verbatim>\<open>SegmentUnmounted\<close>, never reported absent, and the others are
  fetched as before. Mounting it succeeds, and every entry is fetched as before the two calls.
\<close>

theorem archive_round_trip:
  assumes "sound lib st es" "\<not> unmounted st name" "unmount_segment name st = (Inr (), st')"
  shows "\<exists>st''. mount_segment name st' = (Inr (), st'') \<and> sound lib st' es \<and> sound lib st'' es \<and>
    list_all (\<lambda>e. fetch env st' (ae_id e) = (if ae_segment e = name then Inl SegmentUnmounted else fetch env st (ae_id e)) \<and>
      fetch env st'' (ae_id e) = fetch env st (ae_id e)) es"
proof -
  have m: "st_managed st" "managed_ok st" using assms(1) by (simp_all add: sound_def live_def)
  have s': "sound lib st' es" using sound_moved [OF assms(1) unmount_moved [OF m(2,1) assms(3)]] .
  then have m': "st_managed st'" "managed_ok st'" by (simp_all add: sound_def live_def)
  have u': "unmounted st' n = (n = name \<or> unmounted st n)" for n using unmount_unmounted [OF m(1) assms(3,2)] by simp
  obtain st'' where st'': "mount_segment name st' = (Inr (), st'')" "\<And>n. unmounted st'' n = (n \<noteq> name \<and> unmounted st' n)"
    using mount_after_unmount [OF m(1) assms(3,2)] by blast
  have s'': "sound lib st'' es" using sound_moved [OF s' mount_moved [OF m'(2,1) st''(1)]] .
  have f: "fetch env x (ae_id (es ! i)) = (if unmounted x (ae_segment (es ! i)) then Inl SegmentUnmounted else Inr (Some (entry_record i (es ! i))))"
    if "sound lib x es" "i < length es" for x i
    using fetch_entry that sound_holds by metis
  show ?thesis
    using st''(1) s' s'' f [OF assms(1)] f [OF s'] f [OF s''] assms(2) u' st''(2) by (auto simp: list_all_length)
qed

lemma archive_round_trip_witness:
  "\<exists>st' st''. unmount_segment (seg_name 1) sample_closed = (Inr (), st') \<and>
     fetch sample_env st' (text_of ''b1'') = Inl SegmentUnmounted \<and> mount_segment (seg_name 1) st' = (Inr (), st'')"
proof -
  let ?st = "sample_closed"
  have "st_managed ?st" using sample_sound by (simp add: sample_closed_def sound_def)
  then obtain st' where u: "unmount_segment (seg_name 1) ?st = (Inr (), st')"
    by (simp add: unmount_segment_def sample_closed_def manifest_entry_def fresh_entry_def archive_file_def)
  from archive_round_trip [OF sample_closed_sound this, of sample_env] show ?thesis using u by (auto simp: sample_ledger_entry_def)
qed

text \<open>
  The dictionaries of the ledger are read back. The manifest of a closed segment, the manifest of the store and the
  entries of its segments, printed and loaded, are the same values.
\<close>

theorem ledger_dict_roundtrips:
  "segment_manifest_from_dict int_of_text (segment_manifest_to_dict m) = Inr m \<and>
   store_manifest_from_dict (store_manifest_to_dict sm) = Inr sm \<and> segment_entry_from_dict (segment_entry_to_dict se) = Inr se"
  by simp

end
