(* ===== verification/Ledger_Rotation.thy ===== *)
theory Ledger_Rotation
  imports Ledger_Archive
begin

text \<open>
  Closing a segment: what the store asks of a checkpointer (\<^verbatim>\<open>Checkpointer\<close> of \<^verbatim>\<open>cll/ledger/segments.py\<close>) is the
  locale \<open>checkpointer\<close>, interpreted on \<open>mc_checkpoint\<close> and \<open>mc_range_proof\<close>; under it a segment that rotation
  closes verifies on its own.
\<close>

section \<open>What a checkpointer promises\<close>

text \<open>Records numbered from one, with the digests their identities spell.\<close>

definition dense :: "IndexedRecord list \<Rightarrow> bytes list \<Rightarrow> bool" where
  "dense recs ds \<longleftrightarrow> mapR (\<lambda>r. from_hex (ir_capsule_id r)) recs = Inr ds \<and> (\<forall>i<length recs. ir_seq (recs ! i) = int i + 1)"

text \<open>
  A checkpointer that follows a log and has indexed a beginning of it: when it commits to the records of the log, it
  has indexed them all, and a range proof of the size it committed to verifies under the root it returned.
\<close>

locale checkpointer =
  fixes tracks :: "'c \<Rightarrow> bytes list \<Rightarrow> bool"
    and checkpoint :: "IndexedRecord list res \<Rightarrow> 'c \<Rightarrow> (pytext \<times> int) res \<times> 'c"
    and prove_range :: "'c \<Rightarrow> int \<Rightarrow> int \<Rightarrow> SeqRangeProof res"
  assumes needs_records: "checkpoint (Inl e) cp = (r, cp') \<Longrightarrow> \<exists>e'. r = Inl e'"
    and follows: "tracks cp (take k ds) \<Longrightarrow> dense recs ds \<Longrightarrow> checkpoint (Inr recs) cp = (Inr (root, n), cp') \<Longrightarrow> tracks cp' ds"
    and closes: "tracks cp (take k ds) \<Longrightarrow> dense recs ds \<Longrightarrow> checkpoint (Inr recs) cp = (Inr (root, n), cp') \<Longrightarrow>
      1 \<le> a \<Longrightarrow> a \<le> b \<Longrightarrow> b \<le> int (length ds) \<Longrightarrow> prove_range cp' a b = Inr p \<Longrightarrow> sp_size p = n \<Longrightarrow>
      \<exists>r. fromhex_text root = Inr r \<and> verify_seq_range r a b (take (nat (b - a + 1)) (drop (nat (a - 1)) ds)) (Some p)"

section \<open>The checkpointer of the repository\<close>

definition mc_tracks :: "'l MmrCheckpointer \<Rightarrow> bytes list \<Rightarrow> bool" where
  "mc_tracks mc ds \<longleftrightarrow> index_inv (mc_mmr mc) \<and> ml_body_digests (mc_mmr mc) = ds"

lemma sync_loop_tracks:
  assumes "sync_loop l recs added = (Inr m, l')" "index_inv l" "mapR (\<lambda>r. from_hex (ir_capsule_id r)) recs = Inr ds"
    "\<forall>i<length recs. ir_seq (recs ! i) = int (length pre + i) + 1" "ml_body_digests l = pre @ take k ds"
  shows "index_inv l' \<and> ml_body_digests l' = pre @ ds"
  using assms
proof (induction recs arbitrary: l pre k ds added)
  case (Cons r recs)
  obtain d ds' where d: "from_hex (ir_capsule_id r) = Inr d" "mapR (\<lambda>r. from_hex (ir_capsule_id r)) recs = Inr ds'" "ds = d # ds'"
    using Cons.prems(3) by (auto simp: bindR_eq_Inr)
  have seq: "ir_seq r = int (length pre) + 1" using Cons.prems(4) by (metis add_0_right length_Cons nth_Cons_0 zero_less_Suc)
  have rest: "\<forall>i<length recs. ir_seq (recs ! i) = int (length (pre @ [d]) + i) + 1"
    using Cons.prems(4) by (metis Suc_less_eq add_Suc_right add_Suc_shift length_Cons length_append_singleton nth_Cons_Suc)
  show ?case
  proof (cases k)
    case 0
    then have "\<not> ir_seq r \<le> int (length (ml_body_digests l))" using Cons.prems(5) seq by simp
    then obtain l1 where l1: "index_record l r = Inr l1" "sync_loop l1 recs (added + 1) = (Inr m, l')"
      using Cons.prems(1) by (auto split: sum.splits)
    obtain d' where "from_hex (ir_capsule_id r) = Inr d'" "index_inv l1" "ml_body_digests l1 = ml_body_digests l @ [d']"
      by (rule index_recordD [OF Cons.prems(2) l1(1)])
    then have "index_inv l1" "ml_body_digests l1 = (pre @ [d]) @ take 0 ds'" using d(1) Cons.prems(5) 0 by simp_all
    from Cons.IH [OF l1(2) this(1) d(2) rest this(2)] show ?thesis by (simp add: d(3))
  next
    case (Suc j)
    then have "ml_body_digests l = (pre @ [d]) @ take j ds'" using Cons.prems(5) by (simp add: d(3))
    moreover have "sync_loop l recs added = (Inr m, l')" using Cons.prems(1,5) seq Suc by (simp add: d(3))
    ultimately show ?thesis using Cons.IH [OF _ Cons.prems(2) d(2) rest] by (simp add: d(3))
  qed
qed simp

lemma mc_checkpointD:
  assumes "mc_checkpoint now (Inr recs) mc = (Inr (root, n), mc')"
  obtains m mmr cp where "sync_loop (mc_mmr mc) recs 0 = (Inr m, mmr)" "mc_mmr mc' = mmr"
    "emit_checkpoint mmr (mc_signer mc) (mc_log_id mc) (mc_prev mc) None now = Inr cp" "root = ck_root cp" "n = ck_mmr_size cp"
  using assms by (auto simp: mc_checkpoint_def ml_sync_def split: prod.splits sum.splits)

lemma mc_follows:
  assumes "mc_tracks mc (take k ds)" "dense recs ds" "mc_checkpoint now (Inr recs) mc = (Inr (root, n), mc')"
  shows "mc_tracks mc' ds"
proof -
  obtain m mmr where s: "sync_loop (mc_mmr mc) recs 0 = (Inr m, mmr)" "mc_mmr mc' = mmr" by (rule mc_checkpointD [OF assms(3)])
  then show ?thesis
    using sync_loop_tracks [OF s(1), of ds "[]" k] assms(1,2) by (simp add: mc_tracks_def dense_def)
qed

lemma mc_closes:
  assumes "mc_tracks mc (take k ds)" "dense recs ds" "mc_checkpoint now (Inr recs) mc = (Inr (root, n), mc')"
    "1 \<le> a" "a \<le> b" "b \<le> int (length ds)" "mc_range_proof mc' a b = Inr p" "sp_size p = n"
  shows "\<exists>r. fromhex_text root = Inr r \<and> verify_seq_range r a b (take (nat (b - a + 1)) (drop (nat (a - 1)) ds)) (Some p)"
proof -
  have t: "index_inv (mc_mmr mc')" "ml_body_digests (mc_mmr mc') = ds" using mc_follows [OF assms(1-3)] by (simp_all add: mc_tracks_def)
  obtain cp where cp: "emit_checkpoint (mc_mmr mc') (mc_signer mc) (mc_log_id mc) (mc_prev mc) None now = Inr cp"
    "root = ck_root cp" "n = ck_mmr_size cp" using mc_checkpointD [OF assms(3)] by metis
  note e = emit_parts [OF cp(1)]
  then obtain hs r where r: "peak_hashes_at (mc_mmr mc') n = Inr hs" "root_from_peaks hs = Inr r" "root = hex_text r"
    using cp(2,3) by (auto simp: root_hex_def bindR_eq_Inr)
  obtain ps where "peaks n = Inr ps" using r(1) by (auto simp: peak_hashes_at_def bindR_eq_Inr)
  then have small: "n < MAX_MMR_SIZE" by (rule peaks_sound) simp
  have "node_count b = Inr n" using assms(4,5,7,8) by (auto simp: mc_range_proof_def ml_range_proof_def bindR_eq_Inr split: if_splits)
  from index_range [OF t(1) assms(4,5) _ this small] assms(6) obtain root' pf where
    "root_at (mc_mmr mc') n = Inr root'" "ml_range_proof (mc_mmr mc') a b = Inr pf"
    "verify_seq_range root' a b (take (nat (b - a + 1)) (drop (nat (a - 1)) ds)) (Some pf)"
    by (auto simp: ml_leaf_count_def t(2))
  moreover have "root_at (mc_mmr mc') n = Inr r" using r(1,2) by (simp add: root_at_def)
  ultimately show ?thesis using assms(7) r(3) by (simp add: mc_range_proof_def)
qed

interpretation mmr_checkpointer: checkpointer mc_tracks "mc_checkpoint now" mc_range_proof
proof unfold_locales
  show "mc_checkpoint now (Inl e) cp = (r, cp') \<Longrightarrow> \<exists>e'. r = Inl e'" for e and cp :: "'a MmrCheckpointer" and r cp'
    by (auto simp: mc_checkpoint_def)
qed (use mc_follows mc_closes in blast)+


section \<open>The rows of a segment\<close>

lemma fold_max_from: "m \<le> n \<Longrightarrow> fold max (map (\<lambda>i. int i + 1) [m..<n]) x = (if m < n then max x (int n) else (x :: int))"
  by (induction n) (auto simp: le_Suc_eq)

lemma fold_min_from: "x \<le> int m \<Longrightarrow> fold min (map (\<lambda>i. int i + 1) [m..<n]) x = (x :: int)"
  by (induction n) auto

lemma filter_suffix: "list_all (\<lambda>x. \<not> P x) xs \<Longrightarrow> list_all P ys \<Longrightarrow> filter P (xs @ ys) = ys"
  by (simp add: list_all_iff)

lemma segment_rows:
  assumes "rows_match lib (as @ bs) (dk_rows (st_disk st))" "list_all (\<lambda>e. ae_segment e \<noteq> name) as" "list_all (\<lambda>e. ae_segment e = name) bs"
  shows "rows_of_segment st name = drop (length as) (dk_rows (st_disk st))"
    "map rw_seq (rows_of_segment st name) = map (\<lambda>i. int i + 1) [length as..<length as + length bs]"
proof -
  let ?rows = "dk_rows (st_disk st)"
  note len = rows_match_length [OF assms(1)]
  have seg: "rw_segment (?rows ! i) = ae_segment ((as @ bs) ! i)" if "i < length (as @ bs)" for i
    using rows_match_fields(3) [OF assms(1) that] .
  have "list_all (\<lambda>r. \<not> rw_segment r = name) (take (length as) ?rows)" "list_all (\<lambda>r. rw_segment r = name) (drop (length as) ?rows)"
    using assms(2,3) seg len by (auto simp: list_all_length nth_append)
  then have "filter (\<lambda>r. rw_segment r = name) (take (length as) ?rows @ drop (length as) ?rows) = drop (length as) ?rows"
    by (rule filter_suffix)
  then show r: "rows_of_segment st name = drop (length as) ?rows" by (simp add: rows_of_segment_def)
  show "map rw_seq (rows_of_segment st name) = map (\<lambda>i. int i + 1) [length as..<length as + length bs]"
    unfolding r drop_map [symmetric] rows_match_seqs [OF assms(1)] by (simp add: drop_map)
qed

lemma segment_seqs:
  assumes "rows_match lib (as @ bs) (dk_rows (st_disk st))" "list_all (\<lambda>e. ae_segment e \<noteq> name) as" "list_all (\<lambda>e. ae_segment e = name) bs"
    "bs \<noteq> []"
  shows "min_seq (rows_of_segment st name) = int (length as) + 1" "max_seq (rows_of_segment st name) = int (length (as @ bs))"
    "length (rows_of_segment st name) = length bs"
proof -
  note rows = segment_rows [OF assms(1-3)]
  have up: "[length as..<length as + length bs] = length as # [Suc (length as)..<length as + length bs]"
    using assms(4) by (intro upt_conv_Cons) simp
  show "min_seq (rows_of_segment st name) = int (length as) + 1"
    unfolding min_seq_def rows(2) up by (simp add: fold_min_from)
  show "max_seq (rows_of_segment st name) = int (length (as @ bs))"
    unfolding max_seq_def rows(2) using assms(4) by (simp add: fold_max_from)
  show "length (rows_of_segment st name) = length bs" unfolding rows(1) using rows_match_length [OF assms(1)] by simp
qed

section \<open>Rotation\<close>

lemma rotateD:
  assumes "rotate_segment env st = (Inr m, st')" "st_write_segment st = Some name" "st_checkpointer st = Some cp"
  obtains root n cp' p content where "rows_of_segment st name \<noteq> []" "env_checkpoint env (scan_all env st) cp = (Inr (root, n), cp')"
    "env_range_proof env cp' (min_seq (rows_of_segment st name)) (max_seq (rows_of_segment st name)) = Inr p" "sp_size p = n"
    "map_of (dk_files (st_disk st)) name = Some content" "manifest_entry (st_manifest st) name \<noteq> None"
    "m = closing_manifest st name content root n p" "st' = close_segment name m (st\<lparr>st_checkpointer := Some cp'\<rparr>)"
proof -
  have c: "closing_manifest (st\<lparr>st_checkpointer := x\<rparr>) name content root n p = closing_manifest st name content root n p" for x content root n p
    by (simp add: closing_manifest_def rows_of_segment_def Let_def)
  show thesis
    using assms that c by (auto simp: rotate_segment_def Let_def split: if_splits prod.splits sum.splits option.splits)
qed

text \<open>What the checkpointer is given of a scan: the sequence numbers and identities. A character outside ASCII is
  as good as any other that is no hex digit.\<close>

definition indexed_record :: "StoredRecord \<Rightarrow> IndexedRecord" where
  "indexed_record r = \<lparr>ir_seq = sr_seq r, ir_capsule_id = map (\<lambda>c. if c < 128 then char_of c else CHR ''?'') (sr_capsule_id r)\<rparr>"

definition scanned :: "StoredRecord list res \<Rightarrow> IndexedRecord list res" where
  "scanned rs = bindR rs (\<lambda>rs. Inr (map indexed_record rs))"

definition entry_digests :: "LogEntry list \<Rightarrow> bytes list res" where
  "entry_digests es = mapR (\<lambda>e. fromhex_text (ae_id e)) es"

lemma indexed_digest: "fromhex_text (sr_capsule_id r) = Inr d \<Longrightarrow> from_hex (ir_capsule_id (indexed_record r)) = Inr d"
proof -
  assume a: "fromhex_text (sr_capsule_id r) = Inr d"
  then have "map (\<lambda>c. if c < 128 then char_of c else CHR ''?'') (sr_capsule_id r) = map char_of (sr_capsule_id r)"
    by (auto simp: fromhex_text_def split: if_splits)
  moreover have "from_hex (map char_of (sr_capsule_id r)) = Inr d" using a by (simp add: fromhex_text_def split: if_splits)
  ultimately show ?thesis by (simp only: indexed_record_def IndexedRecord.simps)
qed

lemma dense_entries:
  assumes "entry_digests es = Inr ds"
  shows "dense (map indexed_record (entry_records es)) ds"
proof -
  let ?recs = "map indexed_record (entry_records es)"
  have "mapR (\<lambda>r. from_hex (ir_capsule_id r)) ?recs = Inr ds"
  proof -
    have "mapR (\<lambda>r. fromhex_text (sr_capsule_id r)) (entry_records es) = Inr ds"
    proof -
      have "mapR (\<lambda>e. fromhex_text (ae_id e)) (map (\<lambda>i. es ! i) [0..<length es]) = Inr ds"
        using assms by (simp only: entry_digests_def map_nth)
      then show ?thesis by (simp add: entry_records_def mapR_map entry_record_def)
    qed
    then show ?thesis unfolding mapR_map using indexed_digest
      by (induction "entry_records es" arbitrary: ds rule: list.induct) (auto simp: mapR_eq_Inr elim!: list.rel_mono_strong)
  qed
  moreover have "ir_seq (?recs ! i) = int i + 1" if "i < length ?recs" for i
    using that by (simp add: entry_records_def entry_record_def indexed_record_def)
  ultimately show ?thesis by (simp add: dense_def)
qed


text \<open>A scan that succeeds has every segment mounted and yields the entries.\<close>

lemma scan_records:
  assumes "stored lib st es" "scan_all env st = Inr recs"
  shows "recs = entry_records es" "list_all (\<lambda>e. \<not> unmounted st (ae_segment e)) es"
proof -
  note h = stored_holds [OF assms(1)]
  have len: "length (dk_rows (st_disk st)) = length es" using rows_match_length [OF storedD(1) [OF assms(1)]] .
  have "mapR (row_to_record env st) (dk_rows (st_disk st)) = Inr recs" using assms(2) by (simp only: scan_whole)
  then have r: "row_to_record env st (dk_rows (st_disk st) ! i) = Inr (recs ! i)" if "i < length es" for i
    using that mapR_nth len by fastforce
  have "\<not> unmounted st (ae_segment (es ! i))" if "i < length es" for i
    using r [OF that] row_of_entry [OF h that, of env] by (simp split: if_splits)
  then show m: "list_all (\<lambda>e. \<not> unmounted st (ae_segment e)) es" by (simp add: list_all_length)
  show "recs = entry_records es" using scan_entries [OF h m, of env] assms(2) by simp
qed

text \<open>The segment closed by a rotation: its manifest, its file, and what the store says of it.\<close>

lemma stored_segment:
  assumes "stored lib st es" "e \<in> set es"
  shows "segment_file st (ae_segment e) = Some (segment_text es (ae_segment e))"
proof -
  obtain b where b: "segment_file st (ae_segment e) = Some b" using storedD(4) [OF assms(1)] assms(2) unfolding files_match_def by blast
  then have "b = segment_text es (ae_segment e)" using storedD(4) [OF assms(1)] unfolding files_match_def by blast
  with b show ?thesis by simp
qed

lemma closed_segment_sel:
  assumes "live st" "st_managed st" "stored lib st es" "manifest_entry (st_manifest st) name = Some e"
    "st' = close_segment name m st"
  shows "manifest_entry (st_manifest st') name = Some (close_entry (manifest_filename (st_log_id st) (gm_mmr_size m)) (gm_checkpoint_root m) (gm_mmr_size m) e)"
    "map_of (dk_seg_manifests (st_disk st')) (manifest_filename (st_log_id st) (gm_mmr_size m)) = Some (segment_manifest_to_dict m)"
proof -
  let ?b = "begun name m st"
  have b: "stored lib ?b es" "live ?b" "st_managed ?b" using close_segment_keeps [OF assms(1-3), of name m] assms(2) by (simp_all add: begun_sel)
  then have sync: "st' = ?b\<lparr>st_write_segment := Some (active_name ?b)\<rparr>"
    unfolding assms(5) close_segment_def using managed_okD(3) [OF live_managed [OF b(2,3)]] by (intro sync_managed) (simp_all add: active_name_def)
  show "manifest_entry (st_manifest st') name = Some (close_entry (manifest_filename (st_log_id st) (gm_mmr_size m)) (gm_checkpoint_root m) (gm_mmr_size m) e)"
    using assms(4) by (simp add: sync begun_sel entry_closed)
  show "map_of (dk_seg_manifests (st_disk st')) (manifest_filename (st_log_id st) (gm_mmr_size m)) = Some (segment_manifest_to_dict m)"
    by (simp add: sync begun_sel update_conv')
qed

lemma close_entry_manifest: "se_manifest (close_entry mn root k e) = Some (text_of ''segments/'' @ mn)"
  by (simp add: close_entry_def)

lemma standalone_closed:
  assumes "st_managed st" "manifest_entry (st_manifest st) name = Some (close_entry mn root k e)"
    "map_of (dk_seg_manifests (st_disk st)) mn = Some (segment_manifest_to_dict m)" "segment_file st name = Some content"
  shows "verify_segment_standalone env int_of_text st name = Inr (verify_segment (env_lib env) (text_of ''capsule_id'') content m)"
proof -
  have "segment_manifest_file (text_of ''segments/'' @ mn) (st_disk st) = Some (segment_manifest_to_dict m)"
    using assms(3) by (simp add: segment_manifest_file_def text_of_def)
  then show ?thesis using assms(1,2,4) by (simp add: verify_segment_standalone_def close_entry_manifest)
qed

lemma segment_digests:
  assumes "list_all (entry_ok lib) es" "entry_digests es = Inr ds"
  shows "mapR (capsule_digest lib) (map ae_capsule es) = Inr ds"
proof -
  have "capsule_digest lib (ae_capsule e) = fromhex_text (ae_id e)" if "e \<in> set es" for e
    using assms(1) that by (simp add: capsule_digest_def entry_ok_def list_all_iff as_string_def)
  then have "mapR (\<lambda>e. capsule_digest lib (ae_capsule e)) es = mapR (\<lambda>e. fromhex_text (ae_id e)) es" by (rule mapR_cong_set)
  then show ?thesis using assms(2) by (simp add: entry_digests_def mapR_map)
qed

text \<open>Under the laws of a checkpointer, what rotation closes verifies on its own.\<close>

context checkpointer
begin

lemma rotation_verifies:
  assumes env: "env_checkpoint env = (\<lambda>rs. checkpoint (scanned rs))" "env_range_proof env = prove_range" "env_lib env = lib"
    and st: "stored lib st (as @ bs)" "live st" "st_managed st" "st_write_segment st = Some name" "st_checkpointer st = Some cp"
    and seg: "list_all (\<lambda>e. ae_segment e \<noteq> name) as" "list_all (\<lambda>e. ae_segment e = name) bs"
    and ds: "entry_digests (as @ bs) = Inr ds" "tracks cp (take k ds)"
    and rot: "rotate_segment env st = (Inr m, st')"
  shows "verify_segment_standalone env int_of_text st' name = Inr (True, [])"
proof -
  note s = storedD [OF st(1)]
  obtain root n cp' p content where r: "rows_of_segment st name \<noteq> []" "env_checkpoint env (scan_all env st) cp = (Inr (root, n), cp')"
    "env_range_proof env cp' (min_seq (rows_of_segment st name)) (max_seq (rows_of_segment st name)) = Inr p" "sp_size p = n"
    "map_of (dk_files (st_disk st)) name = Some content" "manifest_entry (st_manifest st) name \<noteq> None"
    "m = closing_manifest st name content root n p" "st' = close_segment name m (st\<lparr>st_checkpointer := Some cp'\<rparr>)"
    by (rule rotateD [OF rot st(4,5)])
  have bs: "bs \<noteq> []" using r(1) segment_rows(1) [OF s(1) seg] rows_match_length [OF s(1)] by auto
  note seqs = segment_seqs [OF s(1) seg bs]
  obtain recs where recs: "scan_all env st = Inr recs" using r(2) needs_records env(1) by (cases "scan_all env st") (fastforce simp: scanned_def)+
  have cpt: "checkpoint (Inr (map indexed_record (entry_records (as @ bs)))) cp = (Inr (root, n), cp')"
    using r(2) recs scan_records(1) [OF st(1) recs] by (simp add: env(1) scanned_def)
  have len: "length ds = length (as @ bs)" using mapR_length ds(1) by (force simp: entry_digests_def)
  have "name = active_name st" using live_managed [OF st(2,3)] st(4) by (auto simp: managed_ok_def Let_def active_name_def)
  then have mounted: "\<not> unmounted st name" using active_mounted [OF live_managed [OF st(2,3)]] by (simp add: active_name_def)
  have seg_text: "content = segment_text (as @ bs) name" using s(4) r(5) mounted by (auto simp: files_match_def segment_file_mounted)
  then have file_bytes: "content = lines_bytes (map ae_capsule bs)" using seg by (simp add: segment_text_def filter_suffix list_all_iff)
  obtain ds1 ds2 where d: "entry_digests as = Inr ds1" "entry_digests bs = Inr ds2" "ds = ds1 @ ds2"
    using ds(1) by (auto simp: entry_digests_def mapR_append bindR_eq_Inr)
  have len1: "length ds1 = length as" using mapR_length d(1) by (force simp: entry_digests_def)
  from closes [OF ds(2) dense_entries [OF ds(1)] cpt, of "int (length as) + 1" "int (length (as @ bs))" p] r(3,4) bs len obtain rt where
    rt: "fromhex_text root = Inr rt" "verify_seq_range rt (int (length as) + 1) (int (length (as @ bs))) ds2 (Some p)"
    unfolding seqs(1,2) env(2) by (auto simp: d(3) len1 Suc_le_eq)
  have "verify_segment lib (text_of ''capsule_id'') content m = (True, [])"
  proof -
    have ok: "list_all (entry_ok lib) bs" using s(2) by simp
    then have caps: "list_all capsule_ok (map ae_capsule bs)" by (simp add: list_all_iff entry_ok_def)
    show ?thesis
      unfolding file_bytes
      by (subst verify_segment_written [OF caps _ _ _ segment_digests [OF ok d(2)], of m rt])
        (use seqs rt in \<open>simp_all add: r(7) closing_manifest_def Let_def file_bytes\<close>)
  qed
  moreover obtain e where e: "manifest_entry (st_manifest (st\<lparr>st_checkpointer := Some cp'\<rparr>)) name = Some e" using r(6) by auto
  have st2: "live (st\<lparr>st_checkpointer := Some cp'\<rparr>)" "st_managed (st\<lparr>st_checkpointer := Some cp'\<rparr>)"
    "stored lib (st\<lparr>st_checkpointer := Some cp'\<rparr>) (as @ bs)" using st by simp_all
  note sel = closed_segment_sel [OF st2 e r(8)]
  have "keeps lib (as @ bs) (st\<lparr>st_checkpointer := Some cp'\<rparr>) st'" unfolding r(8) using st2 by (rule close_keeps)
  then have k: "stored lib st' (as @ bs)" "st_managed st'" using st(3) by (auto simp: keeps_def same_settings_def)
  obtain x where x: "x \<in> set bs" "ae_segment x = name" using bs seg(2) by (cases bs) auto
  then have "segment_file st' name = Some content"
    using stored_segment [OF k(1), of x] seg_text by simp
  ultimately show ?thesis using standalone_closed [OF k(2) sel] by (simp add: env(3))
qed

end

end
