(* ===== verification/Ledger_Closing.thy ===== *)
theory Ledger_Closing
  imports Ledger_Promises Ledger_Rotation Bundle_Proofs
begin

text \<open>
  Rotation with \<^verbatim>\<open>MmrCheckpointer\<close>, from end to end: a closed segment verifies, and what a verified segment says.
\<close>

section \<open>A store about to close its first segment\<close>

definition full_id :: pytext where "full_id = hex_text (replicate 32 7)"

definition full_capsule :: capsule where
  "full_capsule = [(text_of ''capsule_id'', JStr full_id)]"

definition full_entry :: LogEntry where
  "full_entry = \<lparr>ae_capsule = full_capsule, ae_id = full_id, ae_segment = seg_name 1, ae_consequential = True,
     ae_authenticity = AUTHENTICITY_UNSIGNED\<rparr>"

definition fresh_checkpointer :: "unit MmrCheckpointer" where
  "fresh_checkpointer = \<lparr>mc_mmr = new_mmr_ledger (), mc_signer = echo_signer, mc_log_id = [], mc_prev = None\<rparr>"

definition mmr_env :: "unit MmrCheckpointer StoreEnv" where
  "mmr_env = \<lparr>env_lib = sample_capsules, env_checkpoint = (\<lambda>rs. mc_checkpoint 0 (scanned rs)), env_range_proof = mc_range_proof,
     env_text_line = (\<lambda>_ _. Inl ValueError), env_decode = (\<lambda>_. None), env_name_error = (\<lambda>_. None), env_fromiso = (\<lambda>_. None)\<rparr>"

definition full_store :: "unit MmrCheckpointer Store" where
  "full_store = \<lparr>st_disk = empty_disk\<lparr>dk_files := [(seg_name 1, line_bytes full_capsule)],
       dk_rows := [\<lparr>rw_seq = 1, rw_capsule_id = full_id, rw_segment = seg_name 1, rw_offset = 0, rw_timestamp = None,
         rw_operator = None, rw_developer = None, rw_action_type = None, rw_verdict_class = None, rw_parent = None, rw_relation = None,
         rw_consequential = True, rw_authenticity = AUTHENTICITY_UNSIGNED\<rparr>]\<rparr>,
     st_managed = True, st_manifest = \<lparr>sm_log_id = [], sm_active_segment = Some (seg_name 1), sm_segments = [fresh_entry (seg_name 1)]\<rparr>,
     st_read_only = False, st_log_id = [], st_max_records = 0, st_max_bytes = 0, st_fields = [], st_lookup_on = False,
     st_write_segment = Some (seg_name 1), st_needs_recover = False, st_checkpointer = Some fresh_checkpointer\<rparr>"

lemma full_store_sel:
  "st_managed full_store" "st_write_segment full_store = Some (seg_name 1)" "st_checkpointer full_store = Some fresh_checkpointer"
  "dk_files (st_disk full_store) = [(seg_name 1, line_bytes full_capsule)]" "dk_archived (st_disk full_store) = []"
  "sm_segments (st_manifest full_store) = [fresh_entry (seg_name 1)]" "sm_active_segment (st_manifest full_store) = Some (seg_name 1)"
  by (simp_all add: full_store_def empty_disk_def)

lemma full_capsule_ok: "capsule_ok full_capsule"
proof -
  have "scalar_text full_id" unfolding full_id_def by (rule hex_scalar [OF fromhex_hex_text])
  then show ?thesis by (simp add: capsule_ok_def full_capsule_def scalar_text_def text_of_def)
qed

lemma full_store_stored: "stored sample_capsules full_store [full_entry]" "live full_store"
proof -
  show "live full_store" by (simp add: live_def managed_ok_def full_store_sel segment_names_def fresh_entry_def)
  have u: "\<not> unmounted full_store (seg_name 1)" by (simp add: unmounted_def entry_of_def manifest_entry_def full_store_sel fresh_entry_def)
  have "b = segment_text [full_entry] n" if "segment_file full_store n = Some b" for n b
    using that by (auto simp: segment_file_def full_store_sel segment_text_def full_entry_def split: if_splits)
  moreover have "segment_file full_store (seg_name 1) \<noteq> None" using u by (simp add: segment_file_def full_store_sel)
  ultimately have "files_match full_store [full_entry]" by (simp add: files_match_def) (simp add: full_entry_def)
  moreover have "full_id \<noteq> []" by code_simp
  then have "entry_ok sample_capsules full_entry"
    using full_capsule_ok by (simp add: entry_ok_def full_entry_def) (simp add: full_capsule_def carried_id_def line_id_problem_def py_bool_def split: list.split)
  moreover have "rows_match sample_capsules [full_entry] (dk_rows (st_disk full_store))" by code_simp
  ultimately show "stored sample_capsules full_store [full_entry]" by (simp add: stored_def index_holds_def)
qed

text \<open>The checkpointer indexes the record, commits to it and proves it.\<close>

lemma fresh_checkpoint:
  obtains root mc p where "mc_checkpoint 0 (scanned (Inr (entry_records [full_entry]))) fresh_checkpointer = (Inr (root, 1), mc)"
    "mc_range_proof mc 1 1 = Inr p" "sp_size p = 1"
proof -
  let ?l = "new_mmr_ledger ()" and ?recs = "map indexed_record (entry_records [full_entry])"
  have "from_hex (ir_capsule_id (indexed_record (entry_record 0 full_entry))) = Inr (replicate 32 7)"
    by (rule indexed_digest) (simp add: entry_record_def full_entry_def full_id_def)
  then have n: "numbered (ml_leaf_count ?l + 1) ?recs [replicate 32 7]"
    by (simp add: entry_records_def ml_leaf_count_def new_mmr_ledger_def) (simp add: indexed_record_def entry_record_def)
  have "nodes_of (mountains (length (ml_body_digests ?l) + length [replicate 32 (7 :: byte)])) < MAX_MMR_SIZE"
    using one_leaf(1) by (simp add: new_mmr_ledger_def msize_def MAX_MMR_SIZE_def)
  from sync_index [OF n index_inv_new this, of 0] obtain l where l: "sync_loop ?l ?recs 0 = (Inr 1, l)" "index_inv l" "ml_body_digests l = [replicate 32 7]"
    by (auto simp: new_mmr_ledger_def)
  have sz: "ml_size l = 1" using index_size [OF l(2)] one_leaf(1) by (simp add: l(3) msize_def)
  have nodes: "nodes_of (mountains 1) = 1" using index_size [OF l(2)] sz by (simp add: l(3))
  obtain root where root: "root_hex l 1 = Inr (hex_text root)"
    using root_hex_ok [OF l(2), of 1] nodes by (auto simp: l(3) MAX_MMR_SIZE_def)
  obtain cp where cp: "emit_checkpoint l echo_signer [] None None 0 = Inr cp"
    using root by (auto simp: emit_checkpoint_def Let_def sz echo_signer_def)
  have c: "mc_checkpoint 0 (scanned (Inr (entry_records [full_entry]))) fresh_checkpointer =
      (Inr (ck_root cp, 1), fresh_checkpointer\<lparr>mc_mmr := l, mc_prev := Some cp\<rparr>)"
    using l(1) cp emit_parts(2) [OF cp] by (simp add: mc_checkpoint_def scanned_def ml_sync_def fresh_checkpointer_def sz)
  have "1 \<le> ml_leaf_count l" "1 < MAX_MMR_SIZE" by (simp_all add: ml_leaf_count_def l(3) MAX_MMR_SIZE_def)
  then obtain p where p: "ml_range_proof l 1 1 = Inr p" using index_range [OF l(2), of 1 1 1] node_count_1(1) by auto
  then have "sp_size p = 1" using node_count_1(1) by (auto simp: ml_range_proof_def bindR_eq_Inr)
  then show thesis using that [OF c _] p by (simp add: mc_range_proof_def)
qed

lemma full_store_rotates: obtains m st' where "rotate_segment mmr_env full_store = (Inr m, st')"
proof -
  obtain root mc p where c: "mc_checkpoint 0 (scanned (Inr (entry_records [full_entry]))) fresh_checkpointer = (Inr (root, 1), mc)"
    "mc_range_proof mc 1 1 = Inr p" "sp_size p = 1" by (rule fresh_checkpoint)
  have "scan_all mmr_env full_store = Inr (entry_records [full_entry])"
    using scan_entries [OF stored_holds [OF full_store_stored(1)], of mmr_env]
    by (simp add: unmounted_def entry_of_def manifest_entry_def full_store_sel fresh_entry_def full_entry_def)
  moreover have rows: "rows_of_segment full_store (seg_name 1) = dk_rows (st_disk full_store)" "dk_rows (st_disk full_store) \<noteq> []"
    "min_seq (dk_rows (st_disk full_store)) = 1" "max_seq (dk_rows (st_disk full_store)) = 1"
    by (simp_all add: rows_of_segment_def full_store_def empty_disk_def min_seq_def max_seq_def)
  ultimately have "\<exists>m st'. rotate_segment mmr_env full_store = (Inr m, st')"
    using c by (simp add: rotate_segment_def full_store_sel Let_def mmr_env_def manifest_entry_def fresh_entry_def)
  then show thesis using that by blast
qed

section \<open>Properties\<close>

text \<open>
  C13. A segment that rotation closes verifies on its own. With an \<^verbatim>\<open>MmrCheckpointer\<close> that has indexed a beginning of the
  log, when \<^verbatim>\<open>_rotate_segment\<close> returns, \<^verbatim>\<open>verify_segment_standalone\<close> of the closed segment reads its manifest and
  its file back and accepts: the digest, the count, the width and the range proof against the checkpoint root.
\<close>

theorem closed_segment_verifies:
  assumes "env_checkpoint env = (\<lambda>rs. mc_checkpoint now (scanned rs))" "env_range_proof env = mc_range_proof" "env_lib env = lib"
    "stored lib st (as @ bs)" "live st" "st_managed st" "st_write_segment st = Some name" "st_checkpointer st = Some mc"
    "list_all (\<lambda>e. ae_segment e \<noteq> name) as" "list_all (\<lambda>e. ae_segment e = name) bs"
    "entry_digests (as @ bs) = Inr ds" "index_inv (mc_mmr mc)" "ml_body_digests (mc_mmr mc) = take k ds"
    "rotate_segment env st = (Inr m, st')"
  shows "verify_segment_standalone env int_of_text st' name = Inr (True, [])"
proof -
  have "mc_tracks mc (take k ds)" using assms(12,13) by (simp add: mc_tracks_def)
  then show ?thesis by (rule mmr_checkpointer.rotation_verifies [OF assms(1-11) _ assms(14)])
qed

lemma closed_segment_verifies_witness:
  "\<exists>m st'. rotate_segment mmr_env full_store = (Inr m, st') \<and> verify_segment_standalone mmr_env (\<lambda>_. Inl ValueError) st' (seg_name 1) = Inr (True, [])"
proof -
  obtain m st' where r: "rotate_segment mmr_env full_store = (Inr m, st')" by (rule full_store_rotates)
  have "verify_segment_standalone mmr_env (\<lambda>_. Inl ValueError) st' (seg_name 1) = Inr (True, [])"
    by (rule closed_segment_verifies [of _ 0 _ _ "[]" "[full_entry]" _ fresh_checkpointer "[replicate 32 7]" 0, OF _ _ _ _ full_store_stored(2) _ _ _ _ _ _ _ _ r])
      (use full_store_stored(1) in \<open>simp_all add: mmr_env_def full_store_sel full_entry_def entry_digests_def full_id_def fresh_checkpointer_def\<close>,
       simp_all add: new_mmr_ledger_def)
  with r show ?thesis by blast
qed

section \<open>What a verified segment says\<close>

text \<open>The range proof of the core that \<^verbatim>\<open>verify_range\<close> of \<^verbatim>\<open>cll/checkpoint/index.py\<close> hands on.\<close>

definition core_range :: "SeqRangeProof \<Rightarrow> RangeProof" where
  "core_range p = \<lparr>rp_v = 1, rp_kind = ''range'', rp_size = sp_size p, rp_from_index = sp_from_index p, rp_to_index = sp_to_index p,
     rp_witness = sp_witness p\<rparr>"

lemma seq_rangeD:
  assumes "verify_seq_range root a b ds (Some p)"
  shows "1 \<le> a" "a \<le> b" "leaf_count (sp_size p) = Inr b" "verify_range root (sp_size p) (a - 1) (b - 1) ds (Some (core_range p))"
  using assms by (auto simp: verify_seq_range_def verify_seq_range_body_def or_false_def core_range_def Let_def bindR_eq_Inr
      split: if_splits sum.splits)

lemma segment_binds:
  assumes v: "verify_seq_range root a b ds (Some p)" and l: "index_inv l" "b \<le> ml_leaf_count l" "root_at l (sp_size p) = Inr root"
    and inj: "inj_on sha256 (set (range_queries (sp_size p) (a - 1) ds (core_range p)) \<union> audit_queries l (nat b) (sp_size p))"
  shows "ds = take (nat (b - a + 1)) (drop (nat (a - 1)) (ml_body_digests l))"
proof -
  note r = seq_rangeD [OF v]
  obtain pks where pks: "peaks (sp_size p) = Inr pks" "b - 1 = a - 1 + int (length ds) - 1" using verify_rangeD [OF r(4)] by metis
  obtain n where n: "sp_size p = nodes_of (mountains n)" "leaf_count (sp_size p) = Inr (int n)" by (rule peaks_size [OF pks(1)])
  have small: "sp_size p < MAX_MMR_SIZE" using pks(1) by (rule peaks_sound) simp
  have b: "b = int n" "n \<le> length (ml_body_digests l)" using r(3) n(2) l(2) by (auto simp: ml_leaf_count_def)
  have len: "length ds = nat (b - a + 1)" using pks(2) by simp
  show ?thesis
  proof (rule nth_equalityI)
    show "length ds = length (take (nat (b - a + 1)) (drop (nat (a - 1)) (ml_body_digests l)))" using len b r(1,2) by auto
  next
    fix j assume j: "j < length ds"
    define i where "i = nat (a - 1) + j"
    have i: "i < n" "int i = a - 1 + int j" using j len b r(1,2) by (auto simp: i_def)
    from index_inclusion [OF l(1) i(1) b(2) small[unfolded n(1)]] obtain pf where
      pf: "ml_inclusion_proof l (int i + 1) (Some (sp_size p)) = Inr pf" "verify_inclusion root (sp_size p) (int i) (ml_body_digests l ! i) (Some pf)"
      using l(3) by (auto simp: n(1))
    have "set (inclusion_queries (sp_size p) (int i) (ml_body_digests l ! i) pf) \<subseteq> audit_queries l (nat b) (sp_size p)"
      using i(1) pf(1) b(1) by (force simp: audit_queries_def)
    then have "ds ! nat (int i - (a - 1)) = ml_body_digests l ! i"
      using i j len r(1,2) by (intro range_binds [OF r(4) pf(2)] inj_on_subset [OF inj]) auto
    then show "ds ! j = take (nat (b - a + 1)) (drop (nat (a - 1)) (ml_body_digests l)) ! j"
      using j i len b r(1,2) by (simp add: i_def)
  qed
qed

text \<open>
  C14. A segment that verifies is that part of the log. When \<^verbatim>\<open>verify_segment\<close> accepts a file under a manifest whose
  checkpoint root is the root of an index at the size of the range proof, the identities the lines carry are exactly
  the digests the index holds from \<^verbatim>\<open>first_seq\<close> to \<^verbatim>\<open>last_seq\<close>, in order: none missing, none replaced. SHA-256 is
  assumed not to collide on the range proof and the inclusion proofs of the index.
\<close>

theorem verified_segment_binds:
  assumes "verify_segment lib id_field b m = (True, errors)" "segment_lines b = Some lines" "mapR (record_digest lib id_field) lines = Inr ds"
    "index_inv l" "gm_last_seq m \<le> ml_leaf_count l" "root_hex l (sp_size (gm_range_proof m)) = Inr (gm_checkpoint_root m)"
    "inj_on sha256 (set (range_queries (sp_size (gm_range_proof m)) (gm_first_seq m - 1) ds (core_range (gm_range_proof m))) \<union>
       audit_queries l (nat (gm_last_seq m)) (sp_size (gm_range_proof m)))"
  shows "1 \<le> gm_first_seq m \<and> int (length ds) = gm_record_count m \<and>
    ds = take (nat (gm_record_count m)) (drop (nat (gm_first_seq m - 1)) (ml_body_digests l))"
proof -
  obtain root where v: "gm_last_seq m - gm_first_seq m + 1 = gm_record_count m" "int (length lines) = gm_record_count m"
    "fromhex_text (gm_checkpoint_root m) = Inr root" "verify_seq_range root (gm_first_seq m) (gm_last_seq m) ds (Some (gm_range_proof m))"
    using verify_segmentD [OF assms(1)] assms(2,3) by (metis option.inject sum.inject(2))
  have "root_at l (sp_size (gm_range_proof m)) = Inr root" using root_hex_root_at [OF assms(6)] v(3) by auto
  from segment_binds [OF v(4) assms(4,5) this assms(7)] show ?thesis
    using seq_rangeD(1) [OF v(4)] mapR_length [OF assms(3)] v(1,2) by simp
qed


definition full_range :: SeqRangeProof where
  "full_range = \<lparr>sp_from_seq = 1, sp_to_seq = 1, sp_size = 1, sp_from_index = 0, sp_to_index = 0, sp_witness = []\<rparr>"

definition full_manifest :: SegmentManifest where
  "full_manifest = \<lparr>gm_log_id = [], gm_first_seq = 1, gm_last_seq = 1, gm_first_ts = None, gm_last_ts = None,
     gm_checkpoint_root = hex_text (leaf_of (replicate 32 7)), gm_mmr_size = 1, gm_bytes = int (length (line_bytes full_capsule)),
     gm_record_count = 1, gm_sha256_of_segment = hex_text (sha256 (line_bytes full_capsule)), gm_range_proof = full_range\<rparr>"

lemma full_digest: "capsule_digest sample_capsules full_capsule = Inr (replicate 32 7)"
proof -
  have "full_id \<noteq> []" by code_simp
  then show ?thesis by (simp add: capsule_digest_def carried_id_def full_capsule_def py_bool_def as_string_def) (simp add: full_id_def)
qed

lemma full_manifest_verifies: "verify_segment sample_capsules (text_of ''capsule_id'') (line_bytes full_capsule) full_manifest = (True, [])"
proof -
  have r: "verify_seq_range (leaf_of (replicate 32 7)) 1 1 [replicate 32 7] (Some full_range)"
    using bare_proofs(2) [of "replicate 32 7"] one_leaf
    by (simp add: verify_seq_range_def verify_seq_range_body_def full_range_def bare_range_def or_false_def)
  have "lines_bytes [full_capsule] = line_bytes full_capsule" by simp
  then show ?thesis
    using verify_segment_written [of "[full_capsule]" full_manifest sample_capsules "[replicate 32 7]" "leaf_of (replicate 32 7)"] r full_capsule_ok full_digest
    by (simp add: full_manifest_def)
qed

lemma verified_segment_binds_witness:
  "\<exists>l :: unit MmrLedger. index_inv l \<and> verify_segment sample_capsules (text_of ''capsule_id'') (line_bytes full_capsule) full_manifest = (True, []) \<and>
     capsule_digest sample_capsules full_capsule = Inr (hd (ml_body_digests l)) \<and> [replicate 32 7] = take (nat 1) (drop (nat (1 - 1)) (ml_body_digests l))"
proof -
  obtain l :: "unit MmrLedger" where l: "index_inv l" "ml_body_digests l = [replicate 32 7]" "ml_size l = 1"
    "root_hex l 1 = Inr (hex_text (leaf_of (replicate 32 7)))" "audit_queries l 1 1 = {0 # replicate 32 7}"
    by (rule one_record_log)
  have lines: "segment_lines (line_bytes full_capsule) = Some [line_text full_capsule]"
    using segment_lines_written [of "[full_capsule]"] full_capsule_ok by simp
  have ds: "mapR (record_digest sample_capsules (text_of ''capsule_id'')) [line_text full_capsule] = Inr [replicate 32 7]"
    using full_capsule_ok full_digest by (simp add: record_digest_line)
  have "core_range full_range = bare_range" by (simp add: core_range_def full_range_def bare_range_def)
  then show ?thesis
    using verified_segment_binds [OF full_manifest_verifies lines ds, of l] l full_manifest_verifies full_digest bare_proofs(5) [of "replicate 32 7"]
    by (auto simp: full_manifest_def full_range_def ml_leaf_count_def)
qed

text \<open>
  The identity of a line is taken on trust. \<^verbatim>\<open>verify_segment\<close> reads the identity a line carries and never recomputes
  it: a segment with other capsules under the same carried identities is accepted as well, under a manifest that
  differs only in the digest of the file, which nothing signs. Its docstring calls the records unaltered.
\<close>

theorem carried_identity_trusted:
  assumes "list_all capsule_ok cs" "list_all capsule_ok cs'" "mapR (capsule_digest lib) cs = mapR (capsule_digest lib) cs'"
    "verify_segment lib (text_of ''capsule_id'') (lines_bytes cs) m = (True, [])"
  shows "verify_segment lib (text_of ''capsule_id'') (lines_bytes cs') (m\<lparr>gm_sha256_of_segment := hex_text (sha256 (lines_bytes cs'))\<rparr>) = (True, [])"
proof -
  obtain lines ds root where v: "segment_lines (lines_bytes cs) = Some lines" "int (length lines) = gm_record_count m"
    "gm_last_seq m - gm_first_seq m + 1 = gm_record_count m" "mapR (record_digest lib (text_of ''capsule_id'')) lines = Inr ds"
    "fromhex_text (gm_checkpoint_root m) = Inr root" "verify_seq_range root (gm_first_seq m) (gm_last_seq m) ds (Some (gm_range_proof m))"
    by (rule verify_segmentD [OF assms(4)])
  have lines: "lines = map line_text cs" using v(1) segment_lines_written [OF assms(1)] by simp
  have "mapR (record_digest lib (text_of ''capsule_id'')) (map line_text cs) = mapR (capsule_digest lib) cs"
    using assms(1) by (auto simp: mapR_map record_digest_line list_all_iff intro!: mapR_cong_set)
  then have ds: "mapR (capsule_digest lib) cs' = Inr ds" using v(4) assms(3) lines by simp
  have "length cs' = length cs" using mapR_length [OF ds] mapR_length [OF ds [folded assms(3)]] by simp
  then show ?thesis using v(2,3,5,6) lines by (subst verify_segment_written [OF assms(2) _ _ _ ds]) simp_all
qed

definition altered_capsule :: capsule where
  "altered_capsule = full_capsule @ [(text_of ''verdict'', JStr (text_of ''denied''))]"

lemma carried_identity_trusted_witness:
  "altered_capsule \<noteq> full_capsule \<and> verify_segment sample_capsules (text_of ''capsule_id'') (lines_bytes [altered_capsule])
     (full_manifest\<lparr>gm_sha256_of_segment := hex_text (sha256 (lines_bytes [altered_capsule]))\<rparr>) = (True, [])"
proof -
  have ok: "capsule_ok altered_capsule"
    using full_capsule_ok by (simp add: capsule_ok_def altered_capsule_def full_capsule_def scalar_text_def text_of_def)
  have "capsule_digest sample_capsules altered_capsule = capsule_digest sample_capsules full_capsule"
    by (simp add: capsule_digest_def carried_id_def altered_capsule_def full_capsule_def sample_capsules_def)
  then show ?thesis
    using carried_identity_trusted [of "[full_capsule]" "[altered_capsule]" sample_capsules full_manifest] ok full_capsule_ok full_manifest_verifies
    by (simp add: altered_capsule_def)
qed

text \<open>
  The dates a scan narrows by lose records: a row twelve hours behind UTC, asked for by the same instant fourteen
  hours ahead of it, falls two days of local time before the bound.
\<close>

lemma days_2020: "days_before_year 2020 = 737424" "days_in_month 2020 1 = 31" "days_before_month 2020 1 = 0"
  by (simp_all add: days_before_year_def days_in_month_def days_before_month_def)

lemma row_instant: "local_instant (text_of ''2020-01-01T22:00:00-12:00'') = Some (63713512800000000, -720)"
proof -
  let ?t = "text_of ''2020-01-01T22:00:00-12:00''"
  have "strip ?t = ?t" "match_clock (take 19 ?t) = Some (2020, 1, 1, 22, 0, 0)" "match_fraction (drop 19 ?t) = Some ([], text_of ''-12:00'')"
    "match_offset (text_of ''-12:00'') = Some (-720)" "micros_of [] = 0" by code_simp+
  then show ?thesis by (simp add: local_instant_def Let_def days_2020 [simplified])
qed

lemma bound_read: "bound_instant (text_of ''2020-01-03T00:00:00+14:00'') = Inr (63713606400000000, 840)"
proof -
  let ?t = "text_of ''2020-01-03T00:00:00+14:00''"
  have f: "strip ?t = ?t" "match_clock (take 19 ?t) = Some (2020, 1, 3, 0, 0, 0)" "match_fraction (drop 19 ?t) = Some ([], text_of ''+14:00'')"
    "match_offset (text_of ''+14:00'') = Some 840" "micros_of [] = 0" "length ?t \<noteq> 10" by code_simp+
  then have "local_instant ?t = Some (63713606400000000, 840)" by (simp add: local_instant_def Let_def days_2020 [simplified])
  moreover have "date_instant ?t = None" using f by (simp add: date_instant_def)
  ultimately show ?thesis by (simp add: bound_instant_def)
qed

lemma bound_date: "shifted_date (- 1) (63713606400000000, 840) = Inr (text_of ''2020-01-02'')"
proof -
  have "split_year 737425 = (2020, 1)" by (simp add: split_year_def Let_def)
  moreover have "split_month 11 2020 1 1 = (1, 2)" "fixed 4 2020 @ [45] @ fixed 2 1 @ [45] @ fixed 2 2 = text_of ''2020-01-02''" by code_simp+
  ultimately have "date_text 737425 = text_of ''2020-01-02''" by (simp add: date_text_def)
  then show ?thesis by (simp add: shifted_date_def day_of_def)
qed

lemma date_bound_drops:
  "\<exists>s d. bound_instant (text_of ''2020-01-03T00:00:00+14:00'') = Inr s \<and> shifted_date (- 1) s = Inr d \<and>
     (\<forall>r. rw_timestamp r = Some (text_of ''2020-01-01T22:00:00-12:00'') \<longrightarrow> in_time (Some s) None r \<and> \<not> selected whole_scan (Some d) None r)"
proof -
  have "\<not> text_of ''2020-01-02'' \<le> text_of ''2020-01-01T22:00:00-12:00''" by code_simp
  then show ?thesis using bound_read bound_date row_instant by (simp add: in_time_def utc_micros_def selected_def)
qed

end
