(* ===== verification/Sql_Tables.thy ===== *)
theory Sql_Tables
  imports Log_Wire Log_Stores
begin

text \<open>
  \<^verbatim>\<open>cll/log/sql.py\<close>: the four tables several logs share, and the statements of each operation on the rows of one
  log. A table is the list of its rows in the order they were inserted; \<^verbatim>\<open>ORDER BY\<close> is a sort, and an \<^verbatim>\<open>INSERT\<close>
  that repeats a key fails. A column holds a value of its declared type, so the checks of a value's Python type hold
  by typing. An operation that raises gives its error alone: its transaction is rolled back. The JSON columns are the store's own text, so \<^verbatim>\<open>json.loads\<close> is not driven out of stack.
\<close>

section \<open>The schema\<close>

record EntryRow =
  er_log_id :: pytext
  er_seq :: int
  er_value :: bytes
  er_appended_at :: pytext

record NodeRow =
  nr_log_id :: pytext
  nr_position :: int
  nr_node :: bytes

record WitnessRow =
  wt_log_id :: pytext
  wt_witness_id :: pytext
  wt_checkpoint_size :: pytext
  wt_attempts :: int
  wt_witness :: bytes

record Tables =
  tb_meta :: "(pytext \<times> bytes) list"
  tb_entries :: "EntryRow list"
  tb_nodes :: "NodeRow list"
  tb_witnesses :: "WitnessRow list"

definition no_rows :: Tables where
  "no_rows = \<lparr>tb_meta = [], tb_entries = [], tb_nodes = [], tb_witnesses = []\<rparr>"

text \<open>The rows of one log: \<^verbatim>\<open>WHERE log_id=?\<close>.\<close>

definition entries_of :: "pytext \<Rightarrow> Tables \<Rightarrow> EntryRow list" where
  "entries_of log_id tb = filter (\<lambda>r. er_log_id r = log_id) (tb_entries tb)"

definition nodes_of_log :: "pytext \<Rightarrow> Tables \<Rightarrow> NodeRow list" where
  "nodes_of_log log_id tb = filter (\<lambda>r. nr_log_id r = log_id) (tb_nodes tb)"

definition witnesses_of :: "pytext \<Rightarrow> Tables \<Rightarrow> WitnessRow list" where
  "witnesses_of log_id tb = filter (\<lambda>r. wt_log_id r = log_id) (tb_witnesses tb)"

text \<open>The inserts, with the primary keys and \<^verbatim>\<open>UNIQUE(log_id, value)\<close>.\<close>

definition insert_entry :: "EntryRow \<Rightarrow> Tables \<Rightarrow> Tables res" where
  "insert_entry r tb =
     (if \<exists>q\<in>set (entries_of (er_log_id r) tb). er_seq q = er_seq r \<or> er_value q = er_value r then Inl DatabaseError
      else Inr (tb\<lparr>tb_entries := tb_entries tb @ [r]\<rparr>))"

definition insert_node :: "Tables \<Rightarrow> NodeRow \<Rightarrow> Tables res" where
  "insert_node tb r =
     (if \<exists>q\<in>set (nodes_of_log (nr_log_id r) tb). nr_position q = nr_position r then Inl DatabaseError
      else Inr (tb\<lparr>tb_nodes := tb_nodes tb @ [r]\<rparr>))"

definition insert_witness :: "Tables \<Rightarrow> WitnessRow \<Rightarrow> Tables res" where
  "insert_witness tb r =
     (if \<exists>q\<in>set (witnesses_of (wt_log_id r) tb). wt_witness_id q = wt_witness_id r \<and> wt_checkpoint_size q = wt_checkpoint_size r
      then Inl DatabaseError else Inr (tb\<lparr>tb_witnesses := tb_witnesses tb @ [r]\<rparr>))"

section \<open>Rows read back\<close>

definition sql_metadata :: "CllState \<Rightarrow> bytes res" where
  "sql_metadata state =
     bindR (state_to_wire \<lparr>cl_size = cl_size state, cl_nodes = [], cl_indexed_seq = cl_indexed_seq state,
        cl_first_pending_at = cl_first_pending_at state, cl_checkpoint = cl_checkpoint state, cl_witnesses = []\<rparr>) dumps"

definition sql_json :: "bytes \<Rightarrow> json res" where
  "sql_json raw = (case loads raw of Inl _ \<Rightarrow> Inl CorruptError | Inr v \<Rightarrow> Inr v)"

definition entry_from_row :: "EntryRow \<Rightarrow> Entry res" where
  "entry_from_row r =
     (if \<not> (0 < er_seq r \<and> er_seq r \<le> MAX_PORTABLE_INTEGER) then Inl CorruptError
      else if length (er_value r) \<noteq> ENTRY_BYTES then Inl CorruptError
      else bindR (parse_time CorruptError (er_appended_at r)) (\<lambda>t.
        Inr \<lparr>en_seq = er_seq r, en_value = er_value r, en_appended_at = t\<rparr>))"

text \<open>A JSON number other than an integer that equals the column is refused as well, a step later.\<close>

definition witness_from_row :: "WitnessRow \<Rightarrow> WitnessState res" where
  "witness_from_row r =
     bindR (sql_json (wt_witness r)) (\<lambda>wire.
     case wire of
       JObj ms \<Rightarrow>
         if map_of ms (text_of ''witnessId'') \<noteq> Some (JStr (wt_witness_id r)) \<or>
            map_of ms (text_of ''checkpointSize'') \<noteq> Some (JStr (wt_checkpoint_size r)) \<or>
            map_of ms (text_of ''attempts'') \<noteq> Some (JInt (wt_attempts r)) then Inl CorruptError
         else bindR (witness_from_wire CorruptError wire) (validate_witness CorruptError)
     | _ \<Rightarrow> Inl CorruptError)"

fun sql_dense :: "int \<Rightarrow> EntryRow list \<Rightarrow> unit res" where
  "sql_dense expected [] = Inr ()"
| "sql_dense expected (r # rs) =
     (if er_seq r \<noteq> expected \<or> er_seq r > MAX_PORTABLE_INTEGER \<or> length (er_value r) \<noteq> ENTRY_BYTES then Inl CorruptError
      else bindR (parse_time CorruptError (er_appended_at r)) (\<lambda>_. sql_dense (expected + 1) rs))"

definition sql_validate_entries :: "pytext \<Rightarrow> Tables \<Rightarrow> unit res" where
  "sql_validate_entries log_id tb = sql_dense 1 (sort_key er_seq (entries_of log_id tb))"

definition load_witnesses :: "pytext \<Rightarrow> pytext option \<Rightarrow> Tables \<Rightarrow> WitnessState list res" where
  "load_witnesses log_id witness_id tb =
     bindR (mapR witness_from_row
       (sort_key (\<lambda>r. (wt_checkpoint_size r, wt_witness_id r))
         (filter (\<lambda>r. case witness_id of None \<Rightarrow> True | Some w \<Rightarrow> wt_witness_id r = w) (witnesses_of log_id tb)))) (\<lambda>rows.
     if \<not> distinct (map witness_key rows) then Inl CorruptError else Inr rows)"

fun dense_nodes :: "int \<Rightarrow> NodeRow list \<Rightarrow> json list res" where
  "dense_nodes expected [] = Inr []"
| "dense_nodes expected (r # rs) =
     (if nr_position r \<noteq> expected then Inl CorruptError
      else if length (nr_node r) \<noteq> ENTRY_BYTES then Inl CorruptError
      else bindR (dense_nodes (expected + 1) rs) (\<lambda>nodes. Inr (JStr (encode_bytes (nr_node r)) # nodes)))"

definition sql_load_state :: "pytext \<Rightarrow> Tables \<Rightarrow> CllState res" where
  "sql_load_state log_id tb =
     (case map_of (tb_meta tb) log_id of
        None \<Rightarrow> Inl CorruptError
      | Some raw \<Rightarrow>
          bindR (sql_json raw) (\<lambda>wire.
          case wire of
            JObj ms \<Rightarrow>
              bindR (dense_nodes 0 (sort_key nr_position (nodes_of_log log_id tb))) (\<lambda>nodes.
              bindR (state_from_wire CorruptError
                (JObj (dict_insert (text_of ''witnesses'') (JArr []) (dict_insert (text_of ''nodes'') (JArr nodes) ms)))) (\<lambda>state.
              bindR (load_witnesses log_id None tb) (\<lambda>rows.
              validate_state CorruptError (state\<lparr>cl_witnesses := rows\<rparr>))))
          | _ \<Rightarrow> Inl CorruptError))"

section \<open>Entries\<close>

definition find_entry :: "pytext \<Rightarrow> bytes \<Rightarrow> Tables \<Rightarrow> Entry option res" where
  "find_entry log_id value tb =
     (case List.find (\<lambda>r. er_value r = value) (entries_of log_id tb) of
        None \<Rightarrow> Inr None
      | Some r \<Rightarrow> bindR (entry_from_row r) (\<lambda>en. Inr (Some en)))"

text \<open>\<^verbatim>\<open>SELECT MAX(seq)\<close>\<close>

definition sql_max_seq :: "pytext \<Rightarrow> Tables \<Rightarrow> int option" where
  "sql_max_seq log_id tb = (case map er_seq (entries_of log_id tb) of [] \<Rightarrow> None | s # ss \<Rightarrow> Some (fold max ss s))"

definition sql_append :: "pytext \<Rightarrow> AppendInput \<Rightarrow> bool \<Rightarrow> Tables \<Rightarrow> (AppendResult \<times> Tables) res" where
  "sql_append log_id inp lock tb =
     bindR (check_append inp) (\<lambda>(value, appended_at).
     if lock \<and> map_of (tb_meta tb) log_id = None then Inl CorruptError
     else
       bindR (find_entry log_id value tb) (\<lambda>found.
       case found of
         Some en \<Rightarrow> Inr (\<lparr>ar_entry = en, ar_outcome = IDEMPOTENT\<rparr>, tb)
       | None \<Rightarrow>
           let seq = (case sql_max_seq log_id tb of None \<Rightarrow> 1 | Some m \<Rightarrow> m + 1) in
           if seq > MAX_PORTABLE_INTEGER then Inl InvalidError
           else
             bindR (format_time appended_at) (\<lambda>t.
             bindR (insert_entry \<lparr>er_log_id = log_id, er_seq = seq, er_value = value, er_appended_at = t\<rparr> tb) (\<lambda>tb'.
             Inr (\<lparr>ar_entry = \<lparr>en_seq = seq, en_value = value, en_appended_at = appended_at\<rparr>, ar_outcome = INSERTED\<rparr>, tb')))))"

definition sql_get_entry :: "pytext \<Rightarrow> bytes \<Rightarrow> Tables \<Rightarrow> Entry res" where
  "sql_get_entry log_id value tb =
     bindR (check_value value) (\<lambda>value.
     bindR (find_entry log_id value tb) (\<lambda>found.
     case found of None \<Rightarrow> Inl NotFoundError | Some en \<Rightarrow> Inr en))"

definition sql_entry_count :: "pytext \<Rightarrow> Tables \<Rightarrow> int res" where
  "sql_entry_count log_id tb =
     (case sql_max_seq log_id tb of
        None \<Rightarrow> Inr 0
      | Some n \<Rightarrow> if n < 1 \<or> n > MAX_PORTABLE_INTEGER then Inl CorruptError else Inr n)"

definition sql_scan_entries :: "pytext \<Rightarrow> int \<Rightarrow> int \<Rightarrow> Tables \<Rightarrow> Entry list res" where
  "sql_scan_entries log_id after_seq limit tb =
     bindR (check_scan after_seq limit) (\<lambda>_.
     mapR entry_from_row
       (take (nat limit) (sort_key er_seq (filter (\<lambda>r. er_seq r > after_seq) (entries_of log_id tb)))))"

section \<open>The checkpoint state\<close>

definition update_meta :: "pytext \<Rightarrow> bytes \<Rightarrow> Tables \<Rightarrow> Tables" where
  "update_meta log_id raw tb = tb\<lparr>tb_meta := map (\<lambda>(l, b). (l, if l = log_id then raw else b)) (tb_meta tb)\<rparr>"

definition sql_witness_row :: "pytext \<Rightarrow> WitnessState \<Rightarrow> WitnessRow res" where
  "sql_witness_row log_id row =
     bindR (bindR (witness_to_wire row) dumps) (\<lambda>raw.
     Inr \<lparr>wt_log_id = log_id, wt_witness_id = ws_witness_id row, wt_checkpoint_size = dec_text (ws_checkpoint_size row),
          wt_attempts = ws_attempts row, wt_witness = raw\<rparr>)"

definition node_row :: "pytext \<Rightarrow> bytes list \<Rightarrow> nat \<Rightarrow> NodeRow" where
  "node_row log_id nodes i = \<lparr>nr_log_id = log_id, nr_position = int i, nr_node = nodes ! i\<rparr>"

definition sql_commit_cll :: "pytext \<Rightarrow> int \<Rightarrow> bytes option \<Rightarrow> CllState \<Rightarrow> Tables \<Rightarrow> Tables res" where
  "sql_commit_cll log_id expected_size expected_checkpoint nxt tb =
     bindR (sql_load_state log_id tb) (\<lambda>current.
     bindR (apply_cll current expected_size expected_checkpoint nxt) (\<lambda>updated.
     bindR (sql_metadata updated) (\<lambda>raw.
     bindR (foldR insert_node (update_meta log_id raw tb)
       (map (node_row log_id (cl_nodes updated)) [length (cl_nodes current)..<length (cl_nodes updated)])) (\<lambda>tb.
     foldR (\<lambda>tb row. bindR (sql_witness_row log_id row) (insert_witness tb)) tb
       (drop (length (cl_witnesses current)) (cl_witnesses updated))))))"

section \<open>Witness rows\<close>

definition sql_pending_witnesses :: "pytext \<Rightarrow> datetime \<Rightarrow> int \<Rightarrow> Tables \<Rightarrow> WitnessState list res" where
  "sql_pending_witnesses log_id now limit tb =
     bindR (check_pending now limit) (\<lambda>now.
     bindR (load_witnesses log_id None tb) (\<lambda>rows. Inr (pending rows now limit None)))"

definition sql_pending_witnesses_for :: "pytext \<Rightarrow> pytext \<Rightarrow> datetime \<Rightarrow> int \<Rightarrow> Tables \<Rightarrow> WitnessState list res" where
  "sql_pending_witnesses_for log_id witness_id now limit tb =
     bindR (check_pending_for witness_id now limit) (\<lambda>now.
     bindR (load_witnesses log_id (Some witness_id) tb) (\<lambda>rows. Inr (pending rows now limit (Some witness_id))))"

definition sql_get_witness :: "pytext \<Rightarrow> pytext \<Rightarrow> int \<Rightarrow> Tables \<Rightarrow> WitnessState option res" where
  "sql_get_witness log_id witness_id checkpoint_size tb =
     bindR (check_witness_key witness_id checkpoint_size) (\<lambda>_.
     case List.find (\<lambda>r. wt_witness_id r = witness_id \<and> wt_checkpoint_size r = dec_text checkpoint_size) (witnesses_of log_id tb) of
       None \<Rightarrow> Inr None
     | Some r \<Rightarrow> bindR (witness_from_row r) (\<lambda>row. Inr (Some row)))"

text \<open>The \<^verbatim>\<open>UPDATE\<close> matches a key and the expected attempts, and \<^verbatim>\<open>rowcount\<close> counts what it matched.\<close>

definition matches_update :: "WitnessRow \<Rightarrow> int \<Rightarrow> WitnessRow \<Rightarrow> bool" where
  "matches_update new expected_attempts r \<longleftrightarrow>
     wt_log_id r = wt_log_id new \<and> wt_witness_id r = wt_witness_id new \<and> wt_checkpoint_size r = wt_checkpoint_size new \<and>
     wt_attempts r = expected_attempts"

definition sql_commit_witness :: "pytext \<Rightarrow> int \<Rightarrow> WitnessState \<Rightarrow> Tables \<Rightarrow> Tables res" where
  "sql_commit_witness log_id expected_attempts nxt tb =
     bindR (validate_witness InvalidError nxt) (\<lambda>nxt.
     bindR (check_expected_attempts expected_attempts) (\<lambda>_.
     bindR (sql_get_witness log_id (ws_witness_id nxt) (ws_checkpoint_size nxt) tb) (\<lambda>current.
     case current of
       None \<Rightarrow> Inl ContentionError
     | Some current \<Rightarrow>
         bindR (apply_witness [current] expected_attempts nxt) (\<lambda>(_, updated).
         bindR (sql_witness_row log_id updated) (\<lambda>new.
         let hit = matches_update new expected_attempts in
         if length (filter hit (tb_witnesses tb)) \<noteq> 1 then Inl ContentionError
         else Inr (tb\<lparr>tb_witnesses := map (\<lambda>r. if hit r then r\<lparr>wt_attempts := wt_attempts new, wt_witness := wt_witness new\<rparr> else r)
           (tb_witnesses tb)\<rparr>))))))"

end
