(* ===== verification/Sql_Rows.thy ===== *)
theory Sql_Rows
  imports Sql_Tables Checkpoint_Record "HOL-Library.Multiset"
begin

text \<open>
  Rows and the values they stand for: an entry, a node, a witness row and the metadata read back from the tables as
  they were written, and a selection in key order does not depend on the order of insertion.
\<close>

section \<open>Selections\<close>

text \<open>Rows with distinct keys have one order.\<close>

lemma sort_unique:
  fixes k :: "'a \<Rightarrow> 'b :: linorder"
  assumes "mset xs = mset ys" "sorted (map k ys)" "distinct (map k ys)"
  shows "sort_key k xs = ys"
proof (rule properties_for_sort_key)
  have inj: "inj_on k (set ys)" "distinct ys" using assms(3) by (simp_all add: distinct_map)
  have set: "set xs = set ys" "distinct xs" using assms(1) inj(2) by (auto dest: mset_eq_setD mset_eq_imp_distinct_iff)
  have one: "filter (\<lambda>x. k y = k x) zs = [y]" if z: "y \<in> set zs" "distinct zs" "set zs = set ys" for y zs
  proof -
    have "filter (\<lambda>x. k y = k x) zs = filter (\<lambda>x. x = y) zs"
      using z inj(1) by (intro filter_cong) (auto dest: inj_onD)
    also have "\<dots> = [y]"
    proof -
      obtain as bs where "zs = as @ y # bs" using split_list [OF z(1)] by blast
      moreover from this have "filter (\<lambda>x. x = y) as = []" "filter (\<lambda>x. x = y) bs = []" using z(2) by (auto simp: filter_empty_conv)
      ultimately show ?thesis by simp
    qed
    finally show ?thesis .
  qed
  show "filter (\<lambda>x. k y = k x) ys = filter (\<lambda>x. k y = k x) xs" if "y \<in> set ys" for y
    using one [of y xs] one [of y ys] that set inj(2) by simp
qed (use assms in simp_all)

lemma sort_key_mset:
  fixes k :: "'a \<Rightarrow> 'b :: linorder"
  assumes "mset xs = mset ys" "inj_on k (set ys)" "distinct ys"
  shows "sort_key k xs = sort_key k ys"
  using assms by (intro sort_unique) (simp_all add: distinct_map)

lemma find_mset:
  assumes "mset xs = mset ys" "\<And>x y. x \<in> set ys \<Longrightarrow> y \<in> set ys \<Longrightarrow> P x \<Longrightarrow> P y \<Longrightarrow> x = y"
  shows "List.find P xs = List.find P ys"
proof (cases "List.find P ys")
  case None
  then have "List.find P xs = None" using mset_eq_setD [OF assms(1)] by (simp add: find_None_iff)
  then show ?thesis using None by simp
next
  case (Some y)
  then have y: "y \<in> set ys" "P y" by (auto simp: find_Some_iff)
  then obtain x where x: "List.find P xs = Some x" using mset_eq_setD [OF assms(1)] by (cases "List.find P xs") (auto simp: find_None_iff)
  then have "x \<in> set ys" "P x" using mset_eq_setD [OF assms(1)] by (auto simp: find_Some_iff)
  then show ?thesis using assms(2) [of x y] x y Some by simp
qed

lemma mapR_mset:
  assumes "mset xs = mset (map g ys)" "\<And>y. y \<in> set ys \<Longrightarrow> f (g y) = Inr y"
  shows "\<exists>zs. mapR f xs = Inr zs \<and> mset zs = mset ys"
proof -
  have "\<forall>x\<in>set xs. \<exists>y\<in>set ys. x = g y" using mset_eq_setD [OF assms(1)] by auto
  then have "mapR f xs = Inr (map (\<lambda>x. projr (f x)) xs)" using assms(2) by (intro mapR_Inr) fastforce
  moreover have "mset (map (\<lambda>x. projr (f x)) xs) = mset (map (\<lambda>x. projr (f x)) (map g ys))"
    using assms(1) by (metis mset_map)
  moreover have "map (\<lambda>x. projr (f x)) (map g ys) = ys" using assms(2) by (simp add: map_idI)
  ultimately show ?thesis by (metis (no_types, lifting))
qed

section \<open>JSON columns\<close>

lemma utf8_scalar: "utf8_encode t \<noteq> None \<Longrightarrow> scalar_text t"
proof (induction t)
  case (Cons c t)
  then have "utf8_char c \<noteq> None" "scalar_text t" by (auto split: option.splits)
  then show ?case by (auto simp: scalar_text_def utf8_char_def split: if_splits)
qed (simp add: scalar_text_def)

lemma low_scalar: "list_all (\<lambda>c. c < 128) t \<Longrightarrow> scalar_text t"
  by (auto simp: scalar_text_def list_all_iff)

lemma code_points_scalar:
  "strings_ok scalar_text v \<Longrightarrow> c \<in> code_points v \<Longrightarrow> c < 55296 \<or> 57344 \<le> c \<and> c < 1114112"
proof (induction v)
  case (JObj ms)
  then obtain k v where m: "(k, v) \<in> set ms" "c \<in> set k \<union> code_points v" by auto
  have "scalar_text k" "strings_ok scalar_text v" using JObj.prems(1) m(1) by (auto simp: list_all_iff)
  moreover have "c < 55296 \<or> 57344 \<le> c \<and> c < 1114112" if "c \<in> code_points v" "strings_ok scalar_text v"
    using JObj.IH [OF m(1) _ that(2,1)] by simp
  ultimately show ?case using m(2) by (auto simp: scalar_text_def)
qed (auto simp: scalar_text_def list_all_iff)

lemma dumps_total:
  assumes "json_ok v" "strings_ok scalar_text v"
  obtains b where "dumps v = Inr b" "sql_json b = Inr v"
proof -
  have "scalar_text (print_json v)"
    unfolding scalar_text_def using print_printable [OF assms(1)] code_points_scalar [OF assms(2)] by fastforce
  from scalar_utf8 [OF this] obtain u where "utf8_encode (print_json v) = Some u" by blast
  then obtain b where b: "dumps v = Inr b" by (simp add: dumps_def)
  then have "sql_json b = Inr v" using loads_dumps [OF assms(1) b] by (simp add: sql_json_def)
  with b show thesis by (rule that)
qed

lemma b64_char_low [simp]: "b64_char n < 128"
  unfolding b64_char_def by (simp; linarith)

lemma b64_low: "list_all (\<lambda>c. c < 128) (b64_encode bs)"
  by (induction bs rule: b64_encode.induct) simp_all

lemma encode_scalar [simp]: "scalar_text (encode_bytes b)"
  unfolding encode_bytes_def by (rule low_scalar, rule b64_low)

lemma dec_scalar [simp]: "scalar_text (dec_text n)"
proof (rule low_scalar)
  have "list_all (\<lambda>c. c < 128) (dec_nat k)" for k
    using dec_nat_digits [of k] by (rule list.pred_mono_strong) (simp add: is_digit_def)
  then show "list_all (\<lambda>c. c < 128) (dec_text n)" by (simp add: dec_text_def)
qed

lemma fixed_low: "list_all (\<lambda>c. c < 128) (fixed k n)"
  by (induction k n rule: fixed.induct) auto

lemma time_scalar: "format_time t = Inr s \<Longrightarrow> scalar_text s"
proof (rule low_scalar)
  assume "format_time t = Inr s"
  then obtain u where "s = render_time (millis_of u)" by (auto simp: format_time_def bindR_eq_Inr)
  then show "list_all (\<lambda>c. c < 128) s" by (simp add: render_time_def Let_def fixed_low split: prod.split)
qed

lemma identifier_scalar: "validate_identifier t \<Longrightarrow> scalar_text t"
proof (rule low_scalar)
  assume "validate_identifier t"
  then have "list_all identifier_char t" by (simp add: validate_identifier_def)
  then show "list_all (\<lambda>c. c < 128) t" by (rule list.pred_mono_strong) (auto simp: identifier_char_def text_of_def)
qed

lemma hash_scalar: "entry_hash_ok h \<Longrightarrow> scalar_text h"
proof -
  assume "entry_hash_ok h"
  then have "set h \<subseteq> set (text_of ''0123456789abcdef'')" by (simp add: entry_hash_ok_def)
  moreover have "scalar_text (text_of ''0123456789abcdef'')" by (rule scalar_literal)
  ultimately show ?thesis unfolding scalar_text_def by blast
qed

lemma witness_ok_fields:
  assumes "witness_ok w"
  shows "validate_identifier (ws_witness_id w)" "\<And>m. ws_last_error w = Some m \<Longrightarrow> scalar_text m"
    "\<And>r h. ws_receipt w = Some r \<Longrightarrow> wr_entry_hash r = Some h \<Longrightarrow> scalar_text h"
    "\<And>r h. ws_receipt w = Some r \<Longrightarrow> wr_entry_hash_scheme r = Some h \<Longrightarrow> scalar_text h"
proof -
  have v: "validate_witness CorruptError w = Inr w" using assms by (rule witness_okD)
  then show "validate_identifier (ws_witness_id w)"
    by (auto simp: validate_witness_def split: option.splits if_splits)
  show "scalar_text m" if "ws_last_error w = Some m" for m
    using v that by (intro utf8_scalar) (auto simp: validate_witness_def utf8_length_def split: option.splits if_splits)
  have r: "validate_receipt CorruptError r = Inr r" if some: "ws_receipt w = Some r" for r
  proof -
    obtain t q where q: "validate_receipt CorruptError r = Inr q" "w\<lparr>ws_next_attempt_at := t, ws_receipt := Some q\<rparr> = w"
      using v some by (auto simp: validate_witness_def width_def bindR_eq_Inr split: option.splits if_splits)
    show ?thesis using q(1) arg_cong [OF q(2), of ws_receipt] some by simp
  qed
  show "scalar_text h" if "ws_receipt w = Some r" "wr_entry_hash r = Some h" for r h
    using r [OF that(1)] that(2)
    by (auto simp: validate_receipt_def intro: hash_scalar split: option.splits if_splits)
  show "scalar_text h" if "ws_receipt w = Some r" "wr_entry_hash_scheme r = Some h" for r h
    using r [OF that(1)] that(2) by (auto simp: validate_receipt_def split: option.splits if_splits)
qed

section \<open>Round trips\<close>

text \<open>The row of a witness, when its JSON can be printed.\<close>

definition the_row :: "pytext \<Rightarrow> WitnessState \<Rightarrow> WitnessRow" where
  "the_row log_id w = projr (sql_witness_row log_id w)"

lemma witness_row_reads_back:
  assumes "witness_ok w"
  shows "sql_witness_row log_id w = Inr (the_row log_id w)" "witness_from_row (the_row log_id w) = Inr w"
    "wt_log_id (the_row log_id w) = log_id" "wt_witness_id (the_row log_id w) = ws_witness_id w"
    "wt_checkpoint_size (the_row log_id w) = dec_text (ws_checkpoint_size w)" "wt_attempts (the_row log_id w) = ws_attempts w"
proof -
  obtain j where j: "witness_to_wire w = Inr j" "witness_from_wire CorruptError j = Inr w" "json_ok j"
    using witness_wire_roundtrip [OF assms] by blast
  then obtain t where t: "format_time (ws_next_attempt_at w) = Inr t" and ms: "j = JObj (
       [(text_of ''witnessId'', JStr (ws_witness_id w)),
        (text_of ''checkpointSize'', JStr (format_decimal (ws_checkpoint_size w))),
        (text_of ''checkpoint'', JStr (encode_bytes (ws_checkpoint w))),
        (text_of ''attempts'', JInt (ws_attempts w)),
        (text_of ''nextAttemptAt'', JStr t)] @
       receipt_members (ws_receipt w) @
       [(text_of ''permanent'', JBool (ws_permanent w))] @
       opt_member ''lastError'' (map_option JStr (ws_last_error w)))"
    by (auto simp: witness_to_wire_def bindR_eq_Inr)
  note f = witness_ok_fields [OF assms]
  have "strings_ok scalar_text (JObj (receipt_members (ws_receipt w)))"
    using f(3,4) by (auto simp: receipt_members_def opt_member_def split: option.splits)
  moreover have "strings_ok scalar_text (JObj (opt_member ''lastError'' (map_option JStr (ws_last_error w))))"
    using f(2) by (auto simp: opt_member_def split: option.splits)
  ultimately have "strings_ok scalar_text j"
    using f(1) time_scalar [OF t] by (simp add: ms identifier_scalar format_decimal_def)
  from dumps_total [OF j(3) this] obtain raw where raw: "dumps j = Inr raw" "sql_json raw = Inr j" .
  have r: "sql_witness_row log_id w = Inr \<lparr>wt_log_id = log_id, wt_witness_id = ws_witness_id w, wt_checkpoint_size = dec_text (ws_checkpoint_size w),
      wt_attempts = ws_attempts w, wt_witness = raw\<rparr>"
    using j(1) raw(1) by (simp add: sql_witness_row_def)
  then show "sql_witness_row log_id w = Inr (the_row log_id w)" by (simp add: the_row_def)
  show "wt_log_id (the_row log_id w) = log_id" "wt_witness_id (the_row log_id w) = ws_witness_id w"
    "wt_checkpoint_size (the_row log_id w) = dec_text (ws_checkpoint_size w)" "wt_attempts (the_row log_id w) = ws_attempts w"
    by (simp_all add: the_row_def r)
  have "witness_from_row (the_row log_id w) = bindR (witness_from_wire CorruptError j) (validate_witness CorruptError)"
    using raw(2) by (simp add: witness_from_row_def the_row_def r ms format_decimal_def)
  then show "witness_from_row (the_row log_id w) = Inr w" using j(2) witness_okD [OF assms] by simp
qed

definition sql_entry_row :: "pytext \<Rightarrow> Entry \<Rightarrow> EntryRow" where
  "sql_entry_row log_id en = \<lparr>er_log_id = log_id, er_seq = en_seq en, er_value = en_value en,
     er_appended_at = render_time (millis_of (en_appended_at en))\<rparr>"

lemma entry_row_sel [simp]:
  "er_log_id (sql_entry_row l en) = l" "er_seq (sql_entry_row l en) = en_seq en" "er_value (sql_entry_row l en) = en_value en"
  "er_appended_at (sql_entry_row l en) = render_time (millis_of (en_appended_at en))"
  by (simp_all add: sql_entry_row_def)

lemma time_reads_back:
  assumes "normalize_time CorruptError t = Inr t"
  shows "format_time t = Inr (render_time (millis_of t))" "parse_time e (render_time (millis_of t)) = Inr t"
proof -
  obtain s where s: "format_time t = Inr s" "parse_time e s = Inr t" using parse_format_time [OF assms] by blast
  moreover have "s = render_time (millis_of t)"
    using s(1) normalize_time_idem [OF assms, of InvalidError] by (auto simp: format_time_def bindR_eq_Inr)
  ultimately show "format_time t = Inr (render_time (millis_of t))" "parse_time e (render_time (millis_of t)) = Inr t" by simp_all
qed

lemma entry_row_reads_back:
  assumes "entries_ok es" "en \<in> set es"
  shows "entry_from_row (sql_entry_row log_id en) = Inr en"
proof -
  obtain i where "i < length es" "es ! i = en" using assms(2) by (auto simp: in_set_conv_nth)
  then have "0 < en_seq en" "en_seq en \<le> MAX_PORTABLE_INTEGER" "length (en_value en) = 32"
    "normalize_time CorruptError (en_appended_at en) = Inr (en_appended_at en)"
    using assms(1) by (auto simp: entries_ok_def)
  then show ?thesis using time_reads_back(2) by (simp add: entry_from_row_def sql_entry_row_def ENTRY_BYTES_def)
qed

text \<open>Reading a state depends on the members of its object alone.\<close>

lemma state_from_wire_members:
  assumes "map_of ms = map_of ms'"
  shows "state_from_wire e (JObj ms) = state_from_wire e (JObj ms')"
  unfolding state_from_wire_def as_object_def json.case bindR_Inr required_def jget_def checkpoint_from_wire_def assms ..

declare map_of_insert [simp]

lemma metadata_reads_back:
  assumes "state_ok s" "cl_size s < 2 ^ 64"
  shows "\<exists>raw ms. sql_metadata s = Inr raw \<and> sql_json raw = Inr (JObj ms) \<and>
    state_from_wire CorruptError (JObj (dict_insert (text_of ''witnesses'') (JArr [])
      (dict_insert (text_of ''nodes'') (JArr (map (\<lambda>n. JStr (encode_bytes n)) (cl_nodes s))) ms))) = Inr (s\<lparr>cl_witnesses := []\<rparr>)"
proof -
  have ok: "state_wire_ok s" using assms by (rule state_wire_okI)
  let ?wire = "\<lambda>nodes t. JObj (
       [(text_of ''size'', JStr (format_decimal (cl_size s))),
        (text_of ''indexedSeq'', JStr (format_decimal (cl_indexed_seq s))),
        (text_of ''nodes'', JArr (map (\<lambda>n. JStr (encode_bytes n)) nodes))] @
       opt_member ''firstPendingAt'' (map_option JStr t) @
       checkpoint_members (cl_checkpoint s) @
       [(text_of ''witnesses'', JArr [])])"
  have "state_wire_ok (s\<lparr>cl_nodes := [], cl_witnesses := []\<rparr>)" "state_wire_ok (s\<lparr>cl_witnesses := []\<rparr>)"
    using ok by (simp_all add: state_wire_ok_def)
  from state_wire_roundtrip [OF this(1), of CorruptError] state_wire_roundtrip [OF this(2), of CorruptError] obtain j j0 where
    j: "state_to_wire (s\<lparr>cl_nodes := [], cl_witnesses := []\<rparr>) = Inr j" "json_ok j" and
    j0: "state_to_wire (s\<lparr>cl_witnesses := []\<rparr>) = Inr j0" "state_from_wire CorruptError j0 = Inr (s\<lparr>cl_witnesses := []\<rparr>)" by blast
  obtain t where t: "optional format_time (cl_first_pending_at s) = Inr t" using j(1) by (auto simp: state_to_wire_def bindR_eq_Inr)
  have w: "j = ?wire [] t" "j0 = ?wire (cl_nodes s) t" using j(1) j0(1) t by (auto simp: state_to_wire_def bindR_eq_Inr)
  obtain ms where ms: "j = JObj ms" using w(1) by blast
  have "scalar_text x" if "t = Some x" for x
    using t that by (auto simp: optional_def bindR_eq_Inr intro: time_scalar split: option.splits)
  then have "strings_ok scalar_text j"
    by (auto simp: w(1) opt_member_def checkpoint_members_def format_decimal_def list_all_iff split: option.split)
  from dumps_total [OF j(2) this] obtain raw where raw: "dumps j = Inr raw" "sql_json raw = Inr j" .
  have "map_of (dict_insert (text_of ''witnesses'') (JArr []) (dict_insert (text_of ''nodes'') (JArr (map (\<lambda>n. JStr (encode_bytes n)) (cl_nodes s))) ms))
      = map_of (case j0 of JObj ms0 \<Rightarrow> ms0)"
    using w(1) by (intro ext) (auto simp: w(2) ms map_add_def checkpoint_members_none opt_member_def split: option.split)
  then have "state_from_wire CorruptError (JObj (dict_insert (text_of ''witnesses'') (JArr [])
      (dict_insert (text_of ''nodes'') (JArr (map (\<lambda>n. JStr (encode_bytes n)) (cl_nodes s))) ms))) = Inr (s\<lparr>cl_witnesses := []\<rparr>)"
    using j0(2) by (subst state_from_wire_members) (auto simp: w(2))
  moreover have "sql_metadata s = Inr raw"
  proof -
    have e: "s\<lparr>cl_nodes := [], cl_witnesses := []\<rparr> = \<lparr>cl_size = cl_size s, cl_nodes = [], cl_indexed_seq = cl_indexed_seq s,
        cl_first_pending_at = cl_first_pending_at s, cl_checkpoint = cl_checkpoint s, cl_witnesses = []\<rparr>" by (cases s) simp
    show ?thesis using j(1) raw(1) unfolding e by (simp add: sql_metadata_def)
  qed
  ultimately show ?thesis using raw(2) ms by blast
qed

end
