(* ===== verification/Sqlite_Store.thy ===== *)
theory Sqlite_Store
  imports Sql_Tables
begin

text \<open>
  \<^verbatim>\<open>cll/log/sqlite.py\<close>: \<^verbatim>\<open>SqliteStore\<close>, one log of a database file. Every operation is one transaction. \<open>SqliteIo\<close>
  says what the database does to it: whether \<^verbatim>\<open>BEGIN\<close> or a statement fails, in which case it is rolled back, and
  whether \<^verbatim>\<open>COMMIT\<close> fails, after which SQLite may have kept the transaction open. The error is the one
  \<^verbatim>\<open>_classified\<close> lets through: \<open>ContentionError\<close> for a busy database, \<open>DatabaseError\<close> otherwise. The statements that provision a
  log do not fail; one that does makes \<^verbatim>\<open>init\<close> raise, and \<^verbatim>\<open>IF NOT EXISTS\<close> and \<^verbatim>\<open>OR IGNORE\<close> let it be repeated.
\<close>

record SqliteIo =
  sio_begin_fails :: "py_error option"
  sio_commit_fails :: "(py_error \<times> bool) option"

definition quiet_io :: SqliteIo where
  "quiet_io = \<lparr>sio_begin_fails = None, sio_commit_fails = None\<rparr>"

text \<open>A handle, with what is committed in its database; \<open>sl_open\<close> when a failed \<^verbatim>\<open>COMMIT\<close> left a transaction open.\<close>

record SqliteStore =
  sl_tables :: Tables
  sl_log_id :: pytext
  sl_closed :: bool
  sl_open :: bool

definition sl_transaction :: "SqliteIo \<Rightarrow> SqliteStore \<Rightarrow> (Tables \<Rightarrow> ('a \<times> Tables) res) \<Rightarrow> 'a res \<times> SqliteStore" where
  "sl_transaction io st body =
     (if sl_closed st then (Inl ClosedError, st)
      else if sl_open st then (Inl DatabaseError, st)
      else case sio_begin_fails io of
        Some e \<Rightarrow> (Inl e, st)
      | None \<Rightarrow>
          (case body (sl_tables st) of
             Inl e \<Rightarrow> (Inl e, st)
           | Inr (x, tb) \<Rightarrow>
               (case sio_commit_fails io of
                  Some (e, left_open) \<Rightarrow> (Inl e, st\<lparr>sl_open := left_open\<rparr>)
                | None \<Rightarrow> (Inr x, st\<lparr>sl_tables := tb\<rparr>))))"

definition sl_read :: "SqliteIo \<Rightarrow> SqliteStore \<Rightarrow> (Tables \<Rightarrow> 'a res) \<Rightarrow> 'a res \<times> SqliteStore" where
  "sl_read io st body = sl_transaction io st (\<lambda>tb. bindR (body tb) (\<lambda>x. Inr (x, tb)))"

definition sl_write :: "SqliteIo \<Rightarrow> SqliteStore \<Rightarrow> (Tables \<Rightarrow> Tables res) \<Rightarrow> unit res \<times> SqliteStore" where
  "sl_write io st body = sl_transaction io st (\<lambda>tb. bindR (body tb) (\<lambda>tb. Inr ((), tb)))"

definition sl_append :: "SqliteIo \<Rightarrow> SqliteStore \<Rightarrow> AppendInput \<Rightarrow> AppendResult res \<times> SqliteStore" where
  "sl_append io st inp = sl_transaction io st (sql_append (sl_log_id st) inp False)"

definition sl_get_entry :: "SqliteIo \<Rightarrow> SqliteStore \<Rightarrow> bytes \<Rightarrow> Entry res \<times> SqliteStore" where
  "sl_get_entry io st value = sl_read io st (sql_get_entry (sl_log_id st) value)"

definition sl_entry_count :: "SqliteIo \<Rightarrow> SqliteStore \<Rightarrow> int res \<times> SqliteStore" where
  "sl_entry_count io st = sl_read io st (sql_entry_count (sl_log_id st))"

definition sl_scan_entries :: "SqliteIo \<Rightarrow> SqliteStore \<Rightarrow> int \<Rightarrow> int \<Rightarrow> Entry list res \<times> SqliteStore" where
  "sl_scan_entries io st after_seq limit = sl_read io st (sql_scan_entries (sl_log_id st) after_seq limit)"

definition sl_load_cll :: "SqliteIo \<Rightarrow> SqliteStore \<Rightarrow> CllState res \<times> SqliteStore" where
  "sl_load_cll io st = sl_read io st (sql_load_state (sl_log_id st))"

definition sl_commit_cll ::
  "SqliteIo \<Rightarrow> SqliteStore \<Rightarrow> int \<Rightarrow> bytes option \<Rightarrow> CllState \<Rightarrow> unit res \<times> SqliteStore" where
  "sl_commit_cll io st expected_size expected_checkpoint nxt =
     sl_write io st (sql_commit_cll (sl_log_id st) expected_size expected_checkpoint nxt)"

definition sl_pending_witnesses :: "SqliteIo \<Rightarrow> SqliteStore \<Rightarrow> datetime \<Rightarrow> int \<Rightarrow> WitnessState list res \<times> SqliteStore" where
  "sl_pending_witnesses io st now limit = sl_read io st (sql_pending_witnesses (sl_log_id st) now limit)"

definition sl_pending_witnesses_for ::
  "SqliteIo \<Rightarrow> SqliteStore \<Rightarrow> pytext \<Rightarrow> datetime \<Rightarrow> int \<Rightarrow> WitnessState list res \<times> SqliteStore" where
  "sl_pending_witnesses_for io st witness_id now limit =
     sl_read io st (sql_pending_witnesses_for (sl_log_id st) witness_id now limit)"

definition sl_get_witness :: "SqliteIo \<Rightarrow> SqliteStore \<Rightarrow> pytext \<Rightarrow> int \<Rightarrow> WitnessState option res \<times> SqliteStore" where
  "sl_get_witness io st witness_id checkpoint_size =
     sl_read io st (sql_get_witness (sl_log_id st) witness_id checkpoint_size)"

definition sl_commit_witness :: "SqliteIo \<Rightarrow> SqliteStore \<Rightarrow> int \<Rightarrow> WitnessState \<Rightarrow> unit res \<times> SqliteStore" where
  "sl_commit_witness io st expected_attempts nxt = sl_write io st (sql_commit_witness (sl_log_id st) expected_attempts nxt)"

definition sl_close :: "SqliteStore \<Rightarrow> SqliteStore" where
  "sl_close st = st\<lparr>sl_closed := True, sl_open := False\<rparr>"

text \<open>
  \<^verbatim>\<open>_open\<close>. A database is none when the file or its tables are missing. Initialising creates the tables and the
  metadata of the log, and ignores what is already there; then everything of the log is read once.
\<close>

definition provision :: "pytext \<Rightarrow> Tables option \<Rightarrow> Tables res" where
  "provision log_id db =
     (let tb = (case db of None \<Rightarrow> no_rows | Some tb \<Rightarrow> tb) in
      bindR (sql_metadata empty_cll_state) (\<lambda>raw.
      Inr (if map_of (tb_meta tb) log_id = None then tb\<lparr>tb_meta := tb_meta tb @ [(log_id, raw)]\<rparr> else tb)))"

definition sl_open_log :: "SqliteIo \<Rightarrow> pytext \<Rightarrow> pytext \<Rightarrow> bool \<Rightarrow> Tables option \<Rightarrow> SqliteStore res \<times> Tables option" where
  "sl_open_log io path log_id initialize db =
     (if path = [] \<or> \<not> validate_identifier log_id then (Inl InvalidError, db)
      else case (if initialize then provision log_id db else case db of None \<Rightarrow> Inl DatabaseError | Some tb \<Rightarrow> Inr tb) of
        Inl e \<Rightarrow> (Inl e, db)
      | Inr tb \<Rightarrow>
          (case sl_read io \<lparr>sl_tables = tb, sl_log_id = log_id, sl_closed = False, sl_open = False\<rparr>
             (\<lambda>tb. bindR (sql_validate_entries log_id tb) (\<lambda>_. sql_load_state log_id tb)) of
             (Inl e, _) \<Rightarrow> (Inl e, Some tb)
           | (Inr _, st) \<Rightarrow> (Inr st, Some tb)))"

definition sqlite_init :: "SqliteIo \<Rightarrow> pytext \<Rightarrow> pytext \<Rightarrow> Tables option \<Rightarrow> unit res \<times> Tables option" where
  "sqlite_init io path log_id db =
     (case sl_open_log io path log_id True db of (r, db') \<Rightarrow> (bindR r (\<lambda>_. Inr ()), db'))"

definition sqlite_open :: "SqliteIo \<Rightarrow> pytext \<Rightarrow> pytext \<Rightarrow> Tables option \<Rightarrow> SqliteStore res \<times> Tables option" where
  "sqlite_open io path log_id db = sl_open_log io path log_id False db"

end
