(* ===== verification/Sql_Refines.thy ===== *)
theory Sql_Refines
  imports Sql_Rows Sqlite_Store
begin

text \<open>
  The tables implement the engine of \<^verbatim>\<open>cll/log/engine.py\<close>: \<open>sql_holds\<close> says that the rows of a log are those of an
  engine, in whatever order they were inserted, and every statement sequence of \<open>Sql_Tables\<close> answers as the engine
  does and keeps the relation, without touching the rows of another log. The witness rows come back in the order of
  their keys, so a loaded state is that of the engine up to the order of its witnesses.
\<close>

section \<open>The relation\<close>

definition sql_holds :: "pytext \<Rightarrow> Tables \<Rightarrow> Engine \<Rightarrow> bool" where
  "sql_holds log_id tb e \<longleftrightarrow>
     (let s = eg_state e in
      engine_inv e \<and> cl_size s < 2 ^ 64 \<and>
      mset (entries_of log_id tb) = mset (map (sql_entry_row log_id) (eg_entries e)) \<and>
      mset (nodes_of_log log_id tb) = mset (map (node_row log_id (cl_nodes s)) [0..<length (cl_nodes s)]) \<and>
      mset (witnesses_of log_id tb) = mset (map (the_row log_id) (cl_witnesses s)) \<and>
      (\<exists>raw. sql_metadata s = Inr raw \<and> map_of (tb_meta tb) log_id = Some raw))"

text \<open>What a write to one log leaves as it is.\<close>

definition other_logs_kept :: "pytext \<Rightarrow> Tables \<Rightarrow> Tables \<Rightarrow> bool" where
  "other_logs_kept log_id tb tb' \<longleftrightarrow>
     (\<forall>l. l \<noteq> log_id \<longrightarrow> entries_of l tb' = entries_of l tb \<and> nodes_of_log l tb' = nodes_of_log l tb \<and>
        witnesses_of l tb' = witnesses_of l tb \<and> map_of (tb_meta tb') l = map_of (tb_meta tb) l)"

lemma other_logs_hold: "other_logs_kept log_id tb tb' \<Longrightarrow> l \<noteq> log_id \<Longrightarrow> sql_holds l tb' e = sql_holds l tb e"
  by (simp add: other_logs_kept_def sql_holds_def Let_def)

lemma kept_refl [simp]: "other_logs_kept log_id tb tb"
  by (simp add: other_logs_kept_def)

lemma kept_trans: "other_logs_kept log_id a b \<Longrightarrow> other_logs_kept log_id b c \<Longrightarrow> other_logs_kept log_id a c"
  by (simp add: other_logs_kept_def)

lemma sql_holdsD:
  assumes "sql_holds log_id tb e"
  shows "engine_inv e" "entries_ok (eg_entries e)" "state_ok (eg_state e)" "index_ok e" "cl_size (eg_state e) < 2 ^ 64"
    "mset (entries_of log_id tb) = mset (map (sql_entry_row log_id) (eg_entries e))"
    "mset (nodes_of_log log_id tb) = mset (map (node_row log_id (cl_nodes (eg_state e))) [0..<length (cl_nodes (eg_state e))])"
    "mset (witnesses_of log_id tb) = mset (map (the_row log_id) (cl_witnesses (eg_state e)))"
  using assms by (simp_all add: sql_holds_def Let_def engine_inv_def)

section \<open>Entries\<close>

lemma entry_seqs: "entries_ok es \<Longrightarrow> map en_seq es = map (\<lambda>i. int i + 1) [0..<length es]"
  by (intro nth_equalityI) (simp_all add: entries_ok_def)

lemma entries_in_order:
  assumes "sql_holds log_id tb e"
  shows "sort_key er_seq (entries_of log_id tb) = map (sql_entry_row log_id) (eg_entries e)"
proof (rule sort_unique)
  have "map er_seq (map (sql_entry_row log_id) (eg_entries e)) = map (\<lambda>i. int i + 1) [0..<length (eg_entries e)]"
    using entry_seqs [OF sql_holdsD(2) [OF assms]] by (simp add: sql_entry_row_def o_def)
  moreover have "sorted (map (\<lambda>i. int i + 1) [0..<n])" "distinct (map (\<lambda>i. int i + 1) [0..<n])" for n
    by (simp_all add: sorted_iff_nth_mono distinct_map inj_on_def)
  ultimately show "sorted (map er_seq (map (sql_entry_row log_id) (eg_entries e)))" "distinct (map er_seq (map (sql_entry_row log_id) (eg_entries e)))"
    by (simp_all del: map_map)
qed (use sql_holdsD(6) [OF assms] in simp)

lemma dense_entries_ok:
  "(\<And>i. i < length es \<Longrightarrow> en_seq (es ! i) = k + int i \<and> en_seq (es ! i) \<le> MAX_PORTABLE_INTEGER \<and> length (en_value (es ! i)) = 32 \<and>
      normalize_time CorruptError (en_appended_at (es ! i)) = Inr (en_appended_at (es ! i))) \<Longrightarrow>
   sql_dense k (map (sql_entry_row log_id) es) = Inr ()"
proof (induction es arbitrary: k)
  case (Cons en es)
  have "en_seq en = k" "en_seq en \<le> MAX_PORTABLE_INTEGER" "length (en_value en) = 32"
    "normalize_time CorruptError (en_appended_at en) = Inr (en_appended_at en)"
    using Cons.prems [of 0] by simp_all
  moreover have "sql_dense (k + 1) (map (sql_entry_row log_id) es) = Inr ()"
  proof (rule Cons.IH)
    fix i assume "i < length es"
    then show "en_seq (es ! i) = k + 1 + int i \<and> en_seq (es ! i) \<le> MAX_PORTABLE_INTEGER \<and> length (en_value (es ! i)) = 32 \<and>
      normalize_time CorruptError (en_appended_at (es ! i)) = Inr (en_appended_at (es ! i))"
      using Cons.prems [of "Suc i"] by simp
  qed
  ultimately show ?case by (simp add: ENTRY_BYTES_def time_reads_back(2))
qed simp

lemma validate_entries_refines: "sql_holds log_id tb e \<Longrightarrow> sql_validate_entries log_id tb = Inr ()"
  using sql_holdsD(2) [of log_id tb e]
  by (simp add: sql_validate_entries_def entries_in_order) (rule dense_entries_ok, auto simp: entries_ok_def)

lemma find_value:
  assumes "index_ok e" "entries_ok (eg_entries e)"
  shows "List.find (\<lambda>en. en_value en = v) (eg_entries e) = map_option ((!) (eg_entries e)) (eg_by_value e v)"
proof (cases "eg_by_value e v")
  case None
  then have "v \<notin> en_value ` set (eg_entries e)"
    using assms(1) None unfolding index_ok_def by (metis image_iff in_set_conv_nth option.distinct(1))
  then show ?thesis using None by (auto simp: find_None_iff)
next
  case (Some i)
  then have i: "i < length (eg_entries e)" "en_value (eg_entries e ! i) = v" using assms(1) by (auto simp: index_ok_def)
  have "en_value (eg_entries e ! j) \<noteq> v" if "j < i" for j
    using assms(1) Some that i(1) unfolding index_ok_def by (metis less_trans nat_neq_iff option.inject)
  then have "List.find (\<lambda>en. en_value en = v) (eg_entries e) = Some (eg_entries e ! i)"
    using i by (auto simp: find_Some_iff)
  then show ?thesis using Some by simp
qed

lemma find_map: "List.find P (map f xs) = map_option f (List.find (P \<circ> f) xs)"
  by (induction xs) auto

lemma find_entry_refines:
  assumes "sql_holds log_id tb e"
  shows "find_entry log_id v tb = Inr (map_option ((!) (eg_entries e)) (eg_by_value e v))"
proof -
  note h = sql_holdsD [OF assms]
  have "List.find (\<lambda>r. er_value r = v) (entries_of log_id tb) = List.find (\<lambda>r. er_value r = v) (map (sql_entry_row log_id) (eg_entries e))"
  proof (rule find_mset [OF h(6)])
    have "inj_on en_value (set (eg_entries e))" using h(2) by (simp add: entries_ok_def distinct_map)
    then show "x = y" if "x \<in> set (map (sql_entry_row log_id) (eg_entries e))" "y \<in> set (map (sql_entry_row log_id) (eg_entries e))"
      "er_value x = v" "er_value y = v" for x y
      using that by (auto dest: inj_onD)
  qed
  also have "\<dots> = map_option (sql_entry_row log_id) (map_option ((!) (eg_entries e)) (eg_by_value e v))"
    using find_value [OF h(4,2), of v] by (simp add: find_map o_def sql_entry_row_def)
  finally have f: "List.find (\<lambda>r. er_value r = v) (entries_of log_id tb) = map_option (\<lambda>i. sql_entry_row log_id (eg_entries e ! i)) (eg_by_value e v)"
    by (simp add: option.map_comp o_def)
  show ?thesis
  proof (cases "eg_by_value e v")
    case (Some i)
    then have "eg_entries e ! i \<in> set (eg_entries e)" using h(4) by (auto simp: index_ok_def)
    then show ?thesis using f Some entry_row_reads_back [OF h(2)] by (simp add: find_entry_def)
  qed (simp add: find_entry_def f)
qed

lemma max_seq_refines:
  assumes "sql_holds log_id tb e"
  shows "sql_max_seq log_id tb = (if eg_entries e = [] then None else Some (int (length (eg_entries e))))"
proof -
  note h = sql_holdsD [OF assms]
  have set: "set (map er_seq (entries_of log_id tb)) = (\<lambda>i. int i + 1) ` {0..<length (eg_entries e)}"
  proof -
    have "set (map er_seq (entries_of log_id tb)) = set (map en_seq (eg_entries e))"
      using mset_eq_setD [OF h(6)] by (simp add: image_image)
    then show ?thesis using entry_seqs [OF h(2)] by simp
  qed
  show ?thesis
  proof (cases "map er_seq (entries_of log_id tb)")
    case Nil
    then show ?thesis using set by (simp add: sql_max_seq_def)
  next
    case (Cons s ss)
    have "fold max ss s = Max ((\<lambda>i. int i + 1) ` {0..<length (eg_entries e)})"
      using Max.set_eq_fold [of s ss] set Cons by simp
    moreover have ne: "eg_entries e \<noteq> []" using set Cons by auto
    moreover have "Max ((\<lambda>i. int i + 1) ` {0..<length (eg_entries e)}) = int (length (eg_entries e))"
    proof (rule Max_eqI)
      show "int (length (eg_entries e)) \<in> (\<lambda>i. int i + 1) ` {0..<length (eg_entries e)}"
        using ne by (intro image_eqI [of _ _ "length (eg_entries e) - 1"]) (simp_all add: Suc_le_eq of_nat_diff)
    qed auto
    ultimately show ?thesis using Cons by (simp add: sql_max_seq_def)
  qed
qed

lemma sql_append_refines:
  assumes "sql_holds log_id tb e"
  shows "case eg_append e inp of Inl err \<Rightarrow> sql_append log_id inp lock tb = Inl err
    | Inr (r, e') \<Rightarrow> \<exists>tb'. sql_append log_id inp lock tb = Inr (r, tb') \<and> sql_holds log_id tb' e' \<and> other_logs_kept log_id tb tb'"
proof (cases "check_append inp")
  case (Inl err)
  then show ?thesis by (simp add: eg_append_def sql_append_def)
next
  case (Inr p)
  obtain v t where p: "p = (v, t)" by (cases p)
  note h = sql_holdsD [OF assms]
  have meta: "map_of (tb_meta tb) log_id \<noteq> None" using assms by (auto simp: sql_holds_def Let_def)
  note f = find_entry_refines [OF assms, of v] and m = max_seq_refines [OF assms]
  let ?n = "int (length (eg_entries e)) + 1"
  have seq: "(case sql_max_seq log_id tb of None \<Rightarrow> 1 | Some m \<Rightarrow> m + 1) = ?n" by (simp add: m)
  show ?thesis
  proof (cases "eg_by_value e v")
    case (Some i)
    then show ?thesis using Inr p meta f assms by (simp add: eg_append_def sql_append_def)
  next
    case None
    show ?thesis
    proof (cases "?n > MAX_PORTABLE_INTEGER")
      case True
      then show ?thesis using Inr p meta f None seq by (simp add: eg_append_def sql_append_def Let_def)
    next
      case False
      let ?en = "\<lparr>en_seq = ?n, en_value = v, en_appended_at = t\<rparr>"
      let ?e = "e\<lparr>eg_entries := eg_entries e @ [?en], eg_by_value := (eg_by_value e)(v \<mapsto> length (eg_entries e))\<rparr>"
      let ?tb = "tb\<lparr>tb_entries := tb_entries tb @ [sql_entry_row log_id ?en]\<rparr>"
      have a: "eg_append e inp = Inr (\<lparr>ar_entry = ?en, ar_outcome = INSERTED\<rparr>, ?e)"
        using Inr p None False by (simp add: eg_append_def Let_def)
      have t: "normalize_time CorruptError t = Inr t"
        using Inr p by (auto simp: check_append_eq dest: normalize_time_idem)
      have "er_seq q \<noteq> ?n \<and> er_value q \<noteq> v" if q: "q \<in> set (entries_of log_id tb)" for q
      proof -
        obtain en where "en \<in> set (eg_entries e)" "q = sql_entry_row log_id en" using q mset_eq_setD [OF h(6)] by auto
        then obtain i where i: "i < length (eg_entries e)" "q = sql_entry_row log_id (eg_entries e ! i)" by (auto simp: in_set_conv_nth)
        moreover have "en_value (eg_entries e ! i) \<noteq> v" using None h(4) i(1) unfolding index_ok_def by (metis option.distinct(1))
        ultimately show ?thesis using h(2) by (simp add: entries_ok_def)
      qed
      then have "insert_entry (sql_entry_row log_id ?en) tb = Inr ?tb" by (auto simp: insert_entry_def sql_entry_row_def)
      then have s: "sql_append log_id inp lock tb = Inr (\<lparr>ar_entry = ?en, ar_outcome = INSERTED\<rparr>, ?tb)"
        using Inr p meta f None seq False time_reads_back(1) [OF t] by (simp add: sql_append_def Let_def sql_entry_row_def)
      have rows: "entries_of l ?tb = entries_of l tb @ (if l = log_id then [sql_entry_row log_id ?en] else [])" for l
        by (simp add: entries_of_def sql_entry_row_def)
      have same: "nodes_of_log l ?tb = nodes_of_log l tb" "witnesses_of l ?tb = witnesses_of l tb" for l
        by (simp_all add: nodes_of_log_def witnesses_of_def)
      have "engine_inv ?e" using eg_append_ok [OF h(1) a] by simp
      then have "sql_holds log_id ?tb ?e" using assms by (simp add: sql_holds_def Let_def rows same)
      moreover have "other_logs_kept log_id tb ?tb" by (simp add: other_logs_kept_def rows same)
      ultimately show ?thesis using a s by simp
    qed
  qed
qed

lemma sql_get_entry_refines: "sql_holds log_id tb e \<Longrightarrow> sql_get_entry log_id v tb = eg_get_entry e v"
  by (cases "check_value v") (auto simp: sql_get_entry_def eg_get_entry_def find_entry_refines split: option.split)

lemma sql_entry_count_refines:
  "sql_holds log_id tb e \<Longrightarrow> sql_entry_count log_id tb = Inr (int (length (eg_entries e)))"
  using sql_holdsD(2) [of log_id tb e] by (cases "eg_entries e") (auto simp: sql_entry_count_def max_seq_refines entries_ok_def)

lemma sql_scan_refines:
  assumes "sql_holds log_id tb e"
  shows "sql_scan_entries log_id a n tb = eg_scan_entries e a n"
proof (cases "check_scan a n")
  case (Inr u)
  then have a: "0 \<le> a" by (auto simp: check_scan_def split: if_splits)
  note h = sql_holdsD [OF assms]
  let ?es = "eg_entries e"
  have "sort_key er_seq (filter (\<lambda>r. er_seq r > a) (entries_of log_id tb)) = filter (\<lambda>r. er_seq r > a) (map (sql_entry_row log_id) ?es)"
    by (simp add: entries_in_order [OF assms, symmetric] filter_sort)
  also have "\<dots> = map (sql_entry_row log_id) (filter (\<lambda>en. en_seq en > a) ?es)"
    by (simp add: filter_map o_def sql_entry_row_def)
  also have "filter (\<lambda>en. en_seq en > a) ?es = drop (nat a) ?es"
  proof -
    have "filter (\<lambda>en. en_seq en > a) (take (nat a) ?es) = []"
      using h(2) a by (auto simp: filter_empty_conv entries_ok_def in_set_conv_nth)
    moreover have "filter (\<lambda>en. en_seq en > a) (drop (nat a) ?es) = drop (nat a) ?es"
      using h(2) a by (intro filter_True) (auto simp: entries_ok_def in_set_conv_nth)
    ultimately show ?thesis by (metis append_Nil append_take_drop_id filter_append)
  qed
  finally have "sql_scan_entries log_id a n tb = mapR entry_from_row (map (sql_entry_row log_id) (take (nat n) (drop (nat a) ?es)))"
    using Inr by (simp add: sql_scan_entries_def take_map)
  also have "\<dots> = Inr (take (nat n) (drop (nat a) ?es))"
  proof -
    have "mapR entry_from_row (map (sql_entry_row log_id) es) = Inr es" if "set es \<subseteq> set ?es" for es
      using that by (induction es) (auto simp: entry_row_reads_back [OF h(2)])
    then show ?thesis by (meson order_trans set_drop_subset set_take_subset)
  qed
  finally show ?thesis using Inr by (simp add: eg_scan_entries_def)
qed (simp add: sql_scan_entries_def eg_scan_entries_def)

end
