(* ===== verification/Sql_State.thy ===== *)
theory Sql_State
  imports Sql_Refines
begin

text \<open>
  The checkpoint state in the tables: loading it gives the state of the engine with its witness rows in another
  order, and a commit applied to that state writes what the engine's commit leaves.
\<close>

section \<open>Loading\<close>

lemma load_witnesses_refines:
  assumes "sql_holds log_id tb e"
  shows "\<exists>ws. load_witnesses log_id w tb = Inr ws \<and>
    mset ws = mset (filter (\<lambda>row. case w of None \<Rightarrow> True | Some i \<Rightarrow> ws_witness_id row = i) (cl_witnesses (eg_state e)))"
proof -
  note h = sql_holdsD [OF assms]
  let ?P = "\<lambda>r. case w of None \<Rightarrow> True | Some i \<Rightarrow> wt_witness_id r = i"
  let ?Q = "\<lambda>row. case w of None \<Rightarrow> True | Some i \<Rightarrow> ws_witness_id row = i"
  let ?ws = "filter ?Q (cl_witnesses (eg_state e))"
  let ?rows = "sort_key (\<lambda>r. (wt_checkpoint_size r, wt_witness_id r)) (filter ?P (witnesses_of log_id tb))"
  have ok: "witness_ok row" if "row \<in> set (cl_witnesses (eg_state e))" for row using h(3) that by (simp add: state_ok_def)
  have "filter ?P (map (the_row log_id) (cl_witnesses (eg_state e))) = map (the_row log_id) (filter (?P \<circ> the_row log_id) (cl_witnesses (eg_state e)))"
    by (simp add: filter_map)
  also have "filter (?P \<circ> the_row log_id) (cl_witnesses (eg_state e)) = ?ws"
    using witness_row_reads_back(4) [OF ok] by (intro filter_cong) (auto split: option.split)
  finally have f: "filter ?P (map (the_row log_id) (cl_witnesses (eg_state e))) = map (the_row log_id) ?ws" .
  have "mset ?rows = filter_mset ?P (mset (witnesses_of log_id tb))" by (simp only: mset_sort mset_filter)
  also have "\<dots> = mset (map (the_row log_id) ?ws)" by (simp only: h(8) f mset_filter [symmetric])
  finally have m: "mset ?rows = mset (map (the_row log_id) ?ws)" .
  have "witness_from_row (the_row log_id row) = Inr row" if "row \<in> set ?ws" for row
    using that by (intro witness_row_reads_back(2) ok) simp
  from mapR_mset [OF m this] obtain ws where ws: "mapR witness_from_row ?rows = Inr ws" "mset ws = mset ?ws" by blast
  have "distinct (map witness_key ?ws)" using h(3) by (simp add: state_ok_def distinct_map_filter)
  then have "distinct (map witness_key ws)" using ws(2) by (metis mset_eq_imp_distinct_iff mset_map)
  then show ?thesis using ws by (simp add: load_witnesses_def)
qed

lemma dense_nodes_ok:
  "k \<le> n \<Longrightarrow> n \<le> length nodes \<Longrightarrow> \<forall>x\<in>set nodes. length x = 32 \<Longrightarrow>
     dense_nodes (int k) (map (node_row log_id nodes) [k..<n]) = Inr (map (\<lambda>n. JStr (encode_bytes n)) (drop k (take n nodes)))"
proof (induction "n - k" arbitrary: k)
  case (Suc d)
  then have k: "k < n" "n - Suc k = d" by simp_all
  moreover have "dense_nodes (int (Suc k)) (map (node_row log_id nodes) [Suc k..<n]) = Inr (map (\<lambda>n. JStr (encode_bytes n)) (drop (Suc k) (take n nodes)))"
    using Suc k by (intro Suc.hyps(1)) auto
  moreover have "drop k (take n nodes) = nodes ! k # drop (Suc k) (take n nodes)"
    using k(1) Suc.prems(2) by (simp add: Cons_nth_drop_Suc [symmetric])
  ultimately show ?case using Suc.prems by (simp add: upt_conv_Cons node_row_def ENTRY_BYTES_def add.commute)
qed simp

lemma nodes_in_order:
  assumes "sql_holds log_id tb e"
  shows "dense_nodes 0 (sort_key nr_position (nodes_of_log log_id tb)) = Inr (map (\<lambda>n. JStr (encode_bytes n)) (cl_nodes (eg_state e)))"
proof -
  note h = sql_holdsD [OF assms]
  let ?ns = "cl_nodes (eg_state e)"
  have "sort_key nr_position (nodes_of_log log_id tb) = map (node_row log_id ?ns) [0..<length ?ns]"
    using h(7) by (intro sort_unique) (simp_all add: node_row_def o_def sorted_iff_nth_mono distinct_map inj_on_def)
  then show ?thesis using dense_nodes_ok [of 0 "length ?ns" ?ns log_id] h(3) by (simp add: state_ok_def)
qed

text \<open>Two states that differ in the order of their witness rows.\<close>

definition alike :: "CllState \<Rightarrow> CllState \<Rightarrow> bool" where
  "alike s s' \<longleftrightarrow> s\<lparr>cl_witnesses := []\<rparr> = s'\<lparr>cl_witnesses := []\<rparr> \<and> mset (cl_witnesses s) = mset (cl_witnesses s')"

lemma alike_upd: "mset ws = mset (cl_witnesses s) \<Longrightarrow> alike s (s\<lparr>cl_witnesses := ws\<rparr>)"
  by (simp add: alike_def)

lemma state_ok_perm:
  assumes "state_ok s" "mset ws = mset (cl_witnesses s)"
  shows "state_ok (s\<lparr>cl_witnesses := ws\<rparr>)"
proof -
  have "set ws = set (cl_witnesses s)" "distinct (map witness_key ws)"
    using assms by (auto simp: state_ok_def dest: mset_eq_setD) (metis mset_eq_imp_distinct_iff mset_map)
  moreover have "checkpoint_ok (s\<lparr>cl_witnesses := ws\<rparr>) = checkpoint_ok s" by (rule checkpoint_ok_cong) simp_all
  ultimately show ?thesis using assms(1) unfolding state_ok_def by (elim conjE) simp
qed

lemma load_state_refines:
  assumes "sql_holds log_id tb e"
  shows "\<exists>ws. sql_load_state log_id tb = Inr (eg_state e\<lparr>cl_witnesses := ws\<rparr>) \<and> mset ws = mset (cl_witnesses (eg_state e))"
proof -
  note h = sql_holdsD [OF assms]
  obtain ws where ws: "load_witnesses log_id None tb = Inr ws" "mset ws = mset (cl_witnesses (eg_state e))"
    using load_witnesses_refines [OF assms, of None] by auto
  obtain raw ms where raw: "sql_metadata (eg_state e) = Inr raw" "sql_json raw = Inr (JObj ms)"
    and st: "state_from_wire CorruptError (JObj (dict_insert (text_of ''witnesses'') (JArr [])
      (dict_insert (text_of ''nodes'') (JArr (map (\<lambda>n. JStr (encode_bytes n)) (cl_nodes (eg_state e)))) ms))) = Inr (eg_state e\<lparr>cl_witnesses := []\<rparr>)"
    using metadata_reads_back [OF h(3,5)] by blast
  have "map_of (tb_meta tb) log_id = Some raw" using assms raw(1) by (auto simp: sql_holds_def Let_def)
  then have "sql_load_state log_id tb = validate_state CorruptError (eg_state e\<lparr>cl_witnesses := ws\<rparr>)"
    using raw(2) st ws(1) nodes_in_order [OF assms] by (simp add: sql_load_state_def)
  then show ?thesis using ws(2) validate_state_id [OF state_ok_perm [OF h(3) ws(2)]] by auto
qed

section \<open>Committing the state\<close>

lemma existing_rows_perm:
  assumes "mset ws = mset rows" "distinct (map witness_key rows)"
  shows "existing_rows ws = existing_rows rows"
proof -
  have d: "distinct (map witness_key ws)" using assms by (metis mset_eq_imp_distinct_iff mset_map)
  have "set ws = set rows" using assms(1) by (rule mset_eq_setD)
  then show ?thesis
    unfolding existing_rows_def using d assms(2)
    by (intro map_of_inject_set [THEN iffD2]) (auto simp: rev_map [symmetric] o_def)
qed

lemma apply_cll_perm:
  assumes "state_ok cur" "mset ws = mset (cl_witnesses cur)"
  shows "apply_cll (cur\<lparr>cl_witnesses := ws\<rparr>) es ec nxt =
    bindR (apply_cll cur es ec nxt) (\<lambda>s. Inr (s\<lparr>cl_witnesses := ws @ drop (length (cl_witnesses cur)) (cl_witnesses s)\<rparr>))"
proof -
  have ex: "existing_rows ws = existing_rows (cl_witnesses cur)"
    using assms by (intro existing_rows_perm) (simp_all add: state_ok_def)
  show ?thesis
    by (simp add: apply_cll_def check_expected_def added_witnesses_def ex bindR_assoc if_distrib [of "\<lambda>m. bindR m _"] cong: if_cong)
qed

lemma insert_nodes:
  "list_all (\<lambda>r. nr_log_id r = log_id) rs \<Longrightarrow> distinct (map nr_position rs) \<Longrightarrow>
     nr_position ` set rs \<inter> nr_position ` set (nodes_of_log log_id tb) = {} \<Longrightarrow>
     foldR insert_node tb rs = Inr (tb\<lparr>tb_nodes := tb_nodes tb @ rs\<rparr>)"
proof (induction rs arbitrary: tb)
  case (Cons r rs)
  let ?tb = "tb\<lparr>tb_nodes := tb_nodes tb @ [r]\<rparr>"
  have "nr_position q \<noteq> nr_position r" if "q \<in> set (nodes_of_log log_id tb)" for q
    using Cons.prems(3) imageI [OF that, of nr_position] by auto
  moreover have l: "nr_log_id r = log_id" using Cons.prems(1) by simp
  ultimately have i: "insert_node tb r = Inr ?tb" unfolding insert_node_def by (metis (no_types, lifting))
  have n: "nodes_of_log log_id ?tb = nodes_of_log log_id tb @ [r]" by (simp add: nodes_of_log_def l)
  have "foldR insert_node ?tb rs = Inr (?tb\<lparr>tb_nodes := tb_nodes ?tb @ rs\<rparr>)"
  proof (rule Cons.IH)
    show "nr_position ` set rs \<inter> nr_position ` set (nodes_of_log log_id ?tb) = {}"
      using Cons.prems(2,3) unfolding n by auto
  qed (use Cons.prems in simp_all)
  then show ?case using i by simp
qed simp

lemma dec_text_inject: "0 \<le> m \<Longrightarrow> m < 2 ^ 64 \<Longrightarrow> 0 \<le> n \<Longrightarrow> n < 2 ^ 64 \<Longrightarrow> dec_text m = dec_text n \<longleftrightarrow> m = n"
  by (metis format_decimal_def old.sum.inject(2) parse_format_decimal)

lemma row_key_inject:
  assumes "witness_ok v" "witness_ok w"
  shows "wt_witness_id (the_row l v) = wt_witness_id (the_row l w) \<and> wt_checkpoint_size (the_row l v) = wt_checkpoint_size (the_row l w)
    \<longleftrightarrow> witness_key v = witness_key w"
  using witness_row_reads_back(4,5) assms witness_okE(1,2) [OF assms(1)] witness_okE(1,2) [OF assms(2)]
  by (auto simp: witness_key_def dec_text_inject)

lemma insert_witnesses:
  "\<forall>w\<in>set (old @ ws). witness_ok w \<Longrightarrow> distinct (map witness_key (old @ ws)) \<Longrightarrow>
     mset (witnesses_of log_id tb) = mset (map (the_row log_id) old) \<Longrightarrow>
     foldR (\<lambda>tb row. bindR (sql_witness_row log_id row) (insert_witness tb)) tb ws =
       Inr (tb\<lparr>tb_witnesses := tb_witnesses tb @ map (the_row log_id) ws\<rparr>)"
proof (induction ws arbitrary: tb old)
  case (Cons w ws)
  let ?tb = "tb\<lparr>tb_witnesses := tb_witnesses tb @ [the_row log_id w]\<rparr>"
  have ok: "witness_ok w" using Cons.prems(1) by simp
  note r = witness_row_reads_back [OF ok, of log_id]
  have "\<not> (wt_witness_id q = wt_witness_id (the_row log_id w) \<and> wt_checkpoint_size q = wt_checkpoint_size (the_row log_id w))"
    if q: "q \<in> set (witnesses_of log_id tb)" for q
  proof -
    obtain v where v: "v \<in> set old" "q = the_row log_id v" using q mset_eq_setD [OF Cons.prems(3)] by auto
    have "witness_key v \<noteq> witness_key w" using imageI [OF v(1), of witness_key] Cons.prems(2) by auto
    moreover have "witness_ok v" using v(1) Cons.prems(1) by simp
    ultimately show ?thesis using row_key_inject [of v w log_id] ok v(2) by simp
  qed
  then have "insert_witness tb (the_row log_id w) = Inr ?tb" using r(3) by (auto simp: insert_witness_def)
  moreover have "witnesses_of log_id ?tb = witnesses_of log_id tb @ [the_row log_id w]" using r(3) by (simp add: witnesses_of_def)
  then have "mset (witnesses_of log_id ?tb) = mset (map (the_row log_id) (old @ [w]))" using Cons.prems(3) by simp
  then have "foldR (\<lambda>tb row. bindR (sql_witness_row log_id row) (insert_witness tb)) ?tb ws =
      Inr (?tb\<lparr>tb_witnesses := tb_witnesses ?tb @ map (the_row log_id) ws\<rparr>)"
    using Cons.prems(1,2) by (intro Cons.IH [of "old @ [w]"]) auto
  ultimately show ?case using r(1) by simp
qed simp

text \<open>What a commit writes: the metadata, nodes and witness rows behind those stored.\<close>

definition write_rows :: "pytext \<Rightarrow> bytes \<Rightarrow> NodeRow list \<Rightarrow> WitnessRow list \<Rightarrow> Tables \<Rightarrow> Tables" where
  "write_rows log_id raw ns ws tb =
     (update_meta log_id raw tb)\<lparr>tb_nodes := tb_nodes tb @ ns, tb_witnesses := tb_witnesses tb @ ws\<rparr>"

lemma write_rows_meta:
  "map_of (tb_meta (write_rows log_id raw ns ws tb)) l = (if l = log_id \<and> map_of (tb_meta tb) l \<noteq> None then Some raw else map_of (tb_meta tb) l)"
proof -
  have "map_of (map (\<lambda>(l, b). (l, if l = log_id then raw else b)) xs) l = (if l = log_id \<and> map_of xs l \<noteq> None then Some raw else map_of xs l)" for xs
    by (induction xs) auto
  then show ?thesis by (simp add: write_rows_def update_meta_def)
qed

lemma write_rows_tables:
  assumes "list_all (\<lambda>r. nr_log_id r = log_id) ns" "list_all (\<lambda>r. wt_log_id r = log_id) ws"
  shows "entries_of l (write_rows log_id raw ns ws tb) = entries_of l tb"
    "nodes_of_log l (write_rows log_id raw ns ws tb) = nodes_of_log l tb @ (if l = log_id then ns else [])"
    "witnesses_of l (write_rows log_id raw ns ws tb) = witnesses_of l tb @ (if l = log_id then ws else [])"
  using assms
  by (auto simp: write_rows_def update_meta_def entries_of_def nodes_of_log_def witnesses_of_def list_all_iff filter_empty_conv intro!: filter_True)

lemma write_rows_done:
  assumes "state_ok s" "mset (nodes_of_log log_id tb) = mset (map (node_row log_id ns) [0..<length ns])"
    "mset (witnesses_of log_id tb) = mset (map (the_row log_id) old)" "cl_witnesses s = old @ added"
  shows "bindR (foldR insert_node (update_meta log_id raw tb) (map (node_row log_id (cl_nodes s)) [length ns..<length (cl_nodes s)]))
      (\<lambda>tb. foldR (\<lambda>tb row. bindR (sql_witness_row log_id row) (insert_witness tb)) tb added)
    = Inr (write_rows log_id raw (map (node_row log_id (cl_nodes s)) [length ns..<length (cl_nodes s)]) (map (the_row log_id) added) tb)"
proof -
  let ?tb = "update_meta log_id raw tb"
  let ?rs = "map (node_row log_id (cl_nodes s)) [length ns..<length (cl_nodes s)]"
  have pos: "nr_position ` set (nodes_of_log log_id ?tb) = int ` {0..<length ns}"
    using mset_eq_setD [OF assms(2)] by (simp add: nodes_of_log_def update_meta_def node_row_def image_image)
  have "foldR insert_node ?tb ?rs = Inr (?tb\<lparr>tb_nodes := tb_nodes ?tb @ ?rs\<rparr>)"
  proof (rule insert_nodes)
    show "nr_position ` set ?rs \<inter> nr_position ` set (nodes_of_log log_id ?tb) = {}"
      unfolding pos by (auto simp: node_row_def)
  qed (simp_all add: node_row_def list_all_iff distinct_map inj_on_def)
  moreover have "mset (witnesses_of log_id (?tb\<lparr>tb_nodes := tb_nodes ?tb @ ?rs\<rparr>)) = mset (map (the_row log_id) old)"
    using assms(3) by (simp add: witnesses_of_def update_meta_def)
  then have "foldR (\<lambda>tb row. bindR (sql_witness_row log_id row) (insert_witness tb)) (?tb\<lparr>tb_nodes := tb_nodes ?tb @ ?rs\<rparr>) added =
      Inr (?tb\<lparr>tb_nodes := tb_nodes ?tb @ ?rs, tb_witnesses := tb_witnesses ?tb @ map (the_row log_id) added\<rparr>)"
    using insert_witnesses [of old added log_id "?tb\<lparr>tb_nodes := tb_nodes ?tb @ ?rs\<rparr>"] assms(1,4) by (simp add: state_ok_def)
  ultimately show ?thesis by (simp add: write_rows_def update_meta_def)
qed

lemma write_rows_holds:
  assumes "sql_holds log_id tb e" "engine_inv (e\<lparr>eg_state := s\<rparr>)" "cl_size s < 2 ^ 64" "sql_metadata s = Inr raw"
    "cl_nodes s = cl_nodes (eg_state e) @ new" "cl_witnesses s = cl_witnesses (eg_state e) @ added"
  defines "ns \<equiv> map (node_row log_id (cl_nodes s)) [length (cl_nodes (eg_state e))..<length (cl_nodes s)]"
  defines "tb' \<equiv> write_rows log_id raw ns (map (the_row log_id) added) tb"
  shows "sql_holds log_id tb' (e\<lparr>eg_state := s\<rparr>)" "other_logs_kept log_id tb tb'"
proof -
  note h = sql_holdsD [OF assms(1)]
  let ?n = "length (cl_nodes (eg_state e))" and ?m = "length (cl_nodes s)"
  have n: "list_all (\<lambda>r. nr_log_id r = log_id) ns" by (simp add: ns_def node_row_def list_all_iff)
  have w: "list_all (\<lambda>r. wt_log_id r = log_id) (map (the_row log_id) added)"
    using assms(2,6) witness_row_reads_back(3) by (auto simp: list_all_iff engine_inv_def state_ok_def)
  note rows = write_rows_tables [OF n w, of _ raw tb, folded tb'_def]
  have "map (node_row log_id (cl_nodes (eg_state e))) [0..<?n] = map (node_row log_id (cl_nodes s)) [0..<?n]"
    by (simp add: node_row_def assms(5) nth_append)
  moreover have "[0..<?m] = [0..<?n] @ [?n..<?m]"
    using upt_add_eq_append [of 0 ?n "length new"] by (simp only: assms(5) length_append le0)
  ultimately have nodes: "map (node_row log_id (cl_nodes (eg_state e))) [0..<?n] @ ns = map (node_row log_id (cl_nodes s)) [0..<?m]"
    by (simp add: ns_def)
  have "mset (nodes_of_log log_id tb') = mset (map (node_row log_id (cl_nodes s)) [0..<?m])"
    using h(7) by (simp only: rows nodes [symmetric] mset_append simp_thms if_True)
  moreover have "mset (witnesses_of log_id tb') = mset (map (the_row log_id) (cl_witnesses s))"
    using h(8) by (simp only: rows assms(6) map_append mset_append simp_thms if_True)
  moreover have "map_of (tb_meta tb') log_id = Some raw"
    using assms(1) by (auto simp: tb'_def write_rows_meta sql_holds_def Let_def)
  ultimately show "sql_holds log_id tb' (e\<lparr>eg_state := s\<rparr>)"
    using assms(2-4) h(6) by (simp add: sql_holds_def rows)
  have "map_of (tb_meta tb') l = (if l = log_id \<and> map_of (tb_meta tb) l \<noteq> None then Some raw else map_of (tb_meta tb) l)" for l
    by (simp add: tb'_def write_rows_meta)
  then show "other_logs_kept log_id tb tb'" by (simp add: other_logs_kept_def rows)
qed

lemma sql_commit_cll_refines:
  assumes "sql_holds log_id tb e" "cl_size nxt < 2 ^ 64"
  shows "case eg_commit_cll e es ec nxt of Inl err \<Rightarrow> sql_commit_cll log_id es ec nxt tb = Inl err
    | Inr e' \<Rightarrow> \<exists>tb'. sql_commit_cll log_id es ec nxt tb = Inr tb' \<and> sql_holds log_id tb' e' \<and> other_logs_kept log_id tb tb'"
proof -
  note h = sql_holdsD [OF assms(1)]
  let ?s = "eg_state e"
  obtain ws where ws: "sql_load_state log_id tb = Inr (?s\<lparr>cl_witnesses := ws\<rparr>)" "mset ws = mset (cl_witnesses ?s)"
    using load_state_refines [OF assms(1)] by blast
  note p = apply_cll_perm [OF h(3) ws(2), of es ec nxt]
  show ?thesis
  proof (cases "apply_cll ?s es ec nxt")
    case (Inl err)
    then show ?thesis using ws(1) p by (simp add: eg_commit_cll_def sql_commit_cll_def)
  next
    case (Inr s)
    note ok = apply_cll_ok [OF h(3) Inr]
    obtain added where added: "cl_witnesses s = cl_witnesses ?s @ added" using ok(7) by blast
    obtain new where new: "cl_nodes s = cl_nodes ?s @ new" using ok(2) by (auto simp: cll_le_def)
    have "cl_size s = cl_size nxt"
      using Inr by (auto simp: apply_cll_def bindR_eq_Inr dest!: validate_state_ok(2) split: if_splits)
    then have small: "cl_size s < 2 ^ 64" using assms(2) by simp
    obtain raw where raw: "sql_metadata s = Inr raw" using metadata_reads_back [OF ok(1) small] by blast
    have raw': "sql_metadata (s\<lparr>cl_witnesses := ws @ added\<rparr>) = Inr raw" using raw by (simp add: sql_metadata_def)
    have e: "eg_commit_cll e es ec nxt = Inr (e\<lparr>eg_state := s\<rparr>)" using Inr by (simp add: eg_commit_cll_def)
    have inv: "engine_inv (e\<lparr>eg_state := s\<rparr>)" using eg_commit_cll_ok [OF h(1) e] by simp
    have "sql_commit_cll log_id es ec nxt tb = Inr (write_rows log_id raw
        (map (node_row log_id (cl_nodes s)) [length (cl_nodes ?s)..<length (cl_nodes s)]) (map (the_row log_id) added) tb)"
      using ws(1) p Inr raw' mset_eq_length [OF ws(2)] write_rows_done [OF ok(1) h(7,8) added, of raw]
      by (simp add: sql_commit_cll_def added)
    then show ?thesis
      using write_rows_holds [OF assms(1) inv small raw new added] by (simp add: e)
  qed
qed

end
