(* ===== verification/Sql_Witnesses.thy ===== *)
theory Sql_Witnesses
  imports Sql_State
begin

text \<open>
  Witness rows in the tables: what is pending, a row by its key, and the compare-and-set whose \<^verbatim>\<open>UPDATE\<close> matches
  the expected attempts. Each answers as the engine does, whose rows are in another order.
\<close>

section \<open>Pending rows\<close>

lemma low_utf8: "list_all (\<lambda>c. c < 128) t \<Longrightarrow> utf8_encode t = Some t"
  by (induction t) (simp_all add: utf8_char_def)

lemma identifier_low: "validate_identifier t \<Longrightarrow> list_all (\<lambda>c. c < 128) t"
  unfolding validate_identifier_def by (elim conjE, erule list.pred_mono_strong) (auto simp: identifier_char_def text_of_def)

lemma pending_key_eq: "witness_ok w \<Longrightarrow> pending_key w = (ws_checkpoint_size w, ws_witness_id w)"
  using low_utf8 [OF identifier_low [OF witness_ok_fields(1)], of w] by (simp add: pending_key_def)

lemma pending_perm:
  assumes "mset ws = mset (filter P rows)" "\<forall>w\<in>set rows. witness_ok w" "distinct (map witness_key rows)"
    "\<And>w. w \<in> set rows \<Longrightarrow> due now i w \<Longrightarrow> P w"
  shows "pending ws now n i = pending rows now n i"
proof -
  have m: "mset (filter (due now i) ws) = mset (filter (due now i) rows)"
  proof -
    have "mset (filter (due now i) ws) = mset (filter (due now i) (filter P rows))" using assms(1) by (metis mset_filter)
    moreover have "filter (due now i) (filter P rows) = filter (due now i) rows"
      using assms(4) by (simp add: filter_filter) (rule filter_cong, auto)
    ultimately show ?thesis by (simp only:)
  qed
  have "inj_on pending_key (set rows)"
  proof (rule inj_onI)
    fix v w assume v: "v \<in> set rows" "w \<in> set rows" "pending_key v = pending_key w"
    then have "witness_key v = witness_key w" using assms(2) by (simp add: pending_key_eq witness_key_def)
    then show "v = w" using v assms(3) by (simp add: distinct_map inj_on_def)
  qed
  then have "inj_on pending_key (set (filter (due now i) rows))" by (rule inj_on_subset) auto
  moreover have "distinct (filter (due now i) rows)" using assms(3) by (simp add: distinct_map)
  ultimately show ?thesis using sort_key_mset [OF m, of pending_key] by (simp add: pending_def)
qed

lemma sql_pending_refines:
  assumes "sql_holds log_id tb e"
  shows "sql_pending_witnesses log_id now n tb = eg_pending_witnesses e now n"
    "sql_pending_witnesses_for log_id i now n tb = eg_pending_witnesses_for e i now n"
proof -
  have ok: "\<forall>w\<in>set (cl_witnesses (eg_state e)). witness_ok w" "distinct (map witness_key (cl_witnesses (eg_state e)))"
    using sql_holdsD(3) [OF assms] by (simp_all add: state_ok_def)
  obtain ws where ws: "load_witnesses log_id None tb = Inr ws" "mset ws = mset (filter (\<lambda>_. True) (cl_witnesses (eg_state e)))"
    using load_witnesses_refines [OF assms, of None] by auto
  obtain vs where vs: "load_witnesses log_id (Some i) tb = Inr vs"
    "mset vs = mset (filter (\<lambda>row. ws_witness_id row = i) (cl_witnesses (eg_state e)))"
    using load_witnesses_refines [OF assms, of "Some i"] by auto
  show "sql_pending_witnesses log_id now n tb = eg_pending_witnesses e now n"
    using ws(1) pending_perm [OF ws(2) ok] by (simp add: sql_pending_witnesses_def eg_pending_witnesses_def)
  have "pending vs t n (Some i) = pending (cl_witnesses (eg_state e)) t n (Some i)" for t
    using vs(2) ok by (rule pending_perm) (simp add: due_def)
  then show "sql_pending_witnesses_for log_id i now n tb = eg_pending_witnesses_for e i now n"
    using vs(1) by (simp add: sql_pending_witnesses_for_def eg_pending_witnesses_for_def)
qed

section \<open>A row by its key\<close>

lemma find_witness_row:
  assumes "sql_holds log_id tb e" "0 < n" "n < 2 ^ 64"
  shows "List.find (\<lambda>r. wt_witness_id r = i \<and> wt_checkpoint_size r = dec_text n) (witnesses_of log_id tb) =
    map_option (the_row log_id) (List.find (\<lambda>row. ws_witness_id row = i \<and> ws_checkpoint_size row = n) (cl_witnesses (eg_state e)))"
proof -
  note h = sql_holdsD [OF assms(1)]
  let ?P = "\<lambda>r. wt_witness_id r = i \<and> wt_checkpoint_size r = dec_text n"
  let ?rows = "cl_witnesses (eg_state e)"
  have ok: "\<forall>w\<in>set ?rows. witness_ok w" "distinct (map witness_key ?rows)" using h(3) by (simp_all add: state_ok_def)
  have p: "?P (the_row log_id w) \<longleftrightarrow> ws_witness_id w = i \<and> ws_checkpoint_size w = n" if "w \<in> set ?rows" for w
  proof -
    have w: "witness_ok w" using ok(1) that by blast
    show ?thesis using witness_row_reads_back(4,5) [OF w] witness_okE(1,2) [OF w] assms(2,3) by (simp add: dec_text_inject)
  qed
  have "List.find ?P (witnesses_of log_id tb) = List.find ?P (map (the_row log_id) ?rows)"
  proof (rule find_mset [OF h(8)])
    fix x y assume x: "x \<in> set (map (the_row log_id) ?rows)" "?P x" and y: "y \<in> set (map (the_row log_id) ?rows)" "?P y"
    obtain v where v: "v \<in> set ?rows" "x = the_row log_id v" using x(1) by auto
    obtain w where w: "w \<in> set ?rows" "y = the_row log_id w" using y(1) by auto
    have "witness_key v = witness_key w" using p [OF v(1)] p [OF w(1)] x(2) y(2) unfolding v(2) w(2) by (simp add: witness_key_def)
    then have "v = w" using v(1) w(1) ok(2) by (simp add: distinct_map inj_on_def)
    then show "x = y" using v(2) w(2) by simp
  qed
  also have "\<dots> = map_option (the_row log_id) (List.find (?P \<circ> the_row log_id) ?rows)" by (rule find_map)
  also have "List.find (?P \<circ> the_row log_id) ?rows = List.find (\<lambda>row. ws_witness_id row = i \<and> ws_checkpoint_size row = n) ?rows"
    using p by (intro find_cong) auto
  finally show ?thesis .
qed

lemma sql_get_witness_refines:
  assumes "sql_holds log_id tb e"
  shows "sql_get_witness log_id i n tb = eg_get_witness e i n"
proof (cases "check_witness_key i n")
  case (Inr u)
  then have n: "0 < n" "n < 2 ^ 64" by (auto simp: check_witness_key_def split: if_splits)
  let ?f = "List.find (\<lambda>row. ws_witness_id row = i \<and> ws_checkpoint_size row = n) (cl_witnesses (eg_state e))"
  have "witness_ok w" if "?f = Some w" for w
    using that sql_holdsD(3) [OF assms] by (auto simp: find_Some_iff state_ok_def)
  then show ?thesis
    using Inr find_witness_row [OF assms n, of i] witness_row_reads_back(2) [of _ log_id]
    by (cases ?f) (simp_all add: sql_get_witness_def eg_get_witness_def)
qed (simp add: sql_get_witness_def eg_get_witness_def)

section \<open>Compare and set\<close>

lemma find_witness_error: "find_witness rows k ea nxt = Inl err \<Longrightarrow> err = ContentionError"
  by (induction rows arbitrary: k) (auto split: if_splits)

lemma find_witness_by_key:
  assumes "distinct (map witness_key rows)"
  shows "find_witness rows 0 ea nxt =
    (case List.find (\<lambda>row. witness_key row = witness_key nxt) rows of
       None \<Rightarrow> Inl ContentionError
     | Some cur \<Rightarrow> if ws_attempts cur = ea \<and> ws_checkpoint cur = ws_checkpoint nxt
         then Inr (length (takeWhile (\<lambda>row. witness_key row \<noteq> witness_key nxt) rows), nxt) else Inl ContentionError)"
proof -
  have "find_witness rows k ea nxt =
    (case List.find (\<lambda>row. witness_key row = witness_key nxt) rows of
       None \<Rightarrow> Inl ContentionError
     | Some cur \<Rightarrow> if ws_attempts cur = ea \<and> ws_checkpoint cur = ws_checkpoint nxt
         then Inr (k + length (takeWhile (\<lambda>row. witness_key row \<noteq> witness_key nxt) rows), nxt) else Inl ContentionError)" for k
    by (induction rows arbitrary: k) (auto split: option.split)
  from this [of 0] show ?thesis by (simp only: add_0)
qed

lemma replace_by_key:
  assumes "distinct (map witness_key rows)" "List.find (\<lambda>row. witness_key row = witness_key nxt) rows = Some cur"
  shows "rows[length (takeWhile (\<lambda>row. witness_key row \<noteq> witness_key nxt) rows) := nxt] =
    map (\<lambda>w. if witness_key w = witness_key nxt then nxt else w) rows"
  using assms
proof (induction rows)
  case (Cons row rows)
  show ?case
  proof (cases "witness_key row = witness_key nxt")
    case True
    have "witness_key w \<noteq> witness_key nxt" if "w \<in> set rows" for w
      using Cons.prems(1) True imageI [OF that, of witness_key] by auto
    then have "map (\<lambda>w. if witness_key w = witness_key nxt then nxt else w) rows = rows" by (intro map_idI) simp
    then show ?thesis using True by simp
  next
    case False
    then show ?thesis using Cons by simp
  qed
qed simp

lemma updated_row:
  assumes "witness_ok w" "witness_ok nxt"
  shows "matches_update (the_row l nxt) ea (the_row l w) \<longleftrightarrow> witness_key w = witness_key nxt \<and> ws_attempts w = ea"
    and "witness_key w = witness_key nxt \<Longrightarrow>
      (the_row l w)\<lparr>wt_attempts := wt_attempts (the_row l nxt), wt_witness := wt_witness (the_row l nxt)\<rparr> = the_row l nxt"
proof -
  note r = witness_row_reads_back(3-6) [OF assms(1), of l] witness_row_reads_back(3-6) [OF assms(2), of l]
  show "matches_update (the_row l nxt) ea (the_row l w) \<longleftrightarrow> witness_key w = witness_key nxt \<and> ws_attempts w = ea"
    using row_key_inject [OF assms, of l] r by (auto simp: matches_update_def)
  show "(the_row l w)\<lparr>wt_attempts := wt_attempts (the_row l nxt), wt_witness := wt_witness (the_row l nxt)\<rparr> = the_row l nxt"
    if "witness_key w = witness_key nxt"
    using that r by (intro WitnessRow.equality) (simp_all add: witness_key_def)
qed

text \<open>The \<^verbatim>\<open>UPDATE\<close> of the row of a witness, among those of a log.\<close>

lemma update_rows:
  assumes "sql_holds log_id tb e" "witness_ok nxt" "cur \<in> set (cl_witnesses (eg_state e))" "witness_key cur = witness_key nxt"
  defines "hit \<equiv> matches_update (the_row log_id nxt) (ws_attempts cur)"
  defines "upd \<equiv> \<lambda>r. if hit r then r\<lparr>wt_attempts := wt_attempts (the_row log_id nxt), wt_witness := wt_witness (the_row log_id nxt)\<rparr> else r"
  shows "length (filter hit (tb_witnesses tb)) = 1"
    "mset (map upd (witnesses_of log_id tb)) =
      mset (map (the_row log_id) (map (\<lambda>w. if witness_key w = witness_key nxt then nxt else w) (cl_witnesses (eg_state e))))"
proof -
  note h = sql_holdsD [OF assms(1)]
  let ?rows = "cl_witnesses (eg_state e)"
  have ok: "\<forall>w\<in>set ?rows. witness_ok w" "distinct (map witness_key ?rows)" using h(3) by (simp_all add: state_ok_def)
  have one: "witness_key w = witness_key nxt \<longleftrightarrow> w = cur" if "w \<in> set ?rows" for w
    using that ok(2) assms(3,4) by (auto simp: distinct_map inj_on_def)
  have hits: "hit (the_row log_id w) \<longleftrightarrow> w = cur" if "w \<in> set ?rows" for w
    using updated_row(1) [of w nxt log_id "ws_attempts cur"] ok(1) assms(2) one that by (auto simp: hit_def)
  have "filter hit (tb_witnesses tb) = filter hit (witnesses_of log_id tb)"
    using witness_row_reads_back(3) [OF assms(2), of log_id]
    by (simp add: witnesses_of_def filter_filter) (rule filter_cong, auto simp: hit_def matches_update_def)
  also have "length \<dots> = length (filter hit (map (the_row log_id) ?rows))"
    using h(8) by (metis mset_filter size_mset)
  also have "\<dots> = length (filter (\<lambda>w. w = cur) ?rows)"
    using hits by (simp add: filter_map cong: filter_cong)
  also have "\<dots> = 1"
  proof -
    obtain as bs where "?rows = as @ cur # bs" using split_list [OF assms(3)] by blast
    moreover from this have "filter (\<lambda>w. w = cur) as = []" "filter (\<lambda>w. w = cur) bs = []"
      using ok(2) by (auto simp: filter_empty_conv)
    ultimately show ?thesis by simp
  qed
  finally show "length (filter hit (tb_witnesses tb)) = 1" .
  have "upd (the_row log_id w) = the_row log_id (if witness_key w = witness_key nxt then nxt else w)" if "w \<in> set ?rows" for w
    using hits [OF that] one [OF that] updated_row(2) [of w nxt log_id] ok(1) assms(2,4) that by (auto simp: upd_def)
  then have "map upd (map (the_row log_id) ?rows) = map (the_row log_id) (map (\<lambda>w. if witness_key w = witness_key nxt then nxt else w) ?rows)"
    by simp
  moreover have "mset (map upd (witnesses_of log_id tb)) = mset (map upd (map (the_row log_id) ?rows))"
    using h(8) by (metis mset_map)
  ultimately show "mset (map upd (witnesses_of log_id tb)) =
      mset (map (the_row log_id) (map (\<lambda>w. if witness_key w = witness_key nxt then nxt else w) ?rows))" by (simp only:)
qed

lemma sql_commit_witness_refines:
  assumes "sql_holds log_id tb e"
  shows "case eg_commit_witness e ea nxt of Inl err \<Rightarrow> sql_commit_witness log_id ea nxt tb = Inl err
    | Inr e' \<Rightarrow> \<exists>tb'. sql_commit_witness log_id ea nxt tb = Inr tb' \<and> sql_holds log_id tb' e' \<and> other_logs_kept log_id tb tb'"
proof (cases "bindR (validate_witness InvalidError nxt) (\<lambda>v. bindR (check_expected_attempts ea) (\<lambda>_. Inr v))")
  case (Inl err)
  then show ?thesis by (auto simp: bindR_eq_Inl eg_commit_witness_def apply_witness_def sql_commit_witness_def)
next
  case (Inr v)
  then have v: "validate_witness InvalidError nxt = Inr v" "check_expected_attempts ea = Inr ()" by (auto simp: bindR_eq_Inr)
  then have ok: "witness_ok v" and again: "validate_witness InvalidError v = Inr v" using witness_okI validate_witness_idem by auto
  note h = sql_holdsD [OF assms]
  let ?rows = "cl_witnesses (eg_state e)"
  let ?f = "List.find (\<lambda>row. witness_key row = witness_key v) ?rows"
  have d: "distinct (map witness_key ?rows)" using h(3) by (simp add: state_ok_def)
  have "check_witness_key (ws_witness_id v) (ws_checkpoint_size v) = Inr ()"
    using witness_ok_fields(1) [OF ok] witness_okE(1,2) [OF ok] by (simp add: check_witness_key_def)
  then have g: "sql_get_witness log_id (ws_witness_id v) (ws_checkpoint_size v) tb = Inr ?f"
    unfolding sql_get_witness_refines [OF assms] by (simp add: eg_get_witness_def witness_key_def)
  show ?thesis
  proof (cases ?f)
    case None
    then show ?thesis using v g by (simp add: eg_commit_witness_def apply_witness_def sql_commit_witness_def find_witness_by_key [OF d])
  next
    case (Some cur)
    then have cur: "cur \<in> set ?rows" "witness_key cur = witness_key v" by (auto simp: find_Some_iff)
    show ?thesis
    proof (cases "ws_attempts cur = ea \<and> ws_checkpoint cur = ws_checkpoint v")
      case False
      then show ?thesis using v g again cur(2) Some
        by (auto simp: eg_commit_witness_def apply_witness_def sql_commit_witness_def find_witness_by_key [OF d])
    next
      case True
      let ?upd = "\<lambda>r. if matches_update (the_row log_id v) ea r
        then r\<lparr>wt_attempts := wt_attempts (the_row log_id v), wt_witness := wt_witness (the_row log_id v)\<rparr> else r"
      let ?tb = "tb\<lparr>tb_witnesses := map ?upd (tb_witnesses tb)\<rparr>"
      let ?ws = "map (\<lambda>w. if witness_key w = witness_key v then v else w) ?rows"
      let ?e = "e\<lparr>eg_state := (eg_state e)\<lparr>cl_witnesses := ?ws\<rparr>\<rparr>"
      have e: "eg_commit_witness e ea nxt = Inr ?e"
        using v True Some replace_by_key [OF d Some] by (simp add: eg_commit_witness_def apply_witness_def find_witness_by_key [OF d])
      note u = update_rows [OF assms ok cur, unfolded conjunct1 [OF True]]
      have c: "sql_commit_witness log_id ea nxt tb = Inr ?tb"
        using v g Some again True cur(2) u(1) witness_row_reads_back(1) [OF ok, of log_id]
        by (simp add: sql_commit_witness_def apply_witness_def Let_def)
      have keep: "wt_log_id (?upd r) = wt_log_id r" for r by simp
      have w: "witnesses_of l ?tb = map ?upd (witnesses_of l tb)" for l
        by (simp add: witnesses_of_def filter_map o_def keep)
      have other: "map ?upd (witnesses_of l tb) = witnesses_of l tb" if "l \<noteq> log_id" for l
        using that witness_row_reads_back(3) [OF ok, of log_id] by (intro map_idI) (auto simp: matches_update_def witnesses_of_def)
      have same: "entries_of l ?tb = entries_of l tb" "nodes_of_log l ?tb = nodes_of_log l tb" for l
        by (simp_all add: entries_of_def nodes_of_log_def)
      have "\<exists>raw. sql_metadata (eg_state ?e) = Inr raw \<and> map_of (tb_meta ?tb) log_id = Some raw"
        using assms by (simp add: sql_holds_def Let_def sql_metadata_def)
      moreover have "engine_inv ?e" using eg_commit_witness_ok [OF h(1) e] by blast
      moreover have "mset (witnesses_of log_id ?tb) = mset (map (the_row log_id) ?ws)" unfolding w by (rule u(2))
      ultimately have "sql_holds log_id ?tb ?e"
        using h(5-7) by (simp add: sql_holds_def same del: mset_map map_map)
      moreover have "other_logs_kept log_id tb ?tb" by (simp add: other_logs_kept_def w other same)
      ultimately show ?thesis using c e by simp
    qed
  qed
qed

end
