(* ===== verification/Sql_Runs.thy ===== *)
theory Sql_Runs
  imports Sql_Witnesses
begin

text \<open>
  Logs in one database file, used through any number of handles of \<^verbatim>\<open>cll/log/sqlite.py\<close>: a run is a sequence of
  calls, each by a handle of some log in some condition, with whatever the database does to its transaction. The
  lemmas say that a call keeps what its log holds, and what the other logs hold.
\<close>

section \<open>Other logs\<close>

lemma foldR_kept:
  "foldR f tb xs = Inr tb' \<Longrightarrow> (\<And>a x b. x \<in> set xs \<Longrightarrow> f a x = Inr b \<Longrightarrow> other_logs_kept l a b) \<Longrightarrow> other_logs_kept l tb tb'"
proof (induction xs arbitrary: tb)
  case (Cons x xs)
  then obtain a where a: "f tb x = Inr a" "foldR f a xs = Inr tb'" by (auto simp: bindR_eq_Inr)
  have "other_logs_kept l tb a" using Cons.prems(2) [OF _ a(1)] by simp
  moreover have "other_logs_kept l a tb'" by (rule Cons.IH [OF a(2)]) (use Cons.prems(2) in force)
  ultimately show ?case by (rule kept_trans)
qed simp

lemma insert_entry_kept: "insert_entry r tb = Inr tb' \<Longrightarrow> other_logs_kept (er_log_id r) tb tb'"
  by (auto simp: insert_entry_def other_logs_kept_def entries_of_def nodes_of_log_def witnesses_of_def split: if_splits)

lemma insert_node_kept: "insert_node tb r = Inr tb' \<Longrightarrow> other_logs_kept (nr_log_id r) tb tb'"
  by (auto simp: insert_node_def other_logs_kept_def entries_of_def nodes_of_log_def witnesses_of_def split: if_splits)

lemma insert_witness_kept: "insert_witness tb r = Inr tb' \<Longrightarrow> other_logs_kept (wt_log_id r) tb tb'"
  by (auto simp: insert_witness_def other_logs_kept_def entries_of_def nodes_of_log_def witnesses_of_def split: if_splits)

lemma update_meta_kept: "other_logs_kept l tb (update_meta l raw tb)"
proof -
  have "k \<noteq> l \<Longrightarrow> map_of (map (\<lambda>(k, b). (k, if k = l then raw else b)) ms) k = map_of ms k" for k ms
    by (induction ms) auto
  then show ?thesis by (simp add: other_logs_kept_def update_meta_def entries_of_def nodes_of_log_def witnesses_of_def)
qed

lemma append_kept:
  assumes "sql_append l inp lock tb = Inr (r, tb')"
  shows "other_logs_kept l tb tb'"
proof -
  obtain v t found where f: "check_append inp = Inr (v, t)" "find_entry l v tb = Inr found"
    using assms by (auto simp: sql_append_def bindR_eq_Inr split: if_splits)
  show ?thesis
  proof (cases found)
    case None
    then obtain s seq where "insert_entry \<lparr>er_log_id = l, er_seq = seq, er_value = v, er_appended_at = s\<rparr> tb = Inr tb'"
      using assms f by (auto simp: sql_append_def Let_def bindR_eq_Inr split: if_splits)
    from insert_entry_kept [OF this] show ?thesis by simp
  qed (use assms f in \<open>auto simp: sql_append_def split: if_splits\<close>)
qed

lemma commit_cll_kept:
  assumes "sql_commit_cll l es ec nxt tb = Inr tb'"
  shows "other_logs_kept l tb tb'"
proof -
  obtain current updated :: CllState and raw a where s:
    "foldR insert_node (update_meta l raw tb) (map (node_row l (cl_nodes updated)) [length (cl_nodes current)..<length (cl_nodes updated)]) = Inr a"
    "foldR (\<lambda>tb row. bindR (sql_witness_row l row) (insert_witness tb)) a (drop (length (cl_witnesses current)) (cl_witnesses updated)) = Inr tb'"
    using assms unfolding sql_commit_cll_def bindR_eq_Inr by (elim exE conjE) (rule that)
  have "other_logs_kept l (update_meta l raw tb) a"
    by (rule foldR_kept [OF s(1)]) (use insert_node_kept in \<open>fastforce simp: node_row_def\<close>)
  moreover have "other_logs_kept l a tb'"
    by (rule foldR_kept [OF s(2)]) (use insert_witness_kept in \<open>fastforce simp: bindR_eq_Inr sql_witness_row_def\<close>)
  ultimately show ?thesis using kept_trans update_meta_kept by blast
qed

lemma commit_witness_kept:
  assumes "sql_commit_witness l ea nxt tb = Inr tb'"
  shows "other_logs_kept l tb tb'"
proof -
  obtain u new where n: "sql_witness_row l u = Inr new" "tb' = tb\<lparr>tb_witnesses :=
      map (\<lambda>r. if matches_update new ea r then r\<lparr>wt_attempts := wt_attempts new, wt_witness := wt_witness new\<rparr> else r) (tb_witnesses tb)\<rparr>"
    using assms by (auto simp: sql_commit_witness_def bindR_eq_Inr Let_def split: option.splits if_splits)
  let ?f = "\<lambda>r. if matches_update new ea r then r\<lparr>wt_attempts := wt_attempts new, wt_witness := wt_witness new\<rparr> else r"
  have l: "wt_log_id new = l" using n(1) by (auto simp: sql_witness_row_def bindR_eq_Inr)
  have "filter (\<lambda>r. wt_log_id r = k) (map ?f rs) = filter (\<lambda>r. wt_log_id r = k) rs" if "k \<noteq> l" for k rs
    using that l by (induction rs) (auto simp: matches_update_def)
  then show ?thesis by (simp add: n(2) other_logs_kept_def entries_of_def nodes_of_log_def witnesses_of_def)
qed

section \<open>Calls\<close>

datatype SqliteOp =
    SqAppend AppendInput
  | SqCommitCll int "bytes option" CllState
  | SqCommitWitness int WitnessState

fun sq_small :: "SqliteOp \<Rightarrow> bool" where
  "sq_small (SqCommitCll es ec nxt) = (cl_size nxt < 2 ^ 64)"
| "sq_small _ = True"

fun sq_engine_op :: "SqliteOp \<Rightarrow> EngineOp" where
  "sq_engine_op (SqAppend inp) = OpAppend inp"
| "sq_engine_op (SqCommitCll es ec nxt) = OpCommitCll es ec nxt"
| "sq_engine_op (SqCommitWitness ea nxt) = OpCommitWitness ea nxt"

fun sl_op :: "SqliteIo \<Rightarrow> SqliteOp \<Rightarrow> SqliteStore \<Rightarrow> unit res \<times> SqliteStore" where
  "sl_op io (SqAppend inp) st = (case sl_append io st inp of (r, st') \<Rightarrow> (bindR r (\<lambda>_. Inr ()), st'))"
| "sl_op io (SqCommitCll es ec nxt) st = sl_commit_cll io st es ec nxt"
| "sl_op io (SqCommitWitness ea nxt) st = sl_commit_witness io st ea nxt"

text \<open>A call: by a handle of which log, whether it was closed or holds on to a failed transaction, and what the
  database does. What is committed is the same for every handle.\<close>

record SqliteCall =
  ca_log :: pytext
  ca_closed :: bool
  ca_open :: bool
  ca_io :: SqliteIo
  ca_op :: SqliteOp

definition handle :: "pytext \<Rightarrow> Tables \<Rightarrow> SqliteStore" where
  "handle l tb = \<lparr>sl_tables = tb, sl_log_id = l, sl_closed = False, sl_open = False\<rparr>"

definition db_call :: "SqliteCall \<Rightarrow> Tables \<Rightarrow> unit res \<times> Tables" where
  "db_call c tb =
     (case sl_op (ca_io c) (ca_op c) ((handle (ca_log c) tb)\<lparr>sl_closed := ca_closed c, sl_open := ca_open c\<rparr>) of
        (r, st) \<Rightarrow> (r, sl_tables st))"

definition db_run :: "SqliteCall list \<Rightarrow> Tables \<Rightarrow> Tables" where
  "db_run calls tb = fold (\<lambda>c tb. snd (db_call c tb)) calls tb"

text \<open>The operations on one log that returned.\<close>

fun db_done :: "pytext \<Rightarrow> SqliteCall list \<Rightarrow> Tables \<Rightarrow> SqliteOp list" where
  "db_done l [] tb = []"
| "db_done l (c # cs) tb =
     (if ca_log c = l \<and> fst (db_call c tb) = Inr () then [ca_op c] else []) @ db_done l cs (snd (db_call c tb))"

lemma transaction_cases:
  assumes "sl_transaction io st body = (r, st')"
  obtains err where "r = Inl err" "sl_tables st' = sl_tables st"
    | x tb where "body (sl_tables st) = Inr (x, tb)" "r = Inr x" "sl_tables st' = tb"
  using assms by (auto simp: sl_transaction_def split: if_splits option.splits sum.splits prod.splits)

lemma db_call_other: "other_logs_kept (ca_log c) tb (snd (db_call c tb))"
proof -
  let ?h = "(handle (ca_log c) tb)\<lparr>sl_closed := ca_closed c, sl_open := ca_open c\<rparr>"
  have "other_logs_kept (ca_log c) tb (sl_tables st')" if o: "sl_op (ca_io c) op ?h = (r, st')" for op r st'
  proof (cases op)
    case (SqAppend inp)
    then obtain q where "sl_transaction (ca_io c) ?h (sql_append (ca_log c) inp False) = (q, st')"
      using o by (auto simp: sl_append_def handle_def split: prod.splits)
    then show ?thesis by (cases rule: transaction_cases) (auto simp: handle_def dest: append_kept)
  next
    case (SqCommitCll es ec nxt)
    then have "sl_transaction (ca_io c) ?h (\<lambda>tb. bindR (sql_commit_cll (ca_log c) es ec nxt tb) (\<lambda>tb. Inr ((), tb))) = (r, st')"
      using o by (simp add: sl_commit_cll_def sl_write_def handle_def)
    then show ?thesis by (cases rule: transaction_cases) (auto simp: handle_def bindR_eq_Inr dest: commit_cll_kept)
  next
    case (SqCommitWitness ea nxt)
    then have "sl_transaction (ca_io c) ?h (\<lambda>tb. bindR (sql_commit_witness (ca_log c) ea nxt tb) (\<lambda>tb. Inr ((), tb))) = (r, st')"
      using o by (simp add: sl_commit_witness_def sl_write_def handle_def)
    then show ?thesis by (cases rule: transaction_cases) (auto simp: handle_def bindR_eq_Inr dest: commit_witness_kept)
  qed
  then show ?thesis by (simp add: db_call_def split: prod.split)
qed

section \<open>A call on a log\<close>

text \<open>What a call of its log does: the operation of the engine, or nothing.\<close>

lemma body_refines:
  assumes "sql_holds l tb e" "sq_small op"
    "sl_op io op st = (r, st')" "sl_tables st = tb" "sl_log_id st = l"
  shows "(r = Inr () \<and> (\<exists>e'. engine_op (sq_engine_op op) e = Inr e' \<and> sql_holds l (sl_tables st') e')) \<or>
    (\<exists>err. r = Inl err) \<and> sl_tables st' = tb"
proof (cases op)
  case (SqAppend inp)
  then obtain q where q: "sl_transaction io st (sql_append l inp False) = (q, st')" "r = bindR q (\<lambda>_. Inr ())"
    using assms(3,5) by (auto simp: sl_append_def split: prod.splits)
  from q(1) show ?thesis
  proof (cases rule: transaction_cases)
    case (2 x tb')
    then show ?thesis using sql_append_refines [OF assms(1), of inp False] assms(4) q(2) SqAppend
      by (auto split: sum.splits prod.splits)
  qed (use q(2) assms(4) in simp)
next
  case (SqCommitCll es ec nxt)
  then have "sl_transaction io st (\<lambda>tb. bindR (sql_commit_cll l es ec nxt tb) (\<lambda>tb. Inr ((), tb))) = (r, st')"
    using assms(3,5) by (simp add: sl_commit_cll_def sl_write_def)
  then show ?thesis
  proof (cases rule: transaction_cases)
    case (2 x tb')
    then show ?thesis using sql_commit_cll_refines [OF assms(1), of nxt es ec] assms(2,4) SqCommitCll
      by (auto simp: bindR_eq_Inr split: sum.splits)
  qed (use assms(4) in simp)
next
  case (SqCommitWitness ea nxt)
  then have "sl_transaction io st (\<lambda>tb. bindR (sql_commit_witness l ea nxt tb) (\<lambda>tb. Inr ((), tb))) = (r, st')"
    using assms(3,5) by (simp add: sl_commit_witness_def sl_write_def)
  then show ?thesis
  proof (cases rule: transaction_cases)
    case (2 x tb')
    then show ?thesis using sql_commit_witness_refines [OF assms(1), of ea nxt] assms(4) SqCommitWitness
      by (auto simp: bindR_eq_Inr split: sum.splits)
  qed (use assms(4) in simp)
qed

lemma db_run_holds:
  "sql_holds l tb e \<Longrightarrow> \<forall>c\<in>set calls. ca_log c = l \<longrightarrow> sq_small (ca_op c) \<Longrightarrow>
     sql_holds l (db_run calls tb) (engine_run (map sq_engine_op (db_done l calls tb)) e)"
proof (induction calls arbitrary: tb e)
  case (Cons c calls)
  let ?tb = "snd (db_call c tb)"
  show ?case
  proof (cases "ca_log c = l")
    case False
    then have "sql_holds l ?tb e" using other_logs_hold [OF db_call_other [of c tb]] Cons.prems(1) by simp
    from Cons.IH [OF this] show ?thesis using Cons.prems(2) False by (simp add: db_run_def)
  next
    case True
    let ?h = "(handle l tb)\<lparr>sl_closed := ca_closed c, sl_open := ca_open c\<rparr>"
    obtain r st' where o: "sl_op (ca_io c) (ca_op c) ?h = (r, st')" by fastforce
    then have c: "db_call c tb = (r, sl_tables st')" by (simp add: db_call_def True)
    have "sq_small (ca_op c)" using Cons.prems(2) True by simp
    from body_refines [OF Cons.prems(1) this o] consider
        e' where "r = Inr ()" "engine_op (sq_engine_op (ca_op c)) e = Inr e'" "sql_holds l ?tb e'"
      | err where "r = Inl err" "?tb = tb" by (auto simp: c handle_def)
    then show ?thesis
    proof cases
      case 1
      from Cons.IH [OF 1(3)] show ?thesis using Cons.prems(2) 1(1,2) by (simp add: db_run_def engine_run_def c True)
    next
      case 2
      then show ?thesis using Cons.IH [OF Cons.prems(1)] Cons.prems(2) by (simp add: db_run_def c)
    qed
  qed
qed (simp add: db_run_def engine_run_def)

section \<open>Opening\<close>

definition fresh :: "pytext \<Rightarrow> Tables option \<Rightarrow> bool" where
  "fresh l db \<longleftrightarrow> (case db of None \<Rightarrow> True | Some tb \<Rightarrow>
     entries_of l tb = [] \<and> nodes_of_log l tb = [] \<and> witnesses_of l tb = [] \<and> map_of (tb_meta tb) l = None)"

lemma provision_fresh:
  assumes "fresh l db"
  obtains tb where "provision l db = Inr tb" "sql_holds l tb new_engine"
proof -
  obtain raw where raw: "sql_metadata empty_cll_state = Inr raw"
    using metadata_reads_back [OF state_ok_empty] by (auto simp: empty_cll_state_def)
  let ?tb = "case db of None \<Rightarrow> no_rows | Some tb \<Rightarrow> tb"
  let ?new = "?tb\<lparr>tb_meta := tb_meta ?tb @ [(l, raw)]\<rparr>"
  have f: "entries_of l ?tb = []" "nodes_of_log l ?tb = []" "witnesses_of l ?tb = []" "map_of (tb_meta ?tb) l = None"
    using assms by (auto simp: fresh_def no_rows_def entries_of_def nodes_of_log_def witnesses_of_def split: option.splits)
  then have "provision l db = Inr ?new" using raw by (simp add: provision_def Let_def)
  moreover have "entries_of l ?new = []" "nodes_of_log l ?new = []" "witnesses_of l ?new = []"
    using f(1-3) by (simp_all add: entries_of_def nodes_of_log_def witnesses_of_def)
  then have "sql_holds l ?new new_engine"
    using raw f(4) engine_inv_new by (simp add: sql_holds_def new_engine_def empty_cll_state_def map_add_def)
  ultimately show thesis by (rule that)
qed

lemma open_reads:
  assumes "sql_holds l tb e"
  shows "sl_read quiet_io (handle l tb) (\<lambda>tb. bindR (sql_validate_entries l tb) (\<lambda>_. sql_load_state l tb)) =
    (sql_load_state l tb, handle l tb)" "\<exists>s. sql_load_state l tb = Inr s"
proof -
  show s: "\<exists>s. sql_load_state l tb = Inr s" using load_state_refines [OF assms] by blast
  then show "sl_read quiet_io (handle l tb) (\<lambda>tb. bindR (sql_validate_entries l tb) (\<lambda>_. sql_load_state l tb)) =
    (sql_load_state l tb, handle l tb)"
    using validate_entries_refines [OF assms] by (auto simp: sl_read_def sl_transaction_def quiet_io_def handle_def)
qed

lemma init_fresh:
  assumes "fresh l db" "path \<noteq> []" "validate_identifier l"
  shows "\<exists>tb. sqlite_init quiet_io path l db = (Inr (), Some tb)"
    "sqlite_init io path l db = (Inr (), Some tb) \<Longrightarrow> sql_holds l tb new_engine"
proof -
  obtain tb0 where p: "provision l db = Inr tb0" "sql_holds l tb0 new_engine" by (rule provision_fresh [OF assms(1)])
  show "\<exists>tb. sqlite_init quiet_io path l db = (Inr (), Some tb)"
    using p(1) assms(2,3) open_reads [OF p(2)] by (auto simp: sqlite_init_def sl_open_log_def handle_def)
  show "sqlite_init io path l db = (Inr (), Some tb) \<Longrightarrow> sql_holds l tb new_engine"
    using p assms(2,3) by (auto simp: sqlite_init_def sl_open_log_def split: sum.splits prod.splits)
qed

lemma open_held:
  assumes "sql_holds l tb e" "path \<noteq> []" "validate_identifier l"
  shows "sqlite_open quiet_io path l (Some tb) = (Inr (handle l tb), Some tb)"
  using assms(2,3) open_reads [OF assms(1)] by (auto simp: sqlite_open_def sl_open_log_def handle_def)

section \<open>The store as an engine\<close>

text \<open>Every operation of a handle, when the database does not fail, returns what the engine of \<^verbatim>\<open>engine.py\<close> returns;
  the witness rows of a loaded state come in the order of their keys.\<close>

definition answers_as :: "SqliteStore \<Rightarrow> Engine \<Rightarrow> bool" where
  "answers_as st e \<longleftrightarrow>
     (\<forall>inp. fst (sl_append quiet_io st inp) = bindR (eg_append e inp) (\<lambda>(r, _). Inr r)) \<and>
     (\<forall>es ec nxt. cl_size nxt < 2 ^ 64 \<longrightarrow>
        fst (sl_commit_cll quiet_io st es ec nxt) = bindR (eg_commit_cll e es ec nxt) (\<lambda>_. Inr ())) \<and>
     (\<forall>ea nxt. fst (sl_commit_witness quiet_io st ea nxt) = bindR (eg_commit_witness e ea nxt) (\<lambda>_. Inr ())) \<and>
     (\<forall>v. fst (sl_get_entry quiet_io st v) = eg_get_entry e v) \<and>
     fst (sl_entry_count quiet_io st) = Inr (int (length (eg_entries e))) \<and>
     (\<forall>a n. fst (sl_scan_entries quiet_io st a n) = eg_scan_entries e a n) \<and>
     (\<exists>ws. fst (sl_load_cll quiet_io st) = Inr (eg_state e\<lparr>cl_witnesses := ws\<rparr>) \<and> mset ws = mset (cl_witnesses (eg_state e))) \<and>
     (\<forall>now n. fst (sl_pending_witnesses quiet_io st now n) = eg_pending_witnesses e now n) \<and>
     (\<forall>w now n. fst (sl_pending_witnesses_for quiet_io st w now n) = eg_pending_witnesses_for e w now n) \<and>
     (\<forall>w n. fst (sl_get_witness quiet_io st w n) = eg_get_witness e w n)"

lemma quiet_results:
  "fst (sl_transaction quiet_io (handle l tb) body) = bindR (body tb) (\<lambda>(x, _). Inr x)"
  "fst (sl_read quiet_io (handle l tb) f) = f tb"
  "fst (sl_write quiet_io (handle l tb) g) = bindR (g tb) (\<lambda>_. Inr ())"
  by (auto simp: sl_transaction_def sl_read_def sl_write_def quiet_io_def handle_def bindR_def split: sum.splits)

lemma handle_sel [simp]: "sl_log_id (handle l tb) = l" "sl_tables (handle l tb) = tb"
  by (simp_all add: handle_def)

lemma held_answers:
  assumes "sql_holds l tb e"
  shows "answers_as (handle l tb) e"
  unfolding answers_as_def
proof (intro conjI allI impI)
  show "fst (sl_append quiet_io (handle l tb) inp) = bindR (eg_append e inp) (\<lambda>(r, _). Inr r)" for inp
    using sql_append_refines [OF assms, of inp False]
    by (cases "eg_append e inp") (auto simp: sl_append_def quiet_results)
  show "fst (sl_commit_cll quiet_io (handle l tb) es ec nxt) = bindR (eg_commit_cll e es ec nxt) (\<lambda>_. Inr ())"
    if "cl_size nxt < 2 ^ 64" for es ec nxt
    using sql_commit_cll_refines [OF assms that, of es ec]
    by (cases "eg_commit_cll e es ec nxt") (auto simp: sl_commit_cll_def quiet_results)
  show "fst (sl_commit_witness quiet_io (handle l tb) ea nxt) = bindR (eg_commit_witness e ea nxt) (\<lambda>_. Inr ())" for ea nxt
    using sql_commit_witness_refines [OF assms, of ea nxt]
    by (cases "eg_commit_witness e ea nxt") (auto simp: sl_commit_witness_def quiet_results)
  show "\<exists>ws. fst (sl_load_cll quiet_io (handle l tb)) = Inr (eg_state e\<lparr>cl_witnesses := ws\<rparr>) \<and> mset ws = mset (cl_witnesses (eg_state e))"
    using load_state_refines [OF assms] by (simp add: sl_load_cll_def quiet_results)
qed (simp_all add: sl_get_entry_def sl_entry_count_def sl_scan_entries_def sl_pending_witnesses_def sl_pending_witnesses_for_def
    sl_get_witness_def quiet_results sql_get_entry_refines [OF assms] sql_entry_count_refines [OF assms] sql_scan_refines [OF assms]
    sql_pending_refines [OF assms] sql_get_witness_refines [OF assms])

section \<open>Properties\<close>

text \<open>
  C40. The SQLite store implements the log engine. A log is initialised in a database that has no rows of it; then any
  calls of any handles of this and other logs of the database follow, committed sizes below 2 to the 64,
  with handles closed or holding on to a failed transaction, \<^verbatim>\<open>BEGIN\<close> and \<^verbatim>\<open>COMMIT\<close> failing at will. Then
  \<^verbatim>\<open>open\<close> accepts the log, and every operation of the handle, when the database does not fail, returns what the
  engine returns that ran, from empty, exactly the calls on this log that returned: appends, lookups, scans, both
  compare-and-sets with their errors, and the witness queries. So a call that raised left nothing behind, and no
  log sees another.
\<close>

theorem sqlite_implements_engine:
  assumes "fresh l db" "sqlite_init io path l db = (Inr (), Some tb0)"
    "\<forall>c\<in>set calls. ca_log c = l \<longrightarrow> sq_small (ca_op c)" "tb = db_run calls tb0"
  shows "sqlite_open quiet_io path l (Some tb) = (Inr (handle l tb), Some tb) \<and>
    answers_as (handle l tb) (engine_run (map sq_engine_op (db_done l calls tb0)) new_engine)"
proof -
  have p: "path \<noteq> []" "validate_identifier l" using assms(2) by (auto simp: sqlite_init_def sl_open_log_def split: if_splits)
  from db_run_holds [OF init_fresh(2) [OF assms(1) p assms(2)] assms(3)]
  have "sql_holds l tb (engine_run (map sq_engine_op (db_done l calls tb0)) new_engine)" by (simp add: assms(4))
  then show ?thesis using open_held [OF _ p] held_answers by blast
qed

theorem sqlite_implements_engine_witness:
  "\<exists>tb0 tb. sqlite_init quiet_io (text_of ''db'') (text_of ''a'') None = (Inr (), Some tb0) \<and>
     db_done (text_of ''a'') [\<lparr>ca_log = text_of ''a'', ca_closed = False, ca_open = False, ca_io = \<lparr>sio_begin_fails = Some ContentionError, sio_commit_fails = None\<rparr>,
          ca_op = SqAppend \<lparr>ai_value = replicate 32 7, ai_appended_at = Aware 0\<rparr>\<rparr>,
        \<lparr>ca_log = text_of ''a'', ca_closed = False, ca_open = False, ca_io = quiet_io,
          ca_op = SqAppend \<lparr>ai_value = replicate 32 8, ai_appended_at = Aware 0\<rparr>\<rparr>] tb0 =
       [SqAppend \<lparr>ai_value = replicate 32 8, ai_appended_at = Aware 0\<rparr>] \<and>
     sqlite_open quiet_io (text_of ''db'') (text_of ''a'') (Some tb) = (Inr (handle (text_of ''a'') tb), Some tb) \<and>
     fst (sl_get_entry quiet_io (handle (text_of ''a'') tb) (replicate 32 8)) =
       Inr \<lparr>en_seq = 1, en_value = replicate 32 8, en_appended_at = Aware 0\<rparr> \<and>
     fst (sl_get_entry quiet_io (handle (text_of ''a'') tb) (replicate 32 7)) = Inl NotFoundError"
  (is "\<exists>tb0 tb. _ = (Inr (), Some tb0) \<and> db_done ?l [?c1, ?c2] tb0 = [?op] \<and> _ tb \<and> _ tb \<and> _ tb")
proof -
  have f: "fresh ?l None" "validate_identifier ?l" "text_of ''db'' \<noteq> []"
    by (simp_all add: fresh_def validate_identifier_def text_of_def identifier_char_def MAX_IDENTIFIER_BYTES_def)
  obtain tb0 where i: "sqlite_init quiet_io (text_of ''db'') ?l None = (Inr (), Some tb0)" using init_fresh(1) [OF f(1,3,2)] by blast
  note h = init_fresh(2) [OF f(1,3,2) i]
  let ?e = "\<lparr>en_seq = 1, en_value = replicate 32 8, en_appended_at = Aware 0\<rparr>"
  have a: "eg_append new_engine \<lparr>ai_value = replicate 32 8, ai_appended_at = Aware 0\<rparr> = Inr (\<lparr>ar_entry = ?e, ar_outcome = INSERTED\<rparr>,
      new_engine\<lparr>eg_entries := [?e], eg_by_value := [replicate 32 8 \<mapsto> 0]\<rparr>)"
    by (simp add: eg_append_def check_append_def check_value_def width_def ENTRY_BYTES_def new_engine_def normalize_time_def
        MAX_MICROS_def MAX_PORTABLE_INTEGER_def Let_def)
  have c1: "db_call ?c1 tb0 = (Inl ContentionError, tb0)"
    by (simp add: db_call_def sl_append_def sl_transaction_def handle_def)
  obtain tb where c2: "db_call ?c2 tb0 = (Inr (), tb)"
    using sql_append_refines [OF h, of "\<lparr>ai_value = replicate 32 8, ai_appended_at = Aware 0\<rparr>" False] a
    by (auto simp: db_call_def sl_append_def sl_transaction_def handle_def quiet_io_def)
  have d: "db_done ?l [?c1, ?c2] tb0 = [?op]" "db_run [?c1, ?c2] tb0 = tb" using c1 c2 by (simp_all add: db_run_def)
  have r: "engine_run [OpAppend \<lparr>ai_value = replicate 32 8, ai_appended_at = Aware 0\<rparr>] new_engine =
      new_engine\<lparr>eg_entries := [?e], eg_by_value := [replicate 32 8 \<mapsto> 0]\<rparr>" using a by (simp add: engine_run_def)
  have "sqlite_open quiet_io (text_of ''db'') ?l (Some tb) = (Inr (handle ?l tb), Some tb) \<and>
      answers_as (handle ?l tb) (engine_run (map sq_engine_op (db_done ?l [?c1, ?c2] tb0)) new_engine)"
    by (rule sqlite_implements_engine [OF f(1) i _ d(2) [symmetric]]) simp
  then have "sqlite_open quiet_io (text_of ''db'') ?l (Some tb) = (Inr (handle ?l tb), Some tb) \<and>
      answers_as (handle ?l tb) (new_engine\<lparr>eg_entries := [?e], eg_by_value := [replicate 32 8 \<mapsto> 0]\<rparr>)"
    unfolding d(1) using r by simp
  then show ?thesis using i d(1)
    by (intro exI [of _ tb0] exI [of _ tb])
      (simp add: answers_as_def eg_get_entry_def check_value_def width_def ENTRY_BYTES_def new_engine_def)
qed

end
