(* ===== verification/Spec2Isabelle.thy ===== *)
theory Spec2Isabelle
  imports Mmr_Index Mmr_Binding Log_Journal Log_Ledger Checkpoint_Emit Checkpoint_Stamps Checkpoint_Runs Witness_Runs Bundle_Proofs
    Ledger_Closing Sql_Runs
begin

text \<open>
  Verification of the Checkpointed Local Log: the Python package \<^verbatim>\<open>cll\<close> under \<^verbatim>\<open>src/python\<close>. A log is an
  append-only list of 32-byte entries. A runner folds them into a Merkle Mountain Range (MMR), signs checkpoints of
  its root, and delivers each checkpoint to witnesses; proofs and evidence bundles let a stranger check a record
  offline. The definitions follow the functions of the source by name, with a few suffixes and prefixes where the
  name is taken: \<open>ml_\<close> for \<^verbatim>\<open>MmrLedger\<close>, \<open>eg_\<close> for \<^verbatim>\<open>Engine\<close>, \<open>mem_\<close>, \<open>js_\<close> and \<open>sl_\<close> for the three stores, \<open>le_\<close>
  for \<^verbatim>\<open>LedgerEntryStore\<close>, \<open>ck_\<close>, \<open>wi_\<close>, \<open>cl_\<close>, \<open>ws_\<close>, \<open>bu_\<close> for fields of records.

  \<^bold>\<open>Conventions.\<close> A call that may raise returns \<open>py_error + 'a\<close>, \<open>Inl\<close> the exception (\<open>Prelude\<close>); a method is a
  function of its object's state, given back updated. Python integers are \<open>int\<close> or \<open>nat\<close>, bytes are lists of
  \<open>8 word\<close>, a text is the list of its code points (\<open>pytext\<close>), so that lone surrogates and the UTF-8 length are
  those of Python. A JSON or CBOR member of the wrong type is refused with \<open>TypeError\<close> where a dataclass would store
  it unread. Locks are the atomicity of an operation; threads that share a store are interleavings of operations.

  \<^bold>\<open>Merkle Mountain Range\<close> (\<^verbatim>\<open>checkpoint/core.py\<close>, \<^verbatim>\<open>store.py\<close>, \<^verbatim>\<open>index.py\<close>). \<open>Sha256\<close> is SHA-256 on words.
  \<open>Mmr_Core\<close> holds hashing, positions and \<open>add_leaf\<close>; \<open>Mmr_Proofs\<close> the inclusion, consistency and range proofs with
  their verifiers; \<open>Mmr_Index\<close> the node store and \<^verbatim>\<open>MmrLedger\<close>. \<open>Mmr_Positions\<close> shows that sizes and positions are
  those of the mountains of a leaf count; \<open>Mmr_Append\<close> (locale \<open>node_store\<close>, interpreted on \<^verbatim>\<open>MemoryNodeStore\<close>) that
  appending keeps the node array the MMR of the leaves; \<open>Mmr_Complete\<close> that honest proofs verify; \<open>Mmr_Binding\<close> that
  an accepted proof fixes what it is about, given that SHA-256 does not collide on the finitely many inputs named.

  \<^bold>\<open>The log\<close> (\<^verbatim>\<open>log/\<close>). \<open>Log_Values\<close> has the value types, limits and validation, \<open>Log_Engine\<close> the transitions of
  \<^verbatim>\<open>engine.py\<close> with their invariant, \<open>Log_Stores\<close> the in-memory store and the contracts its clients rely on (locales
  \<open>entry_source\<close>, \<open>checkpoint_store\<close>, \<open>witness_store\<close>), \<open>Json_Text\<close> and \<open>Log_Wire\<close> the JSON text and wire forms,
  \<open>Log_Journal\<close> the journal file as bytes with an operating system that may fail at every call, and \<open>Log_Ledger\<close> the
  adapters to ledger records. Each contract is interpreted on both the in-memory and the journal store. The journal
  theorems say that the file replays to the engine in memory, whatever fails, up to one torn line once undoing a write failed.
  \<open>Sql_Tables\<close> is \<^verbatim>\<open>sql.py\<close>, its statements on tables that several logs share, and \<open>Sqlite_Store\<close> is \<^verbatim>\<open>sqlite.py\<close>, with a
  database that may fail when a transaction begins or commits. \<open>Sql_Rows\<close> shows that rows are read back as written and that the
  order of insertion does not matter, \<open>Sql_Refines\<close>, \<open>Sql_State\<close> and \<open>Sql_Witnesses\<close> (relation \<open>sql_holds\<close>) that each
  operation refines that of the engine, \<open>Sql_Runs\<close> that so does any run of calls of any handles.

  \<^bold>\<open>Checkpoints\<close> (\<^verbatim>\<open>checkpoint/\<close>, \<^verbatim>\<open>ed25519.py\<close>, \<^verbatim>\<open>cbor.py\<close>). \<open>Checkpoint_Record\<close>, \<open>Checkpoint_Emit\<close> and
  \<open>Checkpoint_Stamps\<close> are \<^verbatim>\<open>emit.py\<close>: the record and its digests, emission with rollback detection, registration,
  stamp verdicts and the grade. \<open>Ed25519_Checks\<close> and \<open>Cbor\<close>, \<open>Cbor_Keys\<close> are the checks made beside the packages.
  \<open>Cose_Wire\<close> and \<open>Cose_Statement\<close> are the signed COSE form of \<^verbatim>\<open>cose_wire.py\<close> and its signer.

  \<^bold>\<open>Runners\<close>. \<open>Checkpoint_Runner\<close> is \<^verbatim>\<open>runner.py\<close>: load, verify, index a page, sign when due, commit. A runner's
  lock keeps out only its own other passes, so \<open>Checkpoint_Steps\<close> takes a pass apart: \<open>log_step\<close> is the step relation
  of a store with producers, delivery workers and any number of passes, each between its load, its scan and its commit;
  whole passes are sequences of these steps (\<open>run_once_steps\<close>, \<open>catch_up_steps\<close>). \<open>Checkpoint_Runs\<close> proves its invariant and what the
  compare-and-set of the commit secures, that catching up ends without another writer, and that what is signed is accepted on the next load. \<open>Witness_Delivery\<close> is \<^verbatim>\<open>witness.py\<close>:
  submission, receipt rules, backoff, and a delivery pass as workers that take turns; \<open>Witness_Runs\<close> proves, for
  every interleaving, that a row is delivered only with a receipt its verifier accepted, and which failures of a
  submission are worth a retry; \<open>too_deep\<close> says for which texts \<^verbatim>\<open>json.loads\<close> runs out of stack.

  \<^bold>\<open>Bundles\<close>. \<open>Bundle_Checks\<close> and \<open>Bundle_Proofs\<close> are \<^verbatim>\<open>bundle.py\<close>: a bundle built from an honest log verifies, a
  bundle that verifies is of the log.

  \<^bold>\<open>The ledger\<close> (\<^verbatim>\<open>ledger/\<close>). \<open>Ledger_Records\<close> is \<^verbatim>\<open>admission.py\<close>, \<^verbatim>\<open>records.py\<close> and the values the index binds;
  \<open>Ledger_Segments\<close> is \<^verbatim>\<open>segments.py\<close> with \<^verbatim>\<open>verify_segment\<close> and \<^verbatim>\<open>MmrCheckpointer\<close>; \<open>Ledger_Lookup\<close> is \<^verbatim>\<open>lookup.py\<close>.
  \<^verbatim>\<open>store.py\<close> is \<open>Ledger_Reads\<close> (the store, on disk and in the instance; \<^verbatim>\<open>scan\<close>, \<^verbatim>\<open>fetch\<close>, \<^verbatim>\<open>find_gaps\<close>, the
  lookups), \<open>Ledger_Store\<close> (opening, \<^verbatim>\<open>append\<close>, rotation) and \<open>Ledger_Recovery\<close> (\<^verbatim>\<open>recover\<close>, both rebuilds, the
  archive). Fields carry a prefix: \<open>st_\<close> the instance, \<open>dk_\<close> the disk, \<open>sm_\<close> and \<open>se_\<close> the store manifest and its
  segments, \<open>gm_\<close> a segment manifest, \<open>rw_\<close> an index row, \<open>sr_\<close> a record, \<open>mc_\<close> the checkpointer.
  The abstract view is a list of entries: \<open>stored\<close> (\<open>Ledger_Entries\<close>) says that the segments are the lines of the
  entries and the index has their rows. \<open>Ledger_Append\<close>, \<open>Ledger_Crash\<close> and \<open>Ledger_Archive\<close> show what appending, a
  torn append with its recovery, and moving segments do to the list, \<open>Ledger_Reopen\<close> what a new instance on the directory finds; \<open>Ledger_Steps\<close> puts the
  operations, imports and restarts included, in the step relation \<open>ledger_step\<close> with its invariant \<open>healthy\<close> (\<open>sound\<close>, and the
  manifest saved). \<open>Ledger_Promises\<close> has the properties, most of them over every state \<open>ledger_step\<close> reaches from an
  empty directory, and a concrete store.
  \<open>Ledger_Rotation\<close> states what a store asks of its checkpointer (locale \<open>checkpointer\<close>, interpreted on
  \<^verbatim>\<open>MmrCheckpointer\<close>), and \<open>Ledger_Closing\<close> that a closed segment verifies, and what a verified one binds.

  \<^bold>\<open>Bounds and fuel.\<close> A loop with a measure is a terminating function. \<open>catch_up\<close> takes fuel, because another writer
  could make it contend for ever; \<open>4 * n + 4\<close> iterations are proved enough for a journal of \<open>n\<close> entries, since every
  iteration advances the index, signs, or is followed by one that does. \<open>pool_run\<close> is given the order in which
  workers take turns; it ends for every order that gives each worker one turn per row left to it and one more. The walks over CBOR
  use the length of the input as fuel; MMR sizes are below \<open>MAX_MMR_SIZE\<close>, as the source checks.

  \<^bold>\<open>Parameters.\<close> Third-party code is an argument: \<open>CryptoLib\<close> and \<open>CoseLib\<close> are the functions of \<^verbatim>\<open>cryptography\<close>,
  \<^verbatim>\<open>scitt_cose\<close> and \<^verbatim>\<open>cbor2\<close> the sources call. Hypotheses state only that what was encoded or signed is read back or
  verifies (\<open>reads_back\<close>, \<open>signs_and_reads\<close>), each shown satisfiable by a concrete instance (\<open>sample_lib\<close>). For the
  ledger, \<open>CapsuleLib\<close> has the functions of \<^verbatim>\<open>agent_action_capsule\<close>, \<open>StoreEnv\<close> adds the checkpointer and rare cases
  of the standard library (a text outside ASCII, a name the file system refuses), and \<open>AppendIo\<close> says where an append
  fails; \<open>lib_ok\<close> asks that the identity of a capsule leaves its envelope out and that rereading a line raises
  nothing, and \<open>sample_capsules\<close> satisfies it.

  \<^bold>\<open>Not modelled.\<close> The MySQL store (\<^verbatim>\<open>log/mysql.py\<close>), a third-party driver; the connection, pragmas and error classes of
  SQLite. In the ledger: \<^verbatim>\<open>LedgerStore.verify\<close> and \<^verbatim>\<open>revocation.py\<close>, \<^verbatim>\<open>ledger/checkpoint.py\<close>, the cache of open
  handles, the writer lock and \<^verbatim>\<open>fsync\<close>; an append may fail while it writes its line, its row or its lookup rows, the
  other operations meet no failing disk; \<^verbatim>\<open>reindex\<close> is defined, but \<open>ledger_step\<close> leaves it out, since it classifies every
  entry anew and so may serve one otherwise than it was stored, and appends there are of capsules without float literals
  and lone surrogates (one in a correlation field makes the lookup index raise); the two SQLite tables are lists in the order of their key. \<^verbatim>\<open>signing.py\<close>
  signs capsules with a third-party package. The HTTP exchange, the key fetch of \<^verbatim>\<open>verify_receipt_offline\<close>, the
  waiting threads behind \<^verbatim>\<open>run\<close> and \<^verbatim>\<open>notify\<close>, the command line, the conformance harness and vector generators:
  input and output around the modelled code.
\<close>

end
